(* ===== verification/OS_Prelude.thy ===== *)
theory OS_Prelude
  imports Main "HOL-Library.Word" "HOL-Library.Monad_Syntax"
begin

section \<open>Prelude: the C execution model shared by all components\<close>

text \<open>
  Every C function of the repository is a HOL function into \<open>'a option\<close>, or a total
  function where nothing can go wrong. \<open>None\<close> stands for an execution with no defined result:
  an access outside an array, a null or dangling pointer, a signed overflow, or a loop that
  never ends. An error the code reports itself (\<open>return -1\<close>, \<open>return NULL\<close>) is an ordinary
  value. So a theorem \<open>f s = Some r\<close> also says that the call is free of undefined behaviour
  and returns.

  \<^item> \<open>rd\<close>, \<open>wr\<close>, \<open>rd2\<close>, \<open>wr2\<close>: array accesses with the bounds the declaration gives.
  \<^item> \<open>chk\<close>: the 32-bit range of a signed \<open>int\<close> result.
  \<^item> \<open>for_loop\<close>: \<open>for (i = lo; i < hi; ++i)\<close> without early exit.
  \<^item> \<open>search_first\<close>: the loop that leaves at the first index where a condition holds.
\<close>

named_theorems c_simps \<open>unfolding rules for array accesses and checked arithmetic\<close>

type_synonym size_t = "64 word"
type_synonym c_uint = "32 word"

lemma unat_size_t_less: "unat (w :: size_t) < 2 ^ 64"
proof -
  have "unat w < 2 ^ LENGTH(64)" by (rule unsigned_less)
  then show ?thesis by simp
qed

lemma unat_c_uint_less: "unat (w :: c_uint) < 2 ^ 32"
proof -
  have "unat w < 2 ^ LENGTH(32)" by (rule unsigned_less)
  then show ?thesis by simp
qed

subsection \<open>Signed arithmetic\<close>

definition INT_MAX :: int where
  "INT_MAX = 2147483647"

definition INT_MIN :: int where
  "INT_MIN = - 2147483648"

definition int_ok :: "int \<Rightarrow> bool" where
  "int_ok x \<longleftrightarrow> INT_MIN \<le> x \<and> x \<le> INT_MAX"

definition chk :: "int \<Rightarrow> int option" where
  "chk x = (if int_ok x then Some x else None)"

lemma chk_Some [simp]: "int_ok x \<Longrightarrow> chk x = Some x"
  by (simp add: chk_def)

lemma chk_eq_Some [c_simps]: "chk x = Some y \<longleftrightarrow> int_ok x \<and> y = x"
  by (auto simp: chk_def)

lemma int_okI: "\<lbrakk>- 2147483648 \<le> x; x \<le> 2147483647\<rbrakk> \<Longrightarrow> int_ok x"
  by (simp add: int_ok_def INT_MIN_def INT_MAX_def)

lemma int_ok_between: "\<lbrakk>int_ok a; int_ok b; a \<le> x; x \<le> b\<rbrakk> \<Longrightarrow> int_ok x"
  by (simp add: int_ok_def)

lemma int_ok_0 [simp]: "int_ok 0"
  by (simp add: int_ok_def INT_MIN_def INT_MAX_def)

text \<open>C's division and remainder truncate towards zero.\<close>

definition c_div :: "int \<Rightarrow> int \<Rightarrow> int" where
  "c_div a b = sgn a * sgn b * (\<bar>a\<bar> div \<bar>b\<bar>)"

definition c_mod :: "int \<Rightarrow> int \<Rightarrow> int" where
  "c_mod a b = a - b * c_div a b"

lemma c_div_nonneg: "\<lbrakk>0 \<le> a; 0 < b\<rbrakk> \<Longrightarrow> c_div a b = a div b"
  by (cases "a = 0") (auto simp: c_div_def sgn_if)

lemma c_mod_nonneg: "\<lbrakk>0 \<le> a; 0 < b\<rbrakk> \<Longrightarrow> c_mod a b = a mod b"
  by (simp add: c_mod_def c_div_nonneg minus_mult_div_eq_mod)

subsection \<open>Arrays\<close>

definition rd :: "'a list \<Rightarrow> nat \<Rightarrow> 'a option" where
  "rd xs i = (if i < length xs then Some (xs ! i) else None)"

definition wr :: "'a list \<Rightarrow> nat \<Rightarrow> 'a \<Rightarrow> 'a list option" where
  "wr xs i v = (if i < length xs then Some (xs[i := v]) else None)"

definition rd2 :: "'a list list \<Rightarrow> nat \<Rightarrow> nat \<Rightarrow> 'a option" where
  "rd2 m i j = do { r \<leftarrow> rd m i; rd r j }"

definition wr2 :: "'a list list \<Rightarrow> nat \<Rightarrow> nat \<Rightarrow> 'a \<Rightarrow> 'a list list option" where
  "wr2 m i j v = do { r \<leftarrow> rd m i; r' \<leftarrow> wr r j v; wr m i r' }"

text \<open>An index of type \<open>int\<close>: negative values are outside the array.\<close>

definition rdi :: "'a list \<Rightarrow> int \<Rightarrow> 'a option" where
  "rdi xs i = (if 0 \<le> i then rd xs (nat i) else None)"

definition wri :: "'a list \<Rightarrow> int \<Rightarrow> 'a \<Rightarrow> 'a list option" where
  "wri xs i v = (if 0 \<le> i then wr xs (nat i) v else None)"

lemma rd_Some [simp]: "i < length xs \<Longrightarrow> rd xs i = Some (xs ! i)"
  by (simp add: rd_def)

lemma wr_Some [simp]: "i < length xs \<Longrightarrow> wr xs i v = Some (xs[i := v])"
  by (simp add: wr_def)

lemma rd_None [simp]: "length xs \<le> i \<Longrightarrow> rd xs i = None"
  by (simp add: rd_def)

lemma wr_None [simp]: "length xs \<le> i \<Longrightarrow> wr xs i v = None"
  by (simp add: wr_def)

lemma rd_eq_Some [c_simps]: "rd xs i = Some x \<longleftrightarrow> i < length xs \<and> x = xs ! i"
  by (auto simp: rd_def)

lemma wr_eq_Some [c_simps]: "wr xs i v = Some ys \<longleftrightarrow> i < length xs \<and> ys = xs[i := v]"
  by (auto simp: wr_def)

lemma rd_update: "rd (xs[i := v]) j = (if i = j \<and> i < length xs then Some v else rd xs j)"
  by (auto simp: rd_def nth_list_update)

lemma rd2_Some [simp]: "\<lbrakk>i < length m; j < length (m ! i)\<rbrakk> \<Longrightarrow> rd2 m i j = Some (m ! i ! j)"
  by (simp add: rd2_def)

lemma wr2_Some [simp]:
  "\<lbrakk>i < length m; j < length (m ! i)\<rbrakk> \<Longrightarrow> wr2 m i j v = Some (m[i := (m ! i)[j := v]])"
  by (simp add: wr2_def)

lemma rdi_Some [simp]: "\<lbrakk>0 \<le> i; nat i < length xs\<rbrakk> \<Longrightarrow> rdi xs i = Some (xs ! nat i)"
  by (simp add: rdi_def)

lemma wri_Some [simp]: "\<lbrakk>0 \<le> i; nat i < length xs\<rbrakk> \<Longrightarrow> wri xs i v = Some (xs[nat i := v])"
  by (simp add: wri_def)

subsection \<open>Counting loops\<close>

primrec foldM :: "('a \<Rightarrow> 's \<Rightarrow> 's option) \<Rightarrow> 'a list \<Rightarrow> 's \<Rightarrow> 's option" where
  "foldM f [] s = Some s"
| "foldM f (x # xs) s = do { s' \<leftarrow> f x s; foldM f xs s' }"

definition for_loop :: "nat \<Rightarrow> nat \<Rightarrow> (nat \<Rightarrow> 's \<Rightarrow> 's option) \<Rightarrow> 's \<Rightarrow> 's option" where
  "for_loop lo hi f s = foldM f [lo..<hi] s"

lemma foldM_append: "foldM f (xs @ ys) s = do { s' \<leftarrow> foldM f xs s; foldM f ys s' }"
  by (induction xs arbitrary: s) (auto split: bind_split)

lemma foldM_cong [fundef_cong]:
  "\<lbrakk>xs = ys; s = t; \<And>x u. x \<in> set ys \<Longrightarrow> f x u = g x u\<rbrakk> \<Longrightarrow> foldM f xs s = foldM g ys t"
proof (induction xs arbitrary: s t ys)
  case (Cons x xs)
  then show ?case by (auto split: bind_split)
qed simp

lemma for_loop_empty [simp]: "hi \<le> lo \<Longrightarrow> for_loop lo hi f s = Some s"
  by (simp add: for_loop_def)

lemma for_loop_Suc:
  "lo \<le> hi \<Longrightarrow> for_loop lo (Suc hi) f s = do { s' \<leftarrow> for_loop lo hi f s; f hi s' }"
  by (simp add: for_loop_def foldM_append)

lemma for_loop_step:
  "lo < hi \<Longrightarrow> for_loop lo hi f s = do { s' \<leftarrow> f lo s; for_loop (Suc lo) hi f s' }"
  by (simp add: for_loop_def upt_conv_Cons)

lemma for_loop_cong:
  "(\<And>i u. \<lbrakk>lo \<le> i; i < hi\<rbrakk> \<Longrightarrow> f i u = g i u) \<Longrightarrow> for_loop lo hi f s = for_loop lo hi g s"
  unfolding for_loop_def by (rule foldM_cong) auto

text \<open>The invariant rule: total correctness of a counting loop.\<close>

lemma for_loop_invar:
  assumes "lo \<le> hi" and "P lo s"
    and "\<And>i s. \<lbrakk>lo \<le> i; i < hi; P i s\<rbrakk> \<Longrightarrow> \<exists>s'. f i s = Some s' \<and> P (Suc i) s'"
  shows "\<exists>s'. for_loop lo hi f s = Some s' \<and> P hi s'"
  using assms
proof (induction hi)
  case 0
  then show ?case by simp
next
  case (Suc hi)
  show ?case
  proof (cases "lo = Suc hi")
    case True
    with Suc.prems show ?thesis by simp
  next
    case False
    with Suc.prems(1) have le: "lo \<le> hi" by simp
    from Suc.IH [OF le Suc.prems(2)] Suc.prems(3)
    obtain s1 where s1: "for_loop lo hi f s = Some s1" "P hi s1" by force
    from Suc.prems(3) [of hi s1] le s1(2) obtain s2 where "f hi s1 = Some s2" "P (Suc hi) s2"
      by auto
    with s1 le show ?thesis by (simp add: for_loop_Suc)
  qed
qed

text \<open>Partial correctness: what holds of a loop that returned.\<close>

lemma for_loop_partial:
  assumes "for_loop lo hi f s = Some t" and "lo \<le> hi" and "P lo s"
    and "\<And>i s s'. \<lbrakk>lo \<le> i; i < hi; P i s; f i s = Some s'\<rbrakk> \<Longrightarrow> P (Suc i) s'"
  shows "P hi t"
  using assms
proof (induction hi arbitrary: t)
  case 0
  then show ?case by simp
next
  case (Suc hi)
  show ?case
  proof (cases "lo = Suc hi")
    case True
    with Suc.prems show ?thesis by simp
  next
    case False
    with Suc.prems(2) have le: "lo \<le> hi" by simp
    with Suc.prems(1) obtain u where u: "for_loop lo hi f s = Some u" "f hi u = Some t"
      by (auto simp: for_loop_Suc bind_eq_Some_conv)
    have "P hi u" using Suc.IH [OF u(1) le Suc.prems(3)] Suc.prems(4) by simp
    with u(2) le Suc.prems(4) show ?thesis by simp
  qed
qed

text \<open>The loop that stores \<open>g i\<close> into the cells \<open>0, \<dots>, n - 1\<close>.\<close>

lemma for_loop_fill:
  assumes "n \<le> length xs"
  shows "for_loop 0 n (\<lambda>i ys. wr ys i (g i)) xs = Some (map g [0..<n] @ drop n xs)"
  using assms
proof (induction n)
  case (Suc n)
  then have "map g [0..<n] @ drop n xs = map g [0..<n] @ xs ! n # drop (Suc n) xs"
    by (simp add: Cons_nth_drop_Suc)
  with Suc show ?case by (simp add: for_loop_Suc list_update_append)
qed simp

text \<open>Copying a prefix of one array into another.\<close>

lemma for_loop_copy:
  assumes "n \<le> length xs" and "n \<le> length src"
  shows "for_loop 0 n (\<lambda>i ys. do { v \<leftarrow> rd src i; wr ys i v }) xs = Some (take n src @ drop n xs)"
proof -
  have "for_loop 0 n (\<lambda>i ys. do { v \<leftarrow> rd src i; wr ys i v }) xs =
        for_loop 0 n (\<lambda>i ys. wr ys i (src ! i)) xs"
    using assms(2) by (intro for_loop_cong) simp
  also have "\<dots> = Some (map (\<lambda>i. src ! i) [0..<n] @ drop n xs)"
    using assms(1) by (rule for_loop_fill)
  also have "map (\<lambda>i. src ! i) [0..<n] = take n src"
    using assms(2) by (intro nth_equalityI) auto
  finally show ?thesis .
qed

text \<open>The loop that remembers the first index with the least value so far.\<close>

lemma for_loop_argmin:
  fixes f :: "nat \<Rightarrow> 'v::linorder"
  assumes "lo \<le> hi"
    and body: "\<And>i b m. \<lbrakk>lo \<le> i; i < hi\<rbrakk> \<Longrightarrow> body i (b, m) = Some (if f i < m then (g i, f i) else (b, m))"
  shows "\<exists>b m. for_loop lo hi body (b0, m0) = Some (b, m) \<and> m \<le> m0 \<and> (\<forall>j. lo \<le> j \<longrightarrow> j < hi \<longrightarrow> m \<le> f j) \<and>
     (m = m0 \<and> b = b0 \<or> (\<exists>v. lo \<le> v \<and> v < hi \<and> b = g v \<and> m = f v \<and> f v < m0 \<and>
        (\<forall>j. lo \<le> j \<longrightarrow> j < v \<longrightarrow> f v < f j)))"
proof -
  define P where "P k = (\<lambda>(b, m). m \<le> m0 \<and> (\<forall>j. lo \<le> j \<longrightarrow> j < k \<longrightarrow> m \<le> f j) \<and>
     (m = m0 \<and> b = b0 \<or> (\<exists>v. lo \<le> v \<and> v < k \<and> b = g v \<and> m = f v \<and> f v < m0 \<and>
        (\<forall>j. lo \<le> j \<longrightarrow> j < v \<longrightarrow> f v < f j))))" for k :: nat
  have "\<exists>s. for_loop lo hi body (b0, m0) = Some s \<and> P hi s"
  proof (rule for_loop_invar [OF assms(1)])
    show "P lo (b0, m0)" by (auto simp: P_def)
  next
    fix i s assume i: "lo \<le> i" "i < hi" and P: "P i s"
    obtain b m where s: "s = (b, m)" by (cases s)
    have "P (Suc i) (if f i < m then (g i, f i) else (b, m))"
    proof (cases "f i < m")
      case True
      with P i s show ?thesis
        by (auto simp: P_def less_Suc_eq intro!: exI [of _ i])
    next
      case False
      then have "m \<le> f i" by simp
      with P i s False show ?thesis by (auto simp: P_def less_Suc_eq)
    qed
    with body i s show "\<exists>s'. body i s = Some s' \<and> P (Suc i) s'" by simp
  qed
  then show ?thesis by (auto simp: P_def)
qed

subsection \<open>Search loops\<close>

primrec searchM :: "('a \<Rightarrow> bool option) \<Rightarrow> 'a list \<Rightarrow> 'a option option" where
  "searchM p [] = Some None"
| "searchM p (x # xs) = do { b \<leftarrow> p x; if b then Some (Some x) else searchM p xs }"

definition search_first :: "nat \<Rightarrow> nat \<Rightarrow> (nat \<Rightarrow> bool option) \<Rightarrow> nat option option" where
  "search_first lo hi p = searchM p [lo..<hi]"

lemma searchM_total:
  "(\<And>x. x \<in> set xs \<Longrightarrow> p x = Some (q x)) \<Longrightarrow> searchM p xs = Some (find q xs)"
  by (induction xs) auto

lemma search_first_total:
  "(\<And>i. \<lbrakk>lo \<le> i; i < hi\<rbrakk> \<Longrightarrow> p i = Some (q i)) \<Longrightarrow> search_first lo hi p = Some (find q [lo..<hi])"
  unfolding search_first_def by (rule searchM_total) simp

lemma search_first_step:
  "lo < hi \<Longrightarrow> search_first lo hi p =
    do { b \<leftarrow> p lo; if b then Some (Some lo) else search_first (Suc lo) hi p }"
  unfolding search_first_def by (simp add: upt_conv_Cons)

lemma search_first_empty [simp]: "hi \<le> lo \<Longrightarrow> search_first lo hi p = Some None"
  by (simp add: search_first_def)

lemma find_upt_Some:
  "find q [lo..<hi] = Some i \<longleftrightarrow> lo \<le> i \<and> i < hi \<and> q i \<and> (\<forall>j. lo \<le> j \<longrightarrow> j < i \<longrightarrow> \<not> q j)"
proof (induction "hi - lo" arbitrary: lo)
  case 0
  then show ?case by auto
next
  case (Suc d)
  then have "lo < hi" "d = hi - Suc lo" by auto
  then have IH: "find q [Suc lo..<hi] = Some i \<longleftrightarrow>
      Suc lo \<le> i \<and> i < hi \<and> q i \<and> (\<forall>j. Suc lo \<le> j \<longrightarrow> j < i \<longrightarrow> \<not> q j)"
    by (intro Suc.hyps)
  show ?case
  proof (cases "q lo")
    case True
    have "lo = i" if "lo \<le> i" "\<forall>j\<ge>lo. j < i \<longrightarrow> \<not> q j" using True that by (cases "lo = i") auto
    with True \<open>lo < hi\<close> show ?thesis by (auto simp: upt_conv_Cons)
  next
    case False
    have "(\<forall>j. lo \<le> j \<longrightarrow> j < i \<longrightarrow> \<not> q j) \<longleftrightarrow> (\<forall>j. Suc lo \<le> j \<longrightarrow> j < i \<longrightarrow> \<not> q j)"
      using False by (metis Suc_leD Suc_leI le_neq_implies_less)
    moreover have "lo \<le> i \<and> q i \<longleftrightarrow> Suc lo \<le> i \<and> q i" using False by (auto simp: Suc_le_eq le_less)
    ultimately show ?thesis using False IH \<open>lo < hi\<close> by (auto simp: upt_conv_Cons)
  qed
qed

lemma find_upt_None:
  "find q [lo..<hi] = None \<longleftrightarrow> (\<forall>i. lo \<le> i \<longrightarrow> i < hi \<longrightarrow> \<not> q i)"
  by (auto simp: find_None_iff)

text \<open>The search for an element by its index, one element at a time.\<close>

lemma find_nth_Cons:
  "find (\<lambda>j. q ((x # xs) ! j)) [0..<length (x # xs)] =
     (if q x then Some 0 else map_option Suc (find (\<lambda>j. q (xs ! j)) [0..<length xs]))"
proof -
  have "find (\<lambda>j. q ((x # xs) ! j)) (map Suc ns) = map_option Suc (find (\<lambda>j. q (xs ! j)) ns)" for ns
    by (induction ns) auto
  from this [of "[0..<length xs]"] show ?thesis by (simp add: upt_conv_Cons map_Suc_upt del: upt_Suc)
qed

text \<open>A loop that only tells whether some index was hit.\<close>

lemma search_first_hit:
  assumes "\<And>i. \<lbrakk>lo \<le> i; i < hi\<rbrakk> \<Longrightarrow> p i = Some (q i)"
  shows "do { h \<leftarrow> search_first lo hi p; Some (h \<noteq> None) } = Some (\<exists>i. lo \<le> i \<and> i < hi \<and> q i)"
    and "do { h \<leftarrow> search_first lo hi p; Some (h = None) } = Some (\<forall>i. lo \<le> i \<longrightarrow> i < hi \<longrightarrow> \<not> q i)"
  using search_first_total [of lo hi p q] assms find_upt_None [of q lo hi] by auto

subsection \<open>Lists\<close>

lemma sum_map_update:
  fixes f :: "'a \<Rightarrow> nat"
  assumes "i < length xs"
  shows "sum_list (map f (xs[i := v])) + f (xs ! i) = sum_list (map f xs) + f v"
proof -
  have "f (xs ! i) \<le> sum_list (map f xs)" using assms by (intro member_le_sum_list) simp_all
  then show ?thesis using assms by (simp add: map_update sum_list_update)
qed

definition count_if :: "('a \<Rightarrow> bool) \<Rightarrow> 'a list \<Rightarrow> nat" where
  "count_if p xs = length (filter p xs)"

lemma count_if_Nil [simp]: "count_if p [] = 0"
  and count_if_Cons [simp]: "count_if p (x # xs) = (if p x then Suc (count_if p xs) else count_if p xs)"
  and count_if_append [simp]: "count_if p (xs @ ys) = count_if p xs + count_if p ys"
  by (simp_all add: count_if_def)

lemma count_if_le: "count_if p xs \<le> length xs"
  by (simp add: count_if_def)

lemma count_if_replicate: "count_if p (replicate n x) = (if p x then n else 0)"
  by (induction n) auto

lemma count_if_pos: "0 < count_if p xs \<longleftrightarrow> (\<exists>x \<in> set xs. p x)"
  by (auto simp: count_if_def filter_empty_conv)

lemma count_if_full: "count_if p xs = length xs \<longleftrightarrow> (\<forall>x \<in> set xs. p x)"
proof (induction xs)
  case (Cons x xs)
  with count_if_le [of p xs] show ?case by auto
qed simp

lemma count_if_update:
  "i < length xs \<Longrightarrow> count_if p (xs[i := v]) + (if p (xs ! i) then 1 else 0) =
     count_if p xs + (if p v then 1 else 0)"
proof (induction xs arbitrary: i)
  case (Cons x xs)
  show ?case
  proof (cases i)
    case (Suc j)
    with Cons.prems have "count_if p (xs[j := v]) + (if p (xs ! j) then 1 else 0) =
       count_if p xs + (if p v then 1 else 0)" by (intro Cons.IH) simp
    with Suc show ?thesis by simp
  qed simp
qed simp

subsection \<open>C strings in fixed-size buffers\<close>

text \<open>\<open>strncpy (dst, src, n)\<close>: \<open>src\<close> padded with zeros, cut at \<open>n\<close> characters.\<close>

definition c_strncpy :: "char list \<Rightarrow> string \<Rightarrow> nat \<Rightarrow> char list" where
  "c_strncpy dst src n = take n (src @ replicate n (CHR 0x00)) @ drop n dst"

text \<open>The copy is a C string whenever the source is shorter than \<open>n\<close>; a longer one is cut, and whether
  it is terminated depends on what was in the buffer behind it.\<close>

lemma c_strncpy_terminated:
  assumes "length s < n" and "n \<le> length dst"
  shows "length (c_strncpy dst s n) = length dst" and "take (Suc (length s)) (c_strncpy dst s n) = s @ [CHR 0x00]"
proof -
  show "length (c_strncpy dst s n) = length dst" using assms by (simp add: c_strncpy_def min_def)
  obtain k where k: "n = length s + Suc k" using assms(1) less_imp_Suc_add by force
  then have "take n (s @ replicate n (CHR 0x00)) = s @ replicate (Suc k) (CHR 0x00)"
    by (simp add: min_def)
  then show "take (Suc (length s)) (c_strncpy dst s n) = s @ [CHR 0x00]" by (simp add: c_strncpy_def)
qed

lemma c_strncpy_unterminated:
  assumes "n \<le> length s"
  shows "c_strncpy dst s n = take n s @ drop n dst"
  using assms by (simp add: c_strncpy_def)

text \<open>The C string held by a buffer; \<open>None\<close> when it has no terminator and \<open>strcmp\<close> would read past it.\<close>

definition c_string :: "char list \<Rightarrow> string option" where
  "c_string buf = (if CHR 0x00 \<in> set buf then Some (takeWhile (\<lambda>c. c \<noteq> CHR 0x00) buf) else None)"

lemma c_string_eq:
  assumes "CHR 0x00 \<notin> set s"
  shows "c_string (s @ CHR 0x00 # rest) = Some s"
proof -
  have "takeWhile (\<lambda>c. c \<noteq> CHR 0x00) (s @ CHR 0x00 # rest) = s" using assms by (induction s) auto
  then show ?thesis by (simp add: c_string_def)
qed

lemma c_string_strncpy:
  assumes "length s < n" and "n \<le> length dst" and "CHR 0x00 \<notin> set s"
  shows "c_string (c_strncpy dst s n) = Some s"
proof -
  have "c_strncpy dst s n = s @ CHR 0x00 # drop (Suc (length s)) (c_strncpy dst s n)"
    using c_strncpy_terminated(2) [OF assms(1,2)] append_take_drop_id [of "Suc (length s)" "c_strncpy dst s n"] by simp
  with c_string_eq [OF assms(3)] show ?thesis by metis
qed

lemma length_c_strncpy: "n \<le> length dst \<Longrightarrow> length (c_strncpy dst s n) = length dst"
  by (simp add: c_strncpy_def min_def)

end
