(* ===== verification/Safety_Core.thy ===== *)
theory Safety_Core
  imports OS_Prelude
begin

section \<open>Safe orders of processes: the specification behind the safety checks\<close>

text \<open>
  Banker_algorithm.c, Safety_algorithm.c and Resource_Allocation_Graph.c (directory d14) all ask
  whether the processes can be finished one after the other, each giving its resources back
  to a work vector. This theory states that question once (\<open>safe_order\<close>, \<open>safe_state\<close>), gives the
  row loops the programs share with their overflow checks, an abstract version of the
  repeated scan (\<open>scan\<close>, \<open>greedy\<close>), and the interface \<open>safety\<close>, whose laws make the greedy scan
  complete: it finds a safe order whenever one exists.
\<close>

subsection \<open>Orders that run\<close>

primrec runs :: "(nat \<Rightarrow> 'w \<Rightarrow> bool) \<Rightarrow> (nat \<Rightarrow> 'w \<Rightarrow> 'w) \<Rightarrow> nat list \<Rightarrow> 'w \<Rightarrow> bool" where
  "runs can rel [] w = True"
| "runs can rel (i # is) w = (can i w \<and> runs can rel is (rel i w))"

primrec after :: "(nat \<Rightarrow> 'w \<Rightarrow> 'w) \<Rightarrow> nat list \<Rightarrow> 'w \<Rightarrow> 'w" where
  "after rel [] w = w"
| "after rel (i # is) w = after rel is (rel i w)"

definition safe_order :: "(nat \<Rightarrow> 'w \<Rightarrow> bool) \<Rightarrow> (nat \<Rightarrow> 'w \<Rightarrow> 'w) \<Rightarrow> nat \<Rightarrow> 'w \<Rightarrow> nat list \<Rightarrow> bool" where
  "safe_order can rel n w is \<longleftrightarrow> distinct is \<and> set is = {..<n} \<and> runs can rel is w"

definition safe_state :: "(nat \<Rightarrow> 'w \<Rightarrow> bool) \<Rightarrow> (nat \<Rightarrow> 'w \<Rightarrow> 'w) \<Rightarrow> nat \<Rightarrow> 'w \<Rightarrow> bool" where
  "safe_state can rel n w \<longleftrightarrow> (\<exists>is. safe_order can rel n w is)"

lemma runs_append [simp]:
  "runs can rel (xs @ ys) w \<longleftrightarrow> runs can rel xs w \<and> runs can rel ys (after rel xs w)"
  by (induction xs arbitrary: w) auto

lemma after_append [simp]: "after rel (xs @ ys) w = after rel ys (after rel xs w)"
  by (induction xs arbitrary: w) auto

subsection \<open>The greedy scan\<close>

text \<open>One pass over the processes, and passes until nothing new is found.\<close>

primrec scan :: "(nat \<Rightarrow> 'w \<Rightarrow> bool) \<Rightarrow> (nat \<Rightarrow> 'w \<Rightarrow> 'w) \<Rightarrow> nat list \<Rightarrow> nat list \<times> 'w \<Rightarrow> nat list \<times> 'w" where
  "scan can rel [] st = st"
| "scan can rel (i # is) st =
     (if i \<notin> set (fst st) \<and> can i (snd st) then scan can rel is (fst st @ [i], rel i (snd st))
      else scan can rel is st)"

lemma scan_append: "scan can rel (xs @ ys) st = scan can rel ys (scan can rel xs st)"
  by (induction xs arbitrary: st) auto

lemma scan_extends:
  "\<exists>ext. fst (scan can rel is st) = fst st @ ext \<and> set ext \<subseteq> set is \<and>
     snd (scan can rel is st) = after rel ext (snd st) \<and> runs can rel ext (snd st) \<and>
     (distinct (fst st) \<longrightarrow> distinct (fst st @ ext)) \<and>
     (ext = [] \<longrightarrow> (\<forall>i \<in> set is. i \<notin> set (fst st) \<longrightarrow> \<not> can i (snd st)))"
proof (induction "is" arbitrary: st)
  case (Cons i "is")
  show ?case
  proof (cases "i \<notin> set (fst st) \<and> can i (snd st)")
    case True
    from Cons.IH [of "(fst st @ [i], rel i (snd st))"] obtain ext where
      "fst (scan can rel (i # is) st) = fst st @ (i # ext)"
      "set ext \<subseteq> set is" "snd (scan can rel (i # is) st) = after rel (i # ext) (snd st)"
      "runs can rel (i # ext) (snd st)"
      "distinct (fst st) \<longrightarrow> distinct (fst st @ (i # ext))"
      using True by auto
    then show ?thesis by (intro exI [of _ "i # ext"]) auto
  next
    case False
    with Cons.IH [of st] show ?thesis by auto
  qed
qed simp

lemma scan_length: "length (fst st) \<le> length (fst (scan can rel is st))"
  using scan_extends [of can rel "is" st] by auto

lemma scan_grows:
  "fst (scan can rel is st) \<noteq> fst st \<Longrightarrow> length (fst st) < length (fst (scan can rel is st))"
  using scan_extends [of can rel "is" st] by auto

function greedy :: "(nat \<Rightarrow> 'w \<Rightarrow> bool) \<Rightarrow> (nat \<Rightarrow> 'w \<Rightarrow> 'w) \<Rightarrow> nat \<Rightarrow> nat list \<times> 'w \<Rightarrow> nat list \<times> 'w" where
  "greedy can rel n st =
     (if length (fst st) < n then
        (let st' = scan can rel [0..<n] st
         in if fst st' = fst st then st' else greedy can rel n st')
      else st)"
  by pat_completeness auto
termination
  by (relation "measure (\<lambda>(can, rel, n, st). n - length (fst st))")
    (auto dest!: scan_grows intro: diff_less_mono2)

declare greedy.simps [simp del]

text \<open>What the greedy passes keep true of the processes they have finished.\<close>

definition greedy_inv :: "(nat \<Rightarrow> 'w \<Rightarrow> bool) \<Rightarrow> (nat \<Rightarrow> 'w \<Rightarrow> 'w) \<Rightarrow> nat \<Rightarrow> 'w \<Rightarrow> nat list \<times> 'w \<Rightarrow> bool" where
  "greedy_inv can rel n w0 st \<longleftrightarrow>
     distinct (fst st) \<and> set (fst st) \<subseteq> {..<n} \<and> runs can rel (fst st) w0 \<and> snd st = after rel (fst st) w0"

lemma greedy_inv_start [simp]: "greedy_inv can rel n w0 ([], w0)"
  by (simp add: greedy_inv_def)

lemma greedy_inv_scan:
  assumes "greedy_inv can rel n w0 st" and "set is \<subseteq> {..<n}"
  shows "greedy_inv can rel n w0 (scan can rel is st)"
proof -
  from scan_extends [of can rel "is" st] obtain ext where
    "fst (scan can rel is st) = fst st @ ext" "set ext \<subseteq> set is"
    "snd (scan can rel is st) = after rel ext (snd st)" "runs can rel ext (snd st)"
    "distinct (fst st) \<longrightarrow> distinct (fst st @ ext)"
    by blast
  with assms show ?thesis by (auto simp: greedy_inv_def)
qed

lemma greedy_inv_length: "greedy_inv can rel n w0 st \<Longrightarrow> length (fst st) \<le> n"
  unfolding greedy_inv_def by (metis card_lessThan card_mono distinct_card finite_lessThan)

lemma greedy_inv_full:
  "greedy_inv can rel n w0 st \<Longrightarrow> length (fst st) = n \<Longrightarrow> safe_order can rel n w0 (fst st)"
  unfolding greedy_inv_def safe_order_def
  by (metis card_lessThan card_subset_eq distinct_card finite_lessThan)

text \<open>A stuck state: nothing that is left can run.\<close>

definition stuck :: "(nat \<Rightarrow> 'w \<Rightarrow> bool) \<Rightarrow> nat \<Rightarrow> nat list \<times> 'w \<Rightarrow> bool" where
  "stuck can n st \<longleftrightarrow> (\<forall>i < n. i \<notin> set (fst st) \<longrightarrow> \<not> can i (snd st))"

lemma greedy_result:
  "greedy_inv can rel n w0 st \<Longrightarrow>
     greedy_inv can rel n w0 (greedy can rel n st) \<and>
     (length (fst (greedy can rel n st)) = n \<or> stuck can n (greedy can rel n st))"
proof (induction can rel n st rule: greedy.induct)
  case (1 can rel n st)
  let ?s = "scan can rel [0..<n] st"
  have inv: "greedy_inv can rel n w0 ?s"
    using "1.prems" by (intro greedy_inv_scan) auto
  show ?case
  proof (cases "length (fst st) < n")
    case False
    with "1.prems" greedy_inv_length [OF "1.prems"] show ?thesis
      by (subst (1 2 3) greedy.simps) auto
  next
    case True
    show ?thesis
    proof (cases "fst ?s = fst st")
      case eq: True
      from scan_extends [of can rel "[0..<n]" st] eq
      have "stuck can n ?s" by (auto simp: stuck_def)
      with inv True eq show ?thesis by (subst (1 2 3) greedy.simps) (simp add: Let_def)
    next
      case False
      with "1.IH" [OF True refl False inv] True show ?thesis
        by (subst (1 2 3) greedy.simps) (simp add: Let_def)
    qed
  qed
qed

subsection \<open>The interface of a safety check\<close>

text \<open>
  \<open>can s i w\<close>: process \<open>i\<close> of system \<open>s\<close> can finish with the work vector \<open>w\<close>; \<open>rel s i w\<close>: the
  work vector after it gave its resources back. The laws say that resources only ever help:
  finishing a process never shrinks the work vector and the order of giving back is
  irrelevant.
\<close>

locale safety =
  fixes can :: "'s \<Rightarrow> nat \<Rightarrow> 'w \<Rightarrow> bool"
    and rel :: "'s \<Rightarrow> nat \<Rightarrow> 'w \<Rightarrow> 'w"
    and le :: "'s \<Rightarrow> 'w \<Rightarrow> 'w \<Rightarrow> bool"
    and procs :: "'s \<Rightarrow> nat"
    and ok :: "'s \<Rightarrow> bool"
  assumes le_refl: "le s w w"
    and le_trans: "\<lbrakk>le s u v; le s v w\<rbrakk> \<Longrightarrow> le s u w"
    and can_mono: "\<lbrakk>ok s; can s i v; le s v w\<rbrakk> \<Longrightarrow> can s i w"
    and rel_grows: "\<lbrakk>ok s; i < procs s\<rbrakk> \<Longrightarrow> le s w (rel s i w)"
    and rel_comm: "rel s i (rel s j w) = rel s j (rel s i w)"
begin

lemma rel_after: "rel s i (after (rel s) xs w) = after (rel s) xs (rel s i w)"
  by (induction xs arbitrary: w) (auto simp: rel_comm)

lemma after_remove1:
  "x \<in> set xs \<Longrightarrow> after (rel s) xs w = after (rel s) (remove1 x xs) (rel s x w)"
  by (induction xs arbitrary: w) (auto simp: rel_comm)

lemma after_grows: "\<lbrakk>ok s; set xs \<subseteq> {..<procs s}\<rbrakk> \<Longrightarrow> le s w (after (rel s) xs w)"
  by (induction xs arbitrary: w) (auto intro: le_refl le_trans rel_grows)

text \<open>The processes finished so far matter, not their order.\<close>

lemma after_subset:
  "\<lbrakk>ok s; distinct xs; distinct ys; set xs \<subseteq> set ys; set ys \<subseteq> {..<procs s}\<rbrakk> \<Longrightarrow>
     le s (after (rel s) xs w) (after (rel s) ys w)"
proof (induction xs arbitrary: ys w)
  case Nil
  then show ?case by (simp add: after_grows)
next
  case (Cons x xs)
  have "le s (after (rel s) xs (rel s x w)) (after (rel s) (remove1 x ys) (rel s x w))"
    using Cons.prems by (intro Cons.IH) auto
  with Cons.prems show ?case by (simp add: after_remove1 [of x ys])
qed

text \<open>
  Completeness of the greedy search: when it is stuck although a safe order exists, it has
  finished every process.
\<close>

lemma stuck_complete:
  assumes ok: "ok s" and inv: "greedy_inv (can s) (rel s) (procs s) w0 st"
    and stuck: "stuck (can s) (procs s) st"
    and safe: "safe_order (can s) (rel s) (procs s) w0 xs"
  shows "length (fst st) = procs s"
proof (rule ccontr)
  let ?done = "fst st"
  assume "length ?done \<noteq> procs s"
  with inv have "set ?done \<noteq> {..<procs s}"
    unfolding greedy_inv_def by (metis card_lessThan distinct_card)
  with safe inv have "\<exists>x \<in> set xs. x \<notin> set ?done"
    by (auto simp: safe_order_def greedy_inv_def)
  then obtain ys x zs where xs: "xs = ys @ x # zs" and new: "x \<notin> set ?done"
    and old: "\<forall>y \<in> set ys. y \<in> set ?done"
    using split_list_first_prop [of xs "\<lambda>x. x \<notin> set ?done"] by auto
  have run: "can s x (after (rel s) ys w0)" and "x < procs s"
    using safe xs by (auto simp: safe_order_def)
  have "le s (after (rel s) ys w0) (after (rel s) ?done w0)"
    using safe xs old inv ok by (intro after_subset) (auto simp: safe_order_def greedy_inv_def)
  with run inv ok have "can s x (snd st)" by (auto simp: greedy_inv_def intro: can_mono)
  with stuck new \<open>x < procs s\<close> show False by (simp add: stuck_def)
qed

lemma greedy_decides:
  assumes "ok s"
  shows "length (fst (greedy (can s) (rel s) (procs s) ([], w0))) = procs s \<longleftrightarrow>
         safe_state (can s) (rel s) (procs s) w0"
  using greedy_result [of "can s" "rel s" "procs s" w0 "([], w0)"] stuck_complete [OF assms]
    greedy_inv_full unfolding safe_state_def by (metis greedy_inv_start)

end

subsection \<open>The row loops of the programs\<close>

text \<open>\<open>for (j = 0; j < r; ++j) if (a[j] > w[j]) return 0; return 1;\<close>\<close>

definition row_fits :: "nat \<Rightarrow> int list \<Rightarrow> int list \<Rightarrow> bool option" where
  "row_fits r a w =
     do { hit \<leftarrow> search_first 0 r (\<lambda>j. do { x \<leftarrow> rd a j; y \<leftarrow> rd w j; Some (x > y) });
          Some (hit = None) }"

text \<open>\<open>for (j = 0; j < r; ++j) w[j] += a[j];\<close>\<close>

definition row_add :: "nat \<Rightarrow> int list \<Rightarrow> int list \<Rightarrow> int list option" where
  "row_add r a w =
     for_loop 0 r (\<lambda>j w. do { x \<leftarrow> rd w j; y \<leftarrow> rd a j; v \<leftarrow> chk (x + y); wr w j v }) w"

text \<open>What they compute.\<close>

definition vle :: "nat \<Rightarrow> int list \<Rightarrow> int list \<Rightarrow> bool" where
  "vle r a w \<longleftrightarrow> (\<forall>j < r. a ! j \<le> w ! j)"

definition vadd :: "nat \<Rightarrow> int list \<Rightarrow> int list \<Rightarrow> int list" where
  "vadd r a w = map (\<lambda>j. if j < r then w ! j + a ! j else w ! j) [0..<length w]"

text \<open>The orders the laws of \<open>safety\<close> are stated with: equally long vectors, compared on the first
  \<open>r\<close> resources; a process fits a vector that has all \<open>r\<close> entries.\<close>

definition vleq :: "nat \<Rightarrow> int list \<Rightarrow> int list \<Rightarrow> bool" where
  "vleq r v w \<longleftrightarrow> length v = length w \<and> (\<forall>j < length v. j < r \<longrightarrow> v ! j \<le> w ! j)"

definition vfits :: "nat \<Rightarrow> int list \<Rightarrow> int list \<Rightarrow> bool" where
  "vfits r a w \<longleftrightarrow> r \<le> length w \<and> vle r a w"

lemma length_vadd [simp]: "length (vadd r a w) = length w"
  by (simp add: vadd_def)

lemma nth_vadd [simp]: "j < length w \<Longrightarrow> vadd r a w ! j = (if j < r then w ! j + a ! j else w ! j)"
  by (simp add: vadd_def)

lemma vleq_refl: "vleq r w w"
  by (simp add: vleq_def)

lemma vleq_trans: "\<lbrakk>vleq r u v; vleq r v w\<rbrakk> \<Longrightarrow> vleq r u w"
  by (force simp: vleq_def)

lemma vfits_mono: "\<lbrakk>vfits r a v; vleq r v w\<rbrakk> \<Longrightarrow> vfits r a w"
  by (auto simp: vfits_def vle_def vleq_def) (meson less_le_trans order_trans)

lemma vleq_vadd: "\<forall>j < r. 0 \<le> a ! j \<Longrightarrow> vleq r w (vadd r a w)"
  by (simp add: vleq_def)

lemma vadd_comm: "vadd r a (vadd r b w) = vadd r b (vadd r a w)"
  by (rule nth_equalityI) auto

lemma row_fits_vfits:
  "\<lbrakk>r \<le> length a; r \<le> length w\<rbrakk> \<Longrightarrow> row_fits r a w = Some (vfits r a w)"
  unfolding row_fits_def
  by (subst search_first_total [where q = "\<lambda>j. a ! j > w ! j"])
    (auto simp: find_upt_None vfits_def vle_def not_less)

lemma row_add_vadd:
  assumes "r \<le> length a" and "r \<le> length w" and "\<forall>j < r. int_ok (w ! j + a ! j)"
  shows "row_add r a w = Some (vadd r a w)"
  using assms
proof (induction r)
  case 0
  then show ?case by (simp add: row_add_def vadd_def map_nth)
next
  case (Suc r)
  then have IH: "row_add r a w = Some (vadd r a w)" by simp
  have "(vadd r a w)[r := vadd r a w ! r + a ! r] = vadd (Suc r) a w"
    using Suc.prems by (intro nth_equalityI) (auto simp: nth_list_update less_Suc_eq)
  with IH Suc.prems show ?case by (simp add: row_add_def for_loop_Suc)
qed

end
