(* ===== verification/Banker.thy ===== *)
theory Banker
  imports Safety_Core
begin

section \<open>The Banker's algorithm: d14, Banker_algorithm.c\<close>

text \<open>
  \<open>BankerSystem\<close> with its arrays of the declared sizes, every function of the file in the
  order of the file, and \<open>main\<close> as the scenario it runs (output left aside). Process numbers and the numbers of processes and
  resources are \<open>int\<close> in the source and \<open>nat\<close> here: negative ones are not considered.
\<close>

subsection \<open>State\<close>

definition MAX_PROCESSES :: nat where
  "MAX_PROCESSES = 10"

definition MAX_RESOURCES :: nat where
  "MAX_RESOURCES = 10"

record banker_system =
  bs_processes :: nat
  bs_resources :: nat
  bs_allocation :: "int list list"
  bs_max :: "int list list"
  bs_need :: "int list list"
  bs_available :: "int list"
  bs_safe_sequence :: "nat list"
  bs_finished :: "bool list"

subsection \<open>Operations\<close>

text \<open>The allocation row is cleared twice, the \<open>max\<close> row never, as in the source.\<close>

definition initializeBankers :: "banker_system \<Rightarrow> nat \<Rightarrow> nat \<Rightarrow> banker_system option" where
  "initializeBankers bs p r = do {
     let bs = bs\<lparr>bs_processes := p, bs_resources := r\<rparr>;
     bs \<leftarrow> for_loop 0 p (\<lambda>i bs. do {
         bs \<leftarrow> for_loop 0 r (\<lambda>j bs. do {
             a \<leftarrow> wr2 (bs_allocation bs) i j 0;
             a \<leftarrow> wr2 a i j 0;
             n \<leftarrow> wr2 (bs_need bs) i j 0;
             Some (bs\<lparr>bs_allocation := a, bs_need := n\<rparr>) }) bs;
         f \<leftarrow> wr (bs_finished bs) i False;
         Some (bs\<lparr>bs_finished := f\<rparr>) }) bs;
     for_loop 0 r (\<lambda>i bs. do {
         v \<leftarrow> wr (bs_available bs) i 0;
         Some (bs\<lparr>bs_available := v\<rparr>) }) bs }"

definition calNeed :: "banker_system \<Rightarrow> banker_system option" where
  "calNeed bs =
     for_loop 0 (bs_processes bs) (\<lambda>i bs.
       for_loop 0 (bs_resources bs) (\<lambda>j bs. do {
         m \<leftarrow> rd2 (bs_max bs) i j;
         a \<leftarrow> rd2 (bs_allocation bs) i j;
         d \<leftarrow> chk (m - a);
         n \<leftarrow> wr2 (bs_need bs) i j d;
         Some (bs\<lparr>bs_need := n\<rparr>) }) bs) bs"

definition canAllocateResources :: "banker_system \<Rightarrow> nat \<Rightarrow> int list \<Rightarrow> bool option" where
  "canAllocateResources bs process_id work =
     do { need \<leftarrow> rd (bs_need bs) process_id; row_fits (bs_resources bs) need work }"

text \<open>
  One round of the \<open>for\<close> loop inside \<open>isSafe\<close>; the tuple is the system, \<open>work\<close>, \<open>completed\<close>
  and \<open>found\<close>.
\<close>

type_synonym safe_vars = "banker_system \<times> int list \<times> nat \<times> bool"

definition isSafe_try :: "nat \<Rightarrow> safe_vars \<Rightarrow> safe_vars option" where
  "isSafe_try i = (\<lambda>(bs, work, completed, found). do {
     f \<leftarrow> rd (bs_finished bs) i;
     ok \<leftarrow> (if f then Some False else canAllocateResources bs i work);
     if ok then do {
       sq \<leftarrow> wr (bs_safe_sequence bs) completed i;
       a \<leftarrow> rd (bs_allocation bs) i;
       work \<leftarrow> row_add (bs_resources bs) a work;
       fin \<leftarrow> wr (bs_finished bs) i True;
       Some (bs\<lparr>bs_safe_sequence := sq, bs_finished := fin\<rparr>, work, completed + 1, True) }
     else Some (bs, work, completed, found) })"

partial_function (option) isSafe_while ::
  "banker_system \<Rightarrow> int list \<Rightarrow> nat \<Rightarrow> (banker_system \<times> bool) option" where
  "isSafe_while bs work completed =
     (if completed < bs_processes bs then do {
        st \<leftarrow> for_loop 0 (bs_processes bs) isSafe_try (bs, work, completed, False);
        (case st of (bs', work', completed', found) \<Rightarrow>
          if found then isSafe_while bs' work' completed' else Some (bs', False)) }
      else Some (bs, True))"

declare isSafe_while.simps [code]

definition isSafe :: "banker_system \<Rightarrow> (banker_system \<times> bool) option" where
  "isSafe bs = do {
     work \<leftarrow> for_loop 0 (bs_resources bs) (\<lambda>i work. do {
         v \<leftarrow> rd (bs_available bs) i; wr work i v }) (replicate MAX_RESOURCES 0);
     fin \<leftarrow> for_loop 0 (bs_processes bs) (\<lambda>i fin. wr fin i False) (bs_finished bs);
     isSafe_while (bs\<lparr>bs_finished := fin\<rparr>) work 0 }"

text \<open>The checks of \<open>requestResources\<close>, in the order of the loop: \<open>True\<close> is a rejection.\<close>

definition request_invalid :: "banker_system \<Rightarrow> nat \<Rightarrow> int list \<Rightarrow> bool option" where
  "request_invalid bs process_id request = do {
     hit \<leftarrow> search_first 0 (bs_resources bs) (\<lambda>i. do {
        q \<leftarrow> rd request i;
        n \<leftarrow> rd2 (bs_need bs) process_id i;
        if q > n then Some True
        else do { a \<leftarrow> rd (bs_available bs) i; Some (q > a) } });
     Some (hit \<noteq> None) }"

text \<open>The tentative allocation (\<open>s = 1\<close>) and the rollback (\<open>s = -1\<close>).\<close>

definition request_move :: "int \<Rightarrow> nat \<Rightarrow> int list \<Rightarrow> banker_system \<Rightarrow> banker_system option" where
  "request_move s process_id request bs =
     for_loop 0 (bs_resources bs) (\<lambda>i bs. do {
        q \<leftarrow> rd request i;
        a \<leftarrow> rd (bs_available bs) i; a' \<leftarrow> chk (a - s * q); av \<leftarrow> wr (bs_available bs) i a';
        l \<leftarrow> rd2 (bs_allocation bs) process_id i; l' \<leftarrow> chk (l + s * q);
        al \<leftarrow> wr2 (bs_allocation bs) process_id i l';
        n \<leftarrow> rd2 (bs_need bs) process_id i; n' \<leftarrow> chk (n - s * q);
        ne \<leftarrow> wr2 (bs_need bs) process_id i n';
        Some (bs\<lparr>bs_available := av, bs_allocation := al, bs_need := ne\<rparr>) }) bs"

definition requestResources :: "banker_system \<Rightarrow> nat \<Rightarrow> int list \<Rightarrow> (banker_system \<times> bool) option" where
  "requestResources bs process_id request = do {
     bad \<leftarrow> request_invalid bs process_id request;
     if bad then Some (bs, False)
     else do {
       bs1 \<leftarrow> request_move 1 process_id request bs;
       (bs2, safe) \<leftarrow> isSafe bs1;
       if safe then Some (bs2, True)
       else do { bs3 \<leftarrow> request_move (- 1) process_id request bs2; Some (bs3, False) } } }"

subsection \<open>The scenario of main\<close>

definition banker_copy :: "int list list \<Rightarrow> int list list \<Rightarrow> nat \<Rightarrow> nat \<Rightarrow> banker_system \<Rightarrow> banker_system option" where
  "banker_copy al mx p r bs =
     for_loop 0 p (\<lambda>i bs. for_loop 0 r (\<lambda>j bs. do {
        a \<leftarrow> rd2 al i j; al' \<leftarrow> wr2 (bs_allocation bs) i j a;
        m \<leftarrow> rd2 mx i j; mx' \<leftarrow> wr2 (bs_max bs) i j m;
        Some (bs\<lparr>bs_allocation := al', bs_max := mx'\<rparr>) }) bs) bs"

definition banker_main :: "banker_system \<Rightarrow> (bool \<times> bool \<times> banker_system) option" where
  "banker_main bs = do {
     bs \<leftarrow> initializeBankers bs 5 3;
     v \<leftarrow> wr (bs_available bs) 0 3; v \<leftarrow> wr v 1 3; v \<leftarrow> wr v 2 2;
     bs \<leftarrow> banker_copy
        [[0, 1, 0], [2, 0, 0], [3, 0, 2], [2, 1, 1], [0, 0, 2]]
        [[7, 5, 3], [3, 2, 2], [9, 0, 2], [2, 2, 2], [4, 3, 3]]
        5 3 (bs\<lparr>bs_available := v\<rparr>);
     bs \<leftarrow> calNeed bs;
     (bs, safe) \<leftarrow> isSafe bs;
     (bs, granted) \<leftarrow> requestResources bs 1 [1, 0, 2];
     Some (safe, granted, bs) }"

subsection \<open>Well-formed systems and the textbook notion of safety\<close>

definition bs_shape :: "banker_system \<Rightarrow> bool" where
  "bs_shape bs \<longleftrightarrow> bs_processes bs \<le> MAX_PROCESSES \<and> bs_resources bs \<le> MAX_RESOURCES \<and>
     length (bs_allocation bs) = MAX_PROCESSES \<and> length (bs_max bs) = MAX_PROCESSES \<and>
     length (bs_need bs) = MAX_PROCESSES \<and>
     (\<forall>i < MAX_PROCESSES. length (bs_allocation bs ! i) = MAX_RESOURCES \<and>
        length (bs_max bs ! i) = MAX_RESOURCES \<and> length (bs_need bs ! i) = MAX_RESOURCES) \<and>
     length (bs_available bs) = MAX_RESOURCES \<and>
     length (bs_safe_sequence bs) = MAX_PROCESSES \<and> length (bs_finished bs) = MAX_PROCESSES"

text \<open>What all processes hold of resource \<open>j\<close>, and all there is of it.\<close>

definition bs_held :: "banker_system \<Rightarrow> nat \<Rightarrow> int" where
  "bs_held bs j = (\<Sum>i < bs_processes bs. bs_allocation bs ! i ! j)"

definition bs_total :: "banker_system \<Rightarrow> nat \<Rightarrow> int" where
  "bs_total bs j = bs_available bs ! j + bs_held bs j"

definition bs_ok :: "banker_system \<Rightarrow> bool" where
  "bs_ok bs \<longleftrightarrow> bs_shape bs \<and>
     (\<forall>j < bs_resources bs. 0 \<le> bs_available bs ! j \<and> bs_total bs j \<le> INT_MAX \<and>
        (\<forall>i < bs_processes bs. 0 \<le> bs_allocation bs ! i ! j))"

definition bs_claims :: "banker_system \<Rightarrow> bool" where
  "bs_claims bs \<longleftrightarrow>
     (\<forall>i < bs_processes bs. \<forall>j < bs_resources bs.
        bs_need bs ! i ! j = bs_max bs ! i ! j - bs_allocation bs ! i ! j \<and>
        0 \<le> bs_need bs ! i ! j \<and> bs_max bs ! i ! j \<le> INT_MAX)"

text \<open>
  An order of the processes is safe when each of them finds its remaining need in what is
  available at the start plus what the processes before it gave back.
\<close>

definition safe_sequence_for :: "banker_system \<Rightarrow> nat list \<Rightarrow> bool" where
  "safe_sequence_for bs is \<longleftrightarrow> distinct is \<and> set is = {..<bs_processes bs} \<and>
     (\<forall>k < length is. \<forall>j < bs_resources bs.
        bs_need bs ! (is ! k) ! j \<le>
        bs_available bs ! j + (\<Sum>i \<leftarrow> take k is. bs_allocation bs ! i ! j))"

definition system_safe :: "banker_system \<Rightarrow> bool" where
  "system_safe bs \<longleftrightarrow> (\<exists>is. safe_sequence_for bs is)"

text \<open>The model of one process finishing, and its laws.\<close>

definition bk_can :: "banker_system \<Rightarrow> nat \<Rightarrow> int list \<Rightarrow> bool" where
  "bk_can bs i w = vfits (bs_resources bs) (bs_need bs ! i) w"

definition bk_rel :: "banker_system \<Rightarrow> nat \<Rightarrow> int list \<Rightarrow> int list" where
  "bk_rel bs i w = vadd (bs_resources bs) (bs_allocation bs ! i) w"

interpretation bk: safety bk_can bk_rel "\<lambda>bs. vleq (bs_resources bs)" bs_processes bs_ok
  by unfold_locales
    (auto simp: bk_can_def bk_rel_def bs_ok_def vleq_refl vadd_comm
      intro: vleq_trans vfits_mono vleq_vadd)

lemma length_after_bk [simp]: "length (after (bk_rel bs) is w) = length w"
  by (induction "is" arbitrary: w) (auto simp: bk_rel_def)

lemma after_bk_nth:
  "\<lbrakk>j < bs_resources bs; j < length w\<rbrakk> \<Longrightarrow>
     after (bk_rel bs) is w ! j = w ! j + (\<Sum>i \<leftarrow> is. bs_allocation bs ! i ! j)"
  by (induction "is" arbitrary: w) (auto simp: bk_rel_def)

lemma runs_bk:
  "bs_resources bs \<le> length w \<Longrightarrow>
     runs (bk_can bs) (bk_rel bs) is w \<longleftrightarrow>
     (\<forall>k < length is. \<forall>j < bs_resources bs.
        bs_need bs ! (is ! k) ! j \<le> w ! j + (\<Sum>i \<leftarrow> take k is. bs_allocation bs ! i ! j))"
proof (induction "is" arbitrary: w)
  case (Cons i "is")
  have "runs (bk_can bs) (bk_rel bs) is (bk_rel bs i w) \<longleftrightarrow>
     (\<forall>k < length is. \<forall>j < bs_resources bs. bs_need bs ! (is ! k) ! j \<le>
        bk_rel bs i w ! j + (\<Sum>i \<leftarrow> take k is. bs_allocation bs ! i ! j))"
    using Cons.prems by (intro Cons.IH) (simp add: bk_rel_def)
  moreover have "bk_can bs i w \<longleftrightarrow> (\<forall>j < bs_resources bs. bs_need bs ! i ! j \<le> w ! j)"
    using Cons.prems by (simp add: bk_can_def vfits_def vle_def)
  moreover have "bk_rel bs i w ! j = w ! j + bs_allocation bs ! i ! j" if "j < bs_resources bs" for j
    using Cons.prems that by (simp add: bk_rel_def)
  ultimately show ?case by (simp add: All_less_Suc2 add.assoc)
qed simp

subsection \<open>The loops of isSafe follow the greedy scan\<close>

text \<open>The C variables that stand for a state \<open>(done, w)\<close> of the greedy scan.\<close>

definition bk_rep :: "banker_system \<Rightarrow> safe_vars \<Rightarrow> nat list \<times> int list \<Rightarrow> bool" where
  "bk_rep bs0 = (\<lambda>(bs, work, completed, found) (order, w).
     (\<exists>f sq. bs = bs0\<lparr>bs_finished := f, bs_safe_sequence := sq\<rparr> \<and>
        length f = MAX_PROCESSES \<and> length sq = MAX_PROCESSES \<and>
        (\<forall>i < bs_processes bs0. f ! i \<longleftrightarrow> i \<in> set order) \<and>
        take (length order) sq = order) \<and> work = w \<and> completed = length order)"

text \<open>The work vector \<open>isSafe\<close> starts with.\<close>

definition bk_work0 :: "banker_system \<Rightarrow> int list" where
  "bk_work0 bs = take (bs_resources bs) (bs_available bs) @
     drop (bs_resources bs) (replicate MAX_RESOURCES 0)"

lemma length_bk_work0 [simp]: "bs_shape bs \<Longrightarrow> length (bk_work0 bs) = MAX_RESOURCES"
  by (simp add: bk_work0_def bs_shape_def)

lemma bk_work0_nth [simp]:
  "\<lbrakk>bs_shape bs; j < bs_resources bs\<rbrakk> \<Longrightarrow> bk_work0 bs ! j = bs_available bs ! j"
  by (simp add: bk_work0_def bs_shape_def nth_append)

abbreviation bk_inv :: "banker_system \<Rightarrow> nat list \<times> int list \<Rightarrow> bool" where
  "bk_inv bs \<equiv> greedy_inv (bk_can bs) (bk_rel bs) (bs_processes bs) (bk_work0 bs)"

lemma bk_inv_length: "\<lbrakk>bs_shape bs; bk_inv bs st\<rbrakk> \<Longrightarrow> length (snd st) = MAX_RESOURCES"
  by (simp add: greedy_inv_def)

text \<open>No partial sum of allocations exceeds the total, so the additions cannot overflow.\<close>

lemma bk_add_ok:
  assumes ok: "bs_ok bs" and inv: "bk_inv bs st" and i: "i < bs_processes bs" "i \<notin> set (fst st)"
    and j: "j < bs_resources bs"
  shows "int_ok (snd st ! j + bs_allocation bs ! i ! j)"
proof -
  let ?a = "\<lambda>i. bs_allocation bs ! i ! j"
  have shape: "bs_shape bs" and avail: "0 \<le> bs_available bs ! j"
    and nonneg: "\<And>k. k < bs_processes bs \<Longrightarrow> 0 \<le> ?a k"
    and total: "bs_available bs ! j + (\<Sum>i < bs_processes bs. ?a i) \<le> INT_MAX"
    using ok j by (auto simp: bs_ok_def bs_total_def bs_held_def)
  have "j < length (bk_work0 bs)" using shape j by (simp add: bs_shape_def)
  with inv j shape have "snd st ! j = bs_available bs ! j + (\<Sum>i \<leftarrow> fst st. ?a i)"
    by (simp add: greedy_inv_def after_bk_nth)
  also have "(\<Sum>i \<leftarrow> fst st. ?a i) = sum ?a (set (fst st))"
    using inv by (simp add: greedy_inv_def sum_list_distinct_conv_sum_set)
  finally have "snd st ! j + ?a i = bs_available bs ! j + sum ?a (insert i (set (fst st)))"
    using i by simp
  moreover have "sum ?a (insert i (set (fst st))) \<le> sum ?a {..<bs_processes bs}"
    using inv i nonneg by (intro sum_mono2) (auto simp: greedy_inv_def)
  moreover have "0 \<le> sum ?a (insert i (set (fst st)))"
    using inv i nonneg by (intro sum_nonneg) (auto simp: greedy_inv_def)
  ultimately show ?thesis using avail total by (simp add: int_ok_def INT_MIN_def)
qed

lemma isSafe_try_scan:
  assumes ok: "bs_ok bs0" and inv: "bk_inv bs0 st" and i: "i < bs_processes bs0"
    and rep: "bk_rep bs0 (bs, work, completed, found) st"
  shows "\<exists>v'. isSafe_try i (bs, work, completed, found) = Some v' \<and>
     bk_rep bs0 v' (scan (bk_can bs0) (bk_rel bs0) [i] st) \<and>
     snd (snd (snd v')) = (found \<or> fst (scan (bk_can bs0) (bk_rel bs0) [i] st) \<noteq> fst st)"
proof -
  obtain order w where st: "st = (order, w)" by (cases st)
  have shape: "bs_shape bs0" using ok by (simp add: bs_ok_def)
  have p: "i < MAX_PROCESSES" using i shape by (simp add: bs_shape_def)
  from rep st obtain f sq where bs: "bs = bs0\<lparr>bs_finished := f, bs_safe_sequence := sq\<rparr>"
    and len: "length f = MAX_PROCESSES" "length sq = MAX_PROCESSES"
    and fin: "\<forall>i < bs_processes bs0. f ! i \<longleftrightarrow> i \<in> set order"
    and sq: "take (length order) sq = order" and vars: "work = w" "completed = length order"
    by (auto simp: bk_rep_def)
  have wlen: "length w = MAX_RESOURCES" using bk_inv_length [OF shape inv] st by simp
  have rows: "length (bs_need bs0 ! i) = MAX_RESOURCES" "length (bs_allocation bs0 ! i) = MAX_RESOURCES"
    "bs_resources bs0 \<le> MAX_RESOURCES" "length (bs_need bs0) = MAX_PROCESSES"
    "length (bs_allocation bs0) = MAX_PROCESSES"
    using shape p by (auto simp: bs_shape_def)
  have can: "canAllocateResources bs i work = Some (bk_can bs0 i w)"
    using rows wlen p by (simp add: canAllocateResources_def bs vars row_fits_vfits bk_can_def)
  show ?thesis
  proof (cases "i \<notin> set order \<and> bk_can bs0 i w")
    case False
    then show ?thesis
      using rep can fin i len p by (auto simp: isSafe_try_def bs st vars)
  next
    case True
    have "set order \<subset> {..<bs_processes bs0}" "distinct order"
      using inv st True i by (auto simp: greedy_inv_def)
    then have less: "length order < bs_processes bs0"
      by (metis card_lessThan distinct_card finite_lessThan psubset_card_mono)
    then have less10: "length order < MAX_PROCESSES" using shape by (simp add: bs_shape_def)
    have add: "row_add (bs_resources bs0) (bs_allocation bs0 ! i) w = Some (bk_rel bs0 i w)"
      unfolding bk_rel_def using rows wlen bk_add_ok [OF ok inv i] True st
      by (intro row_add_vadd) auto
    have "take (Suc (length order)) (sq[length order := i]) = order @ [i]"
      using less10 len sq by (simp add: take_Suc_conv_app_nth)
    with True can fin i len p less10 add rows show ?thesis
      by (auto simp: isSafe_try_def bs st vars bk_rep_def nth_list_update
          intro!: exI [of _ "f[i := True]"] exI [of _ "sq[length order := i]"] split: if_splits)
  qed
qed

lemma isSafe_pass_scan:
  assumes ok: "bs_ok bs0" and inv: "bk_inv bs0 st" and rep: "bk_rep bs0 (bs, work, completed, False) st"
  shows "\<exists>v'. for_loop 0 (bs_processes bs0) isSafe_try (bs, work, completed, False) = Some v' \<and>
     bk_rep bs0 v' (scan (bk_can bs0) (bk_rel bs0) [0..<bs_processes bs0] st) \<and>
     snd (snd (snd v')) = (fst (scan (bk_can bs0) (bk_rel bs0) [0..<bs_processes bs0] st) \<noteq> fst st)"
proof -
  let ?scan = "\<lambda>n. scan (bk_can bs0) (bk_rel bs0) [0..<n] st"
  define P where "P n v \<longleftrightarrow> bk_rep bs0 v (?scan n) \<and> snd (snd (snd v)) = (fst (?scan n) \<noteq> fst st)" for n v
  have "\<exists>v'. for_loop 0 (bs_processes bs0) isSafe_try (bs, work, completed, False) = Some v' \<and>
      P (bs_processes bs0) v'"
  proof (rule for_loop_invar [where P = P])
    show "P 0 (bs, work, completed, False)" using rep by (simp add: P_def)
  next
    fix i v
    assume i: "i < bs_processes bs0" and "P i v"
    then obtain bs1 w1 c1 f1 where v: "v = (bs1, w1, c1, f1)"
      and rep1: "bk_rep bs0 (bs1, w1, c1, f1) (?scan i)" and f1: "f1 = (fst (?scan i) \<noteq> fst st)"
      by (cases v) (auto simp: P_def)
    have inv1: "bk_inv bs0 (?scan i)" using inv i by (intro greedy_inv_scan) auto
    have "?scan (Suc i) = scan (bk_can bs0) (bk_rel bs0) [i] (?scan i)"
      by (simp add: scan_append)
    moreover have "length (fst st) \<le> length (fst (?scan i))" by (rule scan_length)
    moreover have "fst (scan (bk_can bs0) (bk_rel bs0) [i] (?scan i)) \<noteq> fst (?scan i) \<Longrightarrow>
        length (fst (?scan i)) < length (fst (scan (bk_can bs0) (bk_rel bs0) [i] (?scan i)))"
      by (rule scan_grows)
    ultimately show "\<exists>v'. isSafe_try i v = Some v' \<and> P (Suc i) v'"
      using isSafe_try_scan [OF ok inv1 i rep1] v f1 unfolding P_def by force
  qed simp
  then show ?thesis by (simp add: P_def)
qed

lemma isSafe_while_greedy:
  "\<lbrakk>bs_ok bs0; bk_inv bs0 st; bk_rep bs0 (bs, work, completed, False) st\<rbrakk> \<Longrightarrow>
   \<exists>bs' b. isSafe_while bs work completed = Some (bs', b) \<and>
     (\<exists>work' c'. bk_rep bs0 (bs', work', c', False)
        (greedy (bk_can bs0) (bk_rel bs0) (bs_processes bs0) st)) \<and>
     (b \<longleftrightarrow> length (fst (greedy (bk_can bs0) (bk_rel bs0) (bs_processes bs0) st)) = bs_processes bs0)"
proof (induction "bk_can bs0" "bk_rel bs0" "bs_processes bs0" st
    arbitrary: bs work completed rule: greedy.induct)
  case (1 st)
  let ?g = "greedy (bk_can bs0) (bk_rel bs0) (bs_processes bs0)"
  let ?s = "scan (bk_can bs0) (bk_rel bs0) [0..<bs_processes bs0] st"
  from "1.prems"(3) have c: "completed = length (fst st)" "bs_processes bs = bs_processes bs0"
    by (auto simp: bk_rep_def split: prod.splits)
  show ?case
  proof (cases "length (fst st) < bs_processes bs0")
    case False
    then have "?g st = st" by (simp add: greedy.simps)
    with False c "1.prems" greedy_inv_length [OF "1.prems"(2)] show ?thesis
      by (auto simp: isSafe_while.simps [of bs])
  next
    case True
    obtain bs1 w1 c1 f1 where pass: "for_loop 0 (bs_processes bs0) isSafe_try (bs, work, completed, False) =
        Some (bs1, w1, c1, f1)" "bk_rep bs0 (bs1, w1, c1, f1) ?s" "f1 = (fst ?s \<noteq> fst st)"
      using isSafe_pass_scan [OF "1.prems"] by (metis prod.exhaust_sel)
    have inv1: "bk_inv bs0 ?s" using "1.prems"(2) by (intro greedy_inv_scan) auto
    have rep1: "bk_rep bs0 (bs1, w1, c1, False) ?s" using pass(2) by (simp add: bk_rep_def)
    show ?thesis
    proof (cases "fst ?s = fst st")
      case eq: True
      then have "?g st = ?s" using True by (simp add: greedy.simps [of _ _ _ st] Let_def)
      with True eq pass c rep1 show ?thesis by (auto simp: isSafe_while.simps [of bs])
    next
      case False
      then have "?g st = ?g ?s" using True by (simp add: greedy.simps [of _ _ _ st] Let_def)
      with "1.hyps" [OF True refl False "1.prems"(1) inv1 rep1] False True pass c
      show ?thesis by (auto simp: isSafe_while.simps [of bs])
    qed
  qed
qed

text \<open>Everything about \<open>isSafe\<close> in one statement.\<close>

lemma isSafe_spec:
  assumes ok: "bs_ok bs"
  shows "\<exists>f sq b. isSafe bs = Some (bs\<lparr>bs_finished := f, bs_safe_sequence := sq\<rparr>, b) \<and>
     length f = MAX_PROCESSES \<and> length sq = MAX_PROCESSES \<and> (b \<longleftrightarrow> system_safe bs) \<and>
     (b \<longrightarrow> safe_sequence_for bs (take (bs_processes bs) sq))"
proof -
  let ?n = "bs_processes bs"
  let ?g = "greedy (bk_can bs) (bk_rel bs) ?n ([], bk_work0 bs)"
  have shape: "bs_shape bs" using ok by (simp add: bs_ok_def)
  have dims: "?n \<le> MAX_PROCESSES" "bs_resources bs \<le> MAX_RESOURCES" "length (bs_available bs) = MAX_RESOURCES"
    "length (bs_finished bs) = MAX_PROCESSES" "length (bs_safe_sequence bs) = MAX_PROCESSES"
    using shape by (auto simp: bs_shape_def)
  let ?f0 = "map (\<lambda>_. False) [0..<?n] @ drop ?n (bs_finished bs)"
  have start: "isSafe bs = isSafe_while (bs\<lparr>bs_finished := ?f0\<rparr>) (bk_work0 bs) 0"
    using dims for_loop_fill [of ?n "bs_finished bs" "\<lambda>_. False"]
      for_loop_copy [of "bs_resources bs" "replicate MAX_RESOURCES 0" "bs_available bs"]
    by (simp add: isSafe_def bk_work0_def)
  have "bk_rep bs (bs\<lparr>bs_finished := ?f0\<rparr>, bk_work0 bs, 0, False) ([], bk_work0 bs)"
    using dims by (auto simp: bk_rep_def nth_append
        intro!: exI [of _ ?f0] exI [of _ "bs_safe_sequence bs"])
  from isSafe_while_greedy [OF ok greedy_inv_start this] start
  obtain bs' b work c where res: "isSafe bs = Some (bs', b)" "bk_rep bs (bs', work, c, False) ?g"
    "b \<longleftrightarrow> length (fst ?g) = ?n" by auto
  obtain order w where g: "?g = (order, w)" by (cases ?g)
  from res(2) g obtain f sq where bs': "bs' = bs\<lparr>bs_finished := f, bs_safe_sequence := sq\<rparr>"
    "length f = MAX_PROCESSES" "length sq = MAX_PROCESSES" "take (length order) sq = order"
    by (auto simp: bk_rep_def)
  have seq: "safe_order (bk_can bs) (bk_rel bs) ?n (bk_work0 bs) xs \<longleftrightarrow> safe_sequence_for bs xs" for xs
  proof -
    have "bs_resources bs \<le> length (bk_work0 bs)" using shape dims by simp
    from runs_bk [OF this] shape show ?thesis by (simp add: safe_order_def safe_sequence_for_def)
  qed
  have "b \<longleftrightarrow> system_safe bs"
    using bk.greedy_decides [OF ok, of "bk_work0 bs"] res(3) by (simp add: safe_state_def seq system_safe_def)
  moreover have "safe_sequence_for bs (take ?n sq)" if b
    using greedy_result [OF greedy_inv_start, of "bk_can bs" "bk_rel bs" ?n "bk_work0 bs"]
      greedy_inv_full [of "bk_can bs" "bk_rel bs" ?n "bk_work0 bs" ?g] that res(3) bs'(4) g
    by (simp add: seq)
  ultimately show ?thesis using res(1) bs' by auto
qed

subsection \<open>Requests\<close>

definition vscale :: "int \<Rightarrow> int list \<Rightarrow> int list" where
  "vscale s q = map (\<lambda>x. s * x) q"

lemma length_vscale [simp]: "length (vscale s q) = length q"
  by (simp add: vscale_def)

lemma nth_vscale [simp]: "j < length q \<Longrightarrow> vscale s q ! j = s * q ! j"
  by (simp add: vscale_def)

lemma vadd_0 [simp]: "vadd 0 a w = w"
  by (simp add: vadd_def map_nth)

lemma vadd_Suc_update:
  "\<lbrakk>r < length w; r < length a\<rbrakk> \<Longrightarrow> (vadd r a w)[r := w ! r + a ! r] = vadd (Suc r) a w"
  by (rule nth_equalityI) (auto simp: nth_list_update less_Suc_eq)

lemma vadd_cancel:
  "r \<le> length q \<Longrightarrow> vadd r (vscale (- s) q) (vadd r (vscale s q) w) = w"
  by (rule nth_equalityI) auto

text \<open>The system after \<open>request\<close> has been moved to process \<open>pid\<close>, on the first \<open>r\<close> resources.\<close>

definition moved :: "nat \<Rightarrow> int \<Rightarrow> nat \<Rightarrow> int list \<Rightarrow> banker_system \<Rightarrow> banker_system" where
  "moved r s pid q bs = bs\<lparr>
     bs_available := vadd r (vscale (- s) q) (bs_available bs),
     bs_allocation := (bs_allocation bs)[pid := vadd r (vscale s q) (bs_allocation bs ! pid)],
     bs_need := (bs_need bs)[pid := vadd r (vscale (- s) q) (bs_need bs ! pid)]\<rparr>"

text \<open>The arithmetic of a move stays in range.\<close>

definition move_ok :: "int \<Rightarrow> nat \<Rightarrow> int list \<Rightarrow> banker_system \<Rightarrow> bool" where
  "move_ok s pid q bs \<longleftrightarrow> (\<forall>j < bs_resources bs. int_ok (bs_available bs ! j - s * q ! j) \<and>
     int_ok (bs_allocation bs ! pid ! j + s * q ! j) \<and> int_ok (bs_need bs ! pid ! j - s * q ! j))"

lemma request_move_moved:
  assumes shape: "bs_shape bs" and pid: "pid < bs_processes bs" and q: "bs_resources bs \<le> length q"
    and ok: "move_ok s pid q bs"
  shows "request_move s pid q bs = Some (moved (bs_resources bs) s pid q bs)"
proof -
  have dims: "bs_resources bs \<le> MAX_RESOURCES" "length (bs_available bs) = MAX_RESOURCES"
    "pid < length (bs_allocation bs)" "pid < length (bs_need bs)"
    "length (bs_allocation bs ! pid) = MAX_RESOURCES" "length (bs_need bs ! pid) = MAX_RESOURCES"
    using shape pid by (auto simp: bs_shape_def)
  define step where "step i b = do {
        x \<leftarrow> rd q i;
        a \<leftarrow> rd (bs_available b) i; a' \<leftarrow> chk (a - s * x); av \<leftarrow> wr (bs_available b) i a';
        l \<leftarrow> rd2 (bs_allocation b) pid i; l' \<leftarrow> chk (l + s * x);
        al \<leftarrow> wr2 (bs_allocation b) pid i l';
        n \<leftarrow> rd2 (bs_need b) pid i; n' \<leftarrow> chk (n - s * x);
        ne \<leftarrow> wr2 (bs_need b) pid i n';
        Some (b\<lparr>bs_available := av, bs_allocation := al, bs_need := ne\<rparr>) }"
    for i :: nat and b :: banker_system
  have "\<exists>b. for_loop 0 (bs_resources bs) step bs = Some b \<and> b = moved (bs_resources bs) s pid q bs"
  proof (rule for_loop_invar [where P = "\<lambda>i b. b = moved i s pid q bs"])
    show "bs = moved 0 s pid q bs" by (simp add: moved_def)
  next
    fix i b
    assume i: "i < bs_resources bs" and b: "b = moved i s pid q bs"
    have i10: "i < MAX_RESOURCES" "i < length q" using i dims(1) q by auto
    have in_range: "int_ok (bs_available bs ! i - s * q ! i)"
      "int_ok (bs_allocation bs ! pid ! i + s * q ! i)" "int_ok (bs_need bs ! pid ! i - s * q ! i)"
      using ok i by (auto simp: move_ok_def)
    have upd: "(vadd i (vscale t q) xs)[i := xs ! i + t * q ! i] = vadd (Suc i) (vscale t q) xs"
      if "length xs = MAX_RESOURCES" for t and xs :: "int list"
      using that i10 vadd_Suc_update [of i xs "vscale t q"] by simp
    have "step i b = Some (moved (Suc i) s pid q bs)"
      using dims i10 in_range upd [of "bs_available bs" "- s"] upd [of "bs_allocation bs ! pid" s]
        upd [of "bs_need bs ! pid" "- s"]
      by (simp add: step_def b moved_def)
    then show "\<exists>b'. step i b = Some b' \<and> b' = moved (Suc i) s pid q bs" by simp
  qed simp
  moreover have "request_move s pid q bs = for_loop 0 (bs_resources bs) step bs"
    unfolding request_move_def by (rule for_loop_cong) (simp add: step_def)
  ultimately show ?thesis by simp
qed

text \<open>A request that passes the checks of the loop.\<close>

definition grantable :: "banker_system \<Rightarrow> nat \<Rightarrow> int list \<Rightarrow> bool" where
  "grantable bs pid q \<longleftrightarrow>
     (\<forall>j < bs_resources bs. q ! j \<le> bs_need bs ! pid ! j \<and> q ! j \<le> bs_available bs ! j)"

lemma request_invalid_grantable:
  assumes shape: "bs_shape bs" and pid: "pid < bs_processes bs" and q: "bs_resources bs \<le> length q"
  shows "request_invalid bs pid q = Some (\<not> grantable bs pid q)"
proof -
  have dims: "bs_resources bs \<le> MAX_RESOURCES" "length (bs_available bs) = MAX_RESOURCES"
    "pid < length (bs_need bs)" "length (bs_need bs ! pid) = MAX_RESOURCES"
    using shape pid by (auto simp: bs_shape_def)
  show ?thesis unfolding request_invalid_def
    using dims q
    by (subst search_first_hit
        [where q = "\<lambda>i. q ! i > bs_need bs ! pid ! i \<or> q ! i > bs_available bs ! i"])
      (auto simp: grantable_def not_less)
qed

text \<open>
  A request with a negative amount gives resources back. The code does not look at the sign, so nothing stops a process from giving
  back what it does not hold; \<open>gives_back\<close> says that it does not.
\<close>

definition gives_back :: "banker_system \<Rightarrow> nat \<Rightarrow> int list \<Rightarrow> bool" where
  "gives_back bs pid q \<longleftrightarrow> (\<forall>j < bs_resources bs. - bs_allocation bs ! pid ! j \<le> q ! j)"

lemma gives_back_nonneg:
  "\<lbrakk>bs_ok bs; pid < bs_processes bs; \<forall>j < bs_resources bs. 0 \<le> q ! j\<rbrakk> \<Longrightarrow> gives_back bs pid q"
  by (force simp: gives_back_def bs_ok_def)

lemma bs_held_split:
  "pid < bs_processes bs \<Longrightarrow>
     bs_held bs j = bs_allocation bs ! pid ! j + (\<Sum>i \<in> {..<bs_processes bs} - {pid}. bs_allocation bs ! i ! j)"
  unfolding bs_held_def by (simp add: sum.remove)

text \<open>Moving a grantable request keeps the books: totals, claims and bounds.\<close>

lemma moved_books:
  assumes ok: "bs_ok bs" and claims: "bs_claims bs" and pid: "pid < bs_processes bs"
    and q: "bs_resources bs \<le> length q" "gives_back bs pid q" and g: "grantable bs pid q"
  shows "bs_ok (moved (bs_resources bs) 1 pid q bs)" and "bs_claims (moved (bs_resources bs) 1 pid q bs)"
    and "j < bs_resources bs \<Longrightarrow> bs_total (moved (bs_resources bs) 1 pid q bs) j = bs_total bs j"
proof -
  let ?m = "moved (bs_resources bs) 1 pid q bs"
  have shape: "bs_shape bs" using ok by (simp add: bs_ok_def)
  have len: "length (bs_allocation bs) = MAX_PROCESSES" "length (bs_need bs) = MAX_PROCESSES"
    "pid < MAX_PROCESSES" "length (bs_available bs) = MAX_RESOURCES" "bs_resources bs \<le> MAX_RESOURCES"
    "\<forall>i < MAX_PROCESSES. length (bs_allocation bs ! i) = MAX_RESOURCES \<and> length (bs_need bs ! i) = MAX_RESOURCES"
    using shape pid by (auto simp: bs_shape_def)
  have shape': "bs_shape ?m" using shape pid by (auto simp: bs_shape_def moved_def nth_list_update)
  have alloc: "bs_allocation ?m ! i ! j =
      bs_allocation bs ! i ! j + (if i = pid then q ! j else 0)" if "j < bs_resources bs" for i j
    using that len q by (auto simp: moved_def nth_list_update)
  have need: "bs_need ?m ! i ! j = bs_need bs ! i ! j - (if i = pid then q ! j else 0)"
    if "j < bs_resources bs" for i j
    using that len q by (auto simp: moved_def nth_list_update)
  have avail: "bs_available ?m ! j = bs_available bs ! j - q ! j" if "j < bs_resources bs" for j
    using that len q by (simp add: moved_def)
  have same: "bs_processes ?m = bs_processes bs" "bs_resources ?m = bs_resources bs" "bs_max ?m = bs_max bs"
    by (simp_all add: moved_def)
  have total: "bs_total ?m j = bs_total bs j" if "j < bs_resources bs" for j
    using that pid alloc avail bs_held_split [of pid ?m j] bs_held_split [of pid bs j]
    by (simp add: bs_total_def same)
  show "j < bs_resources bs \<Longrightarrow> bs_total ?m j = bs_total bs j" by (rule total)
  have "0 \<le> bs_allocation ?m ! i ! j" if "i < bs_processes bs" "j < bs_resources bs" for i j
  proof -
    have "0 \<le> bs_allocation bs ! i ! j" "- bs_allocation bs ! pid ! j \<le> q ! j"
      using ok q(2) that by (simp_all add: bs_ok_def gives_back_def)
    then show ?thesis using alloc [OF that(2), of i] by auto
  qed
  then show "bs_ok ?m" using ok g total avail shape' by (simp add: bs_ok_def same grantable_def)
  show "bs_claims ?m"
    unfolding bs_claims_def same
  proof (intro allI impI)
    fix i j assume i: "i < bs_processes bs" and j: "j < bs_resources bs"
    have "bs_need bs ! i ! j = bs_max bs ! i ! j - bs_allocation bs ! i ! j"
      "0 \<le> bs_need bs ! i ! j" "bs_max bs ! i ! j \<le> INT_MAX" "q ! j \<le> bs_need bs ! pid ! j"
      using claims g i j unfolding bs_claims_def grantable_def by blast+
    then show "bs_need ?m ! i ! j = bs_max bs ! i ! j - bs_allocation ?m ! i ! j \<and>
        0 \<le> bs_need ?m ! i ! j \<and> bs_max bs ! i ! j \<le> INT_MAX"
      using alloc [OF j] need [OF j] by auto
  qed
qed

lemma move_ok_grantable:
  assumes ok: "bs_ok bs" and claims: "bs_claims bs" and pid: "pid < bs_processes bs"
    and q: "bs_resources bs \<le> length q" "gives_back bs pid q" and g: "grantable bs pid q"
  shows "move_ok 1 pid q bs"
  unfolding move_ok_def
proof (intro allI impI)
  fix j assume j: "j < bs_resources bs"
  let ?n = "bs_need bs ! pid ! j" and ?a = "bs_allocation bs ! pid ! j" and ?m = "bs_max bs ! pid ! j"
  have "?n = ?m - ?a" "?m \<le> INT_MAX" "0 \<le> ?a" "- ?a \<le> q ! j" "q ! j \<le> ?n" "q ! j \<le> bs_available bs ! j"
    using ok claims pid q g j by (auto simp: bs_ok_def bs_claims_def grantable_def gives_back_def)
  moreover have "bs_available bs ! j + ?a \<le> INT_MAX"
  proof -
    have "0 \<le> (\<Sum>i \<in> {..<bs_processes bs} - {pid}. bs_allocation bs ! i ! j)"
      using ok j by (intro sum_nonneg) (simp add: bs_ok_def)
    then have "?a \<le> bs_held bs j" using bs_held_split [OF pid] by simp
    moreover have "bs_available bs ! j + bs_held bs j \<le> INT_MAX" using ok j by (simp add: bs_ok_def bs_total_def)
    ultimately show ?thesis by linarith
  qed
  ultimately show "int_ok (bs_available bs ! j - 1 * q ! j) \<and> int_ok (?a + 1 * q ! j) \<and> int_ok (?n - 1 * q ! j)"
    by (auto simp: int_ok_def INT_MIN_def)
qed

text \<open>Moving back restores the three arrays, whatever \<open>isSafe\<close> left in the other two.\<close>

lemma moved_back:
  assumes shape: "bs_shape bs" and pid: "pid < bs_processes bs" and q: "bs_resources bs \<le> length q"
  shows "moved (bs_resources bs) (- 1) pid q
     (moved (bs_resources bs) 1 pid q bs\<lparr>bs_finished := f, bs_safe_sequence := sq\<rparr>) =
     bs\<lparr>bs_finished := f, bs_safe_sequence := sq\<rparr>"
  using shape pid vadd_cancel [OF q, of 1] vadd_cancel [OF q, of "- 1"]
  by (simp add: moved_def bs_shape_def)

lemma move_back_ok:
  assumes ok: "bs_ok bs" and claims: "bs_claims bs" and pid: "pid < bs_processes bs"
    and q: "bs_resources bs \<le> length q"
  shows "move_ok (- 1) pid q (moved (bs_resources bs) 1 pid q bs\<lparr>bs_finished := f, bs_safe_sequence := sq\<rparr>)"
proof -
  have len: "length (bs_allocation bs) = MAX_PROCESSES" "length (bs_need bs) = MAX_PROCESSES"
    "pid < MAX_PROCESSES" "length (bs_available bs) = MAX_RESOURCES" "bs_resources bs \<le> MAX_RESOURCES"
    "length (bs_allocation bs ! pid) = MAX_RESOURCES" "length (bs_need bs ! pid) = MAX_RESOURCES"
    using ok pid by (auto simp: bs_ok_def bs_shape_def)
  have "int_ok (bs_available bs ! j) \<and> int_ok (bs_allocation bs ! pid ! j) \<and> int_ok (bs_need bs ! pid ! j)"
    if j: "j < bs_resources bs" for j
  proof -
    have "0 \<le> bs_held bs j" using ok j by (auto simp: bs_ok_def bs_held_def intro: sum_nonneg)
    moreover have "0 \<le> bs_available bs ! j" "bs_available bs ! j + bs_held bs j \<le> INT_MAX"
      "0 \<le> bs_allocation bs ! pid ! j"
      using ok pid j by (auto simp: bs_ok_def bs_total_def)
    moreover have "bs_need bs ! pid ! j = bs_max bs ! pid ! j - bs_allocation bs ! pid ! j"
      "0 \<le> bs_need bs ! pid ! j" "bs_max bs ! pid ! j \<le> INT_MAX"
      using claims pid j unfolding bs_claims_def by blast+
    ultimately show ?thesis by (auto simp: int_ok_def INT_MIN_def)
  qed
  then show ?thesis using len q by (auto simp: move_ok_def moved_def)
qed

lemma bs_ok_set_scratch:
  "\<lbrakk>bs_ok bs; length f = MAX_PROCESSES; length sq = MAX_PROCESSES\<rbrakk> \<Longrightarrow>
     bs_ok (bs\<lparr>bs_finished := f, bs_safe_sequence := sq\<rparr>)"
  by (simp add: bs_ok_def bs_shape_def bs_total_def bs_held_def)

lemma scratch_irrelevant [simp]:
  "bs_claims (bs\<lparr>bs_finished := f, bs_safe_sequence := sq\<rparr>) = bs_claims bs"
  "system_safe (bs\<lparr>bs_finished := f, bs_safe_sequence := sq\<rparr>) = system_safe bs"
  "bs_total (bs\<lparr>bs_finished := f, bs_safe_sequence := sq\<rparr>) j = bs_total bs j"
  "grantable (bs\<lparr>bs_finished := f, bs_safe_sequence := sq\<rparr>) pid q = grantable bs pid q"
  by (simp_all add: bs_claims_def system_safe_def safe_sequence_for_def bs_total_def bs_held_def grantable_def)

lemma requestResources_spec:
  assumes ok: "bs_ok bs" and claims: "bs_claims bs" and pid: "pid < bs_processes bs"
    and q: "bs_resources bs \<le> length q" "gives_back bs pid q"
  shows "\<exists>f sq b. length f = MAX_PROCESSES \<and> length sq = MAX_PROCESSES \<and>
     requestResources bs pid q =
       Some ((if b then moved (bs_resources bs) 1 pid q bs else bs)
               \<lparr>bs_finished := f, bs_safe_sequence := sq\<rparr>, b) \<and>
     (b \<longleftrightarrow> grantable bs pid q \<and> system_safe (moved (bs_resources bs) 1 pid q bs))"
proof -
  let ?m = "moved (bs_resources bs) 1 pid q bs"
  have shape: "bs_shape bs" using ok by (simp add: bs_ok_def)
  note invalid = request_invalid_grantable [OF shape pid q(1)]
  show ?thesis
  proof (cases "grantable bs pid q")
    case False
    with invalid shape show ?thesis
      by (intro exI [of _ "bs_finished bs"] exI [of _ "bs_safe_sequence bs"] exI [of _ False])
        (simp add: requestResources_def bs_shape_def)
  next
    case True
    note books = moved_books [OF ok claims pid q True]
    have move: "request_move 1 pid q bs = Some ?m"
      using request_move_moved [OF shape pid q(1)] move_ok_grantable [OF ok claims pid q True] by simp
    from isSafe_spec [OF books(1)] obtain f sq b where
      safe: "isSafe ?m = Some (?m\<lparr>bs_finished := f, bs_safe_sequence := sq\<rparr>, b)"
      "length f = MAX_PROCESSES" "length sq = MAX_PROCESSES" "b \<longleftrightarrow> system_safe ?m" by auto
    let ?u = "?m\<lparr>bs_finished := f, bs_safe_sequence := sq\<rparr>"
    have u: "bs_shape ?u" "pid < bs_processes ?u" "bs_resources ?u = bs_resources bs"
      using books(1) safe(2,3) pid by (auto simp: bs_ok_def bs_shape_def moved_def)
    have undo: "request_move (- 1) pid q ?u = Some (bs\<lparr>bs_finished := f, bs_safe_sequence := sq\<rparr>)"
      using request_move_moved [OF u(1,2), of q "- 1"] u(3) q(1) move_back_ok [OF ok claims pid q(1)]
        moved_back [OF shape pid q(1)] by simp
    show ?thesis
      using True invalid move safe undo
      by (intro exI [of _ f] exI [of _ sq] exI [of _ b]) (simp add: requestResources_def)
  qed
qed

text \<open>Requests served one after the other.\<close>

fun serve :: "banker_system \<Rightarrow> (nat \<times> int list) list \<Rightarrow> banker_system option" where
  "serve bs [] = Some bs"
| "serve bs ((pid, q) # rs) = do { (bs', b) \<leftarrow> requestResources bs pid q; serve bs' rs }"

definition banker_inv :: "banker_system \<Rightarrow> bool" where
  "banker_inv bs \<longleftrightarrow> bs_ok bs \<and> bs_claims bs \<and> system_safe bs"

text \<open>
  A request for an existing process that gives back no more than the process holds, and a sequence of such requests, each judged
  in the state in which it is made.
\<close>

definition request_ok :: "banker_system \<Rightarrow> nat \<times> int list \<Rightarrow> bool" where
  "request_ok bs = (\<lambda>(pid, q). pid < bs_processes bs \<and> bs_resources bs \<le> length q \<and> gives_back bs pid q)"

fun requests_ok :: "banker_system \<Rightarrow> (nat \<times> int list) list \<Rightarrow> bool" where
  "requests_ok bs [] = True"
| "requests_ok bs (r # rs) = (request_ok bs r \<and>
     (case requestResources bs (fst r) (snd r) of None \<Rightarrow> True | Some (bs', b) \<Rightarrow> requests_ok bs' rs))"

lemma request_keeps:
  assumes inv: "banker_inv bs" and r: "request_ok bs (pid, q)"
  shows "\<exists>bs' b. requestResources bs pid q = Some (bs', b) \<and> banker_inv bs' \<and>
     bs_processes bs' = bs_processes bs \<and> bs_resources bs' = bs_resources bs \<and>
     (\<forall>j < bs_resources bs. bs_total bs' j = bs_total bs j)"
proof -
  have pre: "bs_ok bs" "bs_claims bs" "pid < bs_processes bs" "bs_resources bs \<le> length q"
    "gives_back bs pid q"
    using inv r by (auto simp: banker_inv_def request_ok_def)
  let ?m = "moved (bs_resources bs) 1 pid q bs"
  from requestResources_spec [OF pre] obtain f sq b where res: "length f = MAX_PROCESSES"
    "length sq = MAX_PROCESSES"
    "requestResources bs pid q = Some ((if b then ?m else bs)\<lparr>bs_finished := f, bs_safe_sequence := sq\<rparr>, b)"
    "b \<longleftrightarrow> grantable bs pid q \<and> system_safe ?m" by blast
  show ?thesis
  proof (cases b)
    case True
    then have g: "grantable bs pid q" using res(4) by simp
    from moved_books [OF pre g] True res show ?thesis
      by (auto simp: banker_inv_def bs_ok_set_scratch moved_def)
  next
    case False
    with res inv show ?thesis by (auto simp: banker_inv_def bs_ok_set_scratch)
  qed
qed

lemma serve_keeps:
  "\<lbrakk>banker_inv bs; requests_ok bs rs\<rbrakk> \<Longrightarrow>
     \<exists>bs'. serve bs rs = Some bs' \<and> banker_inv bs' \<and> (\<forall>j < bs_resources bs. bs_total bs' j = bs_total bs j)"
proof (induction rs arbitrary: bs)
  case (Cons r rs)
  obtain pid q where r: "r = (pid, q)" by (cases r)
  with Cons.prems have ok: "request_ok bs (pid, q)" by simp
  from request_keeps [OF Cons.prems(1) ok]
  obtain bs1 b where step: "requestResources bs pid q = Some (bs1, b)" "banker_inv bs1"
    "bs_processes bs1 = bs_processes bs" "bs_resources bs1 = bs_resources bs"
    "\<forall>j < bs_resources bs. bs_total bs1 j = bs_total bs j" by blast
  have "requests_ok bs1 rs" using Cons.prems(2) step(1) r by simp
  from Cons.IH [OF step(2) this] step r show ?case by auto
qed simp

text \<open>Requests without negative amounts are such requests in every state.\<close>

lemma nonnegative_requests_ok:
  "\<lbrakk>banker_inv bs; \<forall>(pid, q) \<in> set rs. pid < bs_processes bs \<and> bs_resources bs \<le> length q \<and> (\<forall>j < bs_resources bs. 0 \<le> q ! j)\<rbrakk> \<Longrightarrow>
     requests_ok bs rs"
proof (induction rs arbitrary: bs)
  case (Cons r rs)
  obtain pid q where r: "r = (pid, q)" by (cases r)
  with Cons.prems have ok: "request_ok bs (pid, q)"
    by (auto simp: request_ok_def banker_inv_def intro: gives_back_nonneg)
  from request_keeps [OF Cons.prems(1) ok]
  obtain bs1 b where step: "requestResources bs pid q = Some (bs1, b)" "banker_inv bs1"
    "bs_processes bs1 = bs_processes bs" "bs_resources bs1 = bs_resources bs" by blast
  then show ?case using Cons.IH [OF step(2)] Cons.prems(2) ok r by auto
qed simp

subsection \<open>Properties\<close>

text \<open>The system \<open>main\<close> builds, used as the concrete input of the witnesses.\<close>

definition textbook_bank :: banker_system where
  "textbook_bank = \<lparr>bs_processes = 5, bs_resources = 3,
     bs_allocation = [[0,1,0,0,0,0,0,0,0,0], [2,0,0,0,0,0,0,0,0,0], [3,0,2,0,0,0,0,0,0,0],
        [2,1,1,0,0,0,0,0,0,0], [0,0,2,0,0,0,0,0,0,0]] @ replicate 5 (replicate 10 0),
     bs_max = [[7,5,3,0,0,0,0,0,0,0], [3,2,2,0,0,0,0,0,0,0], [9,0,2,0,0,0,0,0,0,0],
        [2,2,2,0,0,0,0,0,0,0], [4,3,3,0,0,0,0,0,0,0]] @ replicate 5 (replicate 10 0),
     bs_need = [[7,4,3,0,0,0,0,0,0,0], [1,2,2,0,0,0,0,0,0,0], [6,0,0,0,0,0,0,0,0,0],
        [0,1,1,0,0,0,0,0,0,0], [4,3,1,0,0,0,0,0,0,0]] @ replicate 5 (replicate 10 0),
     bs_available = [3,3,2,0,0,0,0,0,0,0],
     bs_safe_sequence = replicate 10 0, bs_finished = replicate 10 False\<rparr>"

lemma textbook_bank_inv: "banker_inv textbook_bank"
proof -
  have "bs_ok textbook_bank" "bs_claims textbook_bank" by code_simp+
  moreover have "safe_sequence_for textbook_bank [1, 3, 4, 0, 2]" by code_simp
  ultimately show ?thesis by (auto simp: banker_inv_def system_safe_def)
qed

text \<open>C1: \<open>isSafe\<close> decides safety exactly. On every well-formed system it returns without undefined
  behaviour (no overflow, no access outside an array), answers true if and only if some order
  lets all processes finish, changes nothing but its two scratch arrays, and when it answers
  true the array \<open>safe_sequence\<close> holds such an order.\<close>

theorem isSafe_decides_safety:
  assumes "bs_ok bs"
  shows "\<exists>f sq b. isSafe bs = Some (bs\<lparr>bs_finished := f, bs_safe_sequence := sq\<rparr>, b) \<and>
     (b \<longleftrightarrow> system_safe bs) \<and> (b \<longrightarrow> safe_sequence_for bs (take (bs_processes bs) sq))"
  using isSafe_spec [OF assms] by blast

theorem isSafe_decides_safety_witness:
  "\<exists>f sq b. isSafe textbook_bank = Some (textbook_bank\<lparr>bs_finished := f, bs_safe_sequence := sq\<rparr>, b) \<and>
     (b \<longleftrightarrow> system_safe textbook_bank) \<and>
     (b \<longrightarrow> safe_sequence_for textbook_bank (take (bs_processes textbook_bank) sq))"
proof -
  have "bs_ok textbook_bank" using textbook_bank_inv by (simp add: banker_inv_def)
  then show ?thesis by (rule isSafe_decides_safety)
qed

text \<open>
  The restriction is needed: process 1 of the example holds two of resource 0 and three are available. It gives back five, and the
  bank then has eight to give away and minus three lent out.
\<close>

lemma overdrawn_request_granted:
  "map_option (\<lambda>(bs, b). (b, bs_available bs ! 0, bs_allocation bs ! 1 ! 0)) (requestResources textbook_bank 1 [-5, 0, 0]) =
     Some (True, 8, -3)"
  by code_simp

text \<open>C2: what a request does in a consistent system (no negative entry, \<open>need\<close> is \<open>max\<close> minus \<open>allocation\<close>, the totals fit an
  \<open>int\<close>), when it comes from an existing process, has an amount for every resource, and each amount is nonnegative or gives back
  at most what the process holds. It is granted exactly when it passes both checks and the state it leads to is safe;
  a granted request moves the resources from \<open>available\<close> and \<open>need\<close> to \<open>allocation\<close>, a refused one
  leaves all three as they were (the rollback is exact). The code does not refuse a request that gives back more than the process
  holds; nothing is claimed for it here, and lemma overdrawn\_request\_granted shows one that is granted.\<close>

theorem requestResources_decides:
  assumes "bs_ok bs" and "bs_claims bs" and "pid < bs_processes bs"
    and "bs_resources bs \<le> length q" and "gives_back bs pid q"
  shows "\<exists>f sq b. requestResources bs pid q =
       Some ((if b then moved (bs_resources bs) 1 pid q bs else bs)
               \<lparr>bs_finished := f, bs_safe_sequence := sq\<rparr>, b) \<and>
     (b \<longleftrightarrow> grantable bs pid q \<and> system_safe (moved (bs_resources bs) 1 pid q bs))"
  using requestResources_spec [OF assms] by blast

theorem requestResources_decides_witness:
  "\<exists>f sq b. requestResources textbook_bank 1 [1, 0, 2] =
       Some ((if b then moved 3 1 1 [1, 0, 2] textbook_bank else textbook_bank)
               \<lparr>bs_finished := f, bs_safe_sequence := sq\<rparr>, b) \<and>
     (b \<longleftrightarrow> grantable textbook_bank 1 [1, 0, 2] \<and> system_safe (moved 3 1 1 [1, 0, 2] textbook_bank))"
proof -
  have dims: "bs_resources textbook_bank = 3" "bs_processes textbook_bank = 5"
    by (simp_all add: textbook_bank_def)
  have "bs_ok textbook_bank" "bs_claims textbook_bank" using textbook_bank_inv by (auto simp: banker_inv_def)
  moreover have "1 < bs_processes textbook_bank" "bs_resources textbook_bank \<le> length [1, 0, 2 :: int]"
    using dims by simp_all
  moreover have "gives_back textbook_bank 1 [1, 0, 2]" by code_simp
  ultimately show ?thesis using requestResources_decides [of textbook_bank 1 "[1, 0, 2]"] unfolding dims by blast
qed

text \<open>C3: deadlock avoidance. From a safe, consistent system every sequence of requests, each from an existing process with an amount
  for every resource, and each amount nonnegative or giving back at most what the process then holds, is served
  without undefined behaviour, and however it goes the system stays safe and consistent and no
  instance of a resource is created or lost. Requests with nonnegative amounts are always of this kind (lemma
  nonnegative\_requests\_ok); one that gives back more than the process holds is not refused by the code and creates instances
  (lemma overdrawn\_request\_granted).\<close>

theorem requests_keep_system_safe:
  assumes "banker_inv bs" and "requests_ok bs rs"
  shows "\<exists>bs'. serve bs rs = Some bs' \<and> banker_inv bs' \<and>
     (\<forall>j < bs_resources bs. bs_total bs' j = bs_total bs j)"
  using serve_keeps [OF assms] .

theorem requests_keep_system_safe_witness:
  "\<exists>bs'. serve textbook_bank [(1, [1, 0, 2]), (0, [0, 2, 0]), (1, [-2, 0, -1]), (4, [3, 3, 0])] = Some bs' \<and> banker_inv bs' \<and>
     (\<forall>j < bs_resources textbook_bank. bs_total bs' j = bs_total textbook_bank j)"
proof -
  have "requests_ok textbook_bank [(1, [1, 0, 2]), (0, [0, 2, 0]), (1, [-2, 0, -1]), (4, [3, 3, 0])]" by code_simp
  from requests_keep_system_safe [OF textbook_bank_inv this] show ?thesis .
qed

end
