(* ===== verification/Safety_Algorithm.thy ===== *)
theory Safety_Algorithm
  imports Banker
begin

section \<open>The safety algorithm: d14, Safety_algorithm.c\<close>

text \<open>
  The second program with a safety check. \<open>isSafe\<close> keeps \<open>finish\<close>, \<open>safeSequence\<close> and \<open>work\<close> in
  local arrays and leaves the state alone; its result here is the returned flag and the
  sequence it prints. The last section proves that it agrees with Banker_algorithm.c.
\<close>

subsection \<open>State and operations\<close>

record banker_state =
  sa_allocation :: "int list list"
  sa_max :: "int list list"
  sa_need :: "int list list"
  sa_available :: "int list"
  sa_processes :: nat
  sa_resources :: nat

definition sa_initializeBankers :: "banker_state \<Rightarrow> nat \<Rightarrow> nat \<Rightarrow> banker_state option" where
  "sa_initializeBankers st p r = do {
     let st = st\<lparr>sa_processes := p, sa_resources := r\<rparr>;
     st \<leftarrow> for_loop 0 p (\<lambda>i st. for_loop 0 r (\<lambda>j st. do {
         a \<leftarrow> wr2 (sa_allocation st) i j 0;
         m \<leftarrow> wr2 (sa_max st) i j 0;
         n \<leftarrow> wr2 (sa_need st) i j 0;
         Some (st\<lparr>sa_allocation := a, sa_max := m, sa_need := n\<rparr>) }) st) st;
     for_loop 0 r (\<lambda>i st. do {
         v \<leftarrow> wr (sa_available st) i 0;
         Some (st\<lparr>sa_available := v\<rparr>) }) st }"

definition calculateNeed :: "banker_state \<Rightarrow> banker_state option" where
  "calculateNeed st =
     for_loop 0 (sa_processes st) (\<lambda>i st.
       for_loop 0 (sa_resources st) (\<lambda>j st. do {
         m \<leftarrow> rd2 (sa_max st) i j;
         a \<leftarrow> rd2 (sa_allocation st) i j;
         d \<leftarrow> chk (m - a);
         n \<leftarrow> wr2 (sa_need st) i j d;
         Some (st\<lparr>sa_need := n\<rparr>) }) st) st"

text \<open>The locals of \<open>isSafe\<close>: \<open>work\<close>, \<open>finish\<close>, \<open>safeSequence\<close>, \<open>count\<close>, \<open>found\<close>.\<close>

type_synonym sa_vars = "int list \<times> bool list \<times> nat list \<times> nat \<times> bool"

definition sa_try :: "banker_state \<Rightarrow> nat \<Rightarrow> sa_vars \<Rightarrow> sa_vars option" where
  "sa_try st i = (\<lambda>(work, finish, seq, count, found). do {
     f \<leftarrow> rd finish i;
     if f then Some (work, finish, seq, count, found)
     else do {
       need \<leftarrow> rd (sa_need st) i;
       canAllocate \<leftarrow> row_fits (sa_resources st) need work;
       if canAllocate then do {
         a \<leftarrow> rd (sa_allocation st) i;
         work \<leftarrow> row_add (sa_resources st) a work;
         seq \<leftarrow> wr seq count i;
         finish \<leftarrow> wr finish i True;
         Some (work, finish, seq, count + 1, True) }
       else Some (work, finish, seq, count, found) } })"

partial_function (option) sa_while ::
  "banker_state \<Rightarrow> int list \<Rightarrow> bool list \<Rightarrow> nat list \<Rightarrow> nat \<Rightarrow> (int \<times> nat list) option" where
  "sa_while st work finish seq count =
     (if count < sa_processes st then do {
        v \<leftarrow> for_loop 0 (sa_processes st) (sa_try st) (work, finish, seq, count, False);
        (case v of (work', finish', seq', count', found) \<Rightarrow>
          if found then sa_while st work' finish' seq' count' else Some (0, [])) }
      else Some (1, take (sa_processes st) seq))"

declare sa_while.simps [code]

definition sa_isSafe :: "banker_state \<Rightarrow> (int \<times> nat list) option" where
  "sa_isSafe st = do {
     work \<leftarrow> for_loop 0 (sa_resources st) (\<lambda>i work. do {
         v \<leftarrow> rd (sa_available st) i; wr work i v }) (replicate MAX_RESOURCES 0);
     sa_while st work (replicate MAX_PROCESSES False) (replicate MAX_PROCESSES 0) 0 }"

definition sa_main :: "banker_state \<Rightarrow> (int \<times> nat list) option" where
  "sa_main st = do {
     st \<leftarrow> sa_initializeBankers st 5 3;
     v \<leftarrow> wr (sa_available st) 0 3; v \<leftarrow> wr v 1 3; v \<leftarrow> wr v 2 2;
     let al = [[0, 1, 0], [2, 0, 0], [3, 0, 2], [2, 1, 1], [0, 0, 2]];
     let mx = [[7, 5, 3], [3, 2, 2], [9, 0, 2], [2, 2, 2], [4, 3, 3]];
     st \<leftarrow> for_loop 0 5 (\<lambda>i st. for_loop 0 3 (\<lambda>j st. do {
        a \<leftarrow> rd2 al i j; al' \<leftarrow> wr2 (sa_allocation st) i j a;
        m \<leftarrow> rd2 mx i j; mx' \<leftarrow> wr2 (sa_max st) i j m;
        Some (st\<lparr>sa_allocation := al', sa_max := mx'\<rparr>) }) st) (st\<lparr>sa_available := v\<rparr>);
     st \<leftarrow> calculateNeed st;
     sa_isSafe st }"

subsection \<open>The same data as a Banker system\<close>

definition bank_of :: "banker_state \<Rightarrow> banker_system" where
  "bank_of st = \<lparr>bs_processes = sa_processes st, bs_resources = sa_resources st,
     bs_allocation = sa_allocation st, bs_max = sa_max st, bs_need = sa_need st,
     bs_available = sa_available st,
     bs_safe_sequence = replicate MAX_PROCESSES 0, bs_finished = replicate MAX_PROCESSES False\<rparr>"

lemma bank_of_sel [simp]:
  "bs_processes (bank_of st) = sa_processes st" "bs_resources (bank_of st) = sa_resources st"
  "bs_allocation (bank_of st) = sa_allocation st" "bs_need (bank_of st) = sa_need st"
  "bs_available (bank_of st) = sa_available st" "bs_max (bank_of st) = sa_max st"
  by (simp_all add: bank_of_def)

definition sa_ok :: "banker_state \<Rightarrow> bool" where
  "sa_ok st \<longleftrightarrow> bs_ok (bank_of st)"

text \<open>
  Both programs run the same round: the C variables of one round here are those of the round
  there, so \<open>sa_try\<close> is a step of \<open>isSafe_try\<close>.
\<close>

definition sa_as_bk :: "banker_state \<Rightarrow> sa_vars \<Rightarrow> safe_vars" where
  "sa_as_bk st = (\<lambda>(work, finish, seq, count, found).
     ((bank_of st)\<lparr>bs_finished := finish, bs_safe_sequence := seq\<rparr>, work, count, found))"

lemma bind_map_option: "do { x \<leftarrow> map_option f m; g x } = do { x \<leftarrow> m; g (f x) }"
  by (cases m) auto

lemma sa_try_as_bk: "map_option (sa_as_bk st) (sa_try st i v) = isSafe_try i (sa_as_bk st v)"
proof -
  obtain work finish seq count found where v: "v = (work, finish, seq, count, found)"
    by (cases v) auto
  show ?thesis
    by (cases "i < length finish"; cases "i < length (sa_need st)"; cases "i < length (sa_allocation st)";
        cases "count < length seq"; cases "row_fits (sa_resources st) (sa_need st ! i) work";
        cases "row_add (sa_resources st) (sa_allocation st ! i) work")
      (simp_all add: v sa_try_def isSafe_try_def sa_as_bk_def canAllocateResources_def)
qed

lemma foldM_simulate:
  assumes "\<And>x v. map_option h (f x v) = g x (h v)"
  shows "map_option h (foldM f xs v) = foldM g xs (h v)"
proof (induction xs arbitrary: v)
  case (Cons x xs)
  show ?case
  proof (cases "f x v")
    case None
    then have "g x (h v) = None" using assms [of x v] by simp
    then show ?thesis using None by simp
  next
    case (Some u)
    then have "g x (h v) = Some (h u)" using assms [of x v] by simp
    then show ?thesis using Some Cons [of u] by simp
  qed
qed simp

lemma sa_pass_as_bk:
  "map_option (sa_as_bk st) (for_loop 0 n (sa_try st) v) = for_loop 0 n isSafe_try (sa_as_bk st v)"
  unfolding for_loop_def by (rule foldM_simulate) (rule sa_try_as_bk)

lemma sa_while_greedy:
  fixes st :: banker_state
  defines "bk \<equiv> bank_of st"
  shows "\<lbrakk>bs_ok bk; bk_inv bk g; bk_rep bk (sa_as_bk st (work, finish, seq, count, False)) g\<rbrakk> \<Longrightarrow>
   \<exists>sq. sa_while st work finish seq count =
       Some (if length (fst (greedy (bk_can bk) (bk_rel bk) (bs_processes bk) g)) = bs_processes bk
             then (1, take (sa_processes st) sq) else (0, [])) \<and>
     take (length (fst (greedy (bk_can bk) (bk_rel bk) (bs_processes bk) g))) sq =
       fst (greedy (bk_can bk) (bk_rel bk) (bs_processes bk) g)"
proof (induction "bk_can bk" "bk_rel bk" "bs_processes bk" g
    arbitrary: work finish seq count rule: greedy.induct)
  case (1 g)
  let ?n = "bs_processes bk"
  let ?g = "greedy (bk_can bk) (bk_rel bk) ?n"
  let ?s = "scan (bk_can bk) (bk_rel bk) [0..<?n] g"
  have n: "sa_processes st = ?n" by (simp add: bk_def)
  from "1.prems"(3) have c: "count = length (fst g)" "take (length (fst g)) seq = fst g"
    by (auto simp: bk_rep_def sa_as_bk_def bk_def bank_of_def split: prod.splits)
  show ?case
  proof (cases "length (fst g) < ?n")
    case False
    with greedy_inv_length [OF "1.prems"(2)] have "length (fst g) = ?n" by simp
    moreover have "?g g = g" using False by (simp add: greedy.simps)
    ultimately show ?thesis using c n by (intro exI [of _ seq]) (auto simp: sa_while.simps [of st])
  next
    case True
    from isSafe_pass_scan [OF "1.prems"(1,2) "1.prems"(3) [unfolded sa_as_bk_def prod.case]]
    obtain v' where v': "for_loop 0 ?n isSafe_try (sa_as_bk st (work, finish, seq, count, False)) = Some v'"
      "bk_rep bk v' ?s" "snd (snd (snd v')) = (fst ?s \<noteq> fst g)"
      by (auto simp: sa_as_bk_def)
    from sa_pass_as_bk [of st ?n "(work, finish, seq, count, False)"] v'(1)
    obtain v where v: "for_loop 0 ?n (sa_try st) (work, finish, seq, count, False) = Some v"
      "v' = sa_as_bk st v" by auto
    obtain w1 f1 s1 c1 fo where vv: "v = (w1, f1, s1, c1, fo)" by (cases v) auto
    have fo: "fo = (fst ?s \<noteq> fst g)" using v'(3) v(2) vv by (simp add: sa_as_bk_def)
    have inv1: "bk_inv bk ?s" using "1.prems"(2) by (intro greedy_inv_scan) auto
    have rep1: "bk_rep bk (sa_as_bk st (w1, f1, s1, c1, False)) ?s"
      using v'(2) v(2) vv by (simp add: bk_rep_def sa_as_bk_def)
    show ?thesis
    proof (cases "fst ?s = fst g")
      case eq: True
      then have "?g g = ?s" using True by (simp add: greedy.simps [of _ _ _ g] Let_def)
      with True eq v(1) vv fo c n show ?thesis by (auto simp: sa_while.simps [of st])
    next
      case False
      then have "?g g = ?g ?s" using True by (simp add: greedy.simps [of _ _ _ g] Let_def)
      with "1.hyps" [OF True refl False "1.prems"(1) inv1 rep1] False True v(1) vv fo c n
      show ?thesis by (auto simp: sa_while.simps [of st])
    qed
  qed
qed

lemma sa_isSafe_spec:
  assumes ok: "sa_ok st"
  shows "if system_safe (bank_of st)
         then \<exists>order. sa_isSafe st = Some (1, order) \<and> safe_sequence_for (bank_of st) order
         else sa_isSafe st = Some (0, [])"
proof -
  let ?b = "bank_of st" and ?n = "sa_processes st"
  let ?g = "greedy (bk_can ?b) (bk_rel ?b) ?n ([], bk_work0 ?b)"
  have bok: "bs_ok ?b" and shape: "bs_shape ?b" using ok by (auto simp: sa_ok_def bs_ok_def)
  then have dims: "?n \<le> MAX_PROCESSES" "sa_resources st \<le> MAX_RESOURCES" "length (sa_available st) = MAX_RESOURCES"
    by (auto simp: bs_shape_def)
  have start: "sa_isSafe st =
      sa_while st (bk_work0 ?b) (replicate MAX_PROCESSES False) (replicate MAX_PROCESSES 0) 0"
    using dims for_loop_copy [of "sa_resources st" "replicate MAX_RESOURCES 0" "sa_available st"]
    by (simp add: sa_isSafe_def bk_work0_def)
  have "bk_rep ?b (sa_as_bk st (bk_work0 ?b, replicate MAX_PROCESSES False, replicate MAX_PROCESSES 0, 0, False))
      ([], bk_work0 ?b)"
    using dims by (auto simp: bk_rep_def sa_as_bk_def
        intro!: exI [of _ "replicate MAX_PROCESSES False"] exI [of _ "replicate MAX_PROCESSES 0"])
  from sa_while_greedy [OF bok greedy_inv_start this] start obtain sq where
    res: "sa_isSafe st = Some (if length (fst ?g) = ?n then (1, take ?n sq) else (0, []))"
    "take (length (fst ?g)) sq = fst ?g" by auto
  have seq: "safe_order (bk_can ?b) (bk_rel ?b) ?n (bk_work0 ?b) xs \<longleftrightarrow> safe_sequence_for ?b xs" for xs
  proof -
    have "bs_resources ?b \<le> length (bk_work0 ?b)" using shape dims by simp
    from runs_bk [OF this] shape show ?thesis by (simp add: safe_order_def safe_sequence_for_def)
  qed
  have "length (fst ?g) = ?n \<longleftrightarrow> system_safe ?b"
    using bk.greedy_decides [OF bok, of "bk_work0 ?b"] by (simp add: safe_state_def seq system_safe_def)
  moreover have "safe_sequence_for ?b (take ?n sq)" if "length (fst ?g) = ?n"
    using greedy_result [OF greedy_inv_start, of "bk_can ?b" "bk_rel ?b" ?n "bk_work0 ?b"]
      greedy_inv_full [of "bk_can ?b" "bk_rel ?b" ?n "bk_work0 ?b" ?g] that res(2)
    by (simp add: seq)
  ultimately show ?thesis using res(1) by auto
qed

subsection \<open>Properties\<close>

text \<open>C4: the two safety checks of the repository agree. On the same data, under the well-formedness
  condition, \<open>isSafe\<close> of Safety_algorithm.c returns 1 together with a safe order exactly when
  \<open>isSafe\<close> of Banker_algorithm.c returns true, and 0 otherwise.\<close>

theorem safety_checks_agree:
  assumes "sa_ok st"
  shows "\<exists>bs' b r order. isSafe (bank_of st) = Some (bs', b) \<and> sa_isSafe st = Some (r, order) \<and>
     r = (if b then 1 else 0) \<and> (b \<longleftrightarrow> safe_sequence_for (bank_of st) order)"
proof -
  have ok: "bs_ok (bank_of st)" using assms by (simp add: sa_ok_def)
  from isSafe_spec [OF ok] obtain bs' b where bk: "isSafe (bank_of st) = Some (bs', b)"
    "b \<longleftrightarrow> system_safe (bank_of st)" by blast
  have "\<not> safe_sequence_for (bank_of st) []" if "\<not> b"
    using that bk(2) by (auto simp: system_safe_def)
  with sa_isSafe_spec [OF assms] bk show ?thesis by (cases b) auto
qed

definition textbook_state :: banker_state where
  "textbook_state = \<lparr>sa_allocation = bs_allocation textbook_bank, sa_max = bs_max textbook_bank,
     sa_need = bs_need textbook_bank, sa_available = bs_available textbook_bank,
     sa_processes = 5, sa_resources = 3\<rparr>"

theorem safety_checks_agree_witness:
  "\<exists>bs' b r order. isSafe (bank_of textbook_state) = Some (bs', b) \<and>
     sa_isSafe textbook_state = Some (r, order) \<and>
     r = (if b then 1 else 0) \<and> (b \<longleftrightarrow> safe_sequence_for (bank_of textbook_state) order)"
proof (rule safety_checks_agree)
  show "sa_ok textbook_state" by code_simp
qed

end
