(* ===== verification/Resource_Graph.thy ===== *)
theory Resource_Graph
  imports Safety_Algorithm
begin

section \<open>Deadlock detection on the resource graph: d14, Resource_Allocation_Graph.c\<close>

text \<open>
  The detection loop of this file differs from the safety checks in one place: it never looks
  at \<open>finish\<close> before it lets a process complete. A process that can complete therefore completes
  again in every round. The theory models the loop as written and proves what follows.
\<close>

subsection \<open>State and operations\<close>

record resource_graph =
  rg_allocation :: "int list list"
  rg_request :: "int list list"
  rg_available :: "int list"
  rg_processes :: nat
  rg_resources :: nat

definition initializeRAG :: "resource_graph \<Rightarrow> nat \<Rightarrow> nat \<Rightarrow> resource_graph option" where
  "initializeRAG g p r = do {
     let g = g\<lparr>rg_processes := p, rg_resources := r\<rparr>;
     g \<leftarrow> for_loop 0 p (\<lambda>i g. for_loop 0 r (\<lambda>j g. do {
         a \<leftarrow> wr2 (rg_allocation g) i j 0;
         q \<leftarrow> wr2 (rg_request g) i j 0;
         Some (g\<lparr>rg_allocation := a, rg_request := q\<rparr>) }) g) g;
     for_loop 0 r (\<lambda>i g. do {
         v \<leftarrow> wr (rg_available g) i 0;
         Some (g\<lparr>rg_available := v\<rparr>) }) g }"

text \<open>The locals of \<open>detectDeadLock\<close>: \<open>work\<close>, \<open>finish\<close> and \<open>found\<close>.\<close>

type_synonym rg_vars = "int list \<times> bool list \<times> bool"

definition rg_try :: "resource_graph \<Rightarrow> nat \<Rightarrow> rg_vars \<Rightarrow> rg_vars option" where
  "rg_try g i = (\<lambda>(work, finish, found). do {
     q \<leftarrow> rd (rg_request g) i;
     canComplete \<leftarrow> row_fits (rg_resources g) q work;
     if canComplete then do {
       a \<leftarrow> rd (rg_allocation g) i;
       work \<leftarrow> row_add (rg_resources g) a work;
       finish \<leftarrow> wr finish i True;
       Some (work, finish, True) }
     else Some (work, finish, found) })"

partial_function (option) rg_while :: "resource_graph \<Rightarrow> int list \<Rightarrow> bool list \<Rightarrow> bool list option" where
  "rg_while g work finish = do {
     v \<leftarrow> for_loop 0 (rg_processes g) (rg_try g) (work, finish, False);
     (case v of (work', finish', found) \<Rightarrow>
        if found then rg_while g work' finish' else Some finish') }"

declare rg_while.simps [code]

definition rg_detectDeadLock :: "resource_graph \<Rightarrow> int option" where
  "rg_detectDeadLock g = do {
     work \<leftarrow> for_loop 0 (rg_resources g) (\<lambda>i work. do {
         v \<leftarrow> rd (rg_available g) i; wr work i v }) (replicate MAX_RESOURCES 0);
     finish \<leftarrow> rg_while g work (replicate MAX_RESOURCES False);
     left \<leftarrow> search_first 0 (rg_processes g) (\<lambda>i. do { f \<leftarrow> rd finish i; Some (\<not> f) });
     Some (if left = None then 0 else 1) }"

text \<open>The graph \<open>main\<close> builds, before it calls \<open>detectDeadLock\<close>.\<close>

definition rg_main_graph :: "resource_graph \<Rightarrow> resource_graph option" where
  "rg_main_graph g = do {
     g \<leftarrow> initializeRAG g 5 3;
     let al = [[1, 0, 0], [2, 0, 2], [3, 0, 2], [0, 1, 0], [0, 0, 2]];
     let rq = [[0, 0, 0], [2, 0, 2], [0, 0, 0], [1, 0, 0], [0, 0, 2]];
     g \<leftarrow> for_loop 0 5 (\<lambda>i g. for_loop 0 3 (\<lambda>j g. do {
        a \<leftarrow> rd2 al i j; al' \<leftarrow> wr2 (rg_allocation g) i j a;
        q \<leftarrow> rd2 rq i j; rq' \<leftarrow> wr2 (rg_request g) i j q;
        Some (g\<lparr>rg_allocation := al', rg_request := rq'\<rparr>) }) g) g;
     v \<leftarrow> wr (rg_available g) 0 3; v \<leftarrow> wr v 1 3; v \<leftarrow> wr v 2 2;
     Some (g\<lparr>rg_available := v\<rparr>) }"

subsection \<open>What the loop does\<close>

definition rg_ok :: "resource_graph \<Rightarrow> bool" where
  "rg_ok g \<longleftrightarrow> rg_processes g \<le> MAX_PROCESSES \<and> rg_resources g \<le> MAX_RESOURCES \<and>
     length (rg_allocation g) = MAX_PROCESSES \<and> length (rg_request g) = MAX_PROCESSES \<and>
     (\<forall>i < MAX_PROCESSES. length (rg_allocation g ! i) = MAX_RESOURCES \<and>
        length (rg_request g ! i) = MAX_RESOURCES) \<and>
     length (rg_available g) = MAX_RESOURCES \<and>
     (\<forall>i < rg_processes g. \<forall>j < rg_resources g. 0 \<le> rg_allocation g ! i ! j)"

definition rg_can :: "resource_graph \<Rightarrow> nat \<Rightarrow> int list \<Rightarrow> bool" where
  "rg_can g i w = vfits (rg_resources g) (rg_request g ! i) w"

definition rg_work0 :: "resource_graph \<Rightarrow> int list" where
  "rg_work0 g = take (rg_resources g) (rg_available g) @ drop (rg_resources g) (replicate MAX_RESOURCES 0)"

lemma rg_okD:
  assumes "rg_ok g" and "i < rg_processes g"
  shows "i < length (rg_allocation g)" "i < length (rg_request g)" "i < MAX_RESOURCES"
    "rg_resources g \<le> length (rg_allocation g ! i)" "rg_resources g \<le> length (rg_request g ! i)"
    "rg_resources g \<le> MAX_RESOURCES" "\<forall>j < rg_resources g. 0 \<le> rg_allocation g ! i ! j"
  using assms by (auto simp: rg_ok_def MAX_PROCESSES_def MAX_RESOURCES_def)

text \<open>A row addition that returns has added the row.\<close>

lemma row_add_result:
  assumes "row_add r a w = Some w'" and "r \<le> length a" and "r \<le> length w"
  shows "w' = vadd r a w"
proof -
  have "w' = vadd r a w \<and> length w' = length w"
  proof (rule for_loop_partial [OF assms(1) [unfolded row_add_def], where P = "\<lambda>i u. u = vadd i a w \<and> length u = length w"])
    show "w = vadd 0 a w \<and> length w = length w" by simp
  next
    fix i u u'
    assume i: "i < r" and P: "u = vadd i a w \<and> length u = length w"
      and step: "do { x \<leftarrow> rd u i; y \<leftarrow> rd a i; v \<leftarrow> chk (x + y); wr u i v } = Some u'"
    from step i P assms(2,3) have "u' = (vadd i a w)[i := w ! i + a ! i]"
      by (auto simp: bind_eq_Some_conv c_simps)
    also have "\<dots> = vadd (Suc i) a w" using i assms(2,3) by (intro vadd_Suc_update) auto
    finally show "u' = vadd (Suc i) a w \<and> length u' = length w" by simp
  qed simp
  then show ?thesis ..
qed

text \<open>A round never shrinks \<open>work\<close>, so a process that fits keeps fitting and sets \<open>found\<close>.\<close>

lemma rg_try_step:
  assumes ok: "rg_ok g" and i: "i < rg_processes g" and len: "length work = MAX_RESOURCES"
    and step: "rg_try g i (work, finish, found) = Some (work', finish', found')"
  shows "length work' = MAX_RESOURCES \<and> vleq (rg_resources g) work work' \<and>
     (found \<longrightarrow> found') \<and> (rg_can g i work \<longrightarrow> found')"
proof -
  have fits: "row_fits (rg_resources g) (rg_request g ! i) work = Some (rg_can g i work)"
    using rg_okD [OF ok i] len by (simp add: row_fits_vfits rg_can_def)
  show ?thesis
  proof (cases "rg_can g i work")
    case False
    then show ?thesis using step fits rg_okD [OF ok i] len by (auto simp: rg_try_def vleq_refl)
  next
    case True
    with step fits rg_okD [OF ok i] have
      "row_add (rg_resources g) (rg_allocation g ! i) work = Some work'" "found'"
      by (auto simp: rg_try_def bind_eq_Some_conv)
    with row_add_result [of "rg_resources g" "rg_allocation g ! i" work work'] rg_okD [OF ok i] len
    show ?thesis by (simp add: vleq_vadd)
  qed
qed

lemma rg_pass_found:
  assumes ok: "rg_ok g" and len: "length work = MAX_RESOURCES"
    and k: "k < rg_processes g" "rg_can g k work"
    and pass: "for_loop 0 (rg_processes g) (rg_try g) (work, finish, False) = Some (work', finish', found)"
  shows "found \<and> length work' = MAX_RESOURCES \<and> rg_can g k work'"
proof -
  define P where "P i = (\<lambda>(u, f :: bool list, fo). length u = MAX_RESOURCES \<and> vleq (rg_resources g) work u \<and> (k < i \<longrightarrow> fo))"
    for i :: nat
  have "P (rg_processes g) (work', finish', found)"
  proof (rule for_loop_partial [OF pass])
    show "P 0 (work, finish, False)" using len by (simp add: P_def vleq_refl)
  next
    fix i s s'
    assume i: "i < rg_processes g" and P: "P i s" and step: "rg_try g i s = Some s'"
    obtain u f fo u' f' fo' where s: "s = (u, f, fo)" "s' = (u', f', fo')" by (cases s; cases s') auto
    from rg_try_step [OF ok i, of u f fo u' f' fo'] P step s
    have "length u' = MAX_RESOURCES" "vleq (rg_resources g) work u'" "fo \<longrightarrow> fo'" "rg_can g i u \<longrightarrow> fo'"
      by (auto simp: P_def intro: vleq_trans)
    moreover have "rg_can g k u" using k(2) P s by (auto simp: P_def rg_can_def intro: vfits_mono)
    ultimately show "P (Suc i) s'" using P s by (auto simp: P_def less_Suc_eq)
  qed simp
  then show ?thesis using k by (auto simp: P_def rg_can_def intro: vfits_mono)
qed

text \<open>So the loop cannot return while some process fits: every round ends with \<open>found\<close> set.\<close>

lemma rg_while_never_returns:
  assumes "rg_while g work finish = Some r"
  shows "\<not> (rg_ok g \<and> length work = MAX_RESOURCES \<and> (\<exists>k < rg_processes g. rg_can g k work))"
proof (rule rg_while.raw_induct [OF _ assms, where P = "\<lambda>g work finish r.
    \<not> (rg_ok g \<and> length work = MAX_RESOURCES \<and> (\<exists>k < rg_processes g. rg_can g k work))"])
  fix loop :: "resource_graph \<Rightarrow> int list \<Rightarrow> bool list \<Rightarrow> bool list option" and g work finish r
  assume IH: "\<And>g work finish r. loop g work finish = Some r \<Longrightarrow>
      \<not> (rg_ok g \<and> length work = MAX_RESOURCES \<and> (\<exists>k < rg_processes g. rg_can g k work))"
    and eq: "do { v \<leftarrow> for_loop 0 (rg_processes g) (rg_try g) (work, finish, False);
      (case v of (work', finish', found) \<Rightarrow> if found then loop g work' finish' else Some finish') } = Some r"
  show "\<not> (rg_ok g \<and> length work = MAX_RESOURCES \<and> (\<exists>k < rg_processes g. rg_can g k work))"
  proof
    assume "rg_ok g \<and> length work = MAX_RESOURCES \<and> (\<exists>k < rg_processes g. rg_can g k work)"
    then obtain k where k: "rg_ok g" "length work = MAX_RESOURCES" "k < rg_processes g" "rg_can g k work"
      by blast
    from eq obtain work' finish' found where
      pass: "for_loop 0 (rg_processes g) (rg_try g) (work, finish, False) = Some (work', finish', found)"
      and rest: "(if found then loop g work' finish' else Some finish') = Some r"
      by (auto simp: bind_eq_Some_conv)
    from rg_pass_found [OF k pass] rest IH [of g work' finish' r] k show False by auto
  qed
qed

lemma rg_pass_idle:
  assumes ok: "rg_ok g" and len: "length work = MAX_RESOURCES"
    and none: "\<forall>k < rg_processes g. \<not> rg_can g k work"
  shows "for_loop 0 (rg_processes g) (rg_try g) (work, finish, False) = Some (work, finish, False)"
proof -
  have "\<exists>s. for_loop 0 (rg_processes g) (rg_try g) (work, finish, False) = Some s \<and> s = (work, finish, False)"
  proof (rule for_loop_invar [where P = "\<lambda>i s. s = (work, finish, False)"])
    fix i s
    assume i: "i < rg_processes g" and s: "s = (work, finish, False)"
    have "row_fits (rg_resources g) (rg_request g ! i) work = Some False"
      using rg_okD [OF ok i] len none i by (auto simp: row_fits_vfits rg_can_def)
    then show "\<exists>s'. rg_try g i s = Some s' \<and> s' = (work, finish, False)"
      using rg_okD [OF ok i] by (simp add: s rg_try_def)
  qed simp_all
  then show ?thesis by blast
qed

lemma rg_detect_eq:
  assumes ok: "rg_ok g"
  shows "rg_detectDeadLock g =
     (if \<exists>i < rg_processes g. rg_can g i (rg_work0 g) then None
      else Some (if rg_processes g = 0 then 0 else 1))"
proof -
  have dims: "rg_resources g \<le> MAX_RESOURCES" "length (rg_available g) = MAX_RESOURCES"
    "rg_processes g \<le> MAX_RESOURCES" "length (rg_work0 g) = MAX_RESOURCES"
    using ok by (auto simp: rg_ok_def rg_work0_def MAX_PROCESSES_def MAX_RESOURCES_def)
  have init: "for_loop 0 (rg_resources g) (\<lambda>i work. do {
         v \<leftarrow> rd (rg_available g) i; wr work i v }) (replicate MAX_RESOURCES 0) = Some (rg_work0 g)"
    using dims by (simp add: for_loop_copy rg_work0_def)
  show ?thesis
  proof (cases "\<exists>i < rg_processes g. rg_can g i (rg_work0 g)")
    case True
    then have "rg_while g (rg_work0 g) fin = None" for fin
      using rg_while_never_returns [of g "rg_work0 g" fin] ok dims by (cases "rg_while g (rg_work0 g) fin") auto
    with True show ?thesis by (simp add: rg_detectDeadLock_def init)
  next
    case False
    then have "rg_while g (rg_work0 g) fin = Some fin" for fin
      using rg_pass_idle [OF ok dims(4)] by (simp add: rg_while.simps)
    moreover have "search_first 0 (rg_processes g)
        (\<lambda>i. do { f \<leftarrow> rd (replicate MAX_RESOURCES False) i; Some (\<not> f) }) =
        Some (if rg_processes g = 0 then None else Some 0)"
      using dims by (cases "rg_processes g") (auto simp: search_first_step)
    ultimately show ?thesis using False by (simp add: rg_detectDeadLock_def init)
  qed
qed

subsection \<open>Properties\<close>

lemma rg_can_available:
  assumes "rg_ok g"
  shows "rg_can g i (rg_work0 g) \<longleftrightarrow> (\<forall>j < rg_resources g. rg_request g ! i ! j \<le> rg_available g ! j)"
  using assms by (auto simp: rg_can_def vfits_def vle_def rg_work0_def rg_ok_def nth_append)

text \<open>C5: the whole behaviour of \<open>detectDeadLock\<close> on a well-formed graph. If some process's request
  fits what is available, the call has no result: the loop completes that process again and
  again and never ends (or its additions overflow). Otherwise it returns 1, or 0 when there
  is no process. In particular it never answers "no deadlock" for a system that has a process.\<close>

theorem detectDeadLock_behaviour:
  assumes "rg_ok g"
  shows "rg_detectDeadLock g =
     (if \<exists>i < rg_processes g. \<forall>j < rg_resources g. rg_request g ! i ! j \<le> rg_available g ! j then None
      else Some (if rg_processes g = 0 then 0 else 1))"
  using rg_detect_eq [OF assms] rg_can_available [OF assms] by simp

definition rg_zero :: resource_graph where
  "rg_zero = \<lparr>rg_allocation = replicate 10 (replicate 10 0), rg_request = replicate 10 (replicate 10 0),
     rg_available = replicate 10 0, rg_processes = 0, rg_resources = 0\<rparr>"

text \<open>The file's own example: its \<open>main\<close> never prints an answer.\<close>

theorem detectDeadLock_behaviour_witness:
  "rg_ok (the (rg_main_graph rg_zero)) \<and> rg_detectDeadLock (the (rg_main_graph rg_zero)) = None"
proof -
  have ok: "rg_ok (the (rg_main_graph rg_zero))" by code_simp
  have "\<exists>i < rg_processes (the (rg_main_graph rg_zero)). \<forall>j < rg_resources (the (rg_main_graph rg_zero)).
     rg_request (the (rg_main_graph rg_zero)) ! i ! j \<le> rg_available (the (rg_main_graph rg_zero)) ! j"
    by code_simp
  with detectDeadLock_behaviour [OF ok] ok show ?thesis by simp
qed

end
