(* ===== verification/Wait_For_Graph.thy ===== *)
theory Wait_For_Graph
  imports Banker
begin

section \<open>Cycle detection in the wait-for graph: d14, Wait-for_graph.c\<close>

text \<open>
  Depth-first search with the arrays \<open>visited\<close> and \<open>recStack\<close>, which the C functions share by
  pointer and the model passes along. The recursion of \<open>detectCycleDFS\<close> is driven by fuel;
  one more than the number of processes is always enough, since every nested call visits a
  new vertex (\<open>dfs_total\<close>). The result is proved sound and complete: 1 exactly when the graph
  has a cycle.
\<close>

subsection \<open>State and operations\<close>

record wait_for_graph =
  wf_matrix :: "int list list"
  wf_processes :: nat

definition initializeWFG :: "wait_for_graph \<Rightarrow> nat \<Rightarrow> wait_for_graph option" where
  "initializeWFG g p =
     for_loop 0 p (\<lambda>i g. for_loop 0 p (\<lambda>j g. do {
         m \<leftarrow> wr2 (wf_matrix g) i j 0; Some (g\<lparr>wf_matrix := m\<rparr>) }) g) (g\<lparr>wf_processes := p\<rparr>)"

text \<open>\<open>visited\<close> and \<open>recStack\<close>.\<close>

type_synonym dfs_state = "bool list \<times> bool list"

text \<open>The loop over the neighbours of \<open>vertex\<close>; \<open>call\<close> is the recursive call.\<close>

primrec dfs_scan :: "(nat \<Rightarrow> dfs_state \<Rightarrow> (bool \<times> dfs_state) option) \<Rightarrow> wait_for_graph \<Rightarrow> nat \<Rightarrow>
    nat list \<Rightarrow> dfs_state \<Rightarrow> (bool \<times> dfs_state) option" where
  "dfs_scan call g vertex [] st = Some (False, st)"
| "dfs_scan call g vertex (i # is) st = do {
     m \<leftarrow> rd2 (wf_matrix g) vertex i;
     if m \<noteq> 0 then do {
       vis \<leftarrow> rd (fst st) i;
       (hit, st) \<leftarrow> (if \<not> vis then call i st else Some (False, st));
       if hit then Some (True, st)
       else do {
         onstack \<leftarrow> rd (snd st) i;
         if onstack then Some (True, st) else dfs_scan call g vertex is st } }
     else dfs_scan call g vertex is st }"

primrec dfs :: "nat \<Rightarrow> wait_for_graph \<Rightarrow> nat \<Rightarrow> dfs_state \<Rightarrow> (bool \<times> dfs_state) option" where
  "dfs 0 g vertex st = None"
| "dfs (Suc fuel) g vertex st = do {
     seen \<leftarrow> rd (fst st) vertex;
     (hit, st) \<leftarrow> (if \<not> seen then do {
         visited \<leftarrow> wr (fst st) vertex True;
         recStack \<leftarrow> wr (snd st) vertex True;
         dfs_scan (dfs fuel g) g vertex [0..<wf_processes g] (visited, recStack) }
       else Some (False, st));
     if hit then Some (True, st)
     else do { recStack \<leftarrow> wr (snd st) vertex False; Some (False, (fst st, recStack)) } }"

definition detectCycleDFS :: "wait_for_graph \<Rightarrow> nat \<Rightarrow> dfs_state \<Rightarrow> (bool \<times> dfs_state) option" where
  "detectCycleDFS g vertex st = dfs (Suc (wf_processes g)) g vertex st"

primrec wf_detect_from :: "wait_for_graph \<Rightarrow> nat list \<Rightarrow> dfs_state \<Rightarrow> int option" where
  "wf_detect_from g [] st = Some 0"
| "wf_detect_from g (i # is) st = do {
     (hit, st) \<leftarrow> detectCycleDFS g i st;
     if hit then Some 1 else wf_detect_from g is st }"

definition wf_detectDeadLock :: "wait_for_graph \<Rightarrow> int option" where
  "wf_detectDeadLock g =
     wf_detect_from g [0..<wf_processes g] (replicate MAX_PROCESSES False, replicate MAX_PROCESSES False)"

definition wf_main :: "wait_for_graph \<Rightarrow> int option" where
  "wf_main g = do {
     g \<leftarrow> initializeWFG g 4;
     m \<leftarrow> wr2 (wf_matrix g) 0 1 1; m \<leftarrow> wr2 m 1 2 1; m \<leftarrow> wr2 m 2 3 1; m \<leftarrow> wr2 m 3 0 1;
     wf_detectDeadLock (g\<lparr>wf_matrix := m\<rparr>) }"

subsection \<open>The graph and the search invariant\<close>

definition wf_ok :: "wait_for_graph \<Rightarrow> bool" where
  "wf_ok g \<longleftrightarrow> wf_processes g \<le> MAX_PROCESSES \<and> length (wf_matrix g) = MAX_PROCESSES \<and>
     (\<forall>i < MAX_PROCESSES. length (wf_matrix g ! i) = MAX_PROCESSES)"

definition wf_edges :: "wait_for_graph \<Rightarrow> (nat \<times> nat) set" where
  "wf_edges g = {(u, w). u < wf_processes g \<and> w < wf_processes g \<and> wf_matrix g ! u ! w \<noteq> 0}"

definition bits :: "bool list \<Rightarrow> nat set" where
  "bits xs = {i. i < length xs \<and> xs ! i}"

lemma bits_set_True [simp]: "i < length xs \<Longrightarrow> bits (xs[i := True]) = insert i (bits xs)"
  by (auto simp: bits_def nth_list_update split: if_splits)

lemma bits_set_False [simp]: "bits (xs[i := False]) = bits xs - {i}"
  by (cases "i < length xs") (auto simp: bits_def nth_list_update split: if_splits)

lemma bits_replicate [simp]: "bits (replicate n False) = {}"
  by (auto simp: bits_def)

lemma nth_bits: "i < length xs \<Longrightarrow> xs ! i \<longleftrightarrow> i \<in> bits xs"
  by (simp add: bits_def)

text \<open>
  The finished vertices \<open>V - R\<close> are closed under edges and carry no cycle; the vertices of \<open>R\<close>
  are those of the calls in progress.
\<close>

definition dfs_inv :: "wait_for_graph \<Rightarrow> nat set \<Rightarrow> nat set \<Rightarrow> bool" where
  "dfs_inv g V R \<longleftrightarrow> R \<subseteq> V \<and> V \<subseteq> {..<wf_processes g} \<and> wf_edges g `` (V - R) \<subseteq> V - R \<and>
     acyclic (wf_edges g \<inter> (V - R) \<times> (V - R))"

definition has_cycle :: "wait_for_graph \<Rightarrow> bool" where
  "has_cycle g \<longleftrightarrow> (\<exists>x. (x, x) \<in> (wf_edges g)\<^sup>+)"

lemma acyclic_insert_source:
  assumes closed: "E `` B \<subseteq> B" and ac: "acyclic (E \<inter> B \<times> B)" and succ: "E `` {v} \<subseteq> B" and new: "v \<notin> B"
  shows "acyclic (E \<inter> insert v B \<times> insert v B)"
proof (rule acyclicI, rule allI, rule notI)
  let ?F = "E \<inter> insert v B \<times> insert v B"
  fix x assume x: "(x, x) \<in> ?F\<^sup>+"
  have step: "b \<in> B" if "(a, b) \<in> ?F" for a b using that closed succ by blast
  have inB: "b \<in> B" if "(a, b) \<in> ?F\<^sup>+" for a b using that by (induction rule: trancl_induct) (rule step, assumption)+
  have "(x, y) \<in> (E \<inter> B \<times> B)\<^sup>+" if "(x, y) \<in> ?F\<^sup>+" for y
    using that
  proof (induction rule: trancl_induct)
    case (base y)
    with inB [OF x] step [OF base] show ?case by blast
  next
    case (step y z)
    have "y \<in> B" using inB [OF step.hyps(1)] .
    moreover have "z \<in> B" using inB step.hyps by (meson trancl_into_trancl)
    ultimately have "(y, z) \<in> E \<inter> B \<times> B" using step.hyps(2) by blast
    with step.IH show ?case by (rule trancl_into_trancl)
  qed
  with x ac show False by (auto simp: acyclic_def)
qed

lemma dfs_inv_finish:
  assumes inv: "dfs_inv g V (insert v R)" and new: "v \<notin> R" and succ: "wf_edges g `` {v} \<subseteq> V - insert v R"
  shows "dfs_inv g V R"
proof -
  have V: "V - R = insert v (V - insert v R)" using inv new by (auto simp: dfs_inv_def)
  have "acyclic (wf_edges g \<inter> (V - R) \<times> (V - R))"
    unfolding V using inv succ by (intro acyclic_insert_source) (auto simp: dfs_inv_def)
  then show ?thesis using inv succ unfolding dfs_inv_def V by blast
qed

text \<open>What a call in progress knows and what it gives back.\<close>

definition dfs_pre :: "wait_for_graph \<Rightarrow> nat \<Rightarrow> dfs_state \<Rightarrow> bool" where
  "dfs_pre g n st \<longleftrightarrow> length (fst st) = MAX_PROCESSES \<and> length (snd st) = MAX_PROCESSES \<and>
     dfs_inv g (bits (fst st)) (bits (snd st)) \<and> card ({..<wf_processes g} - bits (fst st)) \<le> n"

definition dfs_post :: "wait_for_graph \<Rightarrow> dfs_state \<Rightarrow> nat set \<Rightarrow> bool \<times> dfs_state \<Rightarrow> bool" where
  "dfs_post g st new = (\<lambda>(hit, st').
     if hit then has_cycle g
     else length (fst st') = MAX_PROCESSES \<and> length (snd st') = MAX_PROCESSES \<and>
       bits (snd st') = bits (snd st) \<and> bits (fst st) \<subseteq> bits (fst st') \<and>
       new \<subseteq> bits (fst st') - bits (snd st) \<and> dfs_inv g (bits (fst st')) (bits (snd st)))"

lemma dfs_scan_correct:
  assumes ok: "wf_ok g" and v: "v < wf_processes g"
    and call: "\<And>i st. \<lbrakk>i < wf_processes g; i \<notin> bits (fst st); dfs_pre g n st;
        \<forall>r \<in> bits (snd st). (r, i) \<in> (wf_edges g)\<^sup>+\<rbrakk> \<Longrightarrow> \<exists>res. call i st = Some res \<and> dfs_post g st {i} res"
  shows "\<lbrakk>set is \<subseteq> {..<wf_processes g}; dfs_pre g n st; \<forall>r \<in> bits (snd st). (r, v) \<in> (wf_edges g)\<^sup>*\<rbrakk> \<Longrightarrow>
    \<exists>res. dfs_scan call g v is st = Some res \<and> dfs_post g st (wf_edges g `` {v} \<inter> set is) res"
proof (induction "is" arbitrary: st)
  case Nil
  then show ?case by (simp add: dfs_post_def dfs_pre_def)
next
  case (Cons i "is")
  have i: "i < wf_processes g" "i < MAX_PROCESSES" "v < MAX_PROCESSES"
    using Cons.prems(1) ok v by (auto simp: wf_ok_def)
  have m: "rd2 (wf_matrix g) v i = Some (wf_matrix g ! v ! i)" using ok i by (simp add: wf_ok_def)
  have is': "set is \<subseteq> {..<wf_processes g}" using Cons.prems(1) by simp
  show ?case
  proof (cases "wf_matrix g ! v ! i = 0")
    case True
    then have "wf_edges g `` {v} \<inter> set (i # is) = wf_edges g `` {v} \<inter> set is" by (auto simp: wf_edges_def)
    with Cons.IH [OF is' Cons.prems(2,3)] m True show ?thesis by simp
  next
    case False
    then have edge: "(v, i) \<in> wf_edges g" using v i by (simp add: wf_edges_def)
    have reach: "\<forall>r \<in> bits (snd st). (r, i) \<in> (wf_edges g)\<^sup>+"
      using Cons.prems(3) edge by (meson rtrancl_into_trancl1)
    have len: "length (fst st) = MAX_PROCESSES" "length (snd st) = MAX_PROCESSES"
      using Cons.prems(2) by (auto simp: dfs_pre_def)
    obtain hit st1 where c: "(if \<not> fst st ! i then call i st else Some (False, st)) = Some (hit, st1)"
      and post: "dfs_post g st (if fst st ! i then {} else {i}) (hit, st1)"
    proof (cases "fst st ! i")
      case True
      with Cons.prems(2) that show ?thesis by (auto simp: dfs_post_def dfs_pre_def)
    next
      case False
      then have "i \<notin> bits (fst st)" using i len by (simp add: nth_bits)
      from call [OF i(1) this Cons.prems(2) reach] False that show ?thesis by (auto split: prod.splits)
    qed
    show ?thesis
    proof (cases "hit \<or> i \<in> bits (snd st)")
      case True
      have "has_cycle g"
      proof (cases hit)
        case True
        with post show ?thesis by (simp add: dfs_post_def)
      next
        case False
        with True reach show ?thesis by (auto simp: has_cycle_def)
      qed
      moreover have "\<exists>st2. dfs_scan call g v (i # is) st = Some (True, st2)"
      proof (cases hit)
        case True
        with c m \<open>wf_matrix g ! v ! i \<noteq> 0\<close> len i show ?thesis by auto
      next
        case False
        with post have "length (snd st1) = MAX_PROCESSES" "bits (snd st1) = bits (snd st)"
          by (auto simp: dfs_post_def)
        with False True i have "snd st1 ! i" by (simp add: nth_bits)
        with False c m \<open>wf_matrix g ! v ! i \<noteq> 0\<close> len i \<open>length (snd st1) = MAX_PROCESSES\<close> show ?thesis by auto
      qed
      ultimately show ?thesis by (auto simp: dfs_post_def)
    next
      case False
      then have post1: "length (fst st1) = MAX_PROCESSES" "length (snd st1) = MAX_PROCESSES"
        "bits (snd st1) = bits (snd st)" "bits (fst st) \<subseteq> bits (fst st1)" "dfs_inv g (bits (fst st1)) (bits (snd st))"
        "i \<in> bits (fst st1) - bits (snd st)"
        using post i len by (auto simp: dfs_post_def nth_bits split: if_splits)
      have "card ({..<wf_processes g} - bits (fst st1)) \<le> card ({..<wf_processes g} - bits (fst st))"
        using post1(4) by (intro card_mono) auto
      then have pre1: "dfs_pre g n st1" using post1 Cons.prems(2) by (simp add: dfs_pre_def)
      have "\<not> snd st1 ! i" using post1 i by (auto simp: nth_bits)
      then have eq: "dfs_scan call g v (i # is) st = dfs_scan call g v is st1"
        using c m False \<open>wf_matrix g ! v ! i \<noteq> 0\<close> len i post1(2) by auto
      from Cons.IH [OF is' pre1] Cons.prems(3) post1(3) obtain res where
        res: "dfs_scan call g v is st1 = Some res" "dfs_post g st1 (wf_edges g `` {v} \<inter> set is) res" by auto
      have "dfs_post g st (wf_edges g `` {v} \<inter> set (i # is)) res"
        using res(2) post1 by (cases res) (auto simp: dfs_post_def split: if_splits)
      with res eq show ?thesis by auto
    qed
  qed
qed

lemma dfs_total:
  assumes ok: "wf_ok g"
  shows "\<lbrakk>v < wf_processes g; v \<notin> bits (fst st); dfs_pre g n st; \<forall>r \<in> bits (snd st). (r, v) \<in> (wf_edges g)\<^sup>+\<rbrakk> \<Longrightarrow>
     \<exists>res. dfs n g v st = Some res \<and> dfs_post g st {v} res"
proof (induction n arbitrary: v st)
  case 0
  then have "{..<wf_processes g} - bits (fst st) = {}" by (simp add: dfs_pre_def)
  with "0.prems" show ?case by auto
next
  case (Suc n)
  let ?V = "bits (fst st)" and ?R = "bits (snd st)"
  have v10: "v < MAX_PROCESSES" using Suc.prems(1) ok by (simp add: wf_ok_def)
  have len: "length (fst st) = MAX_PROCESSES" "length (snd st) = MAX_PROCESSES"
    and inv: "dfs_inv g ?V ?R" using Suc.prems(3) by (auto simp: dfs_pre_def)
  let ?st = "((fst st)[v := True], (snd st)[v := True])"
  have new: "v \<notin> ?R" using inv Suc.prems(2) by (auto simp: dfs_inv_def)
  have diff: "insert v ?V - insert v ?R = ?V - ?R" using Suc.prems(2) new by auto
  have inv1: "dfs_inv g (insert v ?V) (insert v ?R)"
    using inv Suc.prems(1) unfolding dfs_inv_def diff by auto
  have "card ({..<wf_processes g} - insert v ?V) < card ({..<wf_processes g} - ?V)"
    using Suc.prems(1,2) by (intro psubset_card_mono) auto
  then have pre1: "dfs_pre g n ?st" using Suc.prems(3) inv1 v10 by (simp add: dfs_pre_def)
  have reach1: "\<forall>r \<in> bits (snd ?st). (r, v) \<in> (wf_edges g)\<^sup>*"
    using Suc.prems(4) v10 len by (auto intro: trancl_into_rtrancl)
  have "\<exists>res. dfs_scan (dfs n g) g v [0..<wf_processes g] ?st = Some res \<and>
      dfs_post g ?st (wf_edges g `` {v} \<inter> set [0..<wf_processes g]) res"
    by (rule dfs_scan_correct [OF ok Suc.prems(1) Suc.IH _ pre1 reach1]) auto
  then obtain hit st1 where scan: "dfs_scan (dfs n g) g v [0..<wf_processes g] ?st = Some (hit, st1)"
    and post: "dfs_post g ?st (wf_edges g `` {v} \<inter> set [0..<wf_processes g]) (hit, st1)"
    by (metis prod.exhaust)
  have seen: "\<not> fst st ! v" using Suc.prems(2) v10 len by (simp add: nth_bits)
  show ?case
  proof (cases hit)
    case True
    with scan post seen v10 len show ?thesis by (auto simp: dfs_post_def)
  next
    case False
    have "wf_edges g `` {v} \<subseteq> set [0..<wf_processes g]" by (auto simp: wf_edges_def)
    with False post v10 len have p: "length (fst st1) = MAX_PROCESSES" "length (snd st1) = MAX_PROCESSES"
      "bits (snd st1) = insert v ?R" "insert v ?V \<subseteq> bits (fst st1)"
      "wf_edges g `` {v} \<subseteq> bits (fst st1) - insert v ?R" "dfs_inv g (bits (fst st1)) (insert v ?R)"
      by (auto simp: dfs_post_def)
    have "dfs_inv g (bits (fst st1)) ?R" by (rule dfs_inv_finish [OF p(6) new p(5)])
    with False scan seen v10 len p new show ?thesis by (auto simp: dfs_post_def)
  qed
qed

subsection \<open>The whole search\<close>

lemma detectCycleDFS_correct:
  assumes ok: "wf_ok g" and v: "v < wf_processes g" and pre: "dfs_pre g (wf_processes g) st"
    and R: "bits (snd st) = {}"
  shows "\<exists>res. detectCycleDFS g v st = Some res \<and> dfs_post g st {v} res"
proof (cases "v \<in> bits (fst st)")
  case True
  moreover have "v < MAX_PROCESSES" using ok v by (simp add: wf_ok_def)
  ultimately show ?thesis using pre R
    by (auto simp: detectCycleDFS_def dfs_pre_def dfs_post_def nth_bits)
next
  case False
  moreover have "dfs_pre g (Suc (wf_processes g)) st" using pre by (simp add: dfs_pre_def)
  ultimately show ?thesis unfolding detectCycleDFS_def using R by (intro dfs_total [OF ok v]) auto
qed

lemma wf_detect_from_correct:
  assumes ok: "wf_ok g"
  shows "\<lbrakk>set is \<subseteq> {..<wf_processes g}; {..<wf_processes g} \<subseteq> bits (fst st) \<union> set is;
      dfs_pre g (wf_processes g) st; bits (snd st) = {}\<rbrakk> \<Longrightarrow>
    wf_detect_from g is st = Some (if has_cycle g then 1 else 0)"
proof (induction "is" arbitrary: st)
  case Nil
  then have "bits (fst st) = {..<wf_processes g}" by (auto simp: dfs_pre_def dfs_inv_def)
  with Nil have "acyclic (wf_edges g \<inter> {..<wf_processes g} \<times> {..<wf_processes g})"
    by (auto simp: dfs_pre_def dfs_inv_def)
  moreover have "wf_edges g \<inter> {..<wf_processes g} \<times> {..<wf_processes g} = wf_edges g"
    by (auto simp: wf_edges_def)
  ultimately show ?case by (auto simp: has_cycle_def acyclic_def)
next
  case (Cons i "is")
  then have i: "i < wf_processes g" by simp
  from detectCycleDFS_correct [OF ok i Cons.prems(3,4)] obtain hit st1 where
    call: "detectCycleDFS g i st = Some (hit, st1)" and post: "dfs_post g st {i} (hit, st1)" by auto
  show ?case
  proof (cases hit)
    case True
    with call post show ?thesis by (simp add: dfs_post_def)
  next
    case False
    with post Cons.prems(4) have p: "bits (snd st1) = {}" "insert i (bits (fst st)) \<subseteq> bits (fst st1)"
      "length (fst st1) = MAX_PROCESSES" "length (snd st1) = MAX_PROCESSES" "dfs_inv g (bits (fst st1)) {}"
      by (auto simp: dfs_post_def)
    have "card ({..<wf_processes g} - bits (fst st1)) \<le> wf_processes g"
      by (metis card_lessThan card_mono Diff_subset finite_lessThan)
    then have "wf_detect_from g is st1 = Some (if has_cycle g then 1 else 0)"
      using Cons.prems p by (intro Cons.IH) (auto simp: dfs_pre_def)
    with call False show ?thesis by simp
  qed
qed

lemma wf_detect_correct: "wf_ok g \<Longrightarrow> wf_detectDeadLock g = Some (if has_cycle g then 1 else 0)"
  unfolding wf_detectDeadLock_def
  by (rule wf_detect_from_correct) (auto simp: dfs_pre_def dfs_inv_def acyclic_def)

subsection \<open>Properties\<close>

text \<open>C6: deadlock detection in the wait-for graph is exact. On every graph that fits the arrays the
  search returns, stays inside them, and answers 1 if and only if some process waits,
  directly or through others, for itself.\<close>

theorem wf_detectDeadLock_iff_cycle:
  assumes "wf_ok g"
  shows "wf_detectDeadLock g = Some (if \<exists>x. (x, x) \<in> (wf_edges g)\<^sup>+ then 1 else 0)"
  using wf_detect_correct [OF assms] by (simp add: has_cycle_def)

definition wf_ring :: wait_for_graph where
  "wf_ring = \<lparr>wf_matrix = [[0,1,0,0,0,0,0,0,0,0], [0,0,1,0,0,0,0,0,0,0], [0,0,0,1,0,0,0,0,0,0],
     [1,0,0,0,0,0,0,0,0,0]] @ replicate 6 (replicate 10 0), wf_processes = 4\<rparr>"

theorem wf_detectDeadLock_iff_cycle_witness:
  "wf_detectDeadLock wf_ring = Some (if \<exists>x. (x, x) \<in> (wf_edges wf_ring)\<^sup>+ then 1 else 0) \<and>
   wf_detectDeadLock wf_ring = Some 1"
proof -
  have "wf_ok wf_ring" by code_simp
  moreover have "wf_detectDeadLock wf_ring = Some 1" by code_simp
  ultimately show ?thesis using wf_detectDeadLock_iff_cycle by blast
qed

end
