(* ===== verification/Deadlock_Handling.thy ===== *)
theory Deadlock_Handling
  imports Banker
begin

section \<open>Deadlock prevention and recovery: d14, ResourceOrderingSystem.c and recoverFromDeadlock.c\<close>

text \<open>
  Two small programs: one grants resources only in increasing priority (with the theorem that
  this excludes circular waiting), the other picks a victim among deadlocked processes and
  takes its resources away.
\<close>

subsection \<open>Resource ordering: state and operations\<close>

record ro_resource =
  ro_resource_id :: int
  ro_priority :: int
  ro_available :: int

record resource_ordering =
  ro_resources :: "ro_resource list"
  ro_num_resources :: nat

definition initializeResourceOrdering :: "resource_ordering \<Rightarrow> nat \<Rightarrow> resource_ordering option" where
  "initializeResourceOrdering ros num_res =
     for_loop 0 num_res (\<lambda>i ros. do {
       rs \<leftarrow> wr (ro_resources ros) i \<lparr>ro_resource_id = int i, ro_priority = int i, ro_available = 1\<rparr>;
       Some (ros\<lparr>ro_resources := rs\<rparr>) }) (ros\<lparr>ro_num_resources := num_res\<rparr>)"

definition isValidResourceRequest :: "resource_ordering \<Rightarrow> int \<Rightarrow> int \<Rightarrow> bool option" where
  "isValidResourceRequest ros curr_resource req_resource =
     (if curr_resource = - 1 then Some True
      else do {
        c \<leftarrow> rdi (ro_resources ros) curr_resource;
        q \<leftarrow> rdi (ro_resources ros) req_resource;
        Some (ro_priority c < ro_priority q) })"

definition requestResource :: "resource_ordering \<Rightarrow> int \<Rightarrow> int \<Rightarrow> int \<Rightarrow> (resource_ordering \<times> int) option" where
  "requestResource ros process_id curr_resource req_resource = do {
     valid \<leftarrow> isValidResourceRequest ros curr_resource req_resource;
     if \<not> valid then Some (ros, 0)
     else do {
       q \<leftarrow> rdi (ro_resources ros) req_resource;
       if ro_available q = 0 then Some (ros, 0)
       else do {
         rs \<leftarrow> wri (ro_resources ros) req_resource (q\<lparr>ro_available := 0\<rparr>);
         Some (ros\<lparr>ro_resources := rs\<rparr>, 1) } } }"

definition ro_main :: "resource_ordering \<Rightarrow> (int \<times> int \<times> int) option" where
  "ro_main ros = do {
     ros \<leftarrow> initializeResourceOrdering ros 5;
     (ros, r1) \<leftarrow> requestResource ros 1 (- 1) 0;
     let curr = (if r1 \<noteq> 0 then 0 else - 1);
     (ros, r2) \<leftarrow> requestResource ros 1 curr 2;
     let curr = (if r2 \<noteq> 0 then 2 else curr);
     (ros, r3) \<leftarrow> requestResource ros 1 curr 1;
     Some (r1, r2, r3) }"

subsection \<open>Several processes under the ordering rule\<close>

text \<open>
  Each process remembers the resource it got last and passes it as \<open>curr_resource\<close>, as \<open>main\<close>
  does; \<open>w_holder\<close> records who was granted a resource. \<open>ro_reach n\<close> are the states that grants
  can lead to, with \<open>n\<close> resources.
\<close>

record ro_world =
  w_ros :: resource_ordering
  w_curr :: "nat \<Rightarrow> int"
  w_holder :: "nat \<Rightarrow> nat option"

inductive ro_reach :: "nat \<Rightarrow> ro_world \<Rightarrow> bool" for n where
  start: "\<lbrakk>length (ro_resources ros0) = MAX_RESOURCES; initializeResourceOrdering ros0 n = Some ros\<rbrakk> \<Longrightarrow>
     ro_reach n \<lparr>w_ros = ros, w_curr = (\<lambda>_. - 1), w_holder = (\<lambda>_. None)\<rparr>"
| grant: "\<lbrakk>ro_reach n w; r < n; requestResource (w_ros w) (int p) (w_curr w p) (int r) = Some (ros', 1)\<rbrakk> \<Longrightarrow>
     ro_reach n \<lparr>w_ros = ros', w_curr = (w_curr w)(p := int r), w_holder = (w_holder w)(r := Some p)\<rparr>"

text \<open>\<open>p\<close> waits for resource \<open>r\<close> of \<open>q\<close>: a request of \<open>p\<close> in the right order fails because \<open>q\<close> has the resource.\<close>

definition ro_waits_on :: "nat \<Rightarrow> ro_world \<Rightarrow> nat \<Rightarrow> nat \<Rightarrow> nat \<Rightarrow> bool" where
  "ro_waits_on n w p r q \<longleftrightarrow> r < n \<and> isValidResourceRequest (w_ros w) (w_curr w p) (int r) = Some True \<and>
     requestResource (w_ros w) (int p) (w_curr w p) (int r) = Some (w_ros w, 0) \<and> w_holder w r = Some q"

definition ro_waits :: "nat \<Rightarrow> ro_world \<Rightarrow> (nat \<times> nat) set" where
  "ro_waits n w = {(p, q). \<exists>r. ro_waits_on n w p r q}"

definition priority_of :: "ro_world \<Rightarrow> nat \<Rightarrow> int" where
  "priority_of w r = ro_priority (ro_resources (w_ros w) ! r)"

definition ro_inv :: "nat \<Rightarrow> ro_world \<Rightarrow> bool" where
  "ro_inv n w \<longleftrightarrow> n \<le> MAX_RESOURCES \<and> length (ro_resources (w_ros w)) = MAX_RESOURCES \<and>
     (\<forall>r < n. ro_priority (ro_resources (w_ros w) ! r) = int r) \<and>
     (\<forall>p. w_curr w p = - 1 \<or> (\<exists>r < n. w_curr w p = int r)) \<and>
     (\<forall>r q. w_holder w r = Some q \<longrightarrow> int r \<le> w_curr w q)"

lemma initializeResourceOrdering_eq:
  assumes len: "length (ro_resources ros) = MAX_RESOURCES" and n: "n \<le> MAX_RESOURCES"
  shows "initializeResourceOrdering ros n = Some (ros\<lparr>ro_num_resources := n,
     ro_resources := map (\<lambda>i. \<lparr>ro_resource_id = int i, ro_priority = int i, ro_available = 1\<rparr>) [0..<n]
        @ drop n (ro_resources ros)\<rparr>)"
proof -
  let ?g = "\<lambda>i. \<lparr>ro_resource_id = int i, ro_priority = int i, ro_available = 1\<rparr>"
  have "for_loop 0 n (\<lambda>i ros. do { rs \<leftarrow> wr (ro_resources ros) i (?g i); Some (ros\<lparr>ro_resources := rs\<rparr>) }) r =
      map_option (\<lambda>rs. r\<lparr>ro_resources := rs\<rparr>) (for_loop 0 n (\<lambda>i rs. wr rs i (?g i)) (ro_resources r))"
    for r :: resource_ordering
  proof (induction n)
    case (Suc n)
    then show ?case
      by (cases "for_loop 0 n (\<lambda>i rs. wr rs i (?g i)) (ro_resources r)")
        (simp_all add: for_loop_Suc wr_def)
  qed simp
  then show ?thesis using assms by (simp add: initializeResourceOrdering_def for_loop_fill)
qed

lemma initializeResourceOrdering_bound:
  assumes "length (ro_resources ros) = MAX_RESOURCES" and "initializeResourceOrdering ros n = Some ros'"
  shows "n \<le> MAX_RESOURCES"
proof (rule ccontr)
  assume big: "\<not> n \<le> MAX_RESOURCES"
  let ?body = "\<lambda>i ros. do { rs \<leftarrow> wr (ro_resources ros) i
      \<lparr>ro_resource_id = int i, ro_priority = int i, ro_available = 1\<rparr>; Some (ros\<lparr>ro_resources := rs\<rparr>) }"
  have "length (ro_resources ros') = MAX_RESOURCES \<and> n \<le> MAX_RESOURCES"
    by (rule for_loop_partial [OF assms(2) [unfolded initializeResourceOrdering_def],
          where P = "\<lambda>i u. length (ro_resources u) = MAX_RESOURCES \<and> i \<le> MAX_RESOURCES"])
      (auto simp: assms(1) bind_eq_Some_conv c_simps)
  with big show False by simp
qed

lemma ro_reach_inv: "ro_reach n w \<Longrightarrow> ro_inv n w"
proof (induction rule: ro_reach.induct)
  case (start ros0 ros)
  have n: "n \<le> MAX_RESOURCES" by (rule initializeResourceOrdering_bound [OF start])
  with start initializeResourceOrdering_eq [OF start(1) n] show ?case
    by (auto simp: ro_inv_def nth_append)
next
  case (grant w r p ros')
  let ?rs = "ro_resources (w_ros w)"
  have inv: "n \<le> MAX_RESOURCES" "length ?rs = MAX_RESOURCES" "\<forall>r < n. ro_priority (?rs ! r) = int r"
    "\<forall>p. w_curr w p = - 1 \<or> (\<exists>r < n. w_curr w p = int r)" "\<forall>r q. w_holder w r = Some q \<longrightarrow> int r \<le> w_curr w q"
    using grant.IH by (auto simp: ro_inv_def)
  have r: "r < length ?rs" using grant.hyps(2) inv by simp
  from grant.hyps(3) have valid: "isValidResourceRequest (w_ros w) (w_curr w p) (int r) = Some True"
    and ros': "ros' = (w_ros w)\<lparr>ro_resources := ?rs[r := (?rs ! r)\<lparr>ro_available := 0\<rparr>]\<rparr>"
    using r by (auto simp: requestResource_def bind_eq_Some_conv split: if_splits)
  have less: "w_curr w p < int r"
  proof (cases "w_curr w p = - 1")
    case False
    with inv(4) obtain c where c: "c < n" "w_curr w p = int c" by blast
    with valid inv r grant.hyps(2) show ?thesis by (simp add: isValidResourceRequest_def)
  qed simp
  have "ro_priority (?rs[r := (?rs ! r)\<lparr>ro_available := 0\<rparr>] ! k) = int k" if "k < n" for k
    using inv(1-3) that r by (simp add: nth_list_update)
  moreover have "int k \<le> ((w_curr w)(p := int r)) q" if "((w_holder w)(r := Some p)) k = Some q" for k q
  proof (cases "k = r")
    case True
    with that show ?thesis by simp
  next
    case False
    with that have "w_holder w k = Some q" by simp
    with inv(5) have "int k \<le> w_curr w q" by blast
    with less show ?thesis by (cases "q = p") auto
  qed
  ultimately show ?case using inv grant.hyps(2) by (auto simp: ro_inv_def ros')
qed

lemma ro_waits_on_curr:
  assumes inv: "ro_inv n w" and wait: "ro_waits_on n w p r q"
  shows "w_curr w p < int r" and "int r \<le> w_curr w q"
proof -
  have r: "r < n" "isValidResourceRequest (w_ros w) (w_curr w p) (int r) = Some True" "w_holder w r = Some q"
    using wait by (auto simp: ro_waits_on_def)
  show "w_curr w p < int r"
  proof (cases "w_curr w p = - 1")
    case False
    with inv obtain c where c: "c < n" "w_curr w p = int c" unfolding ro_inv_def by blast
    with r inv show ?thesis by (simp add: isValidResourceRequest_def ro_inv_def)
  qed simp
  show "int r \<le> w_curr w q" using inv r(3) by (auto simp: ro_inv_def)
qed

lemma ro_waits_curr: "\<lbrakk>ro_inv n w; (p, q) \<in> ro_waits n w\<rbrakk> \<Longrightarrow> w_curr w p < w_curr w q"
  using ro_waits_on_curr by (fastforce simp: ro_waits_def)

lemma held_below:
  assumes inv: "ro_inv n w" and wait: "ro_waits_on n w p r q" and held: "w_holder w k = Some p"
  shows "priority_of w k < priority_of w r"
proof -
  have "int k \<le> w_curr w p" using inv held by (auto simp: ro_inv_def)
  then have "k < r" using ro_waits_on_curr(1) [OF inv wait] by linarith
  moreover have "r < n" using wait by (simp add: ro_waits_on_def)
  ultimately show ?thesis using inv by (simp add: priority_of_def ro_inv_def)
qed

subsection \<open>Recovery: state and operations\<close>

record dr_process =
  dr_pid :: int
  dr_priority :: int
  dr_age :: int
  dr_resources_held :: "int list"

record deadlock_recovery =
  dr_processes :: "dr_process list"
  dr_num_processes :: nat
  dr_num_resources :: nat

text \<open>\<open>rand i\<close> is the value of the \<open>i\<close>-th call of the library's \<open>rand\<close>.\<close>

definition initializeRecovery ::
  "(nat \<Rightarrow> int) \<Rightarrow> deadlock_recovery \<Rightarrow> nat \<Rightarrow> nat \<Rightarrow> deadlock_recovery option" where
  "initializeRecovery rand dr num_proc num_res =
     for_loop 0 num_proc (\<lambda>i dr. do {
       p \<leftarrow> rd (dr_processes dr) i;
       held \<leftarrow> for_loop 0 num_res (\<lambda>j h. wr h j 0) (dr_resources_held p);
       ps \<leftarrow> wr (dr_processes dr) i \<lparr>dr_pid = int i, dr_priority = c_mod (rand i) 10, dr_age = 0,
          dr_resources_held = held\<rparr>;
       Some (dr\<lparr>dr_processes := ps\<rparr>) })
     (dr\<lparr>dr_num_processes := num_proc, dr_num_resources := num_res\<rparr>)"

definition selectVictimProcess :: "deadlock_recovery \<Rightarrow> int option" where
  "selectVictimProcess dr = do {
     (victim, lowest) \<leftarrow> for_loop 0 (dr_num_processes dr) (\<lambda>i (victim, lowest). do {
        p \<leftarrow> rd (dr_processes dr) i;
        curr_priority \<leftarrow> chk (dr_priority p - c_div (dr_age p) 10);
        Some (if curr_priority < lowest then (int i, curr_priority) else (victim, lowest)) }) (- 1, 999);
     Some victim }"

definition releaseResources :: "deadlock_recovery \<Rightarrow> int \<Rightarrow> deadlock_recovery option" where
  "releaseResources dr victim =
     for_loop 0 (dr_num_resources dr) (\<lambda>i dr. do {
        p \<leftarrow> rdi (dr_processes dr) victim;
        h \<leftarrow> rd (dr_resources_held p) i;
        if h > 0 then do {
          hs \<leftarrow> wr (dr_resources_held p) i 0;
          ps \<leftarrow> wri (dr_processes dr) victim (p\<lparr>dr_resources_held := hs\<rparr>);
          Some (dr\<lparr>dr_processes := ps\<rparr>) }
        else Some dr }) dr"

definition recoverFromDeadlock :: "deadlock_recovery \<Rightarrow> deadlock_recovery option" where
  "recoverFromDeadlock dr = do {
     victim \<leftarrow> selectVictimProcess dr;
     if victim \<noteq> - 1 then do {
       dr \<leftarrow> releaseResources dr victim;
       for_loop 0 (dr_num_processes dr) (\<lambda>i dr.
         if int i \<noteq> victim then do {
           p \<leftarrow> rd (dr_processes dr) i;
           a \<leftarrow> chk (dr_age p + 1);
           ps \<leftarrow> wr (dr_processes dr) i (p\<lparr>dr_age := a\<rparr>);
           Some (dr\<lparr>dr_processes := ps\<rparr>) }
         else Some dr) dr }
     else Some dr }"

subsection \<open>The victim\<close>

definition dr_effective :: "deadlock_recovery \<Rightarrow> nat \<Rightarrow> int" where
  "dr_effective dr i = dr_priority (dr_processes dr ! i) - c_div (dr_age (dr_processes dr ! i)) 10"

definition dr_ok :: "deadlock_recovery \<Rightarrow> bool" where
  "dr_ok dr \<longleftrightarrow> length (dr_processes dr) = MAX_PROCESSES \<and> dr_num_processes dr \<le> MAX_PROCESSES \<and>
     dr_num_resources dr \<le> MAX_RESOURCES \<and>
     (\<forall>i < dr_num_processes dr. length (dr_resources_held (dr_processes dr ! i)) = MAX_RESOURCES \<and>
        0 \<le> dr_priority (dr_processes dr ! i) \<and> dr_priority (dr_processes dr ! i) \<le> 9 \<and>
        0 \<le> dr_age (dr_processes dr ! i) \<and> dr_age (dr_processes dr ! i) < INT_MAX)"

text \<open>Lowest effective priority, the first of several.\<close>

definition is_victim :: "deadlock_recovery \<Rightarrow> nat \<Rightarrow> bool" where
  "is_victim dr v \<longleftrightarrow> v < dr_num_processes dr \<and>
     (\<forall>i < dr_num_processes dr. dr_effective dr v \<le> dr_effective dr i) \<and>
     (\<forall>i < v. dr_effective dr v < dr_effective dr i)"

lemma is_victim_unique: "\<lbrakk>is_victim dr v; is_victim dr u\<rbrakk> \<Longrightarrow> u = v"
  by (meson is_victim_def linorder_neqE_nat not_le)

lemma dr_effective_bounds:
  assumes "dr_ok dr" and "i < dr_num_processes dr"
  shows "int_ok (dr_effective dr i)" and "dr_effective dr i < 999"
proof -
  let ?p = "dr_processes dr ! i"
  have "0 \<le> dr_priority ?p" "dr_priority ?p \<le> 9" "0 \<le> dr_age ?p" "dr_age ?p < INT_MAX"
    using assms by (auto simp: dr_ok_def)
  moreover from this have "c_div (dr_age ?p) 10 = dr_age ?p div 10" by (simp add: c_div_nonneg)
  ultimately show "int_ok (dr_effective dr i)" "dr_effective dr i < 999"
    by (auto simp: dr_effective_def int_ok_def INT_MIN_def INT_MAX_def)
qed

lemma selectVictim_spec:
  assumes ok: "dr_ok dr"
  shows "\<exists>v. selectVictimProcess dr = Some v \<and>
     (if dr_num_processes dr = 0 then v = - 1 else \<exists>k. v = int k \<and> is_victim dr k)"
proof -
  let ?n = "dr_num_processes dr"
  let ?body = "\<lambda>i (victim, lowest). do {
        p \<leftarrow> rd (dr_processes dr) i;
        curr_priority \<leftarrow> chk (dr_priority p - c_div (dr_age p) 10);
        Some (if curr_priority < lowest then (int i, curr_priority) else (victim, lowest)) }"
  have "?body i (b, m) = Some (if dr_effective dr i < m then (int i, dr_effective dr i) else (b, m))"
    if "i < ?n" for i b m
    using that ok dr_effective_bounds [OF ok that] by (simp add: dr_ok_def dr_effective_def)
  then obtain b m where res: "for_loop 0 ?n ?body (- 1, 999) = Some (b, m)" "\<forall>j < ?n. m \<le> dr_effective dr j"
    "m = 999 \<and> b = - 1 \<or> (\<exists>v < ?n. b = int v \<and> m = dr_effective dr v \<and> (\<forall>j < v. dr_effective dr v < dr_effective dr j))"
    using for_loop_argmin [of 0 ?n ?body "dr_effective dr" int "- 1" 999] by force
  have sel: "selectVictimProcess dr = Some b" using res(1) by (simp add: selectVictimProcess_def)
  show ?thesis
  proof (cases "?n = 0")
    case True
    with res(3) sel show ?thesis by auto
  next
    case False
    with res(2) dr_effective_bounds(2) [OF ok, of 0] have "m \<noteq> 999" by force
    with res(2,3) sel False show ?thesis by (auto simp: is_victim_def)
  qed
qed

subsection \<open>Recovery\<close>

definition released :: "nat \<Rightarrow> int list \<Rightarrow> int list" where
  "released r h = map (\<lambda>j. if j < r \<and> h ! j > 0 then 0 else h ! j) [0..<length h]"

lemma releaseResources_eq:
  assumes ok: "dr_ok dr" and v: "v < dr_num_processes dr"
  shows "releaseResources dr (int v) = Some (dr\<lparr>dr_processes := (dr_processes dr)[v :=
     (dr_processes dr ! v)\<lparr>dr_resources_held :=
        released (dr_num_resources dr) (dr_resources_held (dr_processes dr ! v))\<rparr>]\<rparr>)"
proof -
  let ?p = "dr_processes dr ! v"
  let ?h = "dr_resources_held ?p"
  let ?at = "\<lambda>k. dr\<lparr>dr_processes := (dr_processes dr)[v := ?p\<lparr>dr_resources_held := released k ?h\<rparr>]\<rparr>"
  have len: "v < length (dr_processes dr)" "length ?h = MAX_RESOURCES" "dr_num_resources dr \<le> MAX_RESOURCES"
    using ok v by (auto simp: dr_ok_def)
  have rel: "(if ?h ! i > 0 then (released i ?h)[i := 0] else released i ?h) = released (Suc i) ?h"
    if "i < dr_num_resources dr" for i
    using that len by (intro nth_equalityI) (auto simp: released_def nth_list_update less_Suc_eq split: if_splits)
  have rel_i: "released i ?h ! i = ?h ! i" if "i < dr_num_resources dr" for i
    using that len by (simp add: released_def)
  have "\<exists>s. releaseResources dr (int v) = Some s \<and> s = ?at (dr_num_resources dr)"
    unfolding releaseResources_def
  proof (rule for_loop_invar [where P = "\<lambda>k s. s = ?at k"])
    show "dr = ?at 0" by (simp add: released_def map_nth)
  next
    fix i s assume i: "i < dr_num_resources dr" and s: "s = ?at i"
    have "length (released i ?h) = MAX_RESOURCES" using len by (simp add: released_def)
    then show "\<exists>s'. do {
        p \<leftarrow> rdi (dr_processes s) (int v);
        h \<leftarrow> rd (dr_resources_held p) i;
        if h > 0 then do {
          hs \<leftarrow> wr (dr_resources_held p) i 0;
          ps \<leftarrow> wri (dr_processes s) (int v) (p\<lparr>dr_resources_held := hs\<rparr>);
          Some (s\<lparr>dr_processes := ps\<rparr>) }
        else Some s } = Some s' \<and> s' = ?at (Suc i)"
      using i s len rel [OF i] rel_i [OF i] by (auto split: if_splits)
  qed simp
  then show ?thesis by simp
qed

text \<open>What recovery does to process \<open>i\<close> when \<open>v\<close> is the victim.\<close>

definition recovered :: "deadlock_recovery \<Rightarrow> nat \<Rightarrow> nat \<Rightarrow> dr_process" where
  "recovered dr v i = (let p = dr_processes dr ! i in
     if i = v then p\<lparr>dr_resources_held := released (dr_num_resources dr) (dr_resources_held p)\<rparr>
     else p\<lparr>dr_age := dr_age p + 1\<rparr>)"

lemma recoverFromDeadlock_spec:
  assumes ok: "dr_ok dr" and v: "is_victim dr v"
  shows "recoverFromDeadlock dr = Some (dr\<lparr>dr_processes :=
     map (recovered dr v) [0..<dr_num_processes dr] @ drop (dr_num_processes dr) (dr_processes dr)\<rparr>)"
proof -
  let ?n = "dr_num_processes dr" and ?ps = "dr_processes dr"
  have vn: "v < ?n" and n: "?n \<le> length ?ps" using ok v by (auto simp: is_victim_def dr_ok_def)
  from selectVictim_spec [OF ok] vn obtain k where "selectVictimProcess dr = Some (int k)" "is_victim dr k"
    by auto
  with is_victim_unique [OF v] have sel: "selectVictimProcess dr = Some (int v)" by auto
  let ?qs = "?ps[v := recovered dr v v]"
  let ?g = "\<lambda>i. if i = v then recovered dr v v else recovered dr v i"
  let ?at = "\<lambda>k. dr\<lparr>dr_processes := map (recovered dr v) [0..<k] @ drop k ?qs\<rparr>"
  have rel: "releaseResources dr (int v) = Some (?at 0)"
    using releaseResources_eq [OF ok vn] by (simp add: recovered_def Let_def)
  have "\<exists>s. for_loop 0 ?n (\<lambda>i dr. if int i \<noteq> int v then do {
           p \<leftarrow> rd (dr_processes dr) i;
           a \<leftarrow> chk (dr_age p + 1);
           ps \<leftarrow> wr (dr_processes dr) i (p\<lparr>dr_age := a\<rparr>);
           Some (dr\<lparr>dr_processes := ps\<rparr>) }
         else Some dr) (?at 0) = Some s \<and> s = ?at ?n"
  proof (rule for_loop_invar [where P = "\<lambda>k s. s = ?at k"])
    fix i s assume i: "i < ?n" and s: "s = ?at i"
    have split: "drop i ?qs = ?qs ! i # drop (Suc i) ?qs" using i n by (simp add: Cons_nth_drop_Suc)
    have nth: "dr_processes s ! i = ?qs ! i" using i n s by (simp add: nth_append)
    have upd: "(dr_processes s)[i := x] = map (recovered dr v) [0..<i] @ x # drop (Suc i) ?qs" for x
      using s split by (simp add: list_update_append)
    have age: "int_ok (dr_age (?ps ! i) + 1)" using ok i by (auto simp: dr_ok_def int_ok_def INT_MIN_def)
    show "\<exists>s'. (if int i \<noteq> int v then do {
           p \<leftarrow> rd (dr_processes s) i;
           a \<leftarrow> chk (dr_age p + 1);
           ps \<leftarrow> wr (dr_processes s) i (p\<lparr>dr_age := a\<rparr>);
           Some (s\<lparr>dr_processes := ps\<rparr>) }
         else Some s) = Some s' \<and> s' = ?at (Suc i)"
    proof (cases "i = v")
      case True
      with s split i n show ?thesis by simp
    next
      case False
      have "i < length (dr_processes s)" using s i n by simp
      with False nth upd age s show ?thesis by (simp add: recovered_def Let_def)
    qed
  qed simp_all
  moreover have "drop ?n ?qs = drop ?n ?ps" using vn by simp
  ultimately show ?thesis using sel rel by (simp add: recoverFromDeadlock_def)
qed

subsection \<open>Properties\<close>

text \<open>C7: resource ordering prevents deadlock. However grants interleave between any number of
  processes, each naming the resource it got last as its current one, the waits-for relation has no cycle; and a process that waits
  for a resource holds only resources of lower priority than that resource.\<close>

theorem resource_ordering_no_circular_wait:
  assumes "ro_reach n w"
  shows "acyclic (ro_waits n w) \<and>
    (\<forall>p r q k. ro_waits_on n w p r q \<and> w_holder w k = Some p \<longrightarrow> priority_of w k < priority_of w r)"
proof (rule conjI)
  have inv: "ro_inv n w" using assms by (rule ro_reach_inv)
  show "\<forall>p r q k. ro_waits_on n w p r q \<and> w_holder w k = Some p \<longrightarrow> priority_of w k < priority_of w r"
    using held_below [OF inv] by blast
  show "acyclic (ro_waits n w)"
  proof (rule acyclicI, rule allI, rule notI)
    fix p assume "(p, p) \<in> (ro_waits n w)\<^sup>+"
    moreover have "w_curr w p < w_curr w q" if "(p, q) \<in> (ro_waits n w)\<^sup>+" for q
      using that by (induction rule: trancl_induct) (use ro_waits_curr [OF inv] order_less_trans in blast)+
    ultimately show False by blast
  qed
qed

definition ro_blank :: resource_ordering where
  "ro_blank = \<lparr>ro_resources = replicate 10 \<lparr>ro_resource_id = 0, ro_priority = 0, ro_available = 0\<rparr>,
     ro_num_resources = 0\<rparr>"

definition ro_demo0 :: ro_world where
  "ro_demo0 = \<lparr>w_ros = the (initializeResourceOrdering ro_blank 2), w_curr = (\<lambda>_. - 1), w_holder = (\<lambda>_. None)\<rparr>"

definition ro_demo1 :: ro_world where
  "ro_demo1 = \<lparr>w_ros = fst (the (requestResource (w_ros ro_demo0) 0 (- 1) 0)),
     w_curr = (w_curr ro_demo0)(0 := 0), w_holder = (w_holder ro_demo0)(0 := Some 0)\<rparr>"

definition ro_demo2 :: ro_world where
  "ro_demo2 = \<lparr>w_ros = fst (the (requestResource (w_ros ro_demo1) 1 (- 1) 1)),
     w_curr = (w_curr ro_demo1)(1 := 1), w_holder = (w_holder ro_demo1)(1 := Some 1)\<rparr>"

lemma ro_demo_reach: "ro_reach 2 ro_demo2"
proof -
  have "initializeResourceOrdering ro_blank 2 = Some (w_ros ro_demo0)" by code_simp
  moreover have "length (ro_resources ro_blank) = MAX_RESOURCES" by code_simp
  ultimately have r0: "ro_reach 2 ro_demo0"
    using ro_reach.start [of ro_blank 2 "w_ros ro_demo0"] by (simp add: ro_demo0_def)
  have g0: "requestResource (w_ros ro_demo0) (int 0) (w_curr ro_demo0 0) (int 0) = Some (w_ros ro_demo1, 1)"
    by code_simp
  have r1: "ro_reach 2 ro_demo1"
    using ro_reach.grant [OF r0 _ g0] by (simp add: ro_demo1_def)
  have g1: "requestResource (w_ros ro_demo1) (int 1) (w_curr ro_demo1 1) (int 1) = Some (w_ros ro_demo2, 1)"
    by code_simp
  show ?thesis using ro_reach.grant [OF r1 _ g1] by (simp add: ro_demo2_def)
qed

text \<open>In the example process 0 has resource 0 and waits for process 1, which has resource 1.\<close>

theorem resource_ordering_no_circular_wait_witness:
  "acyclic (ro_waits 2 ro_demo2) \<and> ro_waits_on 2 ro_demo2 0 1 1 \<and> w_holder ro_demo2 0 = Some 0 \<and>
   priority_of ro_demo2 0 < priority_of ro_demo2 1"
proof -
  have "isValidResourceRequest (w_ros ro_demo2) (w_curr ro_demo2 0) (int 1) = Some True" by code_simp
  moreover have "requestResource (w_ros ro_demo2) (int 0) (w_curr ro_demo2 0) (int 1) = Some (w_ros ro_demo2, 0)"
    by code_simp
  moreover have "w_holder ro_demo2 1 = Some 1" by code_simp
  ultimately have "ro_waits_on 2 ro_demo2 0 1 1" unfolding ro_waits_on_def by auto
  moreover have "w_holder ro_demo2 0 = Some 0" by code_simp
  ultimately show ?thesis using resource_ordering_no_circular_wait [OF ro_demo_reach] by blast
qed

text \<open>Recovery picks the process with the lowest effective priority (priority minus a tenth of the
  age), the first of several, clears what it holds, ages every other process by one, and changes
  nothing else.\<close>

lemma recovery_takes_from_lowest:
  assumes "dr_ok dr" and "0 < dr_num_processes dr"
  shows "\<exists>v. is_victim dr v \<and> recoverFromDeadlock dr = Some (dr\<lparr>dr_processes :=
     map (recovered dr v) [0..<dr_num_processes dr] @ drop (dr_num_processes dr) (dr_processes dr)\<rparr>)"
  using selectVictim_spec [OF assms(1)] assms recoverFromDeadlock_spec [OF assms(1)] by auto

definition dr_demo :: deadlock_recovery where
  "dr_demo = \<lparr>dr_processes = map (\<lambda>(a, b, c). \<lparr>dr_pid = a, dr_priority = b, dr_age = c,
        dr_resources_held = [1,1,0,0,0,0,0,0,0,0]\<rparr>) [(0,3,0), (1,6,40), (2,2,0)] @
      replicate 7 \<lparr>dr_pid = 0, dr_priority = 0, dr_age = 0, dr_resources_held = replicate 10 0\<rparr>,
    dr_num_processes = 3, dr_num_resources = 3\<rparr>"

lemma recovery_takes_from_lowest_witness:
  "\<exists>v. is_victim dr_demo v \<and> recoverFromDeadlock dr_demo = Some (dr_demo\<lparr>dr_processes :=
     map (recovered dr_demo v) [0..<dr_num_processes dr_demo] @
     drop (dr_num_processes dr_demo) (dr_processes dr_demo)\<rparr>)"
proof (rule recovery_takes_from_lowest)
  show "dr_ok dr_demo" by code_simp
  show "0 < dr_num_processes dr_demo" by (simp add: dr_demo_def)
qed

end
