(* ===== verification/Page_Replacement.thy ===== *)
theory Page_Replacement
  imports OS_Prelude "HOL-Library.Multiset"
begin

section \<open>Page replacement: d19, Paging_Mechanism.c\<close>

text \<open>
  FIFO, LRU and optimal replacement, each as one step per page reference (\<open>fifo_access\<close>,
  \<open>lru_access\<close>, \<open>opt_access\<close>: new state and whether a fault occurred) replayed over the
  reference string. The interface \<open>replacement\<close> states what any of them must do with the set of
  resident pages; the bounds on the number of faults are proved once from it. FIFO and LRU are
  also shown to refine the textbook list descriptions of their policies.
  The results of \<open>malloc\<close> are not checked in the source; here it succeeds (with a null pointer every run that touches a frame would be
  undefined). d20 (page_replacement_algo.c) repeats these functions; its \<open>main\<close> is modelled in Replacement_Optimality.
\<close>

subsection \<open>The loop over the reference string\<close>

text \<open>\<open>for (i = 0; i < n; ++i)\<close> with the counter \<open>page_faults\<close>.\<close>

definition replay :: "(nat \<Rightarrow> 's \<Rightarrow> ('s \<times> bool) option) \<Rightarrow> nat \<Rightarrow> 's \<Rightarrow> ('s \<times> nat) option" where
  "replay access n s = for_loop 0 n (\<lambda>i (s, page_faults). do {
     (s', fault) \<leftarrow> access i s;
     Some (s', if fault then page_faults + 1 else page_faults) }) (s, 0)"

lemma replay_0 [simp]: "replay access 0 s = Some (s, 0)"
  by (simp add: replay_def)

lemma replay_Suc:
  "replay access (Suc n) s = do {
     (s1, k) \<leftarrow> replay access n s;
     (s2, fault) \<leftarrow> access n s1;
     Some (s2, if fault then k + 1 else k) }"
  unfolding replay_def by (simp add: for_loop_Suc case_prod_unfold)

subsection \<open>FIFO\<close>

record fifo_queue =
  fq_frames :: "int list"
  fq_capacity :: nat
  fq_size :: nat
  fq_head :: nat

definition initFIFOQueue :: "nat \<Rightarrow> fifo_queue" where
  "initFIFOQueue capacity =
     \<lparr>fq_frames = replicate capacity 0, fq_capacity = capacity, fq_size = 0, fq_head = 0\<rparr>"

definition isPagePresent :: "fifo_queue \<Rightarrow> int \<Rightarrow> bool option" where
  "isPagePresent queue page = do {
     h \<leftarrow> search_first 0 (fq_size queue) (\<lambda>i. do { f \<leftarrow> rd (fq_frames queue) i; Some (f = page) });
     Some (h \<noteq> None) }"

definition fifo_access :: "int list \<Rightarrow> nat \<Rightarrow> fifo_queue \<Rightarrow> (fifo_queue \<times> bool) option" where
  "fifo_access pages i queue = do {
     page \<leftarrow> rd pages i;
     present \<leftarrow> isPagePresent queue page;
     if \<not> present then
       (if fq_size queue < fq_capacity queue then do {
          fr \<leftarrow> wr (fq_frames queue) (fq_size queue) page;
          Some (queue\<lparr>fq_frames := fr, fq_size := fq_size queue + 1\<rparr>, True) }
        else do {
          fr \<leftarrow> wr (fq_frames queue) (fq_head queue) page;
          Some (queue\<lparr>fq_frames := fr, fq_head := (fq_head queue + 1) mod fq_capacity queue\<rparr>, True) })
     else Some (queue, False) }"

definition FIFOPageReplacement :: "int list \<Rightarrow> nat \<Rightarrow> nat \<Rightarrow> nat option" where
  "FIFOPageReplacement pages n capacity =
     map_option snd (replay (fifo_access pages) n (initFIFOQueue capacity))"

subsection \<open>LRU\<close>

record page_frame =
  pf_page :: int
  pf_last_used :: int

text \<open>The locals \<open>frames\<close> and \<open>curr_size\<close>.\<close>

type_synonym lru_state = "page_frame list \<times> nat"

definition lru_access :: "int list \<Rightarrow> nat \<Rightarrow> nat \<Rightarrow> lru_state \<Rightarrow> (lru_state \<times> bool) option" where
  "lru_access pages capacity i = (\<lambda>(frames, curr_size). do {
     page \<leftarrow> rd pages i;
     hit \<leftarrow> search_first 0 curr_size (\<lambda>j. do { f \<leftarrow> rd frames j; Some (pf_page f = page) });
     (case hit of
        Some j \<Rightarrow> do {
          f \<leftarrow> rd frames j;
          fr \<leftarrow> wr frames j (f\<lparr>pf_last_used := int i\<rparr>);
          Some ((fr, curr_size), False) }
      | None \<Rightarrow>
          (if curr_size < capacity then do {
             fr \<leftarrow> wr frames curr_size \<lparr>pf_page = page, pf_last_used = int i\<rparr>;
             Some ((fr, curr_size + 1), True) }
           else do {
             (lru_idx, min_last_used) \<leftarrow> for_loop 0 capacity (\<lambda>j (lru_idx, min_last_used). do {
                f \<leftarrow> rd frames j;
                Some (if pf_last_used f < min_last_used then (j, pf_last_used f)
                      else (lru_idx, min_last_used)) }) (0, INT_MAX);
             fr \<leftarrow> wr frames lru_idx \<lparr>pf_page = page, pf_last_used = int i\<rparr>;
             Some ((fr, curr_size), True) })) })"

definition LRUPageReplacement :: "int list \<Rightarrow> nat \<Rightarrow> nat \<Rightarrow> nat option" where
  "LRUPageReplacement pages n capacity =
     map_option snd (replay (lru_access pages capacity) n
       (replicate capacity \<lparr>pf_page = - 1, pf_last_used = - 1\<rparr>, 0))"

subsection \<open>Optimal replacement\<close>

text \<open>
  The loop of \<open>findFarthest\<close>: the inner loop looks for the next use of frame \<open>i\<close>; a frame whose
  page is never used again ends the search.
\<close>

primrec farthest_from :: "int list \<Rightarrow> nat \<Rightarrow> nat \<Rightarrow> int list \<Rightarrow> nat list \<Rightarrow> int \<Rightarrow> int \<Rightarrow> int option" where
  "farthest_from pages n curr_idx frames [] farthest farthest_idx =
     Some (if farthest_idx = - 1 then 0 else farthest_idx)"
| "farthest_from pages n curr_idx frames (i # is) farthest farthest_idx = do {
     page \<leftarrow> rd frames i;
     next_use \<leftarrow> search_first curr_idx n (\<lambda>j. do { q \<leftarrow> rd pages j; Some (page = q) });
     (case next_use of
        None \<Rightarrow> if curr_idx \<le> n then Some (int i)
          else farthest_from pages n curr_idx frames is farthest farthest_idx
      | Some j \<Rightarrow>
          if int j > farthest then farthest_from pages n curr_idx frames is (int j) (int i)
          else farthest_from pages n curr_idx frames is farthest farthest_idx) }"

definition findFarthest :: "int list \<Rightarrow> nat \<Rightarrow> nat \<Rightarrow> int list \<Rightarrow> nat \<Rightarrow> int option" where
  "findFarthest pages n curr_idx frames capacity =
     farthest_from pages n curr_idx frames [0..<capacity] (- 1) (- 1)"

type_synonym opt_state = "int list \<times> nat"

definition opt_access :: "int list \<Rightarrow> nat \<Rightarrow> nat \<Rightarrow> nat \<Rightarrow> opt_state \<Rightarrow> (opt_state \<times> bool) option" where
  "opt_access pages n capacity i = (\<lambda>(frames, curr_size). do {
     page \<leftarrow> rd pages i;
     hit \<leftarrow> search_first 0 curr_size (\<lambda>j. do { f \<leftarrow> rd frames j; Some (f = page) });
     if hit \<noteq> None then Some ((frames, curr_size), False)
     else if curr_size < capacity then do {
       fr \<leftarrow> wr frames curr_size page;
       Some ((fr, curr_size + 1), True) }
     else do {
       replace_idx \<leftarrow> findFarthest pages n (i + 1) frames capacity;
       fr \<leftarrow> wri frames replace_idx page;
       Some ((fr, curr_size), True) } })"

definition optimalPageReplacement :: "int list \<Rightarrow> nat \<Rightarrow> nat \<Rightarrow> nat option" where
  "optimalPageReplacement pages n capacity =
     map_option snd (replay (opt_access pages n capacity) n (replicate capacity (- 1), 0))"

subsection \<open>The interface of a replacement policy\<close>

text \<open>
  A workload \<open>c\<close> is a reference string with a number of frames; \<open>res\<close> is the set of resident
  pages. On a hit the set stays, on a fault the page comes in and at most one page goes, none
  while frames are free.
\<close>

record workload =
  wl_pages :: "int list"
  wl_frames :: nat

definition wl_ok :: "workload \<Rightarrow> bool" where
  "wl_ok c \<longleftrightarrow> 0 < wl_frames c \<and> int (length (wl_pages c)) \<le> INT_MAX"

locale replacement =
  fixes access :: "workload \<Rightarrow> nat \<Rightarrow> 's \<Rightarrow> ('s \<times> bool) option"
    and init :: "workload \<Rightarrow> 's"
    and res :: "'s \<Rightarrow> int set"
    and inv :: "workload \<Rightarrow> nat \<Rightarrow> 's \<Rightarrow> bool"
  assumes inv_init: "wl_ok c \<Longrightarrow> inv c 0 (init c)"
    and res_init: "res (init c) = {}"
    and res_bound: "inv c i s \<Longrightarrow> finite (res s) \<and> card (res s) \<le> wl_frames c"
    and access_hit: "\<lbrakk>wl_ok c; inv c i s; i < length (wl_pages c); wl_pages c ! i \<in> res s\<rbrakk> \<Longrightarrow>
       \<exists>s'. access c i s = Some (s', False) \<and> inv c (Suc i) s' \<and> res s' = res s"
    and access_fault: "\<lbrakk>wl_ok c; inv c i s; i < length (wl_pages c); wl_pages c ! i \<notin> res s\<rbrakk> \<Longrightarrow>
       \<exists>s'. access c i s = Some (s', True) \<and> inv c (Suc i) s' \<and>
         (if card (res s) < wl_frames c then res s' = insert (wl_pages c ! i) (res s)
          else \<exists>v \<in> res s. res s' = insert (wl_pages c ! i) (res s - {v}))"
begin

lemma access_step:
  assumes "wl_ok c" and "inv c i s" and "i < length (wl_pages c)"
  shows "\<exists>s'. access c i s = Some (s', wl_pages c ! i \<notin> res s) \<and> inv c (Suc i) s' \<and>
     res s' \<subseteq> insert (wl_pages c ! i) (res s) \<and>
     (wl_pages c ! i \<in> res s \<or> card (res s) < wl_frames c \<longrightarrow> res s' = insert (wl_pages c ! i) (res s))"
proof (cases "wl_pages c ! i \<in> res s")
  case True
  with access_hit [OF assms] obtain s' where "access c i s = Some (s', False)" "inv c (Suc i) s'" "res s' = res s"
    by blast
  with True show ?thesis by (intro exI [of _ s']) auto
next
  case False
  with access_fault [OF assms] obtain s' where s': "access c i s = Some (s', True)" "inv c (Suc i) s'"
    "if card (res s) < wl_frames c then res s' = insert (wl_pages c ! i) (res s)
     else \<exists>v \<in> res s. res s' = insert (wl_pages c ! i) (res s - {v})" by blast
  then have "res s' \<subseteq> insert (wl_pages c ! i) (res s)" by (auto split: if_splits)
  with s' False show ?thesis by (intro exI [of _ s']) simp
qed

text \<open>
  Every run returns. It faults at least once for each distinct page and at most once per
  reference; and only once per distinct page when all of them fit.
\<close>

lemma replay_bounds:
  assumes ok: "wl_ok c" and "n \<le> length (wl_pages c)"
  defines "D \<equiv> \<lambda>i. card (set (take i (wl_pages c)))"
  shows "\<exists>s k. replay (access c) n (init c) = Some (s, k) \<and> inv c n s \<and>
     res s \<subseteq> set (take n (wl_pages c)) \<and> D n \<le> k \<and> k \<le> n \<and>
     (D n \<le> wl_frames c \<longrightarrow> k = D n \<and> res s = set (take n (wl_pages c)))"
  using assms(2)
proof (induction n)
  case 0
  then show ?case using inv_init [OF ok] by (simp add: res_init D_def)
next
  case (Suc n)
  let ?p = "wl_pages c ! n" and ?T = "set (take n (wl_pages c))"
  from Suc obtain s k where IH: "replay (access c) n (init c) = Some (s, k)" "inv c n s" "res s \<subseteq> ?T"
    "D n \<le> k" "k \<le> n" "D n \<le> wl_frames c \<longrightarrow> k = D n \<and> res s = ?T" by auto
  from access_step [OF ok IH(2)] Suc.prems obtain s' where
    step: "access c n s = Some (s', ?p \<notin> res s)" "inv c (Suc n) s'" "res s' \<subseteq> insert ?p (res s)"
    "?p \<in> res s \<or> card (res s) < wl_frames c \<longrightarrow> res s' = insert ?p (res s)" by auto
  have T: "set (take (Suc n) (wl_pages c)) = insert ?p ?T"
    using Suc.prems by (simp add: take_Suc_conv_app_nth)
  have D: "D (Suc n) = (if ?p \<in> ?T then D n else Suc (D n))"
    by (simp add: D_def T card_insert_if)
  let ?k = "if ?p \<notin> res s then k + 1 else k"
  have "?p \<in> ?T" if "?p \<in> res s" using that IH(3) by blast
  then have low: "D (Suc n) \<le> ?k" using IH(4) D by auto
  have exact: "?k = D (Suc n) \<and> res s' = insert ?p ?T" if fits: "D (Suc n) \<le> wl_frames c"
  proof -
    have eq: "k = D n" "res s = ?T" using IH(6) fits D by (auto split: if_splits)
    have "?p \<in> res s \<or> card (res s) < wl_frames c"
    proof (cases "?p \<in> ?T")
      case False
      with fits D have "Suc (D n) \<le> wl_frames c" by simp
      then show ?thesis by (simp add: eq D_def)
    qed (simp add: eq)
    then have "res s' = insert ?p ?T" using step(4) eq(2) by metis
    moreover have "?k = D (Suc n)" by (simp add: D eq)
    ultimately show ?thesis by blast
  qed
  have "replay (access c) (Suc n) (init c) = Some (s', ?k)"
    by (simp add: replay_Suc IH(1) step(1))
  moreover have "res s' \<subseteq> set (take (Suc n) (wl_pages c))"
    using step(3) IH(3) T by blast
  moreover have "?k \<le> Suc n" using IH(5) by simp
  ultimately show ?case using step(2) low exact T by (intro exI [of _ s'] exI [of _ ?k]) simp
qed

end

subsection \<open>The policies as lists\<close>

text \<open>
  A policy seen from outside: the list of resident pages, changed by each reference. FIFO keeps
  the order of arrival, LRU the order of last use.
\<close>

definition fifo_step :: "nat \<Rightarrow> int list \<Rightarrow> int \<Rightarrow> int list" where
  "fifo_step cap xs p =
     (if p \<in> set xs then xs else if length xs < cap then xs @ [p] else tl xs @ [p])"

definition lru_step :: "nat \<Rightarrow> int list \<Rightarrow> int \<Rightarrow> int list" where
  "lru_step cap xs p = take cap (p # removeAll p xs)"

primrec policy_run :: "(int list \<Rightarrow> int \<Rightarrow> int list) \<Rightarrow> int list \<Rightarrow> int list \<Rightarrow> int list" where
  "policy_run step [] xs = xs"
| "policy_run step (p # ps) xs = policy_run step ps (step xs p)"

primrec policy_faults :: "(int list \<Rightarrow> int \<Rightarrow> int list) \<Rightarrow> int list \<Rightarrow> int list \<Rightarrow> nat" where
  "policy_faults step [] xs = 0"
| "policy_faults step (p # ps) xs = (if p \<in> set xs then 0 else 1) + policy_faults step ps (step xs p)"

lemma policy_run_append: "policy_run step (ps @ qs) xs = policy_run step qs (policy_run step ps xs)"
  by (induction ps arbitrary: xs) auto

lemma policy_faults_append:
  "policy_faults step (ps @ qs) xs = policy_faults step ps xs + policy_faults step qs (policy_run step ps xs)"
  by (induction ps arbitrary: xs) auto

text \<open>A code-level policy whose single access simulates a list step computes the list's faults.\<close>

lemma replay_refines:
  assumes "n \<le> length pages" and "R 0 s0 []"
    and step: "\<And>i s xs. \<lbrakk>i < n; R i s xs\<rbrakk> \<Longrightarrow>
       \<exists>s'. access i s = Some (s', pages ! i \<notin> set xs) \<and> R (Suc i) s' (step xs (pages ! i))"
  shows "\<exists>s. replay access n s0 = Some (s, policy_faults step (take n pages) []) \<and>
     R n s (policy_run step (take n pages) [])"
  using assms(1) step
proof (induction n)
  case 0
  then show ?case using assms(2) by simp
next
  case (Suc n)
  let ?xs = "policy_run step (take n pages) []"
  from Suc obtain s where s: "replay access n s0 = Some (s, policy_faults step (take n pages) [])"
    "R n s ?xs" by force
  from Suc.prems(2) [OF _ s(2)] obtain s' where
    "access n s = Some (s', pages ! n \<notin> set ?xs)" "R (Suc n) s' (step ?xs (pages ! n))" by auto
  with s Suc.prems(1) show ?case
    by (auto simp: replay_Suc take_Suc_conv_app_nth policy_run_append policy_faults_append)
qed

subsection \<open>FIFO meets the interface and refines its list\<close>

definition fifo_inv :: "workload \<Rightarrow> nat \<Rightarrow> fifo_queue \<Rightarrow> bool" where
  "fifo_inv c i q \<longleftrightarrow> 0 < wl_frames c \<and> fq_capacity q = wl_frames c \<and>
     length (fq_frames q) = wl_frames c \<and> fq_size q \<le> wl_frames c \<and> fq_head q < wl_frames c \<and>
     (fq_size q < wl_frames c \<longrightarrow> fq_head q = 0) \<and> distinct (take (fq_size q) (fq_frames q))"

definition fifo_res :: "fifo_queue \<Rightarrow> int set" where
  "fifo_res q = set (take (fq_size q) (fq_frames q))"

text \<open>The queue in order of arrival.\<close>

definition fifo_order :: "fifo_queue \<Rightarrow> int list" where
  "fifo_order q = rotate (fq_head q) (take (fq_size q) (fq_frames q))"

lemma fifo_order_set [simp]: "set (fifo_order q) = fifo_res q"
  by (simp add: fifo_order_def fifo_res_def)

lemma isPagePresent_eq:
  "fq_size q \<le> length (fq_frames q) \<Longrightarrow> isPagePresent q p = Some (p \<in> fifo_res q)"
  unfolding isPagePresent_def
  by (subst search_first_hit(1) [where q = "\<lambda>i. fq_frames q ! i = p"])
    (auto simp: fifo_res_def in_set_conv_nth)

lemma rotate_overwrite:
  assumes "h < length xs"
  shows "rotate (Suc h mod length xs) (xs[h := p]) = tl (rotate h xs) @ [p]"
proof -
  have tl: "tl (rotate h xs) = drop (Suc h) xs @ take h xs"
    using assms by (simp add: rotate_drop_take tl_append2 tl_drop [symmetric] drop_Suc)
  have up: "take (Suc h) (xs[h := p]) = take h xs @ [p]" "drop (Suc h) (xs[h := p]) = drop (Suc h) xs"
    using assms by (simp_all add: take_Suc_conv_app_nth)
  show ?thesis
  proof (cases "Suc h < length xs")
    case True
    then show ?thesis by (simp add: rotate_drop_take [of "Suc h"] tl up del: rotate_Suc)
  next
    case False
    with assms have n: "length xs = Suc h" by simp
    with up(1) have "xs[h := p] = take h xs @ [p]" by simp
    with n tl show ?thesis by simp
  qed
qed

lemma fifo_access_sim:
  assumes inv: "fifo_inv c i q" and i: "i < length pages"
  shows "\<exists>q'. fifo_access pages i q = Some (q', pages ! i \<notin> set (fifo_order q)) \<and> fifo_inv c (Suc i) q' \<and>
     fifo_order q' = fifo_step (wl_frames c) (fifo_order q) (pages ! i)"
proof -
  let ?p = "pages ! i" and ?n = "fq_size q" and ?f = "fq_frames q" and ?h = "fq_head q"
  note iv = inv [unfolded fifo_inv_def]
  have len: "length (fifo_order q) = ?n" using iv by (simp add: fifo_order_def)
  consider "?p \<in> fifo_res q" | "?p \<notin> fifo_res q" "?n < wl_frames c" | "?p \<notin> fifo_res q" "?n = wl_frames c"
    using iv by linarith
  then show ?thesis
  proof cases
    case 1
    with iv i inv show ?thesis
      by (simp add: fifo_access_def isPagePresent_eq fifo_step_def fifo_inv_def)
  next
    case 2
    let ?q' = "q\<lparr>fq_frames := ?f[?n := ?p], fq_size := ?n + 1\<rparr>"
    have tk: "take (Suc ?n) (?f[?n := ?p]) = take ?n ?f @ [?p]"
      using 2 iv by (simp add: take_Suc_conv_app_nth)
    have "fifo_access pages i q = Some (?q', True)"
      using 2 iv i by (simp add: fifo_access_def isPagePresent_eq)
    moreover have "fifo_inv c (Suc i) ?q'" using 2 iv tk by (auto simp: fifo_inv_def fifo_res_def)
    moreover have "fifo_order ?q' = fifo_step (wl_frames c) (fifo_order q) ?p"
      using 2 iv tk len by (simp add: fifo_step_def) (simp add: fifo_order_def)
    ultimately show ?thesis using 2 by (intro exI [of _ ?q']) simp
  next
    case 3
    let ?q' = "q\<lparr>fq_frames := ?f[?h := ?p], fq_head := (?h + 1) mod wl_frames c\<rparr>"
    have h: "?h < length ?f" "length ?f = wl_frames c" using iv by auto
    have all: "take ?n ?f = ?f" using 3 iv by simp
    have "fifo_access pages i q = Some (?q', True)"
      using 3 iv i by (simp add: fifo_access_def isPagePresent_eq)
    moreover have "fifo_inv c (Suc i) ?q'" using 3 iv all
      by (auto simp: fifo_inv_def fifo_res_def intro!: distinct_list_update)
    moreover have "fifo_order ?q' = fifo_step (wl_frames c) (fifo_order q) ?p"
      using 3 all len h rotate_overwrite [OF h(1), of ?p] by (simp add: fifo_step_def) (simp add: fifo_order_def)
    ultimately show ?thesis using 3 by (intro exI [of _ ?q']) simp
  qed
qed

lemma fifo_inv_init: "wl_ok c \<Longrightarrow> fifo_inv c 0 (initFIFOQueue (wl_frames c))"
  by (simp add: fifo_inv_def initFIFOQueue_def wl_ok_def)

lemma fifo_order_init: "fifo_order (initFIFOQueue cap) = []"
  by (simp add: fifo_order_def initFIFOQueue_def)

lemma tl_set_distinct: "\<lbrakk>distinct xs; xs \<noteq> []\<rbrakk> \<Longrightarrow> set (tl xs) = set xs - {hd xs}"
  by (cases xs) auto

interpretation fifo: replacement
  "\<lambda>c. fifo_access (wl_pages c)" "\<lambda>c. initFIFOQueue (wl_frames c)" fifo_res fifo_inv
proof
  fix c :: workload and i q
  let ?p = "wl_pages c ! i"
  assume inv: "fifo_inv c i q"
  have d: "distinct (fifo_order q)" "length (fifo_order q) = card (fifo_res q)"
    using inv by (auto simp: fifo_order_def fifo_inv_def fifo_res_def distinct_card)
  show "finite (fifo_res q) \<and> card (fifo_res q) \<le> wl_frames c"
    using inv d by (simp add: fifo_order_def fifo_inv_def fifo_res_def)
  assume i: "i < length (wl_pages c)"
  from fifo_access_sim [OF inv i] obtain q' where
    q': "fifo_access (wl_pages c) i q = Some (q', ?p \<notin> fifo_res q)" "fifo_inv c (Suc i) q'"
      "fifo_order q' = fifo_step (wl_frames c) (fifo_order q) ?p" by auto
  have set': "fifo_res q' = set (fifo_step (wl_frames c) (fifo_order q) ?p)"
    using q'(3) fifo_order_set by metis
  { assume "?p \<in> fifo_res q"
    with q' set' show "\<exists>s'. fifo_access (wl_pages c) i q = Some (s', False) \<and> fifo_inv c (Suc i) s' \<and>
        fifo_res s' = fifo_res q" by (simp add: fifo_step_def) }
  assume new: "?p \<notin> fifo_res q"
  have "fifo_res q' = insert ?p (fifo_res q - {hd (fifo_order q)})" "hd (fifo_order q) \<in> fifo_res q"
    if "\<not> card (fifo_res q) < wl_frames c"
  proof -
    have ne: "fifo_order q \<noteq> []" using that inv d by (auto simp: fifo_inv_def)
    then show "hd (fifo_order q) \<in> fifo_res q" by (metis fifo_order_set hd_in_set)
    show "fifo_res q' = insert ?p (fifo_res q - {hd (fifo_order q)})"
      using new that d ne by (simp add: set' fifo_step_def tl_set_distinct)
  qed
  moreover have "fifo_res q' = insert ?p (fifo_res q)" if "card (fifo_res q) < wl_frames c"
    using that new d by (simp add: set' fifo_step_def)
  ultimately show "\<exists>s'. fifo_access (wl_pages c) i q = Some (s', True) \<and> fifo_inv c (Suc i) s' \<and>
      (if card (fifo_res q) < wl_frames c then fifo_res s' = insert ?p (fifo_res q)
       else \<exists>v \<in> fifo_res q. fifo_res s' = insert ?p (fifo_res q - {v}))"
    using q' new by auto
qed (rule fifo_inv_init, assumption, simp add: fifo_res_def initFIFOQueue_def)

lemma FIFO_refines:
  assumes "n \<le> length pages" and "int (length pages) \<le> INT_MAX" and "0 < capacity"
  shows "FIFOPageReplacement pages n capacity = Some (policy_faults (fifo_step capacity) (take n pages) [])"
proof -
  let ?c = "\<lparr>wl_pages = pages, wl_frames = capacity\<rparr>"
  have "wl_ok ?c" using assms by (simp add: wl_ok_def)
  then have "fifo_inv ?c 0 (initFIFOQueue capacity)" using fifo_inv_init [of ?c] by simp
  moreover have "\<exists>s'. fifo_access pages i s = Some (s', pages ! i \<notin> set xs) \<and>
      fifo_inv ?c (Suc i) s' \<and> fifo_order s' = fifo_step capacity xs (pages ! i)"
    if "i < n" "fifo_inv ?c i s \<and> fifo_order s = xs" for i s xs
    using fifo_access_sim [of ?c i s pages] that assms(1) by auto
  ultimately show ?thesis
    using replay_refines [of n pages "\<lambda>i s xs. fifo_inv ?c i s \<and> fifo_order s = xs"
        "initFIFOQueue capacity" "fifo_access pages" "fifo_step capacity"] assms(1)
    by (auto simp: FIFOPageReplacement_def fifo_order_init)
qed

subsection \<open>LRU meets the interface and refines its list\<close>

definition lru_frames :: "lru_state \<Rightarrow> page_frame list" where
  "lru_frames s = take (snd s) (fst s)"

definition lru_res :: "lru_state \<Rightarrow> int set" where
  "lru_res s = pf_page ` set (lru_frames s)"

definition lru_inv :: "workload \<Rightarrow> nat \<Rightarrow> lru_state \<Rightarrow> bool" where
  "lru_inv c i s \<longleftrightarrow> length (fst s) = wl_frames c \<and> snd s \<le> wl_frames c \<and>
     distinct (map pf_page (lru_frames s)) \<and> distinct (map pf_last_used (lru_frames s)) \<and>
     (\<forall>f \<in> set (lru_frames s). 0 \<le> pf_last_used f \<and> pf_last_used f < int i)"

text \<open>\<open>xs\<close> lists the resident pages by last use, the most recent first.\<close>

definition lru_order :: "lru_state \<Rightarrow> int list \<Rightarrow> bool" where
  "lru_order s xs \<longleftrightarrow> (\<exists>ys. mset ys = mset (lru_frames s) \<and> xs = map pf_page ys \<and>
     sorted_wrt (\<lambda>f g. pf_last_used g < pf_last_used f) ys)"

lemma lru_order_set: "lru_order s xs \<Longrightarrow> set xs = lru_res s"
  unfolding lru_order_def lru_res_def by (metis image_set set_mset_mset)

lemma sorted_wrt_butlast: "sorted_wrt P xs \<Longrightarrow> sorted_wrt P (butlast xs)"
  by (simp add: butlast_conv_take sorted_wrt_take)

text \<open>The scan for the frame with the least time stamp.\<close>

lemma lru_victim:
  assumes "0 < capacity" and "length frames = capacity"
    and "\<forall>f \<in> set frames. 0 \<le> pf_last_used f \<and> pf_last_used f < INT_MAX"
  shows "\<exists>v m. for_loop 0 capacity (\<lambda>j (lru_idx, min_last_used). do {
       f \<leftarrow> rd frames j;
       Some (if pf_last_used f < min_last_used then (j, pf_last_used f)
             else (lru_idx, min_last_used)) }) (0, INT_MAX) = Some (v, m) \<and> v < capacity \<and>
     (\<forall>f \<in> set frames. pf_last_used (frames ! v) \<le> pf_last_used f)"
proof -
  let ?f = "\<lambda>j. pf_last_used (frames ! j)"
  let ?body = "\<lambda>j (lru_idx, min_last_used). do { f \<leftarrow> rd frames j;
       Some (if pf_last_used f < min_last_used then (j, pf_last_used f) else (lru_idx, min_last_used)) }"
  have "\<exists>b m. for_loop 0 capacity ?body (0, INT_MAX) = Some (b, m) \<and> m \<le> INT_MAX \<and>
     (\<forall>j. 0 \<le> j \<longrightarrow> j < capacity \<longrightarrow> m \<le> ?f j) \<and>
     (m = INT_MAX \<and> b = 0 \<or> (\<exists>v. 0 \<le> v \<and> v < capacity \<and> b = v \<and> m = ?f v \<and> ?f v < INT_MAX \<and>
        (\<forall>j. 0 \<le> j \<longrightarrow> j < v \<longrightarrow> ?f v < ?f j)))"
    using assms(2) by (intro for_loop_argmin) auto
  then obtain b m where bm: "for_loop 0 capacity ?body (0, INT_MAX) = Some (b, m)"
    "\<forall>j < capacity. m \<le> ?f j" "m = INT_MAX \<and> b = 0 \<or> b < capacity \<and> m = ?f b" by auto
  have "?f 0 < INT_MAX" using assms by simp
  with bm assms(1) have "b < capacity" "m = ?f b" by (metis linorder_not_le)+
  with bm assms(2) show ?thesis by (auto simp: in_set_conv_nth)
qed

lemma lru_hit_search:
  assumes "snd s \<le> length (fst s)"
  shows "search_first 0 (snd s) (\<lambda>j. do { f \<leftarrow> rd (fst s) j; Some (pf_page f = p) }) =
     Some (find (\<lambda>j. pf_page (fst s ! j) = p) [0..<snd s])"
  using assms by (intro search_first_total) auto

text \<open>Giving an element of a list a new key keeps the rest of the order.\<close>

lemma order_touch:
  assumes "mset ys = mset fs" and "distinct (map pf_page fs)" and "f \<in> set fs"
    and "sorted_wrt (\<lambda>f g. pf_last_used g < pf_last_used f) ys"
    and "\<forall>g \<in> set fs. pf_last_used g < pf_last_used f'"
  defines "zs \<equiv> f' # filter (\<lambda>g. pf_page g \<noteq> pf_page f) ys"
  shows "mset zs = mset fs - {#f#} + {#f'#}"
    and "sorted_wrt (\<lambda>f g. pf_last_used g < pf_last_used f) zs"
    and "map pf_page zs = pf_page f' # removeAll (pf_page f) (map pf_page ys)"
proof -
  have "distinct ys" "inj_on pf_page (set ys)" "set ys = set fs"
    using assms(1,2) mset_eq_setD [OF assms(1)] mset_eq_imp_distinct_iff [OF assms(1)]
    by (simp_all add: distinct_map)
  then have "filter (\<lambda>g. pf_page g \<noteq> pf_page f) ys = filter (\<lambda>g. g \<noteq> f) ys"
    using assms(3) by (intro filter_cong) (auto dest: inj_onD)
  also have "\<dots> = remove1 f ys"
    using \<open>distinct ys\<close> by (simp add: distinct_remove1_removeAll removeAll_filter_not_eq eq_commute)
  finally have f: "filter (\<lambda>g. pf_page g \<noteq> pf_page f) ys = remove1 f ys" .
  show "mset zs = mset fs - {#f#} + {#f'#}" by (simp add: zs_def f assms(1))
  show "sorted_wrt (\<lambda>f g. pf_last_used g < pf_last_used f) zs"
    using assms(4,5) \<open>set ys = set fs\<close> by (auto simp: zs_def sorted_wrt_filter)
  show "map pf_page zs = pf_page f' # removeAll (pf_page f) (map pf_page ys)"
    by (simp add: zs_def removeAll_filter_not_eq filter_map o_def eq_commute)
qed

lemma lru_step_full:
  "\<lbrakk>p \<notin> set xs; length xs = cap; 0 < cap\<rbrakk> \<Longrightarrow> lru_step cap xs p = p # butlast xs"
  by (cases cap) (auto simp: lru_step_def butlast_conv_take removeAll_id)

lemma last_is_least:
  assumes "sorted_wrt (\<lambda>f g. k g < (k f :: int)) ys" and "v \<in> set ys" and "\<forall>g \<in> set ys. k v \<le> k g"
  shows "last ys = v"
proof -
  obtain as bs where ys: "ys = as @ v # bs" using assms(2) split_list by metis
  with assms(1,3) have "bs = []" by (cases bs) (auto simp: sorted_wrt_append)
  with ys show ?thesis by simp
qed

lemma lru_access_sim:
  assumes ok: "wl_ok c" and inv: "lru_inv c i s" and ord: "lru_order s xs" and i: "i < length (wl_pages c)"
  defines "p \<equiv> wl_pages c ! i"
  shows "\<exists>s'. lru_access (wl_pages c) (wl_frames c) i s = Some (s', p \<notin> set xs) \<and>
     lru_inv c (Suc i) s' \<and> lru_order s' (lru_step (wl_frames c) xs p) \<and>
     (p \<notin> set xs \<longrightarrow> (if snd s < wl_frames c then lru_res s' = insert p (lru_res s)
        else \<exists>v \<in> lru_res s. lru_res s' = insert p (lru_res s - {v})))"
proof -
  obtain frames n where s: "s = (frames, n)" by (cases s)
  let ?cap = "wl_frames c" and ?fs = "take n frames"
  let ?less = "\<lambda>f g. pf_last_used g < pf_last_used f"
  have iv: "length frames = ?cap" "n \<le> ?cap" "distinct (map pf_page ?fs)" "distinct (map pf_last_used ?fs)"
    "\<forall>f \<in> set ?fs. 0 \<le> pf_last_used f \<and> pf_last_used f < int i"
    using inv by (auto simp: lru_inv_def lru_frames_def s)
  from ord obtain ys where ys: "mset ys = mset ?fs" "xs = map pf_page ys" "sorted_wrt ?less ys"
    by (auto simp: lru_order_def lru_frames_def s)
  have len: "length xs = n" using ys(1,2) iv(1,2) mset_eq_length [OF ys(1)] by simp
  have res: "set xs = pf_page ` set ?fs" using ys(2) mset_eq_setD [OF ys(1)] by simp
  have cap: "0 < ?cap" "int i < INT_MAX" using ok i by (auto simp: wl_ok_def)
  have search: "search_first 0 n (\<lambda>j. do { f \<leftarrow> rd frames j; Some (pf_page f = p) }) =
     Some (find (\<lambda>j. pf_page (frames ! j) = p) [0..<n])"
    using lru_hit_search [of s p] iv s by simp
  have none_iff: "find (\<lambda>j. pf_page (frames ! j) = p) [0..<n] = None \<longleftrightarrow> p \<notin> set xs"
    unfolding res find_upt_None using iv(1,2) by (force simp: in_set_conv_nth)
  have page: "rd (wl_pages c) i = Some p" using i by (simp add: p_def)
  let ?new = "\<lparr>pf_page = p, pf_last_used = int i\<rparr>"
  consider (hit) "p \<in> set xs" | (free) "p \<notin> set xs" "n < ?cap" | (full) "p \<notin> set xs" "n = ?cap"
    using iv by linarith
  then show ?thesis
  proof cases
    case hit
    then obtain j where j: "find (\<lambda>j. pf_page (frames ! j) = p) [0..<n] = Some j"
      using none_iff by auto
    then have jn: "j < n" "pf_page (frames ! j) = p" by (auto simp: find_upt_Some)
    let ?f = "frames ! j" and ?f' = "(frames ! j)\<lparr>pf_last_used := int i\<rparr>"
    let ?fs' = "?fs[j := ?f']"
    have f: "?fs ! j = ?f" "?f \<in> set ?fs" "j < length ?fs" using jn iv by (auto simp: in_set_conv_nth)
    have tk: "take n (frames[j := ?f']) = ?fs'" by (simp add: take_update_swap)
    have m': "mset ?fs' = mset ?fs - {#?f#} + {#?f'#}" using f by (simp add: mset_update)
    have prem: "\<forall>g \<in> set ?fs. pf_last_used g < pf_last_used ?f'" using iv(5) by simp
    let ?zs = "?f' # filter (\<lambda>g. pf_page g \<noteq> pf_page ?f) ys"
    note touch = order_touch [OF ys(1) iv(3) f(2) ys(3) prem]
    have pages: "map pf_page ?zs = p # removeAll p xs" using touch(3) jn(2) ys(2) by simp
    have same: "map pf_page ?fs' = map pf_page ?fs"
      by (intro nth_equalityI) (use f jn in \<open>auto simp: nth_list_update\<close>)
    have "mset ?zs = mset ?fs'" using touch(1) m' by simp
    then have "length ?zs = n" using iv(1,2) mset_eq_length by fastforce
    then have "length (p # removeAll p xs) = n" using pages by (metis length_map)
    then have "map pf_page ?zs = lru_step ?cap xs p" unfolding pages using iv(2) by (simp add: lru_step_def)
    then have ord': "lru_order (frames[j := ?f'], n) (lru_step ?cap xs p)"
      unfolding lru_order_def lru_frames_def fst_conv snd_conv tk
      using touch(1,2) m' by (intro exI [of _ ?zs]) simp
    have lu: "map pf_last_used ?fs' = (map pf_last_used ?fs)[j := int i]"
      by (simp add: map_update)
    have "int i \<notin> set (map pf_last_used ?fs)" using iv(5) by auto
    then have "distinct (map pf_last_used ?fs')"
      unfolding lu by (intro distinct_list_update iv(4)) auto
    moreover have "\<forall>g \<in> set ?fs'. 0 \<le> pf_last_used g \<and> pf_last_used g < int (Suc i)"
      using iv(5) set_update_subset_insert [of ?fs j ?f'] by fastforce
    ultimately have inv': "lru_inv c (Suc i) (frames[j := ?f'], n)"
      unfolding lru_inv_def lru_frames_def fst_conv snd_conv tk
      using iv(1-3) same by simp
    have "lru_access (wl_pages c) ?cap i s = Some ((frames[j := ?f'], n), False)"
      using jn iv by (simp add: lru_access_def s page search j)
    with inv' ord' hit show ?thesis by (intro exI [of _ "(frames[j := ?f'], n)"]) simp
  next
    case free
    let ?s' = "(frames[n := ?new], Suc n)"
    have n: "n < length frames" using free(2) iv(1) by simp
    have tk: "take (Suc n) (frames[n := ?new]) = ?fs @ [?new]"
      using n by (simp add: take_Suc_conv_app_nth)
    have none: "find (\<lambda>j. pf_page (frames ! j) = p) [0..<n] = None"
      using free(1) none_iff by simp
    have "lru_access (wl_pages c) ?cap i s = Some (?s', True)"
      using free n by (simp add: lru_access_def s page search none)
    moreover have "lru_inv c (Suc i) ?s'"
      unfolding lru_inv_def lru_frames_def fst_conv snd_conv tk
      using iv free res by fastforce
    moreover have "lru_order ?s' (lru_step ?cap xs p)"
      unfolding lru_order_def lru_frames_def fst_conv snd_conv tk
      using ys mset_eq_setD [OF ys(1)] iv(5) free len
      by (intro exI [of _ "?new # ys"]) (auto simp: lru_step_def removeAll_id)
    moreover have "lru_res ?s' = insert p (lru_res s)"
      unfolding lru_res_def lru_frames_def fst_conv snd_conv tk s by simp
    ultimately show ?thesis using free s by (intro exI [of _ ?s']) simp
  next
    case full
    have all: "?fs = frames" and nn: "\<not> n < ?cap" using full iv by simp_all
    have lt: "\<forall>f \<in> set frames. 0 \<le> pf_last_used f \<and> pf_last_used f < INT_MAX"
      using iv(5) cap(2) unfolding all by fastforce
    from lru_victim [OF cap(1) iv(1) lt] obtain v m where
      vm: "for_loop 0 ?cap (\<lambda>j (lru_idx, min_last_used). do {
         f \<leftarrow> rd frames j;
         Some (if pf_last_used f < min_last_used then (j, pf_last_used f)
             else (lru_idx, min_last_used)) }) (0, INT_MAX) = Some (v, m)"
      "v < ?cap" "\<forall>f \<in> set frames. pf_last_used (frames ! v) \<le> pf_last_used f" by blast
    let ?v = "frames ! v" and ?s' = "(frames[v := ?new], n)"
    have none: "find (\<lambda>j. pf_page (frames ! j) = p) [0..<n] = None"
      using full(1) none_iff by simp
    have v: "v < length frames" using vm(2) iv(1) by simp
    have tk: "take n (frames[v := ?new]) = frames[v := ?new]" using full iv by simp
    have "lru_access (wl_pages c) ?cap i s = Some (?s', True)"
      using nn v vm(1) by (simp add: lru_access_def s page search none)
    moreover have "lru_inv c (Suc i) ?s'"
    proof -
      have "p \<notin> set (map pf_page frames)" "int i \<notin> set (map pf_last_used frames)"
        using full res iv(5) unfolding all by auto
      then have "distinct (map pf_page (frames[v := ?new]))" "distinct (map pf_last_used (frames[v := ?new]))"
        using iv(3,4) unfolding all map_update by (auto intro!: distinct_list_update)
      moreover have "\<forall>g \<in> set (frames[v := ?new]). 0 \<le> pf_last_used g \<and> pf_last_used g < int (Suc i)"
        using iv(5) set_update_subset_insert [of frames v ?new] unfolding all by fastforce
      ultimately show ?thesis
        unfolding lru_inv_def lru_frames_def fst_conv snd_conv tk using iv(1) full by simp
    qed
    moreover have "lru_order ?s' (lru_step ?cap xs p)"
    proof -
      have sety: "set ys = set frames" using mset_eq_setD [OF ys(1)] all by simp
      have last: "last ys = ?v"
        using last_is_least [OF ys(3), of ?v] vm(3) v sety by simp
      have ne: "ys \<noteq> []" using len ys(2) full cap by auto
      have "mset (butlast ys) = mset frames - {#?v#}"
        using ys(1) all last ne by (metis add_diff_cancel_right' append_butlast_last_id mset.simps(1,2) mset_append)
      then have "mset (?new # butlast ys) = mset (frames[v := ?new])"
        using v by (simp add: mset_update)
      moreover have "sorted_wrt ?less (?new # butlast ys)"
        using ys(3) iv(5) sety all by (auto simp: sorted_wrt_butlast dest!: in_set_butlastD)
      moreover have "lru_step ?cap xs p = map pf_page (?new # butlast ys)"
        using lru_step_full [of p xs ?cap] full len cap ys(2) by (simp add: map_butlast)
      ultimately show ?thesis
        unfolding lru_order_def lru_frames_def fst_conv snd_conv tk by blast
    qed
    moreover have "\<exists>v \<in> lru_res s. lru_res ?s' = insert p (lru_res s - {v})"
    proof
      show "pf_page ?v \<in> lru_res s" using v all by (simp add: lru_res_def lru_frames_def s)
      have "mset (map pf_page (frames[v := ?new])) = mset (map pf_page frames) - {#pf_page ?v#} + {#p#}"
        using v by (simp add: map_update mset_update)
      then have "set (map pf_page (frames[v := ?new])) = insert p (set (map pf_page frames) - {pf_page ?v})"
        using iv(3) unfolding all by (metis distinct_remove1_removeAll mset.simps(2) mset_eq_setD mset_remove1 add_mset_add_single list.simps(15) set_removeAll)
      then show "lru_res ?s' = insert p (lru_res s - {pf_page ?v})"
        unfolding lru_res_def lru_frames_def fst_conv snd_conv tk s all by simp
    qed
    ultimately show ?thesis using full s by (intro exI [of _ ?s']) simp
  qed
qed

lemma lru_inv_init: "lru_inv c 0 (replicate (wl_frames c) f, 0)"
  by (simp add: lru_inv_def lru_frames_def)

lemma lru_order_init: "lru_order (fs, 0) []"
  by (simp add: lru_order_def lru_frames_def)

lemma lru_order_exists: "lru_inv c i s \<Longrightarrow> \<exists>xs. lru_order s xs"
proof -
  assume inv: "lru_inv c i s"
  let ?ys = "rev (sort_key pf_last_used (lru_frames s))"
  have "distinct (map pf_last_used (sort_key pf_last_used (lru_frames s)))"
    using inv by (metis distinct_sort lru_inv_def mset_eq_imp_distinct_iff mset_map mset_sort)
  then have "sorted_wrt (<) (map pf_last_used (sort_key pf_last_used (lru_frames s)))"
    by (simp add: strict_sorted_iff)
  then have "sorted_wrt (\<lambda>f g. pf_last_used g < pf_last_used f) ?ys"
    by (simp add: sorted_wrt_rev sorted_wrt_map)
  then show ?thesis unfolding lru_order_def by (intro exI [of _ "map pf_page ?ys"] exI [of _ ?ys]) simp
qed

interpretation lru: replacement
  "\<lambda>c. lru_access (wl_pages c) (wl_frames c)"
  "\<lambda>c. (replicate (wl_frames c) \<lparr>pf_page = - 1, pf_last_used = - 1\<rparr>, 0)" lru_res lru_inv
proof
  fix c :: workload and i s
  let ?p = "wl_pages c ! i"
  assume inv: "lru_inv c i s"
  have "card (lru_res s) = length (lru_frames s)"
    using inv distinct_card [of "map pf_page (lru_frames s)"] by (simp add: lru_inv_def lru_res_def)
  moreover have len: "length (lru_frames s) = snd s" using inv by (simp add: lru_inv_def lru_frames_def)
  ultimately have card: "card (lru_res s) = snd s" by simp
  with inv show "finite (lru_res s) \<and> card (lru_res s) \<le> wl_frames c"
    by (simp add: lru_inv_def lru_res_def)
  obtain xs where ord: "lru_order s xs" using lru_order_exists [OF inv] by blast
  note set = lru_order_set [OF ord]
  have len_xs: "length xs = snd s" using ord len mset_eq_length by (fastforce simp: lru_order_def)
  assume ok: "wl_ok c" and i: "i < length (wl_pages c)"
  from lru_access_sim [OF ok inv ord i] obtain s' where
    s': "lru_access (wl_pages c) (wl_frames c) i s = Some (s', ?p \<notin> lru_res s)" "lru_inv c (Suc i) s'"
      "lru_order s' (lru_step (wl_frames c) xs ?p)"
      "?p \<notin> lru_res s \<longrightarrow> (if snd s < wl_frames c then lru_res s' = insert ?p (lru_res s)
        else \<exists>v \<in> lru_res s. lru_res s' = insert ?p (lru_res s - {v}))" unfolding set by blast
  { assume hit: "?p \<in> lru_res s"
    have d: "distinct xs"
      using inv ord mset_eq_imp_distinct_iff [of xs "map pf_page (lru_frames s)"]
      by (auto simp: lru_inv_def lru_order_def)
    have "length (?p # removeAll ?p xs) \<le> wl_frames c"
      using hit len_xs inv d set by (simp add: distinct_remove1_removeAll [symmetric] length_remove1 lru_inv_def)
        (metis One_nat_def Suc_pred length_pos_if_in_set)
    then have "lru_res s' = insert ?p (lru_res s)"
      using lru_order_set [OF s'(3)] set by (auto simp: lru_step_def)
    with hit s' show "\<exists>s'. lru_access (wl_pages c) (wl_frames c) i s = Some (s', False) \<and>
        lru_inv c (Suc i) s' \<and> lru_res s' = lru_res s" by (auto simp: insert_absorb) }
  assume "?p \<notin> lru_res s"
  with s' show "\<exists>s'. lru_access (wl_pages c) (wl_frames c) i s = Some (s', True) \<and> lru_inv c (Suc i) s' \<and>
      (if card (lru_res s) < wl_frames c then lru_res s' = insert ?p (lru_res s)
       else \<exists>v \<in> lru_res s. lru_res s' = insert ?p (lru_res s - {v}))" unfolding card by auto
qed (rule lru_inv_init, simp add: lru_res_def lru_frames_def)

lemma LRU_refines:
  assumes "n \<le> length pages" and "int (length pages) \<le> INT_MAX" and "0 < capacity"
  shows "LRUPageReplacement pages n capacity = Some (policy_faults (lru_step capacity) (take n pages) [])"
proof -
  let ?c = "\<lparr>wl_pages = pages, wl_frames = capacity\<rparr>"
  have ok: "wl_ok ?c" using assms by (simp add: wl_ok_def)
  have "\<exists>s'. lru_access pages capacity i s = Some (s', pages ! i \<notin> set xs) \<and>
      lru_inv ?c (Suc i) s' \<and> lru_order s' (lru_step capacity xs (pages ! i))"
    if "i < n" "lru_inv ?c i s \<and> lru_order s xs" for i s xs
    using lru_access_sim [OF ok, of i s xs] that assms(1) by auto
  then show ?thesis
    using replay_refines [of n pages "\<lambda>i s xs. lru_inv ?c i s \<and> lru_order s xs"
        "(replicate capacity \<lparr>pf_page = - 1, pf_last_used = - 1\<rparr>, 0)" "lru_access pages capacity"
        "lru_step capacity"] assms(1) lru_inv_init [of ?c] lru_order_init
    by (auto simp: LRUPageReplacement_def)
qed

subsection \<open>The stack property of LRU\<close>

lemma take_remove1_take: "take n (remove1 p (take (Suc n) xs)) = take n (remove1 p xs)"
proof (induction xs arbitrary: n)
  case (Cons x xs)
  show ?case
  proof (cases n)
    case (Suc m)
    with Cons [of m] show ?thesis by (cases xs) auto
  qed simp
qed simp

lemma lru_step_take:
  assumes "distinct xs" and "0 < cap"
  shows "lru_step cap (take cap xs) p = take cap (p # removeAll p xs)"
proof -
  obtain n where n: "cap = Suc n" using assms(2) gr0_implies_Suc by blast
  have "removeAll p (take (Suc n) xs) = remove1 p (take (Suc n) xs)" "removeAll p xs = remove1 p xs"
    using assms(1) by (simp_all add: distinct_remove1_removeAll)
  then show ?thesis using take_remove1_take [of n p xs] by (simp add: lru_step_def n)
qed

text \<open>A smaller memory holds a prefix of what a larger one holds, so it never faults less.\<close>

lemma lru_faults_mono:
  assumes "0 < c1" and "c1 \<le> c2" and "distinct xs"
  shows "policy_faults (lru_step c2) ps (take c2 xs) \<le> policy_faults (lru_step c1) ps (take c1 xs)"
  using assms(3)
proof (induction ps arbitrary: xs)
  case (Cons p ps)
  let ?xs' = "p # removeAll p xs"
  have d: "distinct ?xs'" using Cons.prems by (simp add: distinct_removeAll)
  have "p \<in> set (take c2 xs)" if "p \<in> set (take c1 xs)"
    using that set_take_subset_set_take [OF assms(2), of xs] by (rule rev_subsetD)
  moreover have "lru_step c1 (take c1 xs) p = take c1 ?xs'" "lru_step c2 (take c2 xs) p = take c2 ?xs'"
    using lru_step_take [OF Cons.prems] assms by simp_all
  ultimately show ?case using Cons.IH [OF d] by (simp del: take_Suc_Cons)
qed simp

subsection \<open>Optimal replacement meets the interface\<close>

definition next_use :: "int list \<Rightarrow> nat \<Rightarrow> nat \<Rightarrow> int \<Rightarrow> nat option" where
  "next_use pages n k page = find (\<lambda>j. pages ! j = page) [k..<n]"

definition farthest_post :: "(nat \<Rightarrow> nat option) \<Rightarrow> nat list \<Rightarrow> int \<Rightarrow> int \<Rightarrow> int \<Rightarrow> bool" where
  "farthest_post nu is f fi r \<longleftrightarrow>
     (\<exists>v \<in> set is. r = int v \<and> nu v = None) \<or>
     (\<forall>i \<in> set is. nu i \<noteq> None) \<and>
     (r = fi \<and> (\<forall>i \<in> set is. int (the (nu i)) \<le> f) \<or>
      (\<exists>v \<in> set is. r = int v \<and> f < int (the (nu v)) \<and> (\<forall>i \<in> set is. the (nu i) \<le> the (nu v))))"

lemma farthest_post_skip:
  assumes "farthest_post nu is f fi r" and "nu i = Some j" and "int j \<le> f"
  shows "farthest_post nu (i # is) f fi r"
  using assms unfolding farthest_post_def by fastforce

lemma farthest_post_take:
  assumes "farthest_post nu is (int j) (int i) r" and "nu i = Some j" and "f < int j"
  shows "farthest_post nu (i # is) f fi r"
proof -
  consider (never) v where "v \<in> set is" "r = int v" "nu v = None"
    | (this) "\<forall>i \<in> set is. nu i \<noteq> None" "r = int i" "\<forall>i \<in> set is. int (the (nu i)) \<le> int j"
    | (later) v where "\<forall>i \<in> set is. nu i \<noteq> None" "v \<in> set is" "r = int v" "int j < int (the (nu v))"
        "\<forall>i \<in> set is. the (nu i) \<le> the (nu v)"
    using assms(1) unfolding farthest_post_def by blast
  then show ?thesis
  proof cases
    case later
    then have "\<exists>v \<in> set (i # is). r = int v \<and> f < int (the (nu v)) \<and>
        (\<forall>i \<in> set (i # is). the (nu i) \<le> the (nu v))"
      using assms(2,3) by (intro bexI [of _ v]) auto
    with later(1) assms(2) show ?thesis unfolding farthest_post_def by simp
  qed (use assms(2,3) in \<open>auto simp: farthest_post_def\<close>)
qed

lemma farthest_from_spec:
  assumes "\<forall>i \<in> set is. i < length frames" and "n \<le> length pages" and "k \<le> n" and "f = - 1 \<longleftrightarrow> fi = - 1"
  shows "\<exists>r. farthest_from pages n k frames is f fi = Some (if r = - 1 then 0 else r) \<and>
    farthest_post (\<lambda>i. next_use pages n k (frames ! i)) is f fi r"
  using assms(1,4)
proof (induction "is" arbitrary: f fi)
  case (Cons i "is")
  let ?nu = "\<lambda>i. next_use pages n k (frames ! i)"
  have s: "search_first k n (\<lambda>j. do { q \<leftarrow> rd pages j; Some (frames ! i = q) }) = Some (?nu i)"
    unfolding next_use_def using assms(2) by (intro search_first_total) auto
  show ?case
  proof (cases "?nu i")
    case None
    with s Cons.prems assms(3) have "farthest_from pages n k frames (i # is) f fi = Some (int i)" by simp
    moreover have "farthest_post ?nu (i # is) f fi (int i)" using None by (simp add: farthest_post_def)
    ultimately show ?thesis by (intro exI [of _ "int i"]) simp
  next
    case (Some j)
    show ?thesis
    proof (cases "int j > f")
      case True
      then have "farthest_from pages n k frames (i # is) f fi = farthest_from pages n k frames is (int j) (int i)"
        using s Some Cons.prems by simp
      with Cons.IH [of "int j" "int i"] Cons.prems farthest_post_take [where nu = ?nu, OF _ Some True] show ?thesis by auto
    next
      case False
      then have "farthest_from pages n k frames (i # is) f fi = farthest_from pages n k frames is f fi"
        using s Some Cons.prems by simp
      with Cons.IH [of f fi] Cons.prems farthest_post_skip [where nu = ?nu, OF _ Some] False show ?thesis by auto
    qed
  qed
qed (simp add: farthest_post_def)

text \<open>\<open>findFarthest\<close> names the frame whose page is needed last, or never.\<close>

lemma findFarthest_spec:
  assumes "capacity \<le> length frames" and "n \<le> length pages" and "k \<le> n" and "0 < capacity"
  shows "\<exists>v < capacity. findFarthest pages n k frames capacity = Some (int v) \<and>
    (next_use pages n k (frames ! v) = None \<or>
     (\<forall>i < capacity. \<exists>j. next_use pages n k (frames ! i) = Some j \<and> j \<le> the (next_use pages n k (frames ! v))))"
proof -
  let ?nu = "\<lambda>i. next_use pages n k (frames ! i)"
  from farthest_from_spec [of "[0..<capacity]" frames n pages k "- 1" "- 1"] assms
  obtain r where r: "findFarthest pages n k frames capacity = Some (if r = - 1 then 0 else r)"
    and post: "farthest_post ?nu [0..<capacity] (- 1) (- 1) r" by (auto simp: findFarthest_def)
  have "\<not> (\<forall>i \<in> set [0..<capacity]. int (the (?nu i)) \<le> - 1)" using assms(4) by force
  with post have d: "(\<exists>v < capacity. r = int v \<and> ?nu v = None) \<or>
     (\<forall>i < capacity. ?nu i \<noteq> None) \<and> (\<exists>v < capacity. r = int v \<and> (\<forall>i < capacity. the (?nu i) \<le> the (?nu v)))"
    unfolding farthest_post_def by auto
  from d show ?thesis
  proof
    assume "(\<forall>i < capacity. ?nu i \<noteq> None) \<and> (\<exists>v < capacity. r = int v \<and> (\<forall>i < capacity. the (?nu i) \<le> the (?nu v)))"
    then obtain v where v: "v < capacity" "r = int v" "\<forall>i < capacity. the (?nu i) \<le> the (?nu v)"
      "\<forall>i < capacity. ?nu i \<noteq> None" by blast
    then have "\<forall>i < capacity. \<exists>j. ?nu i = Some j \<and> j \<le> the (?nu v)" by force
    with v r show ?thesis by auto
  qed (use r in auto)
qed

definition opt_inv :: "workload \<Rightarrow> nat \<Rightarrow> opt_state \<Rightarrow> bool" where
  "opt_inv c i s \<longleftrightarrow> length (fst s) = wl_frames c \<and> snd s \<le> wl_frames c \<and> distinct (take (snd s) (fst s))"

definition opt_res :: "opt_state \<Rightarrow> int set" where
  "opt_res s = set (take (snd s) (fst s))"

lemma opt_access_cases:
  assumes inv: "opt_inv c i s" and i: "i < length (wl_pages c)" and cap: "0 < wl_frames c"
  defines "p \<equiv> wl_pages c ! i" and "k \<equiv> length (wl_pages c)"
  shows "p \<in> opt_res s \<Longrightarrow> opt_access (wl_pages c) k (wl_frames c) i s = Some (s, False)"
    and "\<lbrakk>p \<notin> opt_res s; snd s < wl_frames c\<rbrakk> \<Longrightarrow>
      opt_access (wl_pages c) k (wl_frames c) i s = Some (((fst s)[snd s := p], Suc (snd s)), True)"
    and "\<lbrakk>p \<notin> opt_res s; snd s = wl_frames c\<rbrakk> \<Longrightarrow> \<exists>v < wl_frames c.
      findFarthest (wl_pages c) k (i + 1) (fst s) (wl_frames c) = Some (int v) \<and>
      opt_access (wl_pages c) k (wl_frames c) i s = Some (((fst s)[v := p], snd s), True)"
proof -
  obtain frames n where s: "s = (frames, n)" by (cases s)
  have iv: "length frames = wl_frames c" "n \<le> wl_frames c" using inv by (auto simp: opt_inv_def s)
  have search: "search_first 0 n (\<lambda>j. do { f \<leftarrow> rd frames j; Some (f = p) }) =
     Some (find (\<lambda>j. frames ! j = p) [0..<n])"
    using iv by (intro search_first_total) auto
  have none_iff: "find (\<lambda>j. frames ! j = p) [0..<n] = None \<longleftrightarrow> p \<notin> opt_res s"
    unfolding find_upt_None opt_res_def s using iv by (force simp: in_set_conv_nth)
  have page: "rd (wl_pages c) i = Some p" using i by (simp add: p_def)
  note acc = opt_access_def s page search none_iff
  show "p \<in> opt_res s \<Longrightarrow> opt_access (wl_pages c) k (wl_frames c) i s = Some (s, False)"
    by (simp add: acc)
  show "\<lbrakk>p \<notin> opt_res s; snd s < wl_frames c\<rbrakk> \<Longrightarrow>
      opt_access (wl_pages c) k (wl_frames c) i s = Some (((fst s)[snd s := p], Suc (snd s)), True)"
    using iv by (simp add: acc)
  assume miss: "p \<notin> opt_res s" and full: "snd s = wl_frames c"
  from findFarthest_spec [of "wl_frames c" frames k "wl_pages c" "i + 1"] iv i cap
  obtain v where v: "v < wl_frames c" "findFarthest (wl_pages c) k (i + 1) frames (wl_frames c) = Some (int v)"
    by (auto simp: k_def)
  have "\<not> n < wl_frames c" using full s by simp
  with v miss iv(1) have "opt_access (wl_pages c) k (wl_frames c) i s = Some ((frames[v := p], n), True)"
    by (simp add: acc)
  with v s show "\<exists>v < wl_frames c. findFarthest (wl_pages c) k (i + 1) (fst s) (wl_frames c) = Some (int v) \<and>
      opt_access (wl_pages c) k (wl_frames c) i s = Some (((fst s)[v := p], snd s), True)" by auto
qed

text \<open>Overwriting one cell of an array without duplicates exchanges one element of its set.\<close>

lemma set_overwrite:
  assumes "distinct xs" and "v < length xs" and "p \<notin> set xs"
  shows "set (xs[v := p]) = insert p (set xs - {xs ! v})" and "distinct (xs[v := p])"
proof -
  show "distinct (xs[v := p])" using assms by (auto intro: distinct_list_update)
  show "set (xs[v := p]) = insert p (set xs - {xs ! v})"
    using assms by (auto simp: set_conv_nth nth_list_update nth_eq_iff_index_eq)
qed

lemma opt_access_step:
  assumes inv: "opt_inv c i s" and i: "i < length (wl_pages c)" and cap: "0 < wl_frames c"
  defines "p \<equiv> wl_pages c ! i" and "k \<equiv> length (wl_pages c)"
  shows "\<exists>s'. opt_access (wl_pages c) k (wl_frames c) i s = Some (s', p \<notin> opt_res s) \<and> opt_inv c (Suc i) s' \<and>
     (if p \<in> opt_res s then s' = s
      else if card (opt_res s) < wl_frames c then opt_res s' = insert p (opt_res s)
      else \<exists>y \<in> opt_res s. opt_res s' = insert p (opt_res s - {y}) \<and>
        (next_use (wl_pages c) k (i + 1) y = None \<or> (\<forall>x \<in> opt_res s. \<exists>j.
           next_use (wl_pages c) k (i + 1) x = Some j \<and> j \<le> the (next_use (wl_pages c) k (i + 1) y))))"
proof -
  obtain frames n where s: "s = (frames, n)" by (cases s)
  have iv: "length frames = wl_frames c" "n \<le> wl_frames c" "distinct (take n frames)"
    using inv by (auto simp: opt_inv_def s)
  have card: "card (opt_res s) = n" using iv by (simp add: opt_res_def s distinct_card)
  note acc = opt_access_cases [OF inv i cap, folded p_def k_def]
  consider "p \<in> opt_res s" | "p \<notin> opt_res s" "n < wl_frames c" | "p \<notin> opt_res s" "n = wl_frames c"
    using iv by linarith
  then show ?thesis
  proof cases
    case 1
    with acc(1) inv show ?thesis by (simp add: opt_inv_def)
  next
    case 2
    let ?s' = "(frames[n := p], Suc n)"
    have tk: "take (Suc n) (frames[n := p]) = take n frames @ [p]"
      using 2 iv by (simp add: take_Suc_conv_app_nth)
    have "opt_inv c (Suc i) ?s'" using 2 iv unfolding opt_inv_def fst_conv snd_conv tk
      by (simp add: opt_res_def s)
    moreover have "opt_res ?s' = insert p (opt_res s)" unfolding opt_res_def fst_conv snd_conv tk by (simp add: s)
    ultimately show ?thesis using acc(2) 2 card s by (intro exI [of _ ?s']) simp
  next
    case 3
    let ?nu = "next_use (wl_pages c) k (i + 1)"
    have all: "take n frames = frames" using 3 iv by simp
    from acc(3) 3 s obtain v where v: "v < wl_frames c"
      "findFarthest (wl_pages c) k (i + 1) frames (wl_frames c) = Some (int v)"
      "opt_access (wl_pages c) k (wl_frames c) i s = Some ((frames[v := p], n), True)" by auto
    have far: "?nu (frames ! v) = None \<or> (\<forall>x \<in> opt_res s. \<exists>j. ?nu x = Some j \<and> j \<le> the (?nu (frames ! v)))"
      using findFarthest_spec [of "wl_frames c" frames k "wl_pages c" "i + 1"] iv(1) i cap v(2)
      by (auto simp: k_def opt_res_def s all in_set_conv_nth)
    have new: "p \<notin> set frames" using 3 all by (simp add: opt_res_def s)
    note ow = set_overwrite [OF iv(3) [unfolded all] _ new, of v]
    let ?s' = "(frames[v := p], n)"
    have "opt_inv c (Suc i) ?s'" using 3 iv ow(2) v by (simp add: opt_inv_def)
    moreover have "frames ! v \<in> opt_res s" "opt_res ?s' = insert p (opt_res s - {frames ! v})"
      using ow(1) v iv 3 all by (simp_all add: opt_res_def s)
    ultimately show ?thesis using 3 card v(3) far by (intro exI [of _ ?s']) auto
  qed
qed

interpretation opt: replacement
  "\<lambda>c. opt_access (wl_pages c) (length (wl_pages c)) (wl_frames c)"
  "\<lambda>c. (replicate (wl_frames c) (- 1), 0)" opt_res opt_inv
proof
  fix c :: workload and i s
  assume inv: "opt_inv c i s"
  then show "finite (opt_res s) \<and> card (opt_res s) \<le> wl_frames c"
    by (simp add: opt_inv_def opt_res_def distinct_card)
  assume ok: "wl_ok c" and i: "i < length (wl_pages c)"
  have cap: "0 < wl_frames c" using ok by (simp add: wl_ok_def)
  note step = opt_access_step [OF inv i cap]
  { assume "wl_pages c ! i \<in> opt_res s"
    with step show "\<exists>s'. opt_access (wl_pages c) (length (wl_pages c)) (wl_frames c) i s = Some (s', False) \<and>
        opt_inv c (Suc i) s' \<and> opt_res s' = opt_res s" by auto }
  assume "wl_pages c ! i \<notin> opt_res s"
  with step show "\<exists>s'. opt_access (wl_pages c) (length (wl_pages c)) (wl_frames c) i s = Some (s', True) \<and>
      opt_inv c (Suc i) s' \<and> (if card (opt_res s) < wl_frames c then opt_res s' = insert (wl_pages c ! i) (opt_res s)
       else \<exists>v \<in> opt_res s. opt_res s' = insert (wl_pages c ! i) (opt_res s - {v}))"
    by (cases "card (opt_res s) < wl_frames c") auto
qed (simp_all add: opt_inv_def opt_res_def)

end
