(* ===== verification/Replacement_Optimality.thy ===== *)
theory Replacement_Optimality
  imports Page_Replacement
begin

section \<open>Paging results: bounds, stack property, optimality (d19, d20)\<close>

text \<open>
  The results about the three policies of Page_Replacement. The last one is Belady's theorem for
  the code's optimal policy: no policy that pages on demand faults less, FIFO and LRU included.
\<close>

subsection \<open>All policies that page on demand\<close>

text \<open>
  \<open>serves cap ps S k\<close>: starting with the pages \<open>S\<close> resident, some choice of pages to drop serves
  the references \<open>ps\<close> with \<open>k\<close> faults. A policy brings in a page when it is referenced, keeps at
  most \<open>cap\<close> pages, and may drop what it likes.
\<close>

inductive serves :: "nat \<Rightarrow> int list \<Rightarrow> int set \<Rightarrow> nat \<Rightarrow> bool" for cap where
  done_all: "serves cap [] S 0"
| hit: "\<lbrakk>p \<in> S; S' \<subseteq> S; p \<in> S'; serves cap ps S' k\<rbrakk> \<Longrightarrow> serves cap (p # ps) S k"
| fault: "\<lbrakk>p \<notin> S; S' \<subseteq> insert p S; p \<in> S'; finite S'; card S' \<le> cap; serves cap ps S' k\<rbrakk> \<Longrightarrow>
    serves cap (p # ps) S (Suc k)"

inductive_cases serves_NilE: "serves cap [] S k"
inductive_cases serves_ConsE: "serves cap (p # ps) S k"

text \<open>Dropping a page costs at most one fault more.\<close>

lemma serves_drop:
  "\<lbrakk>serves cap ps T k; finite T; card T \<le> cap\<rbrakk> \<Longrightarrow> \<exists>k' \<le> Suc k. serves cap ps (T - {y}) k'"
proof (induction arbitrary: rule: serves.induct)
  case (done_all S)
  then show ?case using serves.done_all by blast
next
  case (hit p S S' ps k)
  have fin: "finite S'" "card S' \<le> cap"
    using hit.hyps(2) hit.prems finite_subset card_mono le_trans by metis+
  show ?case
  proof (cases "p = y")
    case True
    then have "serves cap (p # ps) (S - {y}) (Suc k)"
      using hit.hyps fin by (intro serves.fault [of _ _ S']) auto
    then show ?thesis by blast
  next
    case False
    from hit.IH [OF fin] obtain k' where "k' \<le> Suc k" "serves cap ps (S' - {y}) k'" by blast
    then have "serves cap (p # ps) (S - {y}) k'"
      using hit.hyps False by (intro serves.hit [of _ _ "S' - {y}"]) auto
    with \<open>k' \<le> Suc k\<close> show ?thesis by blast
  qed
next
  case (fault p S S' ps k)
  from fault.IH [OF fault.hyps(4,5)] obtain k' where k': "k' \<le> Suc k" "serves cap ps (S' - {y}) k'" by blast
  show ?case
  proof (cases "p = y")
    case True
    then have "serves cap (p # ps) (S - {y}) (Suc k)"
      using fault.hyps by (intro serves.fault [of _ _ S']) auto
    then show ?thesis by (intro exI [of _ "Suc k"]) simp
  next
    case False
    have "card (S' - {y}) \<le> cap" using fault.hyps(4,5) card_mono [of S' "S' - {y}"] by auto
    then have "serves cap (p # ps) (S - {y}) (Suc k')"
      using fault.hyps False k'(2) by (intro serves.fault [of _ _ "S' - {y}"]) auto
    with k'(1) show ?thesis by (intro exI [of _ "Suc k'"]) simp
  qed
qed

text \<open>Among the references \<open>ps\<close>, \<open>x\<close> comes no later than \<open>y\<close>, or neither comes.\<close>

primrec needed_first :: "int list \<Rightarrow> int \<Rightarrow> int \<Rightarrow> bool" where
  "needed_first [] x y = True"
| "needed_first (p # ps) x y = (p = x \<or> p \<noteq> y \<and> needed_first ps x y)"

definition dominates :: "int list \<Rightarrow> int set \<Rightarrow> int set \<Rightarrow> bool" where
  "dominates ps S T \<longleftrightarrow> T \<subseteq> S \<or>
     (\<exists>x y U. S = insert x U \<and> T \<subseteq> insert y U \<and> x \<notin> U \<and> y \<notin> S \<and> needed_first ps x y)"

text \<open>The exchange argument: a memory that dominates another serves the future at least as well.\<close>

lemma dominates_serves:
  "\<lbrakk>serves cap ps T k; dominates ps S T; finite S; card S \<le> cap; finite T; card T \<le> cap\<rbrakk> \<Longrightarrow>
     \<exists>k' \<le> k. serves cap ps S k'"
proof (induction ps arbitrary: S T k)
  case Nil
  then show ?case using serves.done_all by blast
next
  case (Cons p ps)
  from Cons.prems(1) obtain T' k1 where T': "T' \<subseteq> insert p T" "p \<in> T'" "finite T'" "card T' \<le> cap"
    "serves cap ps T' k1" "k = (if p \<in> T then k1 else Suc k1)"
  proof (rule serves_ConsE)
    fix S' assume S': "p \<in> T" "S' \<subseteq> T" "p \<in> S'" "serves cap ps S' k"
    then have "finite S'" "card S' \<le> cap"
      using Cons.prems(5,6) finite_subset card_mono le_trans by metis+
    with S' show thesis by (intro that [of S' k]) auto
  next
    fix S' k1 assume "k = Suc k1" "p \<notin> T" "S' \<subseteq> insert p T" "p \<in> S'" "finite S'" "card S' \<le> cap"
      "serves cap ps S' k1"
    then show thesis by (intro that [of S' k1]) auto
  qed
  have keep: ?case if "p \<in> S" "dominates ps S T'" "k1 \<le> k"
  proof -
    from Cons.IH [OF T'(5) that(2) Cons.prems(3,4) T'(3,4)] obtain k' where "k' \<le> k1" "serves cap ps S k'" by blast
    then have "serves cap (p # ps) S k'" using that(1) by (intro serves.hit [of p S S]) auto
    with \<open>k' \<le> k1\<close> \<open>k1 \<le> k\<close> show ?thesis by (meson le_trans)
  qed
  have move: ?case if "p \<notin> S" "k = Suc k1" "S' \<subseteq> insert p S" "p \<in> S'" "finite S'" "card S' \<le> cap"
    "dominates ps S' T'" for S'
  proof -
    from Cons.IH [OF T'(5) that(7,5,6) T'(3,4)] obtain k' where "k' \<le> k1" "serves cap ps S' k'" by blast
    then have "serves cap (p # ps) S (Suc k')" using that by (intro serves.fault [of p S S']) auto
    with \<open>k' \<le> k1\<close> that(2) show ?thesis by (intro exI [of _ "Suc k'"]) simp
  qed
  have le: "k1 \<le> k" using T'(6) by simp
  from Cons.prems(2) consider (sub) "T \<subseteq> S" | (exch) x y U where "S = insert x U" "T \<subseteq> insert y U"
    "x \<notin> U" "y \<notin> S" "needed_first (p # ps) x y" unfolding dominates_def by blast
  then show ?case
  proof cases
    case sub
    show ?thesis
    proof (cases "p \<in> S")
      case True
      then have "T' \<subseteq> S" using sub T'(1) by blast
      with True le keep show ?thesis by (simp add: dominates_def)
    next
      case False
      then have "p \<notin> T" "T' \<subseteq> insert p S" using sub T'(1) by blast+
      with False T' show ?thesis by (intro move [of T']) (auto simp: dominates_def)
    qed
  next
    case exch
    consider (x) "p = x" | (other) "p \<noteq> x" "p \<noteq> y" "needed_first ps x y" using exch(5) by auto
    then show ?thesis
    proof cases
      case x
      then have miss: "p \<notin> T" using exch by blast
      have "T' - {y} \<subseteq> S" using T'(1) exch(1,2) x by blast
      from serves_drop [OF T'(5,3,4), of y] obtain k2 where k2: "k2 \<le> Suc k1" "serves cap ps (T' - {y}) k2" by blast
      have "serves cap (p # ps) S k2"
        using k2(2) \<open>T' - {y} \<subseteq> S\<close> x exch(1,4) T'(2) by (intro serves.hit [of p S "T' - {y}"]) auto
      with k2(1) miss T'(6) show ?thesis by auto
    next
      case other
      show ?thesis
      proof (cases "p \<in> U")
        case True
        then have "T' \<subseteq> insert y U" using T'(1) exch(2) by blast
        with exch other have "dominates ps S T'" unfolding dominates_def by blast
        with True exch(1) le keep show ?thesis by simp
      next
        case False
        let ?S' = "if y \<in> T' then insert x (T' - {y}) else T'"
        have miss: "p \<notin> S" "p \<notin> T" using False other exch(1,2) by blast+
        have xT: "x \<notin> T'" using T'(1) exch other by blast
        have sub: "?S' \<subseteq> insert p S" using T'(1) exch(1,2) by auto
        have "card ?S' \<le> card T'"
          using T'(3) xT by (auto simp: card_insert_if card_Diff_singleton) (metis Suc_pred card_gt_0_iff empty_iff le_refl)
        moreover have "dominates ps ?S' T'"
        proof (cases "y \<in> T'")
          case True
          have "x \<noteq> y" using exch by blast
          with True xT other(3) have "?S' = insert x (T' - {y}) \<and> T' \<subseteq> insert y (T' - {y}) \<and> x \<notin> T' - {y} \<and>
              y \<notin> ?S' \<and> needed_first ps x y" by auto
          then show ?thesis unfolding dominates_def by blast
        qed (simp add: dominates_def)
        ultimately show ?thesis
          using miss sub T' other by (intro move [of ?S']) auto
      qed
    qed
  qed
qed

subsection \<open>The code's policies among them\<close>

definition replay_from :: "(nat \<Rightarrow> 's \<Rightarrow> ('s \<times> bool) option) \<Rightarrow> nat \<Rightarrow> nat \<Rightarrow> 's \<Rightarrow> nat \<Rightarrow> ('s \<times> nat) option" where
  "replay_from access i n s k = for_loop i n (\<lambda>i (s, page_faults). do {
     (s', fault) \<leftarrow> access i s;
     Some (s', if fault then page_faults + 1 else page_faults) }) (s, k)"

lemma replay_from_0: "replay access n s = replay_from access 0 n s 0"
  by (simp add: replay_def replay_from_def)

lemma replay_from_end [simp]: "replay_from access n n s k = Some (s, k)"
  by (simp add: replay_from_def)

lemma replay_from_step:
  "\<lbrakk>i < n; access i s = Some (s', fault)\<rbrakk> \<Longrightarrow>
     replay_from access i n s k = replay_from access (Suc i) n s' (if fault then k + 1 else k)"
  by (simp add: replay_from_def for_loop_step)

context replacement
begin

lemma rest_serves:
  assumes ok: "wl_ok c"
  shows "\<lbrakk>inv c i s; i \<le> length (wl_pages c)\<rbrakk> \<Longrightarrow>
    \<exists>s' f. replay_from (access c) i (length (wl_pages c)) s k = Some (s', k + f) \<and>
      serves (wl_frames c) (drop i (wl_pages c)) (res s) f"
proof (induction "length (wl_pages c) - i" arbitrary: i s k)
  case 0
  then have "i = length (wl_pages c)" by simp
  then show ?case using serves.done_all by (intro exI [of _ s] exI [of _ 0]) simp
next
  case (Suc d)
  let ?n = "length (wl_pages c)" and ?p = "wl_pages c ! i"
  have i: "i < ?n" and d: "d = ?n - Suc i" using Suc by auto
  from access_step [OF ok Suc.prems(1) i] obtain s1 where
    s1: "access c i s = Some (s1, ?p \<notin> res s)" "inv c (Suc i) s1" "res s1 \<subseteq> insert ?p (res s)" by blast
  let ?k = "if ?p \<notin> res s then k + 1 else k"
  from Suc.hyps(1) [OF d s1(2), of ?k] i obtain s' f where
    f: "replay_from (access c) (Suc i) ?n s1 ?k = Some (s', ?k + f)"
      "serves (wl_frames c) (drop (Suc i) (wl_pages c)) (res s1) f" by auto
  have dr: "drop i (wl_pages c) = ?p # drop (Suc i) (wl_pages c)" using i by (simp add: Cons_nth_drop_Suc)
  have p: "?p \<in> res s1"
    using access_hit [OF ok Suc.prems(1) i] access_fault [OF ok Suc.prems(1) i] s1(1)
    by (cases "?p \<in> res s"; cases "card (res s) < wl_frames c") auto
  have run: "replay_from (access c) i ?n s k = Some (s', ?k + f)"
    using replay_from_step [where access = "access c", OF i s1(1)] f(1) by simp
  show ?case
  proof (cases "?p \<in> res s")
    case True
    then have "serves (wl_frames c) (drop i (wl_pages c)) (res s) f"
      unfolding dr using s1(3) p f(2) by (intro serves.hit [of _ _ "res s1"]) auto
    with run True show ?thesis by auto
  next
    case False
    then have "serves (wl_frames c) (drop i (wl_pages c)) (res s) (Suc f)"
      unfolding dr using s1(2,3) p f(2) res_bound by (intro serves.fault [of _ _ "res s1"]) auto
    with run False show ?thesis by (intro exI [of _ s'] exI [of _ "Suc f"]) simp
  qed
qed

lemma run_serves:
  assumes ok: "wl_ok c"
  shows "\<exists>s f. replay (access c) (length (wl_pages c)) (init c) = Some (s, f) \<and>
    serves (wl_frames c) (wl_pages c) {} f"
  using rest_serves [OF ok inv_init [OF ok], of 0] by (simp add: replay_from_0 res_init)

end

lemma next_use_step:
  "k < n \<Longrightarrow> next_use pages n k q = (if pages ! k = q then Some k else next_use pages n (Suc k) q)"
  by (simp add: next_use_def upt_conv_Cons)

lemma next_use_ge: "next_use pages n k q = Some j \<Longrightarrow> k \<le> j"
  by (simp add: next_use_def find_upt_Some)

lemma needed_first_next_use:
  assumes "k \<le> length pages"
    and "next_use pages (length pages) k y = None \<or> (\<exists>j. next_use pages (length pages) k x = Some j \<and>
      j \<le> the (next_use pages (length pages) k y))"
  shows "needed_first (drop k pages) x y"
  using assms
proof (induction "length pages - k" arbitrary: k)
  case (Suc d)
  let ?n = "length pages"
  have k: "k < ?n" "d = ?n - Suc k" using Suc by auto
  have dr: "drop k pages = pages ! k # drop (Suc k) pages" using k by (simp add: Cons_nth_drop_Suc)
  show ?case
  proof (cases "pages ! k = x")
    case False
    with Suc.prems(2) k have y: "pages ! k \<noteq> y"
      using next_use_ge [of pages ?n "Suc k" x] by (fastforce simp: next_use_step)
    with Suc.prems(2) k False have "needed_first (drop (Suc k) pages) x y"
      by (intro Suc.hyps(1)) (auto simp: next_use_step)
    with y dr show ?thesis by simp
  qed (simp add: dr)
qed simp

text \<open>One fault of the optimal policy leaves a memory that dominates any other choice.\<close>

lemma farthest_dominates:
  assumes "finite S" and "card S = cap" and "0 < cap" and "p \<notin> S" and "y \<in> S"
    and far: "\<forall>x \<in> S. x \<noteq> y \<longrightarrow> needed_first ps x y"
    and S': "S' \<subseteq> insert p S" "p \<in> S'" "finite S'" "card S' \<le> cap"
  shows "dominates ps (insert p (S - {y})) S'"
proof (cases "y \<in> S'")
  case False
  with S' show ?thesis by (auto simp: dominates_def)
next
  case True
  have "\<not> insert p S \<subseteq> S'"
    using assms(1,2,4) S'(3,4) card_mono [of S' "insert p S"] by auto
  then obtain z where z: "z \<in> S" "z \<notin> S'" using S'(2) by auto
  let ?O = "insert p (S - {y})"
  have "z \<noteq> y" using z True by blast
  then have "?O = insert z (?O - {z})" "S' \<subseteq> insert y (?O - {z})" "y \<notin> ?O" "needed_first ps z y"
    using z S'(1) assms(4,5) far by auto
  then show ?thesis unfolding dominates_def by blast
qed

lemma opt_rest:
  assumes ok: "wl_ok c"
  defines "n \<equiv> length (wl_pages c)" and "cap \<equiv> wl_frames c"
  shows "\<lbrakk>opt_inv c i s; i \<le> n; serves cap (drop i (wl_pages c)) (opt_res s) m\<rbrakk> \<Longrightarrow>
    \<exists>s' f. replay_from (opt_access (wl_pages c) n cap) i n s k = Some (s', k + f) \<and> f \<le> m"
proof (induction "n - i" arbitrary: i s k m)
  case 0
  then have "i = n" by simp
  then show ?case by (intro exI [of _ s] exI [of _ 0]) simp
next
  case (Suc d)
  let ?p = "wl_pages c ! i" and ?ps = "drop (Suc i) (wl_pages c)" and ?S = "opt_res s"
  have i: "i < n" and d: "d = n - Suc i" using Suc by auto
  have cap: "0 < cap" using ok by (simp add: wl_ok_def cap_def)
  have fin: "finite ?S" "card ?S \<le> cap" using opt.res_bound [OF Suc.prems(1)] by (auto simp: cap_def)
  have dr: "drop i (wl_pages c) = ?p # ?ps" using i by (simp add: Cons_nth_drop_Suc n_def)
  from opt_access_step [OF Suc.prems(1)] i cap obtain s1 where
    s1: "opt_access (wl_pages c) n cap i s = Some (s1, ?p \<notin> ?S)" "opt_inv c (Suc i) s1"
      "if ?p \<in> ?S then s1 = s else if card ?S < cap then opt_res s1 = insert ?p ?S
       else \<exists>y \<in> ?S. opt_res s1 = insert ?p (?S - {y}) \<and>
        (next_use (wl_pages c) n (i + 1) y = None \<or> (\<forall>x \<in> ?S. \<exists>j.
           next_use (wl_pages c) n (i + 1) x = Some j \<and> j \<le> the (next_use (wl_pages c) n (i + 1) y)))"
    unfolding n_def cap_def by blast
  note fin1 = opt.res_bound [OF s1(2), folded cap_def]
  have ind: "\<exists>s' f. replay_from (opt_access (wl_pages c) n cap) (Suc i) n s1 k1 = Some (s', k1 + f) \<and> f \<le> m1"
    if "serves cap ?ps T m1" "dominates ?ps (opt_res s1) T" "finite T" "card T \<le> cap" for T m1 k1
  proof -
    from dominates_serves [OF that(1,2)] fin1 that(3,4) obtain m2 where
      m2: "m2 \<le> m1" "serves cap ?ps (opt_res s1) m2" by blast
    from Suc.hyps(1) [OF d s1(2) _ m2(2), of k1] i obtain s' f where
      "replay_from (opt_access (wl_pages c) n cap) (Suc i) n s1 k1 = Some (s', k1 + f)" "f \<le> m2" by auto
    with m2(1) show ?thesis using le_trans by blast
  qed
  note step = replay_from_step [where access = "opt_access (wl_pages c) n cap", OF i s1(1), of k]
  from Suc.prems(3) [unfolded dr] show ?case
  proof (rule serves_ConsE)
    fix S' assume h: "?p \<in> ?S" "S' \<subseteq> ?S" "serves cap ?ps S' m"
    have "finite S'" "card S' \<le> cap" using h(2) fin finite_subset card_mono le_trans by metis+
    moreover have "dominates ?ps (opt_res s1) S'" using h s1(3) by (simp add: dominates_def)
    ultimately show ?thesis using ind [OF h(3), of k] step h(1) by auto
  next
    fix S' m1 assume h: "m = Suc m1" "?p \<notin> ?S" "S' \<subseteq> insert ?p ?S" "?p \<in> S'" "finite S'" "card S' \<le> cap"
      "serves cap ?ps S' m1"
    have "dominates ?ps (opt_res s1) S'"
    proof (cases "card ?S < cap")
      case True
      with h s1(3) show ?thesis by (simp add: dominates_def)
    next
      case False
      with h(2) s1(3) obtain y where y: "y \<in> ?S" "opt_res s1 = insert ?p (?S - {y})"
        "next_use (wl_pages c) n (i + 1) y = None \<or> (\<forall>x \<in> ?S. \<exists>j.
           next_use (wl_pages c) n (i + 1) x = Some j \<and> j \<le> the (next_use (wl_pages c) n (i + 1) y))" by auto
      have "needed_first ?ps x y" if "x \<in> ?S" for x
        using needed_first_next_use [of "Suc i" "wl_pages c" y x] y(3) that i by (auto simp: n_def)
      then show ?thesis unfolding y(2)
        using False fin cap h y(1) by (intro farthest_dominates) auto
    qed
    from ind [OF h(7) this h(5,6), of "k + 1"] step h(1,2) obtain s' f where
      "replay_from (opt_access (wl_pages c) n cap) i n s k = Some (s', k + 1 + f)" "f \<le> m1" by auto
    with h(1) show ?thesis by (intro exI [of _ s'] exI [of _ "Suc f"]) simp
  qed
qed

subsection \<open>Results\<close>

lemma workload_ok:
  "\<lbrakk>0 < capacity; int (length pages) \<le> INT_MAX\<rbrakk> \<Longrightarrow> wl_ok \<lparr>wl_pages = pages, wl_frames = capacity\<rparr>"
  by (simp add: wl_ok_def)

text \<open>C9: FIFO, LRU and optimal replacement return for every reference string and every positive number of
  frames. Each counts at least one fault per distinct page and at most one per reference, and
  exactly one per distinct page when all distinct pages fit into the frames.\<close>
theorem page_faults_bounded:
  assumes "0 < capacity" and "int (length pages) \<le> INT_MAX"
    and alg: "alg \<in> {FIFOPageReplacement, LRUPageReplacement, optimalPageReplacement}"
  shows "\<exists>k. alg pages (length pages) capacity = Some k \<and> card (set pages) \<le> k \<and> k \<le> length pages \<and>
    (card (set pages) \<le> capacity \<longrightarrow> k = card (set pages))"
proof -
  let ?c = "\<lparr>wl_pages = pages, wl_frames = capacity\<rparr>"
  note ok = workload_ok [OF assms(1,2)]
  from alg consider "alg = FIFOPageReplacement" | "alg = LRUPageReplacement" | "alg = optimalPageReplacement"
    by blast
  then show ?thesis
  proof cases
    case 1
    from fifo.replay_bounds [OF ok, of "length pages"] show ?thesis by (auto simp: 1 FIFOPageReplacement_def)
  next
    case 2
    from lru.replay_bounds [OF ok, of "length pages"] show ?thesis by (auto simp: 2 LRUPageReplacement_def)
  next
    case 3
    from opt.replay_bounds [OF ok, of "length pages"] show ?thesis by (auto simp: 3 optimalPageReplacement_def)
  qed
qed

theorem page_faults_bounded_witness:
  "\<exists>k. LRUPageReplacement [7, 0, 1, 2, 0] (length [7, 0, 1, 2, 0::int]) 4 = Some k \<and>
    card (set [7, 0, 1, 2, 0::int]) \<le> k \<and> k \<le> length [7, 0, 1, 2, 0::int] \<and>
    (card (set [7, 0, 1, 2, 0::int]) \<le> 4 \<longrightarrow> k = card (set [7, 0, 1, 2, 0::int]))"
  by (rule page_faults_bounded) (simp_all add: INT_MAX_def)

text \<open>C10: FIFO computes the faults of a queue of pages: a fault appends the page, dropping the page that
  arrived first when the frames are full, and a hit changes nothing.\<close>
theorem fifo_is_queue:
  assumes "0 < capacity" and "int (length pages) \<le> INT_MAX"
  shows "FIFOPageReplacement pages (length pages) capacity =
    Some (policy_faults (fifo_step capacity) pages [])"
  using FIFO_refines [of "length pages" pages capacity] assms by simp

theorem fifo_is_queue_witness:
  "FIFOPageReplacement [1, 2, 3, 1, 4, 1] (length [1, 2, 3, 1, 4, 1::int]) 3 =
     Some (policy_faults (fifo_step 3) [1, 2, 3, 1, 4, 1] [])"
  by (rule fifo_is_queue) (simp_all add: INT_MAX_def)

text \<open>C11: LRU computes the faults of the list of pages in order of last use, cut to the number of frames;
  more frames never give more faults.\<close>
theorem lru_is_recency_list:
  assumes "0 < c1" and "c1 \<le> c2" and "int (length pages) \<le> INT_MAX"
  shows "\<exists>k1 k2. LRUPageReplacement pages (length pages) c1 = Some k1 \<and>
    LRUPageReplacement pages (length pages) c2 = Some k2 \<and> k2 \<le> k1 \<and>
    k1 = policy_faults (lru_step c1) pages [] \<and> k2 = policy_faults (lru_step c2) pages []"
proof -
  have "policy_faults (lru_step c2) pages [] \<le> policy_faults (lru_step c1) pages []"
    using lru_faults_mono [OF assms(1,2), of "[]" pages] by simp
  moreover have "0 < c2" using assms(1,2) by simp
  ultimately show ?thesis
    using LRU_refines [OF order_refl assms(3) assms(1)] LRU_refines [OF order_refl assms(3) \<open>0 < c2\<close>] by (simp only: take_all_iff le_refl take_all option.inject) blast
qed

theorem lru_is_recency_list_witness:
  "\<exists>k1 k2. LRUPageReplacement [1, 2, 3, 4, 1, 2, 5, 1, 2, 3, 4, 5] (length [1, 2, 3, 4, 1, 2, 5, 1, 2, 3, 4, 5::int]) 3 = Some k1 \<and>
    LRUPageReplacement [1, 2, 3, 4, 1, 2, 5, 1, 2, 3, 4, 5] (length [1, 2, 3, 4, 1, 2, 5, 1, 2, 3, 4, 5::int]) 4 = Some k2 \<and> k2 \<le> k1 \<and>
    k1 = policy_faults (lru_step 3) [1, 2, 3, 4, 1, 2, 5, 1, 2, 3, 4, 5] [] \<and>
    k2 = policy_faults (lru_step 4) [1, 2, 3, 4, 1, 2, 5, 1, 2, 3, 4, 5] []"
  by (rule lru_is_recency_list) (simp_all add: INT_MAX_def)

text \<open>FIFO has no such property: with four frames this string faults more often than with three.\<close>

lemma fifo_anomaly:
  "FIFOPageReplacement [1, 2, 3, 4, 1, 2, 5, 1, 2, 3, 4, 5] 12 3 = Some 9"
  "FIFOPageReplacement [1, 2, 3, 4, 1, 2, 5, 1, 2, 3, 4, 5] 12 4 = Some 10"
  by code_simp+

text \<open>C12: Belady's theorem for the code: the optimal policy returns a number of faults that no policy paging
  on demand with the same frames can beat, whatever pages it chooses to drop; in particular it
  never faults more often than FIFO or LRU.\<close>
theorem optimal_is_optimal:
  assumes "0 < capacity" and "int (length pages) \<le> INT_MAX"
  shows "\<exists>k f l. optimalPageReplacement pages (length pages) capacity = Some k \<and>
    serves capacity pages {} k \<and> (\<forall>m. serves capacity pages {} m \<longrightarrow> k \<le> m) \<and>
    FIFOPageReplacement pages (length pages) capacity = Some f \<and> k \<le> f \<and>
    LRUPageReplacement pages (length pages) capacity = Some l \<and> k \<le> l"
proof -
  let ?c = "\<lparr>wl_pages = pages, wl_frames = capacity\<rparr>" and ?n = "length pages"
  note ok = workload_ok [OF assms]
  from opt.run_serves [OF ok] obtain s k where
    k: "replay (opt_access pages ?n capacity) ?n (replicate capacity (- 1), 0) = Some (s, k)"
      "serves capacity pages {} k" by auto
  have best: "k \<le> m" if "serves capacity pages {} m" for m
    using opt_rest [OF ok, of 0 "(replicate capacity (- 1), 0)" m 0] that k(1)
    by (simp add: opt.inv_init [OF ok, simplified] replay_from_0 opt_res_def)
  from fifo.run_serves [OF ok] obtain sf f where f: "FIFOPageReplacement pages ?n capacity = Some f"
    "serves capacity pages {} f" by (auto simp: FIFOPageReplacement_def)
  from lru.run_serves [OF ok] obtain l where l: "LRUPageReplacement pages ?n capacity = Some l"
    "serves capacity pages {} l" by (auto simp: LRUPageReplacement_def)
  show ?thesis using k best f l by (intro exI [of _ k] exI [of _ f] exI [of _ l]) (simp add: optimalPageReplacement_def)
qed

theorem optimal_is_optimal_witness:
  "\<exists>k f l. optimalPageReplacement [7, 0, 1, 2, 0, 3, 0, 4] (length [7, 0, 1, 2, 0, 3, 0, 4::int]) 3 = Some k \<and>
    serves 3 [7, 0, 1, 2, 0, 3, 0, 4] {} k \<and> (\<forall>m. serves 3 [7, 0, 1, 2, 0, 3, 0, 4] {} m \<longrightarrow> k \<le> m) \<and>
    FIFOPageReplacement [7, 0, 1, 2, 0, 3, 0, 4] (length [7, 0, 1, 2, 0, 3, 0, 4::int]) 3 = Some f \<and> k \<le> f \<and>
    LRUPageReplacement [7, 0, 1, 2, 0, 3, 0, 4] (length [7, 0, 1, 2, 0, 3, 0, 4::int]) 3 = Some l \<and> k \<le> l"
  by (rule optimal_is_optimal) (simp_all add: INT_MAX_def)

subsection \<open>The demo of d20\<close>

definition demo_pages :: "int list" where
  "demo_pages = [7, 0, 1, 2, 0, 3, 0, 4, 2, 3, 0, 3, 2]"

definition demo_capacity :: nat where "demo_capacity = 256"

definition page_replacement_main :: "(nat \<times> nat \<times> nat) option" where
  "page_replacement_main = do {
     f \<leftarrow> FIFOPageReplacement demo_pages (length demo_pages) demo_capacity;
     l \<leftarrow> LRUPageReplacement demo_pages (length demo_pages) demo_capacity;
     k \<leftarrow> optimalPageReplacement demo_pages (length demo_pages) demo_capacity;
     Some (f, l, k) }"

text \<open>With 256 frames nothing is ever replaced, so the demo does not tell the three policies apart.\<close>

lemma page_replacement_main_result: "page_replacement_main = Some (6, 6, 6)"
proof -
  have ok: "wl_ok \<lparr>wl_pages = demo_pages, wl_frames = demo_capacity\<rparr>"
    by (intro workload_ok) (simp_all add: demo_capacity_def demo_pages_def INT_MAX_def)
  have "set demo_pages = {7, 0, 1, 2, 3, 4}" by (auto simp: demo_pages_def)
  then have c: "card (set demo_pages) = 6" by simp
  have fits: "card (set demo_pages) \<le> demo_capacity" by (simp add: c demo_capacity_def)
  have "FIFOPageReplacement demo_pages (length demo_pages) demo_capacity = Some 6"
    using fifo.replay_bounds [OF ok, of "length demo_pages"] fits by (auto simp: FIFOPageReplacement_def c)
  moreover have "LRUPageReplacement demo_pages (length demo_pages) demo_capacity = Some 6"
    using lru.replay_bounds [OF ok, of "length demo_pages"] fits by (auto simp: LRUPageReplacement_def c)
  moreover have "optimalPageReplacement demo_pages (length demo_pages) demo_capacity = Some 6"
    using opt.replay_bounds [OF ok, of "length demo_pages"] fits by (auto simp: optimalPageReplacement_def c)
  ultimately show ?thesis by (simp add: page_replacement_main_def)
qed

end
