(* ===== verification/Scheduling.thy ===== *)
theory Scheduling
  imports OS_Prelude
begin

section \<open>Process states and CPU scheduling: d2, d4, d5\<close>

text \<open>
  The process states of d2, first-come-first-served of d4, and the three schedulers of d5. The
  preemptive ones (shortest job, priority) execute one time unit per iteration; the interface
  \<open>preemptive\<close> states what an iteration does to the clock and to the remaining times, and the
  loop's termination is proved once from it. What round robin computes is in Round\_Robin\_Turns. The averages the programs print are \<open>float\<close>
  values computed for output only and are left out; the tables they print are in Printed\_Statistics.
\<close>

subsection \<open>Process states (process_state.c)\<close>

datatype ProcessState = NEW | READY | RUNNING | WAITING | TERMINATED

record PCB =
  pcb_pid :: int
  pcb_state :: ProcessState
  pcb_priority :: int

definition transition_state :: "PCB \<Rightarrow> ProcessState \<Rightarrow> PCB" where
  "transition_state process new_state = process\<lparr>pcb_state := new_state\<rparr>"

text \<open>\<open>main\<close>: the states the two processes go through, in order, and the exit code. \<open>memory\<close> says
  whether \<open>malloc\<close> gives the second one its control block.\<close>

definition ps_main :: "int \<Rightarrow> bool \<Rightarrow> PCB list \<times> PCB list \<times> int" where
  "ps_main pid memory = (let
     process = \<lparr>pcb_pid = pid, pcb_state = NEW, pcb_priority = 5\<rparr>;
     p1 = transition_state process READY;
     p2 = transition_state p1 RUNNING;
     p3 = transition_state p2 WAITING;
     p4 = transition_state p3 READY;
     p5 = transition_state p4 TERMINATED
   in if \<not> memory then ([process, p1, p2, p3, p4, p5], [], 1)
      else let
        processPtr = \<lparr>pcb_pid = pid, pcb_state = NEW, pcb_priority = 5\<rparr>;
        q1 = transition_state processPtr READY;
        q2 = transition_state q1 RUNNING;
        q3 = transition_state q2 READY;
        q4 = transition_state q3 TERMINATED
      in ([process, p1, p2, p3, p4, p5], [processPtr, q1, q2, q3, q4], 0))"

subsection \<open>First come, first served (fcfs_scheduling.c)\<close>

record process =
  process_id :: int
  arrival_time :: int
  burst_time :: int
  waiting_time :: int
  turnaround_time :: int

definition fcfs_scheduling :: "process list \<Rightarrow> nat \<Rightarrow> (process list \<times> int \<times> int) option" where
  "fcfs_scheduling processes n = do {
     p0 \<leftarrow> rd processes 0;
     ps \<leftarrow> wr processes 0 (p0\<lparr>waiting_time := 0, turnaround_time := burst_time p0\<rparr>);
     ps \<leftarrow> for_loop 1 n (\<lambda>i ps. do {
       prev \<leftarrow> rd ps (i - 1);
       p \<leftarrow> rd ps i;
       w \<leftarrow> chk (waiting_time prev + burst_time prev);
       t \<leftarrow> chk (w + burst_time p);
       wr ps i (p\<lparr>waiting_time := w, turnaround_time := t\<rparr>) }) ps;
     (total_waiting_time, total_turnaround_time) \<leftarrow> for_loop 0 n (\<lambda>i (tw, tt). do {
       p \<leftarrow> rd ps i;
       tw \<leftarrow> chk (tw + waiting_time p);
       tt \<leftarrow> chk (tt + turnaround_time p);
       Some (tw, tt) }) (0, 0);
     Some (ps, total_waiting_time, total_turnaround_time) }"

text \<open>The waiting time of process \<open>i\<close> is what the processes before it need.\<close>

definition fcfs_wait :: "process list \<Rightarrow> nat \<Rightarrow> int" where
  "fcfs_wait ps i = sum_list (map burst_time (take i ps))"

definition fcfs_row :: "process list \<Rightarrow> nat \<Rightarrow> process" where
  "fcfs_row ps i = (ps ! i)\<lparr>waiting_time := fcfs_wait ps i, turnaround_time := fcfs_wait ps (Suc i)\<rparr>"

lemma fcfs_wait_Suc: "i < length ps \<Longrightarrow> fcfs_wait ps (Suc i) = fcfs_wait ps i + burst_time (ps ! i)"
  by (simp add: fcfs_wait_def take_Suc_conv_app_nth)

lemma fcfs_wait_bounds:
  assumes "\<forall>p \<in> set ps. 0 \<le> burst_time p" and "i \<le> length ps"
  shows "0 \<le> fcfs_wait ps i \<and> fcfs_wait ps i \<le> sum_list (map burst_time ps)"
proof -
  have nn: "0 \<le> sum_list (map burst_time qs)" if "set qs \<subseteq> set ps" for qs
    using that assms(1) by (intro sum_list_nonneg) auto
  have "sum_list (map burst_time ps) =
      sum_list (map burst_time (take i ps)) + sum_list (map burst_time (drop i ps))"
    by (metis append_take_drop_id map_append sum_list_append)
  with nn [of "take i ps"] nn [of "drop i ps"] show ?thesis
    by (simp add: fcfs_wait_def set_take_subset set_drop_subset)
qed

lemma fcfs_fill:
  assumes "1 \<le> n" and "n \<le> length ps" and "\<forall>p \<in> set ps. 0 \<le> burst_time p"
    and "sum_list (map burst_time ps) \<le> INT_MAX"
  shows "for_loop 1 n (\<lambda>i ps. do {
       prev \<leftarrow> rd ps (i - 1);
       p \<leftarrow> rd ps i;
       w \<leftarrow> chk (waiting_time prev + burst_time prev);
       t \<leftarrow> chk (w + burst_time p);
       wr ps i (p\<lparr>waiting_time := w, turnaround_time := t\<rparr>) }) (ps[0 := fcfs_row ps 0]) =
     Some (map (fcfs_row ps) [0..<n] @ drop n ps)"
  using assms(1,2)
proof (induction n)
  case (Suc n)
  show ?case
  proof (cases "n = 0")
    case True
    with Suc.prems show ?thesis
      by (cases ps) (simp_all add: fcfs_row_def)
  next
    case False
    let ?w = "fcfs_wait ps n" and ?xs = "map (fcfs_row ps) [0..<n] @ drop n ps"
    have n: "n < length ps" using Suc.prems by simp
    have prev: "waiting_time (fcfs_row ps (n - 1)) + burst_time (fcfs_row ps (n - 1)) = ?w"
      using fcfs_wait_Suc [of "n - 1" ps] False n by (simp add: fcfs_row_def)
    have bnd: "int_ok ?w" "int_ok (fcfs_wait ps (Suc n))"
      using fcfs_wait_bounds [OF assms(3), of n] fcfs_wait_bounds [OF assms(3), of "Suc n"] n assms(4)
      by (auto simp: int_ok_def INT_MIN_def)
    have rows: "rd ?xs (n - 1) = Some (fcfs_row ps (n - 1))" "rd ?xs n = Some (ps ! n)"
      using False n by (simp_all add: nth_append)
    have "?xs[n := fcfs_row ps n] = map (fcfs_row ps) [0..<Suc n] @ drop (Suc n) ps"
      using n by (simp add: list_update_append Cons_nth_drop_Suc [symmetric])
    then show ?thesis
      using Suc.IH False n rows prev bnd fcfs_wait_Suc [OF n]
      by (simp add: for_loop_Suc Suc.prems) (simp add: fcfs_row_def)
  qed
qed simp

lemma fcfs_totals:
  assumes "n \<le> length qs" and "\<forall>p \<in> set qs. 0 \<le> waiting_time p \<and> waiting_time p \<le> b"
    and "\<forall>p \<in> set qs. 0 \<le> turnaround_time p \<and> turnaround_time p \<le> b" and "int n * b \<le> INT_MAX"
  shows "for_loop 0 n (\<lambda>i (tw, tt). do {
       p \<leftarrow> rd qs i; tw \<leftarrow> chk (tw + waiting_time p); tt \<leftarrow> chk (tt + turnaround_time p); Some (tw, tt) }) (0, 0) =
     Some (sum_list (map waiting_time (take n qs)), sum_list (map turnaround_time (take n qs)))"
proof -
  let ?sw = "\<lambda>k. sum_list (map waiting_time (take k qs))" and ?st = "\<lambda>k. sum_list (map turnaround_time (take k qs))"
  have "\<exists>s. for_loop 0 n (\<lambda>i (tw, tt). do {
       p \<leftarrow> rd qs i; tw \<leftarrow> chk (tw + waiting_time p); tt \<leftarrow> chk (tt + turnaround_time p); Some (tw, tt) }) (0, 0) = Some s \<and>
     s = (?sw n, ?st n) \<and> 0 \<le> ?sw n \<and> ?sw n \<le> int n * b \<and> 0 \<le> ?st n \<and> ?st n \<le> int n * b"
  proof (rule for_loop_invar)
    fix k s
    assume k: "0 \<le> k" "k < n" and P: "s = (?sw k, ?st k) \<and> 0 \<le> ?sw k \<and> ?sw k \<le> int k * b \<and> 0 \<le> ?st k \<and> ?st k \<le> int k * b"
    have kq: "k < length qs" "qs ! k \<in> set qs" using k assms(1) by auto
    have w: "0 \<le> waiting_time (qs ! k)" "waiting_time (qs ! k) \<le> b" and
      t: "0 \<le> turnaround_time (qs ! k)" "turnaround_time (qs ! k) \<le> b" using assms(2,3) kq(2) by auto
    have Sk: "?sw (Suc k) = ?sw k + waiting_time (qs ! k)" "?st (Suc k) = ?st k + turnaround_time (qs ! k)"
      using kq by (simp_all add: take_Suc_conv_app_nth)
    have le: "?sw (Suc k) \<le> int (Suc k) * b" "?st (Suc k) \<le> int (Suc k) * b"
      using P Sk w t by (simp_all add: algebra_simps)
    have "int (Suc k) * b \<le> int n * b" using k w by (intro mult_right_mono) auto
    then have ok: "int_ok (?sw k + waiting_time (qs ! k))" "int_ok (?st k + turnaround_time (qs ! k))"
      using le assms(4) P w t Sk by (auto simp: int_ok_def INT_MIN_def)
    show "\<exists>s'. (case s of (tw, tt) \<Rightarrow> do {
       p \<leftarrow> rd qs k; tw \<leftarrow> chk (tw + waiting_time p); tt \<leftarrow> chk (tt + turnaround_time p); Some (tw, tt) }) = Some s' \<and>
       s' = (?sw (Suc k), ?st (Suc k)) \<and> 0 \<le> ?sw (Suc k) \<and> ?sw (Suc k) \<le> int (Suc k) * b \<and>
       0 \<le> ?st (Suc k) \<and> ?st (Suc k) \<le> int (Suc k) * b"
      using P kq ok le w t Sk by simp
  qed simp_all
  then show ?thesis by blast
qed

subsection \<open>One time unit at a time\<close>

text \<open>
  The scan of SJF and priority scheduling: among the eligible indices (\<open>e\<close>) with a key below the
  current minimum, the first one with the least key.
\<close>

lemma for_loop_pick:
  assumes body: "\<And>i b m. i < n \<Longrightarrow> body i (b, m) = Some (if e i \<and> k i < m then (int i, k i) else (b, m))"
  shows "\<exists>b m. for_loop 0 n body (- 1, INT_MAX) = Some (b, m) \<and>
    (b = - 1 \<and> (\<forall>i < n. e i \<longrightarrow> INT_MAX \<le> k i) \<or>
     (\<exists>v < n. b = int v \<and> e v \<and> (\<forall>i < n. e i \<longrightarrow> k v \<le> k i)))"
proof -
  define P where "P j = (\<lambda>(b, m). (\<forall>i < j. e i \<longrightarrow> m \<le> k i) \<and>
     (b = (- 1 :: int) \<and> m = INT_MAX \<or> (\<exists>v < j. b = int v \<and> e v \<and> m = k v)))" for j
  have "\<exists>s. for_loop 0 n body (- 1, INT_MAX) = Some s \<and> P n s"
  proof (rule for_loop_invar)
    fix i s assume i: "0 \<le> i" "i < n" and P: "P i s"
    obtain b m where s: "s = (b, m)" by (cases s)
    have "P (Suc i) (if e i \<and> k i < m then (int i, k i) else (b, m))"
    proof (cases "e i \<and> k i < m")
      case True
      with P s show ?thesis by (auto simp: P_def less_Suc_eq)
    next
      case False
      with P s show ?thesis by (fastforce simp: P_def less_Suc_eq)
    qed
    with body i s show "\<exists>s'. body i s = Some s' \<and> P (Suc i) s'" by simp
  qed (simp_all add: P_def)
  then show ?thesis by (auto simp: P_def)
qed

text \<open>
  A workload: arrival times, all between 0 and \<open>horizon\<close>, and positive bursts, with room on the
  clock for all of them. \<open>pending\<close> bounds the iterations still to come.
\<close>

record jobs =
  jb_arrival :: "int list"
  jb_burst :: "int list"
  jb_horizon :: int

definition jobs_ok :: "jobs \<Rightarrow> bool" where
  "jobs_ok c \<longleftrightarrow> length (jb_arrival c) = length (jb_burst c) \<and> 0 \<le> jb_horizon c \<and>
     (\<forall>a \<in> set (jb_arrival c). 0 \<le> a \<and> a \<le> jb_horizon c) \<and> (\<forall>b \<in> set (jb_burst c). 0 < b) \<and>
     jb_horizon c + sum_list (jb_burst c) < INT_MAX"

definition pending :: "jobs \<Rightarrow> int \<Rightarrow> int list \<Rightarrow> int" where
  "pending c t rem = sum_list rem + max 0 (jb_horizon c - t)"

definition waiting_to_run :: "jobs \<Rightarrow> int \<Rightarrow> int list \<Rightarrow> nat \<Rightarrow> bool" where
  "waiting_to_run c t rem i \<longleftrightarrow> i < length (jb_burst c) \<and> jb_arrival c ! i \<le> t \<and> 0 < rem ! i"

text \<open>What every reachable remaining-time array satisfies.\<close>

definition progress_ok :: "jobs \<Rightarrow> int \<Rightarrow> int list \<Rightarrow> bool" where
  "progress_ok c t rem \<longleftrightarrow> length rem = length (jb_burst c) \<and> 0 \<le> t \<and>
     (\<forall>i < length (jb_burst c). 0 \<le> rem ! i \<and> rem ! i \<le> jb_burst c ! i \<and>
        jb_burst c ! i - rem ! i \<le> max 0 (t - jb_arrival c ! i)) \<and>
     t + pending c t rem \<le> jb_horizon c + sum_list (jb_burst c)"

definition all_done :: "int list \<Rightarrow> bool" where
  "all_done rem \<longleftrightarrow> (\<forall>r \<in> set rem. r = 0)"

lemma progress_start:
  assumes "jobs_ok c"
  shows "progress_ok c 0 (jb_burst c)"
  using assms unfolding progress_ok_def jobs_ok_def pending_def by (auto simp: less_imp_le)

lemma sum_list_dec: "i < length rem \<Longrightarrow> sum_list (rem[i := rem ! i - 1]) = sum_list rem - (1::int)"
proof (induction rem arbitrary: i)
  case (Cons r rem)
  then show ?case by (cases i) auto
qed simp

lemma progress_run:
  assumes "progress_ok c t rem" and "waiting_to_run c t rem i"
  shows "progress_ok c (t + 1) (rem[i := rem ! i - 1])"
    and "pending c (t + 1) (rem[i := rem ! i - 1]) < pending c t rem"
proof -
  have i: "i < length rem" using assms by (simp add: progress_ok_def waiting_to_run_def)
  have "pending c (t + 1) (rem[i := rem ! i - 1]) \<le> pending c t rem - 1"
    using sum_list_dec [OF i] by (simp add: pending_def)
  then show "pending c (t + 1) (rem[i := rem ! i - 1]) < pending c t rem" by simp
  show "progress_ok c (t + 1) (rem[i := rem ! i - 1])"
    using assms \<open>pending c (t + 1) (rem[i := rem ! i - 1]) \<le> pending c t rem - 1\<close> i
    by (auto simp: progress_ok_def waiting_to_run_def nth_list_update)
qed

text \<open>While some job is unfinished and none is ready, an arrival is still ahead.\<close>

lemma progress_idle:
  assumes ok: "jobs_ok c" and inv: "progress_ok c t rem" and "\<forall>i. \<not> waiting_to_run c t rem i" and "\<not> all_done rem"
  shows "progress_ok c (t + 1) rem" and "pending c (t + 1) rem < pending c t rem"
proof -
  from assms(4) obtain i where i: "i < length rem" "rem ! i \<noteq> 0" by (auto simp: all_done_def in_set_conv_nth)
  have len: "length rem = length (jb_burst c)" "length (jb_arrival c) = length (jb_burst c)"
    using inv ok by (simp_all add: progress_ok_def jobs_ok_def)
  have "0 \<le> rem ! i" using inv i(1) len(1) by (simp add: progress_ok_def)
  with i(2) have "0 < rem ! i" by simp
  moreover have "\<not> waiting_to_run c t rem i" using assms(3) by simp
  ultimately have "t < jb_arrival c ! i" using i(1) len(1) by (simp add: waiting_to_run_def)
  have "i < length (jb_arrival c)" using i(1) len by simp
  then have "jb_arrival c ! i \<le> jb_horizon c" using ok by (simp add: jobs_ok_def)
  with \<open>t < jb_arrival c ! i\<close> have t: "t < jb_horizon c" by simp
  then show "pending c (t + 1) rem < pending c t rem" by (simp add: pending_def)
  have "t + 1 + pending c (t + 1) rem \<le> t + pending c t rem" using t by (simp add: pending_def)
  then have "t + 1 + pending c (t + 1) rem \<le> jb_horizon c + sum_list (jb_burst c)"
    using inv by (simp add: progress_ok_def)
  moreover have "jb_burst c ! i - rem ! i \<le> max 0 (t + 1 - jb_arrival c ! i)" if "i < length (jb_burst c)" for i
    using inv that by (fastforce simp: progress_ok_def)
  ultimately show "progress_ok c (t + 1) rem" using inv by (simp add: progress_ok_def)
qed

lemma pending_pos:
  assumes "progress_ok c t rem" and "\<not> all_done rem"
  shows "0 < pending c t rem"
proof -
  from assms(2) obtain i where i: "i < length rem" "rem ! i \<noteq> 0" by (auto simp: all_done_def in_set_conv_nth)
  have nn: "\<forall>r \<in> set rem. 0 \<le> r" using assms(1) by (auto simp: progress_ok_def in_set_conv_nth)
  with i have "0 < rem ! i" by (metis nth_mem order_less_le)
  also have "rem ! i \<le> sum_list rem" using member_le_sum_list [of "rem ! i" rem] nn i by simp
  finally show ?thesis by (simp add: pending_def)
qed

lemma pending_nonneg:
  assumes "progress_ok c t rem"
  shows "0 \<le> pending c t rem"
  using assms by (auto simp: pending_def progress_ok_def in_set_conv_nth intro!: add_nonneg_nonneg sum_list_nonneg)

text \<open>
  The interface of a scheduler: its clock \<open>time\<close>, the remaining times \<open>rem\<close>, one iteration \<open>step\<close>
  and the \<open>while\<close> loop around it. An iteration takes one time unit; it runs one ready job, or
  idles when none is ready.
\<close>

locale preemptive =
  fixes step :: "jobs \<Rightarrow> 's \<Rightarrow> 's option"
    and loop :: "jobs \<Rightarrow> 's \<Rightarrow> 's option"
    and time :: "'s \<Rightarrow> int"
    and rem :: "jobs \<Rightarrow> 's \<Rightarrow> int list"
    and inv :: "jobs \<Rightarrow> 's \<Rightarrow> bool"
  assumes loop_done: "\<lbrakk>inv c s; all_done (rem c s)\<rbrakk> \<Longrightarrow> loop c s = Some s"
    and loop_more: "\<lbrakk>inv c s; \<not> all_done (rem c s); step c s = Some s'\<rbrakk> \<Longrightarrow> loop c s = loop c s'"
    and step_ok: "\<lbrakk>jobs_ok c; inv c s; progress_ok c (time s) (rem c s); \<not> all_done (rem c s)\<rbrakk> \<Longrightarrow>
      \<exists>s'. step c s = Some s' \<and> inv c s' \<and> time s' = time s + 1 \<and>
        ((\<forall>i. \<not> waiting_to_run c (time s) (rem c s) i) \<and> rem c s' = rem c s \<or>
         (\<exists>i. waiting_to_run c (time s) (rem c s) i \<and> rem c s' = (rem c s)[i := rem c s ! i - 1]))"
begin

lemma terminates:
  assumes ok: "jobs_ok c"
  shows "\<lbrakk>inv c s; progress_ok c (time s) (rem c s)\<rbrakk> \<Longrightarrow>
    \<exists>s'. loop c s = Some s' \<and> inv c s' \<and> progress_ok c (time s') (rem c s') \<and> all_done (rem c s')"
proof (induction "nat (pending c (time s) (rem c s))" arbitrary: s rule: less_induct)
  case less
  show ?case
  proof (cases "all_done (rem c s)")
    case True
    with less.prems loop_done show ?thesis by blast
  next
    case False
    from step_ok [OF ok less.prems False] obtain s' where s': "step c s = Some s'" "inv c s'" "time s' = time s + 1"
      "(\<forall>i. \<not> waiting_to_run c (time s) (rem c s) i) \<and> rem c s' = rem c s \<or>
       (\<exists>i. waiting_to_run c (time s) (rem c s) i \<and> rem c s' = (rem c s)[i := rem c s ! i - 1])" by blast
    have next_ok: "progress_ok c (time s') (rem c s')"
      and dec: "pending c (time s') (rem c s') < pending c (time s) (rem c s)"
      using s'(3,4) progress_idle [OF ok less.prems(2) _ False] progress_run [OF less.prems(2)] by auto
    have "nat (pending c (time s') (rem c s')) < nat (pending c (time s) (rem c s))"
      using dec pending_nonneg [OF next_ok] by simp
    from less.hyps [OF this s'(2) next_ok] loop_more [OF less.prems(1) False s'(1)] show ?thesis by simp
  qed
qed

end

subsection \<open>Shortest job first (sjf_scheduling.c)\<close>

definition SCHED_MAX_PROCESSES :: nat where
  "SCHED_MAX_PROCESSES = 100"

text \<open>The locals of \<open>sjf_scheduling\<close>.\<close>

record sjf_state =
  sj_current_time :: int
  sj_completed :: int
  sj_remaining_time :: "int list"
  sj_processes :: "process list"

definition sjf_pick :: "process list \<Rightarrow> int list \<Rightarrow> nat \<Rightarrow> int \<Rightarrow> (int \<times> int) option" where
  "sjf_pick processes remaining_time n current_time =
     for_loop 0 n (\<lambda>i (shortest_job, shortest_time). do {
       p \<leftarrow> rd processes i;
       r \<leftarrow> rd remaining_time i;
       Some (if arrival_time p \<le> current_time \<and> r < shortest_time \<and> r > 0 then (int i, r)
             else (shortest_job, shortest_time)) }) (- 1, INT_MAX)"

definition sjf_complete :: "int \<Rightarrow> process \<Rightarrow> process option" where
  "sjf_complete finish_time p = do {
     w \<leftarrow> chk (finish_time - burst_time p);
     w \<leftarrow> chk (w - arrival_time p);
     t \<leftarrow> chk (finish_time - arrival_time p);
     Some (p\<lparr>waiting_time := w, turnaround_time := t\<rparr>) }"

definition sjf_step :: "nat \<Rightarrow> sjf_state \<Rightarrow> sjf_state option" where
  "sjf_step n s = do {
     (shortest_job, shortest_time) \<leftarrow> sjf_pick (sj_processes s) (sj_remaining_time s) n (sj_current_time s);
     next_time \<leftarrow> chk (sj_current_time s + 1);
     if shortest_job = - 1 then Some (s\<lparr>sj_current_time := next_time\<rparr>)
     else do {
       r \<leftarrow> rdi (sj_remaining_time s) shortest_job;
       r' \<leftarrow> chk (r - 1);
       rem \<leftarrow> wri (sj_remaining_time s) shortest_job r';
       s' \<leftarrow> (if r' = 0 then do {
            p \<leftarrow> rdi (sj_processes s) shortest_job;
            p' \<leftarrow> sjf_complete next_time p;
            ps \<leftarrow> wri (sj_processes s) shortest_job p';
            Some (s\<lparr>sj_remaining_time := rem, sj_completed := sj_completed s + 1, sj_processes := ps\<rparr>) }
          else Some (s\<lparr>sj_remaining_time := rem\<rparr>));
       Some (s'\<lparr>sj_current_time := next_time\<rparr>) } }"

partial_function (option) sjf_loop :: "nat \<Rightarrow> sjf_state \<Rightarrow> sjf_state option" where
  "sjf_loop n s =
     (if sj_completed s \<noteq> int n then do { s' \<leftarrow> sjf_step n s; sjf_loop n s' } else Some s)"

declare sjf_loop.simps [code]

definition sjf_scheduling :: "process list \<Rightarrow> nat \<Rightarrow> process list option" where
  "sjf_scheduling processes n = do {
     rem \<leftarrow> for_loop 0 n (\<lambda>i rem. do { p \<leftarrow> rd processes i; wr rem i (burst_time p) })
        (replicate SCHED_MAX_PROCESSES 0);
     s \<leftarrow> sjf_loop n \<lparr>sj_current_time = 0, sj_completed = 0, sj_remaining_time = rem, sj_processes = processes\<rparr>;
     Some (sj_processes s) }"

lemma sjf_pick_spec:
  fixes t :: int
  assumes "n \<le> length ps" and "n \<le> length rem"
  defines "e \<equiv> \<lambda>i. arrival_time (ps ! i) \<le> t \<and> 0 < rem ! i"
  shows "\<exists>b m. sjf_pick ps rem n t = Some (b, m) \<and>
    (b = - 1 \<and> (\<forall>i < n. e i \<longrightarrow> INT_MAX \<le> rem ! i) \<or>
     (\<exists>v < n. b = int v \<and> e v \<and> (\<forall>i < n. e i \<longrightarrow> rem ! v \<le> rem ! i)))"
  unfolding sjf_pick_def using assms(1,2) by (intro for_loop_pick) (auto simp: e_def)

definition sj_rem :: "jobs \<Rightarrow> sjf_state \<Rightarrow> int list" where
  "sj_rem c s = take (length (jb_burst c)) (sj_remaining_time s)"

text \<open>A finished job: it waited a nonnegative time, and ran for its burst.\<close>

definition job_done :: "jobs \<Rightarrow> int \<Rightarrow> nat \<Rightarrow> process \<Rightarrow> bool" where
  "job_done c t i p \<longleftrightarrow> 0 \<le> waiting_time p \<and> turnaround_time p = waiting_time p + jb_burst c ! i \<and>
     jb_arrival c ! i + turnaround_time p \<le> t"

definition sjf_inv :: "jobs \<Rightarrow> sjf_state \<Rightarrow> bool" where
  "sjf_inv c s \<longleftrightarrow> length (jb_burst c) \<le> SCHED_MAX_PROCESSES \<and>
     length (sj_remaining_time s) = SCHED_MAX_PROCESSES \<and> length (sj_processes s) = length (jb_burst c) \<and>
     sj_completed s = int (count_if (\<lambda>r. r = 0) (sj_rem c s)) \<and>
     (\<forall>i < length (jb_burst c). arrival_time (sj_processes s ! i) = jb_arrival c ! i \<and>
        burst_time (sj_processes s ! i) = jb_burst c ! i \<and>
        (sj_remaining_time s ! i = 0 \<longrightarrow> job_done c (sj_current_time s) i (sj_processes s ! i)))"

lemma count_zero_update:
  fixes rem :: "int list"
  assumes "i < length rem" and "0 < rem ! i"
  shows "int (count_if (\<lambda>r. r = 0) (rem[i := rem ! i - 1])) =
     int (count_if (\<lambda>r. r = 0) rem) + (if rem ! i = 1 then 1 else (0 :: int))"
  using count_if_update [OF assms(1), of "\<lambda>r. r = 0" "rem ! i - 1"] assms(2) by (cases "rem ! i = 1") auto

lemma all_done_count: "all_done rem \<longleftrightarrow> count_if (\<lambda>r. r = 0) rem = length rem"
  by (simp add: all_done_def count_if_full)

lemma rem_below_max:
  assumes "jobs_ok c" and "progress_ok c t rem" and "i < length (jb_burst c)"
  shows "rem ! i < INT_MAX" and "t < INT_MAX"
proof -
  have nn: "\<forall>b \<in> set (jb_burst c). 0 \<le> b" using assms(1) by (auto simp: jobs_ok_def)
  have "rem ! i \<le> jb_burst c ! i" using assms(2,3) by (simp add: progress_ok_def)
  also have "\<dots> \<le> sum_list (jb_burst c)" using member_le_sum_list [of "jb_burst c ! i" "jb_burst c"] nn assms(3) by simp
  finally show "rem ! i < INT_MAX" using assms(1) by (simp add: jobs_ok_def)
  show "t < INT_MAX" using assms(1,2) pending_nonneg [OF assms(2)] by (simp add: jobs_ok_def progress_ok_def)
qed

text \<open>The job that reaches remaining time 0 at time \<open>t\<close>.\<close>

lemma finish_bound:
  assumes "jobs_ok c" and "progress_ok c t rem" and "waiting_to_run c t rem i" and "rem ! i = 1"
  shows "jb_burst c ! i \<le> t + 1 - jb_arrival c ! i" and "0 \<le> jb_arrival c ! i" and "0 < jb_burst c ! i"
proof -
  have i: "i < length (jb_burst c)" "jb_arrival c ! i \<le> t" using assms(3) by (simp_all add: waiting_to_run_def)
  then have "jb_burst c ! i - rem ! i \<le> max 0 (t - jb_arrival c ! i)"
    using assms(2) unfolding progress_ok_def by blast
  moreover have "max 0 (t - jb_arrival c ! i) = t - jb_arrival c ! i" using i(2) by simp
  ultimately show "jb_burst c ! i \<le> t + 1 - jb_arrival c ! i" using assms(4) by simp
  show "0 \<le> jb_arrival c ! i" "0 < jb_burst c ! i" using assms(1) i by (simp_all add: jobs_ok_def)
qed

lemma sjf_complete_ok:
  assumes "0 \<le> arrival_time p" and "0 < burst_time p" and "burst_time p \<le> f - arrival_time p" and "f \<le> INT_MAX"
  shows "sjf_complete f p = Some (p\<lparr>waiting_time := f - burst_time p - arrival_time p,
    turnaround_time := f - arrival_time p\<rparr>)"
  using assms by (simp add: sjf_complete_def int_ok_def INT_MIN_def)

lemma sjf_step_ok:
  assumes ok: "jobs_ok c" and inv: "sjf_inv c s" and prog: "progress_ok c (sj_current_time s) (sj_rem c s)"
    and more: "\<not> all_done (sj_rem c s)"
  defines "n \<equiv> length (jb_burst c)" and "t \<equiv> sj_current_time s" and "rem \<equiv> sj_remaining_time s"
  shows "\<exists>s'. sjf_step n s = Some s' \<and> sjf_inv c s' \<and> sj_current_time s' = t + 1 \<and>
     ((\<forall>i. \<not> waiting_to_run c t (sj_rem c s) i) \<and> sj_rem c s' = sj_rem c s \<or>
      (\<exists>i. waiting_to_run c t (sj_rem c s) i \<and> sj_rem c s' = (sj_rem c s)[i := sj_rem c s ! i - 1]))"
proof -
  have iv: "n \<le> length rem" "length (sj_processes s) = n" "length rem = SCHED_MAX_PROCESSES" "n \<le> SCHED_MAX_PROCESSES"
    "sj_completed s = int (count_if (\<lambda>r. r = 0) (sj_rem c s))"
    and pr: "\<And>i. i < n \<Longrightarrow> arrival_time (sj_processes s ! i) = jb_arrival c ! i \<and>
        burst_time (sj_processes s ! i) = jb_burst c ! i \<and>
        (rem ! i = 0 \<longrightarrow> job_done c t i (sj_processes s ! i))"
    using inv by (auto simp: sjf_inv_def n_def rem_def t_def)
  have "0 < n" using more prog by (auto simp: all_done_def progress_ok_def n_def)
  have nth: "sj_rem c s ! i = rem ! i" if "i < n" for i using that iv by (simp add: sj_rem_def n_def rem_def)
  have below: "rem ! i < INT_MAX" if "i < n" for i
    using rem_below_max(1) [OF ok prog] that nth by (simp add: n_def)
  have t: "t < INT_MAX" "0 \<le> t" using rem_below_max(2) [OF ok prog] \<open>0 < n\<close> prog by (auto simp: n_def t_def progress_ok_def)
  then have t1: "chk (t + 1) = Some (t + 1)" by (simp add: chk_def int_ok_def INT_MIN_def)
  have run_iff: "waiting_to_run c t (sj_rem c s) i \<longleftrightarrow> i < n \<and> arrival_time (sj_processes s ! i) \<le> t \<and> 0 < rem ! i" for i
    using pr nth by (auto simp: waiting_to_run_def n_def)
  from sjf_pick_spec [of n "sj_processes s" rem t] iv obtain b m where
    bm: "sjf_pick (sj_processes s) rem n t = Some (b, m)" and
    pick: "b = - 1 \<and> (\<forall>i < n. arrival_time (sj_processes s ! i) \<le> t \<and> 0 < rem ! i \<longrightarrow> INT_MAX \<le> rem ! i) \<or>
     (\<exists>v < n. b = int v \<and> arrival_time (sj_processes s ! v) \<le> t \<and> 0 < rem ! v)" by auto
  note step = sjf_step_def t_def [symmetric] rem_def [symmetric] bm t1
  from pick show ?thesis
  proof
    assume idle: "b = - 1 \<and> (\<forall>i < n. arrival_time (sj_processes s ! i) \<le> t \<and> 0 < rem ! i \<longrightarrow> INT_MAX \<le> rem ! i)"
    let ?s' = "s\<lparr>sj_current_time := t + 1\<rparr>"
    have "sjf_step n s = Some ?s'" using idle by (simp add: step)
    moreover have "\<forall>i. \<not> waiting_to_run c t (sj_rem c s) i" using idle below run_iff by (metis linorder_not_le)
    moreover have "sj_rem c ?s' = sj_rem c s" by (simp add: sj_rem_def)
    moreover have "sjf_inv c ?s'" using inv by (auto simp: sjf_inv_def sj_rem_def job_done_def t_def)
    ultimately show ?thesis by (intro exI [of _ ?s']) simp
  next
    assume "\<exists>v < n. b = int v \<and> arrival_time (sj_processes s ! v) \<le> t \<and> 0 < rem ! v"
    then obtain v where v: "v < n" "b = int v" "arrival_time (sj_processes s ! v) \<le> t" "0 < rem ! v" by blast
    have run: "waiting_to_run c t (sj_rem c s) v" using v run_iff by simp
    have vr: "v < length rem" "v < length (sj_rem c s)" using v iv by (simp_all add: sj_rem_def n_def rem_def)
    have ok_r: "chk (rem ! v - 1) = Some (rem ! v - 1)"
      using v(4) below [OF v(1)] by (simp add: chk_def int_ok_def INT_MIN_def)
    let ?rem' = "rem[v := rem ! v - 1]"
    have rem': "take n ?rem' = (sj_rem c s)[v := sj_rem c s ! v - 1]"
      using nth [OF v(1)] by (simp add: sj_rem_def take_update_swap n_def rem_def)
    have cnt: "int (count_if (\<lambda>r. r = 0) (take n ?rem')) = sj_completed s + (if rem ! v = 1 then 1 else 0)"
      unfolding rem' using count_zero_update [OF vr(2)] v nth iv(5) by simp
    have keep: "job_done c (t + 1) i (sj_processes s ! i)" if "i < n" "rem ! i = 0" for i
      using pr [OF that(1)] that(2) by (auto simp: job_done_def)
    show ?thesis
    proof (cases "rem ! v = 1")
      case True
      let ?p = "(sj_processes s ! v)\<lparr>waiting_time := t + 1 - jb_burst c ! v - jb_arrival c ! v,
        turnaround_time := t + 1 - jb_arrival c ! v\<rparr>"
      let ?s' = "s\<lparr>sj_remaining_time := ?rem', sj_completed := sj_completed s + 1,
        sj_processes := (sj_processes s)[v := ?p], sj_current_time := t + 1\<rparr>"
      note fb = finish_bound [OF ok prog [folded t_def] run] 
      have fb': "jb_burst c ! v \<le> t + 1 - jb_arrival c ! v" "0 \<le> jb_arrival c ! v" "0 < jb_burst c ! v"
        using fb True nth [OF v(1)] by simp_all
      have "sjf_complete (t + 1) (sj_processes s ! v) = Some ?p"
        using sjf_complete_ok [of "sj_processes s ! v" "t + 1"] fb' pr [OF v(1)] t by simp
      then have "sjf_step n s = Some ?s'" using v vr iv ok_r True by (simp add: step)
      moreover have "sj_rem c ?s' = (sj_rem c s)[v := sj_rem c s ! v - 1]" using rem' by (simp add: sj_rem_def n_def)
      moreover have "sjf_inv c ?s'"
        unfolding sjf_inv_def using iv pr keep v cnt fb' True
        by (auto simp: nth_list_update sj_rem_def n_def [symmetric] job_done_def)
      ultimately show ?thesis using run by (intro exI [of _ ?s']) auto
    next
      case False
      let ?s' = "s\<lparr>sj_remaining_time := ?rem', sj_current_time := t + 1\<rparr>"
      have "sjf_step n s = Some ?s'" using v vr iv ok_r False by (simp add: step)
      moreover have "sj_rem c ?s' = (sj_rem c s)[v := sj_rem c s ! v - 1]" using rem' by (simp add: sj_rem_def n_def)
      moreover have "sjf_inv c ?s'"
        unfolding sjf_inv_def using iv pr keep v cnt False
        by (auto simp: nth_list_update sj_rem_def n_def [symmetric])
      ultimately show ?thesis using run by (intro exI [of _ ?s']) auto
    qed
  qed
qed

interpretation sjf: preemptive "\<lambda>c. sjf_step (length (jb_burst c))" "\<lambda>c. sjf_loop (length (jb_burst c))"
  sj_current_time sj_rem sjf_inv
proof
  fix c :: jobs and s :: sjf_state
  assume inv: "sjf_inv c s"
  have len: "length (sj_rem c s) = length (jb_burst c)" using inv by (simp add: sjf_inv_def sj_rem_def)
  { assume "all_done (sj_rem c s)"
    with inv len show "sjf_loop (length (jb_burst c)) s = Some s"
      by (subst sjf_loop.simps) (simp add: sjf_inv_def all_done_count) }
  { fix s' assume "\<not> all_done (sj_rem c s)" "sjf_step (length (jb_burst c)) s = Some s'"
    with inv len show "sjf_loop (length (jb_burst c)) s = sjf_loop (length (jb_burst c)) s'"
      by (subst sjf_loop.simps) (auto simp: sjf_inv_def all_done_count) }
qed (rule sjf_step_ok)

definition jobs_of :: "'a process_scheme list \<Rightarrow> int \<Rightarrow> jobs" where
  "jobs_of ps h = \<lparr>jb_arrival = map arrival_time ps, jb_burst = map burst_time ps, jb_horizon = h\<rparr>"

lemma sjf_start:
  assumes "length ps \<le> SCHED_MAX_PROCESSES"
  shows "for_loop 0 (length ps) (\<lambda>i rem. do { p \<leftarrow> rd ps i; wr rem i (burst_time p) }) (replicate SCHED_MAX_PROCESSES 0) =
    Some (map burst_time ps @ replicate (SCHED_MAX_PROCESSES - length ps) 0)"
proof -
  have "for_loop 0 (length ps) (\<lambda>i rem. do { p \<leftarrow> rd ps i; wr rem i (burst_time p) }) (replicate SCHED_MAX_PROCESSES 0) =
      for_loop 0 (length ps) (\<lambda>i rem. wr rem i (burst_time (ps ! i))) (replicate SCHED_MAX_PROCESSES 0)"
    by (intro for_loop_cong) simp
  moreover have "map (\<lambda>i. burst_time (ps ! i)) [0..<length ps] = map burst_time ps"
    by (intro nth_equalityI) auto
  ultimately show ?thesis using assms by (simp add: for_loop_fill)
qed

subsection \<open>Preemptive priorities (priority_scheduling.c)\<close>

record prio_process = process +
  pr_priority :: int

record prio_state =
  pr_current_time :: int
  pr_completed :: int
  pr_processes :: "prio_process list"

definition priority_pick :: "prio_process list \<Rightarrow> nat \<Rightarrow> int \<Rightarrow> (int \<times> int) option" where
  "priority_pick processes n current_time =
     for_loop 0 n (\<lambda>i (selected_process, highest_priority). do {
       p \<leftarrow> rd processes i;
       Some (if arrival_time p \<le> current_time \<and> pr_priority p < highest_priority \<and> burst_time p > 0
             then (int i, pr_priority p) else (selected_process, highest_priority)) }) (- 1, INT_MAX)"

text \<open>The assignments at completion: \<open>burst_time\<close> is the decremented one there.\<close>

definition priority_complete :: "int \<Rightarrow> prio_process \<Rightarrow> prio_process option" where
  "priority_complete finish_time p = do {
     w \<leftarrow> chk (finish_time - burst_time p);
     w \<leftarrow> chk (w - arrival_time p);
     t \<leftarrow> chk (finish_time - arrival_time p);
     Some (p\<lparr>waiting_time := w, turnaround_time := t\<rparr>) }"

definition priority_step :: "nat \<Rightarrow> prio_state \<Rightarrow> prio_state option" where
  "priority_step n s = do {
     (selected, highest_priority) \<leftarrow> priority_pick (pr_processes s) n (pr_current_time s);
     next_time \<leftarrow> chk (pr_current_time s + 1);
     if selected = - 1 then Some (s\<lparr>pr_current_time := next_time\<rparr>)
     else do {
       p \<leftarrow> rdi (pr_processes s) selected;
       b \<leftarrow> chk (burst_time p - 1);
       let p = p\<lparr>burst_time := b\<rparr>;
       p' \<leftarrow> (if b = 0 then priority_complete next_time p else Some p);
       ps \<leftarrow> wri (pr_processes s) selected p';
       Some (s\<lparr>pr_processes := ps, pr_current_time := next_time,
         pr_completed := (if b = 0 then pr_completed s + 1 else pr_completed s)\<rparr>) } }"

partial_function (option) priority_loop :: "nat \<Rightarrow> prio_state \<Rightarrow> prio_state option" where
  "priority_loop n s =
     (if pr_completed s < int n then do { s' \<leftarrow> priority_step n s; priority_loop n s' } else Some s)"

declare priority_loop.simps [code]

definition priority_scheduling :: "prio_process list \<Rightarrow> nat \<Rightarrow> prio_process list option" where
  "priority_scheduling processes n = do {
     s \<leftarrow> priority_loop n \<lparr>pr_current_time = 0, pr_completed = 0, pr_processes = processes\<rparr>;
     Some (pr_processes s) }"

definition pr_rem :: "jobs \<Rightarrow> prio_state \<Rightarrow> int list" where
  "pr_rem c s = map burst_time (pr_processes s)"

text \<open>What the program records for a finished job: its waiting time is its whole turnaround.\<close>

definition prio_done :: "jobs \<Rightarrow> int \<Rightarrow> nat \<Rightarrow> prio_process \<Rightarrow> bool" where
  "prio_done c t i p \<longleftrightarrow> waiting_time p = turnaround_time p \<and> jb_burst c ! i \<le> turnaround_time p \<and>
     jb_arrival c ! i + turnaround_time p \<le> t"

definition prio_inv :: "jobs \<Rightarrow> prio_state \<Rightarrow> bool" where
  "prio_inv c s \<longleftrightarrow> length (pr_processes s) = length (jb_burst c) \<and>
     pr_completed s = int (count_if (\<lambda>r. r = 0) (pr_rem c s)) \<and>
     (\<forall>i < length (jb_burst c). arrival_time (pr_processes s ! i) = jb_arrival c ! i \<and>
        pr_priority (pr_processes s ! i) < INT_MAX \<and>
        (burst_time (pr_processes s ! i) = 0 \<longrightarrow> prio_done c (pr_current_time s) i (pr_processes s ! i)))"

lemma priority_pick_spec:
  fixes t :: int
  assumes "n \<le> length ps"
  defines "e \<equiv> \<lambda>i. arrival_time (ps ! i) \<le> t \<and> 0 < burst_time (ps ! i)"
  shows "\<exists>b m. priority_pick ps n t = Some (b, m) \<and>
    (b = - 1 \<and> (\<forall>i < n. e i \<longrightarrow> INT_MAX \<le> pr_priority (ps ! i)) \<or>
     (\<exists>v < n. b = int v \<and> e v \<and> (\<forall>i < n. e i \<longrightarrow> pr_priority (ps ! v) \<le> pr_priority (ps ! i))))"
  unfolding priority_pick_def using assms(1) by (intro for_loop_pick) (auto simp: e_def)

lemma priority_step_ok:
  assumes ok: "jobs_ok c" and inv: "prio_inv c s" and prog: "progress_ok c (pr_current_time s) (pr_rem c s)"
    and more: "\<not> all_done (pr_rem c s)"
  defines "n \<equiv> length (jb_burst c)" and "t \<equiv> pr_current_time s" and "ps \<equiv> pr_processes s"
  shows "\<exists>s'. priority_step n s = Some s' \<and> prio_inv c s' \<and> pr_current_time s' = t + 1 \<and>
     ((\<forall>i. \<not> waiting_to_run c t (pr_rem c s) i) \<and> pr_rem c s' = pr_rem c s \<or>
      (\<exists>i. waiting_to_run c t (pr_rem c s) i \<and> pr_rem c s' = (pr_rem c s)[i := pr_rem c s ! i - 1]))"
proof -
  have iv: "length ps = n" "pr_completed s = int (count_if (\<lambda>r. r = 0) (pr_rem c s))"
    and pr: "\<And>i. i < n \<Longrightarrow> arrival_time (ps ! i) = jb_arrival c ! i \<and> pr_priority (ps ! i) < INT_MAX \<and>
        (burst_time (ps ! i) = 0 \<longrightarrow> prio_done c t i (ps ! i))"
    using inv by (auto simp: prio_inv_def n_def ps_def t_def)
  have "0 < n" using more prog by (auto simp: all_done_def progress_ok_def n_def)
  have nth: "pr_rem c s ! i = burst_time (ps ! i)" if "i < n" for i using that iv by (simp add: pr_rem_def ps_def)
  have t: "t < INT_MAX" "0 \<le> t" using rem_below_max(2) [OF ok prog] \<open>0 < n\<close> prog by (auto simp: n_def t_def progress_ok_def)
  then have t1: "chk (t + 1) = Some (t + 1)" by (simp add: chk_def int_ok_def INT_MIN_def)
  have run_iff: "waiting_to_run c t (pr_rem c s) i \<longleftrightarrow> i < n \<and> arrival_time (ps ! i) \<le> t \<and> 0 < burst_time (ps ! i)" for i
    using pr nth by (auto simp: waiting_to_run_def n_def)
  from priority_pick_spec [of n ps t] iv obtain b m where
    bm: "priority_pick ps n t = Some (b, m)" and
    pick: "b = - 1 \<and> (\<forall>i < n. arrival_time (ps ! i) \<le> t \<and> 0 < burst_time (ps ! i) \<longrightarrow> INT_MAX \<le> pr_priority (ps ! i)) \<or>
     (\<exists>v < n. b = int v \<and> arrival_time (ps ! v) \<le> t \<and> 0 < burst_time (ps ! v))" by auto
  note step = priority_step_def t_def [symmetric] ps_def [symmetric] bm t1
  from pick show ?thesis
  proof
    assume idle: "b = - 1 \<and> (\<forall>i < n. arrival_time (ps ! i) \<le> t \<and> 0 < burst_time (ps ! i) \<longrightarrow> INT_MAX \<le> pr_priority (ps ! i))"
    let ?s' = "s\<lparr>pr_current_time := t + 1\<rparr>"
    have "priority_step n s = Some ?s'" using idle by (simp add: step)
    moreover have "\<forall>i. \<not> waiting_to_run c t (pr_rem c s) i" using idle pr run_iff by (metis linorder_not_le)
    moreover have "pr_rem c ?s' = pr_rem c s" by (simp add: pr_rem_def)
    moreover have "prio_inv c ?s'" using inv by (auto simp: prio_inv_def pr_rem_def prio_done_def t_def)
    ultimately show ?thesis by (intro exI [of _ ?s']) simp
  next
    assume "\<exists>v < n. b = int v \<and> arrival_time (ps ! v) \<le> t \<and> 0 < burst_time (ps ! v)"
    then obtain v where v: "v < n" "b = int v" "arrival_time (ps ! v) \<le> t" "0 < burst_time (ps ! v)" by blast
    have run: "waiting_to_run c t (pr_rem c s) v" using v run_iff by simp
    have vr: "v < length (pr_rem c s)" using v iv by (simp add: pr_rem_def ps_def)
    have "burst_time (ps ! v) < INT_MAX" using rem_below_max(1) [OF ok prog, of v] v(1) nth by (simp add: n_def)
    then have ok_r: "chk (burst_time (ps ! v) - 1) = Some (burst_time (ps ! v) - 1)"
      using v(4) by (simp add: chk_def int_ok_def INT_MIN_def)
    have cnt: "int (count_if (\<lambda>r. r = 0) ((pr_rem c s)[v := pr_rem c s ! v - 1])) =
        pr_completed s + (if burst_time (ps ! v) = 1 then 1 else 0)"
      using count_zero_update [OF vr] v nth iv(2) by simp
    let ?p0 = "(ps ! v)\<lparr>burst_time := burst_time (ps ! v) - 1\<rparr>"
    let ?p = "if burst_time (ps ! v) = 1 then ?p0\<lparr>waiting_time := t + 1 - jb_arrival c ! v,
        turnaround_time := t + 1 - jb_arrival c ! v\<rparr> else ?p0"
    let ?s' = "s\<lparr>pr_processes := ps[v := ?p], pr_current_time := t + 1,
        pr_completed := (if burst_time (ps ! v) = 1 then pr_completed s + 1 else pr_completed s)\<rparr>"
    have fb: "jb_burst c ! v \<le> t + 1 - jb_arrival c ! v" "0 \<le> jb_arrival c ! v" "0 < jb_burst c ! v"
      if "burst_time (ps ! v) = 1"
      using finish_bound [OF ok prog [folded t_def] run] that nth [OF v(1)] by simp_all
    have comp: "priority_complete (t + 1) ((ps ! v)\<lparr>burst_time := 0\<rparr>) =
        Some ((ps ! v)\<lparr>burst_time := 0, waiting_time := t + 1 - jb_arrival c ! v,
          turnaround_time := t + 1 - jb_arrival c ! v\<rparr>)" if "burst_time (ps ! v) = 1"
      using fb [OF that] that pr [OF v(1)] t by (simp add: priority_complete_def int_ok_def INT_MIN_def)
    have "priority_step n s = Some ?s'"
    proof (cases "burst_time (ps ! v) = 1")
      case True
      with v iv(1) comp show ?thesis by (simp add: step)
    next
      case False
      with v iv(1) ok_r show ?thesis by (simp add: step)
    qed
    moreover have rem': "pr_rem c ?s' = (pr_rem c s)[v := pr_rem c s ! v - 1]"
      using nth [OF v(1)] by (simp add: pr_rem_def ps_def map_update)
    moreover have late: "jb_arrival c ! i + turnaround_time (ps ! i) \<le> t + 1" if "i < n" "burst_time (ps ! i) = 0" for i
      using pr [OF that(1)] that(2) by (simp add: prio_done_def)
    moreover have "prio_inv c ?s'"
      unfolding prio_inv_def rem' using iv pr v cnt fb late
      by (auto simp: nth_list_update n_def [symmetric] prio_done_def)
    ultimately show ?thesis using run by (intro exI [of _ ?s']) auto
  qed
qed

interpretation prio: preemptive "\<lambda>c. priority_step (length (jb_burst c))" "\<lambda>c. priority_loop (length (jb_burst c))"
  pr_current_time pr_rem prio_inv
proof
  fix c :: jobs and s :: prio_state
  assume inv: "prio_inv c s"
  have len: "length (pr_rem c s) = length (jb_burst c)" using inv by (simp add: prio_inv_def pr_rem_def)
  { assume "all_done (pr_rem c s)"
    with inv len show "priority_loop (length (jb_burst c)) s = Some s"
      by (subst priority_loop.simps) (simp add: prio_inv_def all_done_count) }
  { fix s' assume "\<not> all_done (pr_rem c s)" "priority_step (length (jb_burst c)) s = Some s'"
    with inv len count_if_le [of "\<lambda>r. r = 0" "pr_rem c s"]
    show "priority_loop (length (jb_burst c)) s = priority_loop (length (jb_burst c)) s'"
      by (subst priority_loop.simps) (auto simp: prio_inv_def all_done_count) }
qed (rule priority_step_ok)

subsection \<open>Round robin (round_robin_scheduling.c)\<close>

definition TIME_QUANTUM :: int where
  "TIME_QUANTUM = 2"

record rr_process = process +
  remaining_time :: int

record rr_state =
  rr_current_time :: int
  rr_completed :: int
  rr_processes :: "rr_process list"

definition rr_complete :: "int \<Rightarrow> rr_process \<Rightarrow> rr_process option" where
  "rr_complete current_time p = do {
     t \<leftarrow> chk (current_time - arrival_time p);
     w \<leftarrow> chk (t - burst_time p);
     Some (p\<lparr>turnaround_time := t, waiting_time := w\<rparr>) }"

definition rr_slot :: "nat \<Rightarrow> rr_state \<Rightarrow> rr_state option" where
  "rr_slot i s = do {
     p \<leftarrow> rd (rr_processes s) i;
     if remaining_time p > 0 then do {
       let execute_time = (if remaining_time p < TIME_QUANTUM then remaining_time p else TIME_QUANTUM);
       r \<leftarrow> chk (remaining_time p - execute_time);
       t \<leftarrow> chk (rr_current_time s + execute_time);
       let p = p\<lparr>remaining_time := r\<rparr>;
       p' \<leftarrow> (if r = 0 then rr_complete t p else Some p);
       ps \<leftarrow> wr (rr_processes s) i p';
       Some (s\<lparr>rr_processes := ps, rr_current_time := t,
         rr_completed := (if r = 0 then rr_completed s + 1 else rr_completed s)\<rparr>) }
     else Some s }"

partial_function (option) rr_loop :: "nat \<Rightarrow> rr_state \<Rightarrow> rr_state option" where
  "rr_loop n s =
     (if rr_completed s < int n then do { s' \<leftarrow> for_loop 0 n rr_slot s; rr_loop n s' } else Some s)"

declare rr_loop.simps [code]

definition round_robin_scheduling :: "rr_process list \<Rightarrow> nat \<Rightarrow> rr_process list option" where
  "round_robin_scheduling processes n = do {
     s \<leftarrow> rr_loop n \<lparr>rr_current_time = 0, rr_completed = 0, rr_processes = processes\<rparr>;
     Some (rr_processes s) }"

definition rr_rem :: "rr_state \<Rightarrow> int list" where
  "rr_rem s = map remaining_time (rr_processes s)"

definition rr_ok :: "rr_process list \<Rightarrow> bool" where
  "rr_ok ps \<longleftrightarrow> (\<forall>p \<in> set ps. 0 < burst_time p \<and> 0 \<le> arrival_time p \<and> arrival_time p \<le> INT_MAX) \<and>
     sum_list (map burst_time ps) \<le> INT_MAX"

definition rr_done :: "int \<Rightarrow> rr_process \<Rightarrow> bool" where
  "rr_done t p \<longleftrightarrow> turnaround_time p = waiting_time p + burst_time p \<and> 0 \<le> arrival_time p + waiting_time p \<and>
     arrival_time p + turnaround_time p \<le> t"

definition rr_inv :: "rr_process list \<Rightarrow> rr_state \<Rightarrow> bool" where
  "rr_inv ps s \<longleftrightarrow> length (rr_processes s) = length ps \<and>
     rr_completed s = int (count_if (\<lambda>r. r = 0) (rr_rem s)) \<and>
     rr_current_time s + sum_list (rr_rem s) = sum_list (map burst_time ps) \<and>
     (\<forall>i < length ps. arrival_time (rr_processes s ! i) = arrival_time (ps ! i) \<and>
        burst_time (rr_processes s ! i) = burst_time (ps ! i) \<and>
        0 \<le> remaining_time (rr_processes s ! i) \<and> remaining_time (rr_processes s ! i) \<le> burst_time (ps ! i) \<and>
        burst_time (ps ! i) - remaining_time (rr_processes s ! i) \<le> rr_current_time s \<and>
        (remaining_time (rr_processes s ! i) = 0 \<longrightarrow> rr_done (rr_current_time s) (rr_processes s ! i)))"

lemma sum_list_upd: "i < length rem \<Longrightarrow> sum_list (rem[i := v]) = sum_list rem - rem ! i + (v :: int)"
proof (induction rem arbitrary: i)
  case (Cons r rem)
  then show ?case by (cases i) auto
qed simp

lemma rr_slot_ok:
  assumes ok: "rr_ok ps" and inv: "rr_inv ps s" and i: "i < length ps"
  shows "\<exists>s'. rr_slot i s = Some s' \<and> rr_inv ps s' \<and>
    (if rr_rem s ! i = 0 then s' = s else sum_list (rr_rem s') < sum_list (rr_rem s))"
proof -
  let ?qs = "rr_processes s" and ?t = "rr_current_time s"
  let ?p = "?qs ! i"
  have iv: "length ?qs = length ps" "rr_completed s = int (count_if (\<lambda>r. r = 0) (rr_rem s))"
    "?t + sum_list (rr_rem s) = sum_list (map burst_time ps)"
    and pr: "\<And>j. j < length ps \<Longrightarrow> arrival_time (?qs ! j) = arrival_time (ps ! j) \<and>
        burst_time (?qs ! j) = burst_time (ps ! j) \<and> 0 \<le> remaining_time (?qs ! j) \<and>
        remaining_time (?qs ! j) \<le> burst_time (ps ! j) \<and> burst_time (ps ! j) - remaining_time (?qs ! j) \<le> ?t \<and>
        (remaining_time (?qs ! j) = 0 \<longrightarrow> rr_done ?t (?qs ! j))"
    using inv by (auto simp: rr_inv_def)
  have rem: "rr_rem s ! i = remaining_time ?p" "i < length (rr_rem s)" using i iv by (simp_all add: rr_rem_def)
  show ?thesis
  proof (cases "remaining_time ?p = 0")
    case True
    with i iv rem inv show ?thesis by (simp add: rr_slot_def)
  next
    case False
    with pr [OF i] have pos: "0 < remaining_time ?p" by simp
    have job: "0 < burst_time (ps ! i)" "0 \<le> arrival_time (ps ! i)" "arrival_time (ps ! i) \<le> INT_MAX"
      using ok i by (simp_all add: rr_ok_def)
    have nn: "\<forall>r \<in> set (rr_rem s). 0 \<le> r" using pr iv by (auto simp: rr_rem_def in_set_conv_nth)
    have le: "remaining_time ?p \<le> sum_list (rr_rem s)"
      using member_le_sum_list [of "rr_rem s ! i" "rr_rem s"] nn nth_mem [OF rem(2)] unfolding rem(1) by blast
    have t: "0 \<le> ?t" "?t + remaining_time ?p \<le> INT_MAX"
      using iv(3) le ok pr [OF i] by (auto simp: rr_ok_def)
    let ?e = "if remaining_time ?p < TIME_QUANTUM then remaining_time ?p else TIME_QUANTUM"
    have e: "0 < ?e" "?e \<le> remaining_time ?p" using pos by (simp_all add: TIME_QUANTUM_def)
    let ?r = "remaining_time ?p - ?e" and ?t' = "?t + ?e"
    have chks: "chk ?r = Some ?r" "chk ?t' = Some ?t'"
      using e t pos pr [OF i] by (auto simp: chk_def int_ok_def INT_MIN_def)
    let ?q = "?p\<lparr>remaining_time := ?r\<rparr>"
    let ?q' = "if ?r = 0 then ?q\<lparr>turnaround_time := ?t' - arrival_time (ps ! i),
        waiting_time := ?t' - arrival_time (ps ! i) - burst_time (ps ! i)\<rparr> else ?q"
    let ?s' = "s\<lparr>rr_processes := ?qs[i := ?q'], rr_current_time := ?t',
         rr_completed := (if ?r = 0 then rr_completed s + 1 else rr_completed s)\<rparr>"
    have full: "burst_time (ps ! i) \<le> ?t'" if "?r = 0" using pr [OF i] that by simp
    have "(if ?r = 0 then rr_complete ?t' ?q else Some ?q) = Some ?q'"
    proof (cases "?r = 0")
      case True
      have "int_ok (?t' - arrival_time (ps ! i))" "int_ok (?t' - arrival_time (ps ! i) - burst_time (ps ! i))"
        using full [OF True] job t e by (auto simp: int_ok_def INT_MIN_def INT_MAX_def)
      with True pr [OF i] show ?thesis by (simp add: rr_complete_def)
    qed simp
    then have run: "rr_slot i s = Some ?s'"
      using i iv(1) pos chks by (simp add: rr_slot_def Let_def)
    have rem': "rr_rem ?s' = (rr_rem s)[i := ?r]" by (simp add: rr_rem_def map_update)
    have cnt: "int (count_if (\<lambda>r. r = 0) ((rr_rem s)[i := ?r])) = rr_completed s + (if ?r = 0 then 1 else 0)"
      using count_if_update [OF rem(2), of "\<lambda>r. r = 0" ?r] pos rem(1) iv(2) by simp
    have sum: "sum_list (rr_rem ?s') = sum_list (rr_rem s) - ?e"
      unfolding rem' using sum_list_upd [OF rem(2), of ?r] rem(1) by simp
    have late: "rr_done ?t' (?qs ! j)" if "j < length ps" "remaining_time (?qs ! j) = 0" for j
      using pr [OF that(1)] that(2) e by (auto simp: rr_done_def)
    have more: "burst_time (ps ! j) - remaining_time (?qs ! j) \<le> ?t'" if "j < length ps" for j
      using pr [OF that] e by simp
    have "rr_inv ps ?s'"
      unfolding rr_inv_def
    proof (intro conjI allI impI)
      show "length (rr_processes ?s') = length ps" using iv by simp
      show "rr_completed ?s' = int (count_if (\<lambda>r. r = 0) (rr_rem ?s'))" unfolding rem' cnt by simp
      show "rr_current_time ?s' + sum_list (rr_rem ?s') = sum_list (map burst_time ps)"
        unfolding sum using iv(3) by simp
      fix j assume j: "j < length ps"
      show "arrival_time (rr_processes ?s' ! j) = arrival_time (ps ! j)"
        "burst_time (rr_processes ?s' ! j) = burst_time (ps ! j)"
        "0 \<le> remaining_time (rr_processes ?s' ! j)"
        "remaining_time (rr_processes ?s' ! j) \<le> burst_time (ps ! j)"
        "burst_time (ps ! j) - remaining_time (rr_processes ?s' ! j) \<le> rr_current_time ?s'"
        using pr [OF j] more [OF j] e iv(1) i j by (auto simp: nth_list_update)
      assume done_j: "remaining_time (rr_processes ?s' ! j) = 0"
      show "rr_done (rr_current_time ?s') (rr_processes ?s' ! j)"
      proof (cases "j = i")
        case True
        then have "?r = 0" using done_j i iv(1) by (auto split: if_splits)
        then show ?thesis using full [OF \<open>?r = 0\<close>] True pr [OF i] i iv(1) by (simp add: rr_done_def)
      next
        case False
        then show ?thesis using late [OF j] done_j by simp
      qed
    qed
    then show ?thesis using run sum e rem False by (intro exI [of _ ?s']) simp
  qed
qed

text \<open>One pass over all processes executes something unless all are done.\<close>

lemma rr_pass_ok:
  assumes ok: "rr_ok ps" and inv: "rr_inv ps s" and more: "\<not> all_done (rr_rem s)"
  shows "\<exists>s'. for_loop 0 (length ps) rr_slot s = Some s' \<and> rr_inv ps s' \<and>
    sum_list (rr_rem s') < sum_list (rr_rem s)"
proof -
  have len: "length (rr_rem s) = length ps" using inv by (simp add: rr_inv_def rr_rem_def)
  have "\<exists>s'. for_loop 0 (length ps) rr_slot s = Some s' \<and> (rr_inv ps s' \<and>
     (sum_list (rr_rem s') < sum_list (rr_rem s) \<or> s' = s \<and> (\<forall>j < length ps. rr_rem s ! j = 0)))"
  proof (rule for_loop_invar [where P = "\<lambda>k s'. rr_inv ps s' \<and>
     (sum_list (rr_rem s') < sum_list (rr_rem s) \<or> s' = s \<and> (\<forall>j < k. rr_rem s ! j = 0))"])
    fix k s1
    assume k: "0 \<le> k" "k < length ps" and P: "rr_inv ps s1 \<and>
     (sum_list (rr_rem s1) < sum_list (rr_rem s) \<or> s1 = s \<and> (\<forall>j < k. rr_rem s ! j = 0))"
    from rr_slot_ok [OF ok _ k(2), of s1] P obtain s2 where s2: "rr_slot k s1 = Some s2" "rr_inv ps s2"
      "if rr_rem s1 ! k = 0 then s2 = s1 else sum_list (rr_rem s2) < sum_list (rr_rem s1)" by blast
    have "sum_list (rr_rem s2) < sum_list (rr_rem s) \<or> s2 = s \<and> (\<forall>j < Suc k. rr_rem s ! j = 0)"
      using s2(3) P by (cases "rr_rem s1 ! k = 0") (auto simp: less_Suc_eq)
    with s2 show "\<exists>s'. rr_slot k s1 = Some s' \<and> rr_inv ps s' \<and>
     (sum_list (rr_rem s') < sum_list (rr_rem s) \<or> s' = s \<and> (\<forall>j < Suc k. rr_rem s ! j = 0))" by blast
  qed (use inv in auto)
  with more len show ?thesis by (auto simp: all_done_def in_set_conv_nth)
qed

lemma rr_terminates:
  assumes ok: "rr_ok ps"
  shows "rr_inv ps s \<Longrightarrow> \<exists>s'. rr_loop (length ps) s = Some s' \<and> rr_inv ps s' \<and> all_done (rr_rem s')"
proof (induction "nat (sum_list (rr_rem s))" arbitrary: s rule: less_induct)
  case less
  have len: "length (rr_rem s) = length ps" using less.prems by (simp add: rr_inv_def rr_rem_def)
  show ?case
  proof (cases "all_done (rr_rem s)")
    case True
    then have "rr_loop (length ps) s = Some s"
      using less.prems len by (subst rr_loop.simps) (simp add: rr_inv_def all_done_count)
    with True less.prems show ?thesis by blast
  next
    case False
    from rr_pass_ok [OF ok less.prems False] obtain s' where s': "for_loop 0 (length ps) rr_slot s = Some s'"
      "rr_inv ps s'" "sum_list (rr_rem s') < sum_list (rr_rem s)" by blast
    have "rr_completed s < int (length ps)"
      using False len less.prems count_if_le [of "\<lambda>r. r = 0" "rr_rem s"] by (auto simp: rr_inv_def all_done_count)
    then have "rr_loop (length ps) s = rr_loop (length ps) s'" using s'(1) by (subst rr_loop.simps) simp
    moreover have "0 \<le> sum_list (rr_rem s')"
      using s'(2) by (intro sum_list_nonneg) (auto simp: rr_inv_def rr_rem_def in_set_conv_nth)
    ultimately show ?thesis using less.hyps [of s'] s'(2,3) by simp
  qed
qed

subsection \<open>Results\<close>

lemma burst_nonzero: "\<lbrakk>\<forall>p \<in> set ps. 0 < burst_time p; i < length ps\<rbrakk> \<Longrightarrow> burst_time (ps ! i) \<noteq> 0"
  by (metis less_irrefl nth_mem)

lemma all_done_sum: "all_done rem \<Longrightarrow> sum_list rem = 0"
  by (induction rem) (auto simp: all_done_def)

lemma sjf_start_inv:
  assumes n: "length ps \<le> SCHED_MAX_PROCESSES" and pos: "\<forall>p \<in> set ps. 0 < burst_time p"
  defines "s \<equiv> \<lparr>sj_current_time = 0, sj_completed = 0,
     sj_remaining_time = map burst_time ps @ replicate (SCHED_MAX_PROCESSES - length ps) 0, sj_processes = ps\<rparr>"
  shows "sjf_inv (jobs_of ps h) s" and "sj_rem (jobs_of ps h) s = map burst_time ps"
proof -
  show rem: "sj_rem (jobs_of ps h) s = map burst_time ps" by (simp add: sj_rem_def jobs_of_def s_def)
  have "count_if (\<lambda>r. r = 0) (map burst_time ps) = 0"
    using pos count_if_pos [of "\<lambda>r. r = 0" "map burst_time ps"] by force
  then show "sjf_inv (jobs_of ps h) s" unfolding sjf_inv_def rem
    using n burst_nonzero [OF pos] by (auto simp: s_def jobs_of_def nth_append)
qed

lemma jobs_of_ok:
  assumes "\<forall>p \<in> set ps. 0 \<le> arrival_time p \<and> arrival_time p \<le> h \<and> 0 < burst_time p" and "0 \<le> h"
    and "h + sum_list (map burst_time ps) < INT_MAX"
  shows "jobs_ok (jobs_of ps h)"
  using assms by (auto simp: jobs_ok_def jobs_of_def)

text \<open>First come, first served: process \<open>i\<close> waits for the bursts of the processes before it, whatever its
  arrival time, its turnaround adds its own burst, and the totals are the sums; the other fields
  are untouched.\<close>
theorem fcfs_times:
  assumes "ps \<noteq> []" and pos: "\<forall>p \<in> set ps. 0 \<le> burst_time p"
    and room: "int (length ps) * sum_list (map burst_time ps) \<le> INT_MAX"
  shows "fcfs_scheduling ps (length ps) = Some (map (fcfs_row ps) [0..<length ps],
     sum_list (map (fcfs_wait ps) [0..<length ps]), sum_list (map (\<lambda>i. fcfs_wait ps (Suc i)) [0..<length ps]))"
proof -
  let ?n = "length ps" and ?b = "sum_list (map burst_time ps)"
  have n: "1 \<le> ?n" using assms(1) by (cases ps) auto
  have b0: "0 \<le> ?b" using pos by (intro sum_list_nonneg) auto
  then have "?b \<le> INT_MAX" using room n mult_right_mono [of 1 "int ?n" ?b] by simp
  from fcfs_fill [OF n order_refl pos this]
  have fill: "for_loop 1 ?n (\<lambda>i ps. do {
       prev \<leftarrow> rd ps (i - 1); p \<leftarrow> rd ps i; w \<leftarrow> chk (waiting_time prev + burst_time prev);
       t \<leftarrow> chk (w + burst_time p); wr ps i (p\<lparr>waiting_time := w, turnaround_time := t\<rparr>) }) (ps[0 := fcfs_row ps 0]) =
     Some (map (fcfs_row ps) [0..<?n])" by simp
  let ?qs = "map (fcfs_row ps) [0..<?n]"
  have sums: "map waiting_time (take ?n ?qs) = map (fcfs_wait ps) [0..<?n]"
    "map turnaround_time (take ?n ?qs) = map (\<lambda>i. fcfs_wait ps (Suc i)) [0..<?n]"
    by (simp_all add: fcfs_row_def)
  have total: "for_loop 0 ?n (\<lambda>i (tw, tt). do {
       p \<leftarrow> rd ?qs i; tw \<leftarrow> chk (tw + waiting_time p); tt \<leftarrow> chk (tt + turnaround_time p); Some (tw, tt) }) (0, 0) =
     Some (sum_list (map (fcfs_wait ps) [0..<?n]), sum_list (map (\<lambda>i. fcfs_wait ps (Suc i)) [0..<?n]))"
    unfolding sums [symmetric]
    using room fcfs_wait_bounds [OF pos] by (intro fcfs_totals [where b = ?b]) (auto simp: fcfs_row_def)
  have first: "rd ps 0 = Some (ps ! 0)"
    "wr ps 0 ((ps ! 0)\<lparr>waiting_time := 0, turnaround_time := burst_time (ps ! 0)\<rparr>) = Some (ps[0 := fcfs_row ps 0])"
    using assms(1) fcfs_wait_Suc [of 0 ps] by (simp_all add: fcfs_row_def fcfs_wait_def)
  show ?thesis
    by (simp only: fcfs_scheduling_def first fill total Option.bind.bind_lunit prod.case)
qed

definition fcfs_demo :: "process list" where
  "fcfs_demo = [\<lparr>process_id = 1, arrival_time = 0, burst_time = 10, waiting_time = 0, turnaround_time = 0\<rparr>,
     \<lparr>process_id = 2, arrival_time = 1, burst_time = 5, waiting_time = 0, turnaround_time = 0\<rparr>,
     \<lparr>process_id = 3, arrival_time = 3, burst_time = 8, waiting_time = 0, turnaround_time = 0\<rparr>]"

theorem fcfs_times_witness:
  "fcfs_scheduling fcfs_demo (length fcfs_demo) = Some (map (fcfs_row fcfs_demo) [0..<length fcfs_demo],
     sum_list (map (fcfs_wait fcfs_demo) [0..<length fcfs_demo]),
     sum_list (map (\<lambda>i. fcfs_wait fcfs_demo (Suc i)) [0..<length fcfs_demo]))"
  by (rule fcfs_times) (simp_all add: fcfs_demo_def INT_MAX_def)

text \<open>Preemptive SJF returns for every set of at most 100 jobs with positive bursts whose arrivals are at
  most \<open>h\<close>: every job gets its burst, its turnaround is its waiting time plus its burst, it never
  waits a negative time, and all jobs are finished by \<open>h\<close> plus the sum of the bursts.\<close>
theorem sjf_serves_all:
  assumes "length ps \<le> SCHED_MAX_PROCESSES" and "0 \<le> h"
    and jobs: "\<forall>p \<in> set ps. 0 \<le> arrival_time p \<and> arrival_time p \<le> h \<and> 0 < burst_time p"
    and room: "h + sum_list (map burst_time ps) < INT_MAX"
  shows "\<exists>qs. sjf_scheduling ps (length ps) = Some qs \<and> length qs = length ps \<and>
    (\<forall>i < length ps. arrival_time (qs ! i) = arrival_time (ps ! i) \<and> burst_time (qs ! i) = burst_time (ps ! i) \<and>
       0 \<le> waiting_time (qs ! i) \<and> turnaround_time (qs ! i) = waiting_time (qs ! i) + burst_time (ps ! i) \<and>
       arrival_time (ps ! i) + turnaround_time (qs ! i) \<le> h + sum_list (map burst_time ps))"
proof -
  let ?c = "jobs_of ps h" and ?n = "length ps"
  note ok = jobs_of_ok [OF jobs assms(2) room]
  have pos: "\<forall>p \<in> set ps. 0 < burst_time p" using jobs by blast
  let ?s = "\<lparr>sj_current_time = 0, sj_completed = 0,
     sj_remaining_time = map burst_time ps @ replicate (SCHED_MAX_PROCESSES - length ps) 0, sj_processes = ps\<rparr>"
  note start = sjf_start_inv [OF assms(1) pos, of h]
  have "progress_ok ?c 0 (map burst_time ps)" using progress_start [OF ok] by (simp add: jobs_of_def)
  then have "progress_ok ?c (sj_current_time ?s) (sj_rem ?c ?s)" using start(2) by simp
  from sjf.terminates [OF ok start(1) this] obtain s' where
    s': "sjf_loop ?n ?s = Some s'" "sjf_inv ?c s'" "progress_ok ?c (sj_current_time s') (sj_rem ?c s')"
      "all_done (sj_rem ?c s')" by (auto simp: jobs_of_def)
  have run: "sjf_scheduling ps ?n = Some (sj_processes s')"
    using sjf_start [OF assms(1)] s'(1) by (simp add: sjf_scheduling_def)
  have end_time: "sj_current_time s' \<le> h + sum_list (map burst_time ps)"
    using s'(3) pending_nonneg [OF s'(3)] by (simp add: progress_ok_def jobs_of_def)
  have zero: "sj_remaining_time s' ! i = 0" if "i < ?n" for i
  proof -
    have "i < length (sj_rem ?c s')" using s'(2) that by (simp add: sjf_inv_def sj_rem_def jobs_of_def)
    then have "sj_rem ?c s' ! i = 0" using s'(4) nth_mem unfolding all_done_def by blast
    with that show ?thesis by (simp add: sj_rem_def jobs_of_def)
  qed
  show ?thesis
    using run s'(2) zero end_time by (intro exI [of _ "sj_processes s'"]) (fastforce simp: sjf_inv_def jobs_of_def job_done_def)
qed

theorem sjf_serves_all_witness:
  "\<exists>qs. sjf_scheduling fcfs_demo (length fcfs_demo) = Some qs \<and> length qs = length fcfs_demo \<and>
    (\<forall>i < length fcfs_demo. arrival_time (qs ! i) = arrival_time (fcfs_demo ! i) \<and> burst_time (qs ! i) = burst_time (fcfs_demo ! i) \<and>
       0 \<le> waiting_time (qs ! i) \<and> turnaround_time (qs ! i) = waiting_time (qs ! i) + burst_time (fcfs_demo ! i) \<and>
       arrival_time (fcfs_demo ! i) + turnaround_time (qs ! i) \<le> 3 + sum_list (map burst_time fcfs_demo))"
  by (rule sjf_serves_all) (simp_all add: fcfs_demo_def INT_MAX_def SCHED_MAX_PROCESSES_def)

text \<open>Preemptive priority scheduling returns under the same conditions, for priorities below \<open>INT_MAX\<close>, with
  every job executed for its burst by \<open>h\<close> plus the sum of the bursts. But the remaining time it counts
  down is \<open>burst_time\<close> itself, so the burst it reports is 0 and the waiting time it reports is the
  whole turnaround, the job's own execution included.\<close>
theorem priority_serves_all:
  assumes "0 \<le> h"
    and jobs: "\<forall>p \<in> set ps. 0 \<le> arrival_time p \<and> arrival_time p \<le> h \<and> 0 < burst_time p"
    and room: "h + sum_list (map burst_time ps) < INT_MAX" and prio: "\<forall>p \<in> set ps. pr_priority p < INT_MAX"
  shows "\<exists>qs. priority_scheduling ps (length ps) = Some qs \<and> length qs = length ps \<and>
    (\<forall>i < length ps. arrival_time (qs ! i) = arrival_time (ps ! i) \<and> burst_time (qs ! i) = 0 \<and>
       waiting_time (qs ! i) = turnaround_time (qs ! i) \<and> burst_time (ps ! i) \<le> turnaround_time (qs ! i) \<and>
       arrival_time (ps ! i) + turnaround_time (qs ! i) \<le> h + sum_list (map burst_time ps))"
proof -
  let ?c = "jobs_of ps h" and ?n = "length ps"
  note ok = jobs_of_ok [OF jobs assms(1) room]
  let ?s = "\<lparr>pr_current_time = 0, pr_completed = 0, pr_processes = ps\<rparr>"
  have rem: "pr_rem ?c ?s = map burst_time ps" by (simp add: pr_rem_def)
  have "count_if (\<lambda>r. r = 0) (map burst_time ps) = 0"
    using jobs count_if_pos [of "\<lambda>r. r = 0" "map burst_time ps"] by force
  then have inv: "prio_inv ?c ?s" unfolding prio_inv_def rem
    using jobs prio burst_nonzero [of ps] by (auto simp: jobs_of_def)
  have "progress_ok ?c (pr_current_time ?s) (pr_rem ?c ?s)"
    using progress_start [OF ok] rem by (simp add: jobs_of_def)
  from prio.terminates [OF ok inv this] obtain s' where
    s': "priority_loop ?n ?s = Some s'" "prio_inv ?c s'" "progress_ok ?c (pr_current_time s') (pr_rem ?c s')"
      "all_done (pr_rem ?c s')" by (auto simp: jobs_of_def)
  have run: "priority_scheduling ps ?n = Some (pr_processes s')" using s'(1) by (simp add: priority_scheduling_def)
  have end_time: "pr_current_time s' \<le> h + sum_list (map burst_time ps)"
    using s'(3) pending_nonneg [OF s'(3)] by (simp add: progress_ok_def jobs_of_def)
  have zero: "burst_time (pr_processes s' ! i) = 0" if "i < ?n" for i
    using s'(2,4) that by (auto simp: all_done_def prio_inv_def pr_rem_def jobs_of_def)
  show ?thesis
    using run s'(2) zero end_time
    by (intro exI [of _ "pr_processes s'"]) (fastforce simp: prio_inv_def jobs_of_def prio_done_def)
qed

definition prio_demo :: "prio_process list" where
  "prio_demo = [\<lparr>process_id = 1, arrival_time = 0, burst_time = 10, waiting_time = 0, turnaround_time = 0, pr_priority = 3\<rparr>,
     \<lparr>process_id = 2, arrival_time = 1, burst_time = 5, waiting_time = 0, turnaround_time = 0, pr_priority = 1\<rparr>]"

theorem priority_serves_all_witness:
  "\<exists>qs. priority_scheduling prio_demo (length prio_demo) = Some qs \<and> length qs = length prio_demo \<and>
    (\<forall>i < length prio_demo. arrival_time (qs ! i) = arrival_time (prio_demo ! i) \<and> burst_time (qs ! i) = 0 \<and>
       waiting_time (qs ! i) = turnaround_time (qs ! i) \<and> burst_time (prio_demo ! i) \<le> turnaround_time (qs ! i) \<and>
       arrival_time (prio_demo ! i) + turnaround_time (qs ! i) \<le> 3 + sum_list (map burst_time prio_demo))"
  by (rule priority_serves_all) (simp_all add: prio_demo_def INT_MAX_def)

definition rr_demo :: "rr_process list" where
  "rr_demo = [\<lparr>process_id = 1, arrival_time = 0, burst_time = 10, waiting_time = 0, turnaround_time = 0, remaining_time = 10\<rparr>,
     \<lparr>process_id = 2, arrival_time = 100, burst_time = 5, waiting_time = 0, turnaround_time = 0, remaining_time = 5\<rparr>]"

text \<open>The second job arrives at time 100 and is reported done at time 11: its turnaround is negative.\<close>

lemma round_robin_ignores_arrival:
  "map_option (map turnaround_time) (round_robin_scheduling rr_demo 2) = Some [15, - 89]"
  by code_simp

end
