(* ===== verification/Round_Robin_Turns.thy ===== *)
theory Round_Robin_Turns
  imports Scheduling
begin

section \<open>The schedule of round robin: d5 round\_robin\_scheduling.c\<close>

text \<open>
  When each job ends under round robin, as a formula in the bursts: the jobs take turns in the order of the array, and a turn takes two time
  units, or what is left of the job when that is less. Scheduling has the program and shows that it returns; here the state before every
  turn is described exactly.
\<close>

subsection \<open>Turns, the clock, and the state before a turn\<close>

text \<open>The turns job \<open>j\<close> has had when round \<open>k\<close> has come to job \<open>i\<close>, and the time that has passed then.\<close>

definition turns :: "int \<Rightarrow> nat \<Rightarrow> nat \<Rightarrow> int" where
  "turns k i j = (if j < i then k + 1 else k)"

definition rr_clock :: "rr_process list \<Rightarrow> int \<Rightarrow> nat \<Rightarrow> int" where
  "rr_clock ps k i = (\<Sum>j < length ps. min (burst_time (ps ! j)) (2 * turns k i j))"

text \<open>Job \<open>i\<close> ends with its turn in round \<open>(burst - 1) div 2\<close>, counted from 0.\<close>

definition rr_finish :: "rr_process list \<Rightarrow> nat \<Rightarrow> int" where
  "rr_finish ps i = rr_clock ps ((burst_time (ps ! i) - 1) div 2) (Suc i)"

text \<open>Job \<open>j\<close> after \<open>c\<close> turns.\<close>

definition rr_row :: "rr_process list \<Rightarrow> int \<Rightarrow> nat \<Rightarrow> rr_process" where
  "rr_row ps c j = (let p = ps ! j in
     if burst_time p \<le> 2 * c
     then p\<lparr>remaining_time := 0, turnaround_time := rr_finish ps j - arrival_time p,
       waiting_time := rr_finish ps j - arrival_time p - burst_time p\<rparr>
     else p\<lparr>remaining_time := burst_time p - 2 * c\<rparr>)"

definition rr_at :: "rr_process list \<Rightarrow> int \<Rightarrow> nat \<Rightarrow> rr_state \<Rightarrow> bool" where
  "rr_at ps k i s \<longleftrightarrow> rr_processes s = map (\<lambda>j. rr_row ps (turns k i j) j) [0..<length ps] \<and> rr_current_time s = rr_clock ps k i"

lemma turns_Suc: "turns k (Suc i) j = (if j = i then k + 1 else turns k i j)"
  by (auto simp: turns_def)

lemma rr_clock_Suc:
  assumes "i < length ps"
  shows "rr_clock ps k (Suc i) = rr_clock ps k i + (min (burst_time (ps ! i)) (2 * (k + 1)) - min (burst_time (ps ! i)) (2 * k))"
proof -
  let ?f = "\<lambda>i j. min (burst_time (ps ! j)) (2 * turns k i j)" and ?J = "{..<length ps} - {i}"
  have split: "rr_clock ps k m = ?f m i + (\<Sum>j \<in> ?J. ?f m j)" for m
    unfolding rr_clock_def using assms by (simp add: sum.remove)
  have "(\<Sum>j \<in> ?J. ?f (Suc i) j) = (\<Sum>j \<in> ?J. ?f i j)" by (rule sum.cong) (simp_all add: turns_Suc)
  then show ?thesis unfolding split by (simp add: turns_def)
qed

lemma rr_round_end: "rr_clock ps k (length ps) = rr_clock ps (k + 1) 0"
  by (auto simp: rr_clock_def turns_def intro: sum.cong)

lemma rr_rows_Suc:
  assumes "i < length ps"
  shows "map (\<lambda>j. rr_row ps (turns k (Suc i) j) j) [0..<length ps] =
    (map (\<lambda>j. rr_row ps (turns k i j) j) [0..<length ps])[i := rr_row ps (k + 1) i]"
  using assms by (intro nth_equalityI) (auto simp: turns_Suc nth_list_update)

subsection \<open>One turn, one round, the whole run\<close>

lemma rr_last_turn:
  fixes b k :: int
  assumes "2 * k < b" and "b \<le> 2 * (k + 1)"
  shows "(b - 1) div 2 = k"
  using assms by simp

lemma rr_slot_at:
  assumes at: "rr_at ps k i s" and i: "i < length ps" and run: "rr_slot i s = Some s'"
  shows "rr_at ps k (Suc i) s'"
proof -
  let ?b = "burst_time (ps ! i)" and ?rows = "map (\<lambda>j. rr_row ps (turns k i j) j) [0..<length ps]"
  have s: "rr_processes s = ?rows" "rr_current_time s = rr_clock ps k i" using at by (simp_all add: rr_at_def)
  have p: "rd (rr_processes s) i = Some (rr_row ps k i)" using i by (simp add: s(1) turns_def)
  show ?thesis
  proof (cases "?b \<le> 2 * k")
    case True
    then have "rr_row ps (k + 1) i = rr_row ps k i" "remaining_time (rr_row ps k i) = 0" by (simp_all add: rr_row_def Let_def)
    moreover have "?rows[i := rr_row ps k i] = ?rows" using i by (intro list_update_same_conv [THEN iffD2]) (simp_all add: turns_def)
    moreover have "s' = s" using run p calculation(2) by (simp add: rr_slot_def)
    ultimately show ?thesis using s True by (simp add: rr_at_def rr_rows_Suc [OF i] rr_clock_Suc [OF i])
  next
    case False
    have row: "rr_row ps k i = (ps ! i)\<lparr>remaining_time := ?b - 2 * k\<rparr>" using False by (simp add: rr_row_def Let_def)
    define rows where "rows = ?rows"
    note body = run [unfolded rr_slot_def p bind.bind_lunit row]
    note step = Let_def bind_eq_Some_conv s [folded rows_def] wr_eq_Some chk_eq_Some TIME_QUANTUM_def rr_complete_def
    have last: "rr_clock ps k (Suc i) = rr_finish ps i" if "?b \<le> 2 * (k + 1)"
      using that False rr_last_turn [of k ?b] by (simp add: rr_finish_def)
    from False consider "?b = 2 * k + 1" | "?b = 2 * k + 2" | "2 * k + 2 < ?b" by linarith
    then have "rr_processes s' = rows[i := rr_row ps (k + 1) i] \<and> rr_current_time s' = rr_clock ps k (Suc i)"
    proof cases
      case 1
      then have f: "rr_finish ps i = rr_clock ps k i + 1" using last by (simp add: rr_clock_Suc [OF i])
      with 1 have r: "rr_row ps (k + 1) i = (ps ! i)\<lparr>remaining_time := 0, turnaround_time := rr_clock ps k i + 1 - arrival_time (ps ! i),
          waiting_time := rr_clock ps k i + (- arrival_time (ps ! i) - 2 * k)\<rparr>" by (simp add: rr_row_def Let_def)
      show ?thesis unfolding r using 1 body by (auto simp: step rr_clock_Suc [OF i])
    next
      case 2
      then have f: "rr_finish ps i = rr_clock ps k i + 2" using last by (simp add: rr_clock_Suc [OF i])
      with 2 have r: "rr_row ps (k + 1) i = (ps ! i)\<lparr>remaining_time := 0, turnaround_time := rr_clock ps k i + 2 - arrival_time (ps ! i),
          waiting_time := rr_clock ps k i + (- arrival_time (ps ! i) - 2 * k)\<rparr>" by (simp add: rr_row_def Let_def)
      show ?thesis unfolding r using 2 body by (auto simp: step rr_clock_Suc [OF i])
    next
      case 3
      then have r: "rr_row ps (k + 1) i = (ps ! i)\<lparr>remaining_time := ?b - 2 * k - 2\<rparr>" by (simp add: rr_row_def Let_def)
      show ?thesis unfolding r using 3 body by (auto simp: step rr_clock_Suc [OF i])
    qed
    then have "rr_processes s' = ?rows[i := rr_row ps (k + 1) i] \<and> rr_current_time s' = rr_clock ps k (Suc i)" unfolding rows_def .
    then show ?thesis by (simp add: rr_at_def rr_rows_Suc [OF i])
  qed
qed

lemma rr_pass_at:
  assumes "rr_at ps k 0 s" and "for_loop 0 (length ps) rr_slot s = Some s'"
  shows "rr_at ps (k + 1) 0 s'"
proof -
  have "rr_at ps k (length ps) s'"
    by (rule for_loop_partial [OF assms(2), where P = "rr_at ps k"]) (use assms(1) rr_slot_at in auto)
  moreover have "map (\<lambda>j. rr_row ps (turns k (length ps) j) j) [0..<length ps] = map (\<lambda>j. rr_row ps (turns (k + 1) 0 j) j) [0..<length ps]"
    by (simp add: turns_def)
  ultimately show ?thesis by (simp add: rr_at_def rr_round_end)
qed

lemma rr_loop_at:
  assumes "rr_loop n s = Some s'" and "n = length ps" and "rr_at ps k 0 s"
  shows "\<exists>k'. rr_at ps k' 0 s'"
proof -
  have "n = length ps \<longrightarrow> (\<forall>k. rr_at ps k 0 s \<longrightarrow> (\<exists>k'. rr_at ps k' 0 s'))"
  proof (rule rr_loop.raw_induct [OF _ assms(1), where P = "\<lambda>n s r. n = length ps \<longrightarrow> (\<forall>k. rr_at ps k 0 s \<longrightarrow> (\<exists>k'. rr_at ps k' 0 r))"])
    fix f n s r
    assume IH: "\<And>n s r. f n s = Some r \<Longrightarrow> n = length ps \<longrightarrow> (\<forall>k. rr_at ps k 0 s \<longrightarrow> (\<exists>k'. rr_at ps k' 0 r))"
      and body: "(if rr_completed s < int n then do { s' \<leftarrow> for_loop 0 n rr_slot s; f n s' } else Some s) = Some r"
    show "n = length ps \<longrightarrow> (\<forall>k. rr_at ps k 0 s \<longrightarrow> (\<exists>k'. rr_at ps k' 0 r))"
    proof (intro impI allI)
      fix k assume n: "n = length ps" and at: "rr_at ps k 0 s"
      show "\<exists>k'. rr_at ps k' 0 r"
      proof (cases "rr_completed s < int n")
        case True
        with body obtain s1 where s1: "for_loop 0 n rr_slot s = Some s1" "f n s1 = Some r" by (auto simp: bind_eq_Some_conv)
        with rr_pass_at [OF at] IH [OF s1(2)] n show ?thesis by blast
      next
        case False
        with body at show ?thesis by auto
      qed
    qed
  qed
  with assms(2,3) show ?thesis by blast
qed

text \<open>C16: Round robin is exact. It returns for every array of jobs whose bursts are positive, whose arrival times are not
  negative, whose remaining time starts as the burst, and whose bursts add up to at most \<open>INT_MAX\<close> (beyond that the clock
  overflows). Every job is executed completely, and job \<open>i\<close> ends at the time the fair schedule gives: when the jobs take turns of two time units
  (less when less is left) in the order of the array, it ends in its turn number \<open>k + 1\<close> for \<open>k = (burst - 1) div 2\<close>, so every job up to \<open>i\<close>
  has then had \<open>k + 1\<close> turns and every later one \<open>k\<close>. The reported turnaround is that time minus the arrival time and the waiting time is the
  turnaround minus the burst. No job waits longer than all bursts together, but arrival times are only subtracted: a job may run before it
  arrives, so its waiting time is only known to be at least minus its arrival time.\<close>
theorem round_robin_serves_all:
  assumes ok: "rr_ok ps" and start: "\<forall>p \<in> set ps. remaining_time p = burst_time p"
  shows "\<exists>qs. round_robin_scheduling ps (length ps) = Some qs \<and> length qs = length ps \<and>
    (\<forall>i < length ps. arrival_time (qs ! i) = arrival_time (ps ! i) \<and> burst_time (qs ! i) = burst_time (ps ! i) \<and>
       remaining_time (qs ! i) = 0 \<and> turnaround_time (qs ! i) = waiting_time (qs ! i) + burst_time (ps ! i) \<and>
       arrival_time (ps ! i) + turnaround_time (qs ! i) = rr_finish ps i \<and>
       - arrival_time (ps ! i) \<le> waiting_time (qs ! i) \<and>
       arrival_time (ps ! i) + turnaround_time (qs ! i) \<le> sum_list (map burst_time ps))"
proof -
  let ?s = "\<lparr>rr_current_time = 0, rr_completed = 0, rr_processes = ps\<rparr>"
  have rem: "rr_rem ?s = map burst_time ps" using start by (auto simp: rr_rem_def)
  have "count_if (\<lambda>r. r = 0) (map burst_time ps) = 0"
    using ok count_if_pos [of "\<lambda>r. r = 0" "map burst_time ps"] by (force simp: rr_ok_def)
  then have "rr_inv ps ?s" unfolding rr_inv_def rem using start ok
    by (auto simp: rr_ok_def order_less_le)
  from rr_terminates [OF ok this] obtain s' where
    s': "rr_loop (length ps) ?s = Some s'" "rr_inv ps s'" "all_done (rr_rem s')" by blast
  have zero: "remaining_time (rr_processes s' ! i) = 0" if "i < length ps" for i
    using s'(2,3) that by (auto simp: all_done_def rr_inv_def rr_rem_def)
  have time: "rr_current_time s' = sum_list (map burst_time ps)"
    using s'(2) all_done_sum [OF s'(3)] by (simp add: rr_inv_def)
  have "rr_row ps 0 j = ps ! j" if "j < length ps" for j
  proof -
    have "0 < burst_time (ps ! j)" "remaining_time (ps ! j) = burst_time (ps ! j)" using that ok start by (simp_all add: rr_ok_def)
    then show ?thesis by (simp add: rr_row_def Let_def)
  qed
  then have "map (\<lambda>j. rr_row ps (turns 0 0 j) j) [0..<length ps] = ps" by (intro nth_equalityI) (simp_all add: turns_def)
  moreover have "rr_clock ps 0 0 = 0"
    using ok by (auto simp: rr_clock_def turns_def rr_ok_def intro!: sum.neutral)
  ultimately have "rr_at ps 0 0 ?s" by (simp add: rr_at_def)
  from rr_loop_at [OF s'(1) refl this] obtain k where at: "rr_at ps k 0 s'" by blast
  have finish: "arrival_time (ps ! i) + turnaround_time (rr_processes s' ! i) = rr_finish ps i" if i: "i < length ps" for i
  proof -
    have "rr_processes s' ! i = rr_row ps k i" using at i by (simp add: rr_at_def turns_def)
    moreover have "remaining_time (rr_row ps k i) = 0 \<Longrightarrow> turnaround_time (rr_row ps k i) = rr_finish ps i - arrival_time (ps ! i)"
      by (auto simp: rr_row_def Let_def split: if_splits)
    ultimately show ?thesis using zero [OF i] by simp
  qed
  have job: "arrival_time (rr_processes s' ! i) = arrival_time (ps ! i)" "burst_time (rr_processes s' ! i) = burst_time (ps ! i)"
    "rr_done (sum_list (map burst_time ps)) (rr_processes s' ! i)" if "i < length ps" for i
    using s'(2) zero [OF that] that time by (simp_all add: rr_inv_def)
  have "length (rr_processes s') = length ps" using s'(2) by (simp add: rr_inv_def)
  moreover have "- arrival_time (ps ! i) \<le> waiting_time (rr_processes s' ! i)" if "i < length ps" for i
    using job [OF that] by (simp add: rr_done_def)
  ultimately show ?thesis
    using s'(1) zero finish job by (intro exI [of _ "rr_processes s'"]) (simp add: round_robin_scheduling_def rr_done_def)
qed

text \<open>In the example job 0 ends at 15 and job 1 at 11: three turns of each, the third of job 1 one unit long.\<close>
theorem round_robin_serves_all_witness:
  "\<exists>qs. round_robin_scheduling rr_demo (length rr_demo) = Some qs \<and>
    arrival_time (rr_demo ! 0) + turnaround_time (qs ! 0) = 15 \<and> arrival_time (rr_demo ! 1) + turnaround_time (qs ! 1) = 11"
proof -
  have ok: "rr_ok rr_demo" "\<forall>p \<in> set rr_demo. remaining_time p = burst_time p"
    by (simp_all add: rr_demo_def rr_ok_def INT_MAX_def)
  have "rr_finish rr_demo 0 = 15" "rr_finish rr_demo 1 = 11" "length rr_demo = 2" by code_simp+
  with round_robin_serves_all [OF ok] obtain qs where "round_robin_scheduling rr_demo (length rr_demo) = Some qs"
    "\<forall>i < 2. arrival_time (rr_demo ! i) + turnaround_time (qs ! i) = rr_finish rr_demo i" by metis
  with \<open>rr_finish rr_demo 0 = 15\<close> \<open>rr_finish rr_demo 1 = 11\<close> show ?thesis by fastforce
qed

end
