(* ===== verification/Slot_Table.thy ===== *)
theory Slot_Table
  imports OS_Prelude
begin

section \<open>Slot tables: the interface of the first-free-slot allocators\<close>

text \<open>
  Frame tables, block tables and file descriptor tables are arrays scanned from index 0 for the
  first unused entry. The interface \<open>slot_table\<close> is what their users rely on; each provider
  interprets it. \<open>first_free\<close> is the scan itself.
\<close>

definition first_free :: "('a \<Rightarrow> bool) \<Rightarrow> 'a list \<Rightarrow> nat \<Rightarrow> nat option option" where
  "first_free free xs n = search_first 0 n (\<lambda>i. do { x \<leftarrow> rd xs i; Some (free x) })"

lemma first_free_eq:
  "n \<le> length xs \<Longrightarrow> first_free free xs n = Some (find (\<lambda>i. free (xs ! i)) [0..<n])"
  unfolding first_free_def by (intro search_first_total) simp

lemma first_free_cases:
  assumes "n \<le> length xs"
  obtains (none) "first_free free xs n = Some None" "\<forall>i < n. \<not> free (xs ! i)"
    | (some) i where "first_free free xs n = Some (Some i)" "i < n" "free (xs ! i)" "\<forall>j < i. \<not> free (xs ! j)"
proof (cases "find (\<lambda>i. free (xs ! i)) [0..<n]")
  case None
  with assms none show ?thesis by (simp add: first_free_eq find_upt_None)
next
  case (Some i)
  with assms some show ?thesis by (simp add: first_free_eq find_upt_Some)
qed

text \<open>The scan in terms of the set of slots in use.\<close>

lemma first_free_full:
  "{i. i < length xs \<and> \<not> free (xs ! i)} = {..<length xs} \<Longrightarrow> first_free free xs (length xs) = Some None"
  by (auto simp: first_free_eq find_upt_None)

lemma first_free_least:
  "\<lbrakk>i < length xs; i \<notin> {i. i < length xs \<and> \<not> free (xs ! i)}; \<forall>j < i. j \<in> {i. i < length xs \<and> \<not> free (xs ! i)}\<rbrakk> \<Longrightarrow>
     first_free free xs (length xs) = Some (Some i)"
  by (simp add: first_free_eq find_upt_Some)

text \<open>
  \<open>used\<close>: the slots in use; \<open>size\<close>: how many there are. \<open>alloc\<close> takes the least free slot, and
  reports failure exactly when there is none.
\<close>

locale slot_table =
  fixes inv :: "'s \<Rightarrow> bool"
    and used :: "'s \<Rightarrow> nat set"
    and size :: "'s \<Rightarrow> nat"
    and alloc :: "'s \<Rightarrow> ('s \<times> nat option) option"
  assumes used_bound: "inv s \<Longrightarrow> used s \<subseteq> {..<size s}"
    and alloc_full: "\<lbrakk>inv s; used s = {..<size s}\<rbrakk> \<Longrightarrow> alloc s = Some (s, None)"
    and alloc_free: "\<lbrakk>inv s; i < size s; i \<notin> used s; \<forall>j < i. j \<in> used s\<rbrakk> \<Longrightarrow>
      \<exists>s'. alloc s = Some (s', Some i) \<and> inv s' \<and> size s' = size s \<and> used s' = insert i (used s)"
begin

lemma used_finite: "inv s \<Longrightarrow> finite (used s) \<and> card (used s) \<le> size s"
  using used_bound finite_subset card_mono [of "{..<size s}" "used s"] by (metis card_lessThan finite_lessThan)

lemma alloc_total:
  assumes "inv s"
  shows "\<exists>s' r. alloc s = Some (s', r) \<and> inv s' \<and> size s' = size s \<and>
    (case r of None \<Rightarrow> s' = s \<and> used s = {..<size s}
     | Some i \<Rightarrow> i < size s \<and> i \<notin> used s \<and> (\<forall>j < i. j \<in> used s) \<and> used s' = insert i (used s))"
proof (cases "used s = {..<size s}")
  case True
  with alloc_full [OF assms] assms show ?thesis by auto
next
  case False
  with used_bound [OF assms] have ex: "\<exists>i. i < size s \<and> i \<notin> used s" by blast
  define i where "i = (LEAST i. i < size s \<and> i \<notin> used s)"
  have i: "i < size s \<and> i \<notin> used s" unfolding i_def using ex by (rule LeastI_ex)
  have below: "\<forall>j < i. j \<in> used s"
  proof (intro allI impI)
    fix j assume "j < i"
    then have "\<not> (j < size s \<and> j \<notin> used s)" unfolding i_def by (rule not_less_Least)
    with \<open>j < i\<close> i show "j \<in> used s" by simp
  qed
  with alloc_free [OF assms] i obtain s' where
    "alloc s = Some (s', Some i)" "inv s'" "size s' = size s" "used s' = insert i (used s)" by blast
  with i below show ?thesis by (intro exI [of _ s'] exI [of _ "Some i"]) simp
qed

text \<open>There is room as long as fewer than \<open>size\<close> slots are used.\<close>

lemma alloc_succeeds:
  assumes "inv s" and "card (used s) < size s"
  shows "\<exists>s' i. alloc s = Some (s', Some i) \<and> inv s' \<and> size s' = size s \<and> i < size s \<and> i \<notin> used s \<and>
    used s' = insert i (used s)"
proof -
  from alloc_total [OF assms(1)] obtain s' r where r: "alloc s = Some (s', r)" "inv s'" "size s' = size s"
    "case r of None \<Rightarrow> s' = s \<and> used s = {..<size s}
     | Some i \<Rightarrow> i < size s \<and> i \<notin> used s \<and> (\<forall>j < i. j \<in> used s) \<and> used s' = insert i (used s)" by blast
  with assms(2) show ?thesis by (cases r) auto
qed

end

text \<open>A table whose slots can also be given back.\<close>

locale releasing_slot_table = slot_table inv used size alloc
  for inv :: "'s \<Rightarrow> bool"
    and used :: "'s \<Rightarrow> nat set"
    and size :: "'s \<Rightarrow> nat"
    and alloc :: "'s \<Rightarrow> ('s \<times> nat option) option" +
  fixes release :: "nat \<Rightarrow> 's \<Rightarrow> 's option"
  assumes release_used: "\<lbrakk>inv s; i \<in> used s\<rbrakk> \<Longrightarrow>
      \<exists>s'. release i s = Some s' \<and> inv s' \<and> size s' = size s \<and> used s' = used s - {i}"
begin

text \<open>A slot that is freed while all lower ones are used is the next one handed out.\<close>

lemma release_then_alloc:
  assumes "inv s" and "i \<in> used s" and "\<forall>j < i. j \<in> used s"
  shows "\<exists>s1 s2. release i s = Some s1 \<and> alloc s1 = Some (s2, Some i) \<and> used s2 = used s"
proof -
  from release_used [OF assms(1,2)] obtain s1 where
    s1: "release i s = Some s1" "inv s1" "size s1 = size s" "used s1 = used s - {i}" by blast
  have "i < size s1" using used_bound [OF assms(1)] assms(2) s1(3) by auto
  moreover have "i \<notin> used s1" "\<forall>j < i. j \<in> used s1" using s1(4) assms(3) by auto
  ultimately obtain s2 where "alloc s1 = Some (s2, Some i)" "used s2 = insert i (used s1)"
    using alloc_free [OF s1(2)] by blast
  with s1 assms(2) show ?thesis by (auto simp: insert_absorb)
qed

end

end
