(* ===== verification/Address_Translation.thy ===== *)
theory Address_Translation
  imports Slot_Table
begin

unbundle bit_operations_syntax

section \<open>Address translation: d15 Virtual_Memory.c, d16, d22\<close>

text \<open>
  Three ways from a logical to a physical address: the demand-paged table of d15, the address
  map of d16 (AddressTranslator.c), the TLB in front of a page table of d16
  (Translation_mechanism.c), and the page table of d22. Physical addresses are offsets into the
  simulated memory; the contents of the pages are not touched by this code. The source does not check the results of \<open>malloc\<close>
  and \<open>calloc\<close>; here they succeed.
\<close>

subsection \<open>Demand paging (Virtual_Memory.c)\<close>

definition VM_PAGE_SIZE :: int where
  "VM_PAGE_SIZE = 4096"

definition NUM_PAGES :: nat where
  "NUM_PAGES = 1024"

definition NUM_FRAMES :: nat where
  "NUM_FRAMES = 256"

record vm_pte =
  pte_valid :: int
  pte_frame_num :: int
  pte_ref :: int
  pte_modified :: int

record vm_page_table =
  pt_entries :: "vm_pte list"
  pt_num_pages :: int

record physical_memory =
  pm_num_frames :: nat
  pm_frame_status :: "int list"

definition initializePageTable :: vm_page_table where
  "initializePageTable =
     \<lparr>pt_entries = replicate NUM_PAGES \<lparr>pte_valid = 0, pte_frame_num = 0, pte_ref = 0, pte_modified = 0\<rparr>,
      pt_num_pages = int NUM_PAGES\<rparr>"

definition initializePhysicalMemory :: physical_memory where
  "initializePhysicalMemory = \<lparr>pm_num_frames = NUM_FRAMES, pm_frame_status = replicate NUM_FRAMES 0\<rparr>"

definition allocateFrame :: "physical_memory \<Rightarrow> (physical_memory \<times> int) option" where
  "allocateFrame pm = do {
     h \<leftarrow> first_free (\<lambda>x. x = 0) (pm_frame_status pm) (pm_num_frames pm);
     (case h of
        Some i \<Rightarrow> do {
          st \<leftarrow> wr (pm_frame_status pm) i 1;
          Some (pm\<lparr>pm_frame_status := st\<rparr>, int i) }
      | None \<Rightarrow> Some (pm, - 1)) }"

text \<open>
  \<open>accessMemory\<close> returns a pointer into \<open>pm->memory\<close>, given here as its offset; an offset outside
  the memory is undefined. \<open>Some None\<close> is the code's \<open>NULL\<close>.
\<close>

definition vm_accessMemory ::
  "vm_page_table \<Rightarrow> physical_memory \<Rightarrow> int \<Rightarrow> (vm_page_table \<times> physical_memory \<times> int option) option" where
  "vm_accessMemory pt pm virtual_address = (
     let page_num = c_div virtual_address VM_PAGE_SIZE;
         offset = c_mod virtual_address VM_PAGE_SIZE
     in if page_num \<ge> pt_num_pages pt then Some (pt, pm, None)
     else do {
       pte \<leftarrow> rdi (pt_entries pt) page_num;
       res \<leftarrow> (if pte_valid pte = 0 then do {
            (pm', frame) \<leftarrow> allocateFrame pm;
            if frame = - 1 then Some (pt, pm', None)
            else do {
              let pte' = pte\<lparr>pte_valid := 1, pte_frame_num := frame, pte_ref := 1\<rparr>;
              es \<leftarrow> wri (pt_entries pt) page_num pte';
              Some (pt\<lparr>pt_entries := es\<rparr>, pm', Some pte') } }
          else Some (pt, pm, Some pte));
       (case res of
          (pt', pm', None) \<Rightarrow> Some (pt', pm', None)
        | (pt', pm', Some pte') \<Rightarrow> (
            let addr = pte_frame_num pte' * VM_PAGE_SIZE + offset
            in if 0 \<le> addr \<and> addr \<le> int (pm_num_frames pm') * VM_PAGE_SIZE then Some (pt', pm', Some addr)
            else None)) })"

text \<open>The frame table is a slot table.\<close>

definition frames_ok :: "physical_memory \<Rightarrow> bool" where
  "frames_ok pm \<longleftrightarrow> length (pm_frame_status pm) = pm_num_frames pm"

definition frames_used :: "physical_memory \<Rightarrow> nat set" where
  "frames_used pm = {i. i < pm_num_frames pm \<and> pm_frame_status pm ! i \<noteq> 0}"

lemma allocateFrame_some:
  assumes "frames_ok pm" and "i < pm_num_frames pm" and "i \<notin> frames_used pm" and "\<forall>j < i. j \<in> frames_used pm"
  shows "allocateFrame pm = Some (pm\<lparr>pm_frame_status := (pm_frame_status pm)[i := 1]\<rparr>, int i)"
    and "frames_ok (pm\<lparr>pm_frame_status := (pm_frame_status pm)[i := 1]\<rparr>)"
    and "frames_used (pm\<lparr>pm_frame_status := (pm_frame_status pm)[i := 1]\<rparr>) = insert i (frames_used pm)"
proof -
  have len: "length (pm_frame_status pm) = pm_num_frames pm" using assms(1) by (simp add: frames_ok_def)
  have "find (\<lambda>i. pm_frame_status pm ! i = 0) [0..<pm_num_frames pm] = Some i"
    using assms(2-4) by (auto simp: find_upt_Some frames_used_def)
  then show "allocateFrame pm = Some (pm\<lparr>pm_frame_status := (pm_frame_status pm)[i := 1]\<rparr>, int i)"
    using len assms(2) by (simp add: allocateFrame_def first_free_eq)
  show "frames_ok (pm\<lparr>pm_frame_status := (pm_frame_status pm)[i := 1]\<rparr>)"
    using len by (simp add: frames_ok_def)
  show "frames_used (pm\<lparr>pm_frame_status := (pm_frame_status pm)[i := 1]\<rparr>) = insert i (frames_used pm)"
    using len assms(2) by (auto simp: frames_used_def nth_list_update)
qed

interpretation frames: slot_table frames_ok frames_used pm_num_frames
  "\<lambda>pm. map_option (\<lambda>(pm', r). (pm', if r = - 1 then None else Some (nat r))) (allocateFrame pm)"
proof
  fix pm :: physical_memory
  assume ok: "frames_ok pm"
  show "frames_used pm \<subseteq> {..<pm_num_frames pm}" by (auto simp: frames_used_def)
  { assume "frames_used pm = {..<pm_num_frames pm}"
    then have "find (\<lambda>i. pm_frame_status pm ! i = 0) [0..<pm_num_frames pm] = None"
      by (auto simp: find_upt_None frames_used_def)
    then show "map_option (\<lambda>(pm', r). (pm', if r = - 1 then None else Some (nat r))) (allocateFrame pm) = Some (pm, None)"
      using ok by (simp add: allocateFrame_def first_free_eq frames_ok_def) }
  { fix i assume "i < pm_num_frames pm" "i \<notin> frames_used pm" "\<forall>j < i. j \<in> frames_used pm"
    note a = allocateFrame_some [OF ok this]
    show "\<exists>s'. map_option (\<lambda>(pm', r). (pm', if r = - 1 then None else Some (nat r))) (allocateFrame pm) =
        Some (s', Some i) \<and> frames_ok s' \<and> pm_num_frames s' = pm_num_frames pm \<and> frames_used s' = insert i (frames_used pm)"
      using a by (intro exI [of _ "pm\<lparr>pm_frame_status := (pm_frame_status pm)[i := 1]\<rparr>"]) simp }
qed

lemma allocateFrame_cases:
  assumes "frames_ok pm"
  obtains (full) "allocateFrame pm = Some (pm, - 1)" "frames_used pm = {..<pm_num_frames pm}"
    | (frame) pm' i where "allocateFrame pm = Some (pm', int i)" "frames_ok pm'" "pm_num_frames pm' = pm_num_frames pm"
        "i < pm_num_frames pm" "i \<notin> frames_used pm" "frames_used pm' = insert i (frames_used pm)"
proof -
  from frames.alloc_total [OF assms] obtain pm' r r' where
    a: "allocateFrame pm = Some (pm', r)" "r' = (if r = - 1 then None else Some (nat r))" "frames_ok pm'"
      "pm_num_frames pm' = pm_num_frames pm" and
    b: "case r' of None \<Rightarrow> pm' = pm \<and> frames_used pm = {..<pm_num_frames pm}
     | Some i \<Rightarrow> i < pm_num_frames pm \<and> i \<notin> frames_used pm \<and> (\<forall>j < i. j \<in> frames_used pm) \<and>
         frames_used pm' = insert i (frames_used pm)" by auto
  have "r = - 1 \<or> 0 \<le> r" using a(1) by (auto simp: allocateFrame_def bind_eq_Some_conv split: option.splits)
  then show ?thesis
  proof
    assume "r = - 1"
    with a b full show ?thesis by simp
  next
    assume "0 \<le> r"
    with a b frame [of pm' "nat r"] show ?thesis by simp
  qed
qed

text \<open>Valid entries own distinct frames in use.\<close>

definition vm_inv :: "vm_page_table \<Rightarrow> physical_memory \<Rightarrow> bool" where
  "vm_inv pt pm \<longleftrightarrow> length (pt_entries pt) = NUM_PAGES \<and> pt_num_pages pt = int NUM_PAGES \<and> frames_ok pm \<and>
     (\<forall>p < NUM_PAGES. pte_valid (pt_entries pt ! p) \<noteq> 0 \<longrightarrow>
        0 \<le> pte_frame_num (pt_entries pt ! p) \<and> nat (pte_frame_num (pt_entries pt ! p)) \<in> frames_used pm) \<and>
     (\<forall>p < NUM_PAGES. \<forall>q < NUM_PAGES. pte_valid (pt_entries pt ! p) \<noteq> 0 \<longrightarrow> pte_valid (pt_entries pt ! q) \<noteq> 0 \<longrightarrow>
        pte_frame_num (pt_entries pt ! p) = pte_frame_num (pt_entries pt ! q) \<longrightarrow> p = q)"

text \<open>Where a virtual address is mapped.\<close>

definition vm_maps :: "vm_page_table \<Rightarrow> int \<Rightarrow> int option" where
  "vm_maps pt va = (
     let pte = pt_entries pt ! nat (va div VM_PAGE_SIZE)
     in if pte_valid pte = 0 then None else Some (pte_frame_num pte * VM_PAGE_SIZE + va mod VM_PAGE_SIZE))"

lemma vm_inv_init: "vm_inv initializePageTable initializePhysicalMemory"
  by (simp add: vm_inv_def initializePageTable_def initializePhysicalMemory_def frames_ok_def)

lemma vm_inv_fault:
  assumes inv: "vm_inv pt pm" and p: "p < NUM_PAGES" and "pte_valid (pt_entries pt ! p) = 0"
    and "frames_ok pm'" and "i \<notin> frames_used pm" and "frames_used pm' = insert i (frames_used pm)"
    and "pte_valid pte \<noteq> 0" and "pte_frame_num pte = int i"
  shows "vm_inv (pt\<lparr>pt_entries := (pt_entries pt)[p := pte]\<rparr>) pm'"
proof -
  have fresh: "pte_frame_num (pt_entries pt ! q) \<noteq> int i"
    if "q < NUM_PAGES" "pte_valid (pt_entries pt ! q) \<noteq> 0" for q
    using inv that assms(5) by (auto simp: vm_inv_def)
  have len: "length (pt_entries pt) = NUM_PAGES" using inv by (simp add: vm_inv_def)
  show ?thesis unfolding vm_inv_def
  proof (intro conjI allI impI)
    fix q assume q: "q < NUM_PAGES"
      "pte_valid (pt_entries (pt\<lparr>pt_entries := (pt_entries pt)[p := pte]\<rparr>) ! q) \<noteq> 0"
    show "0 \<le> pte_frame_num (pt_entries (pt\<lparr>pt_entries := (pt_entries pt)[p := pte]\<rparr>) ! q)"
      "nat (pte_frame_num (pt_entries (pt\<lparr>pt_entries := (pt_entries pt)[p := pte]\<rparr>) ! q)) \<in> frames_used pm'"
      using q inv assms(6-8) len by (cases "q = p"; auto simp: vm_inv_def nth_list_update)+
    fix r assume r: "r < NUM_PAGES"
      "pte_valid (pt_entries (pt\<lparr>pt_entries := (pt_entries pt)[p := pte]\<rparr>) ! r) \<noteq> 0"
      "pte_frame_num (pt_entries (pt\<lparr>pt_entries := (pt_entries pt)[p := pte]\<rparr>) ! q) =
       pte_frame_num (pt_entries (pt\<lparr>pt_entries := (pt_entries pt)[p := pte]\<rparr>) ! r)"
    have at: "pt_entries (pt\<lparr>pt_entries := (pt_entries pt)[p := pte]\<rparr>) ! j = (if j = p then pte else pt_entries pt ! j)"
      if "j < NUM_PAGES" for j using that len by (simp add: nth_list_update)
    note q' = q(2) [unfolded at [OF q(1)]] and r' = r(2) [unfolded at [OF r(1)]]
      and eq = r(3) [unfolded at [OF q(1)] at [OF r(1)]]
    show "q = r"
    proof (cases "q = p \<or> r = p")
      case True
      with eq q' r' fresh [OF q(1)] fresh [OF r(1)] assms(8) show ?thesis by (auto split: if_splits)
    next
      case False
      with inv q(1) r(1) q' r' eq show ?thesis by (simp add: vm_inv_def)
    qed
  qed (use inv assms(4) in \<open>simp_all add: vm_inv_def\<close>)
qed

lemma vm_addr_in_memory:
  assumes "vm_inv pt pm" and "p < NUM_PAGES" and "pte_valid (pt_entries pt ! p) \<noteq> 0" and "0 \<le> off" and "off < VM_PAGE_SIZE"
  shows "0 \<le> pte_frame_num (pt_entries pt ! p) * VM_PAGE_SIZE + off"
    and "pte_frame_num (pt_entries pt ! p) * VM_PAGE_SIZE + off < int (pm_num_frames pm) * VM_PAGE_SIZE"
proof -
  have f: "0 \<le> pte_frame_num (pt_entries pt ! p)" "nat (pte_frame_num (pt_entries pt ! p)) < pm_num_frames pm"
    using assms(1-3) by (auto simp: vm_inv_def frames_used_def)
  then show "0 \<le> pte_frame_num (pt_entries pt ! p) * VM_PAGE_SIZE + off" using assms(4) by (simp add: VM_PAGE_SIZE_def)
  show "pte_frame_num (pt_entries pt ! p) * VM_PAGE_SIZE + off < int (pm_num_frames pm) * VM_PAGE_SIZE"
    using f assms(5) by (simp add: VM_PAGE_SIZE_def)
qed

lemma vm_page_index:
  assumes "0 \<le> va" and "va < int NUM_PAGES * VM_PAGE_SIZE"
  shows "nat (va div VM_PAGE_SIZE) < NUM_PAGES" and "0 \<le> va mod VM_PAGE_SIZE" and "va mod VM_PAGE_SIZE < VM_PAGE_SIZE"
  using assms by (simp_all add: VM_PAGE_SIZE_def NUM_PAGES_def)

lemma paged_eq:
  fixes a b x y :: int
  shows "\<lbrakk>a * VM_PAGE_SIZE + x = b * VM_PAGE_SIZE + y; 0 \<le> x; x < VM_PAGE_SIZE; 0 \<le> y; y < VM_PAGE_SIZE\<rbrakk> \<Longrightarrow> a = b \<and> x = y"
proof -
  assume eq: "a * VM_PAGE_SIZE + x = b * VM_PAGE_SIZE + y"
    and "0 \<le> x" "x < VM_PAGE_SIZE" "0 \<le> y" "y < VM_PAGE_SIZE"
  then have "a = b" by (simp add: VM_PAGE_SIZE_def)
  with eq show ?thesis by simp
qed

lemma vm_maps_inj:
  assumes inv: "vm_inv pt pm" and v: "0 \<le> v" "v < int NUM_PAGES * VM_PAGE_SIZE"
    and w: "0 \<le> w" "w < int NUM_PAGES * VM_PAGE_SIZE" and m: "vm_maps pt v = Some b" "vm_maps pt w = Some b"
  shows "v = w"
proof -
  let ?f = "\<lambda>v. pte_frame_num (pt_entries pt ! nat (v div VM_PAGE_SIZE))"
  have eq: "?f v * VM_PAGE_SIZE + v mod VM_PAGE_SIZE = ?f w * VM_PAGE_SIZE + w mod VM_PAGE_SIZE"
    and valid: "pte_valid (pt_entries pt ! nat (v div VM_PAGE_SIZE)) \<noteq> 0"
      "pte_valid (pt_entries pt ! nat (w div VM_PAGE_SIZE)) \<noteq> 0"
    using m by (auto simp: vm_maps_def Let_def split: if_splits)
  have "?f v = ?f w \<and> v mod VM_PAGE_SIZE = w mod VM_PAGE_SIZE"
    using paged_eq [OF eq] vm_page_index(2,3) [OF v] vm_page_index(2,3) [OF w] by simp
  then have "?f v = ?f w" "v mod VM_PAGE_SIZE = w mod VM_PAGE_SIZE" by simp_all
  with inv valid vm_page_index(1) [OF v] vm_page_index(1) [OF w]
  have "nat (v div VM_PAGE_SIZE) = nat (w div VM_PAGE_SIZE)" by (auto simp: vm_inv_def)
  then have "v div VM_PAGE_SIZE = w div VM_PAGE_SIZE"
    using v w by (simp add: VM_PAGE_SIZE_def eq_nat_nat_iff)
  with \<open>v mod VM_PAGE_SIZE = w mod VM_PAGE_SIZE\<close> show ?thesis by (metis mult_div_mod_eq)
qed

lemma vm_access_cases:
  assumes inv: "vm_inv pt pm" and va: "0 \<le> va"
  shows "\<exists>pt' pm' r. vm_accessMemory pt pm va = Some (pt', pm', r) \<and> vm_inv pt' pm' \<and>
    (case r of
       None \<Rightarrow> pt' = pt \<and> pm' = pm \<and> (int NUM_PAGES * VM_PAGE_SIZE \<le> va \<or> frames_used pm = {..<pm_num_frames pm})
     | Some a \<Rightarrow> vm_maps pt' va = Some a) \<and>
    (\<forall>p < NUM_PAGES. pte_valid (pt_entries pt ! p) \<noteq> 0 \<longrightarrow> pt_entries pt' ! p = pt_entries pt ! p)"
proof -
  let ?q = "va div VM_PAGE_SIZE" and ?off = "va mod VM_PAGE_SIZE"
  have len: "length (pt_entries pt) = NUM_PAGES" "pt_num_pages pt = int NUM_PAGES" and fr: "frames_ok pm"
    using inv by (simp_all add: vm_inv_def)
  have dm: "c_div va VM_PAGE_SIZE = ?q" "c_mod va VM_PAGE_SIZE = ?off"
    using va by (simp_all add: c_div_nonneg c_mod_nonneg VM_PAGE_SIZE_def)
  show ?thesis
  proof (cases "int NUM_PAGES * VM_PAGE_SIZE \<le> va")
    case True
    then have "int NUM_PAGES \<le> ?q" by (simp add: VM_PAGE_SIZE_def)
    with True inv len dm show ?thesis by (simp add: vm_accessMemory_def)
  next
    case False
    with va have lt: "va < int NUM_PAGES * VM_PAGE_SIZE" by simp
    note idx = vm_page_index [OF va lt]
    have q: "0 \<le> ?q" "?q < int NUM_PAGES" using va idx(1) by (auto simp: VM_PAGE_SIZE_def)
    let ?pte = "pt_entries pt ! nat ?q"
    have rd_q: "rdi (pt_entries pt) ?q = Some ?pte" using q idx len by simp
    show ?thesis
    proof (cases "pte_valid ?pte = 0")
      case False
      note addr = vm_addr_in_memory [OF inv idx(1) False idx(2,3)]
      have "vm_accessMemory pt pm va = Some (pt, pm, Some (pte_frame_num ?pte * VM_PAGE_SIZE + ?off))"
        using q len dm rd_q False addr by (simp add: vm_accessMemory_def)
      with inv False show ?thesis by (simp add: vm_maps_def)
    next
      case True
      from fr show ?thesis
      proof (cases rule: allocateFrame_cases)
        case full
        have "vm_accessMemory pt pm va = Some (pt, pm, None)"
          using q len dm rd_q True full by (simp add: vm_accessMemory_def)
        with inv full show ?thesis by simp
      next
        case (frame pm' i)
        let ?pte' = "?pte\<lparr>pte_valid := 1, pte_frame_num := int i, pte_ref := 1\<rparr>"
        let ?pt' = "pt\<lparr>pt_entries := (pt_entries pt)[nat ?q := ?pte']\<rparr>"
        have inv': "vm_inv ?pt' pm'"
          using vm_inv_fault [OF inv idx(1) True frame(2) frame(5) frame(6), of ?pte'] by simp
        have at: "pt_entries ?pt' ! nat ?q = ?pte'" using idx(1) len by simp
        have addr: "0 \<le> int i * VM_PAGE_SIZE + ?off" "int i * VM_PAGE_SIZE + ?off < int (pm_num_frames pm') * VM_PAGE_SIZE"
          using vm_addr_in_memory [OF inv' idx(1) _ idx(2,3)] at by simp_all
        have "vm_accessMemory pt pm va = Some (?pt', pm', Some (int i * VM_PAGE_SIZE + ?off))"
          using q len dm rd_q True frame(1) addr idx(1) by (simp add: vm_accessMemory_def Let_def)
        moreover have "vm_maps ?pt' va = Some (int i * VM_PAGE_SIZE + ?off)"
          unfolding vm_maps_def at by simp
        moreover have "\<forall>p < NUM_PAGES. pte_valid (pt_entries pt ! p) \<noteq> 0 \<longrightarrow> pt_entries ?pt' ! p = pt_entries pt ! p"
          using True idx(1) len by (auto simp: nth_list_update)
        ultimately show ?thesis using inv' by (intro exI [of _ ?pt'] exI [of _ pm']) auto
      qed
    qed
  qed
qed

text \<open>C17: Demand paging: for any nonnegative virtual address the access returns. It yields \<open>NULL\<close>, with nothing
  changed, only for an address past the last page or when all frames are in use; otherwise the
  address inside the frame of its page, and every page mapped before stays where it was. Distinct
  mapped addresses always have distinct physical addresses inside the memory.\<close>
theorem demand_paging_correct:
  assumes inv: "vm_inv pt pm" and va: "0 \<le> va"
  shows "\<exists>pt' pm' r. vm_accessMemory pt pm va = Some (pt', pm', r) \<and> vm_inv pt' pm' \<and>
    (case r of
       None \<Rightarrow> pt' = pt \<and> pm' = pm \<and> (int NUM_PAGES * VM_PAGE_SIZE \<le> va \<or> frames_used pm = {..<pm_num_frames pm})
     | Some a \<Rightarrow> vm_maps pt' va = Some a) \<and>
    (\<forall>v b. 0 \<le> v \<longrightarrow> v < int NUM_PAGES * VM_PAGE_SIZE \<longrightarrow> vm_maps pt v = Some b \<longrightarrow> vm_maps pt' v = Some b) \<and>
    (\<forall>v w b. 0 \<le> v \<longrightarrow> v < int NUM_PAGES * VM_PAGE_SIZE \<longrightarrow> 0 \<le> w \<longrightarrow> w < int NUM_PAGES * VM_PAGE_SIZE \<longrightarrow>
       vm_maps pt' v = Some b \<longrightarrow> vm_maps pt' w = Some b \<longrightarrow> v = w)"
proof -
  from vm_access_cases [OF assms] obtain pt' pm' r where
    a: "vm_accessMemory pt pm va = Some (pt', pm', r)" "vm_inv pt' pm'"
      "case r of
       None \<Rightarrow> pt' = pt \<and> pm' = pm \<and> (int NUM_PAGES * VM_PAGE_SIZE \<le> va \<or> frames_used pm = {..<pm_num_frames pm})
     | Some a \<Rightarrow> vm_maps pt' va = Some a"
    and keep: "\<forall>p < NUM_PAGES. pte_valid (pt_entries pt ! p) \<noteq> 0 \<longrightarrow> pt_entries pt' ! p = pt_entries pt ! p" by blast
  have "vm_maps pt' v = Some b" if "0 \<le> v" "v < int NUM_PAGES * VM_PAGE_SIZE" "vm_maps pt v = Some b" for v b
    using keep vm_page_index(1) [OF that(1,2)] that(3) by (auto simp: vm_maps_def Let_def split: if_splits)
  with a vm_maps_inj [OF a(2)] show ?thesis by (intro exI [of _ pt'] exI [of _ pm'] exI [of _ r]) blast
qed

theorem demand_paging_correct_witness:
  "\<exists>pt' pm' r. vm_accessMemory initializePageTable initializePhysicalMemory 20485 = Some (pt', pm', r) \<and> vm_inv pt' pm' \<and>
    (case r of
       None \<Rightarrow> pt' = initializePageTable \<and> pm' = initializePhysicalMemory \<and>
         (int NUM_PAGES * VM_PAGE_SIZE \<le> 20485 \<or>
          frames_used initializePhysicalMemory = {..<pm_num_frames initializePhysicalMemory})
     | Some a \<Rightarrow> vm_maps pt' 20485 = Some a) \<and>
    (\<forall>v b. 0 \<le> v \<longrightarrow> v < int NUM_PAGES * VM_PAGE_SIZE \<longrightarrow> vm_maps initializePageTable v = Some b \<longrightarrow> vm_maps pt' v = Some b) \<and>
    (\<forall>v w b. 0 \<le> v \<longrightarrow> v < int NUM_PAGES * VM_PAGE_SIZE \<longrightarrow> 0 \<le> w \<longrightarrow> w < int NUM_PAGES * VM_PAGE_SIZE \<longrightarrow>
       vm_maps pt' v = Some b \<longrightarrow> vm_maps pt' w = Some b \<longrightarrow> v = w)"
  by (rule demand_paging_correct [OF vm_inv_init]) simp

text \<open>A negative virtual address is not rejected: it leads outside the memory.\<close>

lemma negative_address_undefined:
  "vm_accessMemory initializePageTable initializePhysicalMemory (- 1) = None"
  "vm_accessMemory initializePageTable initializePhysicalMemory (- 5000) = None"
proof -
  have "c_div (- 1) VM_PAGE_SIZE = 0" "c_mod (- 1) VM_PAGE_SIZE = - 1" "c_div (- 5000) VM_PAGE_SIZE = - 1"
    by (simp_all add: c_div_def c_mod_def VM_PAGE_SIZE_def)
  moreover have "find (\<lambda>i. replicate NUM_FRAMES (0 :: int) ! i = 0) [0..<NUM_FRAMES] = Some 0"
    by (simp add: find_upt_Some NUM_FRAMES_def)
  ultimately show
    "vm_accessMemory initializePageTable initializePhysicalMemory (- 1) = None"
    "vm_accessMemory initializePageTable initializePhysicalMemory (- 5000) = None"
    by (simp_all add: vm_accessMemory_def initializePageTable_def initializePhysicalMemory_def rdi_def
        allocateFrame_def first_free_eq NUM_PAGES_def wr_def wri_def rd_def)
      (simp add: NUM_FRAMES_def Let_def)
qed

subsection \<open>The address map (AddressTranslator.c)\<close>

definition LOGICAL_MEMORY_SIZE :: int where
  "LOGICAL_MEMORY_SIZE = 1024"

definition PHYSICAL_MEMORY_SIZE :: int where
  "PHYSICAL_MEMORY_SIZE = 2048"

definition AM_PAGE_SIZE :: int where
  "AM_PAGE_SIZE = 256"

record address_mapping =
  am_logical_address :: c_uint
  am_physical_address :: c_uint
  am_valid :: int
  am_protection :: int

record address_translator =
  atr_physical_memory :: "8 word list"
  atr_address_map :: "address_mapping list"
  atr_map_size :: int
  atr_used_physical_memory :: int

text \<open>
  The buffer has \<open>sizeof(PHYSICAL_MEMORY_SIZE)\<close> bytes, the size of an \<open>int\<close>, but \<open>memset\<close>
  writes \<open>PHYSICAL_MEMORY_SIZE\<close> of them.
\<close>

definition initializeAddressTranslator :: "address_translator option" where
  "initializeAddressTranslator = do {
     mem \<leftarrow> for_loop 0 (nat PHYSICAL_MEMORY_SIZE) (\<lambda>i m. wr m i 0) (replicate 4 0);
     let map_size = LOGICAL_MEMORY_SIZE div AM_PAGE_SIZE;
     m \<leftarrow> for_loop 0 (nat map_size) (\<lambda>i m. wr m i \<lparr>am_logical_address = of_int (int i * AM_PAGE_SIZE),
            am_physical_address = 0, am_valid = 0, am_protection = 0\<rparr>)
          (replicate (nat map_size) \<lparr>am_logical_address = 0, am_physical_address = 0, am_valid = 0, am_protection = 0\<rparr>);
     Some \<lparr>atr_physical_memory = mem, atr_address_map = m, atr_map_size = map_size, atr_used_physical_memory = 0\<rparr> }"

definition createAddressMapping :: "address_translator \<Rightarrow> c_uint \<Rightarrow> int \<Rightarrow> (address_translator \<times> int) option" where
  "createAddressMapping translator logical_address protection = (
     let page_idx = uint logical_address div AM_PAGE_SIZE
     in if page_idx \<ge> atr_map_size translator then Some (translator, - 1)
     else do {
       next_used \<leftarrow> chk (atr_used_physical_memory translator + AM_PAGE_SIZE);
       if next_used > PHYSICAL_MEMORY_SIZE then Some (translator, - 1)
       else do {
         m \<leftarrow> wri (atr_address_map translator) page_idx
            \<lparr>am_logical_address = logical_address,
             am_physical_address = of_int (atr_used_physical_memory translator),
             am_valid = 1, am_protection = protection\<rparr>;
         Some (translator\<lparr>atr_address_map := m, atr_used_physical_memory := next_used\<rparr>, 0) } })"

definition am_translateAddress :: "address_translator \<Rightarrow> c_uint \<Rightarrow> int \<Rightarrow> c_uint option" where
  "am_translateAddress translator logical_address access_type = (
     let page_idx = uint logical_address div AM_PAGE_SIZE;
         offset = uint logical_address mod AM_PAGE_SIZE
     in if page_idx \<ge> atr_map_size translator then Some (- 1)
     else do {
       mapping \<leftarrow> rdi (atr_address_map translator) page_idx;
       if am_valid mapping = 0 then Some (- 1)
       else if (access_type AND am_protection mapping) \<noteq> access_type then Some (- 1)
       else Some (am_physical_address mapping + of_int offset) })"

lemma wr_loop_overrun:
  "\<lbrakk>length m < n\<rbrakk> \<Longrightarrow> for_loop 0 n (\<lambda>i m. wr m i v) m = None"
proof (rule ccontr)
  assume len: "length m < n" and "for_loop 0 n (\<lambda>i m. wr m i v) m \<noteq> None"
  then obtain m' where "for_loop 0 n (\<lambda>i m. wr m i v) m = Some m'" by auto
  then have "length m' = length m \<and> n \<le> length m"
  proof (rule for_loop_partial)
    fix i and xs xs' :: "'a list"
    assume "length xs = length m \<and> i \<le> length m" "wr xs i v = Some xs'"
    then show "length xs' = length m \<and> Suc i \<le> length m" by (simp add: wr_def split: if_splits) auto
  qed simp_all
  with len show False by simp
qed

text \<open>So the initialisation writes past its buffer: it has no defined result.\<close>

lemma initializeAddressTranslator_undefined: "initializeAddressTranslator = None"
  by (simp add: initializeAddressTranslator_def wr_loop_overrun PHYSICAL_MEMORY_SIZE_def)

text \<open>
  The segment table and the memory manager of this file, which nothing uses; \<open>MAX_SEGMENTS\<close> is declared nowhere in it
  and a parameter, so is the member \<open>page_table\<close>, which is never set. The demo and the manager start with the
  initialisation above.
\<close>

record segment_descriptor =
  sde_base :: c_uint
  sde_limit :: c_uint
  sde_protection :: c_uint

record am_segment_table =
  ast_segments :: "segment_descriptor list"
  ast_num_segments :: int

record am_page_table_entry =
  ape_frame_num :: c_uint
  ape_valid :: c_uint
  ape_protection_bits :: c_uint

record memory_manager =
  mmg_address_translator :: address_translator
  mmg_segment_table :: am_segment_table
  mmg_page_table :: "am_page_table_entry list"
  mmg_translations :: c_uint
  mmg_page_faults :: c_uint
  mmg_segment_violations :: c_uint

definition am_initSegmentTable :: "nat \<Rightarrow> am_segment_table" where
  "am_initSegmentTable max_segments = \<lparr>ast_segments = replicate max_segments \<lparr>sde_base = 0, sde_limit = 0, sde_protection = 0\<rparr>,
     ast_num_segments = 0\<rparr>"

definition initMemoryManager :: "nat \<Rightarrow> am_page_table_entry list \<Rightarrow> memory_manager option" where
  "initMemoryManager max_segments page_table = do {
     translator \<leftarrow> initializeAddressTranslator;
     Some \<lparr>mmg_address_translator = translator, mmg_segment_table = am_initSegmentTable max_segments,
       mmg_page_table = page_table, mmg_translations = 0, mmg_page_faults = 0, mmg_segment_violations = 0\<rparr> }"

text \<open>The demo: three mappings, then one translation per page with the access types 1, 2 and 3.\<close>

definition am_demo :: "c_uint list option" where
  "am_demo = do {
     t \<leftarrow> initializeAddressTranslator;
     (t, _) \<leftarrow> createAddressMapping t 0x0000 3;
     (t, _) \<leftarrow> createAddressMapping t 0x0100 1;
     (t, _) \<leftarrow> createAddressMapping t 0x0200 2;
     p1 \<leftarrow> am_translateAddress t 0x0050 1;
     p2 \<leftarrow> am_translateAddress t 0x0150 2;
     p3 \<leftarrow> am_translateAddress t 0x0250 3;
     Some [p1, p2, p3] }"

lemma manager_and_demo_undefined: "initMemoryManager max_segments page_table = None" "am_demo = None"
  by (simp_all add: initMemoryManager_def am_demo_def initializeAddressTranslator_undefined)

text \<open>
  The other two operations are sound on any translator whose valid pages own distinct page
  frames below \<open>used_physical_memory\<close>.
\<close>

definition am_inv :: "address_translator \<Rightarrow> bool" where
  "am_inv t \<longleftrightarrow> length (atr_address_map t) = 4 \<and> atr_map_size t = 4 \<and>
     0 \<le> atr_used_physical_memory t \<and> atr_used_physical_memory t \<le> PHYSICAL_MEMORY_SIZE \<and>
     atr_used_physical_memory t mod AM_PAGE_SIZE = 0 \<and>
     (\<forall>i < 4. am_valid (atr_address_map t ! i) \<noteq> 0 \<longrightarrow>
        uint (am_physical_address (atr_address_map t ! i)) mod AM_PAGE_SIZE = 0 \<and>
        uint (am_physical_address (atr_address_map t ! i)) < atr_used_physical_memory t) \<and>
     (\<forall>i < 4. \<forall>j < 4. am_valid (atr_address_map t ! i) \<noteq> 0 \<longrightarrow> am_valid (atr_address_map t ! j) \<noteq> 0 \<longrightarrow>
        am_physical_address (atr_address_map t ! i) = am_physical_address (atr_address_map t ! j) \<longrightarrow> i = j)"

lemma am_inv_create:
  assumes inv: "am_inv t" and p: "p < 4" and room: "atr_used_physical_memory t + AM_PAGE_SIZE \<le> PHYSICAL_MEMORY_SIZE"
    and m: "am_physical_address m = of_int (atr_used_physical_memory t)"
  shows "am_inv (t\<lparr>atr_address_map := (atr_address_map t)[p := m],
     atr_used_physical_memory := atr_used_physical_memory t + AM_PAGE_SIZE\<rparr>)"
proof -
  let ?u = "atr_used_physical_memory t" and ?ms = "(atr_address_map t)[p := m]"
  have u: "0 \<le> ?u" "?u \<le> 2048" "?u mod 256 = 0" using inv by (auto simp: am_inv_def PHYSICAL_MEMORY_SIZE_def AM_PAGE_SIZE_def)
  have mu: "uint (am_physical_address m) = ?u"
    unfolding m using u by (simp add: uint_word_of_int_eq take_bit_int_eq_self_iff)
  have at: "?ms ! j = (if j = p then m else atr_address_map t ! j)" if "j < 4" for j
    using inv p that by (simp add: am_inv_def nth_list_update)
  have below: "uint (am_physical_address (atr_address_map t ! j)) < ?u \<and>
      uint (am_physical_address (atr_address_map t ! j)) mod 256 = 0"
    if "j < 4" "am_valid (atr_address_map t ! j) \<noteq> 0" for j
    using inv that by (simp add: am_inv_def AM_PAGE_SIZE_def)
  show ?thesis unfolding am_inv_def
  proof (intro conjI allI impI)
    fix i assume i: "i < 4"
      "am_valid (atr_address_map (t\<lparr>atr_address_map := ?ms, atr_used_physical_memory := ?u + AM_PAGE_SIZE\<rparr>) ! i) \<noteq> 0"
    have vi: "i = p \<or> am_valid (atr_address_map t ! i) \<noteq> 0" using i at [OF i(1)] by (auto split: if_splits)
    show "uint (am_physical_address (atr_address_map (t\<lparr>atr_address_map := ?ms, atr_used_physical_memory := ?u + AM_PAGE_SIZE\<rparr>) ! i)) mod AM_PAGE_SIZE = 0"
      "uint (am_physical_address (atr_address_map (t\<lparr>atr_address_map := ?ms, atr_used_physical_memory := ?u + AM_PAGE_SIZE\<rparr>) ! i)) <
       atr_used_physical_memory (t\<lparr>atr_address_map := ?ms, atr_used_physical_memory := ?u + AM_PAGE_SIZE\<rparr>)"
      using vi at [OF i(1)] mu u below [OF i(1)] by (auto simp: AM_PAGE_SIZE_def)
    fix j assume j: "j < 4"
      "am_valid (atr_address_map (t\<lparr>atr_address_map := ?ms, atr_used_physical_memory := ?u + AM_PAGE_SIZE\<rparr>) ! j) \<noteq> 0"
      "am_physical_address (atr_address_map (t\<lparr>atr_address_map := ?ms, atr_used_physical_memory := ?u + AM_PAGE_SIZE\<rparr>) ! i) =
       am_physical_address (atr_address_map (t\<lparr>atr_address_map := ?ms, atr_used_physical_memory := ?u + AM_PAGE_SIZE\<rparr>) ! j)"
    have vj: "j = p \<or> am_valid (atr_address_map t ! j) \<noteq> 0" using j at [OF j(1)] by (auto split: if_splits)
    have eq: "am_physical_address (if i = p then m else atr_address_map t ! i) =
        am_physical_address (if j = p then m else atr_address_map t ! j)"
      using j(3) at [OF i(1)] at [OF j(1)] by simp
    show "i = j"
    proof (cases "i = p \<or> j = p")
      case True
      with eq vi vj mu below [OF i(1)] below [OF j(1)] show ?thesis by (auto split: if_splits)
    next
      case False
      with eq vi vj inv i(1) j(1) show ?thesis by (simp add: am_inv_def)
    qed
  qed (use inv u room p in \<open>auto simp: am_inv_def PHYSICAL_MEMORY_SIZE_def AM_PAGE_SIZE_def\<close>)
qed

text \<open>A new mapping changes the translation of its own page only.\<close>

lemma am_translate_created:
  assumes t: "length (atr_address_map t) = 4" "atr_map_size t = 4" and p: "uint la div AM_PAGE_SIZE < 4"
  shows "am_translateAddress (t\<lparr>atr_address_map := (atr_address_map t)[nat (uint la div AM_PAGE_SIZE) :=
      \<lparr>am_logical_address = la, am_physical_address = of_int u, am_valid = 1, am_protection = prot\<rparr>],
      atr_used_physical_memory := w\<rparr>) v acc =
    (if uint v div AM_PAGE_SIZE = uint la div AM_PAGE_SIZE
     then Some (if acc AND prot = acc then of_int u + of_int (uint v mod AM_PAGE_SIZE) else - 1)
     else am_translateAddress t v acc)"
proof -
  have page: "0 \<le> uint x div AM_PAGE_SIZE" for x :: c_uint by (simp add: AM_PAGE_SIZE_def pos_imp_zdiv_nonneg_iff)
  show ?thesis
  proof (cases "uint v div AM_PAGE_SIZE = uint la div AM_PAGE_SIZE")
    case True
    with p page [of la] t show ?thesis by (simp add: am_translateAddress_def)
  next
    case False
    then have "nat (uint v div AM_PAGE_SIZE) \<noteq> nat (uint la div AM_PAGE_SIZE)" by (simp add: eq_nat_nat_iff [OF page page])
    with page [of v] have "rdi ((atr_address_map t)[nat (uint la div AM_PAGE_SIZE) := m]) (uint v div AM_PAGE_SIZE) =
        rdi (atr_address_map t) (uint v div AM_PAGE_SIZE)" for m by (simp add: rdi_def rd_update)
    with False show ?thesis by (simp add: am_translateAddress_def Let_def)
  qed
qed

text \<open>C18: A mapping in the address map either fails with nothing changed, for an address past the logical
  memory or when physical memory is used up, or makes exactly the addresses of its page translate to
  a fresh page frame, for the access types its protection contains, and leaves every other page alone.\<close>
theorem create_then_translate:
  assumes inv: "am_inv t"
  shows "\<exists>t' r. createAddressMapping t la prot = Some (t', r) \<and> am_inv t' \<and>
    (r = - 1 \<and> t' = t \<and> (LOGICAL_MEMORY_SIZE \<le> uint la \<or> atr_used_physical_memory t = PHYSICAL_MEMORY_SIZE) \<or>
     r = 0 \<and> uint la < LOGICAL_MEMORY_SIZE \<and>
     (\<forall>v acc. am_translateAddress t' v acc =
        (if uint v div AM_PAGE_SIZE = uint la div AM_PAGE_SIZE
         then Some (if acc AND prot = acc then of_int (atr_used_physical_memory t) + of_int (uint v mod AM_PAGE_SIZE) else - 1)
         else am_translateAddress t v acc)))"
proof -
  let ?u = "atr_used_physical_memory t" and ?p = "uint la div AM_PAGE_SIZE"
  have iv: "length (atr_address_map t) = 4" "atr_map_size t = 4" "0 \<le> ?u" "?u \<le> 2048" "?u mod 256 = 0"
    using inv by (auto simp: am_inv_def PHYSICAL_MEMORY_SIZE_def AM_PAGE_SIZE_def)
  have p0: "0 \<le> ?p" by (simp add: AM_PAGE_SIZE_def pos_imp_zdiv_nonneg_iff)
  have chk: "chk (?u + AM_PAGE_SIZE) = Some (?u + AM_PAGE_SIZE)"
    using iv by (simp add: AM_PAGE_SIZE_def int_ok_def INT_MIN_def INT_MAX_def)
  consider "4 \<le> ?p" | "?p < 4" "PHYSICAL_MEMORY_SIZE < ?u + AM_PAGE_SIZE" | "?p < 4" "?u + AM_PAGE_SIZE \<le> PHYSICAL_MEMORY_SIZE"
    by linarith
  then show ?thesis
  proof cases
    case 1
    then have "LOGICAL_MEMORY_SIZE \<le> uint la" by (simp add: AM_PAGE_SIZE_def LOGICAL_MEMORY_SIZE_def)
    with 1 inv iv show ?thesis by (simp add: createAddressMapping_def)
  next
    case 2
    have "?u = 2048" using iv(3-5) 2(2) by (simp add: AM_PAGE_SIZE_def PHYSICAL_MEMORY_SIZE_def) presburger
    with 2 inv iv chk show ?thesis by (simp add: createAddressMapping_def PHYSICAL_MEMORY_SIZE_def)
  next
    case 3
    let ?m = "\<lparr>am_logical_address = la, am_physical_address = of_int ?u, am_valid = 1, am_protection = prot\<rparr>"
    let ?t' = "t\<lparr>atr_address_map := (atr_address_map t)[nat ?p := ?m], atr_used_physical_memory := ?u + AM_PAGE_SIZE\<rparr>"
    have p: "nat ?p < 4" using 3(1) p0 by simp
    have run: "createAddressMapping t la prot = Some (?t', 0)"
      using 3 p p0 iv(1,2) chk by (simp add: createAddressMapping_def)
    have inv': "am_inv ?t'" using am_inv_create [OF inv p 3(2), of ?m] by simp
    note tr = am_translate_created [OF iv(1,2) 3(1), where prot = prot]
    have "uint la < LOGICAL_MEMORY_SIZE" using 3(1) by (simp add: AM_PAGE_SIZE_def LOGICAL_MEMORY_SIZE_def)
    with run inv' tr show ?thesis by (intro exI [of _ ?t'] exI [of _ 0]) simp
  qed
qed

definition am_start :: address_translator where
  "am_start = \<lparr>atr_physical_memory = [], atr_address_map = replicate 4 \<lparr>am_logical_address = 0,
     am_physical_address = 0, am_valid = 0, am_protection = 0\<rparr>, atr_map_size = 4, atr_used_physical_memory = 0\<rparr>"

theorem create_then_translate_witness:
  "\<exists>t' r. createAddressMapping am_start 0x100 1 = Some (t', r) \<and> am_inv t' \<and>
    (r = - 1 \<and> t' = am_start \<and>
       (LOGICAL_MEMORY_SIZE \<le> uint (0x100 :: c_uint) \<or> atr_used_physical_memory am_start = PHYSICAL_MEMORY_SIZE) \<or>
     r = 0 \<and> uint (0x100 :: c_uint) < LOGICAL_MEMORY_SIZE \<and>
     (\<forall>v acc. am_translateAddress t' v acc =
        (if uint v div AM_PAGE_SIZE = uint (0x100 :: c_uint) div AM_PAGE_SIZE
         then Some (if acc AND 1 = acc then of_int (atr_used_physical_memory am_start) + of_int (uint v mod AM_PAGE_SIZE) else - 1)
         else am_translateAddress am_start v acc)))"
  by (rule create_then_translate) (auto simp: am_inv_def am_start_def PHYSICAL_MEMORY_SIZE_def AM_PAGE_SIZE_def)

end
