(* ===== verification/Tlb_Translation.thy ===== *)
theory Tlb_Translation
  imports OS_Prelude
begin

unbundle bit_operations_syntax

section \<open>TLB and page tables: d16 Translation_mechanism.c, d22\<close>

text \<open>
  The translation look-aside buffer of d16, with its LRU update, in front of a page table; and
  the page table of d22 (Demand_Paging.c and Page_Table_Implementation.c are the same text).
  All times and addresses are 32-bit words; the TLB clock may wrap, which changes which entry
  is replaced but never a translation. The source counts the TLB entries with an \<open>int\<close>, here it is a natural number: they agree for the
  sizes up to \<open>INT_MAX\<close>, and the TLB has 16 entries.
\<close>

subsection \<open>State\<close>

definition TLB_SIZE :: c_uint where
  "TLB_SIZE = 16"

definition PAGE_TABLE_SIZE :: c_uint where
  "PAGE_TABLE_SIZE = 1024"

definition OFFSET_BITS :: nat where
  "OFFSET_BITS = 12"

record tlb_entry =
  te_page_num :: c_uint
  te_frame_num :: c_uint
  te_valid :: c_uint
  te_access_time :: c_uint

record page_table_entry =
  pe_frame_num :: c_uint
  pe_valid :: c_uint
  pe_protection_bits :: c_uint

record tlb_translator =
  at_tlb :: "tlb_entry list"
  at_page_table :: "page_table_entry list"
  at_tlb_size :: c_uint
  at_page_table_size :: c_uint
  at_clock :: c_uint

definition at_initialize :: tlb_translator where
  "at_initialize =
     \<lparr>at_tlb = replicate (unat TLB_SIZE) \<lparr>te_page_num = 0, te_frame_num = 0, te_valid = 0, te_access_time = 0\<rparr>,
      at_page_table = replicate (unat PAGE_TABLE_SIZE) \<lparr>pe_frame_num = 0, pe_valid = 0, pe_protection_bits = 0\<rparr>,
      at_tlb_size = TLB_SIZE, at_page_table_size = PAGE_TABLE_SIZE, at_clock = 0\<rparr>"

subsection \<open>Operations\<close>

definition updateTLB :: "tlb_translator \<Rightarrow> c_uint \<Rightarrow> c_uint \<Rightarrow> tlb_translator option" where
  "updateTLB at page_num frame_num = do {
     e0 \<leftarrow> rd (at_tlb at) 0;
     (lru_idx, min_time) \<leftarrow> for_loop 1 (unat (at_tlb_size at)) (\<lambda>i (lru_idx, min_time). do {
        e \<leftarrow> rd (at_tlb at) i;
        Some (if te_access_time e < min_time then (i, te_access_time e) else (lru_idx, min_time)) })
        (0, te_access_time e0);
     tlb \<leftarrow> wr (at_tlb at) lru_idx
        \<lparr>te_page_num = page_num, te_frame_num = frame_num, te_valid = 1, te_access_time = at_clock at\<rparr>;
     Some (at\<lparr>at_tlb := tlb, at_clock := at_clock at + 1\<rparr>) }"

definition tlb_translateAddress :: "tlb_translator \<Rightarrow> c_uint \<Rightarrow> (tlb_translator \<times> c_uint) option" where
  "tlb_translateAddress at logical_address = (
     let page_num = drop_bit OFFSET_BITS logical_address;
         offset = logical_address AND (push_bit OFFSET_BITS 1 - 1)
     in do {
       hit \<leftarrow> search_first 0 (unat (at_tlb_size at)) (\<lambda>i. do {
          e \<leftarrow> rd (at_tlb at) i; Some (te_valid e \<noteq> 0 \<and> te_page_num e = page_num) });
       (case hit of
          Some i \<Rightarrow> do {
            e \<leftarrow> rd (at_tlb at) i;
            tlb \<leftarrow> wr (at_tlb at) i (e\<lparr>te_access_time := at_clock at\<rparr>);
            Some (at\<lparr>at_tlb := tlb, at_clock := at_clock at + 1\<rparr>,
              push_bit OFFSET_BITS (te_frame_num e) OR offset) }
        | None \<Rightarrow>
            if page_num \<ge> at_page_table_size at then Some (at, - 1)
            else do {
              pte \<leftarrow> rd (at_page_table at) (unat page_num);
              if pe_valid pte = 0 then Some (at, - 1)
              else do {
                at' \<leftarrow> updateTLB at page_num (pe_frame_num pte);
                Some (at', push_bit OFFSET_BITS (pe_frame_num pte) OR offset) } }) })"

subsection \<open>The TLB never changes a translation\<close>

text \<open>The page-table walk, without a TLB.\<close>

definition mapped_page :: "tlb_translator \<Rightarrow> c_uint \<Rightarrow> c_uint \<Rightarrow> bool" where
  "mapped_page at page frame \<longleftrightarrow> page < at_page_table_size at \<and>
     pe_valid (at_page_table at ! unat page) \<noteq> 0 \<and> pe_frame_num (at_page_table at ! unat page) = frame"

definition page_walk :: "tlb_translator \<Rightarrow> c_uint \<Rightarrow> c_uint" where
  "page_walk at la = (
     let page = drop_bit OFFSET_BITS la
     in if page < at_page_table_size at \<and> pe_valid (at_page_table at ! unat page) \<noteq> 0
        then push_bit OFFSET_BITS (pe_frame_num (at_page_table at ! unat page)) OR (la AND (push_bit OFFSET_BITS 1 - 1))
        else - 1)"

definition in_tlb :: "tlb_translator \<Rightarrow> c_uint \<Rightarrow> bool" where
  "in_tlb at page \<longleftrightarrow> (\<exists>e \<in> set (at_tlb at). te_valid e \<noteq> 0 \<and> te_page_num e = page)"

definition tlb_inv :: "tlb_translator \<Rightarrow> bool" where
  "tlb_inv at \<longleftrightarrow> 0 < unat (at_tlb_size at) \<and> length (at_tlb at) = unat (at_tlb_size at) \<and>
     length (at_page_table at) = unat (at_page_table_size at) \<and>
     (\<forall>e \<in> set (at_tlb at). te_valid e \<noteq> 0 \<longrightarrow> mapped_page at (te_page_num e) (te_frame_num e))"

lemma updateTLB_ok:
  assumes "tlb_inv at"
  shows "\<exists>v < length (at_tlb at). updateTLB at page frame =
    Some (at\<lparr>at_tlb := (at_tlb at)[v := \<lparr>te_page_num = page, te_frame_num = frame, te_valid = 1,
       te_access_time = at_clock at\<rparr>], at_clock := at_clock at + 1\<rparr>)"
proof -
  let ?n = "unat (at_tlb_size at)" and ?f = "\<lambda>i. te_access_time (at_tlb at ! i)"
  have n: "1 \<le> ?n" "length (at_tlb at) = ?n" using assms by (auto simp: tlb_inv_def)
  let ?body = "\<lambda>i (lru_idx, min_time). do { e \<leftarrow> rd (at_tlb at) i;
        Some (if te_access_time e < min_time then (i, te_access_time e) else (lru_idx, min_time)) }"
  have "\<exists>b m. for_loop 1 ?n ?body (0, ?f 0) = Some (b, m) \<and> m \<le> ?f 0 \<and> (\<forall>j. 1 \<le> j \<longrightarrow> j < ?n \<longrightarrow> m \<le> ?f j) \<and>
     (m = ?f 0 \<and> b = 0 \<or> (\<exists>v. 1 \<le> v \<and> v < ?n \<and> b = v \<and> m = ?f v \<and> ?f v < ?f 0 \<and>
        (\<forall>j. 1 \<le> j \<longrightarrow> j < v \<longrightarrow> ?f v < ?f j)))"
    using n by (intro for_loop_argmin) auto
  then obtain b m where bm: "for_loop 1 ?n ?body (0, ?f 0) = Some (b, m)" "b < ?n" using n by auto
  then show ?thesis using n by (intro exI [of _ b]) (simp add: updateTLB_def)
qed

lemma tlb_inv_update:
  assumes inv: "tlb_inv at" and v: "v < length (at_tlb at)"
    and e: "te_valid e \<noteq> 0 \<Longrightarrow> mapped_page at (te_page_num e) (te_frame_num e)"
  shows "tlb_inv (at\<lparr>at_tlb := (at_tlb at)[v := e], at_clock := c\<rparr>)"
proof -
  have "mapped_page (at\<lparr>at_tlb := t, at_clock := c\<rparr>) p f = mapped_page at p f" for t p f
    by (simp add: mapped_page_def)
  with inv e set_update_subset_insert [of "at_tlb at" v e] show ?thesis
    by (auto simp: tlb_inv_def)
qed

text \<open>The three ways of a translation: found in the TLB, not mapped, and loaded from the page table.\<close>

lemma tlb_search:
  assumes "tlb_inv at"
  shows "search_first 0 (unat (at_tlb_size at)) (\<lambda>i. do {
      e \<leftarrow> rd (at_tlb at) i; Some (te_valid e \<noteq> 0 \<and> te_page_num e = p) }) =
    Some (find (\<lambda>i. te_valid (at_tlb at ! i) \<noteq> 0 \<and> te_page_num (at_tlb at ! i) = p) [0..<unat (at_tlb_size at)])"
  using assms by (intro search_first_total) (auto simp: tlb_inv_def)

lemma page_walk_update [simp]: "page_walk (at\<lparr>at_tlb := t, at_clock := c\<rparr>) v = page_walk at v"
  by (simp add: page_walk_def Let_def)

lemma tlb_hit:
  assumes inv: "tlb_inv at" and hit: "find (\<lambda>i. te_valid (at_tlb at ! i) \<noteq> 0 \<and> te_page_num (at_tlb at ! i) = drop_bit OFFSET_BITS la)
      [0..<unat (at_tlb_size at)] = Some i"
  defines "at' \<equiv> at\<lparr>at_tlb := (at_tlb at)[i := (at_tlb at ! i)\<lparr>te_access_time := at_clock at\<rparr>], at_clock := at_clock at + 1\<rparr>"
  shows "tlb_translateAddress at la = Some (at', page_walk at la) \<and> tlb_inv at' \<and> in_tlb at' (drop_bit OFFSET_BITS la)"
proof -
  let ?p = "drop_bit OFFSET_BITS la" and ?e = "at_tlb at ! i"
  have i: "i < length (at_tlb at)" "te_valid ?e \<noteq> 0" "te_page_num ?e = ?p" using inv hit by (auto simp: tlb_inv_def find_upt_Some)
  have m: "mapped_page at ?p (te_frame_num ?e)" using inv i by (auto simp: tlb_inv_def)
  have "tlb_translateAddress at la = Some (at', push_bit OFFSET_BITS (te_frame_num ?e) OR (la AND (push_bit OFFSET_BITS 1 - 1)))"
    using i tlb_search [OF inv] hit by (simp add: tlb_translateAddress_def at'_def Let_def)
  also have "push_bit OFFSET_BITS (te_frame_num ?e) OR (la AND (push_bit OFFSET_BITS 1 - 1)) = page_walk at la"
    using m by (simp add: page_walk_def mapped_page_def Let_def)
  finally have "tlb_translateAddress at la = Some (at', page_walk at la)" .
  moreover have "tlb_inv at'" using i m unfolding at'_def by (intro tlb_inv_update inv) auto
  moreover have "in_tlb at' ?p"
    using i by (auto simp: at'_def in_tlb_def intro!: bexI [of _ "?e\<lparr>te_access_time := at_clock at\<rparr>"] set_update_memI)
  ultimately show ?thesis by blast
qed

lemma tlb_load:
  assumes inv: "tlb_inv at" and miss: "find (\<lambda>i. te_valid (at_tlb at ! i) \<noteq> 0 \<and> te_page_num (at_tlb at ! i) = drop_bit OFFSET_BITS la)
      [0..<unat (at_tlb_size at)] = None"
    and page: "drop_bit OFFSET_BITS la < at_page_table_size at" "pe_valid (at_page_table at ! unat (drop_bit OFFSET_BITS la)) \<noteq> 0"
  shows "\<exists>v e. tlb_translateAddress at la = Some (at\<lparr>at_tlb := (at_tlb at)[v := e], at_clock := at_clock at + 1\<rparr>, page_walk at la) \<and>
    tlb_inv (at\<lparr>at_tlb := (at_tlb at)[v := e], at_clock := at_clock at + 1\<rparr>) \<and>
    in_tlb (at\<lparr>at_tlb := (at_tlb at)[v := e], at_clock := at_clock at + 1\<rparr>) (drop_bit OFFSET_BITS la)"
proof -
  let ?p = "drop_bit OFFSET_BITS la"
  let ?pte = "at_page_table at ! unat ?p"
  let ?e = "\<lparr>te_page_num = ?p, te_frame_num = pe_frame_num ?pte, te_valid = 1, te_access_time = at_clock at\<rparr>"
  have pl: "unat ?p < length (at_page_table at)" using page(1) inv by (simp add: tlb_inv_def word_less_nat_alt)
  from updateTLB_ok [OF inv, of ?p "pe_frame_num ?pte"] obtain v where v: "v < length (at_tlb at)"
    "updateTLB at ?p (pe_frame_num ?pte) = Some (at\<lparr>at_tlb := (at_tlb at)[v := ?e], at_clock := at_clock at + 1\<rparr>)" by blast
  let ?at' = "at\<lparr>at_tlb := (at_tlb at)[v := ?e], at_clock := at_clock at + 1\<rparr>"
  have "tlb_translateAddress at la = Some (?at', page_walk at la)"
    using page miss tlb_search [OF inv] pl v(2) by (auto simp: tlb_translateAddress_def page_walk_def Let_def)
  moreover have "tlb_inv ?at'" using page v(1) by (intro tlb_inv_update inv) (auto simp: mapped_page_def)
  moreover have "in_tlb ?at' ?p" using v(1) by (auto simp: in_tlb_def intro!: bexI [of _ ?e] set_update_memI)
  ultimately show ?thesis by blast
qed

text \<open>C19: With a TLB whose valid entries agree with the page table, translation returns exactly what a walk of
  the page table gives, including the error value for an unmapped or out-of-range page; the page table
  is unchanged, the agreement is kept, and a page that was translated is then in the TLB.\<close>
theorem tlb_is_transparent:
  assumes inv: "tlb_inv at"
  shows "\<exists>at'. tlb_translateAddress at la = Some (at', page_walk at la) \<and> tlb_inv at' \<and>
    at_page_table at' = at_page_table at \<and> at_page_table_size at' = at_page_table_size at \<and>
    (\<forall>v. page_walk at' v = page_walk at v) \<and>
    (drop_bit OFFSET_BITS la < at_page_table_size at \<and>
       pe_valid (at_page_table at ! unat (drop_bit OFFSET_BITS la)) \<noteq> 0 \<longrightarrow> in_tlb at' (drop_bit OFFSET_BITS la))"
proof -
  let ?p = "drop_bit OFFSET_BITS la"
  let ?hit = "find (\<lambda>i. te_valid (at_tlb at ! i) \<noteq> 0 \<and> te_page_num (at_tlb at ! i) = ?p) [0..<unat (at_tlb_size at)]"
  consider i where "?hit = Some i"
    | "?hit = None" "?p < at_page_table_size at" "pe_valid (at_page_table at ! unat ?p) \<noteq> 0"
    | "?hit = None" "\<not> (?p < at_page_table_size at \<and> pe_valid (at_page_table at ! unat ?p) \<noteq> 0)" by fastforce
  then show ?thesis
  proof cases
    case 1
    from tlb_hit [OF inv 1] show ?thesis by auto
  next
    case 2
    from tlb_load [OF inv 2] show ?thesis by auto
  next
    case 3
    have "unat ?p < length (at_page_table at)" if "?p < at_page_table_size at"
      using that inv by (simp add: tlb_inv_def word_less_nat_alt)
    with 3 tlb_search [OF inv] have "tlb_translateAddress at la = Some (at, - 1)"
      by (auto simp: tlb_translateAddress_def Let_def not_less)
    with 3 inv show ?thesis by (auto simp: page_walk_def Let_def)
  qed
qed

definition tlb_demo :: tlb_translator where
  "tlb_demo = at_initialize\<lparr>at_page_table := [\<lparr>pe_frame_num = 7, pe_valid = 1, pe_protection_bits = 0\<rparr>],
     at_page_table_size := 1\<rparr>"

lemma tlb_inv_demo: "tlb_inv tlb_demo" "tlb_inv at_initialize"
  by (simp_all add: tlb_inv_def tlb_demo_def at_initialize_def TLB_SIZE_def PAGE_TABLE_SIZE_def)

theorem tlb_is_transparent_witness:
  "\<exists>at'. tlb_translateAddress tlb_demo 0x123 = Some (at', page_walk tlb_demo 0x123) \<and> tlb_inv at' \<and>
    at_page_table at' = at_page_table tlb_demo \<and> at_page_table_size at' = at_page_table_size tlb_demo \<and>
    (\<forall>v. page_walk at' v = page_walk tlb_demo v) \<and>
    (drop_bit OFFSET_BITS (0x123 :: c_uint) < at_page_table_size tlb_demo \<and>
       pe_valid (at_page_table tlb_demo ! unat (drop_bit OFFSET_BITS (0x123 :: c_uint))) \<noteq> 0 \<longrightarrow>
       in_tlb at' (drop_bit OFFSET_BITS (0x123 :: c_uint)))"
  by (rule tlb_is_transparent [OF tlb_inv_demo(1)])

subsection \<open>The page table of d22\<close>

definition PT_SIZE :: int where
  "PT_SIZE = 1024"

record vpage_entry =
  ve_frame_num :: int
  ve_present :: "1 word"
  ve_dirty :: "1 word"
  ve_referenced :: "1 word"

type_synonym vpage_table = "vpage_entry list"

record working_set_tracker =
  ws_page_timestamps :: "c_uint list"
  ws_window_size :: c_uint

text \<open>The argument is what \<open>malloc\<close> returns: the allocated, uninitialised entries, or \<open>None\<close> for a null
  pointer, on which the program exits with a failure (the inner \<open>None\<close> of the result).\<close>

definition initPageTable :: "vpage_table option \<Rightarrow> vpage_table option option" where
  "initPageTable memory = (case memory of
     None \<Rightarrow> Some None
   | Some pt \<Rightarrow> do {
       pt \<leftarrow> for_loop 0 (nat PT_SIZE) (\<lambda>i pt. wr pt i
         \<lparr>ve_frame_num = - 1, ve_present = 0, ve_dirty = 0, ve_referenced = 0\<rparr>) pt;
       Some (Some pt) })"

definition isInWorkingSet :: "working_set_tracker \<Rightarrow> c_uint \<Rightarrow> c_uint \<Rightarrow> bool option" where
  "isInWorkingSet tracker page curr_time = do {
     t \<leftarrow> rd (ws_page_timestamps tracker) (unat page);
     Some (curr_time - t \<le> ws_window_size tracker) }"

definition getFrameNum :: "vpage_table \<Rightarrow> int \<Rightarrow> int option" where
  "getFrameNum pt page_num =
     (if page_num < 0 \<or> page_num \<ge> PT_SIZE then Some (- 1)
      else do {
        e \<leftarrow> rdi pt page_num;
        Some (if ve_present e = 0 then - 2 else ve_frame_num e) })"

definition setFrameNum :: "vpage_table \<Rightarrow> int \<Rightarrow> int \<Rightarrow> vpage_table option" where
  "setFrameNum pt page_num frame_num =
     (if page_num < 0 \<or> page_num \<ge> PT_SIZE then Some pt
      else do {
        e \<leftarrow> rdi pt page_num;
        wri pt page_num (e\<lparr>ve_frame_num := frame_num, ve_present := 1\<rparr>) })"

definition vpt_main :: "vpage_table option \<Rightarrow> (int \<times> int) option option" where
  "vpt_main memory = do {
     r \<leftarrow> initPageTable memory;
     case r of
       None \<Rightarrow> Some None
     | Some pt \<Rightarrow> do {
         pt \<leftarrow> setFrameNum pt 0 5;
         pt \<leftarrow> setFrameNum pt 50 10;
         frame \<leftarrow> getFrameNum pt 0;
         frame' \<leftarrow> getFrameNum pt 2000;
         Some (Some (frame, frame')) } }"

text \<open>The page table of d22 is a map from page numbers to frames: every lookup after initialisation misses
  (-2), a lookup after an insertion gives the inserted frame for that page and the old result for any
  other, and page numbers outside the table are rejected (-1) and change nothing.\<close>
theorem page_table_is_map:
  assumes "length pt = nat PT_SIZE"
  shows "\<exists>pt0 pt'. initPageTable (Some pt) = Some (Some pt0) \<and> length pt0 = nat PT_SIZE \<and>
    (\<forall>q. getFrameNum pt0 q = Some (if q < 0 \<or> PT_SIZE \<le> q then - 1 else - 2)) \<and>
    setFrameNum pt p f = Some pt' \<and> length pt' = nat PT_SIZE \<and>
    (p < 0 \<or> PT_SIZE \<le> p \<longrightarrow> pt' = pt) \<and>
    (\<forall>q. getFrameNum pt' q = (if q = p \<and> 0 \<le> p \<and> p < PT_SIZE then Some f else getFrameNum pt q))"
proof -
  let ?e = "\<lparr>ve_frame_num = - 1, ve_present = 0, ve_dirty = 0, ve_referenced = 0\<rparr>"
  have init: "initPageTable (Some pt) = Some (Some (replicate (nat PT_SIZE) ?e))"
    using assms by (simp add: initPageTable_def for_loop_fill map_replicate_const)
  let ?pt' = "if p < 0 \<or> PT_SIZE \<le> p then pt
     else pt[nat p := (pt ! nat p)\<lparr>ve_frame_num := f, ve_present := 1\<rparr>]"
  have "setFrameNum pt p f = Some ?pt'" using assms by (auto simp: setFrameNum_def)
  moreover have "getFrameNum ?pt' q = (if q = p \<and> 0 \<le> p \<and> p < PT_SIZE then Some f else getFrameNum pt q)" for q
    using assms by (auto simp: getFrameNum_def nth_list_update eq_nat_nat_iff not_less not_le)
  moreover have "getFrameNum (replicate (nat PT_SIZE) ?e) q = Some (if q < 0 \<or> PT_SIZE \<le> q then - 1 else - 2)" for q
    by (auto simp: getFrameNum_def)
  ultimately show ?thesis using init assms
    by (intro exI [of _ "replicate (nat PT_SIZE) ?e"] exI [of _ ?pt']) simp
qed

theorem page_table_is_map_witness:
  "\<exists>pt0 pt'. initPageTable (Some (replicate (nat PT_SIZE) \<lparr>ve_frame_num = 3, ve_present = 0, ve_dirty = 0, ve_referenced = 0\<rparr>)) = Some (Some pt0) \<and>
    length pt0 = nat PT_SIZE \<and>
    (\<forall>q. getFrameNum pt0 q = Some (if q < 0 \<or> PT_SIZE \<le> q then - 1 else - 2)) \<and>
    setFrameNum (replicate (nat PT_SIZE) \<lparr>ve_frame_num = 3, ve_present = 0, ve_dirty = 0, ve_referenced = 0\<rparr>) 50 10 = Some pt' \<and>
    length pt' = nat PT_SIZE \<and>
    ((50 :: int) < 0 \<or> PT_SIZE \<le> 50 \<longrightarrow> pt' = replicate (nat PT_SIZE) \<lparr>ve_frame_num = 3, ve_present = 0, ve_dirty = 0, ve_referenced = 0\<rparr>) \<and>
    (\<forall>q. getFrameNum pt' q = (if q = 50 \<and> 0 \<le> (50 :: int) \<and> 50 < PT_SIZE then Some 10
       else getFrameNum (replicate (nat PT_SIZE) \<lparr>ve_frame_num = 3, ve_present = 0, ve_dirty = 0, ve_referenced = 0\<rparr>) q))"
  by (rule page_table_is_map) simp

text \<open>
  The age of a page is an unsigned difference: it is right for time stamps in the past, and a
  stamp one tick in the future counts as older than any window below the maximum.
\<close>

lemma isInWorkingSet_age:
  assumes "unat page < length (ws_page_timestamps ws)" and "ws_page_timestamps ws ! unat page \<le> now"
  shows "isInWorkingSet ws page now =
    Some (unat now - unat (ws_page_timestamps ws ! unat page) \<le> unat (ws_window_size ws))"
  using assms by (simp add: isInWorkingSet_def word_le_nat_alt unat_sub)

lemma isInWorkingSet_future:
  assumes "unat page < length (ws_page_timestamps ws)" and "ws_page_timestamps ws ! unat page = now + 1"
    and "ws_window_size ws < - 1"
  shows "isInWorkingSet ws page now = Some False"
  using assms by (simp add: isInWorkingSet_def not_le)

end
