(* ===== verification/Segmentation.thy ===== *)
theory Segmentation
  imports OS_Prelude
begin

unbundle bit_operations_syntax

section \<open>Segmentation: d21 memory_segmentation.c and d16 Segmentations.c\<close>

text \<open>
  Segment tables with base, limit and protection; translation, access check, sharing, and the
  first-fit placement of a segment in physical memory (\<open>allocateSegment\<close>). The bytes of the
  memory come from \<open>malloc\<close> and are an argument of the model.
\<close>

subsection \<open>State\<close>

definition MAX_SEGMENTS :: nat where
  "MAX_SEGMENTS = 256"

definition MAX_MEMORY_SIZE :: nat where
  "MAX_MEMORY_SIZE = 65536"

definition READ_PERMISSION :: c_uint where "READ_PERMISSION = 4"
definition WRITE_PERMISSION :: c_uint where "WRITE_PERMISSION = 2"
definition EXEC_PERMISSION :: c_uint where "EXEC_PERMISSION = 1"

record segment_entry =
  sg_base_address :: c_uint
  sg_limit :: c_uint
  sg_protection_bits :: c_uint
  sg_valid :: "8 word"

record segment_table =
  st_entries :: "segment_entry list"
  st_size :: c_uint

record seg_memory =
  sm_memory :: "8 word list"
  sm_size :: c_uint

subsection \<open>Operations\<close>

text \<open>\<open>table\<close>: the allocated, uninitialised structure.\<close>

definition initSegmentTable :: "segment_table \<Rightarrow> segment_table option" where
  "initSegmentTable table = do {
     es \<leftarrow> for_loop 0 MAX_SEGMENTS (\<lambda>i es. wr es i
       \<lparr>sg_base_address = 0, sg_limit = 0, sg_protection_bits = 0, sg_valid = 0\<rparr>) (st_entries table);
     Some (table\<lparr>st_size := 0, st_entries := es\<rparr>) }"

definition createSegment :: "segment_table \<Rightarrow> c_uint \<Rightarrow> c_uint \<Rightarrow> (segment_table \<times> int) option" where
  "createSegment table sz protection =
     (if st_size table \<ge> of_nat MAX_SEGMENTS then Some (table, - 1)
      else do {
        let segment_num = unat (st_size table);
        es \<leftarrow> wr (st_entries table) segment_num
          \<lparr>sg_base_address = 0, sg_limit = sz, sg_protection_bits = protection, sg_valid = 1\<rparr>;
        Some (table\<lparr>st_entries := es, st_size := st_size table + 1\<rparr>, int segment_num) })"

definition sg_translateAddress :: "segment_table \<Rightarrow> c_uint \<Rightarrow> c_uint \<Rightarrow> c_uint option" where
  "sg_translateAddress table segment offset =
     (if st_size table \<ge> of_nat MAX_SEGMENTS then Some (- 1)
      else do {
        entry \<leftarrow> rd (st_entries table) (unat segment);
        Some (if sg_valid entry = 0 then - 1
              else if offset \<ge> sg_limit entry then - 1
              else sg_base_address entry + offset) })"

definition checkAccess :: "segment_table \<Rightarrow> c_uint \<Rightarrow> c_uint \<Rightarrow> int option" where
  "checkAccess table segment access_type =
     (if segment \<ge> st_size table then Some 0
      else do {
        entry \<leftarrow> rd (st_entries table) (unat segment);
        Some (if (sg_protection_bits entry AND access_type) \<noteq> 0 then 1 else 0) })"

definition sg_initPhysicalMemory :: "8 word list \<Rightarrow> seg_memory" where
  "sg_initPhysicalMemory bytes = \<lparr>sm_memory = bytes, sm_size = of_nat MAX_MEMORY_SIZE\<rparr>"

text \<open>\<open>seg_num\<close> is an \<open>int\<close> compared with an unsigned size: a negative one counts as huge.\<close>

definition shareSegment :: "segment_table \<Rightarrow> segment_table \<Rightarrow> int \<Rightarrow> int \<Rightarrow> segment_table option" where
  "shareSegment source target seg_num protection =
     (if of_int seg_num \<ge> st_size source then Some target
      else do {
        source_entry \<leftarrow> rdi (st_entries source) seg_num;
        es \<leftarrow> wr (st_entries target) (unat (st_size target))
          (source_entry\<lparr>sg_protection_bits := of_int protection\<rparr>);
        Some (target\<lparr>st_entries := es, st_size := st_size target + 1\<rparr>) })"

text \<open>The byte scan of one candidate address, and the loop over the addresses.\<close>

definition space_available :: "seg_memory \<Rightarrow> c_uint \<Rightarrow> c_uint \<Rightarrow> bool option" where
  "space_available memory curr_addr sz = do {
     h \<leftarrow> search_first 0 (unat sz) (\<lambda>i. do {
       b \<leftarrow> rd (sm_memory memory) (unat (curr_addr + of_nat i)); Some (b \<noteq> 0) });
     Some (h = None) }"

partial_function (option) place_segment :: "seg_memory \<Rightarrow> c_uint \<Rightarrow> c_uint \<Rightarrow> c_uint option option" where
  "place_segment memory sz curr_addr =
     (if curr_addr + sz \<le> sm_size memory then do {
        free \<leftarrow> space_available memory curr_addr sz;
        if free then Some (Some curr_addr) else place_segment memory sz (curr_addr + 1) }
      else Some None)"

declare place_segment.simps [code]

definition allocateSegment :: "segment_table \<Rightarrow> seg_memory \<Rightarrow> int \<Rightarrow> (segment_table \<times> int) option" where
  "allocateSegment table memory seg_num =
     (if of_int seg_num \<ge> st_size table then Some (table, - 1)
      else do {
        entry \<leftarrow> rdi (st_entries table) seg_num;
        r \<leftarrow> place_segment memory (sg_limit entry) 0;
        (case r of
           None \<Rightarrow> Some (table, - 1)
         | Some a \<Rightarrow> do {
             es \<leftarrow> wri (st_entries table) seg_num (entry\<lparr>sg_base_address := a\<rparr>);
             Some (table\<lparr>st_entries := es\<rparr>, sint a) }) })"

subsection \<open>Translation\<close>

definition seg_ok :: "segment_table \<Rightarrow> bool" where
  "seg_ok t \<longleftrightarrow> length (st_entries t) = MAX_SEGMENTS \<and> unat (st_size t) \<le> MAX_SEGMENTS"

lemma not_full_iff: "\<not> st_size t \<ge> of_nat MAX_SEGMENTS \<longleftrightarrow> unat (st_size t) < MAX_SEGMENTS"
  by (simp add: MAX_SEGMENTS_def not_le word_less_nat_alt)

lemma initSegmentTable_ok:
  "length (st_entries t) = MAX_SEGMENTS \<Longrightarrow> \<exists>t'. initSegmentTable t = Some t' \<and> seg_ok t' \<and> st_size t' = 0"
  by (simp add: initSegmentTable_def for_loop_fill seg_ok_def)

text \<open>C21: A new segment in a table with free entries gets the next number and the next entry; until it is placed its base is 0, and
  \<open>checkAccess\<close> grants exactly the rights it shares with its protection; the other segments are unchanged. It is translated, an offset
  below its limit to itself and any other to the error value, unless it is the 256th: that one fills the table, and \<open>translateAddress\<close>
  then gives the error value for every offset (it refuses a full table, so the older segments are lost as well, lemma
  full\_table\_translates\_nothing). Once the table has all 256 segments, creation fails and changes nothing.\<close>
theorem created_segment_translates:
  assumes ok: "seg_ok t"
  shows "\<exists>t' r. createSegment t sz prot = Some (t', r) \<and> seg_ok t' \<and>
    (if unat (st_size t) = MAX_SEGMENTS then r = - 1 \<and> t' = t
     else r = int (unat (st_size t)) \<and> st_size t' = st_size t + 1 \<and>
       (\<forall>off. sg_translateAddress t' (of_int r) off =
          Some (if unat (st_size t') < MAX_SEGMENTS \<and> off < sz then off else - 1)) \<and>
       (\<forall>acc. checkAccess t' (of_int r) acc = Some (if prot AND acc = 0 then 0 else 1)) \<and>
       (\<forall>i. i \<noteq> nat r \<longrightarrow> st_entries t' ! i = st_entries t ! i))"
proof (cases "unat (st_size t) = MAX_SEGMENTS")
  case True
  then have "createSegment t sz prot = Some (t, - 1)"
    using not_full_iff [of t] by (simp add: createSegment_def)
  with True ok show ?thesis by simp
next
  case False
  let ?n = "unat (st_size t)"
  have n: "?n < MAX_SEGMENTS" "length (st_entries t) = MAX_SEGMENTS" using ok False by (auto simp: seg_ok_def)
  then have small: "?n < 256" by (simp add: MAX_SEGMENTS_def)
  have suc: "unat (st_size t + 1) = Suc ?n" using small by (simp add: unat_plus_if')
  let ?e = "\<lparr>sg_base_address = 0, sg_limit = sz, sg_protection_bits = prot, sg_valid = 1\<rparr>"
  let ?t' = "t\<lparr>st_entries := (st_entries t)[?n := ?e], st_size := st_size t + 1\<rparr>"
  have run: "createSegment t sz prot = Some (?t', int ?n)"
    using n not_full_iff [of t] by (simp add: createSegment_def)
  have idx: "of_int (int ?n) = st_size t" by simp
  have lt: "\<not> st_size t + 1 \<le> st_size t" using suc by (simp add: word_le_nat_alt)
  have "sg_translateAddress ?t' (of_int (int ?n)) off =
      Some (if unat (st_size ?t') < MAX_SEGMENTS \<and> off < sz then off else - 1)" for off
    using n not_full_iff [of ?t'] unfolding idx by (auto simp: sg_translateAddress_def not_le)
  moreover have "checkAccess ?t' (of_int (int ?n)) acc = Some (if prot AND acc = 0 then 0 else 1)" for acc
    unfolding idx using n lt by (simp add: checkAccess_def)
  ultimately show ?thesis using run False n suc
    by (intro exI [of _ ?t'] exI [of _ "int ?n"]) (simp add: seg_ok_def)
qed

definition seg_demo :: segment_table where
  "seg_demo = \<lparr>st_entries = replicate MAX_SEGMENTS \<lparr>sg_base_address = 0, sg_limit = 0, sg_protection_bits = 0, sg_valid = 0\<rparr>,
     st_size = 0\<rparr>"

lemma seg_demo_ok: "seg_ok seg_demo"
  by (simp add: seg_ok_def seg_demo_def)

theorem created_segment_translates_witness:
  "\<exists>t' r. createSegment seg_demo 1024 5 = Some (t', r) \<and> seg_ok t' \<and>
    (if unat (st_size seg_demo) = MAX_SEGMENTS then r = - 1 \<and> t' = seg_demo
     else r = int (unat (st_size seg_demo)) \<and> st_size t' = st_size seg_demo + 1 \<and>
       (\<forall>off. sg_translateAddress t' (of_int r) off =
          Some (if unat (st_size t') < MAX_SEGMENTS \<and> off < 1024 then off else - 1)) \<and>
       (\<forall>acc. checkAccess t' (of_int r) acc = Some (if (5 :: c_uint) AND acc = 0 then 0 else 1)) \<and>
       (\<forall>i. i \<noteq> nat r \<longrightarrow> st_entries t' ! i = st_entries seg_demo ! i))"
  by (rule created_segment_translates [OF seg_demo_ok])

text \<open>
  The guard of \<open>translateAddress\<close> looks at the size of the table, not at the segment number: a
  full table translates nothing, and a number past the table is read out of bounds.
\<close>

lemma full_table_translates_nothing:
  "unat (st_size t) = MAX_SEGMENTS \<Longrightarrow> sg_translateAddress t seg off = Some (- 1)"
  using not_full_iff [of t] by (simp add: sg_translateAddress_def)

lemma unknown_segment_undefined:
  "\<lbrakk>seg_ok t; unat (st_size t) < MAX_SEGMENTS; MAX_SEGMENTS \<le> unat seg\<rbrakk> \<Longrightarrow> sg_translateAddress t seg off = None"
  using not_full_iff [of t] by (simp add: sg_translateAddress_def seg_ok_def)

subsection \<open>Placement\<close>

definition zero_run :: "8 word list \<Rightarrow> nat \<Rightarrow> nat \<Rightarrow> bool" where
  "zero_run mem a len \<longleftrightarrow> (\<forall>i < len. mem ! (a + i) = 0)"

lemma space_available_eq:
  assumes "unat a + unat sz \<le> length (sm_memory m)" and "length (sm_memory m) < 2 ^ 32"
  shows "space_available m a sz = Some (zero_run (sm_memory m) (unat a) (unat sz))"
proof -
  have idx: "unat (a + of_nat i) = unat a + i" if "i < unat sz" for i
    using assms that by (simp add: unat_plus_if' unat_of_nat)
  show ?thesis unfolding space_available_def zero_run_def
    by (subst search_first_hit(2) [where q = "\<lambda>i. sm_memory m ! (unat a + i) \<noteq> 0"])
      (use assms idx in auto)
qed

lemma place_segment_eq:
  assumes len: "length (sm_memory m) = unat (sm_size m)" and room: "unat (sm_size m) < 2 ^ 31" and "unat sz < 2 ^ 31"
  shows "unat a \<le> Suc (unat (sm_size m)) \<Longrightarrow>
    place_segment m sz a = Some (map_option of_nat
      (find (\<lambda>c. zero_run (sm_memory m) c (unat sz)) [unat a..<Suc (unat (sm_size m)) - unat sz]))"
proof (induction "Suc (unat (sm_size m)) - unat a" arbitrary: a rule: less_induct)
  case less
  let ?M = "unat (sm_size m)" and ?L = "unat sz"
  have sum: "unat (a + sz) = unat a + ?L"
    using less.prems room assms(3) by (simp add: unat_plus_if')
  show ?case
  proof (cases "unat a + ?L \<le> ?M")
    case False
    then show ?thesis by (subst place_segment.simps) (simp add: word_le_nat_alt sum)
  next
    case True
    note sp = space_available_eq [of a sz m, unfolded len, OF True] 
    have sp': "space_available m a sz = Some (zero_run (sm_memory m) (unat a) ?L)" using sp room by simp
    have next_a: "unat (a + 1) = Suc (unat a)" using True room by (simp add: unat_plus_if')
    have upt: "[unat a..<Suc ?M - ?L] = unat a # [Suc (unat a)..<Suc ?M - ?L]" using True by (simp add: upt_conv_Cons)
    show ?thesis
    proof (cases "zero_run (sm_memory m) (unat a) ?L")
      case zr: True
      then show ?thesis using True sp' by (subst place_segment.simps) (simp add: word_le_nat_alt sum upt)
    next
      case zr: False
      have "place_segment m sz a = place_segment m sz (a + 1)"
        using zr True sp' by (subst place_segment.simps) (simp add: word_le_nat_alt sum)
      also have "\<dots> = Some (map_option of_nat
          (find (\<lambda>c. zero_run (sm_memory m) c ?L) [unat (a + 1)..<Suc ?M - ?L]))"
        using True next_a by (intro less.hyps) auto
      finally show ?thesis using zr upt next_a by simp
    qed
  qed
qed

text \<open>Placing an existing segment finds the lowest address where its limit of zero bytes fits and makes it the
  base, or fails (-1, nothing changed) when there is none. The memory itself is never marked: in a
  zeroed memory every segment that fits is placed at 0, on top of the others.\<close>
theorem allocateSegment_first_fit:
  assumes ok: "seg_ok t" and n: "n < unat (st_size t)" and len: "length bytes = MAX_MEMORY_SIZE"
    and small: "unat (sg_limit (st_entries t ! n)) < 2 ^ 31"
  defines "lim \<equiv> unat (sg_limit (st_entries t ! n))"
  shows "(allocateSegment t (sg_initPhysicalMemory bytes) (int n) = Some (
      case find (\<lambda>a. zero_run bytes a lim) [0..<Suc MAX_MEMORY_SIZE - lim] of
        None \<Rightarrow> (t, - 1)
      | Some a \<Rightarrow> (t\<lparr>st_entries := (st_entries t)[n := (st_entries t ! n)\<lparr>sg_base_address := of_nat a\<rparr>]\<rparr>, int a))) \<and>
    ((\<forall>b \<in> set bytes. b = 0) \<and> lim \<le> MAX_MEMORY_SIZE \<longrightarrow>
      (\<exists>t'. allocateSegment t (sg_initPhysicalMemory bytes) (int n) = Some (t', 0)))"
proof -
  let ?m = "sg_initPhysicalMemory bytes"
  have sz: "unat (sm_size ?m) = MAX_MEMORY_SIZE" "sm_memory ?m = bytes"
    by (simp_all add: sg_initPhysicalMemory_def MAX_MEMORY_SIZE_def)
  have idx: "n < MAX_SEGMENTS" "length (st_entries t) = MAX_SEGMENTS" using ok n by (auto simp: seg_ok_def)
  have guard: "\<not> of_int (int n) \<ge> st_size t"
    using n idx(1) by (simp add: word_le_nat_alt unat_of_nat MAX_SEGMENTS_def not_le)
  have place: "place_segment ?m (sg_limit (st_entries t ! n)) 0 =
      Some (map_option of_nat (find (\<lambda>a. zero_run bytes a lim) [0..<Suc MAX_MEMORY_SIZE - lim]))"
    using place_segment_eq [of ?m "sg_limit (st_entries t ! n)" 0] small len sz
    by (simp add: lim_def MAX_MEMORY_SIZE_def)
  have sgn: "sint (of_nat a :: c_uint) = int a" if "a < Suc MAX_MEMORY_SIZE - lim" for a
    using that by (simp add: MAX_MEMORY_SIZE_def sint_uint uint_nat unat_of_nat signed_of_nat signed_take_bit_int_eq_self)
  have eq: "allocateSegment t ?m (int n) = Some (
      case find (\<lambda>a. zero_run bytes a lim) [0..<Suc MAX_MEMORY_SIZE - lim] of
        None \<Rightarrow> (t, - 1)
      | Some a \<Rightarrow> (t\<lparr>st_entries := (st_entries t)[n := (st_entries t ! n)\<lparr>sg_base_address := of_nat a\<rparr>]\<rparr>, int a))"
  proof (cases "find (\<lambda>a. zero_run bytes a lim) [0..<Suc MAX_MEMORY_SIZE - lim]")
    case None
    with place guard idx show ?thesis by (simp add: allocateSegment_def)
  next
    case (Some a)
    then have "sint (of_nat a :: c_uint) = int a" by (intro sgn) (simp add: find_upt_Some)
    with Some place guard idx show ?thesis by (simp add: allocateSegment_def)
  qed
  moreover have "\<exists>t'. allocateSegment t ?m (int n) = Some (t', 0)"
    if zero: "\<forall>b \<in> set bytes. b = 0" and fit: "lim \<le> MAX_MEMORY_SIZE"
  proof -
    have "zero_run bytes 0 lim" using zero fit len by (simp add: zero_run_def)
    then have "find (\<lambda>a. zero_run bytes a lim) [0..<Suc MAX_MEMORY_SIZE - lim] = Some 0"
      using fit by (simp add: find_upt_Some)
    with eq show ?thesis by simp
  qed
  ultimately show ?thesis by blast
qed

definition placed_demo :: segment_table where
  "placed_demo = \<lparr>st_entries = replicate MAX_SEGMENTS \<lparr>sg_base_address = 9, sg_limit = 1024, sg_protection_bits = 4, sg_valid = 1\<rparr>,
     st_size = 2\<rparr>"

theorem allocateSegment_first_fit_witness:
  "\<exists>t'. allocateSegment placed_demo (sg_initPhysicalMemory (replicate MAX_MEMORY_SIZE 0)) (int 1) = Some (t', 0)"
proof -
  have ok: "seg_ok placed_demo" "1 < unat (st_size placed_demo)"
    "unat (sg_limit (st_entries placed_demo ! 1)) = 1024"
    by (simp_all add: placed_demo_def seg_ok_def MAX_SEGMENTS_def)
  show ?thesis
    by (rule allocateSegment_first_fit [THEN conjunct2, THEN mp, of placed_demo 1]) 
      (use ok in \<open>simp_all add: ok MAX_MEMORY_SIZE_def\<close>)
qed

subsection \<open>The segment table of d16 (Segmentations.c)\<close>

definition SD_MAX_SEGMENTS :: int where
  "SD_MAX_SEGMENTS = 10"

record segment_descriptor =
  sd_base :: c_uint
  sd_limit :: c_uint
  sd_protection :: c_uint

record descriptor_table =
  dt_segments :: "segment_descriptor list"
  dt_num_segments :: int

definition sd_initSegmentTable :: descriptor_table where
  "sd_initSegmentTable = \<lparr>dt_segments = replicate (nat SD_MAX_SEGMENTS) \<lparr>sd_base = 0, sd_limit = 0, sd_protection = 0\<rparr>,
     dt_num_segments = 0\<rparr>"

definition addSegment :: "descriptor_table \<Rightarrow> c_uint \<Rightarrow> c_uint \<Rightarrow> c_uint \<Rightarrow> (descriptor_table \<times> int) option" where
  "addSegment st base limit protection =
     (if dt_num_segments st \<ge> SD_MAX_SEGMENTS then Some (st, - 1)
      else do {
        ss \<leftarrow> wri (dt_segments st) (dt_num_segments st)
          \<lparr>sd_base = base, sd_limit = limit, sd_protection = protection\<rparr>;
        Some (st\<lparr>dt_segments := ss\<rparr>, dt_num_segments st - 1) })"

text \<open>The count never grows: each addition overwrites the first descriptor and returns the error value.\<close>

lemma addSegment_overwrites:
  assumes "dt_num_segments st = 0" and "length (dt_segments st) = nat SD_MAX_SEGMENTS"
  shows "addSegment st b l p = Some (st\<lparr>dt_segments := (dt_segments st)[0 := \<lparr>sd_base = b, sd_limit = l, sd_protection = p\<rparr>]\<rparr>, - 1)"
  using assms by (simp add: addSegment_def SD_MAX_SEGMENTS_def)

end
