(* ===== verification/Memory_Hierarchy.thy ===== *)
theory Memory_Hierarchy
  imports OS_Prelude
begin

section \<open>Caches: d15, Cache_Memory_Management.c and Memory_Hierarchy.c\<close>

text \<open>
  A set-associative cache with one line per set and LRU replacement, whose hit search looks at
  the wrong line, and the hierarchy of two caches, main memory and virtual memory. The hit ratios
  they print are in Printed\_Statistics.
\<close>

subsection \<open>The cache (Cache_Memory_Management.c)\<close>

definition CACHE_SIZE :: int where "CACHE_SIZE = 256"
definition BLOCK_SIZE :: int where "BLOCK_SIZE = 64"
definition NUM_SETS :: int where "NUM_SETS = 4"

record cache_line =
  cl_valid :: int
  cl_tag :: int
  cl_data :: int
  cl_last_used :: int

record cache =
  ca_lines :: "cache_line list"
  ca_num_sets :: int
  ca_blocks_per_set :: int
  ca_access_count :: int
  ca_hits :: int
  ca_misses :: int

definition initializeCache :: cache where
  "initializeCache =
     \<lparr>ca_lines = replicate (nat (CACHE_SIZE div BLOCK_SIZE)) \<lparr>cl_valid = 0, cl_tag = 0, cl_data = 0, cl_last_used = 0\<rparr>,
      ca_num_sets = NUM_SETS, ca_blocks_per_set = CACHE_SIZE div (BLOCK_SIZE * NUM_SETS),
      ca_access_count = 0, ca_hits = 0, ca_misses = 0\<rparr>"

definition accessCache :: "cache \<Rightarrow> int \<Rightarrow> (cache \<times> int) option" where
  "accessCache cache address = (
     let set_idx = c_mod (c_div address BLOCK_SIZE) (ca_num_sets cache);
         tag = c_div address (BLOCK_SIZE * ca_num_sets cache);
         set_start = set_idx * ca_blocks_per_set cache
     in do {
       count \<leftarrow> chk (ca_access_count cache + 1);
       let cache = cache\<lparr>ca_access_count := count\<rparr>;
       hit \<leftarrow> search_first 0 (nat (ca_blocks_per_set cache)) (\<lambda>i. do {
          l \<leftarrow> rdi (ca_lines cache) (set_start + 1);
          Some (cl_valid l \<noteq> 0 \<and> cl_tag l = tag) });
       if hit \<noteq> None then do {
         h \<leftarrow> chk (ca_hits cache + 1);
         l \<leftarrow> rdi (ca_lines cache) (set_start + 1);
         ls \<leftarrow> wri (ca_lines cache) (set_start + 1) (l\<lparr>cl_last_used := count\<rparr>);
         Some (cache\<lparr>ca_hits := h, ca_lines := ls\<rparr>, 1) }
       else do {
         m \<leftarrow> chk (ca_misses cache + 1);
         l0 \<leftarrow> rdi (ca_lines cache) set_start;
         (lru_idx, lru_time) \<leftarrow> for_loop 0 (nat (ca_blocks_per_set cache)) (\<lambda>i (lru_idx, lru_time). do {
            l \<leftarrow> rdi (ca_lines cache) (set_start + int i);
            Some (if cl_valid l = 0 \<or> cl_last_used l < lru_time then (set_start + int i, cl_last_used l)
                  else (lru_idx, lru_time)) }) (set_start, cl_last_used l0);
         l \<leftarrow> rdi (ca_lines cache) lru_idx;
         ls \<leftarrow> wri (ca_lines cache) lru_idx (l\<lparr>cl_valid := 1, cl_tag := tag, cl_last_used := count\<rparr>);
         Some (cache\<lparr>ca_misses := m, ca_lines := ls\<rparr>, 0) } })"

definition cache_inv :: "cache \<Rightarrow> bool" where
  "cache_inv c \<longleftrightarrow> length (ca_lines c) = 4 \<and> ca_num_sets c = 4 \<and> ca_blocks_per_set c = 1 \<and>
     0 \<le> ca_hits c \<and> 0 \<le> ca_misses c \<and> ca_hits c + ca_misses c = ca_access_count c"

lemma cache_inv_init: "cache_inv initializeCache"
  by (simp add: cache_inv_def initializeCache_def CACHE_SIZE_def BLOCK_SIZE_def NUM_SETS_def)

text \<open>One access, with the loops over the single line of a set unrolled.\<close>

lemma accessCache_eq:
  assumes inv: "cache_inv c" and addr: "0 \<le> address" and room: "ca_access_count c < INT_MAX"
  defines "k \<equiv> nat (address div 64 mod 4)" and "n \<equiv> ca_access_count c + 1"
  shows "accessCache c address = do {
    next_line \<leftarrow> rd (ca_lines c) (Suc k);
    Some (if cl_valid next_line \<noteq> 0 \<and> cl_tag next_line = address div 256
      then (c\<lparr>ca_access_count := n, ca_hits := ca_hits c + 1, ca_lines := (ca_lines c)[Suc k := next_line\<lparr>cl_last_used := n\<rparr>]\<rparr>, 1)
      else (c\<lparr>ca_access_count := n, ca_misses := ca_misses c + 1,
        ca_lines := (ca_lines c)[k := (ca_lines c ! k)\<lparr>cl_valid := 1, cl_tag := address div 256, cl_last_used := n\<rparr>]\<rparr>, 0)) }"
proof -
  have iv: "length (ca_lines c) = 4" "ca_num_sets c = 4" "ca_blocks_per_set c = 1" "0 \<le> ca_hits c" "0 \<le> ca_misses c"
    "ca_hits c + ca_misses c = ca_access_count c" using inv by (auto simp: cache_inv_def)
  have k: "address div 64 mod 4 = int k" "k < 4" by (simp_all add: k_def nat_less_iff)
  have idx: "c_mod (c_div address BLOCK_SIZE) 4 = int k" "c_div address (BLOCK_SIZE * 4) = address div 256"
    using addr k(1) by (simp_all add: c_div_nonneg c_mod_nonneg BLOCK_SIZE_def)
  have at: "rdi (ca_lines c) (int k + 1) = rd (ca_lines c) (Suc k)" "rdi (ca_lines c) (int k) = Some (ca_lines c ! k)"
    "wri (ca_lines c) (int k + 1) v = wr (ca_lines c) (Suc k) v" "wri (ca_lines c) (int k) v = Some ((ca_lines c)[k := v])" for v
    using k(2) iv(1) by (simp_all add: rdi_def wri_def nat_add_distrib)
  have chks: "chk (ca_access_count c + 1) = Some n" "chk (ca_hits c + 1) = Some (ca_hits c + 1)"
    "chk (ca_misses c + 1) = Some (ca_misses c + 1)"
    using iv room by (auto simp: n_def chk_def int_ok_def INT_MIN_def)
  have one: "for_loop 0 (Suc 0) f x = f 0 x" for f :: "nat \<Rightarrow> int \<times> int \<Rightarrow> (int \<times> int) option" and x
    by (simp add: for_loop_Suc)
  have search: "search_first 0 (Suc 0) p = do { b \<leftarrow> p 0; Some (if b then Some 0 else None) }" for p
    by (auto simp: search_first_step split: bind_split)
  show ?thesis
    by (cases "rd (ca_lines c) (Suc k)") (auto simp: accessCache_def iv(2,3) idx at chks search one rd_eq_Some Let_def)
qed

text \<open>C23: For an address that is not negative and a counter of accesses that does not overflow: the set of an address has one line, at its set number, but the hit search reads the line after it. So an
  access to the last set reads out of bounds; in any other set it is a hit exactly when the next set's
  line holds the tag, whatever the set's own line holds, and a miss replaces the set's own line. The
  counters always add up: hits plus misses are the accesses.\<close>
theorem cache_looks_at_next_set:
  assumes inv: "cache_inv c" and addr: "0 \<le> address" and room: "ca_access_count c < INT_MAX"
  defines "set_no \<equiv> nat (address div 64 mod 4)" and "tag \<equiv> address div 256"
  shows "if set_no = 3 then accessCache c address = None
    else \<exists>c' found. accessCache c address = Some (c', found) \<and> cache_inv c' \<and>
      ca_access_count c' = ca_access_count c + 1 \<and>
      (if cl_valid (ca_lines c ! (set_no + 1)) \<noteq> 0 \<and> cl_tag (ca_lines c ! (set_no + 1)) = tag
       then found = 1 \<and> ca_hits c' = ca_hits c + 1
       else found = 0 \<and> ca_misses c' = ca_misses c + 1 \<and>
         cl_valid (ca_lines c' ! set_no) = 1 \<and> cl_tag (ca_lines c' ! set_no) = tag)"
proof (cases "set_no = 3")
  case True
  then show ?thesis using inv by (simp add: accessCache_eq [OF inv addr room] set_no_def rd_def cache_inv_def)
next
  case False
  have "set_no < 4" by (simp add: set_no_def nat_less_iff)
  with False have n: "Suc set_no < length (ca_lines c)" using inv by (simp add: cache_inv_def)
  then have run: "accessCache c address = Some (if cl_valid (ca_lines c ! Suc set_no) \<noteq> 0 \<and> cl_tag (ca_lines c ! Suc set_no) = tag
      then (c\<lparr>ca_access_count := ca_access_count c + 1, ca_hits := ca_hits c + 1,
        ca_lines := (ca_lines c)[Suc set_no := (ca_lines c ! Suc set_no)\<lparr>cl_last_used := ca_access_count c + 1\<rparr>]\<rparr>, 1)
      else (c\<lparr>ca_access_count := ca_access_count c + 1, ca_misses := ca_misses c + 1, ca_lines := (ca_lines c)[set_no :=
        (ca_lines c ! set_no)\<lparr>cl_valid := 1, cl_tag := tag, cl_last_used := ca_access_count c + 1\<rparr>]\<rparr>, 0))"
    using accessCache_eq [OF inv addr room] by (simp add: set_no_def tag_def)
  show ?thesis using False inv n unfolding run by (auto simp: cache_inv_def)
qed

theorem cache_looks_at_next_set_witness:
  "if nat (64 div 64 mod 4) = 3 then accessCache initializeCache 64 = None
    else \<exists>c' found. accessCache initializeCache 64 = Some (c', found) \<and> cache_inv c' \<and>
      ca_access_count c' = ca_access_count initializeCache + 1 \<and>
      (if cl_valid (ca_lines initializeCache ! (nat (64 div 64 mod 4) + 1)) \<noteq> 0 \<and>
          cl_tag (ca_lines initializeCache ! (nat (64 div 64 mod 4) + 1)) = 64 div 256
       then found = 1 \<and> ca_hits c' = ca_hits initializeCache + 1
       else found = 0 \<and> ca_misses c' = ca_misses initializeCache + 1 \<and>
         cl_valid (ca_lines c' ! nat (64 div 64 mod 4)) = 1 \<and> cl_tag (ca_lines c' ! nat (64 div 64 mod 4)) = 64 div 256)"
  by (rule cache_looks_at_next_set [OF cache_inv_init]) (simp_all add: initializeCache_def INT_MAX_def)

subsection \<open>The hierarchy (Memory_Hierarchy.c)\<close>

definition CACHE_L1_SIZE :: nat where "CACHE_L1_SIZE = 32"
definition CACHE_L2_SIZE :: nat where "CACHE_L2_SIZE = 256"
definition MAIN_MEMORY_SIZE :: nat where "MAIN_MEMORY_SIZE = 1024"
definition VIRTUAL_MEMORY_SIZE :: nat where "VIRTUAL_MEMORY_SIZE = 4096"

record memory_block =
  mb_data :: int
  mb_address :: int
  mb_valid :: int
  mb_access_time :: int

record memory_hierarchy =
  mh_l1_cache :: "memory_block list"
  mh_l2_cache :: "memory_block list"
  mh_main_memory :: "memory_block list"
  mh_virtual_memory :: "memory_block list"
  mh_l1_hits :: int
  mh_l2_hits :: int
  mh_l1_misses :: int
  mh_l2_misses :: int
  mh_page_faults :: int

text \<open>The loop that invalidates one level and sets its access time.\<close>

definition reset_level :: "nat \<Rightarrow> int \<Rightarrow> memory_block list \<Rightarrow> memory_block list option" where
  "reset_level n time bs = for_loop 0 n (\<lambda>i bs. do {
     b \<leftarrow> rd bs i; wr bs i (b\<lparr>mb_valid := 0, mb_access_time := time\<rparr>) }) bs"

definition initializeMemory :: "memory_hierarchy \<Rightarrow> memory_hierarchy option" where
  "initializeMemory mh = do {
     l1 \<leftarrow> reset_level CACHE_L1_SIZE 10 (mh_l1_cache mh);
     l2 \<leftarrow> reset_level CACHE_L2_SIZE 100 (mh_l2_cache mh);
     mm \<leftarrow> reset_level MAIN_MEMORY_SIZE 100 (mh_main_memory mh);
     vm \<leftarrow> reset_level VIRTUAL_MEMORY_SIZE 1000 (mh_virtual_memory mh);
     Some \<lparr>mh_l1_cache = l1, mh_l2_cache = l2, mh_main_memory = mm, mh_virtual_memory = vm,
       mh_l1_hits = 0, mh_l2_hits = 0, mh_l1_misses = 0, mh_l2_misses = 0, mh_page_faults = 0\<rparr> }"

text \<open>The three assignments that put a block into a level.\<close>

definition fill_block :: "memory_block list \<Rightarrow> int \<Rightarrow> int \<Rightarrow> int \<Rightarrow> memory_block list option" where
  "fill_block bs idx data address = do {
     b \<leftarrow> rdi bs idx;
     wri bs idx (b\<lparr>mb_data := data, mb_address := address, mb_valid := 1\<rparr>) }"

definition holds :: "memory_block \<Rightarrow> int \<Rightarrow> bool" where
  "holds b address \<longleftrightarrow> mb_valid b \<noteq> 0 \<and> mb_address b = address"

definition mh_accessMemory :: "memory_hierarchy \<Rightarrow> int \<Rightarrow> int \<Rightarrow> (memory_hierarchy \<times> int) option" where
  "mh_accessMemory mh address data = (
     let l1_idx = c_mod address (int CACHE_L1_SIZE) in do {
     b1 \<leftarrow> rdi (mh_l1_cache mh) l1_idx;
     if holds b1 address then do {
       h \<leftarrow> chk (mh_l1_hits mh + 1);
       Some (mh\<lparr>mh_l1_hits := h\<rparr>, mb_access_time b1) }
     else do {
       m \<leftarrow> chk (mh_l1_misses mh + 1);
       let mh = mh\<lparr>mh_l1_misses := m\<rparr>;
       let l2_idx = c_mod address (int CACHE_L2_SIZE);
       b2 \<leftarrow> rdi (mh_l2_cache mh) l2_idx;
       if holds b2 address then do {
         h \<leftarrow> chk (mh_l2_hits mh + 1);
         l1 \<leftarrow> fill_block (mh_l1_cache mh) l1_idx (mb_data b2) address;
         Some (mh\<lparr>mh_l2_hits := h, mh_l1_cache := l1\<rparr>, mb_access_time b2) }
       else do {
         m \<leftarrow> chk (mh_l2_misses mh + 1);
         let mh = mh\<lparr>mh_l2_misses := m\<rparr>;
         let mm_idx = c_mod address (int MAIN_MEMORY_SIZE);
         b3 \<leftarrow> rdi (mh_main_memory mh) mm_idx;
         if holds b3 address then do {
           l1 \<leftarrow> fill_block (mh_l1_cache mh) l1_idx (mb_data b3) address;
           l2 \<leftarrow> fill_block (mh_l2_cache mh) l1_idx (mb_data b3) address;
           Some (mh\<lparr>mh_l1_cache := l1, mh_l2_cache := l2\<rparr>, mb_access_time b3) }
         else do {
           f \<leftarrow> chk (mh_page_faults mh + 1);
           let vm_idx = c_mod address (int VIRTUAL_MEMORY_SIZE);
           v \<leftarrow> rdi (mh_virtual_memory mh) vm_idx;
           mm \<leftarrow> fill_block (mh_main_memory mh) mm_idx (mb_data v) address;
           l2 \<leftarrow> fill_block (mh_l2_cache mh) l2_idx (mb_data v) address;
           l1 \<leftarrow> fill_block (mh_l1_cache mh) l1_idx (mb_data v) address;
           Some (mh\<lparr>mh_page_faults := f, mh_main_memory := mm, mh_l2_cache := l2, mh_l1_cache := l1\<rparr>,
             mb_access_time v) } } } })"

text \<open>A level is coherent when every valid block holds the data virtual memory has at its address.\<close>

definition coherent :: "memory_block list \<Rightarrow> memory_block list \<Rightarrow> int \<Rightarrow> bool" where
  "coherent vm bs t \<longleftrightarrow> (\<forall>b \<in> set bs. mb_access_time b = t \<and>
     (mb_valid b \<noteq> 0 \<longrightarrow> 0 \<le> mb_address b \<and> mb_data b = mb_data (vm ! nat (mb_address b mod 4096))))"

definition mh_inv :: "memory_hierarchy \<Rightarrow> bool" where
  "mh_inv mh \<longleftrightarrow> length (mh_l1_cache mh) = 32 \<and> length (mh_l2_cache mh) = 256 \<and>
     length (mh_main_memory mh) = 1024 \<and> length (mh_virtual_memory mh) = 4096 \<and>
     coherent (mh_virtual_memory mh) (mh_l1_cache mh) 10 \<and> coherent (mh_virtual_memory mh) (mh_l2_cache mh) 100 \<and>
     coherent (mh_virtual_memory mh) (mh_main_memory mh) 100 \<and>
     (\<forall>b \<in> set (mh_virtual_memory mh). mb_access_time b = 1000) \<and>
     0 \<le> mh_l1_hits mh \<and> 0 \<le> mh_l2_hits mh \<and> 0 \<le> mh_page_faults mh \<and>
     mh_l2_hits mh + mh_l2_misses mh = mh_l1_misses mh \<and> mh_page_faults mh \<le> mh_l2_misses mh"

definition mh_accesses :: "memory_hierarchy \<Rightarrow> int" where
  "mh_accesses mh = mh_l1_hits mh + mh_l1_misses mh"

lemma reset_level_ok:
  assumes "length bs = n"
  shows "reset_level n t bs = Some (map (\<lambda>b. b\<lparr>mb_valid := 0, mb_access_time := t\<rparr>) bs)"
proof -
  let ?g = "\<lambda>b. b\<lparr>mb_valid := 0, mb_access_time := t\<rparr>"
  have "for_loop 0 k (\<lambda>i bs. do { b \<leftarrow> rd bs i; wr bs i (?g b) }) bs = Some (map ?g (take k bs) @ drop k bs)"
    if "k \<le> length bs" for k using that
  proof (induction k)
    case (Suc k)
    then have "map ?g (take k bs) @ drop k bs = map ?g (take k bs) @ bs ! k # drop (Suc k) bs"
      by (simp add: Cons_nth_drop_Suc)
    with Suc show ?case by (simp add: for_loop_Suc nth_append list_update_append take_Suc_conv_app_nth)
  qed simp
  from this [of n] show ?thesis using assms by (simp add: reset_level_def)
qed

lemma initializeMemory_ok:
  assumes "length (mh_l1_cache mh) = 32" and "length (mh_l2_cache mh) = 256"
    and "length (mh_main_memory mh) = 1024" and "length (mh_virtual_memory mh) = 4096"
  shows "\<exists>mh'. initializeMemory mh = Some mh' \<and> mh_inv mh' \<and> mh_accesses mh' = 0"
  using assms by (auto simp: initializeMemory_def reset_level_ok CACHE_L1_SIZE_def CACHE_L2_SIZE_def
      MAIN_MEMORY_SIZE_def VIRTUAL_MEMORY_SIZE_def mh_inv_def coherent_def mh_accesses_def)

lemma fill_block_ok:
  assumes "0 \<le> i" and "i < int (length bs)"
  shows "fill_block bs i d a = Some (bs[nat i := (bs ! nat i)\<lparr>mb_data := d, mb_address := a, mb_valid := 1\<rparr>])"
  using assms by (simp add: fill_block_def nat_less_iff)

lemma coherent_fill:
  assumes "coherent vm bs t" and "i < length bs" and "0 \<le> a" and "d = mb_data (vm ! nat (a mod 4096))"
  shows "coherent vm (bs[i := (bs ! i)\<lparr>mb_data := d, mb_address := a, mb_valid := 1\<rparr>]) t"
proof -
  let ?b = "(bs ! i)\<lparr>mb_data := d, mb_address := a, mb_valid := 1\<rparr>"
  have "mb_access_time (bs ! i) = t" using assms(1,2) by (simp add: coherent_def)
  then have "mb_access_time ?b = t \<and> (mb_valid ?b \<noteq> 0 \<longrightarrow> 0 \<le> mb_address ?b \<and> mb_data ?b = mb_data (vm ! nat (mb_address ?b mod 4096)))"
    using assms(3,4) by simp
  with assms(1) set_update_subset_insert [of bs i ?b] show ?thesis unfolding coherent_def by blast
qed

lemma coherent_block:
  "\<lbrakk>coherent vm bs t; i < length bs; holds (bs ! i) a\<rbrakk> \<Longrightarrow> mb_data (bs ! i) = mb_data (vm ! nat (a mod 4096))"
  by (auto simp: coherent_def holds_def)

lemma coherent_time: "\<lbrakk>coherent vm bs t; i < length bs\<rbrakk> \<Longrightarrow> mb_access_time (bs ! i) = t"
  by (simp add: coherent_def)

definition put_block :: "memory_block list \<Rightarrow> nat \<Rightarrow> int \<Rightarrow> int \<Rightarrow> memory_block list" where
  "put_block bs i d a = bs[i := (bs ! i)\<lparr>mb_data := d, mb_address := a, mb_valid := 1\<rparr>]"

lemma length_put_block [simp]: "length (put_block bs i d a) = length bs"
  by (simp add: put_block_def)

lemma put_block_held: "i < length bs \<Longrightarrow> holds (put_block bs i d a ! i) a \<and> mb_data (put_block bs i d a ! i) = d"
  by (simp add: put_block_def holds_def)

lemma mh_invD:
  assumes "mh_inv mh"
  shows "length (mh_l1_cache mh) = 32" "length (mh_l2_cache mh) = 256" "length (mh_main_memory mh) = 1024"
    "length (mh_virtual_memory mh) = 4096" "coherent (mh_virtual_memory mh) (mh_l1_cache mh) 10"
    "coherent (mh_virtual_memory mh) (mh_l2_cache mh) 100" "coherent (mh_virtual_memory mh) (mh_main_memory mh) 100"
    "\<forall>b \<in> set (mh_virtual_memory mh). mb_access_time b = 1000" "0 \<le> mh_l1_hits mh" "0 \<le> mh_l2_hits mh" "0 \<le> mh_page_faults mh"
    "mh_l2_hits mh + mh_l2_misses mh = mh_l1_misses mh" "mh_page_faults mh \<le> mh_l2_misses mh"
  using assms by (simp_all add: mh_inv_def)

text \<open>One access, by the level that holds the block.\<close>

lemma mh_access_eq:
  assumes inv: "mh_inv mh" and a: "0 \<le> a" and room: "mh_accesses mh < INT_MAX"
  defines "b1 \<equiv> mh_l1_cache mh ! nat (a mod 32)" and "b2 \<equiv> mh_l2_cache mh ! nat (a mod 256)"
    and "b3 \<equiv> mh_main_memory mh ! nat (a mod 1024)" and "v \<equiv> mb_data (mh_virtual_memory mh ! nat (a mod 4096))"
  shows "mh_accessMemory mh a d = Some (
    if holds b1 a then (mh\<lparr>mh_l1_hits := mh_l1_hits mh + 1\<rparr>, 10)
    else let mh = mh\<lparr>mh_l1_misses := mh_l1_misses mh + 1, mh_l1_cache := put_block (mh_l1_cache mh) (nat (a mod 32)) v a\<rparr> in
    if holds b2 a then (mh\<lparr>mh_l2_hits := mh_l2_hits mh + 1\<rparr>, 100)
    else let mh = mh\<lparr>mh_l2_misses := mh_l2_misses mh + 1\<rparr> in
    if holds b3 a then (mh\<lparr>mh_l2_cache := put_block (mh_l2_cache mh) (nat (a mod 32)) v a\<rparr>, 100)
    else (mh\<lparr>mh_page_faults := mh_page_faults mh + 1, mh_main_memory := put_block (mh_main_memory mh) (nat (a mod 1024)) v a,
      mh_l2_cache := put_block (mh_l2_cache mh) (nat (a mod 256)) v a\<rparr>, 1000))"
proof -
  note iv = mh_invD [OF inv]
  have i: "nat (a mod 32) < length (mh_l1_cache mh)" "nat (a mod 32) < length (mh_l2_cache mh)" "nat (a mod 256) < length (mh_l2_cache mh)"
    "nat (a mod 1024) < length (mh_main_memory mh)" "nat (a mod 4096) < length (mh_virtual_memory mh)"
    by (simp_all add: iv nat_less_iff)
  have idx: "c_mod a (int CACHE_L1_SIZE) = a mod 32" "c_mod a (int CACHE_L2_SIZE) = a mod 256"
    "c_mod a (int MAIN_MEMORY_SIZE) = a mod 1024" "c_mod a (int VIRTUAL_MEMORY_SIZE) = a mod 4096"
    using a by (simp_all add: c_mod_nonneg CACHE_L1_SIZE_def CACHE_L2_SIZE_def MAIN_MEMORY_SIZE_def VIRTUAL_MEMORY_SIZE_def)
  have chks: "chk (mh_l1_hits mh + 1) = Some (mh_l1_hits mh + 1)" "chk (mh_l1_misses mh + 1) = Some (mh_l1_misses mh + 1)"
    "chk (mh_l2_hits mh + 1) = Some (mh_l2_hits mh + 1)" "chk (mh_l2_misses mh + 1) = Some (mh_l2_misses mh + 1)"
    "chk (mh_page_faults mh + 1) = Some (mh_page_faults mh + 1)"
    using iv(9-13) room by (auto simp: chk_def int_ok_def INT_MIN_def mh_accesses_def)
  have times: "mb_access_time b1 = 10" "mb_access_time b2 = 100" "mb_access_time b3 = 100"
    "mb_access_time (mh_virtual_memory mh ! nat (a mod 4096)) = 1000"
    unfolding b1_def b2_def b3_def
    by (rule coherent_time [OF iv(5) i(1)] coherent_time [OF iv(6) i(3)] coherent_time [OF iv(7) i(4)] bspec [OF iv(8) nth_mem [OF i(5)]])+
  have data: "mb_data b2 = v" if "holds b2 a"
    using coherent_block [OF iv(6) i(3)] that unfolding b2_def v_def by blast
  have data': "mb_data b3 = v" if "holds b3 a"
    using coherent_block [OF iv(7) i(4)] that unfolding b3_def v_def by blast
  have rds: "rdi (mh_l1_cache mh) (a mod 32) = Some b1" "rdi (mh_l2_cache mh) (a mod 256) = Some b2"
    "rdi (mh_main_memory mh) (a mod 1024) = Some b3" "rdi (mh_virtual_memory mh) (a mod 4096) = Some (mh_virtual_memory mh ! nat (a mod 4096))"
    using i by (simp_all add: b1_def b2_def b3_def)
  have fills: "fill_block (mh_l1_cache mh) (a mod 32) x a = Some (put_block (mh_l1_cache mh) (nat (a mod 32)) x a)"
    "fill_block (mh_l2_cache mh) (a mod 32) x a = Some (put_block (mh_l2_cache mh) (nat (a mod 32)) x a)"
    "fill_block (mh_l2_cache mh) (a mod 256) x a = Some (put_block (mh_l2_cache mh) (nat (a mod 256)) x a)"
    "fill_block (mh_main_memory mh) (a mod 1024) x a = Some (put_block (mh_main_memory mh) (nat (a mod 1024)) x a)" for x
    using i by (simp_all add: fill_block_ok put_block_def nat_less_iff)
  note acc = mh_accessMemory_def idx Let_def chks rds fills times v_def [symmetric]
  show ?thesis
    by (cases "holds b1 a"; cases "holds b2 a"; cases "holds b3 a") (simp_all add: acc data data')
qed

lemma mh_inv_fill:
  assumes inv: "mh_inv mh" and a: "0 \<le> a" and "v = mb_data (mh_virtual_memory mh ! nat (a mod 4096))"
  shows "i < 32 \<Longrightarrow> coherent (mh_virtual_memory mh) (put_block (mh_l1_cache mh) i v a) 10"
    and "i < 256 \<Longrightarrow> coherent (mh_virtual_memory mh) (put_block (mh_l2_cache mh) i v a) 100"
    and "i < 1024 \<Longrightarrow> coherent (mh_virtual_memory mh) (put_block (mh_main_memory mh) i v a) 100"
  using mh_invD [OF inv] coherent_fill [OF _ _ a assms(3)] by (simp_all add: put_block_def)

text \<open>
  C24: Every access to a nonnegative address returns. It counts one hit or miss at the first level and, on a
  miss, one at the second; its time is that of the level that held the block (10, 100, 100 or 1000
  cycles); the blocks at all levels keep agreeing with virtual memory; and afterwards the
  address is in the first-level cache with virtual memory's data.\<close>
theorem hierarchy_access:
  assumes inv: "mh_inv mh" and a: "0 \<le> a" and room: "mh_accesses mh < INT_MAX"
  shows "\<exists>mh' t. mh_accessMemory mh a d = Some (mh', t) \<and> mh_inv mh' \<and>
    mh_accesses mh' = mh_accesses mh + 1 \<and> mh_virtual_memory mh' = mh_virtual_memory mh \<and>
    holds (mh_l1_cache mh' ! nat (a mod 32)) a \<and>
    mb_data (mh_l1_cache mh' ! nat (a mod 32)) = mb_data (mh_virtual_memory mh ! nat (a mod 4096)) \<and>
    t = (if holds (mh_l1_cache mh ! nat (a mod 32)) a then 10
         else if holds (mh_l2_cache mh ! nat (a mod 256)) a then 100
         else if holds (mh_main_memory mh ! nat (a mod 1024)) a then 100 else 1000)"
proof -
  let ?v = "mb_data (mh_virtual_memory mh ! nat (a mod 4096))"
  note iv = mh_invD [OF inv] and fills = mh_inv_fill [OF inv a refl]
  have i: "nat (a mod 32) < 32" "nat (a mod 32) < 256" "nat (a mod 256) < 256" "nat (a mod 1024) < 1024" by (simp_all add: nat_less_iff)
  have held: "holds (put_block (mh_l1_cache mh) (nat (a mod 32)) ?v a ! nat (a mod 32)) a"
    "mb_data (put_block (mh_l1_cache mh) (nat (a mod 32)) ?v a ! nat (a mod 32)) = ?v"
    using put_block_held [of "nat (a mod 32)" "mh_l1_cache mh"] i iv(1) by simp_all
  have hit: "holds (mh_l1_cache mh ! nat (a mod 32)) a \<Longrightarrow> mb_data (mh_l1_cache mh ! nat (a mod 32)) = ?v"
    using coherent_block [OF iv(5)] i iv(1) by simp
  show ?thesis unfolding mh_access_eq [OF inv a room] using iv(13)
    by (cases "holds (mh_l1_cache mh ! nat (a mod 32)) a"; cases "holds (mh_l2_cache mh ! nat (a mod 256)) a";
        cases "holds (mh_main_memory mh ! nat (a mod 1024)) a")
      (simp_all add: mh_inv_def mh_accesses_def Let_def iv(1-12) fills i held hit)
qed

definition mh_demo :: memory_hierarchy where
  "mh_demo = (let b = \<lambda>t. \<lparr>mb_data = 7, mb_address = 0, mb_valid = 0, mb_access_time = t\<rparr> in
     \<lparr>mh_l1_cache = replicate 32 (b 10), mh_l2_cache = replicate 256 (b 100), mh_main_memory = replicate 1024 (b 100),
      mh_virtual_memory = replicate 4096 (b 1000), mh_l1_hits = 0, mh_l2_hits = 0, mh_l1_misses = 0,
      mh_l2_misses = 0, mh_page_faults = 0\<rparr>)"

theorem hierarchy_access_witness:
  "\<exists>mh' t. mh_accessMemory mh_demo 300 5 = Some (mh', t) \<and> mh_inv mh' \<and>
    mh_accesses mh' = mh_accesses mh_demo + 1 \<and> mh_virtual_memory mh' = mh_virtual_memory mh_demo \<and>
    holds (mh_l1_cache mh' ! nat (300 mod 32)) 300 \<and>
    mb_data (mh_l1_cache mh' ! nat (300 mod 32)) = mb_data (mh_virtual_memory mh_demo ! nat (300 mod 4096)) \<and>
    t = (if holds (mh_l1_cache mh_demo ! nat (300 mod 32)) 300 then 10
         else if holds (mh_l2_cache mh_demo ! nat (300 mod 256)) 300 then 100
         else if holds (mh_main_memory mh_demo ! nat (300 mod 1024)) 300 then 100 else 1000)"
  by (rule hierarchy_access) (simp_all add: mh_inv_def mh_demo_def Let_def coherent_def mh_accesses_def INT_MAX_def)

end
