(* ===== verification/Partition_Allocation.thy ===== *)
theory Partition_Allocation
  imports OS_Prelude
begin

unbundle bit_operations_syntax

section \<open>Contiguous allocation: d17\<close>

text \<open>
  First, best and worst fit over a list of partitions (Memory_Allocation_Algo.c), compaction
  (Memory_Compaction.c) and region protection (Memory_Protection.c). The singly linked list
  from \<open>manager->head\<close> is the list \<open>mg_blocks\<close> in order, and a block pointer is its position in
  it; no block is reachable in any other way. The interface \<open>fit_policy\<close> is what \<open>allocMemory\<close>
  needs of a policy. \<open>freeMemoryManager\<close> is in Memory\_Setups. The source does not check the results of
  \<open>malloc\<close> for managers and blocks; here they succeed.
\<close>

subsection \<open>State and policies\<close>

definition MIN_PARTITION_SIZE :: size_t where
  "MIN_PARTITION_SIZE = 64"

record mblock =
  bl_size :: size_t
  bl_start_address :: size_t
  bl_is_allocated :: bool

record memory_manager =
  mg_blocks :: "mblock list"
  mg_total_size :: size_t
  mg_free_size :: size_t
  mg_strategy :: int

definition initMemoryManager :: "size_t \<Rightarrow> int \<Rightarrow> memory_manager" where
  "initMemoryManager sz strategy =
     \<lparr>mg_blocks = [\<lparr>bl_size = sz, bl_start_address = 0, bl_is_allocated = False\<rparr>],
      mg_total_size = sz, mg_free_size = sz, mg_strategy = strategy\<rparr>"

definition fits :: "mblock \<Rightarrow> size_t \<Rightarrow> bool" where
  "fits b sz \<longleftrightarrow> \<not> bl_is_allocated b \<and> sz \<le> bl_size b"

text \<open>The loops over the list; \<open>i\<close> is the position of the first block of the rest.\<close>

primrec first_from :: "nat \<Rightarrow> mblock list \<Rightarrow> size_t \<Rightarrow> nat option" where
  "first_from i [] sz = None"
| "first_from i (cur # rest) sz = (if fits cur sz then Some i else first_from (Suc i) rest sz)"

primrec best_from :: "nat \<Rightarrow> mblock list \<Rightarrow> size_t \<Rightarrow> nat option \<Rightarrow> size_t \<Rightarrow> nat option" where
  "best_from i [] sz best_block smallest_diff = best_block"
| "best_from i (cur # rest) sz best_block smallest_diff =
     (if fits cur sz \<and> bl_size cur - sz < smallest_diff
      then best_from (Suc i) rest sz (Some i) (bl_size cur - sz)
      else best_from (Suc i) rest sz best_block smallest_diff)"

primrec worst_from :: "nat \<Rightarrow> mblock list \<Rightarrow> size_t \<Rightarrow> nat option \<Rightarrow> size_t \<Rightarrow> nat option" where
  "worst_from i [] sz worst_block largest_diff = worst_block"
| "worst_from i (cur # rest) sz worst_block largest_diff =
     (if fits cur sz \<and> bl_size cur - sz > largest_diff
      then worst_from (Suc i) rest sz (Some i) (bl_size cur - sz)
      else worst_from (Suc i) rest sz worst_block largest_diff)"

definition firstFit :: "memory_manager \<Rightarrow> size_t \<Rightarrow> nat option" where
  "firstFit manager sz = first_from 0 (mg_blocks manager) sz"

definition bestFit :: "memory_manager \<Rightarrow> size_t \<Rightarrow> nat option" where
  "bestFit manager sz = best_from 0 (mg_blocks manager) sz None (mg_total_size manager)"

definition worstFit :: "memory_manager \<Rightarrow> size_t \<Rightarrow> nat option" where
  "worstFit manager sz = worst_from 0 (mg_blocks manager) sz None 0"

text \<open>
  \<open>allocMemory\<close> returns the start address as a pointer: 0 is both the address of the first
  partition and \<open>NULL\<close>.
\<close>

definition take_block :: "memory_manager \<Rightarrow> nat \<Rightarrow> size_t \<Rightarrow> memory_manager \<times> size_t" where
  "take_block manager i sz = (
     let bs = mg_blocks manager; b = bs ! i in
     if bl_size b > sz + MIN_PARTITION_SIZE then
       (let new_block = \<lparr>bl_size = bl_size b - sz, bl_start_address = bl_start_address b + sz, bl_is_allocated = False\<rparr>;
            b' = b\<lparr>bl_size := sz, bl_is_allocated := True\<rparr>
        in (manager\<lparr>mg_blocks := take i bs @ b' # new_block # drop (Suc i) bs, mg_free_size := mg_free_size manager - sz\<rparr>,
            bl_start_address b))
     else (manager\<lparr>mg_blocks := bs[i := b\<lparr>bl_is_allocated := True\<rparr>], mg_free_size := mg_free_size manager - bl_size b\<rparr>,
           bl_start_address b))"

definition allocMemory :: "memory_manager \<Rightarrow> size_t \<Rightarrow> memory_manager \<times> size_t" where
  "allocMemory manager sz =
     (if sz < MIN_PARTITION_SIZE \<or> sz > mg_free_size manager then (manager, 0)
      else (case (if mg_strategy manager = 2 then bestFit manager sz
                  else if mg_strategy manager = 3 then worstFit manager sz
                  else firstFit manager sz) of
              None \<Rightarrow> (manager, 0)
            | Some i \<Rightarrow> take_block manager i sz))"

subsection \<open>What a policy must do\<close>

text \<open>The partitions tile the memory, and \<open>free_size\<close> is what the free ones add up to.\<close>

fun tiles :: "nat \<Rightarrow> mblock list \<Rightarrow> nat \<Rightarrow> bool" where
  "tiles a [] e = (a = e)"
| "tiles a (b # bs) e = (unat (bl_start_address b) = a \<and> tiles (a + unat (bl_size b)) bs e)"

definition free_sum :: "mblock list \<Rightarrow> nat" where
  "free_sum bs = sum_list (map (\<lambda>b. unat (bl_size b)) (filter (\<lambda>b. \<not> bl_is_allocated b) bs))"

definition mg_inv :: "memory_manager \<Rightarrow> bool" where
  "mg_inv m \<longleftrightarrow> unat (mg_total_size m) < 2 ^ 63 \<and> tiles 0 (mg_blocks m) (unat (mg_total_size m)) \<and>
     unat (mg_free_size m) = free_sum (mg_blocks m)"

lemma tiles_append: "tiles a (xs @ ys) e \<longleftrightarrow> (\<exists>c. tiles a xs c \<and> tiles c ys e)"
  by (induction xs arbitrary: a) auto

lemma tiles_le: "tiles a xs e \<Longrightarrow> a \<le> e"
  by (induction xs arbitrary: a) fastforce+

lemma free_sum_simps [simp]:
  "free_sum [] = 0"
  "free_sum (b # bs) = (if bl_is_allocated b then 0 else unat (bl_size b)) + free_sum bs"
  "free_sum (xs @ ys) = free_sum xs + free_sum ys"
  by (simp_all add: free_sum_def)

locale fit_policy =
  fixes select :: "memory_manager \<Rightarrow> size_t \<Rightarrow> nat option"
  assumes select_fits: "\<lbrakk>mg_inv m; 0 < sz; select m sz = Some i\<rbrakk> \<Longrightarrow> i < length (mg_blocks m) \<and> fits (mg_blocks m ! i) sz"
begin

text \<open>
  Taking the selected block keeps the tiling; the block ends up allocated at its old start with at
  least the size asked for, and less than 65 bytes more.
\<close>

lemma take_selected:
  assumes inv: "mg_inv m" and sz: "0 < sz" and sel: "select m sz = Some i"
  shows "\<exists>m'. take_block m i sz = (m', bl_start_address (mg_blocks m ! i)) \<and> mg_inv m' \<and>
    mg_total_size m' = mg_total_size m \<and>
    bl_is_allocated (mg_blocks m' ! i) \<and> bl_start_address (mg_blocks m' ! i) = bl_start_address (mg_blocks m ! i) \<and>
    unat sz \<le> unat (bl_size (mg_blocks m' ! i)) \<and> unat (bl_size (mg_blocks m' ! i)) \<le> unat sz + 64 \<and>
    filter bl_is_allocated (mg_blocks m') = filter bl_is_allocated (take i (mg_blocks m)) @
      mg_blocks m' ! i # filter bl_is_allocated (drop (Suc i) (mg_blocks m))"
proof -
  let ?bs = "mg_blocks m"
  define xs where "xs = take i ?bs"
  define ys where "ys = drop (Suc i) ?bs"
  define b where "b = ?bs ! i"
  from select_fits [OF assms] have i: "i < length ?bs" "\<not> bl_is_allocated b" "sz \<le> bl_size b"
    by (auto simp: fits_def b_def)
  have bs: "?bs = xs @ b # ys" using i(1) by (simp add: xs_def ys_def b_def id_take_nth_drop)
  have len: "length xs = i" using i(1) by (simp add: xs_def)
  from inv obtain c where t: "tiles 0 xs c" "unat (bl_start_address b) = c" "tiles (c + unat (bl_size b)) ys (unat (mg_total_size m))"
    and total: "unat (mg_total_size m) < 2 ^ 63" and free: "unat (mg_free_size m) = free_sum ?bs"
    by (auto simp: mg_inv_def bs tiles_append)
  have end_b: "c + unat (bl_size b) < 2 ^ 63" using tiles_le [OF t(3)] total by simp
  have szb: "unat sz \<le> unat (bl_size b)" using i(3) by (simp add: word_le_nat_alt)
  have plus: "unat (sz + MIN_PARTITION_SIZE) = unat sz + 64"
    using szb end_b by (simp add: unat_plus_if' MIN_PARTITION_SIZE_def)
  have nth: "(xs @ u # zs) ! i = u" for u zs using len by (simp add: nth_append)
  have drops: "take i ?bs = xs" "drop (Suc i) ?bs = ys" by (simp_all add: xs_def ys_def)
  have upd: "?bs[i := u] = xs @ u # ys" for u using len by (simp add: bs list_update_append)
  show ?thesis
  proof (cases "bl_size b > sz + MIN_PARTITION_SIZE")
    case True
    let ?n = "\<lparr>bl_size = bl_size b - sz, bl_start_address = bl_start_address b + sz, bl_is_allocated = False\<rparr>"
    let ?b' = "b\<lparr>bl_size := sz, bl_is_allocated := True\<rparr>"
    let ?m' = "m\<lparr>mg_blocks := xs @ ?b' # ?n # ys, mg_free_size := mg_free_size m - sz\<rparr>"
    have run: "take_block m i sz = (?m', bl_start_address b)"
      using True by (simp add: take_block_def Let_def b_def [symmetric] drops)
    have sub: "unat (bl_size b - sz) = unat (bl_size b) - unat sz" using i(3) by (simp add: unat_sub)
    have start: "unat (bl_start_address b + sz) = c + unat sz"
      using t(2) szb end_b by (simp add: unat_plus_if')
    have "free_sum ?bs = free_sum xs + unat (bl_size b) + free_sum ys" using i(2) by (simp add: bs)
    moreover have "unat (mg_free_size m - sz) = unat (mg_free_size m) - unat sz"
      using free calculation szb by (simp add: unat_sub word_le_nat_alt)
    ultimately have "unat (mg_free_size m - sz) = free_sum (xs @ ?b' # ?n # ys)"
      using free szb sub by simp
    moreover have "tiles 0 (xs @ ?b' # ?n # ys) (unat (mg_total_size m))"
      using t szb sub start by (auto simp: tiles_append)
    ultimately have "mg_inv ?m'" using total by (simp add: mg_inv_def)
    then show ?thesis using run by (intro exI [of _ ?m']) (simp add: nth b_def [symmetric] drops)
  next
    case False
    let ?b' = "b\<lparr>bl_is_allocated := True\<rparr>"
    let ?m' = "m\<lparr>mg_blocks := xs @ ?b' # ys, mg_free_size := mg_free_size m - bl_size b\<rparr>"
    have run: "take_block m i sz = (?m', bl_start_address b)"
      using False by (simp add: take_block_def Let_def b_def [symmetric] upd)
    have "free_sum ?bs = free_sum xs + unat (bl_size b) + free_sum ys" using i(2) by (simp add: bs)
    moreover have "unat (mg_free_size m - bl_size b) = unat (mg_free_size m) - unat (bl_size b)"
      using free calculation by (simp add: unat_sub word_le_nat_alt)
    ultimately have "unat (mg_free_size m - bl_size b) = free_sum (xs @ ?b' # ys)" using free by simp
    moreover have "tiles 0 (xs @ ?b' # ys) (unat (mg_total_size m))" using t by (auto simp: tiles_append)
    ultimately have "mg_inv ?m'" using total by (simp add: mg_inv_def)
    moreover have "unat (bl_size b) \<le> unat sz + 64" using False plus by (simp add: word_less_nat_alt)
    ultimately show ?thesis using run szb by (intro exI [of _ ?m']) (simp add: nth b_def [symmetric] drops)
  qed
qed

end

subsection \<open>The three policies meet it\<close>

lemma first_from_spec:
  "first_from k bs sz = map_option ((+) k) (find (\<lambda>j. fits (bs ! j) sz) [0..<length bs])"
proof (induction bs arbitrary: k)
  case (Cons b bs)
  show ?case
    using Cons [of "Suc k"] unfolding find_nth_Cons [of "\<lambda>b. fits b sz"]
    by (simp add: option.map_comp o_def)
qed simp

lemma best_from_spec:
  "best_from k bs sz bb sd = bb \<and> (\<forall>b \<in> set bs. fits b sz \<longrightarrow> sd \<le> bl_size b - sz) \<or>
   (\<exists>j < length bs. best_from k bs sz bb sd = Some (k + j) \<and> fits (bs ! j) sz \<and> bl_size (bs ! j) - sz < sd \<and>
     (\<forall>b \<in> set bs. fits b sz \<longrightarrow> bl_size (bs ! j) - sz \<le> bl_size b - sz))"
proof (induction bs arbitrary: k bb sd)
  case (Cons b bs)
  show ?case
  proof (cases "fits b sz \<and> bl_size b - sz < sd")
    case True
    then have eq: "best_from k (b # bs) sz bb sd = best_from (Suc k) bs sz (Some k) (bl_size b - sz)" by simp
    from Cons.IH [of "Suc k" "Some k" "bl_size b - sz"] show ?thesis
    proof
      assume "best_from (Suc k) bs sz (Some k) (bl_size b - sz) = Some k \<and>
        (\<forall>c \<in> set bs. fits c sz \<longrightarrow> bl_size b - sz \<le> bl_size c - sz)"
      with True eq show ?thesis by (intro disjI2 exI [of _ 0]) auto
    next
      assume "\<exists>j < length bs. best_from (Suc k) bs sz (Some k) (bl_size b - sz) = Some (Suc k + j) \<and>
        fits (bs ! j) sz \<and> bl_size (bs ! j) - sz < bl_size b - sz \<and>
        (\<forall>c \<in> set bs. fits c sz \<longrightarrow> bl_size (bs ! j) - sz \<le> bl_size c - sz)"
      then obtain j where "j < length bs" "best_from (Suc k) bs sz (Some k) (bl_size b - sz) = Some (Suc k + j)"
        "fits (bs ! j) sz" "bl_size (bs ! j) - sz < bl_size b - sz"
        "\<forall>c \<in> set bs. fits c sz \<longrightarrow> bl_size (bs ! j) - sz \<le> bl_size c - sz" by blast
      with True eq show ?thesis by (intro disjI2 exI [of _ "Suc j"]) auto
    qed
  next
    case False
    then have eq: "best_from k (b # bs) sz bb sd = best_from (Suc k) bs sz bb sd" by auto
    from Cons.IH [of "Suc k" bb sd] show ?thesis
    proof
      assume "best_from (Suc k) bs sz bb sd = bb \<and> (\<forall>c \<in> set bs. fits c sz \<longrightarrow> sd \<le> bl_size c - sz)"
      with False eq show ?thesis by (intro disjI1) auto
    next
      assume "\<exists>j < length bs. best_from (Suc k) bs sz bb sd = Some (Suc k + j) \<and> fits (bs ! j) sz \<and>
        bl_size (bs ! j) - sz < sd \<and> (\<forall>c \<in> set bs. fits c sz \<longrightarrow> bl_size (bs ! j) - sz \<le> bl_size c - sz)"
      then obtain j where "j < length bs" "best_from (Suc k) bs sz bb sd = Some (Suc k + j)" "fits (bs ! j) sz"
        "bl_size (bs ! j) - sz < sd" "\<forall>c \<in> set bs. fits c sz \<longrightarrow> bl_size (bs ! j) - sz \<le> bl_size c - sz" by blast
      with False eq show ?thesis by (intro disjI2 exI [of _ "Suc j"]) auto
    qed
  qed
qed simp

lemma worst_from_spec:
  "worst_from k bs sz wb ld = wb \<and> (\<forall>b \<in> set bs. fits b sz \<longrightarrow> bl_size b - sz \<le> ld) \<or>
   (\<exists>j < length bs. worst_from k bs sz wb ld = Some (k + j) \<and> fits (bs ! j) sz \<and> ld < bl_size (bs ! j) - sz \<and>
     (\<forall>b \<in> set bs. fits b sz \<longrightarrow> bl_size b - sz \<le> bl_size (bs ! j) - sz))"
proof (induction bs arbitrary: k wb ld)
  case (Cons b bs)
  show ?case
  proof (cases "fits b sz \<and> bl_size b - sz > ld")
    case True
    then have eq: "worst_from k (b # bs) sz wb ld = worst_from (Suc k) bs sz (Some k) (bl_size b - sz)" by simp
    from Cons.IH [of "Suc k" "Some k" "bl_size b - sz"] show ?thesis
    proof
      assume "worst_from (Suc k) bs sz (Some k) (bl_size b - sz) = Some k \<and>
        (\<forall>c \<in> set bs. fits c sz \<longrightarrow> bl_size c - sz \<le> bl_size b - sz)"
      with True eq show ?thesis by (intro disjI2 exI [of _ 0]) auto
    next
      assume "\<exists>j < length bs. worst_from (Suc k) bs sz (Some k) (bl_size b - sz) = Some (Suc k + j) \<and>
        fits (bs ! j) sz \<and> bl_size b - sz < bl_size (bs ! j) - sz \<and>
        (\<forall>c \<in> set bs. fits c sz \<longrightarrow> bl_size c - sz \<le> bl_size (bs ! j) - sz)"
      then obtain j where "j < length bs" "worst_from (Suc k) bs sz (Some k) (bl_size b - sz) = Some (Suc k + j)"
        "fits (bs ! j) sz" "bl_size b - sz < bl_size (bs ! j) - sz"
        "\<forall>c \<in> set bs. fits c sz \<longrightarrow> bl_size c - sz \<le> bl_size (bs ! j) - sz" by blast
      with True eq show ?thesis by (intro disjI2 exI [of _ "Suc j"]) auto
    qed
  next
    case False
    then have eq: "worst_from k (b # bs) sz wb ld = worst_from (Suc k) bs sz wb ld" by auto
    from Cons.IH [of "Suc k" wb ld] show ?thesis
    proof
      assume "worst_from (Suc k) bs sz wb ld = wb \<and> (\<forall>c \<in> set bs. fits c sz \<longrightarrow> bl_size c - sz \<le> ld)"
      with False eq show ?thesis by (intro disjI1) auto
    next
      assume "\<exists>j < length bs. worst_from (Suc k) bs sz wb ld = Some (Suc k + j) \<and> fits (bs ! j) sz \<and>
        ld < bl_size (bs ! j) - sz \<and> (\<forall>c \<in> set bs. fits c sz \<longrightarrow> bl_size c - sz \<le> bl_size (bs ! j) - sz)"
      then obtain j where "j < length bs" "worst_from (Suc k) bs sz wb ld = Some (Suc k + j)" "fits (bs ! j) sz"
        "ld < bl_size (bs ! j) - sz" "\<forall>c \<in> set bs. fits c sz \<longrightarrow> bl_size c - sz \<le> bl_size (bs ! j) - sz" by blast
      with False eq show ?thesis by (intro disjI2 exI [of _ "Suc j"]) auto
    qed
  qed
qed simp

lemma firstFit_spec:
  "firstFit m sz = find (\<lambda>j. fits (mg_blocks m ! j) sz) [0..<length (mg_blocks m)]"
  by (simp add: firstFit_def first_from_spec option.map_id0 [unfolded id_def])
     (cases "find (\<lambda>j. fits (mg_blocks m ! j) sz) [0..<length (mg_blocks m)]"; simp)

interpretation first: fit_policy firstFit
  by unfold_locales (auto simp: firstFit_spec find_upt_Some)

interpretation best: fit_policy bestFit
proof
  fix m :: memory_manager and sz i
  assume "bestFit m sz = Some i"
  with best_from_spec [of 0 "mg_blocks m" sz None "mg_total_size m"]
  show "i < length (mg_blocks m) \<and> fits (mg_blocks m ! i) sz" by (auto simp: bestFit_def)
qed

interpretation worst: fit_policy worstFit
proof
  fix m :: memory_manager and sz i
  assume "worstFit m sz = Some i"
  with worst_from_spec [of 0 "mg_blocks m" sz None 0]
  show "i < length (mg_blocks m) \<and> fits (mg_blocks m ! i) sz" by (auto simp: worstFit_def)
qed

lemma tiles_member:
  assumes "tiles a bs e" and "b \<in> set bs"
  shows "unat (bl_size b) \<le> e - a"
  using assms
proof (induction bs arbitrary: a)
  case (Cons c bs)
  then show ?case using tiles_le [of "a + unat (bl_size c)" bs e] by fastforce
qed simp

text \<open>What a partition has more than was asked for orders the partitions that fit as their sizes do.\<close>

lemma fits_sub:
  assumes "fits b sz"
  shows "unat (bl_size b - sz) = unat (bl_size b) - unat sz" and "unat sz \<le> unat (bl_size b)"
proof -
  have le: "sz \<le> bl_size b" using assms by (simp add: fits_def)
  then show "unat sz \<le> unat (bl_size b)" by (simp add: word_le_nat_alt)
  show "unat (bl_size b - sz) = unat (bl_size b) - unat sz" using le by (simp add: unat_sub)
qed

lemma fits_mono: "\<lbrakk>fits b sz; fits c sz\<rbrakk> \<Longrightarrow> bl_size b - sz \<le> bl_size c - sz \<longleftrightarrow> bl_size b \<le> bl_size c"
  unfolding word_le_nat_alt using fits_sub [of b sz] fits_sub [of c sz] by arith

lemma fits_exact: "fits b sz \<Longrightarrow> bl_size b - sz \<le> 0 \<longleftrightarrow> bl_size b = sz"
  unfolding word_le_nat_alt word_unat_eq_iff using fits_sub [of b sz] by simp

lemma fits_small:
  assumes inv: "mg_inv m" and sz: "0 < sz" and b: "b \<in> set (mg_blocks m)" "fits b sz"
  shows "bl_size b - sz < mg_total_size m"
proof -
  have "unat (bl_size b) \<le> unat (mg_total_size m)"
    using tiles_member [of 0 "mg_blocks m" "unat (mg_total_size m)" b] inv b(1) by (simp add: mg_inv_def)
  moreover have "0 < unat sz" using sz by (simp add: word_less_nat_alt)
  ultimately show ?thesis using fits_sub [OF b(2)] by (simp add: word_less_nat_alt)
qed

lemma bestFit_choice:
  assumes "mg_inv m" and "0 < sz"
  shows "case bestFit m sz of
       None \<Rightarrow> \<forall>b \<in> set (mg_blocks m). \<not> fits b sz
     | Some i \<Rightarrow> i < length (mg_blocks m) \<and> fits (mg_blocks m ! i) sz \<and>
         (\<forall>b \<in> set (mg_blocks m). fits b sz \<longrightarrow> bl_size (mg_blocks m ! i) \<le> bl_size b)"
  using best_from_spec [of 0 "mg_blocks m" sz None "mg_total_size m"]
proof
  assume "best_from 0 (mg_blocks m) sz None (mg_total_size m) = None \<and>
    (\<forall>b \<in> set (mg_blocks m). fits b sz \<longrightarrow> mg_total_size m \<le> bl_size b - sz)"
  with fits_small [OF assms] show ?thesis by (auto simp: bestFit_def not_less [symmetric])
next
  assume "\<exists>j < length (mg_blocks m). best_from 0 (mg_blocks m) sz None (mg_total_size m) = Some (0 + j) \<and>
    fits (mg_blocks m ! j) sz \<and> bl_size (mg_blocks m ! j) - sz < mg_total_size m \<and>
    (\<forall>b \<in> set (mg_blocks m). fits b sz \<longrightarrow> bl_size (mg_blocks m ! j) - sz \<le> bl_size b - sz)"
  then show ?thesis using fits_mono by (auto simp: bestFit_def)
qed

lemma worstFit_choice:
  "case worstFit m sz of
     None \<Rightarrow> \<forall>b \<in> set (mg_blocks m). fits b sz \<longrightarrow> bl_size b = sz
   | Some i \<Rightarrow> i < length (mg_blocks m) \<and> fits (mg_blocks m ! i) sz \<and> sz < bl_size (mg_blocks m ! i) \<and>
       (\<forall>b \<in> set (mg_blocks m). fits b sz \<longrightarrow> bl_size b \<le> bl_size (mg_blocks m ! i))"
  using worst_from_spec [of 0 "mg_blocks m" sz None 0]
proof
  assume "worst_from 0 (mg_blocks m) sz None 0 = None \<and> (\<forall>b \<in> set (mg_blocks m). fits b sz \<longrightarrow> bl_size b - sz \<le> 0)"
  with fits_exact show ?thesis by (auto simp: worstFit_def)
next
  assume "\<exists>j < length (mg_blocks m). worst_from 0 (mg_blocks m) sz None 0 = Some (0 + j) \<and> fits (mg_blocks m ! j) sz \<and>
    0 < bl_size (mg_blocks m ! j) - sz \<and>
    (\<forall>b \<in> set (mg_blocks m). fits b sz \<longrightarrow> bl_size b - sz \<le> bl_size (mg_blocks m ! j) - sz)"
  then obtain j where j: "j < length (mg_blocks m)" "worstFit m sz = Some j" "fits (mg_blocks m ! j) sz"
    "0 < bl_size (mg_blocks m ! j) - sz" "\<forall>b \<in> set (mg_blocks m). fits b sz \<longrightarrow> bl_size b - sz \<le> bl_size (mg_blocks m ! j) - sz"
    by (auto simp: worstFit_def)
  have "sz < bl_size (mg_blocks m ! j)" using j(3,4) fits_exact [OF j(3)] by (auto simp: fits_def order_less_le)
  with j fits_mono show ?thesis by auto
qed

text \<open>C25: The choice of each policy on a tiled memory, for a positive request: first fit takes the leftmost free
  partition that is large enough, and best fit a smallest one, each failing only when there is none;
  worst fit takes a largest one, but only if it is strictly larger than the request: a partition of
  exactly the requested size is refused.\<close>
theorem fit_policies_choose:
  assumes inv: "mg_inv m" and sz: "0 < sz"
  shows "firstFit m sz = find (\<lambda>j. fits (mg_blocks m ! j) sz) [0..<length (mg_blocks m)] \<and>
    (case bestFit m sz of
       None \<Rightarrow> \<forall>b \<in> set (mg_blocks m). \<not> fits b sz
     | Some i \<Rightarrow> i < length (mg_blocks m) \<and> fits (mg_blocks m ! i) sz \<and>
         (\<forall>b \<in> set (mg_blocks m). fits b sz \<longrightarrow> bl_size (mg_blocks m ! i) \<le> bl_size b)) \<and>
    (case worstFit m sz of
       None \<Rightarrow> \<forall>b \<in> set (mg_blocks m). fits b sz \<longrightarrow> bl_size b = sz
     | Some i \<Rightarrow> i < length (mg_blocks m) \<and> fits (mg_blocks m ! i) sz \<and> sz < bl_size (mg_blocks m ! i) \<and>
         (\<forall>b \<in> set (mg_blocks m). fits b sz \<longrightarrow> bl_size b \<le> bl_size (mg_blocks m ! i)))"
  using bestFit_choice [OF assms] worstFit_choice by (simp add: firstFit_spec)

definition mg_demo :: memory_manager where
  "mg_demo = \<lparr>mg_blocks = [\<lparr>bl_size = 100, bl_start_address = 0, bl_is_allocated = False\<rparr>,
      \<lparr>bl_size = 64, bl_start_address = 100, bl_is_allocated = True\<rparr>,
      \<lparr>bl_size = 300, bl_start_address = 164, bl_is_allocated = False\<rparr>],
     mg_total_size = 464, mg_free_size = 400, mg_strategy = 3\<rparr>"

lemma mg_demo_inv: "mg_inv mg_demo"
  by (simp add: mg_inv_def mg_demo_def)

theorem fit_policies_choose_witness:
  "firstFit mg_demo 100 = find (\<lambda>j. fits (mg_blocks mg_demo ! j) 100) [0..<length (mg_blocks mg_demo)] \<and>
    (case bestFit mg_demo 100 of
       None \<Rightarrow> \<forall>b \<in> set (mg_blocks mg_demo). \<not> fits b 100
     | Some i \<Rightarrow> i < length (mg_blocks mg_demo) \<and> fits (mg_blocks mg_demo ! i) 100 \<and>
         (\<forall>b \<in> set (mg_blocks mg_demo). fits b 100 \<longrightarrow> bl_size (mg_blocks mg_demo ! i) \<le> bl_size b)) \<and>
    (case worstFit mg_demo 100 of
       None \<Rightarrow> \<forall>b \<in> set (mg_blocks mg_demo). fits b 100 \<longrightarrow> bl_size b = 100
     | Some i \<Rightarrow> i < length (mg_blocks mg_demo) \<and> fits (mg_blocks mg_demo ! i) 100 \<and> 100 < bl_size (mg_blocks mg_demo ! i) \<and>
         (\<forall>b \<in> set (mg_blocks mg_demo). fits b 100 \<longrightarrow> bl_size b \<le> bl_size (mg_blocks mg_demo ! i)))"
  by (rule fit_policies_choose [OF mg_demo_inv]) simp

text \<open>C26: An allocation, with any strategy, keeps the partitions tiling the memory and \<open>free_size\<close> equal to the sum
  of the free ones. Either nothing changes and 0 is returned, or a free partition that was large
  enough is now allocated, its start is returned and it has between the requested size and 64 bytes
  more; every other allocated partition is as before, in the same order.\<close>
theorem allocMemory_keeps_tiling:
  assumes inv: "mg_inv m"
  shows "\<exists>m' r. allocMemory m sz = (m', r) \<and> mg_inv m' \<and> mg_total_size m' = mg_total_size m \<and>
    (m' = m \<and> r = 0 \<or>
     MIN_PARTITION_SIZE \<le> sz \<and> sz \<le> mg_free_size m \<and>
     (\<exists>i < length (mg_blocks m). fits (mg_blocks m ! i) sz \<and> r = bl_start_address (mg_blocks m ! i) \<and>
       bl_is_allocated (mg_blocks m' ! i) \<and> bl_start_address (mg_blocks m' ! i) = r \<and>
       unat sz \<le> unat (bl_size (mg_blocks m' ! i)) \<and> unat (bl_size (mg_blocks m' ! i)) \<le> unat sz + 64 \<and>
       filter bl_is_allocated (mg_blocks m') = filter bl_is_allocated (take i (mg_blocks m)) @
         mg_blocks m' ! i # filter bl_is_allocated (drop (Suc i) (mg_blocks m))))"
proof (cases "sz < MIN_PARTITION_SIZE \<or> sz > mg_free_size m")
  case True
  with inv show ?thesis by (simp add: allocMemory_def)
next
  case False
  let ?sel = "if mg_strategy m = 2 then bestFit m sz else if mg_strategy m = 3 then worstFit m sz else firstFit m sz"
  have alloc: "allocMemory m sz = (case ?sel of None \<Rightarrow> (m, 0) | Some i \<Rightarrow> take_block m i sz)"
    using False by (simp add: allocMemory_def)
  have pos: "0 < sz" using False by (auto simp: MIN_PARTITION_SIZE_def word_less_nat_alt)
  show ?thesis
  proof (cases ?sel)
    case None
    with alloc inv show ?thesis by simp
  next
    case (Some i)
    have fit: "i < length (mg_blocks m) \<and> fits (mg_blocks m ! i) sz"
      using Some best.select_fits [OF inv pos] worst.select_fits [OF inv pos] first.select_fits [OF inv pos]
      by (auto split: if_splits)
    have "\<exists>m'. take_block m i sz = (m', bl_start_address (mg_blocks m ! i)) \<and> mg_inv m' \<and>
      mg_total_size m' = mg_total_size m \<and>
      bl_is_allocated (mg_blocks m' ! i) \<and> bl_start_address (mg_blocks m' ! i) = bl_start_address (mg_blocks m ! i) \<and>
      unat sz \<le> unat (bl_size (mg_blocks m' ! i)) \<and> unat (bl_size (mg_blocks m' ! i)) \<le> unat sz + 64 \<and>
      filter bl_is_allocated (mg_blocks m') = filter bl_is_allocated (take i (mg_blocks m)) @
        mg_blocks m' ! i # filter bl_is_allocated (drop (Suc i) (mg_blocks m))"
      using Some best.take_selected [OF inv pos, of i] worst.take_selected [OF inv pos, of i] first.take_selected [OF inv pos, of i]
      by (auto split: if_splits)
    with Some alloc fit False show ?thesis by (auto simp: not_less)
  qed
qed

theorem allocMemory_keeps_tiling_witness:
  "\<exists>m' r. allocMemory mg_demo 100 = (m', r) \<and> mg_inv m' \<and> mg_total_size m' = mg_total_size mg_demo \<and>
    (m' = mg_demo \<and> r = 0 \<or>
     MIN_PARTITION_SIZE \<le> 100 \<and> 100 \<le> mg_free_size mg_demo \<and>
     (\<exists>i < length (mg_blocks mg_demo). fits (mg_blocks mg_demo ! i) 100 \<and> r = bl_start_address (mg_blocks mg_demo ! i) \<and>
       bl_is_allocated (mg_blocks m' ! i) \<and> bl_start_address (mg_blocks m' ! i) = r \<and>
       unat (100 :: size_t) \<le> unat (bl_size (mg_blocks m' ! i)) \<and>
       unat (bl_size (mg_blocks m' ! i)) \<le> unat (100 :: size_t) + 64 \<and>
       filter bl_is_allocated (mg_blocks m') = filter bl_is_allocated (take i (mg_blocks mg_demo)) @
         mg_blocks m' ! i # filter bl_is_allocated (drop (Suc i) (mg_blocks mg_demo))))"
  by (rule allocMemory_keeps_tiling [OF mg_demo_inv])

text \<open>The first allocation of every manager succeeds and returns the null address.\<close>

lemma first_allocation_is_null:
  "map (\<lambda>s. let (m, r) = allocMemory (initMemoryManager 1024 s) 128 in (r, map bl_is_allocated (mg_blocks m))) [1, 2, 3] =
     replicate 3 (0, [True, False])"
  by code_simp

subsection \<open>Compaction (Memory_Compaction.c)\<close>

text \<open>The first loop: allocated blocks get consecutive addresses; free ones keep theirs.\<close>

primrec move_blocks :: "size_t \<Rightarrow> mblock list \<Rightarrow> mblock list" where
  "move_blocks new_address [] = []"
| "move_blocks new_address (cur # rest) =
     (if bl_is_allocated cur
      then cur\<lparr>bl_start_address := new_address\<rparr> # move_blocks (new_address + bl_size cur) rest
      else cur # move_blocks new_address rest)"

text \<open>The second loop: a free block swallows the free blocks that follow it.\<close>

fun merge_free :: "mblock list \<Rightarrow> mblock list" where
  "merge_free [] = []"
| "merge_free [cur] = [cur]"
| "merge_free (cur # nxt # rest) =
     (if \<not> bl_is_allocated cur \<and> \<not> bl_is_allocated nxt
      then merge_free (cur\<lparr>bl_size := bl_size cur + bl_size nxt\<rparr> # rest)
      else cur # merge_free (nxt # rest))"

definition compactMemory :: "memory_manager \<Rightarrow> memory_manager" where
  "compactMemory manager = manager\<lparr>mg_blocks := merge_free (move_blocks 0 (mg_blocks manager))\<rparr>"

definition allocated :: "mblock list \<Rightarrow> mblock list" where
  "allocated bs = filter bl_is_allocated bs"

fun packed :: "nat \<Rightarrow> mblock list \<Rightarrow> bool" where
  "packed a [] = True"
| "packed a (b # bs) = (unat (bl_start_address b) = a \<and> packed (a + unat (bl_size b)) bs)"

fun no_free_pair :: "mblock list \<Rightarrow> bool" where
  "no_free_pair (b # c # bs) = ((bl_is_allocated b \<or> bl_is_allocated c) \<and> no_free_pair (c # bs))"
| "no_free_pair bs = True"

definition size_sum :: "mblock list \<Rightarrow> nat" where
  "size_sum bs = sum_list (map (\<lambda>b. unat (bl_size b)) bs)"

lemma size_sum_simps [simp]: "size_sum [] = 0" "size_sum (b # bs) = unat (bl_size b) + size_sum bs"
  by (simp_all add: size_sum_def)

lemma move_blocks_packed:
  "unat a + size_sum bs < 2 ^ 64 \<Longrightarrow> packed (unat a) (allocated (move_blocks a bs))"
proof (induction bs arbitrary: a)
  case (Cons b bs)
  have "unat (a + bl_size b) = unat a + unat (bl_size b)" using Cons.prems by (simp add: unat_plus_if')
  with Cons.IH [of "a + bl_size b"] Cons.IH [of a] Cons.prems show ?case by (auto simp: allocated_def)
qed (simp add: allocated_def)

lemma move_blocks_sizes:
  "map bl_size (move_blocks a bs) = map bl_size bs" "map bl_is_allocated (move_blocks a bs) = map bl_is_allocated bs"
  "map bl_size (allocated (move_blocks a bs)) = map bl_size (allocated bs)"
  by (induction bs arbitrary: a) (auto simp: allocated_def)

lemma merge_free_props:
  "size_sum bs < 2 ^ 64 \<Longrightarrow> allocated (merge_free bs) = allocated bs \<and> size_sum (merge_free bs) = size_sum bs \<and>
     free_sum (merge_free bs) = free_sum bs \<and> no_free_pair (merge_free bs) \<and>
     (merge_free bs = [] \<longleftrightarrow> bs = []) \<and> (bs \<noteq> [] \<longrightarrow> bl_is_allocated (hd (merge_free bs)) = bl_is_allocated (hd bs))"
proof (induction bs rule: merge_free.induct)
  case (3 cur nxt rest)
  show ?case
  proof (cases "\<not> bl_is_allocated cur \<and> \<not> bl_is_allocated nxt")
    case True
    have "unat (bl_size cur + bl_size nxt) = unat (bl_size cur) + unat (bl_size nxt)"
      using 3(3) by (simp add: unat_plus_if')
    with True 3 show ?thesis by (auto simp: allocated_def)
  next
    case False
    with 3 have IH: "allocated (merge_free (nxt # rest)) = allocated (nxt # rest)"
      "size_sum (merge_free (nxt # rest)) = size_sum (nxt # rest)"
      "free_sum (merge_free (nxt # rest)) = free_sum (nxt # rest)" "no_free_pair (merge_free (nxt # rest))"
      "merge_free (nxt # rest) \<noteq> []" "bl_is_allocated (hd (merge_free (nxt # rest))) = bl_is_allocated nxt" by auto
    from False IH show ?thesis by (cases "merge_free (nxt # rest)") (auto simp: allocated_def)
  qed
qed (simp_all add: allocated_def)

text \<open>C27: Compaction keeps the allocated blocks, in order and with their sizes, and packs them from address 0;
  the sizes still add up to the same total and the free ones to the same amount, and no two free
  blocks are neighbours in the list.\<close>
theorem compaction_packs:
  assumes "size_sum (mg_blocks m) < 2 ^ 64"
  shows "packed 0 (allocated (mg_blocks (compactMemory m))) \<and>
    map bl_size (allocated (mg_blocks (compactMemory m))) = map bl_size (allocated (mg_blocks m)) \<and>
    size_sum (mg_blocks (compactMemory m)) = size_sum (mg_blocks m) \<and>
    free_sum (mg_blocks (compactMemory m)) = free_sum (mg_blocks m) \<and>
    no_free_pair (mg_blocks (compactMemory m))"
proof -
  let ?bs = "move_blocks 0 (mg_blocks m)"
  have sum: "size_sum ?bs = size_sum (mg_blocks m)"
    using arg_cong [OF move_blocks_sizes(1) [of 0 "mg_blocks m"], of "\<lambda>xs. sum_list (map unat xs)"]
    by (simp add: size_sum_def o_def)
  have free: "free_sum (move_blocks a bs) = free_sum bs" for a bs by (induction bs arbitrary: a) auto
  from merge_free_props [of ?bs] assms sum free move_blocks_packed [of 0 "mg_blocks m"] move_blocks_sizes(3) [of 0 "mg_blocks m"]
  show ?thesis by (simp add: compactMemory_def)
qed

theorem compaction_packs_witness:
  "packed 0 (allocated (mg_blocks (compactMemory mg_demo))) \<and>
    map bl_size (allocated (mg_blocks (compactMemory mg_demo))) = map bl_size (allocated (mg_blocks mg_demo)) \<and>
    size_sum (mg_blocks (compactMemory mg_demo)) = size_sum (mg_blocks mg_demo) \<and>
    free_sum (mg_blocks (compactMemory mg_demo)) = free_sum (mg_blocks mg_demo) \<and>
    no_free_pair (mg_blocks (compactMemory mg_demo))"
  by (rule compaction_packs) (simp add: mg_demo_def)

text \<open>
  The free blocks keep their old addresses and places, so the result no longer tiles the memory:
  here the allocated block moved to 0 overlaps the free block that was there.
\<close>

lemma compaction_overlaps:
  "mg_inv mg_demo \<and> \<not> mg_inv (compactMemory mg_demo) \<and>
   map (\<lambda>b. (bl_start_address b, bl_size b)) (mg_blocks (compactMemory mg_demo)) = [(0, 100), (0, 64), (164, 300)]"
  by (simp add: mg_demo_inv) (simp add: mg_inv_def mg_demo_def compactMemory_def)

subsection \<open>Protection (Memory_Protection.c)\<close>

definition PROTECTION_NUM :: nat where
  "PROTECTION_NUM = 100"

record memory_protection =
  mp_base_address :: size_t
  mp_limit :: size_t
  mp_protection_bits :: int

record protected_manager =
  pmm_manager :: memory_manager
  pmm_protection_table :: "memory_protection list"
  pmm_num_regions :: nat

text \<open>\<open>table\<close>: the allocated, uninitialised protection table.\<close>

definition initProtectedMemoryManager :: "memory_protection list \<Rightarrow> size_t \<Rightarrow> int \<Rightarrow> protected_manager" where
  "initProtectedMemoryManager table sz strategy =
     \<lparr>pmm_manager = initMemoryManager sz strategy, pmm_protection_table = table, pmm_num_regions = 0\<rparr>"

definition checkMemoryAccess :: "protected_manager \<Rightarrow> size_t \<Rightarrow> int \<Rightarrow> bool option" where
  "checkMemoryAccess pmm address access_type = do {
     h \<leftarrow> search_first 0 (pmm_num_regions pmm) (\<lambda>i. do {
       mp \<leftarrow> rd (pmm_protection_table pmm) i;
       Some (address \<ge> mp_base_address mp \<and> address < mp_base_address mp + mp_limit mp) });
     (case h of
        None \<Rightarrow> Some False
      | Some i \<Rightarrow> do {
          mp \<leftarrow> rd (pmm_protection_table pmm) i;
          Some ((mp_protection_bits mp AND access_type) \<noteq> 0) }) }"

text \<open>The first region containing the address decides; an address in no region is refused.\<close>

lemma checkMemoryAccess_decides:
  assumes "pmm_num_regions p \<le> length (pmm_protection_table p)"
  shows "checkMemoryAccess p a acc = Some (
    case find (\<lambda>i. mp_base_address (pmm_protection_table p ! i) \<le> a \<and>
        a < mp_base_address (pmm_protection_table p ! i) + mp_limit (pmm_protection_table p ! i)) [0..<pmm_num_regions p] of
      None \<Rightarrow> False
    | Some i \<Rightarrow> (mp_protection_bits (pmm_protection_table p ! i) AND acc) \<noteq> 0)"
proof -
  let ?in = "\<lambda>i. mp_base_address (pmm_protection_table p ! i) \<le> a \<and>
        a < mp_base_address (pmm_protection_table p ! i) + mp_limit (pmm_protection_table p ! i)"
  have "search_first 0 (pmm_num_regions p) (\<lambda>i. do {
       mp \<leftarrow> rd (pmm_protection_table p) i;
       Some (a \<ge> mp_base_address mp \<and> a < mp_base_address mp + mp_limit mp) }) = Some (find ?in [0..<pmm_num_regions p])"
    using assms by (intro search_first_total) simp
  note search = this
  show ?thesis
  proof (cases "find ?in [0..<pmm_num_regions p]")
    case None
    with search show ?thesis by (simp add: checkMemoryAccess_def)
  next
    case (Some i)
    then have "i < pmm_num_regions p" by (simp add: find_upt_Some)
    with Some search assms show ?thesis by (simp add: checkMemoryAccess_def)
  qed
qed

end
