(* ===== verification/Header_Allocation.thy ===== *)
theory Header_Allocation
  imports OS_Prelude
begin

section \<open>Heaps with block headers: d15 First_Fit_alloc.c, d18 variable allocator\<close>

text \<open>
  Both allocators keep their block headers inside the managed memory, chained by \<open>next\<close> and
  \<open>prev\<close> in address order. The chain is the list of blocks with their offsets in the memory; a
  block pointer is its position, \<open>prev\<close> and \<open>next\<close> are the neighbours. A header has 32 bytes
  (LP64); that a header is aligned is not required here, although for sizes that are no multiple of 8 it is not. What the source
  writes into \<open>next\<close> and \<open>prev\<close> when it splits or merges blocks is the splicing of this list (\<open>carve\<close>, \<open>merge_next\<close>, \<open>merge_prev\<close>).
  The interface \<open>header_policy\<close> holds what the two searches and split rules share.
\<close>

subsection \<open>State\<close>

definition HEADER :: size_t where
  "HEADER = 32"

definition MIN_BLOCK_SIZE :: size_t where
  "MIN_BLOCK_SIZE = 16"

record hblock =
  hb_addr :: size_t
  hb_size :: size_t
  hb_allocated :: bool

record heap_manager =
  hm_blocks :: "hblock list"
  hm_total_size :: size_t
  hm_used_size :: size_t

definition initializeMemoryManager :: "size_t \<Rightarrow> heap_manager" where
  "initializeMemoryManager sz =
     \<lparr>hm_blocks = [\<lparr>hb_addr = 0, hb_size = sz - HEADER, hb_allocated = False\<rparr>],
      hm_total_size = sz, hm_used_size = 0\<rparr>"

definition usable :: "hblock \<Rightarrow> size_t \<Rightarrow> bool" where
  "usable b sz \<longleftrightarrow> \<not> hb_allocated b \<and> sz \<le> hb_size b"

text \<open>Splitting a block for \<open>sz\<close> bytes when \<open>split\<close> holds, and marking it allocated.\<close>

definition carve :: "bool \<Rightarrow> hblock list \<Rightarrow> nat \<Rightarrow> size_t \<Rightarrow> hblock list" where
  "carve split bs i sz = (
     let b = bs ! i in
     if split then
       take i bs @ b\<lparr>hb_size := sz, hb_allocated := True\<rparr> #
         \<lparr>hb_addr = hb_addr b + HEADER + sz, hb_size = hb_size b - sz - HEADER, hb_allocated = False\<rparr> # drop (Suc i) bs
     else bs[i := b\<lparr>hb_allocated := True\<rparr>])"

subsection \<open>First fit with coalescing (d15)\<close>

primrec usable_from :: "nat \<Rightarrow> hblock list \<Rightarrow> size_t \<Rightarrow> nat option" where
  "usable_from i [] sz = None"
| "usable_from i (cur # rest) sz = (if usable cur sz then Some i else usable_from (Suc i) rest sz)"

definition memoryAlloc :: "heap_manager \<Rightarrow> size_t \<Rightarrow> heap_manager \<times> size_t option" where
  "memoryAlloc manager sz = (
     case usable_from 0 (hm_blocks manager) sz of
       None \<Rightarrow> (manager, None)
     | Some i \<Rightarrow> (
         let bs = carve (hb_size (hm_blocks manager ! i) \<ge> sz + HEADER + MIN_BLOCK_SIZE) (hm_blocks manager) i sz
         in (manager\<lparr>hm_blocks := bs, hm_used_size := hm_used_size manager + (hb_size (bs ! i) + HEADER)\<rparr>,
             Some (hb_addr (bs ! i) + HEADER))))"

text \<open>The two merges of \<open>memoryFree\<close>, around the block between \<open>xs\<close> and \<open>ys\<close>.\<close>

definition merge_next :: "hblock \<Rightarrow> hblock list \<Rightarrow> hblock list" where
  "merge_next b ys = (case ys of
     [] \<Rightarrow> [b]
   | c # zs \<Rightarrow> if \<not> hb_allocated c then b\<lparr>hb_size := hb_size b + (hb_size c + HEADER)\<rparr> # zs else b # ys)"

definition merge_prev :: "hblock list \<Rightarrow> hblock list \<Rightarrow> hblock list" where
  "merge_prev xs ys =
     (if xs \<noteq> [] \<and> \<not> hb_allocated (last xs)
      then butlast xs @ (last xs)\<lparr>hb_size := hb_size (last xs) + (hb_size (hd ys) + HEADER)\<rparr> # tl ys
      else xs @ ys)"

text \<open>A pointer that is not the payload of a block of the chain has no defined meaning.\<close>

definition memoryFree :: "heap_manager \<Rightarrow> size_t option \<Rightarrow> heap_manager option" where
  "memoryFree manager ptr = (case ptr of
     None \<Rightarrow> Some manager
   | Some p \<Rightarrow>
       (case find (\<lambda>i. hb_addr (hm_blocks manager ! i) = p - HEADER) [0..<length (hm_blocks manager)] of
          None \<Rightarrow> None
        | Some i \<Rightarrow> (
            let b = hm_blocks manager ! i
            in Some (manager\<lparr>
                 hm_used_size := hm_used_size manager - (hb_size b + HEADER),
                 hm_blocks := merge_prev (take i (hm_blocks manager))
                   (merge_next (b\<lparr>hb_allocated := False\<rparr>) (drop (Suc i) (hm_blocks manager)))\<rparr>))))"

definition hm_main :: "heap_manager \<Rightarrow> heap_manager option" where
  "hm_main manager = do {
     let (manager, ptr1) = memoryAlloc manager 128;
     let (manager, ptr2) = memoryAlloc manager 256;
     let (manager, ptr3) = memoryAlloc manager 64;
     manager \<leftarrow> memoryFree manager ptr1;
     manager \<leftarrow> memoryFree manager ptr2;
     memoryFree manager ptr3 }"

subsection \<open>Best fit (d18, allocateVariableBlock)\<close>

record variable_allocator =
  va_blocks :: "hblock list"
  va_total_size :: size_t

definition initVariableAllocator :: "size_t \<Rightarrow> variable_allocator" where
  "initVariableAllocator sz =
     \<lparr>va_blocks = [\<lparr>hb_addr = 0, hb_size = sz - HEADER, hb_allocated = False\<rparr>], va_total_size = sz\<rparr>"

primrec best_usable :: "nat \<Rightarrow> hblock list \<Rightarrow> size_t \<Rightarrow> nat option \<Rightarrow> size_t \<Rightarrow> nat option" where
  "best_usable i [] sz best_fit min_diff = best_fit"
| "best_usable i (cur # rest) sz best_fit min_diff =
     (if usable cur sz \<and> hb_size cur - sz < min_diff
      then best_usable (Suc i) rest sz (Some i) (hb_size cur - sz)
      else best_usable (Suc i) rest sz best_fit min_diff)"

definition allocateVariableBlock :: "variable_allocator \<Rightarrow> size_t \<Rightarrow> variable_allocator \<times> size_t option" where
  "allocateVariableBlock allocator sz = (
     case best_usable 0 (va_blocks allocator) sz None (va_total_size allocator) of
       None \<Rightarrow> (allocator, None)
     | Some i \<Rightarrow> (
         let bs = carve (hb_size (va_blocks allocator ! i) > sz + HEADER + 64) (va_blocks allocator) i sz
         in (allocator\<lparr>va_blocks := bs\<rparr>, Some (hb_addr (bs ! i) + HEADER))))"

subsection \<open>The chain covers the memory\<close>

fun chain :: "nat \<Rightarrow> hblock list \<Rightarrow> nat \<Rightarrow> bool" where
  "chain a [] e = (a = e)"
| "chain a (b # bs) e = (unat (hb_addr b) = a \<and> chain (a + 32 + unat (hb_size b)) bs e)"

lemma chain_append: "chain a (xs @ ys) e \<longleftrightarrow> (\<exists>c. chain a xs c \<and> chain c ys e)"
  by (induction xs arbitrary: a) auto

lemma chain_le: "chain a xs e \<Longrightarrow> a \<le> e"
  by (induction xs arbitrary: a) fastforce+

lemma unat_HEADER [simp]: "unat HEADER = 32"
  by (simp add: HEADER_def)

text \<open>What a search and its split rule must give.\<close>

locale header_policy =
  fixes select :: "hblock list \<Rightarrow> size_t \<Rightarrow> nat option"
    and split :: "hblock \<Rightarrow> size_t \<Rightarrow> bool"
  assumes select_usable: "select bs sz = Some i \<Longrightarrow> i < length bs \<and> usable (bs ! i) sz"
    and split_room: "\<lbrakk>usable b sz; unat (hb_size b) < 2 ^ 63; split b sz\<rbrakk> \<Longrightarrow> unat sz + 32 \<le> unat (hb_size b)"
begin

text \<open>Carving keeps the chain; the block is allocated in place and holds at least \<open>sz\<close> bytes.\<close>

lemma carve_chain:
  assumes ch: "chain a bs e" and e: "e < 2 ^ 63" and sel: "select bs sz = Some i"
  shows "\<exists>xs b ys b' zs. bs = xs @ b # ys \<and> length xs = i \<and> \<not> hb_allocated b \<and>
    carve (split b sz) bs i sz = xs @ b' # zs \<and> hb_addr b' = hb_addr b \<and> hb_allocated b' \<and>
    unat sz \<le> unat (hb_size b') \<and> chain a (xs @ b' # zs) e \<and> bs ! i = b \<and>
    (if split b sz
     then hb_size b' = sz \<and> zs = \<lparr>hb_addr = hb_addr b + HEADER + sz, hb_size = hb_size b - sz - HEADER, hb_allocated = False\<rparr> # ys \<and>
       unat (hb_size b - sz - HEADER) + unat sz + 32 = unat (hb_size b)
     else hb_size b' = hb_size b \<and> zs = ys)"
proof -
  define xs where "xs = take i bs"
  define ys where "ys = drop (Suc i) bs"
  define b where "b = bs ! i"
  from select_usable [OF sel] have i: "i < length bs" "usable b sz" by (auto simp: b_def)
  have bs: "bs = xs @ b # ys" using i(1) by (simp add: xs_def ys_def b_def id_take_nth_drop)
  have len: "length xs = i" and at_i: "bs ! i = b" using i(1) by (simp_all add: xs_def b_def)
  from ch obtain c where c: "chain a xs c" "unat (hb_addr b) = c" "chain (c + 32 + unat (hb_size b)) ys e"
    by (auto simp: bs chain_append)
  have small: "c + 32 + unat (hb_size b) < 2 ^ 63" using chain_le [OF c(3)] e by simp
  have szb: "unat sz \<le> unat (hb_size b)" "\<not> hb_allocated b" using i(2) by (auto simp: usable_def word_le_nat_alt)
  show ?thesis
  proof (cases "split b sz")
    case True
    have room: "unat sz + 32 \<le> unat (hb_size b)" using split_room [OF i(2) _ True] small by simp
    let ?n = "\<lparr>hb_addr = hb_addr b + HEADER + sz, hb_size = hb_size b - sz - HEADER, hb_allocated = False\<rparr>"
    let ?b' = "b\<lparr>hb_size := sz, hb_allocated := True\<rparr>"
    have d1: "unat (hb_size b - sz) = unat (hb_size b) - unat sz" using szb by (simp add: unat_sub word_le_nat_alt)
    then have d2: "unat (hb_size b - sz - HEADER) = unat (hb_size b) - unat sz - 32"
      using room by (simp add: unat_sub word_le_nat_alt)
    have "unat (hb_addr b + HEADER) = c + 32" using c(2) small by (simp add: unat_plus_if')
    then have "unat (hb_addr b + HEADER + sz) = c + 32 + unat sz"
      using small szb by (simp add: unat_plus_if')
    then have "chain a (xs @ ?b' # ?n # ys) e" using c room d2 by (auto simp: chain_append ac_simps)
    moreover have "carve (split b sz) bs i sz = xs @ ?b' # ?n # ys"
      using True by (simp add: carve_def at_i xs_def ys_def Let_def)
    moreover have "unat (hb_size b - sz - HEADER) + unat sz + 32 = unat (hb_size b)" using d2 room by simp
    ultimately show ?thesis using True bs len szb at_i
      by (intro exI [of _ xs] exI [of _ b] exI [of _ ys] exI [of _ ?b'] exI [of _ "?n # ys"]) simp
  next
    case False
    let ?b' = "b\<lparr>hb_allocated := True\<rparr>"
    have "carve (split b sz) bs i sz = xs @ ?b' # ys"
      using False len by (simp add: carve_def at_i Let_def) (simp add: bs list_update_append)
    moreover have "chain a (xs @ ?b' # ys) e" using c by (auto simp: chain_append)
    ultimately show ?thesis using False bs len szb at_i
      by (intro exI [of _ xs] exI [of _ b] exI [of _ ys] exI [of _ ?b'] exI [of _ ys]) simp
  qed
qed

end

lemma usable_from_eq:
  "usable_from k bs sz = map_option ((+) k) (find (\<lambda>j. usable (bs ! j) sz) [0..<length bs])"
proof (induction bs arbitrary: k)
  case (Cons b bs)
  show ?case
    using Cons [of "Suc k"] unfolding find_nth_Cons [of "\<lambda>b. usable b sz"]
    by (simp add: option.map_comp o_def)
qed simp

lemma usable_from_Some:
  "usable_from 0 bs sz = Some i \<longleftrightarrow> i < length bs \<and> usable (bs ! i) sz \<and> (\<forall>j < i. \<not> usable (bs ! j) sz)"
  by (auto simp: usable_from_eq find_upt_Some)

lemma usable_from_None: "usable_from 0 bs sz = None \<longleftrightarrow> (\<forall>b \<in> set bs. \<not> usable b sz)"
  by (simp add: usable_from_eq find_upt_None all_set_conv_all_nth)

interpretation first_header: header_policy "usable_from 0" "\<lambda>b sz. hb_size b \<ge> sz + HEADER + MIN_BLOCK_SIZE"
proof
  fix bs sz i
  assume "usable_from 0 bs sz = Some i"
  then show "i < length bs \<and> usable (bs ! i) sz" by (simp add: usable_from_Some)
next
  fix b :: hblock and sz
  assume "usable b sz" and small: "unat (hb_size b) < 2 ^ 63" and "hb_size b \<ge> sz + HEADER + MIN_BLOCK_SIZE"
  moreover have "unat sz < 2 ^ 63" using calculation by (simp add: usable_def word_le_nat_alt)
  then have "unat (sz + HEADER + MIN_BLOCK_SIZE) = unat sz + 48"
    by (simp add: unat_plus_if' HEADER_def MIN_BLOCK_SIZE_def)
  ultimately show "unat sz + 32 \<le> unat (hb_size b)" by (simp add: word_le_nat_alt)
qed

lemma best_usable_fits:
  "best_usable k bs sz bf d = Some i \<Longrightarrow> bf = Some i \<or> k \<le> i \<and> i - k < length bs \<and> usable (bs ! (i - k)) sz"
proof (induction bs arbitrary: k bf d)
  case (Cons b bs)
  have sh: "(b # bs) ! (i - k) = bs ! (i - Suc k)" if "Suc k \<le> i" using that by (simp add: nth_Cons')
  show ?case
  proof (cases "usable b sz \<and> hb_size b - sz < d")
    case True
    with Cons.prems Cons.IH [of "Suc k" "Some k" "hb_size b - sz"] sh show ?thesis by auto
  next
    case False
    then have "best_usable k (b # bs) sz bf d = best_usable (Suc k) bs sz bf d" by auto
    with Cons.prems Cons.IH [of "Suc k" bf d] sh show ?thesis by auto
  qed
qed simp

interpretation best_header: header_policy "\<lambda>bs sz. best_usable 0 bs sz None t" "\<lambda>b sz. hb_size b > sz + HEADER + 64" for t
proof
  fix bs sz i
  assume "best_usable 0 bs sz None t = Some i"
  then show "i < length bs \<and> usable (bs ! i) sz" using best_usable_fits by fastforce
next
  fix b :: hblock and sz
  assume "usable b sz" and small: "unat (hb_size b) < 2 ^ 63" and "hb_size b > sz + HEADER + 64"
  moreover have "unat sz < 2 ^ 63" using calculation by (simp add: usable_def word_le_nat_alt)
  then have "unat (sz + HEADER + 64) = unat sz + 96" by (simp add: unat_plus_if' HEADER_def)
  ultimately show "unat sz + 32 \<le> unat (hb_size b)" by (simp add: word_less_nat_alt)
qed

subsection \<open>The coalesced heap of d15\<close>

fun coalesced :: "hblock list \<Rightarrow> bool" where
  "coalesced (b # c # bs) = ((hb_allocated b \<or> hb_allocated c) \<and> coalesced (c # bs))"
| "coalesced bs = True"

definition used_sum :: "hblock list \<Rightarrow> nat" where
  "used_sum bs = sum_list (map (\<lambda>b. unat (hb_size b) + 32) (filter hb_allocated bs))"

definition hm_inv :: "heap_manager \<Rightarrow> bool" where
  "hm_inv m \<longleftrightarrow> unat (hm_total_size m) < 2 ^ 63 \<and> chain 0 (hm_blocks m) (unat (hm_total_size m)) \<and>
     coalesced (hm_blocks m) \<and> unat (hm_used_size m) = used_sum (hm_blocks m)"

lemma used_sum_simps [simp]:
  "used_sum [] = 0"
  "used_sum (b # bs) = (if hb_allocated b then unat (hb_size b) + 32 else 0) + used_sum bs"
  "used_sum (xs @ ys) = used_sum xs + used_sum ys"
  by (simp_all add: used_sum_def)

lemma coalesced_append:
  "coalesced (xs @ ys) \<longleftrightarrow> coalesced xs \<and> coalesced ys \<and>
     (xs \<noteq> [] \<and> ys \<noteq> [] \<longrightarrow> hb_allocated (last xs) \<or> hb_allocated (hd ys))"
  by (induction xs rule: coalesced.induct; cases ys) auto

lemma coalesced_Cons:
  "coalesced (b # bs) \<longleftrightarrow> coalesced bs \<and> (bs \<noteq> [] \<longrightarrow> hb_allocated b \<or> hb_allocated (hd bs))"
  using coalesced_append [of "[b]" bs] by auto

lemma used_sum_le: "chain a bs e \<Longrightarrow> used_sum bs \<le> e - a"
proof (induction bs arbitrary: a)
  case (Cons b bs)
  then have "used_sum bs \<le> e - (a + 32 + unat (hb_size b))" "a + 32 + unat (hb_size b) \<le> e"
    using chain_le by fastforce+
  then show ?case by (cases "hb_allocated b"; simp; linarith)
qed simp

lemma chain_addr_less: "\<lbrakk>chain a (xs @ b # zs) e; c \<in> set xs\<rbrakk> \<Longrightarrow> unat (hb_addr c) < unat (hb_addr b)"
proof (induction xs arbitrary: a)
  case (Cons d xs)
  show ?case
  proof (cases "c = d")
    case True
    from Cons.prems(1) have "chain (a + 32 + unat (hb_size d)) (xs @ b # zs) e" "unat (hb_addr d) = a" by auto
    then obtain x where "chain (a + 32 + unat (hb_size d)) xs x" "unat (hb_addr b) = x" by (auto simp: chain_append)
    with chain_le [of _ xs x] True \<open>unat (hb_addr d) = a\<close> show ?thesis by fastforce
  next
    case False
    with Cons show ?thesis by auto
  qed
qed simp

text \<open>So the block of a payload pointer is found.\<close>

lemma find_block:
  assumes "chain 0 (xs @ b # zs) e"
  shows "find (\<lambda>i. hb_addr ((xs @ b # zs) ! i) = hb_addr b + HEADER - HEADER) [0..<length (xs @ b # zs)] = Some (length xs)"
proof -
  have "hb_addr (xs ! j) \<noteq> hb_addr b" if "j < length xs" for j
    using chain_addr_less [OF assms nth_mem [OF that]] by auto
  then show ?thesis unfolding find_upt_Some by (auto simp: nth_append)
qed

lemma memoryFree_at:
  assumes "chain 0 (hm_blocks m) e" and "hm_blocks m = xs @ b # ys"
  shows "memoryFree m (Some (hb_addr b + HEADER)) = Some (m\<lparr>hm_used_size := hm_used_size m - (hb_size b + HEADER),
    hm_blocks := merge_prev xs (merge_next (b\<lparr>hb_allocated := False\<rparr>) ys)\<rparr>)"
  using find_block [of xs b ys e] assms by (simp add: memoryFree_def Let_def)

text \<open>The blocks after an allocation, and how the released block finds its old neighbours again.\<close>

definition carved :: "hblock \<Rightarrow> size_t \<Rightarrow> hblock \<Rightarrow> hblock list \<Rightarrow> hblock list \<Rightarrow> bool" where
  "carved b sz b' ys zs \<longleftrightarrow>
     (if hb_size b \<ge> sz + HEADER + MIN_BLOCK_SIZE
      then hb_size b' = sz \<and> zs = \<lparr>hb_addr = hb_addr b + HEADER + sz, hb_size = hb_size b - sz - HEADER, hb_allocated = False\<rparr> # ys \<and>
        unat (hb_size b - sz - HEADER) + unat sz + 32 = unat (hb_size b)
      else hb_size b' = hb_size b \<and> zs = ys)"

lemma merge_next_split:
  assumes "carved b sz b' ys zs" and "hb_addr b' = hb_addr b" and "\<not> hb_allocated b" and "ys \<noteq> [] \<longrightarrow> hb_allocated (hd ys)"
  shows "merge_next (b'\<lparr>hb_allocated := False\<rparr>) zs = b # ys"
proof (cases "hb_size b \<ge> sz + HEADER + MIN_BLOCK_SIZE")
  case True
  with assms show ?thesis by (cases b') (auto simp: carved_def merge_next_def intro!: hblock.equality)
next
  case False
  with assms show ?thesis
    by (cases b') (auto simp: carved_def merge_next_def split: list.splits intro!: hblock.equality)
qed

lemma memoryAlloc_at:
  assumes inv: "hm_inv m" and at: "usable_from 0 (hm_blocks m) sz = Some i"
  shows "\<exists>xs b ys b' zs. let m' = m\<lparr>hm_blocks := xs @ b' # zs, hm_used_size := hm_used_size m + (hb_size b' + HEADER)\<rparr> in
    hm_blocks m = xs @ b # ys \<and> length xs = i \<and> \<not> hb_allocated b \<and> hb_addr b' = hb_addr b \<and> hb_allocated b' \<and>
    unat sz \<le> unat (hb_size b') \<and> carved b sz b' ys zs \<and> chain 0 (xs @ b' # zs) (unat (hm_total_size m)) \<and>
    memoryAlloc m sz = (m', Some (hb_addr b' + HEADER)) \<and> hm_inv m'"
proof -
  let ?T = "unat (hm_total_size m)"
  from inv have ch: "chain 0 (hm_blocks m) ?T" "?T < 2 ^ 63" "coalesced (hm_blocks m)"
    "unat (hm_used_size m) = used_sum (hm_blocks m)" by (auto simp: hm_inv_def)
  from first_header.carve_chain [OF ch(1,2) at] obtain xs b ys b' zs where
    c: "hm_blocks m = xs @ b # ys" "length xs = i" "\<not> hb_allocated b"
      "carve (hb_size b \<ge> sz + HEADER + MIN_BLOCK_SIZE) (hm_blocks m) i sz = xs @ b' # zs" "hb_addr b' = hb_addr b" "hb_allocated b'"
      "unat sz \<le> unat (hb_size b')" "chain 0 (xs @ b' # zs) ?T" "hm_blocks m ! i = b" "carved b sz b' ys zs"
    unfolding carved_def by blast
  have run: "memoryAlloc m sz = (m\<lparr>hm_blocks := xs @ b' # zs, hm_used_size := hm_used_size m + (hb_size b' + HEADER)\<rparr>, Some (hb_addr b' + HEADER))"
    using at c(2,4,9) by (simp add: memoryAlloc_def Let_def nth_append)
  have co: "coalesced xs" "coalesced ys" "xs \<noteq> [] \<longrightarrow> hb_allocated (last xs)" "ys \<noteq> [] \<longrightarrow> hb_allocated (hd ys)"
    using ch(3) c(1,3) by (auto simp: coalesced_append coalesced_Cons)
  have zs: "coalesced zs" "used_sum zs = used_sum ys"
    using c(10) co(2,4) by (auto simp: carved_def coalesced_Cons split: if_splits)
  have us: "used_sum (xs @ b' # zs) = used_sum (hm_blocks m) + (unat (hb_size b') + 32)"
    using c(1,3,6) zs(2) by simp
  have "used_sum (xs @ b' # zs) < 2 ^ 63" using used_sum_le [OF c(8)] ch(2) by simp
  then have "unat (hm_used_size m + (hb_size b' + HEADER)) = used_sum (xs @ b' # zs)"
    using us ch(4) by (simp add: unat_plus_if')
  then have "hm_inv (m\<lparr>hm_blocks := xs @ b' # zs, hm_used_size := hm_used_size m + (hb_size b' + HEADER)\<rparr>)"
    using ch(2) c(8) co zs(1) c(6) by (auto simp: hm_inv_def coalesced_append coalesced_Cons)
  with run c(1-3,5-8,10) show ?thesis unfolding Let_def by blast
qed

text \<open>
  C28: First fit on a coalesced heap (no two free neighbours, header and block sizes adding up to the memory)
  takes the first free block that is large enough, failing only if there is none; it keeps the heap
  well formed, and freeing the block again restores the heap exactly, splits included.\<close>
theorem alloc_free_restores:
  assumes inv: "hm_inv m"
  shows "\<exists>m' r. memoryAlloc m sz = (m', r) \<and> hm_inv m' \<and>
    (case r of
       None \<Rightarrow> m' = m \<and> (\<forall>b \<in> set (hm_blocks m). \<not> usable b sz)
     | Some p \<Rightarrow> (\<exists>i < length (hm_blocks m). usable (hm_blocks m ! i) sz \<and> (\<forall>j < i. \<not> usable (hm_blocks m ! j) sz) \<and>
         p = hb_addr (hm_blocks m' ! i) + HEADER \<and> hb_allocated (hm_blocks m' ! i) \<and>
         sz \<le> hb_size (hm_blocks m' ! i)) \<and>
         memoryFree m' (Some p) = Some m)"
proof (cases "usable_from 0 (hm_blocks m) sz")
  case None
  then have "memoryAlloc m sz = (m, None)" by (simp add: memoryAlloc_def)
  with None inv show ?thesis by (simp add: usable_from_None)
next
  case (Some i)
  from memoryAlloc_at [OF inv Some] obtain xs b ys b' zs m' where
    m': "m' = m\<lparr>hm_blocks := xs @ b' # zs, hm_used_size := hm_used_size m + (hb_size b' + HEADER)\<rparr>"
    and c: "hm_blocks m = xs @ b # ys" "length xs = i" "\<not> hb_allocated b" "hb_addr b' = hb_addr b" "hb_allocated b'"
      "unat sz \<le> unat (hb_size b')" "carved b sz b' ys zs" "chain 0 (xs @ b' # zs) (unat (hm_total_size m))"
      "memoryAlloc m sz = (m', Some (hb_addr b' + HEADER))" "hm_inv m'" unfolding Let_def by blast
  have co: "xs \<noteq> [] \<longrightarrow> hb_allocated (last xs)" "ys \<noteq> [] \<longrightarrow> hb_allocated (hd ys)"
    using inv c(1,3) by (auto simp: hm_inv_def coalesced_append coalesced_Cons)
  have "merge_prev xs (b # ys) = xs @ b # ys" using co(1) unfolding merge_prev_def by auto
  then have "memoryFree m' (Some (hb_addr b' + HEADER)) = Some m"
    using memoryFree_at [of m' "unat (hm_total_size m)" xs b' zs] c(1,8) merge_next_split [OF c(7,4,3) co(2)] by (simp add: m')
  moreover have "i < length (hm_blocks m)" "usable (hm_blocks m ! i) sz" "\<forall>j < i. \<not> usable (hm_blocks m ! j) sz"
    using Some by (auto simp: usable_from_Some)
  moreover have "hm_blocks m' ! i = b'" using c(2) by (simp add: m' nth_append)
  ultimately show ?thesis using c(5,6,9,10) by (intro exI [of _ m'] exI [of _ "Some (hb_addr b' + HEADER)"]) (auto simp: word_le_nat_alt)
qed

definition hm_demo :: heap_manager where
  "hm_demo = initializeMemoryManager 1024"

lemma hm_demo_inv: "hm_inv hm_demo"
  by (simp add: hm_inv_def hm_demo_def initializeMemoryManager_def HEADER_def)

theorem alloc_free_restores_witness:
  "\<exists>m' r. memoryAlloc hm_demo 128 = (m', r) \<and> hm_inv m' \<and>
    (case r of
       None \<Rightarrow> m' = hm_demo \<and> (\<forall>b \<in> set (hm_blocks hm_demo). \<not> usable b 128)
     | Some p \<Rightarrow> (\<exists>i < length (hm_blocks hm_demo). usable (hm_blocks hm_demo ! i) 128 \<and>
         (\<forall>j < i. \<not> usable (hm_blocks hm_demo ! j) 128) \<and>
         p = hb_addr (hm_blocks m' ! i) + HEADER \<and> hb_allocated (hm_blocks m' ! i) \<and>
         128 \<le> hb_size (hm_blocks m' ! i)) \<and>
         memoryFree m' (Some p) = Some hm_demo)"
  by (rule alloc_free_restores [OF hm_demo_inv])

text \<open>Coalescing a freed block with its neighbours.\<close>

lemma merge_next_ok:
  assumes "chain a (b # ys) e" and "e < 2 ^ 63" and "\<not> hb_allocated b" and "coalesced ys"
  shows "\<exists>g zs. merge_next b ys = g # zs \<and> hb_addr g = hb_addr b \<and> \<not> hb_allocated g \<and> chain a (g # zs) e \<and>
    coalesced (g # zs) \<and> used_sum zs = used_sum ys \<and> filter hb_allocated zs = filter hb_allocated ys"
proof (cases "ys \<noteq> [] \<and> \<not> hb_allocated (hd ys)")
  case True
  then obtain c zs where ys: "ys = c # zs" "\<not> hb_allocated c" by (cases ys) auto
  have "a + 32 + unat (hb_size b) + 32 + unat (hb_size c) \<le> e" using assms(1) ys chain_le by fastforce
  then have "unat (hb_size b + (hb_size c + HEADER)) = unat (hb_size b) + unat (hb_size c) + 32"
    using assms(2) by (simp add: unat_plus_if')
  then have "a + 32 + unat (hb_size b + (hb_size c + HEADER)) = a + 32 + unat (hb_size b) + 32 + unat (hb_size c)"
    by simp
  moreover have "merge_next b ys = b\<lparr>hb_size := hb_size b + (hb_size c + HEADER)\<rparr> # zs"
    using ys by (simp add: merge_next_def)
  moreover have "unat (hb_addr b) = a" "chain (a + 32 + unat (hb_size b) + 32 + unat (hb_size c)) zs e"
    using assms(1) ys(1) by simp_all
  moreover have "coalesced zs" "zs \<noteq> [] \<longrightarrow> hb_allocated (hd zs)"
    using assms(4) ys by (auto simp: coalesced_Cons)
  ultimately show ?thesis using assms(3) ys
    by (intro exI [of _ "b\<lparr>hb_size := hb_size b + (hb_size c + HEADER)\<rparr>"] exI [of _ zs])
      (simp add: coalesced_Cons add.assoc add.left_commute add.commute)
next
  case False
  with assms show ?thesis by (cases ys) (auto simp: merge_next_def)
qed

lemma merge_prev_ok:
  assumes "chain a (xs @ g # zs) e" and "e < 2 ^ 63" and "\<not> hb_allocated g" and "coalesced xs" and "coalesced (g # zs)"
  shows "chain a (merge_prev xs (g # zs)) e \<and> coalesced (merge_prev xs (g # zs)) \<and>
    used_sum (merge_prev xs (g # zs)) = used_sum xs + used_sum zs \<and>
    filter hb_allocated (merge_prev xs (g # zs)) = filter hb_allocated xs @ filter hb_allocated zs"
proof (cases "xs \<noteq> [] \<and> \<not> hb_allocated (last xs)")
  case True
  define ws where "ws = butlast xs"
  define l where "l = last xs"
  have xs: "xs = ws @ [l]" "\<not> hb_allocated l" using True by (simp_all add: ws_def l_def)
  from assms(1) obtain x where x: "chain a ws x" "unat (hb_addr l) = x" "unat (hb_addr g) = x + 32 + unat (hb_size l)"
    "chain (x + 32 + unat (hb_size l) + 32 + unat (hb_size g)) zs e" by (auto simp: xs chain_append)
  have "unat (hb_size l + (hb_size g + HEADER)) = unat (hb_size l) + unat (hb_size g) + 32"
    using chain_le [OF x(4)] assms(2) by (simp add: unat_plus_if')
  then have "x + 32 + unat (hb_size l + (hb_size g + HEADER)) = x + 32 + unat (hb_size l) + 32 + unat (hb_size g)"
    by simp
  then have "chain x (l\<lparr>hb_size := hb_size l + (hb_size g + HEADER)\<rparr> # zs) e"
    using x(2,4) by (simp add: add.assoc add.left_commute add.commute)
  then have "chain a (ws @ l\<lparr>hb_size := hb_size l + (hb_size g + HEADER)\<rparr> # zs) e"
    unfolding chain_append using x(1) by blast
  moreover have "merge_prev xs (g # zs) = ws @ l\<lparr>hb_size := hb_size l + (hb_size g + HEADER)\<rparr> # zs"
    using True by (simp add: merge_prev_def ws_def l_def)
  moreover have "coalesced ws" "ws \<noteq> [] \<longrightarrow> hb_allocated (last ws)" "coalesced zs" "zs \<noteq> [] \<longrightarrow> hb_allocated (hd zs)"
    using assms(3-5) xs by (auto simp: coalesced_append coalesced_Cons)
  ultimately show ?thesis using xs by (simp add: coalesced_append coalesced_Cons)
next
  case False
  then have "merge_prev xs (g # zs) = xs @ g # zs" unfolding merge_prev_def by auto
  with False assms show ?thesis by (auto simp: coalesced_append)
qed

text \<open>C29: Freeing any allocated block of a coalesced heap returns, keeps the heap well formed (so the block is
  merged with every free neighbour and the used size goes down by the block and its header), and leaves
  all other allocated blocks where they are.\<close>
theorem free_coalesces:
  assumes inv: "hm_inv m" and i: "i < length (hm_blocks m)" and al: "hb_allocated (hm_blocks m ! i)"
  shows "\<exists>m'. memoryFree m (Some (hb_addr (hm_blocks m ! i) + HEADER)) = Some m' \<and> hm_inv m' \<and>
    hm_total_size m' = hm_total_size m \<and>
    unat (hm_used_size m') + unat (hb_size (hm_blocks m ! i)) + 32 = unat (hm_used_size m) \<and>
    filter hb_allocated (hm_blocks m') =
      filter hb_allocated (take i (hm_blocks m)) @ filter hb_allocated (drop (Suc i) (hm_blocks m))"
proof -
  define xs where "xs = take i (hm_blocks m)"
  define ys where "ys = drop (Suc i) (hm_blocks m)"
  define b where "b = hm_blocks m ! i"
  let ?T = "unat (hm_total_size m)" and ?f = "b\<lparr>hb_allocated := False\<rparr>"
  have bs: "hm_blocks m = xs @ b # ys" using i by (simp add: xs_def ys_def b_def id_take_nth_drop)
  from inv have ch: "chain 0 (xs @ b # ys) ?T" "?T < 2 ^ 63" "coalesced (xs @ b # ys)"
    "unat (hm_used_size m) = used_sum (xs @ b # ys)" by (auto simp: hm_inv_def bs)
  have alb: "hb_allocated b" using al by (simp add: b_def)
  from ch(1) obtain c where c: "chain 0 xs c" "chain c (?f # ys) ?T" by (auto simp: chain_append)
  have co: "coalesced xs" "coalesced ys" using ch(3) by (auto simp: coalesced_append coalesced_Cons)
  from merge_next_ok [OF c(2) ch(2) _ co(2)] obtain g zs where
    g: "merge_next ?f ys = g # zs" "\<not> hb_allocated g" "chain c (g # zs) ?T" "coalesced (g # zs)"
      "used_sum zs = used_sum ys" "filter hb_allocated zs = filter hb_allocated ys" by auto
  have "chain 0 (xs @ g # zs) ?T" using c(1) g(3) by (auto simp: chain_append)
  note mp = merge_prev_ok [OF this ch(2) g(2) co(1) g(4)]
  let ?m' = "m\<lparr>hm_used_size := hm_used_size m - (hb_size b + HEADER), hm_blocks := merge_prev xs (g # zs)\<rparr>"
  have run: "memoryFree m (Some (hb_addr b + HEADER)) = Some ?m'"
    using memoryFree_at [of m ?T xs b ys] ch(1) bs g(1) by simp
  have us: "unat (hm_used_size m) = used_sum xs + used_sum ys + unat (hb_size b) + 32" using ch(4) alb by simp
  have "unat (hb_size b) + 32 < 2 ^ 63" using us used_sum_le [OF ch(1)] ch(2,4) by simp
  then have hb: "unat (hb_size b + HEADER) = unat (hb_size b) + 32" by (simp add: unat_plus_if')
  then have "unat (hm_used_size m - (hb_size b + HEADER)) = used_sum xs + used_sum ys"
    using us by (simp add: unat_sub word_le_nat_alt)
  then show ?thesis
    using run mp g(5,6) ch(2) us by (intro exI [of _ ?m']) (simp add: hm_inv_def b_def [symmetric] xs_def [symmetric] ys_def [symmetric])
qed

definition hm_used_demo :: heap_manager where
  "hm_used_demo = fst (memoryAlloc hm_demo 128)"

theorem free_coalesces_witness:
  "\<exists>m'. memoryFree hm_used_demo (Some (hb_addr (hm_blocks hm_used_demo ! 0) + HEADER)) = Some m' \<and> hm_inv m' \<and>
    hm_total_size m' = hm_total_size hm_used_demo \<and>
    unat (hm_used_size m') + unat (hb_size (hm_blocks hm_used_demo ! 0)) + 32 = unat (hm_used_size hm_used_demo) \<and>
    filter hb_allocated (hm_blocks m') =
      filter hb_allocated (take 0 (hm_blocks hm_used_demo)) @ filter hb_allocated (drop (Suc 0) (hm_blocks hm_used_demo))"
proof (rule free_coalesces)
  have demo: "hm_used_demo = \<lparr>hm_blocks = [\<lparr>hb_addr = 0, hb_size = 128, hb_allocated = True\<rparr>,
      \<lparr>hb_addr = 160, hb_size = 832, hb_allocated = False\<rparr>], hm_total_size = 1024, hm_used_size = 160\<rparr>"
    by (simp add: hm_used_demo_def hm_demo_def initializeMemoryManager_def memoryAlloc_def usable_def carve_def
        HEADER_def MIN_BLOCK_SIZE_def Let_def)
  show "hm_inv hm_used_demo" "0 < length (hm_blocks hm_used_demo)" "hb_allocated (hm_blocks hm_used_demo ! 0)"
    by (simp_all add: demo hm_inv_def)
qed

text \<open>Best fit (d18) keeps its chain in the same way.\<close>

lemma allocateVariableBlock_chain:
  assumes "chain 0 (va_blocks a) e" and "e < 2 ^ 63"
  shows "\<exists>a' r. allocateVariableBlock a sz = (a', r) \<and> chain 0 (va_blocks a') e \<and>
    (case r of None \<Rightarrow> a' = a
     | Some p \<Rightarrow> (\<exists>i < length (va_blocks a). usable (va_blocks a ! i) sz \<and>
         p = hb_addr (va_blocks a' ! i) + HEADER \<and> hb_allocated (va_blocks a' ! i) \<and> sz \<le> hb_size (va_blocks a' ! i)))"
proof (cases "best_usable 0 (va_blocks a) sz None (va_total_size a)")
  case None
  with assms show ?thesis by (simp add: allocateVariableBlock_def)
next
  case (Some i)
  from best_header.carve_chain [OF assms Some] obtain xs b ys b' zs where
    c: "va_blocks a = xs @ b # ys" "length xs = i"
      "carve (hb_size b > sz + HEADER + 64) (va_blocks a) i sz = xs @ b' # zs" "hb_allocated b'"
      "unat sz \<le> unat (hb_size b')" "chain 0 (xs @ b' # zs) e" "va_blocks a ! i = b" by blast
  have "allocateVariableBlock a sz = (a\<lparr>va_blocks := xs @ b' # zs\<rparr>, Some (hb_addr b' + HEADER))"
    using Some c(2,3,7) by (simp add: allocateVariableBlock_def Let_def nth_append)
  moreover have "(xs @ b' # zs) ! i = b'" using c(2) by (simp add: nth_append)
  moreover have "sz \<le> hb_size b'" using c(5) by (simp add: word_le_nat_alt)
  ultimately show ?thesis using c(4,6) best_header.select_usable [OF Some]
    by (intro exI [of _ "a\<lparr>va_blocks := xs @ b' # zs\<rparr>"] exI [of _ "Some (hb_addr b' + HEADER)"]) auto
qed

end
