(* ===== verification/Block_Pools.thy ===== *)
theory Block_Pools
  imports Slot_Table
begin

unbundle bit_operations_syntax

section \<open>Fixed-size blocks: d18 Memory_Allocators.c, d24 Memory_Pool.c\<close>

text \<open>
  The fixed-block allocator of d18 is a slot table with give-back; the memory pool of d24 keeps
  its free list inside the blocks, so its memory is an explicit store. Pointers into the managed
  memory are offsets from its start, \<open>None\<close> is \<open>NULL\<close>.
\<close>

subsection \<open>The fixed allocator (d18)\<close>

definition FA_BLOCK_SIZE :: size_t where "FA_BLOCK_SIZE = 256"
definition NUM_BLOCKS :: size_t where "NUM_BLOCKS = 64"
definition MAX_ORDER :: nat where "MAX_ORDER = 10"

record fixed_allocator =
  fa_is_allocated :: "bool list"
  fa_block_size :: size_t
  fa_num_blocks :: size_t
  fa_free_blocks :: size_t

definition initFixedAllocator :: fixed_allocator where
  "initFixedAllocator =
     \<lparr>fa_is_allocated = replicate (unat NUM_BLOCKS) False, fa_block_size = FA_BLOCK_SIZE,
      fa_num_blocks = NUM_BLOCKS, fa_free_blocks = NUM_BLOCKS\<rparr>"

definition allocateFixedBlock :: "fixed_allocator \<Rightarrow> (fixed_allocator \<times> size_t option) option" where
  "allocateFixedBlock allocator =
     (if fa_free_blocks allocator = 0 then Some (allocator, None)
      else do {
        h \<leftarrow> first_free Not (fa_is_allocated allocator) (unat (fa_num_blocks allocator));
        (case h of
           None \<Rightarrow> Some (allocator, None)
         | Some i \<Rightarrow> do {
             al \<leftarrow> wr (fa_is_allocated allocator) i True;
             Some (allocator\<lparr>fa_is_allocated := al, fa_free_blocks := fa_free_blocks allocator - 1\<rparr>,
               Some (of_nat i * fa_block_size allocator)) }) })"

definition freeFixedBlock :: "fixed_allocator \<Rightarrow> size_t option \<Rightarrow> fixed_allocator option" where
  "freeFixedBlock allocator ptr = (case ptr of
     None \<Rightarrow> Some allocator
   | Some p \<Rightarrow>
       if fa_block_size allocator = 0 then None
       else (
         let idx = p div fa_block_size allocator
         in if idx < fa_num_blocks allocator then do {
              a \<leftarrow> rd (fa_is_allocated allocator) (unat idx);
              if a then do {
                al \<leftarrow> wr (fa_is_allocated allocator) (unat idx) False;
                Some (allocator\<lparr>fa_is_allocated := al, fa_free_blocks := fa_free_blocks allocator + 1\<rparr>) }
              else Some allocator }
            else Some allocator))"

definition fixed_inv :: "fixed_allocator \<Rightarrow> bool" where
  "fixed_inv a \<longleftrightarrow> length (fa_is_allocated a) = unat (fa_num_blocks a) \<and> 0 < unat (fa_block_size a) \<and>
     unat (fa_num_blocks a) * unat (fa_block_size a) < 2 ^ 64 \<and>
     unat (fa_free_blocks a) = count_if Not (fa_is_allocated a)"

definition fixed_used :: "fixed_allocator \<Rightarrow> nat set" where
  "fixed_used a = {i. i < unat (fa_num_blocks a) \<and> fa_is_allocated a ! i}"

definition fixed_size :: "fixed_allocator \<Rightarrow> nat" where
  "fixed_size a = unat (fa_num_blocks a)"

text \<open>Block number and offset.\<close>

definition block_at :: "fixed_allocator \<Rightarrow> nat \<Rightarrow> size_t" where
  "block_at a i = of_nat i * fa_block_size a"

lemma block_at_div:
  assumes "fixed_inv a" and "i < unat (fa_num_blocks a)"
  shows "unat (block_at a i div fa_block_size a) = i"
proof -
  let ?b = "unat (fa_block_size a)"
  have b: "0 < ?b" "unat (fa_num_blocks a) * ?b < 2 ^ 64" using assms(1) by (auto simp: fixed_inv_def)
  have lt: "i * ?b < 2 ^ 64" using mult_less_mono1 [OF assms(2) b(1)] b(2) by (rule less_trans)
  have "i < 2 ^ 64" using assms(2) unat_size_t_less [of "fa_num_blocks a"] by (rule less_trans)
  then have "unat (block_at a i) = i * ?b" using lt by (simp add: block_at_def unat_word_ariths unat_of_nat)
  then show ?thesis using assms(1) by (simp add: unat_div fixed_inv_def)
qed

lemma fixed_alloc_some:
  assumes inv: "fixed_inv a" and i: "i < fixed_size a" "i \<notin> fixed_used a" "\<forall>j < i. j \<in> fixed_used a"
  defines "a' \<equiv> a\<lparr>fa_is_allocated := (fa_is_allocated a)[i := True], fa_free_blocks := fa_free_blocks a - 1\<rparr>"
  shows "allocateFixedBlock a = Some (a', Some (block_at a i))" and "fixed_inv a'"
    and "fixed_used a' = insert i (fixed_used a)"
proof -
  have il: "i < length (fa_is_allocated a)" "\<not> fa_is_allocated a ! i" using inv i by (auto simp: fixed_inv_def fixed_size_def fixed_used_def)
  have "find (\<lambda>j. Not (fa_is_allocated a ! j)) [0..<unat (fa_num_blocks a)] = Some i"
    using i by (auto simp: find_upt_Some fixed_size_def fixed_used_def)
  moreover have pos: "0 < count_if Not (fa_is_allocated a)" 
    unfolding count_if_pos using il(2) nth_mem [OF il(1)] by blast
  moreover have "fa_free_blocks a \<noteq> 0" using inv pos by (auto simp: fixed_inv_def)
  moreover have "unat (fa_num_blocks a) \<le> length (fa_is_allocated a)" using inv by (simp add: fixed_inv_def)
  ultimately show "allocateFixedBlock a = Some (a', Some (block_at a i))"
    using il(1) by (simp add: allocateFixedBlock_def first_free_eq a'_def block_at_def)
  have "unat (fa_free_blocks a - 1) = unat (fa_free_blocks a) - 1"
    using inv pos by (simp add: fixed_inv_def unat_sub word_le_nat_alt)
  then show "fixed_inv a'"
    using inv count_if_update [OF il(1), of Not True] il(2) by (simp add: fixed_inv_def a'_def)
  show "fixed_used a' = insert i (fixed_used a)"
    using il i(1) inv by (auto simp: fixed_used_def a'_def nth_list_update fixed_inv_def)
qed

lemma fixed_free_some:
  assumes inv: "fixed_inv a" and i: "i \<in> fixed_used a"
  defines "a' \<equiv> a\<lparr>fa_is_allocated := (fa_is_allocated a)[i := False], fa_free_blocks := fa_free_blocks a + 1\<rparr>"
  shows "freeFixedBlock a (Some (block_at a i)) = Some a'" and "fixed_inv a'"
    and "fixed_used a' = fixed_used a - {i}"
proof -
  have il: "i < length (fa_is_allocated a)" "fa_is_allocated a ! i" "i < unat (fa_num_blocks a)"
    using inv i by (auto simp: fixed_inv_def fixed_used_def)
  have "fa_block_size a \<noteq> 0" using inv by (auto simp: fixed_inv_def)
  then show "freeFixedBlock a (Some (block_at a i)) = Some a'"
    using il block_at_div [OF inv il(3)] by (simp add: freeFixedBlock_def Let_def word_less_nat_alt a'_def)
  have cnt: "count_if Not ((fa_is_allocated a)[i := False]) = Suc (count_if Not (fa_is_allocated a))"
    using count_if_update [OF il(1), of Not False] il(2) by simp
  then have "Suc (count_if Not (fa_is_allocated a)) \<le> unat (fa_num_blocks a)"
    using count_if_le [of Not "(fa_is_allocated a)[i := False]"] inv by (simp add: fixed_inv_def)
  then have "unat (fa_free_blocks a + 1) = Suc (unat (fa_free_blocks a))"
    using inv unat_size_t_less [of "fa_num_blocks a"] by (simp add: fixed_inv_def unat_plus_if')
  then show "fixed_inv a'" using inv cnt by (simp add: fixed_inv_def a'_def)
  show "fixed_used a' = fixed_used a - {i}" using il by (auto simp: fixed_used_def a'_def nth_list_update)
qed

definition fixed_alloc_slot :: "fixed_allocator \<Rightarrow> (fixed_allocator \<times> nat option) option" where
  "fixed_alloc_slot a = map_option (\<lambda>(a', r). (a', map_option (\<lambda>p. unat (p div fa_block_size a)) r)) (allocateFixedBlock a)"

interpretation fixed: releasing_slot_table fixed_inv fixed_used fixed_size fixed_alloc_slot
  "\<lambda>i a. freeFixedBlock a (Some (block_at a i))"
proof
  fix a :: fixed_allocator
  assume inv: "fixed_inv a"
  show "fixed_used a \<subseteq> {..<fixed_size a}" by (auto simp: fixed_used_def fixed_size_def)
  { assume full: "fixed_used a = {..<fixed_size a}"
    then have all: "\<forall>i < unat (fa_num_blocks a). fa_is_allocated a ! i" by (auto simp: fixed_used_def fixed_size_def)
    then have "count_if Not (fa_is_allocated a) = 0"
      using inv count_if_pos [of Not "fa_is_allocated a"] by (auto simp: fixed_inv_def in_set_conv_nth)
    then have "fa_free_blocks a = 0" using inv by (simp add: fixed_inv_def unat_eq_zero)
    then show "fixed_alloc_slot a = Some (a, None)" by (simp add: fixed_alloc_slot_def allocateFixedBlock_def) }
  { fix i assume i: "i < fixed_size a" "i \<notin> fixed_used a" "\<forall>j < i. j \<in> fixed_used a"
    note al = fixed_alloc_some [OF inv i]
    have "unat (block_at a i div fa_block_size a) = i"
      using block_at_div [OF inv] i(1) by (simp add: fixed_size_def)
    then show "\<exists>s'. fixed_alloc_slot a = Some (s', Some i) \<and> fixed_inv s' \<and> fixed_size s' = fixed_size a \<and>
        fixed_used s' = insert i (fixed_used a)"
      using al by (simp add: fixed_alloc_slot_def) (simp add: fixed_size_def) }
  { fix i assume i: "i \<in> fixed_used a"
    note fr = fixed_free_some [OF inv i]
    show "\<exists>s'. freeFixedBlock a (Some (block_at a i)) = Some s' \<and> fixed_inv s' \<and> fixed_size s' = fixed_size a \<and>
        fixed_used s' = fixed_used a - {i}"
      using fr by (simp add: fixed_size_def) }
qed

lemma initFixedAllocator_inv: "fixed_inv initFixedAllocator"
  by (simp add: fixed_inv_def initFixedAllocator_def NUM_BLOCKS_def FA_BLOCK_SIZE_def count_if_replicate)

text \<open>The fixed allocator hands out the lowest free block, failing only when all are in use; its free count
  stays the number of free blocks; and freeing the block it returned restores the allocator exactly.\<close>
theorem fixed_alloc_free:
  assumes inv: "fixed_inv a"
  shows "\<exists>a' r. allocateFixedBlock a = Some (a', r) \<and> fixed_inv a' \<and>
    (case r of
       None \<Rightarrow> a' = a \<and> fa_free_blocks a = 0 \<and> fixed_used a = {..<unat (fa_num_blocks a)}
     | Some p \<Rightarrow> (\<exists>i < unat (fa_num_blocks a). p = of_nat i * fa_block_size a \<and> i \<notin> fixed_used a \<and>
         (\<forall>j < i. j \<in> fixed_used a) \<and> fixed_used a' = insert i (fixed_used a)) \<and>
         unat (fa_free_blocks a') + 1 = unat (fa_free_blocks a) \<and> freeFixedBlock a' (Some p) = Some a)"
proof (cases "fixed_used a = {..<unat (fa_num_blocks a)}")
  case True
  then have "\<forall>i < unat (fa_num_blocks a). fa_is_allocated a ! i" by (auto simp: fixed_used_def)
  then have "count_if Not (fa_is_allocated a) = 0"
    using inv count_if_pos [of Not "fa_is_allocated a"] by (auto simp: fixed_inv_def in_set_conv_nth)
  then have "fa_free_blocks a = 0" using inv by (simp add: fixed_inv_def unat_eq_zero)
  with True inv show ?thesis by (simp add: allocateFixedBlock_def)
next
  case False
  from fixed.alloc_total [OF inv] obtain s r where r: "fixed_alloc_slot a = Some (s, r)"
    "case r of None \<Rightarrow> s = a \<and> fixed_used a = {..<fixed_size a}
     | Some i \<Rightarrow> i < fixed_size a \<and> i \<notin> fixed_used a \<and> (\<forall>j < i. j \<in> fixed_used a) \<and> fixed_used s = insert i (fixed_used a)"
    by blast
  with False obtain i where i: "i < fixed_size a" "i \<notin> fixed_used a" "\<forall>j < i. j \<in> fixed_used a"
    by (cases r) (auto simp: fixed_size_def)
  note al = fixed_alloc_some [OF inv i]
  let ?a' = "a\<lparr>fa_is_allocated := (fa_is_allocated a)[i := True], fa_free_blocks := fa_free_blocks a - 1\<rparr>"
  have il: "i < length (fa_is_allocated a)" "\<not> fa_is_allocated a ! i"
    using inv i by (auto simp: fixed_inv_def fixed_size_def fixed_used_def)
  have "freeFixedBlock ?a' (Some (block_at ?a' i)) =
      Some (?a'\<lparr>fa_is_allocated := (fa_is_allocated ?a')[i := False], fa_free_blocks := fa_free_blocks ?a' + 1\<rparr>)"
    by (rule fixed_free_some(1) [OF al(2)]) (simp add: al(3))
  also have "\<dots> = Some a" using il by (cases a) (simp add: list_update_same_conv)
  finally have back_ok: "freeFixedBlock ?a' (Some (block_at a i)) = Some a" by (simp add: block_at_def)
  have "unat (fa_free_blocks a - 1) + 1 = unat (fa_free_blocks a)"
    using inv al(2) count_if_update [OF il(1), of Not True] il(2) by (simp add: fixed_inv_def)
  with al back_ok i show ?thesis
    by (intro exI [of _ ?a'] exI [of _ "Some (block_at a i)"]) (auto simp: block_at_def fixed_size_def)
qed

theorem fixed_alloc_free_witness:
  "\<exists>a' r. allocateFixedBlock initFixedAllocator = Some (a', r) \<and> fixed_inv a' \<and>
    (case r of
       None \<Rightarrow> a' = initFixedAllocator \<and> fa_free_blocks initFixedAllocator = 0 \<and>
         fixed_used initFixedAllocator = {..<unat (fa_num_blocks initFixedAllocator)}
     | Some p \<Rightarrow> (\<exists>i < unat (fa_num_blocks initFixedAllocator). p = of_nat i * fa_block_size initFixedAllocator \<and>
         i \<notin> fixed_used initFixedAllocator \<and>
         (\<forall>j < i. j \<in> fixed_used initFixedAllocator) \<and> fixed_used a' = insert i (fixed_used initFixedAllocator)) \<and>
         unat (fa_free_blocks a') + 1 = unat (fa_free_blocks initFixedAllocator) \<and>
         freeFixedBlock a' (Some p) = Some initFixedAllocator)"
  by (rule fixed_alloc_free [OF initFixedAllocator_inv])

subsection \<open>The other initialisations and the statistics (d18)\<close>

record buddy_allocator =
  bu_free_lists :: "size_t option list"
  bu_min_block_size :: size_t
  bu_max_order :: size_t
  bu_total_size :: size_t

text \<open>\<open>bu_total_size\<close> is the size passed to \<open>malloc\<close>, which wraps for huge blocks.\<close>

definition initBuddyAllocator :: "size_t \<Rightarrow> buddy_allocator" where
  "initBuddyAllocator min_block_size =
     \<lparr>bu_free_lists = (replicate (MAX_ORDER + 1) None)[MAX_ORDER := Some 0], bu_min_block_size = min_block_size,
      bu_max_order = of_nat MAX_ORDER, bu_total_size = push_bit MAX_ORDER min_block_size\<rparr>"

record block_pool =
  bp_block_size :: size_t
  bp_num_blocks :: size_t
  bp_free_blocks :: size_t
  bp_free_lists :: "size_t list"

definition initMemoryPool :: "size_t \<Rightarrow> size_t \<Rightarrow> block_pool option" where
  "initMemoryPool block_sz num_blocks = do {
     fl \<leftarrow> for_loop 0 (unat num_blocks) (\<lambda>i fl. wr fl i (of_nat i * block_sz)) (replicate (unat num_blocks) 0);
     Some \<lparr>bp_block_size = block_sz, bp_num_blocks = num_blocks, bp_free_blocks = num_blocks, bp_free_lists = fl\<rparr> }"

lemma initMemoryPool_ok:
  "initMemoryPool b n = Some \<lparr>bp_block_size = b, bp_num_blocks = n, bp_free_blocks = n,
     bp_free_lists = map (\<lambda>i. of_nat i * b) [0..<unat n]\<rparr>"
  by (simp add: initMemoryPool_def for_loop_fill)

record allocator_stats =
  as_allocations :: size_t
  as_deallocations :: size_t
  as_failed_allocations :: size_t
  as_total_allocated :: size_t
  as_peak_usage :: size_t

definition updateStats :: "allocator_stats \<Rightarrow> size_t \<Rightarrow> bool \<Rightarrow> allocator_stats" where
  "updateStats stats sz success =
     (if success then
        (let stats = stats\<lparr>as_allocations := as_allocations stats + 1,
               as_total_allocated := as_total_allocated stats + sz\<rparr>
         in if as_total_allocated stats > as_peak_usage stats
            then stats\<lparr>as_peak_usage := as_total_allocated stats\<rparr> else stats)
      else stats\<lparr>as_failed_allocations := as_failed_allocations stats + 1\<rparr>)"

lemma updateStats_peak:
  "as_total_allocated st \<le> as_peak_usage st \<Longrightarrow>
   as_total_allocated (updateStats st sz ok) \<le> as_peak_usage (updateStats st sz ok)"
  by (auto simp: updateStats_def Let_def)

subsection \<open>The pool of d24\<close>

definition POOL_BLOCK_SIZE :: size_t where "POOL_BLOCK_SIZE = 64"
definition POOL_BLOCK_COUNT :: size_t where "POOL_BLOCK_COUNT = 1024"

text \<open>\<open>!\<close> is the logical negation: it yields 0 or 1, not the mask the comment beside it describes.\<close>

definition align_size :: "size_t \<Rightarrow> size_t \<Rightarrow> size_t" where
  "align_size sz alignment = (sz + (alignment - 1)) AND (if alignment - 1 = 0 then 1 else 0)"

text \<open>
  \<open>mp_store\<close> gives the pointer stored in the first eight bytes of a block, by the block's offset;
  a block that was never written has none.
\<close>

record mem_pool =
  mp_store :: "size_t \<Rightarrow> size_t option option"
  mp_bytes :: nat
  mp_free_list :: "size_t option"
  mp_block_size :: size_t
  mp_total_blocks :: size_t
  mp_free_blocks :: size_t

definition store_link :: "mem_pool \<Rightarrow> size_t \<Rightarrow> size_t option \<Rightarrow> mem_pool option" where
  "store_link p a v =
     (if unat a + 8 \<le> mp_bytes p then Some (p\<lparr>mp_store := (mp_store p)(a := Some v)\<rparr>) else None)"

definition load_link :: "mem_pool \<Rightarrow> size_t \<Rightarrow> size_t option option" where
  "load_link p a = mp_store p a"

text \<open>The loop shared by both initialisations: \<open>step\<close> is the distance of the blocks.\<close>

definition link_blocks :: "mem_pool \<Rightarrow> size_t \<Rightarrow> size_t \<Rightarrow> mem_pool option" where
  "link_blocks p step block_count = do {
     (p, block) \<leftarrow> for_loop 0 (unat (block_count - 1)) (\<lambda>i (p, block). do {
        p \<leftarrow> store_link p block (Some (block + step));
        Some (p, block + step) }) (p, 0);
     store_link p block None }"

text \<open>\<open>pool_ok\<close> and \<open>start_ok\<close> say whether the two calls of \<open>malloc\<close> succeed; the value \<open>Some None\<close> is the null pointer returned.\<close>

definition pool_init :: "bool \<Rightarrow> bool \<Rightarrow> size_t \<Rightarrow> size_t \<Rightarrow> mem_pool option option" where
  "pool_init pool_ok start_ok block_sz block_count =
     (if \<not> pool_ok then Some None
      else if \<not> start_ok then Some None
      else do {
        p \<leftarrow> link_blocks
          \<lparr>mp_store = (\<lambda>_. None), mp_bytes = unat (block_sz * block_count), mp_free_list = Some 0,
           mp_block_size = block_sz, mp_total_blocks = block_count, mp_free_blocks = block_count\<rparr> block_sz block_count;
        Some (Some p) })"

text \<open>The three operations take a pool that exists; for a null pointer they do nothing.\<close>

definition pool_alloc :: "mem_pool \<Rightarrow> (mem_pool \<times> size_t option) option" where
  "pool_alloc pool =
     (if mp_free_blocks pool = 0 then Some (pool, None)
      else do {
        block \<leftarrow> mp_free_list pool;
        next_free \<leftarrow> load_link pool block;
        Some (pool\<lparr>mp_free_list := next_free, mp_free_blocks := mp_free_blocks pool - 1\<rparr>, Some block) })"

definition pool_free :: "mem_pool \<Rightarrow> size_t option \<Rightarrow> mem_pool option" where
  "pool_free pool block = (case block of
     None \<Rightarrow> Some pool
   | Some b \<Rightarrow> do {
       p \<leftarrow> store_link pool b (mp_free_list pool);
       Some (p\<lparr>mp_free_list := Some b, mp_free_blocks := mp_free_blocks pool + 1\<rparr>) })"

text \<open>
  \<open>free(pool->free_list)\<close> comes after \<open>free(pool->start)\<close>: unless the list is empty, it frees a
  pointer into the memory just released.
\<close>

definition pool_destroy :: "mem_pool \<Rightarrow> unit option" where
  "pool_destroy pool = (if mp_free_list pool = None then Some () else None)"

text \<open>
  \<open>memory_ok\<close> says whether \<open>posix_memalign\<close> succeeds (for an alignment that is no power of two it does not); then the memory has the
  aligned size times the count.
\<close>

definition advanced_pool_create :: "bool \<Rightarrow> bool \<Rightarrow> size_t \<Rightarrow> size_t \<Rightarrow> size_t \<Rightarrow> mem_pool option option" where
  "advanced_pool_create pool_ok memory_ok block_sz block_count alignment =
     (if \<not> pool_ok then Some None
      else let aligned_size = align_size block_sz alignment in
        if \<not> memory_ok then Some None
        else do {
          p \<leftarrow> link_blocks
            \<lparr>mp_store = (\<lambda>_. None), mp_bytes = unat (aligned_size * block_count), mp_free_list = Some 0,
             mp_block_size = aligned_size, mp_total_blocks = block_count, mp_free_blocks = block_count\<rparr>
            aligned_size block_count;
          Some (Some p) })"

lemma align_size_zero: "alignment \<noteq> 1 \<Longrightarrow> align_size sz alignment = 0"
  by (simp add: align_size_def)

text \<open>Without any memory the first link is written outside it.\<close>

lemma link_blocks_no_memory:
  assumes "mp_bytes p = 0"
  shows "link_blocks p step n = None"
proof -
  have none: "store_link q a v = None" if "mp_bytes q = 0" for q a v using that by (simp add: store_link_def)
  show ?thesis
  proof (cases "unat (n - 1)")
    case 0
    with assms show ?thesis by (simp add: link_blocks_def none)
  next
    case (Suc k)
    with assms show ?thesis by (simp add: link_blocks_def for_loop_step none)
  qed
qed

lemma advanced_pool_undefined: "alignment \<noteq> 1 \<Longrightarrow> advanced_pool_create True True sz n alignment = None"
  by (simp add: advanced_pool_create_def align_size_zero link_blocks_no_memory)

subsection \<open>The pool is a stack of blocks\<close>

text \<open>\<open>linked p l xs\<close>: following the links from \<open>l\<close> gives the blocks \<open>xs\<close>.\<close>

primrec linked :: "mem_pool \<Rightarrow> size_t option \<Rightarrow> size_t list \<Rightarrow> bool" where
  "linked p l [] = (l = None)"
| "linked p l (x # xs) = (l = Some x \<and> (\<exists>v. load_link p x = Some v \<and> linked p v xs))"

definition pool_stack :: "mem_pool \<Rightarrow> size_t list \<Rightarrow> bool" where
  "pool_stack p xs \<longleftrightarrow> linked p (mp_free_list p) xs \<and> distinct xs \<and> unat (mp_free_blocks p) = length xs \<and>
     (\<forall>x \<in> set xs. unat x + 8 \<le> mp_bytes p)"

lemma linked_cong:
  "\<forall>x \<in> set xs. load_link p x = load_link q x \<Longrightarrow> linked p l xs = linked q l xs"
  by (induction xs arbitrary: l) auto

lemma pool_alloc_stack:
  assumes "pool_stack p xs"
  shows "\<exists>p'. pool_alloc p = Some (p', if xs = [] then None else Some (hd xs)) \<and> pool_stack p' (tl xs) \<and>
    mp_bytes p' = mp_bytes p"
proof (cases xs)
  case Nil
  with assms have "mp_free_blocks p = 0" by (simp add: pool_stack_def unat_eq_zero)
  with Nil assms show ?thesis by (simp add: pool_alloc_def)
next
  case (Cons x ys)
  with assms obtain v where v: "mp_free_list p = Some x" "load_link p x = Some v" "linked p v ys"
    by (auto simp: pool_stack_def)
  let ?p' = "p\<lparr>mp_free_list := v, mp_free_blocks := mp_free_blocks p - 1\<rparr>"
  have nz: "mp_free_blocks p \<noteq> 0" using assms Cons by (auto simp: pool_stack_def)
  have "unat (mp_free_blocks p) = Suc (length ys)" using assms Cons by (simp add: pool_stack_def)
  then have "unat (mp_free_blocks p - 1) = length ys" by (simp add: unat_sub word_le_nat_alt)
  moreover have "linked ?p' v ys = linked p v ys" by (rule linked_cong) (simp add: load_link_def)
  ultimately have "pool_stack ?p' ys" using assms Cons v by (simp add: pool_stack_def)
  moreover have "pool_alloc p = Some (?p', Some x)" using nz v by (simp add: pool_alloc_def)
  ultimately show ?thesis using Cons by simp
qed

lemma pool_free_stack:
  assumes st: "pool_stack p xs" and b: "b \<notin> set xs" "unat b + 8 \<le> mp_bytes p" and room: "unat (mp_free_blocks p) + 1 < 2 ^ 64"
  shows "\<exists>p'. pool_free p (Some b) = Some p' \<and> pool_stack p' (b # xs) \<and> mp_bytes p' = mp_bytes p"
proof -
  let ?p' = "p\<lparr>mp_store := (mp_store p)(b := Some (mp_free_list p)), mp_free_list := Some b,
    mp_free_blocks := mp_free_blocks p + 1\<rparr>"
  have "pool_free p (Some b) = Some ?p'" using b by (simp add: pool_free_def store_link_def)
  moreover have "linked ?p' (mp_free_list p) xs = linked p (mp_free_list p) xs"
    using b(1) by (intro linked_cong) (auto simp: load_link_def)
  moreover have "unat (mp_free_blocks p + 1) = unat (mp_free_blocks p) + 1" using room by (simp add: unat_plus_if')
  ultimately show ?thesis using st b
    by (intro exI [of _ ?p']) (simp add: pool_stack_def load_link_def)
qed

text \<open>The initial stack: the blocks in address order.\<close>

lemma link_blocks_ok:
  fixes b n :: size_t and p :: mem_pool
  assumes sz: "8 \<le> unat b" and n: "0 < unat n" and fits: "unat b * unat n < 2 ^ 64" and bytes: "mp_bytes p = unat b * unat n"
    and p: "mp_free_list p = Some 0" "mp_free_blocks p = n"
  shows "\<exists>p'. link_blocks p b n = Some p' \<and> pool_stack p' (map (\<lambda>i. of_nat i * b) [0..<unat n]) \<and>
    mp_bytes p' = mp_bytes p"
proof -
  let ?N = "unat n - 1" and ?a = "\<lambda>i. of_nat i * b :: size_t"
  have N: "unat (n - 1) = ?N" "unat n = Suc ?N" using n by (simp_all add: unat_sub word_le_nat_alt)
  have ub: "unat (?a i) = i * unat b" "i * unat b + 8 \<le> mp_bytes p" if "i < unat n" for i
  proof -
    have "(i + 1) * unat b \<le> unat n * unat b" using that by (intro mult_right_mono) auto
    then have "i * unat b + unat b \<le> unat b * unat n" by (simp add: mult.commute)
    then show "i * unat b + 8 \<le> mp_bytes p" using sz bytes by simp
    have "i * unat b < 2 ^ 64" using \<open>i * unat b + unat b \<le> unat b * unat n\<close> fits by simp
    moreover have "i < 2 ^ 64" using that unat_size_t_less [of n] by simp
    ultimately show "unat (?a i) = i * unat b" by (simp add: unat_word_ariths unat_of_nat)
  qed
  have inj: "?a i = ?a j \<longleftrightarrow> i = j" if "i < unat n" "j < unat n" for i j
  proof
    assume "?a i = ?a j"
    then have "i * unat b = j * unat b" using ub(1) that by metis
    with sz show "i = j" by simp
  qed simp
  let ?body = "\<lambda>i (p, block). do { p \<leftarrow> store_link p block (Some (block + b)); Some (p, block + b) }"
  define P where "P k = (\<lambda>(q :: mem_pool, block). block = ?a k \<and> mp_bytes q = mp_bytes p \<and> mp_free_list q = Some 0 \<and>
     mp_free_blocks q = n \<and> (\<forall>i < k. mp_store q (?a i) = Some (Some (?a (Suc i)))))" for k
  have "\<exists>s. for_loop 0 ?N ?body (p, 0) = Some s \<and> P ?N s"
  proof (rule for_loop_invar)
    show "P 0 (p, 0)" using p by (simp add: P_def)
  next
    fix k s assume k: "0 \<le> k" "k < ?N" and P: "P k s"
    obtain q block where s: "s = (q, block)" by (cases s)
    have kn: "k < unat n" using k by simp
    have blk: "block = ?a k" "mp_bytes q = mp_bytes p" "mp_free_list q = Some 0" "mp_free_blocks q = n"
      "\<forall>i < k. mp_store q (?a i) = Some (Some (?a (Suc i)))" using P by (auto simp: P_def s)
    let ?q' = "q\<lparr>mp_store := (mp_store q)(?a k := Some (Some (?a k + b)))\<rparr>"
    have "?body k s = Some (?q', ?a k + b)" using blk(1,2) ub [OF kn] by (simp add: s store_link_def)
    moreover have "?a k + b = ?a (Suc k)" by (simp add: algebra_simps)
    moreover have "mp_store ?q' (?a i) = Some (Some (?a (Suc i)))" if "i < Suc k" for i
    proof (cases "i = k")
      case True
      then show ?thesis using \<open>?a k + b = ?a (Suc k)\<close> by simp
    next
      case False
      then have "i < k" "?a i \<noteq> ?a k" using that inj [of i k] kn by auto
      then show ?thesis using blk(5) by simp
    qed
    ultimately show "\<exists>s'. ?body k s = Some s' \<and> P (Suc k) s'" using blk by (simp add: P_def)
  qed simp
  then obtain q where q: "for_loop 0 ?N ?body (p, 0) = Some (q, ?a ?N)" "mp_bytes q = mp_bytes p" "mp_free_list q = Some 0"
    "mp_free_blocks q = n" "\<forall>i < ?N. mp_store q (?a i) = Some (Some (?a (Suc i)))" by (auto simp: P_def)
  let ?q' = "q\<lparr>mp_store := (mp_store q)(?a ?N := Some None)\<rparr>"
  have run: "link_blocks p b n = Some ?q'"
    using q(1,2) N ub [of ?N] n by (simp add: link_blocks_def store_link_def)
  have mid: "mp_store ?q' (?a i) = Some (Some (?a (Suc i)))" if "i < ?N" for i
    using that q(5) inj [of i ?N] n by simp
  have "linked ?q' (Some (?a k)) (map ?a [k..<unat n])" if "k \<le> ?N" for k using that
  proof (induction "?N - k" arbitrary: k)
    case 0
    then have "k = ?N" by simp
    moreover have "[?N..<unat n] = [?N]" using N(2) by (simp add: upt_conv_Cons)
    ultimately show ?case by (simp add: load_link_def)
  next
    case (Suc d)
    then have k: "k < ?N" by simp
    have "linked ?q' (Some (?a (Suc k))) (map ?a [Suc k..<unat n])" using Suc k by (intro Suc.hyps(1)) auto
    moreover have "[k..<unat n] = k # [Suc k..<unat n]" using k by (simp add: upt_conv_Cons)
    ultimately show ?case using mid [OF k] by (simp add: load_link_def)
  qed
  from this [of 0] have "linked ?q' (Some 0) (map ?a [0..<unat n])" by simp
  moreover have "distinct (map ?a [0..<unat n])" using inj by (auto simp: distinct_map inj_on_def)
  ultimately have "pool_stack ?q' (map ?a [0..<unat n])"
    using q ub by (auto simp: pool_stack_def)
  with run q(2) show ?thesis by (intro exI [of _ ?q']) simp
qed

lemma pool_init_stack:
  assumes sz: "8 \<le> unat b" and n: "0 < unat n" and fits: "unat b * unat n < 2 ^ 64"
  shows "\<exists>p. pool_init True True b n = Some (Some p) \<and> pool_stack p (map (\<lambda>i. of_nat i * b) [0..<unat n])"
proof -
  have "unat (b * n) = unat b * unat n" using fits by (simp add: unat_word_ariths)
  then show ?thesis
    unfolding pool_init_def using link_blocks_ok [OF sz n fits, of "\<lparr>mp_store = (\<lambda>_. None), mp_bytes = unat (b * n),
      mp_free_list = Some 0, mp_block_size = b, mp_total_blocks = n, mp_free_blocks = n\<rparr>"] by auto
qed

lemma pool_init_defined:
  assumes "8 \<le> unat b" "0 < unat n" "unat b * unat n < 2 ^ 64"
  shows "\<exists>p. pool_init pool_ok start_ok b n = Some p"
  using pool_init_stack [OF assms] by (cases "pool_ok \<and> start_ok") (auto simp: pool_init_def)

text \<open>C31: The pool is a stack of blocks. For blocks of at least 8 bytes, at least one of them, and a total size below \<open>2 ^ 64\<close>,
  \<open>pool_init\<close> returns a null pointer when one of its two calls of \<open>malloc\<close> fails, and otherwise a pool that holds the blocks in
  address order. An allocation from any well-formed pool pops the top block, or fails exactly when the stack is empty; freeing
  the popped block pushes it back, and the next allocation returns that block again. For no blocks at all the initialisation
  has no defined result: the count minus one wraps around and the links are written outside the memory.\<close>
theorem pool_is_stack:
  assumes sz: "8 \<le> unat b" and n: "0 < unat n" and fits: "unat b * unat n < 2 ^ 64"
  shows "(\<forall>start_ok. pool_init False start_ok b n = Some None) \<and> pool_init True False b n = Some None \<and>
    pool_init True True b 0 = None \<and>
    (\<exists>p. pool_init True True b n = Some (Some p) \<and> pool_stack p (map (\<lambda>i. of_nat i * b) [0..<unat n])) \<and>
    (\<forall>q xs. pool_stack q xs \<longrightarrow> (\<exists>q'. pool_alloc q = Some (q', if xs = [] then None else Some (hd xs)) \<and>
       pool_stack q' (tl xs) \<and>
       (xs \<noteq> [] \<longrightarrow> (\<exists>q''. pool_free q' (Some (hd xs)) = Some q'' \<and> pool_stack q'' xs))))"
proof -
  note p = pool_init_stack [OF sz n fits]
  have "\<exists>q'. pool_alloc q = Some (q', if xs = [] then None else Some (hd xs)) \<and> pool_stack q' (tl xs) \<and>
       (xs \<noteq> [] \<longrightarrow> (\<exists>q''. pool_free q' (Some (hd xs)) = Some q'' \<and> pool_stack q'' xs))" if st: "pool_stack q xs" for q xs
  proof -
    from pool_alloc_stack [OF st] obtain q' where q': "pool_alloc q = Some (q', if xs = [] then None else Some (hd xs))"
      "pool_stack q' (tl xs)" "mp_bytes q' = mp_bytes q" by blast
    have "\<exists>q''. pool_free q' (Some (hd xs)) = Some q'' \<and> pool_stack q'' xs" if ne: "xs \<noteq> []"
    proof -
      have "unat (mp_free_blocks q') + 1 = unat (mp_free_blocks q)"
        using q'(2) st ne by (simp add: pool_stack_def)
      then have "unat (mp_free_blocks q') + 1 < 2 ^ 64" using unat_size_t_less [of "mp_free_blocks q"] by simp
      moreover have "hd xs \<notin> set (tl xs)" "unat (hd xs) + 8 \<le> mp_bytes q'"
        using st ne q'(3) by (cases xs; auto simp: pool_stack_def)+
      ultimately show ?thesis using pool_free_stack [OF q'(2), of "hd xs"] ne by auto
    qed
    with q' show ?thesis by blast
  qed
  moreover have "pool_init True True b 0 = None" by (simp add: pool_init_def link_blocks_no_memory)
  ultimately show ?thesis using p by (simp add: pool_init_def)
qed

theorem pool_is_stack_witness:
  "\<exists>p. pool_init True True POOL_BLOCK_SIZE POOL_BLOCK_COUNT = Some (Some p) \<and>
    pool_stack p (map (\<lambda>i. of_nat i * POOL_BLOCK_SIZE) [0..<unat POOL_BLOCK_COUNT]) \<and>
    (\<exists>q. pool_alloc p = Some (q, Some 0))"
proof -
  have h: "8 \<le> unat POOL_BLOCK_SIZE" "0 < unat POOL_BLOCK_COUNT" "unat POOL_BLOCK_SIZE * unat POOL_BLOCK_COUNT < 2 ^ 64"
    by (simp_all add: POOL_BLOCK_SIZE_def POOL_BLOCK_COUNT_def)
  define xs where "xs = map (\<lambda>i. of_nat i * POOL_BLOCK_SIZE) [0..<unat POOL_BLOCK_COUNT]"
  have xs: "xs \<noteq> []" "hd xs = 0" using h(2) by (simp_all add: xs_def upt_conv_Cons)
  note all = pool_is_stack [OF h, folded xs_def]
  from all obtain p where p: "pool_init True True POOL_BLOCK_SIZE POOL_BLOCK_COUNT = Some (Some p)" "pool_stack p xs" by blast
  from all have "\<forall>q ys. pool_stack q ys \<longrightarrow> (\<exists>q'. pool_alloc q = Some (q', if ys = [] then None else Some (hd ys)))" by blast
  then have "\<exists>q. pool_alloc p = Some (q, if xs = [] then None else Some (hd xs))" using p(2) by simp
  with p show ?thesis unfolding xs_def [symmetric] using xs by simp
qed

text \<open>Destroying a pool that still has a free block frees a pointer into released memory.\<close>

lemma pool_destroy_undefined: "\<lbrakk>pool_stack p xs; xs \<noteq> []\<rbrakk> \<Longrightarrow> pool_destroy p = None"
  by (cases xs) (auto simp: pool_stack_def pool_destroy_def)

end
