(* ===== verification/File_Block_Lists.thy ===== *)
theory File_Block_Lists
  imports OS_Prelude
begin

section \<open>Free-list allocation of file blocks: d27 linked, indexed and dynamic allocation\<close>

text \<open>
  linked_allocations.c, indexed_allocation.c and dynamic_block_allocation.c hand out blocks from
  arrays used as stacks. \<open>block_stack\<close> is what they share: the blocks still available, in the
  order in which they will be handed out, and an allocation that takes the first of them.
  A pointer returned by \<open>malloc\<close> is a parameter of type \<open>bool\<close> telling whether it is non-null;
  a function returning \<open>NULL\<close> has the value \<open>Some None\<close>.
\<close>

subsection \<open>The interface\<close>

locale block_stack =
  fixes inv :: "'s \<Rightarrow> bool"
    and avail :: "'s \<Rightarrow> int list"
    and take_block :: "'s \<Rightarrow> ('s \<times> int option) option"
  assumes avail_distinct: "inv s \<Longrightarrow> distinct (avail s)"
    and take_empty: "\<lbrakk>inv s; avail s = []\<rbrakk> \<Longrightarrow> take_block s = Some (s, None)"
    and take_top: "\<lbrakk>inv s; avail s = b # bs\<rbrakk> \<Longrightarrow>
      \<exists>s'. take_block s = Some (s', Some b) \<and> inv s' \<and> avail s' = bs"
begin

primrec take_many :: "nat \<Rightarrow> 's \<Rightarrow> ('s \<times> int option list) option" where
  "take_many 0 s = Some (s, [])"
| "take_many (Suc n) s = do { (s', r) \<leftarrow> take_block s; (s'', rs) \<leftarrow> take_many n s'; Some (s'', r # rs) }"

text \<open>A run of requests is served in stack order; after the last block every request fails.\<close>

lemma take_many_eq:
  assumes "inv s"
  shows "\<exists>s'. take_many n s = Some (s', map Some (take n (avail s)) @ replicate (n - length (avail s)) None) \<and>
     inv s' \<and> avail s' = drop n (avail s)"
  using assms
proof (induction n arbitrary: s)
  case (Suc n)
  show ?case
  proof (cases "avail s")
    case Nil
    from Suc.IH [OF Suc.prems] Nil obtain s' where
      "take_many n s = Some (s', replicate n None)" "inv s'" "avail s' = []" by auto
    with take_empty [OF Suc.prems Nil] Nil show ?thesis by simp
  next
    case (Cons b bs)
    from take_top [OF Suc.prems Cons] obtain s1 where
      s1: "take_block s = Some (s1, Some b)" "inv s1" "avail s1 = bs" by blast
    from Suc.IH [OF s1(2)] s1 Cons show ?thesis by fastforce
  qed
qed simp

lemma no_block_twice:
  assumes "inv s" and "take_many n s = Some (s', rs)"
  shows "distinct (filter (\<lambda>r. r \<noteq> None) rs) \<and> set rs \<subseteq> insert None (Some ` set (avail s))"
proof -
  have rs: "rs = map Some (take n (avail s)) @ replicate (n - length (avail s)) None"
    using take_many_eq [OF assms(1), of n] assms(2) by auto
  have "filter (\<lambda>r. r \<noteq> None) rs = map Some (take n (avail s))"
    unfolding rs by (simp add: filter_empty_conv comp_def)
  moreover have "distinct (map Some (take n (avail s)))"
    using avail_distinct [OF assms(1)] by (simp add: distinct_map distinct_take)
  ultimately show ?thesis using rs set_take_subset [of n "avail s"] by auto
qed

end

text \<open>The stack inside an array: its top element is the one before index \<open>n\<close>.\<close>

lemma rev_take_Suc: "n < length xs \<Longrightarrow> rev (take (Suc n) xs) = xs ! n # rev (take n xs)"
  by (simp add: take_Suc_conv_app_nth)

definition stack_ok :: "int list \<Rightarrow> int \<Rightarrow> int \<Rightarrow> bool" where
  "stack_ok arr n tot \<longleftrightarrow> 0 \<le> n \<and> n \<le> tot \<and> length arr = nat tot \<and>
     distinct (take (nat n) arr) \<and> set (take (nat n) arr) \<subseteq> {0..<tot}"

definition stack_of :: "int list \<Rightarrow> int \<Rightarrow> int list" where
  "stack_of arr n = rev (take (nat n) arr)"

lemma stack_empty: "stack_ok arr n tot \<Longrightarrow> stack_of arr n = [] \<longleftrightarrow> n = 0"
  by (auto simp: stack_ok_def stack_of_def)

lemma stack_pop:
  assumes "stack_ok arr n tot" and "stack_of arr n = b # bs"
  shows "0 < n" and "rdi arr (n - 1) = Some b" and "0 \<le> b" and "b < tot"
    and "stack_ok arr (n - 1) tot" and "stack_of arr (n - 1) = bs"
proof -
  show pos: "0 < n" using stack_empty [OF assms(1)] assms by (auto simp: stack_ok_def)
  then obtain m where m: "nat n = Suc m" "nat (n - 1) = m" by (cases "nat n") (auto simp: nat_diff_distrib)
  have ml: "m < length arr" using assms(1) m by (auto simp: stack_ok_def)
  have b: "b = arr ! m" "bs = rev (take m arr)"
    using assms(2) rev_take_Suc [OF ml] by (auto simp: stack_of_def m)
  have in_range: "insert b (set (take m arr)) \<subseteq> {0..<tot}"
    using assms(1) ml b(1) by (simp add: stack_ok_def m take_Suc_conv_app_nth)
  then show "0 \<le> b" and "b < tot" by auto
  show "rdi arr (n - 1) = Some b" using ml b(1) pos by (simp add: m)
  show "stack_ok arr (n - 1) tot"
    using assms(1) in_range ml pos by (simp add: stack_ok_def m take_Suc_conv_app_nth)
  show "stack_of arr (n - 1) = bs" using b(2) by (simp add: stack_of_def m)
qed

lemma stack_initial:
  assumes "0 \<le> tot"
  shows "stack_ok (map int [0..<nat tot]) tot tot"
    and "stack_of (map int [0..<nat tot]) tot = map (\<lambda>i. tot - 1 - int i) [0..<nat tot]"
proof -
  show "stack_ok (map int [0..<nat tot]) tot tot"
    using assms by (auto simp: stack_ok_def distinct_map)
  show "stack_of (map int [0..<nat tot]) tot = map (\<lambda>i. tot - 1 - int i) [0..<nat tot]"
    using assms by (intro nth_equalityI) (auto simp: stack_of_def rev_nth)
qed

subsection \<open>Linked allocation\<close>

definition LA_BLOCK_SIZE :: nat where "LA_BLOCK_SIZE = 1024"

record linked_block =
  lb_block_num :: int
  lb_next_block :: int
  lb_data :: "8 word list"

record linked_allocator =
  la_disk_blocks :: "linked_block list"
  la_total_blocks :: int
  la_free_blocks :: int
  la_free_list :: "int list"

definition zero_linked_block :: linked_block where
  "zero_linked_block = \<lparr>lb_block_num = 0, lb_next_block = 0, lb_data = replicate LA_BLOCK_SIZE 0\<rparr>"

text \<open>\<open>raw\<close> is what \<open>malloc\<close> returned for the free list, its contents arbitrary.\<close>

definition init_linked_allocator ::
  "bool \<Rightarrow> bool \<Rightarrow> int list option \<Rightarrow> int \<Rightarrow> linked_allocator option option" where
  "init_linked_allocator allocator_ok blocks_ok raw total_blocks =
     (if \<not> allocator_ok then Some None
      else case raw of
        None \<Rightarrow> Some None
      | Some free_list \<Rightarrow>
          if \<not> blocks_ok then Some None
          else do {
            (fl, db) \<leftarrow> for_loop 0 (nat total_blocks) (\<lambda>i (fl, db). do {
               fl' \<leftarrow> wr fl i (int i);
               b \<leftarrow> rd db i;
               db' \<leftarrow> wr db i (b\<lparr>lb_next_block := -1\<rparr>);
               Some (fl', db') }) (free_list, replicate (nat total_blocks) zero_linked_block);
            Some (Some \<lparr>la_disk_blocks = db, la_total_blocks = total_blocks,
              la_free_blocks = total_blocks, la_free_list = fl\<rparr>) })"

definition allocate_linked_block ::
  "linked_allocator \<Rightarrow> int \<Rightarrow> (linked_allocator \<times> int) option" where
  "allocate_linked_block allocator previous_block =
     (if la_free_blocks allocator = 0 then Some (allocator, -1)
      else do {
        let free_blocks = la_free_blocks allocator - 1;
        new_block \<leftarrow> rdi (la_free_list allocator) free_blocks;
        db \<leftarrow> (if previous_block \<noteq> -1 then do {
            b \<leftarrow> rdi (la_disk_blocks allocator) previous_block;
            wri (la_disk_blocks allocator) previous_block (b\<lparr>lb_next_block := new_block\<rparr>) }
          else Some (la_disk_blocks allocator));
        b \<leftarrow> rdi db new_block;
        db' \<leftarrow> wri db new_block (b\<lparr>lb_block_num := new_block, lb_next_block := -1\<rparr>);
        Some (allocator\<lparr>la_disk_blocks := db', la_free_blocks := free_blocks\<rparr>, new_block) })"

definition linked_inv :: "linked_allocator \<Rightarrow> bool" where
  "linked_inv a \<longleftrightarrow> length (la_disk_blocks a) = nat (la_total_blocks a) \<and>
     stack_ok (la_free_list a) (la_free_blocks a) (la_total_blocks a)"

definition linked_avail :: "linked_allocator \<Rightarrow> int list" where
  "linked_avail a = stack_of (la_free_list a) (la_free_blocks a)"

lemma init_linked_allocator_eq:
  assumes "length raw = nat tot"
  shows "init_linked_allocator True True (Some raw) tot = Some (Some
    \<lparr>la_disk_blocks = replicate (nat tot) (zero_linked_block\<lparr>lb_next_block := -1\<rparr>),
     la_total_blocks = tot, la_free_blocks = tot, la_free_list = map int [0..<nat tot]\<rparr>)"
proof -
  let ?z = "zero_linked_block" and ?z' = "zero_linked_block\<lparr>lb_next_block := -1\<rparr>"
  define P where "P k = (\<lambda>(fl, db). fl = map int [0..<k] @ drop k raw \<and>
    db = replicate k ?z' @ replicate (nat tot - k) ?z)" for k
  have "\<exists>s. for_loop 0 (nat tot) (\<lambda>i (fl, db). do {
               fl' \<leftarrow> wr fl i (int i);
               b \<leftarrow> rd db i;
               db' \<leftarrow> wr db i (b\<lparr>lb_next_block := -1\<rparr>);
               Some (fl', db') }) (raw, replicate (nat tot) ?z) = Some s \<and> P (nat tot) s"
  proof (rule for_loop_invar)
    show "P 0 (raw, replicate (nat tot) ?z)" by (simp add: P_def)
  next
    fix i :: nat and s assume i: "i < nat tot" and P: "P i s"
    obtain fl db where s: "s = (fl, db)" by (cases s)
    have fl: "fl = map int [0..<i] @ raw ! i # drop (Suc i) raw"
      using P i assms by (simp add: P_def s Cons_nth_drop_Suc)
    obtain k where k: "nat tot - i = Suc k" "nat tot - Suc i = k" using i by (cases "nat tot - i") auto
    have db: "db = replicate i ?z' @ ?z # replicate k ?z" using P k by (simp add: P_def s)
    show "\<exists>s'. (case s of (fl, db) \<Rightarrow> do {
               fl' \<leftarrow> wr fl i (int i);
               b \<leftarrow> rd db i;
               db' \<leftarrow> wr db i (b\<lparr>lb_next_block := -1\<rparr>);
               Some (fl', db') }) = Some s' \<and> P (Suc i) s'"
      by (simp add: s fl db P_def k(2) list_update_append replicate_append_same nth_append)
  qed simp
  then show ?thesis using assms by (auto simp: init_linked_allocator_def P_def)
qed

definition linked_link :: "linked_block list \<Rightarrow> int \<Rightarrow> int \<Rightarrow> linked_block list" where
  "linked_link db prev b = (if prev \<noteq> -1 then db[nat prev := (db ! nat prev)\<lparr>lb_next_block := b\<rparr>] else db)"

lemma allocate_linked_top:
  assumes inv: "linked_inv a" and av: "linked_avail a = b # bs"
    and prev: "prev = -1 \<or> 0 \<le> prev \<and> prev < la_total_blocks a"
  defines "db \<equiv> linked_link (la_disk_blocks a) prev b"
  defines "a' \<equiv> a\<lparr>la_disk_blocks := db[nat b := (db ! nat b)\<lparr>lb_block_num := b, lb_next_block := -1\<rparr>],
    la_free_blocks := la_free_blocks a - 1\<rparr>"
  shows "allocate_linked_block a prev = Some (a', b)" and "linked_inv a'" and "linked_avail a' = bs"
    and "0 \<le> b" and "b < la_total_blocks a"
proof -
  have st: "stack_ok (la_free_list a) (la_free_blocks a) (la_total_blocks a)"
    and len: "length (la_disk_blocks a) = nat (la_total_blocks a)" using inv by (auto simp: linked_inv_def)
  note pop = stack_pop [OF st av [unfolded linked_avail_def]]
  show "0 \<le> b" and "b < la_total_blocks a" by (fact pop)+
  have "nat b < nat (la_total_blocks a)" using pop(3,4) by simp
  moreover have "prev \<noteq> -1 \<Longrightarrow> nat prev < nat (la_total_blocks a) \<and> 0 \<le> prev" using prev by auto
  ultimately show "allocate_linked_block a prev = Some (a', b)"
    using pop(1,2,3) len
    by (cases "prev = -1") (simp_all add: allocate_linked_block_def a'_def db_def linked_link_def)
  have "length db = length (la_disk_blocks a)" by (simp add: db_def linked_link_def)
  with len pop(5) show "linked_inv a'" by (simp add: linked_inv_def a'_def)
  show "linked_avail a' = bs" using pop(6) by (simp add: linked_avail_def a'_def)
qed

interpretation linked: block_stack linked_inv linked_avail
  "\<lambda>a. map_option (\<lambda>(a', b). (a', if b = -1 then None else Some b)) (allocate_linked_block a (-1))"
proof
  fix a assume inv: "linked_inv a"
  show "distinct (linked_avail a)"
    using inv by (simp add: linked_inv_def stack_ok_def linked_avail_def stack_of_def)
  { assume "linked_avail a = []"
    then have "la_free_blocks a = 0"
      using inv stack_empty by (auto simp: linked_avail_def linked_inv_def)
    then show "map_option (\<lambda>(a', b). (a', if b = -1 then None else Some b)) (allocate_linked_block a (-1)) = Some (a, None)"
      by (simp add: allocate_linked_block_def) }
  { fix b bs assume "linked_avail a = b # bs"
    from allocate_linked_top [OF inv this, of "-1"]
    show "\<exists>a'. map_option (\<lambda>(a', b). (a', if b = -1 then None else Some b)) (allocate_linked_block a (-1)) =
        Some (a', Some b) \<and> linked_inv a' \<and> linked_avail a' = bs" by auto }
qed

text \<open>A file that grows by \<open>n\<close> blocks, each linked behind the previous one, and its chain.\<close>

primrec extend_linked :: "nat \<Rightarrow> linked_allocator \<Rightarrow> int \<Rightarrow> (linked_allocator \<times> int list) option" where
  "extend_linked 0 allocator tail = Some (allocator, [])"
| "extend_linked (Suc n) allocator tail = do {
     (allocator', b) \<leftarrow> allocate_linked_block allocator tail;
     if b = -1 then Some (allocator', [])
     else do { (allocator'', bs) \<leftarrow> extend_linked n allocator' b; Some (allocator'', b # bs) } }"

fun linked_chain :: "linked_block list \<Rightarrow> int list \<Rightarrow> bool" where
  "linked_chain db [] = True"
| "linked_chain db [b] = (lb_next_block (db ! nat b) = -1)"
| "linked_chain db (b # c # cs) = (lb_next_block (db ! nat b) = c \<and> linked_chain db (c # cs))"

lemma extend_linked_chain:
  assumes "linked_inv a"
    and "prev = -1 \<or> 0 \<le> prev \<and> prev < la_total_blocks a \<and> prev \<notin> set (linked_avail a)"
  shows "\<exists>a'. extend_linked n a prev = Some (a', take n (linked_avail a)) \<and>
     linked_inv a' \<and> linked_avail a' = drop n (linked_avail a) \<and> la_total_blocks a' = la_total_blocks a \<and>
     linked_chain (la_disk_blocks a') (take n (linked_avail a)) \<and>
     (prev \<noteq> -1 \<and> take n (linked_avail a) \<noteq> [] \<longrightarrow>
        lb_next_block (la_disk_blocks a' ! nat prev) = hd (take n (linked_avail a))) \<and>
     (prev \<noteq> -1 \<and> take n (linked_avail a) = [] \<longrightarrow> la_disk_blocks a' ! nat prev = la_disk_blocks a ! nat prev) \<and>
     (\<forall>i. int i \<notin> set (take n (linked_avail a)) \<and> int i \<noteq> prev \<longrightarrow> la_disk_blocks a' ! i = la_disk_blocks a ! i)"
  using assms
proof (induction n arbitrary: a prev)
  case (Suc n)
  show ?case
  proof (cases "linked_avail a")
    case Nil
    then have "la_free_blocks a = 0"
      using Suc.prems(1) stack_empty by (auto simp: linked_avail_def linked_inv_def)
    with Nil Suc.prems show ?thesis by (simp add: allocate_linked_block_def)
  next
    case (Cons b bs)
    define db where "db = linked_link (la_disk_blocks a) prev b"
    define a1 where "a1 = a\<lparr>la_disk_blocks := db[nat b := (db ! nat b)\<lparr>lb_block_num := b, lb_next_block := -1\<rparr>],
      la_free_blocks := la_free_blocks a - 1\<rparr>"
    have pr: "prev = -1 \<or> 0 \<le> prev \<and> prev < la_total_blocks a" using Suc.prems(2) by auto
    note al = allocate_linked_top [OF Suc.prems(1) Cons pr, folded db_def, folded a1_def]
    have "distinct (b # bs)" using linked.avail_distinct [OF Suc.prems(1)] Cons by simp
    then have nb: "b \<notin> set bs" by simp
    have tot: "la_total_blocks a1 = la_total_blocks a" by (simp add: a1_def)
    have len: "length (la_disk_blocks a) = nat (la_total_blocks a)" using Suc.prems(1) by (simp add: linked_inv_def)
    have "b = -1 \<or> 0 \<le> b \<and> b < la_total_blocks a1 \<and> b \<notin> set (linked_avail a1)"
      using al(3,4,5) nb tot by simp
    from Suc.IH [OF al(2) this] al(3) obtain a' where
      a': "extend_linked n a1 b = Some (a', take n bs)" "linked_inv a'" "linked_avail a' = drop n bs"
        "la_total_blocks a' = la_total_blocks a1" "linked_chain (la_disk_blocks a') (take n bs)" and
      nxt: "b \<noteq> -1 \<and> take n bs \<noteq> [] \<longrightarrow> lb_next_block (la_disk_blocks a' ! nat b) = hd (take n bs)" and
      keep: "b \<noteq> -1 \<and> take n bs = [] \<longrightarrow> la_disk_blocks a' ! nat b = la_disk_blocks a1 ! nat b" and
      other: "\<forall>i. int i \<notin> set (take n bs) \<and> int i \<noteq> b \<longrightarrow> la_disk_blocks a' ! i = la_disk_blocks a1 ! i"
      by auto
    have b0: "b \<noteq> -1" "nat b < length db" using al(4,5) len by (auto simp: db_def linked_link_def)
    have chain: "linked_chain (la_disk_blocks a') (b # take n bs)"
    proof (cases "take n bs")
      case Nil
      with keep b0 have "lb_next_block (la_disk_blocks a' ! nat b) = -1" by (simp add: a1_def)
      with Nil show ?thesis by (simp only: linked_chain.simps)
    next
      case (Cons c cs)
      with nxt b0 have "lb_next_block (la_disk_blocks a' ! nat b) = c" by simp
      with Cons a'(5) show ?thesis by (simp only: linked_chain.simps)
    qed
    have sub: "set (take n bs) \<subseteq> set bs" by (rule set_take_subset)
    have pv: "lb_next_block (la_disk_blocks a' ! nat prev) = b" if "prev \<noteq> -1"
    proof -
      have p: "0 \<le> prev" "prev < la_total_blocks a" "prev \<notin> set bs" "prev \<noteq> b"
        using that Suc.prems(2) Cons by auto
      then have "int (nat prev) \<notin> set (take n bs) \<and> int (nat prev) \<noteq> b" using sub by auto
      then have "la_disk_blocks a' ! nat prev = la_disk_blocks a1 ! nat prev" using other by blast
      moreover have "nat b \<noteq> nat prev" using p al(4) by auto
      ultimately show ?thesis using that p len by (simp add: a1_def db_def linked_link_def)
    qed
    have rest: "la_disk_blocks a' ! i = la_disk_blocks a ! i"
      if "int i \<notin> set (b # take n bs)" "int i \<noteq> prev" for i
    proof -
      have "la_disk_blocks a' ! i = la_disk_blocks a1 ! i" using other that by simp
      moreover have "nat b \<noteq> i" "prev = -1 \<or> nat prev \<noteq> i" using that al(4) Suc.prems(2) by auto
      ultimately show ?thesis by (auto simp: a1_def db_def linked_link_def)
    qed
    have "extend_linked (Suc n) a prev = Some (a', b # take n bs)" using al(1) a'(1) b0(1) by simp
    moreover have "take (Suc n) (linked_avail a) = b # take n bs" "drop (Suc n) (linked_avail a) = drop n bs"
      using Cons by simp_all
    ultimately show ?thesis using a'(2,3,4) tot chain pv rest
      by (intro exI [of _ a'] conjI) simp_all
  qed
qed simp

text \<open>A file grown block by block with allocate\_linked\_block takes the blocks of the free stack from its top;
  following next\_block from its first block visits exactly those blocks, in the order of allocation, and
  ends with -1; no other block of the disk changes, and the free stack keeps the remaining blocks.\<close>
theorem linked_file_is_chain:
  assumes inv: "linked_inv a"
  shows "\<exists>a'. extend_linked n a (-1) = Some (a', take n (linked_avail a)) \<and>
     linked_inv a' \<and> linked_avail a' = drop n (linked_avail a) \<and>
     linked_chain (la_disk_blocks a') (take n (linked_avail a)) \<and> distinct (take n (linked_avail a)) \<and>
     (\<forall>i. int i \<notin> set (take n (linked_avail a)) \<longrightarrow> la_disk_blocks a' ! i = la_disk_blocks a ! i)"
  using extend_linked_chain [OF inv, of "-1" n] linked.avail_distinct [OF inv] by (auto simp: distinct_take)

definition linked_demo :: linked_allocator where
  "linked_demo = \<lparr>la_disk_blocks = replicate 3 \<lparr>lb_block_num = 0, lb_next_block = -1, lb_data = []\<rparr>,
     la_total_blocks = 3, la_free_blocks = 3, la_free_list = [0, 1, 2]\<rparr>"

theorem linked_file_is_chain_witness:
  "\<exists>a'. extend_linked 2 linked_demo (-1) = Some (a', [2, 1]) \<and> linked_chain (la_disk_blocks a') [2, 1]"
proof -
  have "linked_inv linked_demo" by (auto simp: linked_inv_def linked_demo_def stack_ok_def)
  moreover have "take 2 (linked_avail linked_demo) = [2, 1]"
    by (simp add: linked_avail_def linked_demo_def stack_of_def)
  ultimately show ?thesis using linked_file_is_chain [of linked_demo 2] by auto
qed

text \<open>The allocator starts with every block on the stack.\<close>

lemma linked_initial:
  assumes "0 \<le> tot" and "length raw = nat tot"
  shows "\<exists>a. init_linked_allocator True True (Some raw) tot = Some (Some a) \<and> linked_inv a \<and>
     linked_avail a = map (\<lambda>i. tot - 1 - int i) [0..<nat tot]"
  using stack_initial [OF assms(1)] assms(2)
  by (simp add: init_linked_allocator_eq linked_inv_def linked_avail_def)

text \<open>A request with a previous block outside the disk writes outside the array.\<close>

lemma linked_bad_previous:
  assumes "linked_inv a" and "la_free_blocks a \<noteq> 0" and "prev < -1 \<or> la_total_blocks a \<le> prev" and "0 \<le> la_total_blocks a"
  shows "allocate_linked_block a prev = None"
  using assms by (auto simp: allocate_linked_block_def rdi_def rd_def linked_inv_def Let_def)

subsection \<open>Indexed allocation\<close>

text \<open>The byte area \<open>disk_blocks\<close> is allocated (its size is computed in \<open>int\<close>) but never read or
  written, so it has no field.\<close>

definition INDEX_BLOCK_ENTRIES :: nat where "INDEX_BLOCK_ENTRIES = (1024 - 4) div 4"

record index_block =
  ib_num_entries :: int
  ib_block_pointers :: "int list"

record indexed_file =
  if_idx_block :: int
  if_name :: "char list"
  if_size :: size_t

record indexed_allocator =
  ia_idx_blocks :: "index_block list"
  ia_total_blocks :: int
  ia_free_blocks :: int
  ia_free_list :: "int list"

definition init_index_allocator ::
  "bool \<Rightarrow> bool \<Rightarrow> index_block list option \<Rightarrow> int list option \<Rightarrow> int \<Rightarrow> indexed_allocator option option" where
  "init_index_allocator allocator_ok disk_ok idx_raw list_raw total_blocks =
     (if \<not> allocator_ok then Some None
      else do {
        bytes \<leftarrow> chk (total_blocks * 1024);
        if \<not> disk_ok then Some None
        else case (idx_raw, list_raw) of
        (Some idx_blocks, Some free_list) \<Rightarrow> do {
          (fl, ib) \<leftarrow> for_loop 0 (nat total_blocks) (\<lambda>i (fl, ib). do {
             fl' \<leftarrow> wr fl i (int i);
             b \<leftarrow> rd ib i;
             ib' \<leftarrow> wr ib i (b\<lparr>ib_num_entries := 0\<rparr>);
             Some (fl', ib') }) (free_list, idx_blocks);
          Some (Some \<lparr>ia_idx_blocks = ib, ia_total_blocks = total_blocks,
            ia_free_blocks = total_blocks, ia_free_list = fl\<rparr>) }
        | _ \<Rightarrow> Some None })"

definition create_indexed_file ::
  "indexed_file option \<Rightarrow> indexed_allocator \<Rightarrow> string \<Rightarrow> (indexed_allocator \<times> indexed_file option) option" where
  "create_indexed_file raw allocator nm =
     (if ia_free_blocks allocator = 0 then Some (allocator, None)
      else case raw of
        None \<Rightarrow> Some (allocator, None)
      | Some file \<Rightarrow> do {
          let free_blocks = ia_free_blocks allocator - 1;
          idx \<leftarrow> rdi (ia_free_list allocator) free_blocks;
          let file' = \<lparr>if_idx_block = idx, if_name = c_strncpy (if_name file) nm 255, if_size = 0\<rparr>;
          b \<leftarrow> rdi (ia_idx_blocks allocator) idx;
          ib \<leftarrow> wri (ia_idx_blocks allocator) idx (b\<lparr>ib_num_entries := 0\<rparr>);
          Some (allocator\<lparr>ia_free_blocks := free_blocks, ia_idx_blocks := ib\<rparr>, Some file') })"

definition indexed_inv :: "indexed_allocator \<Rightarrow> bool" where
  "indexed_inv a \<longleftrightarrow> length (ia_idx_blocks a) = nat (ia_total_blocks a) \<and>
     stack_ok (ia_free_list a) (ia_free_blocks a) (ia_total_blocks a)"

definition indexed_avail :: "indexed_allocator \<Rightarrow> int list" where
  "indexed_avail a = stack_of (ia_free_list a) (ia_free_blocks a)"

lemma create_indexed_top:
  assumes inv: "indexed_inv a" and av: "indexed_avail a = b # bs"
  shows "\<exists>a'. create_indexed_file (Some file) a nm =
      Some (a', Some \<lparr>if_idx_block = b, if_name = c_strncpy (if_name file) nm 255, if_size = 0\<rparr>) \<and>
    indexed_inv a' \<and> indexed_avail a' = bs \<and> ib_num_entries (ia_idx_blocks a' ! nat b) = 0"
proof -
  have st: "stack_ok (ia_free_list a) (ia_free_blocks a) (ia_total_blocks a)"
    and len: "length (ia_idx_blocks a) = nat (ia_total_blocks a)" using inv by (auto simp: indexed_inv_def)
  note pop = stack_pop [OF st av [unfolded indexed_avail_def]]
  have "nat b < nat (ia_total_blocks a)" using pop(3,4) by simp
  then show ?thesis using pop len
    by (simp add: create_indexed_file_def indexed_inv_def indexed_avail_def)
qed

interpretation indexed: block_stack indexed_inv indexed_avail
  "\<lambda>a. map_option (\<lambda>(a', f). (a', map_option if_idx_block f))
     (create_indexed_file (Some \<lparr>if_idx_block = 0, if_name = [], if_size = 0\<rparr>) a nm)" for nm
proof
  fix a assume inv: "indexed_inv a"
  show "distinct (indexed_avail a)"
    using inv by (simp add: indexed_inv_def stack_ok_def indexed_avail_def stack_of_def)
  { assume "indexed_avail a = []"
    then have "ia_free_blocks a = 0"
      using inv stack_empty by (auto simp: indexed_avail_def indexed_inv_def)
    then show "map_option (\<lambda>(a', f). (a', map_option if_idx_block f))
        (create_indexed_file (Some \<lparr>if_idx_block = 0, if_name = [], if_size = 0\<rparr>) a nm) = Some (a, None)"
      by (simp add: create_indexed_file_def) }
  { fix b bs assume "indexed_avail a = b # bs"
    from create_indexed_top [OF inv this]
    show "\<exists>a'. map_option (\<lambda>(a', f). (a', map_option if_idx_block f))
        (create_indexed_file (Some \<lparr>if_idx_block = 0, if_name = [], if_size = 0\<rparr>) a nm) = Some (a', Some b) \<and>
        indexed_inv a' \<and> indexed_avail a' = bs" by fastforce }
qed

subsection \<open>Dynamic allocation\<close>

record dynamic_allocator =
  da_disk_blocks :: "int list"
  da_total_blocks :: int
  da_free_blocks :: int
  da_free_list :: "int list"
  da_free_count :: int
  da_recent :: "int list"
  da_recent_count :: int

definition init_dynamic_allocator ::
  "bool \<Rightarrow> bool \<Rightarrow> int list option \<Rightarrow> int list option \<Rightarrow> int \<Rightarrow> dynamic_allocator option option" where
  "init_dynamic_allocator allocator_ok disk_ok list_raw recent_raw total_blocks =
     (if \<not> allocator_ok \<or> \<not> disk_ok then Some None
      else case (list_raw, recent_raw) of
        (Some free_list, Some recent) \<Rightarrow> do {
          fl \<leftarrow> for_loop 0 (nat total_blocks) (\<lambda>i fl. wr fl i (int i)) free_list;
          Some (Some \<lparr>da_disk_blocks = replicate (nat total_blocks) 0, da_total_blocks = total_blocks,
            da_free_blocks = total_blocks, da_free_list = fl, da_free_count = total_blocks,
            da_recent = recent, da_recent_count = 0\<rparr>) }
      | _ \<Rightarrow> Some None)"

definition dynamic_take :: "dynamic_allocator \<Rightarrow> (dynamic_allocator \<times> int) option" where
  "dynamic_take a = do {
     (a1, b) \<leftarrow> (if 0 < da_recent_count a then do {
         let c = da_recent_count a - 1;
         b \<leftarrow> rdi (da_recent a) c;
         Some (a\<lparr>da_recent_count := c\<rparr>, b) }
       else do {
         let c = da_free_count a - 1;
         b \<leftarrow> rdi (da_free_list a) c;
         Some (a\<lparr>da_free_count := c\<rparr>, b) });
     db \<leftarrow> wri (da_disk_blocks a1) b 1;
     Some (a1\<lparr>da_disk_blocks := db, da_free_blocks := da_free_blocks a1 - 1\<rparr>, b) }"

definition allocate_blocks ::
  "int list option \<Rightarrow> dynamic_allocator \<Rightarrow> int \<Rightarrow> (dynamic_allocator \<times> int list option) option" where
  "allocate_blocks raw allocator count =
     (if da_free_blocks allocator < count then Some (allocator, None)
      else case raw of
        None \<Rightarrow> Some (allocator, None)
      | Some allocated \<Rightarrow> do {
          (allocator', al) \<leftarrow> for_loop 0 (nat count) (\<lambda>i (a, al). do {
             (a', b) \<leftarrow> dynamic_take a;
             al' \<leftarrow> wr al i b;
             Some (a', al') }) (allocator, allocated);
          Some (allocator', Some al) })"

definition dynamic_avail :: "dynamic_allocator \<Rightarrow> int list" where
  "dynamic_avail a = stack_of (da_recent a) (da_recent_count a) @ stack_of (da_free_list a) (da_free_count a)"

definition dynamic_inv :: "dynamic_allocator \<Rightarrow> bool" where
  "dynamic_inv a \<longleftrightarrow> length (da_disk_blocks a) = nat (da_total_blocks a) \<and>
     stack_ok (da_recent a) (da_recent_count a) (da_total_blocks a) \<and>
     stack_ok (da_free_list a) (da_free_count a) (da_total_blocks a) \<and>
     distinct (dynamic_avail a) \<and> da_free_blocks a = da_recent_count a + da_free_count a"

lemma length_stack_of: "stack_ok arr n tot \<Longrightarrow> int (length (stack_of arr n)) = n"
  by (auto simp: stack_ok_def stack_of_def min_def)

lemma dynamic_avail_length: "dynamic_inv a \<Longrightarrow> int (length (dynamic_avail a)) = da_free_blocks a"
  using length_stack_of [of "da_recent a" "da_recent_count a" "da_total_blocks a"]
    length_stack_of [of "da_free_list a" "da_free_count a" "da_total_blocks a"]
  unfolding dynamic_inv_def dynamic_avail_def by simp

lemma dynamic_take_top:
  assumes inv: "dynamic_inv a" and av: "dynamic_avail a = b # bs"
  shows "\<exists>a'. dynamic_take a = Some (a', b) \<and> dynamic_inv a' \<and> dynamic_avail a' = bs \<and>
    0 \<le> b \<and> b < da_total_blocks a \<and> da_total_blocks a' = da_total_blocks a \<and>
    da_disk_blocks a' = (da_disk_blocks a)[nat b := 1] \<and> da_free_blocks a' = da_free_blocks a - 1"
proof -
  have st: "stack_ok (da_recent a) (da_recent_count a) (da_total_blocks a)"
    "stack_ok (da_free_list a) (da_free_count a) (da_total_blocks a)"
    and len: "length (da_disk_blocks a) = nat (da_total_blocks a)"
    and dist: "distinct (b # bs)" using inv av by (simp_all add: dynamic_inv_def)
  show ?thesis
  proof (cases "0 < da_recent_count a")
    case True
    then obtain cs where cs: "stack_of (da_recent a) (da_recent_count a) = b # cs"
      "bs = cs @ stack_of (da_free_list a) (da_free_count a)"
      using av stack_empty [OF st(1)] by (cases "stack_of (da_recent a) (da_recent_count a)") (auto simp: dynamic_avail_def)
    note pop = stack_pop [OF st(1) cs(1)]
    have "nat b < nat (da_total_blocks a)" using pop(3,4) by simp
    then show ?thesis using True pop len st(2) inv cs(2) dist
      by (simp add: dynamic_take_def dynamic_inv_def dynamic_avail_def)
  next
    case False
    then have r0: "stack_of (da_recent a) (da_recent_count a) = []"
      using stack_empty [OF st(1)] st(1) by (auto simp: stack_ok_def)
    with av have cs: "stack_of (da_free_list a) (da_free_count a) = b # bs" by (simp add: dynamic_avail_def)
    note pop = stack_pop [OF st(2) cs]
    have "nat b < nat (da_total_blocks a)" using pop(3,4) by simp
    then show ?thesis using False pop len st(1) inv r0 dist
      by (simp add: dynamic_take_def dynamic_inv_def dynamic_avail_def)
  qed
qed

lemma dynamic_take_many:
  assumes inv: "dynamic_inv a" and len: "length raw = nat count" and n: "nat count \<le> length (dynamic_avail a)"
  shows "\<exists>a'. for_loop 0 (nat count) (\<lambda>i (a, al). do {
             (a', b) \<leftarrow> dynamic_take a; al' \<leftarrow> wr al i b; Some (a', al') }) (a, raw) =
      Some (a', take (nat count) (dynamic_avail a)) \<and> dynamic_inv a' \<and>
    dynamic_avail a' = drop (nat count) (dynamic_avail a) \<and> da_total_blocks a' = da_total_blocks a \<and>
    (\<forall>i. da_disk_blocks a' ! i =
       (if int i \<in> set (take (nat count) (dynamic_avail a)) then 1 else da_disk_blocks a ! i))"
    (is "\<exists>a'. ?loop = _ \<and> _")
proof -
  define av where "av = dynamic_avail a"
  define P where "P k = (\<lambda>(s, al). al = take k av @ drop k raw \<and> dynamic_inv s \<and> dynamic_avail s = drop k av \<and>
    da_total_blocks s = da_total_blocks a \<and>
    (\<forall>i. da_disk_blocks s ! i = (if int i \<in> set (take k av) then 1 else da_disk_blocks a ! i)))"
    for k :: nat
  have "\<exists>s. ?loop = Some s \<and> P (nat count) s"
  proof (rule for_loop_invar)
    show "P 0 (a, raw)" using inv by (simp add: P_def av_def)
  next
    fix i :: nat and t assume i: "i < nat count" and P: "P i t"
    obtain s al where t: "t = (s, al)" by (cases t)
    have ia: "i < length av" using i n by (simp add: av_def)
    then have dr: "dynamic_avail s = av ! i # drop (Suc i) av"
      using P by (simp add: P_def t Cons_nth_drop_Suc)
    have inv_s: "dynamic_inv s" using P by (simp add: P_def t)
    from dynamic_take_top [OF inv_s dr] obtain s' where
      s': "dynamic_take s = Some (s', av ! i)" "dynamic_inv s'" "dynamic_avail s' = drop (Suc i) av"
        "0 \<le> av ! i" "av ! i < da_total_blocks s" "da_total_blocks s' = da_total_blocks s"
        "da_disk_blocks s' = (da_disk_blocks s)[nat (av ! i) := 1]" by blast
    have lr: "i < length raw" using i len by simp
    have al: "al = take i av @ raw ! i # drop (Suc i) raw"
      using P lr by (simp add: P_def t Cons_nth_drop_Suc)
    have "i < length al" using ia lr unfolding al by simp
    moreover have "al[i := av ! i] = take (Suc i) av @ drop (Suc i) raw"
      using ia unfolding al by (simp add: list_update_append take_Suc_conv_app_nth)
    moreover have "da_disk_blocks s' ! j = (if int j \<in> set (take (Suc i) av) then 1 else da_disk_blocks a ! j)" for j
    proof (cases "int j = av ! i")
      case True
      then have "nat (av ! i) = j" "j < length (da_disk_blocks s)"
        using s'(5) inv_s by (auto simp: dynamic_inv_def)
      with True ia s'(7) show ?thesis by (simp add: take_Suc_conv_app_nth)
    next
      case False
      then have "nat (av ! i) \<noteq> j" using s'(4) by auto
      with False P ia s'(7) show ?thesis by (simp add: P_def t take_Suc_conv_app_nth)
    qed
    ultimately show "\<exists>t'. (case t of (a, al) \<Rightarrow> do {
             (a', b) \<leftarrow> dynamic_take a; al' \<leftarrow> wr al i b; Some (a', al') }) = Some t' \<and> P (Suc i) t'"
      using s' P by (simp add: t P_def)
  qed simp
  then show ?thesis using len by (auto simp: P_def av_def)
qed

interpretation dynamic: block_stack dynamic_inv dynamic_avail
  "\<lambda>a. map_option (\<lambda>(a', r). (a', map_option hd r)) (allocate_blocks (Some [0]) a 1)"
proof
  fix a assume inv: "dynamic_inv a"
  show "distinct (dynamic_avail a)" using inv by (simp add: dynamic_inv_def)
  { assume "dynamic_avail a = []"
    then have "da_free_blocks a = 0" using dynamic_avail_length [OF inv] by simp
    then show "map_option (\<lambda>(a', r). (a', map_option hd r)) (allocate_blocks (Some [0]) a 1) = Some (a, None)"
      by (simp add: allocate_blocks_def) }
  { fix b bs assume av: "dynamic_avail a = b # bs"
    then have "1 \<le> da_free_blocks a" using dynamic_avail_length [OF inv] by simp
    with dynamic_take_many [OF inv, of "[0]" 1] av
    show "\<exists>a'. map_option (\<lambda>(a', r). (a', map_option hd r)) (allocate_blocks (Some [0]) a 1) = Some (a', Some b) \<and>
        dynamic_inv a' \<and> dynamic_avail a' = bs" by (auto simp: allocate_blocks_def) }
qed

text \<open>A request for \<open>count\<close> blocks is granted exactly when at most that many blocks are free. It returns
  the recently freed blocks, last freed first, before those of the free list; the blocks returned are
  marked on the disk and no others, the free count drops by \<open>count\<close>, and the rest stays available.\<close>
theorem dynamic_prefers_recent:
  assumes inv: "dynamic_inv a" and count: "0 \<le> count" and raw: "length raw = nat count"
  shows "if count \<le> da_free_blocks a
    then \<exists>a'. allocate_blocks (Some raw) a count = Some (a', Some (take (nat count) (dynamic_avail a))) \<and>
      length (take (nat count) (dynamic_avail a)) = nat count \<and>
      dynamic_inv a' \<and> dynamic_avail a' = drop (nat count) (dynamic_avail a) \<and>
      da_free_blocks a' = da_free_blocks a - count \<and>
      (\<forall>i. da_disk_blocks a' ! i =
        (if int i \<in> set (take (nat count) (dynamic_avail a)) then 1 else da_disk_blocks a ! i))
    else allocate_blocks (Some raw) a count = Some (a, None)"
proof (cases "count \<le> da_free_blocks a")
  case True
  then have n: "nat count \<le> length (dynamic_avail a)" using dynamic_avail_length [OF inv] by simp
  from dynamic_take_many [OF inv raw n] obtain a' where
    a': "allocate_blocks (Some raw) a count = Some (a', Some (take (nat count) (dynamic_avail a)))"
      "dynamic_inv a'" "dynamic_avail a' = drop (nat count) (dynamic_avail a)"
      "\<forall>i. da_disk_blocks a' ! i =
        (if int i \<in> set (take (nat count) (dynamic_avail a)) then 1 else da_disk_blocks a ! i)"
    using True by (auto simp: allocate_blocks_def)
  have "da_free_blocks a' = da_free_blocks a - count"
    using dynamic_avail_length [OF a'(2)] dynamic_avail_length [OF inv] a'(3) n count by simp
  with a' True n show ?thesis by (simp add: min_def)
next
  case False
  then show ?thesis by (simp add: allocate_blocks_def)
qed

definition dynamic_demo :: dynamic_allocator where
  "dynamic_demo = \<lparr>da_disk_blocks = [0, 0, 0, 1], da_total_blocks = 4, da_free_blocks = 3,
     da_free_list = [0, 1, 2, 3], da_free_count = 2, da_recent = [2, 0, 0, 0], da_recent_count = 1\<rparr>"

theorem dynamic_prefers_recent_witness:
  "\<exists>a'. allocate_blocks (Some [7, 7]) dynamic_demo 2 = Some (a', Some [2, 1]) \<and> da_free_blocks a' = 1"
proof -
  have "dynamic_inv dynamic_demo"
    by (auto simp: dynamic_inv_def dynamic_demo_def stack_ok_def stack_of_def dynamic_avail_def take_Cons' numeral_2_eq_2)
  from dynamic_prefers_recent [OF this, of 2 "[7, 7]"]
  show ?thesis by (auto simp: dynamic_demo_def dynamic_avail_def stack_of_def take_Cons' numeral_2_eq_2)
qed

end
