(* ===== verification/File_Block_Runs.thy ===== *)
theory File_Block_Runs
  imports OS_Prelude
begin

section \<open>Runs of file blocks: d27 contiguous and extent allocation\<close>

text \<open>
  contiguous_allocation.c and extent_based_allocation.c scan the block array with the same loop:
  the length of the current run of free blocks and its start, leaving at the first run that is long
  enough. The interface \<open>run_allocator\<close> states what such a scan promises, for both.
\<close>

subsection \<open>The scan\<close>

function run_scan :: "int list \<Rightarrow> int \<Rightarrow> int \<Rightarrow> int \<Rightarrow> int \<Rightarrow> int \<Rightarrow> (int \<times> int) option option" where
  "run_scan disk tot needed i cur start =
     (if i < tot then do {
        v \<leftarrow> rdi disk i;
        if v = 0 then
          let start' = (if cur = 0 then i else start); cur' = cur + 1
          in if cur' = needed then Some (Some (start', cur'))
             else run_scan disk tot needed (i + 1) cur' start'
        else run_scan disk tot needed (i + 1) 0 start }
      else Some None)"
  by pat_completeness auto
termination by (relation "measure (\<lambda>(disk, tot, needed, i, cur, start). nat (tot - i))") auto

declare run_scan.simps [simp del]

definition mark_blocks :: "int list \<Rightarrow> int \<Rightarrow> int \<Rightarrow> int list option" where
  "mark_blocks disk start n =
     for_loop (nat start) (nat (start + n)) (\<lambda>j d. wr d j 1) disk"

definition free_run :: "int list \<Rightarrow> int \<Rightarrow> int \<Rightarrow> int \<Rightarrow> bool" where
  "free_run disk tot s n \<longleftrightarrow> 0 \<le> s \<and> s + n \<le> tot \<and> (\<forall>j. s \<le> j \<and> j < s + n \<longrightarrow> disk ! nat j = 0)"

lemma run_scan_correct:
  assumes len: "length disk = nat tot" and i: "0 \<le> i" "i \<le> tot" "0 \<le> cur" "cur \<le> i"
    and run: "\<forall>j. i - cur \<le> j \<and> j < i \<longrightarrow> disk ! nat j = 0"
    and start: "0 < cur \<Longrightarrow> start = i - cur"
    and edge: "cur = i \<or> disk ! nat (i - cur - 1) \<noteq> 0"
    and fewer: "0 < needed \<Longrightarrow> cur < needed"
    and none: "\<forall>s. 0 \<le> s \<and> s + needed \<le> i \<longrightarrow> \<not> free_run disk tot s needed \<or> needed \<le> 0"
  shows "\<exists>r. run_scan disk tot needed i cur start = Some r \<and>
    (case r of
       None \<Rightarrow> needed \<le> 0 \<or> (\<forall>s. \<not> free_run disk tot s needed)
     | Some (s, n) \<Rightarrow> n = needed \<and> 0 < needed \<and> free_run disk tot s needed \<and>
         (\<forall>s'. s' < s \<longrightarrow> \<not> free_run disk tot s' needed))"
  using assms
proof (induction disk tot needed i cur start rule: run_scan.induct)
  case (1 disk tot needed i cur start)
  note prems = "1.prems"
  show ?case
  proof (cases "i < tot")
    case False
    then have "i = tot" using prems by simp
    then have "needed \<le> 0 \<or> (\<forall>s. \<not> free_run disk tot s needed)"
      using prems(10) by (auto simp: free_run_def)
    with False show ?thesis by (subst run_scan.simps) simp
  next
    case True
    have rd: "rdi disk i = Some (disk ! nat i)" using True prems(1,2) by simp
    show ?thesis
    proof (cases "disk ! nat i = 0")
      case free: True
      define start' where "start' = (if cur = 0 then i else start)"
      have s': "start' = i - cur" using prems(7) prems(4) by (auto simp: start'_def)
      have run': "\<forall>j. i + 1 - (cur + 1) \<le> j \<and> j < i + 1 \<longrightarrow> disk ! nat j = 0"
      proof (intro allI impI)
        fix j assume j: "i + 1 - (cur + 1) \<le> j \<and> j < i + 1"
        show "disk ! nat j = 0"
        proof (cases "j = i")
          case False
          with j prems(6) show ?thesis by simp
        qed (simp add: free)
      qed
      have edge': "cur + 1 = i + 1 \<or> disk ! nat (i + 1 - (cur + 1) - 1) \<noteq> 0" using prems(8) by simp
      show ?thesis
      proof (cases "cur + 1 = needed")
        case hit: True
        have "free_run disk tot start' needed"
          using run' s' hit True prems(5) by (simp add: free_run_def)
        moreover have "\<not> free_run disk tot s' needed" if "s' < start'" for s'
        proof
          assume fr: "free_run disk tot s' needed"
          show False
          proof (cases "s' + needed \<le> i")
            case True
            with fr prems(10,4) hit show False by (auto simp: free_run_def)
          next
            case False
            have "s' \<le> i - cur - 1" "i - cur - 1 < s' + needed" using that s' False hit by simp_all
            then have "disk ! nat (i - cur - 1) = 0" using fr by (simp add: free_run_def)
            moreover have "cur \<noteq> i" using that s' fr by (auto simp: free_run_def)
            ultimately show False using prems(8) by simp
          qed
        qed
        ultimately show ?thesis
          using True rd free hit prems(4) by (subst run_scan.simps) (simp add: Let_def start'_def)
      next
        case miss: False
        have none': "\<forall>s. 0 \<le> s \<and> s + needed \<le> i + 1 \<longrightarrow> \<not> free_run disk tot s needed \<or> needed \<le> 0"
        proof (intro allI impI)
          fix s assume s: "0 \<le> s \<and> s + needed \<le> i + 1"
          show "\<not> free_run disk tot s needed \<or> needed \<le> 0"
          proof (cases "s + needed \<le> i \<or> needed \<le> 0")
            case True
            with s prems(10) show ?thesis by auto
          next
            case False
            have "cur + 1 < needed" using False prems(9) miss by simp
            then have b: "s \<le> i - cur - 1" "i - cur - 1 < s + needed" using s False prems(4) by simp_all
            have "cur \<noteq> i" using s False \<open>cur + 1 < needed\<close> by auto
            then have "disk ! nat (i - cur - 1) \<noteq> 0" using prems(8) by simp
            with b have "\<not> free_run disk tot s needed" unfolding free_run_def by blast
            then show ?thesis ..
          qed
        qed
        have "\<exists>r. run_scan disk tot needed (i + 1) (cur + 1) start' = Some r \<and>
            (case r of
               None \<Rightarrow> needed \<le> 0 \<or> (\<forall>s. \<not> free_run disk tot s needed)
             | Some (s, n) \<Rightarrow> n = needed \<and> 0 < needed \<and> free_run disk tot s needed \<and>
                 (\<forall>s'. s' < s \<longrightarrow> \<not> free_run disk tot s' needed))"
          by (rule "1.IH"(1) [OF True rd free start'_def refl miss])
            (use True prems run' edge' none' s' miss in auto)
        then show ?thesis
          using True rd free miss by (subst run_scan.simps) (simp add: Let_def start'_def)
      qed
    next
      case taken: False
      have none': "\<forall>s. 0 \<le> s \<and> s + needed \<le> i + 1 \<longrightarrow> \<not> free_run disk tot s needed \<or> needed \<le> 0"
      proof (intro allI impI)
        fix s assume s: "0 \<le> s \<and> s + needed \<le> i + 1"
        show "\<not> free_run disk tot s needed \<or> needed \<le> 0"
        proof (cases "s + needed \<le> i \<or> needed \<le> 0")
          case True
          with s prems(10) show ?thesis by auto
        next
          case False
          with s have "s \<le> i" "i < s + needed" by simp_all
          with taken have "\<not> free_run disk tot s needed" unfolding free_run_def by blast
          then show ?thesis ..
        qed
      qed
      have "\<exists>r. run_scan disk tot needed (i + 1) 0 start = Some r \<and>
            (case r of
               None \<Rightarrow> needed \<le> 0 \<or> (\<forall>s. \<not> free_run disk tot s needed)
             | Some (s, n) \<Rightarrow> n = needed \<and> 0 < needed \<and> free_run disk tot s needed \<and>
                 (\<forall>s'. s' < s \<longrightarrow> \<not> free_run disk tot s' needed))"
        by (rule "1.IH"(2) [OF True rd taken]) (use True prems taken none' in auto)
      then show ?thesis
        using True rd taken by (subst run_scan.simps) simp
    qed
  qed
qed

lemma run_scan_leftmost:
  assumes "length disk = nat tot" and "0 \<le> tot"
  shows "\<exists>r. run_scan disk tot needed 0 0 (-1) = Some r \<and>
    (case r of
       None \<Rightarrow> needed \<le> 0 \<or> (\<forall>s. \<not> free_run disk tot s needed)
     | Some (s, n) \<Rightarrow> n = needed \<and> 0 < needed \<and> free_run disk tot s needed \<and>
         (\<forall>s'. s' < s \<longrightarrow> \<not> free_run disk tot s' needed))"
  by (rule run_scan_correct) (use assms in auto)

lemma mark_blocks_eq:
  assumes "length disk = nat tot" and "free_run disk tot s n" and "0 \<le> n"
  shows "\<exists>d. mark_blocks disk s n = Some d \<and> length d = nat tot \<and>
    (\<forall>j. d ! j = (if s \<le> int j \<and> int j < s + n then 1 else disk ! j))"
proof -
  have b: "0 \<le> s" "s + n \<le> tot" using assms(2) by (auto simp: free_run_def)
  define P where "P k d \<longleftrightarrow> length d = nat tot \<and>
    (\<forall>j. d ! j = (if nat s \<le> j \<and> j < k then 1 else disk ! j))" for k :: nat and d :: "int list"
  have "\<exists>d. for_loop (nat s) (nat (s + n)) (\<lambda>j d. wr d j 1) disk = Some d \<and> P (nat (s + n)) d"
  proof (rule for_loop_invar)
    show "nat s \<le> nat (s + n)" using b assms(3) by simp
    show "P (nat s) disk" using assms(1) by (auto simp: P_def)
  next
    fix i d assume i: "nat s \<le> i" "i < nat (s + n)" and P: "P i d"
    have il: "i < length d" using i b P by (simp add: P_def)
    have "P (Suc i) (d[i := 1])" using P il i unfolding P_def by (auto simp: nth_list_update less_Suc_eq)
    with il show "\<exists>d'. wr d i 1 = Some d' \<and> P (Suc i) d'" by simp
  qed
  then obtain d where "mark_blocks disk s n = Some d" "P (nat (s + n)) d" by (auto simp: mark_blocks_def)
  moreover have "nat s \<le> j \<and> j < nat (s + n) \<longleftrightarrow> s \<le> int j \<and> int j < s + n" for j using b by auto
  ultimately show ?thesis by (auto simp: P_def)
qed

definition zero_blocks :: "int list \<Rightarrow> int \<Rightarrow> int set" where
  "zero_blocks disk tot = {j. 0 \<le> j \<and> j < tot \<and> disk ! nat j = 0}"

lemma zero_blocks_marked:
  assumes "free_run disk tot s n" and "0 \<le> n"
    and d: "\<forall>j. d ! j = (if s \<le> int j \<and> int j < s + n then 1 else disk ! j)"
  shows "zero_blocks d tot = zero_blocks disk tot - {s..<s + n}" and "{s..<s + n} \<subseteq> zero_blocks disk tot"
    and "int (card (zero_blocks d tot)) = int (card (zero_blocks disk tot)) - n"
proof -
  show sub: "{s..<s + n} \<subseteq> zero_blocks disk tot" using assms(1) by (auto simp: zero_blocks_def free_run_def)
  show eq: "zero_blocks d tot = zero_blocks disk tot - {s..<s + n}" using d by (auto simp: zero_blocks_def)
  have "finite (zero_blocks disk tot)"
    by (rule finite_subset [of _ "{0..<tot}"]) (auto simp: zero_blocks_def)
  then have "card (zero_blocks d tot) = card (zero_blocks disk tot) - card {s..<s + n}"
    and "card {s..<s + n} \<le> card (zero_blocks disk tot)"
    unfolding eq using sub by (simp add: card_Diff_subset finite_subset, metis card_mono)
  then show "int (card (zero_blocks d tot)) = int (card (zero_blocks disk tot)) - n" using assms(2) by simp
qed

subsection \<open>The interface\<close>

text \<open>
  \<open>free\<close>: the free blocks. A request takes the leftmost run of free blocks that is long enough, and
  fails, changing nothing, when there is none.
\<close>

definition fits_at :: "int set \<Rightarrow> int \<Rightarrow> int \<Rightarrow> bool" where
  "fits_at F n s \<longleftrightarrow> {s..<s + n} \<subseteq> F"

locale run_allocator =
  fixes inv :: "'s \<Rightarrow> bool"
    and free :: "'s \<Rightarrow> int set"
    and alloc :: "'s \<Rightarrow> int \<Rightarrow> ('s \<times> int option) option"
  assumes alloc_fits: "\<lbrakk>inv s; 0 < n; fits_at (free s) n a; \<forall>b < a. \<not> fits_at (free s) n b\<rbrakk> \<Longrightarrow>
      \<exists>s'. alloc s n = Some (s', Some a) \<and> inv s' \<and> free s' = free s - {a..<a + n}"
    and alloc_none: "\<lbrakk>inv s; n \<le> 0 \<or> (\<forall>b. \<not> fits_at (free s) n b)\<rbrakk> \<Longrightarrow> alloc s n = Some (s, None)"
    and free_bounded: "inv s \<Longrightarrow> \<forall>j \<in> free s. 0 \<le> j"
begin

lemma leftmost_exists:
  assumes "inv s" and "0 < n" and "fits_at (free s) n b"
  shows "\<exists>a. fits_at (free s) n a \<and> (\<forall>b < a. \<not> fits_at (free s) n b)"
proof -
  have nonneg: "0 \<le> c" if "fits_at (free s) n c" for c
  proof -
    have "c \<in> free s" using that assms(2) by (auto simp: fits_at_def)
    with free_bounded [OF assms(1)] show ?thesis by blast
  qed
  define a where "a = int (LEAST k. fits_at (free s) n (int k))"
  have "fits_at (free s) n (int (nat b))" using assms(3) nonneg by simp
  then have fa: "fits_at (free s) n a" unfolding a_def by (rule LeastI)
  moreover have "\<not> fits_at (free s) n c" if "c < a" for c
  proof
    assume c: "fits_at (free s) n c"
    then have "fits_at (free s) n (int (nat c))" using nonneg by simp
    then have "(LEAST k. fits_at (free s) n (int k)) \<le> nat c" by (rule Least_le)
    with that nonneg [OF c] show False by (simp add: a_def)
  qed
  ultimately show ?thesis by blast
qed

lemma alloc_total:
  assumes "inv s"
  shows "\<exists>s' r. alloc s n = Some (s', r) \<and> inv s' \<and>
    (case r of
       None \<Rightarrow> s' = s \<and> (0 < n \<longrightarrow> (\<forall>b. \<not> fits_at (free s) n b))
     | Some a \<Rightarrow> 0 < n \<and> fits_at (free s) n a \<and> (\<forall>b < a. \<not> fits_at (free s) n b) \<and>
         free s' = free s - {a..<a + n})"
proof (cases "0 < n \<and> (\<exists>b. fits_at (free s) n b)")
  case True
  then obtain a where a: "fits_at (free s) n a" "\<forall>b < a. \<not> fits_at (free s) n b"
    using leftmost_exists [OF assms] by blast
  with alloc_fits [OF assms _ a] True obtain s' where
    "alloc s n = Some (s', Some a)" "inv s'" "free s' = free s - {a..<a + n}" by blast
  with a True show ?thesis by (intro exI [of _ s'] exI [of _ "Some a"]) simp
next
  case False
  then have "n \<le> 0 \<or> (\<forall>b. \<not> fits_at (free s) n b)" by auto
  with alloc_none [OF assms this] assms show ?thesis by auto
qed

text \<open>Two allocations never overlap.\<close>

lemma alloc_disjoint:
  assumes "inv s" and 1: "alloc s n = Some (s1, Some a)" and 2: "alloc s1 m = Some (s2, Some b)"
  shows "{a..<a + n} \<inter> {b..<b + m} = {}"
proof -
  from alloc_total [OF assms(1), of n] 1 have s1: "inv s1" "free s1 = free s - {a..<a + n}" by auto
  from alloc_total [OF s1(1), of m] 2 have "{b..<b + m} \<subseteq> free s1" by (auto simp: fits_at_def)
  with s1(2) show ?thesis by blast
qed

end

lemma free_run_fits: "0 < n \<Longrightarrow> free_run disk tot s n \<longleftrightarrow> fits_at (zero_blocks disk tot) n s"
proof -
  assume n: "0 < n"
  show ?thesis
  proof
    assume "fits_at (zero_blocks disk tot) n s"
    then have sub: "{s..<s + n} \<subseteq> zero_blocks disk tot" by (simp add: fits_at_def)
    have "s \<in> zero_blocks disk tot" "s + n - 1 \<in> zero_blocks disk tot" using sub n by auto
    with sub show "free_run disk tot s n" by (auto simp: free_run_def zero_blocks_def)
  qed (auto simp: free_run_def fits_at_def zero_blocks_def)
qed

lemma run_scan_eq:
  assumes "length disk = nat tot" and "0 \<le> tot"
  shows "0 < n \<Longrightarrow> fits_at (zero_blocks disk tot) n a \<Longrightarrow> \<forall>b < a. \<not> fits_at (zero_blocks disk tot) n b \<Longrightarrow>
      run_scan disk tot n 0 0 (-1) = Some (Some (a, n))"
    and "n \<le> 0 \<or> (\<forall>b. \<not> fits_at (zero_blocks disk tot) n b) \<Longrightarrow> run_scan disk tot n 0 0 (-1) = Some None"
proof -
  from run_scan_leftmost [OF assms, of n] obtain r where r: "run_scan disk tot n 0 0 (-1) = Some r"
    "case r of None \<Rightarrow> n \<le> 0 \<or> (\<forall>s. \<not> free_run disk tot s n)
     | Some (s, k) \<Rightarrow> k = n \<and> 0 < n \<and> free_run disk tot s n \<and> (\<forall>s'. s' < s \<longrightarrow> \<not> free_run disk tot s' n)" by blast
  { assume a: "0 < n" "fits_at (zero_blocks disk tot) n a" "\<forall>b < a. \<not> fits_at (zero_blocks disk tot) n b"
    then obtain s where s: "r = Some (s, n)" "fits_at (zero_blocks disk tot) n s" "\<forall>s' < s. \<not> fits_at (zero_blocks disk tot) n s'"
      using r(2) free_run_fits [OF a(1)] by (auto split: option.splits)
    have "s = a" using s(2,3) a(2,3) by (meson linorder_neqE)
    with r(1) s(1) show "run_scan disk tot n 0 0 (-1) = Some (Some (a, n))" by simp }
  { assume "n \<le> 0 \<or> (\<forall>b. \<not> fits_at (zero_blocks disk tot) n b)"
    then have "r = None" using r(2) free_run_fits [of n disk tot] by (cases r) auto
    with r(1) show "run_scan disk tot n 0 0 (-1) = Some None" by simp }
qed

subsection \<open>Contiguous allocation\<close>

record contiguous_allocator =
  ca_disk_blocks :: "int list"
  ca_total_blocks :: int
  ca_free_blocks :: int

definition init_contiguous_allocator :: "bool \<Rightarrow> bool \<Rightarrow> int \<Rightarrow> contiguous_allocator option" where
  "init_contiguous_allocator allocator_ok blocks_ok total_blocks =
     (if \<not> allocator_ok then None
      else if \<not> blocks_ok then None
      else Some \<lparr>ca_disk_blocks = replicate (nat total_blocks) 0, ca_total_blocks = total_blocks,
        ca_free_blocks = total_blocks\<rparr>)"

definition allocate_contiguous :: "contiguous_allocator \<Rightarrow> int \<Rightarrow> (contiguous_allocator \<times> int) option" where
  "allocate_contiguous allocator blocks_needed = do {
     r \<leftarrow> run_scan (ca_disk_blocks allocator) (ca_total_blocks allocator) blocks_needed 0 0 (-1);
     (case r of
        None \<Rightarrow> Some (allocator, -1)
      | Some (start, n) \<Rightarrow> do {
          d \<leftarrow> mark_blocks (ca_disk_blocks allocator) start blocks_needed;
          Some (allocator\<lparr>ca_disk_blocks := d, ca_free_blocks := ca_free_blocks allocator - blocks_needed\<rparr>, start) }) }"

definition contiguous_free :: "contiguous_allocator \<Rightarrow> int set" where
  "contiguous_free a = zero_blocks (ca_disk_blocks a) (ca_total_blocks a)"

definition contiguous_inv :: "contiguous_allocator \<Rightarrow> bool" where
  "contiguous_inv a \<longleftrightarrow> 0 \<le> ca_total_blocks a \<and> length (ca_disk_blocks a) = nat (ca_total_blocks a) \<and>
     ca_free_blocks a = int (card (contiguous_free a))"

interpretation contiguous: run_allocator contiguous_inv contiguous_free
  "\<lambda>a n. map_option (\<lambda>(a', s). (a', if s = -1 then None else Some s)) (allocate_contiguous a n)"
proof
  fix a n s
  assume inv: "contiguous_inv a"
  have len: "length (ca_disk_blocks a) = nat (ca_total_blocks a)" "0 \<le> ca_total_blocks a"
    using inv by (simp_all add: contiguous_inv_def)
  show "\<forall>j \<in> contiguous_free a. 0 \<le> j" by (simp add: contiguous_free_def zero_blocks_def)
  { assume "n \<le> 0 \<or> (\<forall>b. \<not> fits_at (contiguous_free a) n b)"
    then show "map_option (\<lambda>(a', s). (a', if s = -1 then None else Some s)) (allocate_contiguous a n) = Some (a, None)"
      using run_scan_eq(2) [OF len] by (simp add: allocate_contiguous_def contiguous_free_def) }
  { assume n: "0 < n" and fit: "fits_at (contiguous_free a) n s" and least: "\<forall>b < s. \<not> fits_at (contiguous_free a) n b"
    have fr: "free_run (ca_disk_blocks a) (ca_total_blocks a) s n"
      using free_run_fits [OF n] fit by (simp add: contiguous_free_def)
    then have "s \<noteq> -1" by (auto simp: free_run_def)
    from mark_blocks_eq [OF len(1) fr] n obtain d where d: "mark_blocks (ca_disk_blocks a) s n = Some d"
      "length d = nat (ca_total_blocks a)" "\<forall>j. d ! j = (if s \<le> int j \<and> int j < s + n then 1 else ca_disk_blocks a ! j)"
      by auto
    have "run_scan (ca_disk_blocks a) (ca_total_blocks a) n 0 0 (-1) = Some (Some (s, n))"
      using run_scan_eq(1) [OF len n] fit least by (simp add: contiguous_free_def)
    moreover note marked = zero_blocks_marked [OF fr _ d(3)]
    ultimately show "\<exists>a'. map_option (\<lambda>(a', s). (a', if s = -1 then None else Some s)) (allocate_contiguous a n) =
        Some (a', Some s) \<and> contiguous_inv a' \<and> contiguous_free a' = contiguous_free a - {s..<s + n}"
      using d(1,2) n inv \<open>s \<noteq> -1\<close> by (simp add: allocate_contiguous_def contiguous_inv_def contiguous_free_def) }
qed

lemma contiguous_initial:
  assumes "0 \<le> tot"
  shows "\<exists>a. init_contiguous_allocator True True tot = Some a \<and> contiguous_inv a \<and> contiguous_free a = {0..<tot}"
proof -
  have "zero_blocks (replicate (nat tot) 0) tot = {0..<tot}" by (auto simp: zero_blocks_def)
  with assms show ?thesis by (simp add: init_contiguous_allocator_def contiguous_inv_def contiguous_free_def)
qed

subsection \<open>Extent allocation\<close>

datatype extent = Extent (ex_start_block: int) (ex_length: int) (ex_next: "extent option")

record extent_file =
  ef_name :: "char list"
  ef_extent_list :: "extent option"
  ef_size :: "64 word"
  ef_extent_count :: int

record extent_allocator =
  ea_disk_blocks :: "int list"
  ea_total_blocks :: int
  ea_free_blocks :: int
  ea_files :: "extent_file list"
  ea_max_files :: int

definition zero_extent_file :: extent_file where
  "zero_extent_file = \<lparr>ef_name = replicate 256 (CHR 0x00), ef_extent_list = None, ef_size = 0, ef_extent_count = 0\<rparr>"

text \<open>The block array comes from \<open>malloc\<close>: its contents \<open>raw\<close> are whatever was in that memory.\<close>

definition init_extent_allocator ::
  "bool \<Rightarrow> int list option \<Rightarrow> bool \<Rightarrow> int \<Rightarrow> int \<Rightarrow> extent_allocator option" where
  "init_extent_allocator allocator_ok raw files_ok total_blocks max_files =
     (if \<not> allocator_ok then None
      else case raw of
        None \<Rightarrow> None
      | Some blocks \<Rightarrow>
          if \<not> files_ok then None
          else Some \<lparr>ea_disk_blocks = blocks, ea_total_blocks = total_blocks, ea_free_blocks = total_blocks,
            ea_files = replicate (nat max_files) zero_extent_file, ea_max_files = max_files\<rparr>)"

definition allocate_extent ::
  "bool \<Rightarrow> extent_allocator \<Rightarrow> int \<Rightarrow> (extent_allocator \<times> extent option) option" where
  "allocate_extent malloc_ok allocator desired_length = do {
     r \<leftarrow> run_scan (ea_disk_blocks allocator) (ea_total_blocks allocator) desired_length 0 0 (-1);
     (case r of
        None \<Rightarrow> Some (allocator, None)
      | Some (start, cur_len) \<Rightarrow>
          if \<not> malloc_ok then Some (allocator, None)
          else do {
            d \<leftarrow> mark_blocks (ea_disk_blocks allocator) start cur_len;
            Some (allocator\<lparr>ea_disk_blocks := d, ea_free_blocks := ea_free_blocks allocator - cur_len\<rparr>,
              Some (Extent start cur_len None)) }) }"

definition extent_free :: "extent_allocator \<Rightarrow> int set" where
  "extent_free a = zero_blocks (ea_disk_blocks a) (ea_total_blocks a)"

definition extent_inv :: "extent_allocator \<Rightarrow> bool" where
  "extent_inv a \<longleftrightarrow> 0 \<le> ea_total_blocks a \<and> length (ea_disk_blocks a) = nat (ea_total_blocks a)"

definition contiguous_view :: "extent_allocator \<Rightarrow> contiguous_allocator" where
  "contiguous_view a = \<lparr>ca_disk_blocks = ea_disk_blocks a, ca_total_blocks = ea_total_blocks a,
     ca_free_blocks = ea_free_blocks a\<rparr>"

text \<open>When \<open>malloc\<close> succeeds an extent is what contiguous allocation finds.\<close>

lemma allocate_extent_contiguous:
  assumes "extent_inv a"
  shows "\<exists>a' r. allocate_extent True a n = Some (a', r) \<and>
    allocate_contiguous (contiguous_view a) n = Some (contiguous_view a', case r of None \<Rightarrow> -1 | Some e \<Rightarrow> ex_start_block e) \<and>
    (\<forall>e. r = Some e \<longrightarrow> ex_length e = n \<and> ex_next e = None \<and> 0 \<le> ex_start_block e) \<and> extent_inv a'"
proof -
  have len: "length (ea_disk_blocks a) = nat (ea_total_blocks a)" "0 \<le> ea_total_blocks a"
    using assms by (simp_all add: extent_inv_def)
  from run_scan_leftmost [OF len, of n] obtain r where r: "run_scan (ea_disk_blocks a) (ea_total_blocks a) n 0 0 (-1) = Some r"
    "case r of None \<Rightarrow> n \<le> 0 \<or> (\<forall>s. \<not> free_run (ea_disk_blocks a) (ea_total_blocks a) s n)
     | Some (s, k) \<Rightarrow> k = n \<and> 0 < n \<and> free_run (ea_disk_blocks a) (ea_total_blocks a) s n \<and>
        (\<forall>s'. s' < s \<longrightarrow> \<not> free_run (ea_disk_blocks a) (ea_total_blocks a) s' n)" by blast
  show ?thesis
  proof (cases r)
    case None
    with r(1) assms show ?thesis
      by (simp add: allocate_extent_def allocate_contiguous_def contiguous_view_def)
  next
    case (Some p)
    then obtain s where s: "r = Some (s, n)" "0 < n" "free_run (ea_disk_blocks a) (ea_total_blocks a) s n"
      using r(2) by (cases p) auto
    from mark_blocks_eq [OF len(1) s(3)] s(2) obtain d where
      "mark_blocks (ea_disk_blocks a) s n = Some d" "length d = nat (ea_total_blocks a)" by auto
    with r(1) s assms show ?thesis
      by (simp add: allocate_extent_def allocate_contiguous_def contiguous_view_def extent_inv_def free_run_def)
  qed
qed

lemma contiguous_view_sel [simp]:
  "ca_disk_blocks (contiguous_view a) = ea_disk_blocks a"
  "ca_total_blocks (contiguous_view a) = ea_total_blocks a"
  "ca_free_blocks (contiguous_view a) = ea_free_blocks a"
  by (simp_all add: contiguous_view_def)

text \<open>A disk whose uninitialised block array holds no zero has no room for any extent.\<close>

lemma extents_need_zeroed_blocks:
  assumes "0 \<le> tot" and "length raw = nat tot" and "0 \<notin> set raw"
  shows "\<exists>a. init_extent_allocator True (Some raw) True tot m = Some a \<and> ea_free_blocks a = tot \<and>
    allocate_extent True a n = Some (a, None)"
proof -
  define a where "a = \<lparr>ea_disk_blocks = raw, ea_total_blocks = tot, ea_free_blocks = tot,
    ea_files = replicate (nat m) zero_extent_file, ea_max_files = m\<rparr>"
  have "raw ! nat x \<noteq> 0" if "0 \<le> x" "x < tot" for x
  proof -
    have "nat x < length raw" using that assms by simp
    then have "raw ! nat x \<in> set raw" by (rule nth_mem)
    with assms(3) show ?thesis by metis
  qed
  then have "zero_blocks raw tot = {}" by (auto simp: zero_blocks_def)
  then have "n \<le> 0 \<or> (\<forall>b. \<not> fits_at (zero_blocks raw tot) n b)" by (auto simp: fits_at_def)
  from run_scan_eq(2) [OF assms(2,1) this]
  have "allocate_extent True a n = Some (a, None)" by (simp add: a_def allocate_extent_def)
  moreover have "init_extent_allocator True (Some raw) True tot m = Some a"
    by (simp add: init_extent_allocator_def a_def)
  ultimately show ?thesis by (simp add: a_def)
qed

text \<open>C34: Contiguous allocation takes the leftmost run of \<open>n\<close> free blocks, marks exactly that run and keeps the
  free count right; it fails, changing nothing, exactly when no run is long enough (or \<open>n\<close> is not
  positive). Two successful requests never share a block. An extent, when its record can be
  allocated, is the same run of the same disk.\<close>
theorem contiguous_leftmost:
  assumes inv: "contiguous_inv a"
  shows "\<exists>a' s. allocate_contiguous a n = Some (a', s) \<and> contiguous_inv a' \<and>
    (s = -1 \<and> a' = a \<and> (0 < n \<longrightarrow> (\<forall>b. \<not> fits_at (contiguous_free a) n b)) \<or>
     0 \<le> s \<and> 0 < n \<and> fits_at (contiguous_free a) n s \<and> (\<forall>b < s. \<not> fits_at (contiguous_free a) n b) \<and>
       contiguous_free a' = contiguous_free a - {s..<s + n} \<and>
       (\<forall>m a'' t. allocate_contiguous a' m = Some (a'', t) \<and> t \<noteq> -1 \<longrightarrow> {s..<s + n} \<inter> {t..<t + m} = {})) \<and>
    (\<forall>e. contiguous_view e = a \<longrightarrow> (\<exists>e' r. allocate_extent True e n = Some (e', r) \<and> contiguous_view e' = a' \<and>
       (case r of None \<Rightarrow> s = -1 | Some x \<Rightarrow> x = Extent s n None)))"
proof -
  from contiguous.alloc_total [OF inv, of n] obtain a' s where
    a': "allocate_contiguous a n = Some (a', s)" "contiguous_inv a'" and
    r: "case if s = -1 then None else Some s of
       None \<Rightarrow> a' = a \<and> (0 < n \<longrightarrow> (\<forall>b. \<not> fits_at (contiguous_free a) n b))
     | Some s \<Rightarrow> 0 < n \<and> fits_at (contiguous_free a) n s \<and> (\<forall>b < s. \<not> fits_at (contiguous_free a) n b) \<and>
         contiguous_free a' = contiguous_free a - {s..<s + n}" by auto
  have disj: "{s..<s + n} \<inter> {t..<t + m} = {}"
    if "s \<noteq> -1" "allocate_contiguous a' m = Some (a'', t)" "t \<noteq> -1" for m a'' t
    using contiguous.alloc_disjoint [OF inv, of n a' s m a'' t] a'(1) that by simp
  have nonneg: "0 \<le> s" if "s \<noteq> -1"
  proof -
    have "{s..<s + n} \<subseteq> contiguous_free a" "0 < n" using that r by (simp_all add: fits_at_def)
    then have "s \<in> contiguous_free a" by auto
    with contiguous.free_bounded [OF inv] show ?thesis by blast
  qed
  have ext: "\<exists>e' x. allocate_extent True e n = Some (e', x) \<and> contiguous_view e' = a' \<and>
      (case x of None \<Rightarrow> s = -1 | Some x \<Rightarrow> x = Extent s n None)" if e: "contiguous_view e = a" for e
  proof -
    have "extent_inv e" using inv e by (auto simp: contiguous_inv_def extent_inv_def)
    from allocate_extent_contiguous [OF this, of n] obtain e' x where
      x: "allocate_extent True e n = Some (e', x)"
        "allocate_contiguous a n = Some (contiguous_view e', case x of None \<Rightarrow> -1 | Some y \<Rightarrow> ex_start_block y)"
        "\<forall>y. x = Some y \<longrightarrow> ex_length y = n \<and> ex_next y = None" using e by blast
    then have "case x of None \<Rightarrow> s = -1 | Some y \<Rightarrow> y = Extent s n None"
      using a'(1) by (cases x) (auto intro: extent.expand)
    with x a'(1) show ?thesis by auto
  qed
  show ?thesis
    using a' r disj nonneg ext by (intro exI [of _ a'] exI [of _ s] conjI) (cases "s = -1"; simp)+
qed

definition contiguous_demo :: contiguous_allocator where
  "contiguous_demo = \<lparr>ca_disk_blocks = [0, 1, 0, 0], ca_total_blocks = 4, ca_free_blocks = 3\<rparr>"

theorem contiguous_leftmost_witness:
  "\<exists>a'. allocate_contiguous contiguous_demo 2 = Some (a', 2) \<and> contiguous_inv a'"
proof -
  have z: "zero_blocks [0, 1, 0, 0] 4 = {0, 2, 3}"
  proof (rule set_eqI)
    fix j :: int
    have "0 \<le> j \<and> j < 4 \<longleftrightarrow> j = 0 \<or> j = 1 \<or> j = 2 \<or> j = 3" by auto
    then show "j \<in> zero_blocks [0, 1, 0, 0] 4 \<longleftrightarrow> j \<in> {0, 2, 3}" by (auto simp: zero_blocks_def)
  qed
  have inv: "contiguous_inv contiguous_demo"
    by (simp add: contiguous_inv_def contiguous_demo_def contiguous_free_def z)
  have fit: "fits_at {0, 2, 3} 2 2" by (auto simp: fits_at_def)
  from contiguous_leftmost [OF inv, of 2] obtain a' s where
    s: "allocate_contiguous contiguous_demo 2 = Some (a', s)" "contiguous_inv a'"
    "s = -1 \<and> (\<forall>b. \<not> fits_at {0, 2, 3} 2 b) \<or> 0 \<le> s \<and> fits_at {0, 2, 3} 2 s"
    by (auto simp: contiguous_demo_def contiguous_free_def z)
  then have "0 \<le> s" "fits_at {0, 2, 3} 2 s" using fit by blast+
  moreover have "s \<in> {s..<s + 2}" "s + 1 \<in> {s..<s + 2}" by simp_all
  ultimately have "s \<in> {0, 2, 3}" "s + 1 \<in> {0, 2, 3}" unfolding fits_at_def by blast+
  then have "s = 2" by auto
  with s(1,2) show ?thesis by blast
qed

end
