(* ===== verification/File_Index.thy ===== *)
theory File_Index
  imports File_Block_Runs
begin

section \<open>Index blocks: d27 multi-level and hybrid allocation\<close>

text \<open>
  multi\_level\_index\_allocation.c resolves a block number of a file through direct, single, double
  and triple indirect blocks; hybrid\_allocation.c chooses between direct blocks, extents and such an
  index by the size of the file.
\<close>

lemma nth_concat_uniform:
  assumes "\<forall>xs \<in> set xss. length xs = w" and "k < length xss * w"
  shows "concat xss ! k = xss ! (k div w) ! (k mod w)"
  using assms
proof (induction xss arbitrary: k)
  case (Cons xs xss)
  show ?case
  proof (cases "k < w")
    case True
    with Cons.prems show ?thesis by (simp add: nth_append)
  next
    case False
    have w: "0 < w" using Cons.prems(2) by (cases w) auto
    have "concat xss ! (k - w) = xss ! ((k - w) div w) ! ((k - w) mod w)"
      using False Cons.prems by (intro Cons.IH) auto
    moreover have "k div w = Suc ((k - w) div w)" "k mod w = (k - w) mod w"
      using False w by (simp_all add: le_div_geq le_mod_geq)
    ultimately show ?thesis using False Cons.prems(1) by (simp add: nth_append)
  qed
qed simp

lemma length_concat_uniform: "\<forall>xs \<in> set xss. length xs = w \<Longrightarrow> length (concat xss) = length xss * w"
  by (induction xss) auto

subsection \<open>The multi-level index\<close>

text \<open>\<open>struct MultiLevelIndex\<close> takes 72 bytes: fifteen \<open>int\<close>s, four bytes of padding and a \<open>size_t\<close>.\<close>

definition DIRECT_BLOCKS :: nat where "DIRECT_BLOCKS = 12"

definition INDIRECT_BLOCKS :: nat where "INDIRECT_BLOCKS = (1024 - 72) div 4"

record multi_level_index =
  mi_direct :: "int list"
  mi_single_indirect :: int
  mi_double_indirect :: int
  mi_triple_indirect :: int
  mi_file_size :: size_t

type_synonym indirect_block = "int list"

record multi_level_allocator =
  ml_idx_table :: "multi_level_index list"
  ml_indirect_blocks :: "indirect_block list"
  ml_total_blocks :: int
  ml_free_blocks :: int
  ml_free_list :: "int list"

definition zero_index :: multi_level_index where
  "zero_index = \<lparr>mi_direct = replicate DIRECT_BLOCKS 0, mi_single_indirect = 0, mi_double_indirect = 0,
     mi_triple_indirect = 0, mi_file_size = 0\<rparr>"

text \<open>The byte area \<open>disk_blocks\<close> is never read or written and has no field.\<close>

definition init_multilevel_allocator ::
  "bool \<Rightarrow> bool \<Rightarrow> multi_level_index list option \<Rightarrow> indirect_block list option \<Rightarrow> int list option \<Rightarrow> int \<Rightarrow>
     multi_level_allocator option option" where
  "init_multilevel_allocator allocator_ok disk_ok idx_raw indirect_raw list_raw total_blocks =
     (if \<not> allocator_ok then Some None
      else do {
        bytes \<leftarrow> chk (total_blocks * 1024);
        if \<not> disk_ok then Some None
        else case (idx_raw, indirect_raw, list_raw) of
          (Some idx_table, Some indirect_blocks, Some free_list) \<Rightarrow> do {
            table \<leftarrow> for_loop 0 (nat total_blocks) (\<lambda>i t. wr t i zero_index) idx_table;
            fl \<leftarrow> for_loop 0 (nat total_blocks) (\<lambda>i fl. wr fl i (int i)) free_list;
            Some (Some \<lparr>ml_idx_table = table, ml_indirect_blocks = indirect_blocks,
              ml_total_blocks = total_blocks, ml_free_blocks = total_blocks, ml_free_list = fl\<rparr>) }
        | _ \<Rightarrow> Some None })"

definition get_block_address ::
  "multi_level_allocator \<Rightarrow> multi_level_index \<Rightarrow> size_t \<Rightarrow> int option" where
  "get_block_address allocator idx block_num = (
     let I = of_nat INDIRECT_BLOCKS :: size_t; D = of_nat DIRECT_BLOCKS :: size_t in
     if block_num < D then rd (mi_direct idx) (unat block_num)
     else let block_num = block_num - D in
     if block_num < I then do {
       indirect \<leftarrow> rdi (ml_indirect_blocks allocator) (mi_single_indirect idx);
       rd indirect (unat block_num) }
     else let block_num = block_num - I in
     if block_num < I * I then do {
       double_indirect \<leftarrow> rdi (ml_indirect_blocks allocator) (mi_double_indirect idx);
       b \<leftarrow> rd double_indirect (unat (block_num div I));
       indirect \<leftarrow> rdi (ml_indirect_blocks allocator) b;
       rd indirect (unat (block_num mod I)) }
     else let block_num = block_num - I in
     if block_num < I * I * I then do {
       triple_indirect \<leftarrow> rdi (ml_indirect_blocks allocator) (mi_triple_indirect idx);
       b \<leftarrow> rd triple_indirect (unat (block_num div I div I));
       indirect \<leftarrow> rdi (ml_indirect_blocks allocator) b;
       rd indirect (unat (block_num mod I mod I)) }
     else Some (-1))"

definition index_ok :: "multi_level_allocator \<Rightarrow> multi_level_index \<Rightarrow> bool" where
  "index_ok a idx \<longleftrightarrow> length (mi_direct idx) = DIRECT_BLOCKS \<and>
     (\<forall>b \<in> set (ml_indirect_blocks a). length b = INDIRECT_BLOCKS) \<and>
     0 \<le> mi_single_indirect idx \<and> nat (mi_single_indirect idx) < length (ml_indirect_blocks a) \<and>
     0 \<le> mi_double_indirect idx \<and> nat (mi_double_indirect idx) < length (ml_indirect_blocks a) \<and>
     (\<forall>k \<in> set (ml_indirect_blocks a ! nat (mi_double_indirect idx)). 0 \<le> k \<and> nat k < length (ml_indirect_blocks a))"

text \<open>What the index denotes: the blocks of the file in order, through the double indirect block.\<close>

definition index_blocks :: "multi_level_allocator \<Rightarrow> multi_level_index \<Rightarrow> int list" where
  "index_blocks a idx = mi_direct idx @ ml_indirect_blocks a ! nat (mi_single_indirect idx) @
     concat (map (\<lambda>k. ml_indirect_blocks a ! nat k) (ml_indirect_blocks a ! nat (mi_double_indirect idx)))"

lemma get_block_address_nat:
  assumes "n < 2 ^ 64"
  shows "get_block_address a idx (of_nat n) =
    (if n < 12 then rd (mi_direct idx) n
     else if n < 250 then do { i \<leftarrow> rdi (ml_indirect_blocks a) (mi_single_indirect idx); rd i (n - 12) }
     else if n < 56894 then do {
       d \<leftarrow> rdi (ml_indirect_blocks a) (mi_double_indirect idx);
       b \<leftarrow> rd d ((n - 250) div 238); i \<leftarrow> rdi (ml_indirect_blocks a) b; rd i ((n - 250) mod 238) }
     else if n < 13481760 then do {
       t \<leftarrow> rdi (ml_indirect_blocks a) (mi_triple_indirect idx);
       b \<leftarrow> rd t ((n - 488) div 56644); i \<leftarrow> rdi (ml_indirect_blocks a) b; rd i ((n - 488) mod 238) }
     else Some (-1))"
proof -
  have u: "unat (of_nat n :: size_t) = n" using assms by (simp add: unat_of_nat)
  have lt: "(of_nat n :: size_t) < 12 \<longleftrightarrow> n < 12" by (simp add: word_less_nat_alt u)
  have u1: "unat (of_nat n - 12 :: size_t) = n - 12" if "\<not> n < 12"
    using that by (simp add: unat_sub word_le_nat_alt u)
  have u2: "unat (of_nat n - 250 :: size_t) = n - 250" if "\<not> n < 250"
    using that by (simp add: unat_sub word_le_nat_alt u)
  have u3: "unat (of_nat n - 488 :: size_t) = n - 488" if "\<not> n < 488"
    using that by (simp add: unat_sub word_le_nat_alt u)
  have dd: "m div 238 div 238 = m div 56644" for m :: nat by (simp add: div_mult2_eq [symmetric])
  show ?thesis
    by (auto simp: get_block_address_def Let_def INDIRECT_BLOCKS_def DIRECT_BLOCKS_def lt
        word_less_nat_alt u u1 u2 u3 unat_div unat_mod dd)
qed

text \<open>The blocks an index refers to.\<close>

lemma index_okD:
  assumes ok: "index_ok a idx"
  defines "s \<equiv> ml_indirect_blocks a ! nat (mi_single_indirect idx)" and "d \<equiv> ml_indirect_blocks a ! nat (mi_double_indirect idx)"
  shows "length (mi_direct idx) = 12" "length s = 238" "rdi (ml_indirect_blocks a) (mi_single_indirect idx) = Some s"
    "length d = 238" "rdi (ml_indirect_blocks a) (mi_double_indirect idx) = Some d"
    "\<And>k. k \<in> set d \<Longrightarrow> 0 \<le> k \<and> nat k < length (ml_indirect_blocks a) \<and> length (ml_indirect_blocks a ! nat k) = 238"
proof -
  have blen: "length (ml_indirect_blocks a ! k) = 238" if "k < length (ml_indirect_blocks a)" for k
    using ok nth_mem [OF that] by (auto simp: index_ok_def INDIRECT_BLOCKS_def)
  show "length (mi_direct idx) = 12" using ok by (simp add: index_ok_def DIRECT_BLOCKS_def)
  show "length s = 238" "rdi (ml_indirect_blocks a) (mi_single_indirect idx) = Some s"
    unfolding s_def by (rule blen) (use ok in \<open>simp_all add: index_ok_def\<close>)
  show "length d = 238" "rdi (ml_indirect_blocks a) (mi_double_indirect idx) = Some d"
    unfolding d_def by (rule blen) (use ok in \<open>simp_all add: index_ok_def\<close>)
  show "0 \<le> k \<and> nat k < length (ml_indirect_blocks a) \<and> length (ml_indirect_blocks a ! nat k) = 238" if "k \<in> set d" for k
    using ok that blen unfolding index_ok_def d_def by blast
qed

lemma index_double_entry:
  assumes ok: "index_ok a idx" and k: "k < 238 * 238"
  defines "d \<equiv> ml_indirect_blocks a ! nat (mi_double_indirect idx)"
  shows "index_blocks a idx ! (250 + k) = ml_indirect_blocks a ! nat (d ! (k div 238)) ! (k mod 238)"
proof -
  note D = index_okD [OF ok, folded d_def]
  let ?bs = "map (\<lambda>k. ml_indirect_blocks a ! nat k) d"
  have q: "k div 238 < 238" using k by (simp add: less_mult_imp_div_less)
  have "index_blocks a idx ! (250 + k) = concat ?bs ! k" using D(1,2) by (simp add: index_blocks_def nth_append d_def)
  also have "\<dots> = ?bs ! (k div 238) ! (k mod 238)" using k D(4,6) by (intro nth_concat_uniform) auto
  finally show ?thesis using q D(4) by simp
qed

lemma index_lookup:
  assumes ok: "index_ok a idx" and n: "n < 56894"
  shows "get_block_address a idx (of_nat n) = Some (index_blocks a idx ! n)"
proof -
  note D = index_okD [OF ok]
  have "n < 2 ^ 64" using n by simp
  note eq = get_block_address_nat [OF this, of a idx]
  consider "n < 12" | "12 \<le> n" "n < 250" | "250 \<le> n" by linarith
  then show ?thesis
  proof cases
    case 1
    then show ?thesis using D(1) by (simp add: eq index_blocks_def nth_append)
  next
    case 2
    then have "n - 12 < 238" by linarith
    with 2 show ?thesis using D(1-3) by (simp add: eq index_blocks_def nth_append)
  next
    case 3
    define k where "k = n - 250"
    have k: "k < 238 * 238" "k div 238 < 238" "n = 250 + k" using n 3 by (simp_all add: k_def less_mult_imp_div_less)
    have at: "index_blocks a idx ! n = ml_indirect_blocks a ! nat (ml_indirect_blocks a ! nat (mi_double_indirect idx) ! (k div 238)) ! (k mod 238)"
      unfolding k(3) by (rule index_double_entry [OF ok k(1)])
    have "ml_indirect_blocks a ! nat (mi_double_indirect idx) ! (k div 238) \<in>
        set (ml_indirect_blocks a ! nat (mi_double_indirect idx))" using D(4) k(2) by (intro nth_mem) simp
    from D(6) [OF this] show ?thesis using 3 n D(4,5) k(2) by (simp add: eq at k_def [symmetric])
  qed
qed

text \<open>C35: For every block number below 12 + 238 + 238 * 238 the lookup returns the entry of the file's block
  list: the direct blocks, then the single indirect block, then the blocks the double indirect block
  points to. Past the triple indirect area it returns -1. In between it is wrong: only 238 blocks are
  subtracted for the double indirect area and one level is skipped, so that different block numbers of
  a file share an address.\<close>
theorem multilevel_lookup:
  assumes ok: "index_ok a idx"
  shows "length (index_blocks a idx) = 12 + 238 + 238 * 238 \<and>
    (\<forall>n < 12 + 238 + 238 * 238. get_block_address a idx (of_nat n) = Some (index_blocks a idx ! n)) \<and>
    (\<forall>n. 488 + 238 * 238 * 238 \<le> n \<and> n < 2 ^ 64 \<longrightarrow> get_block_address a idx (of_nat n) = Some (-1)) \<and>
    get_block_address a idx 57132 = get_block_address a idx 57370"
proof -
  note D = index_okD [OF ok]
  let ?bs = "map (\<lambda>k. ml_indirect_blocks a ! nat k) (ml_indirect_blocks a ! nat (mi_double_indirect idx))"
  have "length (concat ?bs) = 238 * 238" using length_concat_uniform [of ?bs 238] D(4,6) by auto
  then have "length (index_blocks a idx) = 56894" using D(1,2) by (simp add: index_blocks_def)
  moreover have past: "get_block_address a idx (of_nat n) = Some (-1)" if "13481760 \<le> n" "n < 2 ^ 64" for n
    using that get_block_address_nat [of n a idx] by simp
  moreover have "get_block_address a idx 57132 = get_block_address a idx 57370"
    using get_block_address_nat [of 57132 a idx] get_block_address_nat [of 57370 a idx] by simp
  ultimately show ?thesis using index_lookup [OF ok] by simp
qed

definition index_demo :: multi_level_allocator where
  "index_demo = \<lparr>ml_idx_table = [], ml_indirect_blocks = [replicate 238 0], ml_total_blocks = 1,
     ml_free_blocks = 0, ml_free_list = [0]\<rparr>"

theorem multilevel_lookup_witness:
  "get_block_address index_demo zero_index (of_nat 300) = Some (index_blocks index_demo zero_index ! 300)"
proof -
  have "index_ok index_demo zero_index"
    by (simp add: index_ok_def index_demo_def zero_index_def DIRECT_BLOCKS_def INDIRECT_BLOCKS_def)
  from multilevel_lookup [OF this]
  have "\<forall>n < 12 + 238 + 238 * 238. get_block_address index_demo zero_index (of_nat n) =
      Some (index_blocks index_demo zero_index ! n)" by blast
  from this [rule_format, of 300] show ?thesis by simp
qed

subsection \<open>The hybrid allocator\<close>

text \<open>
  create\_hybrid\_file passes its \<open>HybridAllocator\<close> to \<open>allocate_extent\<close>, which expects an
  \<open>ExtentAllocator\<close>: both begin with the block array, the total and the free count, so it works on those
  three. The block array holds \<open>total_blocks * block_size\<close> zero bytes, read as \<open>int\<close>s.
\<close>

definition MAX_FILES :: nat where "MAX_FILES = 512"

datatype AllocationType = ALLOCATION_DIRECT | ALLOCATION_INDIRECT | ALLOCATION_EXTENT | ALLOCATION_MULTILEVEL

datatype hybrid_data =
    Direct_Blocks "int list"
  | Multilevel_Idx multi_level_index
  | Extent_List "extent option"
  | Indirect_Blocks "int option"

record hybrid_block =
  hb_data :: hybrid_data
  hb_type :: AllocationType

record hybrid_file =
  hf_name :: "char list"
  hf_size :: size_t
  hf_block :: hybrid_block

record hybrid_allocator =
  ha_disk_blocks :: "int list"
  ha_total_blocks :: int
  ha_free_blocks :: int
  ha_files :: "hybrid_file list"
  ha_max_files :: int
  ha_direct_threshold :: size_t
  ha_extent_threshold :: size_t

definition determine_allocation_type :: "hybrid_allocator \<Rightarrow> size_t \<Rightarrow> AllocationType" where
  "determine_allocation_type allocator file_size =
     (if file_size \<le> ha_direct_threshold allocator then ALLOCATION_DIRECT
      else if file_size \<le> ha_extent_threshold allocator then ALLOCATION_EXTENT
      else ALLOCATION_MULTILEVEL)"

definition zero_hybrid_file :: hybrid_file where
  "zero_hybrid_file = \<lparr>hf_name = replicate 256 (CHR 0x00), hf_size = 0,
     hf_block = \<lparr>hb_data = Direct_Blocks (replicate DIRECT_BLOCKS 0), hb_type = ALLOCATION_DIRECT\<rparr>\<rparr>"

definition init_hybrid_allocator ::
  "bool \<Rightarrow> bool \<Rightarrow> bool \<Rightarrow> int \<Rightarrow> size_t \<Rightarrow> size_t \<Rightarrow> size_t \<Rightarrow> hybrid_allocator option" where
  "init_hybrid_allocator allocator_ok disk_ok files_ok total_blocks block_size direct_threshold extent_threshold =
     (if \<not> allocator_ok then None
      else if \<not> disk_ok then None
      else if \<not> files_ok then None
      else (let direct = of_nat DIRECT_BLOCKS * block_size in
        Some \<lparr>ha_disk_blocks = replicate (nat total_blocks * unat block_size div 4) 0,
          ha_total_blocks = total_blocks, ha_free_blocks = total_blocks,
          ha_files = replicate MAX_FILES zero_hybrid_file, ha_max_files = int MAX_FILES,
          ha_direct_threshold = direct, ha_extent_threshold = direct * 4\<rparr>))"

definition extent_view :: "hybrid_allocator \<Rightarrow> extent_allocator" where
  "extent_view a = \<lparr>ea_disk_blocks = ha_disk_blocks a, ea_total_blocks = ha_total_blocks a,
     ea_free_blocks = ha_free_blocks a, ea_files = [], ea_max_files = 0\<rparr>"

definition create_hybrid_file ::
  "hybrid_file option \<Rightarrow> bool \<Rightarrow> hybrid_allocator \<Rightarrow> string \<Rightarrow> size_t \<Rightarrow> (hybrid_allocator \<times> hybrid_file option) option" where
  "create_hybrid_file raw extent_ok allocator nm initial_size =
     (if ha_free_blocks allocator = 0 then Some (allocator, None)
      else case raw of
        None \<Rightarrow> Some (allocator, None)
      | Some file \<Rightarrow> do {
          let type = determine_allocation_type allocator initial_size;
          let file' = \<lparr>hf_name = c_strncpy (hf_name file) nm 255, hf_size = initial_size,
            hf_block = (hf_block file)\<lparr>hb_type := type\<rparr>\<rparr>;
          (case type of
             ALLOCATION_DIRECT \<Rightarrow> Some (allocator, Some (file'\<lparr>hf_block :=
               (hf_block file')\<lparr>hb_data := Direct_Blocks (replicate DIRECT_BLOCKS 0)\<rparr>\<rparr>))
           | ALLOCATION_EXTENT \<Rightarrow> do {
               let blocks = sint (ucast ((initial_size + 1024 - 1) div 1024) :: 32 word);
               (e, x) \<leftarrow> allocate_extent extent_ok (extent_view allocator) blocks;
               Some (allocator\<lparr>ha_disk_blocks := ea_disk_blocks e, ha_free_blocks := ea_free_blocks e\<rparr>,
                 Some (file'\<lparr>hf_block := (hf_block file')\<lparr>hb_data := Extent_List x\<rparr>\<rparr>)) }
           | ALLOCATION_MULTILEVEL \<Rightarrow> Some (allocator, Some (file'\<lparr>hf_block :=
               (hf_block file')\<lparr>hb_data := Multilevel_Idx zero_index\<rparr>\<rparr>))
           | ALLOCATION_INDIRECT \<Rightarrow> Some (allocator, Some file')) })"

text \<open>The two thresholds passed to the initialisation are ignored.\<close>

lemma hybrid_thresholds_ignored:
  "init_hybrid_allocator True True True n bs d e = init_hybrid_allocator True True True n bs d' e'"
  by (simp add: init_hybrid_allocator_def)

end
