(* ===== verification/Free_Regions.thy ===== *)
theory Free_Regions
  imports Slot_Table "HOL-Library.Multiset"
begin

section \<open>Free regions and sub-blocks: d27 fragmentation and block-size management\<close>

text \<open>
  fragmentation\_management.c keeps the free space of a disk as an array of regions and merges
  neighbours; block\_size\_optimization.c hands out sub-blocks from bitmaps. The arithmetic on
  \<open>double\<close> is a parameter, a record of operations on a type of doubles; nothing proved here depends
  on it.
\<close>

record 'd double_ops =
  db_of_int :: "int \<Rightarrow> 'd"
  db_zero :: 'd
  db_one :: 'd
  db_add :: "'d \<Rightarrow> 'd \<Rightarrow> 'd"
  db_sub :: "'d \<Rightarrow> 'd \<Rightarrow> 'd"
  db_mul :: "'d \<Rightarrow> 'd \<Rightarrow> 'd"
  db_div :: "'d \<Rightarrow> 'd \<Rightarrow> 'd"

subsection \<open>Fragmentation management\<close>

record free_region =
  fr_block_start :: int
  fr_block_len :: int

record 'd fragmentation_manager =
  fm_total_space :: int
  fm_used_space :: int
  fm_largest_free_block :: int
  fm_fragmentation_ratio :: 'd
  fm_free_regions :: "free_region list"
  fm_region_count :: int
  fm_total_blocks :: int

definition init_fragmentation_manager ::
  "'d double_ops \<Rightarrow> bool \<Rightarrow> free_region list option \<Rightarrow> int \<Rightarrow> 'd fragmentation_manager option option" where
  "init_fragmentation_manager ops manager_ok raw total_blocks =
     (if \<not> manager_ok then Some None
      else case raw of
        None \<Rightarrow> Some None
      | Some regions \<Rightarrow> do {
          rs \<leftarrow> wr regions 0 \<lparr>fr_block_start = 0, fr_block_len = total_blocks\<rparr>;
          Some (Some \<lparr>fm_total_space = total_blocks, fm_used_space = 0, fm_largest_free_block = total_blocks,
            fm_fragmentation_ratio = db_zero ops, fm_free_regions = rs, fm_region_count = 1,
            fm_total_blocks = total_blocks\<rparr>) })"

definition update_fragmentation_metrics ::
  "'d double_ops \<Rightarrow> 'd fragmentation_manager \<Rightarrow> 'd fragmentation_manager option" where
  "update_fragmentation_metrics ops manager = do {
     (largest_free, total_free, weighted) \<leftarrow> for_loop 0 (nat (fm_region_count manager)) (\<lambda>i (l, t, w). do {
       r \<leftarrow> rd (fm_free_regions manager) i;
       let region_size = fr_block_len r;
       t' \<leftarrow> chk (t + region_size);
       let part = db_div ops (db_of_int ops region_size) (db_of_int ops (fm_total_blocks manager));
       Some (if region_size > l then region_size else l, t',
         db_add ops w (db_mul ops part (db_sub ops (db_one ops) part))) }) (0, 0, db_zero ops);
     used \<leftarrow> chk (fm_total_blocks manager - total_free);
     Some (manager\<lparr>fm_largest_free_block := largest_free, fm_used_space := used,
       fm_fragmentation_ratio := weighted\<rparr>) }"

text \<open>The exchange pass of the sort, with the comparison as written: element \<open>i\<close> against \<open>j + 1\<close>.\<close>

definition sort_pass :: "int \<Rightarrow> nat \<Rightarrow> free_region list \<Rightarrow> free_region list option" where
  "sort_pass cnt i rs = for_loop 0 (nat (cnt - int i - 1)) (\<lambda>j rs. do {
     a \<leftarrow> rd rs i;
     b \<leftarrow> rd rs (j + 1);
     if fr_block_start a > fr_block_start b then do {
       tmp \<leftarrow> rd rs j;
       rs' \<leftarrow> wr rs j b;
       wr rs' (j + 1) tmp }
     else Some rs }) rs"

definition merge_step :: "nat \<Rightarrow> nat \<times> free_region list \<Rightarrow> (nat \<times> free_region list) option" where
  "merge_step read_idx = (\<lambda>(write_idx, rs). do {
     w \<leftarrow> rd rs write_idx;
     r \<leftarrow> rd rs read_idx;
     end \<leftarrow> chk (fr_block_start w + fr_block_len w);
     if end = fr_block_start r then do {
       len \<leftarrow> chk (fr_block_len w + fr_block_len r);
       rs' \<leftarrow> wr rs write_idx (w\<lparr>fr_block_len := len\<rparr>);
       Some (write_idx, rs') }
     else do {
       rs' \<leftarrow> wr rs (write_idx + 1) r;
       Some (write_idx + 1, rs') } })"

definition defragment :: "'d fragmentation_manager \<Rightarrow> 'd fragmentation_manager option" where
  "defragment manager = do {
     let cnt = fm_region_count manager;
     rs \<leftarrow> for_loop 0 (nat (cnt - 1)) (sort_pass cnt) (fm_free_regions manager);
     (write_idx, rs) \<leftarrow> for_loop 1 (nat cnt) merge_step (0, rs);
     Some (manager\<lparr>fm_free_regions := rs, fm_region_count := int write_idx + 1\<rparr>) }"

text \<open>The free space a list of regions stands for, as a multiset of block numbers.\<close>

definition region_blocks :: "free_region \<Rightarrow> int multiset" where
  "region_blocks r = mset_set {fr_block_start r..<fr_block_start r + fr_block_len r}"

definition free_space :: "free_region list \<Rightarrow> int multiset" where
  "free_space rs = sum_mset (image_mset region_blocks (mset rs))"

definition region_ok :: "free_region \<Rightarrow> bool" where
  "region_ok r \<longleftrightarrow> 0 \<le> fr_block_start r \<and> 0 \<le> fr_block_len r \<and> fr_block_start r + fr_block_len r \<le> INT_MAX"

definition fm_inv :: "'d fragmentation_manager \<Rightarrow> bool" where
  "fm_inv m \<longleftrightarrow> 1 \<le> fm_region_count m \<and> nat (fm_region_count m) \<le> length (fm_free_regions m) \<and>
     (\<forall>r \<in> set (take (nat (fm_region_count m)) (fm_free_regions m)). region_ok r)"

definition live_regions :: "'d fragmentation_manager \<Rightarrow> free_region list" where
  "live_regions m = take (nat (fm_region_count m)) (fm_free_regions m)"

lemma free_space_simps [simp]:
  "free_space [] = {#}" "free_space (r # rs) = region_blocks r + free_space rs"
  "free_space (rs @ qs) = free_space rs + free_space qs"
  by (simp_all add: free_space_def)

lemma free_space_mset: "mset rs = mset qs \<Longrightarrow> free_space rs = free_space qs"
  by (simp add: free_space_def)

lemma region_blocks_merge:
  assumes "fr_block_start w + fr_block_len w = fr_block_start r" and "0 \<le> fr_block_len w" and "0 \<le> fr_block_len r"
  shows "region_blocks (w\<lparr>fr_block_len := fr_block_len w + fr_block_len r\<rparr>) = region_blocks w + region_blocks r"
proof -
  let ?a = "fr_block_start w" and ?b = "fr_block_start r" and ?c = "fr_block_start r + fr_block_len r"
  have "{?a..<?c} = {?a..<?b} \<union> {?b..<?c}" using assms by (simp add: ivl_disj_un_two(3))
  then have "mset_set {?a..<?c} = mset_set {?a..<?b} + mset_set {?b..<?c}"
    by (simp add: mset_set_Union ivl_disj_int_two(3))
  with assms(1) show ?thesis by (simp add: region_blocks_def algebra_simps)
qed

text \<open>The sort only exchanges live regions.\<close>

definition same_live :: "nat \<Rightarrow> free_region list \<Rightarrow> free_region list \<Rightarrow> bool" where
  "same_live n rs qs \<longleftrightarrow> length qs = length rs \<and> mset (take n qs) = mset (take n rs)"

lemma swap_same_live:
  assumes "same_live n rs qs" and "Suc j < n" and "n \<le> length rs"
  shows "same_live n rs (qs[j := qs ! Suc j, Suc j := qs ! j])"
proof -
  have "take n (qs[j := qs ! Suc j, Suc j := qs ! j]) = (take n qs)[j := take n qs ! Suc j, Suc j := take n qs ! j]"
    using assms(2) by (simp add: take_update_swap)
  moreover have "mset ((take n qs)[j := take n qs ! Suc j, Suc j := take n qs ! j]) = mset (take n qs)"
    by (rule mset_swap) (use assms in \<open>simp_all add: same_live_def\<close>)
  ultimately show ?thesis using assms(1) by (simp add: same_live_def)
qed

lemma sort_pass_live:
  assumes "same_live n rs qs" and "n \<le> length rs" and "Suc i < n"
  shows "\<exists>qs'. sort_pass (int n) i qs = Some qs' \<and> same_live n rs qs'"
  unfolding sort_pass_def
proof (rule for_loop_invar [where P = "\<lambda>_. same_live n rs"])
  fix j ps assume j: "0 \<le> j" "j < nat (int n - int i - 1)" and P: "same_live n rs ps"
  have jn: "Suc j < n" using j assms(3) by linarith
  have len: "Suc j < length ps" "i < length ps" using jn P assms(2,3) by (simp_all add: same_live_def)
  show "\<exists>ps'. do {
     a \<leftarrow> rd ps i;
     b \<leftarrow> rd ps (j + 1);
     if fr_block_start a > fr_block_start b then do {
       tmp \<leftarrow> rd ps j;
       rs' \<leftarrow> wr ps j b;
       wr rs' (j + 1) tmp }
     else Some ps } = Some ps' \<and> same_live n rs ps'"
    using len P swap_same_live [OF P jn assms(2)] by simp
qed (use assms in auto)

lemma sort_live:
  assumes "n \<le> length rs"
  shows "\<exists>qs. for_loop 0 (nat (int n - 1)) (sort_pass (int n)) rs = Some qs \<and> same_live n rs qs"
proof (rule for_loop_invar [where P = "\<lambda>_. same_live n rs"])
  fix i qs assume "i < nat (int n - 1)" "same_live n rs qs"
  then show "\<exists>qs'. sort_pass (int n) i qs = Some qs' \<and> same_live n rs qs'"
    using assms by (intro sort_pass_live) auto
qed (simp_all add: same_live_def)

text \<open>The merge pass keeps the free space of the regions written so far and those still to read.\<close>

lemma merge_live:
  assumes n: "1 \<le> n" "n \<le> length rs" and ok: "\<forall>r \<in> set (take n rs). region_ok r"
  shows "\<exists>w qs. for_loop 1 n merge_step (0, rs) = Some (w, qs) \<and> w < n \<and> length qs = length rs \<and>
    free_space (take (Suc w) qs) = free_space (take n rs) \<and> (\<forall>r \<in> set (take (Suc w) qs). region_ok r)"
proof -
  define P where "P k = (\<lambda>(w, qs). w < k \<and> length qs = length rs \<and>
    free_space (take (Suc w) qs) = free_space (take k rs) \<and>
    (\<forall>r \<in> set (take (Suc w) qs). region_ok r) \<and> drop k qs = drop k rs)" for k
  have "\<exists>s. for_loop 1 n merge_step (0, rs) = Some s \<and> P n s"
  proof (rule for_loop_invar)
    show "P 1 (0, rs)" using n ok set_take_subset_set_take [of 1 n rs] by (auto simp: P_def)
  next
    fix k s assume k: "1 \<le> k" "k < n" and P: "P k s"
    obtain w qs where s: "s = (w, qs)" by (cases s)
    have w: "w < k" "length qs = length rs" "free_space (take (Suc w) qs) = free_space (take k rs)"
      "\<forall>r \<in> set (take (Suc w) qs). region_ok r" "drop k qs = drop k rs" using P by (simp_all add: P_def s)
    have kl: "k < length rs" "k < length qs" "w < length qs" using k n w by simp_all
    have qk: "qs ! k = rs ! k" using w(5) kl by (metis Cons_nth_drop_Suc list.inject)
    have dk: "drop (Suc k) qs = drop (Suc k) rs" using w(5) by (metis drop_Suc tl_drop)
    have tw: "take (Suc w) qs = take w qs @ [qs ! w]" using kl by (simp add: take_Suc_conv_app_nth)
    have tk: "take (Suc k) rs = take k rs @ [rs ! k]" using kl by (simp add: take_Suc_conv_app_nth)
    have okw: "region_ok (qs ! w)" using w(4) tw by simp
    have "rs ! k \<in> set (take n rs)" using k kl by (auto simp: in_set_conv_nth)
    with ok have okr: "region_ok (rs ! k)" by blast
    show "\<exists>s'. merge_step k s = Some s' \<and> P (Suc k) s'"
    proof (cases "fr_block_start (qs ! w) + fr_block_len (qs ! w) = fr_block_start (rs ! k)")
      case True
      let ?m = "(qs ! w)\<lparr>fr_block_len := fr_block_len (qs ! w) + fr_block_len (rs ! k)\<rparr>"
      have okm: "region_ok ?m" using okw okr True by (simp add: region_ok_def)
      have ints: "int_ok (fr_block_start (rs ! k))" "int_ok (fr_block_len (qs ! w) + fr_block_len (rs ! k))"
        using okw okr True by (auto simp: region_ok_def int_ok_def INT_MIN_def)
      have tm: "take (Suc w) (qs[w := ?m]) = take w qs @ [?m]" using kl by (simp add: take_Suc_conv_app_nth)
      have "free_space (take (Suc w) (qs[w := ?m])) = free_space (take (Suc k) rs)"
        using w(3) region_blocks_merge [OF True] okw okr by (simp add: tm tk tw region_ok_def algebra_simps)
      moreover have "\<forall>r \<in> set (take (Suc w) (qs[w := ?m])). region_ok r" using w(4) okm by (simp add: tm tw)
      ultimately have "P (Suc k) (w, qs[w := ?m])"
        using w dk by (simp add: P_def)
      then show ?thesis using kl ints True by (simp add: merge_step_def s qk)
    next
      case False
      have "int_ok (fr_block_start (qs ! w) + fr_block_len (qs ! w))"
        using okw by (simp add: region_ok_def int_ok_def INT_MIN_def)
      moreover have "Suc w < length qs" using w(1) kl by simp
      moreover have tm: "take (Suc (Suc w)) (qs[Suc w := rs ! k]) = take (Suc w) qs @ [rs ! k]"
        using \<open>Suc w < length qs\<close> by (simp add: take_Suc_conv_app_nth)
      have "P (Suc k) (Suc w, qs[Suc w := rs ! k])"
        using w okr dk by (simp add: P_def tm tk)
      ultimately show ?thesis using kl False by (simp add: merge_step_def s qk)
    qed
  qed (use n in simp)
  then show ?thesis by (auto simp: P_def)
qed

lemma defragment_live:
  fixes m :: "'d fragmentation_manager"
  assumes inv: "fm_inv m"
  shows "\<exists>m'. defragment m = Some m' \<and> fm_inv m' \<and> free_space (live_regions m') = free_space (live_regions m) \<and>
    fm_region_count m' \<le> fm_region_count m"
proof -
  define n where "n = nat (fm_region_count m)"
  let ?rs = "fm_free_regions m"
  have n: "1 \<le> n" "n \<le> length ?rs" "fm_region_count m = int n" using inv by (auto simp: fm_inv_def n_def)
  from sort_live [OF n(2)] obtain qs where
    qs: "for_loop 0 (nat (int n - 1)) (sort_pass (int n)) ?rs = Some qs" "same_live n ?rs qs" by blast
  have mset_eq: "mset (take n qs) = mset (take n ?rs)" "length qs = length ?rs" using qs(2) by (auto simp: same_live_def)
  have "\<forall>r \<in> set (take n qs). region_ok r"
    using inv mset_eq_setD [OF mset_eq(1)] by (simp add: fm_inv_def n_def)
  from merge_live [OF n(1) _ this] n(2) mset_eq obtain w ps where
    ps: "for_loop 1 n merge_step (0, qs) = Some (w, ps)" "w < n" "length ps = length ?rs"
      "free_space (take (Suc w) ps) = free_space (take n ?rs)" "\<forall>r \<in> set (take (Suc w) ps). region_ok r"
    using free_space_mset [OF mset_eq(1)] by auto
  let ?m = "m\<lparr>fm_free_regions := ps, fm_region_count := int w + 1\<rparr>"
  have w1: "nat (int w + 1) = Suc w" by simp
  have "defragment m = Some ?m" using qs(1) ps(1) by (simp add: defragment_def n(3))
  moreover have "fm_inv ?m" using ps n(2) by (simp add: fm_inv_def w1)
  moreover have "free_space (live_regions ?m) = free_space (live_regions m)"
    using ps(4) by (simp add: live_regions_def w1 n_def)
  ultimately show ?thesis using ps(2) n(3) by auto
qed

text \<open>C36: Defragmentation returns, stays inside the region array and keeps the free space exactly: the regions it
  leaves cover the same blocks, each as often as before, and there are at most as many regions. It
  need not merge all neighbours: the sort compares the wrong element, so that three regions covering
  the blocks 1, 2 and 3 stay three.\<close>
theorem defragment_keeps_space:
  fixes m :: "'d fragmentation_manager"
  assumes inv: "fm_inv m"
  shows "(\<exists>m'. defragment m = Some m' \<and> fm_inv m' \<and> free_space (live_regions m') = free_space (live_regions m) \<and>
      fm_region_count m' \<le> fm_region_count m) \<and>
    map_option live_regions (defragment (m\<lparr>fm_region_count := 3, fm_free_regions := map (\<lambda>s. \<lparr>fr_block_start = s, fr_block_len = 1\<rparr>) [3, 1, 2]\<rparr>)) =
      Some (map (\<lambda>s. \<lparr>fr_block_start = s, fr_block_len = 1\<rparr>) [1, 3, 2])"
proof -
  have "map_option live_regions (defragment (m\<lparr>fm_region_count := 3, fm_free_regions := map (\<lambda>s. \<lparr>fr_block_start = s, fr_block_len = 1\<rparr>) [3, 1, 2]\<rparr>)) =
      Some (map (\<lambda>s. \<lparr>fr_block_start = s, fr_block_len = 1\<rparr>) [1, 3, 2])"
    by (simp add: defragment_def sort_pass_def merge_step_def live_regions_def for_loop_step rd_def wr_def
        chk_def int_ok_def INT_MAX_def INT_MIN_def)
  with defragment_live [OF inv] show ?thesis by blast
qed

definition fm_demo :: "int fragmentation_manager" where
  "fm_demo = \<lparr>fm_total_space = 9, fm_used_space = 4, fm_largest_free_block = 3, fm_fragmentation_ratio = 0,
     fm_free_regions = [\<lparr>fr_block_start = 4, fr_block_len = 2\<rparr>, \<lparr>fr_block_start = 1, fr_block_len = 3\<rparr>],
     fm_region_count = 2, fm_total_blocks = 9\<rparr>"

theorem defragment_keeps_space_witness:
  "\<exists>m'. defragment fm_demo = Some m' \<and> free_space (live_regions m') = free_space (live_regions fm_demo) \<and>
     fm_region_count m' \<le> 2"
proof -
  have "fm_inv fm_demo" by (simp add: fm_inv_def fm_demo_def region_ok_def INT_MAX_def)
  from defragment_keeps_space [OF this] show ?thesis by (auto simp: fm_demo_def)
qed

text \<open>The metrics: the free total is the sum of the region lengths, the largest their maximum.\<close>

lemma update_metrics_ok:
  fixes m :: "'d fragmentation_manager"
  assumes inv: "fm_inv m" and sum: "sum_list (map fr_block_len (live_regions m)) \<le> fm_total_blocks m"
    and tot: "0 \<le> fm_total_blocks m" "fm_total_blocks m \<le> INT_MAX"
  shows "\<exists>m'. update_fragmentation_metrics ops m = Some m' \<and>
    fm_used_space m' = fm_total_blocks m - sum_list (map fr_block_len (live_regions m)) \<and>
    (\<forall>r \<in> set (live_regions m). fr_block_len r \<le> fm_largest_free_block m')"
proof -
  define n where "n = nat (fm_region_count m)"
  let ?rs = "fm_free_regions m"
  have n: "n \<le> length ?rs" "\<forall>r \<in> set (take n ?rs). region_ok r" using inv by (auto simp: fm_inv_def n_def)
  have live: "live_regions m = take n ?rs" by (simp add: live_regions_def n_def)
  define body where "body = (\<lambda>i (l, t, w). do {
       r \<leftarrow> rd ?rs i;
       let region_size = fr_block_len r;
       t' \<leftarrow> chk (t + region_size);
       let part = db_div ops (db_of_int ops region_size) (db_of_int ops (fm_total_blocks m));
       Some (if region_size > l then region_size else l, t',
         db_add ops w (db_mul ops part (db_sub ops (db_one ops) part))) })"
  define P where "P k = (\<lambda>(l, t, w :: 'd). t = sum_list (map fr_block_len (take k ?rs)) \<and> 0 \<le> t \<and>
    (\<forall>r \<in> set (take k ?rs). fr_block_len r \<le> l))" for k
  have nonneg: "0 \<le> fr_block_len r" if "r \<in> set (take n ?rs)" for r using n(2) that by (auto simp: region_ok_def)
  have "\<exists>s. for_loop 0 n body (0, 0, db_zero ops) = Some s \<and> P n s"
  proof (rule for_loop_invar)
    show "P 0 (0, 0, db_zero ops)" by (simp add: P_def)
  next
    fix k s assume k: "0 \<le> k" "k < n" and P: "P k s"
    obtain l t w where s: "s = (l, t, w)" by (cases s)
    have kl: "k < length ?rs" using k n by simp
    have mem: "?rs ! k \<in> set (take n ?rs)" using k kl by (auto simp: in_set_conv_nth)
    have tk: "take (Suc k) ?rs = take k ?rs @ [?rs ! k]" using kl by (simp add: take_Suc_conv_app_nth)
    have "take n ?rs = take (Suc k) ?rs @ take (n - Suc k) (drop (Suc k) ?rs)"
      using k by (simp flip: take_add)
    moreover have "0 \<le> sum_list (map fr_block_len (take (n - Suc k) (drop (Suc k) ?rs)))"
    proof (rule sum_list_nonneg)
      fix x assume "x \<in> set (map fr_block_len (take (n - Suc k) (drop (Suc k) ?rs)))"
      then obtain r where "r \<in> set (take n ?rs)" "x = fr_block_len r" using calculation by auto
      with nonneg show "0 \<le> x" by blast
    qed
    ultimately have "t + fr_block_len (?rs ! k) \<le> sum_list (map fr_block_len (take n ?rs))"
      using P tk by (simp add: P_def s)
    then have "int_ok (t + fr_block_len (?rs ! k))"
      using P nonneg [OF mem] sum tot(2) live by (simp add: P_def s int_ok_def INT_MIN_def)
    then show "\<exists>s'. body k s = Some s' \<and> P (Suc k) s'"
      using P kl nonneg [OF mem] by (auto simp: body_def s P_def tk Let_def)
  qed simp
  then obtain l t w where lt: "for_loop 0 n body (0, 0, db_zero ops) = Some (l, t, w)" "P n (l, t, w)"
    by auto
  then have "int_ok (fm_total_blocks m - t)"
    using sum tot live by (simp add: P_def int_ok_def INT_MIN_def)
  with lt show ?thesis
    unfolding update_fragmentation_metrics_def n_def [symmetric] body_def [symmetric]
    by (simp add: P_def live)
qed

subsection \<open>Sub-blocks\<close>

record sub_block_group =
  bg_data :: size_t
  bg_bitmap :: "int list"
  bg_total_sub_blocks :: int
  bg_free_sub_blocks :: int

record block_size_manager =
  bm_standard_block_size :: int
  bm_sub_block_size :: int
  bm_blocks_per_group :: int
  bm_sub_block_groups :: "sub_block_group list"
  bm_group_count :: int

text \<open>
  The loop over the groups: one pair per group, the address of its data area (\<open>None\<close> when that
  allocation failed) and whether the bitmap could be allocated. \<open>Some None\<close> is the cleanup path.
\<close>

primrec init_groups :: "int \<Rightarrow> (size_t option \<times> bool) list \<Rightarrow> sub_block_group list option" where
  "init_groups per_group [] = Some []"
| "init_groups per_group (g # gs) = (case g of
     (Some a, True) \<Rightarrow> map_option (\<lambda>rest. \<lparr>bg_data = a, bg_bitmap = replicate (nat per_group) 0,
         bg_total_sub_blocks = per_group, bg_free_sub_blocks = per_group\<rparr> # rest) (init_groups per_group gs)
   | _ \<Rightarrow> None)"

definition init_block_size_manager ::
  "bool \<Rightarrow> bool \<Rightarrow> (size_t option \<times> bool) list \<Rightarrow> int \<Rightarrow> int \<Rightarrow> int \<Rightarrow> block_size_manager option option" where
  "init_block_size_manager manager_ok groups_ok mallocs std_size sub_size groups =
     (if \<not> manager_ok then Some None
      else if sub_size = 0 then None
      else do {
        per_group \<leftarrow> chk (c_div std_size sub_size);
        if \<not> groups_ok then Some None
        else Some (case init_groups per_group (take (nat groups) mallocs) of
            None \<Rightarrow> None
          | Some gs \<Rightarrow> Some \<lparr>bm_standard_block_size = std_size, bm_sub_block_size = sub_size,
              bm_blocks_per_group = per_group, bm_sub_block_groups = gs, bm_group_count = groups\<rparr>) })"

primrec free_sub_block :: "block_size_manager \<Rightarrow> nat list \<Rightarrow> (nat \<times> nat) option option" where
  "free_sub_block manager [] = Some None"
| "free_sub_block manager (i # is) = do {
     g \<leftarrow> rd (bm_sub_block_groups manager) i;
     if 0 < bg_free_sub_blocks g then do {
       h \<leftarrow> first_free (\<lambda>b. b = 0) (bg_bitmap g) (nat (bm_blocks_per_group manager));
       (case h of Some j \<Rightarrow> Some (Some (i, j)) | None \<Rightarrow> free_sub_block manager is) }
     else free_sub_block manager is }"

definition allocate_optimal_block ::
  "size_t option \<Rightarrow> block_size_manager \<Rightarrow> size_t \<Rightarrow> (block_size_manager \<times> size_t option) option" where
  "allocate_optimal_block malloc_result manager sz =
     (if sz \<le> of_int (bm_sub_block_size manager) then do {
        h \<leftarrow> free_sub_block manager [0..<nat (bm_group_count manager)];
        (case h of
           None \<Rightarrow> Some (manager, malloc_result)
         | Some (i, j) \<Rightarrow> do {
             g \<leftarrow> rd (bm_sub_block_groups manager) i;
             bitmap \<leftarrow> wr (bg_bitmap g) j 1;
             offset \<leftarrow> chk (int j * bm_sub_block_size manager);
             gs \<leftarrow> wr (bm_sub_block_groups manager) i
               (g\<lparr>bg_bitmap := bitmap, bg_free_sub_blocks := bg_free_sub_blocks g - 1\<rparr>);
             Some (manager\<lparr>bm_sub_block_groups := gs\<rparr>, Some (bg_data g + of_int offset)) }) }
      else Some (manager, malloc_result))"

definition bm_inv :: "block_size_manager \<Rightarrow> bool" where
  "bm_inv m \<longleftrightarrow> 0 \<le> bm_group_count m \<and> length (bm_sub_block_groups m) = nat (bm_group_count m) \<and>
     0 < bm_sub_block_size m \<and> bm_blocks_per_group m * bm_sub_block_size m \<le> INT_MAX \<and>
     (\<forall>g \<in> set (bm_sub_block_groups m). length (bg_bitmap g) = nat (bm_blocks_per_group m) \<and>
        bg_free_sub_blocks g = int (count_if (\<lambda>b. b = 0) (bg_bitmap g)))"

definition sub_block_free :: "block_size_manager \<Rightarrow> nat \<Rightarrow> nat \<Rightarrow> bool" where
  "sub_block_free m i j \<longleftrightarrow> i < length (bm_sub_block_groups m) \<and>
     j < length (bg_bitmap (bm_sub_block_groups m ! i)) \<and> bg_bitmap (bm_sub_block_groups m ! i) ! j = 0"

lemma free_sub_block_spec:
  assumes inv: "bm_inv m" and le: "k \<le> n" and n: "n = length (bm_sub_block_groups m)"
  shows "\<exists>h. free_sub_block m [k..<n] = Some h \<and> (case h of
      None \<Rightarrow> \<forall>i j. k \<le> i \<longrightarrow> \<not> sub_block_free m i j
    | Some (i, j) \<Rightarrow> k \<le> i \<and> sub_block_free m i j \<and> (\<forall>i' j'. k \<le> i' \<and> (i' < i \<or> i' = i \<and> j' < j) \<longrightarrow> \<not> sub_block_free m i' j'))"
  using le
proof (induction "n - k" arbitrary: k)
  case 0
  then show ?case using n by (simp add: sub_block_free_def)
next
  case (Suc d)
  then have k: "k < n" "d = n - Suc k" by auto
  from Suc.hyps(1) [OF k(2)] k(1) obtain h where h: "free_sub_block m [Suc k..<n] = Some h" "case h of
      None \<Rightarrow> \<forall>i j. Suc k \<le> i \<longrightarrow> \<not> sub_block_free m i j
    | Some (i, j) \<Rightarrow> Suc k \<le> i \<and> sub_block_free m i j \<and> (\<forall>i' j'. Suc k \<le> i' \<and> (i' < i \<or> i' = i \<and> j' < j) \<longrightarrow> \<not> sub_block_free m i' j')"
    by (auto simp: Suc_le_eq)
  let ?g = "bm_sub_block_groups m ! k"
  have upt: "[k..<n] = k # [Suc k..<n]" using k(1) by (rule upt_conv_Cons)
  have g: "length (bg_bitmap ?g) = nat (bm_blocks_per_group m)"
    "bg_free_sub_blocks ?g = int (count_if (\<lambda>b. b = 0) (bg_bitmap ?g))"
    using inv nth_mem [of k "bm_sub_block_groups m"] k(1) n by (auto simp: bm_inv_def)
  have skip: ?case if rest: "free_sub_block m [k..<n] = free_sub_block m [Suc k..<n]" and "\<forall>j. \<not> sub_block_free m k j"
  proof (cases h)
    case None
    have "\<not> sub_block_free m i j" if "k \<le> i" for i j
      using that h(2) None \<open>\<forall>j. \<not> sub_block_free m k j\<close> by (cases "i = k") (auto simp: Suc_le_eq)
    with None h(1) rest show ?thesis by auto
  next
    case (Some p)
    obtain i j where p: "p = (i, j)" by (cases p)
    have "\<not> sub_block_free m i' j'" if "k \<le> i'" "i' < i \<or> i' = i \<and> j' < j" for i' j'
      using that h(2) Some p \<open>\<forall>j. \<not> sub_block_free m k j\<close> by (cases "i' = k") (auto simp: Suc_le_eq)
    with Some p h rest show ?thesis by auto
  qed
  show ?case
  proof (cases "0 < bg_free_sub_blocks ?g")
    case False
    then have "\<not> (\<exists>b \<in> set (bg_bitmap ?g). b = 0)" using g(2) count_if_pos [of "\<lambda>b. b = 0" "bg_bitmap ?g"] by simp
    then have "\<forall>j. \<not> sub_block_free m k j" using nth_mem by (fastforce simp: sub_block_free_def)
    moreover have "free_sub_block m [k..<n] = free_sub_block m [Suc k..<n]" unfolding upt using False k(1) n by simp
    ultimately show ?thesis using skip by blast
  next
    case True
    have "nat (bm_blocks_per_group m) \<le> length (bg_bitmap ?g)" using g(1) by simp
    then show ?thesis
    proof (cases rule: first_free_cases [of _ _ "\<lambda>b. b = 0"])
      case none
      have "\<forall>j. \<not> sub_block_free m k j" using none(2) g(1) by (simp add: sub_block_free_def)
      moreover have "free_sub_block m [k..<n] = free_sub_block m [Suc k..<n]" unfolding upt using True none(1) k(1) n by simp
      ultimately show ?thesis using skip by blast
    next
      case (some j)
      then have "free_sub_block m [k..<n] = Some (Some (k, j))" unfolding upt using True k(1) n by simp
      moreover have "sub_block_free m k j" using some g k n by (simp add: sub_block_free_def)
      moreover have "\<not> sub_block_free m i' j'" if "k \<le> i' \<and> (i' < k \<or> i' = k \<and> j' < j)" for i' j'
        using that some by (auto simp: sub_block_free_def)
      ultimately show ?thesis by auto
    qed
  qed
qed

text \<open>
  A small request takes the first free sub-block of the first group that has one, marks it and keeps
  the books; it falls back on \<open>malloc\<close> exactly when every sub-block is taken.
\<close>

lemma allocate_sub_block:
  assumes inv: "bm_inv m" and small: "sz \<le> of_int (bm_sub_block_size m)"
  shows "(\<exists>m' i j. allocate_optimal_block r m sz =
        Some (m', Some (bg_data (bm_sub_block_groups m ! i) + of_int (int j * bm_sub_block_size m))) \<and>
      sub_block_free m i j \<and> (\<forall>i' j'. i' < i \<or> i' = i \<and> j' < j \<longrightarrow> \<not> sub_block_free m i' j') \<and>
      bm_inv m' \<and> (\<forall>i' j'. sub_block_free m' i' j' \<longleftrightarrow> sub_block_free m i' j' \<and> (i', j') \<noteq> (i, j))) \<or>
    (\<forall>i j. \<not> sub_block_free m i j) \<and> allocate_optimal_block r m sz = Some (m, r)"
proof -
  define n where "n = length (bm_sub_block_groups m)"
  have cnt: "nat (bm_group_count m) = n" using inv by (simp add: bm_inv_def n_def)
  from free_sub_block_spec [OF inv _ n_def, of 0] obtain h where h: "free_sub_block m [0..<n] = Some h" "case h of
      None \<Rightarrow> \<forall>i j. \<not> sub_block_free m i j
    | Some (i, j) \<Rightarrow> sub_block_free m i j \<and> (\<forall>i' j'. i' < i \<or> i' = i \<and> j' < j \<longrightarrow> \<not> sub_block_free m i' j')"
    by (auto split: option.splits prod.splits)
  show ?thesis
  proof (cases h)
    case None
    with h small show ?thesis by (simp add: allocate_optimal_block_def cnt)
  next
    case (Some p)
    obtain i j where p: "p = (i, j)" by (cases p)
    have fr: "sub_block_free m i j" "\<forall>i' j'. i' < i \<or> i' = i \<and> j' < j \<longrightarrow> \<not> sub_block_free m i' j'"
      using h(2) Some p by simp_all
    let ?g = "bm_sub_block_groups m ! i"
    let ?g' = "?g\<lparr>bg_bitmap := (bg_bitmap ?g)[j := 1], bg_free_sub_blocks := bg_free_sub_blocks ?g - 1\<rparr>"
    let ?m = "m\<lparr>bm_sub_block_groups := (bm_sub_block_groups m)[i := ?g']\<rparr>"
    have ij: "i < length (bm_sub_block_groups m)" "j < length (bg_bitmap ?g)" "bg_bitmap ?g ! j = 0"
      using fr(1) by (simp_all add: sub_block_free_def)
    have g: "length (bg_bitmap ?g) = nat (bm_blocks_per_group m)"
      "bg_free_sub_blocks ?g = int (count_if (\<lambda>b. b = 0) (bg_bitmap ?g))"
      using inv nth_mem [OF ij(1)] by (auto simp: bm_inv_def)
    have "int j * bm_sub_block_size m \<le> bm_blocks_per_group m * bm_sub_block_size m"
      using ij(2) g(1) inv by (intro mult_right_mono) (auto simp: bm_inv_def)
    also have "\<dots> \<le> INT_MAX" using inv by (simp add: bm_inv_def)
    finally have "int j * bm_sub_block_size m \<le> INT_MAX" .
    moreover have "0 \<le> int j * bm_sub_block_size m" using inv by (simp add: bm_inv_def)
    ultimately have "int_ok (int j * bm_sub_block_size m)" by (simp add: int_ok_def INT_MIN_def)
    then have eq: "allocate_optimal_block r m sz =
        Some (?m, Some (bg_data ?g + of_int (int j * bm_sub_block_size m)))"
      using h(1) Some p small ij by (simp add: allocate_optimal_block_def cnt)
    have "bg_free_sub_blocks ?g' = int (count_if (\<lambda>b. b = 0) (bg_bitmap ?g'))"
      using count_if_update [OF ij(2), of "\<lambda>b. b = 0" 1] ij(3) g(2) by simp
    then have "bm_inv ?m" using inv g ij by (auto simp: bm_inv_def dest!: subsetD [OF set_update_subset_insert])
    moreover have "sub_block_free ?m i' j' \<longleftrightarrow> sub_block_free m i' j' \<and> (i', j') \<noteq> (i, j)" for i' j'
      using ij by (cases "i' = i"; cases "j' = j") (auto simp: sub_block_free_def)
    ultimately show ?thesis using eq fr by blast
  qed
qed

end
