(* ===== verification/File_Journal.thy ===== *)
theory File_Journal
  imports Free_Regions
begin

section \<open>Prefetching and journaling: d27 performance\_optimization.c, recovery.c\<close>

subsection \<open>Access patterns and the prefetch queue\<close>

text \<open>
  The heat of a block is a \<open>double\<close>, of a type with the operations of \<open>double_ops\<close> and a comparison;
  the decay factor 0.95 is a parameter, the literal being a rounded value of that type.
\<close>

definition MAX_PREFETCH :: nat where "MAX_PREFETCH = 256"

record 'd performance_optimizer =
  po_blocks :: "int list"
  po_count :: int
  po_capacity :: int
  po_access_count :: "int list"
  po_access_pattern :: "int list"
  po_heat_map :: "'d list"
  po_total_blocks :: int
  po_window :: int

definition init_performance_optimizer ::
  "'d double_ops \<Rightarrow> bool \<Rightarrow> int list option \<Rightarrow> bool \<Rightarrow> int \<Rightarrow> int \<Rightarrow> 'd performance_optimizer option" where
  "init_performance_optimizer ops optimizer_ok raw metrics_ok total_blocks prefetch_size =
     (if \<not> optimizer_ok then None
      else case raw of
        None \<Rightarrow> None
      | Some blocks \<Rightarrow>
          if \<not> metrics_ok then None
          else Some \<lparr>po_blocks = blocks, po_count = 0, po_capacity = prefetch_size,
            po_access_count = replicate (nat total_blocks) 0, po_access_pattern = replicate (nat total_blocks) 0,
            po_heat_map = replicate (nat total_blocks) (db_zero ops), po_total_blocks = total_blocks,
            po_window = prefetch_size\<rparr>)"

definition queue_prefetch :: "'d performance_optimizer \<Rightarrow> int \<Rightarrow> 'd performance_optimizer option" where
  "queue_prefetch opt predict_block = do {
     (blocks, cnt) \<leftarrow> (if po_count opt \<ge> po_capacity opt then
         (if po_capacity opt < 1 \<or> length (po_blocks opt) < nat (po_capacity opt) then None
          else Some (take (nat (po_capacity opt - 1)) (drop 1 (po_blocks opt)) @
              drop (nat (po_capacity opt - 1)) (po_blocks opt), po_capacity opt - 1))
       else Some (po_blocks opt, po_count opt));
     blocks' \<leftarrow> wri blocks cnt predict_block;
     Some (opt\<lparr>po_blocks := blocks', po_count := cnt + 1\<rparr>) }"

definition predict_next_blocks ::
  "'d double_ops \<Rightarrow> ('d \<Rightarrow> 'd \<Rightarrow> bool) \<Rightarrow> 'd performance_optimizer \<Rightarrow> int \<Rightarrow> int list \<Rightarrow> (int list \<times> int) option" where
  "predict_next_blocks ops lt opt block_num predict_blocks = do {
     (pb, cnt) \<leftarrow> for_loop 1 (nat (po_window opt) + 1) (\<lambda>i (pb, cnt). do {
       next_block \<leftarrow> chk (block_num + int i);
       if next_block < po_total_blocks opt then do {
         pb' \<leftarrow> wri pb cnt next_block;
         Some (pb', cnt + 1) }
       else Some (pb, cnt) }) (predict_blocks, 0);
     (max_heat, hot_block) \<leftarrow> for_loop 0 (nat (po_total_blocks opt)) (\<lambda>i (max_heat, hot_block).
       if int i = block_num then Some (max_heat, hot_block)
       else do {
         h \<leftarrow> rd (po_heat_map opt) i;
         Some (if lt max_heat h then (h, int i) else (max_heat, hot_block)) }) (db_zero ops, -1);
     if hot_block \<ge> 0 \<and> cnt < int MAX_PREFETCH then do {
       pb' \<leftarrow> wri pb cnt hot_block;
       Some (pb', cnt + 1) }
     else Some (pb, cnt) }"

definition update_access_pattern ::
  "'d double_ops \<Rightarrow> ('d \<Rightarrow> 'd \<Rightarrow> bool) \<Rightarrow> 'd \<Rightarrow> int list \<Rightarrow> 'd performance_optimizer \<Rightarrow> int \<Rightarrow> 'd performance_optimizer option" where
  "update_access_pattern ops lt decay_factor raw opt block_num = do {
     c \<leftarrow> rdi (po_access_count opt) block_num;
     c' \<leftarrow> chk (c + 1);
     counts \<leftarrow> wri (po_access_count opt) block_num c';
     heat \<leftarrow> for_loop 0 (nat (po_total_blocks opt)) (\<lambda>i hs. do {
       h \<leftarrow> rd hs i; wr hs i (db_mul ops h decay_factor) }) (po_heat_map opt);
     h \<leftarrow> rdi heat block_num;
     heat' \<leftarrow> wri heat block_num (db_add ops h (db_one ops));
     let opt' = opt\<lparr>po_access_count := counts, po_heat_map := heat'\<rparr>;
     (predict_blocks, predict_count) \<leftarrow> predict_next_blocks ops lt opt' block_num raw;
     for_loop 0 (nat predict_count) (\<lambda>i o'. do {
       b \<leftarrow> rd predict_blocks i; queue_prefetch o' b }) opt' }"

definition po_inv :: "'d performance_optimizer \<Rightarrow> bool" where
  "po_inv opt \<longleftrightarrow> 1 \<le> po_capacity opt \<and> length (po_blocks opt) = nat (po_capacity opt) \<and>
     0 \<le> po_count opt \<and> po_count opt \<le> po_capacity opt"

definition prefetch_list :: "'d performance_optimizer \<Rightarrow> int list" where
  "prefetch_list opt = take (nat (po_count opt)) (po_blocks opt)"

text \<open>The last \<open>n\<close> elements of a list.\<close>

definition last_n :: "nat \<Rightarrow> 'a list \<Rightarrow> 'a list" where
  "last_n n xs = drop (length xs - n) xs"

lemma last_n_snoc: "1 \<le> n \<Longrightarrow> last_n n (last_n n xs @ [x]) = last_n n (xs @ [x])"
  by (cases "n \<le> length xs") (auto simp: last_n_def Suc_diff_le)

lemma queue_prefetch_ok:
  assumes inv: "po_inv opt"
  shows "\<exists>opt'. queue_prefetch opt b = Some opt' \<and> po_inv opt' \<and> po_capacity opt' = po_capacity opt \<and>
    prefetch_list opt' = last_n (nat (po_capacity opt)) (prefetch_list opt @ [b])"
proof -
  define c where "c = nat (po_capacity opt - 1)"
  have "1 \<le> po_capacity opt" using inv by (simp add: po_inv_def)
  then have c: "nat (po_capacity opt) = Suc c" "po_capacity opt = int (Suc c)" by (simp_all add: c_def)
  have len: "length (po_blocks opt) = Suc c" using inv c by (simp add: po_inv_def)
  show ?thesis
  proof (cases "po_count opt \<ge> po_capacity opt")
    case True
    then have full: "po_count opt = int (Suc c)" using inv c by (simp add: po_inv_def)
    let ?m = "take c (drop 1 (po_blocks opt)) @ drop c (po_blocks opt)"
    have lm: "length ?m = Suc c" using len by simp
    obtain y ys where ys: "po_blocks opt = y # ys" "length ys = c" using len by (cases "po_blocks opt") auto
    have "drop c (po_blocks opt) = [po_blocks opt ! c]"
      using len Cons_nth_drop_Suc [of c "po_blocks opt"] by simp
    then have "?m = ys @ [po_blocks opt ! c]" using ys by simp
    then have upd: "?m[c := b] = ys @ [b]" using ys(2) by (simp add: list_update_append)
    then show ?thesis
      using full c lm len ys inv upd
      by (simp add: queue_prefetch_def po_inv_def prefetch_list_def last_n_def nat_add_distrib)
  next
    case False
    define k where "k = nat (po_count opt)"
    have k: "po_count opt = int k" "k < Suc c" using False inv c by (simp_all add: po_inv_def k_def)
    then have "take (Suc k) ((po_blocks opt)[k := b]) = take k (po_blocks opt) @ [b]"
      using len by (simp add: take_Suc_conv_app_nth)
    moreover have "nat (1 + int k) = Suc k" by simp
    ultimately show ?thesis
      using k c len False
      by (simp add: queue_prefetch_def po_inv_def prefetch_list_def last_n_def nat_add_distrib add.commute)
  qed
qed

text \<open>However many blocks are queued, the queue holds the last \<open>capacity\<close> of them, in order.\<close>

lemma prefetch_keeps_latest:
  assumes "po_inv opt"
  shows "\<exists>opt'. foldM (\<lambda>b o'. queue_prefetch o' b) bs opt = Some opt' \<and> po_inv opt' \<and>
    po_capacity opt' = po_capacity opt \<and>
    prefetch_list opt' = (if bs = [] then prefetch_list opt else last_n (nat (po_capacity opt)) (prefetch_list opt @ bs))"
proof (induction bs rule: rev_induct)
  case Nil
  with assms show ?case by simp
next
  case (snoc b bs)
  then obtain o1 where o1: "foldM (\<lambda>b o'. queue_prefetch o' b) bs opt = Some o1" "po_inv o1"
    "po_capacity o1 = po_capacity opt"
    "prefetch_list o1 = (if bs = [] then prefetch_list opt else last_n (nat (po_capacity opt)) (prefetch_list opt @ bs))"
    by blast
  from queue_prefetch_ok [OF o1(2), of b] obtain o2 where o2: "queue_prefetch o1 b = Some o2" "po_inv o2"
    "po_capacity o2 = po_capacity o1"
    "prefetch_list o2 = last_n (nat (po_capacity o1)) (prefetch_list o1 @ [b])" by blast
  have "1 \<le> po_capacity opt" using assms by (simp add: po_inv_def)
  then have "1 \<le> nat (po_capacity opt)" by linarith
  from last_n_snoc [OF this, of "prefetch_list opt @ bs" b] o1 o2 show ?case
    by (auto simp: foldM_append)
qed

subsection \<open>The journal\<close>

record journal_entry =
  je_transaction_id :: int
  je_block_num :: int
  je_old_data :: "8 word list option"
  je_new_data :: "8 word list option"
  je_data_size :: int

record recovery_manager =
  rm_journal :: "journal_entry list"
  rm_capacity :: int
  rm_count :: int
  rm_checkpoint_interval :: int
  rm_last_checkpoint :: int

definition init_recovery_manager ::
  "bool \<Rightarrow> journal_entry list option \<Rightarrow> int \<Rightarrow> int \<Rightarrow> int \<Rightarrow> recovery_manager option" where
  "init_recovery_manager manager_ok raw now journal_size checkpoint_interval =
     (if \<not> manager_ok then None
      else case raw of
        None \<Rightarrow> None
      | Some entries \<Rightarrow> Some \<lparr>rm_journal = entries, rm_capacity = journal_size, rm_count = 0,
          rm_checkpoint_interval = checkpoint_interval, rm_last_checkpoint = now\<rparr>)"

text \<open>
  A checkpoint prints the pending entries (\<open>committed\<close>, as transaction, block and size) and frees their
  data. \<open>now\<close> is the value of \<open>time(NULL)\<close>.
\<close>

definition create_checkpoint ::
  "int \<Rightarrow> recovery_manager \<Rightarrow> (recovery_manager \<times> (int \<times> int \<times> int) list) option" where
  "create_checkpoint now manager =
     (if rm_count manager = 0 then Some (manager\<lparr>rm_last_checkpoint := now\<rparr>, [])
      else do {
        (entries, committed) \<leftarrow> for_loop 0 (nat (rm_count manager)) (\<lambda>i (es, out). do {
          e \<leftarrow> rd es i;
          es' \<leftarrow> wr es i (e\<lparr>je_old_data := None, je_new_data := None\<rparr>);
          Some (es', out @ [(je_transaction_id e, je_block_num e, je_data_size e)]) }) (rm_journal manager, []);
        Some (manager\<lparr>rm_journal := entries, rm_count := 0, rm_last_checkpoint := now\<rparr>, committed) })"

text \<open>\<open>memcpy\<close> of \<open>n\<close> bytes from a buffer that must hold as many.\<close>

definition bytes_of :: "8 word list \<Rightarrow> int \<Rightarrow> 8 word list option" where
  "bytes_of buf n = (if 0 \<le> n \<and> nat n \<le> length buf then Some (take (nat n) buf) else None)"

definition log_transaction ::
  "int \<Rightarrow> bool \<Rightarrow> bool \<Rightarrow> recovery_manager \<Rightarrow> int \<Rightarrow> 8 word list \<Rightarrow> 8 word list \<Rightarrow> int \<Rightarrow>
     (recovery_manager \<times> int \<times> (int \<times> int \<times> int) list) option" where
  "log_transaction now old_ok new_ok manager block_num old_data new_data sz = do {
     (manager, committed) \<leftarrow> (if rm_count manager \<ge> rm_capacity manager then create_checkpoint now manager
       else Some (manager, []));
     let idx = rm_count manager;
     e \<leftarrow> rdi (rm_journal manager) idx;
     let e = e\<lparr>je_transaction_id := idx, je_block_num := block_num,
       je_old_data := (if old_ok then Some [] else None), je_new_data := (if new_ok then Some [] else None)\<rparr>;
     let manager = manager\<lparr>rm_count := idx + 1\<rparr>;
     if \<not> old_ok \<or> \<not> new_ok then do {
       es \<leftarrow> wri (rm_journal manager) idx e;
       Some (manager\<lparr>rm_journal := es\<rparr>, -1, committed) }
     else do {
       old \<leftarrow> bytes_of old_data sz;
       new \<leftarrow> bytes_of new_data sz;
       es \<leftarrow> wri (rm_journal manager) idx
         (e\<lparr>je_old_data := Some old, je_new_data := Some new, je_data_size := sz\<rparr>);
       Some (manager\<lparr>rm_journal := es\<rparr>, idx, committed) } }"

definition destroy_recovery_manager :: "recovery_manager \<Rightarrow> unit option" where
  "destroy_recovery_manager manager = do {
     es \<leftarrow> for_loop 0 (nat (rm_count manager)) (\<lambda>i es. do {
       e \<leftarrow> rd es i; wr es i (e\<lparr>je_old_data := None, je_new_data := None\<rparr>) }) (rm_journal manager);
     Some () }"

definition rm_inv :: "recovery_manager \<Rightarrow> bool" where
  "rm_inv m \<longleftrightarrow> 1 \<le> rm_capacity m \<and> length (rm_journal m) = nat (rm_capacity m) \<and>
     0 \<le> rm_count m \<and> rm_count m \<le> rm_capacity m"

definition pending_entries :: "recovery_manager \<Rightarrow> journal_entry list" where
  "pending_entries m = take (nat (rm_count m)) (rm_journal m)"

definition entry_line :: "journal_entry \<Rightarrow> int \<times> int \<times> int" where
  "entry_line e = (je_transaction_id e, je_block_num e, je_data_size e)"

lemma journal_entry_all_fields:
  "e\<lparr>je_transaction_id := a, je_block_num := b, je_old_data := c, je_new_data := d, je_data_size := n\<rparr> =
    \<lparr>je_transaction_id = a, je_block_num = b, je_old_data = c, je_new_data = d, je_data_size = n\<rparr>"
  by (rule journal_entry.equality) simp_all

lemma create_checkpoint_ok:
  assumes inv: "rm_inv m"
  shows "\<exists>m'. create_checkpoint now m = Some (m', map entry_line (pending_entries m)) \<and> rm_inv m' \<and>
    rm_count m' = 0 \<and> rm_capacity m' = rm_capacity m \<and> rm_last_checkpoint m' = now"
proof (cases "rm_count m = 0")
  case True
  with inv show ?thesis by (simp add: create_checkpoint_def pending_entries_def rm_inv_def)
next
  case False
  define n where "n = nat (rm_count m)"
  have n: "n \<le> length (rm_journal m)" using inv by (auto simp: rm_inv_def n_def intro: nat_mono)
  define P where "P k = (\<lambda>(es, out). length es = length (rm_journal m) \<and>
    out = map entry_line (take k (rm_journal m)) \<and> drop k es = drop k (rm_journal m))" for k
  have "\<exists>s. for_loop 0 n (\<lambda>i (es, out). do {
          e \<leftarrow> rd es i;
          es' \<leftarrow> wr es i (e\<lparr>je_old_data := None, je_new_data := None\<rparr>);
          Some (es', out @ [(je_transaction_id e, je_block_num e, je_data_size e)]) }) (rm_journal m, []) = Some s \<and> P n s"
  proof (rule for_loop_invar)
    fix i s assume i: "0 \<le> i" "i < n" and P: "P i s"
    obtain es out where s: "s = (es, out)" by (cases s)
    have il: "i < length es" "i < length (rm_journal m)" using i n P by (simp_all add: P_def s)
    have "drop i es = drop i (rm_journal m)" using P by (simp add: P_def s)
    then have "es ! i = rm_journal m ! i" "drop (Suc i) es = drop (Suc i) (rm_journal m)"
      using il by (metis Cons_nth_drop_Suc list.inject)+
    with P il show "\<exists>s'. (case s of (es, out) \<Rightarrow> do {
          e \<leftarrow> rd es i;
          es' \<leftarrow> wr es i (e\<lparr>je_old_data := None, je_new_data := None\<rparr>);
          Some (es', out @ [(je_transaction_id e, je_block_num e, je_data_size e)]) }) = Some s' \<and> P (Suc i) s'"
      by (simp add: P_def s entry_line_def take_Suc_conv_app_nth)
  qed (simp_all add: P_def)
  with False inv show ?thesis
    by (auto simp: create_checkpoint_def n_def P_def pending_entries_def rm_inv_def)
qed

text \<open>
  Logging appends to the pending entries, after committing all of them first when the journal is
  full. The number it returns is the position in the journal, so numbers repeat after a checkpoint.
\<close>

lemma log_transaction_ok:
  assumes inv: "rm_inv m" and sz: "0 \<le> sz" "nat sz \<le> length old" "nat sz \<le> length new"
  defines "full \<equiv> rm_count m \<ge> rm_capacity m"
  shows "\<exists>m' e. log_transaction now True True m b old new sz =
      Some (m', (if full then 0 else rm_count m), (if full then map entry_line (pending_entries m) else [])) \<and>
    rm_inv m' \<and> pending_entries m' = (if full then [] else pending_entries m) @ [e] \<and>
    e = \<lparr>je_transaction_id = (if full then 0 else rm_count m), je_block_num = b,
      je_old_data = Some (take (nat sz) old), je_new_data = Some (take (nat sz) new), je_data_size = sz\<rparr>"
proof -
  obtain m1 where m1: "(if full then create_checkpoint now m else Some (m, [])) =
      Some (m1, if full then map entry_line (pending_entries m) else [])" "rm_inv m1" "rm_count m1 < rm_capacity m1"
      "rm_count m1 = (if full then 0 else rm_count m)" "pending_entries m1 = (if full then [] else pending_entries m)"
  proof (cases full)
    case True
    from create_checkpoint_ok [OF inv, of now] obtain m' where
      m': "create_checkpoint now m = Some (m', map entry_line (pending_entries m))" "rm_inv m'" "rm_count m' = 0"
        "rm_capacity m' = rm_capacity m" by blast
    have "rm_count m' < rm_capacity m'" using m'(2,3) by (simp add: rm_inv_def)
    with m' True show ?thesis by (intro that [of m']) (simp_all add: pending_entries_def)
  next
    case False
    with inv show ?thesis by (intro that [of m]) (simp_all add: full_def)
  qed
  define k where "k = nat (rm_count m1)"
  have k: "rm_count m1 = int k" "k < length (rm_journal m1)" "length (rm_journal m1) = nat (rm_capacity m1)"
    using m1(2,3) by (simp_all add: rm_inv_def k_def)
  define e where "e = \<lparr>je_transaction_id = rm_count m1, je_block_num = b,
      je_old_data = Some (take (nat sz) old), je_new_data = Some (take (nat sz) new), je_data_size = sz\<rparr>"
  define m2 where "m2 = m1\<lparr>rm_count := rm_count m1 + 1, rm_journal := (rm_journal m1)[k := e]\<rparr>"
  have "log_transaction now True True m b old new sz =
      Some (m2, rm_count m1, if full then map entry_line (pending_entries m) else [])"
    unfolding log_transaction_def full_def [symmetric] m1(1)
    using k sz by (simp add: bytes_of_def e_def m2_def Let_def journal_entry_all_fields)
  moreover have "rm_inv m2" using m1(2,3) by (simp add: rm_inv_def m2_def)
  moreover have "pending_entries m2 = pending_entries m1 @ [e]"
  proof -
    have "nat (rm_count m1 + 1) = Suc k" using k by simp
    then show ?thesis using k by (simp add: pending_entries_def m2_def take_Suc_conv_app_nth)
  qed
  ultimately show ?thesis using m1(4,5) e_def by (intro exI [of _ m2] exI [of _ e]) simp
qed

end
