(* ===== verification/Directory_Table.thy ===== *)
theory Directory_Table
  imports OS_Prelude
begin

section \<open>Directories: d26 directory_implementation.c, directory_organization.c, path_resolution.c\<close>

text \<open>
  A directory as an array of entries searched from the front, the hash directory with 1024 chains, and
  the splitting of a path. Name buffers are kept as the arrays they are (\<open>c_strncpy\<close>, \<open>c_string\<close>), with
  the contents \<open>malloc\<close> left in them as a parameter. Both organisations provide the interface
  \<open>name_table\<close>, whose lemma says what a series of insertions leaves to be found.
  A null pointer argument is \<open>None\<close>; \<open>time (NULL)\<close> is a parameter.
\<close>

subsection \<open>The interface\<close>

definition short_name :: "string \<Rightarrow> bool" where
  "short_name n \<longleftrightarrow> length n < 254 \<and> CHR 0x00 \<notin> set n"

primrec add_all :: "(string \<Rightarrow> 'a \<Rightarrow> 's \<Rightarrow> ('s \<times> int) option) \<Rightarrow> (string \<times> 'a) list \<Rightarrow> 's \<Rightarrow> ('s \<times> int list) option" where
  "add_all add [] s = Some (s, [])"
| "add_all add (x # xs) s = do {
     (s', rc) \<leftarrow> add (fst x) (snd x) s;
     (s'', rcs) \<leftarrow> add_all add xs s';
     Some (s'', rc # rcs) }"

text \<open>
  An insertion changes the map of names to values by \<open>put\<close> and returns a code; what is inserted (\<open>'a\<close>) may be more than the value.
\<close>

locale name_table =
  fixes inv :: "'s \<Rightarrow> bool"
    and fits :: "'s \<Rightarrow> nat \<Rightarrow> bool"
    and names :: "'s \<Rightarrow> string \<rightharpoonup> 'v"
    and find_name :: "'s \<Rightarrow> string \<Rightarrow> 'v option option"
    and add_name :: "string \<Rightarrow> 'a \<Rightarrow> 's \<Rightarrow> ('s \<times> int) option"
    and put :: "string \<Rightarrow> 'a \<Rightarrow> (string \<rightharpoonup> 'v) \<Rightarrow> string \<rightharpoonup> 'v"
    and code :: "'a \<Rightarrow> int"
  assumes find_names: "inv s \<Longrightarrow> find_name s n = Some (names s n)"
    and add_short: "\<lbrakk>inv s; fits s (Suc k); short_name n\<rbrakk> \<Longrightarrow>
      \<exists>s'. add_name n a s = Some (s', code a) \<and> inv s' \<and> fits s' k \<and> names s' = put n a (names s)"
begin

lemma add_all_then_find:
  assumes "inv s" and "fits s (length xs)" and "\<forall>x \<in> set xs. short_name (fst x)"
  shows "\<exists>s'. add_all add_name xs s = Some (s', map (\<lambda>x. code (snd x)) xs) \<and> inv s' \<and>
    (\<forall>n. find_name s' n = Some (fold (\<lambda>x. put (fst x) (snd x)) xs (names s) n))"
  using assms
proof (induction xs arbitrary: s)
  case Nil
  then show ?case by (simp add: find_names)
next
  case (Cons x xs)
  from Cons.prems have "fits s (Suc (length xs))" "short_name (fst x)" by simp_all
  from add_short [OF Cons.prems(1) this] obtain s1 where
    s1: "add_name (fst x) (snd x) s = Some (s1, code (snd x))" "inv s1" "fits s1 (length xs)"
      "names s1 = put (fst x) (snd x) (names s)" by blast
  have "\<forall>x \<in> set xs. short_name (fst x)" using Cons.prems(3) by simp
  from Cons.IH [OF s1(2,3) this] s1(1,4) show ?case by auto
qed

end

text \<open>
  The array keeps the first entry of a name, the hash directory hides it behind the newest one; an entry whose node could not
  be allocated is not stored.
\<close>

definition put_first :: "string \<Rightarrow> 'v \<times> bool \<Rightarrow> (string \<rightharpoonup> 'v) \<Rightarrow> string \<rightharpoonup> 'v" where
  "put_first n a m = (if m n = None then m(n \<mapsto> fst a) else m)"

definition put_newest :: "string \<Rightarrow> 'v \<times> bool \<Rightarrow> (string \<rightharpoonup> 'v) \<Rightarrow> string \<rightharpoonup> 'v" where
  "put_newest n a m = (if snd a then m(n \<mapsto> fst a) else m)"

definition typed :: "(string \<times> 'v \<times> bool) list \<Rightarrow> (string \<times> 'v) list" where
  "typed xs = map (\<lambda>(n, v, ok). (n, v)) xs"

definition stored :: "(string \<times> 'v \<times> bool) list \<Rightarrow> (string \<times> 'v) list" where
  "stored xs = typed (filter (\<lambda>(n, v, ok). ok) xs)"

lemma fold_put_first: "fold (\<lambda>x. put_first (fst x) (snd x)) xs m = map_of (typed xs) ++ m"
  by (induction xs arbitrary: m) (auto simp: put_first_def typed_def map_add_def fun_eq_iff split: option.splits)

lemma fold_put_newest: "fold (\<lambda>x. put_newest (fst x) (snd x)) xs m = m ++ map_of (rev (stored xs))"
  by (induction xs arbitrary: m) (auto simp: put_newest_def stored_def typed_def map_add_def fun_eq_iff split: option.splits)

lemma map_of_rev_distinct: "distinct (map fst xs) \<Longrightarrow> map_of (rev xs) = map_of xs"
  by (metis distinct_rev map_of_eqI map_of_is_SomeI map_of_SomeD rev_map set_rev map_of_inject_set)

text \<open>The first match of a search by index is what \<open>map_of\<close> finds.\<close>

lemma find_is_map_of:
  "(case find (\<lambda>i. f (xs ! i) = n) [0..<length xs] of None \<Rightarrow> None | Some i \<Rightarrow> Some (g (xs ! i))) =
     map_of (map (\<lambda>x. (f x, g x)) xs) n"
proof (induction xs)
  case (Cons x xs)
  show ?case
  proof (cases "f x = n")
    case True
    then show ?thesis using find_nth_Cons [of "\<lambda>y. f y = n" x xs] by simp
  next
    case False
    then show ?thesis using find_nth_Cons [of "\<lambda>y. f y = n" x xs] Cons
      by (cases "find (\<lambda>i. f (xs ! i) = n) [0..<length xs]") auto
  qed
qed simp

subsection \<open>Directories as arrays\<close>

definition MAX_NAME_LEN :: nat where "MAX_NAME_LEN = 255"
definition MAX_PATH_LEN :: nat where "MAX_PATH_LEN = 4096"
definition MAX_ENTRIES :: nat where "MAX_ENTRIES = 1024"

datatype entry_type = ENTRY_TYPE_FILE | ENTRY_TYPE_DIRECTORY | ENTRY_TYPE_SYMLINK | ENTRY_TYPE_SPECIAL

text \<open>\<open>parent\<close> points into the array of entries and is an index here.\<close>

record directory_entry =
  de_name :: "char list"
  de_type :: entry_type
  de_size :: size_t
  de_created_time :: int
  de_modified_time :: int
  de_permissions :: c_uint
  de_inode_num :: size_t
  de_parent :: "nat option"

text \<open>\<open>entry_cnt\<close> only grows below \<open>capacity\<close>, so it never wraps.\<close>

record directory =
  dir_entries :: "directory_entry list"
  dir_entry_cnt :: nat
  dir_capacity :: nat
  dir_path :: "char list"

definition init_directory ::
  "bool \<Rightarrow> directory_entry list option \<Rightarrow> char list \<Rightarrow> string \<Rightarrow> int \<Rightarrow> int \<Rightarrow> directory option option" where
  "init_directory dir_ok raw raw_path path t1 t2 =
     (if \<not> dir_ok then Some None
      else case raw of
        None \<Rightarrow> Some None
      | Some es \<Rightarrow> do {
          e \<leftarrow> rd es 0;
          let e1 = e\<lparr>de_name := c_strncpy (de_name e) ''.'' MAX_NAME_LEN, de_type := ENTRY_TYPE_DIRECTORY,
            de_created_time := t1, de_modified_time := t1, de_parent := None\<rparr>;
          let e2 = e1\<lparr>de_name := c_strncpy (de_name e1) ''..'' MAX_NAME_LEN, de_type := ENTRY_TYPE_DIRECTORY,
            de_created_time := t2, de_modified_time := t2, de_parent := None\<rparr>;
          es' \<leftarrow> wr es 0 e2;
          Some (Some \<lparr>dir_entries = es', dir_entry_cnt = 2, dir_capacity = MAX_ENTRIES,
            dir_path = c_strncpy raw_path path (MAX_PATH_LEN - 1)\<rparr>) })"

definition add_directory_entry ::
  "directory option \<Rightarrow> string option \<Rightarrow> entry_type \<Rightarrow> int \<Rightarrow> (directory option \<times> int) option" where
  "add_directory_entry dir name type now =
     (case (dir, name) of
        (Some d, Some n) \<Rightarrow>
          if dir_entry_cnt d \<ge> dir_capacity d then Some (dir, -1)
          else do {
            e \<leftarrow> rd (dir_entries d) (dir_entry_cnt d);
            es \<leftarrow> wr (dir_entries d) (dir_entry_cnt d)
              (e\<lparr>de_name := c_strncpy (de_name e) n (MAX_NAME_LEN - 1), de_type := type,
                de_created_time := now, de_modified_time := now, de_parent := Some 0\<rparr>);
            Some (Some (d\<lparr>dir_entries := es, dir_entry_cnt := dir_entry_cnt d + 1\<rparr>), 0) }
      | _ \<Rightarrow> Some (dir, -1))"

definition find_entry :: "directory option \<Rightarrow> string option \<Rightarrow> nat option option" where
  "find_entry dir name =
     (case (dir, name) of
        (Some d, Some n) \<Rightarrow> search_first 0 (dir_entry_cnt d) (\<lambda>i. do {
          e \<leftarrow> rd (dir_entries d) i;
          s \<leftarrow> c_string (de_name e);
          Some (s = n) })
      | _ \<Rightarrow> Some None)"

definition dir_wf :: "directory \<Rightarrow> bool" where
  "dir_wf d \<longleftrightarrow> dir_entry_cnt d \<le> dir_capacity d \<and> length (dir_entries d) = dir_capacity d \<and>
     (\<forall>e \<in> set (dir_entries d). length (de_name e) = MAX_NAME_LEN) \<and>
     (\<forall>e \<in> set (take (dir_entry_cnt d) (dir_entries d)). c_string (de_name e) \<noteq> None)"

definition entry_name :: "directory_entry \<Rightarrow> string" where
  "entry_name e = the (c_string (de_name e))"

definition dir_listing :: "directory \<Rightarrow> (string \<times> entry_type) list" where
  "dir_listing d = map (\<lambda>e. (entry_name e, de_type e)) (take (dir_entry_cnt d) (dir_entries d))"

text \<open>What a caller learns through the pointer \<open>find_entry\<close> returns.\<close>

definition find_type :: "directory \<Rightarrow> string \<Rightarrow> entry_type option option" where
  "find_type d n = do {
     r \<leftarrow> find_entry (Some d) (Some n);
     (case r of None \<Rightarrow> Some None | Some i \<Rightarrow> do { e \<leftarrow> rd (dir_entries d) i; Some (Some (de_type e)) }) }"

definition add_named :: "int \<Rightarrow> string \<Rightarrow> entry_type \<times> bool \<Rightarrow> directory \<Rightarrow> (directory \<times> int) option" where
  "add_named now n a d = do {
     (d', rc) \<leftarrow> add_directory_entry (Some d) (Some n) (fst a) now;
     (case d' of None \<Rightarrow> None | Some d' \<Rightarrow> Some (d', rc)) }"

lemma find_entry_eq:
  assumes "dir_wf d"
  shows "find_entry (Some d) (Some n) =
    Some (find (\<lambda>i. entry_name (take (dir_entry_cnt d) (dir_entries d) ! i) = n) [0..<dir_entry_cnt d])"
proof -
  have "do { e \<leftarrow> rd (dir_entries d) i; s \<leftarrow> c_string (de_name e); Some (s = n) } =
      Some (entry_name (take (dir_entry_cnt d) (dir_entries d) ! i) = n)" if i: "i < dir_entry_cnt d" for i
  proof -
    have "take (dir_entry_cnt d) (dir_entries d) ! i \<in> set (take (dir_entry_cnt d) (dir_entries d))"
      using assms i by (intro nth_mem) (simp add: dir_wf_def)
    with assms obtain s where "c_string (de_name (dir_entries d ! i)) = Some s"
      unfolding dir_wf_def using i by fastforce
    with assms i show ?thesis by (simp add: dir_wf_def entry_name_def)
  qed
  then show ?thesis
    by (simp add: find_entry_def search_first_total [where q = "\<lambda>i. entry_name (take (dir_entry_cnt d) (dir_entries d) ! i) = n"]
      del: nth_take)
qed

lemma find_type_eq:
  assumes "dir_wf d"
  shows "find_type d n = Some (map_of (dir_listing d) n)"
proof -
  let ?xs = "take (dir_entry_cnt d) (dir_entries d)"
  have len: "length ?xs = dir_entry_cnt d" "dir_entry_cnt d \<le> length (dir_entries d)"
    using assms by (auto simp: dir_wf_def)
  show ?thesis
  proof (cases "find (\<lambda>i. entry_name (?xs ! i) = n) [0..<dir_entry_cnt d]")
    case None
    with find_is_map_of [where f = entry_name and xs = ?xs and n = n and g = de_type] len show ?thesis
      by (simp add: find_type_def find_entry_eq [OF assms] dir_listing_def)
  next
    case (Some i)
    then have "i < dir_entry_cnt d" by (simp add: find_upt_Some)
    with Some find_is_map_of [where f = entry_name and xs = ?xs and n = n and g = de_type] len show ?thesis
      by (simp add: find_type_def find_entry_eq [OF assms] dir_listing_def)
  qed
qed

lemma add_directory_entry_ok:
  assumes wf: "dir_wf d" and room: "dir_entry_cnt d < dir_capacity d" and n: "short_name n"
  shows "\<exists>d'. add_directory_entry (Some d) (Some n) t now = Some (Some d', 0) \<and> dir_wf d' \<and>
    dir_entry_cnt d' = dir_entry_cnt d + 1 \<and> dir_capacity d' = dir_capacity d \<and>
    dir_listing d' = dir_listing d @ [(n, t)]"
proof -
  let ?c = "dir_entry_cnt d"
  define e where "e = (dir_entries d ! ?c)\<lparr>de_name := c_strncpy (de_name (dir_entries d ! ?c)) n (MAX_NAME_LEN - 1),
    de_type := t, de_created_time := now, de_modified_time := now, de_parent := Some 0\<rparr>"
  define d' where "d' = d\<lparr>dir_entries := (dir_entries d)[?c := e], dir_entry_cnt := ?c + 1\<rparr>"
  have c: "?c < length (dir_entries d)" using wf room by (simp add: dir_wf_def)
  then have len: "length (de_name (dir_entries d ! ?c)) = 255"
    using wf by (simp add: dir_wf_def MAX_NAME_LEN_def)
  have e: "c_string (de_name e) = Some n" "length (de_name e) = MAX_NAME_LEN" "de_type e = t"
    using n len by (simp_all add: e_def short_name_def MAX_NAME_LEN_def c_string_strncpy length_c_strncpy)
  have es: "take (Suc ?c) ((dir_entries d)[?c := e]) = take ?c (dir_entries d) @ [e]"
    using c by (simp add: take_Suc_conv_app_nth)
  have "add_directory_entry (Some d) (Some n) t now = Some (Some d', 0)"
    using c room by (simp add: add_directory_entry_def e_def d'_def)
  moreover have "\<forall>x \<in> set ((dir_entries d)[?c := e]). length (de_name x) = MAX_NAME_LEN"
    using wf e(2) set_update_subset_insert [of "dir_entries d" ?c e] by (auto simp: dir_wf_def)
  then have "dir_wf d'" using wf room es e(1) by (auto simp: dir_wf_def d'_def)
  moreover have "dir_listing d' = dir_listing d @ [(n, t)]"
    using es e(1,3) by (simp add: dir_listing_def d'_def entry_name_def)
  ultimately show ?thesis by (intro exI [of _ d']) (simp add: d'_def)
qed

lemma add_directory_entry_full:
  "dir_capacity d \<le> dir_entry_cnt d \<Longrightarrow> add_directory_entry (Some d) (Some n) t now = Some (Some d, -1)"
  by (simp add: add_directory_entry_def)

interpretation linear_dir: name_table dir_wf "\<lambda>d k. dir_entry_cnt d + k \<le> dir_capacity d"
  "\<lambda>d. map_of (dir_listing d)" find_type "add_named now" put_first "\<lambda>_. 0" for now
proof
  fix d k n and a :: "entry_type \<times> bool"
  assume d: "dir_wf d" "dir_entry_cnt d + Suc k \<le> dir_capacity d" "short_name n"
  then have "dir_entry_cnt d < dir_capacity d" by simp
  from add_directory_entry_ok [OF d(1) this d(3), of "fst a" now] obtain d' where
    "add_directory_entry (Some d) (Some n) (fst a) now = Some (Some d', 0)" "dir_wf d'"
    "dir_entry_cnt d' = dir_entry_cnt d + 1" "dir_capacity d' = dir_capacity d" "dir_listing d' = dir_listing d @ [(n, fst a)]"
    by blast
  with d show "\<exists>d'. add_named now n a d = Some (d', 0) \<and> dir_wf d' \<and> dir_entry_cnt d' + k \<le> dir_capacity d' \<and>
      map_of (dir_listing d') = put_first n a (map_of (dir_listing d))"
    by (intro exI [of _ d']) (auto simp: add_named_def put_first_def map_add_def fun_eq_iff split: option.splits)
qed (rule find_type_eq)


subsection \<open>Hash directories\<close>

definition HASH_SIZE :: nat where "HASH_SIZE = 1024"

text \<open>\<open>char\<close> is signed: characters above 127 are added as negative numbers.\<close>

fun hash_loop :: "string \<Rightarrow> c_uint \<Rightarrow> c_uint" where
  "hash_loop [] hash = hash"
| "hash_loop (c # cs) hash = hash_loop cs (hash * 31 + scast (of_char c :: 8 word))"

definition hash_function :: "string \<Rightarrow> c_uint" where
  "hash_function name = hash_loop name 0 mod 1024"

text \<open>A bucket is the chain of its nodes, the newest first.\<close>

record hash_directory =
  hd_buckets :: "directory_entry list list"

definition create_hash_directory :: "bool \<Rightarrow> hash_directory option" where
  "create_hash_directory dir_ok = (if \<not> dir_ok then None else Some \<lparr>hd_buckets = replicate HASH_SIZE []\<rparr>)"

definition hash_directory_insert ::
  "bool \<Rightarrow> hash_directory option \<Rightarrow> directory_entry \<Rightarrow> (hash_directory option \<times> int) option" where
  "hash_directory_insert node_ok dir entry =
     (case dir of
        None \<Rightarrow> Some (dir, -1)
      | Some d \<Rightarrow> do {
          name \<leftarrow> c_string (de_name entry);
          let hash = unat (hash_function name);
          if \<not> node_ok then Some (dir, -1)
          else do {
            chain \<leftarrow> rd (hd_buckets d) hash;
            bs \<leftarrow> wr (hd_buckets d) hash (entry # chain);
            Some (Some (d\<lparr>hd_buckets := bs\<rparr>), 0) } })"

fun chain_lookup :: "directory_entry list \<Rightarrow> string \<Rightarrow> directory_entry option option" where
  "chain_lookup [] name = Some None"
| "chain_lookup (e # es) name = do {
     s \<leftarrow> c_string (de_name e);
     if s = name then Some (Some e) else chain_lookup es name }"

definition hash_directory_lookup :: "hash_directory option \<Rightarrow> string option \<Rightarrow> directory_entry option option" where
  "hash_directory_lookup dir name =
     (case (dir, name) of
        (Some d, Some n) \<Rightarrow> do {
          chain \<leftarrow> rd (hd_buckets d) (unat (hash_function n));
          chain_lookup chain n }
      | _ \<Rightarrow> Some None)"

text \<open>Every entry is a well-formed name in the bucket its hash selects.\<close>

definition hd_wf :: "hash_directory \<Rightarrow> bool" where
  "hd_wf d \<longleftrightarrow> length (hd_buckets d) = HASH_SIZE \<and>
     (\<forall>h < HASH_SIZE. \<forall>e \<in> set (hd_buckets d ! h).
        c_string (de_name e) \<noteq> None \<and> unat (hash_function (entry_name e)) = h)"

text \<open>The map a hash directory stands for.\<close>

definition hd_map :: "hash_directory \<Rightarrow> string \<rightharpoonup> directory_entry" where
  "hd_map d n = map_of (map (\<lambda>e. (entry_name e, e)) (hd_buckets d ! unat (hash_function n))) n"

lemma hash_function_bound: "unat (hash_function n) < HASH_SIZE"
  by (simp add: hash_function_def HASH_SIZE_def unat_mod)

lemma chain_lookup_eq:
  "(\<forall>e \<in> set es. c_string (de_name e) \<noteq> None) \<Longrightarrow>
     chain_lookup es n = Some (map_of (map (\<lambda>e. (entry_name e, e)) es) n)"
  by (induction es) (auto simp: entry_name_def)

lemma hash_lookup_map:
  assumes "hd_wf d"
  shows "hash_directory_lookup (Some d) (Some n) = Some (hd_map d n)"
  using assms hash_function_bound [of n]
  by (simp add: hash_directory_lookup_def hd_wf_def hd_map_def chain_lookup_eq)

lemma hash_insert_map:
  assumes "hd_wf d" and "c_string (de_name e) = Some s"
  shows "\<exists>d'. hash_directory_insert True (Some d) e = Some (Some d', 0) \<and> hd_wf d' \<and> hd_map d' = (hd_map d)(s \<mapsto> e)"
proof -
  let ?h = "unat (hash_function s)"
  define d' where "d' = d\<lparr>hd_buckets := (hd_buckets d)[?h := e # hd_buckets d ! ?h]\<rparr>"
  have h: "?h < length (hd_buckets d)" using assms(1) hash_function_bound [of s] by (simp add: hd_wf_def)
  have s: "entry_name e = s" using assms(2) by (simp add: entry_name_def)
  have "hash_directory_insert True (Some d) e = Some (Some d', 0)"
    using h assms(2) by (simp add: hash_directory_insert_def d'_def Let_def)
  moreover have "hd_wf d'"
    using assms h s by (auto simp: hd_wf_def d'_def nth_list_update)
  moreover have "hd_map d' n = ((hd_map d)(s \<mapsto> e)) n" for n
    using h s by (auto simp: hd_map_def d'_def nth_list_update)
  ultimately show ?thesis by blast
qed

lemma create_hash_directory_wf:
  "\<exists>d. create_hash_directory True = Some d \<and> hd_wf d \<and> hd_map d = Map.empty"
  using hash_function_bound
  by (auto simp: create_hash_directory_def hd_wf_def hd_map_def fun_eq_iff HASH_SIZE_def)

text \<open>A caller's entry with name \<open>n\<close> and type \<open>t\<close>, and what it finds again.\<close>

definition named_entry :: "directory_entry \<Rightarrow> string \<Rightarrow> entry_type \<Rightarrow> directory_entry" where
  "named_entry e n t = e\<lparr>de_name := c_strncpy (de_name e) n (MAX_NAME_LEN - 1), de_type := t\<rparr>"

definition blank_entry :: directory_entry where
  "blank_entry = \<lparr>de_name = replicate MAX_NAME_LEN (CHR 0x00), de_type = ENTRY_TYPE_FILE, de_size = 0,
     de_created_time = 0, de_modified_time = 0, de_permissions = 0, de_inode_num = 0, de_parent = None\<rparr>"

text \<open>
  The caller puts name and type into an entry of its own (\<open>raw_entry\<close> is what that held before); the second component of \<open>a\<close> says
  whether \<open>malloc\<close> succeeds.
\<close>

definition hash_add :: "directory_entry \<Rightarrow> string \<Rightarrow> entry_type \<times> bool \<Rightarrow> hash_directory \<Rightarrow> (hash_directory \<times> int) option" where
  "hash_add raw_entry n a d = do {
     (d', rc) \<leftarrow> hash_directory_insert (snd a) (Some d) (named_entry raw_entry n (fst a));
     (case d' of None \<Rightarrow> None | Some d' \<Rightarrow> Some (d', rc)) }"

definition hash_type :: "hash_directory \<Rightarrow> string \<Rightarrow> entry_type option option" where
  "hash_type d n = do { r \<leftarrow> hash_directory_lookup (Some d) (Some n); Some (map_option de_type r) }"

lemma named_entry_c_string:
  "\<lbrakk>short_name n; length (de_name e) = MAX_NAME_LEN\<rbrakk> \<Longrightarrow> c_string (de_name (named_entry e n t)) = Some n"
  by (simp add: named_entry_def short_name_def MAX_NAME_LEN_def c_string_strncpy)

lemma named_entry_name: "short_name n \<Longrightarrow> c_string (de_name (named_entry blank_entry n t)) = Some n"
  by (rule named_entry_c_string) (simp_all add: blank_entry_def)

lemma hash_add_map:
  assumes wf: "hd_wf d" and n: "short_name n" and raw: "length (de_name raw_entry) = MAX_NAME_LEN"
  shows "\<exists>d'. hash_add raw_entry n a d = Some (d', if snd a then 0 else - 1) \<and> hd_wf d' \<and>
    hd_map d' = (if snd a then (hd_map d)(n \<mapsto> named_entry raw_entry n (fst a)) else hd_map d)"
proof (cases "snd a")
  case True
  with hash_insert_map [OF wf named_entry_c_string [OF n raw, of "fst a"]] show ?thesis by (auto simp: hash_add_def)
next
  case False
  with wf show ?thesis by (simp add: hash_add_def hash_directory_insert_def named_entry_c_string [OF n raw] Let_def)
qed

interpretation hash_dir: name_table hd_wf "\<lambda>_ _. length (de_name raw_entry) = MAX_NAME_LEN"
  "\<lambda>d n. map_option de_type (hd_map d n)" hash_type "hash_add raw_entry" put_newest "\<lambda>a. if snd a then 0 else - 1" for raw_entry
proof
  fix d n assume "hd_wf d"
  then show "hash_type d n = Some (map_option de_type (hd_map d n))" by (simp add: hash_type_def hash_lookup_map)
next
  fix d and k :: nat and n and a :: "entry_type \<times> bool"
  assume "hd_wf d" "length (de_name raw_entry) = MAX_NAME_LEN" "short_name n"
  from hash_add_map [OF this(1,3,2), of a]
  show "\<exists>d'. hash_add raw_entry n a d = Some (d', if snd a then 0 else - 1) \<and> hd_wf d' \<and>
      length (de_name raw_entry) = MAX_NAME_LEN \<and>
      (\<lambda>m. map_option de_type (hd_map d' m)) = put_newest n a (\<lambda>m. map_option de_type (hd_map d m))"
    using \<open>length (de_name raw_entry) = MAX_NAME_LEN\<close> by (auto simp: fun_eq_iff named_entry_def put_newest_def)
qed

subsection \<open>A new directory\<close>

lemma init_directory_ok:
  assumes raw: "length raw = MAX_ENTRIES" "\<forall>e \<in> set raw. length (de_name e) = MAX_NAME_LEN"
    and junk: "c_string (de_name (raw ! 1)) = Some junk"
  shows "\<exists>d. init_directory True (Some raw) rp path t1 t2 = Some (Some d) \<and> dir_wf d \<and> dir_entry_cnt d = 2 \<and>
    dir_capacity d = 1024 \<and> dir_listing d = [(''..'', ENTRY_TYPE_DIRECTORY), (junk, de_type (raw ! 1))]"
proof -
  have "2 \<le> length raw" using raw(1) by (simp add: MAX_ENTRIES_def)
  then obtain e f es where r: "raw = e # f # es" by (metis One_nat_def Suc_1 length_Cons list.size(3) neq_Nil_conv not_less_eq_eq le_numeral_extra(3) zero_le)
  define b where "b = c_strncpy (c_strncpy (de_name e) ''.'' 255) ''..'' 255"
  have b: "c_string b = Some ''..''" "length b = 255"
    using raw(2) by (simp_all add: b_def r MAX_NAME_LEN_def c_string_strncpy length_c_strncpy)
  define e2 where "e2 = e\<lparr>de_name := b, de_type := ENTRY_TYPE_DIRECTORY, de_created_time := t2,
    de_modified_time := t2, de_parent := None\<rparr>"
  have "init_directory True (Some raw) rp path t1 t2 = Some (Some \<lparr>dir_entries = e2 # f # es, dir_entry_cnt = 2,
      dir_capacity = MAX_ENTRIES, dir_path = c_strncpy rp path (MAX_PATH_LEN - 1)\<rparr>)"
    by (simp add: init_directory_def r Let_def e2_def b_def MAX_NAME_LEN_def)
  moreover have "dir_wf \<lparr>dir_entries = e2 # f # es, dir_entry_cnt = 2, dir_capacity = MAX_ENTRIES,
      dir_path = c_strncpy rp path (MAX_PATH_LEN - 1)\<rparr>"
    using raw junk b by (simp add: dir_wf_def r e2_def MAX_NAME_LEN_def MAX_ENTRIES_def)
  ultimately show ?thesis
    using b(1) junk by (simp add: dir_listing_def entry_name_def e2_def r MAX_ENTRIES_def)
qed

text \<open>The slot meant for the parent overwrites the first one: \<open>.\<close> is not found in a new directory.\<close>

lemma dot_not_found:
  assumes "length raw = MAX_ENTRIES" "\<forall>e \<in> set raw. length (de_name e) = MAX_NAME_LEN"
    and "c_string (de_name (raw ! 1)) = Some junk" and "junk \<noteq> ''.''"
  shows "\<exists>d. init_directory True (Some raw) rp path t1 t2 = Some (Some d) \<and> find_type d ''.'' = Some None \<and>
    find_type d ''..'' = Some (Some ENTRY_TYPE_DIRECTORY)"
proof -
  from init_directory_ok [OF assms(1-3), of rp path t1 t2] obtain d where
    "init_directory True (Some raw) rp path t1 t2 = Some (Some d)" "dir_wf d"
    "dir_listing d = [(''..'', ENTRY_TYPE_DIRECTORY), (junk, de_type (raw ! 1))]" by blast
  with assms(4) show ?thesis by (intro exI [of _ d]) (simp add: find_type_eq)
qed

text \<open>If \<open>malloc\<close> left no terminator in the name of the second entry, looking for any name but \<open>..\<close> reads past the buffer.\<close>

lemma unterminated_second_entry:
  assumes "length raw = MAX_ENTRIES" "\<forall>e \<in> set raw. length (de_name e) = MAX_NAME_LEN"
    and "c_string (de_name (raw ! 1)) = None" and "n \<noteq> ''..''"
  shows "\<exists>d. init_directory True (Some raw) rp path t1 t2 = Some (Some d) \<and> find_type d n = None"
proof -
  have "2 \<le> length raw" using assms(1) by (simp add: MAX_ENTRIES_def)
  then obtain e f es where r: "raw = e # f # es"
    by (metis One_nat_def Suc_1 length_Cons list.size(3) neq_Nil_conv not_less_eq_eq le_numeral_extra(3) zero_le)
  have b: "c_string (c_strncpy (c_strncpy (de_name e) ''.'' 255) ''..'' 255) = Some ''..''"
    using assms(2) by (simp add: r MAX_NAME_LEN_def c_string_strncpy length_c_strncpy)
  with assms(3,4) show ?thesis
    by (auto simp: init_directory_def r Let_def MAX_NAME_LEN_def find_type_def find_entry_def numeral_2_eq_2 search_first_step)
qed

text \<open>C13: What the array directory and the hash directory hold. Entries with names of less than 254 characters, at most 1022 of
  them, are added to a new directory of either kind, equal names allowed. The array accepts all of them;
  the hash directory returns -1 for exactly the entries whose node cannot be allocated and leaves them out. A lookup in the array
  finds the first entry of a name, and before all those added there are \<open>..\<close> and the second entry, which was never filled in and
  has the name and type that the memory held (if that holds a terminated name at all). A lookup in the hash directory finds the newest entry
  of a name, and \<open>..\<close> only if it was added. So when no name is added twice and every node is allocated, the
  two give the same answer for every name but \<open>..\<close> and the one of the second entry.\<close>
theorem directories_agree:
  assumes "length raw = MAX_ENTRIES" and "\<forall>e \<in> set raw. length (de_name e) = MAX_NAME_LEN"
    and "c_string (de_name (raw ! 1)) = Some junk" and "length (de_name raw_entry) = MAX_NAME_LEN"
    and "length xs \<le> 1022" and "\<forall>x \<in> set xs. short_name (fst x)"
  shows "\<exists>d0 h0 d h. init_directory True (Some raw) raw_path path t1 t2 = Some (Some d0) \<and>
    create_hash_directory True = Some h0 \<and>
    add_all (add_named now) xs d0 = Some (d, map (\<lambda>_. 0) xs) \<and>
    add_all (hash_add raw_entry) xs h0 = Some (h, map (\<lambda>(n, t, ok). if ok then 0 else - 1) xs) \<and>
    (\<forall>n. find_type d n = Some (map_of ([(''..'', ENTRY_TYPE_DIRECTORY), (junk, de_type (raw ! 1))] @ typed xs) n)) \<and>
    (\<forall>n. hash_type h n = Some (map_of (rev (stored xs)) n)) \<and>
    (distinct (map fst xs) \<and> (\<forall>(n, t, ok) \<in> set xs. ok) \<longrightarrow> (\<forall>n. n \<notin> {''..'', junk} \<longrightarrow> find_type d n = hash_type h n))"
proof -
  from init_directory_ok [OF assms(1-3), of raw_path path t1 t2] obtain d0 where
    d0: "init_directory True (Some raw) raw_path path t1 t2 = Some (Some d0)" "dir_wf d0" "dir_entry_cnt d0 = 2"
      "dir_capacity d0 = 1024" "dir_listing d0 = [(''..'', ENTRY_TYPE_DIRECTORY), (junk, de_type (raw ! 1))]" by blast
  from create_hash_directory_wf obtain h0 where
    h0: "create_hash_directory True = Some h0" "hd_wf h0" "hd_map h0 = Map.empty" by blast
  from linear_dir.add_all_then_find [OF d0(2), of xs now] assms(5,6) d0(3,4) obtain d where
    d: "add_all (add_named now) xs d0 = Some (d, map (\<lambda>_. 0) xs)"
      "\<And>n. find_type d n = Some ((map_of (typed xs) ++ map_of (dir_listing d0)) n)" by (auto simp: fold_put_first)
  from hash_dir.add_all_then_find [OF h0(2) assms(4,6)] h0(3) obtain h where
    h: "add_all (hash_add raw_entry) xs h0 = Some (h, map (\<lambda>x. if snd (snd x) then 0 else - 1) xs)"
      "\<And>n. hash_type h n = Some ((Map.empty ++ map_of (rev (stored xs))) n)" by (auto simp: fold_put_newest)
  have array: "find_type d n = Some (map_of ([(''..'', ENTRY_TYPE_DIRECTORY), (junk, de_type (raw ! 1))] @ typed xs) n)" for n
    unfolding map_of_append using d(2) d0(5) by simp
  have hash: "hash_type h n = Some (map_of (rev (stored xs)) n)" for n using h(2) by simp
  have agree: "find_type d n = hash_type h n"
    if dist: "distinct (map fst xs)" "\<forall>(n, t, ok) \<in> set xs. ok" and n: "n \<notin> {''..'', junk}" for n
  proof -
    have "filter (\<lambda>(n, t, ok). ok) xs = xs" using dist(2) by (simp add: filter_id_conv)
    then have "stored xs = typed xs" by (simp add: stored_def)
    moreover have "distinct (map fst (typed xs))" using dist(1) by (simp add: typed_def comp_def case_prod_beta)
    ultimately show ?thesis using array [of n] hash [of n] n map_of_rev_distinct [of "typed xs"] by simp
  qed
  have "map (\<lambda>x. if snd (snd x) then 0 else - 1) xs = map (\<lambda>(n, t, ok). if ok then 0 else - 1 :: int) xs"
    by (simp add: case_prod_beta)
  with d0(1) h0(1) d(1) h(1) array hash agree show ?thesis by (intro exI [of _ d0] exI [of _ h0] exI [of _ d] exI [of _ h]) simp
qed

theorem directories_agree_witness:
  "\<exists>d0 d h0 h. init_directory True (Some (replicate 1024 blank_entry)) [] ''/'' 5 6 = Some (Some d0) \<and>
    add_all (add_named 7) [(''bin'', ENTRY_TYPE_DIRECTORY, True), (''a'', ENTRY_TYPE_FILE, False)] d0 = Some (d, [0, 0]) \<and>
    create_hash_directory True = Some h0 \<and>
    add_all (hash_add blank_entry) [(''bin'', ENTRY_TYPE_DIRECTORY, True), (''a'', ENTRY_TYPE_FILE, False)] h0 = Some (h, [0, - 1]) \<and>
    find_type d ''a'' = Some (Some ENTRY_TYPE_FILE) \<and> hash_type h ''a'' = Some None"
proof -
  let ?xs = "[(''bin'', ENTRY_TYPE_DIRECTORY, True), (''a'', ENTRY_TYPE_FILE, False)]"
  have h: "length (replicate 1024 blank_entry) = MAX_ENTRIES"
    "\<forall>e \<in> set (replicate 1024 blank_entry). length (de_name e) = MAX_NAME_LEN"
    "c_string (de_name (replicate 1024 blank_entry ! 1)) = Some []" "length (de_name blank_entry) = MAX_NAME_LEN"
    "length ?xs \<le> 1022" "\<forall>x \<in> set ?xs. short_name (fst x)"
    by (simp_all add: MAX_ENTRIES_def blank_entry_def MAX_NAME_LEN_def c_string_def short_name_def)
  from directories_agree [OF h, of "[]" "''/''" 5 6 7] obtain d0 h0 d h where
    d: "init_directory True (Some (replicate 1024 blank_entry)) [] ''/'' 5 6 = Some (Some d0)"
      "create_hash_directory True = Some h0" "add_all (add_named 7) ?xs d0 = Some (d, [0, 0])"
      "add_all (hash_add blank_entry) ?xs h0 = Some (h, [0, - 1])"
    and find: "\<And>n. find_type d n = Some (map_of ([(''..'', ENTRY_TYPE_DIRECTORY), ([], de_type (replicate 1024 blank_entry ! 1))] @ typed ?xs) n)"
      "\<And>n. hash_type h n = Some (map_of (rev (stored ?xs)) n)" by auto
  have "find_type d ''a'' = Some (Some ENTRY_TYPE_FILE)" "hash_type h ''a'' = Some None"
    unfolding find by (simp_all add: typed_def stored_def)
  with d show ?thesis by blast
qed

subsection \<open>Paths\<close>

text \<open>\<open>strtok (s, "/")\<close>: the next token and the rest of the string.\<close>

definition strtok :: "string \<Rightarrow> (string \<times> string) option" where
  "strtok s = (let s' = dropWhile (\<lambda>c. c = CHR ''/'') s in
     if s' = [] then None else Some (takeWhile (\<lambda>c. c \<noteq> CHR ''/'') s', tl (dropWhile (\<lambda>c. c \<noteq> CHR ''/'') s')))"

lemma strtok_shorter: "strtok s = Some (tok, rest) \<Longrightarrow> length rest < length s"
proof -
  assume a: "strtok s = Some (tok, rest)"
  define s' where "s' = dropWhile (\<lambda>c. c = CHR ''/'') s"
  have s': "s' \<noteq> []" "rest = tl (dropWhile (\<lambda>c. c \<noteq> CHR ''/'') s')"
    using a by (auto simp: strtok_def Let_def s'_def split: if_splits)
  have "length (dropWhile (\<lambda>c. c \<noteq> CHR ''/'') s') \<le> length s'" "length s' \<le> length s"
    by (simp_all add: s'_def length_dropWhile_le)
  moreover have "length rest = length (dropWhile (\<lambda>c. c \<noteq> CHR ''/'') s') - 1" by (simp add: s'(2))
  moreover have "0 < length s'" using s'(1) by simp
  ultimately show ?thesis by linarith
qed

text \<open>
  The loop of \<open>split_path\<close>. For the \<open>i\<close>-th component, \<open>node_ok i\<close> and \<open>dup_ok i\<close> say whether \<open>malloc\<close> and the second
  \<open>strdup\<close> succeed, and \<open>same i\<close> whether the uninitialised field \<open>component->name\<close> happens to equal the pointer
  the first \<open>strdup\<close> returns: the code compares them where an assignment is meant. The result is
  the list of components; the empty list is \<open>NULL\<close>.
\<close>

function split_loop ::
  "(nat \<Rightarrow> bool) \<Rightarrow> (nat \<Rightarrow> bool) \<Rightarrow> (nat \<Rightarrow> bool) \<Rightarrow> string \<Rightarrow> string list \<Rightarrow> string list" where
  "split_loop node_ok same dup_ok s comps =
     (case strtok s of
        None \<Rightarrow> comps
      | Some (token, rest) \<Rightarrow>
          if length token = 0 then split_loop node_ok same dup_ok rest comps
          else if \<not> node_ok (length comps) \<or> \<not> same (length comps) then []
          else if \<not> dup_ok (length comps) then []
          else split_loop node_ok same dup_ok rest (comps @ [token]))"
  by pat_completeness auto
termination
  by (relation "measure (\<lambda>(_, _, _, s, _). length s)") (auto dest: strtok_shorter)

definition split_path ::
  "bool \<Rightarrow> (nat \<Rightarrow> bool) \<Rightarrow> (nat \<Rightarrow> bool) \<Rightarrow> (nat \<Rightarrow> bool) \<Rightarrow> string option \<Rightarrow> string list" where
  "split_path copy_ok node_ok same dup_ok path =
     (case path of None \<Rightarrow> [] | Some p \<Rightarrow> if \<not> copy_ok then [] else split_loop node_ok same dup_ok p [])"

declare split_loop.simps [simp del]

text \<open>The components a path has.\<close>

fun path_components :: "string \<Rightarrow> string \<Rightarrow> string list" where
  "path_components acc [] = (if acc = [] then [] else [acc])"
| "path_components acc (c # cs) =
     (if c = CHR ''/'' then (if acc = [] then [] else [acc]) @ path_components [] cs else path_components (acc @ [c]) cs)"

lemma path_components_dropWhile:
  "path_components [] (dropWhile (\<lambda>c. c = CHR ''/'') s) = path_components [] s"
  by (induction s) auto

lemma path_components_word:
  "path_components acc s =
     (let w = acc @ takeWhile (\<lambda>c. c \<noteq> CHR ''/'') s in
      (if w = [] then [] else [w]) @ path_components [] (tl (dropWhile (\<lambda>c. c \<noteq> CHR ''/'') s)))"
  by (induction s arbitrary: acc) (auto simp: Let_def)

lemma strtok_components:
  "path_components [] s = (case strtok s of None \<Rightarrow> [] | Some (tok, rest) \<Rightarrow> tok # path_components [] rest)"
proof -
  define s' where "s' = dropWhile (\<lambda>c. c = CHR ''/'') s"
  have "path_components [] s = path_components [] s'" by (simp add: s'_def path_components_dropWhile)
  moreover have "s' \<noteq> [] \<Longrightarrow> takeWhile (\<lambda>c. c \<noteq> CHR ''/'') s' \<noteq> []"
    using hd_dropWhile [of "\<lambda>c. c = CHR ''/''" s] by (cases s') (auto simp: s'_def)
  ultimately show ?thesis
    using path_components_word [of "[]" s'] by (auto simp: strtok_def Let_def s'_def [symmetric])
qed

lemma strtok_token: "strtok s = Some (tok, rest) \<Longrightarrow> tok \<noteq> []"
proof -
  assume a: "strtok s = Some (tok, rest)"
  define s' where "s' = dropWhile (\<lambda>c. c = CHR ''/'') s"
  have "s' \<noteq> []" "tok = takeWhile (\<lambda>c. c \<noteq> CHR ''/'') s'"
    using a by (auto simp: strtok_def Let_def s'_def split: if_splits)
  then show ?thesis using hd_dropWhile [of "\<lambda>c. c = CHR ''/''" s] by (cases s') (auto simp: s'_def)
qed

text \<open>With the comparison as written no path with a component is ever split.\<close>

lemma split_path_fails: "split_path copy_ok node_ok (\<lambda>_. False) dup_ok path = []"
proof -
  have "split_loop node_ok (\<lambda>_. False) dup_ok p [] = []" for p
    by (subst split_loop.simps) (auto dest: strtok_token split: option.splits)
  then show ?thesis by (simp add: split_path_def split: option.splits)
qed

text \<open>Were it an assignment, the loop would return the components of the path.\<close>

lemma split_path_components: "split_path True (\<lambda>_. True) (\<lambda>_. True) (\<lambda>_. True) (Some p) = path_components [] p"
proof -
  have "split_loop (\<lambda>_. True) (\<lambda>_. True) (\<lambda>_. True) s comps = comps @ path_components [] s" for s comps
  proof (induction "length s" arbitrary: s comps rule: less_induct)
    case less
    show ?case
    proof (cases "strtok s")
      case None
      then show ?thesis by (subst split_loop.simps) (simp add: strtok_components [of s])
    next
      case (Some tr)
      then obtain tok rest where s: "strtok s = Some (tok, rest)" by (cases tr) auto
      show ?thesis
        using less [OF strtok_shorter [OF s], of "comps @ [tok]"] s strtok_token [OF s] strtok_components [of s]
        by (subst split_loop.simps) simp
    qed
  qed
  then show ?thesis by (simp add: split_path_def)
qed

end
