(* ===== verification/Directory_Service.thy ===== *)
theory Directory_Service
  imports Directory_Table
begin

section \<open>Directory services: d26 directory_operations.c and directory_system_demo.c\<close>

text \<open>
  The path cache, the two access checks, the operation journal, creation and removal of
  directories and the traversal of a tree. \<open>get_parent_directory\<close>, \<open>get_basename\<close>, \<open>create_directory\<close>,
  \<open>load_directory\<close>, \<open>remove_directory_entry\<close>, \<open>update_directory_entry\<close> and \<open>flush_joural_entries\<close> are declared nowhere
  in the repository and are parameters; \<open>flush_directory\<close> and \<open>free_directory\<close> are recorded as
  events.
\<close>

subsection \<open>Path cache\<close>

definition DIR_CACHE_SIZE :: nat where "DIR_CACHE_SIZE = 1024"

record 'd cache_entry =
  ce_path :: "char list"
  ce_directory :: "'d option"
  ce_last_access :: int
  ce_dirty :: int

record 'd directory_cache =
  dc_entries :: "'d cache_entry list"
  dc_count :: nat

datatype 'd cache_event = Flush_Directory "'d option" | Free_Directory "'d option"

definition create_directory_cache :: "bool \<Rightarrow> 'd directory_cache option" where
  "create_directory_cache cache_ok =
     (if cache_ok then Some \<lparr>dc_entries = replicate DIR_CACHE_SIZE
         \<lparr>ce_path = replicate MAX_PATH_LEN (CHR 0x00), ce_directory = None, ce_last_access = 0, ce_dirty = 0\<rparr>,
        dc_count = 0\<rparr>
      else None)"

definition cache_lookup ::
  "'d directory_cache option \<Rightarrow> string option \<Rightarrow> int \<Rightarrow> ('d directory_cache option \<times> 'd option) option" where
  "cache_lookup cache path now =
     (case (cache, path) of
        (Some c, Some p) \<Rightarrow> do {
          hit \<leftarrow> search_first 0 (dc_count c) (\<lambda>i. do {
            e \<leftarrow> rd (dc_entries c) i;
            s \<leftarrow> c_string (ce_path e);
            Some (s = p) });
          (case hit of
             None \<Rightarrow> Some (cache, None)
           | Some i \<Rightarrow> do {
               e \<leftarrow> rd (dc_entries c) i;
               es \<leftarrow> wr (dc_entries c) i (e\<lparr>ce_last_access := now\<rparr>);
               Some (Some (c\<lparr>dc_entries := es\<rparr>), ce_directory e) }) }
      | _ \<Rightarrow> Some (cache, None))"

definition cache_lru :: "'d directory_cache \<Rightarrow> nat option" where
  "cache_lru c = do {
     e0 \<leftarrow> rd (dc_entries c) 0;
     (lru_idx, oldest) \<leftarrow> for_loop 0 DIR_CACHE_SIZE (\<lambda>i (lru_idx, oldest_time). do {
       e \<leftarrow> rd (dc_entries c) i;
       Some (if ce_last_access e < oldest_time then (i, ce_last_access e) else (lru_idx, oldest_time)) })
       (0, ce_last_access e0);
     Some lru_idx }"

definition cache_insert ::
  "'d directory_cache option \<Rightarrow> string option \<Rightarrow> 'd option \<Rightarrow> int \<Rightarrow>
     ('d directory_cache option \<times> 'd cache_event list \<times> int) option" where
  "cache_insert cache path dir now =
     (case (cache, path, dir) of
        (Some c, Some p, Some d) \<Rightarrow> do {
          (count, events) \<leftarrow> (if dc_count c \<ge> DIR_CACHE_SIZE then do {
              lru_idx \<leftarrow> cache_lru c;
              e \<leftarrow> rd (dc_entries c) lru_idx;
              Some (dc_count c - 1,
                (if ce_dirty e \<noteq> 0 then [Flush_Directory (ce_directory e)] else []) @ [Free_Directory (ce_directory e)]) }
            else Some (dc_count c, []));
          e \<leftarrow> rd (dc_entries c) count;
          es \<leftarrow> wr (dc_entries c) count \<lparr>ce_path = c_strncpy (ce_path e) p (MAX_PATH_LEN - 1),
            ce_directory = Some d, ce_last_access = now, ce_dirty = 0\<rparr>;
          Some (Some (c\<lparr>dc_entries := es, dc_count := count + 1\<rparr>), events, 0) }
      | _ \<Rightarrow> Some (cache, [], -1))"

text \<open>Every path buffer keeps the final zero of the cleared cache.\<close>

definition cache_wf :: "'d directory_cache \<Rightarrow> bool" where
  "cache_wf c \<longleftrightarrow> length (dc_entries c) = DIR_CACHE_SIZE \<and> dc_count c \<le> DIR_CACHE_SIZE \<and>
     (\<forall>i < DIR_CACHE_SIZE. length (ce_path (dc_entries c ! i)) = MAX_PATH_LEN \<and>
        ce_path (dc_entries c ! i) ! (MAX_PATH_LEN - 1) = CHR 0x00)"

definition cached_path :: "'d cache_entry \<Rightarrow> string" where
  "cached_path e = the (c_string (ce_path e))"

definition cache_map :: "'d directory_cache \<Rightarrow> string \<rightharpoonup> 'd option" where
  "cache_map c = map_of (map (\<lambda>e. (cached_path e, ce_directory e)) (take (dc_count c) (dc_entries c)))"

definition short_path :: "string \<Rightarrow> bool" where
  "short_path p \<longleftrightarrow> length p < MAX_PATH_LEN - 1 \<and> CHR 0x00 \<notin> set p"

lemma cache_buffer_ok:
  assumes "length b = MAX_PATH_LEN" and "b ! (MAX_PATH_LEN - 1) = CHR 0x00"
  shows "c_string b \<noteq> None"
    and "length (c_strncpy b p (MAX_PATH_LEN - 1)) = MAX_PATH_LEN"
    and "c_strncpy b p (MAX_PATH_LEN - 1) ! (MAX_PATH_LEN - 1) = CHR 0x00"
proof -
  have "b ! (MAX_PATH_LEN - 1) \<in> set b" using assms(1) by (intro nth_mem) (simp add: MAX_PATH_LEN_def)
  then show "c_string b \<noteq> None" using assms(2) by (simp add: c_string_def)
  show "length (c_strncpy b p (MAX_PATH_LEN - 1)) = MAX_PATH_LEN"
    using assms(1) by (simp add: length_c_strncpy)
  show "c_strncpy b p (MAX_PATH_LEN - 1) ! (MAX_PATH_LEN - 1) = CHR 0x00"
    using assms by (simp add: c_strncpy_def nth_append min_def MAX_PATH_LEN_def)
qed

lemma create_directory_cache_wf:
  "\<exists>c. create_directory_cache True = Some c \<and> cache_wf c \<and> cache_map c = Map.empty"
  by (auto simp: create_directory_cache_def cache_wf_def cache_map_def DIR_CACHE_SIZE_def MAX_PATH_LEN_def)

lemma cache_lookup_map:
  assumes wf: "cache_wf c"
  shows "\<exists>c'. cache_lookup (Some c) (Some p) now = Some (Some c', case cache_map c p of None \<Rightarrow> None | Some d \<Rightarrow> d) \<and>
    dc_count c' = dc_count c \<and> cache_map c' = cache_map c"
proof -
  let ?k = "dc_count c" and ?xs = "take (dc_count c) (dc_entries c)"
  have len: "length ?xs = ?k" "?k \<le> length (dc_entries c)" using wf by (auto simp: cache_wf_def)
  have "do { e \<leftarrow> rd (dc_entries c) i; s \<leftarrow> c_string (ce_path e); Some (s = p) } =
      Some (cached_path (?xs ! i) = p)" if i: "i < ?k" for i
  proof -
    from wf i obtain s where "c_string (ce_path (dc_entries c ! i)) = Some s"
      using cache_buffer_ok(1) [of "ce_path (dc_entries c ! i)"] by (auto simp: cache_wf_def)
    with i len show ?thesis by (simp add: cached_path_def)
  qed
  then have hit: "search_first 0 ?k (\<lambda>i. do { e \<leftarrow> rd (dc_entries c) i; s \<leftarrow> c_string (ce_path e); Some (s = p) }) =
      Some (find (\<lambda>i. cached_path (?xs ! i) = p) [0..<length ?xs])"
    unfolding len(1) by (intro search_first_total) simp
  note m = find_is_map_of [where f = cached_path and xs = ?xs and n = p and g = ce_directory]
  show ?thesis
  proof (cases "find (\<lambda>i. cached_path (?xs ! i) = p) [0..<length ?xs]")
    case None
    then have "cache_map c p = None" using m by (simp add: cache_map_def)
    with None hit show ?thesis by (simp add: cache_lookup_def del: nth_take length_take)
  next
    case (Some i)
    then have i: "i < ?k" using len by (simp add: find_upt_Some)
    define c' where "c' = c\<lparr>dc_entries := (dc_entries c)[i := (dc_entries c ! i)\<lparr>ce_last_access := now\<rparr>]\<rparr>"
    have "cache_map c p = Some (ce_directory (dc_entries c ! i))"
      using m Some i by (simp add: cache_map_def)
    moreover have "cache_lookup (Some c) (Some p) now = Some (Some c', ce_directory (dc_entries c ! i))"
      using Some hit i len by (simp add: cache_lookup_def c'_def del: nth_take length_take)
    moreover have "map (\<lambda>e. (cached_path e, ce_directory e)) (take ?k (dc_entries c')) =
        map (\<lambda>e. (cached_path e, ce_directory e)) ?xs"
      using less_le_trans [OF i len(2)] by (intro nth_equalityI) (auto simp: c'_def cached_path_def nth_list_update)
    then have "cache_map c' = cache_map c" by (simp add: cache_map_def c'_def)
    ultimately show ?thesis by (intro exI [of _ c']) (simp add: c'_def)
  qed
qed

lemma cache_lru_least:
  assumes "cache_wf c"
  shows "\<exists>v. cache_lru c = Some v \<and> v < DIR_CACHE_SIZE \<and>
    (\<forall>j < DIR_CACHE_SIZE. ce_last_access (dc_entries c ! v) \<le> ce_last_access (dc_entries c ! j))"
proof -
  define f where "f i = ce_last_access (dc_entries c ! i)" for i
  have len: "length (dc_entries c) = DIR_CACHE_SIZE" "0 < DIR_CACHE_SIZE"
    using assms by (simp_all add: cache_wf_def DIR_CACHE_SIZE_def)
  let ?body = "\<lambda>i (lru_idx, oldest_time). do {
       e \<leftarrow> rd (dc_entries c) i;
       Some (if ce_last_access e < oldest_time then (i, ce_last_access e) else (lru_idx, oldest_time)) }"
  have "\<exists>b m. for_loop 0 DIR_CACHE_SIZE ?body (0, f 0) = Some (b, m) \<and> m \<le> f 0 \<and>
      (\<forall>j. 0 \<le> j \<longrightarrow> j < DIR_CACHE_SIZE \<longrightarrow> m \<le> f j) \<and>
      (m = f 0 \<and> b = 0 \<or> (\<exists>v. 0 \<le> v \<and> v < DIR_CACHE_SIZE \<and> b = v \<and> m = f v \<and> f v < f 0 \<and>
        (\<forall>j. 0 \<le> j \<longrightarrow> j < v \<longrightarrow> f v < f j)))"
    using len by (intro for_loop_argmin) (simp_all add: f_def)
  then obtain b m where b: "for_loop 0 DIR_CACHE_SIZE ?body (0, f 0) = Some (b, m)"
    "\<forall>j. j < DIR_CACHE_SIZE \<longrightarrow> m \<le> f j" "m = f b" "b < DIR_CACHE_SIZE" using len(2) by auto
  have "cache_lru c = Some b" using b(1) len by (simp add: cache_lru_def f_def)
  with b(2-4) show ?thesis by (auto simp: f_def)
qed

text \<open>While there is room a new path is remembered and nothing else changes.\<close>

lemma cache_insert_room:
  assumes wf: "cache_wf c" and room: "dc_count c < DIR_CACHE_SIZE" and p: "short_path p" and new: "cache_map c p = None"
  shows "\<exists>c'. cache_insert (Some c) (Some p) (Some d) now = Some (Some c', [], 0) \<and> cache_wf c' \<and>
    dc_count c' = dc_count c + 1 \<and> cache_map c' = (cache_map c)(p \<mapsto> Some d)"
proof -
  let ?k = "dc_count c"
  let ?b = "ce_path (dc_entries c ! ?k)"
  have b: "length ?b = MAX_PATH_LEN" "?b ! (MAX_PATH_LEN - 1) = CHR 0x00" using wf room by (simp_all add: cache_wf_def)
  define e where "e = \<lparr>ce_path = c_strncpy ?b p (MAX_PATH_LEN - 1), ce_directory = Some d, ce_last_access = now, ce_dirty = 0\<rparr>"
  define c' where "c' = c\<lparr>dc_entries := (dc_entries c)[?k := e], dc_count := ?k + 1\<rparr>"
  have len: "length (dc_entries c) = DIR_CACHE_SIZE" using wf by (simp add: cache_wf_def)
  have path: "cached_path e = p"
    using p b(1) by (simp add: e_def cached_path_def c_string_strncpy short_path_def)
  have "cache_insert (Some c) (Some p) (Some d) now = Some (Some c', [], 0)"
    using room len by (simp add: cache_insert_def c'_def e_def)
  moreover have "cache_wf c'"
    using wf room cache_buffer_ok(2,3) [OF b, of p] by (auto simp: cache_wf_def c'_def e_def nth_list_update)
  moreover have "cache_map c' = (cache_map c)(p \<mapsto> Some d)"
    using room len path new
    by (auto simp: cache_map_def c'_def take_Suc_conv_app_nth map_add_def fun_eq_iff e_def split: option.splits)
  ultimately show ?thesis by (intro exI [of _ c']) (simp add: c'_def)
qed

text \<open>
  A full cache flushes and frees the directory of the least recently used entry, but stores the new entry
  in the last slot: the freed directory stays in the cache, the last one is dropped.
\<close>

lemma cache_insert_full:
  assumes wf: "cache_wf c" and full: "dc_count c = DIR_CACHE_SIZE" and p: "short_path p"
  shows "\<exists>v c'. cache_lru c = Some v \<and> v < DIR_CACHE_SIZE \<and>
    (\<forall>j < DIR_CACHE_SIZE. ce_last_access (dc_entries c ! v) \<le> ce_last_access (dc_entries c ! j)) \<and>
    cache_insert (Some c) (Some p) (Some d) now = Some (Some c',
      (if ce_dirty (dc_entries c ! v) \<noteq> 0 then [Flush_Directory (ce_directory (dc_entries c ! v))] else []) @
      [Free_Directory (ce_directory (dc_entries c ! v))], 0) \<and>
    dc_count c' = DIR_CACHE_SIZE \<and> cached_path (dc_entries c' ! 1023) = p \<and>
    ce_directory (dc_entries c' ! 1023) = Some d \<and>
    (\<forall>i < 1023. dc_entries c' ! i = dc_entries c ! i)"
proof -
  let ?k = "1023 :: nat"
  let ?b = "ce_path (dc_entries c ! ?k)"
  have b: "length ?b = MAX_PATH_LEN" using wf by (simp add: cache_wf_def DIR_CACHE_SIZE_def)
  have len: "length (dc_entries c) = DIR_CACHE_SIZE" using wf by (simp add: cache_wf_def)
  define e where "e = \<lparr>ce_path = c_strncpy ?b p (MAX_PATH_LEN - 1), ce_directory = Some d, ce_last_access = now, ce_dirty = 0\<rparr>"
  define c' where "c' = c\<lparr>dc_entries := (dc_entries c)[?k := e], dc_count := DIR_CACHE_SIZE\<rparr>"
  have "cached_path e = p"
    using p b by (simp add: e_def cached_path_def c_string_strncpy short_path_def)
  then have new: "cached_path (dc_entries c' ! ?k) = p" "ce_directory (dc_entries c' ! ?k) = Some d"
    using len by (simp_all add: c'_def DIR_CACHE_SIZE_def e_def)
  from cache_lru_least [OF wf] obtain v where v: "cache_lru c = Some v" "v < DIR_CACHE_SIZE"
    "\<forall>j < DIR_CACHE_SIZE. ce_last_access (dc_entries c ! v) \<le> ce_last_access (dc_entries c ! j)" by blast
  then have "cache_insert (Some c) (Some p) (Some d) now = Some (Some c',
      (if ce_dirty (dc_entries c ! v) \<noteq> 0 then [Flush_Directory (ce_directory (dc_entries c ! v))] else []) @
      [Free_Directory (ce_directory (dc_entries c ! v))], 0)"
    using full len by (simp add: cache_insert_def c'_def e_def DIR_CACHE_SIZE_def)
  with v new show ?thesis by (intro exI [of _ v] exI [of _ c']) (simp add: c'_def)
qed


subsection \<open>Access checks\<close>

definition R_OK :: c_uint where "R_OK = 4"
definition W_OK :: c_uint where "W_OK = 2"
definition X_OK :: c_uint where "X_OK = 1"

record access_control =
  ac_owner :: c_uint
  ac_group :: c_uint
  ac_permissions :: c_uint

text \<open>The three tests of one class of users: \<open>r\<close>, \<open>w\<close> and \<open>x\<close> are the permission bits of the class.\<close>

definition access_bits :: "c_uint \<Rightarrow> c_uint \<Rightarrow> c_uint \<Rightarrow> c_uint \<Rightarrow> c_uint \<Rightarrow> int" where
  "access_bits desired permissions r w x =
     (if and desired R_OK \<noteq> 0 \<and> and permissions r = 0 then -1
      else if and desired W_OK \<noteq> 0 \<and> and permissions w = 0 then -1
      else if and desired X_OK \<noteq> 0 \<and> and permissions x = 0 then -1
      else 0)"

text \<open>\<open>acl\<close> is the control block of entry 0; \<open>None\<close> stands for a null directory.\<close>

definition check_directory_access :: "access_control option \<Rightarrow> c_uint \<Rightarrow> c_uint \<Rightarrow> c_uint \<Rightarrow> int" where
  "check_directory_access dir uid gid desired =
     (case dir of
        None \<Rightarrow> -1
      | Some acl \<Rightarrow>
          if uid = ac_owner acl then access_bits desired (ac_permissions acl) 0x100 0x80 0x40
          else if gid = ac_group acl then access_bits desired (ac_permissions acl) 0x20 0x10 0x8
          else access_bits desired (ac_permissions acl) 0x4 0x2 0x1)"

record acl_entry =
  ae_uid :: c_uint
  ae_gid :: c_uint
  ae_permissions :: c_uint

text \<open>The list of entries, the newest first, with its counter.\<close>

record extended_acl =
  ea_entries :: "acl_entry list"
  ea_count :: size_t

definition add_acl_entry :: "bool \<Rightarrow> extended_acl \<Rightarrow> c_uint \<Rightarrow> c_uint \<Rightarrow> c_uint \<Rightarrow> extended_acl \<times> int" where
  "add_acl_entry entry_ok acl uid gid permissions =
     (if \<not> entry_ok then (acl, -1)
      else (acl\<lparr>ea_entries := \<lparr>ae_uid = uid, ae_gid = gid, ae_permissions = permissions\<rparr> # ea_entries acl,
        ea_count := ea_count acl + 1\<rparr>, 0))"

fun acl_scan :: "acl_entry list \<Rightarrow> c_uint \<Rightarrow> c_uint \<Rightarrow> c_uint \<Rightarrow> int" where
  "acl_scan [] uid gid desired = -1"
| "acl_scan (e # es) uid gid desired =
     (if ae_uid e = uid \<or> ae_gid e = gid then access_bits desired (ae_permissions e) 0x100 0x80 0x40
      else acl_scan es uid gid desired)"

definition check_extended_access :: "extended_acl \<Rightarrow> c_uint \<Rightarrow> c_uint \<Rightarrow> c_uint \<Rightarrow> int" where
  "check_extended_access acl uid gid desired = acl_scan (ea_entries acl) uid gid desired"

text \<open>The reference: every access asked for is among the three bits of the class at \<open>shift\<close>.\<close>

definition class_allows :: "nat \<Rightarrow> c_uint \<Rightarrow> c_uint \<Rightarrow> bool" where
  "class_allows shift permissions desired \<longleftrightarrow> (\<forall>i < 3. bit desired i \<longrightarrow> bit permissions (shift + i))"

lemma and_pow2_zero:
  "and a 1 = 0 \<longleftrightarrow> \<not> bit a 0" "and a 2 = 0 \<longleftrightarrow> \<not> bit a 1" "and a 4 = 0 \<longleftrightarrow> \<not> bit a 2" "and a 8 = 0 \<longleftrightarrow> \<not> bit a 3"
  "and a 0x10 = 0 \<longleftrightarrow> \<not> bit a 4" "and a 0x20 = 0 \<longleftrightarrow> \<not> bit a 5" "and a 0x40 = 0 \<longleftrightarrow> \<not> bit a 6"
  "and a 0x80 = 0 \<longleftrightarrow> \<not> bit a 7" "and a 0x100 = 0 \<longleftrightarrow> \<not> bit a 8" for a :: c_uint
proof -
  have p: "and a (2 ^ n) = 0 \<longleftrightarrow> \<not> bit a n" for n by (rule and_exp_eq_0_iff_not_bit)
  show "and a 1 = 0 \<longleftrightarrow> \<not> bit a 0" "and a 2 = 0 \<longleftrightarrow> \<not> bit a 1" "and a 4 = 0 \<longleftrightarrow> \<not> bit a 2"
    "and a 8 = 0 \<longleftrightarrow> \<not> bit a 3" "and a 0x10 = 0 \<longleftrightarrow> \<not> bit a 4" "and a 0x20 = 0 \<longleftrightarrow> \<not> bit a 5"
    "and a 0x40 = 0 \<longleftrightarrow> \<not> bit a 6" "and a 0x80 = 0 \<longleftrightarrow> \<not> bit a 7" "and a 0x100 = 0 \<longleftrightarrow> \<not> bit a 8"
    using p [of 0] p [of 1] p [of 2] p [of 3] p [of 4] p [of 5] p [of 6] p [of 7] p [of 8] by simp_all
qed

lemma less_3: "(\<forall>i < 3. P i) \<longleftrightarrow> P 0 \<and> P 1 \<and> P (2 :: nat)"
  by (auto simp: less_Suc_eq numeral_3_eq_3 numeral_2_eq_2)

lemma access_bits_class:
  "access_bits d p 0x100 0x80 0x40 = (if class_allows 6 p d then 0 else -1)"
  "access_bits d p 0x20 0x10 0x8 = (if class_allows 3 p d then 0 else -1)"
  "access_bits d p 0x4 0x2 0x1 = (if class_allows 0 p d then 0 else -1)"
  by (simp_all add: access_bits_def class_allows_def less_3 R_OK_def W_OK_def X_OK_def and_pow2_zero)

text \<open>The owner is judged by the owner bits alone, a member of the group by the group bits alone.\<close>

lemma check_directory_access_class:
  "check_directory_access (Some acl) uid gid desired =
     (let shift = (if uid = ac_owner acl then 6 else if gid = ac_group acl then 3 else 0)
      in if class_allows shift (ac_permissions acl) desired then 0 else -1)"
  by (simp add: check_directory_access_def access_bits_class)

text \<open>The newest entry naming the user or the group decides; without one there is no access.\<close>

lemma check_extended_access_first:
  "check_extended_access acl uid gid desired =
     (case find (\<lambda>e. ae_uid e = uid \<or> ae_gid e = gid) (ea_entries acl) of
        None \<Rightarrow> -1
      | Some e \<Rightarrow> if class_allows 6 (ae_permissions e) desired then 0 else -1)"
proof -
  have "acl_scan es uid gid desired =
     (case find (\<lambda>e. ae_uid e = uid \<or> ae_gid e = gid) es of
        None \<Rightarrow> -1
      | Some e \<Rightarrow> if class_allows 6 (ae_permissions e) desired then 0 else -1)" for es
    by (induction es) (auto simp: access_bits_class)
  then show ?thesis by (simp add: check_extended_access_def)
qed

lemma added_entry_decides:
  "check_extended_access (fst (add_acl_entry True acl uid gid permissions)) uid gid' desired =
     (if class_allows 6 permissions desired then 0 else -1)"
  by (simp add: check_extended_access_first add_acl_entry_def)

subsection \<open>Creating and removing directories\<close>

datatype dir_errno = ENOENT | EEXIST | ENOMEM | ENOTEMPTY

text \<open>The result is the parent as the call leaves it, the return value, and \<open>errno\<close> where it is set.\<close>

definition create_directory_impl ::
  "(string \<Rightarrow> directory option) \<Rightarrow> (string \<Rightarrow> string) \<Rightarrow> (string \<Rightarrow> bool) \<Rightarrow> string \<Rightarrow> int \<Rightarrow>
     (directory option \<times> int \<times> dir_errno option) option" where
  "create_directory_impl get_parent get_basename create_directory path now =
     (case get_parent path of
        None \<Rightarrow> Some (None, -1, Some ENOENT)
      | Some parent \<Rightarrow> do {
          let name = get_basename path;
          found \<leftarrow> find_entry (Some parent) (Some name);
          if found \<noteq> None then Some (Some parent, -1, Some EEXIST)
          else if \<not> create_directory path then Some (Some parent, -1, Some ENOMEM)
          else do {
            (parent', rc) \<leftarrow> add_directory_entry (Some parent) (Some name) ENTRY_TYPE_DIRECTORY now;
            Some (parent', rc, None) } })"

definition remove_directory_impl ::
  "(string \<Rightarrow> directory option) \<Rightarrow> (string \<Rightarrow> directory option) \<Rightarrow> (string \<Rightarrow> string) \<Rightarrow>
     (directory \<Rightarrow> string \<Rightarrow> directory \<times> int) \<Rightarrow> string \<Rightarrow> (directory option \<times> int \<times> dir_errno option)" where
  "remove_directory_impl resolve get_parent get_basename remove_entry path =
     (case resolve path of
        None \<Rightarrow> (None, -1, Some ENOENT)
      | Some dir \<Rightarrow>
          if dir_entry_cnt dir > 2 then (None, -1, Some ENOTEMPTY)
          else case get_parent path of
            None \<Rightarrow> (None, -1, Some ENOENT)
          | Some parent \<Rightarrow> (case remove_entry parent (get_basename path) of (p, rc) \<Rightarrow> (Some p, rc, None)))"

lemma create_directory_twice:
  assumes parent: "dir_wf d" "dir_entry_cnt d < dir_capacity d" and n: "short_name (base path)"
    and fresh: "map_of (dir_listing d) (base path) = None" and mk: "mk path"
  shows "\<exists>d'. create_directory_impl (\<lambda>_. Some d) base mk path now = Some (Some d', 0, None) \<and>
    dir_wf d' \<and> dir_listing d' = dir_listing d @ [(base path, ENTRY_TYPE_DIRECTORY)] \<and>
    create_directory_impl (\<lambda>_. Some d') base mk path now = Some (Some d', -1, Some EEXIST)"
proof -
  have find: "(find_entry (Some e) (Some m) = Some None) = (map_of (dir_listing e) m = None)"
    "find_entry (Some e) (Some m) \<noteq> None" if e: "dir_wf e" for e m
  proof -
    let ?xs = "take (dir_entry_cnt e) (dir_entries e)"
    have "length ?xs = dir_entry_cnt e" using e by (simp add: dir_wf_def)
    with find_is_map_of [where f = entry_name and xs = ?xs and n = m and g = de_type]
    have "find (\<lambda>i. entry_name (?xs ! i) = m) [0..<dir_entry_cnt e] = None \<longleftrightarrow> map_of (dir_listing e) m = None"
      unfolding dir_listing_def by (cases "find (\<lambda>i. entry_name (?xs ! i) = m) [0..<dir_entry_cnt e]") (simp_all del: nth_take, metis option.discI)
    then show "(find_entry (Some e) (Some m) = Some None) = (map_of (dir_listing e) m = None)"
      by (simp add: find_entry_eq [OF e] del: nth_take)
    show "find_entry (Some e) (Some m) \<noteq> None" by (simp add: find_entry_eq [OF e])
  qed
  from add_directory_entry_ok [OF parent n, of ENTRY_TYPE_DIRECTORY now] obtain d' where
    d': "add_directory_entry (Some d) (Some (base path)) ENTRY_TYPE_DIRECTORY now = Some (Some d', 0)"
      "dir_wf d'" "dir_listing d' = dir_listing d @ [(base path, ENTRY_TYPE_DIRECTORY)]" by blast
  have "map_of (dir_listing d') (base path) \<noteq> None" by (simp add: d'(3) map_add_def split: option.splits)
  with find [OF d'(2), of "base path"] obtain i where
    "find_entry (Some d') (Some (base path)) = Some (Some i)" by fastforce
  moreover have "find_entry (Some d) (Some (base path)) = Some None" using find(1) [OF parent(1)] fresh by simp
  ultimately show ?thesis using d' mk by (intro exI [of _ d']) (simp add: create_directory_impl_def)
qed

record directory_tree =
  dt_root :: directory
  dt_total_dirs :: nat
  dt_total_files :: nat

definition create_directory_tree :: "bool \<Rightarrow> (string \<Rightarrow> directory option) \<Rightarrow> directory_tree option" where
  "create_directory_tree tree_ok create_directory =
     (if \<not> tree_ok then None
      else case create_directory ''/'' of
        None \<Rightarrow> None
      | Some root \<Rightarrow> Some \<lparr>dt_root = root, dt_total_dirs = 1, dt_total_files = 0\<rparr>)"


subsection \<open>Traversal\<close>

text \<open>
  The recursion goes wherever \<open>load_directory\<close> leads and has no end of its own; \<open>fuel\<close> bounds its depth, and
  \<open>None\<close> means it was not enough. The result lists the entries the callback is called with; the callback
  is taken not to change them.
\<close>

fun traverse_directory_tree ::
  "nat \<Rightarrow> (directory_entry \<Rightarrow> directory option) \<Rightarrow> directory option \<Rightarrow> bool \<Rightarrow> directory_entry list option" where
  "traverse_directory_tree 0 load dir callback = None"
| "traverse_directory_tree (Suc fuel) load dir callback =
     (case dir of
        None \<Rightarrow> Some []
      | Some d \<Rightarrow>
          if \<not> callback then Some []
          else for_loop 0 (dir_entry_cnt d) (\<lambda>i visited. do {
            e \<leftarrow> rd (dir_entries d) i;
            if de_type e \<noteq> ENTRY_TYPE_DIRECTORY then Some (visited @ [e])
            else do {
              s \<leftarrow> c_string (de_name e);
              if s \<noteq> ''.'' \<and> s \<noteq> ''..'' then
                (case load e of
                   None \<Rightarrow> Some (visited @ [e])
                 | Some sub \<Rightarrow> do {
                     vs \<leftarrow> traverse_directory_tree fuel load (Some sub) callback;
                     Some (visited @ [e] @ vs) })
              else Some (visited @ [e]) } }) [])"

text \<open>In a tree of bounded depth the traversal ends, and every entry of the directory is visited.\<close>

lemma traverse_ends:
  assumes "\<And>d. P d \<Longrightarrow> dir_wf d"
    and "\<And>d e sub. \<lbrakk>P d; e \<in> set (dir_entries d); load e = Some sub\<rbrakk> \<Longrightarrow> P sub \<and> depth sub < depth d"
    and "P d" and "depth d < fuel"
  shows "\<exists>vs. traverse_directory_tree fuel load (Some d) True = Some vs \<and>
    set (take (dir_entry_cnt d) (dir_entries d)) \<subseteq> set vs"
  using assms(3,4)
proof (induction fuel arbitrary: d)
  case (Suc fuel)
  let ?E = "dir_entries d"
  have wf: "dir_wf d" using assms(1) Suc.prems(1) .
  then have len: "dir_entry_cnt d \<le> length ?E" by (simp add: dir_wf_def)
  let ?body = "\<lambda>i visited. do {
            e \<leftarrow> rd (dir_entries d) i;
            if de_type e \<noteq> ENTRY_TYPE_DIRECTORY then Some (visited @ [e])
            else do {
              s \<leftarrow> c_string (de_name e);
              if s \<noteq> ''.'' \<and> s \<noteq> ''..'' then
                (case load e of
                   None \<Rightarrow> Some (visited @ [e])
                 | Some sub \<Rightarrow> do {
                     vs \<leftarrow> traverse_directory_tree fuel load (Some sub) True;
                     Some (visited @ [e] @ vs) })
              else Some (visited @ [e]) } }"
  have "\<exists>vs. for_loop 0 (dir_entry_cnt d) ?body [] = Some vs \<and> set (take (dir_entry_cnt d) ?E) \<subseteq> set vs"
  proof (rule for_loop_invar [where P = "\<lambda>k vs. set (take k ?E) \<subseteq> set vs"])
    fix i vs assume i: "i < dir_entry_cnt d" and vs: "set (take i ?E) \<subseteq> set vs"
    have il: "i < length ?E" using i len by simp
    then have mem: "?E ! i \<in> set ?E" by simp
    have "?E ! i \<in> set (take (dir_entry_cnt d) ?E)" using i il by (auto simp: in_set_conv_nth)
    with wf obtain s where s: "c_string (de_name (?E ! i)) = Some s" unfolding dir_wf_def by blast
    have "\<exists>ws. ?body i vs = Some (vs @ [?E ! i] @ ws)"
    proof (cases "load (?E ! i)")
      case None
      with il s show ?thesis by simp
    next
      case (Some sub)
      with assms(2) [OF Suc.prems(1) mem Some] Suc.prems(2) Suc.IH [of sub]
      obtain ws where "traverse_directory_tree fuel load (Some sub) True = Some ws" by auto
      with Some il s show ?thesis by simp
    qed
    with vs il show "\<exists>vs'. ?body i vs = Some vs' \<and> set (take (Suc i) ?E) \<subseteq> set vs'"
      by (auto simp: take_Suc_conv_app_nth)
  qed simp_all
  then show ?case by simp
qed simp

subsection \<open>The operation journal\<close>

text \<open>The operation codes are stored as the integers they are called with; 0, 1, 2 are create, delete, modify.\<close>

record dir_journal_entry =
  dj_operation :: int
  dj_path :: "char list"
  dj_entry :: directory_entry
  dj_timestamp :: int

text \<open>\<open>joural_file\<close> is the contents of the file, opened for appending, or a null pointer.\<close>

record dir_journal =
  dj_entries :: "dir_journal_entry list"
  dj_capacity :: nat
  dj_count :: nat
  dj_file :: "dir_journal_entry list option"

definition create_journal ::
  "bool \<Rightarrow> dir_journal_entry list option \<Rightarrow> dir_journal_entry list option \<Rightarrow> dir_journal option" where
  "create_journal journal_ok raw file =
     (if \<not> journal_ok then None
      else case raw of
        None \<Rightarrow> None
      | Some es \<Rightarrow> Some \<lparr>dj_entries = es, dj_capacity = 1024, dj_count = 0, dj_file = file\<rparr>)"

definition log_directory_operation ::
  "(dir_journal \<Rightarrow> dir_journal) \<Rightarrow> dir_journal \<Rightarrow> int \<Rightarrow> string \<Rightarrow> directory_entry option \<Rightarrow> int \<Rightarrow>
     (dir_journal \<times> int) option" where
  "log_directory_operation flush_joural_entries journal operation path entry now = do {
     let j = (if dj_count journal \<ge> dj_capacity journal then flush_joural_entries journal else journal);
     e \<leftarrow> rd (dj_entries j) (dj_count j);
     let e' = e\<lparr>dj_operation := operation, dj_path := c_strncpy (dj_path e) path (MAX_PATH_LEN - 1),
       dj_entry := (case entry of None \<Rightarrow> dj_entry e | Some x \<Rightarrow> x), dj_timestamp := now\<rparr>;
     es \<leftarrow> wr (dj_entries j) (dj_count j) e';
     file \<leftarrow> dj_file j;
     Some (j\<lparr>dj_entries := es, dj_count := dj_count j + 1, dj_file := Some (file @ [e'])\<rparr>, 0) }"

text \<open>The records are replayed from the start of the file; what the replayed operations return is ignored.\<close>

definition replay_entry ::
  "(directory option \<Rightarrow> string \<Rightarrow> directory option) \<Rightarrow> (directory option \<Rightarrow> directory_entry \<Rightarrow> directory option) \<Rightarrow>
     int \<Rightarrow> dir_journal_entry \<Rightarrow> directory option \<Rightarrow> directory option option" where
  "replay_entry remove_entry update_entry now e dir =
     (if dj_operation e = 0 then do {
        s \<leftarrow> c_string (de_name (dj_entry e));
        (dir', rc) \<leftarrow> add_directory_entry dir (Some s) (de_type (dj_entry e)) now;
        Some dir' }
      else if dj_operation e = 1 then do {
        s \<leftarrow> c_string (de_name (dj_entry e));
        Some (remove_entry dir s) }
      else if dj_operation e = 2 then Some (update_entry dir (dj_entry e))
      else Some dir)"

definition recover_directory_state ::
  "(directory option \<Rightarrow> string \<Rightarrow> directory option) \<Rightarrow> (directory option \<Rightarrow> directory_entry \<Rightarrow> directory option) \<Rightarrow>
     int \<Rightarrow> dir_journal \<Rightarrow> directory option \<Rightarrow> (directory option \<times> int) option" where
  "recover_directory_state remove_entry update_entry now journal dir = do {
     file \<leftarrow> dj_file journal;
     dir' \<leftarrow> foldM (replay_entry remove_entry update_entry now) file dir;
     Some (dir', 0) }"

text \<open>Logging the creation of a list of entries, one record each.\<close>

primrec log_creates :: "(dir_journal \<Rightarrow> dir_journal) \<Rightarrow> int \<Rightarrow> (string \<times> directory_entry) list \<Rightarrow> dir_journal \<Rightarrow> dir_journal option" where
  "log_creates flush now [] j = Some j"
| "log_creates flush now (pe # pes) j = do {
     (j', rc) \<leftarrow> log_directory_operation flush j 0 (fst pe) (Some (snd pe)) now;
     log_creates flush now pes j' }"

text \<open>
  As long as the array of the journal has room, nothing is flushed, so it does not matter what the undeclared function does.
\<close>

definition journal_room :: "dir_journal \<Rightarrow> nat \<Rightarrow> bool" where
  "journal_room j n \<longleftrightarrow> dj_count j + n \<le> dj_capacity j \<and> length (dj_entries j) = dj_capacity j \<and> dj_file j \<noteq> None"

lemma log_directory_operation_ok:
  assumes "journal_room j (Suc n)" and "dj_file j = Some file"
  shows "\<exists>j' e'. log_directory_operation flush j opn path (Some x) now = Some (j', 0) \<and> journal_room j' n \<and>
    dj_file j' = Some (file @ [e']) \<and> dj_operation e' = opn \<and> dj_entry e' = x \<and> dj_timestamp e' = now"
proof -
  have k: "dj_count j < dj_capacity j" "length (dj_entries j) = dj_capacity j" using assms(1) by (auto simp: journal_room_def)
  define e where "e = (dj_entries j ! dj_count j)\<lparr>dj_operation := opn,
    dj_path := c_strncpy (dj_path (dj_entries j ! dj_count j)) path (MAX_PATH_LEN - 1), dj_entry := x, dj_timestamp := now\<rparr>"
  define j' where "j' = j\<lparr>dj_entries := (dj_entries j)[dj_count j := e], dj_count := dj_count j + 1, dj_file := Some (file @ [e])\<rparr>"
  have "log_directory_operation flush j opn path (Some x) now = Some (j', 0)"
    using k assms(2) by (simp add: log_directory_operation_def Let_def e_def j'_def)
  moreover have "journal_room j' n" using assms(1) by (simp add: journal_room_def j'_def)
  ultimately show ?thesis by (intro exI [of _ j'] exI [of _ e]) (simp add: j'_def e_def)
qed

lemma log_creates_ok:
  assumes "journal_room j (length pes)" and "dj_file j = Some fl"
  shows "\<exists>j' es. log_creates flush now pes j = Some j' \<and> dj_file j' = Some (fl @ es) \<and>
    map dj_entry es = map snd pes \<and> (\<forall>e \<in> set es. dj_operation e = 0)"
  using assms
proof (induction pes arbitrary: j fl)
  case (Cons pe pes)
  from Cons.prems(1) have "journal_room j (Suc (length pes))" by simp
  from log_directory_operation_ok [OF this Cons.prems(2), of flush 0 "fst pe" "snd pe" now] obtain j1 e1 where
    1: "log_directory_operation flush j 0 (fst pe) (Some (snd pe)) now = Some (j1, 0)" "journal_room j1 (length pes)"
      "dj_file j1 = Some (fl @ [e1])" "dj_operation e1 = 0" "dj_entry e1 = snd pe" by blast
  from Cons.IH [OF 1(2,3)] obtain j2 es where
    2: "log_creates flush now pes j1 = Some j2" "dj_file j2 = Some ((fl @ [e1]) @ es)"
      "map dj_entry es = map snd pes" "\<forall>e \<in> set es. dj_operation e = 0" by blast
  with 1 show ?case by (intro exI [of _ j2] exI [of _ "e1 # es"]) simp
qed simp

text \<open>When the array is full, the undeclared function is called, and without room after it the record is written past the end.\<close>

lemma log_full_needs_flush:
  assumes "dj_capacity j \<le> dj_count j" and "length (dj_entries (flush j)) \<le> dj_count (flush j)"
  shows "log_directory_operation flush j opn path x now = None"
  using assms by (simp add: log_directory_operation_def Let_def rd_None)

text \<open>Entries that find no room in the directory are dropped without a word.\<close>

lemma replay_creates:
  assumes "dir_wf d"
    and "\<forall>e \<in> set es. dj_operation e = 0 \<and> c_string (de_name (dj_entry e)) = Some (entry_name (dj_entry e)) \<and>
      short_name (entry_name (dj_entry e))"
  shows "\<exists>d'. foldM (replay_entry rm up now) es (Some d) = Some (Some d') \<and> dir_wf d' \<and>
    dir_listing d' = dir_listing d @
      take (dir_capacity d - dir_entry_cnt d) (map (\<lambda>e. (entry_name (dj_entry e), de_type (dj_entry e))) es)"
  using assms
proof (induction es arbitrary: d)
  case (Cons e es)
  let ?n = "entry_name (dj_entry e)"
  show ?case
  proof (cases "dir_entry_cnt d < dir_capacity d")
    case True
    from Cons.prems have "short_name ?n" by simp
    from add_directory_entry_ok [OF Cons.prems(1) True this, of "de_type (dj_entry e)" now] obtain d1 where
      1: "add_directory_entry (Some d) (Some ?n) (de_type (dj_entry e)) now = Some (Some d1, 0)" "dir_wf d1"
        "dir_entry_cnt d1 = dir_entry_cnt d + 1" "dir_capacity d1 = dir_capacity d"
        "dir_listing d1 = dir_listing d @ [(?n, de_type (dj_entry e))]" by blast
    from Cons.IH [OF 1(2)] Cons.prems(2) obtain d2 where
      2: "foldM (replay_entry rm up now) es (Some d1) = Some (Some d2)" "dir_wf d2"
      "dir_listing d2 = dir_listing d1 @
        take (dir_capacity d1 - dir_entry_cnt d1) (map (\<lambda>e. (entry_name (dj_entry e), de_type (dj_entry e))) es)" by auto
    moreover have "replay_entry rm up now e (Some d) = Some (Some d1)"
      using 1(1) Cons.prems(2) by (simp add: replay_entry_def)
    moreover have "dir_capacity d - dir_entry_cnt d = Suc (dir_capacity d1 - dir_entry_cnt d1)" using True 1(3,4) by simp
    ultimately show ?thesis using 1(5) by (intro exI [of _ d2]) simp
  next
    case False
    then have full: "dir_capacity d \<le> dir_entry_cnt d" by simp
    have "replay_entry rm up now e (Some d) = Some (Some d)"
      using Cons.prems(2) add_directory_entry_full [OF full] by (simp add: replay_entry_def)
    with Cons.IH [OF Cons.prems(1)] Cons.prems(2) full show ?thesis by simp
  qed
qed simp

text \<open>C20: Recovery rebuilds what was logged. When the creation of at most 1024 entries (the size of the journal's array, so that
  nothing has to be flushed; the function called for that is declared nowhere and nothing is assumed of it) has been logged to an
  empty journal file (writing to it succeeds, the code does not look), each entry with a terminated name of less than 254 characters, and the array is then lost,
  replaying the file over any well-formed directory adds exactly those entries, with their names
  and types and in the order of the log, as far as the directory has room; the rest is dropped and 0 returned all the same.\<close>
theorem recovery_rebuilds_directory:
  assumes raw: "length raw = 1024" and few: "length pes \<le> 1024" and d: "dir_wf d"
    and names: "\<forall>pe \<in> set pes. c_string (de_name (snd pe)) = Some (entry_name (snd pe)) \<and> short_name (entry_name (snd pe))"
  shows "\<exists>j0 j d'. create_journal True (Some raw) (Some []) = Some j0 \<and> log_creates flush now pes j0 = Some j \<and>
    recover_directory_state rm up later j (Some d) = Some (Some d', 0) \<and> dir_wf d' \<and>
    dir_listing d' = dir_listing d @
      take (dir_capacity d - dir_entry_cnt d) (map (\<lambda>pe. (entry_name (snd pe), de_type (snd pe))) pes)"
proof -
  define j0 where "j0 = \<lparr>dj_entries = raw, dj_capacity = 1024, dj_count = 0, dj_file = Some []\<rparr>"
  have "journal_room j0 (length pes)" "dj_file j0 = Some []" using raw few by (simp_all add: j0_def journal_room_def)
  from log_creates_ok [OF this, of flush now] obtain j es where
    j: "log_creates flush now pes j0 = Some j" "dj_file j = Some es" "map dj_entry es = map snd pes"
      "\<forall>e \<in> set es. dj_operation e = 0" by auto
  have "\<forall>x \<in> set (map dj_entry es). c_string (de_name x) = Some (entry_name x) \<and> short_name (entry_name x)"
    unfolding j(3) using names by auto
  with j(4) replay_creates [OF d, of es rm up later] obtain d' where
    d': "foldM (replay_entry rm up later) es (Some d) = Some (Some d')" "dir_wf d'"
      "dir_listing d' = dir_listing d @
        take (dir_capacity d - dir_entry_cnt d) (map (\<lambda>x. (entry_name x, de_type x)) (map dj_entry es))" by (auto simp: comp_def)
  then have "dir_listing d' = dir_listing d @
      take (dir_capacity d - dir_entry_cnt d) (map (\<lambda>pe. (entry_name (snd pe), de_type (snd pe))) pes)"
    unfolding j(3) by (simp add: comp_def)
  moreover have "create_journal True (Some raw) (Some []) = Some j0" by (simp add: create_journal_def j0_def)
  moreover have "recover_directory_state rm up later j (Some d) = Some (Some d', 0)"
    using j(2) d'(1) by (simp add: recover_directory_state_def)
  ultimately show ?thesis using j(1) d'(2) by blast
qed

theorem recovery_rebuilds_directory_witness:
  "\<exists>j0 j d'. create_journal True (Some (replicate 1024 \<lparr>dj_operation = 0, dj_path = [], dj_entry = blank_entry, dj_timestamp = 0\<rparr>))
       (Some []) = Some j0 \<and>
     log_creates (\<lambda>j. j) 3 [(''/a'', named_entry blank_entry ''a'' ENTRY_TYPE_SYMLINK)] j0 = Some j \<and>
     recover_directory_state (\<lambda>d _. d) (\<lambda>d _. d) 4 j
       (Some \<lparr>dir_entries = [blank_entry], dir_entry_cnt = 0, dir_capacity = 1, dir_path = []\<rparr>) = Some (Some d', 0) \<and>
     dir_listing d' = [(''a'', ENTRY_TYPE_SYMLINK)]"
proof -
  let ?raw = "replicate 1024 \<lparr>dj_operation = 0, dj_path = [], dj_entry = blank_entry, dj_timestamp = 0\<rparr>"
  let ?d = "\<lparr>dir_entries = [blank_entry], dir_entry_cnt = 0, dir_capacity = 1, dir_path = []\<rparr>"
  let ?pes = "[(''/a'', named_entry blank_entry ''a'' ENTRY_TYPE_SYMLINK)]"
  have n: "c_string (de_name (named_entry blank_entry ''a'' ENTRY_TYPE_SYMLINK)) = Some ''a''"
    by (rule named_entry_name) (simp add: short_name_def)
  have "length ?raw = 1024" "length ?pes \<le> 1024" "dir_wf ?d"
    "\<forall>pe \<in> set ?pes. c_string (de_name (snd pe)) = Some (entry_name (snd pe)) \<and> short_name (entry_name (snd pe))"
    using n by (simp_all add: dir_wf_def blank_entry_def entry_name_def short_name_def)
  from recovery_rebuilds_directory [OF this, of "\<lambda>j. j" 3 "\<lambda>d _. d" "\<lambda>d _. d" 4]
  obtain j0 j d' where "create_journal True (Some ?raw) (Some []) = Some j0"
    "log_creates (\<lambda>j. j) 3 ?pes j0 = Some j"
    "recover_directory_state (\<lambda>d _. d) (\<lambda>d _. d) 4 j (Some ?d) = Some (Some d', 0)"
    "dir_listing d' = dir_listing ?d @
       take (dir_capacity ?d - dir_entry_cnt ?d) (map (\<lambda>pe. (entry_name (snd pe), de_type (snd pe))) ?pes)" by blast
  moreover have "dir_listing ?d = []" by (simp add: dir_listing_def)
  ultimately show ?thesis using n by (simp add: entry_name_def named_entry_def)
qed

subsection \<open>Operation times\<close>

text \<open>The normalised difference of two \<open>timespec\<close> values that \<open>update_stats\<close> computes.\<close>

definition timespec_diff :: "int \<times> int \<Rightarrow> int \<times> int \<Rightarrow> int \<times> int" where
  "timespec_diff start fin =
     (let sec = fst fin - fst start; nsec = snd fin - snd start
      in if nsec < 0 then (sec - 1, nsec + 1000000000) else (sec, nsec))"

lemma timespec_diff_normal:
  assumes "0 \<le> snd start" "snd start < 1000000000" "0 \<le> snd fin" "snd fin < 1000000000"
  shows "0 \<le> snd (timespec_diff start fin)" and "snd (timespec_diff start fin) < 1000000000"
    and "fst (timespec_diff start fin) * 1000000000 + snd (timespec_diff start fin) =
      (fst fin * 1000000000 + snd fin) - (fst start * 1000000000 + snd start)"
  using assms by (auto simp: timespec_diff_def Let_def algebra_simps)

end
