(* ===== verification/Open_Files.thy ===== *)
theory Open_Files
  imports Slot_Table
begin

section \<open>Descriptors and buffered files: d25 of the repository\<close>

text \<open>
  The descriptor table (file\_descriptor\_management.c) and the table of open files (file\_system\_interface.c). What
  \<open>open\<close>, \<open>read\<close>, \<open>write\<close> and \<open>close\<close> return is a parameter, so is the data they move.
  Both tables interpret \<open>releasing_slot_table\<close>.
\<close>

subsection \<open>The descriptor table\<close>

definition MAX_FD :: nat where "MAX_FD = 1024"

record fd_table =
  ft_fd_arr :: "int list"
  ft_count :: int

definition fd_table_create :: "bool \<Rightarrow> fd_table option" where
  "fd_table_create table_ok =
     (if table_ok then Some \<lparr>ft_fd_arr = replicate MAX_FD (-1), ft_count = 0\<rparr> else None)"

definition fd_table_add :: "fd_table option \<Rightarrow> int \<Rightarrow> (fd_table option \<times> int) option" where
  "fd_table_add table fd =
     (case table of
        None \<Rightarrow> Some (None, -1)
      | Some t \<Rightarrow>
          if fd \<ge> int MAX_FD then Some (table, -1)
          else do {
            slot \<leftarrow> first_free (\<lambda>x. x = -1) (ft_fd_arr t) MAX_FD;
            (case slot of
               None \<Rightarrow> Some (table, -1)
             | Some i \<Rightarrow> do {
                 arr \<leftarrow> wr (ft_fd_arr t) i fd;
                 count \<leftarrow> chk (ft_count t + 1);
                 Some (Some (t\<lparr>ft_fd_arr := arr, ft_count := count\<rparr>), int i) }) })"

definition fd_table_remove :: "fd_table option \<Rightarrow> int \<Rightarrow> (fd_table option \<times> int) option" where
  "fd_table_remove table idx =
     (case table of
        None \<Rightarrow> Some (None, -1)
      | Some t \<Rightarrow>
          if idx < 0 \<or> idx \<ge> int MAX_FD then Some (table, -1)
          else do {
            fd \<leftarrow> rdi (ft_fd_arr t) idx;
            if fd \<noteq> -1 then do {
              arr \<leftarrow> wri (ft_fd_arr t) idx (-1);
              count \<leftarrow> chk (ft_count t - 1);
              Some (Some (t\<lparr>ft_fd_arr := arr, ft_count := count\<rparr>), fd) }
            else Some (table, -1) })"

definition fd_inv :: "fd_table \<Rightarrow> bool" where
  "fd_inv t \<longleftrightarrow> length (ft_fd_arr t) = MAX_FD \<and> ft_count t = int (count_if (\<lambda>x. x \<noteq> -1) (ft_fd_arr t))"

definition fd_used :: "fd_table \<Rightarrow> nat set" where
  "fd_used t = {i. i < length (ft_fd_arr t) \<and> \<not> ft_fd_arr t ! i = -1}"

lemma fd_table_create_ok: "\<exists>t. fd_table_create True = Some t \<and> fd_inv t \<and> fd_used t = {}"
  by (simp add: fd_table_create_def fd_inv_def fd_used_def count_if_replicate)

lemma fd_count_bound: "fd_inv t \<Longrightarrow> 0 \<le> ft_count t \<and> ft_count t \<le> 1024"
  using count_if_le [of "\<lambda>x. x \<noteq> -1" "ft_fd_arr t"] by (simp add: fd_inv_def MAX_FD_def)

lemma fd_table_add_free:
  assumes inv: "fd_inv t" and fd: "0 \<le> fd" "fd < 1024"
    and i: "i < length (ft_fd_arr t)" "i \<notin> fd_used t" "\<forall>j < i. j \<in> fd_used t"
  defines "t' \<equiv> t\<lparr>ft_fd_arr := (ft_fd_arr t)[i := fd], ft_count := ft_count t + 1\<rparr>"
  shows "fd_table_add (Some t) fd = Some (Some t', int i)" and "fd_inv t'" and "fd_used t' = insert i (fd_used t)"
proof -
  have len: "length (ft_fd_arr t) = MAX_FD" using inv by (simp add: fd_inv_def)
  have free: "ft_fd_arr t ! i = -1" using i by (simp add: fd_used_def)
  have "first_free (\<lambda>x. x = -1) (ft_fd_arr t) MAX_FD = Some (Some i)"
    using first_free_least [of i "ft_fd_arr t" "\<lambda>x. x = -1"] i len by (simp add: fd_used_def)
  moreover have "int_ok (ft_count t + 1)"
    using fd_count_bound [OF inv] by (simp add: int_ok_def INT_MIN_def INT_MAX_def)
  ultimately show "fd_table_add (Some t) fd = Some (Some t', int i)"
    using fd i(1) by (simp add: fd_table_add_def t'_def MAX_FD_def)
  show "fd_inv t'"
    using inv free fd count_if_update [OF i(1), of "\<lambda>x. x \<noteq> -1" fd] by (simp add: fd_inv_def t'_def)
  show "fd_used t' = insert i (fd_used t)" using i(1) fd by (auto simp: fd_used_def t'_def nth_list_update)
qed

lemma fd_table_remove_used:
  assumes inv: "fd_inv t" and i: "i \<in> fd_used t"
  defines "t' \<equiv> t\<lparr>ft_fd_arr := (ft_fd_arr t)[i := -1], ft_count := ft_count t - 1\<rparr>"
  shows "fd_table_remove (Some t) (int i) = Some (Some t', ft_fd_arr t ! i)" and "fd_inv t'"
    and "fd_used t' = fd_used t - {i}"
proof -
  have il: "i < length (ft_fd_arr t)" "length (ft_fd_arr t) = MAX_FD" "ft_fd_arr t ! i \<noteq> -1"
    using inv i by (auto simp: fd_inv_def fd_used_def)
  have "int_ok (ft_count t - 1)"
    using fd_count_bound [OF inv] by (simp add: int_ok_def INT_MIN_def INT_MAX_def)
  then show "fd_table_remove (Some t) (int i) = Some (Some t', ft_fd_arr t ! i)"
    using il by (simp add: fd_table_remove_def t'_def)
  show "fd_inv t'"
    using inv il count_if_update [OF il(1), of "\<lambda>x. x \<noteq> -1" "-1"] by (simp add: fd_inv_def t'_def)
  show "fd_used t' = fd_used t - {i}" using il(1) by (auto simp: fd_used_def t'_def nth_list_update)
qed

text \<open>Valid descriptors are the values of ten bits.\<close>

definition fd_slot :: "10 word \<Rightarrow> fd_table \<Rightarrow> (fd_table \<times> nat option) option" where
  "fd_slot fd t = do {
     (t', r) \<leftarrow> fd_table_add (Some t) (uint fd);
     t'' \<leftarrow> t';
     Some (t'', if r = -1 then None else Some (nat r)) }"

interpretation fds: releasing_slot_table fd_inv fd_used "\<lambda>t. length (ft_fd_arr t)" "fd_slot fd"
  "\<lambda>i t. do { (t', r) \<leftarrow> fd_table_remove (Some t) (int i); t' }" for fd
proof
  fix t i
  have fd: "0 \<le> uint fd" "uint fd < 1024" using uint_lt2p [of fd] by simp_all
  assume inv: "fd_inv t"
  show "fd_used t \<subseteq> {..<length (ft_fd_arr t)}" by (auto simp: fd_used_def)
  { assume "fd_used t = {..<length (ft_fd_arr t)}"
    then have "first_free (\<lambda>x. x = -1) (ft_fd_arr t) MAX_FD = Some None"
      using inv first_free_full [of "ft_fd_arr t" "\<lambda>x. x = -1"] by (simp add: fd_used_def fd_inv_def)
    with fd show "fd_slot fd t = Some (t, None)" by (simp add: fd_slot_def fd_table_add_def MAX_FD_def) }
  { assume i: "i < length (ft_fd_arr t)" "i \<notin> fd_used t" "\<forall>j < i. j \<in> fd_used t"
    show "\<exists>s'. fd_slot fd t = Some (s', Some i) \<and> fd_inv s' \<and> length (ft_fd_arr s') = length (ft_fd_arr t) \<and>
        fd_used s' = insert i (fd_used t)"
      using fd_table_add_free [OF inv fd i] by (simp add: fd_slot_def) }
  { assume i: "i \<in> fd_used t"
    show "\<exists>s'. do { (t', r) \<leftarrow> fd_table_remove (Some t) (int i); t' } = Some s' \<and> fd_inv s' \<and>
        length (ft_fd_arr s') = length (ft_fd_arr t) \<and> fd_used s' = fd_used t - {i}"
      using fd_table_remove_used [OF inv i] by simp }
qed

text \<open>A negative descriptor passes the check: adding -1 is counted but occupies nothing.\<close>

lemma fd_add_minus_one:
  assumes inv: "fd_inv t" and i: "i < length (ft_fd_arr t)" "i \<notin> fd_used t" "\<forall>j < i. j \<in> fd_used t"
  shows "\<exists>t'. fd_table_add (Some t) (-1) = Some (Some t', int i) \<and> fd_used t' = fd_used t \<and> \<not> fd_inv t'"
proof -
  have len: "length (ft_fd_arr t) = MAX_FD" using inv by (simp add: fd_inv_def)
  have free: "ft_fd_arr t ! i = -1" using i by (simp add: fd_used_def)
  have ff: "first_free (\<lambda>x. x = -1) (ft_fd_arr t) MAX_FD = Some (Some i)"
    using first_free_least [of i "ft_fd_arr t" "\<lambda>x. x = -1"] i len by (simp add: fd_used_def)
  have "int_ok (ft_count t + 1)"
    using fd_count_bound [OF inv] by (simp add: int_ok_def INT_MIN_def INT_MAX_def)
  moreover have "(ft_fd_arr t)[i := -1] = ft_fd_arr t" using free by (metis list_update_id)
  ultimately show ?thesis using ff inv i(1) by (simp add: fd_table_add_def fd_used_def fd_inv_def)
qed

subsection \<open>The table of open files\<close>

definition FS_PATH_LEN :: nat where "FS_PATH_LEN = 256"
definition MAX_OPEN_FILES :: nat where "MAX_OPEN_FILES = 128"

record file_handle =
  fh_fd :: int
  fh_path :: "char list"
  fh_position :: int
  fh_flags :: int

record file_system =
  fs_open_files :: "file_handle list"
  fs_file_count :: int
  fs_mount_point :: "char list"

datatype fs_errno = EMFILE | EBADF

definition zero_handle :: file_handle where
  "zero_handle = \<lparr>fh_fd = 0, fh_path = replicate FS_PATH_LEN (CHR 0x00), fh_position = 0, fh_flags = 0\<rparr>"

definition fs_init :: "bool \<Rightarrow> string \<Rightarrow> file_system option" where
  "fs_init fs_ok mount_point =
     (if \<not> fs_ok then None
      else Some \<lparr>fs_open_files = replicate MAX_OPEN_FILES zero_handle, fs_file_count = 0,
        fs_mount_point = c_strncpy (replicate FS_PATH_LEN (CHR 0x00)) mount_point (FS_PATH_LEN - 1)\<rparr>)"

text \<open>\<open>snprintf\<close> cuts the full path at 255 characters. The result carries the new state, the value, and \<open>errno\<close>.\<close>

definition fs_open ::
  "(string \<Rightarrow> int \<Rightarrow> int) \<Rightarrow> file_system \<Rightarrow> string \<Rightarrow> int \<Rightarrow> (file_system \<times> int \<times> fs_errno option) option" where
  "fs_open open_call fs path flags =
     (if fs_file_count fs \<ge> int MAX_OPEN_FILES then Some (fs, -1, Some EMFILE)
      else do {
        slot \<leftarrow> first_free (\<lambda>h. fh_fd h = 0) (fs_open_files fs) MAX_OPEN_FILES;
        (case slot of
           None \<Rightarrow> Some (fs, -1, Some EMFILE)
         | Some i \<Rightarrow> do {
             mount \<leftarrow> c_string (fs_mount_point fs);
             let full_path = take (FS_PATH_LEN - 1) (mount @ ''/'' @ path);
             let fd = open_call full_path flags;
             if fd < 0 then Some (fs, -1, None)
             else do {
               h \<leftarrow> rd (fs_open_files fs) i;
               files \<leftarrow> wr (fs_open_files fs) i
                 \<lparr>fh_fd = fd, fh_path = c_strncpy (fh_path h) path (FS_PATH_LEN - 1), fh_position = 0, fh_flags = flags\<rparr>;
               count \<leftarrow> chk (fs_file_count fs + 1);
               Some (fs\<lparr>fs_open_files := files, fs_file_count := count\<rparr>, int i, None) } }) })"

text \<open>The guard of the operations on a handle.\<close>

definition bad_handle :: "file_system \<Rightarrow> int \<Rightarrow> bool option" where
  "bad_handle fs handle =
     (if handle < 0 \<or> handle \<ge> int MAX_OPEN_FILES then Some True
      else do { h \<leftarrow> rdi (fs_open_files fs) handle; Some (fh_fd h = 0) })"

text \<open>A 64-bit file position must not overflow.\<close>

definition chk64 :: "int \<Rightarrow> int option" where
  "chk64 x = (if - (2 ^ 63) \<le> x \<and> x < 2 ^ 63 then Some x else None)"

definition fs_read ::
  "(int \<Rightarrow> nat \<Rightarrow> int) \<Rightarrow> file_system \<Rightarrow> int \<Rightarrow> nat \<Rightarrow> (file_system \<times> int \<times> fs_errno option) option" where
  "fs_read read_call fs handle sz = do {
     bad \<leftarrow> bad_handle fs handle;
     if bad then Some (fs, -1, Some EBADF)
     else do {
       h \<leftarrow> rdi (fs_open_files fs) handle;
       let bytes = read_call (fh_fd h) sz;
       if bytes > 0 then do {
         pos \<leftarrow> chk64 (fh_position h + bytes);
         files \<leftarrow> wri (fs_open_files fs) handle (h\<lparr>fh_position := pos\<rparr>);
         Some (fs\<lparr>fs_open_files := files\<rparr>, bytes, None) }
       else Some (fs, bytes, None) } }"

definition fs_write ::
  "(int \<Rightarrow> nat \<Rightarrow> int) \<Rightarrow> file_system \<Rightarrow> int \<Rightarrow> nat \<Rightarrow> (file_system \<times> int \<times> fs_errno option) option" where
  "fs_write write_call fs handle sz = do {
     bad \<leftarrow> bad_handle fs handle;
     if bad then Some (fs, -1, Some EBADF)
     else do {
       h \<leftarrow> rdi (fs_open_files fs) handle;
       let bytes = write_call (fh_fd h) sz;
       if bytes > 0 then do {
         pos \<leftarrow> chk64 (fh_position h + bytes);
         files \<leftarrow> wri (fs_open_files fs) handle (h\<lparr>fh_position := pos\<rparr>);
         Some (fs\<lparr>fs_open_files := files\<rparr>, bytes, None) }
       else Some (fs, bytes, None) } }"

definition fs_close ::
  "(int \<Rightarrow> int) \<Rightarrow> file_system \<Rightarrow> int \<Rightarrow> (file_system \<times> int \<times> fs_errno option) option" where
  "fs_close close_call fs handle = do {
     bad \<leftarrow> bad_handle fs handle;
     if bad then Some (fs, -1, Some EBADF)
     else do {
       h \<leftarrow> rdi (fs_open_files fs) handle;
       let res = close_call (fh_fd h);
       if res = 0 then do {
         files \<leftarrow> wri (fs_open_files fs) handle zero_handle;
         count \<leftarrow> chk (fs_file_count fs - 1);
         Some (fs\<lparr>fs_open_files := files, fs_file_count := count\<rparr>, res, None) }
       else Some (fs, res, None) } }"

definition fs_inv :: "file_system \<Rightarrow> bool" where
  "fs_inv fs \<longleftrightarrow> length (fs_open_files fs) = MAX_OPEN_FILES \<and>
     fs_file_count fs = int (count_if (\<lambda>h. fh_fd h \<noteq> 0) (fs_open_files fs)) \<and> c_string (fs_mount_point fs) \<noteq> None"

definition fs_used :: "file_system \<Rightarrow> nat set" where
  "fs_used fs = {i. i < length (fs_open_files fs) \<and> \<not> fh_fd (fs_open_files fs ! i) = 0}"

lemma fs_init_ok:
  assumes "length mount < 255" and "CHR 0x00 \<notin> set mount"
  shows "\<exists>fs. fs_init True mount = Some fs \<and> fs_inv fs \<and> fs_used fs = {}"
  using assms
  by (simp add: fs_init_def fs_inv_def fs_used_def count_if_replicate zero_handle_def FS_PATH_LEN_def c_string_strncpy)

lemma fs_count_full:
  assumes "fs_inv fs"
  shows "fs_file_count fs = 128 \<longleftrightarrow> fs_used fs = {..<length (fs_open_files fs)}"
    and "0 \<le> fs_file_count fs" and "fs_file_count fs \<le> 128"
proof -
  have len: "length (fs_open_files fs) = 128" using assms by (simp add: fs_inv_def MAX_OPEN_FILES_def)
  have cnt: "fs_file_count fs = int (count_if (\<lambda>h. fh_fd h \<noteq> 0) (fs_open_files fs))"
    using assms by (simp add: fs_inv_def)
  have "fs_file_count fs = 128 \<longleftrightarrow> count_if (\<lambda>h. fh_fd h \<noteq> 0) (fs_open_files fs) = length (fs_open_files fs)"
    unfolding cnt len by simp
  also have "\<dots> \<longleftrightarrow> (\<forall>h \<in> set (fs_open_files fs). fh_fd h \<noteq> 0)" by (rule count_if_full)
  also have "\<dots> \<longleftrightarrow> (\<forall>i < length (fs_open_files fs). fh_fd (fs_open_files fs ! i) \<noteq> 0)"
    by (rule all_set_conv_all_nth)
  also have "\<dots> \<longleftrightarrow> fs_used fs = {..<length (fs_open_files fs)}"
    unfolding fs_used_def set_eq_iff mem_Collect_eq lessThan_iff by blast
  finally show "fs_file_count fs = 128 \<longleftrightarrow> fs_used fs = {..<length (fs_open_files fs)}" .
  show "0 \<le> fs_file_count fs" and "fs_file_count fs \<le> 128"
    unfolding cnt using len count_if_le [of "\<lambda>h. fh_fd h \<noteq> 0" "fs_open_files fs"] by simp_all
qed

text \<open>The handle \<open>fs_open\<close> gives out, for whatever descriptor the system returns.\<close>

lemma fs_open_free:
  assumes inv: "fs_inv fs" and i: "i < length (fs_open_files fs)" "i \<notin> fs_used fs" "\<forall>j < i. j \<in> fs_used fs"
    and fd: "0 \<le> fd"
  shows "\<exists>h. fh_fd h = fd \<and> fs_open (\<lambda>_ _. fd) fs path flags =
    Some (fs\<lparr>fs_open_files := (fs_open_files fs)[i := h], fs_file_count := fs_file_count fs + 1\<rparr>, int i, None)"
proof -
  have len: "length (fs_open_files fs) = MAX_OPEN_FILES" using inv by (simp add: fs_inv_def)
  obtain m where m: "c_string (fs_mount_point fs) = Some m" using inv by (auto simp: fs_inv_def)
  have "fs_used fs \<noteq> {..<length (fs_open_files fs)}" using i(1,2) by auto
  then have lt: "fs_file_count fs < 128" using fs_count_full [OF inv] by linarith
  have "first_free (\<lambda>h. fh_fd h = 0) (fs_open_files fs) MAX_OPEN_FILES = Some (Some i)"
    using first_free_least [of i "fs_open_files fs" "\<lambda>h. fh_fd h = 0"] i len by (simp add: fs_used_def)
  moreover have "int_ok (fs_file_count fs + 1)"
    using lt fs_count_full(2) [OF inv] by (simp add: int_ok_def INT_MIN_def INT_MAX_def)
  moreover define h where "h = \<lparr>fh_fd = fd, fh_path = c_strncpy (fh_path (fs_open_files fs ! i)) path (FS_PATH_LEN - 1),
    fh_position = 0, fh_flags = flags\<rparr>"
  moreover have "\<not> int MAX_OPEN_FILES \<le> fs_file_count fs" using lt by (simp add: MAX_OPEN_FILES_def)
  ultimately have "fs_open (\<lambda>_ _. fd) fs path flags =
      Some (fs\<lparr>fs_open_files := (fs_open_files fs)[i := h], fs_file_count := fs_file_count fs + 1\<rparr>, int i, None)"
    using i(1) fd m unfolding fs_open_def Let_def by simp
  moreover have "fh_fd h = fd" by (simp add: h_def)
  ultimately show ?thesis by blast
qed

text \<open>The table as a slot table, as long as the system returns positive descriptors.\<close>

definition fs_slot :: "nat \<Rightarrow> string \<Rightarrow> int \<Rightarrow> file_system \<Rightarrow> (file_system \<times> nat option) option" where
  "fs_slot k path flags fs = do {
     (fs', r, e) \<leftarrow> fs_open (\<lambda>_ _. int (Suc k)) fs path flags;
     Some (fs', if r = -1 then None else Some (nat r)) }"

definition fs_release :: "nat \<Rightarrow> file_system \<Rightarrow> file_system option" where
  "fs_release i fs = do { (fs', r, e) \<leftarrow> fs_close (\<lambda>_. 0) fs (int i); if r = 0 then Some fs' else None }"

lemma fs_close_used:
  assumes inv: "fs_inv fs" and i: "i \<in> fs_used fs"
  defines "fs' \<equiv> fs\<lparr>fs_open_files := (fs_open_files fs)[i := zero_handle], fs_file_count := fs_file_count fs - 1\<rparr>"
  shows "fs_close (\<lambda>_. 0) fs (int i) = Some (fs', 0, None)" and "fs_inv fs'" and "fs_used fs' = fs_used fs - {i}"
proof -
  have il: "i < length (fs_open_files fs)" "length (fs_open_files fs) = MAX_OPEN_FILES" "fh_fd (fs_open_files fs ! i) \<noteq> 0"
    using inv i by (auto simp: fs_inv_def fs_used_def)
  have "int_ok (fs_file_count fs - 1)"
    using fs_count_full(2,3) [OF inv] by (simp add: int_ok_def INT_MIN_def INT_MAX_def)
  then show "fs_close (\<lambda>_. 0) fs (int i) = Some (fs', 0, None)"
    using il by (simp add: fs_close_def bad_handle_def fs'_def Let_def)
  show "fs_inv fs'"
    using inv il count_if_update [OF il(1), of "\<lambda>h. fh_fd h \<noteq> 0" zero_handle]
    by (simp add: fs_inv_def fs'_def zero_handle_def)
  show "fs_used fs' = fs_used fs - {i}" using il(1) by (auto simp: fs_used_def fs'_def nth_list_update zero_handle_def)
qed

interpretation open_files: releasing_slot_table fs_inv fs_used "\<lambda>fs. length (fs_open_files fs)" "fs_slot k path flags"
  fs_release for k path flags
proof
  fix fs i
  assume inv: "fs_inv fs"
  show "fs_used fs \<subseteq> {..<length (fs_open_files fs)}" by (auto simp: fs_used_def)
  { assume "fs_used fs = {..<length (fs_open_files fs)}"
    then have "fs_file_count fs = 128" using fs_count_full(1) [OF inv] by simp
    then show "fs_slot k path flags fs = Some (fs, None)" by (simp add: fs_slot_def fs_open_def MAX_OPEN_FILES_def) }
  { assume i: "i < length (fs_open_files fs)" "i \<notin> fs_used fs" "\<forall>j < i. j \<in> fs_used fs"
    from fs_open_free [OF inv i, of "int (Suc k)" path flags] obtain h where h: "fh_fd h = int (Suc k)"
      "fs_open (\<lambda>_ _. int (Suc k)) fs path flags =
        Some (fs\<lparr>fs_open_files := (fs_open_files fs)[i := h], fs_file_count := fs_file_count fs + 1\<rparr>, int i, None)" by auto
    let ?fs' = "fs\<lparr>fs_open_files := (fs_open_files fs)[i := h], fs_file_count := fs_file_count fs + 1\<rparr>"
    have "fh_fd (fs_open_files fs ! i) = 0" using i by (simp add: fs_used_def)
    then have "fs_inv ?fs'"
      using inv h(1) count_if_update [OF i(1), of "\<lambda>h. fh_fd h \<noteq> 0" h] by (simp add: fs_inv_def)
    moreover have "fs_used ?fs' = insert i (fs_used fs)" using i(1) h(1) by (auto simp: fs_used_def nth_list_update)
    ultimately show "\<exists>s'. fs_slot k path flags fs = Some (s', Some i) \<and> fs_inv s' \<and>
        length (fs_open_files s') = length (fs_open_files fs) \<and> fs_used s' = insert i (fs_used fs)"
      using h(2) by (intro exI [of _ ?fs']) (simp add: fs_slot_def) }
  { assume i: "i \<in> fs_used fs"
    show "\<exists>s'. fs_release i fs = Some s' \<and> fs_inv s' \<and> length (fs_open_files s') = length (fs_open_files fs) \<and>
        fs_used s' = fs_used fs - {i}"
      using fs_close_used [OF inv i] by (simp add: fs_release_def) }
qed

text \<open>
  When the system returns descriptor 0, the handle still looks free: it is counted, cannot be closed,
  and is given out again.
\<close>

lemma fs_open_descriptor_zero:
  assumes inv: "fs_inv fs" and i: "i < length (fs_open_files fs)" "i \<notin> fs_used fs" "\<forall>j < i. j \<in> fs_used fs"
  shows "\<exists>fs'. fs_open (\<lambda>_ _. 0) fs path flags = Some (fs', int i, None) \<and> fs_file_count fs' = fs_file_count fs + 1 \<and>
    fs_used fs' = fs_used fs \<and> fs_close close_call fs' (int i) = Some (fs', -1, Some EBADF)"
proof -
  from fs_open_free [OF inv i, of 0 path flags] obtain h where h: "fh_fd h = 0"
    "fs_open (\<lambda>_ _. 0) fs path flags =
      Some (fs\<lparr>fs_open_files := (fs_open_files fs)[i := h], fs_file_count := fs_file_count fs + 1\<rparr>, int i, None)" by auto
  let ?fs' = "fs\<lparr>fs_open_files := (fs_open_files fs)[i := h], fs_file_count := fs_file_count fs + 1\<rparr>"
  have "fh_fd (fs_open_files fs ! i) = 0" using i by (simp add: fs_used_def)
  then have "fs_used ?fs' = fs_used fs" using i(1) h(1) by (auto simp: fs_used_def nth_list_update)
  moreover have "fs_close close_call ?fs' (int i) = Some (?fs', -1, Some EBADF)"
    using i(1) h(1) inv by (simp add: fs_close_def bad_handle_def fs_inv_def)
  ultimately show ?thesis using h(2) by (intro exI [of _ ?fs']) simp
qed

end
