(* ===== verification/Buffered_Files.thy ===== *)
theory Buffered_Files
  imports OS_Prelude
begin

section \<open>Buffered files and record files: d25 buffering_system.c, basic_file_operations.c, error_handling.c, file_system_demo.c\<close>

text \<open>
  A buffered file reads and writes through a buffer of 4096 bytes. What the successive calls of
  \<open>read\<close> return is a list of results; \<open>write\<close> is a function of the bytes handed to it, and the bytes of each call
  are recorded. \<open>size_t\<close> values are naturals; a failed \<open>read\<close> stores -1 in one, which is \<open>2 ^ 64 - 1\<close>.
\<close>

subsection \<open>The buffer\<close>

definition BUF_SIZE :: nat where "BUF_SIZE = 4096"

record buffer =
  bu_data :: "8 word list"
  bu_size :: nat
  bu_position :: nat
  bu_dirty :: int

record buffered_file =
  bf_fd :: int
  bf_buffer :: buffer
  bf_mode :: int

definition O_RDONLY :: int where "O_RDONLY = 0"

text \<open>\<open>data\<close> is what \<open>malloc\<close> left in the array.\<close>

definition create_buffered_file :: "8 word list option \<Rightarrow> int \<Rightarrow> int \<Rightarrow> buffered_file option" where
  "create_buffered_file data fd mode =
     (case data of
        None \<Rightarrow> None
      | Some d \<Rightarrow> Some \<lparr>bf_fd = fd, bf_buffer = \<lparr>bu_data = d, bu_size = 0, bu_position = 0, bu_dirty = 0\<rparr>,
          bf_mode = mode\<rparr>)"

definition buffer_flush ::
  "(8 word list \<Rightarrow> int) \<Rightarrow> buffered_file option \<Rightarrow> (buffered_file option \<times> int \<times> 8 word list list)" where
  "buffer_flush write_call bf =
     (case bf of
        None \<Rightarrow> (None, 0, [])
      | Some b \<Rightarrow>
          if bu_dirty (bf_buffer b) \<noteq> 0 then (bf, 0, [])
          else let out = take (bu_size (bf_buffer b)) (bu_data (bf_buffer b)) in
            if write_call out < 0 then (bf, -1, [out])
            else (Some (b\<lparr>bf_buffer := (bf_buffer b)\<lparr>bu_size := 0, bu_position := 0, bu_dirty := 0\<rparr>\<rparr>), 0, [out]))"

datatype read_result = Data "8 word list" | Read_Error

text \<open>
  The reading loop; \<open>dest\<close> holds the bytes delivered so far. A \<open>memcpy\<close> that leaves the buffer has no
  defined result, nor has a \<open>read\<close> that delivers more than it was asked for.
\<close>

definition refill :: "buffer \<Rightarrow> read_result list \<Rightarrow> (buffer \<times> read_result list) option" where
  "refill b reads =
     (case reads of
        [] \<Rightarrow> Some (b\<lparr>bu_size := 0\<rparr>, [])
      | Read_Error # rs \<Rightarrow> Some (b\<lparr>bu_size := 2 ^ 64 - 1, bu_position := 0\<rparr>, rs)
      | Data bs # rs \<Rightarrow>
          if length bs > BUF_SIZE then None
          else if bs = [] then Some (b\<lparr>bu_size := 0\<rparr>, rs)
          else Some (b\<lparr>bu_data := bs @ drop (length bs) (bu_data b), bu_size := length bs, bu_position := 0\<rparr>, rs))"

lemma refill_nonempty:
  "refill b reads = Some (b', rs) \<Longrightarrow> bu_size b' = 0 \<or> bu_position b' < bu_size b'"
  by (auto simp: refill_def split: list.splits read_result.splits if_splits)

function read_loop ::
  "nat \<Rightarrow> buffer \<Rightarrow> read_result list \<Rightarrow> 8 word list \<Rightarrow> (buffer \<times> read_result list \<times> 8 word list) option" where
  "read_loop n b reads dest =
     (if length dest < n then
        (case (if bu_position b \<ge> bu_size b then refill b reads else Some (b, reads)) of
           None \<Rightarrow> None
         | Some (b', rs) \<Rightarrow>
             if bu_size b' = 0 then Some (b', rs, dest)
             else let available = bu_size b' - bu_position b';
                      to_copy = min (n - length dest) available
               in if bu_position b' + to_copy > length (bu_data b') then None
                  else read_loop n (b'\<lparr>bu_position := bu_position b' + to_copy\<rparr>) rs
                    (dest @ take to_copy (drop (bu_position b') (bu_data b'))))
      else Some (b, reads, dest))"
  by pat_completeness auto
termination
proof (relation "measure (\<lambda>(n, b, reads, dest). n - length dest)", simp)
  fix n :: nat and b reads and dest :: "8 word list" and x b' rs available to_copy
  assume lt: "length dest < n"
    and r: "(if bu_position b \<ge> bu_size b then refill b reads else Some (b, reads)) = Some x" "(b', rs) = x"
    and nz: "bu_size b' \<noteq> 0" and c: "available = bu_size b' - bu_position b'" "to_copy = min (n - length dest) available"
    "\<not> length (bu_data b') < bu_position b' + to_copy"
  have "bu_position b' < bu_size b'"
    using r nz refill_nonempty [of b reads b' rs] by (auto split: if_splits)
  then have "0 < to_copy" using lt c(1,2) by simp
  with lt c(3) show "((n, b'\<lparr>bu_position := bu_position b' + to_copy\<rparr>, rs,
      dest @ take to_copy (drop (bu_position b') (bu_data b'))), n, b, reads, dest) \<in> measure (\<lambda>(n, b, reads, dest). n - length dest)"
    by simp
qed

declare read_loop.simps [simp del]

definition buffer_read ::
  "buffered_file option \<Rightarrow> nat \<Rightarrow> read_result list \<Rightarrow> (buffered_file option \<times> read_result list \<times> int \<times> 8 word list) option" where
  "buffer_read bf n reads =
     (case bf of
        None \<Rightarrow> Some (None, reads, -1, [])
      | Some f \<Rightarrow>
          if bf_mode f \<noteq> O_RDONLY then Some (bf, reads, -1, [])
          else do {
            (b, rs, dest) \<leftarrow> read_loop n (bf_buffer f) reads [];
            Some (Some (f\<lparr>bf_buffer := b\<rparr>), rs, int (length dest), dest) })"

text \<open>The writing loop may never end; then its value is \<open>None\<close>.\<close>

definition copy_in :: "buffer \<Rightarrow> 8 word list \<Rightarrow> buffer" where
  "copy_in b bs = b\<lparr>bu_data := take (bu_size b) (bu_data b) @ bs @ drop (bu_size b + length bs) (bu_data b),
     bu_size := bu_size b + length bs, bu_dirty := 1\<rparr>"

partial_function (option) write_loop ::
  "(8 word list \<Rightarrow> int) \<Rightarrow> buffered_file \<Rightarrow> 8 word list \<Rightarrow> nat \<Rightarrow> 8 word list list \<Rightarrow>
     (buffered_file \<times> int \<times> 8 word list list) option" where
  "write_loop write_call bf data total_written log =
     (if total_written < length data then
        (case (if bu_size (bf_buffer bf) \<ge> BUF_SIZE then buffer_flush write_call (Some bf) else (Some bf, 0, [])) of
           (bf', rc, out) \<Rightarrow>
             (case bf' of
                None \<Rightarrow> None
              | Some f \<Rightarrow>
                  if rc < 0 then Some (f, -1, log @ out)
                  else if bu_size (bf_buffer f) > BUF_SIZE then None
                  else let available = BUF_SIZE - bu_size (bf_buffer f);
                           to_copy = min (length data - total_written) available
                    in write_loop write_call (f\<lparr>bf_buffer := copy_in (bf_buffer f) (take to_copy (drop total_written data))\<rparr>)
                      data (total_written + to_copy) (log @ out)))
      else Some (bf, int total_written, log))"

declare write_loop.simps [code]

definition buffer_write ::
  "(8 word list \<Rightarrow> int) \<Rightarrow> buffered_file option \<Rightarrow> 8 word list \<Rightarrow> (buffered_file option \<times> int \<times> 8 word list list) option" where
  "buffer_write write_call bf data =
     (case bf of
        None \<Rightarrow> Some (None, -1, [])
      | Some f \<Rightarrow>
          if bf_mode f \<noteq> O_RDONLY then Some (bf, -1, [])
          else do {
            (f', rc, log) \<leftarrow> write_loop write_call f data 0 [];
            Some (Some f', rc, log) })"

subsection \<open>Reading delivers the stream\<close>

definition buffered_bytes :: "buffer \<Rightarrow> 8 word list" where
  "buffered_bytes b = take (bu_size b - bu_position b) (drop (bu_position b) (bu_data b))"

primrec read_bytes :: "read_result list \<Rightarrow> 8 word list" where
  "read_bytes [] = []"
| "read_bytes (r # rs) = (case r of Data bs \<Rightarrow> bs @ read_bytes rs | Read_Error \<Rightarrow> read_bytes rs)"

definition good_read :: "read_result \<Rightarrow> bool" where
  "good_read r \<longleftrightarrow> (case r of Data bs \<Rightarrow> bs \<noteq> [] \<and> length bs \<le> BUF_SIZE | Read_Error \<Rightarrow> False)"

definition buffer_wf :: "buffer \<Rightarrow> bool" where
  "buffer_wf b \<longleftrightarrow> length (bu_data b) = BUF_SIZE \<and> bu_size b \<le> BUF_SIZE"

lemma refill_good:
  assumes "buffer_wf b" and "bu_size b \<le> bu_position b" and "\<forall>r \<in> set reads. good_read r"
  shows "\<exists>b' rs. refill b reads = Some (b', rs) \<and> buffer_wf b' \<and> (\<forall>r \<in> set rs. good_read r) \<and>
    buffered_bytes b' @ read_bytes rs = buffered_bytes b @ read_bytes reads \<and>
    (bu_size b' = 0 \<longrightarrow> read_bytes reads = []) \<and> (bu_size b' \<noteq> 0 \<longrightarrow> bu_position b' = 0)"
proof (cases reads)
  case Nil
  with assms show ?thesis by (auto simp: refill_def buffer_wf_def buffered_bytes_def)
next
  case (Cons r rs)
  then obtain bs where bs: "r = Data bs" "bs \<noteq> []" "length bs \<le> BUF_SIZE"
    using assms(3) by (cases r) (auto simp: good_read_def)
  with Cons assms show ?thesis by (auto simp: refill_def buffer_wf_def buffered_bytes_def)
qed

lemma read_loop_stream:
  assumes "buffer_wf b" and "\<forall>r \<in> set reads. good_read r" and "length dest \<le> n"
  shows "\<exists>b' rs. read_loop n b reads dest = Some (b', rs, dest @ take (n - length dest) (buffered_bytes b @ read_bytes reads)) \<and>
    buffer_wf b' \<and> (\<forall>r \<in> set rs. good_read r) \<and>
    buffered_bytes b' @ read_bytes rs = drop (n - length dest) (buffered_bytes b @ read_bytes reads)"
  using assms
proof (induction "n - length dest" arbitrary: b reads dest rule: less_induct)
  case less
  show ?case
  proof (cases "length dest < n")
    case False
    with less.prems show ?thesis by (subst read_loop.simps) simp
  next
    case lt: True
    obtain b1 rs1 where 1: "(if bu_position b \<ge> bu_size b then refill b reads else Some (b, reads)) = Some (b1, rs1)"
      "buffer_wf b1" "\<forall>r \<in> set rs1. good_read r"
      "buffered_bytes b1 @ read_bytes rs1 = buffered_bytes b @ read_bytes reads"
      "bu_size b1 = 0 \<longrightarrow> buffered_bytes b @ read_bytes reads = []" "bu_size b1 \<noteq> 0 \<longrightarrow> bu_position b1 < bu_size b1"
    proof (cases "bu_position b \<ge> bu_size b")
      case True
      from refill_good [OF less.prems(1) True less.prems(2)] True that show thesis
        by (fastforce simp: buffered_bytes_def)
    next
      case False
      with less.prems that show thesis by fastforce
    qed
    show ?thesis
    proof (cases "bu_size b1 = 0")
      case True
      with 1 lt show ?thesis by (subst read_loop.simps) simp
    next
      case False
      define k where "k = min (n - length dest) (bu_size b1 - bu_position b1)"
      let ?b2 = "b1\<lparr>bu_position := bu_position b1 + k\<rparr>"
      let ?d2 = "dest @ take k (drop (bu_position b1) (bu_data b1))"
      have pos: "bu_position b1 < bu_size b1" using 1(6) False by simp
      have fit: "bu_position b1 + k \<le> length (bu_data b1)" using 1(2) pos by (auto simp: buffer_wf_def k_def)
      then have len: "length ?d2 = length dest + k" by simp
      have ka: "k + (bu_size b1 - bu_position b1 - k) = bu_size b1 - bu_position b1" by (simp add: k_def)
      have k: "0 < k" "k \<le> n - length dest" using lt pos by (auto simp: k_def)
      have split: "buffered_bytes b1 = take k (drop (bu_position b1) (bu_data b1)) @ buffered_bytes ?b2"
      proof -
        have "buffered_bytes b1 = take (k + (bu_size b1 - bu_position b1 - k)) (drop (bu_position b1) (bu_data b1))"
          using ka by (simp add: buffered_bytes_def)
        also have "\<dots> = take k (drop (bu_position b1) (bu_data b1)) @
            take (bu_size b1 - bu_position b1 - k) (drop k (drop (bu_position b1) (bu_data b1)))" by (rule take_add)
        finally show ?thesis by (simp add: buffered_bytes_def add.commute)
      qed
      have "buffer_wf ?b2" using 1(2) by (simp add: buffer_wf_def)
      moreover have "n - length ?d2 < n - length dest" "length ?d2 \<le> n" using k len lt by simp_all
      ultimately obtain b' rs where 2:
        "read_loop n ?b2 rs1 ?d2 = Some (b', rs, ?d2 @ take (n - length ?d2) (buffered_bytes ?b2 @ read_bytes rs1))"
        "buffer_wf b'" "\<forall>r \<in> set rs. good_read r"
        "buffered_bytes b' @ read_bytes rs = drop (n - length ?d2) (buffered_bytes ?b2 @ read_bytes rs1)"
        using less.hyps [OF _ _ 1(3)] by blast
      have step: "read_loop n b reads dest = read_loop n ?b2 rs1 ?d2"
        using lt 1(1) False fit by (subst read_loop.simps) (simp add: k_def Let_def)
      have all: "buffered_bytes b @ read_bytes reads =
          take k (drop (bu_position b1) (bu_data b1)) @ buffered_bytes ?b2 @ read_bytes rs1"
        using 1(4) split by simp
      have lk: "length (take k (drop (bu_position b1) (bu_data b1))) = k" using fit by simp
      have "take (n - length dest) (buffered_bytes b @ read_bytes reads) =
          take k (drop (bu_position b1) (bu_data b1)) @ take (n - length ?d2) (buffered_bytes ?b2 @ read_bytes rs1)"
        unfolding all take_append lk len using k(2) by simp
      moreover have "drop (n - length dest) (buffered_bytes b @ read_bytes reads) =
          drop (n - length ?d2) (buffered_bytes ?b2 @ read_bytes rs1)"
        unfolding all drop_append lk len using k(2) lk by simp
      ultimately show ?thesis using 2 step by simp
    qed
  qed
qed

text \<open>Reads that fail are not noticed: the bytes left in the buffer are delivered as if they had been read.\<close>

lemma buffer_read_after_error:
  assumes "length (bu_data b) = BUF_SIZE" and "bu_size b \<le> bu_position b" and "0 < n" and "n \<le> BUF_SIZE"
  shows "\<exists>b'. read_loop n b (Read_Error # rs) [] = Some (b', rs, take n (bu_data b))"
  using assms
  by (subst read_loop.simps) (simp add: refill_def Let_def min_def BUF_SIZE_def, subst read_loop.simps, simp)

subsection \<open>Writing fills the buffer once\<close>

lemma write_loop_fits:
  assumes "buffer_wf (bf_buffer bf)" and "bu_size (bf_buffer bf) + (length data - n) \<le> BUF_SIZE" and "n \<le> length data"
    and "n < length data \<longrightarrow> bu_size (bf_buffer bf) < BUF_SIZE"
  shows "write_loop wc bf data n log =
    Some (if n < length data then bf\<lparr>bf_buffer := copy_in (bf_buffer bf) (drop n data)\<rparr> else bf, int (length data), log)"
proof (cases "n < length data")
  case False
  then show ?thesis using assms(3) by (subst write_loop.simps) simp
next
  case True
  then have lt: "bu_size (bf_buffer bf) < BUF_SIZE" using assms(4) by simp
  have m: "min (length data - n) (BUF_SIZE - bu_size (bf_buffer bf)) = length data - n" using assms(2) by simp
  show ?thesis
    using True lt m by (subst write_loop.simps) (simp add: Let_def, subst write_loop.simps, simp)
qed

text \<open>A full dirty buffer is never flushed, so a write that does not fit does not return.\<close>

lemma write_loop_stuck:
  assumes "write_loop wc bf data n log = Some r"
  shows "\<not> (n < length data \<and> bu_size (bf_buffer bf) = BUF_SIZE \<and> bu_dirty (bf_buffer bf) \<noteq> 0)"
proof (rule write_loop.raw_induct [OF _ assms, where P = "\<lambda>wc bf data n log r.
    \<not> (n < length data \<and> bu_size (bf_buffer bf) = BUF_SIZE \<and> bu_dirty (bf_buffer bf) \<noteq> 0)"])
  fix f wc bf data n log r
  assume IH: "\<And>wc bf data n log r. f wc bf data n log = Some r \<Longrightarrow>
      \<not> (n < length data \<and> bu_size (bf_buffer bf) = BUF_SIZE \<and> bu_dirty (bf_buffer bf) \<noteq> 0)"
    and body: "(if n < length data then
        (case (if bu_size (bf_buffer bf) \<ge> BUF_SIZE then buffer_flush wc (Some bf) else (Some bf, 0, [])) of
           (bf', rc, out) \<Rightarrow>
             (case bf' of
                None \<Rightarrow> None
              | Some g \<Rightarrow>
                  if rc < 0 then Some (g, -1, log @ out)
                  else if bu_size (bf_buffer g) > BUF_SIZE then None
                  else let available = BUF_SIZE - bu_size (bf_buffer g);
                           to_copy = min (length data - n) available
                    in f wc (g\<lparr>bf_buffer := copy_in (bf_buffer g) (take to_copy (drop n data))\<rparr>)
                      data (n + to_copy) (log @ out)))
      else Some (bf, int n, log)) = Some r"
  show "\<not> (n < length data \<and> bu_size (bf_buffer bf) = BUF_SIZE \<and> bu_dirty (bf_buffer bf) \<noteq> 0)"
  proof
    assume a: "n < length data \<and> bu_size (bf_buffer bf) = BUF_SIZE \<and> bu_dirty (bf_buffer bf) \<noteq> 0"
    then have "f wc (bf\<lparr>bf_buffer := copy_in (bf_buffer bf) []\<rparr>) data n log = Some r"
      using body by (simp add: buffer_flush_def Let_def)
    from IH [OF this] a show False by (simp add: copy_in_def)
  qed
qed

lemma write_loop_overflow:
  assumes wf: "buffer_wf (bf_buffer bf)" and big: "BUF_SIZE < bu_size (bf_buffer bf) + (length data - n)"
    and dirty: "bu_size (bf_buffer bf) = BUF_SIZE \<longrightarrow> bu_dirty (bf_buffer bf) \<noteq> 0"
  shows "write_loop wc bf data n log = None"
proof -
  have n: "n < length data" using wf big unfolding buffer_wf_def by linarith
  show ?thesis
  proof (cases "bu_size (bf_buffer bf) = BUF_SIZE")
    case True
    with n dirty write_loop_stuck [of wc bf data n log] show ?thesis by (cases "write_loop wc bf data n log") auto
  next
    case False
    then have lt: "bu_size (bf_buffer bf) < BUF_SIZE" using wf by (simp add: buffer_wf_def)
    define k where "k = BUF_SIZE - bu_size (bf_buffer bf)"
    have m: "min (length data - n) k = k" "n + k < length data" using big lt by (auto simp: k_def)
    let ?f = "bf\<lparr>bf_buffer := copy_in (bf_buffer bf) (take k (drop n data))\<rparr>"
    have "bu_size (bf_buffer ?f) = BUF_SIZE" "bu_dirty (bf_buffer ?f) \<noteq> 0"
      using lt m(2) by (simp_all add: copy_in_def k_def)
    then have "write_loop wc ?f data (n + k) log = None"
      using m(2) write_loop_stuck [of wc ?f data "n + k" log] by (cases "write_loop wc ?f data (n + k) log") auto
    then show ?thesis
      using n lt m(1) by (subst write_loop.simps) (simp add: Let_def k_def [symmetric])
  qed
qed


text \<open>What is left of a full clean buffer after its flush.\<close>

definition emptied :: "buffered_file \<Rightarrow> buffered_file" where
  "emptied f = f\<lparr>bf_buffer := (bf_buffer f)\<lparr>bu_size := 0, bu_position := 0, bu_dirty := 0\<rparr>\<rparr>"

text \<open>Appending to the buffer: it succeeds exactly when the data fit.\<close>

definition appended :: "buffered_file \<Rightarrow> 8 word list \<Rightarrow> 8 word list list \<Rightarrow> (buffered_file option \<times> int \<times> 8 word list list) option" where
  "appended f data log =
     (if bu_size (bf_buffer f) + length data \<le> BUF_SIZE
      then Some (Some (f\<lparr>bf_buffer := copy_in (bf_buffer f) data\<rparr>), int (length data), log) else None)"

lemma write_loop_appends:
  assumes wf: "buffer_wf (bf_buffer f)" and data: "data \<noteq> []"
    and dirty: "bu_size (bf_buffer f) = BUF_SIZE \<longrightarrow> bu_dirty (bf_buffer f) \<noteq> 0"
  shows "map_option (\<lambda>(f', rc, l). (Some f', rc, l)) (write_loop write_call f data 0 log) = appended f data log"
proof (cases "bu_size (bf_buffer f) + length data \<le> BUF_SIZE")
  case True
  then have "0 < length data \<longrightarrow> bu_size (bf_buffer f) < BUF_SIZE" by linarith
  with True data write_loop_fits [OF wf, of data 0 write_call log] show ?thesis by (simp add: appended_def)
next
  case False
  then have "BUF_SIZE < bu_size (bf_buffer f) + (length data - 0)" by simp
  from write_loop_overflow [OF wf this dirty] False show ?thesis by (simp add: appended_def)
qed

lemma write_loop_flushes:
  assumes wf: "buffer_wf (bf_buffer f)" and data: "data \<noteq> []"
    and full: "bu_size (bf_buffer f) = BUF_SIZE" "bu_dirty (bf_buffer f) = 0"
  shows "write_loop write_call f data 0 [] =
    (if write_call (bu_data (bf_buffer f)) < 0 then Some (f, - 1, [bu_data (bf_buffer f)])
     else write_loop write_call (emptied f) data 0 [bu_data (bf_buffer f)])"
proof -
  have "take BUF_SIZE (bu_data (bf_buffer f)) = bu_data (bf_buffer f)" using wf by (simp add: buffer_wf_def)
  then have flush: "buffer_flush write_call (Some f) =
      (if write_call (bu_data (bf_buffer f)) < 0 then (Some f, - 1, [bu_data (bf_buffer f)])
       else (Some (emptied f), 0, [bu_data (bf_buffer f)]))"
    by (simp add: buffer_flush_def full emptied_def Let_def)
  have "0 < BUF_SIZE" by (simp add: BUF_SIZE_def)
  then show ?thesis
    using data by (subst (1 2) write_loop.simps) (simp add: full flush emptied_def)
qed

text \<open>C14: A buffered file and the stream behind it, for a buffer of the declared size. Both operations work only on a file whose
  mode is \<open>O_RDONLY\<close>: for any other mode, those for writing included, \<open>buffer_read\<close> and \<open>buffer_write\<close> return -1 and do nothing.
  In that mode, and as long as every \<open>read\<close> delivers something, \<open>buffer_read\<close> hands
  out exactly the next bytes of the stream (what is left in the buffer followed by what the reads
  deliver), fewer only at the end of the stream, and leaves the rest to be read. A write of no bytes does nothing. A write to a buffer that
  is not both full and clean succeeds exactly when the data fit into what is free of the buffer; it then appends them and calls
  \<open>write\<close> not once. A longer write never returns, because the flush test is inverted. Only a buffer that is full and clean (filled
  by a \<open>read\<close>) is flushed: its bytes, which came from the file, are handed to \<open>write\<close>, and when that succeeds the data are
  appended to the emptied buffer in the same way.\<close>
theorem buffered_file_contract:
  assumes wf: "buffer_wf (bf_buffer f)" and reads: "\<forall>r \<in> set reads. good_read r"
  shows "(bf_mode f \<noteq> O_RDONLY \<longrightarrow>
      buffer_read (Some f) n reads = Some (Some f, reads, - 1, []) \<and> buffer_write write_call (Some f) data = Some (Some f, - 1, [])) \<and>
    (bf_mode f = O_RDONLY \<longrightarrow>
      (\<exists>b' rs out. buffer_read (Some f) n reads = Some (Some (f\<lparr>bf_buffer := b'\<rparr>), rs, int (length out), out) \<and>
        out = take n (buffered_bytes (bf_buffer f) @ read_bytes reads) \<and>
        buffered_bytes b' @ read_bytes rs = drop n (buffered_bytes (bf_buffer f) @ read_bytes reads) \<and> buffer_wf b') \<and>
      buffer_write write_call (Some f) data =
        (if data = [] then Some (Some f, 0, [])
         else if bu_size (bf_buffer f) = BUF_SIZE \<and> bu_dirty (bf_buffer f) = 0
         then (if write_call (bu_data (bf_buffer f)) < 0 then Some (Some f, - 1, [bu_data (bf_buffer f)])
               else appended (emptied f) data [bu_data (bf_buffer f)])
         else appended f data []))"
proof (intro conjI impI)
  assume mode: "bf_mode f = O_RDONLY"
  from read_loop_stream [OF wf reads, of "[]" n] obtain b' rs where
    "read_loop n (bf_buffer f) reads [] = Some (b', rs, take n (buffered_bytes (bf_buffer f) @ read_bytes reads))"
    "buffer_wf b'" "buffered_bytes b' @ read_bytes rs = drop n (buffered_bytes (bf_buffer f) @ read_bytes reads)"
    by auto
  with mode show "\<exists>b' rs out. buffer_read (Some f) n reads = Some (Some (f\<lparr>bf_buffer := b'\<rparr>), rs, int (length out), out) \<and>
      out = take n (buffered_bytes (bf_buffer f) @ read_bytes reads) \<and>
      buffered_bytes b' @ read_bytes rs = drop n (buffered_bytes (bf_buffer f) @ read_bytes reads) \<and> buffer_wf b'"
    by (intro exI [of _ b'] exI [of _ rs]
        exI [of _ "take n (buffered_bytes (bf_buffer f) @ read_bytes reads)"]) (simp add: buffer_read_def)
  let ?w = "\<lambda>g l. map_option (\<lambda>(f', rc, l). (Some f', rc, l)) (write_loop write_call g data 0 l)"
  have w: "buffer_write write_call (Some f) data = ?w f []"
    using mode by (cases "write_loop write_call f data 0 []") (auto simp: buffer_write_def)
  have "buffer_wf (bf_buffer (emptied f))" "bu_size (bf_buffer (emptied f)) \<noteq> BUF_SIZE"
    using wf by (simp_all add: buffer_wf_def emptied_def BUF_SIZE_def)
  then have e: "data \<noteq> [] \<Longrightarrow> ?w (emptied f) l = appended (emptied f) data l" for l using write_loop_appends by blast
  have none: "?w f [] = Some (Some f, 0, [])" if "data = []" using that by (subst write_loop.simps) simp
  show "buffer_write write_call (Some f) data =
      (if data = [] then Some (Some f, 0, [])
       else if bu_size (bf_buffer f) = BUF_SIZE \<and> bu_dirty (bf_buffer f) = 0
       then (if write_call (bu_data (bf_buffer f)) < 0 then Some (Some f, - 1, [bu_data (bf_buffer f)])
             else appended (emptied f) data [bu_data (bf_buffer f)])
       else appended f data [])"
    unfolding w using none e write_loop_appends [OF wf] write_loop_flushes [OF wf] by simp
qed (simp_all add: buffer_read_def buffer_write_def)

theorem buffered_file_contract_witness:
  "\<exists>f b' rs. create_buffered_file (Some (replicate 4096 0)) 3 0 = Some f \<and>
     buffer_read (Some f) 3 [Data [1, 2], Data [3, 4]] = Some (Some (f\<lparr>bf_buffer := b'\<rparr>), rs, 3, [1, 2, 3]) \<and>
     buffered_bytes b' @ read_bytes rs = [4] \<and> buffer_write (\<lambda>_. 0) (Some f) (replicate 4097 7) = None"
proof -
  let ?f = "\<lparr>bf_fd = 3, bf_buffer = \<lparr>bu_data = replicate 4096 0, bu_size = 0, bu_position = 0, bu_dirty = 0\<rparr>, bf_mode = 0\<rparr>"
  let ?rs = "[Data [1, 2], Data [3, 4]]"
  have h: "buffer_wf (bf_buffer ?f)" "\<forall>r \<in> set ?rs. good_read r" and mode: "bf_mode ?f = O_RDONLY"
    by (simp_all add: buffer_wf_def BUF_SIZE_def O_RDONLY_def good_read_def)
  have all: "buffered_bytes (bf_buffer ?f) @ read_bytes ?rs = [1, 2, 3, 4]" by (simp add: buffered_bytes_def)
  note c = mp [OF conjunct2 [OF buffered_file_contract [OF h, of 3 "\<lambda>_. 0" "replicate 4097 7"]] mode]
  from conjunct1 [OF c] all obtain b' rs where
    "buffer_read (Some ?f) 3 ?rs = Some (Some (?f\<lparr>bf_buffer := b'\<rparr>), rs, 3, [1, 2, 3])"
    "buffered_bytes b' @ read_bytes rs = [4]" by auto
  moreover have "create_buffered_file (Some (replicate 4096 0)) 3 0 = Some ?f" by (simp add: create_buffered_file_def)
  moreover have "buffer_write (\<lambda>_. 0) (Some ?f) (replicate 4097 7) = None"
    using conjunct2 [OF c] by (simp add: BUF_SIZE_def appended_def)
  ultimately show ?thesis by blast
qed

subsection \<open>The error record\<close>

datatype fs_error = FS_ERROR_NONE | FS_ERROR_IO | FS_ERROR_NOMEM | FS_ERROR_NOSPACE | FS_ERROR_NOTFOUND |
  FS_ERROR_PERMISSION | FS_ERROR_INVALID

record fs_error_info =
  ei_code :: fs_error
  ei_msg :: "char list"
  ei_system_errno :: int

text \<open>The context only holds the last error.\<close>

definition fs_set_error :: "fs_error_info option \<Rightarrow> fs_error \<Rightarrow> string \<Rightarrow> int \<Rightarrow> fs_error_info option option" where
  "fs_set_error ctx code msg errno =
     (case ctx of
        None \<Rightarrow> Some None
      | Some e \<Rightarrow> do {
          m \<leftarrow> wr (c_strncpy (ei_msg e) msg 255) 255 (CHR 0x00);
          Some (Some (e\<lparr>ei_code := code, ei_system_errno := errno, ei_msg := m\<rparr>)) })"

text \<open>A message is always a C string, cut at 255 characters.\<close>

lemma fs_set_error_msg:
  assumes "length (ei_msg e) = 256" and "CHR 0x00 \<notin> set msg"
  shows "\<exists>e'. fs_set_error (Some e) code msg errno = Some (Some e') \<and> ei_code e' = code \<and>
    length (ei_msg e') = 256 \<and> c_string (ei_msg e') = Some (take 255 msg)"
proof -
  let ?m = "(c_strncpy (ei_msg e) msg 255)[255 := CHR 0x00]"
  have len: "length (c_strncpy (ei_msg e) msg 255) = 256" using assms(1) by (simp add: length_c_strncpy)
  have "c_string ?m = Some (take 255 msg)"
  proof (cases "length msg < 255")
    case True
    have t: "take (Suc (length msg)) (c_strncpy (ei_msg e) msg 255) = msg @ [CHR 0x00]"
      using c_strncpy_terminated(2) [of msg 255 "ei_msg e"] True assms(1) by simp
    have "take (Suc (length msg)) ?m = msg @ [CHR 0x00]" using t True by (simp add: take_update_cancel)
    then have "?m = msg @ CHR 0x00 # drop (Suc (length msg)) ?m"
      by (metis append.assoc append_Cons append_Nil append_take_drop_id)
    with c_string_eq [OF assms(2)] have "c_string ?m = Some msg" by metis
    with True show ?thesis by simp
  next
    case False
    then have "c_strncpy (ei_msg e) msg 255 = take 255 msg @ drop 255 (ei_msg e)" by (simp add: c_strncpy_unterminated)
    moreover obtain x where "drop 255 (ei_msg e) = [x]"
      using assms(1) by (cases "drop 255 (ei_msg e)") (auto dest: arg_cong [where f = length])
    ultimately have "?m = take 255 msg @ CHR 0x00 # []" using False by (simp add: list_update_append)
    moreover have "CHR 0x00 \<notin> set (take 255 msg)" using assms(2) by (meson in_set_takeD)
    ultimately show ?thesis using c_string_eq by metis
  qed
  with len show ?thesis by (simp add: fs_set_error_def)
qed

subsection \<open>The file table of the demo\<close>

definition FS_MAX_PATH :: nat where "FS_MAX_PATH = 4096"
definition FS_MAX_FILES :: nat where "FS_MAX_FILES = 1024"

record fs_file =
  ff_fd :: int
  ff_path :: "char list"
  ff_mode :: c_uint
  ff_size :: int
  ff_times :: "int \<times> int \<times> int"

record demo_fs =
  df_root :: "char list"
  df_files :: "fs_file list"
  df_file_count :: int
  df_error_ctx :: fs_error_info

definition zero_demo_fs :: demo_fs where
  "zero_demo_fs = \<lparr>df_root = replicate FS_MAX_PATH (CHR 0x00),
     df_files = replicate FS_MAX_FILES \<lparr>ff_fd = 0, ff_path = replicate FS_MAX_PATH (CHR 0x00), ff_mode = 0, ff_size = 0,
       ff_times = (0, 0, 0)\<rparr>,
     df_file_count = 0,
     df_error_ctx = \<lparr>ei_code = FS_ERROR_NONE, ei_msg = replicate 256 (CHR 0x00), ei_system_errno = 0\<rparr>\<rparr>"

text \<open>\<open>mkdir\<close> returns \<open>rc\<close>; \<open>exists\<close> says whether \<open>errno\<close> is \<open>EEXIST\<close>.\<close>

definition fs_create :: "bool \<Rightarrow> string \<Rightarrow> int \<Rightarrow> bool \<Rightarrow> demo_fs option" where
  "fs_create fs_ok root rc exists =
     (if \<not> fs_ok then None
      else let fs = zero_demo_fs\<lparr>df_root := c_strncpy (df_root zero_demo_fs) root (FS_MAX_PATH - 1)\<rparr>
        in if rc < 0 \<and> \<not> exists then None else Some fs)"

text \<open>
  \<open>open_call\<close> returns a descriptor or a negative number; \<open>stat\<close> is what \<open>fstat\<close> finds, if it succeeds. The result carries the
  descriptor that was closed again, if any. A null \<open>fs\<close> is dereferenced.
\<close>

definition set_ctx_error :: "demo_fs \<Rightarrow> fs_error \<Rightarrow> string \<Rightarrow> int \<Rightarrow> demo_fs option" where
  "set_ctx_error fs code msg errno = do {
     e \<leftarrow> fs_set_error (Some (df_error_ctx fs)) code msg errno;
     e' \<leftarrow> e;
     Some (fs\<lparr>df_error_ctx := e'\<rparr>) }"

definition fs_create_file ::
  "(string \<Rightarrow> c_uint \<Rightarrow> int) \<Rightarrow> (int \<Rightarrow> (int \<times> int \<times> int \<times> int) option) \<Rightarrow> int \<Rightarrow>
     demo_fs option \<Rightarrow> string option \<Rightarrow> c_uint \<Rightarrow> (demo_fs \<times> int \<times> int option) option" where
  "fs_create_file open_call fstat errno fs_ptr path_ptr mode =
     (case fs_ptr of
        None \<Rightarrow> None
      | Some fs \<Rightarrow> (case path_ptr of
          None \<Rightarrow> do { fs' \<leftarrow> set_ctx_error fs FS_ERROR_INVALID ''Invalid parameters'' errno; Some (fs', -1, None) }
        | Some path \<Rightarrow> do {
            root \<leftarrow> c_string (df_root fs);
            let fd = open_call (take (FS_MAX_PATH - 1) (root @ ''/'' @ path)) mode;
            if fd < 0 then do {
              fs' \<leftarrow> set_ctx_error fs FS_ERROR_IO ''Failed to create file'' errno;
              Some (fs', -1, None) }
            else if df_file_count fs \<ge> int FS_MAX_FILES then do {
              fs' \<leftarrow> set_ctx_error fs FS_ERROR_NOSPACE ''File table full'' errno;
              Some (fs', -1, Some fd) }
            else do {
              file \<leftarrow> rdi (df_files fs) (df_file_count fs);
              count \<leftarrow> chk (df_file_count fs + 1);
              let f1 = file\<lparr>ff_fd := fd, ff_path := c_strncpy (ff_path file) path (FS_MAX_PATH - 1), ff_mode := mode\<rparr>;
              let f2 = (case fstat fd of None \<Rightarrow> f1 | Some (sz, stamps) \<Rightarrow> f1\<lparr>ff_size := sz, ff_times := stamps\<rparr>);
              files \<leftarrow> wri (df_files fs) (df_file_count fs) f2;
              Some (fs\<lparr>df_files := files, df_file_count := count\<rparr>, count - 1, None) } }))"

definition demo_inv :: "demo_fs \<Rightarrow> bool" where
  "demo_inv fs \<longleftrightarrow> length (df_files fs) = FS_MAX_FILES \<and> 0 \<le> df_file_count fs \<and> df_file_count fs \<le> int FS_MAX_FILES \<and>
     c_string (df_root fs) \<noteq> None \<and> length (ei_msg (df_error_ctx fs)) = 256"

lemma fs_create_file_cases:
  assumes inv: "demo_inv fs" and fd: "\<forall>p m. 0 \<le> open_call p m"
  shows "df_file_count fs < 1024 \<Longrightarrow>
      \<exists>fs'. fs_create_file open_call fstat errno (Some fs) (Some path) mode = Some (fs', df_file_count fs, None) \<and>
        demo_inv fs' \<and> df_file_count fs' = df_file_count fs + 1 \<and> df_error_ctx fs' = df_error_ctx fs \<and>
        (\<forall>i < nat (df_file_count fs). df_files fs' ! i = df_files fs ! i)"
    and "df_file_count fs = 1024 \<Longrightarrow>
      \<exists>fs' fd. fs_create_file open_call fstat errno (Some fs) (Some path) mode = Some (fs', -1, Some fd) \<and>
        df_files fs' = df_files fs \<and> df_file_count fs' = 1024 \<and> ei_code (df_error_ctx fs') = FS_ERROR_NOSPACE"
proof -
  have len: "length (df_files fs) = 1024" "0 \<le> df_file_count fs"
    using inv by (simp_all add: demo_inv_def FS_MAX_FILES_def)
  obtain root where root: "c_string (df_root fs) = Some root" using inv by (auto simp: demo_inv_def)
  define fd where "fd = open_call (take (FS_MAX_PATH - 1) (root @ ''/'' @ path)) mode"
  have fdn: "\<not> fd < 0" using fd_def assms(2) by (simp add: not_less)
  { assume lt: "df_file_count fs < 1024"
    have ok: "int_ok (df_file_count fs + 1)" using lt len by (simp add: int_ok_def INT_MIN_def INT_MAX_def)
    define old where "old = df_files fs ! nat (df_file_count fs)"
    define f1 where "f1 = old\<lparr>ff_fd := fd, ff_path := c_strncpy (ff_path old) path (FS_MAX_PATH - 1), ff_mode := mode\<rparr>"
    define f2 where "f2 = (case fstat fd of None \<Rightarrow> f1 | Some (sz, stamps) \<Rightarrow> f1\<lparr>ff_size := sz, ff_times := stamps\<rparr>)"
    let ?fs' = "fs\<lparr>df_files := (df_files fs)[nat (df_file_count fs) := f2], df_file_count := df_file_count fs + 1\<rparr>"
    have rw: "rdi (df_files fs) (df_file_count fs) = Some old"
      "\<And>f. wri (df_files fs) (df_file_count fs) f = Some ((df_files fs)[nat (df_file_count fs) := f])"
      using len lt by (simp_all add: old_def nat_less_iff)
    have nfull: "\<not> int FS_MAX_FILES \<le> df_file_count fs" using lt by (simp add: FS_MAX_FILES_def)
    have "fs_create_file open_call fstat errno (Some fs) (Some path) mode = Some (?fs', df_file_count fs, None)"
      unfolding fs_create_file_def option.case root bind.bind_lunit Let_def fd_def [symmetric] if_not_P [OF fdn]
        if_not_P [OF nfull] rw chk_Some [OF ok] f2_def f1_def
      by simp
    moreover have "demo_inv ?fs'" using inv lt by (simp add: demo_inv_def FS_MAX_FILES_def)
    ultimately show "\<exists>fs'. fs_create_file open_call fstat errno (Some fs) (Some path) mode = Some (fs', df_file_count fs, None) \<and>
        demo_inv fs' \<and> df_file_count fs' = df_file_count fs + 1 \<and> df_error_ctx fs' = df_error_ctx fs \<and>
        (\<forall>i < nat (df_file_count fs). df_files fs' ! i = df_files fs ! i)"
      by (intro exI [of _ ?fs']) simp }
  { assume full: "df_file_count fs = 1024"
    have "length (ei_msg (df_error_ctx fs)) = 256" using inv by (simp add: demo_inv_def)
    from fs_set_error_msg [OF this, of "''File table full''" FS_ERROR_NOSPACE errno] obtain e where
      e: "fs_set_error (Some (df_error_ctx fs)) FS_ERROR_NOSPACE ''File table full'' errno = Some (Some e)"
      "ei_code e = FS_ERROR_NOSPACE" by auto
    have isfull: "int FS_MAX_FILES \<le> df_file_count fs" using full by (simp add: FS_MAX_FILES_def)
    have "fs_create_file open_call fstat errno (Some fs) (Some path) mode = Some (fs\<lparr>df_error_ctx := e\<rparr>, -1, Some fd)"
      unfolding fs_create_file_def option.case root bind.bind_lunit Let_def fd_def [symmetric] if_not_P [OF fdn]
        if_P [OF isfull] set_ctx_error_def e by simp
    with e full show "\<exists>fs' fd. fs_create_file open_call fstat errno (Some fs) (Some path) mode = Some (fs', -1, Some fd) \<and>
        df_files fs' = df_files fs \<and> df_file_count fs' = 1024 \<and> ei_code (df_error_ctx fs') = FS_ERROR_NOSPACE"
      by (intro exI [of _ "fs\<lparr>df_error_ctx := e\<rparr>"] exI [of _ fd]) simp }
qed

subsection \<open>Record files\<close>

text \<open>A file of records of 132 bytes, with \<open>extra < 132\<close> bytes after the last one.\<close>

definition sizeof_Record :: nat where "sizeof_Record = 132"

record file_record =
  fr_id :: int
  fr_data :: "8 word list"

text \<open>
  \<open>malloc (sizeof (record))\<close> has room for a pointer, 8 bytes. A negative offset makes \<open>fseek\<close> fail, and the file is
  read from its start.
\<close>

definition random_access :: "bool \<Rightarrow> bool \<Rightarrow> file_record list \<Rightarrow> nat \<Rightarrow> int \<Rightarrow> file_record option option" where
  "random_access file_ok record_ok records extra record_num =
     (if \<not> file_ok then Some None
      else if \<not> record_ok then Some None
      else let i = (if record_num < 0 then 0 else nat record_num);
               avail = (if i < length records then sizeof_Record else if i = length records then extra else 0)
        in if avail > 8 then None
           else if avail = sizeof_Record then Some (Some (records ! i))
           else Some None)"

text \<open>No record is ever returned: reading one overruns the allocation.\<close>

lemma random_access_never_succeeds:
  "random_access file_ok record_ok records extra i \<noteq> Some (Some r)"
  "\<lbrakk>0 \<le> i; nat i < length records\<rbrakk> \<Longrightarrow> random_access True True records extra i = None"
  by (auto simp: random_access_def Let_def sizeof_Record_def)

record index_entry =
  ix_key :: int
  ix_position :: int

text \<open>The loop of \<open>build_index\<close>: the rest of the file, the index and the entries filled so far.\<close>

fun index_loop :: "file_record list \<Rightarrow> nat \<Rightarrow> nat \<Rightarrow> index_entry list \<Rightarrow> index_entry list option" where
  "index_loop [] i n entries = Some entries"
| "index_loop (r # rest) i n entries =
     (if i < n then do {
        es \<leftarrow> wr entries i \<lparr>ix_key = fr_id r, ix_position = int (i * sizeof_Record)\<rparr>;
        index_loop rest (i + 1) n es }
      else Some entries)"

definition build_index ::
  "bool \<Rightarrow> bool \<Rightarrow> index_entry list option \<Rightarrow> file_record list \<Rightarrow> nat \<Rightarrow> (index_entry list \<times> nat) option option" where
  "build_index file_ok idx_ok raw records extra =
     (if \<not> file_ok then Some None
      else if \<not> idx_ok then Some None
      else let file_size = length records * sizeof_Record + extra;
               sz = file_size div sizeof_Record
        in case raw of
             None \<Rightarrow> Some None
           | Some entries \<Rightarrow> do {
               es \<leftarrow> index_loop records 0 sz entries;
               Some (Some (es, sz)) })"

lemma index_loop_eq:
  assumes "length entries = n" and "i + length rest = n"
  shows "index_loop rest i n entries = Some (take i entries @
    map (\<lambda>(k, r). \<lparr>ix_key = fr_id r, ix_position = int (k * sizeof_Record)\<rparr>) (enumerate i rest))"
  using assms
proof (induction rest arbitrary: i entries)
  case (Cons r rest)
  then have "i < length entries" by simp
  with Cons show ?case by (simp add: take_Suc_conv_app_nth)
qed simp

text \<open>The index lists every record with its key and its byte position.\<close>

lemma build_index_ok:
  assumes "length raw = length records" and "extra < sizeof_Record"
  shows "build_index True True (Some raw) records extra = Some (Some
    (map (\<lambda>(k, r). \<lparr>ix_key = fr_id r, ix_position = int (k * sizeof_Record)\<rparr>) (enumerate 0 records), length records))"
proof -
  have "(length records * sizeof_Record + extra) div sizeof_Record = length records"
    using assms(2) by (simp add: sizeof_Record_def)
  then show ?thesis using assms(1) by (simp add: build_index_def Let_def index_loop_eq)
qed

end
