(* ===== verification/Linked_Blocks.thy ===== *)
theory Linked_Blocks
  imports OS_Prelude
begin

unbundle bit_operations_syntax

section \<open>Doubly linked block lists: d23 Custom_Memory_Allocator.c\<close>

text \<open>
  The block headers of the allocator live at addresses of a memory, a partial map from addresses to
  headers, and are chained by \<open>next\<close> and \<open>prev\<close> pointers. \<open>seg m p xs q\<close> says that the headers at \<open>xs\<close> form a
  doubly linked list between the neighbours \<open>p\<close> and \<open>q\<close>. The allocator takes blocks out of one list and
  pushes them on the other; both operations are described here by what they do to the list of addresses.
\<close>

subsection \<open>Headers and pointers\<close>

record heap_block =
  bk_is_free :: bool
  bk_size :: size_t
  bk_next :: "nat option"
  bk_prev :: "nat option"

type_synonym block_mem = "nat \<rightharpoonup> heap_block"

definition set_next :: "block_mem \<Rightarrow> nat \<Rightarrow> nat option \<Rightarrow> block_mem option" where
  "set_next m a v = do { b \<leftarrow> m a; Some (m(a \<mapsto> b\<lparr>bk_next := v\<rparr>)) }"

definition set_prev :: "block_mem \<Rightarrow> nat \<Rightarrow> nat option \<Rightarrow> block_mem option" where
  "set_prev m a v = do { b \<leftarrow> m a; Some (m(a \<mapsto> b\<lparr>bk_prev := v\<rparr>)) }"

text \<open>Taking block \<open>a\<close> out of the list that starts at \<open>head\<close>.\<close>

definition unlink_block :: "block_mem \<Rightarrow> nat option \<Rightarrow> nat \<Rightarrow> (block_mem \<times> nat option) option" where
  "unlink_block m head a = do {
     b \<leftarrow> m a;
     (m1, head1) \<leftarrow> (case bk_prev b of
         Some p \<Rightarrow> do { m1 \<leftarrow> set_next m p (bk_next b); Some (m1, head) }
       | None \<Rightarrow> Some (m, bk_next b));
     b1 \<leftarrow> m1 a;
     m2 \<leftarrow> (case bk_next b1 of Some n \<Rightarrow> set_prev m1 n (bk_prev b1) | None \<Rightarrow> Some m1);
     Some (m2, head1) }"

text \<open>Putting block \<open>a\<close> in front of the list that starts at \<open>head\<close>.\<close>

definition push_block :: "block_mem \<Rightarrow> nat option \<Rightarrow> nat \<Rightarrow> (block_mem \<times> nat option) option" where
  "push_block m head a = do {
     m1 \<leftarrow> set_next m a head;
     m2 \<leftarrow> set_prev m1 a None;
     m3 \<leftarrow> (case head of Some n \<Rightarrow> set_prev m2 n (Some a) | None \<Rightarrow> Some m2);
     Some (m3, Some a) }"

subsection \<open>List segments\<close>

definition first :: "nat list \<Rightarrow> nat option \<Rightarrow> nat option" where
  "first xs q = (case xs of [] \<Rightarrow> q | x # _ \<Rightarrow> Some x)"

definition final :: "nat option \<Rightarrow> nat list \<Rightarrow> nat option" where
  "final p xs = (if xs = [] then p else Some (last xs))"

fun seg :: "block_mem \<Rightarrow> nat option \<Rightarrow> nat list \<Rightarrow> nat option \<Rightarrow> bool" where
  "seg m p [] q = True"
| "seg m p (a # as) q = (case m a of None \<Rightarrow> False
     | Some b \<Rightarrow> bk_prev b = p \<and> bk_next b = first as q \<and> seg m (Some a) as q)"

lemma first_simps [simp]: "first [] q = q" "first (x # xs) q = Some x" "first (xs @ ys) q = first xs (first ys q)"
  by (auto simp: first_def split: list.splits)

lemma final_simps [simp]: "final p [] = p" "final p (xs @ [x]) = Some x" "final (Some x) xs = final p (x # xs)"
  by (auto simp: final_def)

lemma seg_append: "seg m p (xs @ ys) q \<longleftrightarrow> seg m p xs (first ys q) \<and> seg m (final p xs) ys q"
  by (induction xs arbitrary: p) (auto split: option.splits simp: final_def)

lemma seg_mem: "\<lbrakk>seg m p xs q; a \<in> set xs\<rbrakk> \<Longrightarrow> m a \<noteq> None"
  by (induction xs arbitrary: p) (auto split: option.splits)

lemma seg_frame: "\<lbrakk>seg m p xs q; \<And>a. a \<in> set xs \<Longrightarrow> m' a = m a\<rbrakk> \<Longrightarrow> seg m' p xs q"
  by (induction xs arbitrary: p) (auto split: option.splits)

text \<open>Changing the outer neighbours of a segment.\<close>

lemma seg_last_next:
  assumes "seg m p (xs @ [a]) q" and "a \<notin> set xs"
  shows "\<exists>b. m a = Some b \<and> bk_next b = q \<and> bk_prev b = final p xs \<and> seg (m(a \<mapsto> b\<lparr>bk_next := q'\<rparr>)) p (xs @ [a]) q'"
proof -
  from assms(1) obtain b where b: "m a = Some b" "bk_next b = q" "bk_prev b = final p xs" "seg m p xs (Some a)"
    by (auto simp: seg_append split: option.splits)
  have "seg (m(a \<mapsto> b\<lparr>bk_next := q'\<rparr>)) p xs (Some a)"
    using b(4) by (rule seg_frame) (use assms(2) in auto)
  with b show ?thesis by (auto simp: seg_append)
qed

lemma seg_first_prev:
  assumes "seg m p (a # ys) q" and "a \<notin> set ys"
  shows "\<exists>b. m a = Some b \<and> bk_next b = first ys q \<and> bk_prev b = p \<and> seg (m(a \<mapsto> b\<lparr>bk_prev := p'\<rparr>)) p' (a # ys) q"
proof -
  from assms(1) obtain b where b: "m a = Some b" "bk_next b = first ys q" "bk_prev b = p" "seg m (Some a) ys q"
    by (auto split: option.splits)
  have "seg (m(a \<mapsto> b\<lparr>bk_prev := p'\<rparr>)) (Some a) ys q"
    using b(4) by (rule seg_frame) (use assms(2) in auto)
  with b show ?thesis by auto
qed

text \<open>What link changes leave alone: the size and the flag of every header.\<close>

definition same_blocks :: "block_mem \<Rightarrow> block_mem \<Rightarrow> bool" where
  "same_blocks m m' \<longleftrightarrow> (\<forall>a. map_option (\<lambda>b. (bk_is_free b, bk_size b)) (m' a) = map_option (\<lambda>b. (bk_is_free b, bk_size b)) (m a))"

lemma same_blocks_refl [simp]: "same_blocks m m"
  by (simp add: same_blocks_def)

lemma same_blocks_trans [trans]: "\<lbrakk>same_blocks m m'; same_blocks m' m''\<rbrakk> \<Longrightarrow> same_blocks m m''"
  by (simp add: same_blocks_def)

lemma same_blocks_link:
  "m a = Some b \<Longrightarrow> same_blocks m (m(a \<mapsto> b\<lparr>bk_next := v\<rparr>))"
  "m a = Some b \<Longrightarrow> same_blocks m (m(a \<mapsto> b\<lparr>bk_prev := v\<rparr>))"
  by (auto simp: same_blocks_def)

lemma same_blocks_dom: "same_blocks m m' \<Longrightarrow> dom m' = dom m"
  unfolding same_blocks_def dom_def by (metis (mono_tags, lifting) option.map_disc_iff)

lemma final_cases: obtains "xs = []" "final p xs = p" | ys x where "xs = ys @ [x]" "final p xs = Some x"
  by (cases xs rule: rev_cases) auto

text \<open>Unlinking removes the block from the list and touches only its neighbours.\<close>

lemma unlink_block_seg:
  assumes sg: "seg m None (xs @ a # ys) None" and dist: "distinct (xs @ a # ys)"
  shows "\<exists>m'. unlink_block m (first (xs @ a # ys) None) a = Some (m', first (xs @ ys) None) \<and>
    seg m' None (xs @ ys) None \<and> same_blocks m m' \<and> (\<forall>c. c \<notin> set (xs @ ys) \<longrightarrow> m' c = m c)"
proof -
  have parts: "seg m None xs (Some a)" "seg m (final None xs) (a # ys) None" using sg by (auto simp: seg_append)
  then obtain b where b: "m a = Some b" "bk_prev b = final None xs" "bk_next b = first ys None" "seg m (Some a) ys None"
    by (auto split: option.splits)
  have "\<exists>m1. (case bk_prev b of
         Some p \<Rightarrow> do { m1 \<leftarrow> set_next m p (bk_next b); Some (m1, first (xs @ a # ys) None) }
       | None \<Rightarrow> Some (m, bk_next b)) = Some (m1, first (xs @ ys) None) \<and>
      seg m1 None xs (first ys None) \<and> same_blocks m m1 \<and> (\<forall>c. c \<notin> set xs \<longrightarrow> m1 c = m c)"
  proof (cases xs rule: rev_cases)
    case Nil
    with b show ?thesis by simp
  next
    case (snoc zs p)
    from seg_last_next [of m None zs p "Some a" "first ys None"] parts(1) dist snoc
    obtain c where c: "m p = Some c" "seg (m(p \<mapsto> c\<lparr>bk_next := first ys None\<rparr>)) None (zs @ [p]) (first ys None)" by auto
    with b snoc same_blocks_link(1) [where m = m, OF c(1)] show ?thesis by (intro exI [of _ "m(p \<mapsto> c\<lparr>bk_next := first ys None\<rparr>)"]) (simp add: set_next_def)
  qed
  then obtain m1 where m1: "(case bk_prev b of
         Some p \<Rightarrow> do { m1 \<leftarrow> set_next m p (bk_next b); Some (m1, first (xs @ a # ys) None) }
       | None \<Rightarrow> Some (m, bk_next b)) = Some (m1, first (xs @ ys) None)"
      "seg m1 None xs (first ys None)" "same_blocks m m1" "\<forall>c. c \<notin> set xs \<longrightarrow> m1 c = m c" by blast
  have m1a: "m1 a = Some b" using m1(4) b(1) dist by simp
  have ys: "seg m1 (Some a) ys None" using b(4) by (rule seg_frame) (use m1(4) dist in auto)
  have "\<exists>m2. (case bk_next b of Some n \<Rightarrow> set_prev m1 n (bk_prev b) | None \<Rightarrow> Some m1) = Some m2 \<and>
      seg m2 None (xs @ ys) None \<and> same_blocks m1 m2 \<and> (\<forall>c. c \<notin> set ys \<longrightarrow> m2 c = m1 c)"
  proof (cases ys)
    case Nil
    with b m1(2) show ?thesis by (auto simp: seg_append)
  next
    case (Cons n zs)
    from seg_first_prev [of m1 "Some a" n zs None "final None xs"] ys dist Cons
    obtain c where c: "m1 n = Some c" "seg (m1(n \<mapsto> c\<lparr>bk_prev := final None xs\<rparr>)) (final None xs) (n # zs) None" by auto
    have "seg (m1(n \<mapsto> c\<lparr>bk_prev := final None xs\<rparr>)) None xs (first ys None)"
      using m1(2) by (rule seg_frame) (use dist Cons in auto)
    with c b Cons same_blocks_link(2) [where m = m1, OF c(1)] show ?thesis by (auto simp: set_prev_def seg_append)
  qed
  then obtain m2 where m2: "(case bk_next b of Some n \<Rightarrow> set_prev m1 n (bk_prev b) | None \<Rightarrow> Some m1) = Some m2"
      "seg m2 None (xs @ ys) None" "same_blocks m1 m2" "\<forall>c. c \<notin> set ys \<longrightarrow> m2 c = m1 c" by blast
  have "unlink_block m (first (xs @ a # ys) None) a = Some (m2, first (xs @ ys) None)"
    unfolding unlink_block_def b(1) bind.bind_lunit m1(1) using m1a m2(1) by simp
  moreover have "\<forall>c. c \<notin> set (xs @ ys) \<longrightarrow> m2 c = m c" using m1(4) m2(4) by auto
  ultimately show ?thesis using m2(2) same_blocks_trans [OF m1(3) m2(3)] by blast
qed

lemma push_block_seg:
  assumes sg: "seg m None ys None" and a: "m a \<noteq> None" and dist: "distinct (a # ys)"
  shows "\<exists>m'. push_block m (first ys None) a = Some (m', Some a) \<and> seg m' None (a # ys) None \<and>
    same_blocks m m' \<and> (\<forall>c. c \<notin> set (a # ys) \<longrightarrow> m' c = m c)"
proof -
  obtain b where b: "m a = Some b" using a by auto
  define b2 where "b2 = b\<lparr>bk_next := first ys None, bk_prev := None\<rparr>"
  define m2 where "m2 = m(a \<mapsto> b2)"
  have pre: "do { m1 \<leftarrow> set_next m a (first ys None); set_prev m1 a None } = Some m2"
    using b by (simp add: set_next_def set_prev_def m2_def b2_def)
  have push: "push_block m hd a = do {
      m2 \<leftarrow> do { m1 \<leftarrow> set_next m a hd; set_prev m1 a None };
      m3 \<leftarrow> (case hd of Some n \<Rightarrow> set_prev m2 n (Some a) | None \<Rightarrow> Some m2);
      Some (m3, Some a) }" for hd
    by (simp add: push_block_def)
  have same: "same_blocks m m2" using b by (auto simp: same_blocks_def m2_def b2_def)
  show ?thesis
  proof (cases ys)
    case Nil
    then have "push_block m (first ys None) a = Some (m2, Some a)" unfolding push pre by simp
    with same Nil show ?thesis by (intro exI [of _ m2]) (auto simp: m2_def b2_def)
  next
    case (Cons n zs)
    have "seg m2 None ys None" using sg by (rule seg_frame) (use dist in \<open>auto simp: m2_def\<close>)
    with seg_first_prev [of m2 None n zs None "Some a"] dist Cons obtain c where
      c: "m2 n = Some c" "seg (m2(n \<mapsto> c\<lparr>bk_prev := Some a\<rparr>)) (Some a) (n # zs) None" by auto
    let ?m3 = "m2(n \<mapsto> c\<lparr>bk_prev := Some a\<rparr>)"
    have "push_block m (first ys None) a = Some (?m3, Some a)"
      unfolding push pre using c(1) Cons by (simp add: set_prev_def)
    moreover have "seg ?m3 None (a # ys) None" using c(2) dist Cons by (auto simp: m2_def b2_def)
    moreover have "same_blocks m ?m3" using same same_blocks_link(2) [where m = m2, OF c(1)] by (rule same_blocks_trans)
    moreover have "\<forall>x. x \<notin> set (a # ys) \<longrightarrow> ?m3 x = m x" using Cons by (auto simp: m2_def)
    ultimately show ?thesis by blast
  qed
qed

end
