(* ===== verification/Custom_Malloc.thy ===== *)
theory Custom_Malloc
  imports Linked_Blocks
begin

unbundle bit_operations_syntax

section \<open>The custom allocator: d23 Custom_Memory_Allocator.c\<close>

text \<open>
  \<open>custom_malloc\<close> takes the best fitting block of the free list, or a new region from \<open>sbrk\<close> (a parameter), splits
  it, and moves it to the used list; \<open>custom_free\<close> moves a block back. The layout is that of x86-64:
  \<open>sizeof (block_t)\<close> is 40, \<open>data\<close> begins at offset 32, \<open>ALIGNMENT\<close> is 16. The global heap is the state.
\<close>

subsection \<open>The heap\<close>

definition BLOCK_T_SIZE :: size_t where "BLOCK_T_SIZE = 40"
definition DATA_OFFSET :: nat where "DATA_OFFSET = 32"

definition ALIGN :: "size_t \<Rightarrow> size_t" where
  "ALIGN sz = (sz + 15) AND NOT 15"

record custom_heap =
  ch_mem :: block_mem
  ch_free_list :: "nat option"
  ch_used_list :: "nat option"
  ch_total_size :: size_t
  ch_used_size :: size_t

definition zero_heap :: custom_heap where
  "zero_heap = \<lparr>ch_mem = Map.empty, ch_free_list = None, ch_used_list = None, ch_total_size = 0, ch_used_size = 0\<rparr>"

definition init_heap :: "(size_t \<Rightarrow> nat option) \<Rightarrow> size_t \<Rightarrow> custom_heap \<Rightarrow> custom_heap" where
  "init_heap sbrk sz h =
     (let ini_size = ALIGN sz in
      case sbrk ini_size of
        None \<Rightarrow> h
      | Some a \<Rightarrow> h\<lparr>ch_mem := (ch_mem h)(a \<mapsto> \<lparr>bk_is_free = True, bk_size = ini_size, bk_next = None, bk_prev = None\<rparr>),
          ch_free_list := Some a, ch_total_size := ini_size, ch_used_size := 0\<rparr>)"

text \<open>The loop of \<open>find_best_fit\<close>; \<open>if (diff = 0) break;\<close> is an assignment and never leaves it.\<close>

partial_function (option) find_loop ::
  "block_mem \<Rightarrow> size_t \<Rightarrow> nat option \<Rightarrow> nat option \<Rightarrow> size_t \<Rightarrow> nat option option" where
  "find_loop m sz cur best smallest_diff =
     (case cur of
        None \<Rightarrow> Some best
      | Some a \<Rightarrow> (case m a of
          None \<Rightarrow> None
        | Some b \<Rightarrow>
            if bk_is_free b \<and> bk_size b \<ge> sz \<and> bk_size b - sz < smallest_diff
            then find_loop m sz (bk_next b) (Some a) (bk_size b - sz)
            else find_loop m sz (bk_next b) best smallest_diff))"

declare find_loop.simps [code]

definition find_best_fit :: "custom_heap \<Rightarrow> size_t \<Rightarrow> nat option option" where
  "find_best_fit h sz = find_loop (ch_mem h) sz (ch_free_list h) None (-1)"

definition split_block :: "block_mem \<Rightarrow> nat \<Rightarrow> size_t \<Rightarrow> block_mem option" where
  "split_block m a sz = do {
     b \<leftarrow> m a;
     let remaining_size = bk_size b - sz;
     if remaining_size > BLOCK_T_SIZE + 16 then do {
       let n = a + unat sz;
       let m1 = m(n \<mapsto> \<lparr>bk_is_free = True, bk_size = remaining_size, bk_next = bk_next b, bk_prev = Some a\<rparr>);
       m2 \<leftarrow> (case bk_next b of Some c \<Rightarrow> set_prev m1 c (Some n) | None \<Rightarrow> Some m1);
       b' \<leftarrow> m2 a;
       Some (m2(a \<mapsto> b'\<lparr>bk_next := Some n, bk_size := sz\<rparr>)) }
     else Some m }"

text \<open>The new first block of the free list, obtained from \<open>sbrk\<close> at address \<open>a\<close>.\<close>

definition grow_heap :: "custom_heap \<Rightarrow> nat \<Rightarrow> size_t \<Rightarrow> custom_heap option" where
  "grow_heap h a request_size = do {
     let m1 = (ch_mem h)(a \<mapsto> \<lparr>bk_is_free = True, bk_size = request_size, bk_next = ch_free_list h, bk_prev = None\<rparr>);
     m2 \<leftarrow> (case ch_free_list h of Some n \<Rightarrow> set_prev m1 n (Some a) | None \<Rightarrow> Some m1);
     Some (h\<lparr>ch_mem := m2, ch_free_list := Some a, ch_total_size := ch_total_size h + request_size\<rparr>) }"

text \<open>Splitting the chosen block, marking it used, and moving it to the used list.\<close>

definition claim_block :: "custom_heap \<Rightarrow> nat \<Rightarrow> size_t \<Rightarrow> (custom_heap \<times> nat option) option" where
  "claim_block h a total_size = do {
     m1 \<leftarrow> split_block (ch_mem h) a total_size;
     b \<leftarrow> m1 a;
     let m2 = m1(a \<mapsto> b\<lparr>bk_is_free := False\<rparr>);
     (m3, fl) \<leftarrow> unlink_block m2 (ch_free_list h) a;
     (m4, ul) \<leftarrow> push_block m3 (ch_used_list h) a;
     b' \<leftarrow> m4 a;
     Some (h\<lparr>ch_mem := m4, ch_free_list := fl, ch_used_list := ul, ch_used_size := ch_used_size h + bk_size b'\<rparr>,
       Some (a + DATA_OFFSET)) }"

definition custom_malloc ::
  "(size_t \<Rightarrow> nat option) \<Rightarrow> custom_heap \<Rightarrow> size_t \<Rightarrow> (custom_heap \<times> nat option) option" where
  "custom_malloc sbrk h sz =
     (if sz = 0 then Some (h, None)
      else do {
        let total_size = ALIGN (sz + BLOCK_T_SIZE);
        best \<leftarrow> find_best_fit h total_size;
        (case best of
           Some a \<Rightarrow> claim_block h a total_size
         | None \<Rightarrow>
             let request_size = (if total_size > 4096 then total_size else 4096) in
             (case sbrk request_size of
                None \<Rightarrow> Some (h, None)
              | Some a \<Rightarrow> do { h' \<leftarrow> grow_heap h a request_size; claim_block h' a total_size })) })"

definition coalesce_blocks :: "block_mem \<Rightarrow> nat \<Rightarrow> block_mem option" where
  "coalesce_blocks m a = do {
     b \<leftarrow> m a;
     (case bk_next b of
        None \<Rightarrow> Some m
      | Some n \<Rightarrow> do {
          nb \<leftarrow> m n;
          if \<not> bk_is_free nb then Some m
          else do {
            let m1 = m(a \<mapsto> b\<lparr>bk_size := bk_size b + bk_size nb, bk_next := bk_next nb\<rparr>);
            m2 \<leftarrow> (case bk_next nb of Some k \<Rightarrow> set_prev m1 k (Some a) | None \<Rightarrow> Some m1);
            b2 \<leftarrow> m2 a;
            (case bk_prev b2 of
               None \<Rightarrow> Some m2
             | Some p \<Rightarrow> do {
                 pb \<leftarrow> m2 p;
                 if \<not> bk_is_free pb then Some m2
                 else do {
                   let m3 = m2(p \<mapsto> pb\<lparr>bk_size := bk_size pb + bk_size b2, bk_next := bk_next b2\<rparr>);
                   (case bk_next b2 of Some k \<Rightarrow> set_prev m3 k (bk_prev b2) | None \<Rightarrow> Some m3) } }) } }) }"

text \<open>The header is looked for \<open>BLOCK_T_SIZE\<close> bytes before the pointer.\<close>

definition custom_free :: "custom_heap \<Rightarrow> nat option \<Rightarrow> custom_heap option" where
  "custom_free h ptr =
     (case ptr of
        None \<Rightarrow> Some h
      | Some p \<Rightarrow>
          if p < unat BLOCK_T_SIZE then None
          else do {
            let a = p - unat BLOCK_T_SIZE;
            b \<leftarrow> ch_mem h a;
            let m1 = (ch_mem h)(a \<mapsto> b\<lparr>bk_is_free := True\<rparr>);
            (m2, ul) \<leftarrow> unlink_block m1 (ch_used_list h) a;
            (m3, fl) \<leftarrow> push_block m2 (ch_free_list h) a;
            b' \<leftarrow> m3 a;
            m4 \<leftarrow> coalesce_blocks m3 a;
            Some (h\<lparr>ch_mem := m4, ch_free_list := fl, ch_used_list := ul, ch_used_size := ch_used_size h - bk_size b'\<rparr>) })"

subsection \<open>Alignment\<close>

lemma and_not_15: "w AND NOT 15 = push_bit 4 (drop_bit 4 w)" for w :: size_t
proof (rule bit_word_eqI)
  fix n assume n: "n < LENGTH(64)"
  have m: "(15 :: size_t) = mask 4" by (simp add: mask_eq_decr_exp)
  show "bit (w AND NOT 15) n = bit (push_bit 4 (drop_bit 4 w)) n"
    using n unfolding m by (auto simp: bit_simps)
qed

lemma unat_and_not_15: "unat (w AND NOT 15) = unat w div 16 * 16" for w :: size_t
proof -
  have "unat (push_bit 4 (drop_bit 4 w)) = take_bit 64 (unat (drop_bit 4 w) * 16)"
    by (subst unsigned_push_bit_eq) (simp add: push_bit_eq_mult)
  also have "unat (drop_bit 4 w) = unat w div 16" by (subst unat_drop_bit_eq) (simp add: drop_bit_eq_div)
  also have "take_bit 64 (unat w div 16 * 16) = unat w div 16 * 16"
  proof -
    have "unat w div 16 * 16 \<le> unat w" by simp
    also have "\<dots> < 2 ^ 64" by (rule unat_size_t_less)
    finally show ?thesis by (rule take_bit_nat_eq_self)
  qed
  finally show ?thesis by (simp only: and_not_15)
qed

lemma ALIGN_bounds:
  assumes "unat sz + 55 < 2 ^ 64"
  shows "unat sz + 40 \<le> unat (ALIGN (sz + BLOCK_T_SIZE))" and "unat (ALIGN (sz + BLOCK_T_SIZE)) \<le> unat sz + 55"
proof -
  have "sz + BLOCK_T_SIZE + 15 = sz + 55" by (simp add: BLOCK_T_SIZE_def)
  moreover have "unat (sz + 55) = unat sz + 55" using assms by (simp add: unat_word_ariths)
  ultimately have "unat (sz + BLOCK_T_SIZE + 15) = unat sz + 55" by (simp only:)
  then have "unat (ALIGN (sz + BLOCK_T_SIZE)) = (unat sz + 55) div 16 * 16"
    by (simp only: ALIGN_def unat_and_not_15)
  then show "unat sz + 40 \<le> unat (ALIGN (sz + BLOCK_T_SIZE))" and "unat (ALIGN (sz + BLOCK_T_SIZE)) \<le> unat sz + 55"
    by linarith+
qed

text \<open>The addition is not guarded: a request close to the end of the range is rounded to a tiny block.\<close>

lemma ALIGN_wraps: "ALIGN (-1 + BLOCK_T_SIZE) = 48"
  by (simp add: ALIGN_def BLOCK_T_SIZE_def)

subsection \<open>Well-formed heaps\<close>

definition blk :: "block_mem \<Rightarrow> nat \<Rightarrow> heap_block" where
  "blk m a = the (m a)"

definition bsize :: "block_mem \<Rightarrow> nat \<Rightarrow> nat" where
  "bsize m a = unat (bk_size (blk m a))"

text \<open>Blocks are large enough for a header, inside the address space, and do not overlap.\<close>

definition layout_ok :: "block_mem \<Rightarrow> bool" where
  "layout_ok m \<longleftrightarrow> (\<forall>a \<in> dom m. 40 \<le> bsize m a \<and> a + bsize m a \<le> 2 ^ 64) \<and>
     (\<forall>a \<in> dom m. \<forall>c \<in> dom m. a < c \<longrightarrow> a + bsize m a \<le> c)"

definition total_bytes :: "block_mem \<Rightarrow> nat list \<Rightarrow> size_t" where
  "total_bytes m as = sum_list (map (\<lambda>a. bk_size (blk m a)) as)"

definition heap_inv :: "custom_heap \<Rightarrow> nat list \<Rightarrow> nat list \<Rightarrow> bool" where
  "heap_inv h fs us \<longleftrightarrow> seg (ch_mem h) None fs None \<and> ch_free_list h = first fs None \<and>
     seg (ch_mem h) None us None \<and> ch_used_list h = first us None \<and> distinct (fs @ us) \<and>
     dom (ch_mem h) = set (fs @ us) \<and>
     (\<forall>a \<in> set fs. bk_is_free (blk (ch_mem h) a)) \<and> (\<forall>a \<in> set us. \<not> bk_is_free (blk (ch_mem h) a)) \<and>
     layout_ok (ch_mem h) \<and> ch_total_size h = total_bytes (ch_mem h) (fs @ us) \<and>
     ch_used_size h = total_bytes (ch_mem h) us"

lemma same_blocks_blk:
  assumes "same_blocks m m'"
  shows "bk_size (blk m' a) = bk_size (blk m a) \<or> m a = None"
    and "bk_is_free (blk m' a) = bk_is_free (blk m a) \<or> m a = None"
proof -
  have "map_option (\<lambda>b. (bk_is_free b, bk_size b)) (m' a) = map_option (\<lambda>b. (bk_is_free b, bk_size b)) (m a)"
    using assms by (simp add: same_blocks_def)
  then show "bk_size (blk m' a) = bk_size (blk m a) \<or> m a = None"
    and "bk_is_free (blk m' a) = bk_is_free (blk m a) \<or> m a = None"
    by (cases "m a"; cases "m' a"; simp add: blk_def)+
qed

lemma same_blocks_layout:
  assumes "same_blocks m m'"
  shows "layout_ok m' \<longleftrightarrow> layout_ok m" and "set as \<subseteq> dom m \<Longrightarrow> total_bytes m' as = total_bytes m as"
proof -
  have sz: "bk_size (blk m' a) = bk_size (blk m a)" if "a \<in> dom m" for a
    using same_blocks_blk(1) [OF assms, of a] that by auto
  show "layout_ok m' \<longleftrightarrow> layout_ok m"
    unfolding layout_ok_def same_blocks_dom [OF assms] bsize_def
    by (intro arg_cong2 [where f = "(\<and>)"] ball_cong refl) (simp_all add: sz)
  show "set as \<subseteq> dom m \<Longrightarrow> total_bytes m' as = total_bytes m as"
    unfolding total_bytes_def by (intro arg_cong [where f = sum_list] map_cong refl sz) auto
qed

subsection \<open>The search\<close>

definition block_fits :: "block_mem \<Rightarrow> size_t \<Rightarrow> nat \<Rightarrow> bool" where
  "block_fits m sz a \<longleftrightarrow> bk_is_free (blk m a) \<and> sz \<le> bk_size (blk m a)"

lemma find_loop_best:
  "seg m p xs None \<Longrightarrow> \<exists>r. find_loop m sz (first xs None) best sd = Some r \<and>
     (r = best \<and> (\<forall>a \<in> set xs. block_fits m sz a \<longrightarrow> sd \<le> bk_size (blk m a) - sz) \<or>
      (\<exists>a \<in> set xs. r = Some a \<and> block_fits m sz a \<and> bk_size (blk m a) - sz < sd \<and>
        (\<forall>c \<in> set xs. block_fits m sz c \<longrightarrow> bk_size (blk m a) - sz \<le> bk_size (blk m c) - sz)))"
proof (induction xs arbitrary: p best sd)
  case Nil
  then show ?case by (subst find_loop.simps) simp
next
  case (Cons a xs)
  then obtain b where b: "m a = Some b" "bk_next b = first xs None" "seg m (Some a) xs None"
    by (auto split: option.splits)
  have blk: "blk m a = b" using b(1) by (simp add: blk_def)
  show ?case
  proof (cases "bk_is_free b \<and> bk_size b \<ge> sz \<and> bk_size b - sz < sd")
    case True
    then have step: "find_loop m sz (first (a # xs) None) best sd = find_loop m sz (first xs None) (Some a) (bk_size b - sz)"
      using b by (subst find_loop.simps) simp
    from Cons.IH [OF b(3), of "Some a" "bk_size b - sz"] obtain r where
      r: "find_loop m sz (first xs None) (Some a) (bk_size b - sz) = Some r"
      "r = Some a \<and> (\<forall>a \<in> set xs. block_fits m sz a \<longrightarrow> bk_size b - sz \<le> bk_size (blk m a) - sz) \<or>
      (\<exists>a \<in> set xs. r = Some a \<and> block_fits m sz a \<and> bk_size (blk m a) - sz < bk_size b - sz \<and>
        (\<forall>c \<in> set xs. block_fits m sz c \<longrightarrow> bk_size (blk m a) - sz \<le> bk_size (blk m c) - sz))" by blast
    have a: "block_fits m sz a" "bk_size (blk m a) - sz < sd" "bk_size (blk m a) = bk_size b"
      using True blk by (simp_all add: block_fits_def)
    from r(2) show ?thesis
    proof
      assume "r = Some a \<and> (\<forall>a \<in> set xs. block_fits m sz a \<longrightarrow> bk_size b - sz \<le> bk_size (blk m a) - sz)"
      with a r(1) step show ?thesis by (intro exI [of _ r] conjI disjI2 bexI [of _ a]) auto
    next
      assume "\<exists>a \<in> set xs. r = Some a \<and> block_fits m sz a \<and> bk_size (blk m a) - sz < bk_size b - sz \<and>
        (\<forall>c \<in> set xs. block_fits m sz c \<longrightarrow> bk_size (blk m a) - sz \<le> bk_size (blk m c) - sz)"
      then obtain d where d: "d \<in> set xs" "r = Some d" "block_fits m sz d" "bk_size (blk m d) - sz < bk_size b - sz"
        "\<forall>c \<in> set xs. block_fits m sz c \<longrightarrow> bk_size (blk m d) - sz \<le> bk_size (blk m c) - sz" by blast
      have "bk_size (blk m d) - sz < sd" using d(4) a(2,3) by simp
      with d a(3) r(1) step show ?thesis
        by (intro exI [of _ r] conjI disjI2 bexI [of _ d]) (auto intro: less_imp_le)
    qed
  next
    case False
    then have step: "find_loop m sz (first (a # xs) None) best sd = find_loop m sz (first xs None) best sd"
      using b by (subst find_loop.simps) auto
    from Cons.IH [OF b(3), of best sd] obtain r where
      r: "find_loop m sz (first xs None) best sd = Some r"
      "r = best \<and> (\<forall>a \<in> set xs. block_fits m sz a \<longrightarrow> sd \<le> bk_size (blk m a) - sz) \<or>
      (\<exists>a \<in> set xs. r = Some a \<and> block_fits m sz a \<and> bk_size (blk m a) - sz < sd \<and>
        (\<forall>c \<in> set xs. block_fits m sz c \<longrightarrow> bk_size (blk m a) - sz \<le> bk_size (blk m c) - sz))" by blast
    have "block_fits m sz a \<longrightarrow> sd \<le> bk_size (blk m a) - sz" using False blk by (auto simp: block_fits_def)
    note a = this
    from r(2) show ?thesis
    proof
      assume "r = best \<and> (\<forall>a \<in> set xs. block_fits m sz a \<longrightarrow> sd \<le> bk_size (blk m a) - sz)"
      with a r(1) step show ?thesis by (intro exI [of _ r] conjI disjI1) auto
    next
      assume "\<exists>a \<in> set xs. r = Some a \<and> block_fits m sz a \<and> bk_size (blk m a) - sz < sd \<and>
        (\<forall>c \<in> set xs. block_fits m sz c \<longrightarrow> bk_size (blk m a) - sz \<le> bk_size (blk m c) - sz)"
      then obtain d where d: "d \<in> set xs" "r = Some d" "block_fits m sz d" "bk_size (blk m d) - sz < sd"
        "\<forall>c \<in> set xs. block_fits m sz c \<longrightarrow> bk_size (blk m d) - sz \<le> bk_size (blk m c) - sz" by blast
      have "block_fits m sz a \<longrightarrow> bk_size (blk m d) - sz \<le> bk_size (blk m a) - sz"
        using a d(4) by (meson less_imp_le less_le_trans)
      with d r(1) step show ?thesis by (intro exI [of _ r] conjI disjI2 bexI [of _ d]) auto
    qed
  qed
qed

lemma find_best_fit_best:
  assumes inv: "heap_inv h fs us" and sz: "sz \<noteq> 0"
  shows "\<exists>r. find_best_fit h sz = Some r \<and>
    (case r of None \<Rightarrow> \<forall>a \<in> set fs. bk_size (blk (ch_mem h) a) < sz
     | Some a \<Rightarrow> a \<in> set fs \<and> sz \<le> bk_size (blk (ch_mem h) a) \<and>
        (\<forall>c \<in> set fs. sz \<le> bk_size (blk (ch_mem h) c) \<longrightarrow> bk_size (blk (ch_mem h) a) \<le> bk_size (blk (ch_mem h) c)))"
proof -
  let ?m = "ch_mem h"
  have sg: "seg ?m None fs None" and free: "\<forall>a \<in> set fs. bk_is_free (blk ?m a)" and hd: "ch_free_list h = first fs None"
    using inv by (auto simp: heap_inv_def)
  have sub: "x - sz \<le> y - sz \<longleftrightarrow> x \<le> y" if "sz \<le> x" "sz \<le> y" for x y :: size_t
    using that by (auto simp: word_le_nat_alt unat_sub)
  have top: "\<not> (-1 :: size_t) \<le> x - sz" if "sz \<le> x" for x
  proof
    assume "(-1 :: size_t) \<le> x - sz"
    then have "unat (-1 :: size_t) \<le> unat x - unat sz" using that by (simp only: word_le_nat_alt unat_sub)
    moreover have "unat (-1 :: size_t) = 2 ^ 64 - 1" by (simp add: unsigned_minus_1_eq_mask mask_eq_exp_minus_1)
    moreover have "0 < unat sz" using sz by (simp add: unat_gt_0)
    moreover have "unat x \<le> 2 ^ 64 - 1" using unat_size_t_less [of x] by linarith
    moreover have "unat sz \<le> unat x" using that by (simp add: word_le_nat_alt)
    ultimately show False by linarith
  qed
  from find_loop_best [OF sg, of sz None "-1"] obtain r where
    r: "find_loop ?m sz (first fs None) None (-1) = Some r"
     "r = None \<and> (\<forall>a \<in> set fs. block_fits ?m sz a \<longrightarrow> -1 \<le> bk_size (blk ?m a) - sz) \<or>
      (\<exists>a \<in> set fs. r = Some a \<and> block_fits ?m sz a \<and> bk_size (blk ?m a) - sz < -1 \<and>
        (\<forall>c \<in> set fs. block_fits ?m sz c \<longrightarrow> bk_size (blk ?m a) - sz \<le> bk_size (blk ?m c) - sz))" by blast
  show ?thesis
  proof (cases r)
    case None
    then have "\<forall>a \<in> set fs. \<not> sz \<le> bk_size (blk ?m a)" using r(2) free top by (auto simp: block_fits_def)
    with r(1) None hd show ?thesis by (simp add: find_best_fit_def not_le)
  next
    case (Some a)
    with r(2) have "a \<in> set fs" "block_fits ?m sz a"
      "\<forall>c \<in> set fs. block_fits ?m sz c \<longrightarrow> bk_size (blk ?m a) - sz \<le> bk_size (blk ?m c) - sz" by auto
    with r(1) Some hd free sub show ?thesis by (auto simp: find_best_fit_def block_fits_def)
  qed
qed


subsection \<open>Splitting and claiming a block\<close>

text \<open>Flag and size of the blocks, the part of a memory the links do not touch.\<close>

definition attr :: "block_mem \<Rightarrow> nat \<rightharpoonup> bool \<times> size_t" where
  "attr m a = map_option (\<lambda>b. (bk_is_free b, bk_size b)) (m a)"

lemma same_blocks_attr: "same_blocks m m' \<longleftrightarrow> attr m' = attr m"
  by (simp add: same_blocks_def attr_def fun_eq_iff)

lemma dom_attr: "dom (attr m) = dom m"
  by (auto simp: attr_def dom_def)

lemma attr_blk:
  "attr m a = Some (f, s) \<Longrightarrow> bk_is_free (blk m a) = f \<and> bk_size (blk m a) = s \<and> bsize m a = unat s"
  "a \<in> dom m \<Longrightarrow> attr m a = Some (bk_is_free (blk m a), bk_size (blk m a))"
  by (auto simp: attr_def blk_def bsize_def)

lemma seg_flag:
  assumes "m a = Some b"
  shows "seg m p xs q \<Longrightarrow> seg (m(a \<mapsto> b\<lparr>bk_is_free := v\<rparr>)) p xs q"
proof (induction xs arbitrary: p)
  case (Cons x xs)
  with assms show ?case by (cases "x = a") (auto split: option.splits)
qed simp

lemma layout_room:
  assumes "layout_ok m" and "a \<in> dom m" and "a < n" and "n < a + bsize m a"
  shows "n \<notin> dom m"
  using assms unfolding layout_ok_def by (meson leD)

lemma split_block_seg:
  assumes sg: "seg m None (xs @ a # ys) None" and dist: "distinct (xs @ a # ys)" and lay: "layout_ok m"
    and T: "T \<le> bk_size (blk m a)" "40 \<le> unat T"
  shows "\<exists>m' zs. split_block m a T = Some m' \<and> seg m' None (xs @ a # zs @ ys) None \<and>
    (zs = [] \<and> m' = m \<and> unat (bk_size (blk m a)) - unat T \<le> 56 \<or>
     zs = [a + unat T] \<and> a + unat T \<notin> dom m \<and> 56 < unat (bk_size (blk m a)) - unat T \<and>
     attr m' = (attr m)(a \<mapsto> (bk_is_free (blk m a), T), a + unat T \<mapsto> (True, bk_size (blk m a) - T)) \<and>
     (\<forall>c. c \<notin> set (a # zs @ ys) \<longrightarrow> m' c = m c))"
proof -
  have parts: "seg m None xs (Some a)" "seg m (final None xs) (a # ys) None" using sg by (auto simp: seg_append)
  then obtain b where b: "m a = Some b" "bk_prev b = final None xs" "bk_next b = first ys None" "seg m (Some a) ys None"
    by (auto split: option.splits)
  have blk: "blk m a = b" using b(1) by (simp add: blk_def)
  show ?thesis
  proof (cases "bk_size b - T > BLOCK_T_SIZE + 16")
    case False
    then have "unat (bk_size (blk m a)) - unat T \<le> 56"
      using T(1) blk by (simp add: word_less_nat_alt BLOCK_T_SIZE_def unat_sub not_less)
    with False b sg show ?thesis by (intro exI [of _ m] exI [of _ "[]"]) (simp add: split_block_def Let_def)
  next
    case True
    define n where "n = a + unat T"
    have rem: "56 < unat (bk_size b) - unat T"
      using True T(1) blk by (simp add: word_less_nat_alt BLOCK_T_SIZE_def unat_sub)
    have nd: "n \<notin> dom m"
    proof (rule layout_room [OF lay])
      show "a \<in> dom m" using b(1) by blast
      show "a < n" using T(2) by (simp add: n_def)
      show "n < a + bsize m a" using rem unfolding n_def bsize_def blk by linarith
    qed
    then have nn: "n \<notin> set (xs @ a # ys)" using seg_mem [OF sg] by auto
    define m1 where "m1 = m(n \<mapsto> \<lparr>bk_is_free = True, bk_size = bk_size b - T, bk_next = bk_next b, bk_prev = Some a\<rparr>)"
    have ys1: "seg m1 (Some a) ys None" using b(4) by (rule seg_frame) (use nn in \<open>auto simp: m1_def\<close>)
    obtain m2 where m2: "(case bk_next b of Some c \<Rightarrow> set_prev m1 c (Some n) | None \<Rightarrow> Some m1) = Some m2"
      "seg m2 (Some n) ys None" "same_blocks m1 m2" "\<forall>c. c \<notin> set ys \<longrightarrow> m2 c = m1 c"
    proof (cases ys)
      case Nil
      with b that [of m1] show ?thesis by simp
    next
      case (Cons c cs)
      with seg_first_prev [of m1 "Some a" c cs None "Some n"] ys1 dist obtain k where
        k: "m1 c = Some k" "seg (m1(c \<mapsto> k\<lparr>bk_prev := Some n\<rparr>)) (Some n) (c # cs) None" by auto
      with b Cons same_blocks_link(2) [where m = m1, OF k(1)] that [of "m1(c \<mapsto> k\<lparr>bk_prev := Some n\<rparr>)"]
      show ?thesis by (simp add: set_prev_def)
    qed
    have m2a: "m2 a = Some b" "m2 n = m1 n" using m2(4) dist nn b(1) by (auto simp: m1_def)
    define m' where "m' = m2(a \<mapsto> b\<lparr>bk_next := Some n, bk_size := T\<rparr>)"
    have "split_block m a T = Some m'"
      unfolding split_block_def Let_def b(1) bind.bind_lunit if_P [OF True] n_def [symmetric] m1_def [symmetric] m2(1)
      using m2a(1) by (simp add: m'_def)
    moreover have "seg m' None xs (Some a)"
      using parts(1) by (rule seg_frame) (use m2(4) dist nn in \<open>auto simp: m'_def m1_def\<close>)
    moreover have "seg m' (Some n) ys None" using m2(2) by (rule seg_frame) (use dist in \<open>auto simp: m'_def\<close>)
    then have "seg m' (final None xs) (a # n # ys) None" using b nn m2a(2) by (simp add: m'_def m1_def)
    moreover have "attr m' = (attr m)(a \<mapsto> (bk_is_free b, T), n \<mapsto> (True, bk_size b - T))"
    proof -
      have "attr m2 = (attr m)(n \<mapsto> (True, bk_size b - T))"
        using m2(3) by (auto simp: same_blocks_attr attr_def m1_def fun_eq_iff)
      moreover have "attr m' = (attr m2)(a \<mapsto> (bk_is_free b, T))" by (auto simp: attr_def m'_def fun_eq_iff)
      ultimately show ?thesis using nn by (simp add: fun_upd_twist)
    qed
    moreover have "\<forall>c. c \<notin> set (a # [n] @ ys) \<longrightarrow> m' c = m c" using m2(4) by (auto simp: m'_def m1_def)
    ultimately show ?thesis
      using nd rem unfolding blk n_def [symmetric] by (intro exI [of _ m'] exI [of _ "[n]"]) (simp add: seg_append)
  qed
qed

text \<open>A split keeps the layout and the number of bytes.\<close>

lemma split_layout:
  assumes lay: "layout_ok m" and a: "a \<in> dom m" and T: "T \<le> bk_size (blk m a)" "40 \<le> unat T"
    and rem: "56 < unat (bk_size (blk m a)) - unat T" and nd: "a + unat T \<notin> dom m"
    and at: "attr m' = (attr m)(a \<mapsto> (f, T), a + unat T \<mapsto> (True, bk_size (blk m a) - T))"
  shows "layout_ok m'"
proof -
  define n where "n = a + unat T"
  have dom: "dom m' = insert n (dom m)"
    using arg_cong [OF at, of dom] a by (auto simp: dom_attr n_def)
  have na: "n \<noteq> a" using nd a by (auto simp: n_def)
  have sz: "bsize m' a = unat T" "bsize m' n = bsize m a - unat T"
    using attr_blk(1) [of m' a f T] attr_blk(1) [of m' n True "bk_size (blk m a) - T"] at na T(1)
    by (simp_all add: n_def bsize_def unat_sub)
  have oth: "bsize m' c = bsize m c" if "c \<in> dom m" "c \<noteq> a" for c
  proof -
    have "c \<noteq> n" using that(1) nd by (auto simp: n_def)
    then have "attr m' c = attr m c" using at that(2) by (simp add: n_def)
    then show ?thesis using attr_blk(1) [of m' c] attr_blk(2) [OF that(1)] by (simp add: bsize_def)
  qed
  have lt: "unat T + 56 < bsize m a" using rem by (simp add: bsize_def)
  have l1: "40 \<le> bsize m c \<and> c + bsize m c \<le> 2 ^ 64" if "c \<in> dom m" for c
    using lay that by (auto simp: layout_ok_def)
  have l2: "c + bsize m c \<le> d" if "c \<in> dom m" "d \<in> dom m" "c < d" for c d
    using lay that by (auto simp: layout_ok_def)
  show ?thesis
    unfolding layout_ok_def dom
  proof (intro conjI ballI impI)
    fix c assume c: "c \<in> insert n (dom m)"
    consider "c = n" | "c = a" | "c \<in> dom m" "c \<noteq> a" using c by auto
    then show "40 \<le> bsize m' c" and "c + bsize m' c \<le> 2 ^ 64"
      using sz oth lt l1 [OF a] l1 [of c] T(2) by (cases; simp add: n_def)+
  next
    fix c d assume c: "c \<in> insert n (dom m)" and d: "d \<in> insert n (dom m)" and cd: "c < d"
    have an: "a < n" using T(2) by (simp add: n_def)
    have big: "n + (bsize m a - unat T) = a + bsize m a" using lt by (simp add: n_def)
    show "c + bsize m' c \<le> d"
    proof (cases "c = n")
      case True
      with d cd an have "d \<in> dom m" "a < d" by auto
      with l2 [OF a] True sz(2) big show ?thesis by simp
    next
      case False
      then have cm: "c \<in> dom m" using c by simp
      show ?thesis
      proof (cases "d = n")
        case True
        show ?thesis
        proof (cases "c = a")
          case False
          have "c < a" using l2 [OF a cm] False cd True big lt by (metis add_leD1 linorder_neqE_nat n_def nat_add_left_cancel_less not_less trans_less_add1 less_le_trans less_imp_le)
          with l2 [OF cm a] oth [OF cm False] an True show ?thesis by simp
        qed (use sz(1) True in \<open>simp add: n_def\<close>)
      next
        case False
        then have dm: "d \<in> dom m" using d by simp
        show ?thesis
          using l2 [OF cm dm cd] sz(1) oth [OF cm] lt by (cases "c = a") auto
      qed
    qed
  qed
qed


lemma total_bytes_append [simp]: "total_bytes m (as @ bs) = total_bytes m as + total_bytes m bs"
  and total_bytes_Cons [simp]: "total_bytes m (a # as) = bk_size (blk m a) + total_bytes m as"
  and total_bytes_Nil [simp]: "total_bytes m [] = 0"
  by (simp_all add: total_bytes_def)

lemma total_bytes_attr:
  assumes "\<And>c. c \<in> set as \<Longrightarrow> attr m' c = attr m c \<and> c \<in> dom m"
  shows "total_bytes m' as = total_bytes m as"
proof -
  have "bk_size (blk m' c) = bk_size (blk m c)" if "c \<in> set as" for c
  proof -
    have "attr m' c = Some (bk_is_free (blk m c), bk_size (blk m c))"
      using assms [OF that] attr_blk(2) [of c m] by simp
    with attr_blk(1) [of m' c] show ?thesis by simp
  qed
  then show ?thesis unfolding total_bytes_def by (intro arg_cong [where f = sum_list] map_cong refl) auto
qed

text \<open>What the split leaves to be claimed: the invariant with block \<open>a\<close> at its place in the free list.\<close>

lemma split_heap_inv:
  assumes inv: "heap_inv h (xs @ a # ys) us" and T: "T \<le> bk_size (blk (ch_mem h) a)" "40 \<le> unat T"
  shows "\<exists>m' zs. split_block (ch_mem h) a T = Some m' \<and> heap_inv (h\<lparr>ch_mem := m'\<rparr>) (xs @ a # zs @ ys) us \<and>
    T \<le> bk_size (blk m' a) \<and> unat (bk_size (blk m' a)) \<le> unat T + 56 \<and> set zs \<inter> set us = {} \<and>
    (\<forall>c \<in> set us. bk_size (blk m' c) = bk_size (blk (ch_mem h) c))"
proof -
  let ?m = "ch_mem h"
  have sg: "seg ?m None (xs @ a # ys) None" and su: "seg ?m None us None" and dist: "distinct ((xs @ a # ys) @ us)"
    and dom: "dom ?m = set ((xs @ a # ys) @ us)" and free: "\<forall>c \<in> set (xs @ a # ys). bk_is_free (blk ?m c)"
    and used: "\<forall>c \<in> set us. \<not> bk_is_free (blk ?m c)" and lay: "layout_ok ?m"
    and tot: "ch_total_size h = total_bytes ?m ((xs @ a # ys) @ us)" and us: "ch_used_size h = total_bytes ?m us"
    and hd: "ch_free_list h = first (xs @ a # ys) None" "ch_used_list h = first us None"
    using inv by (auto simp: heap_inv_def)
  have "distinct (xs @ a # ys)" using dist by auto
  from split_block_seg [OF sg this lay T] obtain m' zs where
    sp: "split_block ?m a T = Some m'" "seg m' None (xs @ a # zs @ ys) None" and
    alt: "zs = [] \<and> m' = ?m \<and> unat (bk_size (blk ?m a)) - unat T \<le> 56 \<or>
     zs = [a + unat T] \<and> a + unat T \<notin> dom ?m \<and> 56 < unat (bk_size (blk ?m a)) - unat T \<and>
     attr m' = (attr ?m)(a \<mapsto> (bk_is_free (blk ?m a), T), a + unat T \<mapsto> (True, bk_size (blk ?m a) - T)) \<and>
     (\<forall>c. c \<notin> set (a # zs @ ys) \<longrightarrow> m' c = ?m c)" by blast
  from alt show ?thesis
  proof
    assume "zs = [] \<and> m' = ?m \<and> unat (bk_size (blk ?m a)) - unat T \<le> 56"
    with sp T inv show ?thesis by (intro exI [of _ m'] exI [of _ "[]"]) (auto simp: word_le_nat_alt)
  next
    define n where "n = a + unat T"
    assume z: "zs = [a + unat T] \<and> a + unat T \<notin> dom ?m \<and> 56 < unat (bk_size (blk ?m a)) - unat T \<and>
     attr m' = (attr ?m)(a \<mapsto> (bk_is_free (blk ?m a), T), a + unat T \<mapsto> (True, bk_size (blk ?m a) - T)) \<and>
     (\<forall>c. c \<notin> set (a # zs @ ys) \<longrightarrow> m' c = ?m c)"
    have nd: "n \<notin> set ((xs @ a # ys) @ us)" using z dom by (simp add: n_def)
    have at: "attr m' = (attr ?m)(a \<mapsto> (True, T), n \<mapsto> (True, bk_size (blk ?m a) - T))"
      using z free by (simp add: n_def)
    have a: "bk_is_free (blk m' a)" "bk_size (blk m' a) = T" and n: "bk_is_free (blk m' n)" "bk_size (blk m' n) = bk_size (blk ?m a) - T"
      using attr_blk(1) [of m' a True T] attr_blk(1) [of m' n True "bk_size (blk ?m a) - T"] at nd by auto
    have oth: "attr m' c = attr ?m c \<and> c \<in> dom ?m" if "c \<in> set (xs @ ys @ us)" for c
      using at nd that dist dom by auto
    have blk: "bk_is_free (blk m' c) = bk_is_free (blk ?m c) \<and> bk_size (blk m' c) = bk_size (blk ?m c)"
      if "c \<in> set (xs @ ys @ us)" for c
      using oth [OF that] attr_blk(2) [of c ?m] attr_blk(1) [of m' c] by metis
    have seg_us: "seg m' None us None" using su by (rule seg_frame) (use z dist nd in \<open>auto simp: n_def\<close>)
    have "layout_ok m'"
      using split_layout [OF lay _ T, of m' True] z at dom by (simp add: n_def)
    moreover have "dom m' = set ((xs @ a # [n] @ ys) @ us)"
      using arg_cong [OF at, of dom] dom by (auto simp: dom_attr)
    moreover have "total_bytes m' xs = total_bytes ?m xs" "total_bytes m' ys = total_bytes ?m ys" "total_bytes m' us = total_bytes ?m us"
      using oth by (auto intro!: total_bytes_attr)
    moreover have "distinct ((xs @ a # [n] @ ys) @ us)" using dist nd by auto
    ultimately have "heap_inv (h\<lparr>ch_mem := m'\<rparr>) (xs @ a # zs @ ys) us"
      using sp(2) seg_us hd z a n blk free used tot us unfolding heap_inv_def by (auto simp: n_def)
    then show ?thesis using sp(1) a(2) blk z nd
      by (intro exI [of _ m'] exI [of _ zs]) (auto simp: n_def)
  qed
qed

text \<open>Claiming a block moves it to the front of the used list.\<close>

lemma claim_block_inv:
  assumes inv: "heap_inv h (xs @ a # ys) us" and T: "T \<le> bk_size (blk (ch_mem h) a)" "40 \<le> unat T"
  shows "\<exists>h' zs. claim_block h a T = Some (h', Some (a + DATA_OFFSET)) \<and> heap_inv h' (xs @ zs @ ys) (a # us) \<and>
    ch_total_size h' = ch_total_size h \<and> T \<le> bk_size (blk (ch_mem h') a) \<and>
    unat (bk_size (blk (ch_mem h') a)) \<le> unat T + 56 \<and>
    (\<forall>c \<in> set us. bk_size (blk (ch_mem h') c) = bk_size (blk (ch_mem h) c))"
proof -
  from split_heap_inv [OF inv T] obtain m1 zs where
    sp: "split_block (ch_mem h) a T = Some m1" "heap_inv (h\<lparr>ch_mem := m1\<rparr>) (xs @ a # zs @ ys) us"
      "T \<le> bk_size (blk m1 a)" "unat (bk_size (blk m1 a)) \<le> unat T + 56"
      "\<forall>c \<in> set us. bk_size (blk m1 c) = bk_size (blk (ch_mem h) c)" by blast
  have sg: "seg m1 None (xs @ a # zs @ ys) None" and su: "seg m1 None us None" and dist: "distinct ((xs @ a # zs @ ys) @ us)"
    and dom: "dom m1 = set ((xs @ a # zs @ ys) @ us)" and free: "\<forall>c \<in> set (xs @ a # zs @ ys). bk_is_free (blk m1 c)"
    and used: "\<forall>c \<in> set us. \<not> bk_is_free (blk m1 c)" and lay: "layout_ok m1"
    and tot: "ch_total_size h = total_bytes m1 ((xs @ a # zs @ ys) @ us)" and us: "ch_used_size h = total_bytes m1 us"
    and hd: "ch_free_list h = first (xs @ a # zs @ ys) None" "ch_used_list h = first us None"
    using sp(2) by (auto simp: heap_inv_def)
  obtain b where b: "m1 a = Some b" using dom by auto
  define m2 where "m2 = m1(a \<mapsto> b\<lparr>bk_is_free := False\<rparr>)"
  have sg2: "seg m2 None (xs @ a # zs @ ys) None" and su2: "seg m2 None us None"
    using seg_flag [where m = m1 and v = False, OF b] sg su by (simp_all add: m2_def)
  have "distinct (xs @ a # zs @ ys)" using dist by auto
  from unlink_block_seg [OF sg2 this] obtain m3 where
    m3: "unlink_block m2 (first (xs @ a # zs @ ys) None) a = Some (m3, first (xs @ zs @ ys) None)"
      "seg m3 None (xs @ zs @ ys) None" "same_blocks m2 m3" "\<forall>c. c \<notin> set (xs @ zs @ ys) \<longrightarrow> m3 c = m2 c"
    by (metis append_assoc)
  have su3: "seg m3 None us None" using su2 by (rule seg_frame) (use m3(4) dist in auto)
  have "m3 a = m2 a" using m3(4) dist by simp
  then have "m3 a \<noteq> None" by (simp add: m2_def)
  moreover have "distinct (a # us)" using dist by simp
  ultimately obtain m4 where
    m4: "push_block m3 (first us None) a = Some (m4, Some a)" "seg m4 None (a # us) None"
      "same_blocks m3 m4" "\<forall>c. c \<notin> set (a # us) \<longrightarrow> m4 c = m3 c"
    using push_block_seg [OF su3] by blast
  have sf4: "seg m4 None (xs @ zs @ ys) None" using m3(2) by (rule seg_frame) (use m4(4) dist in auto)
  have at: "attr m4 = (attr m1)(a \<mapsto> (False, bk_size b))"
  proof -
    have "attr m4 = attr m2" using m3(3) m4(3) by (simp add: same_blocks_attr)
    then show ?thesis by (auto simp: attr_def m2_def fun_eq_iff)
  qed
  have ba: "blk m1 a = b" using b by (simp add: blk_def)
  have a4: "\<not> bk_is_free (blk m4 a)" "bk_size (blk m4 a) = bk_size b" using attr_blk(1) [of m4 a] at by auto
  have d4: "dom m4 = dom m1" using arg_cong [OF at, of dom] b by (auto simp: dom_attr)
  have oth: "bk_is_free (blk m4 c) = bk_is_free (blk m1 c) \<and> bk_size (blk m4 c) = bk_size (blk m1 c)"
    if "c \<in> dom m1" "c \<noteq> a" for c
    using attr_blk(2) [OF that(1)] attr_blk(1) [of m4 c] at that(2) by simp
  have size4: "bk_size (blk m4 c) = bk_size (blk m1 c)" if "c \<in> dom m1" for c
    using oth [OF that] a4(2) ba by (cases "c = a") auto
  have lay4: "layout_ok m4"
    using lay unfolding layout_ok_def d4 bsize_def by (simp add: size4)
  have bytes: "total_bytes m4 as = total_bytes m1 as" if "set as \<subseteq> dom m1" for as
    unfolding total_bytes_def using that size4 by (intro arg_cong [where f = sum_list] map_cong refl) auto
  define h' where "h' = h\<lparr>ch_mem := m4, ch_free_list := first (xs @ zs @ ys) None, ch_used_list := Some a,
    ch_used_size := ch_used_size h + bk_size b\<rparr>"
  obtain b4 where b4: "m4 a = Some b4" using d4 b by blast
  have "bk_size b4 = bk_size b" using a4(2) b4 by (simp add: blk_def)
  then have "claim_block h a T = Some (h', Some (a + DATA_OFFSET))"
    unfolding claim_block_def sp(1) bind.bind_lunit b Let_def m2_def [symmetric] hd m3(1) prod.case m4(1) b4
    by (simp add: h'_def)
  moreover have "total_bytes m4 (xs @ zs @ ys @ a # us) = total_bytes m1 ((xs @ a # zs @ ys) @ us)"
    using bytes [of "xs @ zs @ ys @ a # us"] dom by (simp add: ac_simps)
  moreover have "total_bytes m4 us = total_bytes m1 us" using bytes [of us] dom by auto
  moreover have "\<forall>c \<in> set (xs @ zs @ ys). bk_is_free (blk m4 c)" "\<forall>c \<in> set (a # us). \<not> bk_is_free (blk m4 c)"
    using free used oth a4(1) dist dom by auto
  ultimately have "heap_inv h' (xs @ zs @ ys) (a # us)" "claim_block h a T = Some (h', Some (a + DATA_OFFSET))"
    using sf4 m4(2) dist d4 dom lay4 tot us a4(2) ba unfolding heap_inv_def by (auto simp: h'_def ac_simps)
  then show ?thesis
    using sp(3-5) a4(2) ba size4 dom by (intro exI [of _ h'] exI [of _ zs]) (simp add: h'_def)
qed


subsection \<open>New memory\<close>

text \<open>What the code relies on: \<open>sbrk\<close> returns memory inside the address space that overlaps no block.\<close>

definition sbrk_fresh :: "(size_t \<Rightarrow> nat option) \<Rightarrow> block_mem \<Rightarrow> bool" where
  "sbrk_fresh sbrk m \<longleftrightarrow> (\<forall>r a. sbrk r = Some a \<longrightarrow> a + unat r \<le> 2 ^ 64 \<and>
     (\<forall>c \<in> dom m. c + bsize m c \<le> a \<or> a + unat r \<le> c))"

lemma layout_add:
  assumes lay: "layout_ok m" and r: "40 \<le> unat r" "a + unat r \<le> 2 ^ 64"
    and apart: "\<forall>c \<in> dom m. c + bsize m c \<le> a \<or> a + unat r \<le> c"
    and at: "attr m' = (attr m)(a \<mapsto> (f, r))"
  shows "a \<notin> dom m" and "layout_ok m'"
proof -
  show nd: "a \<notin> dom m"
  proof
    assume a: "a \<in> dom m"
    then have "40 \<le> bsize m a" using lay by (auto simp: layout_ok_def)
    with bspec [OF apart a] r(1) show False by linarith
  qed
  have dom: "dom m' = insert a (dom m)" using arg_cong [OF at, of dom] by (auto simp: dom_attr)
  have sa: "bsize m' a = unat r" using attr_blk(1) [of m' a f r] at by simp
  have oth: "bsize m' c = bsize m c" if "c \<in> dom m" for c
  proof -
    have "attr m' c = attr m c" using that nd at by auto
    then show ?thesis using attr_blk(2) [OF that] attr_blk(1) [of m' c] by (simp add: bsize_def)
  qed
  show "layout_ok m'"
    unfolding layout_ok_def dom
  proof (intro conjI ballI impI)
    fix c assume "c \<in> insert a (dom m)"
    then consider "c = a" | "c \<in> dom m" by blast
    then show "40 \<le> bsize m' c" and "c + bsize m' c \<le> 2 ^ 64"
      using sa oth [of c] r lay by (cases; simp add: layout_ok_def)+
  next
    fix c d assume c: "c \<in> insert a (dom m)" and d: "d \<in> insert a (dom m)" and cd: "c < d"
    show "c + bsize m' c \<le> d"
    proof (cases "c = a")
      case True
      with cd d have "d \<in> dom m" by auto
      from bspec [OF apart this] True cd sa show ?thesis by simp
    next
      case False
      then have cm: "c \<in> dom m" using c by simp
      show ?thesis
      proof (cases "d = a")
        case True
        with bspec [OF apart cm] r(1) cd oth [OF cm] show ?thesis by simp
      next
        case False
        with d cm cd oth [OF cm] lay show ?thesis by (auto simp: layout_ok_def)
      qed
    qed
  qed
qed

lemma grow_heap_inv:
  assumes inv: "heap_inv h fs us" and fresh: "sbrk_fresh sbrk (ch_mem h)" and a: "sbrk r = Some a" and r: "40 \<le> unat r"
  shows "\<exists>h'. grow_heap h a r = Some h' \<and> heap_inv h' (a # fs) us \<and> bk_size (blk (ch_mem h') a) = r \<and>
    ch_total_size h' = ch_total_size h + r \<and>
    (\<forall>c \<in> set us. bk_size (blk (ch_mem h') c) = bk_size (blk (ch_mem h) c))"
proof -
  let ?m = "ch_mem h"
  define m1 where "m1 = ?m(a \<mapsto> \<lparr>bk_is_free = True, bk_size = r, bk_next = ch_free_list h, bk_prev = None\<rparr>)"
  have sf: "seg ?m None fs None" and su: "seg ?m None us None" and dist: "distinct (fs @ us)"
    and dom: "dom ?m = set (fs @ us)" and hd: "ch_free_list h = first fs None" and lay: "layout_ok ?m"
    using inv by (simp_all add: heap_inv_def)
  have at1: "attr m1 = (attr ?m)(a \<mapsto> (True, r))" by (auto simp: m1_def attr_def fun_eq_iff)
  have f: "a + unat r \<le> 2 ^ 64" "\<forall>c \<in> dom ?m. c + bsize ?m c \<le> a \<or> a + unat r \<le> c"
    using fresh a by (auto simp: sbrk_fresh_def)
  note nd = layout_add(1) [OF lay r f at1]
  have sf1: "seg m1 None fs None" using sf by (rule seg_frame) (use nd dom in \<open>auto simp: m1_def\<close>)
  obtain m2 where m2: "(case ch_free_list h of Some n \<Rightarrow> set_prev m1 n (Some a) | None \<Rightarrow> Some m1) = Some m2"
    "seg m2 None (a # fs) None" "same_blocks m1 m2" "\<forall>c. c \<notin> set fs \<longrightarrow> m2 c = m1 c"
  proof (cases fs)
    case Nil
    with hd that [of m1] show ?thesis by (simp add: m1_def)
  next
    case (Cons n zs)
    with seg_first_prev [of m1 None n zs None "Some a"] sf1 dist obtain k where
      k: "m1 n = Some k" "seg (m1(n \<mapsto> k\<lparr>bk_prev := Some a\<rparr>)) (Some a) (n # zs) None" by auto
    have "seg (m1(n \<mapsto> k\<lparr>bk_prev := Some a\<rparr>)) None (a # n # zs) None"
      using k nd dom Cons hd by (auto simp: m1_def)
    with k Cons hd same_blocks_link(2) [where m = m1, OF k(1)] that [of "m1(n \<mapsto> k\<lparr>bk_prev := Some a\<rparr>)"]
    show ?thesis by (simp add: set_prev_def)
  qed
  have at: "attr m2 = (attr ?m)(a \<mapsto> (True, r))" using m2(3) at1 by (simp add: same_blocks_attr)
  have a2: "bk_is_free (blk m2 a)" "bk_size (blk m2 a) = r" using attr_blk(1) [of m2 a] at by auto
  have oth: "attr m2 c = attr ?m c \<and> c \<in> dom ?m" if "c \<in> set (fs @ us)" for c
    using at nd that dom by auto
  have blk: "bk_is_free (blk m2 c) = bk_is_free (blk ?m c) \<and> bk_size (blk m2 c) = bk_size (blk ?m c)"
    if "c \<in> set (fs @ us)" for c
    using oth [OF that] attr_blk(2) [of c ?m] attr_blk(1) [of m2 c] by metis
  have su2: "seg m2 None us None" using su by (rule seg_frame) (use m2(4) dist nd dom in \<open>auto simp: m1_def\<close>)
  have bytes: "total_bytes m2 fs = total_bytes ?m fs" "total_bytes m2 us = total_bytes ?m us"
    using oth by (auto intro!: total_bytes_attr)
  have d2: "dom m2 = insert a (dom ?m)" using arg_cong [OF at, of dom] by (auto simp: dom_attr)
  let ?h' = "h\<lparr>ch_mem := m2, ch_free_list := Some a, ch_total_size := ch_total_size h + r\<rparr>"
  have "grow_heap h a r = Some ?h'"
    unfolding grow_heap_def Let_def m1_def [symmetric] m2(1) by simp
  moreover have "heap_inv ?h' (a # fs) us"
    using inv m2(2) su2 a2 blk bytes d2 nd dom layout_add(2) [OF lay r f at] unfolding heap_inv_def by (auto simp: ac_simps)
  ultimately show ?thesis using a2(2) blk by (intro exI [of _ ?h']) simp
qed

lemma init_heap_inv:
  assumes "sbrk (ALIGN sz) = Some a" and "a + unat (ALIGN sz) \<le> 2 ^ 64" and "40 \<le> unat (ALIGN sz)"
  shows "heap_inv (init_heap sbrk sz zero_heap) [a] []"
  using assms
  by (simp add: init_heap_def zero_heap_def heap_inv_def layout_ok_def bsize_def blk_def Let_def)

lemma zero_heap_inv: "heap_inv zero_heap [] []"
  by (simp add: zero_heap_def heap_inv_def layout_ok_def)

subsection \<open>Allocation\<close>

text \<open>The two ways of an allocation: a block of the free list, and one made by \<open>sbrk\<close>.\<close>

lemma custom_malloc_from_free:
  assumes inv: "heap_inv h fs us" and sz: "sz \<noteq> 0" "unat sz + 55 < 2 ^ 64"
    and best: "find_best_fit h (ALIGN (sz + BLOCK_T_SIZE)) = Some (Some a)"
    and a: "a \<in> set fs" "ALIGN (sz + BLOCK_T_SIZE) \<le> bk_size (blk (ch_mem h) a)"
  shows "\<exists>h' fs'. custom_malloc sbrk h sz = Some (h', Some (a + DATA_OFFSET)) \<and> heap_inv h' fs' (a # us) \<and>
    unat sz + DATA_OFFSET \<le> bsize (ch_mem h') a \<and> (\<forall>c \<in> set us. bsize (ch_mem h') c = bsize (ch_mem h) c) \<and>
    ch_total_size h' = ch_total_size h"
proof -
  let ?T = "ALIGN (sz + BLOCK_T_SIZE)"
  have T: "unat sz + 40 \<le> unat ?T" using ALIGN_bounds(1) [OF sz(2)] by simp
  then have T40: "40 \<le> unat ?T" by simp
  from split_list [OF a(1)] obtain xs ys where "fs = xs @ a # ys" by blast
  with inv have "heap_inv h (xs @ a # ys) us" by simp
  from claim_block_inv [OF this a(2) T40] obtain h' zs where
    h': "claim_block h a ?T = Some (h', Some (a + DATA_OFFSET))" "heap_inv h' (xs @ zs @ ys) (a # us)"
    "ch_total_size h' = ch_total_size h" "?T \<le> bk_size (blk (ch_mem h') a)"
    "\<forall>c \<in> set us. bk_size (blk (ch_mem h') c) = bk_size (blk (ch_mem h) c)" by blast
  have "custom_malloc sbrk h sz = Some (h', Some (a + DATA_OFFSET))"
    using sz(1) best h'(1) by (simp add: custom_malloc_def)
  moreover have "unat sz + DATA_OFFSET \<le> bsize (ch_mem h') a"
    using T h'(4) by (simp add: bsize_def word_le_nat_alt DATA_OFFSET_def)
  ultimately show ?thesis using h'(2,3,5) by (intro exI [of _ h'] exI [of _ "xs @ zs @ ys"]) (simp add: bsize_def)
qed

lemma custom_malloc_from_sbrk:
  assumes inv: "heap_inv h fs us" and fresh: "sbrk_fresh sbrk (ch_mem h)" and sz: "sz \<noteq> 0" "unat sz + 55 < 2 ^ 64"
  defines "T \<equiv> ALIGN (sz + BLOCK_T_SIZE)"
  assumes none: "find_best_fit h T = Some None" and grown: "sbrk (if T > 4096 then T else 4096) = Some a"
  shows "\<exists>h' fs'. custom_malloc sbrk h sz = Some (h', Some (a + DATA_OFFSET)) \<and> heap_inv h' fs' (a # us) \<and>
    unat sz + DATA_OFFSET \<le> bsize (ch_mem h') a \<and> (\<forall>c \<in> set us. bsize (ch_mem h') c = bsize (ch_mem h) c)"
proof -
  have T: "unat sz + 40 \<le> unat T" using ALIGN_bounds(1) [OF sz(2)] by (simp add: T_def)
  then have T40: "40 \<le> unat T" by simp
  define R where "R = (if T > 4096 then T else 4096)"
  have R: "T \<le> R" "40 \<le> unat R" "sbrk R = Some a" using T40 grown by (auto simp: R_def)
  from grow_heap_inv [OF inv fresh R(3,2)] obtain h1 where
    h1: "grow_heap h a R = Some h1" "heap_inv h1 ([] @ a # fs) us" "bk_size (blk (ch_mem h1) a) = R"
    "\<forall>c \<in> set us. bk_size (blk (ch_mem h1) c) = bk_size (blk (ch_mem h) c)" by auto
  have "T \<le> bk_size (blk (ch_mem h1) a)" using h1(3) R(1) by simp
  from claim_block_inv [OF h1(2) this T40] obtain h' zs where
    h': "claim_block h1 a T = Some (h', Some (a + DATA_OFFSET))" "heap_inv h' ([] @ zs @ fs) (a # us)"
    "T \<le> bk_size (blk (ch_mem h') a)" "\<forall>c \<in> set us. bk_size (blk (ch_mem h') c) = bk_size (blk (ch_mem h1) c)" by blast
  have "custom_malloc sbrk h sz = Some (h', Some (a + DATA_OFFSET))"
    using sz(1) none R(3) h1(1) h'(1) by (simp add: custom_malloc_def T_def [symmetric] R_def Let_def)
  moreover have "unat sz + DATA_OFFSET \<le> bsize (ch_mem h') a"
    using T h'(3) by (simp add: bsize_def word_le_nat_alt DATA_OFFSET_def)
  ultimately show ?thesis
    using h'(2,4) h1(4) by (intro exI [of _ h'] exI [of _ "zs @ fs"]) (simp add: bsize_def)
qed

text \<open>C40: The allocator of d23 hands out memory safely. In a well-formed heap (free and used lists doubly linked
  and disjoint, no two blocks overlapping, the counters equal to the sums of the block sizes), a
  request for at least one byte whose size does not wrap (at most \<open>2 ^ 64 - 56\<close>) either fails, when no free block is large enough and \<open>sbrk\<close> refuses,
  leaving the heap as it was, or returns a pointer behind the header of a block that was not in use and whose
  data area holds the requested bytes, leaves every block in use alone, and ends in a well-formed heap with that
  block first in the used list. If a free block is large enough, the block taken is a smallest such one, and
  the total size does not change.\<close>
theorem custom_malloc_allocates:
  assumes inv: "heap_inv h fs us" and fresh: "sbrk_fresh sbrk (ch_mem h)"
    and sz: "sz \<noteq> 0" "unat sz + 55 < 2 ^ 64"
  defines "T \<equiv> ALIGN (sz + BLOCK_T_SIZE)"
  shows "(custom_malloc sbrk h sz = Some (h, None) \<and> (\<forall>c \<in> set fs. bk_size (blk (ch_mem h) c) < T) \<and>
      sbrk (if T > 4096 then T else 4096) = None) \<or>
    (\<exists>h' a fs'. custom_malloc sbrk h sz = Some (h', Some (a + DATA_OFFSET)) \<and> heap_inv h' fs' (a # us) \<and>
      unat sz + DATA_OFFSET \<le> bsize (ch_mem h') a \<and>
      (\<forall>c \<in> set us. bsize (ch_mem h') c = bsize (ch_mem h) c) \<and>
      ((\<exists>c \<in> set fs. T \<le> bk_size (blk (ch_mem h) c)) \<longrightarrow>
        a \<in> set fs \<and> ch_total_size h' = ch_total_size h \<and>
        (\<forall>c \<in> set fs. T \<le> bk_size (blk (ch_mem h) c) \<longrightarrow> bsize (ch_mem h) a \<le> bsize (ch_mem h) c)))"
proof -
  have "40 \<le> unat T" using ALIGN_bounds(1) [OF sz(2)] by (simp add: T_def)
  then have "T \<noteq> 0" by auto
  from find_best_fit_best [OF inv this] obtain r where r: "find_best_fit h T = Some r"
    "case r of None \<Rightarrow> \<forall>a \<in> set fs. bk_size (blk (ch_mem h) a) < T
     | Some a \<Rightarrow> a \<in> set fs \<and> T \<le> bk_size (blk (ch_mem h) a) \<and>
        (\<forall>c \<in> set fs. T \<le> bk_size (blk (ch_mem h) c) \<longrightarrow> bk_size (blk (ch_mem h) a) \<le> bk_size (blk (ch_mem h) c))"
    by blast
  show ?thesis
  proof (cases r)
    case (Some a)
    with r(2) have a: "a \<in> set fs" "T \<le> bk_size (blk (ch_mem h) a)"
      "\<forall>c \<in> set fs. T \<le> bk_size (blk (ch_mem h) c) \<longrightarrow> bk_size (blk (ch_mem h) a) \<le> bk_size (blk (ch_mem h) c)" by auto
    from custom_malloc_from_free [OF inv sz, folded T_def, OF _ a(1,2)] r(1) Some a(1,3)
    show ?thesis unfolding bsize_def word_le_nat_alt by blast
  next
    case None
    then have small: "\<forall>c \<in> set fs. bk_size (blk (ch_mem h) c) < T" using r(2) by simp
    show ?thesis
    proof (cases "sbrk (if T > 4096 then T else 4096)")
      case None
      with r(1) \<open>r = None\<close> sz(1) small show ?thesis by (simp add: custom_malloc_def T_def [symmetric])
    next
      case (Some a)
      have "\<not> (\<exists>c \<in> set fs. T \<le> bk_size (blk (ch_mem h) c))" using small by (auto simp: not_le)
      with custom_malloc_from_sbrk [OF inv fresh sz, folded T_def, OF _ Some] r(1) \<open>r = None\<close> show ?thesis by blast
    qed
  qed
qed

theorem custom_malloc_allocates_witness:
  "\<exists>h' a fs'. custom_malloc (\<lambda>r. if r \<le> 8192 then Some 65536 else None) zero_heap 100 = Some (h', Some (a + 32)) \<and>
     heap_inv h' fs' [a] \<and> 132 \<le> bsize (ch_mem h') a"
proof -
  let ?sbrk = "\<lambda>r :: size_t. if r \<le> 8192 then Some (65536 :: nat) else None"
  have "65536 + unat r \<le> 2 ^ 64" if "r \<le> 8192" for r :: size_t
    using that by (simp add: word_le_nat_alt)
  then have f: "sbrk_fresh ?sbrk (ch_mem zero_heap)"
    unfolding sbrk_fresh_def zero_heap_def by (simp split: if_splits)
  have "ALIGN (100 + BLOCK_T_SIZE) = 144" by (simp add: ALIGN_def BLOCK_T_SIZE_def)
  with custom_malloc_allocates [OF zero_heap_inv f, of 100] show ?thesis by (auto simp: DATA_OFFSET_def)
qed

subsection \<open>Freeing\<close>

text \<open>
  \<open>custom_free\<close> goes back 40 bytes where \<open>custom_malloc\<close> went forward 32: it never finds the header of a block in use,
  and there is no header 8 bytes before it.
\<close>

lemma custom_free_misses_header:
  assumes inv: "heap_inv h fs us" and a: "a \<in> set us"
  shows "custom_free h (Some (a + DATA_OFFSET)) = None"
proof (cases "a < 8")
  case True
  then show ?thesis by (simp add: custom_free_def DATA_OFFSET_def BLOCK_T_SIZE_def)
next
  case False
  have "a \<in> dom (ch_mem h)" using inv a by (simp add: heap_inv_def)
  have "a - 8 \<notin> dom (ch_mem h)"
  proof
    assume d: "a - 8 \<in> dom (ch_mem h)"
    have lay: "layout_ok (ch_mem h)" using inv by (simp add: heap_inv_def)
    then have "40 \<le> bsize (ch_mem h) (a - 8)" using d by (simp add: layout_ok_def)
    moreover have "a - 8 + bsize (ch_mem h) (a - 8) \<le> a"
    proof -
      have "\<forall>x \<in> dom (ch_mem h). \<forall>c \<in> dom (ch_mem h). x < c \<longrightarrow> x + bsize (ch_mem h) x \<le> c"
        using lay by (simp add: layout_ok_def)
      moreover have "a - 8 < a" using False by simp
      ultimately show ?thesis using d \<open>a \<in> dom (ch_mem h)\<close> by blast
    qed
    ultimately show False using False by linarith
  qed
  then have "ch_mem h (a - 8) = None" by (simp add: domIff)
  with False show ?thesis by (simp add: custom_free_def DATA_OFFSET_def BLOCK_T_SIZE_def Let_def)
qed


text \<open>
  Coalescing joins the first two blocks of the free list, wherever they lie: the result covers bytes that belong to
  neither when they are not adjacent.
\<close>

lemma coalesce_joins_neighbours:
  assumes sg: "seg m None (a # n # ys) None" and dist: "distinct (a # n # ys)" and free: "bk_is_free (blk m n)"
  shows "\<exists>m'. coalesce_blocks m a = Some m' \<and> seg m' None (a # ys) None \<and>
    bk_size (blk m' a) = bk_size (blk m a) + bk_size (blk m n)"
proof -
  from sg obtain b where b: "m a = Some b" "bk_prev b = None" "bk_next b = Some n" "seg m (Some a) (n # ys) None"
    by (auto split: option.splits)
  from b(4) obtain nb where nb: "m n = Some nb" "bk_next nb = first ys None" "seg m (Some n) ys None"
    by (auto split: option.splits)
  have nbf: "bk_is_free nb" using free nb(1) by (simp add: blk_def)
  define m1 where "m1 = m(a \<mapsto> b\<lparr>bk_size := bk_size b + bk_size nb, bk_next := bk_next nb\<rparr>)"
  have ys1: "seg m1 (Some n) ys None" using nb(3) by (rule seg_frame) (use dist in \<open>auto simp: m1_def\<close>)
  obtain m2 where m2: "(case bk_next nb of Some k \<Rightarrow> set_prev m1 k (Some a) | None \<Rightarrow> Some m1) = Some m2"
    "seg m2 (Some a) ys None" "m2 a = m1 a"
  proof (cases ys)
    case Nil
    with nb(2) that [of m1] show ?thesis by simp
  next
    case (Cons k ks)
    with seg_first_prev [of m1 "Some n" k ks None "Some a"] ys1 dist obtain c where
      "m1 k = Some c" "seg (m1(k \<mapsto> c\<lparr>bk_prev := Some a\<rparr>)) (Some a) (k # ks) None" by auto
    with Cons nb(2) dist that [of "m1(k \<mapsto> c\<lparr>bk_prev := Some a\<rparr>)"] show ?thesis by (simp add: set_prev_def)
  qed
  have m2a: "m2 a = Some (b\<lparr>bk_size := bk_size b + bk_size nb, bk_next := bk_next nb\<rparr>)" using m2(3) by (simp add: m1_def)
  have "coalesce_blocks m a = Some m2"
    unfolding coalesce_blocks_def b(1) bind.bind_lunit b(3) option.case nb(1) Let_def m1_def [symmetric] m2(1)
    using nbf m2a b(2) by simp
  moreover have "seg m2 None (a # ys) None" using m2a m2(2) b(2) nb(2) by simp
  ultimately show ?thesis using m2a b(1) nb(1) by (auto simp: blk_def)
qed

subsection \<open>Leak tracking\<close>

record allocation_info =
  al_ptr :: nat
  al_size :: size_t
  al_file :: string
  al_line :: int

definition MAX_ALLOC :: nat where "MAX_ALLOC = 1000"

text \<open>
  The array of records and how many of them are valid; what \<open>debug_malloc\<close> does with the result of \<open>custom_malloc\<close>, and what
  \<open>debug_free\<close> does before it calls \<open>custom_free\<close>.
\<close>

record leak_table =
  lt_allocations :: "allocation_info list"
  lt_alloc_cnt :: nat

definition record_allocation :: "nat option \<Rightarrow> size_t \<Rightarrow> string \<Rightarrow> int \<Rightarrow> leak_table \<Rightarrow> leak_table option" where
  "record_allocation ptr sz file line t =
     (case ptr of
        None \<Rightarrow> Some t
      | Some p \<Rightarrow>
          if lt_alloc_cnt t < MAX_ALLOC then do {
            as \<leftarrow> wr (lt_allocations t) (lt_alloc_cnt t) \<lparr>al_ptr = p, al_size = sz, al_file = file, al_line = line\<rparr>;
            Some (t\<lparr>lt_allocations := as, lt_alloc_cnt := lt_alloc_cnt t + 1\<rparr>) }
          else Some t)"

text \<open>\<open>memmove\<close> shifts the records behind the first match down by one.\<close>

definition forget_allocation :: "nat \<Rightarrow> leak_table \<Rightarrow> leak_table option" where
  "forget_allocation p t = do {
     hit \<leftarrow> search_first 0 (lt_alloc_cnt t) (\<lambda>i. do { r \<leftarrow> rd (lt_allocations t) i; Some (al_ptr r = p) });
     (case hit of
        None \<Rightarrow> Some t
      | Some i \<Rightarrow>
          let moved = take (lt_alloc_cnt t - i - 1) (drop (i + 1) (lt_allocations t)) in
          Some (t\<lparr>lt_allocations := take i (lt_allocations t) @ moved @ drop (lt_alloc_cnt t - 1) (lt_allocations t),
            lt_alloc_cnt := lt_alloc_cnt t - 1\<rparr>)) }"

definition check_leaks :: "leak_table \<Rightarrow> allocation_info list" where
  "check_leaks t = (if lt_alloc_cnt t > 0 then take (lt_alloc_cnt t) (lt_allocations t) else [])"

definition leak_inv :: "leak_table \<Rightarrow> bool" where
  "leak_inv t \<longleftrightarrow> length (lt_allocations t) = MAX_ALLOC \<and> lt_alloc_cnt t \<le> MAX_ALLOC"

lemma record_allocation_leaks:
  assumes "leak_inv t" and "lt_alloc_cnt t < MAX_ALLOC"
  shows "\<exists>t'. record_allocation (Some p) sz file line t = Some t' \<and> leak_inv t' \<and>
    check_leaks t' = check_leaks t @ [\<lparr>al_ptr = p, al_size = sz, al_file = file, al_line = line\<rparr>]"
  using assms by (auto simp: record_allocation_def leak_inv_def check_leaks_def take_Suc_conv_app_nth)

text \<open>Freeing removes the first record of the pointer from the report, and nothing else.\<close>

lemma forget_allocation_leaks:
  assumes inv: "leak_inv t"
  shows "\<exists>t'. forget_allocation p t = Some t' \<and> leak_inv t' \<and>
    check_leaks t' = (case find (\<lambda>r. al_ptr r = p) (check_leaks t) of
      None \<Rightarrow> check_leaks t | Some r \<Rightarrow> remove1 r (check_leaks t))"
proof -
  let ?n = "lt_alloc_cnt t" and ?as = "lt_allocations t"
  have len: "?n \<le> length ?as" using inv by (simp add: leak_inv_def)
  have leaks: "check_leaks u = take (lt_alloc_cnt u) (lt_allocations u)" for u by (auto simp: check_leaks_def)
  have srch: "search_first 0 ?n (\<lambda>i. do { r \<leftarrow> rd ?as i; Some (al_ptr r = p) }) = Some (find (\<lambda>i. al_ptr (?as ! i) = p) [0..<?n])"
    using len by (intro search_first_total) simp
  show ?thesis
  proof (cases "find (\<lambda>i. al_ptr (?as ! i) = p) [0..<?n]")
    case None
    then have none: "\<forall>i < ?n. al_ptr (?as ! i) \<noteq> p" by (simp add: find_upt_None)
    have "find (\<lambda>r. al_ptr r = p) (take ?n ?as) = None"
      unfolding find_None_iff using none by (auto simp: in_set_conv_nth)
    with None srch inv show ?thesis by (simp add: forget_allocation_def leaks)
  next
    case (Some i)
    then have i: "i < ?n" "al_ptr (?as ! i) = p" "\<forall>j < i. al_ptr (?as ! j) \<noteq> p" by (simp_all add: find_upt_Some)
    let ?xs = "take i ?as" and ?r = "?as ! i" and ?ys = "take (?n - i - 1) (drop (i + 1) ?as)"
    have il: "i < length ?as" using i(1) len by simp
    have split: "take ?n ?as = ?xs @ ?r # ?ys"
    proof -
      have "take ?n ?as = take (Suc i + (?n - i - 1)) ?as" using i(1) by simp
      also have "\<dots> = take (Suc i) ?as @ ?ys" unfolding Suc_eq_plus1 by (rule take_add)
      finally show ?thesis using il by (simp add: take_Suc_conv_app_nth)
    qed
    have notin: "\<forall>x \<in> set ?xs. al_ptr x \<noteq> p" using i(3) il by (simp add: all_set_conv_all_nth)
    have "find (\<lambda>r. al_ptr r = p) (zs @ ?r # ?ys) = Some ?r" if "\<forall>x \<in> set zs. al_ptr x \<noteq> p" for zs
      using that i(2) by (induction zs) auto
    with notin have "find (\<lambda>r. al_ptr r = p) (take ?n ?as) = Some ?r" unfolding split by blast
    moreover have "remove1 ?r (take ?n ?as) = ?xs @ ?ys"
      unfolding split using notin i(2) by (auto simp: remove1_append)
    moreover define t' where "t' = t\<lparr>lt_allocations := ?xs @ ?ys @ drop (?n - 1) ?as, lt_alloc_cnt := ?n - 1\<rparr>"
    moreover have "forget_allocation p t = Some t'" using srch Some by (simp add: forget_allocation_def Let_def t'_def)
    moreover have l: "length (?xs @ ?ys) = ?n - 1" using il len i(1) by simp
    have "take k (zs @ ws) = zs" if "length zs = k" for zs ws :: "allocation_info list" and k using that by simp
    from this [OF l] have "take (?n - 1) ((?xs @ ?ys) @ drop (?n - 1) ?as) = ?xs @ ?ys" .
    then have "check_leaks t' = ?xs @ ?ys" unfolding leaks t'_def by simp
    moreover have "length ((?xs @ ?ys) @ drop (?n - 1) ?as) = length ?as" unfolding length_append [of "?xs @ ?ys"] l using len by simp
    then have "leak_inv t'" using inv by (auto simp: leak_inv_def t'_def)
    ultimately show ?thesis by (simp add: leaks)
  qed
qed

end
