(* ===== verification/Thread_Queues.thy ===== *)
theory Thread_Queues
  imports OS_Prelude
begin

section \<open>Ring queues between threads: d8 combined.c, d10 single\_thread\_pool.c\<close>

text \<open>
  Both programs pass work between threads through a circular array protected by a mutex. Everything
  between \<open>pthread_mutex_lock\<close> and \<open>pthread_mutex_unlock\<close> is one step; a thread that finds the queue
  full or empty waits on the condition variable, which releases the mutex, and tries again later.
  So an operation has three outcomes: undefined (\<open>None\<close>), waiting (\<open>Some None\<close>), or done.
\<close>

subsection \<open>The interface\<close>

text \<open>A run: any interleaving of completed insertions and removals, with what went in and came out.\<close>

inductive queue_run ::
  "('a \<Rightarrow> 's \<Rightarrow> 's option option) \<Rightarrow> ('s \<Rightarrow> ('s \<times> 'a) option option) \<Rightarrow> 's \<Rightarrow> 'a list \<Rightarrow> 'a list \<Rightarrow> 's \<Rightarrow> bool"
  for push pop s0 where
  start: "queue_run push pop s0 [] [] s0"
| put: "\<lbrakk>queue_run push pop s0 ins outs s; push x s = Some (Some s')\<rbrakk> \<Longrightarrow> queue_run push pop s0 (ins @ [x]) outs s'"
| get: "\<lbrakk>queue_run push pop s0 ins outs s; pop s = Some (Some (s', x))\<rbrakk> \<Longrightarrow> queue_run push pop s0 ins (outs @ [x]) s'"

locale bounded_queue =
  fixes inv :: "'s \<Rightarrow> bool"
    and items :: "'s \<Rightarrow> 'a list"
    and cap :: nat
    and push :: "'a \<Rightarrow> 's \<Rightarrow> 's option option"
    and pop :: "'s \<Rightarrow> ('s \<times> 'a) option option"
  assumes items_cap: "inv s \<Longrightarrow> length (items s) \<le> cap"
    and push_full: "\<lbrakk>inv s; length (items s) = cap\<rbrakk> \<Longrightarrow> push x s = Some None"
    and push_room: "\<lbrakk>inv s; length (items s) < cap\<rbrakk> \<Longrightarrow>
      \<exists>s'. push x s = Some (Some s') \<and> inv s' \<and> items s' = items s @ [x]"
    and pop_empty: "\<lbrakk>inv s; items s = []\<rbrakk> \<Longrightarrow> pop s = Some None"
    and pop_first: "\<lbrakk>inv s; items s = x # xs\<rbrakk> \<Longrightarrow>
      \<exists>s'. pop s = Some (Some (s', x)) \<and> inv s' \<and> items s' = xs"
begin

lemma push_cases:
  assumes "inv s"
  shows "push x s = Some None \<and> length (items s) = cap \<or>
    (\<exists>s'. push x s = Some (Some s') \<and> length (items s) < cap \<and> inv s' \<and> items s' = items s @ [x])"
  using items_cap [OF assms] push_full [OF assms] push_room [OF assms] by (cases "length (items s) = cap") auto

lemma pop_cases:
  assumes "inv s"
  shows "pop s = Some None \<and> items s = [] \<or>
    (\<exists>s' x. pop s = Some (Some (s', x)) \<and> inv s' \<and> items s = x # items s')"
  using pop_empty [OF assms] pop_first [OF assms] by (cases "items s") auto

lemma push_waits: "inv s \<Longrightarrow> push x s \<noteq> None \<and> (push x s = Some None \<longleftrightarrow> length (items s) = cap)"
  using push_cases [of s x] by auto

lemma pop_waits: "inv s \<Longrightarrow> pop s \<noteq> None \<and> (pop s = Some None \<longleftrightarrow> items s = [])"
  using pop_cases [of s] by auto

text \<open>Nothing is lost, duplicated or reordered.\<close>

lemma run_fifo:
  assumes "queue_run push pop s0 ins outs s" and "inv s0" and "items s0 = []"
  shows "inv s \<and> ins = outs @ items s"
  using assms
proof (induction rule: queue_run.induct)
  case (put ins outs s x s')
  then show ?case using push_cases [of s x] by auto
next
  case (get ins outs s s' x)
  then show ?case using pop_cases [of s] by auto
qed simp

end

subsection \<open>Circular arrays\<close>

definition ring_list :: "'a list \<Rightarrow> nat \<Rightarrow> nat \<Rightarrow> 'a list" where
  "ring_list data f n = map (\<lambda>k. data ! ((f + k) mod length data)) [0..<n]"

lemma length_ring_list [simp]: "length (ring_list data f n) = n"
  by (simp add: ring_list_def)

lemma ring_put:
  assumes "n < length data"
  shows "ring_list (data[(f + n) mod length data := x]) f (Suc n) = ring_list data f n @ [x]"
proof -
  have diff: "(f + k) mod length data \<noteq> (f + n) mod length data" if "k < n" for k
  proof
    assume "(f + k) mod length data = (f + n) mod length data"
    then have "(f + n - (f + k)) mod length data = 0"
      using that by (metis add_le_cancel_left less_imp_le mod_eq_dvd_iff_nat mod_0_imp_dvd dvd_imp_mod_0)
    with that assms show False by simp
  qed
  then have "map (\<lambda>k. data[(f + n) mod length data := x] ! ((f + k) mod length data)) [0..<n] =
      map (\<lambda>k. data ! ((f + k) mod length data)) [0..<n]"
    by (intro map_cong refl nth_list_update_neq) (metis atLeastLessThan_iff set_upt)
  moreover have "(f + n) mod length data < length data" using assms by (intro mod_less_divisor) linarith
  ultimately show ?thesis by (simp add: ring_list_def)
qed

lemma ring_get: "ring_list data f (Suc n) = data ! (f mod length data) # ring_list data (Suc f mod length data) n"
proof -
  have "map (\<lambda>k. data ! ((f + k) mod length data)) (map Suc [0..<n]) =
      map (\<lambda>k. data ! ((Suc f mod length data + k) mod length data)) [0..<n]"
    by (simp add: mod_add_left_eq)
  then show ?thesis
    by (simp add: ring_list_def upt_conv_Cons map_Suc_upt del: upt_Suc)
qed

subsection \<open>The thread-safe queue of d8\<close>

definition QUEUE_SIZE :: nat where "QUEUE_SIZE = 10"

record thread_safe_queue =
  tq_data :: "int list"
  tq_front :: int
  tq_rear :: int

definition queue_start :: thread_safe_queue where
  "queue_start = \<lparr>tq_data = replicate QUEUE_SIZE 0, tq_front = 0, tq_rear = 0\<rparr>"

definition queue_push :: "int \<Rightarrow> thread_safe_queue \<Rightarrow> thread_safe_queue option option" where
  "queue_push value q = do {
     next_rear \<leftarrow> chk (tq_rear q + 1);
     if c_mod next_rear (int QUEUE_SIZE) = tq_front q then Some None
     else do {
       d \<leftarrow> wri (tq_data q) (tq_rear q) value;
       Some (Some (q\<lparr>tq_data := d, tq_rear := c_mod next_rear (int QUEUE_SIZE)\<rparr>)) } }"

definition queue_pop :: "thread_safe_queue \<Rightarrow> (thread_safe_queue \<times> int) option option" where
  "queue_pop q =
     (if tq_front q = tq_rear q then Some None
      else do {
        value \<leftarrow> rdi (tq_data q) (tq_front q);
        next_front \<leftarrow> chk (tq_front q + 1);
        Some (Some (q\<lparr>tq_front := c_mod next_front (int QUEUE_SIZE)\<rparr>, value)) })"

definition tq_inv :: "thread_safe_queue \<Rightarrow> bool" where
  "tq_inv q \<longleftrightarrow> length (tq_data q) = QUEUE_SIZE \<and> 0 \<le> tq_front q \<and> tq_front q < int QUEUE_SIZE \<and>
     0 \<le> tq_rear q \<and> tq_rear q < int QUEUE_SIZE"

definition tq_len :: "thread_safe_queue \<Rightarrow> nat" where
  "tq_len q = nat ((tq_rear q - tq_front q) mod int QUEUE_SIZE)"

definition tq_items :: "thread_safe_queue \<Rightarrow> int list" where
  "tq_items q = ring_list (tq_data q) (nat (tq_front q)) (tq_len q)"

lemma tq_len_eq:
  assumes "tq_inv q"
  shows "int (tq_len q) = (if tq_front q \<le> tq_rear q then tq_rear q - tq_front q else tq_rear q - tq_front q + 10)"
proof -
  have r: "0 \<le> tq_front q" "tq_front q < 10" "0 \<le> tq_rear q" "tq_rear q < 10"
    using assms by (simp_all add: tq_inv_def QUEUE_SIZE_def)
  show ?thesis
  proof (cases "tq_front q \<le> tq_rear q")
    case True
    then have "(tq_rear q - tq_front q) mod 10 = tq_rear q - tq_front q" using r by (intro mod_pos_pos_trivial) auto
    with True show ?thesis by (simp add: tq_len_def QUEUE_SIZE_def)
  next
    case False
    have "(tq_rear q - tq_front q) mod 10 = (tq_rear q - tq_front q + 10) mod 10" by simp
    also have "\<dots> = tq_rear q - tq_front q + 10" using r False by (intro mod_pos_pos_trivial) auto
    finally show ?thesis using False r by (simp add: tq_len_def QUEUE_SIZE_def)
  qed
qed

lemma tq_index:
  assumes "tq_inv q"
  shows "tq_len q < 10" and "nat (tq_rear q) = (nat (tq_front q) + tq_len q) mod 10"
    and "tq_front q = tq_rear q \<longleftrightarrow> tq_len q = 0"
    and "(tq_rear q + 1) mod 10 = tq_front q \<longleftrightarrow> tq_len q = 9"
proof -
  have r: "0 \<le> tq_front q" "tq_front q < 10" "0 \<le> tq_rear q" "tq_rear q < 10"
    using assms by (simp_all add: tq_inv_def QUEUE_SIZE_def)
  note len = tq_len_eq [OF assms]
  show "tq_len q < 10" using len r by (auto split: if_splits)
  show "tq_front q = tq_rear q \<longleftrightarrow> tq_len q = 0" using len r by (auto split: if_splits)
  show "(tq_rear q + 1) mod 10 = tq_front q \<longleftrightarrow> tq_len q = 9"
  proof (cases "tq_rear q = 9")
    case True
    with len r show ?thesis by (auto split: if_splits)
  next
    case False
    then have "(tq_rear q + 1) mod 10 = tq_rear q + 1" using r by (intro mod_pos_pos_trivial) auto
    with len r False show ?thesis by (auto split: if_splits)
  qed
  show "nat (tq_rear q) = (nat (tq_front q) + tq_len q) mod 10"
  proof (cases "tq_front q \<le> tq_rear q")
    case True
    then have "nat (tq_front q) + tq_len q = nat (tq_rear q)" using len r by auto
    with r show ?thesis by simp
  next
    case False
    then have "nat (tq_front q) + tq_len q = nat (tq_rear q) + 10" using len r by auto
    with r show ?thesis by simp
  qed
qed

interpretation tq: bounded_queue tq_inv tq_items 9 queue_push queue_pop
proof
  fix q v
  assume inv: "tq_inv q"
  have len: "length (tq_data q) = 10" and r: "0 \<le> tq_front q" "tq_front q < 10" "0 \<le> tq_rear q" "tq_rear q < 10"
    using inv by (simp_all add: tq_inv_def QUEUE_SIZE_def)
  note ix = tq_index [OF inv]
  have ok: "int_ok (tq_rear q + 1)" "int_ok (tq_front q + 1)" using r by (simp_all add: int_ok_def INT_MIN_def INT_MAX_def)
  have cm: "c_mod (tq_rear q + 1) 10 = (tq_rear q + 1) mod 10" "c_mod (tq_front q + 1) 10 = (tq_front q + 1) mod 10"
    using r by (simp_all add: c_mod_nonneg)
  show "length (tq_items q) \<le> 9" using ix(1) by (simp add: tq_items_def)
  { assume "length (tq_items q) = 9"
    then show "queue_push v q = Some None" using ix(4) ok cm by (simp add: queue_push_def tq_items_def QUEUE_SIZE_def) }
  { assume "length (tq_items q) < 9"
    then have lt: "tq_len q < 9" by (simp add: tq_items_def)
    define q' where "q' = q\<lparr>tq_data := (tq_data q)[nat (tq_rear q) := v], tq_rear := (tq_rear q + 1) mod 10\<rparr>"
    have "queue_push v q = Some (Some q')"
      using ix(4) lt ok cm r len by (simp add: queue_push_def QUEUE_SIZE_def q'_def)
    moreover have inv': "tq_inv q'" using len r by (simp add: tq_inv_def q'_def QUEUE_SIZE_def)
    moreover have "tq_len q' = Suc (tq_len q)"
    proof (cases "tq_rear q = 9")
      case True
      then show ?thesis using tq_len_eq [OF inv] tq_len_eq [OF inv'] r lt by (auto simp: q'_def split: if_splits)
    next
      case False
      then have "(tq_rear q + 1) mod 10 = tq_rear q + 1" using r by (intro mod_pos_pos_trivial) auto
      then show ?thesis using tq_len_eq [OF inv] tq_len_eq [OF inv'] r lt by (auto simp: q'_def split: if_splits)
    qed
    then have "tq_items q' = tq_items q @ [v]"
      using ring_put [of "tq_len q" "tq_data q" "nat (tq_front q)" v] lt len ix(2) by (simp add: tq_items_def q'_def)
    ultimately show "\<exists>q'. queue_push v q = Some (Some q') \<and> tq_inv q' \<and> tq_items q' = tq_items q @ [v]" by blast }
  { assume "tq_items q = []"
    then have "tq_len q = 0" by (metis length_ring_list list.size(3) tq_items_def)
    then show "queue_pop q = Some None" using ix(3) by (simp add: queue_pop_def) }
  { fix x xs assume x: "tq_items q = x # xs"
    then obtain k where k: "tq_len q = Suc k" by (cases "tq_len q") (auto simp: tq_items_def ring_list_def)
    have hd: "x = tq_data q ! nat (tq_front q)" "xs = ring_list (tq_data q) (Suc (nat (tq_front q)) mod 10) k"
      using x ring_get [of "tq_data q" "nat (tq_front q)" k] len r by (simp_all add: tq_items_def k)
    define q' where "q' = q\<lparr>tq_front := (tq_front q + 1) mod 10\<rparr>"
    have "queue_pop q = Some (Some (q', x))"
      using ix(3) k ok cm r len hd(1) by (simp add: queue_pop_def QUEUE_SIZE_def q'_def)
    moreover have inv': "tq_inv q'" using len r by (simp add: tq_inv_def q'_def QUEUE_SIZE_def)
    moreover have fr: "nat (tq_front q') = Suc (nat (tq_front q)) mod 10"
      using r by (simp add: q'_def nat_mod_distrib nat_add_distrib)
    moreover have "tq_len q' = k"
    proof (cases "tq_front q = 9")
      case True
      then show ?thesis using tq_len_eq [OF inv] tq_len_eq [OF inv'] r k by (auto simp: q'_def split: if_splits)
    next
      case False
      then have "(tq_front q + 1) mod 10 = tq_front q + 1" using r by (intro mod_pos_pos_trivial) auto
      then show ?thesis using tq_len_eq [OF inv] tq_len_eq [OF inv'] r k by (auto simp: q'_def split: if_splits)
    qed
    ultimately show "\<exists>q'. queue_pop q = Some (Some (q', x)) \<and> tq_inv q' \<and> tq_items q' = xs"
      using hd(2) by (intro exI [of _ q']) (simp add: tq_items_def, simp add: q'_def) }
qed

subsection \<open>The thread pool of d10\<close>

text \<open>
  \<open>add_task\<close> reduces the rear index modulo \<open>MASK_QUEUE_SIZE\<close>, a name that is declared nowhere
  (\<open>MAX_QUEUE_SIZE\<close> is meant): it is the parameter \<open>mask\<close>.
\<close>

definition MAX_QUEUE_SIZE :: nat where "MAX_QUEUE_SIZE = 100"

record ('f, 'a) task =
  tk_function :: 'f
  tk_arg :: 'a

record ('f, 'a) thread_pool =
  tp_task_queue :: "('f, 'a) task list"
  tp_queue_size :: int
  tp_front :: int
  tp_rear :: int
  tp_shutdown :: int

definition create_thread_pool :: "('f, 'a) task list \<Rightarrow> ('f, 'a) thread_pool" where
  "create_thread_pool raw = \<lparr>tp_task_queue = raw, tp_queue_size = 0, tp_front = 0, tp_rear = 0, tp_shutdown = 0\<rparr>"

definition add_task :: "int \<Rightarrow> ('f, 'a) task \<Rightarrow> ('f, 'a) thread_pool \<Rightarrow> ('f, 'a) thread_pool option option" where
  "add_task msk task pool =
     (if tp_queue_size pool = int MAX_QUEUE_SIZE then Some None
      else do {
        tasks \<leftarrow> wri (tp_task_queue pool) (tp_rear pool) task;
        next_rear \<leftarrow> chk (tp_rear pool + 1);
        rear \<leftarrow> (if msk = 0 then None else Some (c_mod next_rear msk));
        sz \<leftarrow> chk (tp_queue_size pool + 1);
        Some (Some (pool\<lparr>tp_task_queue := tasks, tp_rear := rear, tp_queue_size := sz\<rparr>)) })"

text \<open>One turn of the loop of a worker: it waits, exits, or takes a task to run.\<close>

datatype 'r worker_turn = Wait | Exit | Run 'r

definition worker_thread ::
  "('f, 'a) thread_pool \<Rightarrow> (('f, 'a) thread_pool \<times> ('f, 'a) task) worker_turn option" where
  "worker_thread pool =
     (if tp_queue_size pool = 0 \<and> tp_shutdown pool = 0 then Some Wait
      else if tp_shutdown pool \<noteq> 0 then Some Exit
      else do {
        task \<leftarrow> rdi (tp_task_queue pool) (tp_front pool);
        next_front \<leftarrow> chk (tp_front pool + 1);
        Some (Run (pool\<lparr>tp_front := c_mod next_front (int MAX_QUEUE_SIZE),
          tp_queue_size := tp_queue_size pool - 1\<rparr>, task)) })"

definition shut_down :: "('f, 'a) thread_pool \<Rightarrow> ('f, 'a) thread_pool" where
  "shut_down pool = pool\<lparr>tp_shutdown := 1\<rparr>"

text \<open>After the shutdown every worker leaves at its next turn; queued tasks are not run.\<close>

lemma shut_down_drops_tasks: "worker_thread (shut_down pool) = Some Exit"
  by (simp add: worker_thread_def shut_down_def)

definition worker_take ::
  "('f, 'a) thread_pool \<Rightarrow> (('f, 'a) thread_pool \<times> ('f, 'a) task) option option" where
  "worker_take pool = do {
     t \<leftarrow> worker_thread pool;
     (case t of Run r \<Rightarrow> Some (Some r) | _ \<Rightarrow> Some None) }"

definition tp_inv :: "('f, 'a) thread_pool \<Rightarrow> bool" where
  "tp_inv p \<longleftrightarrow> length (tp_task_queue p) = 100 \<and> tp_shutdown p = 0 \<and> 0 \<le> tp_front p \<and> tp_front p < 100 \<and>
     0 \<le> tp_queue_size p \<and> tp_queue_size p \<le> 100 \<and> tp_rear p = (tp_front p + tp_queue_size p) mod 100"

definition tp_items :: "('f, 'a) thread_pool \<Rightarrow> ('f, 'a) task list" where
  "tp_items p = ring_list (tp_task_queue p) (nat (tp_front p)) (nat (tp_queue_size p))"

interpretation tp: bounded_queue "tp_inv :: ('f, 'a) thread_pool \<Rightarrow> bool" tp_items 100 "add_task 100" worker_take
proof
  fix p :: "('f, 'a) thread_pool" and t :: "('f, 'a) task"
  assume inv: "tp_inv p"
  have r: "length (tp_task_queue p) = 100" "tp_shutdown p = 0" "0 \<le> tp_front p" "tp_front p < 100"
    "0 \<le> tp_queue_size p" "tp_queue_size p \<le> 100" "tp_rear p = (tp_front p + tp_queue_size p) mod 100"
    using inv by (simp_all add: tp_inv_def)
  have rr: "0 \<le> tp_rear p" "tp_rear p < 100" using r(7) by simp_all
  have ok: "int_ok (tp_rear p + 1)" "int_ok (tp_front p + 1)" "int_ok (tp_queue_size p + 1)"
    using r rr by (simp_all add: int_ok_def INT_MIN_def INT_MAX_def)
  have cm: "c_mod (tp_rear p + 1) 100 = (tp_rear p + 1) mod 100" "c_mod (tp_front p + 1) 100 = (tp_front p + 1) mod 100"
    using r rr by (simp_all add: c_mod_nonneg)
  show "length (tp_items p) \<le> 100" using r(6) by (simp add: tp_items_def)
  { assume "length (tp_items p) = 100"
    then show "add_task 100 t p = Some None" using r by (simp add: add_task_def tp_items_def MAX_QUEUE_SIZE_def) }
  { assume "length (tp_items p) < 100"
    then have lt: "tp_queue_size p < 100" using r by (simp add: tp_items_def)
    define p' where "p' = p\<lparr>tp_task_queue := (tp_task_queue p)[nat (tp_rear p) := t],
      tp_rear := (tp_rear p + 1) mod 100, tp_queue_size := tp_queue_size p + 1\<rparr>"
    have "add_task 100 t p = Some (Some p')"
      using lt r rr ok cm by (simp add: add_task_def MAX_QUEUE_SIZE_def p'_def)
    moreover have "tp_inv p'" using r lt by (simp add: tp_inv_def p'_def mod_simps add.assoc)
    moreover have "nat (tp_rear p) = (nat (tp_front p) + nat (tp_queue_size p)) mod 100"
      using r by (simp add: nat_mod_distrib nat_add_distrib)
    then have "tp_items p' = tp_items p @ [t]"
      using ring_put [of "nat (tp_queue_size p)" "tp_task_queue p" "nat (tp_front p)" t] lt r
      by (simp add: tp_items_def p'_def Suc_nat_eq_nat_zadd1 add.commute [of _ 1])
    ultimately show "\<exists>p'. add_task 100 t p = Some (Some p') \<and> tp_inv p' \<and> tp_items p' = tp_items p @ [t]" by blast }
  { assume "tp_items p = []"
    then have "nat (tp_queue_size p) = 0" by (metis length_ring_list list.size(3) tp_items_def)
    then show "worker_take p = Some None" using r by (simp add: worker_take_def worker_thread_def) }
  { fix x xs assume x: "tp_items p = x # xs"
    then obtain k where k: "nat (tp_queue_size p) = Suc k" by (cases "nat (tp_queue_size p)") (auto simp: tp_items_def ring_list_def)
    have hd: "x = tp_task_queue p ! nat (tp_front p)" "xs = ring_list (tp_task_queue p) (Suc (nat (tp_front p)) mod 100) k"
      using x ring_get [of "tp_task_queue p" "nat (tp_front p)" k] r by (simp_all add: tp_items_def k)
    define p' where "p' = p\<lparr>tp_front := (tp_front p + 1) mod 100, tp_queue_size := tp_queue_size p - 1\<rparr>"
    have "worker_take p = Some (Some (p', x))"
      using k ok cm r hd(1) by (simp add: worker_take_def worker_thread_def MAX_QUEUE_SIZE_def p'_def)
    moreover have "tp_inv p'" using r k by (simp add: tp_inv_def p'_def mod_simps)
    moreover have "nat (tp_front p') = Suc (nat (tp_front p)) mod 100" "nat (tp_queue_size p') = k"
      using r k by (simp_all add: p'_def nat_mod_distrib nat_add_distrib)
    ultimately show "\<exists>p'. worker_take p = Some (Some (p', x)) \<and> tp_inv p' \<and> tp_items p' = xs"
      using hd(2) by (intro exI [of _ p']) (simp add: tp_items_def, simp add: p'_def) }
qed

text \<open>C37: The queue of d8 and the task queue of d10 are first-in first-out queues between threads. After any
  interleaving of completed insertions and removals, what went in is what came out followed by what is
  in the queue, in the same order. An insertion waits exactly when 9 (of 10) or all 100 places are
  taken, a removal exactly when the queue is empty, and no operation leaves the array.\<close>
theorem thread_queues_fifo:
  assumes q: "queue_run queue_push queue_pop queue_start ins outs q"
    and p: "queue_run (add_task 100) worker_take (create_thread_pool raw) tins touts pool" and raw: "length raw = 100"
  shows "ins = outs @ tq_items q \<and> length (tq_items q) \<le> 9 \<and>
    (\<forall>v. queue_push v q \<noteq> None \<and> (queue_push v q = Some None \<longleftrightarrow> length (tq_items q) = 9)) \<and>
    queue_pop q \<noteq> None \<and> (queue_pop q = Some None \<longleftrightarrow> tq_items q = []) \<and>
    tins = touts @ tp_items pool \<and> length (tp_items pool) \<le> 100 \<and>
    (\<forall>t. add_task 100 t pool \<noteq> None \<and> (add_task 100 t pool = Some None \<longleftrightarrow> length (tp_items pool) = 100)) \<and>
    worker_take pool \<noteq> None \<and> (worker_take pool = Some None \<longleftrightarrow> tp_items pool = [])"
proof -
  have "tq_inv queue_start" "tq_items queue_start = []"
    by (simp_all add: tq_inv_def queue_start_def QUEUE_SIZE_def tq_items_def tq_len_def ring_list_def)
  from tq.run_fifo [OF q this] have iq: "tq_inv q" "ins = outs @ tq_items q" by auto
  have "tp_inv (create_thread_pool raw)" "tp_items (create_thread_pool raw) = []"
    using raw by (simp_all add: tp_inv_def create_thread_pool_def tp_items_def ring_list_def)
  from tp.run_fifo [OF p this] have ip: "tp_inv pool" "tins = touts @ tp_items pool" by auto
  show ?thesis
    using iq(2) ip(2) tq.items_cap [OF iq(1)] tp.items_cap [OF ip(1)] tq.push_waits [OF iq(1)] tq.pop_waits [OF iq(1)]
      tp.push_waits [OF ip(1)] tp.pop_waits [OF ip(1)]
    by blast
qed

lemma queue_push_start:
  "queue_push 7 queue_start = Some (Some (queue_start\<lparr>tq_data := (replicate 10 0)[0 := 7], tq_rear := 1\<rparr>))"
  by (simp add: queue_push_def queue_start_def QUEUE_SIZE_def c_mod_nonneg chk_def int_ok_def INT_MIN_def INT_MAX_def)

theorem thread_queues_fifo_witness:
  "[7] = [] @ tq_items (queue_start\<lparr>tq_data := (replicate 10 0)[0 := 7], tq_rear := 1\<rparr>) \<and>
   worker_take (create_thread_pool (replicate 100 \<lparr>tk_function = (), tk_arg = ()\<rparr>)) = Some None"
proof -
  let ?q = "queue_start\<lparr>tq_data := (replicate 10 0)[0 := 7], tq_rear := 1\<rparr>"
  let ?raw = "replicate 100 \<lparr>tk_function = (), tk_arg = ()\<rparr>"
  have q: "queue_run queue_push queue_pop queue_start ([] @ [7]) [] ?q"
    by (rule queue_run.put [where push = queue_push, OF queue_run.start queue_push_start])
  have p: "queue_run (add_task 100) worker_take (create_thread_pool ?raw) [] [] (create_thread_pool ?raw)"
    by (rule queue_run.start)
  have "tp_items (create_thread_pool ?raw) = []"
    by (simp add: create_thread_pool_def tp_items_def ring_list_def)
  with thread_queues_fifo [OF q p] show ?thesis by simp
qed

end
