(* ===== verification/Interleaving.thy ===== *)
theory Interleaving
  imports Main
begin

section \<open>Threads that run until nobody can go on\<close>

text \<open>
  The threads of a program as one step relation on its states. The interface \<open>ranked_system\<close> asks for an invariant of the
  states and a rank that every step lowers; from it follow the facts that make such a program end, however its threads
  are scheduled: runs are bounded by the rank, and every run can be continued to a state of rest.
\<close>

definition at_rest :: "('s \<Rightarrow> 's \<Rightarrow> bool) \<Rightarrow> 's \<Rightarrow> bool" where
  "at_rest step s \<longleftrightarrow> (\<forall>t. \<not> step s t)"

text \<open>
  A thread is a function that does its next atomic step, with \<open>None\<close> when it is blocked or has ended; the threads
  of a program take their steps in any order.
\<close>

definition interleave :: "('s \<Rightarrow> 's option) list \<Rightarrow> 's \<Rightarrow> 's \<Rightarrow> bool" where
  "interleave fs s t \<longleftrightarrow> (\<exists>f \<in> set fs. f s = Some t)"

lemma interleave_simps [simp]:
  "interleave [] s t \<longleftrightarrow> False"
  "interleave (f # fs) s t \<longleftrightarrow> f s = Some t \<or> interleave fs s t"
  by (simp_all add: interleave_def)

lemma at_rest_interleave: "at_rest (interleave fs) s \<longleftrightarrow> (\<forall>f \<in> set fs. f s = None)"
  by (metis at_rest_def interleave_def not_None_eq)

text \<open>One order of the steps: the list names the thread that runs next. It can be evaluated.\<close>

primrec run_schedule :: "('s \<Rightarrow> 's option) list \<Rightarrow> nat list \<Rightarrow> 's \<Rightarrow> 's option" where
  "run_schedule fs [] s = Some s"
| "run_schedule fs (i # is) s = (if i < length fs then Option.bind ((fs ! i) s) (run_schedule fs is) else None)"

lemma run_schedule_reaches: "run_schedule fs is s = Some t \<Longrightarrow> (interleave fs)\<^sup>*\<^sup>* s t"
proof (induction "is" arbitrary: s)
  case (Cons i "is")
  then obtain u where u: "i < length fs" "(fs ! i) s = Some u" "run_schedule fs is u = Some t"
    by (auto simp: bind_eq_Some_conv split: if_splits)
  then have "interleave fs s u" unfolding interleave_def by (metis nth_mem)
  with Cons.IH [OF u(3)] show ?case by (metis converse_rtranclp_into_rtranclp)
qed simp

lemma run_schedule_append: "run_schedule fs (is @ js) s = Option.bind (run_schedule fs is s) (run_schedule fs js)"
  by (induction "is" arbitrary: s) (auto split: Option.bind_split)

lemma run_schedule_repeat:
  assumes "i < length fs"
  shows "run_schedule fs (replicate (Suc k) i) s = Option.bind (run_schedule fs (replicate k i) s) (fs ! i)"
proof -
  have "run_schedule fs (replicate (Suc k) i) s = run_schedule fs (replicate k i @ [i]) s"
    by (simp only: replicate_append_same replicate_Suc)
  then show ?thesis using assms by (simp add: run_schedule_append split: Option.bind_split)
qed

text \<open>
  What is shown of a program: from \<open>s\<close> it takes at most \<open>n\<close> steps in whatever order, the end \<open>Q\<close> can be reached, and
  whenever nobody can go on, the end has been reached.
\<close>

definition terminates_within :: "nat \<Rightarrow> ('s \<Rightarrow> 's \<Rightarrow> bool) \<Rightarrow> ('s \<Rightarrow> bool) \<Rightarrow> 's \<Rightarrow> bool" where
  "terminates_within n step Q s \<longleftrightarrow>
     (\<forall>k t. (step ^^ k) s t \<longrightarrow> k \<le> n) \<and> (\<exists>t. step\<^sup>*\<^sup>* s t \<and> Q t) \<and> (\<forall>t. step\<^sup>*\<^sup>* s t \<and> at_rest step t \<longrightarrow> Q t)"

definition ends_within :: "nat \<Rightarrow> ('s \<Rightarrow> 's option) list \<Rightarrow> ('s \<Rightarrow> bool) \<Rightarrow> 's \<Rightarrow> bool" where
  "ends_within n fs Q s \<longleftrightarrow> terminates_within n (interleave fs) Q s"

locale ranked_system =
  fixes inv :: "'s \<Rightarrow> bool"
    and step :: "'s \<Rightarrow> 's \<Rightarrow> bool"
    and rank :: "'s \<Rightarrow> nat"
  assumes step_inv: "\<lbrakk>inv s; step s t\<rbrakk> \<Longrightarrow> inv t"
    and step_rank: "\<lbrakk>inv s; step s t\<rbrakk> \<Longrightarrow> rank t < rank s"
begin

lemma run_inv: "\<lbrakk>inv s; step\<^sup>*\<^sup>* s t\<rbrakk> \<Longrightarrow> inv t"
  by (rotate_tac, induction rule: rtranclp_induct) (auto intro: step_inv)

lemma run_bounded: "\<lbrakk>inv s; (step ^^ n) s t\<rbrakk> \<Longrightarrow> inv t \<and> n + rank t \<le> rank s"
proof (induction n arbitrary: t)
  case (Suc n)
  from Suc.prems(2) obtain u where u: "(step ^^ n) s u" "step u t" by auto
  with Suc.IH [OF Suc.prems(1) u(1)] step_inv [of u t] step_rank [of u t] show ?case by auto
qed simp

lemma reaches_rest: "inv s \<Longrightarrow> \<exists>t. step\<^sup>*\<^sup>* s t \<and> inv t \<and> at_rest step t"
proof (induction "rank s" arbitrary: s rule: less_induct)
  case less
  show ?case
  proof (cases "at_rest step s")
    case True
    with less.prems show ?thesis by blast
  next
    case False
    then obtain t where t: "step s t" by (auto simp: at_rest_def)
    from less.hyps [OF step_rank [OF less.prems t] step_inv [OF less.prems t]] obtain u
      where "step\<^sup>*\<^sup>* t u" "inv u" "at_rest step u" by blast
    with t show ?thesis by (blast intro: converse_rtranclp_into_rtranclp)
  qed
qed

text \<open>What holds at rest is reached from everywhere, within as many steps as the rank says.\<close>

lemma ends_with:
  assumes "\<And>t. inv t \<Longrightarrow> at_rest step t \<Longrightarrow> Q t" and "inv s"
  shows "terminates_within (rank s) step Q s"
  unfolding terminates_within_def
  using run_bounded [OF assms(2)] run_inv [OF assms(2)] reaches_rest [OF assms(2)] assms by (meson add_leD1)

end

text \<open>
  The same for threads given by their functions. \<open>others\<close> are steps that may be thrown in at any time and keep the invariant
  but not the rank, as a wake-up without a signal.
\<close>

locale ranked_threads =
  fixes inv :: "'s \<Rightarrow> bool"
    and threads :: "('s \<Rightarrow> 's option) list"
    and others :: "('s \<Rightarrow> 's option) list"
    and rank :: "'s \<Rightarrow> nat"
  assumes thread_inv: "\<lbrakk>f \<in> set threads; inv s; f s = Some t\<rbrakk> \<Longrightarrow> inv t"
    and thread_rank: "\<lbrakk>f \<in> set threads; inv s; f s = Some t\<rbrakk> \<Longrightarrow> rank t < rank s"
    and other_inv: "\<lbrakk>f \<in> set others; inv s; f s = Some t\<rbrakk> \<Longrightarrow> inv t"

sublocale ranked_threads \<subseteq> ranked_system inv "interleave threads" rank
  by unfold_locales (auto simp: interleave_def intro: thread_inv thread_rank)

context ranked_threads begin

lemma reachable_inv: "(interleave (threads @ others))\<^sup>*\<^sup>* s t \<Longrightarrow> inv s \<Longrightarrow> inv t"
proof (induction rule: rtranclp_induct)
  case (step t u)
  then obtain f where "f \<in> set threads \<or> f \<in> set others" "f t = Some u" by (auto simp: interleave_def)
  with step show ?case using thread_inv other_inv by blast
qed

lemma threads_end_with:
  assumes "\<And>t. inv t \<Longrightarrow> \<forall>f \<in> set threads. f t = None \<Longrightarrow> Q t" and "inv s"
  shows "ends_within (rank s) threads Q s"
  using ends_with [of Q s] assms by (simp add: ends_within_def at_rest_interleave)

end

end
