(* ===== verification/Producer_Consumer.thy ===== *)
theory Producer_Consumer
  imports OS_Prelude Interleaving
begin

section \<open>Producers and consumers: d12 consumer\_producer.c\<close>

text \<open>
  Every thread runs the same five steps per item: wait on its semaphore, lock the mutex, work on the
  buffer, unlock, post the other semaphore. The threads interleave arbitrarily; a step of a blocked
  thread has the value \<open>Some None\<close>, an undefined one (an access outside the buffer) is \<open>None\<close>.
\<close>

subsection \<open>The program\<close>

definition BUFFER_SIZE :: nat where "BUFFER_SIZE = 10"
definition PRODUCER_COUNT :: nat where "PRODUCER_COUNT = 3"
definition CONSUMER_COUNT :: nat where "CONSUMER_COUNT = 2"
definition thread_nums :: nat where "thread_nums = 5"

text \<open>The item of round \<open>i\<close> is \<open>i * rand\<close> with \<open>rand = (13 >> 3) * (7 << 5)\<close>.\<close>

definition rand_step :: int where "rand_step = (13 div 2 ^ 3) * (7 * 2 ^ 5)"

datatype pc = Sem_Wait | Mutex_Lock | Work | Mutex_Unlock | Sem_Post

record thread =
  th_producer :: bool
  th_pc :: pc
  th_round :: nat

record shared_buffer =
  sb_data :: "int list"
  sb_count :: int
  sb_mutex :: "nat option"
  sb_empty_slots :: nat
  sb_filled_slots :: nat

type_synonym system = "shared_buffer \<times> thread list"

definition initialize_buffer :: shared_buffer where
  "initialize_buffer = \<lparr>sb_data = replicate BUFFER_SIZE 0, sb_count = 0, sb_mutex = None,
     sb_empty_slots = BUFFER_SIZE, sb_filled_slots = 0\<rparr>"

text \<open>One step of \<open>product_item\<close> and of \<open>consume_item\<close>, by the position of the thread \<open>me\<close>.\<close>

definition product_item :: "nat \<Rightarrow> pc \<Rightarrow> int \<Rightarrow> shared_buffer \<Rightarrow> shared_buffer option option" where
  "product_item me at item buf = (case at of
     Sem_Wait \<Rightarrow> if sb_empty_slots buf = 0 then Some None
       else Some (Some (buf\<lparr>sb_empty_slots := sb_empty_slots buf - 1\<rparr>))
   | Mutex_Lock \<Rightarrow> if sb_mutex buf \<noteq> None then Some None else Some (Some (buf\<lparr>sb_mutex := Some me\<rparr>))
   | Work \<Rightarrow> do {
       d \<leftarrow> wri (sb_data buf) (sb_count buf) item;
       Some (Some (buf\<lparr>sb_data := d, sb_count := sb_count buf + 1\<rparr>)) }
   | Mutex_Unlock \<Rightarrow> Some (Some (buf\<lparr>sb_mutex := None\<rparr>))
   | Sem_Post \<Rightarrow> Some (Some (buf\<lparr>sb_filled_slots := sb_filled_slots buf + 1\<rparr>)))"

definition consume_item :: "nat \<Rightarrow> pc \<Rightarrow> shared_buffer \<Rightarrow> shared_buffer option option" where
  "consume_item me at buf = (case at of
     Sem_Wait \<Rightarrow> if sb_filled_slots buf = 0 then Some None
       else Some (Some (buf\<lparr>sb_filled_slots := sb_filled_slots buf - 1\<rparr>))
   | Mutex_Lock \<Rightarrow> if sb_mutex buf \<noteq> None then Some None else Some (Some (buf\<lparr>sb_mutex := Some me\<rparr>))
   | Work \<Rightarrow> do {
       item \<leftarrow> rdi (sb_data buf) (sb_count buf - 1);
       Some (Some (buf\<lparr>sb_count := sb_count buf - 1\<rparr>)) }
   | Mutex_Unlock \<Rightarrow> Some (Some (buf\<lparr>sb_mutex := None\<rparr>))
   | Sem_Post \<Rightarrow> Some (Some (buf\<lparr>sb_empty_slots := sb_empty_slots buf + 1\<rparr>)))"

text \<open>The loops of \<open>producer_thread\<close> and \<open>consumer_thread\<close>: after the last position the next round begins.\<close>

fun next_pc :: "pc \<Rightarrow> pc" where
  "next_pc Sem_Wait = Mutex_Lock"
| "next_pc Mutex_Lock = Work"
| "next_pc Work = Mutex_Unlock"
| "next_pc Mutex_Unlock = Sem_Post"
| "next_pc Sem_Post = Sem_Wait"

definition advance :: "thread \<Rightarrow> thread" where
  "advance th = th\<lparr>th_pc := next_pc (th_pc th),
     th_round := (if th_pc th = Sem_Post then th_round th + 1 else th_round th)\<rparr>"

definition producer_thread :: "nat \<Rightarrow> thread \<Rightarrow> shared_buffer \<Rightarrow> shared_buffer option option" where
  "producer_thread me th buf =
     (if th_round th < thread_nums then product_item me (th_pc th) (int (th_round th) * rand_step) buf else Some None)"

definition consumer_thread :: "nat \<Rightarrow> thread \<Rightarrow> shared_buffer \<Rightarrow> shared_buffer option option" where
  "consumer_thread me th buf =
     (if th_round th < thread_nums then consume_item me (th_pc th) buf else Some None)"

definition thread_step :: "nat \<Rightarrow> system \<Rightarrow> system option option" where
  "thread_step me s = (case s of (buf, ths) \<Rightarrow> do {
     th \<leftarrow> rd ths me;
     r \<leftarrow> (if th_producer th then producer_thread me th buf else consumer_thread me th buf);
     (case r of
        None \<Rightarrow> Some None
      | Some buf' \<Rightarrow> Some (Some (buf', ths[me := advance th]))) })"

definition pc_main :: system where
  "pc_main = (initialize_buffer,
     replicate PRODUCER_COUNT \<lparr>th_producer = True, th_pc = Sem_Wait, th_round = 0\<rparr> @
     replicate CONSUMER_COUNT \<lparr>th_producer = False, th_pc = Sem_Wait, th_round = 0\<rparr>)"

inductive pc_reach :: "system \<Rightarrow> bool" where
  start: "pc_reach pc_main"
| step: "\<lbrakk>pc_reach s; me < length (snd s); thread_step me s = Some (Some s')\<rbrakk> \<Longrightarrow> pc_reach s'"

subsection \<open>Counting over the threads\<close>

definition total_of :: "(thread \<Rightarrow> int) \<Rightarrow> thread list \<Rightarrow> int" where
  "total_of w ths = sum_list (map w ths)"

lemma total_of_update:
  "i < length ths \<Longrightarrow> total_of w (ths[i := th]) = total_of w ths + w th - w (ths ! i)"
proof (induction ths arbitrary: i)
  case (Cons t ths)
  then show ?case by (cases i) (auto simp: total_of_def)
qed simp

lemma total_of_nonneg: "(\<And>th. 0 \<le> w th) \<Longrightarrow> 0 \<le> total_of w ths"
  unfolding total_of_def by (rule sum_list_nonneg) auto

lemma total_of_ge:
  assumes "\<And>th. 0 \<le> w th" and "i < length ths"
  shows "w (ths ! i) \<le> total_of w ths"
  using assms(2)
proof (induction ths arbitrary: i)
  case (Cons t ths)
  have "0 \<le> total_of w ths" by (rule total_of_nonneg) (rule assms(1))
  with Cons assms(1) [of t] show ?case by (cases i) (force simp: total_of_def)+
qed simp

lemma total_of_eq: "(\<And>th. th \<in> set ths \<Longrightarrow> w th = v th) \<Longrightarrow> total_of w ths = total_of v ths"
  unfolding total_of_def by (metis map_cong)

text \<open>Threads that hold a slot but have not yet used it, and those that have used it but not posted.\<close>

definition claim :: "bool \<Rightarrow> thread \<Rightarrow> int" where
  "claim kind th = of_bool (th_producer th = kind \<and> th_pc th \<in> {Mutex_Lock, Work})"

definition unposted :: "bool \<Rightarrow> thread \<Rightarrow> int" where
  "unposted kind th = of_bool (th_producer th = kind \<and> th_pc th \<in> {Mutex_Unlock, Sem_Post})"

text \<open>Items a thread of a kind has put into or taken out of the buffer.\<close>

definition moved_items :: "bool \<Rightarrow> thread \<Rightarrow> int" where
  "moved_items kind th = (if th_producer th = kind then int (th_round th) else 0) + unposted kind th"

definition steps_left :: "thread \<Rightarrow> int" where
  "steps_left th = 5 * (5 - int (th_round th)) - (case th_pc th of
     Sem_Wait \<Rightarrow> 0 | Mutex_Lock \<Rightarrow> 1 | Work \<Rightarrow> 2 | Mutex_Unlock \<Rightarrow> 3 | Sem_Post \<Rightarrow> 4)"

definition pc_inv :: "system \<Rightarrow> bool" where
  "pc_inv s = (case s of (buf, ths) \<Rightarrow>
     map th_producer ths = [True, True, True, False, False] \<and> length (sb_data buf) = 10 \<and>
     (\<forall>i < length ths. th_round (ths ! i) \<le> 5 \<and> (th_pc (ths ! i) \<noteq> Sem_Wait \<longrightarrow> th_round (ths ! i) < 5)) \<and>
     (\<forall>i < length ths. th_pc (ths ! i) \<in> {Work, Mutex_Unlock} \<longleftrightarrow> sb_mutex buf = Some i) \<and>
     (\<forall>i. sb_mutex buf = Some i \<longrightarrow> i < length ths) \<and>
     sb_count buf + total_of (claim True) ths + total_of (unposted False) ths + int (sb_empty_slots buf) = 10 \<and>
     sb_count buf = int (sb_filled_slots buf) + total_of (claim False) ths + total_of (unposted True) ths \<and>
     total_of (moved_items True) ths = sb_count buf + total_of (moved_items False) ths)"

lemmas weights = claim_def unposted_def moved_items_def

lemma weights_nonneg: "0 \<le> claim k th" "0 \<le> unposted k th" "0 \<le> moved_items k th"
  by (simp_all add: weights)

lemma pc_inv_start: "pc_inv pc_main"
  by (auto simp: pc_inv_def pc_main_def initialize_buffer_def PRODUCER_COUNT_def CONSUMER_COUNT_def
      BUFFER_SIZE_def total_of_def weights numeral_eq_Suc less_Suc_eq nth_Cons')

text \<open>The buffer never holds fewer items than are claimed for removal, nor more than there is room for.\<close>

lemma pc_inv_count:
  assumes "pc_inv (buf, ths)"
  shows "0 \<le> sb_count buf" and "sb_count buf \<le> 10" and "length (sb_data buf) = 10"
    and "\<lbrakk>i < length ths; claim True (ths ! i) = 1\<rbrakk> \<Longrightarrow> sb_count buf \<le> 9"
    and "\<lbrakk>i < length ths; claim False (ths ! i) = 1\<rbrakk> \<Longrightarrow> 1 \<le> sb_count buf"
proof -
  have eq: "sb_count buf + total_of (claim True) ths + total_of (unposted False) ths + int (sb_empty_slots buf) = 10"
    "sb_count buf = int (sb_filled_slots buf) + total_of (claim False) ths + total_of (unposted True) ths"
    using assms by (simp_all add: pc_inv_def)
  have nn: "0 \<le> total_of (claim k) ths" "0 \<le> total_of (unposted k) ths" for k
    by (rule total_of_nonneg, rule weights_nonneg)+
  show "0 \<le> sb_count buf" "sb_count buf \<le> 10" using eq nn(1) [of True] nn(1) [of False] nn(2) [of True] nn(2) [of False] by linarith+
  show "length (sb_data buf) = 10" using assms by (simp add: pc_inv_def)
  have ge: "i < length ths \<Longrightarrow> claim k (ths ! i) \<le> total_of (claim k) ths" for k
    by (rule total_of_ge) (rule weights_nonneg)
  show "\<lbrakk>i < length ths; claim True (ths ! i) = 1\<rbrakk> \<Longrightarrow> sb_count buf \<le> 9"
    using ge [of True] eq(1) nn(2) [of False] by linarith
  show "\<lbrakk>i < length ths; claim False (ths ! i) = 1\<rbrakk> \<Longrightarrow> 1 \<le> sb_count buf"
    using ge [of False] eq(2) nn(2) [of True] by linarith
qed

text \<open>What a step changes: one thread advances, and the buffer by \<open>product_item\<close> or \<open>consume_item\<close>.\<close>

lemma advance_sel [simp]:
  "th_producer (advance th) = th_producer th" "th_pc (advance th) = next_pc (th_pc th)"
  "th_round (advance th) = (if th_pc th = Sem_Post then Suc (th_round th) else th_round th)"
  by (simp_all add: advance_def)

lemma pc_inv_step:
  assumes inv: "pc_inv (buf, ths)" and me: "me < length ths" and th: "th = ths ! me" and round: "th_round th < 5"
    and mutex: "sb_mutex buf' = (case th_pc th of Mutex_Lock \<Rightarrow> Some me | Mutex_Unlock \<Rightarrow> None | _ \<Rightarrow> sb_mutex buf)"
    and free: "th_pc th = Mutex_Lock \<Longrightarrow> sb_mutex buf = None"
    and data: "length (sb_data buf') = length (sb_data buf)"
    and empties: "int (sb_empty_slots buf') = int (sb_empty_slots buf) +
        (if th_producer th \<and> th_pc th = Sem_Wait then -1 else if \<not> th_producer th \<and> th_pc th = Sem_Post then 1 else 0)"
    and filled: "int (sb_filled_slots buf') = int (sb_filled_slots buf) +
        (if \<not> th_producer th \<and> th_pc th = Sem_Wait then -1 else if th_producer th \<and> th_pc th = Sem_Post then 1 else 0)"
    and count: "sb_count buf' = sb_count buf +
        (if th_pc th = Work then (if th_producer th then 1 else -1) else 0)"
  shows "pc_inv (buf', ths[me := advance th])"
proof -
  let ?ths = "ths[me := advance th]"
  have kinds: "map th_producer ?ths = map th_producer ths"
    using th by (simp add: map_update) (metis list_update_id me nth_map)
  have upd: "total_of w ?ths = total_of w ths + w (advance th) - w th" for w
    using total_of_update [OF me] th by simp
  have old: "\<forall>i < length ths. th_round (ths ! i) \<le> 5 \<and> (th_pc (ths ! i) \<noteq> Sem_Wait \<longrightarrow> th_round (ths ! i) < 5)"
    "\<forall>i < length ths. th_pc (ths ! i) \<in> {Work, Mutex_Unlock} \<longleftrightarrow> sb_mutex buf = Some i"
    "\<forall>i. sb_mutex buf = Some i \<longrightarrow> i < length ths"
    using inv by (simp_all add: pc_inv_def)
  have "th_round (?ths ! i) \<le> 5 \<and> (th_pc (?ths ! i) \<noteq> Sem_Wait \<longrightarrow> th_round (?ths ! i) < 5)" if i: "i < length ths" for i
  proof (cases "i = me")
    case True
    then show ?thesis using round me by (cases "th_pc th") simp_all
  next
    case False
    then show ?thesis using old(1) i by simp
  qed
  moreover have "th_pc (?ths ! i) \<in> {Work, Mutex_Unlock} \<longleftrightarrow> sb_mutex buf' = Some i" if i: "i < length ths" for i
  proof (cases "i = me")
    case True
    then show ?thesis using old(2) me th mutex by (cases "th_pc th") auto
  next
    case False
    have "sb_mutex buf = Some me" if "th_pc th = Mutex_Unlock" using old(2) me th that by blast
    then show ?thesis using False old(2) i me th mutex free by (cases "th_pc th") auto
  qed
  moreover have "\<forall>i. sb_mutex buf' = Some i \<longrightarrow> i < length ?ths"
    using old(3) me mutex by (auto split: pc.splits)
  moreover have "sb_count buf' + total_of (claim True) ?ths + total_of (unposted False) ?ths + int (sb_empty_slots buf') = 10 \<and>
     sb_count buf' = int (sb_filled_slots buf') + total_of (claim False) ?ths + total_of (unposted True) ?ths \<and>
     total_of (moved_items True) ?ths = sb_count buf' + total_of (moved_items False) ?ths"
    using inv count empties filled unfolding upd
    by (cases "th_producer th"; cases "th_pc th") (simp_all add: pc_inv_def weights)
  ultimately show ?thesis using inv kinds data by (simp add: pc_inv_def)
qed

text \<open>One step: it is never undefined, keeps the invariant, and brings the thread nearer to its end.\<close>

lemma thread_step_ok:
  assumes inv: "pc_inv (buf, ths)" and me: "me < length ths"
  shows "\<exists>r. thread_step me (buf, ths) = Some r \<and> (case r of
      None \<Rightarrow> th_round (ths ! me) = 5 \<or>
        th_pc (ths ! me) = Sem_Wait \<and> (if th_producer (ths ! me) then sb_empty_slots buf else sb_filled_slots buf) = 0 \<or>
        th_pc (ths ! me) = Mutex_Lock \<and> sb_mutex buf \<noteq> None
    | Some s' \<Rightarrow> pc_inv s' \<and> total_of steps_left (snd s') < total_of steps_left ths)"
proof -
  define th where "th = ths ! me"
  have le: "th_round th \<le> 5" using inv me by (simp add: pc_inv_def th_def)
  show ?thesis
  proof (cases "th_round th < 5")
    case False
    with le me show ?thesis
      by (simp add: thread_step_def producer_thread_def consumer_thread_def thread_nums_def flip: th_def)
  next
    case round: True
    note count = pc_inv_count [OF inv]
    have work: "sb_count buf \<le> 9" if "th_pc th = Work" "th_producer th"
      using count(4) [OF me] that by (simp add: claim_def flip: th_def)
    have work': "1 \<le> sb_count buf" if "th_pc th = Work" "\<not> th_producer th"
      using count(5) [OF me] that by (simp add: claim_def flip: th_def)
    have idx: "nat (sb_count buf) < 10" if "th_pc th = Work" "th_producer th" using work [OF that] by simp
    have idx': "nat (sb_count buf - 1) < 10" if "th_pc th = Work" "\<not> th_producer th" using count(2) by simp
    have "\<exists>r. (if th_producer th then producer_thread me th buf else consumer_thread me th buf) = Some r"
      using round work idx work' idx' count(1,3)
      by (cases "th_pc th"; cases "th_producer th")
        (simp_all add: producer_thread_def consumer_thread_def thread_nums_def product_item_def consume_item_def)
    then obtain r where r: "(if th_producer th then producer_thread me th buf else consumer_thread me th buf) = Some r" ..
    show ?thesis
    proof (cases r)
      case None
      with r me round show ?thesis
        by (cases "th_pc th"; cases "th_producer th")
          (simp_all add: thread_step_def producer_thread_def consumer_thread_def thread_nums_def product_item_def
            consume_item_def bind_eq_Some_conv split: if_splits flip: th_def)
    next
      case (Some buf')
      have step: "thread_step me (buf, ths) = Some (Some (buf', ths[me := advance th]))"
        using r Some me by (simp add: thread_step_def flip: th_def)
      have left: "steps_left (advance th) < steps_left th"
        by (cases "th_pc th") (simp_all add: steps_left_def)
      have "pc_inv (buf', ths[me := advance th])"
        by (rule pc_inv_step [OF inv me th_def round])
          (use r Some round in \<open>cases "th_pc th"; cases "th_producer th";
            auto simp: producer_thread_def consumer_thread_def thread_nums_def product_item_def
              consume_item_def bind_eq_Some_conv wri_def wr_def of_nat_diff split: if_splits\<close>)+
      with step left me show ?thesis
        using total_of_update [OF me, of steps_left] by (simp add: th_def)
    qed
  qed
qed

lemma pc_reach_inv: "pc_reach s \<Longrightarrow> pc_inv s \<and> total_of steps_left (snd s) \<le> 125"
proof (induction rule: pc_reach.induct)
  case start
  have "total_of steps_left (snd pc_main) = 125"
    by (simp add: pc_main_def PRODUCER_COUNT_def CONSUMER_COUNT_def total_of_def steps_left_def numeral_eq_Suc)
  then show ?case using pc_inv_start by simp
next
  case (step s me s')
  obtain buf ths where s: "s = (buf, ths)" by (cases s)
  from thread_step_ok [of buf ths me] step show ?case by (auto simp: s)
qed

lemma pc_inv_rounds:
  assumes "pc_inv (buf, ths)" and "th \<in> set ths"
  shows "th_round th \<le> 5 \<and> (th_pc th \<noteq> Sem_Wait \<longrightarrow> th_round th < 5)"
proof -
  have "\<forall>i < length ths. th_round (ths ! i) \<le> 5 \<and> (th_pc (ths ! i) \<noteq> Sem_Wait \<longrightarrow> th_round (ths ! i) < 5)"
    using assms(1) by (simp add: pc_inv_def)
  with assms(2) show ?thesis unfolding in_set_conv_nth by blast
qed

lemma steps_left_nonneg: "pc_inv (buf, ths) \<Longrightarrow> th \<in> set ths \<Longrightarrow> 0 \<le> steps_left th"
  by (cases "th_pc th") (fastforce simp: pc_inv_def in_set_conv_nth steps_left_def)+

text \<open>While some thread has rounds to go, some thread can move.\<close>

lemma pc_progress:
  assumes inv: "pc_inv (buf, ths)" and undone: "th \<in> set ths" "th_round th < 5"
  shows "\<exists>me s'. me < length ths \<and> thread_step me (buf, ths) = Some (Some s')"
proof (rule ccontr)
  assume "\<nexists>me s'. me < length ths \<and> thread_step me (buf, ths) = Some (Some s')"
  then have blocked: "th_round (ths ! i) = 5 \<or>
        th_pc (ths ! i) = Sem_Wait \<and> (if th_producer (ths ! i) then sb_empty_slots buf else sb_filled_slots buf) = 0 \<or>
        th_pc (ths ! i) = Mutex_Lock \<and> sb_mutex buf \<noteq> None" if "i < length ths" for i
    using thread_step_ok [OF inv that] that by (auto split: option.splits)
  have five: "th_pc (ths ! i) = Sem_Wait" if "i < length ths" "th_round (ths ! i) = 5" for i
    using inv that by (auto simp: pc_inv_def)
  have no_mutex: "sb_mutex buf = None"
  proof (rule ccontr)
    assume "sb_mutex buf \<noteq> None"
    then obtain i where i: "i < length ths" "th_pc (ths ! i) \<in> {Work, Mutex_Unlock}" using inv by (auto simp: pc_inv_def)
    then show False using blocked [OF i(1)] five [OF i(1)] by auto
  qed
  have wait: "th_pc (ths ! i) = Sem_Wait" if "i < length ths" for i
    using blocked [OF that] five [OF that] no_mutex by auto
  have zero: "total_of (claim k) ths = 0" "total_of (unposted k) ths = 0" for k
  proof -
    have "claim k th = 0" "unposted k th = 0" if "th \<in> set ths" for th
      using that wait by (auto simp: in_set_conv_nth weights)
    then show "total_of (claim k) ths = 0" "total_of (unposted k) ths = 0"
      using total_of_eq [of ths "claim k" "\<lambda>_. 0"] total_of_eq [of ths "unposted k" "\<lambda>_. 0"]
      by (simp_all add: total_of_def sum_list_0)
  qed
  have books: "sb_count buf + int (sb_empty_slots buf) = 10" "sb_count buf = int (sb_filled_slots buf)"
    "total_of (moved_items True) ths = sb_count buf + total_of (moved_items False) ths"
    and kinds: "map th_producer ths = [True, True, True, False, False]"
    using inv zero by (simp_all add: pc_inv_def)
  have mv: "moved_items k th = (if th_producer th = k then int (th_round th) else 0)" if "th \<in> set ths" for k th
    using that wait by (auto simp: in_set_conv_nth moved_items_def unposted_def)
  obtain a b c d e where ths: "ths = [a, b, c, d, e]" "th_producer a" "th_producer b" "th_producer c"
    "\<not> th_producer d" "\<not> th_producer e" using kinds by (auto simp: map_eq_Cons_conv)
  have sums: "int (th_round a) + int (th_round b) + int (th_round c) =
      sb_count buf + int (th_round d) + int (th_round e)"
    using books(3) ths mv [of _ True] mv [of _ False] by (simp add: total_of_def)
  have le: "th_round a \<le> 5" "th_round b \<le> 5" "th_round c \<le> 5" "th_round d \<le> 5" "th_round e \<le> 5"
    using inv by (auto simp: pc_inv_def ths less_Suc_eq)
  have prod: "sb_empty_slots buf = 0 \<or> th_round a = 5 \<and> th_round b = 5 \<and> th_round c = 5"
    using blocked [of 0] blocked [of 1] blocked [of 2] wait no_mutex ths by auto
  have cons: "sb_filled_slots buf = 0 \<or> th_round d = 5 \<and> th_round e = 5"
    using blocked [of 3] blocked [of 4] wait no_mutex ths by (auto simp: numeral_eq_Suc)
  have "\<not> (th_round a = 5 \<and> th_round b = 5 \<and> th_round c = 5 \<and> th_round d = 5 \<and> th_round e = 5)"
    using undone ths by auto
  with prod cons sums books le show False by linarith
qed

text \<open>At most one thread is inside the mutex, threads that are not through can go on, and at the end five items are left.\<close>

lemma pc_exclusive:
  assumes "pc_inv (buf, ths)" "i < length ths" "j < length ths" "th_pc (ths ! i) \<in> {Work, Mutex_Unlock}"
    "th_pc (ths ! j) \<in> {Work, Mutex_Unlock}"
  shows "i = j"
proof -
  have "sb_mutex buf = Some i" "sb_mutex buf = Some j" using assms by (auto simp: pc_inv_def)
  then show ?thesis by simp
qed

lemma pc_final_count:
  assumes inv: "pc_inv (buf, ths)" and fin: "\<forall>th \<in> set ths. th_round th = 5"
  shows "sb_count buf = 5"
proof -
  have kinds: "map th_producer ths = [True, True, True, False, False]" and
    books: "total_of (moved_items True) ths = sb_count buf + total_of (moved_items False) ths"
    using inv by (simp_all add: pc_inv_def)
  have "th_pc th = Sem_Wait" if "th \<in> set ths" for th
    using pc_inv_rounds [OF inv that] fin that by auto
  then have mv: "moved_items k th = (if th_producer th = k then 5 else 0)" if "th \<in> set ths" for k th
    using that fin by (simp add: moved_items_def unposted_def)
  obtain a b c d e where "ths = [a, b, c, d, e]" "th_producer a" "th_producer b" "th_producer c"
    "\<not> th_producer d" "\<not> th_producer e" using kinds by (auto simp: map_eq_Cons_conv)
  with books mv [of _ True] mv [of _ False] show ?thesis by (simp add: total_of_def)
qed

lemma pc_moves:
  assumes inv: "pc_inv (buf, ths)" and "\<not> (\<forall>th \<in> set ths. th_round th = 5)"
  shows "\<exists>i s'. i < length ths \<and> thread_step i (buf, ths) = Some (Some s')"
proof -
  from assms(2) obtain th where th: "th \<in> set ths" "th_round th \<noteq> 5" by blast
  with pc_inv_rounds [OF inv th(1)] have "th_round th < 5" by linarith
  from pc_progress [OF inv th(1) this] show ?thesis .
qed

text \<open>The step relation of the five threads, ranked by the steps they have left.\<close>

definition pc_step :: "system \<Rightarrow> system \<Rightarrow> bool" where
  "pc_step s t \<longleftrightarrow> (\<exists>me < length (snd s). thread_step me s = Some (Some t))"

definition pc_rank :: "system \<Rightarrow> nat" where
  "pc_rank s = nat (total_of steps_left (snd s))"

lemma pc_step_inv:
  assumes "pc_inv s" and "pc_step s t"
  shows "pc_inv t \<and> pc_rank t < pc_rank s"
proof -
  obtain buf ths where s: "s = (buf, ths)" by (cases s)
  from assms(2) obtain me where me: "me < length ths" "thread_step me (buf, ths) = Some (Some t)" by (auto simp: pc_step_def s)
  with thread_step_ok [of buf ths me] assms(1) have "pc_inv t" and lt: "total_of steps_left (snd t) < total_of steps_left ths"
    by (auto simp: s)
  moreover have "0 \<le> total_of steps_left (snd t)"
    unfolding total_of_def using \<open>pc_inv t\<close> by (cases t) (auto intro!: sum_list_nonneg steps_left_nonneg)
  ultimately show ?thesis by (simp add: pc_rank_def s)
qed

interpretation pc: ranked_system pc_inv pc_step pc_rank
  by unfold_locales (auto dest: pc_step_inv)

definition pc_over :: "system \<Rightarrow> bool" where
  "pc_over s \<longleftrightarrow> (\<forall>th \<in> set (snd s). th_round th = 5) \<and> sb_count (fst s) = 5"

lemma pc_rest_over:
  assumes inv: "pc_inv s" and rest: "at_rest pc_step s"
  shows "pc_over s"
proof -
  obtain buf ths where s: "s = (buf, ths)" by (cases s)
  have "\<forall>th \<in> set ths. th_round th = 5" using pc_moves [of buf ths] inv rest by (auto simp: s at_rest_def pc_step_def)
  with pc_final_count [of buf ths] inv show ?thesis by (simp add: s pc_over_def)
qed

text \<open>C38: However the three producers and two consumers interleave, no step is undefined or leaves the buffer, at most one
  thread is inside the mutex, and nobody deadlocks: the program takes at most 125 steps in all, and comes to rest only
  when all threads have done their five rounds, with 5 items left in the buffer.\<close>
theorem producers_consumers_finish:
  assumes reach: "pc_reach (buf, ths)"
  shows "0 \<le> sb_count buf \<and> sb_count buf \<le> 10 \<and>
    (\<forall>i j. i < length ths \<and> j < length ths \<and> th_pc (ths ! i) \<in> {Work, Mutex_Unlock} \<and>
       th_pc (ths ! j) \<in> {Work, Mutex_Unlock} \<longrightarrow> i = j) \<and>
    (\<forall>i < length ths. thread_step i (buf, ths) \<noteq> None) \<and>
    pc_rank (buf, ths) \<le> 125 \<and> terminates_within (pc_rank (buf, ths)) pc_step pc_over (buf, ths)"
proof -
  from pc_reach_inv [OF reach] have inv: "pc_inv (buf, ths)" and le: "pc_rank (buf, ths) \<le> 125" by (auto simp: pc_rank_def)
  have one: "\<forall>i j. i < length ths \<and> j < length ths \<and> th_pc (ths ! i) \<in> {Work, Mutex_Unlock} \<and>
       th_pc (ths ! j) \<in> {Work, Mutex_Unlock} \<longrightarrow> i = j" using pc_exclusive [OF inv] by blast
  have each: "\<forall>i < length ths. thread_step i (buf, ths) \<noteq> None" using thread_step_ok [OF inv] by force
  have ends: "terminates_within (pc_rank (buf, ths)) pc_step pc_over (buf, ths)"
    by (rule pc.ends_with [OF _ inv]) (rule pc_rest_over)
  show ?thesis by (intro conjI) (fact pc_inv_count [OF inv] one each le ends)+
qed

theorem producers_consumers_finish_witness:
  "terminates_within 125 pc_step pc_over pc_main"
proof -
  have "pc_rank pc_main = 125"
    by (simp add: pc_rank_def pc_main_def PRODUCER_COUNT_def CONSUMER_COUNT_def total_of_def steps_left_def numeral_eq_Suc)
  moreover have "pc_reach (fst pc_main, snd pc_main)" by (simp add: pc_reach.start)
  note producers_consumers_finish [OF this]
  ultimately show ?thesis by simp
qed

end
