(* ===== verification/Locking.thy ===== *)
theory Locking
  imports OS_Prelude
begin

section \<open>Locking: d13 demo\_deadlock.c, d11 demo\_race\_condition.c\<close>

text \<open>
  Five philosophers each lock two of five mutexes in an order that depends on their parity, and two
  threads increment a counter with and without a mutex. As for the producers and consumers, threads
  interleave arbitrarily and \<open>Some None\<close> is a blocked step.
\<close>

subsection \<open>The philosophers\<close>

definition NUM_PHILOSOPHERS :: nat where "NUM_PHILOSOPHERS = 5"

definition LEFT :: "nat \<Rightarrow> nat" where
  "LEFT x = (x + NUM_PHILOSOPHERS - 1) mod NUM_PHILOSOPHERS"

definition RIGHT :: "nat \<Rightarrow> nat" where
  "RIGHT x = (x + 1) mod NUM_PHILOSOPHERS"

definition first_fork :: "nat \<Rightarrow> nat" where
  "first_fork i = (if i mod 2 = 0 then LEFT i else RIGHT i)"

definition second_fork :: "nat \<Rightarrow> nat" where
  "second_fork i = (if i mod 2 = 0 then RIGHT i else LEFT i)"

datatype activity = Thinking | Has_First | Eating | Has_Second

record table =
  tb_forks :: "nat option list"
  tb_activity :: "activity list"

definition philosopher_activity :: "nat \<Rightarrow> table \<Rightarrow> table option option" where
  "philosopher_activity i t = do {
     a \<leftarrow> rd (tb_activity t) i;
     let lock = (\<lambda>f a'. do {
       owner \<leftarrow> rd (tb_forks t) f;
       if owner \<noteq> None then Some None
       else do {
         fs \<leftarrow> wr (tb_forks t) f (Some i);
         Some (Some (t\<lparr>tb_forks := fs, tb_activity := (tb_activity t)[i := a']\<rparr>)) } });
     let unlock = (\<lambda>f a'. do {
       fs \<leftarrow> wr (tb_forks t) f None;
       Some (Some (t\<lparr>tb_forks := fs, tb_activity := (tb_activity t)[i := a']\<rparr>)) });
     (case a of
        Thinking \<Rightarrow> lock (first_fork i) Has_First
      | Has_First \<Rightarrow> lock (second_fork i) Eating
      | Eating \<Rightarrow> unlock (first_fork i) Has_Second
      | Has_Second \<Rightarrow> unlock (second_fork i) Thinking) }"

definition dp_main :: table where
  "dp_main = \<lparr>tb_forks = replicate NUM_PHILOSOPHERS None, tb_activity = replicate NUM_PHILOSOPHERS Thinking\<rparr>"

inductive dp_reach :: "table \<Rightarrow> bool" where
  start: "dp_reach dp_main"
| step: "\<lbrakk>dp_reach t; i < NUM_PHILOSOPHERS; philosopher_activity i t = Some (Some t')\<rbrakk> \<Longrightarrow> dp_reach t'"

text \<open>Who holds a fork, by the position of the philosophers.\<close>

definition holds_fork :: "table \<Rightarrow> nat \<Rightarrow> nat \<Rightarrow> bool" where
  "holds_fork t i f \<longleftrightarrow> i < 5 \<and>
     (f = first_fork i \<and> tb_activity t ! i \<in> {Has_First, Eating} \<or>
      f = second_fork i \<and> tb_activity t ! i \<in> {Eating, Has_Second})"

definition dp_inv :: "table \<Rightarrow> bool" where
  "dp_inv t \<longleftrightarrow> length (tb_forks t) = 5 \<and> length (tb_activity t) = 5 \<and>
     (\<forall>f < 5. \<forall>i. tb_forks t ! f = Some i \<longleftrightarrow> holds_fork t i f)"

lemma forks: "first_fork i < 5" "second_fork i < 5"
  by (simp_all add: first_fork_def second_fork_def LEFT_def RIGHT_def NUM_PHILOSOPHERS_def)

lemma less_5: "(i :: nat) < 5 \<longleftrightarrow> i = 0 \<or> i = 1 \<or> i = 2 \<or> i = 3 \<or> i = 4"
  by auto

lemma fork_table:
  "first_fork 0 = 4" "second_fork 0 = 1" "first_fork (Suc 0) = 2" "second_fork (Suc 0) = 0" "first_fork 2 = 1" "second_fork 2 = 3"
  "first_fork 3 = 4" "second_fork 3 = 2" "first_fork 4 = 3" "second_fork 4 = 0"
  by (simp_all add: first_fork_def second_fork_def LEFT_def RIGHT_def NUM_PHILOSOPHERS_def)

lemma forks_differ: "i < 5 \<Longrightarrow> first_fork i \<noteq> second_fork i"
  unfolding less_5 by (auto simp: fork_table)

lemma holds_unique:
  assumes "dp_inv t" and "holds_fork t i f" and "holds_fork t j f"
  shows "i = j"
proof -
  have "f < 5" using assms(2) forks by (auto simp: holds_fork_def)
  with assms have "tb_forks t ! f = Some i" "tb_forks t ! f = Some j" by (auto simp: dp_inv_def)
  then show ?thesis by simp
qed

lemma dp_inv_lock:
  assumes inv: "dp_inv t" and i: "i < 5" and free: "tb_forks t ! f = None" and f: "f < 5"
    and pos: "tb_activity t ! i = Thinking \<and> f = first_fork i \<and> a = Has_First \<or>
      tb_activity t ! i = Has_First \<and> f = second_fork i \<and> a = Eating"
  shows "dp_inv (t\<lparr>tb_forks := (tb_forks t)[f := Some i], tb_activity := (tb_activity t)[i := a]\<rparr>)"
proof -
  let ?t = "t\<lparr>tb_forks := (tb_forks t)[f := Some i], tb_activity := (tb_activity t)[i := a]\<rparr>"
  have len: "length (tb_forks t) = 5" "length (tb_activity t) = 5" using inv by (simp_all add: dp_inv_def)
  have "holds_fork ?t j g \<longleftrightarrow> (if g = f then j = i else holds_fork t j g)" for j g
  proof (cases "j = i")
    case True
    have "\<not> holds_fork t i f" using inv f free by (auto simp: dp_inv_def)
    with True pos len i forks_differ [OF i] show ?thesis by (auto simp: holds_fork_def)
  next
    case False
    have "\<not> holds_fork t j f" using inv f free by (auto simp: dp_inv_def)
    with False show ?thesis by (auto simp: holds_fork_def)
  qed
  with inv len f show ?thesis by (auto simp: dp_inv_def nth_list_update)
qed

lemma dp_inv_unlock:
  assumes inv: "dp_inv t" and i: "i < 5"
    and pos: "tb_activity t ! i = Eating \<and> f = first_fork i \<and> a = Has_Second \<or>
      tb_activity t ! i = Has_Second \<and> f = second_fork i \<and> a = Thinking"
  shows "dp_inv (t\<lparr>tb_forks := (tb_forks t)[f := None], tb_activity := (tb_activity t)[i := a]\<rparr>)"
proof -
  let ?t = "t\<lparr>tb_forks := (tb_forks t)[f := None], tb_activity := (tb_activity t)[i := a]\<rparr>"
  have len: "length (tb_forks t) = 5" "length (tb_activity t) = 5" using inv by (simp_all add: dp_inv_def)
  have f: "f < 5" using pos forks by auto
  have hi: "holds_fork t i f" using pos i by (auto simp: holds_fork_def)
  have "holds_fork ?t j g \<longleftrightarrow> g \<noteq> f \<and> holds_fork t j g" for j g
  proof (cases "j = i")
    case True
    with pos len i forks_differ [OF i] show ?thesis by (auto simp: holds_fork_def)
  next
    case False
    then have "\<not> holds_fork t j f" using holds_unique [OF inv hi] by blast
    with False show ?thesis by (auto simp: holds_fork_def)
  qed
  with inv len f show ?thesis by (auto simp: dp_inv_def nth_list_update)
qed

lemma philosopher_step:
  assumes inv: "dp_inv t" and i: "i < 5"
  shows "\<exists>r. philosopher_activity i t = Some r \<and> (case r of
      None \<Rightarrow> tb_activity t ! i = Thinking \<and> tb_forks t ! first_fork i \<noteq> None \<or>
        tb_activity t ! i = Has_First \<and> tb_forks t ! second_fork i \<noteq> None
    | Some t' \<Rightarrow> dp_inv t')"
proof -
  have len: "length (tb_forks t) = 5" "length (tb_activity t) = 5" using inv by (simp_all add: dp_inv_def)
  note lk = dp_inv_lock [OF inv i] dp_inv_unlock [OF inv i]
  show ?thesis
    using len i forks lk
    by (cases "tb_activity t ! i"; cases "tb_forks t ! first_fork i"; cases "tb_forks t ! second_fork i")
      (simp_all add: philosopher_activity_def Let_def)
qed

lemma dp_reach_inv: "dp_reach t \<Longrightarrow> dp_inv t"
proof (induction rule: dp_reach.induct)
  case start
  show ?case by (auto simp: dp_inv_def dp_main_def NUM_PHILOSOPHERS_def holds_fork_def)
next
  case (step t i t')
  with philosopher_step [of t i] show ?case by (auto simp: NUM_PHILOSOPHERS_def)
qed

text \<open>
  The forks are locked in the order 4, 1, 2, 3, 0, and no philosopher takes fork 0 first: whoever
  waits for a fork waits for someone further along.
\<close>

lemma dp_progress:
  assumes inv: "dp_inv t"
  shows "\<exists>i t'. i < 5 \<and> philosopher_activity i t = Some (Some t')"
proof (rule ccontr)
  assume "\<nexists>i t'. i < 5 \<and> philosopher_activity i t = Some (Some t')"
  then have blocked: "tb_activity t ! i = Thinking \<and> tb_forks t ! first_fork i \<noteq> None \<or>
        tb_activity t ! i = Has_First \<and> tb_forks t ! second_fork i \<noteq> None" if "i < 5" for i
    using philosopher_step [OF inv that] that by (auto split: option.splits)
  have owner: "\<exists>j < 5. f = first_fork j \<and> tb_activity t ! j = Has_First" if "f < 5" "tb_forks t ! f \<noteq> None" for f
  proof -
    from that inv obtain j where "holds_fork t j f" by (auto simp: dp_inv_def)
    with blocked [of j] show ?thesis by (auto simp: holds_fork_def)
  qed
  have b: "tb_activity t ! 1 \<noteq> Has_First" "tb_activity t ! 4 \<noteq> Has_First"
    using blocked [of 1] blocked [of 4] owner [of 0] by (auto simp: fork_table less_5)
  then have "tb_activity t ! 2 \<noteq> Has_First" "tb_activity t ! 3 \<noteq> Has_First"
    using blocked [of 2] blocked [of 3] owner [of 3] owner [of 2] by (auto simp: fork_table less_5)
  moreover from this have "tb_activity t ! 0 \<noteq> Has_First"
    using blocked [of 0] owner [of 1] by (auto simp: fork_table less_5)
  ultimately show False using b blocked [of 0] owner [of 4] by (auto simp: fork_table less_5)
qed

text \<open>C39: The philosophers never deadlock: in every reachable state, whatever the interleaving, some philosopher can
  take a step. A fork has at most one owner, so two philosophers who eat at the same time share no fork.\<close>
theorem philosophers_never_deadlock:
  assumes "dp_reach t"
  shows "(\<exists>i t'. i < NUM_PHILOSOPHERS \<and> philosopher_activity i t = Some (Some t')) \<and>
    (\<forall>i < NUM_PHILOSOPHERS. philosopher_activity i t \<noteq> None) \<and>
    (\<forall>i j. i < NUM_PHILOSOPHERS \<and> j < NUM_PHILOSOPHERS \<and> i \<noteq> j \<and> tb_activity t ! i = Eating \<and> tb_activity t ! j = Eating \<longrightarrow>
       {first_fork i, second_fork i} \<inter> {first_fork j, second_fork j} = {})"
proof -
  have inv: "dp_inv t" using assms by (rule dp_reach_inv)
  have "philosopher_activity i t \<noteq> None" if "i < 5" for i using philosopher_step [OF inv that] by auto
  moreover have "{first_fork i, second_fork i} \<inter> {first_fork j, second_fork j} = {}"
    if "i < 5" "j < 5" "i \<noteq> j" "tb_activity t ! i = Eating" "tb_activity t ! j = Eating" for i j
  proof -
    have "holds_fork t i f" if "f \<in> {first_fork i, second_fork i}" for f
      using \<open>i < 5\<close> \<open>tb_activity t ! i = Eating\<close> that by (auto simp: holds_fork_def)
    moreover have "holds_fork t j f" if "f \<in> {first_fork j, second_fork j}" for f
      using \<open>j < 5\<close> \<open>tb_activity t ! j = Eating\<close> that by (auto simp: holds_fork_def)
    ultimately show ?thesis using holds_unique [OF inv] \<open>i \<noteq> j\<close> by blast
  qed
  ultimately show ?thesis using dp_progress [OF inv] unfolding NUM_PHILOSOPHERS_def by blast
qed

theorem philosophers_never_deadlock_witness:
  "\<exists>i t'. i < NUM_PHILOSOPHERS \<and> philosopher_activity i dp_main = Some (Some t')"
  using philosophers_never_deadlock [OF dp_reach.start] by blast

subsection \<open>The race condition\<close>

text \<open>
  \<open>shared_counter++\<close> is a load into a register and a store of the register plus one. The first
  version takes no mutex; the second holds it around the whole loop.
\<close>

datatype mutex_pos = Before | Inside | After

record incr_thread =
  it_pos :: mutex_pos
  it_left :: nat
  it_reg :: "int option"

record counter_state =
  cs_counter :: int
  cs_mutex :: "nat option"
  cs_threads :: "incr_thread list"

text \<open>The loop body: load, then store.\<close>

definition increment :: "nat \<Rightarrow> counter_state \<Rightarrow> counter_state option option" where
  "increment me s = do {
     th \<leftarrow> rd (cs_threads s) me;
     (case it_reg th of
        None \<Rightarrow>
          if it_left th = 0 then Some None
          else Some (Some (s\<lparr>cs_threads := (cs_threads s)[me := th\<lparr>it_reg := Some (cs_counter s)\<rparr>]\<rparr>))
      | Some v \<Rightarrow> do {
          v' \<leftarrow> chk (v + 1);
          Some (Some (s\<lparr>cs_counter := v',
            cs_threads := (cs_threads s)[me := th\<lparr>it_reg := None, it_left := it_left th - 1\<rparr>]\<rparr>)) }) }"

definition increment_without_mutex :: "nat \<Rightarrow> counter_state \<Rightarrow> counter_state option option" where
  "increment_without_mutex me s = increment me s"

definition increment_with_mutex :: "nat \<Rightarrow> counter_state \<Rightarrow> counter_state option option" where
  "increment_with_mutex me s = do {
     th \<leftarrow> rd (cs_threads s) me;
     (case it_pos th of
        Before \<Rightarrow>
          if cs_mutex s \<noteq> None then Some None
          else Some (Some (s\<lparr>cs_mutex := Some me, cs_threads := (cs_threads s)[me := th\<lparr>it_pos := Inside\<rparr>]\<rparr>))
      | Inside \<Rightarrow>
          if it_reg th = None \<and> it_left th = 0
          then Some (Some (s\<lparr>cs_mutex := None, cs_threads := (cs_threads s)[me := th\<lparr>it_pos := After\<rparr>]\<rparr>))
          else increment me s
      | After \<Rightarrow> Some None) }"

definition race_main :: "nat \<Rightarrow> nat \<Rightarrow> counter_state" where
  "race_main threads count = \<lparr>cs_counter = 0, cs_mutex = None,
     cs_threads = replicate threads \<lparr>it_pos = Before, it_left = count, it_reg = None\<rparr>\<rparr>"

inductive runs_to :: "(nat \<Rightarrow> counter_state \<Rightarrow> counter_state option option) \<Rightarrow> counter_state \<Rightarrow> counter_state \<Rightarrow> bool"
  for step where
  refl: "runs_to step s s"
| next_step: "\<lbrakk>runs_to step s s'; step me s' = Some (Some s'')\<rbrakk> \<Longrightarrow> runs_to step s s''"

lemma runs_to_trans: "runs_to step t u \<Longrightarrow> runs_to step s t \<Longrightarrow> runs_to step s u"
  by (induction rule: runs_to.induct) (auto intro: runs_to.next_step)

text \<open>Two threads in lockstep lose every second increment.\<close>

definition lockstep :: "nat \<Rightarrow> int \<Rightarrow> counter_state" where
  "lockstep n c = \<lparr>cs_counter = c, cs_mutex = None,
     cs_threads = replicate 2 \<lparr>it_pos = Before, it_left = n, it_reg = None\<rparr>\<rparr>"

lemma lockstep_round:
  assumes "int_ok (c + 1)"
  shows "runs_to increment_without_mutex (lockstep (Suc n) c) (lockstep n (c + 1))"
proof -
  let ?th = "\<lambda>k r. \<lparr>it_pos = Before, it_left = k, it_reg = r\<rparr>"
  let ?s = "\<lambda>d a b. \<lparr>cs_counter = d, cs_mutex = None, cs_threads = [a, b]\<rparr>"
  have steps: "increment_without_mutex 0 (?s c (?th (Suc n) None) (?th (Suc n) None)) = Some (Some (?s c (?th (Suc n) (Some c)) (?th (Suc n) None)))"
    "increment_without_mutex 1 (?s c (?th (Suc n) (Some c)) (?th (Suc n) None)) = Some (Some (?s c (?th (Suc n) (Some c)) (?th (Suc n) (Some c))))"
    "increment_without_mutex 0 (?s c (?th (Suc n) (Some c)) (?th (Suc n) (Some c))) = Some (Some (?s (c + 1) (?th n None) (?th (Suc n) (Some c))))"
    "increment_without_mutex 1 (?s (c + 1) (?th n None) (?th (Suc n) (Some c))) = Some (Some (?s (c + 1) (?th n None) (?th n None)))"
    using assms by (simp_all add: increment_without_mutex_def increment_def)
  have "lockstep (Suc n) c = ?s c (?th (Suc n) None) (?th (Suc n) None)" "lockstep n (c + 1) = ?s (c + 1) (?th n None) (?th n None)"
    by (simp_all add: lockstep_def numeral_2_eq_2)
  then show ?thesis using steps by (metis runs_to.refl runs_to.next_step)
qed

lemma race_loses_updates:
  assumes "int n \<le> INT_MAX"
  shows "\<exists>s. runs_to increment_without_mutex (race_main 2 n) s \<and> cs_counter s = int n \<and>
    (\<forall>th \<in> set (cs_threads s). it_left th = 0 \<and> it_reg th = None)"
proof -
  have "runs_to increment_without_mutex (lockstep n c) (lockstep 0 (c + int n))" if "0 \<le> c" "c + int n \<le> INT_MAX" for c
    using that
  proof (induction n arbitrary: c)
    case (Suc n)
    have "int_ok (c + 1)" using Suc.prems by (simp add: int_ok_def INT_MIN_def)
    from lockstep_round [OF this, of n] have r: "runs_to increment_without_mutex (lockstep (Suc n) c) (lockstep n (c + 1))" .
    have "runs_to increment_without_mutex (lockstep n (c + 1)) (lockstep 0 (c + 1 + int n))"
      using Suc.prems by (intro Suc.IH) auto
    from runs_to_trans [OF this r] show ?case by (simp add: add.assoc)
  qed (simp add: runs_to.refl)
  from this [of 0] assms have "runs_to increment_without_mutex (lockstep n 0) (lockstep 0 (int n))" by simp
  then show ?thesis by (intro exI [of _ "lockstep 0 (int n)"]) (simp add: lockstep_def race_main_def)
qed

text \<open>With the mutex no update is lost.\<close>

definition race_inv :: "nat \<Rightarrow> nat \<Rightarrow> counter_state \<Rightarrow> bool" where
  "race_inv k n s \<longleftrightarrow> length (cs_threads s) = k \<and>
     cs_counter s + int (sum_list (map it_left (cs_threads s))) = int (k * n) \<and>
     (\<forall>i < k. it_pos (cs_threads s ! i) = Inside \<longleftrightarrow> cs_mutex s = Some i) \<and>
     (\<forall>i < k. \<forall>v. it_reg (cs_threads s ! i) = Some v \<longrightarrow>
        it_pos (cs_threads s ! i) = Inside \<and> v = cs_counter s \<and> 0 < it_left (cs_threads s ! i)) \<and>
     (\<forall>i < k. it_pos (cs_threads s ! i) = After \<longrightarrow> it_left (cs_threads s ! i) = 0)"

lemma sum_left_update:
  "i < length ths \<Longrightarrow> int (sum_list (map it_left (ths[i := th]))) =
     int (sum_list (map it_left ths)) + int (it_left th) - int (it_left (ths ! i))"
  using sum_map_update [of i ths it_left th] by linarith

lemma race_inv_step:
  assumes inv: "race_inv k n s" and step: "increment_with_mutex me s = Some (Some s')"
  shows "race_inv k n s'"
proof -
  define th where "th = cs_threads s ! me"
  have me: "me < k" using step inv
    by (auto simp: increment_with_mutex_def race_inv_def bind_eq_Some_conv rd_eq_Some)
  have len: "length (cs_threads s) = k" using inv by (simp add: race_inv_def)
  note upd = sum_left_update [of me "cs_threads s"]
  show ?thesis
  proof (cases "it_pos th")
    case Before
    then have "s' = s\<lparr>cs_mutex := Some me, cs_threads := (cs_threads s)[me := th\<lparr>it_pos := Inside\<rparr>]\<rparr>" "cs_mutex s = None"
      using step me len by (auto simp: increment_with_mutex_def th_def split: if_splits)
    with inv Before me len upd show ?thesis by (auto simp: race_inv_def nth_list_update th_def)
  next
    case After
    then show ?thesis using step me len by (simp add: increment_with_mutex_def th_def)
  next
    case Inside
    show ?thesis
    proof (cases "it_reg th")
      case None
      show ?thesis
      proof (cases "it_left th = 0")
        case True
        then have "s' = s\<lparr>cs_mutex := None, cs_threads := (cs_threads s)[me := th\<lparr>it_pos := After\<rparr>]\<rparr>"
          using step me len None Inside by (auto simp: increment_with_mutex_def th_def)
        with inv Inside True None me len upd show ?thesis by (auto simp: race_inv_def nth_list_update th_def)
      next
        case False
        then have "s' = s\<lparr>cs_threads := (cs_threads s)[me := th\<lparr>it_reg := Some (cs_counter s)\<rparr>]\<rparr>"
          using step me len None Inside by (auto simp: increment_with_mutex_def increment_def th_def)
        with inv Inside False None me len upd show ?thesis by (auto simp: race_inv_def nth_list_update th_def)
      qed
    next
      case (Some v)
      then have s': "s' = s\<lparr>cs_counter := v + 1, cs_threads := (cs_threads s)[me := th\<lparr>it_reg := None, it_left := it_left th - 1\<rparr>]\<rparr>"
        using step me len Inside by (auto simp: increment_with_mutex_def increment_def th_def bind_eq_Some_conv chk_eq_Some)
      have v: "v = cs_counter s" "0 < it_left th" using inv Some me by (auto simp: race_inv_def th_def)
      have other: "it_reg (cs_threads s ! i) = None" if "i < k" "i \<noteq> me" for i
      proof (rule ccontr)
        assume "it_reg (cs_threads s ! i) \<noteq> None"
        then have "cs_mutex s = Some i" "cs_mutex s = Some me" using inv that me Inside by (auto simp: race_inv_def th_def)
        with that show False by simp
      qed
      let ?th = "th\<lparr>it_reg := None, it_left := it_left th - 1\<rparr>"
      have at: "(cs_threads s)[me := ?th] ! i = (if i = me then ?th else cs_threads s ! i)" if "i < k" for i
        using that len by (simp add: nth_list_update)
      have "int (sum_list (map it_left ((cs_threads s)[me := ?th]))) = int (sum_list (map it_left (cs_threads s))) - 1"
        using upd [of ?th] me len v(2) by (simp add: th_def of_nat_diff)
      then have "v + 1 + int (sum_list (map it_left ((cs_threads s)[me := ?th]))) = int (k * n)"
        using inv v(1) by (simp add: race_inv_def)
      moreover have "\<forall>i < k. it_pos ((cs_threads s)[me := ?th] ! i) = Inside \<longleftrightarrow> cs_mutex s = Some i"
      proof (intro allI impI)
        fix i assume i: "i < k"
        have "it_pos (cs_threads s ! i) = Inside \<longleftrightarrow> cs_mutex s = Some i" using inv i by (simp add: race_inv_def)
        then show "it_pos ((cs_threads s)[me := ?th] ! i) = Inside \<longleftrightarrow> cs_mutex s = Some i"
          unfolding at [OF i] using Inside by (cases "i = me") (simp_all add: th_def)
      qed
      moreover have "\<forall>i < k. it_reg ((cs_threads s)[me := ?th] ! i) = None" using at other by simp
      moreover have "\<forall>i < k. it_pos ((cs_threads s)[me := ?th] ! i) = After \<longrightarrow> it_left ((cs_threads s)[me := ?th] ! i) = 0"
      proof (intro allI impI)
        fix i assume i: "i < k" and pos: "it_pos ((cs_threads s)[me := ?th] ! i) = After"
        then have "i \<noteq> me" using at [OF i] Inside by auto
        moreover have "it_pos (cs_threads s ! i) = After \<longrightarrow> it_left (cs_threads s ! i) = 0"
          using inv i by (simp add: race_inv_def)
        ultimately show "it_left ((cs_threads s)[me := ?th] ! i) = 0" using pos by (simp add: at [OF i])
      qed
      ultimately show ?thesis using len by (simp add: s' race_inv_def)
    qed
  qed
qed

lemma mutex_counts_all:
  assumes "runs_to increment_with_mutex (race_main k n) s" and "\<forall>th \<in> set (cs_threads s). it_pos th = After"
  shows "cs_counter s = int (k * n)"
proof -
  have "race_inv k n (race_main k n)" by (auto simp: race_inv_def race_main_def sum_list_replicate)
  with assms(1) have "race_inv k n s" 
    by (induction rule: runs_to.induct) (blast intro: race_inv_step)+
  then have inv: "length (cs_threads s) = k"
    "cs_counter s + int (sum_list (map it_left (cs_threads s))) = int (k * n)"
    "\<forall>i < k. it_pos (cs_threads s ! i) = After \<longrightarrow> it_left (cs_threads s ! i) = 0"
    by (simp_all add: race_inv_def)
  have "it_left (cs_threads s ! i) = 0" if "i < k" for i
  proof -
    have "cs_threads s ! i \<in> set (cs_threads s)" using that inv(1) by (intro nth_mem) simp
    then have "it_pos (cs_threads s ! i) = After" using assms(2) by blast
    with inv(3) that show ?thesis by blast
  qed
  then have "map it_left (cs_threads s) = replicate k 0" using inv(1) by (intro nth_equalityI) simp_all
  then show ?thesis using inv(2) by (simp add: sum_list_replicate)
qed

end
