(* ===== verification/Worker_Threads.thy ===== *)
theory Worker_Threads
  imports OS_Prelude
begin

section \<open>Worker threads: d9 of the repository and d8 mutexes.c\<close>

text \<open>
  An array is cut into consecutive ranges, one per worker; every worker replaces the elements of its range one
  by one while the others run (working_template.c, process_thread_implementation.c, and row by row
  compare\_performance.c). \<open>works f s k t\<close>: \<open>t\<close> is reached from \<open>s\<close> by \<open>k\<close> steps of the workers in some order. Also
  here: the counter whose every increment takes the mutex (mutexes.c, demo\_shared\_resource.c), the
  choice between processes and threads (decision\_making.c) and the minima and maxima of benchmark.c.
  Operations on \<open>double\<close> are parameters.
\<close>

subsection \<open>Workers on disjoint ranges\<close>

text \<open>A unit is the index the worker is at and the end of its range.\<close>

record 'v work_state =
  ws_data :: "'v list"
  ws_units :: "(nat \<times> nat) list"

definition worker_step :: "(nat \<Rightarrow> 'v \<Rightarrow> 'v option) \<Rightarrow> nat \<Rightarrow> 'v work_state \<Rightarrow> 'v work_state option option" where
  "worker_step f w s = do {
     (i, e) \<leftarrow> rd (ws_units s) w;
     if i < e then do {
       v \<leftarrow> rd (ws_data s) i;
       v' \<leftarrow> f i v;
       data \<leftarrow> wr (ws_data s) i v';
       Some (Some (s\<lparr>ws_data := data, ws_units := (ws_units s)[w := (i + 1, e)]\<rparr>)) }
     else Some None }"

inductive works :: "(nat \<Rightarrow> 'v \<Rightarrow> 'v option) \<Rightarrow> 'v work_state \<Rightarrow> nat \<Rightarrow> 'v work_state \<Rightarrow> bool" for f s where
  none: "works f s 0 s"
| more: "\<lbrakk>works f s k t; worker_step f w t = Some (Some u)\<rbrakk> \<Longrightarrow> works f s (Suc k) u"

definition range_start :: "nat \<Rightarrow> nat \<Rightarrow> nat \<Rightarrow> nat" where
  "range_start n w i = i * (n div w)"

definition range_end :: "nat \<Rightarrow> nat \<Rightarrow> nat \<Rightarrow> nat" where
  "range_end n w i = (if i = w - 1 then n else (i + 1) * (n div w))"

definition ranges :: "nat \<Rightarrow> nat \<Rightarrow> (nat \<times> nat) list" where
  "ranges n w = map (\<lambda>i. (range_start n w i, range_end n w i)) [0..<w]"

text \<open>The ranges follow each other from 0 to \<open>n\<close>.\<close>

lemma range_bounds:
  assumes "0 < w" and "i < w"
  shows "range_start n w i \<le> range_end n w i" and "range_end n w i \<le> n"
    and "Suc i < w \<Longrightarrow> range_start n w (Suc i) = range_end n w i"
proof -
  have "k * (n div w) \<le> n" if "k \<le> w" for k
    using that by (meson le_trans mult_le_mono1 times_div_less_eq_dividend)
  from this [of i] this [of "i + 1"] assms
  show "range_start n w i \<le> range_end n w i" and "range_end n w i \<le> n"
    by (auto simp: range_start_def range_end_def)
  show "Suc i < w \<Longrightarrow> range_start n w (Suc i) = range_end n w i"
    by (auto simp: range_start_def range_end_def)
qed

lemma range_mono:
  assumes "i \<le> k" and "k < w"
  shows "range_start n w i \<le> range_start n w k" and "i < k \<Longrightarrow> range_end n w i \<le> range_start n w k"
proof -
  show "range_start n w i \<le> range_start n w k" using assms by (simp add: range_start_def)
  show "i < k \<Longrightarrow> range_end n w i \<le> range_start n w k"
  proof -
    assume "i < k"
    then have "i + 1 \<le> k" "i \<noteq> w - 1" using assms(2) by auto
    then show ?thesis unfolding range_start_def range_end_def by (simp add: mult_le_mono1 del: mult_Suc)
  qed
qed

lemma range_cover:
  assumes "0 < w" and "j < n"
  shows "\<exists>i < w. range_start n w i \<le> j \<and> j < range_end n w i"
proof -
  define i where "i = (if n div w = 0 then w - 1 else min (j div (n div w)) (w - 1))"
  have i: "i < w" using assms(1) by (auto simp: i_def)
  moreover have "range_start n w i \<le> j"
  proof (cases "n div w = 0")
    case False
    have "i * (n div w) \<le> j div (n div w) * (n div w)" using False by (intro mult_le_mono1) (simp add: i_def)
    also have "\<dots> \<le> j" by simp
    finally show ?thesis by (simp add: range_start_def)
  qed (simp add: range_start_def)
  moreover have "j < range_end n w i"
  proof (cases "i = w - 1")
    case True
    then show ?thesis using assms(2) by (simp add: range_end_def)
  next
    case False
    then have nz: "n div w \<noteq> 0" and ij: "i = j div (n div w)" by (auto simp: i_def split: if_splits)
    have "j < (j div (n div w) + 1) * (n div w)"
      using nz by (metis Suc_eq_plus1 dividend_less_div_times mult_Suc add.commute neq0_conv)
    with False ij show ?thesis by (simp add: range_end_def)
  qed
  ultimately show ?thesis by blast
qed

definition rest :: "(nat \<times> nat) list \<Rightarrow> nat" where
  "rest us = sum_list (map (\<lambda>u. snd u - fst u) us)"

lemma rest_step:
  "\<lbrakk>k < length us; us ! k = (i, e); i < e\<rbrakk> \<Longrightarrow> Suc (rest (us[k := (i + 1, e)])) = rest us"
proof (induction us arbitrary: k)
  case (Cons u us)
  then show ?case by (cases k) (auto simp: rest_def)
qed simp

lemma rest_zero: "rest us = 0 \<longleftrightarrow> (\<forall>u \<in> set us. snd u \<le> fst u)"
  by (auto simp: rest_def)

lemma rest_ranges:
  assumes "0 < w"
  shows "rest (ranges n w) = n"
proof -
  obtain m where m: "w = Suc m" using assms by (cases w) auto
  have le: "m * (n div w) \<le> n" by (metis le_SucI le_trans m mult_le_mono1 order_refl times_div_less_eq_dividend)
  have "rest (map (\<lambda>i. (range_start n w i, range_end n w i)) [0..<k]) = k * (n div w)" if "k \<le> m" for k
    using that by (induction k) (auto simp: rest_def range_start_def range_end_def m)
  from this [of m] show ?thesis
    using le by (simp add: ranges_def m rest_def range_start_def range_end_def)
qed

text \<open>The invariant: what is behind a worker is done, what is ahead of it is untouched.\<close>

definition work_inv :: "'v list \<Rightarrow> 'v list \<Rightarrow> nat \<Rightarrow> 'v work_state \<Rightarrow> bool" where
  "work_inv xs ys w s \<longleftrightarrow> length (ws_data s) = length xs \<and> length (ws_units s) = w \<and>
     (\<forall>i < w. range_start (length xs) w i \<le> fst (ws_units s ! i) \<and>
        fst (ws_units s ! i) \<le> snd (ws_units s ! i) \<and> snd (ws_units s ! i) = range_end (length xs) w i \<and>
        (\<forall>j. range_start (length xs) w i \<le> j \<and> j < range_end (length xs) w i \<longrightarrow>
          ws_data s ! j = (if j < fst (ws_units s ! i) then ys ! j else xs ! j)))"

lemma work_inv_start:
  assumes "0 < w"
  shows "work_inv xs ys w \<lparr>ws_data = xs, ws_units = ranges (length xs) w\<rparr>"
  using range_bounds(1) [OF assms] by (auto simp: work_inv_def ranges_def)

lemma work_inv_step:
  assumes inv: "work_inv xs ys w s" and f: "\<forall>j < length xs. f j (xs ! j) = Some (ys ! j)" and k: "k < w"
  shows "(snd (ws_units s ! k) \<le> fst (ws_units s ! k) \<and> worker_step f k s = Some None) \<or>
    (\<exists>s'. worker_step f k s = Some (Some s') \<and> work_inv xs ys w s' \<and> Suc (rest (ws_units s')) = rest (ws_units s))"
proof -
  let ?n = "length xs"
  obtain i e where u: "ws_units s ! k = (i, e)" by (cases "ws_units s ! k")
  have len: "length (ws_data s) = ?n" "length (ws_units s) = w" using inv by (simp_all add: work_inv_def)
  have ie: "range_start ?n w k \<le> i" "i \<le> e" "e = range_end ?n w k" using inv k u by (auto simp: work_inv_def)
  have val: "ws_data s ! j = (if j < i then ys ! j else xs ! j)" if "range_start ?n w k \<le> j" "j < range_end ?n w k" for j
    using inv k u that by (simp add: work_inv_def)
  show ?thesis
  proof (cases "i < e")
    case False
    then show ?thesis using u k len by (simp add: worker_step_def)
  next
    case True
    have "e \<le> ?n" using range_bounds(2) [of w k ?n] k ie(3) by simp
    then have i: "i < ?n" "ws_data s ! i = xs ! i" using True val [of i] ie by auto
    define s' where "s' = s\<lparr>ws_data := (ws_data s)[i := ys ! i], ws_units := (ws_units s)[k := (i + 1, e)]\<rparr>"
    have "worker_step f k s = Some (Some s')"
      using u k len i True f by (simp add: worker_step_def s'_def)
    moreover have "Suc (rest (ws_units s')) = rest (ws_units s)"
      using rest_step [of k "ws_units s" i e] u k len True by (simp add: s'_def)
    moreover have "work_inv xs ys w s'"
      unfolding work_inv_def
    proof (intro conjI allI impI)
      show "length (ws_data s') = ?n" and "length (ws_units s') = w" using len by (simp_all add: s'_def)
    next
      fix m assume m: "m < w"
      have old: "range_start ?n w m \<le> fst (ws_units s ! m)" "fst (ws_units s ! m) \<le> snd (ws_units s ! m)"
        "snd (ws_units s ! m) = range_end ?n w m" using inv m unfolding work_inv_def by blast+
      show "range_start ?n w m \<le> fst (ws_units s' ! m)" and "fst (ws_units s' ! m) \<le> snd (ws_units s' ! m)"
        and "snd (ws_units s' ! m) = range_end ?n w m"
        using old ie True m len u by (cases "m = k"; simp add: s'_def)+
      fix j assume j: "range_start ?n w m \<le> j \<and> j < range_end ?n w m"
      have oldj: "ws_data s ! j = (if j < fst (ws_units s ! m) then ys ! j else xs ! j)"
        using inv m j by (simp add: work_inv_def)
      show "ws_data s' ! j = (if j < fst (ws_units s' ! m) then ys ! j else xs ! j)"
      proof (cases "m = k")
        case True
        with oldj u k len i(1) show ?thesis by (cases "j = i") (auto simp: s'_def)
      next
        case False
        have "j \<noteq> i"
        proof
          assume "j = i"
          with j ie True m k False range_mono(2) [of m k w ?n] range_mono(2) [of k m w ?n]
          show False by (cases "m < k") auto
        qed
        with False oldj show ?thesis by (simp add: s'_def)
      qed
    qed
    ultimately show ?thesis by blast
  qed
qed

text \<open>Every schedule ends after exactly one step per element, with the same result.\<close>

lemma works_result:
  assumes w: "0 < w" and f: "\<forall>j < length xs. f j (xs ! j) = Some (ys ! j)" and len: "length ys = length xs"
    and run: "works f \<lparr>ws_data = xs, ws_units = ranges (length xs) w\<rparr> k s"
  shows "k \<le> length xs" and "\<forall>i < w. worker_step f i s \<noteq> None"
    and "(\<forall>i < w. worker_step f i s = Some None) \<longleftrightarrow> k = length xs" and "k = length xs \<Longrightarrow> ws_data s = ys"
proof -
  from run have "work_inv xs ys w s \<and> rest (ws_units s) + k = length xs"
  proof (induction rule: works.induct)
    case none
    show ?case using work_inv_start [OF w] rest_ranges [OF w] by simp
  next
    case (more k t i u)
    have "i < w" using more by (auto simp: worker_step_def work_inv_def rd_def split: if_splits)
    with work_inv_step [where f = f and xs = xs and ys = ys and w = w and k = i, OF _ f this] more show ?case by fastforce
  qed
  then have inv: "work_inv xs ys w s" and sum: "rest (ws_units s) + k = length xs" by auto
  note step = work_inv_step [where f = f and xs = xs and ys = ys and w = w, OF inv f]
  show "k \<le> length xs" using sum by simp
  show "\<forall>i < w. worker_step f i s \<noteq> None" using step by fastforce
  have lu: "length (ws_units s) = w" using inv by (simp add: work_inv_def)
  have "(\<forall>i < w. worker_step f i s = Some None) \<longleftrightarrow> (\<forall>i < w. snd (ws_units s ! i) \<le> fst (ws_units s ! i))"
  proof (intro iffI allI impI)
    fix i assume a: "\<forall>i < w. worker_step f i s = Some None" and i: "i < w"
    with step [OF i] show "snd (ws_units s ! i) \<le> fst (ws_units s ! i)" by auto
  next
    fix i assume a: "\<forall>i < w. snd (ws_units s ! i) \<le> fst (ws_units s ! i)" and i: "i < w"
    then show "worker_step f i s = Some None" using lu by (auto simp: worker_step_def split: prod.splits)
  qed
  also have "\<dots> \<longleftrightarrow> rest (ws_units s) = 0" using lu by (simp add: rest_zero all_set_conv_all_nth)
  finally show "(\<forall>i < w. worker_step f i s = Some None) \<longleftrightarrow> k = length xs" using sum by auto
  show "ws_data s = ys" if "k = length xs"
  proof (rule nth_equalityI)
    show "length (ws_data s) = length ys" using inv len by (simp add: work_inv_def)
    fix j assume "j < length (ws_data s)"
    then have "j < length xs" using inv by (simp add: work_inv_def)
    from range_cover [OF w this] obtain i where i: "i < w" "range_start (length xs) w i \<le> j" "j < range_end (length xs) w i"
      by blast
    have "rest (ws_units s) = 0" using sum that by simp
    then have "snd (ws_units s ! i) \<le> fst (ws_units s ! i)" using i(1) lu by (simp add: rest_zero all_set_conv_all_nth)
    with inv i show "ws_data s ! j = ys ! j" by (simp add: work_inv_def)
  qed
qed

subsection \<open>Doubling an array (working\_template.c, process\_thread\_implementation.c)\<close>

definition NUM_ITEMS :: nat where "NUM_ITEMS = 1000"

definition thread_worker :: "nat \<Rightarrow> int \<Rightarrow> int option" where
  "thread_worker i v = chk (v * 2)"

definition thread_initialize :: "int list \<Rightarrow> int list option" where
  "thread_initialize raw = for_loop 0 NUM_ITEMS (\<lambda>i xs. wr xs i (int i)) raw"

text \<open>\<open>NUM_ITEMS / num_threads\<close> divides by zero when there are no threads.\<close>

definition thread_process_data :: "int \<Rightarrow> (nat \<times> nat) list option" where
  "thread_process_data num_threads =
     (if num_threads = 0 then None
      else let items_per_thread = c_div (int NUM_ITEMS) num_threads in
        Some (map (\<lambda>i. (i * nat items_per_thread,
            if int i = num_threads - 1 then NUM_ITEMS else (i + 1) * nat items_per_thread)) [0..<nat num_threads]))"

lemma thread_process_data_ranges:
  assumes "0 < n"
  shows "thread_process_data n = Some (ranges NUM_ITEMS (nat n))"
proof -
  have "nat (c_div (int NUM_ITEMS) n) = NUM_ITEMS div nat n"
    using assms by (simp add: c_div_nonneg nat_div_distrib)
  moreover have "int i = n - 1 \<longleftrightarrow> i = nat n - 1" if "i < nat n" for i using that by linarith
  ultimately show ?thesis
    using assms by (simp add: thread_process_data_def Let_def ranges_def range_start_def range_end_def)
qed

text \<open>C15: Splitting the work between threads changes nothing. For any positive number of threads, more than there
  are items included, the ranges handed out let the threads run in any interleaving without an
  undefined step; together they take exactly one step per item, nobody can go on exactly when 1000
  steps are taken, and then the array holds twice the initial value of every item.\<close>
theorem threads_double_all:
  assumes "0 < num_threads" and "length raw = NUM_ITEMS"
  shows "\<exists>xs us. thread_initialize raw = Some xs \<and> thread_process_data num_threads = Some us \<and>
    (\<forall>k s. works thread_worker \<lparr>ws_data = xs, ws_units = us\<rparr> k s \<longrightarrow>
      k \<le> NUM_ITEMS \<and> (\<forall>i < nat num_threads. worker_step thread_worker i s \<noteq> None) \<and>
      ((\<forall>i < nat num_threads. worker_step thread_worker i s = Some None) \<longleftrightarrow> k = NUM_ITEMS) \<and>
      (k = NUM_ITEMS \<longrightarrow> ws_data s = map (\<lambda>i. 2 * int i) [0..<NUM_ITEMS]))"
proof -
  let ?xs = "map int [0..<NUM_ITEMS]" and ?ys = "map (\<lambda>i. 2 * int i) [0..<NUM_ITEMS]"
  have "thread_initialize raw = Some ?xs"
    using for_loop_fill [of NUM_ITEMS raw int] assms(2) by (simp add: thread_initialize_def)
  moreover have f: "\<forall>j < length ?xs. thread_worker j (?xs ! j) = Some (?ys ! j)"
    by (simp add: thread_worker_def NUM_ITEMS_def int_ok_def INT_MIN_def INT_MAX_def mult.commute)
  moreover have run: "k \<le> NUM_ITEMS \<and> (\<forall>i < nat num_threads. worker_step thread_worker i s \<noteq> None) \<and>
      ((\<forall>i < nat num_threads. worker_step thread_worker i s = Some None) \<longleftrightarrow> k = NUM_ITEMS) \<and>
      (k = NUM_ITEMS \<longrightarrow> ws_data s = ?ys)"
    if "works thread_worker \<lparr>ws_data = ?xs, ws_units = ranges NUM_ITEMS (nat num_threads)\<rparr> k s" for k s
  proof -
    have l: "length ?xs = NUM_ITEMS" "0 < nat num_threads" "length ?ys = length ?xs" using assms(1) by simp_all
    note r = works_result [where f = thread_worker and xs = ?xs and ys = ?ys and w = "nat num_threads", OF l(2) f l(3),
        unfolded l(1), OF that]
    show ?thesis by (intro conjI impI r)
  qed
  ultimately show ?thesis using thread_process_data_ranges [OF assms(1)] by blast
qed

theorem threads_double_all_witness:
  "\<exists>xs us. thread_initialize (replicate 1000 0) = Some xs \<and> thread_process_data 7 = Some us \<and>
    (\<forall>k s. works thread_worker \<lparr>ws_data = xs, ws_units = us\<rparr> k s \<longrightarrow> k \<le> 1000)"
  using threads_double_all [of 7 "replicate 1000 0"] by (fastforce simp: NUM_ITEMS_def)


text \<open>The same split with \<open>double\<close> elements and four workers; \<open>times2\<close> is the multiplication by 2.0.\<close>

definition ARRAY_SIZE :: nat where "ARRAY_SIZE = 100000"
definition NUM_WORKERS :: nat where "NUM_WORKERS = 4"

definition double_worker :: "('d \<Rightarrow> 'd) \<Rightarrow> nat \<Rightarrow> 'd \<Rightarrow> 'd option" where
  "double_worker times2 i v = Some (times2 v)"

definition worker_units :: "nat \<Rightarrow> (nat \<times> nat) list" where
  "worker_units total_items =
     (let chunk_size = total_items div NUM_WORKERS in
      map (\<lambda>i. (i * chunk_size, if i = NUM_WORKERS - 1 then total_items else (i + 1) * chunk_size)) [0..<NUM_WORKERS])"

definition thread_implementation :: "(nat \<Rightarrow> 'd) \<Rightarrow> 'd work_state" where
  "thread_implementation to_double = \<lparr>ws_data = map to_double [0..<ARRAY_SIZE], ws_units = worker_units ARRAY_SIZE\<rparr>"

lemma worker_units_ranges: "worker_units n = ranges n NUM_WORKERS"
  by (simp add: worker_units_def ranges_def range_start_def range_end_def Let_def)

lemma doubles_result:
  assumes "works (double_worker times2) (thread_implementation to_double) ARRAY_SIZE s"
  shows "ws_data s = map (\<lambda>i. times2 (to_double i)) [0..<ARRAY_SIZE]"
proof -
  let ?xs = "map to_double [0..<ARRAY_SIZE]" and ?ys = "map (\<lambda>i. times2 (to_double i)) [0..<ARRAY_SIZE]"
  have l: "length ?xs = ARRAY_SIZE" "0 < NUM_WORKERS" "length ?ys = length ?xs" by (simp_all add: NUM_WORKERS_def)
  have f: "\<forall>j < length ?xs. double_worker times2 j (?xs ! j) = Some (?ys ! j)" by (simp add: double_worker_def)
  show ?thesis
    using works_result(4) [where f = "double_worker times2" and xs = ?xs and ys = ?ys and w = NUM_WORKERS,
        OF l(2) f l(3), unfolded l(1)] assms by (simp add: thread_implementation_def worker_units_ranges)
qed

text \<open>
  The same with processes: each child works on the shared mapping of the array and leaves; \<open>exit\<close> after its range
  makes its steps the only ones it takes. The bounds are computed in the child.
\<close>

definition process_worker :: "('d \<Rightarrow> 'd) \<Rightarrow> nat \<Rightarrow> 'd \<Rightarrow> 'd option" where
  "process_worker times2 i v = Some (times2 v)"

definition child_range :: "nat \<Rightarrow> nat \<Rightarrow> nat \<times> nat" where
  "child_range total_items i =
     (let chunk_size = total_items div NUM_WORKERS
      in (i * chunk_size, if i = NUM_WORKERS - 1 then total_items else (i + 1) * chunk_size))"

definition process_implementation :: "(nat \<Rightarrow> 'd) \<Rightarrow> 'd work_state" where
  "process_implementation to_double =
     \<lparr>ws_data = map to_double [0..<ARRAY_SIZE], ws_units = map (child_range ARRAY_SIZE) [0..<NUM_WORKERS]\<rparr>"

lemma child_ranges: "map (child_range n) [0..<NUM_WORKERS] = worker_units n"
  by (simp add: child_range_def worker_units_def Let_def)

lemma processes_and_threads_agree:
  assumes "works (double_worker times2) (thread_implementation to_double) ARRAY_SIZE s"
    and "works (process_worker times2) (process_implementation to_double) ARRAY_SIZE t"
  shows "ws_data s = ws_data t"
proof -
  have "process_worker times2 = double_worker times2" by (intro ext) (simp add: process_worker_def double_worker_def)
  moreover have "process_implementation to_double = thread_implementation to_double"
    by (simp add: process_implementation_def thread_implementation_def child_ranges)
  ultimately show ?thesis using doubles_result assms by metis
qed

text \<open>
  measure\_thread.c gives every thread exactly a quarter of the array, the last one included; that is the whole array
  because four divides its length.
\<close>

definition MEASURED_SIZE :: nat where "MEASURED_SIZE = 10000"
definition MEASURED_THREADS :: nat where "MEASURED_THREADS = 4"

definition thread_function :: "nat \<Rightarrow> nat \<times> nat" where
  "thread_function thread_id =
     (let chunk_size = MEASURED_SIZE div MEASURED_THREADS; first = thread_id * chunk_size
      in (first, first + chunk_size))"

definition measure_thread :: "(nat \<Rightarrow> 'd) \<Rightarrow> 'd work_state" where
  "measure_thread to_double =
     \<lparr>ws_data = map to_double [0..<MEASURED_SIZE], ws_units = map thread_function [0..<MEASURED_THREADS]\<rparr>"

lemma measure_thread_doubles:
  assumes "works (double_worker times2) (measure_thread to_double) MEASURED_SIZE s"
  shows "ws_data s = map (\<lambda>i. times2 (to_double i)) [0..<MEASURED_SIZE]"
proof -
  let ?xs = "map to_double [0..<MEASURED_SIZE]" and ?ys = "map (\<lambda>i. times2 (to_double i)) [0..<MEASURED_SIZE]"
  have l: "length ?xs = MEASURED_SIZE" "0 < MEASURED_THREADS" "length ?ys = length ?xs" by (simp_all add: MEASURED_THREADS_def)
  have f: "\<forall>j < length ?xs. double_worker times2 j (?xs ! j) = Some (?ys ! j)" by (simp add: double_worker_def)
  have "map thread_function [0..<MEASURED_THREADS] = ranges MEASURED_SIZE MEASURED_THREADS"
    by (auto simp: ranges_def range_start_def range_end_def thread_function_def MEASURED_SIZE_def MEASURED_THREADS_def Let_def)
  then show ?thesis
    using works_result(4) [where f = "double_worker times2" and xs = ?xs and ys = ?ys and w = MEASURED_THREADS,
        OF l(2) f l(3), unfolded l(1)] assms by (simp add: measure_thread_def)
qed

subsection \<open>Matrix multiplication (compare\_performance.c)\<close>

definition MATRIX_SIZE :: nat where "MATRIX_SIZE = 500"

text \<open>One step of a worker computes a row of the product; the matrices \<open>a\<close> and \<open>b\<close> are stored row by row.\<close>

definition matrix_row ::
  "('d \<Rightarrow> 'd \<Rightarrow> 'd) \<Rightarrow> ('d \<Rightarrow> 'd \<Rightarrow> 'd) \<Rightarrow> 'd \<Rightarrow> 'd list \<Rightarrow> 'd list \<Rightarrow> nat \<Rightarrow> 'd list \<Rightarrow> 'd list option" where
  "matrix_row add mul zero a b i row =
     for_loop 0 MATRIX_SIZE (\<lambda>j c. do {
       acc \<leftarrow> for_loop 0 MATRIX_SIZE (\<lambda>k acc. do {
         x \<leftarrow> rd a (i * MATRIX_SIZE + k);
         y \<leftarrow> rd b (k * MATRIX_SIZE + j);
         Some (add acc (mul x y)) }) zero;
       wr c j acc }) row"

definition dot ::
  "('d \<Rightarrow> 'd \<Rightarrow> 'd) \<Rightarrow> ('d \<Rightarrow> 'd \<Rightarrow> 'd) \<Rightarrow> 'd \<Rightarrow> 'd list \<Rightarrow> 'd list \<Rightarrow> nat \<Rightarrow> nat \<Rightarrow> 'd" where
  "dot add mul zero a b i j =
     foldl (\<lambda>acc k. add acc (mul (a ! (i * MATRIX_SIZE + k)) (b ! (k * MATRIX_SIZE + j)))) zero [0..<MATRIX_SIZE]"

lemma for_loop_foldl:
  assumes "\<And>i s. i < n \<Longrightarrow> body i s = Some (g s i)"
  shows "for_loop 0 n body s = Some (foldl g s [0..<n])"
  using assms by (induction n) (simp_all add: for_loop_Suc)

lemma flat_index: "i < n \<Longrightarrow> j < n \<Longrightarrow> i * n + j < n * n" for i j n :: nat
proof -
  assume "i < n" "j < n"
  then have "i * n + j < Suc i * n" by simp
  also have "\<dots> \<le> n * n" using \<open>i < n\<close> by (intro mult_le_mono1) simp
  finally show ?thesis .
qed

lemma matrix_row_eq:
  assumes a: "length a = MATRIX_SIZE * MATRIX_SIZE" and b: "length b = MATRIX_SIZE * MATRIX_SIZE"
    and i: "i < MATRIX_SIZE" and row: "length row = MATRIX_SIZE"
  shows "matrix_row add mul zero a b i row = Some (map (dot add mul zero a b i) [0..<MATRIX_SIZE])"
proof -
  have inner: "for_loop 0 MATRIX_SIZE (\<lambda>k acc. do {
         x \<leftarrow> rd a (i * MATRIX_SIZE + k);
         y \<leftarrow> rd b (k * MATRIX_SIZE + j);
         Some (add acc (mul x y)) }) zero = Some (dot add mul zero a b i j)" if "j < MATRIX_SIZE" for j
    unfolding dot_def using flat_index [OF i] flat_index [OF _ that] a b by (intro for_loop_foldl) simp
  have "matrix_row add mul zero a b i row = for_loop 0 MATRIX_SIZE (\<lambda>j c. wr c j (dot add mul zero a b i j)) row"
    unfolding matrix_row_def by (intro for_loop_cong) (simp add: inner)
  also have "\<dots> = Some (map (dot add mul zero a b i) [0..<MATRIX_SIZE])"
    using for_loop_fill [of MATRIX_SIZE row] row by simp
  finally show ?thesis .
qed

text \<open>Whatever the order in which the workers compute rows, they compute the product.\<close>

lemma matrix_product:
  assumes a: "length a = MATRIX_SIZE * MATRIX_SIZE" and b: "length b = MATRIX_SIZE * MATRIX_SIZE"
    and c: "length c = MATRIX_SIZE" "\<forall>row \<in> set c. length row = MATRIX_SIZE"
    and run: "works (matrix_row add mul zero a b) \<lparr>ws_data = c, ws_units = worker_units MATRIX_SIZE\<rparr> MATRIX_SIZE s"
  shows "ws_data s = map (\<lambda>i. map (dot add mul zero a b i) [0..<MATRIX_SIZE]) [0..<MATRIX_SIZE]"
proof -
  let ?ys = "map (\<lambda>i. map (dot add mul zero a b i) [0..<MATRIX_SIZE]) [0..<MATRIX_SIZE]"
  have l: "0 < NUM_WORKERS" "length ?ys = length c" using c(1) by (simp_all add: NUM_WORKERS_def)
  have f: "\<forall>j < length c. matrix_row add mul zero a b j (c ! j) = Some (?ys ! j)"
    using c by (auto simp: matrix_row_eq [OF a b])
  show ?thesis
    using works_result(4) [where f = "matrix_row add mul zero a b" and xs = c and ys = ?ys and w = NUM_WORKERS,
        OF l(1) f l(2)] run c(1) by (simp add: worker_units_ranges)
qed

text \<open>
  \<open>compare_performance\<close> lets four threads and then four processes compute the product into the same matrix \<open>c\<close>: what
  the threads left there does not matter, and both come to the same product.
\<close>

definition process_matrix_row ::
  "('d \<Rightarrow> 'd \<Rightarrow> 'd) \<Rightarrow> ('d \<Rightarrow> 'd \<Rightarrow> 'd) \<Rightarrow> 'd \<Rightarrow> 'd list \<Rightarrow> 'd list \<Rightarrow> nat \<Rightarrow> 'd list \<Rightarrow> 'd list option" where
  "process_matrix_row add mul zero a b i row =
     for_loop 0 MATRIX_SIZE (\<lambda>j c. do {
       acc \<leftarrow> for_loop 0 MATRIX_SIZE (\<lambda>k acc. do {
         x \<leftarrow> rd a (i * MATRIX_SIZE + k);
         y \<leftarrow> rd b (k * MATRIX_SIZE + j);
         Some (add acc (mul x y)) }) zero;
       wr c j acc }) row"

definition start_threads :: "'d list list \<Rightarrow> 'd list work_state" where
  "start_threads c = \<lparr>ws_data = c, ws_units = worker_units MATRIX_SIZE\<rparr>"

definition fork_workers :: "'d list list \<Rightarrow> 'd list work_state" where
  "fork_workers c = \<lparr>ws_data = c, ws_units = map (child_range MATRIX_SIZE) [0..<NUM_WORKERS]\<rparr>"

lemma threads_then_processes:
  assumes a: "length a = MATRIX_SIZE * MATRIX_SIZE" and b: "length b = MATRIX_SIZE * MATRIX_SIZE"
    and c: "length c = MATRIX_SIZE" "\<forall>row \<in> set c. length row = MATRIX_SIZE"
    and threads: "works (matrix_row add mul zero a b) (start_threads c) MATRIX_SIZE s"
    and processes: "works (process_matrix_row add mul zero a b) (fork_workers (ws_data s)) MATRIX_SIZE t"
  shows "ws_data t = ws_data s" and "ws_data s = map (\<lambda>i. map (dot add mul zero a b i) [0..<MATRIX_SIZE]) [0..<MATRIX_SIZE]"
proof -
  have row: "process_matrix_row add mul zero a b = matrix_row add mul zero a b"
    by (intro ext) (simp add: process_matrix_row_def matrix_row_def)
  have units: "fork_workers (ws_data s) = \<lparr>ws_data = ws_data s, ws_units = worker_units MATRIX_SIZE\<rparr>"
    by (simp add: fork_workers_def child_ranges)
  show s: "ws_data s = map (\<lambda>i. map (dot add mul zero a b i) [0..<MATRIX_SIZE]) [0..<MATRIX_SIZE]"
    using threads by (intro matrix_product [OF a b c]) (simp add: start_threads_def)
  have c': "length (ws_data s) = MATRIX_SIZE" "\<forall>row \<in> set (ws_data s). length row = MATRIX_SIZE" by (auto simp: s)
  show "ws_data t = ws_data s"
    using matrix_product [OF a b c' processes [unfolded row units]] s by simp
qed

subsection \<open>A mutex around every increment (mutexes.c, demo\_shared\_resource.c)\<close>

text \<open>The increment is a load and a store; \<open>left\<close> counts the rounds that remain.\<close>

datatype locked_pos = Outside | Locked | Loaded int | Stored

record locked_thread =
  lk_pos :: locked_pos
  lk_left :: nat

record locked_counter =
  lc_shared :: int
  lc_mutex :: "nat option"
  lc_threads :: "locked_thread list"

definition increment_counter :: "nat \<Rightarrow> locked_counter \<Rightarrow> locked_counter option option" where
  "increment_counter me s = do {
     th \<leftarrow> rd (lc_threads s) me;
     (case lk_pos th of
        Outside \<Rightarrow>
          if lk_left th = 0 \<or> lc_mutex s \<noteq> None then Some None
          else Some (Some (s\<lparr>lc_mutex := Some me, lc_threads := (lc_threads s)[me := th\<lparr>lk_pos := Locked\<rparr>]\<rparr>))
      | Locked \<Rightarrow> Some (Some (s\<lparr>lc_threads := (lc_threads s)[me := th\<lparr>lk_pos := Loaded (lc_shared s)\<rparr>]\<rparr>))
      | Loaded v \<Rightarrow> do {
          v' \<leftarrow> chk (v + 1);
          Some (Some (s\<lparr>lc_shared := v', lc_threads := (lc_threads s)[me := th\<lparr>lk_pos := Stored\<rparr>]\<rparr>)) }
      | Stored \<Rightarrow> Some (Some (s\<lparr>lc_mutex := None,
          lc_threads := (lc_threads s)[me := th\<lparr>lk_pos := Outside, lk_left := lk_left th - 1\<rparr>]\<rparr>))) }"

definition counter_start :: "nat \<Rightarrow> nat \<Rightarrow> locked_counter" where
  "counter_start threads rounds = \<lparr>lc_shared = 0, lc_mutex = None,
     lc_threads = replicate threads \<lparr>lk_pos = Outside, lk_left = rounds\<rparr>\<rparr>"

inductive counter_reach :: "nat \<Rightarrow> nat \<Rightarrow> locked_counter \<Rightarrow> bool" for k n where
  start: "counter_reach k n (counter_start k n)"
| step: "\<lbrakk>counter_reach k n s; increment_counter me s = Some (Some s')\<rbrakk> \<Longrightarrow> counter_reach k n s'"

text \<open>Rounds a thread still owes the counter: a stored increment has been paid.\<close>

definition owed :: "locked_thread \<Rightarrow> nat" where
  "owed th = lk_left th - (if lk_pos th = Stored then 1 else 0)"

definition counter_inv :: "nat \<Rightarrow> nat \<Rightarrow> locked_counter \<Rightarrow> bool" where
  "counter_inv k n s \<longleftrightarrow> length (lc_threads s) = k \<and> 0 \<le> lc_shared s \<and>
     lc_shared s + int (sum_list (map owed (lc_threads s))) = int (k * n) \<and>
     (\<forall>i < k. lk_pos (lc_threads s ! i) \<noteq> Outside \<longrightarrow> lc_mutex s = Some i \<and> 0 < lk_left (lc_threads s ! i)) \<and>
     (\<forall>i < k. \<forall>v. lk_pos (lc_threads s ! i) = Loaded v \<longrightarrow> v = lc_shared s) \<and>
     (\<forall>i. lc_mutex s = Some i \<longrightarrow> i < k \<and> lk_pos (lc_threads s ! i) \<noteq> Outside)"

lemma counter_invD:
  assumes "counter_inv k n s"
  shows "length (lc_threads s) = k" and "0 \<le> lc_shared s"
    and "lc_shared s + int (sum_list (map owed (lc_threads s))) = int (k * n)"
    and "\<lbrakk>i < k; lk_pos (lc_threads s ! i) \<noteq> Outside\<rbrakk> \<Longrightarrow> lc_mutex s = Some i \<and> 0 < lk_left (lc_threads s ! i)"
    and "\<lbrakk>i < k; lk_pos (lc_threads s ! i) = Loaded v\<rbrakk> \<Longrightarrow> v = lc_shared s"
    and "lc_mutex s = Some i \<Longrightarrow> i < k \<and> lk_pos (lc_threads s ! i) \<noteq> Outside"
  using assms unfolding counter_inv_def by blast+

lemma sum_owed_update:
  "i < length ths \<Longrightarrow> sum_list (map owed (ths[i := th])) + owed (ths ! i) = sum_list (map owed ths) + owed th"
  by (rule sum_map_update)

lemma counter_inv_step:
  assumes inv: "counter_inv k n s" and step: "increment_counter me s = Some (Some s')"
  shows "counter_inv k n s'"
proof -
  have "me < length (lc_threads s)"
    using step by (cases "me < length (lc_threads s)") (simp_all add: increment_counter_def)
  then have me: "me < k" unfolding counter_invD(1) [OF inv] .
  define th where "th = lc_threads s ! me"
  note len = counter_invD(1) [OF inv] and nn = counter_invD(2) [OF inv] and total = counter_invD(3) [OF inv]
    and pos = counter_invD(4) [OF inv] and val = counter_invD(5) [OF inv]
  have upd: "sum_list (map owed ((lc_threads s)[me := t])) + owed th = sum_list (map owed (lc_threads s)) + owed t" for t
    using sum_owed_update [of me "lc_threads s" t] me len by (simp add: th_def)
  have others: "lk_pos (lc_threads s ! i) = Outside" if "lc_mutex s = None \<or> lc_mutex s = Some me" "i < k" "i \<noteq> me" for i
    using pos [OF that(2)] that by (cases "lk_pos (lc_threads s ! i) = Outside") auto
  show ?thesis
  proof (cases "lk_pos th")
    case Outside
    then have s': "lc_mutex s = None" "lk_left th \<noteq> 0"
      "s' = s\<lparr>lc_mutex := Some me, lc_threads := (lc_threads s)[me := th\<lparr>lk_pos := Locked\<rparr>]\<rparr>"
      using step me len by (auto simp: increment_counter_def th_def split: if_splits)
    with others upd [of "th\<lparr>lk_pos := Locked\<rparr>"] total len nn me Outside show ?thesis
      by (auto simp: counter_inv_def nth_list_update owed_def)
  next
    case Locked
    then have s': "s' = s\<lparr>lc_threads := (lc_threads s)[me := th\<lparr>lk_pos := Loaded (lc_shared s)\<rparr>]\<rparr>"
      using step me len by (auto simp: increment_counter_def th_def)
    have "lc_mutex s = Some me" "0 < lk_left th" using pos [OF me] Locked by (auto simp: th_def)
    with s' others upd [of "th\<lparr>lk_pos := Loaded (lc_shared s)\<rparr>"] total len nn me Locked show ?thesis
      by (auto simp: counter_inv_def nth_list_update owed_def)
  next
    case (Loaded v)
    then have v: "v = lc_shared s" "lc_mutex s = Some me" "0 < lk_left th" using pos [OF me] val [OF me] by (auto simp: th_def)
    then have s': "s' = s\<lparr>lc_shared := lc_shared s + 1, lc_threads := (lc_threads s)[me := th\<lparr>lk_pos := Stored\<rparr>]\<rparr>"
      using step me len Loaded by (auto simp: increment_counter_def th_def bind_eq_Some_conv chk_eq_Some)
    have "owed th = Suc (owed (th\<lparr>lk_pos := Stored\<rparr>))" using v(3) Loaded by (simp add: owed_def)
    with upd [of "th\<lparr>lk_pos := Stored\<rparr>"] total
    have "lc_shared s' + int (sum_list (map owed (lc_threads s'))) = int (k * n)" by (simp add: s')
    with s' v others len nn me show ?thesis by (auto simp: counter_inv_def nth_list_update)
  next
    case Stored
    then have v: "lc_mutex s = Some me" "0 < lk_left th" using pos [OF me] by (auto simp: th_def)
    have s': "s' = s\<lparr>lc_mutex := None, lc_threads := (lc_threads s)[me := th\<lparr>lk_pos := Outside, lk_left := lk_left th - 1\<rparr>]\<rparr>"
      using step me len Stored by (auto simp: increment_counter_def th_def)
    have "owed (th\<lparr>lk_pos := Outside, lk_left := lk_left th - 1\<rparr>) = owed th" using Stored by (simp add: owed_def)
    with upd [of "th\<lparr>lk_pos := Outside, lk_left := lk_left th - 1\<rparr>"] s' v others total len nn me show ?thesis
      by (auto simp: counter_inv_def nth_list_update)
  qed
qed

text \<open>No increment is lost, and nobody waits for ever: unless all rounds are done, some thread can go on.\<close>

lemma locked_counter_counts:
  assumes reach: "counter_reach k n s" and small: "k * n \<le> 2147483647"
  shows "(\<forall>th \<in> set (lc_threads s). lk_left th = 0) \<longrightarrow> lc_shared s = int (k * n)"
    and "(\<exists>th \<in> set (lc_threads s). lk_left th \<noteq> 0) \<longrightarrow> (\<exists>i s'. i < k \<and> increment_counter i s = Some (Some s'))"
proof -
  from reach have inv: "counter_inv k n s"
  proof (induction rule: counter_reach.induct)
    case start
    show ?case by (simp add: counter_inv_def counter_start_def owed_def sum_list_replicate)
  qed (rule counter_inv_step)
  have total: "lc_shared s + int (sum_list (map owed (lc_threads s))) = int (k * n)"
    by (rule counter_invD(3) [OF inv])
  show "(\<forall>th \<in> set (lc_threads s). lk_left th = 0) \<longrightarrow> lc_shared s = int (k * n)"
  proof
    assume "\<forall>th \<in> set (lc_threads s). lk_left th = 0"
    then have "sum_list (map owed (lc_threads s)) = 0" by (simp add: owed_def)
    with total show "lc_shared s = int (k * n)" by simp
  qed
  show "(\<exists>th \<in> set (lc_threads s). lk_left th \<noteq> 0) \<longrightarrow> (\<exists>i s'. i < k \<and> increment_counter i s = Some (Some s'))"
  proof
    assume "\<exists>th \<in> set (lc_threads s). lk_left th \<noteq> 0"
    then obtain j where j: "j < k" "lk_left (lc_threads s ! j) \<noteq> 0"
      using counter_invD(1) [OF inv] by (auto simp: in_set_conv_nth)
    show "\<exists>i s'. i < k \<and> increment_counter i s = Some (Some s')"
    proof (cases "lc_mutex s")
      case None
      then have "lk_pos (lc_threads s ! j) = Outside" using counter_invD(4) [OF inv j(1)] by auto
      with None j counter_invD(1) [OF inv] show ?thesis by (intro exI [of _ j]) (simp add: increment_counter_def)
    next
      case (Some i)
      then have i: "i < k" "lk_pos (lc_threads s ! i) \<noteq> Outside" "length (lc_threads s) = k"
        using counter_invD(6) [OF inv Some] counter_invD(1) [OF inv] by auto
      have "\<exists>s'. increment_counter i s = Some (Some s')"
      proof (cases "lk_pos (lc_threads s ! i)")
        case (Loaded v)
        have left: "0 < lk_left (lc_threads s ! i)" using counter_invD(4) [OF inv i(1,2)] by simp
        have "owed (lc_threads s ! i) \<le> sum_list (map owed (lc_threads s))"
          using i(1,3) by (intro member_le_sum_list) simp_all
        moreover have "owed (lc_threads s ! i) = lk_left (lc_threads s ! i)" using Loaded by (simp add: owed_def)
        ultimately have "lc_shared s + 1 \<le> int (k * n)" using left total by linarith
        moreover have v: "v = lc_shared s" by (rule counter_invD(5) [OF inv i(1) Loaded])
        moreover have "int (k * n) \<le> INT_MAX" using small unfolding INT_MAX_def by linarith
        ultimately have hi: "v + 1 \<le> INT_MAX" by simp
        have "0 \<le> v" using v counter_invD(2) [OF inv] by simp
        with hi Loaded i show ?thesis by (simp add: increment_counter_def int_ok_def INT_MIN_def)
      qed (use i in \<open>auto simp: increment_counter_def\<close>)
      then show ?thesis using i(1) by blast
    qed
  qed
qed


text \<open>The three programs: two threads with a million rounds, four with a million, five with a hundred thousand.\<close>

definition mutexes_main :: locked_counter where "mutexes_main = counter_start 2 1000000"
definition demonstrate_shared_resource :: locked_counter where "demonstrate_shared_resource = counter_start 4 1000000"
definition thread_concepts_main :: locked_counter where "thread_concepts_main = counter_start 5 100000"

text \<open>With the mutex around it, no increment is lost, and the programs neither overflow nor deadlock: for any number of
  threads and rounds whose product fits in an \<open>int\<close>, in every reachable state either all threads have done
  their rounds and the counter holds exactly the product, or some thread can take a step.\<close>
theorem mutex_counter_exact:
  assumes "counter_reach k n s" and "k * n \<le> 2147483647"
  shows "if \<forall>th \<in> set (lc_threads s). lk_left th = 0 then lc_shared s = int (k * n)
    else \<exists>i s'. i < k \<and> increment_counter i s = Some (Some s')"
  using locked_counter_counts [OF assms] by simp

theorem mutex_counter_exact_witness:
  "(\<exists>i s'. i < 2 \<and> increment_counter i mutexes_main = Some (Some s')) \<and>
    (\<exists>i s'. i < 4 \<and> increment_counter i demonstrate_shared_resource = Some (Some s')) \<and>
    (\<exists>i s'. i < 5 \<and> increment_counter i thread_concepts_main = Some (Some s'))"
  using mutex_counter_exact [of 2 1000000 mutexes_main] mutex_counter_exact [of 4 1000000 demonstrate_shared_resource]
    mutex_counter_exact [of 5 100000 thread_concepts_main]
    counter_reach.start [of 2 1000000] counter_reach.start [of 4 1000000] counter_reach.start [of 5 100000]
  by (simp add: mutexes_main_def demonstrate_shared_resource_def thread_concepts_main_def counter_start_def)

subsection \<open>Processes or threads (decision\_making.c)\<close>

record requirements =
  rq_isolation_weight :: int
  rq_performance_weight :: int
  rq_communication_weight :: int
  rq_security_weight :: int

text \<open>A score is built by four additions; each product and each sum must stay in the range of \<open>int\<close>.\<close>

definition add_score :: "int \<Rightarrow> int \<Rightarrow> int \<Rightarrow> int option" where
  "add_score weight factor score = do { p \<leftarrow> chk (weight * factor); chk (score + p) }"

definition suggest_implementation :: "requirements \<Rightarrow> string option" where
  "suggest_implementation reqs = do {
     p1 \<leftarrow> add_score (rq_isolation_weight reqs) 9 0;
     p2 \<leftarrow> add_score (rq_performance_weight reqs) 5 p1;
     p3 \<leftarrow> add_score (rq_communication_weight reqs) 3 p2;
     process_score \<leftarrow> add_score (rq_security_weight reqs) 9 p3;
     t1 \<leftarrow> add_score (rq_isolation_weight reqs) 3 0;
     t2 \<leftarrow> add_score (rq_performance_weight reqs) 8 t1;
     t3 \<leftarrow> add_score (rq_communication_weight reqs) 9 t2;
     thread_score \<leftarrow> add_score (rq_security_weight reqs) 4 t3;
     Some (if process_score > thread_score then ''Use Processes'' else ''Use Threads'') }"

text \<open>Only the differences of the factors matter: isolation and security speak for processes.\<close>

lemma suggest_implementation_criterion:
  assumes "\<forall>w \<in> {rq_isolation_weight reqs, rq_performance_weight reqs, rq_communication_weight reqs, rq_security_weight reqs}.
    \<bar>w\<bar> \<le> 10000000"
  shows "suggest_implementation reqs = Some
    (if 6 * rq_isolation_weight reqs + 5 * rq_security_weight reqs >
        3 * rq_performance_weight reqs + 6 * rq_communication_weight reqs
     then ''Use Processes'' else ''Use Threads'')"
proof -
  have add: "add_score w f s = Some (s + w * f)" if "\<bar>w * f\<bar> \<le> 90000000" "\<bar>s\<bar> \<le> 900000000" for w f s
  proof -
    have "int_ok (w * f)" "int_ok (s + w * f)" using that by (intro int_okI; linarith)+
    then show ?thesis by (simp add: add_score_def)
  qed
  obtain i p c q where r: "rq_isolation_weight reqs = i" "rq_performance_weight reqs = p"
    "rq_communication_weight reqs = c" "rq_security_weight reqs = q" by blast
  have b: "\<bar>i\<bar> \<le> 10000000" "\<bar>p\<bar> \<le> 10000000" "\<bar>c\<bar> \<le> 10000000" "\<bar>q\<bar> \<le> 10000000" using assms r by auto
  have "add_score i 9 0 = Some (0 + i * 9)" "add_score p 5 (i * 9) = Some (i * 9 + p * 5)"
    "add_score c 3 (i * 9 + p * 5) = Some (i * 9 + p * 5 + c * 3)"
    "add_score q 9 (i * 9 + p * 5 + c * 3) = Some (i * 9 + p * 5 + c * 3 + q * 9)"
    "add_score i 3 0 = Some (0 + i * 3)" "add_score p 8 (i * 3) = Some (i * 3 + p * 8)"
    "add_score c 9 (i * 3 + p * 8) = Some (i * 3 + p * 8 + c * 9)"
    "add_score q 4 (i * 3 + p * 8 + c * 9) = Some (i * 3 + p * 8 + c * 9 + q * 4)"
    using b by (intro add; linarith)+
  then show ?thesis unfolding suggest_implementation_def r by simp
qed

definition demonstrate_decision_making :: "string option" where
  "demonstrate_decision_making = suggest_implementation
     \<lparr>rq_isolation_weight = 8, rq_performance_weight = 5, rq_communication_weight = 3, rq_security_weight = 9\<rparr>"

lemma demonstrate_decision_making_result: "demonstrate_decision_making = Some ''Use Processes''"
  by (simp add: demonstrate_decision_making_def suggest_implementation_criterion)

subsection \<open>Benchmark results (benchmark.c)\<close>

definition NUM_RUNS :: nat where "NUM_RUNS = 10"

text \<open>Minimum and maximum as the loop of \<open>analyze_results\<close> finds them; the averages are floating point.\<close>

definition min_max :: "int list \<Rightarrow> (int \<times> int) option" where
  "min_max ts = do {
     t0 \<leftarrow> rd ts 0;
     for_loop 0 NUM_RUNS (\<lambda>i (mn, mx). do {
       t \<leftarrow> rd ts i;
       Some (if t < mn then t else mn, if t > mx then t else mx) }) (t0, t0) }"

definition analyze_results :: "int list \<Rightarrow> int list \<Rightarrow> ((int \<times> int) \<times> (int \<times> int)) option" where
  "analyze_results thread_times process_times = do {
     t \<leftarrow> min_max thread_times;
     p \<leftarrow> min_max process_times;
     Some (t, p) }"

lemma min_max_eq:
  assumes len: "length ts = NUM_RUNS"
  shows "min_max ts = Some (Min (set ts), Max (set ts))"
proof -
  have pos: "0 < length ts" using len by (simp add: NUM_RUNS_def)
  define S where "S k = insert (ts ! 0) (set (take k ts))" for k
  have S: "finite (S k)" "S k \<noteq> {}" for k by (auto simp: S_def)
  have "\<exists>s. for_loop 0 NUM_RUNS (\<lambda>i (mn, mx). do {
       t \<leftarrow> rd ts i;
       Some (if t < mn then t else mn, if t > mx then t else mx) }) (ts ! 0, ts ! 0) = Some s \<and>
       s = (Min (S NUM_RUNS), Max (S NUM_RUNS))"
  proof (rule for_loop_invar [where P = "\<lambda>k s. s = (Min (S k), Max (S k))"])
    show "(ts ! 0, ts ! 0) = (Min (S 0), Max (S 0))" by (simp add: S_def)
  next
    fix i s assume i: "i < NUM_RUNS" and s: "s = (Min (S i), Max (S i))"
    have "S (Suc i) = insert (ts ! i) (S i)" using i len by (auto simp: S_def take_Suc_conv_app_nth)
    then have "Min (S (Suc i)) = min (ts ! i) (Min (S i))" "Max (S (Suc i)) = max (ts ! i) (Max (S i))"
      using S [of i] by simp_all
    with i s len show "\<exists>s'. (case s of (mn, mx) \<Rightarrow> do {
       t \<leftarrow> rd ts i;
       Some (if t < mn then t else mn, if t > mx then t else mx) }) = Some s' \<and> s' = (Min (S (Suc i)), Max (S (Suc i)))"
      by (simp add: min_def max_def)
  qed simp
  moreover have "S NUM_RUNS = set ts" using len pos by (auto simp: S_def)
  ultimately show ?thesis using pos by (simp add: min_max_def)
qed

end
