(* ===== verification/Signalling.thy ===== *)
theory Signalling
  imports OS_Prelude Interleaving
begin

section \<open>Condition variables: d8 condition\_variables.c, d9 demo\_thread\_communication.c\<close>

text \<open>
  A consumer waits under a mutex until a producer has set a flag and signalled. \<open>pthread_cond_wait\<close> gives the
  mutex back and sleeps in one step; a signal wakes the consumer if it sleeps and is lost otherwise; a sleeping
  consumer may also wake up without a signal, as the standard allows. A step has the value \<open>None\<close> when the
  thread is blocked or has ended.
\<close>

subsection \<open>One exchange\<close>

datatype consumer_pos = C_Start | C_Holding | C_Asleep | C_Woken | C_Got | C_End
datatype producer_pos = P_Start | P_Holding | P_Set | P_Signalled | P_End
datatype role = Producer | Consumer

record exchange =
  ex_mutex :: "role option"
  ex_data :: int
  ex_ready :: int
  ex_consumer :: consumer_pos
  ex_producer :: producer_pos
  ex_received :: "int option"

text \<open>\<open>value\<close> is what the producer stores (\<open>rand ()\<close> in d9).\<close>

definition producer :: "int \<Rightarrow> exchange \<Rightarrow> exchange option" where
  "producer value s =
     (case ex_producer s of
        P_Start \<Rightarrow> if ex_mutex s = None then Some (s\<lparr>ex_mutex := Some Producer, ex_producer := P_Holding\<rparr>) else None
      | P_Holding \<Rightarrow> Some (s\<lparr>ex_data := value, ex_ready := 1, ex_producer := P_Set\<rparr>)
      | P_Set \<Rightarrow> Some (s\<lparr>ex_consumer := (if ex_consumer s = C_Asleep then C_Woken else ex_consumer s), ex_producer := P_Signalled\<rparr>)
      | P_Signalled \<Rightarrow> Some (s\<lparr>ex_mutex := None, ex_producer := P_End\<rparr>)
      | P_End \<Rightarrow> None)"

text \<open>The consumer holding the mutex tests the flag; a woken consumer first has to get the mutex again.\<close>

definition consumer :: "exchange \<Rightarrow> exchange option" where
  "consumer s =
     (case ex_consumer s of
        C_Start \<Rightarrow> if ex_mutex s = None then Some (s\<lparr>ex_mutex := Some Consumer, ex_consumer := C_Holding\<rparr>) else None
      | C_Holding \<Rightarrow>
          if ex_ready s = 0 then Some (s\<lparr>ex_mutex := None, ex_consumer := C_Asleep\<rparr>)
          else Some (s\<lparr>ex_received := Some (ex_data s), ex_consumer := C_Got\<rparr>)
      | C_Asleep \<Rightarrow> None
      | C_Woken \<Rightarrow> if ex_mutex s = None then Some (s\<lparr>ex_mutex := Some Consumer, ex_consumer := C_Holding\<rparr>) else None
      | C_Got \<Rightarrow> Some (s\<lparr>ex_mutex := None, ex_consumer := C_End\<rparr>)
      | C_End \<Rightarrow> None)"

definition spurious_wakeup :: "exchange \<Rightarrow> exchange option" where
  "spurious_wakeup s = (if ex_consumer s = C_Asleep then Some (s\<lparr>ex_consumer := C_Woken\<rparr>) else None)"

text \<open>The start of an exchange, with whatever the shared variables hold.\<close>

definition exchange_start :: "int \<Rightarrow> int \<Rightarrow> exchange" where
  "exchange_start data ready = \<lparr>ex_mutex = None, ex_data = data, ex_ready = ready, ex_consumer = C_Start,
     ex_producer = P_Start, ex_received = None\<rparr>"

text \<open>
  With the flag clear at the start, the flag tells that the producer has stored its value, and a sleeping consumer
  still has its signal before it.
\<close>

definition exchange_inv :: "int \<Rightarrow> exchange \<Rightarrow> bool" where
  "exchange_inv v s \<longleftrightarrow>
     (ex_mutex s = Some Producer \<longleftrightarrow> ex_producer s \<in> {P_Holding, P_Set, P_Signalled}) \<and>
     (ex_mutex s = Some Consumer \<longleftrightarrow> ex_consumer s \<in> {C_Holding, C_Got}) \<and>
     (ex_ready s \<noteq> 0 \<longleftrightarrow> ex_producer s \<in> {P_Set, P_Signalled, P_End}) \<and>
     (ex_ready s \<noteq> 0 \<longrightarrow> ex_data s = v) \<and>
     (ex_consumer s = C_Asleep \<longrightarrow> ex_producer s \<in> {P_Start, P_Holding, P_Set}) \<and>
     (ex_consumer s \<in> {C_Got, C_End} \<longrightarrow> ex_ready s \<noteq> 0 \<and> ex_received s = Some v)"

lemma producer_inv:
  assumes "exchange_inv v s" and "producer v s = Some s'"
  shows "exchange_inv v s'"
  using assms by (cases "ex_producer s") (simp_all add: exchange_inv_def producer_def split: if_splits, (auto)?)

lemma consumer_inv:
  assumes "exchange_inv v s" and "consumer s = Some s'"
  shows "exchange_inv v s'"
proof -
  have s': "s' = the (consumer s)" and ok: "consumer s \<noteq> None" using assms(2) by simp_all
  show ?thesis using assms(1) ok unfolding s'
    by (cases "ex_consumer s"; cases "ex_producer s") (simp_all add: exchange_inv_def consumer_def split: if_splits)
qed

lemma wakeup_inv:
  assumes "exchange_inv v s" and "spurious_wakeup s = Some s'"
  shows "exchange_inv v s'"
proof -
  have c: "ex_consumer s = C_Asleep" and s': "s' = s\<lparr>ex_consumer := C_Woken\<rparr>"
    using assms(2) by (auto simp: spurious_wakeup_def split: if_splits)
  show ?thesis using assms(1) c unfolding s' by (cases "ex_producer s") (simp_all add: exchange_inv_def)
qed

lemma exchange_start_inv: "exchange_inv v (exchange_start d 0)"
  by (simp add: exchange_inv_def exchange_start_def)

text \<open>Steps each thread still has to take; a wake-up without a signal costs the consumer a round.\<close>

definition exchange_rank :: "exchange \<Rightarrow> nat" where
  "exchange_rank s =
     (case ex_producer s of P_Start \<Rightarrow> 16 | P_Holding \<Rightarrow> 12 | P_Set \<Rightarrow> 8 | P_Signalled \<Rightarrow> 4 | P_End \<Rightarrow> 0) +
     (case ex_consumer s of C_Start \<Rightarrow> 4 | C_Woken \<Rightarrow> 4 | C_Holding \<Rightarrow> 3 | C_Asleep \<Rightarrow> 2 | C_Got \<Rightarrow> 1 | C_End \<Rightarrow> 0)"

lemma exchange_rank_decreases:
  "producer v s = Some s' \<Longrightarrow> exchange_rank s' < exchange_rank s"
  "consumer s = Some s' \<Longrightarrow> exchange_rank s' < exchange_rank s"
  by (auto simp: exchange_rank_def producer_def consumer_def split: producer_pos.splits consumer_pos.splits if_splits)

lemma exchange_progress:
  assumes "exchange_inv v s" and "producer v s = None" and "consumer s = None"
  shows "ex_producer s = P_End \<and> ex_consumer s = C_End"
  using assms
  by (cases "ex_producer s"; cases "ex_consumer s"; cases "ex_mutex s"; cases "the (ex_mutex s)")
    (simp_all add: exchange_inv_def producer_def consumer_def split: if_splits)

interpretation ex: ranked_threads "exchange_inv v" "[producer v, consumer]" "[spurious_wakeup]" exchange_rank for v
  by unfold_locales (auto intro: producer_inv consumer_inv wakeup_inv exchange_rank_decreases)

definition exchange_over :: "int \<Rightarrow> exchange \<Rightarrow> bool" where
  "exchange_over v s \<longleftrightarrow> ex_producer s = P_End \<and> ex_consumer s = C_End \<and> ex_received s = Some v \<and> ex_mutex s = None"

lemma exchange_rest_over:
  assumes inv: "exchange_inv v s" and rest: "\<forall>f \<in> set [producer v, consumer]. f s = None"
  shows "exchange_over v s"
proof -
  note e = exchange_progress [OF inv]
  have "ex_received s = Some v" using inv e rest unfolding exchange_inv_def by simp
  moreover have "ex_mutex s = None" using inv e rest by (cases "ex_mutex s"; cases "the (ex_mutex s)") (auto simp: exchange_inv_def)
  ultimately show ?thesis using e rest by (simp add: exchange_over_def)
qed

text \<open>No wake-up is lost. When the flag is clear at the start, then in whatever order the two threads run, with
  wake-ups without a signal thrown in, they take at most \<open>exchange_rank\<close> further steps, can always come to the end, and
  come to rest only there, with the value of the producer received and the mutex free; the consumer never receives
  anything but the value.\<close>
theorem exchange_delivers:
  assumes "(interleave [producer v, consumer, spurious_wakeup])\<^sup>*\<^sup>* (exchange_start d 0) s"
  shows "ends_within (exchange_rank s) [producer v, consumer] (exchange_over v) s \<and>
    (ex_consumer s \<in> {C_Got, C_End} \<longrightarrow> ex_received s = Some v)"
proof -
  have inv: "exchange_inv v s" using ex.reachable_inv [OF _ exchange_start_inv] assms by simp
  have "ex_received s = Some v" if "ex_consumer s \<in> {C_Got, C_End}" using inv that unfolding exchange_inv_def by blast
  with ex.threads_end_with [where Q = "exchange_over v", OF exchange_rest_over inv] show ?thesis by blast
qed

text \<open>The consumer runs first and sleeps, the producer wakes it.\<close>

theorem exchange_delivers_witness:
  "\<exists>s. (interleave [producer 5, consumer, spurious_wakeup])\<^sup>*\<^sup>* (exchange_start 0 0) s \<and> ex_consumer s = C_End \<and>
     ex_received s = Some 5"
proof -
  let ?t = "\<lparr>ex_mutex = None, ex_data = 5, ex_ready = 1, ex_consumer = C_End, ex_producer = P_End, ex_received = Some 5\<rparr>"
  have "run_schedule [producer 5, consumer, spurious_wakeup] [1, 1, 0, 0, 0, 0, 1, 1, 1] (exchange_start 0 0) = Some ?t"
    by code_simp
  then have r: "(interleave [producer 5, consumer, spurious_wakeup])\<^sup>*\<^sup>* (exchange_start 0 0) ?t" by (rule run_schedule_reaches)
  from exchange_delivers [OF r] have "ex_received ?t = Some 5" by simp
  with r show ?thesis by (intro exI [of _ ?t]) simp
qed

text \<open>
  The flag is never cleared: in the loop of d9 the second consumer finds it set, and can end with the value of the
  first round before the second producer has run.
\<close>

lemma second_round_stale:
  "\<exists>s. (interleave [producer v, consumer])\<^sup>*\<^sup>* (exchange_start old 1) s \<and> ex_consumer s = C_End \<and> ex_producer s = P_Start \<and>
     ex_received s = Some old"
proof -
  let ?t = "\<lparr>ex_mutex = None, ex_data = old, ex_ready = 1, ex_consumer = C_End, ex_producer = P_Start, ex_received = Some old\<rparr>"
  have "run_schedule [producer v, consumer] [1, 1, 1] (exchange_start old 1) = Some ?t"
    by (simp add: consumer_def exchange_start_def)
  then have "(interleave [producer v, consumer])\<^sup>*\<^sup>* (exchange_start old 1) ?t" by (rule run_schedule_reaches)
  then show ?thesis by (intro exI [of _ ?t]) simp
qed

subsection \<open>The barrier (d8 barriers.c)\<close>

definition NUM_THREADS :: nat where "NUM_THREADS = 3"

datatype barrier_pos = B_Start | B_Before | B_Waiting | B_After

text \<open>
  \<open>pthread_barrier_wait\<close> counts the threads that have arrived; the last one lets all of them go on.
\<close>

record barrier_state =
  ba_arrived :: nat
  ba_threads :: "barrier_pos list"

definition barrier_thread :: "nat \<Rightarrow> barrier_state \<Rightarrow> barrier_state option" where
  "barrier_thread i s =
     (if i < length (ba_threads s) then
        (case ba_threads s ! i of
           B_Start \<Rightarrow> Some (s\<lparr>ba_threads := (ba_threads s)[i := B_Before]\<rparr>)
         | B_Before \<Rightarrow>
             if ba_arrived s + 1 = NUM_THREADS
             then Some \<lparr>ba_arrived = 0, ba_threads = map (\<lambda>t. if t = B_Waiting then B_After else t) ((ba_threads s)[i := B_After])\<rparr>
             else Some \<lparr>ba_arrived = ba_arrived s + 1, ba_threads = (ba_threads s)[i := B_Waiting]\<rparr>
         | _ \<Rightarrow> None)
      else None)"

definition barrier_start :: barrier_state where
  "barrier_start = \<lparr>ba_arrived = 0, ba_threads = replicate NUM_THREADS B_Start\<rparr>"

inductive barrier_reach :: "barrier_state \<Rightarrow> bool" where
  start: "barrier_reach barrier_start"
| step: "\<lbrakk>barrier_reach s; barrier_thread i s = Some s'\<rbrakk> \<Longrightarrow> barrier_reach s'"

definition barrier_inv :: "barrier_state \<Rightarrow> bool" where
  "barrier_inv s \<longleftrightarrow> length (ba_threads s) = NUM_THREADS \<and>
     (if B_After \<in> set (ba_threads s) then set (ba_threads s) = {B_After} \<and> ba_arrived s = 0
      else ba_arrived s = count_if (\<lambda>t. t = B_Waiting) (ba_threads s) \<and> ba_arrived s < NUM_THREADS)"

lemma all_waiting_but_one:
  assumes "count_if (\<lambda>t. t = x) ts + 1 = length ts" and "i < length ts" and "ts ! i \<noteq> x"
  shows "j < length ts \<Longrightarrow> j \<noteq> i \<Longrightarrow> ts ! j = x"
proof -
  assume j: "j < length ts" "j \<noteq> i"
  have "count_if (\<lambda>t. t = x) (ts[i := x]) = length (ts[i := x])"
    using count_if_update [OF assms(2), of "\<lambda>t. t = x" x] assms by simp
  then have "\<forall>t \<in> set (ts[i := x]). t = x" unfolding count_if_full .
  then have "ts[i := x] ! j = x" using j by (auto simp: all_set_conv_all_nth)
  with j show ?thesis by simp
qed

lemma barrier_inv_step:
  assumes inv: "barrier_inv s" and step: "barrier_thread i s = Some s'"
  shows "barrier_inv s'"
proof -
  let ?ts = "ba_threads s"
  have i: "i < length ?ts" using step by (simp add: barrier_thread_def split: if_splits)
  have mem: "?ts ! i \<in> set ?ts" using i by simp
  have len: "length ?ts = NUM_THREADS" using inv by (simp add: barrier_inv_def)
  have pos: "?ts ! i \<noteq> B_After" using step i by (auto simp: barrier_thread_def)
  then have none: "B_After \<notin> set ?ts" using inv mem by (auto simp: barrier_inv_def split: if_splits)
  then have cnt: "ba_arrived s = count_if (\<lambda>t. t = B_Waiting) ?ts" "ba_arrived s < NUM_THREADS"
    using inv by (simp_all add: barrier_inv_def)
  show ?thesis
  proof (cases "?ts ! i")
    case B_Start
    then have s': "s' = s\<lparr>ba_threads := ?ts[i := B_Before]\<rparr>" using step i by (simp add: barrier_thread_def)
    have "B_After \<notin> set (?ts[i := B_Before])" using none set_update_subset_insert [of ?ts i B_Before] by auto
    with s' cnt len B_Start count_if_update [OF i, of "\<lambda>t. t = B_Waiting" B_Before] show ?thesis by (simp add: barrier_inv_def)
  next
    case B_Before
    show ?thesis
    proof (cases "ba_arrived s + 1 = NUM_THREADS")
      case False
      then have s': "s' = \<lparr>ba_arrived = ba_arrived s + 1, ba_threads = ?ts[i := B_Waiting]\<rparr>"
        using step i B_Before by (simp add: barrier_thread_def)
      have "B_After \<notin> set (?ts[i := B_Waiting])" using none set_update_subset_insert [of ?ts i B_Waiting] by auto
      with s' cnt len B_Before False count_if_update [OF i, of "\<lambda>t. t = B_Waiting" B_Waiting] show ?thesis
        by (simp add: barrier_inv_def)
    next
      case True
      then have s': "s' = \<lparr>ba_arrived = 0, ba_threads = map (\<lambda>t. if t = B_Waiting then B_After else t) (?ts[i := B_After])\<rparr>"
        using step i B_Before by (simp add: barrier_thread_def)
      have "?ts[i := B_After] ! j \<in> {B_Waiting, B_After}" if "j < length ?ts" for j
        using all_waiting_but_one [of B_Waiting ?ts i j] True cnt len i B_Before that by (cases "j = i") auto
      then have "\<forall>t \<in> set (?ts[i := B_After]). t \<in> {B_Waiting, B_After}" by (simp add: all_set_conv_all_nth)
      then have "\<forall>t \<in> set (ba_threads s'). t = B_After" by (auto simp: s')
      moreover have "ba_threads s' \<noteq> []" using i by (auto simp: s')
      ultimately have "set (ba_threads s') = {B_After}" by (cases "ba_threads s'") auto
      then show ?thesis using len by (simp add: barrier_inv_def s')
    qed
  qed (use step i in \<open>simp_all add: barrier_thread_def\<close>)
qed

text \<open>No thread passes the barrier before all have reached it, and nobody stays behind.\<close>

lemma barrier_together:
  assumes "barrier_reach s"
  shows "B_After \<in> set (ba_threads s) \<Longrightarrow> set (ba_threads s) = {B_After}"
    and "(\<forall>i. barrier_thread i s = None) \<Longrightarrow> set (ba_threads s) = {B_After}"
proof -
  from assms have inv: "barrier_inv s"
  proof (induction rule: barrier_reach.induct)
    case start
    show ?case by (simp add: barrier_inv_def barrier_start_def NUM_THREADS_def count_if_replicate)
  qed (rule barrier_inv_step)
  then show "B_After \<in> set (ba_threads s) \<Longrightarrow> set (ba_threads s) = {B_After}" by (simp add: barrier_inv_def)
  show "set (ba_threads s) = {B_After}" if stuck: "\<forall>i. barrier_thread i s = None"
  proof (rule ccontr)
    assume not_all: "set (ba_threads s) \<noteq> {B_After}"
    then have none: "B_After \<notin> set (ba_threads s)" using inv by (auto simp: barrier_inv_def split: if_splits)
    then have "count_if (\<lambda>t. t = B_Waiting) (ba_threads s) \<noteq> length (ba_threads s)" using inv by (simp add: barrier_inv_def)
    then obtain t where "t \<in> set (ba_threads s)" "t \<noteq> B_Waiting" by (auto simp: count_if_full)
    then obtain i where i: "i < length (ba_threads s)" "ba_threads s ! i \<noteq> B_Waiting" by (auto simp: in_set_conv_nth)
    have "ba_threads s ! i \<noteq> B_After" using none i(1) by (metis nth_mem)
    with stuck i show False by (cases "ba_threads s ! i") (auto simp: barrier_thread_def split: if_splits dest: spec [of _ i])
  qed
qed

end
