(* ===== verification/Value_Stream.thy ===== *)
theory Value_Stream
  imports Signalling Interleaving "HOL-Library.Sublist"
begin

section \<open>A stream of values: d9 real\_time\_communication.c\<close>

text \<open>
  The producer stores ten values one after the other, each under the mutex, and sleeps in between; the consumer
  takes what it finds, clears the flag and waits for more, without end. \<open>sample i\<close> stands for the
  \<open>double\<close> \<open>i * 1.5\<close>. Waiting and waking are those of Signalling.
\<close>

datatype rt_producer_pos = RP_Unlocked | RP_Holding | RP_Set | RP_Signalled
datatype rt_consumer_pos = RC_Unlocked | RC_Holding | RC_Asleep | RC_Woken | RC_Printed | RC_Cleared

record 'd stream_state =
  rt_mutex :: "role option"
  rt_data :: 'd
  rt_ready :: int
  rt_round :: nat
  rt_producer :: rt_producer_pos
  rt_consumer :: rt_consumer_pos
  rt_received :: "'d list"

definition ROUNDS :: nat where "ROUNDS = 10"

definition real_time_producer :: "(nat \<Rightarrow> 'd) \<Rightarrow> 'd stream_state \<Rightarrow> 'd stream_state option" where
  "real_time_producer sample s =
     (case rt_producer s of
        RP_Unlocked \<Rightarrow>
          if rt_round s < ROUNDS \<and> rt_mutex s = None then Some (s\<lparr>rt_mutex := Some Producer, rt_producer := RP_Holding\<rparr>)
          else None
      | RP_Holding \<Rightarrow> Some (s\<lparr>rt_data := sample (rt_round s), rt_ready := 1, rt_producer := RP_Set\<rparr>)
      | RP_Set \<Rightarrow> Some (s\<lparr>rt_consumer := (if rt_consumer s = RC_Asleep then RC_Woken else rt_consumer s),
          rt_producer := RP_Signalled\<rparr>)
      | RP_Signalled \<Rightarrow> Some (s\<lparr>rt_mutex := None, rt_producer := RP_Unlocked, rt_round := rt_round s + 1\<rparr>))"

definition real_time_consumer :: "'d stream_state \<Rightarrow> 'd stream_state option" where
  "real_time_consumer s =
     (case rt_consumer s of
        RC_Unlocked \<Rightarrow> if rt_mutex s = None then Some (s\<lparr>rt_mutex := Some Consumer, rt_consumer := RC_Holding\<rparr>) else None
      | RC_Holding \<Rightarrow>
          if rt_ready s = 0 then Some (s\<lparr>rt_mutex := None, rt_consumer := RC_Asleep\<rparr>)
          else Some (s\<lparr>rt_received := rt_received s @ [rt_data s], rt_consumer := RC_Printed\<rparr>)
      | RC_Asleep \<Rightarrow> None
      | RC_Woken \<Rightarrow> if rt_mutex s = None then Some (s\<lparr>rt_mutex := Some Consumer, rt_consumer := RC_Holding\<rparr>) else None
      | RC_Printed \<Rightarrow> Some (s\<lparr>rt_ready := 0, rt_consumer := RC_Cleared\<rparr>)
      | RC_Cleared \<Rightarrow> Some (s\<lparr>rt_mutex := None, rt_consumer := RC_Unlocked\<rparr>))"

definition rt_wakeup :: "'d stream_state \<Rightarrow> 'd stream_state option" where
  "rt_wakeup s = (if rt_consumer s = RC_Asleep then Some (s\<lparr>rt_consumer := RC_Woken\<rparr>) else None)"

definition stream_start :: "'d \<Rightarrow> 'd stream_state" where
  "stream_start zero = \<lparr>rt_mutex = None, rt_data = zero, rt_ready = 0, rt_round = 0, rt_producer = RP_Unlocked,
     rt_consumer = RC_Unlocked, rt_received = []\<rparr>"

text \<open>Values stored so far, and those of them the consumer cannot receive any more.\<close>

definition stored :: "'d stream_state \<Rightarrow> nat" where
  "stored s = rt_round s + (if rt_producer s \<in> {RP_Set, RP_Signalled} then 1 else 0)"

definition waiting_value :: "'d stream_state \<Rightarrow> bool" where
  "waiting_value s \<longleftrightarrow> rt_ready s \<noteq> 0 \<and> rt_consumer s \<noteq> RC_Printed"

definition stream_lock_inv :: "'d stream_state \<Rightarrow> bool" where
  "stream_lock_inv s \<longleftrightarrow>
     (rt_mutex s = Some Producer \<longleftrightarrow> rt_producer s \<noteq> RP_Unlocked) \<and>
     (rt_mutex s = Some Consumer \<longleftrightarrow> rt_consumer s \<in> {RC_Holding, RC_Printed, RC_Cleared}) \<and>
     (rt_consumer s = RC_Printed \<longrightarrow> rt_ready s \<noteq> 0) \<and> (rt_consumer s = RC_Cleared \<longrightarrow> rt_ready s = 0) \<and>
     (rt_producer s \<in> {RP_Set, RP_Signalled} \<longrightarrow> rt_ready s \<noteq> 0) \<and>
     (rt_producer s \<noteq> RP_Unlocked \<longrightarrow> rt_round s < ROUNDS) \<and> rt_round s \<le> ROUNDS \<and>
     (rt_consumer s = RC_Asleep \<and> rt_ready s \<noteq> 0 \<longrightarrow> rt_producer s = RP_Set)"

definition stream_data_inv :: "(nat \<Rightarrow> 'd) \<Rightarrow> 'd stream_state \<Rightarrow> bool" where
  "stream_data_inv sample s \<longleftrightarrow>
     (if waiting_value s
      then 0 < stored s \<and> rt_data s = sample (stored s - 1) \<and> subseq (rt_received s) (map sample [0..<stored s - 1])
      else subseq (rt_received s) (map sample [0..<stored s]) \<and>
        (0 < stored s \<longrightarrow> rt_received s \<noteq> [] \<and> last (rt_received s) = sample (stored s - 1)))"

lemma stream_producer_lock: "stream_lock_inv s \<Longrightarrow> real_time_producer sample s = Some s' \<Longrightarrow> stream_lock_inv s'"
  by (cases "rt_producer s"; cases "rt_consumer s") (auto simp: stream_lock_inv_def real_time_producer_def split: if_splits)

lemma stream_consumer_lock:
  assumes "stream_lock_inv s" and "real_time_consumer s = Some s'"
  shows "stream_lock_inv s'"
proof -
  have s': "s' = the (real_time_consumer s)" and ok: "real_time_consumer s \<noteq> None" using assms(2) by simp_all
  show ?thesis using assms(1) ok unfolding s'
    by (cases "rt_consumer s"; cases "rt_producer s") (simp_all add: stream_lock_inv_def real_time_consumer_def split: if_splits)
qed

lemma stream_wakeup_lock:
  assumes "stream_lock_inv s" and "rt_wakeup s = Some s'"
  shows "stream_lock_inv s'"
proof -
  have c: "rt_consumer s = RC_Asleep" and s': "s' = s\<lparr>rt_consumer := RC_Woken\<rparr>"
    using assms(2) by (auto simp: rt_wakeup_def split: if_splits)
  show ?thesis using assms(1) c unfolding s' by (cases "rt_producer s") (auto simp: stream_lock_inv_def)
qed

lemma upt_pred: "0 < n \<Longrightarrow> [0..<n] = [0..<n - 1] @ [n - 1]"
  by (cases n) auto

lemma subseq_upt_Suc: "subseq xs (map f [0..<n]) \<Longrightarrow> subseq xs (map f [0..<Suc n])"
  by (auto intro: subseq_order.order_trans)

text \<open>A new value replaces the one that was waiting, or comes after all that have been received.\<close>

lemma stream_data_subseq: "stream_data_inv sample s \<Longrightarrow> subseq (rt_received s) (map sample [0..<stored s])"
  using upt_pred [of "stored s"] by (auto simp: stream_data_inv_def intro: subseq_order.order_trans split: if_splits)

lemma stream_data_cong:
  assumes "stored s' = stored s" "waiting_value s' = waiting_value s" "rt_data s' = rt_data s" "rt_received s' = rt_received s"
  shows "stream_data_inv sample s' = stream_data_inv sample s"
  unfolding stream_data_inv_def assms ..

lemma stream_producer_data:
  assumes lock: "stream_lock_inv s" and inv: "stream_data_inv sample s" and step: "real_time_producer sample s = Some s'"
  shows "stream_data_inv sample s'"
proof (cases "rt_producer s")
  case RP_Holding
  then have s': "s' = s\<lparr>rt_data := sample (rt_round s), rt_ready := 1, rt_producer := RP_Set\<rparr>"
    using step by (simp add: real_time_producer_def)
  have "rt_consumer s \<noteq> RC_Printed" using lock RP_Holding by (auto simp: stream_lock_inv_def)
  moreover have "stored s = rt_round s" using RP_Holding by (simp add: stored_def)
  ultimately show ?thesis using stream_data_subseq [OF inv]
    by (simp add: s' stream_data_inv_def waiting_value_def stored_def)
next
  case RP_Set
  then have s': "s' = s\<lparr>rt_consumer := (if rt_consumer s = RC_Asleep then RC_Woken else rt_consumer s), rt_producer := RP_Signalled\<rparr>"
    using step by (simp add: real_time_producer_def)
  then have "stored s' = stored s" "waiting_value s' = waiting_value s" "rt_data s' = rt_data s" "rt_received s' = rt_received s"
    using RP_Set by (auto simp: stored_def waiting_value_def)
  then show ?thesis using inv stream_data_cong by blast
next
  case RP_Unlocked
  then have "stored s' = stored s" "waiting_value s' = waiting_value s" "rt_data s' = rt_data s" "rt_received s' = rt_received s"
    using step by (auto simp: stored_def waiting_value_def real_time_producer_def split: if_splits)
  then show ?thesis using inv stream_data_cong by blast
next
  case RP_Signalled
  then have "stored s' = stored s" "waiting_value s' = waiting_value s" "rt_data s' = rt_data s" "rt_received s' = rt_received s"
    using step by (auto simp: stored_def waiting_value_def real_time_producer_def)
  then show ?thesis using inv stream_data_cong by blast
qed

lemma stream_consumer_data:
  assumes inv: "stream_data_inv sample s" and step: "real_time_consumer s = Some s'"
  shows "stream_data_inv sample s'"
proof (cases "rt_consumer s = RC_Holding \<and> rt_ready s \<noteq> 0")
  case True
  then have s': "s' = s\<lparr>rt_received := rt_received s @ [rt_data s], rt_consumer := RC_Printed\<rparr>"
    using step by (simp add: real_time_consumer_def)
  have w: "waiting_value s" "\<not> waiting_value s'" "stored s' = stored s"
    using True by (simp_all add: waiting_value_def stored_def s')
  then have st: "0 < stored s" "rt_data s = sample (stored s - 1)" "subseq (rt_received s) (map sample [0..<stored s - 1])"
    using inv by (simp_all add: stream_data_inv_def)
  have "subseq (rt_received s') (map sample [0..<stored s])"
    using st by (simp add: s' upt_pred [OF st(1)] list_emb_append_mono)
  then show ?thesis using w st by (simp add: stream_data_inv_def) (simp add: s')
next
  case False
  then have "stored s' = stored s" "waiting_value s' = waiting_value s" "rt_data s' = rt_data s" "rt_received s' = rt_received s"
    using step by (auto simp: stored_def waiting_value_def real_time_consumer_def split: if_splits rt_consumer_pos.splits)
  then show ?thesis using inv stream_data_cong by blast
qed

lemma stream_wakeup_data:
  assumes inv: "stream_data_inv sample s" and step: "rt_wakeup s = Some s'"
  shows "stream_data_inv sample s'"
proof -
  have "stored s' = stored s" "waiting_value s' = waiting_value s" "rt_data s' = rt_data s" "rt_received s' = rt_received s"
    using step by (auto simp: stored_def waiting_value_def rt_wakeup_def split: if_splits)
  then show ?thesis using inv stream_data_cong by blast
qed

text \<open>Steps still to come when nobody wakes up without a signal.\<close>

definition producer_phase :: "rt_producer_pos \<Rightarrow> nat" where
  "producer_phase p = (case p of RP_Unlocked \<Rightarrow> 0 | RP_Holding \<Rightarrow> 1 | RP_Set \<Rightarrow> 2 | RP_Signalled \<Rightarrow> 3)"

definition consumer_phase :: "bool \<Rightarrow> rt_consumer_pos \<Rightarrow> nat" where
  "consumer_phase ready c =
     (case c of RC_Asleep \<Rightarrow> 0 | RC_Cleared \<Rightarrow> 3 | RC_Printed \<Rightarrow> 4 | RC_Holding \<Rightarrow> if ready then 5 else 1
      | RC_Unlocked \<Rightarrow> if ready then 6 else 2 | RC_Woken \<Rightarrow> if ready then 6 else 2)"

definition stream_rank :: "'d stream_state \<Rightarrow> nat" where
  "stream_rank s = 7 * (4 * (ROUNDS - rt_round s) - producer_phase (rt_producer s)) +
     consumer_phase (rt_ready s \<noteq> 0) (rt_consumer s)"

lemma consumer_phase_le: "consumer_phase r c \<le> 6"
  by (cases c) (simp_all add: consumer_phase_def)

lemma stream_producer_rank:
  assumes lock: "stream_lock_inv s" and step: "real_time_producer sample s = Some s'"
  shows "stream_rank s' < stream_rank s"
proof -
  let ?m = "\<lambda>t. 4 * (ROUNDS - rt_round t) - producer_phase (rt_producer t)"
  have "rt_round s < ROUNDS" using lock step
    by (cases "rt_producer s") (simp_all add: stream_lock_inv_def real_time_producer_def split: if_splits)
  then have "?m s' < ?m s"
    using step by (cases "rt_producer s") (auto simp: real_time_producer_def producer_phase_def split: if_splits)
  then show ?thesis using consumer_phase_le [of "rt_ready s' \<noteq> 0" "rt_consumer s'"] by (simp add: stream_rank_def)
qed

lemma stream_consumer_rank:
  assumes lock: "stream_lock_inv s" and step: "real_time_consumer s = Some s'"
  shows "stream_rank s' < stream_rank s"
proof -
  have "rt_consumer s = RC_Cleared \<longrightarrow> rt_ready s = 0" using lock by (simp add: stream_lock_inv_def)
  then show ?thesis using step
    by (cases "rt_consumer s") (auto simp: real_time_consumer_def stream_rank_def consumer_phase_def split: if_splits)
qed

lemma stream_progress:
  assumes "stream_lock_inv s" and "real_time_producer sample s = None" and "real_time_consumer s = None"
  shows "rt_round s = ROUNDS \<and> rt_producer s = RP_Unlocked \<and> rt_consumer s = RC_Asleep \<and> rt_ready s = 0"
  using assms
  by (cases "rt_producer s"; cases "rt_consumer s"; cases "rt_mutex s"; cases "the (rt_mutex s)")
    (simp_all add: stream_lock_inv_def real_time_producer_def real_time_consumer_def split: if_splits)

definition stream_inv :: "(nat \<Rightarrow> 'd) \<Rightarrow> 'd stream_state \<Rightarrow> bool" where
  "stream_inv sample s \<longleftrightarrow> stream_lock_inv s \<and> stream_data_inv sample s"

lemmas stream_steps_inv = stream_producer_lock stream_producer_data stream_consumer_lock stream_consumer_data
  stream_wakeup_lock stream_wakeup_data

interpretation st: ranked_threads "stream_inv sample" "[real_time_producer sample, real_time_consumer]" "[rt_wakeup]" stream_rank
  for sample
  by unfold_locales (auto simp: stream_inv_def intro: stream_steps_inv stream_producer_rank stream_consumer_rank)

lemma stream_start_inv: "stream_inv sample (stream_start zero)"
  by (simp add: stream_inv_def stream_lock_inv_def stream_data_inv_def stream_start_def waiting_value_def stored_def)

text \<open>All values produced, the last one received, and the consumer asleep with nobody left to wake it.\<close>

definition stream_over :: "(nat \<Rightarrow> 'd) \<Rightarrow> 'd stream_state \<Rightarrow> bool" where
  "stream_over sample s \<longleftrightarrow> rt_round s = ROUNDS \<and> rt_consumer s = RC_Asleep \<and> rt_received s \<noteq> [] \<and>
     last (rt_received s) = sample (ROUNDS - 1)"

lemma stream_rest_over:
  assumes "stream_inv sample s" and "\<forall>f \<in> set [real_time_producer sample, real_time_consumer]. f s = None"
  shows "stream_over sample s"
proof -
  have lock: "stream_lock_inv s" and data: "stream_data_inv sample s" using assms(1) by (simp_all add: stream_inv_def)
  from stream_progress [OF lock, of sample] assms(2) data show ?thesis
    by (simp add: stream_over_def stream_data_inv_def waiting_value_def stored_def ROUNDS_def)
qed

lemma stream_in_order:
  assumes "stream_inv sample s"
  shows "subseq (rt_received s) (map sample [0..<ROUNDS])"
proof -
  have lock: "stream_lock_inv s" and data: "stream_data_inv sample s" using assms by (simp_all add: stream_inv_def)
  have "stored s \<le> ROUNDS" using lock by (cases "rt_producer s") (simp_all add: stored_def stream_lock_inv_def)
  then obtain k where "ROUNDS = stored s + k" using le_iff_add by blast
  then have "[0..<ROUNDS] = [0..<stored s] @ [stored s..<ROUNDS]" using upt_add_eq_append [of 0 "stored s" k] by simp
  then have "subseq (map sample [0..<stored s]) (map sample [0..<ROUNDS])" by (simp add: prefix_imp_subseq)
  with stream_data_subseq [OF data] show ?thesis by (rule subseq_order.order_trans)
qed

text \<open>C22: What the consumer receives is in the order in which it was produced, without repetition, though values may be
  overwritten before they are read. However the threads are scheduled, and after any wake-ups without a
  signal, they take at most \<open>stream_rank\<close> further steps, can always come to rest, and rest only when all ten values have been
  produced and the last of them has been received; the consumer then sleeps for ever.\<close>
theorem real_time_stream:
  assumes "(interleave [real_time_producer sample, real_time_consumer, rt_wakeup])\<^sup>*\<^sup>* (stream_start zero) s"
  shows "subseq (rt_received s) (map sample [0..<ROUNDS]) \<and>
    ends_within (stream_rank s) [real_time_producer sample, real_time_consumer] (stream_over sample) s"
proof -
  have inv: "stream_inv sample s" using st.reachable_inv [OF _ stream_start_inv] assms by simp
  with stream_in_order st.threads_end_with [where Q = "stream_over sample", OF stream_rest_over inv] show ?thesis by blast
qed

theorem real_time_stream_witness:
  "ends_within 282 [real_time_producer (\<lambda>i. int i * 3), real_time_consumer]
     (\<lambda>s. rt_round s = 10 \<and> rt_consumer s = RC_Asleep \<and> rt_received s \<noteq> [] \<and> last (rt_received s) = 27) (stream_start 0)"
proof -
  have "stream_rank (stream_start (0::int)) = 282"
    by (simp add: stream_rank_def stream_start_def ROUNDS_def producer_phase_def consumer_phase_def)
  moreover have "stream_over (\<lambda>i. int i * 3) =
      (\<lambda>s. rt_round s = 10 \<and> rt_consumer s = RC_Asleep \<and> rt_received s \<noteq> [] \<and> last (rt_received s) = 27)"
    by (simp add: fun_eq_iff stream_over_def ROUNDS_def)
  ultimately show ?thesis using real_time_stream [of "\<lambda>i. int i * 3" "0::int" "stream_start 0", OF rtranclp.rtrancl_refl] by simp
qed

end
