(* ===== verification/Queue_Program.thy ===== *)
theory Queue_Program
  imports Thread_Queues Interleaving
begin

section \<open>Producers and consumers around the thread-safe queue: d8 combined.c\<close>

text \<open>
  The program of d8: five producers push five values each into the queue of Thread_Queues, five consumers pop five
  values each. An operation on the queue happens under its mutex and is one step, but a thread that has to wait goes
  to sleep on the condition variable, and only a signal (or a wake-up without one) makes it run and test
  again. A push signals one sleeping consumer, if there is one, a pop one sleeping producer; \<open>w\<close> is the
  one the system chooses.
\<close>

definition NUM_THREADS :: nat where "NUM_THREADS = 5"
definition VALUES :: nat where "VALUES = 5"

text \<open>A thread that has done \<open>qt_i\<close> rounds of its loop.\<close>

record queue_thread =
  qt_i :: nat
  qt_asleep :: bool

record queue_program =
  qp_queue :: thread_safe_queue
  qp_producers :: "queue_thread list"
  qp_consumers :: "queue_thread list"
  qp_popped :: "int list"

definition cond_signal :: "nat \<Rightarrow> queue_thread list \<Rightarrow> queue_thread list" where
  "cond_signal w ths = (if w < length ths then ths[w := (ths ! w)\<lparr>qt_asleep := False\<rparr>] else ths)"

definition may_wake :: "nat \<Rightarrow> queue_thread list \<Rightarrow> bool" where
  "may_wake w ths \<longleftrightarrow> (if \<exists>t \<in> set ths. qt_asleep t then w < length ths \<and> qt_asleep (ths ! w) else length ths \<le> w)"

definition producer :: "nat \<Rightarrow> nat \<Rightarrow> queue_program \<Rightarrow> queue_program option option" where
  "producer w me s = do {
     th \<leftarrow> rd (qp_producers s) me;
     if qt_i th = VALUES \<or> qt_asleep th then Some None
     else do {
       v \<leftarrow> chk (int me * 100 + int (qt_i th));
       r \<leftarrow> queue_push v (qp_queue s);
       (case r of
          None \<Rightarrow> Some (Some (s\<lparr>qp_producers := (qp_producers s)[me := th\<lparr>qt_asleep := True\<rparr>]\<rparr>))
        | Some q \<Rightarrow> Some (Some (s\<lparr>qp_queue := q, qp_producers := (qp_producers s)[me := th\<lparr>qt_i := qt_i th + 1\<rparr>],
            qp_consumers := cond_signal w (qp_consumers s)\<rparr>))) } }"

definition consumer :: "nat \<Rightarrow> nat \<Rightarrow> queue_program \<Rightarrow> queue_program option option" where
  "consumer w me s = do {
     th \<leftarrow> rd (qp_consumers s) me;
     if qt_i th = VALUES \<or> qt_asleep th then Some None
     else do {
       r \<leftarrow> queue_pop (qp_queue s);
       (case r of
          None \<Rightarrow> Some (Some (s\<lparr>qp_consumers := (qp_consumers s)[me := th\<lparr>qt_asleep := True\<rparr>]\<rparr>))
        | Some (q, v) \<Rightarrow> Some (Some (s\<lparr>qp_queue := q, qp_consumers := (qp_consumers s)[me := th\<lparr>qt_i := qt_i th + 1\<rparr>],
            qp_producers := cond_signal w (qp_producers s), qp_popped := qp_popped s @ [v]\<rparr>))) } }"

definition program_start :: queue_program where
  "program_start = \<lparr>qp_queue = queue_start, qp_producers = replicate NUM_THREADS \<lparr>qt_i = 0, qt_asleep = False\<rparr>,
     qp_consumers = replicate NUM_THREADS \<lparr>qt_i = 0, qt_asleep = False\<rparr>, qp_popped = []\<rparr>"

inductive program_reach :: "queue_program \<Rightarrow> bool" where
  start: "program_reach program_start"
| produce: "\<lbrakk>program_reach s; may_wake w (qp_consumers s); producer w me s = Some (Some s')\<rbrakk> \<Longrightarrow> program_reach s'"
| consume: "\<lbrakk>program_reach s; may_wake w (qp_producers s); consumer w me s = Some (Some s')\<rbrakk> \<Longrightarrow> program_reach s'"
| wake_producer: "program_reach s \<Longrightarrow> program_reach (s\<lparr>qp_producers := cond_signal w (qp_producers s)\<rparr>)"
| wake_consumer: "program_reach s \<Longrightarrow> program_reach (s\<lparr>qp_consumers := cond_signal w (qp_consumers s)\<rparr>)"

subsection \<open>Counting threads\<close>

definition rounds :: "queue_thread list \<Rightarrow> nat" where
  "rounds ths = sum_list (map qt_i ths)"

definition running :: "queue_thread list \<Rightarrow> nat" where
  "running ths = count_if (\<lambda>t. \<not> qt_asleep t \<and> qt_i t < VALUES) ths"

text \<open>Five threads, none beyond its rounds, none asleep after them.\<close>

definition threads_ok :: "queue_thread list \<Rightarrow> bool" where
  "threads_ok ths \<longleftrightarrow> length ths = NUM_THREADS \<and> (\<forall>t \<in> set ths. qt_i t \<le> VALUES \<and> (qt_asleep t \<longrightarrow> qt_i t < VALUES))"

text \<open>Sleepers have enough running companions for what there is to do.\<close>

definition attended :: "nat \<Rightarrow> queue_thread list \<Rightarrow> bool" where
  "attended n ths \<longleftrightarrow> (\<forall>t \<in> set ths. \<not> qt_asleep t) \<or> n \<le> running ths"

lemma rounds_update:
  assumes "i < length ths"
  shows "rounds (ths[i := th]) + qt_i (ths ! i) = rounds ths + qt_i th"
  unfolding rounds_def by (rule sum_map_update [OF assms])

lemma running_update:
  assumes "i < length ths"
  shows "running (ths[i := th]) + (if \<not> qt_asleep (ths ! i) \<and> qt_i (ths ! i) < VALUES then 1 else 0) =
    running ths + (if \<not> qt_asleep th \<and> qt_i th < VALUES then 1 else 0)"
  unfolding running_def by (rule count_if_update [OF assms])

lemma threads_ok_update:
  "threads_ok ths \<Longrightarrow> qt_i th \<le> VALUES \<Longrightarrow> (qt_asleep th \<longrightarrow> qt_i th < VALUES) \<Longrightarrow> threads_ok (ths[i := th])"
  by (auto simp: threads_ok_def dest!: set_update_subset_insert [THEN subsetD])

lemma threads_ok_nth:
  "threads_ok ths \<Longrightarrow> i < length ths \<Longrightarrow> qt_i (ths ! i) \<le> VALUES \<and> (qt_asleep (ths ! i) \<longrightarrow> qt_i (ths ! i) < VALUES)"
  by (simp add: threads_ok_def)

lemma signal_ok: "threads_ok ths \<Longrightarrow> threads_ok (cond_signal w ths)"
  using threads_ok_nth [of ths w] by (auto simp: cond_signal_def intro!: threads_ok_update)

lemma signal_rounds [simp]: "rounds (cond_signal w ths) = rounds ths"
  using rounds_update [of w ths "(ths ! w)\<lparr>qt_asleep := False\<rparr>"] by (simp add: cond_signal_def)

lemma signal_nth [simp]: "i < length ths \<Longrightarrow> qt_i (cond_signal w ths ! i) = qt_i (ths ! i)"
  by (simp add: cond_signal_def nth_list_update)

lemma signal_length [simp]: "length (cond_signal w ths) = length ths"
  by (simp add: cond_signal_def)

text \<open>A signal keeps sleepers attended, and a chosen sleeper makes up for one more thing to do.\<close>

lemma running_signal: "running ths \<le> running (cond_signal w ths)"
  using running_update [of w ths "(ths ! w)\<lparr>qt_asleep := False\<rparr>"] by (auto simp: cond_signal_def split: if_splits)

lemma attended_signal: "attended n ths \<Longrightarrow> attended n (cond_signal w ths)"
proof -
  assume a: "attended n ths"
  show ?thesis
  proof (cases "\<forall>t \<in> set ths. \<not> qt_asleep t")
    case True
    then have "\<forall>t \<in> set (cond_signal w ths). \<not> qt_asleep t"
      by (auto simp: cond_signal_def dest!: set_update_subset_insert [THEN subsetD])
    then show ?thesis by (simp add: attended_def)
  next
    case False
    with a have "n \<le> running (cond_signal w ths)" using running_signal [of ths w] by (auto simp: attended_def)
    then show ?thesis by (simp add: attended_def)
  qed
qed

lemma attended_chosen:
  assumes "attended n ths" and "may_wake w ths" and "threads_ok ths"
  shows "attended (Suc n) (cond_signal w ths)"
proof (cases "\<forall>t \<in> set ths. \<not> qt_asleep t")
  case True
  with assms(2) have "length ths \<le> w" by (auto simp: may_wake_def split: if_splits)
  then have "cond_signal w ths = ths" by (simp add: cond_signal_def)
  with True show ?thesis by (simp add: attended_def)
next
  case False
  with assms(1,2) have w: "w < length ths" "qt_asleep (ths ! w)" "n \<le> running ths"
    by (auto simp: may_wake_def attended_def split: if_splits)
  then have "qt_i (ths ! w) < VALUES" using threads_ok_nth [OF assms(3) w(1)] by simp
  then have "Suc (running ths) = running (cond_signal w ths)"
    using running_update [OF w(1), of "(ths ! w)\<lparr>qt_asleep := False\<rparr>"] w by (simp add: cond_signal_def)
  with w(3) show ?thesis by (simp add: attended_def)
qed

text \<open>A thread that did one of \<open>n\<close> things to do, or went to sleep because there were none.\<close>

lemma attended_round:
  assumes "attended (Suc n) ths" and "i < length ths" and "\<not> qt_asleep (ths ! i)"
  shows "attended n (ths[i := (ths ! i)\<lparr>qt_i := Suc (qt_i (ths ! i))\<rparr>])"
proof (cases "\<forall>t \<in> set ths. \<not> qt_asleep t")
  case True
  then have "\<forall>t \<in> set (ths[i := (ths ! i)\<lparr>qt_i := Suc (qt_i (ths ! i))\<rparr>]). \<not> qt_asleep t"
    using assms(2,3) by (auto dest!: set_update_subset_insert [THEN subsetD])
  then show ?thesis by (simp add: attended_def)
next
  case False
  then have "Suc n \<le> running ths" using assms(1) by (auto simp: attended_def)
  then show ?thesis
    using running_update [OF assms(2), of "(ths ! i)\<lparr>qt_i := Suc (qt_i (ths ! i))\<rparr>"] by (auto simp: attended_def split: if_splits)
qed

lemma attended_sleep: "attended 0 ths"
  by (simp add: attended_def)

subsection \<open>The program\<close>

text \<open>The values producer \<open>p\<close> has pushed so far: those among the popped and the queued ones.\<close>

definition values_of :: "nat \<Rightarrow> int list \<Rightarrow> int list" where
  "values_of p vs = filter (\<lambda>v. v div 100 = int p) vs"

definition program_inv :: "queue_program \<Rightarrow> bool" where
  "program_inv s \<longleftrightarrow>
     tq_inv (qp_queue s) \<and> threads_ok (qp_producers s) \<and> threads_ok (qp_consumers s) \<and>
     rounds (qp_producers s) = rounds (qp_consumers s) + length (tq_items (qp_queue s)) \<and>
     attended (length (tq_items (qp_queue s))) (qp_consumers s) \<and>
     attended (9 - length (tq_items (qp_queue s))) (qp_producers s) \<and>
     (\<forall>p < NUM_THREADS. values_of p (qp_popped s @ tq_items (qp_queue s)) =
        map (\<lambda>i. int p * 100 + int i) [0..<qt_i (qp_producers s ! p)]) \<and>
     length (qp_popped s) = rounds (qp_consumers s)"

lemma program_invD:
  assumes "program_inv s"
  shows "tq_inv (qp_queue s)" "threads_ok (qp_producers s)" "threads_ok (qp_consumers s)"
    "rounds (qp_producers s) = rounds (qp_consumers s) + length (tq_items (qp_queue s))"
    "attended (length (tq_items (qp_queue s))) (qp_consumers s)"
    "attended (9 - length (tq_items (qp_queue s))) (qp_producers s)"
    "p < NUM_THREADS \<Longrightarrow> values_of p (qp_popped s @ tq_items (qp_queue s)) =
       map (\<lambda>i. int p * 100 + int i) [0..<qt_i (qp_producers s ! p)]"
    "length (qp_popped s) = rounds (qp_consumers s)"
  using assms unfolding program_inv_def by blast+

lemma queue_start_items: "tq_inv queue_start" "tq_items queue_start = []"
  by (simp_all add: tq_inv_def queue_start_def QUEUE_SIZE_def tq_items_def tq_len_def ring_list_def)

lemma program_inv_start: "program_inv program_start"
  using queue_start_items
  by (simp add: program_inv_def program_start_def threads_ok_def rounds_def attended_def values_of_def sum_list_replicate)

text \<open>The three outcomes of a thread: it has nothing to do, it goes to sleep, or it does a round.\<close>

lemma producer_cases:
  assumes inv: "program_inv s" and me: "me < NUM_THREADS"
  obtains (rest) "producer w me s = Some None" "qt_i (qp_producers s ! me) = VALUES \<or> qt_asleep (qp_producers s ! me)"
  | (sleep) "producer w me s = Some (Some (s\<lparr>qp_producers := (qp_producers s)[me := (qp_producers s ! me)\<lparr>qt_asleep := True\<rparr>]\<rparr>))"
      "qt_i (qp_producers s ! me) < VALUES" "\<not> qt_asleep (qp_producers s ! me)" "length (tq_items (qp_queue s)) = 9"
  | (round) q where "producer w me s = Some (Some (s\<lparr>qp_queue := q,
        qp_producers := (qp_producers s)[me := (qp_producers s ! me)\<lparr>qt_i := Suc (qt_i (qp_producers s ! me))\<rparr>],
        qp_consumers := cond_signal w (qp_consumers s)\<rparr>))"
      "qt_i (qp_producers s ! me) < VALUES" "\<not> qt_asleep (qp_producers s ! me)" "length (tq_items (qp_queue s)) < 9"
      "tq_inv q" "tq_items q = tq_items (qp_queue s) @ [int me * 100 + int (qt_i (qp_producers s ! me))]"
proof -
  let ?th = "qp_producers s ! me" and ?v = "int me * 100 + int (qt_i (qp_producers s ! me))"
  have len: "me < length (qp_producers s)" using program_invD(2) [OF inv] me by (simp add: threads_ok_def)
  have le: "qt_i ?th \<le> VALUES" using threads_ok_nth [OF program_invD(2) [OF inv] len] by simp
  have "int_ok ?v" using me le by (intro int_okI) (simp_all add: NUM_THREADS_def VALUES_def)
  then have p: "producer w me s = (if qt_i ?th = VALUES \<or> qt_asleep ?th then Some None
      else queue_push ?v (qp_queue s) \<bind> (\<lambda>r. case r of
          None \<Rightarrow> Some (Some (s\<lparr>qp_producers := (qp_producers s)[me := ?th\<lparr>qt_asleep := True\<rparr>]\<rparr>))
        | Some q \<Rightarrow> Some (Some (s\<lparr>qp_queue := q, qp_producers := (qp_producers s)[me := ?th\<lparr>qt_i := Suc (qt_i ?th)\<rparr>],
            qp_consumers := cond_signal w (qp_consumers s)\<rparr>))))"
    using len by (simp add: producer_def)
  show thesis
  proof (cases "qt_i ?th = VALUES \<or> qt_asleep ?th")
    case True
    with p show thesis by (intro rest) simp_all
  next
    case False
    with le have lt: "qt_i ?th < VALUES" "\<not> qt_asleep ?th" by simp_all
    from tq.push_cases [OF program_invD(1) [OF inv], of ?v] show thesis
    proof (elim disjE exE conjE)
      assume "queue_push ?v (qp_queue s) = Some None" "length (tq_items (qp_queue s)) = 9"
      with p False lt show thesis by (intro sleep) simp_all
    next
      fix q assume "queue_push ?v (qp_queue s) = Some (Some q)" "length (tq_items (qp_queue s)) < 9" "tq_inv q"
        "tq_items q = tq_items (qp_queue s) @ [?v]"
      with p False lt show thesis by (intro round [of q]) simp_all
    qed
  qed
qed

lemma consumer_cases:
  assumes inv: "program_inv s" and me: "me < NUM_THREADS"
  obtains (rest) "consumer w me s = Some None" "qt_i (qp_consumers s ! me) = VALUES \<or> qt_asleep (qp_consumers s ! me)"
  | (sleep) "consumer w me s = Some (Some (s\<lparr>qp_consumers := (qp_consumers s)[me := (qp_consumers s ! me)\<lparr>qt_asleep := True\<rparr>]\<rparr>))"
      "qt_i (qp_consumers s ! me) < VALUES" "\<not> qt_asleep (qp_consumers s ! me)" "tq_items (qp_queue s) = []"
  | (round) q v where "consumer w me s = Some (Some (s\<lparr>qp_queue := q,
        qp_consumers := (qp_consumers s)[me := (qp_consumers s ! me)\<lparr>qt_i := Suc (qt_i (qp_consumers s ! me))\<rparr>],
        qp_producers := cond_signal w (qp_producers s), qp_popped := qp_popped s @ [v]\<rparr>))"
      "qt_i (qp_consumers s ! me) < VALUES" "\<not> qt_asleep (qp_consumers s ! me)"
      "tq_inv q" "tq_items (qp_queue s) = v # tq_items q"
proof -
  let ?th = "qp_consumers s ! me"
  have len: "me < length (qp_consumers s)" using program_invD(3) [OF inv] me by (simp add: threads_ok_def)
  have le: "qt_i ?th \<le> VALUES" using threads_ok_nth [OF program_invD(3) [OF inv] len] by simp
  have p: "consumer w me s = (if qt_i ?th = VALUES \<or> qt_asleep ?th then Some None
      else queue_pop (qp_queue s) \<bind> (\<lambda>r. case r of
          None \<Rightarrow> Some (Some (s\<lparr>qp_consumers := (qp_consumers s)[me := ?th\<lparr>qt_asleep := True\<rparr>]\<rparr>))
        | Some (q, v) \<Rightarrow> Some (Some (s\<lparr>qp_queue := q, qp_consumers := (qp_consumers s)[me := ?th\<lparr>qt_i := Suc (qt_i ?th)\<rparr>],
            qp_producers := cond_signal w (qp_producers s), qp_popped := qp_popped s @ [v]\<rparr>))))"
    using len by (simp add: consumer_def)
  show thesis
  proof (cases "qt_i ?th = VALUES \<or> qt_asleep ?th")
    case True
    with p show thesis by (intro rest) simp_all
  next
    case False
    with le have lt: "qt_i ?th < VALUES" "\<not> qt_asleep ?th" by simp_all
    from tq.pop_cases [OF program_invD(1) [OF inv]] show thesis
    proof (elim disjE exE conjE)
      assume "queue_pop (qp_queue s) = Some None" "tq_items (qp_queue s) = []"
      with p False lt show thesis by (intro sleep) simp_all
    next
      fix q v assume "queue_pop (qp_queue s) = Some (Some (q, v))" "tq_inv q" "tq_items (qp_queue s) = v # tq_items q"
      with p False lt show thesis by (intro round [of v q]) simp_all
    qed
  qed
qed

lemma values_of_append [simp]: "values_of p (xs @ ys) = values_of p xs @ values_of p ys"
  by (simp add: values_of_def)

lemma values_of_single:
  assumes "i < VALUES"
  shows "values_of p [int me * 100 + int i] = (if p = me then [int me * 100 + int i] else [])"
  using assms by (auto simp: values_of_def VALUES_def)

lemma program_producer_inv:
  assumes inv: "program_inv s" and wake: "may_wake w (qp_consumers s)" and step: "producer w me s = Some (Some s')"
  shows "program_inv s'"
proof -
  note D = program_invD [OF inv]
  have lenp: "length (qp_producers s) = NUM_THREADS" using D(2) by (simp add: threads_ok_def)
  have me: "me < NUM_THREADS" using step lenp by (auto simp: producer_def rd_def split: if_splits)
  then have mel: "me < length (qp_producers s)" using lenp by simp
  from inv me show ?thesis
  proof (cases rule: producer_cases [where w = w])
    case rest
    with step show ?thesis by simp
  next
    case sleep
    let ?ths = "(qp_producers s)[me := (qp_producers s ! me)\<lparr>qt_asleep := True\<rparr>]"
    have s': "s' = s\<lparr>qp_producers := ?ths\<rparr>" using step sleep(1) by simp
    have ok: "threads_ok ?ths" using sleep(2) by (intro threads_ok_update [OF D(2)]) simp_all
    have r: "rounds ?ths = rounds (qp_producers s)" using rounds_update [OF mel, of "(qp_producers s ! me)\<lparr>qt_asleep := True\<rparr>"] by simp
    have i: "qt_i (?ths ! p) = qt_i (qp_producers s ! p)" for p using mel by (simp add: nth_list_update)
    have a: "attended (9 - length (tq_items (qp_queue s))) ?ths" using sleep(4) attended_sleep by simp
    show ?thesis unfolding s' program_inv_def using D(1,3,4,5,7,8) ok r i a by simp
  next
    case (round q)
    let ?th = "(qp_producers s ! me)\<lparr>qt_i := Suc (qt_i (qp_producers s ! me))\<rparr>"
    let ?ths = "(qp_producers s)[me := ?th]" and ?cs = "cond_signal w (qp_consumers s)"
    have s': "s' = s\<lparr>qp_queue := q, qp_producers := ?ths, qp_consumers := ?cs\<rparr>" using step round(1) by simp
    have ok: "threads_ok ?ths" using round(2,3) by (intro threads_ok_update [OF D(2)]) simp_all
    have r: "rounds ?ths = rounds ?cs + length (tq_items q)" using rounds_update [OF mel, of ?th] D(4) round(6) by simp
    have c: "attended (length (tq_items q)) ?cs" using attended_chosen [OF D(5) wake D(3)] round(6) by simp
    have "9 - length (tq_items (qp_queue s)) = Suc (9 - length (tq_items q))" using round(4,6) by simp
    then have a: "attended (9 - length (tq_items q)) ?ths" using attended_round [OF _ mel round(3)] D(6) by metis
    have v: "values_of p (qp_popped s @ tq_items q) = map (\<lambda>i. int p * 100 + int i) [0..<qt_i (?ths ! p)]"
      if "p < NUM_THREADS" for p
    proof -
      have "values_of p (qp_popped s @ tq_items q) = values_of p (qp_popped s @ tq_items (qp_queue s)) @
          (if p = me then [int me * 100 + int (qt_i (qp_producers s ! me))] else [])"
        using values_of_single [OF round(2), of p me] by (simp add: round(6))
      then show ?thesis unfolding D(7) [OF that] using mel by (simp add: nth_list_update)
    qed
    show ?thesis unfolding s' program_inv_def using round(5) ok signal_ok [OF D(3)] r c a v D(8) by simp
  qed
qed

lemma program_consumer_inv:
  assumes inv: "program_inv s" and wake: "may_wake w (qp_producers s)" and step: "consumer w me s = Some (Some s')"
  shows "program_inv s'"
proof -
  note D = program_invD [OF inv]
  have lenc: "length (qp_consumers s) = NUM_THREADS" using D(3) by (simp add: threads_ok_def)
  have lenp: "length (qp_producers s) = NUM_THREADS" using D(2) by (simp add: threads_ok_def)
  have me: "me < NUM_THREADS" using step lenc by (auto simp: consumer_def rd_def split: if_splits)
  then have mel: "me < length (qp_consumers s)" using lenc by simp
  from inv me show ?thesis
  proof (cases rule: consumer_cases [where w = w])
    case rest
    with step show ?thesis by simp
  next
    case sleep
    let ?ths = "(qp_consumers s)[me := (qp_consumers s ! me)\<lparr>qt_asleep := True\<rparr>]"
    have s': "s' = s\<lparr>qp_consumers := ?ths\<rparr>" using step sleep(1) by simp
    have ok: "threads_ok ?ths" using sleep(2) by (intro threads_ok_update [OF D(3)]) simp_all
    have r: "rounds ?ths = rounds (qp_consumers s)" using rounds_update [OF mel, of "(qp_consumers s ! me)\<lparr>qt_asleep := True\<rparr>"] by simp
    have a: "attended (length (tq_items (qp_queue s))) ?ths" using sleep(4) attended_sleep by simp
    show ?thesis unfolding s' program_inv_def using D(1,2,4,6,7,8) ok r a by simp
  next
    case (round q v)
    let ?th = "(qp_consumers s ! me)\<lparr>qt_i := Suc (qt_i (qp_consumers s ! me))\<rparr>"
    let ?ths = "(qp_consumers s)[me := ?th]" and ?ps = "cond_signal w (qp_producers s)"
    have s': "s' = s\<lparr>qp_queue := q, qp_consumers := ?ths, qp_producers := ?ps, qp_popped := qp_popped s @ [v]\<rparr>"
      using step round(1) by simp
    have ok: "threads_ok ?ths" using round(2,3) by (intro threads_ok_update [OF D(3)]) simp_all
    have r: "rounds ?ps = rounds ?ths + length (tq_items q)" using rounds_update [OF mel, of ?th] D(4) round(5) by simp
    have a: "attended (length (tq_items q)) ?ths" using attended_round [OF _ mel round(3)] D(5) round(5) by simp
    have "attended (Suc (9 - length (tq_items (qp_queue s)))) ?ps" by (rule attended_chosen [OF D(6) wake D(2)])
    moreover have "length (tq_items (qp_queue s)) \<le> 9" by (rule tq.items_cap [OF D(1)])
    then have "Suc (9 - length (tq_items (qp_queue s))) = 9 - length (tq_items q)" using round(5) by simp
    ultimately have p: "attended (9 - length (tq_items q)) ?ps" by simp
    have v: "values_of p ((qp_popped s @ [v]) @ tq_items q) = map (\<lambda>i. int p * 100 + int i) [0..<qt_i (?ps ! p)]"
      if "p < NUM_THREADS" for p
      using D(7) [OF that] that lenp by (simp add: round(5))
    have l: "length (qp_popped s @ [v]) = rounds ?ths" using rounds_update [OF mel, of ?th] D(8) by simp
    show ?thesis unfolding s' program_inv_def using round(4) ok signal_ok [OF D(2)] r a p v l by simp
  qed
qed

lemma wake_inv:
  assumes inv: "program_inv s"
  shows "program_inv (s\<lparr>qp_producers := cond_signal w (qp_producers s)\<rparr>)"
    and "program_inv (s\<lparr>qp_consumers := cond_signal w (qp_consumers s)\<rparr>)"
proof -
  note D = program_invD [OF inv]
  have lenp: "length (qp_producers s) = NUM_THREADS" using D(2) by (simp add: threads_ok_def)
  have v: "\<forall>p < NUM_THREADS. values_of p (qp_popped s @ tq_items (qp_queue s)) =
      map (\<lambda>i. int p * 100 + int i) [0..<qt_i (qp_producers s ! p)]" using D(7) by blast
  have v': "\<forall>p < NUM_THREADS. values_of p (qp_popped s @ tq_items (qp_queue s)) =
      map (\<lambda>i. int p * 100 + int i) [0..<qt_i (cond_signal w (qp_producers s) ! p)]" using v lenp by (metis signal_nth)
  show "program_inv (s\<lparr>qp_producers := cond_signal w (qp_producers s)\<rparr>)"
    unfolding program_inv_def using D(1,3-5,8) signal_ok [OF D(2)] attended_signal [OF D(6)] v' by (intro conjI) simp_all
  show "program_inv (s\<lparr>qp_consumers := cond_signal w (qp_consumers s)\<rparr>)"
    unfolding program_inv_def using D(1,2,4,6,8) signal_ok [OF D(3)] attended_signal [OF D(5)] v by (intro conjI) simp_all
qed

lemma program_reach_inv: "program_reach s \<Longrightarrow> program_inv s"
  by (induction rule: program_reach.induct) (blast intro: program_inv_start program_producer_inv program_consumer_inv wake_inv)+

text \<open>Steps still to come: three for every round left, one for every thread that runs.\<close>

definition awake :: "queue_thread list \<Rightarrow> nat" where
  "awake ths = count_if (\<lambda>t. \<not> qt_asleep t) ths"

definition program_rank :: "queue_program \<Rightarrow> nat" where
  "program_rank s = 3 * (2 * (NUM_THREADS * VALUES) - rounds (qp_producers s) - rounds (qp_consumers s)) +
     awake (qp_producers s) + awake (qp_consumers s)"

lemma awake_signal: "awake (cond_signal w ths) \<le> Suc (awake ths)"
  using count_if_update [of w ths "\<lambda>t. \<not> qt_asleep t" "(ths ! w)\<lparr>qt_asleep := False\<rparr>"]
  by (auto simp: awake_def cond_signal_def split: if_splits)

lemma awake_round:
  "i < length ths \<Longrightarrow> awake (ths[i := (ths ! i)\<lparr>qt_i := k\<rparr>]) = awake ths"
  using count_if_update [of i ths "\<lambda>t. \<not> qt_asleep t" "(ths ! i)\<lparr>qt_i := k\<rparr>"] by (simp add: awake_def split: if_splits)

lemma awake_sleep:
  "i < length ths \<Longrightarrow> \<not> qt_asleep (ths ! i) \<Longrightarrow> Suc (awake (ths[i := (ths ! i)\<lparr>qt_asleep := True\<rparr>])) = awake ths"
  using count_if_update [of i ths "\<lambda>t. \<not> qt_asleep t" "(ths ! i)\<lparr>qt_asleep := True\<rparr>"] by (simp add: awake_def)

lemma rounds_le:
  assumes "threads_ok ths"
  shows "rounds ths \<le> NUM_THREADS * VALUES"
proof -
  have "sum_list (map qt_i ths) \<le> sum_list (map (\<lambda>_. VALUES) ths)" using assms by (intro sum_list_mono) (simp add: threads_ok_def)
  then show ?thesis using assms by (simp add: rounds_def threads_ok_def sum_list_triv)
qed

lemma rounds_full:
  assumes ok: "threads_ok ths"
  shows "rounds ths = NUM_THREADS * VALUES \<longleftrightarrow> (\<forall>i < NUM_THREADS. qt_i (ths ! i) = VALUES)"
proof
  assume all: "\<forall>i < NUM_THREADS. qt_i (ths ! i) = VALUES"
  have "map qt_i ths = replicate NUM_THREADS VALUES"
    using ok all by (intro nth_equalityI) (simp_all add: threads_ok_def)
  then show "rounds ths = NUM_THREADS * VALUES" by (simp add: rounds_def sum_list_replicate)
next
  assume full: "rounds ths = NUM_THREADS * VALUES"
  show "\<forall>i < NUM_THREADS. qt_i (ths ! i) = VALUES"
  proof (rule ccontr)
    assume "\<not> ?thesis"
    then obtain i where i: "i < NUM_THREADS" "qt_i (ths ! i) \<noteq> VALUES" by blast
    then have il: "i < length ths" using ok by (simp add: threads_ok_def)
    then have lt: "qt_i (ths ! i) < VALUES" using threads_ok_nth [OF ok il] i(2) by simp
    let ?th = "\<lparr>qt_i = Suc (qt_i (ths ! i)), qt_asleep = False\<rparr>"
    have "threads_ok (ths[i := ?th])" using lt by (intro threads_ok_update [OF ok]) simp_all
    from rounds_le [OF this] show False
      using rounds_update [OF il, of ?th] full by simp
  qed
qed

lemma rounds_less:
  assumes "threads_ok ths" and "i < NUM_THREADS" and "qt_i (ths ! i) < VALUES"
  shows "rounds ths < NUM_THREADS * VALUES"
  using rounds_le [OF assms(1)] rounds_full [OF assms(1)] assms(2,3) by (auto simp: le_less)

lemma program_rank_decreases:
  assumes inv: "program_inv s"
  shows "producer w me s = Some (Some s') \<Longrightarrow> program_rank s' < program_rank s"
    and "consumer w me s = Some (Some s') \<Longrightarrow> program_rank s' < program_rank s"
proof -
  note D = program_invD [OF inv]
  have lens: "length (qp_producers s) = NUM_THREADS" "length (qp_consumers s) = NUM_THREADS"
    using D(2,3) by (simp_all add: threads_ok_def)
  have full: "rounds (qp_producers s) \<le> NUM_THREADS * VALUES" "rounds (qp_consumers s) \<le> NUM_THREADS * VALUES"
    using rounds_le D(2,3) by blast+
  show "program_rank s' < program_rank s" if step: "producer w me s = Some (Some s')"
  proof -
    have me: "me < NUM_THREADS" using step lens by (auto simp: producer_def rd_def split: if_splits)
    then have mel: "me < length (qp_producers s)" using lens by simp
    from inv me show ?thesis
    proof (cases rule: producer_cases [where w = w])
      case sleep
      have "rounds ((qp_producers s)[me := (qp_producers s ! me)\<lparr>qt_asleep := True\<rparr>]) = rounds (qp_producers s)"
        using rounds_update [OF mel, of "(qp_producers s ! me)\<lparr>qt_asleep := True\<rparr>"] by simp
      then show ?thesis using step sleep(1) awake_sleep [OF mel sleep(3)] by (auto simp: program_rank_def)
    next
      case (round q)
      have "rounds ((qp_producers s)[me := (qp_producers s ! me)\<lparr>qt_i := Suc (qt_i (qp_producers s ! me))\<rparr>]) = Suc (rounds (qp_producers s))"
        using rounds_update [OF mel, of "(qp_producers s ! me)\<lparr>qt_i := Suc (qt_i (qp_producers s ! me))\<rparr>"] by simp
      then show ?thesis
        using step round(1) awake_round [OF mel] awake_signal [of w "qp_consumers s"] rounds_less [OF D(2) me round(2)] full(2)
        by (auto simp: program_rank_def)
    qed (use step in simp)
  qed
  show "program_rank s' < program_rank s" if step: "consumer w me s = Some (Some s')"
  proof -
    have me: "me < NUM_THREADS" using step lens by (auto simp: consumer_def rd_def split: if_splits)
    then have mel: "me < length (qp_consumers s)" using lens by simp
    from inv me show ?thesis
    proof (cases rule: consumer_cases [where w = w])
      case sleep
      have "rounds ((qp_consumers s)[me := (qp_consumers s ! me)\<lparr>qt_asleep := True\<rparr>]) = rounds (qp_consumers s)"
        using rounds_update [OF mel, of "(qp_consumers s ! me)\<lparr>qt_asleep := True\<rparr>"] by simp
      then show ?thesis using step sleep(1) awake_sleep [OF mel sleep(3)] by (auto simp: program_rank_def)
    next
      case (round q v)
      have "rounds ((qp_consumers s)[me := (qp_consumers s ! me)\<lparr>qt_i := Suc (qt_i (qp_consumers s ! me))\<rparr>]) = Suc (rounds (qp_consumers s))"
        using rounds_update [OF mel, of "(qp_consumers s ! me)\<lparr>qt_i := Suc (qt_i (qp_consumers s ! me))\<rparr>"] by simp
      then show ?thesis
        using step round(1) awake_round [OF mel] awake_signal [of w "qp_producers s"] rounds_less [OF D(3) me round(2)] full(1)
        by (auto simp: program_rank_def)
    qed (use step in simp)
  qed
qed

lemma resting_running:
  assumes "threads_ok ths" and "\<forall>i < NUM_THREADS. qt_i (ths ! i) = VALUES \<or> qt_asleep (ths ! i)"
  shows "running ths = 0"
proof -
  have "\<forall>t \<in> set ths. \<not> (\<not> qt_asleep t \<and> qt_i t < VALUES)"
    using assms by (metis in_set_conv_nth less_irrefl threads_ok_def)
  then show ?thesis using count_if_pos [of "\<lambda>t. \<not> qt_asleep t \<and> qt_i t < VALUES" ths] by (auto simp: running_def)
qed

text \<open>When every thread rests, nobody sleeps.\<close>

lemma program_resting:
  assumes inv: "program_inv s"
    and prod: "\<forall>i < NUM_THREADS. qt_i (qp_producers s ! i) = VALUES \<or> qt_asleep (qp_producers s ! i)"
    and cons: "\<forall>i < NUM_THREADS. qt_i (qp_consumers s ! i) = VALUES \<or> qt_asleep (qp_consumers s ! i)"
  shows "(\<forall>i < NUM_THREADS. qt_i (qp_producers s ! i) = VALUES) \<and> (\<forall>i < NUM_THREADS. qt_i (qp_consumers s ! i) = VALUES) \<and>
    tq_items (qp_queue s) = []"
proof -
  note D = program_invD [OF inv]
  have run: "running (qp_producers s) = 0" "running (qp_consumers s) = 0"
    using resting_running [OF D(2) prod] resting_running [OF D(3) cons] by simp_all
  have done_if: "\<forall>i < NUM_THREADS. qt_i (ths ! i) = VALUES"
    if "threads_ok ths" "\<forall>t \<in> set ths. \<not> qt_asleep t" "\<forall>i < NUM_THREADS. qt_i (ths ! i) = VALUES \<or> qt_asleep (ths ! i)" for ths
    using that by (metis nth_mem threads_ok_def)
  have awake_if: "\<forall>t \<in> set ths. \<not> qt_asleep t" if "threads_ok ths" "\<forall>i < NUM_THREADS. qt_i (ths ! i) = VALUES" for ths
    using that by (metis in_set_conv_nth less_irrefl threads_ok_def)
  show ?thesis
  proof (cases "\<forall>t \<in> set (qp_consumers s). \<not> qt_asleep t")
    case True
    then have c: "\<forall>i < NUM_THREADS. qt_i (qp_consumers s ! i) = VALUES" using done_if [OF D(3) True cons] by blast
    then have "rounds (qp_consumers s) = NUM_THREADS * VALUES" using rounds_full [OF D(3)] by blast
    with D(4) rounds_le [OF D(2)] have "rounds (qp_producers s) = NUM_THREADS * VALUES" "tq_items (qp_queue s) = []" by simp_all
    with c rounds_full [OF D(2)] show ?thesis by blast
  next
    case False
    with D(5) run have "length (tq_items (qp_queue s)) = 0" unfolding attended_def by simp
    moreover from this D(6) run have "\<forall>t \<in> set (qp_producers s). \<not> qt_asleep t" unfolding attended_def by simp
    then have "rounds (qp_producers s) = NUM_THREADS * VALUES" using done_if [OF D(2) _ prod] rounds_full [OF D(2)] by blast
    ultimately have "rounds (qp_consumers s) = NUM_THREADS * VALUES" using D(4) by simp
    then have "\<forall>t \<in> set (qp_consumers s). \<not> qt_asleep t" using awake_if [OF D(3)] rounds_full [OF D(3)] by blast
    with False show ?thesis by blast
  qed
qed

text \<open>A step of one of the threads, and the end of the program.\<close>

definition program_step :: "queue_program \<Rightarrow> queue_program \<Rightarrow> bool" where
  "program_step s t \<longleftrightarrow> (\<exists>w me. may_wake w (qp_consumers s) \<and> producer w me s = Some (Some t) \<or>
     may_wake w (qp_producers s) \<and> consumer w me s = Some (Some t))"

definition program_done :: "queue_program \<Rightarrow> bool" where
  "program_done s \<longleftrightarrow>
     (\<forall>me < NUM_THREADS. qt_i (qp_producers s ! me) = VALUES \<and> qt_i (qp_consumers s ! me) = VALUES) \<and>
     tq_items (qp_queue s) = [] \<and> length (qp_popped s) = 25 \<and>
     (\<forall>p < NUM_THREADS. values_of p (qp_popped s) = map (\<lambda>i. int p * 100 + int i) [0..<VALUES])"

interpretation qp: ranked_system program_inv program_step program_rank
  by unfold_locales (auto simp: program_step_def intro: program_producer_inv program_consumer_inv program_rank_decreases)

lemma may_wake_exists: "\<exists>w. may_wake w ths"
proof (cases "\<exists>t \<in> set ths. qt_asleep t")
  case True
  then show ?thesis by (auto simp: may_wake_def in_set_conv_nth)
next
  case False
  then have "may_wake (length ths) ths" by (simp add: may_wake_def)
  then show ?thesis by blast
qed

lemma program_steps_defined:
  assumes "program_inv s" and "me < NUM_THREADS"
  shows "producer w me s \<noteq> None" and "consumer w me s \<noteq> None"
  by (rule producer_cases [OF assms, of w]; simp) (rule consumer_cases [OF assms, of w]; simp)

lemma program_rest_done:
  assumes inv: "program_inv s" and rest: "at_rest program_step s"
  shows "program_done s"
proof -
  note D = program_invD [OF inv]
  obtain w v where w: "may_wake w (qp_consumers s)" and v: "may_wake v (qp_producers s)" using may_wake_exists by metis
  have p: "qt_i (qp_producers s ! me) = VALUES \<or> qt_asleep (qp_producers s ! me)" if "me < NUM_THREADS" for me
    by (rule producer_cases [OF inv that, of w]) (use rest w in \<open>auto simp: at_rest_def program_step_def\<close>)
  have c: "qt_i (qp_consumers s ! me) = VALUES \<or> qt_asleep (qp_consumers s ! me)" if "me < NUM_THREADS" for me
    by (rule consumer_cases [OF inv that, of v]) (use rest v in \<open>auto simp: at_rest_def program_step_def\<close>)
  have all: "\<forall>i < NUM_THREADS. qt_i (qp_producers s ! i) = VALUES" "\<forall>i < NUM_THREADS. qt_i (qp_consumers s ! i) = VALUES"
    "tq_items (qp_queue s) = []" using program_resting [OF inv] p c by blast+
  then have "length (qp_popped s) = 25" using D(8) rounds_full [OF D(3)] by (simp add: NUM_THREADS_def VALUES_def)
  then show ?thesis using all D(7) by (simp add: program_done_def)
qed

text \<open>C30: The program of d8 delivers everything and ends. Whatever the order in which the ten threads run, whichever
  sleeper a signal chooses, and after any wake-ups without a signal, no thread can do an undefined step; from every
  reachable state the threads take at most \<open>program_rank\<close> further steps and can be brought to the end; and they come to rest
  only at the end, where all have done their five rounds, the queue is empty, and the consumers have popped 25 values,
  from each producer its five values in the order in which it pushed them.\<close>
theorem queue_program_delivers:
  assumes "program_reach s"
  shows "(\<forall>w. \<forall>me < NUM_THREADS. producer w me s \<noteq> None \<and> consumer w me s \<noteq> None) \<and>
    terminates_within (program_rank s) program_step program_done s"
proof -
  have inv: "program_inv s" by (rule program_reach_inv [OF assms])
  show ?thesis
    using program_steps_defined [OF inv] qp.ends_with [where Q = program_done, OF program_rest_done inv] by blast
qed

theorem queue_program_delivers_witness:
  "terminates_within 160 program_step program_done program_start"
proof -
  have "program_rank program_start = 160"
    by (simp add: program_rank_def program_start_def NUM_THREADS_def VALUES_def rounds_def awake_def count_if_replicate sum_list_replicate)
  with queue_program_delivers [OF program_reach.start] show ?thesis by simp
qed

end
