(* ===== verification/Pipe_Processes.thy ===== *)
theory Pipe_Processes
  imports OS_Prelude Interleaving
begin

section \<open>Two processes on one pipe: d6 context\_switch\_measuring.c, d9 measure\_context\_switching.c\<close>

text \<open>
  The measurement of context switches lets a parent and a child hand a byte to and fro. Both use the two ends of the
  same pipe, so a process may read back what it has written itself. Each keeps both ends open, hence a read
  from the empty pipe waits and never meets the end of the data; a write waits while the pipe is full
  (\<open>capacity\<close> bytes, the system's business).
\<close>

definition NUM_SWITCHES :: nat where "NUM_SWITCHES = 1000"
definition NUM_ITERATIONS :: nat where "NUM_ITERATIONS = 10000"

datatype pipe_pos = To_Write | To_Read

record ping_pong =
  pp_bytes :: nat
  pp_parent :: pipe_pos
  pp_parent_left :: nat
  pp_child :: pipe_pos
  pp_child_left :: nat

text \<open>The parent writes and then reads in every round, the child reads and then writes.\<close>

definition parent_process :: "nat \<Rightarrow> ping_pong \<Rightarrow> ping_pong option" where
  "parent_process capacity s =
     (if pp_parent_left s = 0 then None
      else case pp_parent s of
        To_Write \<Rightarrow> if pp_bytes s < capacity then Some (s\<lparr>pp_bytes := pp_bytes s + 1, pp_parent := To_Read\<rparr>) else None
      | To_Read \<Rightarrow>
          if 0 < pp_bytes s
          then Some (s\<lparr>pp_bytes := pp_bytes s - 1, pp_parent := To_Write, pp_parent_left := pp_parent_left s - 1\<rparr>)
          else None)"

definition child_process :: "nat \<Rightarrow> ping_pong \<Rightarrow> ping_pong option" where
  "child_process capacity s =
     (if pp_child_left s = 0 then None
      else case pp_child s of
        To_Read \<Rightarrow> if 0 < pp_bytes s then Some (s\<lparr>pp_bytes := pp_bytes s - 1, pp_child := To_Write\<rparr>) else None
      | To_Write \<Rightarrow>
          if pp_bytes s < capacity
          then Some (s\<lparr>pp_bytes := pp_bytes s + 1, pp_child := To_Read, pp_child_left := pp_child_left s - 1\<rparr>)
          else None)"

text \<open>After the fork both stand before their first round.\<close>

definition measure_context_switch_overhead :: "nat \<Rightarrow> ping_pong" where
  "measure_context_switch_overhead rounds =
     \<lparr>pp_bytes = 0, pp_parent = To_Write, pp_parent_left = rounds, pp_child = To_Read, pp_child_left = rounds\<rparr>"

text \<open>The same program with more rounds (d9).\<close>

definition measure_iterations :: ping_pong where
  "measure_iterations = measure_context_switch_overhead NUM_ITERATIONS"

text \<open>There is one byte from the time the parent has written until it has read, in the pipe or with the child.\<close>

definition one_byte :: "ping_pong \<Rightarrow> bool" where
  "one_byte s \<longleftrightarrow>
     pp_bytes s + (if pp_child s = To_Write then 1 else 0) = (if pp_parent s = To_Read then 1 else 0) \<and>
     (pp_parent s = To_Read \<longrightarrow> 0 < pp_parent_left s) \<and> (pp_child s = To_Write \<longrightarrow> 0 < pp_child_left s)"

lemma parent_one_byte: "one_byte s \<Longrightarrow> parent_process capacity s = Some s' \<Longrightarrow> one_byte s'"
  by (cases "pp_parent s"; cases "pp_child s") (auto simp: one_byte_def parent_process_def split: if_splits)

lemma child_one_byte: "one_byte s \<Longrightarrow> child_process capacity s = Some s' \<Longrightarrow> one_byte s'"
  by (cases "pp_parent s"; cases "pp_child s") (auto simp: one_byte_def child_process_def split: if_splits)

definition pipe_rank :: "ping_pong \<Rightarrow> nat" where
  "pipe_rank s = 2 * pp_parent_left s - (if pp_parent s = To_Read then 1 else 0) +
     (2 * pp_child_left s - (if pp_child s = To_Write then 1 else 0))"

lemma pipe_rank_decreases:
  assumes "one_byte s" and "parent_process capacity s = Some s' \<or> child_process capacity s = Some s'"
  shows "pipe_rank s' < pipe_rank s"
  using assms(2)
proof
  assume "parent_process capacity s = Some s'"
  then show ?thesis using assms(1)
    by (cases "pp_parent s") (auto simp: one_byte_def pipe_rank_def parent_process_def split: if_splits)
next
  assume "child_process capacity s = Some s'"
  then show ?thesis using assms(1)
    by (cases "pp_child s") (auto simp: one_byte_def pipe_rank_def child_process_def split: if_splits)
qed

lemma pipe_progress:
  assumes "one_byte s" and "0 < capacity" and "parent_process capacity s = None" and "child_process capacity s = None"
  shows "pp_parent_left s = 0 \<and> pp_bytes s = 0 \<and> pp_child s = To_Read"
  using assms
  by (cases "pp_parent s"; cases "pp_child s") (simp_all add: one_byte_def parent_process_def child_process_def split: if_splits)

text \<open>The parent alone: every byte it writes it reads itself.\<close>

lemma parent_alone:
  assumes "0 < capacity" and "k \<le> n"
  shows "run_schedule [parent_process capacity, child_process capacity] (concat (replicate k [0, 0]))
    (measure_context_switch_overhead n) = Some ((measure_context_switch_overhead n)\<lparr>pp_parent_left := n - k\<rparr>)"
  using assms(2)
proof (induction k)
  case 0
  then show ?case by (simp add: measure_context_switch_overhead_def)
next
  case (Suc k)
  have "concat (replicate (Suc k) [0, 0]) = concat (replicate k [0, 0] @ [[0, 0 :: nat]])"
    by (simp only: replicate_append_same replicate_Suc)
  then show ?case using Suc assms(1)
    by (simp add: run_schedule_append parent_process_def measure_context_switch_overhead_def del: replicate_Suc)
qed

interpretation pipe: ranked_threads one_byte "[parent_process capacity, child_process capacity]" "[]" pipe_rank for capacity
  by unfold_locales (auto intro: parent_one_byte child_one_byte pipe_rank_decreases)

lemma fork_one_byte: "one_byte (measure_context_switch_overhead n)"
  by (simp add: one_byte_def measure_context_switch_overhead_def)

definition parent_finished :: "ping_pong \<Rightarrow> bool" where
  "parent_finished s \<longleftrightarrow> pp_parent_left s = 0 \<and> pp_bytes s = 0"

lemma pipe_rest:
  assumes "0 < capacity" and "one_byte s" and "\<forall>f \<in> set [parent_process capacity, child_process capacity]. f s = None"
  shows "parent_finished s"
  using pipe_progress [OF assms(2,1)] assms(3) by (simp add: parent_finished_def)

text \<open>The parent always comes to the end of its rounds: there is never more than one byte on its way, the two processes take
  at most \<open>pipe_rank\<close> further steps, and they come to rest only with the parent finished and the pipe
  empty. But the pipe does not make the two take turns: the parent can finish all its rounds while the
  child has not run at all, and then the child waits at its first read for ever.\<close>
theorem ping_pong_on_one_pipe:
  assumes "0 < capacity" and run: "(interleave [parent_process capacity, child_process capacity])\<^sup>*\<^sup>* (measure_context_switch_overhead n) s"
  shows "pp_bytes s \<le> 1 \<and> ends_within (pipe_rank s) [parent_process capacity, child_process capacity] parent_finished s \<and>
    (\<exists>t. (interleave [parent_process capacity, child_process capacity])\<^sup>*\<^sup>* (measure_context_switch_overhead n) t \<and>
       child_process capacity t = None \<and> pp_parent_left t = 0 \<and> pp_child_left t = n)"
proof -
  have inv: "one_byte s" using pipe.reachable_inv [OF _ fork_one_byte] run by simp
  have "pp_bytes s \<le> 1" using inv by (simp add: one_byte_def split: if_splits)
  moreover note pipe.threads_end_with [where Q = parent_finished, OF pipe_rest [OF assms(1)] inv]
  moreover have "(interleave [parent_process capacity, child_process capacity])\<^sup>*\<^sup>* (measure_context_switch_overhead n)
      ((measure_context_switch_overhead n)\<lparr>pp_parent_left := 0\<rparr>)" (is "(_ :: ping_pong \<Rightarrow> ping_pong \<Rightarrow> bool) _ ?t")
    using run_schedule_reaches [OF parent_alone [OF assms(1), of n n]] by simp
  moreover have "child_process capacity ?t = None" "pp_parent_left ?t = 0" "pp_child_left ?t = n"
    by (simp_all add: child_process_def measure_context_switch_overhead_def)
  ultimately show ?thesis by blast
qed

theorem ping_pong_on_one_pipe_witness:
  "\<exists>t. (interleave [parent_process 65536, child_process 65536])\<^sup>*\<^sup>* (measure_context_switch_overhead NUM_SWITCHES) t \<and>
     pp_parent_left t = 0 \<and> pp_child_left t = 1000"
  using ping_pong_on_one_pipe [of 65536 NUM_SWITCHES, OF _ rtranclp.rtrancl_refl] by (auto simp: NUM_SWITCHES_def)

end
