(* ===== verification/Forked_Processes.thy ===== *)
theory Forked_Processes
  imports OS_Prelude Interleaving
begin

section \<open>A parent and its child: d9 demo\_shared\_memory.c, secure\_processing.c,
  inter\_process\_communication.c, memory\_layout\_analysis.c,
  measure\_creation.c\<close>

text \<open>
  Programs that fork once. After \<open>fork\<close> the child has a copy of the parent's memory and of its descriptors; a region
  mapped with \<open>MAP_SHARED\<close> is one region for both. \<open>wait (NULL)\<close> returns when the child has exited, and at once when there
  is none: a failed \<open>fork\<close> is not noticed by these programs, they go on as a parent without a child. \<open>sleep\<close> is a step that
  may end at any time. Parent and child take their steps in any order.
\<close>

datatype 'p child = No_Child | Running 'p | Exited

definition fork :: "bool \<Rightarrow> 'p \<Rightarrow> 'p child" where
  "fork forked p = (if forked then Running p else No_Child)"

definition wait_returns :: "'p child \<Rightarrow> bool" where
  "wait_returns c = (case c of Running _ \<Rightarrow> False | _ \<Rightarrow> True)"

lemma wait_returns_simps [simp]: "wait_returns No_Child" "\<not> wait_returns (Running p)" "wait_returns Exited"
  by (simp_all add: wait_returns_def)

lemma wait_returns_iff: "wait_returns c \<longleftrightarrow> (\<forall>p. c \<noteq> Running p)"
  by (cases c) simp_all

subsection \<open>A string in shared memory\<close>

definition SHM_SIZE :: nat where "SHM_SIZE = 1024"

definition shm_message :: string where "shm_message = ''Hello from shared memory!''"

datatype shm_parent_pos = SP_Writing nat | SP_Wait | SP_Unmap | SP_Unlink | SP_Return
datatype shm_child_pos = SC_Sleep | SC_Reading string

record shm_state =
  shm_bytes :: "char list"
  shm_parent :: shm_parent_pos
  shm_child :: "shm_child_pos child"
  shm_printed :: "string option"
  shm_mapped :: bool
  shm_named :: bool

text \<open>\<open>sprintf\<close> stores one byte after the other, the terminator last.\<close>

definition shm_parent_step :: "shm_state \<Rightarrow> shm_state option" where
  "shm_parent_step s =
     (case shm_parent s of
        SP_Writing n \<Rightarrow>
          if n < length shm_message
          then do { b \<leftarrow> wr (shm_bytes s) n (shm_message ! n); Some (s\<lparr>shm_bytes := b, shm_parent := SP_Writing (Suc n)\<rparr>) }
          else do { b \<leftarrow> wr (shm_bytes s) n (CHR 0x00); Some (s\<lparr>shm_bytes := b, shm_parent := SP_Wait\<rparr>) }
      | SP_Wait \<Rightarrow> if wait_returns (shm_child s) then Some (s\<lparr>shm_parent := SP_Unmap\<rparr>) else None
      | SP_Unmap \<Rightarrow> Some (s\<lparr>shm_mapped := False, shm_parent := SP_Unlink\<rparr>)
      | SP_Unlink \<Rightarrow> Some (s\<lparr>shm_named := False, shm_parent := SP_Return\<rparr>)
      | SP_Return \<Rightarrow> None)"

text \<open>\<open>printf\<close> of the child reads up to the first zero byte.\<close>

definition shm_child_step :: "shm_state \<Rightarrow> shm_state option" where
  "shm_child_step s =
     (case shm_child s of
        Running SC_Sleep \<Rightarrow> Some (s\<lparr>shm_child := Running (SC_Reading [])\<rparr>)
      | Running (SC_Reading out) \<Rightarrow>
          do { c \<leftarrow> rd (shm_bytes s) (length out);
               if c = CHR 0x00 then Some (s\<lparr>shm_printed := Some out, shm_child := Exited\<rparr>)
               else Some (s\<lparr>shm_child := Running (SC_Reading (out @ [c]))\<rparr>) }
      | _ \<Rightarrow> None)"

text \<open>
  The state after \<open>fork\<close>. \<open>contents\<close> is what the object of that name holds: zeros when \<open>shm_open\<close> has just made it. Writing
  through a failed mapping is undefined.
\<close>

definition demonstrate_shared_memory :: "bool \<Rightarrow> char list \<Rightarrow> bool \<Rightarrow> shm_state option" where
  "demonstrate_shared_memory mapped contents forked =
     (if mapped
      then Some \<lparr>shm_bytes = contents, shm_parent = SP_Writing 0, shm_child = fork forked SC_Sleep, shm_printed = None,
        shm_mapped = True, shm_named = True\<rparr>
      else None)"

definition new_object :: "char list" where
  "new_object = replicate SHM_SIZE (CHR 0x00)"

definition shm_written :: "shm_state \<Rightarrow> nat" where
  "shm_written s = (case shm_parent s of SP_Writing n \<Rightarrow> n | _ \<Rightarrow> length shm_message)"

definition shm_inv :: "bool \<Rightarrow> shm_state \<Rightarrow> bool" where
  "shm_inv forked s \<longleftrightarrow>
     shm_written s \<le> length shm_message \<and>
     shm_bytes s = take (shm_written s) shm_message @ replicate (SHM_SIZE - shm_written s) (CHR 0x00) \<and>
     (forked \<longleftrightarrow> shm_child s \<noteq> No_Child) \<and>
     (case shm_child s of
        Running (SC_Reading out) \<Rightarrow> length out \<le> shm_written s \<and> out = take (length out) shm_message
      | Exited \<Rightarrow> (\<exists>k \<le> shm_written s. shm_printed s = Some (take k shm_message))
      | _ \<Rightarrow> True) \<and>
     (shm_child s \<noteq> Exited \<longrightarrow> shm_printed s = None) \<and>
     (shm_parent s \<in> {SP_Unmap, SP_Unlink, SP_Return} \<longrightarrow> wait_returns (shm_child s)) \<and>
     (shm_mapped s \<longleftrightarrow> shm_parent s \<notin> {SP_Unlink, SP_Return}) \<and>
     (shm_named s \<longleftrightarrow> shm_parent s \<noteq> SP_Return)"

lemma message_fits: "length shm_message < SHM_SIZE"
  by (simp add: shm_message_def SHM_SIZE_def)

lemma message_no_zero: "CHR 0x00 \<notin> set shm_message"
  by (simp add: shm_message_def)

text \<open>What is behind the bytes written so far is zero; writing one more, or the terminator.\<close>

lemma shm_write:
  assumes "n \<le> length shm_message"
  shows "(take n shm_message @ replicate (SHM_SIZE - n) (CHR 0x00)) [n := c] =
      take n shm_message @ c # replicate (SHM_SIZE - Suc n) (CHR 0x00)"
proof -
  obtain k where "SHM_SIZE - n = Suc k" using assms message_fits by (metis Suc_diff_Suc le_less_trans)
  moreover from this have "SHM_SIZE - Suc n = k" by simp
  ultimately show ?thesis using assms by (simp add: list_update_append)
qed

lemma shm_read:
  assumes "n \<le> length shm_message" and "k \<le> n"
  shows "(take n shm_message @ replicate (SHM_SIZE - n) (CHR 0x00)) ! k = (if k < n then shm_message ! k else CHR 0x00)"
  using assms message_fits by (simp add: nth_append)

lemma shm_length:
  "n \<le> length shm_message \<Longrightarrow> length (take n shm_message @ replicate (SHM_SIZE - n) (CHR 0x00)) = SHM_SIZE"
  using message_fits by simp

lemma shm_parent_inv:
  assumes inv: "shm_inv forked s" and step: "shm_parent_step s = Some s'"
  shows "shm_inv forked s'"
proof (cases "shm_parent s")
  case (SP_Writing n)
  have n: "n \<le> length shm_message" and b: "shm_bytes s = take n shm_message @ replicate (SHM_SIZE - n) (CHR 0x00)"
    using inv SP_Writing by (simp_all add: shm_inv_def shm_written_def)
  show ?thesis
  proof (cases "n < length shm_message")
    case True
    then have s': "s' = s\<lparr>shm_bytes := take (Suc n) shm_message @ replicate (SHM_SIZE - Suc n) (CHR 0x00), shm_parent := SP_Writing (Suc n)\<rparr>"
      using step SP_Writing n by (auto simp: shm_parent_step_def b shm_write take_Suc_conv_app_nth bind_eq_Some_conv wr_eq_Some)
    have w: "shm_written s = n" "shm_written s' = Suc n" using SP_Writing by (simp_all add: shm_written_def s')
    show ?thesis using inv True SP_Writing w unfolding shm_inv_def
      by (auto simp: s' split: child.splits shm_child_pos.splits intro: le_SucI)
  next
    case False
    with n have n: "n = length shm_message" by simp
    have "shm_message @ CHR 0x00 # replicate (SHM_SIZE - Suc n) (CHR 0x00) = shm_message @ replicate (SHM_SIZE - n) (CHR 0x00)"
      using message_fits n by (metis Suc_diff_Suc replicate_Suc)
    then have s': "s' = s\<lparr>shm_parent := SP_Wait\<rparr>"
      using step SP_Writing n shm_write [of n "CHR 0x00"] b by (auto simp: shm_parent_step_def bind_eq_Some_conv wr_eq_Some)
    have w: "shm_written s' = shm_written s" using SP_Writing n by (simp add: shm_written_def s')
    show ?thesis using inv SP_Writing unfolding shm_inv_def w by (auto simp: s' split: child.splits shm_child_pos.splits)
  qed
qed (use inv step in \<open>auto simp: shm_inv_def shm_parent_step_def shm_written_def split: if_splits child.splits shm_child_pos.splits\<close>)

lemma shm_child_inv:
  assumes inv: "shm_inv forked s" and step: "shm_child_step s = Some s'"
  shows "shm_inv forked s'"
proof (cases "\<exists>out. shm_child s = Running (SC_Reading out)")
  case True
  then obtain out where out: "shm_child s = Running (SC_Reading out)" by blast
  have D: "length out \<le> shm_written s" "out = take (length out) shm_message" "shm_written s \<le> length shm_message"
    "shm_bytes s = take (shm_written s) shm_message @ replicate (SHM_SIZE - shm_written s) (CHR 0x00)"
    using inv out by (simp_all add: shm_inv_def)
  have c: "shm_bytes s ! length out = (if length out < shm_written s then shm_message ! length out else CHR 0x00)"
    using shm_read [OF D(3,1)] D(4) by simp
  show ?thesis
  proof (cases "length out < shm_written s")
    case True
    then have nz: "shm_message ! length out \<noteq> CHR 0x00" using D(3) message_no_zero by (metis less_le_trans nth_mem)
    have take: "out @ [shm_message ! length out] = take (Suc (length out)) shm_message"
      using True D(2,3) by (metis less_le_trans take_Suc_conv_app_nth)
    have s': "s' = s\<lparr>shm_child := Running (SC_Reading (out @ [shm_message ! length out]))\<rparr>"
      using step out c nz True by (auto simp: shm_child_step_def bind_eq_Some_conv rd_eq_Some)
    show ?thesis using inv out True take unfolding shm_inv_def by (auto simp: s' shm_written_def)
  next
    case False
    then have s': "s' = s\<lparr>shm_printed := Some out, shm_child := Exited\<rparr>"
      using step out c by (auto simp: shm_child_step_def bind_eq_Some_conv rd_eq_Some)
    show ?thesis using inv out D(1,2) unfolding shm_inv_def by (auto simp: s' shm_written_def)
  qed
next
  case False
  then have "shm_child s = Running SC_Sleep" "s' = s\<lparr>shm_child := Running (SC_Reading [])\<rparr>"
    using step by (auto simp: shm_child_step_def split: child.splits shm_child_pos.splits)
  then show ?thesis using inv unfolding shm_inv_def by (simp add: shm_written_def)
qed

definition shm_rank :: "shm_state \<Rightarrow> nat" where
  "shm_rank s =
     (case shm_parent s of SP_Writing n \<Rightarrow> 4 + (length shm_message - n) | SP_Wait \<Rightarrow> 3 | SP_Unmap \<Rightarrow> 2 | SP_Unlink \<Rightarrow> 1
      | SP_Return \<Rightarrow> 0) +
     (case shm_child s of Running SC_Sleep \<Rightarrow> length shm_message + 2
      | Running (SC_Reading out) \<Rightarrow> Suc (length shm_message) - length out | _ \<Rightarrow> 0)"

lemma shm_rank_decreases:
  assumes inv: "shm_inv forked s"
  shows "shm_parent_step s = Some s' \<Longrightarrow> shm_rank s' < shm_rank s"
    and "shm_child_step s = Some s' \<Longrightarrow> shm_rank s' < shm_rank s"
proof -
  show "shm_rank s' < shm_rank s" if "shm_parent_step s = Some s'"
    using that by (cases "shm_parent s") (auto simp: shm_parent_step_def shm_rank_def bind_eq_Some_conv split: if_splits)
  have "shm_child s = Running (SC_Reading out) \<Longrightarrow> length out \<le> length shm_message" for out
    using inv by (simp add: shm_inv_def)
  then show "shm_rank s' < shm_rank s" if "shm_child_step s = Some s'"
    using that by (fastforce simp: shm_child_step_def shm_rank_def bind_eq_Some_conv split: if_splits child.splits shm_child_pos.splits)
qed

interpretation shm: ranked_threads "shm_inv forked" "[shm_parent_step, shm_child_step]" "[]" shm_rank for forked
  by unfold_locales (auto intro: shm_parent_inv shm_child_inv shm_rank_decreases)

definition shm_over :: "bool \<Rightarrow> shm_state \<Rightarrow> bool" where
  "shm_over forked s \<longleftrightarrow> shm_parent s = SP_Return \<and> \<not> shm_mapped s \<and> \<not> shm_named s \<and>
     (if forked then shm_child s = Exited \<and> (\<exists>k \<le> length shm_message. shm_printed s = Some (take k shm_message))
      else shm_printed s = None)"

lemma shm_rest_over:
  assumes inv: "shm_inv forked s" and rest: "\<forall>f \<in> set [shm_parent_step, shm_child_step]. f s = None"
  shows "shm_over forked s"
proof -
  let ?n = "shm_written s"
  have D: "?n \<le> length shm_message" "length (shm_bytes s) = SHM_SIZE" using inv shm_length by (auto simp: shm_inv_def)
  have nr: "\<nexists>p. shm_child s = Running p"
  proof
    assume "\<exists>p. shm_child s = Running p"
    then obtain p where p: "shm_child s = Running p" by blast
    show False
    proof (cases p)
      case (SC_Reading out)
      then have "length out < SHM_SIZE" using inv p D(1) message_fits by (simp add: shm_inv_def)
      with rest p SC_Reading D(2) show False by (simp add: shm_child_step_def split: if_splits)
    qed (use rest p in \<open>simp add: shm_child_step_def\<close>)
  qed
  have "shm_parent s = SP_Return"
  proof (cases "shm_parent s")
    case (SP_Writing n)
    with D message_fits have "n < SHM_SIZE" by (simp add: shm_written_def)
    with rest SP_Writing D(2) show ?thesis by (simp add: shm_parent_step_def split: if_splits)
  qed (use rest nr in \<open>auto simp: shm_parent_step_def wait_returns_iff split: if_splits\<close>)
  with inv nr D(1) show ?thesis by (cases "shm_child s") (auto simp: shm_over_def shm_inv_def intro: order_trans)
qed

text \<open>The schedules in which the child reads after exactly \<open>k\<close> bytes have been written.\<close>

lemma shm_parent_alone:
  assumes "k \<le> length shm_message" and "shm_bytes s = new_object" and "shm_parent s = SP_Writing 0"
  shows "run_schedule [shm_parent_step, shm_child_step] (replicate k 0) s =
    Some (s\<lparr>shm_bytes := take k shm_message @ replicate (SHM_SIZE - k) (CHR 0x00), shm_parent := SP_Writing k\<rparr>)"
  using assms(1)
proof (induction k)
  case 0
  then show ?case using assms(2,3) by (simp add: new_object_def)
next
  case (Suc k)
  have "k < SHM_SIZE" using Suc.prems message_fits by simp
  then have "shm_parent_step (s\<lparr>shm_bytes := take k shm_message @ replicate (SHM_SIZE - k) (CHR 0x00), shm_parent := SP_Writing k\<rparr>) =
      Some (s\<lparr>shm_bytes := take (Suc k) shm_message @ replicate (SHM_SIZE - Suc k) (CHR 0x00), shm_parent := SP_Writing (Suc k)\<rparr>)"
    using Suc.prems by (simp add: shm_parent_step_def shm_write take_Suc_conv_app_nth)
  then show ?case using Suc by (simp add: run_schedule_repeat del: replicate_Suc)
qed

lemma shm_child_alone:
  assumes n: "n \<le> length shm_message" "shm_bytes s = take n shm_message @ replicate (SHM_SIZE - n) (CHR 0x00)"
    and "k \<le> n" and "shm_child s = Running SC_Sleep"
  shows "run_schedule [shm_parent_step, shm_child_step] (replicate (Suc k) 1) s =
    Some (s\<lparr>shm_child := Running (SC_Reading (take k shm_message))\<rparr>)"
  using assms(3)
proof (induction k)
  case 0
  then show ?case using assms(4) by (simp add: shm_child_step_def)
next
  case (Suc k)
  have "shm_message ! k \<noteq> CHR 0x00" using n(1) Suc.prems message_no_zero by (metis Suc_le_lessD less_le_trans nth_mem)
  then have "shm_child_step (s\<lparr>shm_child := Running (SC_Reading (take k shm_message))\<rparr>) =
      Some (s\<lparr>shm_child := Running (SC_Reading (take (Suc k) shm_message))\<rparr>)"
    using Suc.prems n shm_read [of n k] shm_length [of n] message_fits by (simp add: shm_child_step_def min_def take_Suc_conv_app_nth)
  then show ?case using Suc by (simp add: run_schedule_repeat [of "Suc 0" _ "Suc k"] del: replicate_Suc)
qed

text \<open>What the child prints after that.\<close>

lemma shm_child_prints:
  assumes "n \<le> length shm_message" and "shm_bytes s = take n shm_message @ replicate (SHM_SIZE - n) (CHR 0x00)"
    and "shm_child s = Running (SC_Reading (take n shm_message))"
  shows "shm_child_step s = Some (s\<lparr>shm_printed := Some (take n shm_message), shm_child := Exited\<rparr>)"
proof -
  have "length (take n shm_message) = n" using assms(1) by simp
  moreover have "rd (shm_bytes s) n = Some (CHR 0x00)"
    using assms(1,2) shm_read [of n n] shm_length [of n] message_fits by (simp add: rd_def)
  ultimately show ?thesis using assms(3) by (simp add: shm_child_step_def)
qed

lemma shm_any_prefix:
  assumes start: "demonstrate_shared_memory True new_object True = Some s" and k: "k \<le> length shm_message"
  shows "\<exists>t. (interleave [shm_parent_step, shm_child_step])\<^sup>*\<^sup>* s t \<and> shm_printed t = Some (take k shm_message)"
proof -
  have s: "shm_bytes s = new_object" "shm_parent s = SP_Writing 0" "shm_child s = Running SC_Sleep"
    using start by (auto simp: demonstrate_shared_memory_def fork_def)
  let ?u = "s\<lparr>shm_bytes := take k shm_message @ replicate (SHM_SIZE - k) (CHR 0x00), shm_parent := SP_Writing k\<rparr>"
  let ?v = "?u\<lparr>shm_child := Running (SC_Reading (take k shm_message))\<rparr>"
  have "run_schedule [shm_parent_step, shm_child_step] (replicate k 0 @ replicate (Suc k) 1) s = Some ?v"
    using shm_parent_alone [OF k s(1,2)] shm_child_alone [of k ?u k] k s(3) by (simp add: run_schedule_append del: replicate_Suc)
  then have "(interleave [shm_parent_step, shm_child_step])\<^sup>*\<^sup>* s ?v" by (rule run_schedule_reaches)
  moreover have "interleave [shm_parent_step, shm_child_step] ?v (?v\<lparr>shm_printed := Some (take k shm_message), shm_child := Exited\<rparr>)"
    using shm_child_prints [of k ?v] k by simp
  ultimately show ?thesis by (intro exI conjI, rule rtranclp.rtrancl_into_rtrancl) auto
qed

lemma shm_start_inv: "demonstrate_shared_memory True new_object forked = Some s \<Longrightarrow> shm_inv forked s"
  by (cases forked) (auto simp: demonstrate_shared_memory_def fork_def shm_inv_def shm_written_def new_object_def)

text \<open>Sleeping does not make the child wait for the parent. With a new object the two processes end, the object removed, within
  \<open>shm_rank\<close> steps whatever their order, and the child prints a prefix of the message; but every prefix is possible, the
  empty one included, and without a child the parent ends in the same way.\<close>
theorem shared_memory_prefixes:
  assumes "demonstrate_shared_memory True new_object forked = Some s"
  shows "ends_within (shm_rank s) [shm_parent_step, shm_child_step] (shm_over forked) s \<and>
    (forked \<longrightarrow> (\<forall>k \<le> length shm_message. \<exists>t. (interleave [shm_parent_step, shm_child_step])\<^sup>*\<^sup>* s t \<and>
       shm_printed t = Some (take k shm_message)))"
proof
  show "ends_within (shm_rank s) [shm_parent_step, shm_child_step] (shm_over forked) s"
    by (rule shm.threads_end_with [where Q = "shm_over forked", OF shm_rest_over shm_start_inv [OF assms]])
  show "forked \<longrightarrow> (\<forall>k \<le> length shm_message. \<exists>t. (interleave [shm_parent_step, shm_child_step])\<^sup>*\<^sup>* s t \<and>
      shm_printed t = Some (take k shm_message))" using shm_any_prefix [of s] assms by (cases forked) simp_all
qed

theorem shared_memory_prefixes_witness:
  "\<exists>s t. demonstrate_shared_memory True new_object True = Some s \<and>
     (interleave [shm_parent_step, shm_child_step])\<^sup>*\<^sup>* s t \<and> shm_printed t = Some ''Hello''"
proof -
  obtain s where s: "demonstrate_shared_memory True new_object True = Some s" by (simp add: demonstrate_shared_memory_def)
  have "take 5 shm_message = ''Hello''" "5 \<le> length shm_message" by (simp_all add: shm_message_def)
  with shared_memory_prefixes [OF s] obtain t where
    "(interleave [shm_parent_step, shm_child_step])\<^sup>*\<^sup>* s t" "shm_printed t = Some ''Hello''" by auto
  with s show ?thesis by blast
qed

subsection \<open>Private memory (secure\_processing.c)\<close>

text \<open>
  A private mapping is copied by \<open>fork\<close>: each process has its own, with the contents at that time, and gives back its own.
\<close>

datatype secure_parent_pos = SE_Wait | SE_Unmap | SE_Return
datatype secure_child_pos = SE_Child_Unmap | SE_Child_Exit

record secure_state =
  se_parent :: secure_parent_pos
  se_parent_data :: "string option"
  se_child :: "secure_child_pos child"
  se_child_data :: "string option"

definition secure_parent :: "secure_state \<Rightarrow> secure_state option" where
  "secure_parent s =
     (case se_parent s of
        SE_Wait \<Rightarrow> if wait_returns (se_child s) then Some (s\<lparr>se_parent := SE_Unmap\<rparr>) else None
      | SE_Unmap \<Rightarrow> Some (s\<lparr>se_parent_data := None, se_parent := SE_Return\<rparr>)
      | SE_Return \<Rightarrow> None)"

definition secure_child :: "secure_state \<Rightarrow> secure_state option" where
  "secure_child s =
     (case se_child s of
        Running SE_Child_Unmap \<Rightarrow> Some (s\<lparr>se_child_data := None, se_child := Running SE_Child_Exit\<rparr>)
      | Running SE_Child_Exit \<Rightarrow> Some (s\<lparr>se_child := Exited\<rparr>)
      | _ \<Rightarrow> None)"

text \<open>The secret is written before \<open>fork\<close>.\<close>

definition secure_processing :: "bool \<Rightarrow> secure_state" where
  "secure_processing forked =
     (let sensitive_data = ''SECRET_KEY=12345''
      in \<lparr>se_parent = SE_Wait, se_parent_data = Some sensitive_data, se_child = fork forked SE_Child_Unmap,
          se_child_data = (if forked then Some sensitive_data else None)\<rparr>)"

definition secure_inv :: "secure_state \<Rightarrow> bool" where
  "secure_inv s \<longleftrightarrow>
     se_parent_data s = (if se_parent s = SE_Return then None else Some ''SECRET_KEY=12345'') \<and>
     se_child_data s = (if se_child s = Running SE_Child_Unmap then Some ''SECRET_KEY=12345'' else None) \<and>
     (se_parent s \<noteq> SE_Wait \<longrightarrow> wait_returns (se_child s))"

definition secure_rank :: "secure_state \<Rightarrow> nat" where
  "secure_rank s =
     (case se_parent s of SE_Wait \<Rightarrow> 2 | SE_Unmap \<Rightarrow> 1 | SE_Return \<Rightarrow> 0) +
     (case se_child s of Running SE_Child_Unmap \<Rightarrow> 2 | Running SE_Child_Exit \<Rightarrow> 1 | _ \<Rightarrow> 0)"

lemma secure_parent_step:
  assumes "secure_inv s" and "secure_parent s = Some s'"
  shows "secure_inv s' \<and> secure_rank s' < secure_rank s"
  using assms by (cases "se_parent s"; cases "se_child s")
    (auto simp: secure_inv_def secure_parent_def secure_rank_def split: if_splits)

lemma secure_child_step:
  assumes "secure_inv s" and "secure_child s = Some s'"
  shows "secure_inv s' \<and> secure_rank s' < secure_rank s"
proof (cases "se_child s")
  case (Running p)
  with assms show ?thesis
    by (cases p; cases "se_parent s") (auto simp: secure_inv_def secure_child_def secure_rank_def split: if_splits)
qed (use assms in \<open>simp_all add: secure_child_def\<close>)

interpretation secure: ranked_threads secure_inv "[secure_parent, secure_child]" "[]" secure_rank
  by unfold_locales (auto dest: secure_parent_step secure_child_step)

text \<open>
  The child cannot take the data from the parent: the parent holds it until it unmaps its own copy, and at the end neither
  has it. But the parent holds it as well as the child, all the time the child works.
\<close>

definition secure_over :: "secure_state \<Rightarrow> bool" where
  "secure_over s \<longleftrightarrow> se_parent s = SE_Return \<and> se_parent_data s = None \<and> se_child_data s = None"

lemma secure_rest_over:
  assumes inv: "secure_inv s" and rest: "\<forall>f \<in> set [secure_parent, secure_child]. f s = None"
  shows "secure_over s"
proof -
  have "wait_returns (se_child s)" unfolding wait_returns_iff
  proof (intro allI notI)
    fix p assume "se_child s = Running p"
    with rest show False by (cases p) (simp_all add: secure_child_def)
  qed
  with inv rest show ?thesis by (cases "se_parent s"; cases "se_child s") (auto simp: secure_inv_def secure_over_def secure_parent_def)
qed

theorem secure_processing_copies:
  assumes "(interleave [secure_parent, secure_child])\<^sup>*\<^sup>* (secure_processing forked) s"
  shows "ends_within (secure_rank s) [secure_parent, secure_child] secure_over s \<and>
    (se_child s = Running SE_Child_Unmap \<longrightarrow> se_child_data s = Some ''SECRET_KEY=12345'' \<and> se_parent_data s = se_child_data s)"
proof -
  have "secure_inv (secure_processing forked)" by (cases forked) (simp_all add: secure_inv_def secure_processing_def fork_def Let_def)
  from secure.reachable_inv [OF _ this] assms have inv: "secure_inv s" by simp
  have "se_child_data s = Some ''SECRET_KEY=12345'' \<and> se_parent_data s = se_child_data s" if "se_child s = Running SE_Child_Unmap"
    using inv that by (cases "se_parent s") (simp_all add: secure_inv_def)
  then show ?thesis using secure.threads_end_with [where Q = secure_over, OF secure_rest_over inv] by blast
qed

text \<open>The two processes run one after the other.\<close>

lemma secure_processing_run:
  "map_option (\<lambda>s. (se_parent s, se_parent_data s, se_child_data s))
     (run_schedule [secure_parent, secure_child] [1, 1, 0, 0] (secure_processing True)) = Some (SE_Return, None, None)"
  by code_simp

subsection \<open>A message through a pipe\<close>

definition BUFFER_SIZE :: nat where "BUFFER_SIZE = 1024"

definition pipe_message :: string where "pipe_message = ''Hello from parent!''"

datatype ipc_parent_pos = IP_Close_Read | IP_Write | IP_Close_Write | IP_Wait | IP_Return | IP_Killed
datatype ipc_child_pos = IC_Close_Write | IC_Read | IC_Print | IC_Close_Read

text \<open>
  The ends of the pipe that parent and child hold open. A read waits while the pipe is empty and somebody holds the
  write end; a write without a reader is answered by \<open>SIGPIPE\<close>. The message is short enough to be written in one piece.
\<close>

record ipc_state =
  ipc_pipe :: "char list"
  ipc_parent :: ipc_parent_pos
  ipc_parent_reads :: bool
  ipc_parent_writes :: bool
  ipc_child :: "ipc_child_pos child"
  ipc_child_reads :: bool
  ipc_child_writes :: bool
  ipc_buffer :: "char list"
  ipc_printed :: "string option"

definition ipc_parent_step :: "ipc_state \<Rightarrow> ipc_state option" where
  "ipc_parent_step s =
     (case ipc_parent s of
        IP_Close_Read \<Rightarrow> Some (s\<lparr>ipc_parent_reads := False, ipc_parent := IP_Write\<rparr>)
      | IP_Write \<Rightarrow>
          if ipc_parent_reads s \<or> ipc_child_reads s
          then Some (s\<lparr>ipc_pipe := ipc_pipe s @ pipe_message @ [CHR 0x00], ipc_parent := IP_Close_Write\<rparr>)
          else Some (s\<lparr>ipc_parent_writes := False, ipc_parent := IP_Killed\<rparr>)
      | IP_Close_Write \<Rightarrow> Some (s\<lparr>ipc_parent_writes := False, ipc_parent := IP_Wait\<rparr>)
      | IP_Wait \<Rightarrow> if wait_returns (ipc_child s) then Some (s\<lparr>ipc_parent := IP_Return\<rparr>) else None
      | IP_Return \<Rightarrow> None
      | IP_Killed \<Rightarrow> None)"

definition ipc_child_step :: "ipc_state \<Rightarrow> ipc_state option" where
  "ipc_child_step s =
     (case ipc_child s of
        Running IC_Close_Write \<Rightarrow> Some (s\<lparr>ipc_child_writes := False, ipc_child := Running IC_Read\<rparr>)
      | Running IC_Read \<Rightarrow>
          if ipc_pipe s \<noteq> []
          then Some (s\<lparr>ipc_buffer := take BUFFER_SIZE (ipc_pipe s) @ drop (length (ipc_pipe s)) (ipc_buffer s),
            ipc_pipe := drop BUFFER_SIZE (ipc_pipe s), ipc_child := Running IC_Print\<rparr>)
          else if ipc_parent_writes s \<or> ipc_child_writes s then None
          else Some (s\<lparr>ipc_child := Running IC_Print\<rparr>)
      | Running IC_Print \<Rightarrow>
          do { out \<leftarrow> c_string (ipc_buffer s); Some (s\<lparr>ipc_printed := Some out, ipc_child := Running IC_Close_Read\<rparr>) }
      | Running IC_Close_Read \<Rightarrow> Some (s\<lparr>ipc_child_reads := False, ipc_child := Exited\<rparr>)
      | _ \<Rightarrow> None)"

text \<open>The state after \<open>pipe\<close> and \<open>fork\<close>; \<open>buffer\<close> is not initialised.\<close>

definition demonstrate_pipe_communication :: "char list \<Rightarrow> bool \<Rightarrow> ipc_state" where
  "demonstrate_pipe_communication buffer forked =
     \<lparr>ipc_pipe = [], ipc_parent = IP_Close_Read, ipc_parent_reads = True, ipc_parent_writes = True,
      ipc_child = fork forked IC_Close_Write, ipc_child_reads = forked, ipc_child_writes = forked,
      ipc_buffer = buffer, ipc_printed = None\<rparr>"

text \<open>The message is on its way from the write to the read, and then in the buffer.\<close>

definition ipc_inv :: "ipc_state \<Rightarrow> bool" where
  "ipc_inv s \<longleftrightarrow>
     length (ipc_buffer s) = BUFFER_SIZE \<and>
     (ipc_parent_reads s \<longleftrightarrow> ipc_parent s = IP_Close_Read) \<and>
     (ipc_parent_writes s \<longleftrightarrow> ipc_parent s \<in> {IP_Close_Read, IP_Write, IP_Close_Write}) \<and>
     ipc_parent s \<noteq> IP_Killed \<and> (ipc_parent s = IP_Return \<longrightarrow> ipc_child s = Exited) \<and>
     (case ipc_child s of
        No_Child \<Rightarrow> False
      | Running p \<Rightarrow> ipc_child_reads s \<and> (ipc_child_writes s \<longleftrightarrow> p = IC_Close_Write) \<and>
          (if p \<in> {IC_Close_Write, IC_Read}
           then ipc_pipe s = (if ipc_parent s \<in> {IP_Close_Read, IP_Write} then [] else pipe_message @ [CHR 0x00])
           else ipc_parent s \<notin> {IP_Close_Read, IP_Write} \<and>
             (p = IC_Print \<longrightarrow> c_string (ipc_buffer s) = Some pipe_message) \<and>
             (p = IC_Close_Read \<longrightarrow> ipc_printed s = Some pipe_message))
      | Exited \<Rightarrow> ipc_parent s \<notin> {IP_Close_Read, IP_Write} \<and> ipc_printed s = Some pipe_message)"

lemma ipc_parent_inv:
  assumes "ipc_inv s" and "ipc_parent_step s = Some s'"
  shows "ipc_inv s'"
proof -
  have s': "s' = the (ipc_parent_step s)" and ok: "ipc_parent_step s \<noteq> None" using assms(2) by simp_all
  show ?thesis using assms(1) ok unfolding s'
    by (cases "ipc_parent s"; cases "ipc_child s")
      (simp_all add: ipc_inv_def ipc_parent_step_def split: if_splits)
qed

lemma message_length: "length pipe_message < BUFFER_SIZE"
  by (simp add: pipe_message_def BUFFER_SIZE_def)

lemma message_string: "c_string (pipe_message @ CHR 0x00 # rest) = Some pipe_message"
  by (rule c_string_eq) (simp add: pipe_message_def)

lemma ipc_child_inv:
  assumes inv: "ipc_inv s" and step: "ipc_child_step s = Some s'"
  shows "ipc_inv s'"
proof (cases "ipc_child s = Running IC_Read")
  case True
  let ?m = "pipe_message @ [CHR 0x00]"
  have "ipc_pipe s = ?m" "ipc_parent s \<notin> {IP_Close_Read, IP_Write}"
    using inv step True by (auto simp: ipc_inv_def ipc_child_step_def split: if_splits)
  moreover from this have "s' = s\<lparr>ipc_buffer := ?m @ drop (length ?m) (ipc_buffer s), ipc_pipe := [], ipc_child := Running IC_Print\<rparr>"
    using step True message_length by (auto simp: ipc_child_step_def)
  ultimately show ?thesis using inv True message_length message_string by (auto simp: ipc_inv_def)
next
  case False
  have s': "s' = the (ipc_child_step s)" and ok: "ipc_child_step s \<noteq> None" using step by simp_all
  show ?thesis
  proof (cases "ipc_child s")
    case (Running p)
    with inv ok False show ?thesis unfolding s'
      by (cases p; cases "ipc_parent s") (simp_all add: ipc_inv_def ipc_child_step_def split: if_splits)
  qed (use ok in \<open>simp_all add: ipc_child_step_def\<close>)
qed

definition ipc_rank :: "ipc_state \<Rightarrow> nat" where
  "ipc_rank s =
     (case ipc_parent s of IP_Close_Read \<Rightarrow> 4 | IP_Write \<Rightarrow> 3 | IP_Close_Write \<Rightarrow> 2 | IP_Wait \<Rightarrow> 1 | _ \<Rightarrow> 0) +
     (case ipc_child s of Running IC_Close_Write \<Rightarrow> 4 | Running IC_Read \<Rightarrow> 3 | Running IC_Print \<Rightarrow> 2 | Running IC_Close_Read \<Rightarrow> 1
      | _ \<Rightarrow> 0)"

lemma ipc_parent_rank: "ipc_parent_step s = Some s' \<Longrightarrow> ipc_rank s' < ipc_rank s"
  by (cases "ipc_parent s") (auto simp: ipc_rank_def ipc_parent_step_def split: if_splits)

lemma ipc_child_rank:
  assumes "ipc_child_step s = Some s'"
  shows "ipc_rank s' < ipc_rank s"
proof (cases "ipc_child s")
  case (Running p)
  with assms show ?thesis
    by (cases p) (auto simp: ipc_rank_def ipc_child_step_def bind_eq_Some_conv split: if_splits)
qed (use assms in \<open>simp_all add: ipc_child_step_def\<close>)

interpretation ipc: ranked_threads ipc_inv "[ipc_parent_step, ipc_child_step]" "[]" ipc_rank
  by unfold_locales (auto intro: ipc_parent_inv ipc_child_inv ipc_parent_rank ipc_child_rank)

definition ipc_over :: "ipc_state \<Rightarrow> bool" where
  "ipc_over s \<longleftrightarrow> ipc_parent s = IP_Return \<and> ipc_child s = Exited \<and> ipc_printed s = Some pipe_message"

lemma ipc_rest_over:
  assumes inv: "ipc_inv s" and rest: "\<forall>f \<in> set [ipc_parent_step, ipc_child_step]. f s = None"
  shows "ipc_over s"
proof (cases "ipc_child s")
  case (Running p)
  with inv rest show ?thesis
    by (cases p; cases "ipc_parent s") (simp_all add: ipc_inv_def ipc_parent_step_def ipc_child_step_def split: if_splits)
next
  case Exited
  with inv rest show ?thesis
    by (cases "ipc_parent s") (simp_all add: ipc_inv_def ipc_over_def ipc_parent_step_def)
qed (use inv in \<open>simp add: ipc_inv_def\<close>)

text \<open>When the fork succeeds the child receives exactly the message: no step is undefined, nobody is killed, and both processes
  end within \<open>ipc_rank\<close> steps whatever their order. When the fork fails the parent closes the last read end
  and its write kills it.\<close>
theorem pipe_communication:
  assumes "length buffer = BUFFER_SIZE"
  shows "ends_within 8 [ipc_parent_step, ipc_child_step] ipc_over (demonstrate_pipe_communication buffer True) \<and>
    map_option ipc_parent (run_schedule [ipc_parent_step, ipc_child_step] [0, 0] (demonstrate_pipe_communication buffer False)) =
      Some IP_Killed"
proof
  have "ipc_inv (demonstrate_pipe_communication buffer True)"
    using assms by (simp add: ipc_inv_def demonstrate_pipe_communication_def fork_def)
  from ipc.threads_end_with [where Q = ipc_over, OF ipc_rest_over this]
  have "ends_within (ipc_rank (demonstrate_pipe_communication buffer True)) [ipc_parent_step, ipc_child_step] ipc_over
      (demonstrate_pipe_communication buffer True)" .
  moreover have "ipc_rank (demonstrate_pipe_communication buffer True) = 8"
    by (simp add: demonstrate_pipe_communication_def ipc_rank_def fork_def)
  ultimately show "ends_within 8 [ipc_parent_step, ipc_child_step] ipc_over (demonstrate_pipe_communication buffer True)" by simp
qed (simp add: demonstrate_pipe_communication_def ipc_parent_step_def)

subsection \<open>Counters in shared memory\<close>

text \<open>The child adds to one field of the shared structure, a thread of the parent to the other. An increment loads and stores.\<close>

datatype increment = Load | Store int | Done

datatype layout_pos = LM_Create | LM_Join | LM_Wait | LM_Print | LM_Return

record layout_state =
  process_value :: int
  thread_value :: int
  la_child :: "increment child"
  la_thread :: "increment option"
  la_main :: layout_pos
  la_printed :: "(int \<times> int) option"

definition layout_child :: "layout_state \<Rightarrow> layout_state option" where
  "layout_child s =
     (case la_child s of
        Running Load \<Rightarrow> Some (s\<lparr>la_child := Running (Store (process_value s))\<rparr>)
      | Running (Store v) \<Rightarrow> do { w \<leftarrow> chk (v + 1); Some (s\<lparr>process_value := w, la_child := Running Done\<rparr>) }
      | Running Done \<Rightarrow> Some (s\<lparr>la_child := Exited\<rparr>)
      | _ \<Rightarrow> None)"

definition layout_thread_function :: "layout_state \<Rightarrow> layout_state option" where
  "layout_thread_function s =
     (case la_thread s of
        Some Load \<Rightarrow> Some (s\<lparr>la_thread := Some (Store (thread_value s))\<rparr>)
      | Some (Store v) \<Rightarrow> do { w \<leftarrow> chk (v + 1); Some (s\<lparr>thread_value := w, la_thread := Some Done\<rparr>) }
      | _ \<Rightarrow> None)"

definition layout_main :: "layout_state \<Rightarrow> layout_state option" where
  "layout_main s =
     (case la_main s of
        LM_Create \<Rightarrow> Some (s\<lparr>la_thread := Some Load, la_main := LM_Join\<rparr>)
      | LM_Join \<Rightarrow> if la_thread s = Some Done then Some (s\<lparr>la_main := LM_Wait\<rparr>) else None
      | LM_Wait \<Rightarrow> if wait_returns (la_child s) then Some (s\<lparr>la_main := LM_Print\<rparr>) else None
      | LM_Print \<Rightarrow> Some (s\<lparr>la_printed := Some (process_value s, thread_value s), la_main := LM_Return\<rparr>)
      | LM_Return \<Rightarrow> None)"

text \<open>The state after the mapping, which holds zeros, and \<open>fork\<close>.\<close>

definition layout_start :: "bool \<Rightarrow> layout_state" where
  "layout_start forked = \<lparr>process_value = 0, thread_value = 0, la_child = fork forked Load, la_thread = None,
     la_main = LM_Create, la_printed = None\<rparr>"

fun child_counts :: "bool \<Rightarrow> increment child \<Rightarrow> int \<Rightarrow> bool" where
  "child_counts forked No_Child v \<longleftrightarrow> \<not> forked \<and> v = 0"
| "child_counts forked (Running Load) v \<longleftrightarrow> forked \<and> v = 0"
| "child_counts forked (Running (Store w)) v \<longleftrightarrow> forked \<and> v = 0 \<and> w = 0"
| "child_counts forked (Running Done) v \<longleftrightarrow> forked \<and> v = 1"
| "child_counts forked Exited v \<longleftrightarrow> forked \<and> v = 1"

fun thread_counts :: "layout_pos \<Rightarrow> increment option \<Rightarrow> int \<Rightarrow> bool" where
  "thread_counts m None v \<longleftrightarrow> m = LM_Create \<and> v = 0"
| "thread_counts m (Some Load) v \<longleftrightarrow> m = LM_Join \<and> v = 0"
| "thread_counts m (Some (Store w)) v \<longleftrightarrow> m = LM_Join \<and> v = 0 \<and> w = 0"
| "thread_counts m (Some Done) v \<longleftrightarrow> m \<noteq> LM_Create \<and> v = 1"

definition layout_inv :: "bool \<Rightarrow> layout_state \<Rightarrow> bool" where
  "layout_inv forked s \<longleftrightarrow>
     child_counts forked (la_child s) (process_value s) \<and> thread_counts (la_main s) (la_thread s) (thread_value s) \<and>
     (la_main s \<in> {LM_Print, LM_Return} \<longrightarrow> wait_returns (la_child s)) \<and>
     (la_main s = LM_Return \<longrightarrow> la_printed s = Some (if forked then 1 else 0, 1))"

lemma chk_1: "chk 1 = Some 1"
  by (simp add: chk_def int_ok_def INT_MIN_def INT_MAX_def)

lemma layout_child_inv:
  assumes inv: "layout_inv forked s" and step: "layout_child s = Some s'"
  shows "layout_inv forked s'"
proof (cases "la_child s")
  case (Running p)
  with assms show ?thesis by (cases p) (auto simp: layout_inv_def layout_child_def chk_1)
qed (use step in \<open>simp_all add: layout_child_def\<close>)

lemma layout_thread_inv:
  assumes inv: "layout_inv forked s" and step: "layout_thread_function s = Some s'"
  shows "layout_inv forked s'"
proof (cases "la_thread s")
  case (Some p)
  with assms show ?thesis by (cases p) (auto simp: layout_inv_def layout_thread_function_def chk_1)
qed (use step in \<open>simp_all add: layout_thread_function_def\<close>)

lemma waited_counts: "child_counts forked c v \<Longrightarrow> wait_returns c \<Longrightarrow> v = (if forked then 1 else 0)"
  by (cases c) auto

lemma joined_counts: "thread_counts m t v \<Longrightarrow> m \<notin> {LM_Create, LM_Join} \<Longrightarrow> t = Some Done \<and> v = 1"
  by (cases "(m, t, v)" rule: thread_counts.cases) auto

lemma layout_main_inv:
  assumes inv: "layout_inv forked s" and step: "layout_main s = Some s'"
  shows "layout_inv forked s'"
proof (cases "la_main s")
  case LM_Create
  then have "la_thread s = None" using inv by (cases "(la_main s, la_thread s, thread_value s)" rule: thread_counts.cases) (auto simp: layout_inv_def)
  with LM_Create assms show ?thesis by (auto simp: layout_inv_def layout_main_def)
next
  case LM_Print
  with inv waited_counts joined_counts have "process_value s = (if forked then 1 else 0)" "thread_value s = 1" "la_thread s = Some Done"
    unfolding layout_inv_def by (metis insertI1, (metis insert_iff layout_pos.distinct singletonD)+)
  with LM_Print assms show ?thesis by (auto simp: layout_inv_def layout_main_def)
qed (use assms joined_counts [of "la_main s" "la_thread s" "thread_value s"] in
    \<open>auto simp: layout_inv_def layout_main_def split: if_splits\<close>)

definition layout_rank :: "layout_state \<Rightarrow> nat" where
  "layout_rank s =
     (case la_child s of Running Load \<Rightarrow> 3 | Running (Store _) \<Rightarrow> 2 | Running Done \<Rightarrow> 1 | _ \<Rightarrow> 0) +
     (case la_thread s of None \<Rightarrow> 2 | Some Load \<Rightarrow> 2 | Some (Store _) \<Rightarrow> 1 | Some Done \<Rightarrow> 0) +
     (case la_main s of LM_Create \<Rightarrow> 4 | LM_Join \<Rightarrow> 3 | LM_Wait \<Rightarrow> 2 | LM_Print \<Rightarrow> 1 | LM_Return \<Rightarrow> 0)"

lemma layout_child_rank:
  assumes "layout_child s = Some s'"
  shows "layout_rank s' < layout_rank s"
proof (cases "la_child s")
  case (Running p)
  with assms show ?thesis by (cases p) (auto simp: layout_rank_def layout_child_def bind_eq_Some_conv)
qed (use assms in \<open>simp_all add: layout_child_def\<close>)

lemma layout_thread_rank:
  assumes "layout_thread_function s = Some s'"
  shows "layout_rank s' < layout_rank s"
proof (cases "la_thread s")
  case (Some p)
  with assms show ?thesis by (cases p) (auto simp: layout_rank_def layout_thread_function_def bind_eq_Some_conv)
qed (use assms in \<open>simp_all add: layout_thread_function_def\<close>)

lemma layout_main_rank:
  assumes "layout_inv forked s" and "layout_main s = Some s'"
  shows "layout_rank s' < layout_rank s"
proof (cases "la_main s")
  case LM_Create
  then have "la_thread s = None" using assms(1)
    by (cases "(la_main s, la_thread s, thread_value s)" rule: thread_counts.cases) (auto simp: layout_inv_def)
  with LM_Create assms(2) show ?thesis by (auto simp: layout_rank_def layout_main_def)
qed (use assms(2) in \<open>auto simp: layout_rank_def layout_main_def split: if_splits\<close>)

interpretation layout: ranked_threads "layout_inv forked" "[layout_child, layout_thread_function, layout_main]" "[]" layout_rank
  for forked
  by unfold_locales (auto intro: layout_child_inv layout_thread_inv layout_main_inv
      layout_child_rank layout_thread_rank layout_main_rank)

definition layout_over :: "bool \<Rightarrow> layout_state \<Rightarrow> bool" where
  "layout_over forked s \<longleftrightarrow> la_main s = LM_Return \<and> la_printed s = Some (if forked then 1 else 0, 1)"

lemma layout_rest_over:
  assumes inv: "layout_inv forked s" and rest: "\<forall>f \<in> set [layout_child, layout_thread_function, layout_main]. f s = None"
  shows "layout_over forked s"
proof -
  have "\<forall>p. la_child s \<noteq> Running p"
  proof (intro allI notI)
    fix p assume "la_child s = Running p"
    with inv rest show False by (cases p) (auto simp: layout_inv_def layout_child_def chk_1)
  qed
  then have w: "wait_returns (la_child s)" by (simp add: wait_returns_iff)
  have t: "la_thread s = None \<or> la_thread s = Some Done"
    using inv rest by (cases "(la_main s, la_thread s, thread_value s)" rule: thread_counts.cases)
      (auto simp: layout_inv_def layout_thread_function_def chk_1)
  have "la_main s = LM_Return" using inv rest w t
    by (cases "la_main s") (auto simp: layout_inv_def layout_main_def)
  with inv show ?thesis by (simp add: layout_inv_def layout_over_def)
qed

text \<open>Whatever the order, the program prints one for each counter, the child's through the shared mapping; when the fork has failed
  the counter of the process is zero.\<close>
theorem layout_counts:
  "ends_within (layout_rank (layout_start forked)) [layout_child, layout_thread_function, layout_main] (layout_over forked)
     (layout_start forked)"
proof (rule layout.threads_end_with [OF layout_rest_over])
  show "layout_inv forked (layout_start forked)" by (cases forked) (simp_all add: layout_inv_def layout_start_def fork_def)
qed

subsection \<open>Measuring the creation (measure\_creation.c)\<close>

text \<open>The clock is a parameter: the readings before and after, seconds and microseconds. A \<open>long\<close> has 64 bits.\<close>

definition long_ok :: "int \<Rightarrow> bool" where
  "long_ok x \<longleftrightarrow> - (2 ^ 63) \<le> x \<and> x < 2 ^ 63"

definition chk_long :: "int \<Rightarrow> int option" where
  "chk_long x = (if long_ok x then Some x else None)"

record timeval =
  tv_sec :: int
  tv_usec :: int

definition measure_process_creation :: "timeval \<times> timeval \<Rightarrow> int option" where
  "measure_process_creation timing =
     (let (start, stop) = timing in
      do { sec \<leftarrow> chk_long (tv_sec stop - tv_sec start);
           micro \<leftarrow> chk_long (sec * 1000000);
           usec \<leftarrow> chk_long (tv_usec stop - tv_usec start);
           chk_long (micro + usec) })"

definition measure_thread_creation :: "timeval \<times> timeval \<Rightarrow> int option" where
  "measure_thread_creation timing =
     (let (start, stop) = timing in
      do { sec \<leftarrow> chk_long (tv_sec stop - tv_sec start);
           micro \<leftarrow> chk_long (sec * 1000000);
           usec \<leftarrow> chk_long (tv_usec stop - tv_usec start);
           chk_long (micro + usec) })"

lemma measure_thread_creation: "measure_thread_creation = measure_process_creation"
  by (simp add: fun_eq_iff measure_thread_creation_def measure_process_creation_def)

text \<open>The \<open>main\<close> function: the averages of ten measurements of each kind.\<close>

definition measure_creation_main :: "(timeval \<times> timeval) list \<Rightarrow> (timeval \<times> timeval) list \<Rightarrow> (int \<times> int) option" where
  "measure_creation_main processes threads =
     do { (p, t) \<leftarrow> for_loop 0 10 (\<lambda>i (p, t). do {
            x \<leftarrow> rd processes i; m \<leftarrow> measure_process_creation x; p' \<leftarrow> chk_long (p + m);
            y \<leftarrow> rd threads i; k \<leftarrow> measure_thread_creation y; t' \<leftarrow> chk_long (t + k);
            Some (p', t') }) (0, 0);
          Some (c_div p 10, c_div t 10) }"

definition micros :: "timeval \<Rightarrow> int" where
  "micros t = tv_sec t * 1000000 + tv_usec t"

text \<open>A clock that does not run backwards, before the year 10000.\<close>

definition measured :: "timeval \<times> timeval \<Rightarrow> bool" where
  "measured x \<longleftrightarrow> (\<forall>t \<in> {fst x, snd x}. 0 \<le> tv_sec t \<and> tv_sec t < 2 ^ 38 \<and> 0 \<le> tv_usec t \<and> tv_usec t < 1000000) \<and>
     micros (fst x) \<le> micros (snd x)"

lemma measure_creation_elapsed:
  assumes "measured x"
  shows "measure_process_creation x = Some (micros (snd x) - micros (fst x))" and "0 \<le> micros (snd x) - micros (fst x)"
    and "micros (snd x) - micros (fst x) < 2 ^ 58"
  using assms by (auto simp: measured_def measure_process_creation_def micros_def chk_long_def long_ok_def split: prod.splits)

text \<open>The averages are those of the elapsed times, rounded down.\<close>

theorem creation_averages:
  assumes "length ps = 10" and "length ts = 10" and "\<forall>x \<in> set ps \<union> set ts. measured x"
  shows "measure_creation_main ps ts =
    Some ((\<Sum>x\<leftarrow>ps. micros (snd x) - micros (fst x)) div 10, (\<Sum>x\<leftarrow>ts. micros (snd x) - micros (fst x)) div 10)"
proof -
  let ?d = "\<lambda>x. micros (snd x) - micros (fst x)"
  let ?body = "\<lambda>i (p, t). do {
            x \<leftarrow> rd ps i; m \<leftarrow> measure_process_creation x; p' \<leftarrow> chk_long (p + m);
            y \<leftarrow> rd ts i; k \<leftarrow> measure_process_creation y; t' \<leftarrow> chk_long (t + k);
            Some (p', t') }"
  define P where "P = (\<lambda>i :: nat. \<lambda>(p, t). p = (\<Sum>x\<leftarrow>take i ps. ?d x) \<and> t = (\<Sum>x\<leftarrow>take i ts. ?d x) \<and>
    0 \<le> p \<and> p \<le> int i * 2 ^ 58 \<and> 0 \<le> t \<and> t \<le> int i * 2 ^ 58 \<and> i \<le> 10)"
  have "\<exists>s. for_loop 0 10 ?body (0, 0) = Some s \<and> P 10 s"
  proof (rule for_loop_invar)
    show "P 0 (0, 0)" by (simp add: P_def)
  next
    fix i s assume i: "i < 10" and P: "P i s"
    obtain p t where s: "s = (p, t)" by (cases s)
    have m: "measured (ps ! i)" "measured (ts ! i)" using assms i by auto
    note mp = measure_creation_elapsed [OF m(1)] and mt = measure_creation_elapsed [OF m(2)]
    have "int i * 2 ^ 58 \<le> 9 * 2 ^ 58" using i by simp
    then have ok: "long_ok (p + ?d (ps ! i))" "long_ok (t + ?d (ts ! i))"
      using P mp(2,3) mt(2,3) unfolding P_def s long_ok_def by auto
    have "?body i (p, t) = Some (p + ?d (ps ! i), t + ?d (ts ! i))"
      using i assms(1,2) mp(1) mt(1) ok by (simp add: chk_long_def)
    moreover have "P (Suc i) (p + ?d (ps ! i), t + ?d (ts ! i))"
      using P mp(2,3) mt(2,3) i assms(1,2) unfolding P_def s by (simp add: take_Suc_conv_app_nth algebra_simps)
    ultimately show "\<exists>s'. ?body i s = Some s' \<and> P (Suc i) s'" unfolding s by blast
  qed simp
  then show ?thesis using assms(1,2) by (auto simp: measure_creation_main_def measure_thread_creation P_def c_div_nonneg)
qed

text \<open>Ten processes in 250 microseconds each, ten threads in 20.\<close>

theorem creation_averages_witness:
  "measure_creation_main
     (replicate 10 (\<lparr>tv_sec = 7, tv_usec = 999900\<rparr>, \<lparr>tv_sec = 8, tv_usec = 150\<rparr>))
     (replicate 10 (\<lparr>tv_sec = 8, tv_usec = 0\<rparr>, \<lparr>tv_sec = 8, tv_usec = 20\<rparr>)) = Some (250, 20)"
  by (subst creation_averages) (simp_all add: measured_def micros_def sum_list_replicate)

end
