(* ===== verification/Thread_Life.thy ===== *)
theory Thread_Life
  imports OS_Prelude Interleaving
begin

section \<open>The life of a thread: d8 joining\_thread.c, thread\_local\_storage.c, thread\_cancellation.c,
  d6 simplified.c\<close>

text \<open>
  Memory is a partial function from addresses to cells. \<open>malloc\<close> is a parameter: the address it returns, if any, is not
  in use. A cell that has just been allocated holds whatever it held.
\<close>

type_synonym cells = "nat \<Rightarrow> int option"

definition malloc_ok :: "(cells \<Rightarrow> nat option) \<Rightarrow> bool" where
  "malloc_ok malloc \<longleftrightarrow> (\<forall>h. finite (dom h) \<longrightarrow> (\<exists>a. malloc h = Some a \<and> h a = None))"

text \<open>An allocator of this kind: the first address above all that are in use.\<close>

definition bump_malloc :: "cells \<Rightarrow> nat option" where
  "bump_malloc h = Some (if dom h = {} then 0 else Suc (Max (dom h)))"

lemma bump_malloc_ok: "malloc_ok bump_malloc"
proof -
  have "h (Suc (Max (dom h))) = None" if "finite (dom h)" for h :: cells
  proof (rule ccontr)
    assume "\<not> ?thesis"
    then have "Suc (Max (dom h)) \<le> Max (dom h)" using that by (intro Max_ge) auto
    then show False by simp
  qed
  then show ?thesis by (auto simp: malloc_ok_def bump_malloc_def)
qed

definition deref :: "cells \<Rightarrow> nat \<Rightarrow> int option" where
  "deref h a = h a"

definition store :: "cells \<Rightarrow> nat \<Rightarrow> int \<Rightarrow> cells option" where
  "store h a v = (if a \<in> dom h then Some (h(a \<mapsto> v)) else None)"

definition free_cell :: "cells \<Rightarrow> nat \<Rightarrow> cells option" where
  "free_cell h a = (if a \<in> dom h then Some (h(a := None)) else None)"

subsection \<open>The result of a thread\<close>

definition return_value_thread :: "(cells \<Rightarrow> nat option) \<Rightarrow> int \<Rightarrow> cells \<Rightarrow> (nat \<times> cells) option" where
  "return_value_thread malloc old h =
     do { a \<leftarrow> malloc h; h1 \<leftarrow> store (h(a \<mapsto> old)) a 42; Some (a, h1) }"

text \<open>\<open>main\<close> creates the thread, joins it, prints what the result points to and frees it.\<close>

definition joining_main :: "(cells \<Rightarrow> nat option) \<Rightarrow> int \<Rightarrow> cells \<Rightarrow> (int \<times> cells) option" where
  "joining_main malloc old h =
     do { (result, h1) \<leftarrow> return_value_thread malloc old h; v \<leftarrow> deref h1 result; h2 \<leftarrow> free_cell h1 result; Some (v, h2) }"

lemma joining_main_result:
  assumes "malloc h = Some a" and "h a = None"
  shows "joining_main malloc old h = Some (42, h)"
proof -
  have "h(a := None) = h" using assms(2) by (simp add: fun_upd_idem)
  then show ?thesis using assms by (simp add: joining_main_def return_value_thread_def store_def deref_def free_cell_def)
qed

subsection \<open>Thread-local storage\<close>

definition TLS_THREADS :: nat where "TLS_THREADS = 3"

definition thread_args :: "int list" where "thread_args = [1, 2, 3]"

datatype tls_pos = TL_Start | TL_Allocated nat | TL_Stored nat | TL_Set | TL_Got nat | TL_Returned | TL_Ended

text \<open>\<open>thread_key\<close> has a value of its own for every thread.\<close>

record tls_state =
  tl_heap :: cells
  tl_key :: "nat \<Rightarrow> nat option"
  tl_pos :: "nat \<Rightarrow> tls_pos"
  tl_printed :: "nat \<Rightarrow> int option"

text \<open>When a thread has returned the destructor of the key frees its value.\<close>

definition cleanup_thread_data :: "nat \<Rightarrow> cells \<Rightarrow> cells option" where
  "cleanup_thread_data data h = free_cell h data"

definition tls_thread :: "(cells \<Rightarrow> nat option) \<Rightarrow> int \<Rightarrow> nat \<Rightarrow> tls_state \<Rightarrow> tls_state option" where
  "tls_thread malloc old i s =
     (case tl_pos s i of
        TL_Start \<Rightarrow> do { a \<leftarrow> malloc (tl_heap s);
          Some (s\<lparr>tl_heap := (tl_heap s)(a \<mapsto> old), tl_pos := (tl_pos s)(i := TL_Allocated a)\<rparr>) }
      | TL_Allocated a \<Rightarrow> do { arg \<leftarrow> rd thread_args i; h \<leftarrow> store (tl_heap s) a arg;
          Some (s\<lparr>tl_heap := h, tl_pos := (tl_pos s)(i := TL_Stored a)\<rparr>) }
      | TL_Stored a \<Rightarrow> Some (s\<lparr>tl_key := (tl_key s)(i \<mapsto> a), tl_pos := (tl_pos s)(i := TL_Set)\<rparr>)
      | TL_Set \<Rightarrow> do { a \<leftarrow> tl_key s i; Some (s\<lparr>tl_pos := (tl_pos s)(i := TL_Got a)\<rparr>) }
      | TL_Got a \<Rightarrow> do { v \<leftarrow> deref (tl_heap s) a;
          Some (s\<lparr>tl_printed := (tl_printed s)(i \<mapsto> v), tl_pos := (tl_pos s)(i := TL_Returned)\<rparr>) }
      | TL_Returned \<Rightarrow>
          (case tl_key s i of
             None \<Rightarrow> Some (s\<lparr>tl_pos := (tl_pos s)(i := TL_Ended)\<rparr>)
           | Some a \<Rightarrow> do { h \<leftarrow> cleanup_thread_data a (tl_heap s);
               Some (s\<lparr>tl_heap := h, tl_key := (tl_key s)(i := None), tl_pos := (tl_pos s)(i := TL_Ended)\<rparr>) })
      | TL_Ended \<Rightarrow> None)"

definition tls_threads :: "(cells \<Rightarrow> nat option) \<Rightarrow> int \<Rightarrow> (tls_state \<Rightarrow> tls_state option) list" where
  "tls_threads malloc old = map (tls_thread malloc old) [0..<TLS_THREADS]"

definition tls_main :: tls_state where
  "tls_main = \<lparr>tl_heap = (\<lambda>_. None), tl_key = (\<lambda>_. None), tl_pos = (\<lambda>_. TL_Start), tl_printed = (\<lambda>_. None)\<rparr>"

text \<open>The cell a thread owns, and what it holds; no two threads own the same cell, and no cell is without an owner.\<close>

definition owned :: "tls_state \<Rightarrow> nat \<Rightarrow> nat option" where
  "owned s i = (case tl_pos s i of TL_Allocated a \<Rightarrow> Some a | TL_Stored a \<Rightarrow> Some a | _ \<Rightarrow> tl_key s i)"

definition tls_thread_ok :: "tls_state \<Rightarrow> nat \<Rightarrow> bool" where
  "tls_thread_ok s i \<longleftrightarrow>
     (case tl_pos s i of
        TL_Start \<Rightarrow> tl_key s i = None
      | TL_Allocated a \<Rightarrow> tl_key s i = None
      | TL_Stored a \<Rightarrow> tl_key s i = None \<and> tl_heap s a = Some (thread_args ! i)
      | TL_Set \<Rightarrow> \<exists>a. tl_key s i = Some a \<and> tl_heap s a = Some (thread_args ! i)
      | TL_Got a \<Rightarrow> tl_key s i = Some a \<and> tl_heap s a = Some (thread_args ! i)
      | TL_Returned \<Rightarrow> (\<exists>a. tl_key s i = Some a) \<and> tl_printed s i = Some (thread_args ! i)
      | TL_Ended \<Rightarrow> tl_key s i = None \<and> tl_printed s i = Some (thread_args ! i))"

definition tls_inv :: "tls_state \<Rightarrow> bool" where
  "tls_inv s \<longleftrightarrow>
     (\<forall>i < TLS_THREADS. tls_thread_ok s i) \<and>
     (\<forall>i < TLS_THREADS. \<forall>j < TLS_THREADS. \<forall>a. owned s i = Some a \<and> owned s j = Some a \<longrightarrow> i = j) \<and>
     (\<forall>a. a \<in> dom (tl_heap s) \<longleftrightarrow> (\<exists>i < TLS_THREADS. owned s i = Some a))"

lemma tls_heap_finite:
  assumes "tls_inv s"
  shows "finite (dom (tl_heap s))"
proof -
  have "dom (tl_heap s) \<subseteq> (\<lambda>i. the (owned s i)) ` {..<TLS_THREADS}"
  proof
    fix a assume "a \<in> dom (tl_heap s)"
    then obtain i where "i < TLS_THREADS" "owned s i = Some a" using assms unfolding tls_inv_def by blast
    then show "a \<in> (\<lambda>i. the (owned s i)) ` {..<TLS_THREADS}" by (intro image_eqI [of _ _ i]) simp_all
  qed
  then show ?thesis by (rule finite_subset) simp
qed

text \<open>A step of thread \<open>i\<close> that leaves the cells of the others alone keeps the invariant.\<close>

lemma tls_inv_update:
  assumes inv: "tls_inv s" and i: "i < TLS_THREADS"
    and others: "\<And>j. j < TLS_THREADS \<Longrightarrow> j \<noteq> i \<Longrightarrow> tl_pos s' j = tl_pos s j \<and> tl_key s' j = tl_key s j \<and> tl_printed s' j = tl_printed s j"
    and ok: "tls_thread_ok s' i"
    and heap: "\<And>a. owned s i \<noteq> Some a \<Longrightarrow> owned s' i \<noteq> Some a \<Longrightarrow> tl_heap s' a = tl_heap s a"
    and new: "\<And>a. owned s' i = Some a \<Longrightarrow> a \<in> dom (tl_heap s') \<and> (owned s i = Some a \<or> a \<notin> dom (tl_heap s))"
    and old: "\<And>a. owned s i = Some a \<Longrightarrow> owned s' i \<noteq> Some a \<Longrightarrow> a \<notin> dom (tl_heap s')"
  shows "tls_inv s'"
proof -
  have own: "owned s' j = owned s j" if "j < TLS_THREADS" "j \<noteq> i" for j using others [OF that] by (simp add: owned_def split: tls_pos.split)
  have D: "\<And>j k a. j < TLS_THREADS \<Longrightarrow> k < TLS_THREADS \<Longrightarrow> owned s j = Some a \<Longrightarrow> owned s k = Some a \<Longrightarrow> j = k"
    "\<And>a. a \<in> dom (tl_heap s) \<longleftrightarrow> (\<exists>j < TLS_THREADS. owned s j = Some a)" "\<And>j. j < TLS_THREADS \<Longrightarrow> tls_thread_ok s j"
    using inv unfolding tls_inv_def by blast+
  have sep: "owned s' i \<noteq> Some a \<and> owned s i \<noteq> Some a" if "j < TLS_THREADS" "j \<noteq> i" "owned s j = Some a" for j a
    using D(1) [OF that(1) i that(3)] D(2) [of a] that new [of a] by blast
  have cell: "tl_heap s' a = tl_heap s a" if "j < TLS_THREADS" "j \<noteq> i" "owned s j = Some a" for j a
    using heap sep [OF that] by blast
  have "tls_thread_ok s' j" if j: "j < TLS_THREADS" for j
  proof (cases "j = i")
    case False
    with D(3) [OF j] others [OF j] cell [OF j] show ?thesis
      by (auto simp: tls_thread_ok_def owned_def split: tls_pos.splits)
  qed (use ok in simp)
  moreover have "j = k" if "j < TLS_THREADS" "k < TLS_THREADS" "owned s' j = Some a" "owned s' k = Some a" for j k a
    using that own sep D(1) by metis
  moreover have "a \<in> dom (tl_heap s') \<longleftrightarrow> (\<exists>j < TLS_THREADS. owned s' j = Some a)" for a
  proof (cases "\<exists>j < TLS_THREADS. j \<noteq> i \<and> owned s j = Some a")
    case True
    then obtain j where j: "j < TLS_THREADS" "j \<noteq> i" "owned s j = Some a" by blast
    then have "a \<in> dom (tl_heap s')" using cell [OF j] D(2) [of a] by (metis domIff)
    with j own show ?thesis by metis
  next
    case False
    then have "a \<in> dom (tl_heap s) \<longleftrightarrow> owned s i = Some a" using D(2) i by metis
    then have "a \<in> dom (tl_heap s') \<longleftrightarrow> owned s' i = Some a" using heap [of a] new [of a] old [of a] by (metis domIff)
    then show ?thesis using False own i by metis
  qed
  ultimately show ?thesis unfolding tls_inv_def by blast
qed

lemma store_Some: "store h a v = Some h' \<longleftrightarrow> a \<in> dom h \<and> h' = h(a \<mapsto> v)"
  by (auto simp: store_def)

lemma free_cell_Some: "free_cell h a = Some h' \<longleftrightarrow> a \<in> dom h \<and> h' = h(a := None)"
  by (auto simp: free_cell_def)

lemmas tls_step_simps = tls_thread_def store_Some free_cell_Some cleanup_thread_data_def deref_def bind_eq_Some_conv rd_eq_Some

lemma tls_thread_inv:
  assumes inv: "tls_inv s" and i: "i < TLS_THREADS" and ok: "malloc_ok malloc" and step: "tls_thread malloc old i s = Some s'"
  shows "tls_inv s'"
proof -
  have me: "tls_thread_ok s i" using inv i by (simp add: tls_inv_def)
  have mine: "a \<in> dom (tl_heap s)" if "owned s i = Some a" for a using inv i that unfolding tls_inv_def by blast
  show ?thesis
  proof (cases "tl_pos s i")
    case TL_Start
    with step obtain a where a: "malloc (tl_heap s) = Some a"
      and s': "s' = s\<lparr>tl_heap := (tl_heap s)(a \<mapsto> old), tl_pos := (tl_pos s)(i := TL_Allocated a)\<rparr>"
      by (auto simp: tls_step_simps)
    have "tl_heap s a = None" using ok a tls_heap_finite [OF inv] unfolding malloc_ok_def by fastforce
    then show ?thesis by (intro tls_inv_update [OF inv i]) (use me TL_Start in \<open>auto simp: s' tls_thread_ok_def owned_def split: if_splits\<close>)
  next
    case (TL_Allocated a)
    then show ?thesis using step mine
      by (intro tls_inv_update [OF inv i]) (use me in \<open>auto simp: tls_step_simps tls_thread_ok_def owned_def split: if_splits\<close>)
  next
    case (TL_Stored a)
    then show ?thesis using step mine
      by (intro tls_inv_update [OF inv i]) (use me in \<open>auto simp: tls_step_simps tls_thread_ok_def owned_def split: if_splits\<close>)
  next
    case TL_Set
    then show ?thesis using step mine
      by (intro tls_inv_update [OF inv i]) (use me in \<open>auto simp: tls_step_simps tls_thread_ok_def owned_def split: if_splits\<close>)
  next
    case (TL_Got a)
    then show ?thesis using step mine
      by (intro tls_inv_update [OF inv i]) (use me in \<open>auto simp: tls_step_simps tls_thread_ok_def owned_def split: if_splits\<close>)
  next
    case TL_Returned
    then show ?thesis using step mine
      by (intro tls_inv_update [OF inv i]) (use me in \<open>auto simp: tls_step_simps tls_thread_ok_def owned_def split: if_splits\<close>)
  qed (use step in \<open>simp add: tls_thread_def\<close>)
qed

definition tls_weight :: "tls_pos \<Rightarrow> nat" where
  "tls_weight p = (case p of TL_Start \<Rightarrow> 6 | TL_Allocated _ \<Rightarrow> 5 | TL_Stored _ \<Rightarrow> 4 | TL_Set \<Rightarrow> 3 | TL_Got _ \<Rightarrow> 2 | TL_Returned \<Rightarrow> 1
    | TL_Ended \<Rightarrow> 0)"

definition tls_rank :: "tls_state \<Rightarrow> nat" where
  "tls_rank s = (\<Sum>i < TLS_THREADS. tls_weight (tl_pos s i))"

lemma tls_thread_rank:
  assumes i: "i < TLS_THREADS" and step: "tls_thread malloc old i s = Some s'"
  shows "tls_rank s' < tls_rank s"
proof -
  have "tls_weight (tl_pos s' i) < tls_weight (tl_pos s i) \<and> (\<forall>j. j \<noteq> i \<longrightarrow> tl_pos s' j = tl_pos s j)"
    using step by (cases "tl_pos s i") (auto simp: tls_step_simps tls_weight_def split: option.splits)
  then show ?thesis unfolding tls_rank_def using i by (intro sum_strict_mono_ex1) (auto simp: le_less)
qed

text \<open>The threads under an allocator that never fails.\<close>

definition tls_over :: "tls_state \<Rightarrow> bool" where
  "tls_over s \<longleftrightarrow> (\<forall>i < TLS_THREADS. tl_pos s i = TL_Ended \<and> tl_printed s i = Some (thread_args ! i)) \<and> tl_heap s = (\<lambda>_. None)"

lemma tls_thread_moves:
  assumes inv: "tls_inv s" and i: "i < TLS_THREADS" and ok: "malloc_ok malloc" and rest: "tls_thread malloc old i s = None"
  shows "tl_pos s i = TL_Ended"
proof -
  have me: "tls_thread_ok s i" using inv i by (simp add: tls_inv_def)
  have mine: "a \<in> dom (tl_heap s)" if "owned s i = Some a" for a using inv i that unfolding tls_inv_def by blast
  have arg: "rd thread_args i = Some (thread_args ! i)" using i by (simp add: TLS_THREADS_def thread_args_def)
  obtain a where a: "malloc (tl_heap s) = Some a" using ok tls_heap_finite [OF inv] unfolding malloc_ok_def by blast
  show ?thesis
  proof (cases "tl_pos s i")
    case TL_Start
    with rest a show ?thesis by (simp add: tls_thread_def)
  next
    case (TL_Allocated b)
    with mine [of b] rest arg show ?thesis by (auto simp: tls_thread_def owned_def store_def)
  next
    case (TL_Got b)
    with me rest show ?thesis by (simp add: tls_thread_def tls_thread_ok_def deref_def)
  next
    case TL_Set
    with me rest show ?thesis by (auto simp: tls_thread_def tls_thread_ok_def)
  next
    case TL_Returned
    with me obtain b where b: "tl_key s i = Some b" by (auto simp: tls_thread_ok_def)
    with TL_Returned mine [of b] rest show ?thesis
      by (auto simp: tls_thread_def owned_def free_cell_def cleanup_thread_data_def)
  qed (use rest in \<open>simp_all add: tls_thread_def\<close>)
qed

lemma tls_rest_over:
  assumes inv: "tls_inv s" and ok: "malloc_ok malloc" and rest: "\<forall>f \<in> set (tls_threads malloc old). f s = None"
  shows "tls_over s"
proof -
  have all: "tl_pos s i = TL_Ended" if "i < TLS_THREADS" for i
    using tls_thread_moves [OF inv that ok, of old] rest that by (simp add: tls_threads_def)
  then have own: "owned s i = None \<and> tl_printed s i = Some (thread_args ! i)" if "i < TLS_THREADS" for i
    using inv that by (auto simp: tls_inv_def tls_thread_ok_def owned_def)
  then have "dom (tl_heap s) = {}" using inv unfolding tls_inv_def by (metis all_not_in_conv option.distinct(1))
  with all own show ?thesis by (auto simp: tls_over_def)
qed

lemma tls_main_inv: "tls_inv tls_main"
  by (simp add: tls_inv_def tls_main_def tls_thread_ok_def owned_def)

definition tls_inv_with :: "(cells \<Rightarrow> nat option) \<Rightarrow> tls_state \<Rightarrow> bool" where
  "tls_inv_with malloc s \<longleftrightarrow> malloc_ok malloc \<and> tls_inv s"

interpretation tls: ranked_threads "tls_inv_with malloc" "tls_threads malloc old" "[]" tls_rank for malloc old
  by unfold_locales (auto simp: tls_inv_with_def tls_threads_def intro: tls_thread_inv tls_thread_rank)

text \<open>Every thread finds its own value under the common key, in whatever order the threads run, and its cell is freed
  by the destructor: at the end, after at most eighteen steps, no memory is in use.\<close>
theorem thread_local_values:
  assumes "malloc_ok malloc"
  shows "ends_within 18 (tls_threads malloc old) tls_over tls_main"
proof -
  have "tls_inv_with malloc tls_main" using assms tls_main_inv by (simp add: tls_inv_with_def)
  moreover have "tls_over s" if "tls_inv_with malloc s" "\<forall>f \<in> set (tls_threads malloc old). f s = None" for s
    using that tls_rest_over by (auto simp: tls_inv_with_def)
  ultimately have "ends_within (tls_rank tls_main) (tls_threads malloc old) tls_over tls_main"
    by (intro tls.threads_end_with)
  then show ?thesis by (simp add: tls_rank_def tls_main_def tls_weight_def TLS_THREADS_def)
qed

theorem thread_local_values_witness:
  "ends_within 18 (tls_threads bump_malloc 77) tls_over tls_main"
  by (rule thread_local_values [OF bump_malloc_ok])

subsection \<open>Cancellation\<close>

datatype cancellable_pos = TC_Print | TC_Sleep | TC_Test | TC_Cancelled
datatype canceller_pos = MC_Sleep | MC_Cancel | MC_Join | MC_Return

record cancel_state =
  tc_i :: int
  tc_thread :: cancellable_pos
  tc_pending :: bool
  tc_main :: canceller_pos

text \<open>\<open>sleep\<close> and \<open>pthread_testcancel\<close> are cancellation points.\<close>

definition cancellable_thread :: "cancel_state \<Rightarrow> cancel_state option" where
  "cancellable_thread s =
     (case tc_thread s of
        TC_Print \<Rightarrow> do { i \<leftarrow> chk (tc_i s + 1); Some (s\<lparr>tc_i := i, tc_thread := TC_Sleep\<rparr>) }
      | TC_Sleep \<Rightarrow> Some (s\<lparr>tc_thread := (if tc_pending s then TC_Cancelled else TC_Test)\<rparr>)
      | TC_Test \<Rightarrow> Some (s\<lparr>tc_thread := (if tc_pending s then TC_Cancelled else TC_Print)\<rparr>)
      | TC_Cancelled \<Rightarrow> None)"

definition cancelling_main :: "cancel_state \<Rightarrow> cancel_state option" where
  "cancelling_main s =
     (case tc_main s of
        MC_Sleep \<Rightarrow> Some (s\<lparr>tc_main := MC_Cancel\<rparr>)
      | MC_Cancel \<Rightarrow> Some (s\<lparr>tc_pending := True, tc_main := MC_Join\<rparr>)
      | MC_Join \<Rightarrow> if tc_thread s = TC_Cancelled then Some (s\<lparr>tc_main := MC_Return\<rparr>) else None
      | MC_Return \<Rightarrow> None)"

definition cancel_start :: cancel_state where
  "cancel_start = \<lparr>tc_i = 0, tc_thread = TC_Print, tc_pending = False, tc_main = MC_Sleep\<rparr>"

text \<open>Before the request the thread goes round and round; afterwards it reaches a cancellation point.\<close>

definition cancel_requested :: "cancel_state \<Rightarrow> bool" where
  "cancel_requested s \<longleftrightarrow> tc_pending s \<and> tc_main s \<in> {MC_Join, MC_Return} \<and>
     (tc_main s = MC_Return \<longrightarrow> tc_thread s = TC_Cancelled) \<and> (tc_thread s = TC_Print \<longrightarrow> int_ok (tc_i s + 1))"

definition cancel_rank :: "cancel_state \<Rightarrow> nat" where
  "cancel_rank s = (case tc_thread s of TC_Print \<Rightarrow> 2 | TC_Sleep \<Rightarrow> 1 | TC_Test \<Rightarrow> 1 | TC_Cancelled \<Rightarrow> 0) +
     (if tc_main s = MC_Join then 1 else 0)"

lemma cancellable_step:
  assumes "cancel_requested s" and "cancellable_thread s = Some s'"
  shows "cancel_requested s' \<and> cancel_rank s' < cancel_rank s"
  using assms by (cases "tc_thread s") (auto simp: cancel_requested_def cancellable_thread_def cancel_rank_def)

lemma cancelling_step:
  assumes "cancel_requested s" and "cancelling_main s = Some s'"
  shows "cancel_requested s' \<and> cancel_rank s' < cancel_rank s"
  using assms by (cases "tc_main s") (auto simp: cancel_requested_def cancelling_main_def cancel_rank_def split: if_splits)

interpretation cancel: ranked_threads cancel_requested "[cancellable_thread, cancelling_main]" "[]" cancel_rank
  by unfold_locales (auto dest: cancellable_step cancelling_step)

definition cancel_over :: "cancel_state \<Rightarrow> bool" where
  "cancel_over s \<longleftrightarrow> tc_thread s = TC_Cancelled \<and> tc_main s = MC_Return"

lemma cancel_rest_over:
  assumes inv: "cancel_requested s" and rest: "\<forall>f \<in> set [cancellable_thread, cancelling_main]. f s = None"
  shows "cancel_over s"
  using assms by (cases "tc_thread s"; cases "tc_main s")
    (auto simp: cancel_requested_def cancel_over_def cancellable_thread_def cancelling_main_def)

definition cancel_inv :: "cancel_state \<Rightarrow> bool" where
  "cancel_inv s \<longleftrightarrow> 0 \<le> tc_i s \<and> (tc_pending s \<longleftrightarrow> tc_main s \<in> {MC_Join, MC_Return}) \<and>
     (tc_thread s = TC_Cancelled \<longrightarrow> tc_pending s) \<and> (tc_main s = MC_Return \<longrightarrow> tc_thread s = TC_Cancelled)"

lemma cancel_inv_reached: "(interleave [cancellable_thread, cancelling_main])\<^sup>*\<^sup>* cancel_start s \<Longrightarrow> cancel_inv s"
proof (induction rule: rtranclp_induct)
  case base
  show ?case by (simp add: cancel_inv_def cancel_start_def)
next
  case (step s t)
  then consider "cancellable_thread s = Some t" | "cancelling_main s = Some t" by auto
  then show ?case
  proof cases
    case 1
    with step.IH show ?thesis
      by (cases "tc_thread s") (auto simp: cancel_inv_def cancellable_thread_def bind_eq_Some_conv chk_eq_Some)
  next
    case 2
    with step.IH show ?thesis by (cases "tc_main s") (auto simp: cancel_inv_def cancelling_main_def split: if_splits)
  qed
qed

text \<open>The thread is not cancelled before it is asked to be; once it is asked, and as long as its counter has not run over, both end within
  three steps, the thread cancelled and joined.\<close>
theorem cancellation_ends:
  assumes "(interleave [cancellable_thread, cancelling_main])\<^sup>*\<^sup>* cancel_start s"
  shows "(\<not> tc_pending s \<longrightarrow> tc_thread s \<noteq> TC_Cancelled) \<and>
    (tc_pending s \<and> tc_i s < INT_MAX \<longrightarrow> ends_within (cancel_rank s) [cancellable_thread, cancelling_main] cancel_over s \<and> cancel_rank s \<le> 3)"
proof -
  have inv: "cancel_inv s" by (rule cancel_inv_reached [OF assms])
  have "cancel_requested s" if "tc_pending s" "tc_i s < INT_MAX"
    using inv that by (simp add: cancel_inv_def cancel_requested_def int_ok_def INT_MIN_def)
  moreover have "cancel_rank s \<le> 3" by (cases "tc_thread s") (simp_all add: cancel_rank_def)
  ultimately show ?thesis using inv cancel.threads_end_with [where Q = cancel_over, OF cancel_rest_over] unfolding cancel_inv_def by blast
qed

theorem cancellation_ends_witness:
  "\<exists>s. (interleave [cancellable_thread, cancelling_main])\<^sup>*\<^sup>* cancel_start s \<and> tc_pending s \<and>
     ends_within (cancel_rank s) [cancellable_thread, cancelling_main] cancel_over s"
proof -
  let ?s = "\<lparr>tc_i = 2, tc_thread = TC_Sleep, tc_pending = True, tc_main = MC_Join\<rparr>"
  have "run_schedule [cancellable_thread, cancelling_main] [0, 0, 0, 0, 1, 1] cancel_start = Some ?s" by code_simp
  then have "(interleave [cancellable_thread, cancelling_main])\<^sup>*\<^sup>* cancel_start ?s" by (rule run_schedule_reaches)
  with cancellation_ends [OF this] show ?thesis by (intro exI [of _ ?s]) (simp add: INT_MAX_def)
qed

subsection \<open>Switching contexts (d6 simplified.c)\<close>

text \<open>
  Where the program is: before the statement \<open>n\<close> of \<open>main\<close>, at the start of the function of a process, or ended. A context
  holds such a place. \<open>swapcontext\<close> stores the place of the caller in the first context and goes on at the second;
  a function whose context has no \<open>uc_link\<close> ends the program when it returns.
\<close>

datatype control = Main_At nat | In_Func nat | Program_Ended

record switch_state =
  sw_control :: control
  sw_context :: "nat \<Rightarrow> control option"
  sw_output :: "nat list"

definition context_switch :: "nat \<Rightarrow> nat \<Rightarrow> control \<Rightarrow> switch_state \<Rightarrow> switch_state option" where
  "context_switch curr_process next_process after s =
     do { c \<leftarrow> sw_context s next_process;
          Some (s\<lparr>sw_context := (sw_context s)(curr_process \<mapsto> after), sw_control := c\<rparr>) }"

text \<open>The functions of the two processes print their number.\<close>

definition process_func :: "nat \<Rightarrow> switch_state \<Rightarrow> switch_state" where
  "process_func k s = s\<lparr>sw_output := sw_output s @ [k], sw_control := Program_Ended\<rparr>"

definition switch_main :: "switch_state \<Rightarrow> switch_state option" where
  "switch_main s =
     (case sw_control s of
        Main_At n \<Rightarrow>
          if n = 0 then Some (s\<lparr>sw_context := (sw_context s)(1 \<mapsto> In_Func 1), sw_control := Main_At 1\<rparr>)
          else if n = 1 then Some (s\<lparr>sw_context := (sw_context s)(2 \<mapsto> In_Func 2), sw_control := Main_At 2\<rparr>)
          else if n = 2 then context_switch 1 2 (Main_At 3) s
          else if n = 3 then context_switch 2 1 (Main_At 4) s
          else Some (s\<lparr>sw_control := Program_Ended\<rparr>)
      | In_Func k \<Rightarrow> Some (process_func k s)
      | Program_Ended \<Rightarrow> None)"

definition switch_start :: switch_state where
  "switch_start = \<lparr>sw_control = Main_At 0, sw_context = (\<lambda>_. None), sw_output = []\<rparr>"

text \<open>
  The first switch saves \<open>main\<close> where the context of process 1 was, and process 2 ends the program: process 1 never
  runs, and the second switch is never reached.
\<close>

lemma only_process_2_runs:
  shows "map_option (\<lambda>s. (sw_control s, sw_output s, sw_context s 1)) (run_schedule [switch_main] [0, 0, 0, 0] switch_start) =
      Some (Program_Ended, [2], Some (Main_At 3))"
    and "\<lbrakk>run_schedule [switch_main] [0, 0, 0, 0] switch_start = Some s\<rbrakk> \<Longrightarrow> switch_main s = None"
  by (auto simp: switch_start_def switch_main_def context_switch_def process_func_def)

end
