(* ===== verification/Process_Status.thy ===== *)
theory Process_Status
  imports OS_Prelude
begin

section \<open>Reading the state of processes: d3 process\_debugger.c\<close>

text \<open>
  The program reads \<open>/proc/<pid>/status\<close> line by line and scans \<open>/proc\<close> for directories with a numeric name. The
  file system is a parameter: the contents of a status file (\<open>None\<close> when it cannot be opened) and the list of
  directory entries. \<open>fgets\<close>, \<open>strncmp\<close>, \<open>sscanf\<close> and \<open>strtol\<close> are modelled as far as the program uses them; a
  decimal number that does not fit the type scanned has no defined value. Status files hold no null characters.
\<close>

subsection \<open>The C library\<close>

definition NEWLINE :: char where "NEWLINE = CHR 0x0A"
definition TAB :: char where "TAB = CHR 0x09"

definition isspace :: "char \<Rightarrow> bool" where
  "isspace c \<longleftrightarrow> c = CHR '' '' \<or> (9 \<le> (of_char c :: nat) \<and> (of_char c :: nat) \<le> 13)"

definition isdigit :: "char \<Rightarrow> bool" where
  "isdigit c \<longleftrightarrow> 48 \<le> (of_char c :: nat) \<and> (of_char c :: nat) \<le> 57"

definition decimal :: "string \<Rightarrow> nat" where
  "decimal ds = foldl (\<lambda>v c. 10 * v + (of_char c - 48)) 0 ds"

text \<open>The line, newline included, that a buffer of \<open>n + 1\<close> characters receives, and the rest of the file.\<close>

fun fgets :: "nat \<Rightarrow> string \<Rightarrow> string \<times> string" where
  "fgets 0 s = ([], s)"
| "fgets (Suc n) [] = ([], [])"
| "fgets (Suc n) (c # s) = (if c = NEWLINE then ([c], s) else let (l, r) = fgets n s in (c # l, r))"

definition sscanf_s :: "string \<Rightarrow> string option" where
  "sscanf_s s = (let w = takeWhile (\<lambda>c. \<not> isspace c) (dropWhile isspace s) in if w = [] then None else Some w)"

text \<open>\<open>Some None\<close>: no number, so no assignment. A minus sign is allowed, the value then wraps around.\<close>

definition sscanf_lu :: "string \<Rightarrow> 64 word option option" where
  "sscanf_lu s =
     (let s = dropWhile isspace s;
          neg = (s \<noteq> [] \<and> hd s = CHR ''-'');
          s = (if s \<noteq> [] \<and> hd s \<in> {CHR ''-'', CHR ''+''} then tl s else s);
          ds = takeWhile isdigit s in
      if ds = [] then Some None
      else if decimal ds < 2 ^ 64 then Some (Some (if neg then - word_of_nat (decimal ds) else word_of_nat (decimal ds)))
      else None)"

text \<open>\<open>strtol\<close> with base 10: the value and whether the whole string was used; the value saturates.\<close>

definition strtol :: "string \<Rightarrow> int \<times> bool" where
  "strtol s =
     (let t = dropWhile isspace s;
          neg = (t \<noteq> [] \<and> hd t = CHR ''-'');
          t = (if t \<noteq> [] \<and> hd t \<in> {CHR ''-'', CHR ''+''} then tl t else t);
          ds = takeWhile isdigit t in
      if ds = [] then (0, s = [])
      else (if neg then max (- (2 ^ 63)) (- int (decimal ds)) else min (2 ^ 63 - 1) (int (decimal ds)), length ds = length t))"

subsection \<open>The program\<close>

definition MAX_LINE :: nat where "MAX_LINE = 256"

record ProcessInfo =
  pi_pid :: int
  pi_state :: char
  pi_vm_size :: "64 word"
  pi_vm_rss :: "64 word"
  pi_threads :: "64 word"
  pi_name :: string

definition has_prefix :: "string \<Rightarrow> string \<Rightarrow> bool" where
  "has_prefix p line \<longleftrightarrow> take (length p) line = p"

text \<open>The character at an index of the line, the terminating null included; what lies behind is stale.\<close>

definition char_at :: "string \<Rightarrow> nat \<Rightarrow> char option" where
  "char_at line i = (if i < length line then Some (line ! i) else if i = length line then Some (CHR 0x00) else None)"

definition scan_field :: "string \<Rightarrow> string \<Rightarrow> (64 word \<Rightarrow> ProcessInfo \<Rightarrow> ProcessInfo) \<Rightarrow> ProcessInfo \<Rightarrow> ProcessInfo option" where
  "scan_field key line upd info =
     (case sscanf_lu (drop (length key) line) of
        None \<Rightarrow> None
      | Some None \<Rightarrow> Some info
      | Some (Some v) \<Rightarrow> Some (upd v info))"

definition read_line :: "string \<Rightarrow> ProcessInfo \<Rightarrow> ProcessInfo option" where
  "read_line line info =
     (if has_prefix ''State:'' line then do { c \<leftarrow> char_at line 7; Some (info\<lparr>pi_state := c\<rparr>) }
      else if has_prefix ''VmSize:'' line then scan_field ''VmSize:'' line (\<lambda>v i. i\<lparr>pi_vm_size := v\<rparr>) info
      else if has_prefix ''VmRSS:'' line then scan_field ''VmRSS:'' line (\<lambda>v i. i\<lparr>pi_vm_rss := v\<rparr>) info
      else if has_prefix ''Threads:'' line then scan_field ''Threads:'' line (\<lambda>v i. i\<lparr>pi_threads := v\<rparr>) info
      else if has_prefix ''Name:'' line then
        Some (case sscanf_s (drop 5 line) of None \<Rightarrow> info | Some w \<Rightarrow> info\<lparr>pi_name := w\<rparr>)
      else Some info)"

lemma fgets_shorter: "fgets n s = (l, r) \<Longrightarrow> length r + length l = length s"
  by (induction n s arbitrary: l r rule: fgets.induct) (auto split: if_splits prod.splits)

lemma fgets_progress: "fgets (Suc n) (c # s) = (l, r) \<Longrightarrow> length r < length (c # s)"
  using fgets_shorter [of "Suc n" "c # s" l r] by (auto split: if_splits prod.splits)

function read_lines :: "string \<Rightarrow> ProcessInfo \<Rightarrow> ProcessInfo option" where
  "read_lines contents info =
     (if contents = [] then Some info
      else Option.bind (read_line (fst (fgets (MAX_LINE - 1) contents)) info) (read_lines (snd (fgets (MAX_LINE - 1) contents))))"
  by pat_completeness auto
termination
proof (relation "measure (length \<circ> fst)")
  fix contents :: string and x info :: ProcessInfo
  assume "contents \<noteq> []"
  then obtain c s where "contents = c # s" by (cases contents) auto
  moreover have "MAX_LINE - 1 = Suc 254" by (simp add: MAX_LINE_def)
  ultimately have "length (snd (fgets (MAX_LINE - 1) contents)) < length contents"
    using fgets_progress [of 254 c s] by (metis prod.collapse)
  then show "((snd (fgets (MAX_LINE - 1) contents), x), (contents, info)) \<in> measure (length \<circ> fst)" by simp
qed simp

declare read_lines.simps [simp del]

definition read_process_info :: "(int \<Rightarrow> string option) \<Rightarrow> int \<Rightarrow> ProcessInfo \<Rightarrow> ProcessInfo option" where
  "read_process_info status pid info =
     (case status pid of None \<Rightarrow> Some info | Some contents \<Rightarrow> read_lines contents (info\<lparr>pi_pid := pid\<rparr>))"

definition state_text :: "char \<Rightarrow> string" where
  "state_text c =
     (if c = CHR ''R'' then ''Running'' else if c = CHR ''S'' then ''Sleeping'' else if c = CHR ''D'' then ''Disk Sleep''
      else if c = CHR ''Z'' then ''Zombie'' else if c = CHR ''T'' then ''Stopped'' else ''Unknown'')"

definition zero_info :: ProcessInfo where
  "zero_info = \<lparr>pi_pid = 0, pi_state = CHR 0x00, pi_vm_size = 0, pi_vm_rss = 0, pi_threads = 0, pi_name = []\<rparr>"

text \<open>\<open>pid_t\<close> is an \<open>int\<close>: the value of \<open>strtol\<close> is cut to 32 bits.\<close>

definition to_pid :: "int \<Rightarrow> int" where
  "to_pid v = sint (word_of_int v :: 32 word)"

definition scan_entry :: "(int \<Rightarrow> string option) \<Rightarrow> bool \<times> string \<Rightarrow> ProcessInfo list \<Rightarrow> ProcessInfo list option" where
  "scan_entry status entry out =
     (if fst entry \<and> snd (strtol (snd entry))
      then do { info \<leftarrow> read_process_info status (to_pid (fst (strtol (snd entry)))) zero_info; Some (out @ [info]) }
      else Some out)"

text \<open>What is printed, in order; \<open>None\<close> for the directory when it cannot be opened.\<close>

definition scan_processes :: "(int \<Rightarrow> string option) \<Rightarrow> (bool \<times> string) list option \<Rightarrow> ProcessInfo list option" where
  "scan_processes status proc_dir = (case proc_dir of None \<Rightarrow> Some [] | Some entries \<Rightarrow> foldM (scan_entry status) entries [])"

subsection \<open>Numbers\<close>

text \<open>The decimal digits of a number, as the kernel prints them.\<close>

fun digits :: "nat \<Rightarrow> string" where
  "digits n = (if n < 10 then [] else digits (n div 10)) @ [char_of (48 + n mod 10)]"

declare digits.simps [simp del]

text \<open>What \<open>%d\<close> prints.\<close>

definition print_int :: "int \<Rightarrow> string" where
  "print_int i = (if i < 0 then CHR ''-'' # digits (nat (- i)) else digits (nat i))"

lemma of_char_digit: "d < 10 \<Longrightarrow> of_char (char_of (48 + d :: nat)) = 48 + d"
  by simp

lemma isdigit_digit: "d < 10 \<Longrightarrow> isdigit (char_of (48 + d :: nat))"
  using of_char_digit [of d] by (simp add: isdigit_def)

lemma digits_digit: "\<forall>c \<in> set (digits n). isdigit c"
proof (induction n rule: digits.induct)
  case (1 n)
  have "isdigit (char_of (48 + n mod 10))" by (rule isdigit_digit) simp
  with 1 show ?case by (subst digits.simps) auto
qed

lemma digits_not_Nil: "digits n \<noteq> []"
  by (subst digits.simps) simp

lemma decimal_digits: "decimal (digits n) = n"
proof (induction n rule: digits.induct)
  case (1 n)
  have "of_char (char_of (48 + n mod 10)) - 48 = n mod 10" using of_char_digit [of "n mod 10"] by simp
  then show ?case
    using 1 by (subst digits.simps) (auto simp: decimal_def)
qed

lemma digit_not_space: "isdigit c \<Longrightarrow> \<not> isspace c"
  by (auto simp: isdigit_def isspace_def)

lemma digit_no_sign: "isdigit c \<Longrightarrow> c \<notin> {CHR ''-'', CHR ''+''}"
  by (auto simp: isdigit_def)

lemma digits_length: "n < 10 ^ Suc k \<Longrightarrow> length (digits n) \<le> Suc k"
proof (induction k arbitrary: n)
  case 0
  then show ?case by (subst digits.simps) simp
next
  case (Suc k)
  then have "n div 10 < 10 ^ Suc k" by (simp add: less_mult_imp_div_less)
  from Suc.IH [OF this] show ?case by (subst digits.simps) simp
qed

lemma takeWhile_digits: "s = [] \<or> \<not> isdigit (hd s) \<Longrightarrow> takeWhile isdigit (digits n @ s) = digits n"
  using digits_digit [of n] by (cases s) (simp_all add: takeWhile_append)

lemma sscanf_lu_digits:
  assumes "\<forall>c \<in> set ws. isspace c" and "s = [] \<or> \<not> isdigit (hd s)" and "n < 2 ^ 64"
  shows "sscanf_lu (ws @ digits n @ s) = Some (Some (word_of_nat n))"
proof -
  obtain d ds where d: "digits n = d # ds" using digits_not_Nil by (cases "digits n") auto
  then have "isdigit d" using digits_digit [of n] by simp
  then have "dropWhile isspace (ws @ digits n @ s) = digits n @ s"
    using assms(1) d digit_not_space by (simp add: dropWhile_append)
  moreover have "hd (digits n @ s) \<notin> {CHR ''-'', CHR ''+''}" using d digit_no_sign [OF \<open>isdigit d\<close>] by simp
  ultimately show ?thesis
    using takeWhile_digits [OF assms(2), of n] digits_not_Nil [of n] assms(3)
    by (simp add: sscanf_lu_def decimal_digits)
qed

text \<open>A directory of \<open>/proc\<close> whose name is the decimal form of a process id is taken for that process.\<close>

lemma strtol_digits:
  assumes "n < 2 ^ 31"
  shows "strtol (digits n) = (int n, True)" and "to_pid (int n) = int n"
proof -
  obtain d ds where d: "digits n = d # ds" using digits_not_Nil by (cases "digits n") auto
  then have "isdigit d" using digits_digit [of n] by simp
  then have "dropWhile isspace (digits n) = digits n" using d digit_not_space by simp
  moreover have "hd (digits n) \<notin> {CHR ''-'', CHR ''+''}" using d digit_no_sign [OF \<open>isdigit d\<close>] by simp
  moreover have "takeWhile isdigit (digits n) = digits n" using takeWhile_digits [of "[]" n] by simp
  moreover have "min (2 ^ 63 - 1) (int n) = int n" using assms by simp
  ultimately show "strtol (digits n) = (int n, True)"
    using digits_not_Nil [of n] by (simp add: strtol_def decimal_digits Let_def del: takeWhile_eq_all_conv)
  have "int n \<in> {- (2 ^ 31)..<2 ^ 31}" using assms by simp
  then show "to_pid (int n) = int n" unfolding to_pid_def sint_sbintrunc' by (simp add: signed_take_bit_int_eq_self)
qed

subsection \<open>Lines\<close>

definition line_file :: "string list \<Rightarrow> string" where
  "line_file ls = concat (map (\<lambda>l. l @ [NEWLINE]) ls)"

definition short_line :: "string \<Rightarrow> bool" where
  "short_line l \<longleftrightarrow> NEWLINE \<notin> set l \<and> length l < 255"

lemma fgets_line: "NEWLINE \<notin> set l \<Longrightarrow> length l < n \<Longrightarrow> fgets n (l @ NEWLINE # s) = (l @ [NEWLINE], s)"
proof (induction l arbitrary: n)
  case Nil
  then show ?case by (cases n) simp_all
next
  case (Cons c l)
  then show ?case by (cases n) auto
qed

lemma read_lines_line_file:
  assumes "\<forall>l \<in> set ls. short_line l"
  shows "read_lines (line_file ls) info = foldM (\<lambda>l. read_line (l @ [NEWLINE])) ls info"
  using assms
proof (induction ls arbitrary: info)
  case Nil
  show ?case by (subst read_lines.simps) (simp add: line_file_def)
next
  case (Cons l ls)
  then have "fgets (MAX_LINE - 1) (l @ NEWLINE # line_file ls) = (l @ [NEWLINE], line_file ls)"
    by (intro fgets_line) (simp_all add: short_line_def MAX_LINE_def)
  moreover have "line_file (l # ls) = l @ NEWLINE # line_file ls" by (simp add: line_file_def)
  moreover have "read_lines (line_file ls) = foldM (\<lambda>l. read_line (l @ [NEWLINE])) ls" using Cons by (intro ext) simp
  ultimately show ?case by (subst read_lines.simps) simp
qed

text \<open>Lines with other keys are passed over.\<close>

definition other_line :: "string \<Rightarrow> bool" where
  "other_line l \<longleftrightarrow> (\<forall>key \<in> {''State:'', ''VmSize:'', ''VmRSS:'', ''Threads:'', ''Name:''}. \<not> has_prefix key (l @ [NEWLINE]))"

lemma read_other_lines:
  "\<forall>l \<in> set ls. other_line l \<Longrightarrow> foldM (\<lambda>l. read_line (l @ [NEWLINE])) ls info = Some info"
  by (induction ls) (simp_all add: read_line_def other_line_def)

lemma isspace_simps [simp]: "isspace TAB" "isspace NEWLINE" "isspace (CHR '' '')"
  by (simp_all add: isspace_def TAB_def NEWLINE_def)

lemma read_name_line:
  assumes "name \<noteq> []" and "\<forall>c \<in> set name. \<not> isspace c"
  shows "read_line ((''Name:'' @ TAB # name) @ [NEWLINE]) info = Some (info\<lparr>pi_name := name\<rparr>)"
proof -
  have "dropWhile isspace (name @ [NEWLINE]) = name @ [NEWLINE]" using assms by (cases name) simp_all
  moreover have "takeWhile (\<lambda>c. \<not> isspace c) (name @ [NEWLINE]) = name" using assms(2) by (simp add: takeWhile_append)
  ultimately have "sscanf_s (TAB # name @ [NEWLINE]) = Some name" using assms(1) by (simp add: sscanf_s_def)
  then show ?thesis by (simp add: read_line_def has_prefix_def)
qed

lemma read_state_line: "read_line ((''State:'' @ TAB # c # s) @ [NEWLINE]) info = Some (info\<lparr>pi_state := c\<rparr>)"
  by (simp add: read_line_def has_prefix_def char_at_def)

text \<open>The kernel writes sizes right-aligned in eight columns, with the unit behind.\<close>

definition padded :: "nat \<Rightarrow> string" where
  "padded n = replicate (8 - length (digits n)) (CHR '' '') @ digits n"

lemma scan_field_padded:
  assumes "n < 2 ^ 64" and "s = [] \<or> \<not> isdigit (hd s)"
  shows "scan_field key (key @ TAB # padded n @ s) upd info = Some (upd (word_of_nat n) info)"
    and "scan_field key (key @ TAB # digits n @ s) upd info = Some (upd (word_of_nat n) info)"
  using sscanf_lu_digits [of "TAB # replicate (8 - length (digits n)) (CHR '' '')" s n]
    sscanf_lu_digits [of "[TAB]" s n] assms
  by (simp_all add: scan_field_def padded_def)

lemma read_number_lines:
  "n < 2 ^ 64 \<Longrightarrow> read_line ((''VmSize:'' @ TAB # padded n @ '' kB'') @ [NEWLINE]) info = Some (info\<lparr>pi_vm_size := word_of_nat n\<rparr>)"
  "n < 2 ^ 64 \<Longrightarrow> read_line ((''VmRSS:'' @ TAB # padded n @ '' kB'') @ [NEWLINE]) info = Some (info\<lparr>pi_vm_rss := word_of_nat n\<rparr>)"
  "n < 2 ^ 64 \<Longrightarrow> read_line ((''Threads:'' @ TAB # digits n) @ [NEWLINE]) info = Some (info\<lparr>pi_threads := word_of_nat n\<rparr>)"
  using scan_field_padded(1) [of n "'' kB'' @ [NEWLINE]" "''VmSize:''"] scan_field_padded(1) [of n "'' kB'' @ [NEWLINE]" "''VmRSS:''"]
    scan_field_padded(2) [of n "[NEWLINE]" "''Threads:''"]
  by (simp_all add: read_line_def has_prefix_def isdigit_def NEWLINE_def)

text \<open>A status file as the kernel writes it: the five lines in their order, any other lines between them.\<close>

definition status_lines :: "ProcessInfo \<Rightarrow> string \<Rightarrow> (nat \<Rightarrow> string list) \<Rightarrow> string list" where
  "status_lines i state_tail others =
     others 0 @ [''Name:'' @ TAB # pi_name i] @ others 1 @ [''State:'' @ TAB # pi_state i # state_tail] @ others 2 @
     [''VmSize:'' @ TAB # padded (unat (pi_vm_size i)) @ '' kB''] @ others 3 @
     [''VmRSS:'' @ TAB # padded (unat (pi_vm_rss i)) @ '' kB''] @ others 4 @
     [''Threads:'' @ TAB # digits (unat (pi_threads i))] @ others 5"

lemma digits_no_newline: "NEWLINE \<notin> set (digits n)"
  using digits_digit [of n] by (auto simp: isdigit_def NEWLINE_def)

lemma digits_word_length: "length (digits (unat (v :: 64 word))) \<le> 20"
proof -
  have "unat v < 2 ^ 64" by (rule unat_size_t_less)
  also have "\<dots> \<le> 10 ^ Suc 19" by simp
  finally show ?thesis using digits_length [of "unat v" 19] by simp
qed

lemma short_keyed:
  assumes "key \<in> {''State:'', ''Name:''}" and "NEWLINE \<notin> set s" and "length s < 249 - (length key - 5)"
  shows "short_line (key @ TAB # s)"
proof -
  have "NEWLINE \<notin> set key" "NEWLINE \<noteq> TAB" using assms(1) by (auto simp: NEWLINE_def TAB_def)
  with assms show ?thesis by (auto simp: short_line_def)
qed

lemma number_lines_short:
  "short_line (''VmSize:'' @ TAB # padded (unat (v :: 64 word)) @ '' kB'')" "short_line (''VmRSS:'' @ TAB # padded (unat v) @ '' kB'')"
  "short_line (''Threads:'' @ TAB # digits (unat v))"
  using digits_word_length [of v] digits_no_newline [of "unat v"]
  by (auto simp: short_line_def padded_def TAB_def NEWLINE_def)

text \<open>C33: Reading a status file gives back what it was written from. For a process whose name is not empty, has no
  white space and fits in a line, and for any further short lines with other keys, the information read from
  the file is exactly the one written, sizes of the full 64 bits included.\<close>
theorem status_roundtrip:
  assumes "pi_name i \<noteq> []" and "\<forall>c \<in> set (pi_name i). \<not> isspace c" and "length (pi_name i) < 249"
    and "NEWLINE \<notin> set state_tail" and "length state_tail < 247" and "pi_state i \<noteq> NEWLINE"
    and "\<forall>k \<le> 5. \<forall>l \<in> set (others k). short_line l \<and> other_line l"
    and "status (pi_pid i) = Some (line_file (status_lines i state_tail others))"
  shows "read_process_info status (pi_pid i) zero_info = Some i"
proof -
  let ?read = "foldM (\<lambda>l. read_line (l @ [NEWLINE]))"
  have other: "?read (others k @ ls) info = ?read ls info" if "k \<le> 5" for k ls info
    using assms(7) that by (simp add: foldM_append read_other_lines)
  have own: "?read ([l] @ ls) info = ?read ls info'" if "read_line (l @ [NEWLINE]) info = Some info'" for l ls info info'
    using that by simp
  have "NEWLINE \<notin> set (pi_name i)" using assms(2) isspace_simps(2) by blast
  then have name: "short_line (''Name:'' @ TAB # pi_name i)" using assms(3) by (intro short_keyed) simp_all
  have state: "short_line (''State:'' @ TAB # pi_state i # state_tail)"
    using assms(4-6) by (intro short_keyed) simp_all
  have "\<forall>l \<in> set (others k). short_line l" if "k \<le> 5" for k using assms(7) that by blast
  from this [of 0] this [of 1] this [of 2] this [of 3] this [of 4] this [of 5]
  have short: "\<forall>l \<in> set (others 0) \<union> set (others 1) \<union> set (others 2) \<union> set (others 3) \<union> set (others 4) \<union> set (others 5). short_line l"
    by auto
  have "\<forall>l \<in> set (status_lines i state_tail others). short_line l"
    using short name state number_lines_short by (auto simp: status_lines_def)
  then have "read_process_info status (pi_pid i) zero_info =
      foldM (\<lambda>l. read_line (l @ [NEWLINE])) (status_lines i state_tail others) (zero_info\<lparr>pi_pid := pi_pid i\<rparr>)"
    using assms(8) by (simp add: read_process_info_def read_lines_line_file)
  also have "\<dots> = ?read (others 5) (zero_info\<lparr>pi_pid := pi_pid i, pi_name := pi_name i, pi_state := pi_state i,
      pi_vm_size := pi_vm_size i, pi_vm_rss := pi_vm_rss i, pi_threads := pi_threads i\<rparr>)"
    by (simp add: status_lines_def other own [OF read_name_line [OF assms(1,2)]] own [OF read_state_line]
        own [OF read_number_lines(1) [OF unat_size_t_less]] own [OF read_number_lines(2) [OF unat_size_t_less]]
        own [OF read_number_lines(3) [OF unat_size_t_less]] del: foldM.simps append_Cons append.simps)
  also have "\<dots> = Some i" using other [of 5 "[]"] by (simp add: zero_info_def)
  finally show ?thesis .
qed

theorem status_roundtrip_witness:
  "read_process_info (\<lambda>p. if p = 42 then Some (line_file [''Name:'' @ TAB # ''sh'', ''State:'' @ TAB # ''S (sleeping)'',
      ''VmSize:'' @ TAB # padded 2336 @ '' kB'', ''VmRSS:'' @ TAB # padded 520 @ '' kB'', ''Threads:'' @ TAB # digits 1]) else None) 42 zero_info =
    Some \<lparr>pi_pid = 42, pi_state = CHR ''S'', pi_vm_size = 2336, pi_vm_rss = 520, pi_threads = 1, pi_name = ''sh''\<rparr>"
  using status_roundtrip [of "\<lparr>pi_pid = 42, pi_state = CHR ''S'', pi_vm_size = 2336, pi_vm_rss = 520, pi_threads = 1, pi_name = ''sh''\<rparr>"
      "'' (sleeping)''" "\<lambda>_. []"]
  by (simp add: isspace_def NEWLINE_def status_lines_def)

subsection \<open>What the program gets wrong\<close>

text \<open>A name with a space is cut at the space.\<close>

lemma name_with_space:
  "read_line (''Name:'' @ TAB # ''tmux: server'' @ [NEWLINE]) info = Some (info\<lparr>pi_name := ''tmux:''\<rparr>)"
  by (simp add: read_line_def has_prefix_def sscanf_s_def isspace_def TAB_def NEWLINE_def)

text \<open>A process that ends between the scan and the reading is printed as process 0 in an unknown state.\<close>

lemma vanished_process:
  assumes "status 7 = None"
  shows "scan_processes status (Some [(True, digits 7)]) = Some [zero_info]" and "state_text (pi_state zero_info) = ''Unknown''"
  using assms strtol_digits [of 7]
  by (simp_all add: scan_processes_def scan_entry_def read_process_info_def zero_info_def state_text_def)

end
