(* ===== verification/Serial_Devices.thy ===== *)
theory Serial_Devices
  imports OS_Prelude
begin

section \<open>Serial devices: Serial\_Communications/serial\_communications.cpp\<close>

text \<open>
  The classes UART, I2C and SPI around a file descriptor. What the system calls do is a parameter: \<open>os_calls\<close> holds one
  function per call, over a state \<open>'w\<close> of the outside world; an object is the record of its members, a
  constructor and every method a function that also threads the world. A value left uninitialised by a failed
  call is \<open>None\<close> once it is used, and so is the result of a function that reaches its end, or a bare \<open>return\<close>, without the value it is
  declared to return.
  The masks are those of the Linux headers.
\<close>

type_synonym byte = "8 word"

record termios =
  c_iflag :: "32 word"
  c_oflag :: "32 word"
  c_cflag :: "32 word"
  c_lflag :: "32 word"
  c_vmin :: byte
  c_vtime :: byte
  c_ispeed :: "32 word"
  c_ospeed :: "32 word"

record spi_transfer =
  tr_tx :: "byte list"
  tr_len :: "32 word"
  tr_speed_hz :: "32 word"
  tr_bits_per_word :: byte
  tr_delay_usecs :: "16 word"

text \<open>\<open>None\<close> as the result of tcgetattr or FIONREAD: the call fails and does not fill in its result.\<close>

record 'w os_calls =
  os_open :: "string \<Rightarrow> 32 word \<Rightarrow> 'w \<Rightarrow> int \<times> 'w"
  os_close :: "int \<Rightarrow> 'w \<Rightarrow> 'w"
  os_read :: "int \<Rightarrow> nat \<Rightarrow> 'w \<Rightarrow> (int \<times> byte list) \<times> 'w"
  os_write :: "int \<Rightarrow> byte list \<Rightarrow> 'w \<Rightarrow> int \<times> 'w"
  os_tcgetattr :: "int \<Rightarrow> 'w \<Rightarrow> termios option \<times> 'w"
  os_tcsetattr :: "int \<Rightarrow> termios \<Rightarrow> 'w \<Rightarrow> 'w"
  os_tcflush :: "int \<Rightarrow> 'w \<Rightarrow> 'w"
  os_fionread :: "int \<Rightarrow> 'w \<Rightarrow> int option \<times> 'w"
  os_i2c_slave :: "int \<Rightarrow> int \<Rightarrow> 'w \<Rightarrow> int \<times> 'w"
  os_spi_mode :: "int \<Rightarrow> byte \<Rightarrow> 'w \<Rightarrow> int \<times> 'w"
  os_spi_bits :: "int \<Rightarrow> byte \<Rightarrow> 'w \<Rightarrow> int \<times> 'w"
  os_spi_speed :: "int \<Rightarrow> 32 word \<Rightarrow> 'w \<Rightarrow> int \<times> 'w"
  os_spi_message :: "int \<Rightarrow> spi_transfer \<Rightarrow> 'w \<Rightarrow> (int \<times> byte list) \<times> 'w"

definition O_RDWR :: "32 word" where "O_RDWR = 0x2"
definition O_NOCTTY :: "32 word" where "O_NOCTTY = 0x100"
definition O_NDELAY :: "32 word" where "O_NDELAY = 0x800"
definition CSIZE :: "32 word" where "CSIZE = 0x30"
definition CS8 :: "32 word" where "CS8 = 0x30"
definition CSTOPB :: "32 word" where "CSTOPB = 0x40"
definition CREAD :: "32 word" where "CREAD = 0x80"
definition PARENB :: "32 word" where "PARENB = 0x100"
definition CLOCAL :: "32 word" where "CLOCAL = 0x800"
definition CRTSCTS :: "32 word" where "CRTSCTS = 0x80000000"
definition ISIG :: "32 word" where "ISIG = 0x1"
definition ICANON :: "32 word" where "ICANON = 0x2"
definition ECHO :: "32 word" where "ECHO = 0x8"
definition ECHOE :: "32 word" where "ECHOE = 0x10"
definition IXON :: "32 word" where "IXON = 0x400"
definition IXANY :: "32 word" where "IXANY = 0x800"
definition IXOFF :: "32 word" where "IXOFF = 0x1000"
definition OPOST :: "32 word" where "OPOST = 0x1"

subsection \<open>UART\<close>

record uart =
  ua_fd :: int

unbundle bit_operations_syntax

text \<open>The settings of the constructor, in its order.\<close>

definition control_flags :: "32 word \<Rightarrow> 32 word" where
  "control_flags c =
     (let c = c AND NOT PARENB; c = c AND NOT CSTOPB; c = c AND NOT CSIZE; c = c OR CS8; c = c AND NOT CRTSCTS
      in c OR (CREAD OR CLOCAL))"

definition configure :: "32 word \<Rightarrow> termios \<Rightarrow> termios" where
  "configure baud options =
     options\<lparr>c_ispeed := baud, c_ospeed := baud, c_cflag := control_flags (c_cflag options),
       c_lflag := c_lflag options AND NOT (ICANON OR ECHO OR ECHOE OR ISIG),
       c_iflag := c_iflag options AND NOT (IXON OR IXOFF OR IXANY),
       c_oflag := c_oflag options AND NOT OPOST, c_vmin := 0, c_vtime := 10\<rparr>"

definition UART :: "'w os_calls \<Rightarrow> string \<Rightarrow> 32 word \<Rightarrow> 'w \<Rightarrow> (uart \<times> 'w) option" where
  "UART sys device baud w =
     (let (fd, w) = os_open sys device (O_RDWR OR O_NOCTTY OR O_NDELAY) w in
      if fd = -1 then Some (\<lparr>ua_fd = fd\<rparr>, w)
      else let (options, w) = os_tcgetattr sys fd w in
        case options of
          None \<Rightarrow> None
        | Some options \<Rightarrow>
            let w = os_tcsetattr sys fd (configure baud options) w
            in Some (\<lparr>ua_fd = fd\<rparr>, os_tcflush sys fd w))"

definition UART_destroy :: "'w os_calls \<Rightarrow> uart \<Rightarrow> 'w \<Rightarrow> 'w" where
  "UART_destroy sys u w = (if ua_fd u \<noteq> -1 then os_close sys (ua_fd u) w else w)"

definition UART_isOpen :: "uart \<Rightarrow> bool" where
  "UART_isOpen u \<longleftrightarrow> ua_fd u \<noteq> -1"

definition UART_write :: "'w os_calls \<Rightarrow> uart \<Rightarrow> byte list \<Rightarrow> 'w \<Rightarrow> int \<times> 'w" where
  "UART_write sys u data w = (if ua_fd u = -1 then (-1, w) else os_write sys (ua_fd u) data w)"

definition UART_writeString :: "'w os_calls \<Rightarrow> uart \<Rightarrow> byte list \<Rightarrow> 'w \<Rightarrow> int \<times> 'w" where
  "UART_writeString sys u str w = UART_write sys u str w"

text \<open>Reading yields the number of bytes, or -1, and the bytes.\<close>

definition UART_read :: "'w os_calls \<Rightarrow> uart \<Rightarrow> nat \<Rightarrow> 'w \<Rightarrow> (int \<times> byte list) \<times> 'w" where
  "UART_read sys u len w = (if ua_fd u = -1 then ((-1, []), w) else os_read sys (ua_fd u) len w)"

text \<open>The loop of \<open>readLine\<close> ends only when a read fails or the delimiter comes.\<close>

partial_function (option) readLine_loop ::
  "'w os_calls \<Rightarrow> int \<Rightarrow> byte \<Rightarrow> byte list \<Rightarrow> 'w \<Rightarrow> (byte list \<times> 'w) option" where
  "readLine_loop sys fd delimiter res w =
     (let r = os_read sys fd 1 w in
      if 0 < fst (fst r) then
        Option.bind (rd (snd (fst r)) 0) (\<lambda>c.
          if c = delimiter then Some (res, snd r) else readLine_loop sys fd delimiter (res @ [c]) (snd r))
      else Some (res, snd r))"

definition UART_readLine :: "'w os_calls \<Rightarrow> uart \<Rightarrow> byte \<Rightarrow> 'w \<Rightarrow> (byte list \<times> 'w) option" where
  "UART_readLine sys u delimiter w = readLine_loop sys (ua_fd u) delimiter [] w"

definition UART_available :: "'w os_calls \<Rightarrow> uart \<Rightarrow> 'w \<Rightarrow> (int \<times> 'w) option" where
  "UART_available sys u w = (case os_fionread sys (ua_fd u) w of (None, w) \<Rightarrow> None | (Some bytes, w) \<Rightarrow> Some (bytes, w))"

subsection \<open>I2C\<close>

record i2c =
  i2_fd :: int
  i2_address :: int

text \<open>The constructor checks the address, \<open>setAddress\<close> does not; both close the device when the ioctl fails.\<close>

definition I2C :: "'w os_calls \<Rightarrow> string \<Rightarrow> int \<Rightarrow> 'w \<Rightarrow> i2c \<times> 'w" where
  "I2C sys device addr w =
     (let (fd, w) = os_open sys device O_RDWR w in
      if fd = -1 then (\<lparr>i2_fd = fd, i2_address = addr\<rparr>, w)
      else if addr > 0 then
        let (r, w) = os_i2c_slave sys fd addr w in
        if r < 0 then (\<lparr>i2_fd = -1, i2_address = addr\<rparr>, os_close sys fd w)
        else (\<lparr>i2_fd = fd, i2_address = addr\<rparr>, w)
      else (\<lparr>i2_fd = fd, i2_address = addr\<rparr>, w))"

definition I2C_destroy :: "'w os_calls \<Rightarrow> i2c \<Rightarrow> 'w \<Rightarrow> 'w" where
  "I2C_destroy sys d w = (if i2_fd d \<noteq> -1 then os_close sys (i2_fd d) w else w)"

definition I2C_isOpen :: "i2c \<Rightarrow> bool" where
  "I2C_isOpen d \<longleftrightarrow> i2_fd d \<noteq> -1"

text \<open>
  \<open>setAddress\<close> is declared \<open>bool\<close> and has no \<open>return\<close>: whatever its statements do (\<open>I2C_setAddress_body\<close>), its end is reached without a
  value, which C++ leaves undefined.
\<close>

definition I2C_setAddress_body :: "'w os_calls \<Rightarrow> i2c \<Rightarrow> int \<Rightarrow> 'w \<Rightarrow> i2c \<times> 'w" where
  "I2C_setAddress_body sys d addr w =
     (let d = d\<lparr>i2_address := addr\<rparr>; (r, w) = os_i2c_slave sys (i2_fd d) addr w in
      if r < 0 then (d\<lparr>i2_fd := -1\<rparr>, os_close sys (i2_fd d) w) else (d, w))"

definition I2C_setAddress :: "'w os_calls \<Rightarrow> i2c \<Rightarrow> int \<Rightarrow> 'w \<Rightarrow> (bool \<times> i2c \<times> 'w) option" where
  "I2C_setAddress sys d addr w = (let (d, w) = I2C_setAddress_body sys d addr w in None)"

definition I2C_writeByte :: "'w os_calls \<Rightarrow> i2c \<Rightarrow> byte \<Rightarrow> 'w \<Rightarrow> int \<times> 'w" where
  "I2C_writeByte sys d v w = (if i2_fd d = -1 then (-1, w) else os_write sys (i2_fd d) [v] w)"

definition I2C_writeBytes :: "'w os_calls \<Rightarrow> i2c \<Rightarrow> byte list \<Rightarrow> 'w \<Rightarrow> int \<times> 'w" where
  "I2C_writeBytes sys d data w = (if i2_fd d = -1 then (-1, w) else os_write sys (i2_fd d) data w)"

definition I2C_writeReg :: "'w os_calls \<Rightarrow> i2c \<Rightarrow> byte \<Rightarrow> byte \<Rightarrow> 'w \<Rightarrow> int \<times> 'w" where
  "I2C_writeReg sys d reg v w = I2C_writeBytes sys d [reg, v] w"

definition I2C_readByte :: "'w os_calls \<Rightarrow> i2c \<Rightarrow> 'w \<Rightarrow> (int \<times> 'w) option" where
  "I2C_readByte sys d w =
     (if i2_fd d = -1 then Some (-1, w)
      else let ((n, bs), w) = os_read sys (i2_fd d) 1 w in
        if n \<noteq> 1 then Some (-1, w)
        else do { b \<leftarrow> rd bs 0; Some (uint b, w) })"

definition I2C_readBytes :: "'w os_calls \<Rightarrow> i2c \<Rightarrow> nat \<Rightarrow> 'w \<Rightarrow> (int \<times> byte list) \<times> 'w" where
  "I2C_readBytes sys d len w = (if i2_fd d = -1 then ((-1, []), w) else os_read sys (i2_fd d) len w)"

definition I2C_readReg :: "'w os_calls \<Rightarrow> i2c \<Rightarrow> byte \<Rightarrow> 'w \<Rightarrow> (int \<times> 'w) option" where
  "I2C_readReg sys d reg w =
     (let (n, w) = I2C_writeByte sys d reg w in if n \<noteq> 1 then Some (-1, w) else I2C_readByte sys d w)"

definition I2C_readRegBytes :: "'w os_calls \<Rightarrow> i2c \<Rightarrow> byte \<Rightarrow> nat \<Rightarrow> 'w \<Rightarrow> (int \<times> byte list) \<times> 'w" where
  "I2C_readRegBytes sys d reg len w =
     (let (n, w) = I2C_writeByte sys d reg w in if n \<noteq> 1 then ((-1, []), w) else I2C_readBytes sys d len w)"

subsection \<open>SPI\<close>

record spi =
  sp_fd :: int
  sp_mode :: byte
  sp_bits :: byte
  sp_speed :: "32 word"

text \<open>Each of the three settings closes the device when it fails.\<close>

definition SPI :: "'w os_calls \<Rightarrow> string \<Rightarrow> 32 word \<Rightarrow> byte \<Rightarrow> byte \<Rightarrow> 'w \<Rightarrow> spi \<times> 'w" where
  "SPI sys device speedHz modeBits bitsPerWord w =
     (let (fd, w) = os_open sys device O_RDWR w;
          d = \<lparr>sp_fd = fd, sp_mode = modeBits, sp_bits = bitsPerWord, sp_speed = speedHz\<rparr>;
          closed = d\<lparr>sp_fd := -1\<rparr> in
      if fd = -1 then (d, w)
      else let (r, w) = os_spi_mode sys fd modeBits w in
        if r < 0 then (closed, os_close sys fd w)
        else let (r, w) = os_spi_bits sys fd bitsPerWord w in
          if r < 0 then (closed, os_close sys fd w)
          else let (r, w) = os_spi_speed sys fd speedHz w in
            if r < 0 then (closed, os_close sys fd w) else (d, w))"

definition SPI_destroy :: "'w os_calls \<Rightarrow> spi \<Rightarrow> 'w \<Rightarrow> 'w" where
  "SPI_destroy sys d w = (if sp_fd d \<noteq> -1 then os_close sys (sp_fd d) w else w)"

definition SPI_isOpen :: "spi \<Rightarrow> bool" where
  "SPI_isOpen d \<longleftrightarrow> sp_fd d \<noteq> -1"

text \<open>A transfer on a closed device returns without a value; the length is cut to the 32 bits of the field.\<close>

definition SPI_transfer :: "'w os_calls \<Rightarrow> spi \<Rightarrow> byte list \<Rightarrow> 'w \<Rightarrow> ((int \<times> byte list) \<times> 'w) option" where
  "SPI_transfer sys d tx w =
     (if sp_fd d = -1 then None
      else Some (os_spi_message sys (sp_fd d)
        \<lparr>tr_tx = tx, tr_len = word_of_nat (length tx), tr_speed_hz = sp_speed d, tr_bits_per_word = sp_bits d, tr_delay_usecs = 0\<rparr> w))"

definition SPI_write :: "'w os_calls \<Rightarrow> spi \<Rightarrow> byte list \<Rightarrow> 'w \<Rightarrow> (int \<times> 'w) option" where
  "SPI_write sys d data w = do { ((res, _), w) \<leftarrow> SPI_transfer sys d data w; Some (res, w) }"

definition SPI_read :: "'w os_calls \<Rightarrow> spi \<Rightarrow> nat \<Rightarrow> 'w \<Rightarrow> ((int \<times> byte list) \<times> 'w) option" where
  "SPI_read sys d len w = SPI_transfer sys d (replicate len 0) w"

definition SPI_writeThenRead :: "'w os_calls \<Rightarrow> spi \<Rightarrow> byte list \<Rightarrow> nat \<Rightarrow> 'w \<Rightarrow> ((int \<times> byte list) \<times> 'w) option" where
  "SPI_writeThenRead sys d tx rxLen w = do {
     (res, w) \<leftarrow> SPI_write sys d tx w;
     if res < 0 then Some ((-1, []), w) else SPI_read sys d rxLen w }"

subsection \<open>The settings of the UART\<close>

lemma bit_disjoint: "a AND b = 0 \<Longrightarrow> bit a n \<Longrightarrow> \<not> bit b n" for a b :: "32 word"
  by (metis bit_0_eq bit_and_iff bot_apply bot_bool_def)

lemma control_flags_disjoint:
  "PARENB AND CREAD = 0" "PARENB AND CLOCAL = 0" "PARENB AND CS8 = 0" "CSTOPB AND CREAD = 0" "CSTOPB AND CLOCAL = 0"
  "CSTOPB AND CS8 = 0" "CRTSCTS AND CREAD = 0" "CRTSCTS AND CLOCAL = 0" "CSIZE AND CREAD = 0" "CSIZE AND CLOCAL = 0"
  "CSIZE AND CRTSCTS = 0"
  by (simp_all add: PARENB_def CREAD_def CLOCAL_def CS8_def CSTOPB_def CRTSCTS_def CSIZE_def)

lemma CS8_CSIZE: "CS8 = CSIZE"
  by (simp add: CS8_def CSIZE_def)

lemma control_flags_bits:
  "bit (control_flags c) n \<longleftrightarrow> bit CREAD n \<or> bit CLOCAL n \<or> bit CS8 n \<and> \<not> bit CRTSCTS n \<or>
     bit c n \<and> \<not> bit PARENB n \<and> \<not> bit CSTOPB n \<and> \<not> bit CSIZE n \<and> \<not> bit CRTSCTS n"
  by (cases "n < 32") (auto simp: control_flags_def bit_simps dest: bit_imp_le_length)

text \<open>Eight data bits, no parity, one stop bit, no flow control, receiver on; the other flags stay as they were.\<close>

lemma control_flags_8N1:
  "control_flags c AND CSIZE = CS8" "control_flags c AND PARENB = 0" "control_flags c AND CSTOPB = 0"
  "control_flags c AND CRTSCTS = 0" "control_flags c AND CREAD = CREAD" "control_flags c AND CLOCAL = CLOCAL"
  "let others = NOT (PARENB OR CSTOPB OR CSIZE OR CRTSCTS OR CREAD OR CLOCAL) in control_flags c AND others = c AND others"
  using bit_disjoint [OF control_flags_disjoint(1)] bit_disjoint [OF control_flags_disjoint(2)]
    bit_disjoint [OF control_flags_disjoint(3)] bit_disjoint [OF control_flags_disjoint(4)]
    bit_disjoint [OF control_flags_disjoint(5)] bit_disjoint [OF control_flags_disjoint(6)]
    bit_disjoint [OF control_flags_disjoint(7)] bit_disjoint [OF control_flags_disjoint(8)]
    bit_disjoint [OF control_flags_disjoint(9)] bit_disjoint [OF control_flags_disjoint(10)]
    bit_disjoint [OF control_flags_disjoint(11)]
  by (auto intro!: bit_word_eqI simp: Let_def bit_and_iff control_flags_bits CS8_CSIZE bit_or_iff bit_not_iff)

subsection \<open>Reading a line\<close>

text \<open>\<open>input w\<close> is what the descriptor will still deliver, byte by byte; afterwards a read gives 0 or an error.\<close>

definition delivers :: "'w os_calls \<Rightarrow> int \<Rightarrow> ('w \<Rightarrow> byte list) \<Rightarrow> bool" where
  "delivers sys fd input \<longleftrightarrow> (\<forall>w. case input w of
     [] \<Rightarrow> fst (fst (os_read sys fd 1 w)) \<le> 0 \<and> input (snd (os_read sys fd 1 w)) = []
   | b # bs \<Rightarrow> fst (os_read sys fd 1 w) = (1, [b]) \<and> input (snd (os_read sys fd 1 w)) = bs)"

lemma readLine_loop_result:
  assumes "delivers sys fd input" and "input w = bs"
  shows "\<exists>w'. readLine_loop sys fd delimiter res w = Some (res @ takeWhile (\<lambda>b. b \<noteq> delimiter) bs, w') \<and>
    input w' = drop (Suc (length (takeWhile (\<lambda>b. b \<noteq> delimiter) bs))) bs"
  using assms(2)
proof (induction bs arbitrary: w res)
  case Nil
  then have "fst (fst (os_read sys fd 1 w)) \<le> 0" "input (snd (os_read sys fd 1 w)) = []"
    using assms(1) unfolding delivers_def by (auto dest: spec [of _ w])
  then show ?case by (subst readLine_loop.simps) (simp add: Let_def)
next
  case (Cons b bs)
  let ?w = "snd (os_read sys fd 1 w)"
  have r: "fst (os_read sys fd 1 w) = (1, [b])" "input ?w = bs"
    using assms(1) Cons.prems unfolding delivers_def by (auto dest: spec [of _ w])
  show ?case
  proof (cases "b = delimiter")
    case True
    with r show ?thesis by (subst readLine_loop.simps) (simp add: Let_def rd_def)
  next
    case False
    then have "readLine_loop sys fd delimiter res w = readLine_loop sys fd delimiter (res @ [b]) ?w"
      using r by (subst readLine_loop.simps) (simp add: Let_def rd_def)
    with Cons.IH [OF r(2), of "res @ [b]"] False show ?thesis by simp
  qed
qed

text \<open>On a descriptor that delivers finitely many bytes, \<open>readLine\<close> returns: it yields the bytes before the
  first delimiter, or all of them when there is none, and leaves exactly what comes after the delimiter to be
  read.\<close>
theorem readLine_reads_line:
  assumes "delivers sys (ua_fd u) input"
  shows "\<exists>w'. UART_readLine sys u delimiter w = Some (takeWhile (\<lambda>b. b \<noteq> delimiter) (input w), w') \<and>
    input w' = drop (Suc (length (takeWhile (\<lambda>b. b \<noteq> delimiter) (input w)))) (input w)"
  using readLine_loop_result [OF assms refl, of delimiter "[]" w] by (simp add: UART_readLine_def)

text \<open>A device that keeps sending bytes other than the delimiter keeps \<open>readLine\<close> from returning.\<close>

lemma readLine_never_returns:
  assumes "\<forall>w. fst (os_read sys fd 1 w) = (1, [b])" and "b \<noteq> delimiter"
  shows "readLine_loop sys fd delimiter res w = None"
proof (rule ccontr)
  assume "readLine_loop sys fd delimiter res w \<noteq> None"
  then obtain r where "readLine_loop sys fd delimiter res w = Some r" by blast
  then have "(\<forall>w. fst (os_read sys fd 1 w) = (1, [b])) \<and> b \<noteq> delimiter \<longrightarrow> False"
  proof (rule readLine_loop.raw_induct [where P = "\<lambda>sys fd delimiter _ _ _. (\<forall>w. fst (os_read sys fd 1 w) = (1, [b])) \<and> b \<noteq> delimiter \<longrightarrow> False",
        rotated])
    fix loop :: "'a os_calls \<Rightarrow> int \<Rightarrow> byte \<Rightarrow> byte list \<Rightarrow> 'a \<Rightarrow> (byte list \<times> 'a) option" and sys fd delimiter res w r
    assume IH: "\<And>sys fd delimiter res w r. loop sys fd delimiter res w = Some r \<Longrightarrow>
        (\<forall>w. fst (os_read sys fd 1 w) = (1, [b])) \<and> b \<noteq> delimiter \<longrightarrow> False"
      and body: "(let r = os_read sys fd 1 w in
        if 0 < fst (fst r) then
          Option.bind (rd (snd (fst r)) 0) (\<lambda>c.
            if c = delimiter then Some (res, snd r) else loop sys fd delimiter (res @ [c]) (snd r))
        else Some (res, snd r)) = Some r"
    show "(\<forall>w. fst (os_read sys fd 1 w) = (1, [b])) \<and> b \<noteq> delimiter \<longrightarrow> False"
    proof (rule impI, elim conjE)
      assume all: "\<forall>w. fst (os_read sys fd 1 w) = (1, [b])" and neq: "b \<noteq> delimiter"
      then have "loop sys fd delimiter (res @ [b]) (snd (os_read sys fd 1 w)) = Some r"
        using body by (simp add: Let_def rd_def)
      with IH all neq show False by blast
    qed
  qed
  with assms show False by blast
qed

subsection \<open>Descriptors\<close>

text \<open>
  The descriptors that are open in a world: \<open>open\<close> yields a new one or -1, \<open>close\<close> takes its argument out, no
  other call changes them, and a read that yields \<open>n\<close> fills in \<open>n\<close> bytes.
\<close>

definition tracks :: "'w os_calls \<Rightarrow> ('w \<Rightarrow> int set) \<Rightarrow> bool" where
  "tracks sys opens \<longleftrightarrow>
     (\<forall>w. -1 \<notin> opens w) \<and>
     (\<forall>p f w. (fst (os_open sys p f w) = -1 \<longrightarrow> opens (snd (os_open sys p f w)) = opens w) \<and>
        (fst (os_open sys p f w) \<noteq> -1 \<longrightarrow> fst (os_open sys p f w) \<notin> opens w \<and>
          opens (snd (os_open sys p f w)) = insert (fst (os_open sys p f w)) (opens w))) \<and>
     (\<forall>fd w. opens (os_close sys fd w) = opens w - {fd}) \<and>
     (\<forall>fd len w. opens (snd (os_read sys fd len w)) = opens w \<and>
        (0 \<le> fst (fst (os_read sys fd len w)) \<longrightarrow>
          int (length (snd (fst (os_read sys fd len w)))) = fst (fst (os_read sys fd len w)))) \<and>
     (\<forall>fd bs w. opens (snd (os_write sys fd bs w)) = opens w) \<and>
     (\<forall>fd a w. opens (snd (os_i2c_slave sys fd a w)) = opens w) \<and>
     (\<forall>fd v w. opens (snd (os_spi_mode sys fd v w)) = opens w) \<and>
     (\<forall>fd v w. opens (snd (os_spi_bits sys fd v w)) = opens w) \<and>
     (\<forall>fd v w. opens (snd (os_spi_speed sys fd v w)) = opens w) \<and>
     (\<forall>fd tr w. opens (snd (os_spi_message sys fd tr w)) = opens w)"

lemma tracks_simps:
  assumes "tracks sys opens"
  shows "-1 \<notin> opens w" "opens (os_close sys fd w) = opens w - {fd}"
    "os_read sys fd len w = (r, w') \<Longrightarrow> opens w' = opens w"
    "os_read sys fd len w = ((n, bs), w') \<Longrightarrow> 0 \<le> n \<Longrightarrow> int (length bs) = n"
    "os_write sys fd bs w = (k, w') \<Longrightarrow> opens w' = opens w"
    "os_i2c_slave sys fd a w = (k, w') \<Longrightarrow> opens w' = opens w"
    "os_spi_mode sys fd m w = (k, w') \<Longrightarrow> opens w' = opens w"
    "os_spi_bits sys fd m w = (k, w') \<Longrightarrow> opens w' = opens w"
    "os_spi_speed sys fd v w = (k, w') \<Longrightarrow> opens w' = opens w"
    "os_spi_message sys fd tr w = (q, w') \<Longrightarrow> opens w' = opens w"
  using assms unfolding tracks_def by (metis fst_conv snd_conv)+

lemma tracks_open:
  assumes "tracks sys opens" and "os_open sys p f w = (fd, w')"
  shows "fd = -1 \<Longrightarrow> opens w' = opens w" and "fd \<noteq> -1 \<Longrightarrow> fd \<notin> opens w \<and> opens w' = insert fd (opens w)"
  using assms unfolding tracks_def by (metis fst_conv snd_conv)+

text \<open>An object that was created when \<open>base\<close> was open: it holds one descriptor more, or none.\<close>

definition holds :: "int \<Rightarrow> int set \<Rightarrow> int set \<Rightarrow> bool" where
  "holds fd base now \<longleftrightarrow> -1 \<notin> base \<and> (if fd = -1 then now = base else fd \<notin> base \<and> now = insert fd base)"

lemma holds_closed: "holds fd base now \<Longrightarrow> fd \<noteq> -1 \<Longrightarrow> now - {fd} = base"
  by (auto simp: holds_def)

lemma holds_minus_one: "holds fd base now \<Longrightarrow> holds (-1) base (now - {fd})"
  by (auto simp: holds_def split: if_splits)

datatype i2c_op = Set_Address int | Write_Byte byte | Write_Bytes "byte list" | Write_Reg byte byte
  | Read_Byte | Read_Bytes nat | Read_Reg byte | Read_Reg_Bytes byte nat

text \<open>A method call on the object, without its result.\<close>

definition i2c_call :: "'w os_calls \<Rightarrow> i2c_op \<Rightarrow> i2c \<times> 'w \<Rightarrow> (i2c \<times> 'w) option" where
  "i2c_call sys oper st = (case st of (d, w) \<Rightarrow> case oper of
       Set_Address a \<Rightarrow> map_option (\<lambda>(_, d, w). (d, w)) (I2C_setAddress sys d a w)
     | Write_Byte v \<Rightarrow> Some (d, snd (I2C_writeByte sys d v w))
     | Write_Bytes bs \<Rightarrow> Some (d, snd (I2C_writeBytes sys d bs w))
     | Write_Reg r v \<Rightarrow> Some (d, snd (I2C_writeReg sys d r v w))
     | Read_Byte \<Rightarrow> map_option (\<lambda>(_, w). (d, w)) (I2C_readByte sys d w)
     | Read_Bytes n \<Rightarrow> Some (d, snd (I2C_readBytes sys d n w))
     | Read_Reg r \<Rightarrow> map_option (\<lambda>(_, w). (d, w)) (I2C_readReg sys d r w)
     | Read_Reg_Bytes r n \<Rightarrow> Some (d, snd (I2C_readRegBytes sys d r n w)))"

lemma I2C_holds:
  assumes tr: "tracks sys opens" and res: "I2C sys device addr w = (d, w')"
  shows "holds (i2_fd d) (opens w) (opens w')"
proof -
  obtain fd w1 where o: "os_open sys device O_RDWR w = (fd, w1)" by fastforce
  obtain r w2 where s: "os_i2c_slave sys fd addr w1 = (r, w2)" by fastforce
  note keep = tracks_simps(6) [OF tr s] tracks_open [OF tr o] tracks_simps(1,2) [OF tr]
  show ?thesis
    using res keep by (auto simp: I2C_def o s holds_def Let_def split: if_splits)
qed

lemma I2C_readByte_total:
  assumes "tracks sys opens"
  shows "\<exists>r w'. I2C_readByte sys d w = Some (r, w') \<and> opens w' = opens w"
proof -
  obtain n bs w1 where o: "os_read sys (i2_fd d) 1 w = ((n, bs), w1)" by (metis prod.exhaust)
  have "n = 1 \<Longrightarrow> length bs = 1" using tracks_simps(4) [OF assms o] by simp
  then show ?thesis using tracks_simps(3) [OF assms o] o by (auto simp: I2C_readByte_def rd_def)
qed

text \<open>A history of the descriptors opened and closed; the other calls an I2C object makes leave it alone.\<close>

datatype fd_event = Opened int | Closed int

definition logs :: "'w os_calls \<Rightarrow> ('w \<Rightarrow> fd_event list) \<Rightarrow> bool" where
  "logs sys log \<longleftrightarrow>
     (\<forall>p f w. log (snd (os_open sys p f w)) = log w @
        (if fst (os_open sys p f w) = - 1 then [] else [Opened (fst (os_open sys p f w))])) \<and>
     (\<forall>fd w. log (os_close sys fd w) = log w @ [Closed fd]) \<and>
     (\<forall>fd len w. log (snd (os_read sys fd len w)) = log w) \<and>
     (\<forall>fd bs w. log (snd (os_write sys fd bs w)) = log w) \<and>
     (\<forall>fd a w. log (snd (os_i2c_slave sys fd a w)) = log w)"

text \<open>Every system can be given a history: it is kept beside the world.\<close>

definition beside :: "('w \<Rightarrow> 'r \<times> 'w) \<Rightarrow> 'w \<times> 'h \<Rightarrow> 'r \<times> 'w \<times> 'h" where
  "beside f = (\<lambda>(w, h). let (r, w') = f w in (r, w', h))"

definition logged :: "'w os_calls \<Rightarrow> ('w \<times> fd_event list) os_calls" where
  "logged sys = \<lparr>
     os_open = (\<lambda>p f (w, h). let (fd, w') = os_open sys p f w in (fd, w', if fd = - 1 then h else h @ [Opened fd])),
     os_close = (\<lambda>fd (w, h). (os_close sys fd w, h @ [Closed fd])),
     os_read = (\<lambda>fd n. beside (os_read sys fd n)), os_write = (\<lambda>fd bs. beside (os_write sys fd bs)),
     os_tcgetattr = (\<lambda>fd. beside (os_tcgetattr sys fd)),
     os_tcsetattr = (\<lambda>fd t (w, h). (os_tcsetattr sys fd t w, h)), os_tcflush = (\<lambda>fd (w, h). (os_tcflush sys fd w, h)),
     os_fionread = (\<lambda>fd. beside (os_fionread sys fd)), os_i2c_slave = (\<lambda>fd a. beside (os_i2c_slave sys fd a)),
     os_spi_mode = (\<lambda>fd m. beside (os_spi_mode sys fd m)), os_spi_bits = (\<lambda>fd b. beside (os_spi_bits sys fd b)),
     os_spi_speed = (\<lambda>fd hz. beside (os_spi_speed sys fd hz)), os_spi_message = (\<lambda>fd tr. beside (os_spi_message sys fd tr))\<rparr>"

lemma beside_simps: "fst (beside f p) = fst (f (fst p))" "fst (snd (beside f p)) = snd (f (fst p))" "snd (snd (beside f p)) = snd p"
  by (simp_all add: beside_def case_prod_beta Let_def)

lemma logged_logs: "logs (logged sys) snd"
  by (auto simp: logs_def logged_def beside_simps case_prod_beta Let_def)

lemma logged_tracks: "tracks sys opens \<Longrightarrow> tracks (logged sys) (\<lambda>p. opens (fst p))"
  by (simp add: tracks_def logged_def beside_simps case_prod_beta Let_def)

text \<open>The methods that return: reading and writing change neither the object nor what reads and writes leave alone.\<close>

lemma i2c_call_keeps:
  assumes tr: "tracks sys opens" and oper: "\<forall>a. oper \<noteq> Set_Address a"
    and rd: "\<And>fd n w. K (snd (os_read sys fd n w)) = K w" and wr: "\<And>fd bs w. K (snd (os_write sys fd bs w)) = K w"
  shows "\<exists>w'. i2c_call sys oper (d, w) = Some (d, w') \<and> K w' = K w"
proof -
  have w1: "K (snd (I2C_writeByte sys d v w)) = K w" for v w by (simp add: I2C_writeByte_def wr)
  have w2: "K (snd (I2C_writeBytes sys d bs w)) = K w" for bs w by (simp add: I2C_writeBytes_def wr)
  have r2: "K (snd (I2C_readBytes sys d n w)) = K w" for n w by (simp add: I2C_readBytes_def rd)
  have r1: "\<exists>r w'. I2C_readByte sys d w = Some (r, w') \<and> K w' = K w" for w
  proof -
    obtain n bs w1 where o: "os_read sys (i2_fd d) 1 w = ((n, bs), w1)" by (metis prod.exhaust)
    have "n = 1 \<Longrightarrow> length bs = 1" using tracks_simps(4) [OF tr o] by simp
    then show ?thesis using rd [of "i2_fd d" 1 w] o by (auto simp: I2C_readByte_def rd_def)
  qed
  show ?thesis
  proof (cases oper)
    case (Set_Address a)
    with oper show ?thesis by simp
  next
    case (Read_Reg r)
    obtain k w1 where "I2C_writeByte sys d r w = (k, w1)" by fastforce
    with w1 [of r w] r1 [of w1] show ?thesis by (auto simp: Read_Reg i2c_call_def I2C_readReg_def)
  next
    case (Read_Reg_Bytes r n)
    obtain k w1 where "I2C_writeByte sys d r w = (k, w1)" by fastforce
    with w1 [of r w] r2 [of n w1] show ?thesis by (auto simp: Read_Reg_Bytes i2c_call_def I2C_readRegBytes_def)
  next
    case Read_Byte
    with r1 [of w] show ?thesis by (auto simp: i2c_call_def)
  qed (use w1 w2 r2 in \<open>simp_all add: i2c_call_def I2C_writeReg_def\<close>)
qed

lemma i2c_calls_keep:
  assumes tr: "tracks sys opens"
    and K: "\<And>fd n w. K (snd (os_read sys fd n w)) = K w" "\<And>fd bs w. K (snd (os_write sys fd bs w)) = K w"
  shows "if \<exists>a. Set_Address a \<in> set ops then foldM (i2c_call sys) ops (d, w) = None
    else \<exists>w'. foldM (i2c_call sys) ops (d, w) = Some (d, w') \<and> K w' = K w"
proof (induction ops arbitrary: w)
  case (Cons oper ops)
  show ?case
  proof (cases "\<exists>a. oper = Set_Address a")
    case True
    then have "i2c_call sys oper (d, w) = None" by (auto simp: i2c_call_def I2C_setAddress_def case_prod_beta Let_def)
    with True show ?thesis by auto
  next
    case False
    then have "\<forall>a. oper \<noteq> Set_Address a" by blast
    from i2c_call_keeps [OF tr this, of K, OF K] obtain w1 where "i2c_call sys oper (d, w) = Some (d, w1)" "K w1 = K w" by blast
    with Cons.IH [of w1] False show ?thesis by (auto split: if_splits)
  qed
qed simp

text \<open>What the statements of \<open>setAddress\<close> would do if the function returned: the object still holds at most one descriptor.\<close>

lemma setAddress_body_holds:
  assumes tr: "tracks sys opens" and own: "holds (i2_fd d) base (opens w)" and run: "I2C_setAddress_body sys d a w = (d', w')"
  shows "holds (i2_fd d') base (opens w')"
proof -
  obtain r w1 where s: "os_i2c_slave sys (i2_fd d) a w = (r, w1)" by fastforce
  show ?thesis
    using run own tracks_simps(6) [OF tr s] tracks_simps(2) [OF tr] holds_minus_one [OF own]
    by (auto simp: I2C_setAddress_body_def s Let_def split: if_splits)
qed

text \<open>C32: An I2C object never leaks its descriptor and never closes one twice. Let \<open>opens\<close> be the set of open descriptors of the system and
  \<open>log\<close> its history of successful opens and of closes (\<open>open\<close> yields a new descriptor or -1, and a read that reports \<open>n\<close> bytes
  fills in \<open>n\<close>). After the constructor, and after any sequence of calls of the methods other than
  \<open>setAddress\<close>, failing ones included, all of which return and none of which opens or closes anything, the object is open exactly when it
  holds the one descriptor that is open in addition to those before; after the destructor the same descriptors are open as
  before the constructor, and the whole life has either opened nothing and closed nothing, or opened one descriptor and then closed that
  one, once. A sequence with a call of \<open>setAddress\<close> has no defined result, because that function returns no value.\<close>
theorem i2c_releases_device:
  assumes "tracks sys opens" and "logs sys log" and "I2C sys device addr w = (d, w1)"
  shows "if \<exists>a. Set_Address a \<in> set ops then foldM (i2c_call sys) ops (d, w1) = None
    else \<exists>w2. foldM (i2c_call sys) ops (d, w1) = Some (d, w2) \<and>
      opens w2 = (if I2C_isOpen d then insert (i2_fd d) (opens w) else opens w) \<and>
      opens (I2C_destroy sys d w2) = opens w \<and>
      (log (I2C_destroy sys d w2) = log w \<or> (\<exists>fd. log (I2C_destroy sys d w2) = log w @ [Opened fd, Closed fd]))"
proof -
  have K: "(\<lambda>w. (opens w, log w)) (snd (os_read sys fd n w)) = (\<lambda>w. (opens w, log w)) w"
    "(\<lambda>w. (opens w, log w)) (snd (os_write sys fd bs w)) = (\<lambda>w. (opens w, log w)) w" for fd n bs w
    using assms(1,2) by (simp_all add: tracks_def logs_def)
  note own = I2C_holds [OF assms(1,3)]
  obtain fd w0 where o: "os_open sys device O_RDWR w = (fd, w0)" by fastforce
  obtain r w' where sl: "os_i2c_slave sys fd addr w0 = (r, w')" by fastforce
  have ev: "log w0 = log w @ (if fd = - 1 then [] else [Opened fd])" "log w' = log w0" "\<And>fd w. log (os_close sys fd w) = log w @ [Closed fd]"
    using assms(2) o sl unfolding logs_def by (metis fst_conv snd_conv)+
  have end_log: "log (I2C_destroy sys d w2) = log w \<or> (\<exists>fd. log (I2C_destroy sys d w2) = log w @ [Opened fd, Closed fd])"
    if "log w2 = log w1" for w2
    using assms(3) ev that by (auto simp: I2C_def o sl I2C_destroy_def Let_def split: if_splits)
  have end_open: "opens w2 = (if I2C_isOpen d then insert (i2_fd d) (opens w) else opens w) \<and> opens (I2C_destroy sys d w2) = opens w"
    if "opens w2 = opens w1" for w2
    using own holds_closed [OF own] tracks_simps(2) [OF assms(1)] that by (auto simp: I2C_isOpen_def I2C_destroy_def holds_def)
  from i2c_calls_keep [OF assms(1), of "\<lambda>w. (opens w, log w)", OF K, of ops d w1] end_log end_open show ?thesis
    by (auto split: if_splits)
qed

lemma SPI_holds:
  assumes tr: "tracks sys opens" and res: "SPI sys device hz m b w = (d, w')"
  shows "holds (sp_fd d) (opens w) (opens w')" and "opens (SPI_destroy sys d w') = opens w"
proof -
  obtain fd w1 where o: "os_open sys device O_RDWR w = (fd, w1)" by fastforce
  obtain r w2 where s1: "os_spi_mode sys fd m w1 = (r, w2)" by fastforce
  obtain r' w3 where s2: "os_spi_bits sys fd b w2 = (r', w3)" by fastforce
  obtain r'' w4 where s3: "os_spi_speed sys fd hz w3 = (r'', w4)" by fastforce
  note keep = tracks_simps(7) [OF tr s1] tracks_simps(8) [OF tr s2] tracks_simps(9) [OF tr s3]
    tracks_open [OF tr o] tracks_simps(1,2) [OF tr]
  show h: "holds (sp_fd d) (opens w) (opens w')"
    using res keep by (auto simp: SPI_def o s1 s2 s3 holds_def Let_def split: if_splits)
  show "opens (SPI_destroy sys d w') = opens w"
    using h holds_closed [OF h] tracks_simps(2) [OF tr] by (auto simp: SPI_destroy_def holds_def)
qed

subsection \<open>Registers\<close>

text \<open>
  What the data sheet of an I2C device with registers says: two bytes write a register, one byte selects it, and a
  read delivers the selected register.
\<close>

definition registers :: "'w os_calls \<Rightarrow> int \<Rightarrow> ('w \<Rightarrow> byte \<Rightarrow> byte) \<Rightarrow> ('w \<Rightarrow> byte) \<Rightarrow> bool" where
  "registers sys fd regs selected \<longleftrightarrow>
     (\<forall>r v w. fst (os_write sys fd [r, v] w) = 2 \<and> regs (snd (os_write sys fd [r, v] w)) = (regs w)(r := v)) \<and>
     (\<forall>r w. fst (os_write sys fd [r] w) = 1 \<and> regs (snd (os_write sys fd [r] w)) = regs w \<and>
        selected (snd (os_write sys fd [r] w)) = r) \<and>
     (\<forall>w. fst (os_read sys fd 1 w) = (1, [regs w (selected w)]) \<and> regs (snd (os_read sys fd 1 w)) = regs w)"

text \<open>A register reads back what was written to it. On an open device with registers, \<open>writeReg\<close> reports two bytes,
  \<open>readReg\<close> of the same register then yields the value written, \<open>readReg\<close> of any other register what it held
  before, as a number from 0 to 255 that cannot be mistaken for the error value, and reading changes no
  register.\<close>
theorem register_roundtrip:
  assumes "registers sys (i2_fd d) regs selected" and "I2C_isOpen d"
  shows "\<exists>w1 w2. I2C_writeReg sys d r v w = (2, w1) \<and>
    I2C_readReg sys d r' w1 = Some (uint (if r' = r then v else regs w r'), w2) \<and> regs w2 = (regs w)(r := v) \<and>
    0 \<le> uint (if r' = r then v else regs w r') \<and> uint (if r' = r then v else regs w r') \<le> 255"
proof -
  have fd: "i2_fd d \<noteq> -1" using assms(2) by (simp add: I2C_isOpen_def)
  obtain w1 where 1: "os_write sys (i2_fd d) [r, v] w = (2, w1)" "regs w1 = (regs w)(r := v)"
    using assms(1) by (simp add: registers_def prod_eq_iff)
  obtain w2 where 2: "os_write sys (i2_fd d) [r'] w1 = (1, w2)" "regs w2 = regs w1" "selected w2 = r'"
    using assms(1) by (simp add: registers_def prod_eq_iff)
  obtain w3 where 3: "os_read sys (i2_fd d) 1 w2 = ((1, [regs w2 r']), w3)" "regs w3 = regs w2"
    using assms(1) 2(3) by (simp add: registers_def prod_eq_iff)
  have "I2C_writeReg sys d r v w = (2, w1)" using fd 1(1) by (simp add: I2C_writeReg_def I2C_writeBytes_def)
  moreover have "I2C_readReg sys d r' w1 = Some (uint (regs w2 r'), w3)"
    using fd 2(1) 3(1) by (simp add: I2C_readReg_def I2C_writeByte_def I2C_readByte_def rd_def)
  moreover have "regs w2 r' = (if r' = r then v else regs w r')" using 1(2) 2(2) by simp
  moreover have "regs w3 = (regs w)(r := v)" using 1(2) 2(2) 3(2) by simp
  moreover have "0 \<le> uint b \<and> uint b \<le> 255" for b :: byte using uint_bounded [of b] by simp
  ultimately show ?thesis by (intro exI [of _ w1] exI [of _ w3]) simp
qed

subsection \<open>Closed devices\<close>

text \<open>
  The guarded methods of UART and I2C fail without touching the world; those of SPI have no value to return, and
  \<open>readLine\<close>, \<open>available\<close> and \<open>setAddress\<close> pass the descriptor -1 to the system.
\<close>

lemma closed_uart:
  assumes "\<not> UART_isOpen u"
  shows "UART_write sys u data w = (-1, w)" "UART_writeString sys u data w = (-1, w)"
    "UART_read sys u len w = ((-1, []), w)" "UART_destroy sys u w = w"
    "UART_readLine sys u delimiter w = readLine_loop sys (-1) delimiter [] w"
  using assms
  by (simp_all add: UART_isOpen_def UART_write_def UART_writeString_def UART_read_def UART_destroy_def UART_readLine_def)

lemma closed_i2c:
  assumes "\<not> I2C_isOpen d"
  shows "I2C_writeByte sys d v w = (-1, w)" "I2C_writeBytes sys d data w = (-1, w)" "I2C_writeReg sys d r v w = (-1, w)"
    "I2C_readByte sys d w = Some (-1, w)" "I2C_readBytes sys d len w = ((-1, []), w)"
    "I2C_readReg sys d r w = Some (-1, w)" "I2C_readRegBytes sys d r len w = ((-1, []), w)" "I2C_destroy sys d w = w"
  using assms
  by (simp_all add: I2C_isOpen_def I2C_writeByte_def I2C_writeBytes_def I2C_writeReg_def I2C_readByte_def
      I2C_readBytes_def I2C_readReg_def I2C_readRegBytes_def I2C_destroy_def)

lemma closed_spi:
  assumes "\<not> SPI_isOpen d"
  shows "SPI_transfer sys d data w = None" "SPI_write sys d data w = None" "SPI_read sys d len w = None"
    "SPI_writeThenRead sys d data len w = None" "SPI_destroy sys d w = w"
  using assms
  by (simp_all add: SPI_isOpen_def SPI_transfer_def SPI_write_def SPI_read_def SPI_writeThenRead_def SPI_destroy_def)

text \<open>\<open>setAddress\<close> does not look whether the device is open: on a closed one its ioctl and its close get -1. And it returns no value.\<close>

lemma setAddress_closed:
  assumes "\<not> I2C_isOpen d" and "os_i2c_slave sys (-1) addr w = (-1, w')"
  shows "I2C_setAddress_body sys d addr w = (d\<lparr>i2_address := addr\<rparr>, os_close sys (-1) w')"
  using assms by (simp add: I2C_isOpen_def I2C_setAddress_body_def)

lemma setAddress_undefined: "I2C_setAddress sys d addr w = None"
  by (simp add: I2C_setAddress_def case_prod_beta Let_def)

subsection \<open>Examples\<close>

text \<open>A device that is open or not, with one register and bytes to be read.\<close>

record demo_world =
  dw_open :: bool
  dw_input :: "byte list"
  dw_regs :: "byte \<Rightarrow> byte"
  dw_selected :: byte

definition demo_calls :: "demo_world os_calls" where
  "demo_calls = \<lparr>
     os_open = (\<lambda>_ _ w. if dw_open w then (-1, w) else (3, w\<lparr>dw_open := True\<rparr>)),
     os_close = (\<lambda>fd w. if fd = 3 then w\<lparr>dw_open := False\<rparr> else w),
     os_read = (\<lambda>fd len w. if fd = 4 then ((1, [dw_regs w (dw_selected w)]), w)
       else ((int (length (take len (dw_input w))), take len (dw_input w)), w\<lparr>dw_input := drop len (dw_input w)\<rparr>)),
     os_write = (\<lambda>_ bs w. (int (length bs),
       case bs of [r] \<Rightarrow> w\<lparr>dw_selected := r\<rparr> | [r, v] \<Rightarrow> w\<lparr>dw_regs := (dw_regs w)(r := v)\<rparr> | _ \<Rightarrow> w)),
     os_tcgetattr = (\<lambda>_ w. (None, w)), os_tcsetattr = (\<lambda>_ _ w. w), os_tcflush = (\<lambda>_ w. w),
     os_fionread = (\<lambda>_ w. (Some (int (length (dw_input w))), w)), os_i2c_slave = (\<lambda>_ _ w. (0, w)),
     os_spi_mode = (\<lambda>_ _ w. (0, w)), os_spi_bits = (\<lambda>_ _ w. (0, w)), os_spi_speed = (\<lambda>_ _ w. (-1, w)),
     os_spi_message = (\<lambda>_ tr w. ((int (length (tr_tx tr)), tr_tx tr), w))\<rparr>"

definition demo_start :: demo_world where
  "demo_start = \<lparr>dw_open = False, dw_input = [72, 105, 10, 33], dw_regs = (\<lambda>_. 0), dw_selected = 0\<rparr>"

definition demo_opens :: "demo_world \<Rightarrow> int set" where
  "demo_opens w = (if dw_open w then {3} else {})"

lemma demo_tracks: "tracks demo_calls demo_opens"
  by (simp add: tracks_def demo_calls_def demo_opens_def split: list.splits)

theorem readLine_reads_line_witness:
  "\<exists>w'. UART_readLine demo_calls \<lparr>ua_fd = 3\<rparr> 10 demo_start = Some ([72, 105], w') \<and> dw_input w' = [33]"
proof -
  have "delivers demo_calls (ua_fd \<lparr>ua_fd = 3\<rparr>) dw_input"
    by (simp add: delivers_def demo_calls_def split: list.splits)
  from readLine_reads_line [OF this, of 10 demo_start] show ?thesis by (simp add: demo_start_def)
qed

theorem i2c_releases_device_witness:
  "\<exists>d w1 w2. I2C (logged demo_calls) ''/dev/i2c-1'' 72 (demo_start, []) = (d, w1) \<and> demo_opens (fst w1) = {3} \<and>
    foldM (i2c_call (logged demo_calls)) [Write_Reg 1 171, Read_Byte] (d, w1) = Some (d, w2) \<and>
    demo_opens (fst (I2C_destroy (logged demo_calls) d w2)) = {}"
proof -
  let ?w1 = "(demo_start\<lparr>dw_open := True\<rparr>, [Opened 3])"
  have r: "I2C (logged demo_calls) ''/dev/i2c-1'' 72 (demo_start, []) = (\<lparr>i2_fd = 3, i2_address = 72\<rparr>, ?w1)"
    by (simp add: I2C_def demo_calls_def demo_start_def logged_def beside_def)
  have "demo_opens demo_start = {}" "demo_opens (fst ?w1) = {3}" by (simp_all add: demo_opens_def demo_start_def)
  moreover have "\<not> (\<exists>a. Set_Address a \<in> set [Write_Reg 1 171, Read_Byte])" by simp
  ultimately show ?thesis
    using i2c_releases_device [OF logged_tracks [OF demo_tracks] logged_logs r, of "[Write_Reg 1 171, Read_Byte]"] r
    by (metis fst_conv)
qed

theorem register_roundtrip_witness:
  "\<exists>w1 w2. I2C_writeReg demo_calls \<lparr>i2_fd = 4, i2_address = 72\<rparr> 1 171 demo_start = (2, w1) \<and>
    I2C_readReg demo_calls \<lparr>i2_fd = 4, i2_address = 72\<rparr> 1 w1 = Some (171, w2)"
proof -
  have "registers demo_calls (i2_fd \<lparr>i2_fd = 4, i2_address = 72\<rparr>) dw_regs dw_selected"
    by (simp add: registers_def demo_calls_def)
  from register_roundtrip [OF this, of 1 171 demo_start 1] show ?thesis by (auto simp: I2C_isOpen_def)
qed

end
