(* ===== verification/Scheduling_Programs.thy ===== *)
theory Scheduling_Programs
  imports Scheduling Deadlock_Handling Banker
begin

section \<open>The main programs of the schedulers (d5) and of the deadlock exercises (d14)\<close>

text \<open>
  The \<open>main\<close> functions of \<open>sjf_scheduling.c\<close>, \<open>priority_scheduling.c\<close> and \<open>round_robin_scheduling.c\<close> with the jobs they schedule: the
  result is the table they print. The fields that the initialisers leave out are 0. Then the \<open>main\<close> of \<open>recoverFromDeadlock.c\<close>, and
  what \<open>printSystemState\<close> of \<open>Banker_algorithm.c\<close> prints.
\<close>

subsection \<open>The tables of the three schedulers\<close>

definition job :: "int \<Rightarrow> int \<Rightarrow> int \<Rightarrow> process" where
  "job pid arrival burst =
     \<lparr>process_id = pid, arrival_time = arrival, burst_time = burst, waiting_time = 0, turnaround_time = 0\<rparr>"

definition sjf_main :: "process list option" where
  "sjf_main = (let processes = [job 1 0 10, job 2 1 5, job 3 3 8] in sjf_scheduling processes (length processes))"

definition priority_main :: "prio_process list option" where
  "priority_main =
     (let processes = [process.extend (job 1 0 10) \<lparr>pr_priority = 3\<rparr>, process.extend (job 2 1 5) \<lparr>pr_priority = 1\<rparr>,
        process.extend (job 3 3 8) \<lparr>pr_priority = 2\<rparr>]
      in priority_scheduling processes (length processes))"

definition round_robin_main :: "rr_process list option" where
  "round_robin_main =
     (let processes = [process.extend (job 1 0 10) \<lparr>remaining_time = 10\<rparr>, process.extend (job 2 1 5) \<lparr>remaining_time = 5\<rparr>,
        process.extend (job 3 3 8) \<lparr>remaining_time = 8\<rparr>]
      in round_robin_scheduling processes (length processes))"

text \<open>
  Identifier, waiting time and turnaround time of the rows. Shortest job first and priority scheduling run the jobs in
  the same order; the priority scheduler reports each waiting time too large by the burst.
\<close>

lemma sjf_main_table: "map_option (map (\<lambda>p. (process_id p, waiting_time p, turnaround_time p))) sjf_main =
    Some [(1, 13, 23), (2, 0, 5), (3, 3, 11)]"
  by code_simp

lemma priority_main_table: "map_option (map (\<lambda>p. (process_id p, waiting_time p, turnaround_time p))) priority_main =
    Some [(1, 23, 23), (2, 5, 5), (3, 11, 11)]"
  by code_simp

lemma round_robin_main_table: "map_option (map (\<lambda>p. (process_id p, waiting_time p, turnaround_time p))) round_robin_main =
    Some [(1, 13, 23), (2, 9, 14), (3, 10, 18)]"
  by code_simp

subsection \<open>A recovery with five processes (d14 recoverFromDeadlock.c)\<close>

text \<open>\<open>rand_values\<close> is the sequence \<open>rand\<close> returns, \<open>dr\<close> what was in the local variable before.\<close>

definition recovery_main :: "(nat \<Rightarrow> int) \<Rightarrow> deadlock_recovery \<Rightarrow> deadlock_recovery option" where
  "recovery_main rand_values dr = do {
     dr \<leftarrow> initializeRecovery rand_values dr 5 3;
     dr \<leftarrow> for_loop 0 3 (\<lambda>i dr. do {
       p \<leftarrow> rd (dr_processes dr) i;
       h \<leftarrow> wr (dr_resources_held p) i 1;
       ps \<leftarrow> wr (dr_processes dr) i (p\<lparr>dr_resources_held := h\<rparr>);
       Some (dr\<lparr>dr_processes := ps\<rparr>) }) dr;
     recoverFromDeadlock dr }"

lemma for_loop_wr_zero: "r \<le> length h \<Longrightarrow> for_loop 0 r (\<lambda>j h. wr h j 0) h = Some (replicate r (0 :: int) @ drop r h)"
  using for_loop_fill [of r h "\<lambda>_. 0"] by (simp add: map_replicate_const)

lemma initializeRecovery_ok:
  assumes "length (dr_processes dr) = MAX_PROCESSES" and "\<forall>p \<in> set (dr_processes dr). length (dr_resources_held p) = MAX_RESOURCES"
    and "p \<le> MAX_PROCESSES" and "r \<le> MAX_RESOURCES"
  shows "initializeRecovery rand dr p r = Some (dr\<lparr>dr_num_processes := p, dr_num_resources := r, dr_processes :=
    map (\<lambda>i. \<lparr>dr_pid = int i, dr_priority = c_mod (rand i) 10, dr_age = 0,
      dr_resources_held = replicate r 0 @ drop r (dr_resources_held (dr_processes dr ! i))\<rparr>) [0..<p] @ drop p (dr_processes dr)\<rparr>)"
proof -
  let ?new = "\<lambda>i. \<lparr>dr_pid = int i, dr_priority = c_mod (rand i) 10, dr_age = 0,
      dr_resources_held = replicate r 0 @ drop r (dr_resources_held (dr_processes dr ! i))\<rparr>"
  let ?dr = "dr\<lparr>dr_num_processes := p, dr_num_resources := r\<rparr>"
  let ?body = "\<lambda>i dr. do {
       p \<leftarrow> rd (dr_processes dr) i;
       held \<leftarrow> for_loop 0 r (\<lambda>j h. wr h j 0) (dr_resources_held p);
       ps \<leftarrow> wr (dr_processes dr) i \<lparr>dr_pid = int i, dr_priority = c_mod (rand i) 10, dr_age = 0, dr_resources_held = held\<rparr>;
       Some (dr\<lparr>dr_processes := ps\<rparr>) }"
  have "for_loop 0 k ?body ?dr = Some (?dr\<lparr>dr_processes := map ?new [0..<k] @ drop k (dr_processes dr)\<rparr>)" if "k \<le> p" for k
    using that
  proof (induction k)
    case (Suc k)
    have k: "k < length (dr_processes dr)" using Suc.prems assms(1,3) by simp
    then have "length (dr_resources_held (dr_processes dr ! k)) = MAX_RESOURCES" using assms(2) by simp
    then have held: "for_loop 0 r (\<lambda>j h. wr h j 0) (dr_resources_held (dr_processes dr ! k)) =
        Some (replicate r 0 @ drop r (dr_resources_held (dr_processes dr ! k)))" using assms(4) by (simp add: for_loop_wr_zero)
    have "drop k (dr_processes dr) = dr_processes dr ! k # drop (Suc k) (dr_processes dr)" using k by (simp add: Cons_nth_drop_Suc)
    with Suc held k show ?case by (simp add: for_loop_Suc nth_append list_update_append)
  qed simp
  from this [of p] show ?thesis by (simp add: initializeRecovery_def)
qed

text \<open>
  The program always ends: the process with the smallest random priority, the first of several, loses what it holds, and the
  other four are aged by one.
\<close>

lemma recovery_main_ok:
  assumes "length (dr_processes dr) = MAX_PROCESSES" and "\<forall>p \<in> set (dr_processes dr). length (dr_resources_held p) = MAX_RESOURCES"
    and pos: "\<forall>i. 0 \<le> rand_values i"
  shows "\<exists>dr' v. recovery_main rand_values dr = Some dr' \<and> v < 5 \<and> (\<forall>i < 5. rand_values v mod 10 \<le> rand_values i mod 10) \<and>
    (\<forall>j < 3. dr_resources_held (dr_processes dr' ! v) ! j = 0) \<and>
    (\<forall>i < 5. dr_age (dr_processes dr' ! i) = (if i = v then 0 else 1))"
proof -
  define new where "new i = \<lparr>dr_pid = int i, dr_priority = rand_values i mod 10, dr_age = 0,
      dr_resources_held = replicate 3 0 @ drop 3 (dr_resources_held (dr_processes dr ! i))\<rparr>" for i
  define hold where "hold k i = (if i < k then (new i)\<lparr>dr_resources_held := (dr_resources_held (new i))[i := 1]\<rparr> else new i)" for k i
  define start where "start k = dr\<lparr>dr_num_processes := 5, dr_num_resources := 3,
      dr_processes := map (hold k) [0..<5] @ drop 5 (dr_processes dr)\<rparr>" for k
  have len: "length (dr_resources_held (dr_processes dr ! i)) = 10" if "i < 10" for i
    using that assms(1,2) by (simp add: MAX_PROCESSES_def MAX_RESOURCES_def)
  have init: "initializeRecovery rand_values dr 5 3 = Some (start 0)"
    using initializeRecovery_ok [OF assms(1,2), of 5 3 rand_values] pos
    by (simp add: MAX_PROCESSES_def MAX_RESOURCES_def start_def hold_def new_def c_mod_nonneg)
  have step: "do { p \<leftarrow> rd (dr_processes (start k)) k; h \<leftarrow> wr (dr_resources_held p) k 1;
       ps \<leftarrow> wr (dr_processes (start k)) k (p\<lparr>dr_resources_held := h\<rparr>); Some ((start k)\<lparr>dr_processes := ps\<rparr>) } = Some (start (Suc k))"
    if "k < 3" for k
  proof -
    have "(map (hold k) [0..<5])[k := (new k)\<lparr>dr_resources_held := (dr_resources_held (new k))[k := 1]\<rparr>] = map (hold (Suc k)) [0..<5]"
      using that by (auto intro!: nth_equalityI simp: nth_list_update hold_def)
    moreover have "length (dr_resources_held (new k)) = 10" using len [of k] that by (simp add: new_def)
    ultimately show ?thesis using that by (simp add: start_def nth_append hold_def list_update_append)
  qed
  have "for_loop 0 k (\<lambda>i dr. do { p \<leftarrow> rd (dr_processes dr) i; h \<leftarrow> wr (dr_resources_held p) i 1;
       ps \<leftarrow> wr (dr_processes dr) i (p\<lparr>dr_resources_held := h\<rparr>); Some (dr\<lparr>dr_processes := ps\<rparr>) }) (start 0) = Some (start k)"
    if "k \<le> 3" for k using that by (induction k) (simp_all add: for_loop_Suc step)
  from this [of 3] have run: "recovery_main rand_values dr = recoverFromDeadlock (start 3)"
    by (simp add: recovery_main_def init)
  have at: "dr_processes (start 3) ! i = hold 3 i" if "i < 5" for i using that by (simp add: start_def nth_append)
  have fields: "dr_priority (hold 3 i) = rand_values i mod 10" "dr_age (hold 3 i) = 0" "length (dr_resources_held (hold 3 i)) = 10"
    if "i < 5" for i using that len [of i] by (simp_all add: hold_def new_def)
  have ok: "dr_ok (start 3)" using assms(1) fields at
    by (auto simp: dr_ok_def MAX_PROCESSES_def MAX_RESOURCES_def INT_MAX_def) (simp_all add: start_def)
  have n: "dr_num_processes (start 3) = 5" "dr_num_resources (start 3) = 3" by (simp_all add: start_def)
  obtain v where v: "is_victim (start 3) v" using selectVictim_spec [OF ok] n by auto
  have least: "v < 5" "\<forall>i < 5. rand_values v mod 10 \<le> rand_values i mod 10"
    using v n fields at by (auto simp: is_victim_def dr_effective_def c_div_def)
  have held: "0 \<le> dr_resources_held (hold 3 v) ! j" if "j < 3" for j
    using that by (auto simp: hold_def new_def nth_list_update nth_append)
  show ?thesis
    unfolding run recoverFromDeadlock_spec [OF ok v] n
    using least fields at held by (intro exI conjI) (auto simp: nth_append recovered_def released_def n Let_def intro: antisym)
qed

subsection \<open>Printing the state of the bank (d14 Banker\_algorithm.c)\<close>

text \<open>One of the three nested loops: the numbers printed, line by line.\<close>

definition print_matrix :: "int list list \<Rightarrow> nat \<Rightarrow> nat \<Rightarrow> int list list option" where
  "print_matrix m processes resources = for_loop 0 processes (\<lambda>i out. do {
     line \<leftarrow> for_loop 0 resources (\<lambda>j line. do { x \<leftarrow> rd2 m i j; Some (line @ [x]) }) [];
     Some (out @ [line]) }) []"

definition printSystemState :: "banker_system \<Rightarrow> (int list list \<times> int list list \<times> int list list \<times> int list) option" where
  "printSystemState bs = do {
     a \<leftarrow> print_matrix (bs_allocation bs) (bs_processes bs) (bs_resources bs);
     m \<leftarrow> print_matrix (bs_max bs) (bs_processes bs) (bs_resources bs);
     n \<leftarrow> print_matrix (bs_need bs) (bs_processes bs) (bs_resources bs);
     v \<leftarrow> for_loop 0 (bs_resources bs) (\<lambda>i line. do { x \<leftarrow> rd (bs_available bs) i; Some (line @ [x]) }) [];
     Some (a, m, n, v) }"

lemma for_loop_collect:
  "(\<And>i. i < n \<Longrightarrow> f i = Some (g i)) \<Longrightarrow> for_loop 0 n (\<lambda>i out. do { x \<leftarrow> f i; Some (out @ [x]) }) [] = Some (map g [0..<n])"
  by (induction n) (simp_all add: for_loop_Suc)

lemma map_nth_take: "n \<le> length xs \<Longrightarrow> map (\<lambda>i. f (xs ! i)) [0..<n] = map f (take n xs)"
  by (auto intro: nth_equalityI)

lemma print_matrix_eq:
  assumes "p \<le> length m" and "\<forall>i < p. r \<le> length (m ! i)"
  shows "print_matrix m p r = Some (map (take r) (take p m))"
proof -
  have "for_loop 0 r (\<lambda>j line. do { x \<leftarrow> rd2 m i j; Some (line @ [x]) }) [] = Some (take r (m ! i))" if "i < p" for i
  proof -
    have "rd2 m i j = Some (m ! i ! j)" if "j < r" for j using \<open>i < p\<close> that assms less_le_trans by (intro rd2_Some) blast+
    then show ?thesis using for_loop_collect [of r "rd2 m i" "\<lambda>j. m ! i ! j"] map_nth_take [of r "m ! i" "\<lambda>x. x"] that assms(2)
      by simp
  qed
  then have "print_matrix m p r = Some (map (\<lambda>i. take r (m ! i)) [0..<p])"
    unfolding print_matrix_def by (rule for_loop_collect)
  also have "map (\<lambda>i. take r (m ! i)) [0..<p] = map (take r) (take p m)"
    by (rule map_nth_take [OF assms(1)])
  finally show ?thesis .
qed

text \<open>On a system of the right shape every read is in bounds, and the parts in use are printed.\<close>

lemma printSystemState_eq:
  assumes "bs_shape bs"
  shows "printSystemState bs = Some (map (take (bs_resources bs)) (take (bs_processes bs) (bs_allocation bs)),
    map (take (bs_resources bs)) (take (bs_processes bs) (bs_max bs)),
    map (take (bs_resources bs)) (take (bs_processes bs) (bs_need bs)), take (bs_resources bs) (bs_available bs))"
proof -
  have "for_loop 0 (bs_resources bs) (\<lambda>i line. do { x \<leftarrow> rd (bs_available bs) i; Some (line @ [x]) }) [] =
      Some (take (bs_resources bs) (bs_available bs))"
    using for_loop_collect [of "bs_resources bs" "rd (bs_available bs)" "\<lambda>i. bs_available bs ! i"] map_nth_take [of _ "bs_available bs" "\<lambda>x. x"] assms
    by (simp add: bs_shape_def)
  with assms show ?thesis by (simp add: printSystemState_def print_matrix_eq bs_shape_def)
qed

end
