(* ===== verification/Memory_Programs.thy ===== *)
theory Memory_Programs
  imports Address_Translation Memory_Hierarchy
begin

section \<open>The main programs of the memory exercises\<close>

text \<open>
  The \<open>main\<close> functions that drive the components with a number of accesses. What \<open>rand\<close> returns is a sequence of
  nonnegative numbers, the parameter \<open>rands\<close>.
\<close>

subsection \<open>A hundred virtual addresses (d15 Virtual\_Memory.c)\<close>

text \<open>The lines printed: virtual and physical address of the accesses that return a pointer.\<close>

definition vm_main :: "(nat \<Rightarrow> int) \<Rightarrow> (vm_page_table \<times> physical_memory \<times> (int \<times> int) list) option" where
  "vm_main rands = for_loop 0 100 (\<lambda>i (pt, pm, out). do {
     let virtual_address = c_mod (rands i) (int NUM_PAGES * VM_PAGE_SIZE);
     (pt, pm, r) \<leftarrow> vm_accessMemory pt pm virtual_address;
     Some (pt, pm, case r of Some a \<Rightarrow> out @ [(virtual_address, a)] | None \<Rightarrow> out) })
     (initializePageTable, initializePhysicalMemory, [])"

text \<open>An access takes at most one frame.\<close>

lemma vm_access_frames:
  assumes "frames_ok pm" and "vm_accessMemory pt pm va = Some (pt', pm', r)"
  shows "pm_num_frames pm' = pm_num_frames pm \<and> (\<exists>i. frames_used pm' \<subseteq> insert i (frames_used pm))"
  using assms(1)
proof (cases rule: allocateFrame_cases)
  case full
  then show ?thesis using assms(2)
    by (auto simp: vm_accessMemory_def Let_def bind_eq_Some_conv split: if_splits)
next
  case (frame pm' i)
  then show ?thesis using assms(2)
    by (auto simp: vm_accessMemory_def Let_def bind_eq_Some_conv split: if_splits)
qed

text \<open>What holds after \<open>n\<close> accesses.\<close>

definition vm_main_inv :: "(nat \<Rightarrow> int) \<Rightarrow> nat \<Rightarrow> vm_page_table \<times> physical_memory \<times> (int \<times> int) list \<Rightarrow> bool" where
  "vm_main_inv rands n = (\<lambda>(pt, pm, out). vm_inv pt pm \<and> pm_num_frames pm = NUM_FRAMES \<and> card (frames_used pm) \<le> n \<and>
     map fst out = map (\<lambda>i. rands i mod (int NUM_PAGES * VM_PAGE_SIZE)) [0..<n] \<and>
     (\<forall>(v, a) \<in> set out. 0 \<le> v \<and> v < int NUM_PAGES * VM_PAGE_SIZE \<and> vm_maps pt v = Some a))"

lemma vm_main_inv_start: "vm_main_inv rands 0 (initializePageTable, initializePhysicalMemory, [])"
proof -
  have "frames_used initializePhysicalMemory = {}" by (auto simp: frames_used_def initializePhysicalMemory_def)
  then show ?thesis using vm_inv_init by (simp add: vm_main_inv_def initializePhysicalMemory_def)
qed

lemma vm_main_step:
  assumes inv: "vm_main_inv rands n (pt, pm, out)" and n: "n < 100" and r: "0 \<le> rands n"
  shows "\<exists>pt' pm' a. vm_accessMemory pt pm (rands n mod (int NUM_PAGES * VM_PAGE_SIZE)) = Some (pt', pm', Some a) \<and>
    vm_main_inv rands (Suc n) (pt', pm', out @ [(rands n mod (int NUM_PAGES * VM_PAGE_SIZE), a)])"
proof -
  let ?va = "rands n mod (int NUM_PAGES * VM_PAGE_SIZE)"
  have va: "0 \<le> ?va" "?va < int NUM_PAGES * VM_PAGE_SIZE" by (simp_all add: NUM_PAGES_def VM_PAGE_SIZE_def)
  have i: "vm_inv pt pm" "pm_num_frames pm = NUM_FRAMES" "card (frames_used pm) \<le> n"
    and out: "map fst out = map (\<lambda>i. rands i mod (int NUM_PAGES * VM_PAGE_SIZE)) [0..<n]"
    and old: "\<And>v a. (v, a) \<in> set out \<Longrightarrow> 0 \<le> v \<and> v < int NUM_PAGES * VM_PAGE_SIZE \<and> vm_maps pt v = Some a"
    using inv by (auto simp: vm_main_inv_def)
  have fin: "finite (frames_used pm)" by (simp add: frames_used_def)
  have room: "frames_used pm \<noteq> {..<pm_num_frames pm}"
  proof
    assume "frames_used pm = {..<pm_num_frames pm}"
    then have "card (frames_used pm) = 256" using i(2) by (simp add: NUM_FRAMES_def)
    with i(3) n show False by simp
  qed
  from vm_access_cases [OF i(1) va(1)] obtain pt' pm' r where
    acc: "vm_accessMemory pt pm ?va = Some (pt', pm', r)" "vm_inv pt' pm'"
      "case r of None \<Rightarrow> pt' = pt \<and> pm' = pm \<and> (int NUM_PAGES * VM_PAGE_SIZE \<le> ?va \<or> frames_used pm = {..<pm_num_frames pm})
        | Some a \<Rightarrow> vm_maps pt' ?va = Some a"
    and keep: "\<forall>p < NUM_PAGES. pte_valid (pt_entries pt ! p) \<noteq> 0 \<longrightarrow> pt_entries pt' ! p = pt_entries pt ! p" by blast
  then obtain a where a: "r = Some a" "vm_maps pt' ?va = Some a" using va(2) room by (cases r) auto
  have fr: "frames_ok pm" using i(1) by (simp add: vm_inv_def)
  from vm_access_frames [OF fr acc(1)] obtain f
    where f: "pm_num_frames pm' = NUM_FRAMES" "frames_used pm' \<subseteq> insert f (frames_used pm)" using i(2) by auto
  have "card (frames_used pm') \<le> card (insert f (frames_used pm))" using f(2) fin by (simp add: card_mono)
  with i(3) fin have card: "card (frames_used pm') \<le> Suc n" by (simp add: card_insert_if split: if_splits)
  have kept: "vm_maps pt' v = Some b" if "(v, b) \<in> set out" for v b
    using keep vm_page_index(1) [of v] old [OF that] by (auto simp: vm_maps_def Let_def split: if_splits)
  have "\<forall>(v, a) \<in> set (out @ [(?va, a)]). 0 \<le> v \<and> v < int NUM_PAGES * VM_PAGE_SIZE \<and> vm_maps pt' v = Some a"
    using kept old a(2) va by fastforce
  with acc(2) card f(1) out have "vm_main_inv rands (Suc n) (pt', pm', out @ [(?va, a)])"
    by (simp add: vm_main_inv_def)
  with acc(1) a(1) show ?thesis by blast
qed

text \<open>
  The hundred accesses never run out of the 256 frames: every one of them gets an address, and equal virtual
  addresses get equal physical ones, different virtual addresses different ones.
\<close>

lemma vm_main_ok:
  assumes "\<forall>i. 0 \<le> rands i"
  shows "\<exists>pt pm out. vm_main rands = Some (pt, pm, out) \<and>
    map fst out = map (\<lambda>i. rands i mod (int NUM_PAGES * VM_PAGE_SIZE)) [0..<100] \<and>
    (\<forall>(v, a) \<in> set out. \<forall>(w, b) \<in> set out. v = w \<longleftrightarrow> a = b)"
proof -
  have step: "\<exists>s'. (case s of (pt, pm, out) \<Rightarrow> do {
      let virtual_address = c_mod (rands i) (int NUM_PAGES * VM_PAGE_SIZE);
      (pt, pm, r) \<leftarrow> vm_accessMemory pt pm virtual_address;
      Some (pt, pm, case r of Some a \<Rightarrow> out @ [(virtual_address, a)] | None \<Rightarrow> out) }) = Some s' \<and> vm_main_inv rands (Suc i) s'"
    if "i < 100" "vm_main_inv rands i s" for i s
  proof -
    obtain pt pm out where s: "s = (pt, pm, out)" by (cases s)
    have "c_mod (rands i) (int NUM_PAGES * VM_PAGE_SIZE) = rands i mod (int NUM_PAGES * VM_PAGE_SIZE)"
      using assms by (simp add: c_mod_nonneg NUM_PAGES_def VM_PAGE_SIZE_def)
    with vm_main_step [of rands i pt pm out] that assms s show ?thesis by (auto simp: Let_def)
  qed
  have "\<exists>s. vm_main rands = Some s \<and> vm_main_inv rands 100 s" unfolding vm_main_def
    by (rule for_loop_invar [where P = "vm_main_inv rands"]) (use vm_main_inv_start step in auto)
  then obtain pt pm out where run: "vm_main rands = Some (pt, pm, out)" and inv: "vm_main_inv rands 100 (pt, pm, out)" by auto
  have "v = w \<longleftrightarrow> a = b" if "(v, a) \<in> set out" "(w, b) \<in> set out" for v a w b
  proof -
    have "0 \<le> v" "v < int NUM_PAGES * VM_PAGE_SIZE" "vm_maps pt v = Some a" "0 \<le> w" "w < int NUM_PAGES * VM_PAGE_SIZE"
      "vm_maps pt w = Some b" "vm_inv pt pm" using inv that by (auto simp: vm_main_inv_def)
    then show ?thesis using vm_maps_inj [of pt pm v w a] by auto
  qed
  with run inv show ?thesis by (auto simp: vm_main_inv_def)
qed

subsection \<open>A thousand addresses through the cache (d15 Cache\_Memory\_Management.c)\<close>

definition cache_main :: "(nat \<Rightarrow> int) \<Rightarrow> cache option" where
  "cache_main rands = for_loop 0 1000 (\<lambda>i cache. do {
     let address = c_mod (rands i) (CACHE_SIZE * 4);
     (cache, found) \<leftarrow> accessCache cache address;
     Some cache }) initializeCache"

text \<open>An address lies in one of the first three sets.\<close>

definition below_last_set :: "int \<Rightarrow> bool" where
  "below_last_set a \<longleftrightarrow> a mod 1024 div 64 mod 4 \<noteq> 3"

lemma cache_access_counts:
  assumes inv: "cache_inv c" and addr: "0 \<le> address" and room: "ca_access_count c < INT_MAX"
  shows "if nat (address div 64 mod 4) = 3 then accessCache c address = None
    else \<exists>c' found. accessCache c address = Some (c', found) \<and> cache_inv c' \<and> ca_access_count c' = ca_access_count c + 1"
proof (cases "nat (address div 64 mod 4) = 3")
  case True
  then show ?thesis using inv by (simp add: accessCache_eq [OF inv addr room] rd_def cache_inv_def)
next
  case False
  define k where "k = nat (address div 64 mod 4)"
  have "k < 4" by (simp add: k_def nat_less_iff)
  with False have "Suc k < length (ca_lines c)" using inv by (simp add: cache_inv_def k_def)
  then obtain c' found where "accessCache c address = Some (c', found)" "cache_inv c'" "ca_access_count c' = ca_access_count c + 1"
    using accessCache_eq [OF inv addr room, folded k_def] inv by (simp add: cache_inv_def split: if_splits)
  with False show ?thesis by auto
qed

lemma cache_main_steps:
  assumes nonneg: "\<forall>i. 0 \<le> rands i" and "n \<le> 1000"
  shows "case for_loop 0 n (\<lambda>i cache. do { (cache, found) \<leftarrow> accessCache cache (c_mod (rands i) (CACHE_SIZE * 4)); Some cache })
      initializeCache of
    None \<Rightarrow> \<exists>i < n. \<not> below_last_set (rands i)
  | Some c \<Rightarrow> (\<forall>i < n. below_last_set (rands i)) \<and> cache_inv c \<and> ca_access_count c = int n"
  using assms(2)
proof (induction n)
  case 0
  then show ?case using cache_inv_init by (simp add: initializeCache_def)
next
  case (Suc n)
  let ?loop = "for_loop 0 n (\<lambda>i cache. do { (cache, found) \<leftarrow> accessCache cache (c_mod (rands i) (CACHE_SIZE * 4)); Some cache })
      initializeCache"
  show ?case
  proof (cases ?loop)
    case None
    with Suc show ?thesis by (auto simp: for_loop_Suc less_Suc_eq)
  next
    case (Some c)
    with Suc have c: "\<forall>i < n. below_last_set (rands i)" "cache_inv c" "ca_access_count c = int n" by simp_all
    have a: "c_mod (rands n) (CACHE_SIZE * 4) = rands n mod 1024" using nonneg by (simp add: c_mod_nonneg CACHE_SIZE_def)
    have lt: "ca_access_count c < INT_MAX" using c(3) Suc.prems by (simp add: INT_MAX_def)
    have pos: "0 \<le> rands n mod 1024" by simp
    have three: "nat (rands n mod 1024 div 64 mod 4) = 3 \<longleftrightarrow> \<not> below_last_set (rands n)"
      by (simp add: below_last_set_def nat_eq_iff)
    note step = cache_access_counts [OF c(2) pos lt, unfolded three]
    show ?thesis
    proof (cases "below_last_set (rands n)")
      case True
      with step c(3) obtain c' found where "accessCache c (rands n mod 1024) = Some (c', found)" "cache_inv c'"
        "ca_access_count c' = int n + 1" by auto
      with Some True c(1) a show ?thesis by (simp add: for_loop_Suc less_Suc_eq)
    next
      case False
      with step Some a show ?thesis by (simp add: for_loop_Suc) blast
    qed
  qed
qed

text \<open>The program runs to its end exactly when no address falls into the last set; then hits and misses make up a thousand.\<close>

lemma cache_main_runs:
  assumes "\<forall>i. 0 \<le> rands i"
  shows "case cache_main rands of
    None \<Rightarrow> \<exists>i < 1000. \<not> below_last_set (rands i)
  | Some c \<Rightarrow> (\<forall>i < 1000. below_last_set (rands i)) \<and> ca_hits c + ca_misses c = 1000"
proof -
  have "cache_main rands = for_loop 0 1000 (\<lambda>i cache. do { (cache, found) \<leftarrow> accessCache cache (c_mod (rands i) (CACHE_SIZE * 4)); Some cache })
      initializeCache" by (simp add: cache_main_def Let_def)
  with cache_main_steps [OF assms, of 1000] show ?thesis by (auto simp: cache_inv_def split: option.splits)
qed

subsection \<open>A thousand addresses through the hierarchy (d15 Memory\_Hierarchy.c)\<close>

text \<open>The structure is a local variable, so its contents (\<open>mh\<close>) are whatever was there.\<close>

definition mh_main :: "memory_hierarchy \<Rightarrow> (nat \<Rightarrow> int) \<Rightarrow> (memory_hierarchy \<times> int) option" where
  "mh_main mh rands = do {
     mh \<leftarrow> initializeMemory mh;
     for_loop 0 1000 (\<lambda>i (mh, total_time). do {
       let address = c_mod (rands (2 * i)) (int VIRTUAL_MEMORY_SIZE);
       let data = c_mod (rands (2 * i + 1)) 1000;
       (mh, t) \<leftarrow> mh_accessMemory mh address data;
       total_time \<leftarrow> chk (total_time + t);
       Some (mh, total_time) }) (mh, 0) }"

text \<open>What the accesses counted so far have cost.\<close>

definition mh_cost :: "memory_hierarchy \<Rightarrow> int" where
  "mh_cost mh = 10 * mh_l1_hits mh + 100 * (mh_l1_misses mh - mh_page_faults mh) + 1000 * mh_page_faults mh"

lemma mh_access_cost:
  assumes inv: "mh_inv mh" and a: "0 \<le> a" and room: "mh_accesses mh < INT_MAX"
  shows "\<exists>mh' t. mh_accessMemory mh a d = Some (mh', t) \<and> mh_inv mh' \<and> mh_accesses mh' = mh_accesses mh + 1 \<and>
    mh_cost mh' = mh_cost mh + t \<and> mh_page_faults mh' \<le> mh_page_faults mh + 1 \<and> 10 \<le> t \<and> t \<le> 1000"
proof -
  note iv = mh_invD [OF inv] and fills = mh_inv_fill [OF inv a refl]
  have i: "nat (a mod 32) < 32" "nat (a mod 32) < 256" "nat (a mod 256) < 256" "nat (a mod 1024) < 1024" by (simp_all add: nat_less_iff)
  show ?thesis unfolding mh_access_eq [OF inv a room] using iv(13)
    by (cases "holds (mh_l1_cache mh ! nat (a mod 32)) a"; cases "holds (mh_l2_cache mh ! nat (a mod 256)) a";
        cases "holds (mh_main_memory mh ! nat (a mod 1024)) a")
      (simp_all add: mh_inv_def mh_accesses_def mh_cost_def Let_def iv(1-12) fills i)
qed

text \<open>
  The program runs to its end, the time it reports is ten cycles for every first-level hit, a thousand for every page fault and
  a hundred for the other accesses.
\<close>

lemma mh_main_time:
  assumes "\<forall>i. 0 \<le> rands i" and "length (mh_l1_cache mh) = CACHE_L1_SIZE" and "length (mh_l2_cache mh) = CACHE_L2_SIZE"
    and "length (mh_main_memory mh) = MAIN_MEMORY_SIZE" and "length (mh_virtual_memory mh) = VIRTUAL_MEMORY_SIZE"
  shows "\<exists>mh' total. mh_main mh rands = Some (mh', total) \<and> mh_inv mh' \<and> mh_l1_hits mh' + mh_l1_misses mh' = 1000 \<and>
    total = 10 * mh_l1_hits mh' + 100 * (mh_l1_misses mh' - mh_page_faults mh') + 1000 * mh_page_faults mh'"
proof -
  let ?P = "\<lambda>n (mh, total). mh_inv mh \<and> mh_accesses mh = int n \<and> total = mh_cost mh \<and> 0 \<le> total \<and> total \<le> 1000 * int n"
  from initializeMemory_ok assms(2-5) obtain mh0 where
    mh0: "initializeMemory mh = Some mh0" "mh_inv mh0" "mh_accesses mh0 = 0"
    by (auto simp: CACHE_L1_SIZE_def CACHE_L2_SIZE_def MAIN_MEMORY_SIZE_def VIRTUAL_MEMORY_SIZE_def)
  have cost: "mh_cost mh0 = 0" using mh0(3) mh_invD(9-13) [OF mh0(2)] by (simp add: mh_accesses_def mh_cost_def)
  have step: "\<exists>s'. (case s of (mh, total_time) \<Rightarrow> do {
       let address = c_mod (rands (2 * i)) (int VIRTUAL_MEMORY_SIZE);
       let data = c_mod (rands (2 * i + 1)) 1000;
       (mh, t) \<leftarrow> mh_accessMemory mh address data;
       total_time \<leftarrow> chk (total_time + t);
       Some (mh, total_time) }) = Some s' \<and> ?P (Suc i) s'" if "i < 1000" "?P i s" for i s
  proof -
    obtain m total where s: "s = (m, total)" by (cases s)
    have m: "mh_inv m" "mh_accesses m = int i" "total = mh_cost m" "0 \<le> total" "total \<le> 1000 * int i" using that(2) s by simp_all
    let ?a = "c_mod (rands (2 * i)) (int VIRTUAL_MEMORY_SIZE)"
    have a: "0 \<le> ?a" using assms(1) by (simp add: c_mod_nonneg VIRTUAL_MEMORY_SIZE_def)
    have room: "mh_accesses m < INT_MAX" using m(2) that(1) by (simp add: INT_MAX_def)
    from mh_access_cost [OF m(1) a room] obtain m' t where
      acc: "mh_accessMemory m ?a (c_mod (rands (2 * i + 1)) 1000) = Some (m', t)" "mh_inv m'" "mh_accesses m' = mh_accesses m + 1"
        "mh_cost m' = mh_cost m + t" "10 \<le> t" "t \<le> 1000" by blast
    have "int_ok (total + t)" using m(4,5) acc(5,6) that(1) by (intro int_okI) linarith+
    with s m acc show ?thesis by (simp add: Let_def)
  qed
  have "\<exists>s. mh_main mh rands = Some s \<and> ?P 1000 s"
    unfolding mh_main_def mh0(1) bind.bind_lunit
    by (rule for_loop_invar [where P = ?P]) (use mh0 cost step in auto)
  then show ?thesis by (auto simp: mh_accesses_def mh_cost_def)
qed

end
