(* ===== verification/Memory_Setups.thy ===== *)
theory Memory_Setups
  imports Segmentation Partition_Allocation Block_Pools
begin

section \<open>The main programs of the allocation exercises\<close>

text \<open>
  The \<open>main\<close> functions of \<open>memory_segmentation.c\<close> (d21), \<open>Memory_Allocation_Algo.c\<close> (d17, with the release of a manager) and
  \<open>Memory_Pool.c\<close> (d24): what they print, or why they have no defined execution.
\<close>

subsection \<open>Three segments (d21)\<close>

text \<open>The memory from \<open>malloc\<close>: the table's and the bytes' contents are parameters.\<close>

definition segmentation_main :: "segment_table \<Rightarrow> 8 word list \<Rightarrow> ((int \<times> int \<times> int) \<times> c_uint \<times> int \<times> int) option" where
  "segmentation_main table bytes = do {
     table \<leftarrow> initSegmentTable table;
     let memory = sg_initPhysicalMemory bytes;
     (table, code_segment) \<leftarrow> createSegment table 1024 (READ_PERMISSION OR EXEC_PERMISSION);
     (table, data_segment) \<leftarrow> createSegment table 2048 (READ_PERMISSION OR WRITE_PERMISSION);
     (table, stack_segment) \<leftarrow> createSegment table 4096 (READ_PERMISSION OR WRITE_PERMISSION);
     (table, code_at) \<leftarrow> allocateSegment table memory code_segment;
     (table, data_at) \<leftarrow> allocateSegment table memory data_segment;
     (table, stack_at) \<leftarrow> allocateSegment table memory stack_segment;
     let logical_addr = 100;
     physical_addr \<leftarrow> sg_translateAddress table (of_int data_segment) logical_addr;
     can_write \<leftarrow> checkAccess table (of_int data_segment) WRITE_PERMISSION;
     can_execute \<leftarrow> checkAccess table (of_int data_segment) EXEC_PERMISSION;
     Some ((code_at, data_at, stack_at), physical_addr, can_write, can_execute) }"

text \<open>Memory that starts with zero bytes: the first candidate is taken.\<close>

lemma place_segment_zero:
  assumes "length bytes = MAX_MEMORY_SIZE" and "zero_run bytes 0 (unat sz)" and "unat sz \<le> MAX_MEMORY_SIZE"
  shows "place_segment (sg_initPhysicalMemory bytes) sz 0 = Some (Some 0)"
proof -
  let ?m = "sg_initPhysicalMemory bytes"
  have m: "sm_memory ?m = bytes" "unat (sm_size ?m) = MAX_MEMORY_SIZE"
    by (simp_all add: sg_initPhysicalMemory_def MAX_MEMORY_SIZE_def)
  have "space_available ?m 0 sz = Some True"
    using space_available_eq [of 0 sz ?m] assms m by (simp add: MAX_MEMORY_SIZE_def)
  then show ?thesis using assms(3) m(2) by (subst place_segment.simps) (simp add: word_le_nat_alt)
qed

text \<open>
  In fresh memory (all zero, as the system hands it out) the three segments are all placed at address 0, on top of each
  other. The data segment can be written and not executed.
\<close>

lemma segmentation_main_overlaps:
  assumes "length (st_entries table) = MAX_SEGMENTS" and "length bytes = MAX_MEMORY_SIZE" and "\<forall>b \<in> set bytes. b = 0"
  shows "segmentation_main table bytes = Some ((0, 0, 0), 100, 1, 0)"
proof -
  let ?e = "\<lparr>sg_base_address = 0, sg_limit = 0, sg_protection_bits = 0, sg_valid = 0\<rparr>"
  have init: "initSegmentTable table = Some (table\<lparr>st_size := 0, st_entries := replicate 256 ?e\<rparr>)"
    using assms(1) by (simp add: initSegmentTable_def for_loop_fill map_replicate_const MAX_SEGMENTS_def)
  have zr: "zero_run bytes 0 n" if "n \<le> MAX_MEMORY_SIZE" for n using that assms(2,3) by (simp add: zero_run_def)
  have place: "place_segment (sg_initPhysicalMemory bytes) sz 0 = Some (Some 0)" if "unat sz \<le> MAX_MEMORY_SIZE" for sz
    by (rule place_segment_zero [OF assms(2) zr [OF that] that])
  have sizes: "unat (1024 :: c_uint) \<le> MAX_MEMORY_SIZE" "unat (2048 :: c_uint) \<le> MAX_MEMORY_SIZE" "unat (4096 :: c_uint) \<le> MAX_MEMORY_SIZE"
    by (simp_all add: MAX_MEMORY_SIZE_def)
  show ?thesis
    by (simp add: segmentation_main_def init createSegment_def MAX_SEGMENTS_def Let_def allocateSegment_def place [OF sizes(1)]
        place [OF sizes(2)] place [OF sizes(3)] rdi_def wri_def rd_def wr_def nth_list_update sg_translateAddress_def
        checkAccess_def READ_PERMISSION_def WRITE_PERMISSION_def EXEC_PERMISSION_def)
      (simp add: word_le_nat_alt)
qed

subsection \<open>One request to three managers (d17)\<close>

text \<open>
  \<open>freeMemoryManager\<close> releases the second block, if there is one, the first, and the manager. The result is the blocks
  that nobody points to any more; without a first block the test of \<open>manager->head->next\<close> dereferences null.
\<close>

definition freeMemoryManager :: "memory_manager \<Rightarrow> mblock list option" where
  "freeMemoryManager manager = (case mg_blocks manager of
     [] \<Rightarrow> None
   | head # rest \<Rightarrow> Some (if rest \<noteq> [] then tl rest else []))"

lemma freeMemoryManager_leaks: "mg_blocks m \<noteq> [] \<Longrightarrow> freeMemoryManager m = Some (drop 2 (mg_blocks m))"
  by (auto simp: freeMemoryManager_def drop_Suc split: list.splits)

definition PM_MAX_MEMORY_SIZE :: size_t where "PM_MAX_MEMORY_SIZE = 1024"

text \<open>The three addresses and the blocks that are lost at the end; \<open>rand_value\<close> is what \<open>rand\<close> returned.\<close>

definition allocation_main :: "nat \<Rightarrow> ((size_t \<times> size_t \<times> size_t) \<times> mblock list) option" where
  "allocation_main rand_value = (
     let manager1 = initMemoryManager PM_MAX_MEMORY_SIZE 1;
         manager2 = initMemoryManager PM_MAX_MEMORY_SIZE 2;
         manager3 = initMemoryManager PM_MAX_MEMORY_SIZE 3;
         memory_size = of_nat (rand_value mod unat (PM_MAX_MEMORY_SIZE div 4)) + MIN_PARTITION_SIZE;
         (manager1, addr1) = allocMemory manager1 memory_size;
         (manager2, addr2) = allocMemory manager2 memory_size;
         (manager3, addr3) = allocMemory manager3 memory_size
     in do {
       lost1 \<leftarrow> freeMemoryManager manager1;
       lost2 \<leftarrow> freeMemoryManager manager2;
       lost3 \<leftarrow> freeMemoryManager manager3;
       Some ((addr1, addr2, addr3), lost1 @ lost2 @ lost3) })"

text \<open>
  Every run allocates at address 0 in all three managers, which the program takes for failure (\<open>NULL\<close>): it never prints an
  address. Nothing is lost, since no manager has more than two blocks.
\<close>

lemma single_block_alloc:
  assumes "MIN_PARTITION_SIZE \<le> sz" and "sz < 1024" and s: "s = 1 \<or> s = 2 \<or> s = 3"
  shows "\<exists>m. allocMemory (initMemoryManager 1024 s) sz = (m, 0) \<and> mg_blocks m \<noteq> [] \<and> length (mg_blocks m) \<le> 2"
proof -
  have "0 < 1024 - sz" "1024 - sz < 1024" using assms(1,2) by (simp_all add: MIN_PARTITION_SIZE_def word_less_nat_alt word_le_nat_alt unat_sub_if')
  then have "firstFit (initMemoryManager 1024 s) sz = Some 0" "bestFit (initMemoryManager 1024 s) sz = Some 0"
    "worstFit (initMemoryManager 1024 s) sz = Some 0"
    using assms(2) by (simp_all add: firstFit_def bestFit_def worstFit_def initMemoryManager_def fits_def)
  with assms show ?thesis by (auto simp: allocMemory_def take_block_def Let_def) (auto simp: initMemoryManager_def)
qed

lemma allocation_main_null: "allocation_main rand_value = Some ((0, 0, 0), [])"
proof -
  let ?sz = "of_nat (rand_value mod 256) + MIN_PARTITION_SIZE :: size_t"
  have "unat (of_nat (rand_value mod 256) :: size_t) = rand_value mod 256" by (simp add: unat_of_nat)
  then have "unat ?sz = rand_value mod 256 + 64" by (simp add: unat_plus_if' MIN_PARTITION_SIZE_def)
  then have "MIN_PARTITION_SIZE \<le> ?sz" "?sz < 1024" by (simp_all add: word_le_nat_alt word_less_nat_alt MIN_PARTITION_SIZE_def)
  note alloc = single_block_alloc [OF this]
  obtain m1 where m1: "allocMemory (initMemoryManager 1024 1) ?sz = (m1, 0)" "mg_blocks m1 \<noteq> []" "length (mg_blocks m1) \<le> 2"
    using alloc [of 1] by auto
  obtain m2 where m2: "allocMemory (initMemoryManager 1024 2) ?sz = (m2, 0)" "mg_blocks m2 \<noteq> []" "length (mg_blocks m2) \<le> 2"
    using alloc [of 2] by auto
  obtain m3 where m3: "allocMemory (initMemoryManager 1024 3) ?sz = (m3, 0)" "mg_blocks m3 \<noteq> []" "length (mg_blocks m3) \<le> 2"
    using alloc [of 3] by auto
  have quarter: "unat (PM_MAX_MEMORY_SIZE div 4) = 256" by (simp add: PM_MAX_MEMORY_SIZE_def)
  show ?thesis using m1 m2 m3
    by (simp add: allocation_main_def quarter freeMemoryManager_leaks Let_def) (simp add: PM_MAX_MEMORY_SIZE_def freeMemoryManager_leaks)
qed

subsection \<open>Five blocks of two pools (d24)\<close>

text \<open>
  The exit code and the pointers of the blocks, as far as the program gets. The parameters say whether the allocations of the two pools succeed.
\<close>

definition pool_main :: "bool \<times> bool \<Rightarrow> bool \<times> bool \<Rightarrow> (int \<times> size_t option list \<times> size_t option list) option" where
  "pool_main simple_ok advanced_ok = do {
     pool \<leftarrow> pool_init (fst simple_ok) (snd simple_ok) POOL_BLOCK_SIZE POOL_BLOCK_COUNT;
     advanced_pool \<leftarrow> advanced_pool_create (fst advanced_ok) (snd advanced_ok) POOL_BLOCK_SIZE POOL_BLOCK_COUNT 8;
     (case (pool, advanced_pool) of
        (Some pool, Some advanced_pool) \<Rightarrow> do {
          (pool, advanced_pool, blocks, advanced_blocks) \<leftarrow> for_loop 0 5 (\<lambda>i (pool, advanced_pool, blocks, advanced_blocks). do {
             (pool, block) \<leftarrow> pool_alloc pool;
             (advanced_pool, advanced_block) \<leftarrow> pool_alloc advanced_pool;
             Some (pool, advanced_pool, blocks @ [block], advanced_blocks @ [advanced_block]) }) (pool, advanced_pool, [], []);
          (pool, advanced_pool) \<leftarrow> for_loop 0 5 (\<lambda>i (pool, advanced_pool). do {
             block \<leftarrow> rd blocks i;
             pool \<leftarrow> pool_free pool block;
             advanced_block \<leftarrow> rd advanced_blocks i;
             advanced_pool \<leftarrow> pool_free advanced_pool advanced_block;
             Some (pool, advanced_pool) }) (pool, advanced_pool);
          pool_destroy pool;
          pool_destroy advanced_pool;
          Some (0, blocks, advanced_blocks) }
      | _ \<Rightarrow> Some (1, [], [])) }"

text \<open>
  The aligned block size comes out as 0, so linking the blocks of the second pool writes outside its memory. The program has a defined
  execution only when that pool cannot be allocated, and then it gives up.
\<close>

lemma pool_main_undefined: "pool_main simple_ok (True, True) = None"
  by (simp add: pool_main_def advanced_pool_undefined bind_eq_None_conv)

lemma pool_main_gives_up:
  assumes "\<not> (adv_ok \<and> memory_ok)"
  shows "pool_main (pool_ok, start_ok) (adv_ok, memory_ok) = Some (1, [], [])"
proof -
  have h: "8 \<le> unat POOL_BLOCK_SIZE" "0 < unat POOL_BLOCK_COUNT" "unat POOL_BLOCK_SIZE * unat POOL_BLOCK_COUNT < 2 ^ 64"
    by (simp_all add: POOL_BLOCK_SIZE_def POOL_BLOCK_COUNT_def)
  from pool_init_defined [OF h, of pool_ok start_ok] obtain p where "pool_init pool_ok start_ok POOL_BLOCK_SIZE POOL_BLOCK_COUNT = Some p"
    by blast
  moreover have "advanced_pool_create adv_ok memory_ok POOL_BLOCK_SIZE POOL_BLOCK_COUNT 8 = Some None"
    using assms by (auto simp: advanced_pool_create_def)
  ultimately show ?thesis by (cases p) (simp_all add: pool_main_def)
qed

end
