(* ===== verification/Memory_Reports.thy ===== *)
theory Memory_Reports
  imports Address_Translation Tlb_Translation Header_Allocation
begin

section \<open>What the memory programs print: d15 and d16\<close>

text \<open>
  \<open>printAddressSpace\<close> (\<open>AddressTranslator.c\<close>), \<open>printTranslationStats\<close> (\<open>Translation_mechanism.c\<close>), \<open>printMemoryState\<close>
  (\<open>First_Fit_alloc.c\<close>) and the table of \<open>MemoryCharacteristics.c\<close>. A report is the list of the values printed; the lemmas say what
  a reader of the report may conclude.
\<close>

text \<open>A loop that prints the entries of an array that satisfy a test.\<close>

lemma report_loop:
  assumes "n = length xs"
  shows "for_loop 0 n (\<lambda>i out. do { x \<leftarrow> rd xs i; Some (if P x then out @ [f x] else out) }) [] = Some (map f (filter P xs))"
proof -
  have "\<exists>out. for_loop 0 (length xs) (\<lambda>i out. do { x \<leftarrow> rd xs i; Some (if P x then out @ [f x] else out) }) [] = Some out \<and>
      out = map f (filter P (take (length xs) xs))"
    by (rule for_loop_invar [where P = "\<lambda>i out. out = map f (filter P (take i xs))"]) (auto simp: take_Suc_conv_app_nth)
  then show ?thesis using assms by simp
qed

lemma distinct_map_filter:
  assumes "\<And>i j. \<lbrakk>i < length xs; j < length xs; P (xs ! i); P (xs ! j); f (xs ! i) = f (xs ! j)\<rbrakk> \<Longrightarrow> i = j"
  shows "distinct (map f (filter P xs))"
  using assms
proof (induction xs)
  case (Cons x xs)
  have "distinct (map f (filter P xs))" using Cons.prems [of "Suc i" "Suc j" for i j] by (intro Cons.IH) auto
  moreover have "f x \<noteq> f y" if "P x" "y \<in> set xs" "P y" for y
    using Cons.prems [of 0 "Suc j" for j] that by (auto simp: in_set_conv_nth)
  ultimately show ?case by auto
qed simp

subsection \<open>The address map (AddressTranslator.c)\<close>

text \<open>The two sizes, the memory in use, the page size, and the valid mappings with their protection.\<close>

definition printAddressSpace :: "address_translator \<Rightarrow> ((int \<times> int \<times> int \<times> int) \<times> (c_uint \<times> c_uint \<times> int) list) option" where
  "printAddressSpace translator = do {
     lines \<leftarrow> for_loop 0 (nat (atr_map_size translator)) (\<lambda>i out. do {
       m \<leftarrow> rd (atr_address_map translator) i;
       Some (if am_valid m \<noteq> 0 then out @ [(am_logical_address m, am_physical_address m, am_protection m)] else out) }) [];
     Some ((LOGICAL_MEMORY_SIZE, PHYSICAL_MEMORY_SIZE, atr_used_physical_memory translator, AM_PAGE_SIZE), lines) }"

lemma page_gap:
  fixes x y :: int
  assumes "x mod 256 = 0" and "y mod 256 = 0" and "x < y"
  shows "x + 256 \<le> y"
proof -
  obtain a b where "x = 256 * a" "y = 256 * b" using assms(1,2) by (auto simp: mod_eq_0_iff_dvd elim!: dvdE)
  moreover from this assms(3) have "a < b" by simp
  ultimately show ?thesis by simp
qed

lemma am_invD:
  assumes "am_inv t"
  shows "length (atr_address_map t) = 4" "atr_map_size t = 4" "atr_used_physical_memory t mod 256 = 0"
    and "i < 4 \<Longrightarrow> am_valid (atr_address_map t ! i) \<noteq> 0 \<Longrightarrow> uint (am_physical_address (atr_address_map t ! i)) mod 256 = 0"
    and "i < 4 \<Longrightarrow> am_valid (atr_address_map t ! i) \<noteq> 0 \<Longrightarrow> uint (am_physical_address (atr_address_map t ! i)) < atr_used_physical_memory t"
    and "\<lbrakk>i < 4; j < 4; am_valid (atr_address_map t ! i) \<noteq> 0; am_valid (atr_address_map t ! j) \<noteq> 0;
      am_physical_address (atr_address_map t ! i) = am_physical_address (atr_address_map t ! j)\<rbrakk> \<Longrightarrow> i = j"
  using assms unfolding am_inv_def AM_PAGE_SIZE_def by (elim conjE; assumption | blast)+

text \<open>
  The mappings printed have different frames, all of them below the memory printed as used: it has room for all of them.
\<close>

lemma printed_address_space:
  assumes inv: "am_inv t"
  shows "\<exists>lines. printAddressSpace t = Some ((1024, 2048, atr_used_physical_memory t, 256), lines) \<and>
    (\<forall>(l, p, prot) \<in> set lines. uint p + 256 \<le> atr_used_physical_memory t) \<and> distinct (map (fst \<circ> snd) lines)"
proof -
  let ?m = "atr_address_map t" and ?u = "atr_used_physical_memory t"
  let ?ms = "filter (\<lambda>m. am_valid m \<noteq> 0) ?m"
  note len = am_invD(1,2) [OF inv] and aligned = am_invD(3) [OF inv]
  let ?lines = "map (\<lambda>m. (am_logical_address m, am_physical_address m, am_protection m)) ?ms"
  have report: "printAddressSpace t = Some ((1024, 2048, ?u, 256), ?lines)"
    using report_loop [of 4 ?m "\<lambda>m. am_valid m \<noteq> 0" "\<lambda>m. (am_logical_address m, am_physical_address m, am_protection m)"] len
    by (simp add: printAddressSpace_def LOGICAL_MEMORY_SIZE_def PHYSICAL_MEMORY_SIZE_def AM_PAGE_SIZE_def)
  have below: "uint (am_physical_address m) + 256 \<le> ?u" if m: "m \<in> set ?ms" for m
  proof -
    from m obtain i where "i < length ?m" "m = ?m ! i" "am_valid m \<noteq> 0" unfolding set_filter in_set_conv_nth by blast
    then have "i < 4" "m = ?m ! i" "am_valid m \<noteq> 0" using len(1) by simp_all
    with am_invD(4,5) [OF inv, of i] have m: "uint (am_physical_address m) mod 256 = 0" "uint (am_physical_address m) < ?u" by simp_all
    from page_gap [OF m(1) aligned m(2)] show ?thesis .
  qed
  have frames: "map (fst \<circ> snd) ?lines = map am_physical_address ?ms"
    by (simp only: map_map comp_def fst_conv snd_conv)
  have "distinct (map am_physical_address ?ms)"
    by (rule distinct_map_filter) (rule am_invD(6) [OF inv]; simp only: len(1) not_False_eq_True)
  then have "distinct (map (fst \<circ> snd) ?lines)" unfolding frames .
  moreover have "\<forall>(l, p, prot) \<in> set ?lines. uint p + 256 \<le> ?u"
  proof
    fix x assume "x \<in> set ?lines"
    then obtain m where "m \<in> set ?ms" "x = (am_logical_address m, am_physical_address m, am_protection m)" unfolding set_map by blast
    with below [of m] show "case x of (l, p, prot) \<Rightarrow> uint p + 256 \<le> ?u" by (simp only: split_conv)
  qed
  ultimately show ?thesis using report by blast
qed

subsection \<open>The TLB (Translation\_mechanism.c)\<close>

definition printTranslationStats :: "tlb_translator \<Rightarrow> ((c_uint \<times> c_uint \<times> c_uint) \<times> (c_uint \<times> c_uint \<times> c_uint) list) option" where
  "printTranslationStats at = do {
     lines \<leftarrow> for_loop 0 (unat (at_tlb_size at)) (\<lambda>i out. do {
       e \<leftarrow> rd (at_tlb at) i;
       Some (if te_valid e \<noteq> 0 then out @ [(te_page_num e, te_frame_num e, te_access_time e)] else out) }) [];
     Some ((at_tlb_size at, at_page_table_size at, 4096), lines) }"

text \<open>Every line is an entry of the page table: a program that walks the table finds the frame that is printed.\<close>

lemma printed_tlb:
  assumes inv: "tlb_inv at"
  shows "\<exists>lines. printTranslationStats at = Some ((at_tlb_size at, at_page_table_size at, 4096), lines) \<and>
    (\<forall>(page, frame, time) \<in> set lines. mapped_page at page frame) \<and> length lines \<le> unat (at_tlb_size at)"
proof -
  let ?es = "filter (\<lambda>e. te_valid e \<noteq> 0) (at_tlb at)"
  have len: "length (at_tlb at) = unat (at_tlb_size at)" using inv by (simp add: tlb_inv_def)
  have "printTranslationStats at =
      Some ((at_tlb_size at, at_page_table_size at, 4096), map (\<lambda>e. (te_page_num e, te_frame_num e, te_access_time e)) ?es)"
    using report_loop [of "unat (at_tlb_size at)" "at_tlb at" "\<lambda>e. te_valid e \<noteq> 0"
        "\<lambda>e. (te_page_num e, te_frame_num e, te_access_time e)"] len
    by (simp add: printTranslationStats_def)
  moreover have "length ?es \<le> unat (at_tlb_size at)" using length_filter_le [of "\<lambda>e. te_valid e \<noteq> 0" "at_tlb at"] len by simp
  ultimately show ?thesis using inv by (auto simp: tlb_inv_def)
qed

subsection \<open>The heap (First\_Fit\_alloc.c)\<close>

text \<open>The total, used and free size, and for every block of the list its number, its size and whether it is allocated.\<close>

primrec print_blocks :: "nat \<Rightarrow> hblock list \<Rightarrow> (nat \<times> size_t \<times> bool) list" where
  "print_blocks block_cnt [] = []"
| "print_blocks block_cnt (b # bs) = (block_cnt, hb_size b, hb_allocated b) # print_blocks (block_cnt + 1) bs"

definition printMemoryState :: "heap_manager \<Rightarrow> (size_t \<times> size_t \<times> size_t) \<times> (nat \<times> size_t \<times> bool) list" where
  "printMemoryState manager =
     ((hm_total_size manager, hm_used_size manager, hm_total_size manager - hm_used_size manager), print_blocks 0 (hm_blocks manager))"

text \<open>With its header of 32 bytes each, the blocks printed add up to the total, the allocated ones to the used size and the free ones to
  the free size.\<close>

definition bytes_of :: "(nat \<times> size_t \<times> bool) list \<Rightarrow> nat" where
  "bytes_of lines = (\<Sum>(n, sz, alloc)\<leftarrow>lines. unat sz + 32)"

lemma chain_bytes: "chain a bs e \<Longrightarrow> a + bytes_of (print_blocks n bs) = e"
proof (induction bs arbitrary: a n)
  case (Cons b bs)
  then have "a + 32 + unat (hb_size b) + bytes_of (print_blocks (n + 1) bs) = e" by simp
  then show ?case by (simp add: bytes_of_def)
qed (simp add: bytes_of_def)

lemma used_bytes: "bytes_of (filter (\<lambda>(n, sz, alloc). alloc) (print_blocks n bs)) = used_sum bs"
  by (induction bs arbitrary: n) (auto simp: bytes_of_def)

lemma bytes_split: "bytes_of (filter P ls) + bytes_of (filter (\<lambda>l. \<not> P l) ls) = bytes_of ls"
  by (induction ls) (auto simp: bytes_of_def)

lemma printed_memory_state:
  assumes inv: "hm_inv m" and report: "printMemoryState m = ((tot, used, rest), lines)"
  shows "bytes_of lines = unat tot" and "bytes_of (filter (\<lambda>(n, sz, alloc). alloc) lines) = unat used"
    and "bytes_of (filter (\<lambda>l. \<not> (\<lambda>(n, sz, alloc). alloc) l) lines) = unat rest"
proof -
  have r: "tot = hm_total_size m" "used = hm_used_size m" "rest = tot - used" "lines = print_blocks 0 (hm_blocks m)"
    using report by (auto simp: printMemoryState_def)
  have c: "chain 0 (hm_blocks m) (unat tot)" "unat used = used_sum (hm_blocks m)" using inv by (simp_all add: hm_inv_def r)
  show t: "bytes_of lines = unat tot" using chain_bytes [OF c(1), of 0] by (simp add: r(4))
  show u: "bytes_of (filter (\<lambda>(n, sz, alloc). alloc) lines) = unat used" using used_bytes c(2) by (simp add: r(4))
  have s: "unat used + bytes_of (filter (\<lambda>l. \<not> (\<lambda>(n, sz, alloc). alloc) l) lines) = unat tot"
    using bytes_split [of "\<lambda>(n, sz, alloc). alloc" lines] t u by simp
  then have "used \<le> tot" by (simp add: word_le_nat_alt)
  then show "bytes_of (filter (\<lambda>l. \<not> (\<lambda>(n, sz, alloc). alloc) l) lines) = unat rest"
    using s by (simp add: r(3) unat_sub)
qed

subsection \<open>Kinds of memory (MemoryCharacteristics.c)\<close>

text \<open>Costs are in hundredths, as they are printed.\<close>

definition REGISTER_SIZE :: int where "REGISTER_SIZE = 64"
definition CACHE_LINE_SIZE :: int where "CACHE_LINE_SIZE = 64"
definition MC_PAGE_SIZE :: int where "MC_PAGE_SIZE = 4096"

record memory_characteristics =
  mc_size_bits :: int
  mc_access_time_cycles :: int
  mc_cost_per_byte :: int
  mc_volatile_storage :: int
  mc_type_name :: string

definition memories :: "memory_characteristics list" where
  "memories = map (\<lambda>(sz, time, cost, volatile, name). \<lparr>mc_size_bits = sz, mc_access_time_cycles = time, mc_cost_per_byte = cost,
       mc_volatile_storage = volatile, mc_type_name = name\<rparr>)
     [(REGISTER_SIZE, 1, 10000, 1, ''CPU Register''),
      (CACHE_LINE_SIZE, 3, 5000, 1, ''L1 Cache''),
      (CACHE_LINE_SIZE * 8, 10, 2500, 1, ''L2 Cache''),
      (MC_PAGE_SIZE, 100, 100, 1, ''Main Memory''),
      (MC_PAGE_SIZE * 1024, 10000, 10, 0, ''Virtual Memory'')]"

definition printMemoryCharacteristics :: "memory_characteristics \<Rightarrow> string \<times> int \<times> int \<times> int \<times> string" where
  "printMemoryCharacteristics mc =
     (mc_type_name mc, mc_size_bits mc, mc_access_time_cycles mc, mc_cost_per_byte mc, if mc_volatile_storage mc \<noteq> 0 then ''Yes'' else ''No'')"

definition characteristics_main :: "(string \<times> int \<times> int \<times> int \<times> string) list" where
  "characteristics_main = map printMemoryCharacteristics memories"

text \<open>From line to line memory gets slower and cheaper and no smaller; only the last keeps its contents.\<close>

lemma characteristics_hierarchy:
  "sorted (map (\<lambda>(n, sz, time, cost, v). sz) characteristics_main) \<and>
   sorted_wrt (<) (map (\<lambda>(n, sz, time, cost, v). time) characteristics_main) \<and>
   sorted_wrt (>) (map (\<lambda>(n, sz, time, cost, v). cost) characteristics_main) \<and>
   map (\<lambda>(n, sz, time, cost, v). v) characteristics_main = [''Yes'', ''Yes'', ''Yes'', ''Yes'', ''No'']"
  by (simp add: characteristics_main_def memories_def printMemoryCharacteristics_def REGISTER_SIZE_def CACHE_LINE_SIZE_def MC_PAGE_SIZE_def)

end
