(* ===== verification/Malloc_Program.thy ===== *)
theory Malloc_Program
  imports Custom_Malloc
begin

section \<open>Statistics, leak tracking and the main program of d23 Custom\_Memory\_Allocator.c\<close>

text \<open>
  The printer of the two lists, the tracked versions of allocation and release, and the \<open>main\<close> function. The state
  is the heap and the table of tracked allocations.
\<close>

subsection \<open>Printing the heap\<close>

text \<open>One of the two loops: address and size of the blocks from \<open>cur\<close> on.\<close>

partial_function (option) print_blocks :: "block_mem \<Rightarrow> nat option \<Rightarrow> (nat \<times> size_t) list option" where
  "print_blocks m cur =
     (case cur of
        None \<Rightarrow> Some []
      | Some a \<Rightarrow> (case m a of
          None \<Rightarrow> None
        | Some b \<Rightarrow> do { rest \<leftarrow> print_blocks m (bk_next b); Some ((a, bk_size b) # rest) }))"

declare print_blocks.simps [code]

record memory_stats =
  ms_total :: size_t
  ms_used :: size_t
  ms_free :: size_t
  ms_free_blocks :: "(nat \<times> size_t) list"
  ms_used_blocks :: "(nat \<times> size_t) list"

definition print_memory_stats :: "custom_heap \<Rightarrow> memory_stats option" where
  "print_memory_stats h = do {
     fs \<leftarrow> print_blocks (ch_mem h) (ch_free_list h);
     us \<leftarrow> print_blocks (ch_mem h) (ch_used_list h);
     Some \<lparr>ms_total = ch_total_size h, ms_used = ch_used_size h, ms_free = ch_total_size h - ch_used_size h,
       ms_free_blocks = fs, ms_used_blocks = us\<rparr> }"

lemma print_blocks_seg:
  "seg m p xs None \<Longrightarrow> print_blocks m (first xs None) = Some (map (\<lambda>a. (a, bk_size (blk m a))) xs)"
proof (induction xs arbitrary: p)
  case Nil
  then show ?case by (subst print_blocks.simps) simp
next
  case (Cons a xs)
  then obtain b where b: "m a = Some b" "bk_next b = first xs None" "seg m (Some a) xs None" by (auto split: option.splits)
  then show ?case using Cons.IH [OF b(3)] by (subst print_blocks.simps) (simp add: first_def blk_def)
qed

text \<open>
  On a well-formed heap both loops end, every block is printed once, the used size printed is the sum of the sizes printed
  for the used blocks, and the free size the sum of those of the free blocks.
\<close>

lemma printed_sizes_add_up:
  assumes inv: "heap_inv h fs us"
  shows "\<exists>st. print_memory_stats h = Some st \<and> map fst (ms_free_blocks st) = fs \<and> map fst (ms_used_blocks st) = us \<and>
    ms_used st = sum_list (map snd (ms_used_blocks st)) \<and> ms_free st = sum_list (map snd (ms_free_blocks st))"
proof -
  have s: "seg (ch_mem h) None fs None" "ch_free_list h = first fs None" "seg (ch_mem h) None us None" "ch_used_list h = first us None"
    and t: "ch_total_size h = total_bytes (ch_mem h) fs + total_bytes (ch_mem h) us" "ch_used_size h = total_bytes (ch_mem h) us"
    using inv by (simp_all add: heap_inv_def)
  show ?thesis
    by (simp add: print_memory_stats_def s(2,4) print_blocks_seg [OF s(1)] print_blocks_seg [OF s(3)] t total_bytes_def comp_def)
qed

subsection \<open>Tracked allocation\<close>

definition debug_malloc ::
  "(size_t \<Rightarrow> nat option) \<Rightarrow> size_t \<Rightarrow> string \<Rightarrow> int \<Rightarrow> custom_heap \<times> leak_table \<Rightarrow> ((custom_heap \<times> leak_table) \<times> nat option) option" where
  "debug_malloc sbrk sz file line = (\<lambda>(h, t). do {
     (h, ptr) \<leftarrow> custom_malloc sbrk h sz;
     t \<leftarrow> record_allocation ptr sz file line t;
     Some ((h, t), ptr) })"

definition debug_free :: "nat option \<Rightarrow> custom_heap \<times> leak_table \<Rightarrow> (custom_heap \<times> leak_table) option" where
  "debug_free ptr = (\<lambda>(h, t). do {
     t \<leftarrow> (case ptr of None \<Rightarrow> Some t | Some p \<Rightarrow> forget_allocation p t);
     h \<leftarrow> custom_free h ptr;
     Some (h, t) })"

text \<open>Every tracked block is in use, at the address behind its header.\<close>

definition tracked_inv :: "custom_heap \<times> leak_table \<Rightarrow> nat list \<Rightarrow> nat list \<Rightarrow> bool" where
  "tracked_inv = (\<lambda>(h, t) fs us. heap_inv h fs us \<and> leak_inv t \<and>
     (\<forall>r \<in> set (check_leaks t). \<exists>a \<in> set us. al_ptr r = a + DATA_OFFSET))"

text \<open>The release of a tracked block is never defined, because its header is not found.\<close>

lemma debug_free_undefined:
  assumes "tracked_inv (h, t) fs us" and "r \<in> set (check_leaks t)"
  shows "debug_free (Some (al_ptr r)) (h, t) = None"
proof -
  obtain a where "a \<in> set us" "al_ptr r = a + DATA_OFFSET" using assms by (auto simp: tracked_inv_def)
  then have "custom_free h (Some (al_ptr r)) = None"
    using assms(1) custom_free_misses_header [of h fs us a] by (simp add: tracked_inv_def)
  then show ?thesis by (simp add: debug_free_def bind_eq_None_conv split: option.splits)
qed

lemma custom_malloc_result:
  assumes inv: "heap_inv h fs us" and fresh: "sbrk_fresh sbrk (ch_mem h)" and sz: "sz \<noteq> 0" "unat sz + 55 < 2 ^ 64"
  shows "custom_malloc sbrk h sz = Some (h, None) \<or>
    (\<exists>h' a fs'. custom_malloc sbrk h sz = Some (h', Some (a + DATA_OFFSET)) \<and> heap_inv h' fs' (a # us))"
proof -
  let ?T = "ALIGN (sz + BLOCK_T_SIZE)"
  have "40 \<le> unat ?T" using ALIGN_bounds(1) [OF sz(2)] by simp
  then have "?T \<noteq> 0" by auto
  from find_best_fit_best [OF inv this] obtain r where r: "find_best_fit h ?T = Some r"
    "case r of None \<Rightarrow> True | Some a \<Rightarrow> a \<in> set fs \<and> ?T \<le> bk_size (blk (ch_mem h) a)" by (auto split: option.splits)
  show ?thesis
  proof (cases r)
    case (Some a)
    with r custom_malloc_from_free [OF inv sz, of a sbrk] show ?thesis by auto
  next
    case None
    show ?thesis
    proof (cases "sbrk (if ?T > 4096 then ?T else 4096)")
      case sbrk_none: None
      with r(1) None sz(1) show ?thesis by (simp add: custom_malloc_def)
    next
      case (Some a)
      with r(1) None custom_malloc_from_sbrk [OF inv fresh sz _ Some] show ?thesis by blast
    qed
  qed
qed

text \<open>Tracked allocations stay inside the heap, and a successful one is added to the table while there is room.\<close>

lemma debug_malloc_tracks:
  assumes inv: "tracked_inv (h, t) fs us" and fresh: "sbrk_fresh sbrk (ch_mem h)" and sz: "sz \<noteq> 0" "unat sz + 55 < 2 ^ 64"
  shows "\<exists>h' t' ptr fs' us'. debug_malloc sbrk sz file line (h, t) = Some ((h', t'), ptr) \<and> tracked_inv (h', t') fs' us' \<and>
    set us \<subseteq> set us' \<and>
    (case ptr of
       None \<Rightarrow> h' = h \<and> t' = t
     | Some p \<Rightarrow> check_leaks t' = check_leaks t @
         (if lt_alloc_cnt t < MAX_ALLOC then [\<lparr>al_ptr = p, al_size = sz, al_file = file, al_line = line\<rparr>] else []))"
proof -
  have i: "heap_inv h fs us" "leak_inv t" and tr: "\<forall>r \<in> set (check_leaks t). \<exists>a \<in> set us. al_ptr r = a + DATA_OFFSET"
    using inv by (simp_all add: tracked_inv_def)
  from custom_malloc_result [OF i(1) fresh sz] show ?thesis
  proof
    assume "custom_malloc sbrk h sz = Some (h, None)"
    then have "debug_malloc sbrk sz file line (h, t) = Some ((h, t), None)" by (simp add: debug_malloc_def record_allocation_def)
    with inv show ?thesis by fastforce
  next
    assume "\<exists>h' a fs'. custom_malloc sbrk h sz = Some (h', Some (a + DATA_OFFSET)) \<and> heap_inv h' fs' (a # us)"
    then obtain h' a fs' where m: "custom_malloc sbrk h sz = Some (h', Some (a + DATA_OFFSET))" "heap_inv h' fs' (a # us)" by blast
    let ?r = "\<lparr>al_ptr = a + DATA_OFFSET, al_size = sz, al_file = file, al_line = line\<rparr>"
    obtain t' where t': "record_allocation (Some (a + DATA_OFFSET)) sz file line t = Some t'" "leak_inv t'"
      "check_leaks t' = check_leaks t @ (if lt_alloc_cnt t < MAX_ALLOC then [?r] else [])"
    proof (cases "lt_alloc_cnt t < MAX_ALLOC")
      case True
      with record_allocation_leaks [OF i(2) True, of "a + DATA_OFFSET" sz "file" "line"] that show ?thesis by auto
    next
      case False
      with i(2) that [of t] show ?thesis by (simp add: record_allocation_def)
    qed
    have "debug_malloc sbrk sz file line (h, t) = Some ((h', t'), Some (a + DATA_OFFSET))"
      using m(1) t'(1) by (simp add: debug_malloc_def)
    moreover have "tracked_inv (h', t') fs' (a # us)" using m(2) t'(2,3) tr by (auto simp: tracked_inv_def)
    ultimately show ?thesis using t'(3) by (intro exI [of _ h'] exI [of _ t'] exI [of _ "Some (a + DATA_OFFSET)"]
        exI [of _ fs'] exI [of _ "a # us"]) auto
  qed
qed

subsection \<open>The main program\<close>

text \<open>
  \<open>sbrks\<close> gives the answers to the successive calls of \<open>sbrk\<close>. The stores through \<open>numbers\<close> and \<open>string\<close> need the pointers not to
  be null; they lie in the data areas. No allocation is tracked, so \<open>check_leaks\<close> prints that there are none.
\<close>

definition malloc_main :: "(nat \<Rightarrow> size_t \<Rightarrow> nat option) \<Rightarrow> (memory_stats \<times> custom_heap) option" where
  "malloc_main sbrks = do {
     let h = init_heap (sbrks 0) (1024 * 1024) zero_heap;
     (h, numbers) \<leftarrow> custom_malloc (sbrks 1) h 40;
     (h, string) \<leftarrow> custom_malloc (sbrks 2) h 100;
     numbers \<leftarrow> numbers;
     string \<leftarrow> string;
     stats \<leftarrow> print_memory_stats h;
     h \<leftarrow> custom_free h (Some numbers);
     h \<leftarrow> custom_free h (Some string);
     Some (stats, h) }"

text \<open>Whatever \<open>sbrk\<close> answers, as long as it does not hand out memory twice, the program has no defined execution.\<close>

lemma malloc_main_undefined:
  assumes big: "\<And>a. sbrks 0 (ALIGN (1024 * 1024)) = Some a \<Longrightarrow> a + unat (ALIGN (1024 * 1024) :: size_t) \<le> 2 ^ 64"
    and fresh: "sbrk_fresh (sbrks 1) (ch_mem (init_heap (sbrks 0) (1024 * 1024) zero_heap))"
      "\<And>h n. custom_malloc (sbrks 1) (init_heap (sbrks 0) (1024 * 1024) zero_heap) 40 = Some (h, n) \<Longrightarrow> sbrk_fresh (sbrks 2) (ch_mem h)"
  shows "malloc_main sbrks = None"
proof -
  let ?h0 = "init_heap (sbrks 0) (1024 * 1024) zero_heap"
  have al: "40 \<le> unat (ALIGN (1024 * 1024) :: size_t)" by (simp add: ALIGN_def)
  obtain fs where h0: "heap_inv ?h0 fs []"
  proof (cases "sbrks 0 (ALIGN (1024 * 1024))")
    case None
    then have "?h0 = zero_heap" by (simp add: init_heap_def)
    with zero_heap_inv that show ?thesis by simp
  next
    case (Some a)
    have "heap_inv ?h0 [a] []" by (rule init_heap_inv) (use Some big [OF Some] al in simp_all)
    then show ?thesis by (rule that)
  qed
  from custom_malloc_result [OF h0 fresh(1), of 40] consider (no) "custom_malloc (sbrks 1) ?h0 40 = Some (?h0, None)"
    | (yes) h1 a fs1 where "custom_malloc (sbrks 1) ?h0 40 = Some (h1, Some (a + DATA_OFFSET))" "heap_inv h1 fs1 [a]" by auto
  then show ?thesis
  proof cases
    case no
    then show ?thesis by (auto simp: malloc_main_def Let_def bind_eq_None_conv)
  next
    case yes
    have "(100 :: size_t) \<noteq> 0" "unat (100 :: size_t) + 55 < 2 ^ 64" by simp_all
    from custom_malloc_result [OF yes(2) fresh(2) [OF yes(1)] this] show ?thesis
    proof (elim disjE exE conjE)
      assume "custom_malloc (sbrks 2) h1 100 = Some (h1, None)"
      with yes(1) show ?thesis by (simp add: malloc_main_def Let_def)
    next
      fix h2 b fs2
      assume "custom_malloc (sbrks 2) h1 100 = Some (h2, Some (b + DATA_OFFSET))" and inv: "heap_inv h2 fs2 [b, a]"
      moreover have "custom_free h2 (Some (a + DATA_OFFSET)) = None" by (rule custom_free_misses_header [OF inv]) simp
      ultimately show ?thesis using yes(1) by (simp add: malloc_main_def Let_def bind_eq_None_conv)
    qed
  qed
qed

end
