(* ===== verification/Printed_Statistics.thy ===== *)
theory Printed_Statistics
  imports Complex_Main Scheduling_Programs Memory_Programs Memory_Reports Free_Regions Process_Status
begin

section \<open>Tables and statistics that the programs print: d3, d5 and d15\<close>

text \<open>
  The result tables of the three schedulers, the statistics of the cache and of the memory hierarchy, and the process
  status. Arithmetic on \<open>float\<close> is a parameter, with real numbers as its exact instance. The averages of the schedulers are not modelled:
  their totals are summed in floating point in the order of completion.
\<close>

subsection \<open>The tables of the schedulers (d5)\<close>

definition sjf_report :: "process list \<Rightarrow> nat \<Rightarrow> (int \<times> int \<times> int \<times> int \<times> int) list option" where
  "sjf_report processes n = do {
     processes \<leftarrow> sjf_scheduling processes n;
     for_loop 0 n (\<lambda>i out. do {
       p \<leftarrow> rd processes i;
       Some (out @ [(process_id p, arrival_time p, burst_time p, waiting_time p, turnaround_time p)]) }) [] }"

definition priority_report :: "prio_process list \<Rightarrow> nat \<Rightarrow> (int \<times> int \<times> int \<times> int \<times> int \<times> int) list option" where
  "priority_report processes n = do {
     processes \<leftarrow> priority_scheduling processes n;
     for_loop 0 n (\<lambda>i out. do {
       p \<leftarrow> rd processes i;
       Some (out @ [(process_id p, arrival_time p, burst_time p, pr_priority p, waiting_time p, turnaround_time p)]) }) [] }"

definition round_robin_report :: "rr_process list \<Rightarrow> nat \<Rightarrow> (int \<times> int \<times> int \<times> int \<times> int) list option" where
  "round_robin_report processes n = do {
     processes \<leftarrow> round_robin_scheduling processes n;
     for_loop 0 n (\<lambda>i out. do {
       p \<leftarrow> rd processes i;
       Some (out @ [(process_id p, arrival_time p, burst_time p, waiting_time p, turnaround_time p)]) }) [] }"

lemma table_loop:
  "for_loop 0 (length xs) (\<lambda>i out. do { x \<leftarrow> rd xs i; Some (out @ [f x]) }) [] = Some (map f xs)"
  using report_loop [of "length xs" xs "\<lambda>_. True" f] by simp

text \<open>
  In the table of the shortest-job-first scheduler the turnaround of every row is its waiting time plus its burst; the priority
  scheduler prints the burst as 0 and the whole turnaround as waiting time.
\<close>

lemma sjf_report_rows:
  assumes "length ps \<le> SCHED_MAX_PROCESSES" and "0 \<le> h"
    and jobs: "\<forall>p \<in> set ps. 0 \<le> arrival_time p \<and> arrival_time p \<le> h \<and> 0 < burst_time p"
    and room: "h + sum_list (map burst_time ps) < INT_MAX"
  shows "\<exists>rows. sjf_report ps (length ps) = Some rows \<and> length rows = length ps \<and>
    (\<forall>(pid, arrival, burst, waiting, turnaround) \<in> set rows. 0 \<le> waiting \<and> turnaround = waiting + burst)"
proof -
  from sjf_serves_all [OF assms] obtain qs where q: "sjf_scheduling ps (length ps) = Some qs" "length qs = length ps"
    and all: "\<And>i. i < length ps \<Longrightarrow> burst_time (qs ! i) = burst_time (ps ! i) \<and> 0 \<le> waiting_time (qs ! i) \<and>
      turnaround_time (qs ! i) = waiting_time (qs ! i) + burst_time (ps ! i)" by blast
  have "0 \<le> waiting_time x \<and> turnaround_time x = waiting_time x + burst_time x" if "x \<in> set qs" for x
  proof -
    from that obtain i where "i < length qs" "x = qs ! i" by (auto simp: in_set_conv_nth)
    with all [of i] q(2) show ?thesis by simp
  qed
  then show ?thesis
    using q table_loop [of qs "\<lambda>p. (process_id p, arrival_time p, burst_time p, waiting_time p, turnaround_time p)"]
    by (auto simp: sjf_report_def)
qed

lemma priority_report_rows:
  assumes "0 \<le> h" and jobs: "\<forall>p \<in> set ps. 0 \<le> arrival_time p \<and> arrival_time p \<le> h \<and> 0 < burst_time p"
    and room: "h + sum_list (map burst_time ps) < INT_MAX" and prio: "\<forall>p \<in> set ps. pr_priority p < INT_MAX"
  shows "\<exists>rows. priority_report ps (length ps) = Some rows \<and> length rows = length ps \<and>
    (\<forall>(pid, arrival, burst, priority, waiting, turnaround) \<in> set rows. burst = 0 \<and> waiting = turnaround)"
proof -
  from priority_serves_all [OF assms] obtain qs where q: "priority_scheduling ps (length ps) = Some qs" "length qs = length ps"
    and all: "\<And>i. i < length ps \<Longrightarrow> burst_time (qs ! i) = 0 \<and> waiting_time (qs ! i) = turnaround_time (qs ! i)" by blast
  have "burst_time x = 0 \<and> waiting_time x = turnaround_time x" if "x \<in> set qs" for x
  proof -
    from that obtain i where "i < length qs" "x = qs ! i" by (auto simp: in_set_conv_nth)
    with all [of i] q(2) show ?thesis by simp
  qed
  then show ?thesis
    using q table_loop [of qs "\<lambda>p. (process_id p, arrival_time p, burst_time p, pr_priority p, waiting_time p, turnaround_time p)"]
    by (auto simp: priority_report_def)
qed

lemma round_robin_table:
  "round_robin_report [process.extend (job 1 0 10) \<lparr>remaining_time = 10\<rparr>, process.extend (job 2 1 5) \<lparr>remaining_time = 5\<rparr>,
     process.extend (job 3 3 8) \<lparr>remaining_time = 8\<rparr>] 3 =
    Some [(1, 0, 10, 13, 23), (2, 1, 5, 9, 14), (3, 3, 8, 10, 18)]"
  by code_simp

subsection \<open>Hit rates (d15)\<close>

text \<open>Exact arithmetic.\<close>

definition exact_ops :: "real double_ops" where
  "exact_ops = \<lparr>db_of_int = of_int, db_zero = 0, db_one = 1, db_add = (+), db_sub = (-), db_mul = (*), db_div = (/)\<rparr>"

definition printCacheStats :: "'d double_ops \<Rightarrow> cache \<Rightarrow> int \<times> int \<times> int \<times> 'd" where
  "printCacheStats ops cache =
     (ca_access_count cache, ca_hits cache, ca_misses cache,
      db_mul ops (db_div ops (db_of_int ops (ca_hits cache)) (db_of_int ops (ca_access_count cache))) (db_of_int ops 100))"

text \<open>Two sums of \<open>int\<close>, and the two ratios in percent.\<close>

definition printMemoryStats :: "'d double_ops \<Rightarrow> memory_hierarchy \<Rightarrow> ((int \<times> int \<times> int \<times> int \<times> int) \<times> 'd \<times> 'd) option" where
  "printMemoryStats ops mh = do {
     l1 \<leftarrow> chk (mh_l1_hits mh + mh_l1_misses mh);
     let l1_hit_ratio = db_div ops (db_of_int ops (mh_l1_hits mh)) (db_of_int ops l1);
     l2 \<leftarrow> chk (mh_l2_hits mh + mh_l2_misses mh);
     let l2_hit_ratio = db_div ops (db_of_int ops (mh_l2_hits mh)) (db_of_int ops l2);
     Some ((mh_l1_hits mh, mh_l1_misses mh, mh_l2_hits mh, mh_l2_misses mh, mh_page_faults mh),
       db_mul ops l1_hit_ratio (db_of_int ops 100), db_mul ops l2_hit_ratio (db_of_int ops 100)) }"

lemma rate_bounds:
  fixes h m :: int
  assumes "0 \<le> h" and "0 \<le> m"
  shows "0 \<le> of_int h / of_int (h + m) * (100 :: real)" and "of_int h / of_int (h + m) * (100 :: real) \<le> 100"
proof -
  show "0 \<le> of_int h / of_int (h + m) * (100 :: real)" using assms by simp
  have "(of_int h :: real) \<le> of_int (h + m)" using assms(2) by simp
  then have "of_int h / of_int (h + m) \<le> (1 :: real)" using assms by (auto simp: divide_le_eq_1)
  from mult_right_mono [OF this, of 100] show "of_int h / of_int (h + m) * (100 :: real) \<le> 100"
    by (simp only: mult_1)
qed

lemma cache_hit_rate:
  assumes "cache_inv c"
  shows "\<exists>rate. printCacheStats exact_ops c = (ca_hits c + ca_misses c, ca_hits c, ca_misses c, rate) \<and> 0 \<le> rate \<and> rate \<le> 100"
proof -
  have c: "0 \<le> ca_hits c" "0 \<le> ca_misses c" "ca_access_count c = ca_hits c + ca_misses c" using assms by (simp_all add: cache_inv_def)
  then show ?thesis using rate_bounds [OF c(1,2)] by (simp add: printCacheStats_def exact_ops_def)
qed

text \<open>What the program of the memory hierarchy prints at its end.\<close>

lemma mh_main_prints:
  assumes "\<forall>i. 0 \<le> rands i" and "length (mh_l1_cache mh) = CACHE_L1_SIZE" and "length (mh_l2_cache mh) = CACHE_L2_SIZE"
    and "length (mh_main_memory mh) = MAIN_MEMORY_SIZE" and "length (mh_virtual_memory mh) = VIRTUAL_MEMORY_SIZE"
  shows "\<exists>mh' total h1 m1 h2 m2 faults r1 r2. mh_main mh rands = Some (mh', total) \<and>
    printMemoryStats exact_ops mh' = Some ((h1, m1, h2, m2, faults), r1, r2) \<and>
    h1 + m1 = 1000 \<and> h2 + m2 = m1 \<and> 0 \<le> faults \<and> faults \<le> m2 \<and> 0 \<le> r1 \<and> r1 \<le> 100 \<and> 0 \<le> r2 \<and> r2 \<le> 100"
proof -
  from mh_main_time [OF assms] obtain mh' total where m: "mh_main mh rands = Some (mh', total)" "mh_inv mh'"
    "mh_l1_hits mh' + mh_l1_misses mh' = 1000" by blast
  note iv = mh_invD [OF m(2)]
  have b: "0 \<le> mh_l1_hits mh'" "0 \<le> mh_l1_misses mh'" "0 \<le> mh_l2_hits mh'" "0 \<le> mh_l2_misses mh'" "0 \<le> mh_page_faults mh'"
    "mh_page_faults mh' \<le> mh_l2_misses mh'" "mh_l2_hits mh' + mh_l2_misses mh' = mh_l1_misses mh'"
    using iv by simp_all
  have ok: "int_ok (mh_l1_hits mh' + mh_l1_misses mh')" "int_ok (mh_l2_hits mh' + mh_l2_misses mh')"
    using b m(3) by (intro int_okI; linarith)+
  have "printMemoryStats exact_ops mh' = Some ((mh_l1_hits mh', mh_l1_misses mh', mh_l2_hits mh', mh_l2_misses mh', mh_page_faults mh'),
      of_int (mh_l1_hits mh') / of_int (mh_l1_hits mh' + mh_l1_misses mh') * 100,
      of_int (mh_l2_hits mh') / of_int (mh_l2_hits mh' + mh_l2_misses mh') * 100)"
    using ok by (simp add: printMemoryStats_def exact_ops_def Let_def)
  with m(1,3) b rate_bounds [OF b(1,2)] rate_bounds [OF b(3,4)] show ?thesis by blast
qed

subsection \<open>The status of a process (d3)\<close>

definition print_process_info :: "ProcessInfo \<Rightarrow> string list" where
  "print_process_info info =
     [''PID: '' @ print_int (pi_pid info), ''Name: '' @ pi_name info,
      ''State: '' @ [pi_state info] @ '' ('' @ state_text (pi_state info) @ '')'',
      ''Virtual Memory: '' @ digits (unat (pi_vm_size info)) @ '' KB'', ''RSS: '' @ digits (unat (pi_vm_rss info)) @ '' KB'',
      ''Threads: '' @ digits (unat (pi_threads info)), ''------------------------'']"

lemma print_zero_info:
  "print_process_info (zero_info\<lparr>pi_pid := 42, pi_name := ''sh'', pi_state := CHR ''S'', pi_vm_size := 8000\<rparr>) =
    [''PID: 42'', ''Name: sh'', ''State: S (Sleeping)'', ''Virtual Memory: 8000 KB'', ''RSS: 0 KB'', ''Threads: 0'', ''------------------------'']"
proof -
  have "char_of (48 :: nat) = CHR ''0''" "char_of (50 :: nat) = CHR ''2''" "char_of (52 :: nat) = CHR ''4''" "char_of (56 :: nat) = CHR ''8''"
    by code_simp+
  then have "digits 42 = ''42''" "digits 8000 = ''8000''" "digits 0 = ''0''" by (simp_all add: digits.simps)
  then show ?thesis by (simp add: print_process_info_def zero_info_def print_int_def state_text_def)
qed

end
