(* ===== verification/Rooted_Files.thy ===== *)
theory Rooted_Files
  imports Buffered_Files
begin

section \<open>Files under a root directory: d25 basic\_file\_operations.c\<close>

text \<open>
  The wrappers that open files relative to a root path and hand everything else to a table of function pointers, and the
  sequential reader of record files. The system calls in the table are parameters over a state \<open>'s\<close> of the system. The
  root path lies in memory from \<open>malloc\<close>, so what was there before (\<open>old\<close>) stays behind what is copied.
\<close>

definition PATH_MAX :: nat where "PATH_MAX = 1024"

record 's file_operations =
  op_open :: "string \<Rightarrow> int \<Rightarrow> 's \<Rightarrow> int \<times> 's"
  op_read :: "int \<Rightarrow> nat \<Rightarrow> 's \<Rightarrow> (int \<times> 8 word list) \<times> 's"
  op_write :: "int \<Rightarrow> 8 word list \<Rightarrow> nat \<Rightarrow> 's \<Rightarrow> int \<times> 's"
  op_close :: "int \<Rightarrow> 's \<Rightarrow> int \<times> 's"
  op_seek :: "int \<Rightarrow> int \<Rightarrow> int \<Rightarrow> 's \<Rightarrow> int \<times> 's"

record 's rooted_fs =
  rf_ops :: "'s file_operations"
  rf_root_path :: "char list"

definition create_file_system :: "'s file_operations \<Rightarrow> char list option \<Rightarrow> string \<Rightarrow> 's rooted_fs option" where
  "create_file_system ops old root =
     map_option (\<lambda>buf. \<lparr>rf_ops = ops, rf_root_path = c_strncpy buf root (PATH_MAX - 1)\<rparr>) old"

text \<open>\<open>snprintf\<close> cuts the path so that it fits with its terminator.\<close>

definition fs_open_file :: "'s rooted_fs \<Rightarrow> string \<Rightarrow> int \<Rightarrow> 's \<Rightarrow> (int \<times> 's) option" where
  "fs_open_file fs path flags s = do {
     root \<leftarrow> c_string (rf_root_path fs);
     let full_path = take (PATH_MAX - 1) (root @ ''/'' @ path);
     Some (op_open (rf_ops fs) full_path flags s) }"

definition fs_read_file :: "'s rooted_fs \<Rightarrow> int \<Rightarrow> nat \<Rightarrow> 's \<Rightarrow> (int \<times> 8 word list) \<times> 's" where
  "fs_read_file fs fd count s = op_read (rf_ops fs) fd count s"

definition fs_write :: "'s rooted_fs \<Rightarrow> int \<Rightarrow> 8 word list \<Rightarrow> nat \<Rightarrow> 's \<Rightarrow> int \<times> 's" where
  "fs_write fs fd buffer count s = op_write (rf_ops fs) fd buffer count s"

definition fs_close_file :: "'s rooted_fs \<Rightarrow> int \<Rightarrow> 's \<Rightarrow> int \<times> 's" where
  "fs_close_file fs fd s = op_close (rf_ops fs) fd s"

text \<open>
  A root shorter than the buffer is kept; then the file opened is the one under the root, as long as its path
  fits, and otherwise the one whose name is the first 1023 characters of it.
\<close>

lemma open_under_root:
  assumes "length buf = PATH_MAX" and "length root < PATH_MAX - 1" and "CHR 0x00 \<notin> set root"
    and "create_file_system ops (Some buf) root = Some fs"
  shows "fs_open_file fs path flags s =
    Some (op_open ops (if length root + length path < PATH_MAX - 1 then root @ ''/'' @ path
      else take (PATH_MAX - 1) (root @ ''/'' @ path)) flags s)"
proof -
  have "c_string (c_strncpy buf root (PATH_MAX - 1)) = Some root" using assms(1-3) by (intro c_string_strncpy) simp_all
  moreover have "fs = \<lparr>rf_ops = ops, rf_root_path = c_strncpy buf root (PATH_MAX - 1)\<rparr>"
    using assms(4) by (simp add: create_file_system_def)
  ultimately show ?thesis by (simp add: fs_open_file_def)
qed

text \<open>Two different files can be opened as one.\<close>

lemma long_paths_collide:
  assumes "length buf = PATH_MAX" and "length root < PATH_MAX - 1" and "CHR 0x00 \<notin> set root"
    and fs: "create_file_system ops (Some buf) root = Some fs" and "PATH_MAX - 1 \<le> length root + length path"
  shows "fs_open_file fs (path @ p) flags s = fs_open_file fs (path @ q) flags s"
proof -
  have "take (PATH_MAX - 1) (root @ ''/'' @ path @ x) = take (PATH_MAX - 1) (root @ ''/'' @ path)" for x
    using take_append [of "PATH_MAX - 1" "root @ ''/'' @ path" x] assms(5) by (simp del: take_append take_Cons')
  then show ?thesis
    using open_under_root [OF assms(1-3) fs, of "path @ p" flags s] open_under_root [OF assms(1-3) fs, of "path @ q" flags s] assms(5)
    by (simp add: append_assoc [symmetric] del: append_assoc)
qed

text \<open>A root that fills the buffer is not terminated by the copy; whether it can be used depends on what the memory held.\<close>

lemma long_root_unterminated:
  assumes "length buf = PATH_MAX" and "PATH_MAX - 1 \<le> length root" and "CHR 0x00 \<notin> set root"
    and fs: "create_file_system ops (Some buf) root = Some fs"
  shows "fs_open_file fs path flags s = None \<longleftrightarrow> last buf \<noteq> CHR 0x00"
proof -
  have "drop (PATH_MAX - 1) buf = [last buf]"
    using assms(1) by (cases buf rule: rev_cases) (simp_all add: PATH_MAX_def)
  moreover have "CHR 0x00 \<notin> set (take (PATH_MAX - 1) root)" using assms(3) by (meson in_set_takeD)
  moreover have "fs = \<lparr>rf_ops = ops, rf_root_path = take (PATH_MAX - 1) root @ drop (PATH_MAX - 1) buf\<rparr>"
    using fs assms(2) by (simp add: create_file_system_def c_strncpy_unterminated)
  ultimately show ?thesis by (auto simp: fs_open_file_def c_string_def)
qed

subsection \<open>Reading a record file from the start\<close>

text \<open>
  The records printed: the number and the string in the data. Records are read as long as they are complete; data
  without a terminator would be read past its end.
\<close>

definition c_bytes :: "8 word list \<Rightarrow> 8 word list option" where
  "c_bytes bs = (if 0 \<in> set bs then Some (takeWhile (\<lambda>b. b \<noteq> 0) bs) else None)"

definition sequential_access :: "bool \<Rightarrow> file_record list \<Rightarrow> (int \<times> 8 word list) list option" where
  "sequential_access file_ok records =
     (if \<not> file_ok then Some []
      else foldM (\<lambda>r out. do { d \<leftarrow> c_bytes (fr_data r); Some (out @ [(fr_id r, d)]) }) records [])"

lemma sequential_access_prints:
  "sequential_access True records =
     (if \<forall>r \<in> set records. 0 \<in> set (fr_data r)
      then Some (map (\<lambda>r. (fr_id r, takeWhile (\<lambda>b. b \<noteq> 0) (fr_data r))) records) else None)"
proof -
  let ?f = "\<lambda>r out. do { d \<leftarrow> c_bytes (fr_data r); Some (out @ [(fr_id r, d)]) }"
  have "foldM ?f records out =
      (if \<forall>r \<in> set records. 0 \<in> set (fr_data r)
       then Some (out @ map (\<lambda>r. (fr_id r, takeWhile (\<lambda>b. b \<noteq> 0) (fr_data r))) records) else None)" for out
    by (induction records arbitrary: out) (auto simp: c_bytes_def)
  then show ?thesis by (simp add: sequential_access_def)
qed

text \<open>The record the index points to is the one the sequential reader prints.\<close>

lemma index_agrees_with_reading:
  assumes "length raw = length records" and "extra < sizeof_Record"
    and "build_index True True (Some raw) records extra = Some (Some (es, n))" and "sequential_access True records = Some out"
  shows "n = length out \<and> map ix_key es = map fst out"
proof -
  have "es = map (\<lambda>(k, r). \<lparr>ix_key = fr_id r, ix_position = int (k * sizeof_Record)\<rparr>) (enumerate 0 records)" "n = length records"
    using assms(3) build_index_ok [OF assms(1,2)] by simp_all
  moreover have "out = map (\<lambda>r. (fr_id r, takeWhile (\<lambda>b. b \<noteq> 0) (fr_data r))) records"
    using assms(4) by (simp add: sequential_access_prints split: if_splits)
  ultimately show ?thesis by (auto simp: enumerate_eq_zip zip_map_fst_snd intro!: nth_equalityI)
qed

definition log_open :: "string list file_operations" where
  "log_open = \<lparr>op_open = \<lambda>p flags s. (3, s @ [p]), op_read = \<lambda>fd n s. ((0, []), s), op_write = \<lambda>fd b n s. (0, s),
     op_close = \<lambda>fd s. (0, s), op_seek = \<lambda>fd offset whence s. (offset, s)\<rparr>"

lemma open_under_root_witness:
  "\<exists>fs. create_file_system log_open (Some (replicate PATH_MAX CHR ''x'')) ''data'' = Some fs \<and>
     fs_open_file fs ''a.txt'' 0 [] = Some (3, [''data/a.txt''])"
proof -
  obtain fs where fs: "create_file_system log_open (Some (replicate PATH_MAX CHR ''x'')) ''data'' = Some fs"
    by (simp add: create_file_system_def)
  from open_under_root [OF _ _ _ this, of "''a.txt''" 0 "[]"] fs show ?thesis by (simp add: PATH_MAX_def log_open_def)
qed

end
