(* ===== verification/File_Programs.thy ===== *)
theory File_Programs
  imports Open_Files Rooted_Files File_Journal Process_Status
begin

section \<open>Error texts and the main programs of the file exercises (d25, d27)\<close>

text \<open>
  The error text of \<open>error_handling.c\<close> and the \<open>main\<close> functions of \<open>file_descriptor_management.c\<close>, \<open>file_system_demo.c\<close>,
  \<open>recovery.c\<close> and \<open>performance_optimization.c\<close>.
\<close>

lemma take_front: "length h \<le> n \<Longrightarrow> take n (h @ t) = h @ take (n - length h) t"
  by simp

subsection \<open>The error text (d25 error\_handling.c)\<close>

definition fs_error_code :: "fs_error \<Rightarrow> int" where
  "fs_error_code e = (case e of FS_ERROR_NONE \<Rightarrow> 0 | FS_ERROR_IO \<Rightarrow> 1 | FS_ERROR_NOMEM \<Rightarrow> 2 | FS_ERROR_NOSPACE \<Rightarrow> 3
     | FS_ERROR_NOTFOUND \<Rightarrow> 4 | FS_ERROR_PERMISSION \<Rightarrow> 5 | FS_ERROR_INVALID \<Rightarrow> 6)"

text \<open>\<open>snprintf\<close> into a buffer of 512 characters; \<open>strerror\<close> is a parameter.\<close>

definition fs_error_string :: "(int \<Rightarrow> string) \<Rightarrow> fs_error_info option \<Rightarrow> string option" where
  "fs_error_string strerror ctx = (case ctx of
     None \<Rightarrow> Some ''Invalid context''
   | Some e \<Rightarrow> do {
       msg \<leftarrow> c_string (ei_msg e);
       Some (take 511 ((''Error: '' @ msg @ '' (code: '' @ print_int (fs_error_code (ei_code e))) @
         ('', error: '' @ print_int (ei_system_errno e) @ '' - '' @ strerror (ei_system_errno e) @ '')''))) })"

text \<open>The text always contains the whole message and the code; only what \<open>strerror\<close> adds can be cut.\<close>

lemma error_text_complete:
  assumes "length (ei_msg e) = 256" and "CHR 0x00 \<notin> set msg"
  shows "\<exists>e' rest. fs_set_error (Some e) code msg errno = Some (Some e') \<and>
    fs_error_string strerror (Some e') = Some (''Error: '' @ take 255 msg @ '' (code: '' @ print_int (fs_error_code code) @ rest)"
proof -
  from fs_set_error_msg [OF assms, of code errno] obtain e' where
    e': "fs_set_error (Some e) code msg errno = Some (Some e')" "ei_code e' = code" "c_string (ei_msg e') = Some (take 255 msg)" by auto
  let ?head = "''Error: '' @ take 255 msg @ '' (code: '' @ print_int (fs_error_code code)"
  let ?tail = "'', error: '' @ print_int (ei_system_errno e') @ '' - '' @ strerror (ei_system_errno e') @ '')''"
  have "length (print_int (fs_error_code code)) = 1"
    by (cases code) (simp_all add: fs_error_code_def print_int_def digits.simps)
  then have "length ?head \<le> 511" by simp
  then have "take 511 (?head @ ?tail) = ?head @ take (511 - length ?head) ?tail" by (rule take_front)
  then have "fs_error_string strerror (Some e') = Some (?head @ take (511 - length ?head) ?tail)"
    unfolding fs_error_string_def option.case e'(2,3) bind.bind_lunit by (rule arg_cong)
  with e'(1) show ?thesis by (intro exI [of _ e'] exI [of _ "take (511 - length ?head) ?tail"]) (simp only: append_assoc simp_thms)
qed

subsection \<open>The descriptor table (d25 file\_descriptor\_management.c)\<close>

definition fd_main :: "bool \<Rightarrow> (fd_table option \<times> int \<times> int) option" where
  "fd_main table_ok = do {
     let fd_table = fd_table_create table_ok;
     (fd_table, idx) \<leftarrow> fd_table_add fd_table 200;
     (fd_table, fd) \<leftarrow> fd_table_remove fd_table 200;
     Some (fd_table, idx, fd) }"

text \<open>The descriptor goes to index 0, but index 200 is what is removed: the table keeps it.\<close>

lemma fd_main_keeps_descriptor:
  "fd_main True = Some (Some \<lparr>ft_fd_arr = 200 # replicate 1023 (- 1), ft_count = 1\<rparr>, 0, - 1)"
  "fd_main False = Some (None, - 1, - 1)"
proof -
  obtain t where t: "fd_table_create True = Some t" "fd_inv t" "fd_used t = {}" using fd_table_create_ok by blast
  then have arr: "t = \<lparr>ft_fd_arr = replicate 1024 (- 1), ft_count = 0\<rparr>" by (simp add: fd_table_create_def MAX_FD_def)
  have "fd_table_add (Some t) 200 = Some (Some (t\<lparr>ft_fd_arr := (ft_fd_arr t)[0 := 200], ft_count := ft_count t + 1\<rparr>), int 0)"
    by (rule fd_table_add_free(1)) (use t arr in simp_all)
  moreover have "(replicate 1024 (- 1 :: int))[0 := 200] = 200 # replicate 1023 (- 1)"
    using replicate_Suc [of 1023 "- 1 :: int"] by (simp add: numeral_eq_Suc del: replicate_Suc replicate.simps)
  ultimately show "fd_main True = Some (Some \<lparr>ft_fd_arr = 200 # replicate 1023 (- 1), ft_count = 1\<rparr>, 0, - 1)"
    using t(1) by (simp add: fd_main_def fd_table_remove_def MAX_FD_def arr)
  show "fd_main False = Some (None, - 1, - 1)" by (simp add: fd_main_def fd_table_create_def fd_table_add_def fd_table_remove_def)
qed

subsection \<open>One file in a new file system (d25 file\_system\_demo.c)\<close>

text \<open>
  What the program prints: the index of the file, or the error text. \<open>rc\<close> and \<open>exists\<close> are the outcome of \<open>mkdir\<close>. The mode is
  octal 644.
\<close>

datatype demo_output = No_File_System | Error_Text string | File_Index int

definition fs_demo_main ::
  "bool \<Rightarrow> int \<Rightarrow> bool \<Rightarrow> (string \<Rightarrow> c_uint \<Rightarrow> int) \<Rightarrow> (int \<Rightarrow> (int \<times> int \<times> int \<times> int) option) \<Rightarrow> int \<Rightarrow> (int \<Rightarrow> string) \<Rightarrow> demo_output option" where
  "fs_demo_main fs_ok rc exists open_call fstat errno strerror =
     (case fs_create fs_ok ''/tmp/testfs'' rc exists of
        None \<Rightarrow> Some No_File_System
      | Some fs \<Rightarrow> do {
          (fs, file_idx, closed) \<leftarrow> fs_create_file open_call fstat errno (Some fs) (Some ''test.txt'') 420;
          if file_idx < 0 then map_option Error_Text (fs_error_string strerror (Some (df_error_ctx fs)))
          else Some (File_Index file_idx) })"

lemma fs_create_inv:
  assumes "fs_create fs_ok root rc exists = Some fs" and "length root < FS_MAX_PATH - 1" and "CHR 0x00 \<notin> set root"
  shows "demo_inv fs \<and> df_file_count fs = 0 \<and> c_string (df_root fs) = Some root"
proof -
  have fs: "fs = zero_demo_fs\<lparr>df_root := c_strncpy (df_root zero_demo_fs) root (FS_MAX_PATH - 1)\<rparr>"
    using assms(1) by (auto simp: fs_create_def Let_def split: if_splits)
  have "c_string (c_strncpy (df_root zero_demo_fs) root (FS_MAX_PATH - 1)) = Some root"
    using assms(2,3) by (intro c_string_strncpy) (simp_all add: zero_demo_fs_def)
  then show ?thesis by (simp add: fs demo_inv_def) (simp add: zero_demo_fs_def)
qed

text \<open>When the file can be opened the program prints index 0, and otherwise a text that begins with the message and code 1.\<close>

lemma fs_demo_main_prints:
  "if \<not> fs_ok \<or> (rc < 0 \<and> \<not> exists) then fs_demo_main fs_ok rc exists open_call fstat errno strerror = Some No_File_System
   else if open_call ''/tmp/testfs/test.txt'' 420 < 0
   then \<exists>rest. fs_demo_main fs_ok rc exists open_call fstat errno strerror =
     Some (Error_Text (''Error: Failed to create file (code: 1'' @ rest))
   else fs_demo_main fs_ok rc exists open_call fstat errno strerror = Some (File_Index 0)"
proof (cases "fs_create fs_ok ''/tmp/testfs'' rc exists")
  case None
  then show ?thesis by (simp add: fs_demo_main_def fs_create_def Let_def split: if_splits)
next
  case (Some fs)
  have made: "\<not> (\<not> fs_ok \<or> (rc < 0 \<and> \<not> exists))" using Some by (auto simp: fs_create_def Let_def split: if_splits)
  have inv: "demo_inv fs" "df_file_count fs = 0" "c_string (df_root fs) = Some ''/tmp/testfs''"
    using fs_create_inv [OF Some] by (simp_all add: FS_MAX_PATH_def)
  have path: "take (FS_MAX_PATH - 1) (''/tmp/testfs'' @ ''/'' @ ''test.txt'') = ''/tmp/testfs/test.txt''"
    by (simp add: FS_MAX_PATH_def)
  let ?fd = "open_call ''/tmp/testfs/test.txt'' 420"
  show ?thesis
  proof (cases "?fd < 0")
    case True
    have "length (ei_msg (df_error_ctx fs)) = 256" using inv(1) by (simp add: demo_inv_def)
    from error_text_complete [OF this, of "''Failed to create file''" FS_ERROR_IO errno strerror] obtain e' rest where
      e': "fs_set_error (Some (df_error_ctx fs)) FS_ERROR_IO ''Failed to create file'' errno = Some (Some e')"
        "fs_error_string strerror (Some e') = Some (''Error: '' @ take 255 ''Failed to create file'' @ '' (code: '' @ print_int (fs_error_code FS_ERROR_IO) @ rest)"
      by auto
    have "print_int (fs_error_code FS_ERROR_IO) = ''1''" by code_simp
    with e'(2) have shown: "fs_error_string strerror (Some e') = Some (''Error: Failed to create file (code: 1'' @ rest)" by simp
    have "fs_create_file open_call fstat errno (Some fs) (Some ''test.txt'') 420 = Some (fs\<lparr>df_error_ctx := e'\<rparr>, -1, None)"
      unfolding fs_create_file_def option.case inv(3) bind.bind_lunit Let_def path if_P [OF True] set_ctx_error_def e'(1) by simp
    with Some shown show ?thesis unfolding if_not_P [OF made] if_P [OF True] by (simp add: fs_demo_main_def)
  next
    case False
    have same: "fs_create_file open_call fstat errno (Some fs) (Some ''test.txt'') 420 =
        fs_create_file (\<lambda>_ _. ?fd) fstat errno (Some fs) (Some ''test.txt'') 420"
      unfolding fs_create_file_def option.case inv(3) bind.bind_lunit Let_def path by (rule refl)
    have pos: "\<forall>(p :: string) (m :: c_uint). 0 \<le> (\<lambda>_ _. ?fd) p m" using False by simp
    from fs_create_file_cases(1) [OF inv(1) pos, of fstat errno "''test.txt''" 420] obtain fs' where
      "fs_create_file (\<lambda>_ _. ?fd) fstat errno (Some fs) (Some ''test.txt'') 420 = Some (fs', 0, None)" using inv(2) by auto
    with same show ?thesis unfolding if_not_P [OF made] if_not_P [OF False] using Some by (simp add: fs_demo_main_def)
  qed
qed

subsection \<open>Seven transactions (d27 recovery.c)\<close>

text \<open>Logging a sequence of transactions: the lines that checkpoints commit on the way are collected.\<close>

definition log_all ::
  "int \<Rightarrow> (int \<times> 8 word list \<times> 8 word list \<times> int) list \<Rightarrow> recovery_manager \<times> (int \<times> int \<times> int) list \<Rightarrow>
     (recovery_manager \<times> (int \<times> int \<times> int) list) option" where
  "log_all now = foldM (\<lambda>(block_num, old_data, new_data, n) (manager, out). do {
     (manager, idx, committed) \<leftarrow> log_transaction now True True manager block_num old_data new_data n;
     Some (manager, out @ committed) })"

text \<open>Block and size of a transaction, and of a committed line.\<close>

definition tx_line :: "int \<times> 8 word list \<times> 8 word list \<times> int \<Rightarrow> int \<times> int" where
  "tx_line = (\<lambda>(b, old, new, n). (b, n))"

definition tx_ok :: "int \<times> 8 word list \<times> 8 word list \<times> int \<Rightarrow> bool" where
  "tx_ok = (\<lambda>(b, old, new, n). 0 \<le> n \<and> nat n \<le> length old \<and> nat n \<le> length new)"

text \<open>One transaction more: it is the last of the lines committed and still pending.\<close>

lemma log_step:
  assumes "rm_inv m" and "0 \<le> n" and "nat n \<le> length old" and "nat n \<le> length new"
  shows "\<exists>m' idx committed. log_transaction now True True m b old new n = Some (m', idx, committed) \<and> rm_inv m' \<and>
    map snd (committed @ map entry_line (pending_entries m')) = map snd (map entry_line (pending_entries m)) @ [(b, n)]"
proof -
  from log_transaction_ok [OF assms, of now b] obtain m' e where
    "log_transaction now True True m b old new n = Some (m', (if rm_count m \<ge> rm_capacity m then 0 else rm_count m),
      (if rm_count m \<ge> rm_capacity m then map entry_line (pending_entries m) else []))" "rm_inv m'"
    "pending_entries m' = (if rm_count m \<ge> rm_capacity m then [] else pending_entries m) @ [e]"
    "je_block_num e = b" "je_data_size e = n" by force
  then show ?thesis by (simp add: entry_line_def)
qed

lemma log_all_keeps:
  assumes "rm_inv m" and "\<forall>t \<in> set txs. tx_ok t"
  shows "\<exists>m' out'. log_all now txs (m, out) = Some (m', out') \<and> rm_inv m' \<and>
    map snd (out' @ map entry_line (pending_entries m')) = map snd (out @ map entry_line (pending_entries m)) @ map tx_line txs"
  using assms
proof (induction txs arbitrary: m out)
  case Nil
  then show ?case by (simp add: log_all_def)
next
  case (Cons t txs)
  obtain b old new n where t: "t = (b, old, new, n)" by (cases t) auto
  then have ok: "0 \<le> n" "nat n \<le> length old" "nat n \<le> length new" using Cons.prems(2) by (simp_all add: tx_ok_def)
  from log_step [OF Cons.prems(1) ok, of now b] obtain m1 idx committed where
    m1: "log_transaction now True True m b old new n = Some (m1, idx, committed)" "rm_inv m1"
      "map snd (committed @ map entry_line (pending_entries m1)) = map snd (map entry_line (pending_entries m)) @ [(b, n)]" by blast
  from Cons.IH [OF m1(2), of "out @ committed"] Cons.prems(2) m1(3) obtain m' out' where
    "log_all now txs (m1, out @ committed) = Some (m', out')" "rm_inv m'"
      "map snd (out' @ map entry_line (pending_entries m')) =
        map snd out @ map snd (map entry_line (pending_entries m)) @ (b, n) # map tx_line txs" by auto
  with m1(1) show ?case by (simp add: log_all_def t tx_line_def)
qed

text \<open>
  No transaction is lost or committed twice: after a final checkpoint the lines committed are those logged, in order.
\<close>

lemma checkpoints_commit_all:
  assumes "rm_inv m" and "rm_count m = 0" and "\<forall>t \<in> set txs. tx_ok t"
  shows "\<exists>m1 m2 out committed. log_all now txs (m, []) = Some (m1, out) \<and> create_checkpoint now m1 = Some (m2, committed) \<and>
    rm_count m2 = 0 \<and> map snd (out @ committed) = map tx_line txs"
proof -
  from log_all_keeps [OF assms(1,3), of now "[]"] obtain m1 out where
    m1: "log_all now txs (m, []) = Some (m1, out)" "rm_inv m1"
      "map snd (out @ map entry_line (pending_entries m1)) = map snd (map entry_line (pending_entries m)) @ map tx_line txs" by auto
  from create_checkpoint_ok [OF m1(2), of now] obtain m2 where
    "create_checkpoint now m1 = Some (m2, map entry_line (pending_entries m1))" "rm_count m2 = 0" by blast
  moreover have "pending_entries m = []" using assms(2) by (simp add: pending_entries_def)
  ultimately show ?thesis using m1 by auto
qed

text \<open>\<open>sprintf\<close> into a buffer of bytes.\<close>

definition text_bytes :: "string \<Rightarrow> 8 word list" where
  "text_bytes s = map (\<lambda>c. of_nat (of_char c)) s"

definition c_sprintf :: "8 word list \<Rightarrow> string \<Rightarrow> 8 word list option" where
  "c_sprintf buf s = (if length s < length buf then Some (text_bytes s @ 0 # drop (Suc (length s)) buf) else None)"

text \<open>The program, for allocations that succeed; \<open>raw\<close> and the two blocks are what was in the memory. The result is what it prints.\<close>

definition recovery_manager_main ::
  "journal_entry list option \<Rightarrow> int \<Rightarrow> 8 word list \<Rightarrow> 8 word list \<Rightarrow> (int \<times> int \<times> int) list option" where
  "recovery_manager_main raw now old_block new_block = do {
     rm \<leftarrow> init_recovery_manager True raw now 3 5;
     old_block \<leftarrow> c_sprintf old_block ''OLD_DATA'';
     new_block \<leftarrow> c_sprintf new_block ''NEW_DATA'';
     (rm, old_block, new_block, out) \<leftarrow> for_loop 0 7 (\<lambda>i (rm, old_block, new_block, out). do {
        old_block \<leftarrow> c_sprintf old_block (''OLD_'' @ digits i);
        new_block \<leftarrow> c_sprintf new_block (''NEW_'' @ digits i);
        new_text \<leftarrow> c_bytes new_block;
        (rm, idx, committed) \<leftarrow> log_transaction now True True rm (int i) old_block new_block (int (length new_text) + 1);
        Some (rm, old_block, new_block, out @ committed) }) (rm, old_block, new_block, []);
     (rm, committed) \<leftarrow> create_checkpoint now rm;
     destroy_recovery_manager rm;
     Some (out @ committed) }"

lemma c_sprintf_ok:
  assumes "length s < length buf" and "CHR 0x00 \<notin> set s"
  shows "\<exists>buf'. c_sprintf buf s = Some buf' \<and> length buf' = length buf \<and> c_bytes buf' = Some (text_bytes s)"
proof -
  have "of_nat (of_char c) \<noteq> (0 :: 8 word)" if "c \<in> set s" for c
  proof -
    have c: "c = char_of (of_char c :: nat)" "(of_char c :: nat) < 256" by (simp_all add: nat_of_char_less_256)
    have "(of_char c :: nat) \<noteq> 0"
    proof
      assume "(of_char c :: nat) = 0"
      then have "c = char_of (0 :: nat)" using c(1) by simp
      moreover have "char_of (0 :: nat) = CHR 0x00" by code_simp
      ultimately show False using that assms(2) by simp
    qed
    with c(2) show ?thesis by (simp add: word_of_nat_eq_0_iff nat_dvd_not_less)
  qed
  then have "\<forall>b \<in> set (text_bytes s). b \<noteq> 0" by (auto simp: text_bytes_def)
  then have "takeWhile (\<lambda>b. b \<noteq> 0) (text_bytes s @ 0 # r) = text_bytes s" for r by (simp add: takeWhile_append2)
  then show ?thesis using assms(1) by (simp add: c_sprintf_def c_bytes_def text_bytes_def)
qed

text \<open>
  Seven transactions in a journal of three: two checkpoints on the way and one at the end commit blocks 0 to 6, six
  bytes each.
\<close>

lemma recovery_main_commits:
  assumes "length raw = 3" and "length old_block = 16" and "length new_block = 16"
  shows "\<exists>lines. recovery_manager_main (Some raw) now old_block new_block = Some lines \<and>
    map snd lines = map (\<lambda>i. (int i, 6)) [0..<7]"
proof -
  let ?rm = "\<lparr>rm_journal = raw, rm_capacity = 3, rm_count = 0, rm_checkpoint_interval = 5, rm_last_checkpoint = now\<rparr>"
  have inv: "rm_inv ?rm" "pending_entries ?rm = []" using assms(1) by (simp_all add: rm_inv_def pending_entries_def)
  obtain ob nb where buf: "c_sprintf old_block ''OLD_DATA'' = Some ob" "c_sprintf new_block ''NEW_DATA'' = Some nb"
    "length ob = 16" "length nb = 16"
    using c_sprintf_ok [of "''OLD_DATA''" old_block] c_sprintf_ok [of "''NEW_DATA''" new_block] assms by auto
  let ?P = "\<lambda>i (rm, ob, nb, out). rm_inv rm \<and> length ob = 16 \<and> length nb = 16 \<and>
    map snd (out @ map entry_line (pending_entries rm)) = map (\<lambda>i. (int i, 6)) [0..<i]"
  let ?body = "\<lambda>i (rm, old_block, new_block, out). do {
        old_block \<leftarrow> c_sprintf old_block (''OLD_'' @ digits i);
        new_block \<leftarrow> c_sprintf new_block (''NEW_'' @ digits i);
        new_text \<leftarrow> c_bytes new_block;
        (rm, idx, committed) \<leftarrow> log_transaction now True True rm (int i) old_block new_block (int (length new_text) + 1);
        Some (rm, old_block, new_block, out @ committed) }"
  have "\<exists>s'. ?body i s = Some s' \<and> ?P (Suc i) s'" if "i < 7" "?P i s" for i s
  proof -
    obtain rm o1 n1 out where s: "s = (rm, o1, n1, out)" by (cases s)
    with that(2) have P: "rm_inv rm" "length o1 = 16" "length n1 = 16"
      "map snd (out @ map entry_line (pending_entries rm)) = map (\<lambda>i. (int i, 6)) [0..<i]" by simp_all
    have "\<not> isdigit (CHR 0x00)" by (simp add: isdigit_def)
    then have d: "length (digits i) = 1" "CHR 0x00 \<notin> set (digits i)"
      using that(1) digits_digit [of i] by (auto simp: digits.simps [of i])
    obtain o2 where o2: "c_sprintf o1 (''OLD_'' @ digits i) = Some o2" "length o2 = 16"
      using c_sprintf_ok [of "''OLD_'' @ digits i" o1] P(2,3) d by auto
    obtain n2 where n2: "c_sprintf n1 (''NEW_'' @ digits i) = Some n2" "length n2 = 16"
      "c_bytes n2 = Some (text_bytes (''NEW_'' @ digits i))"
      using c_sprintf_ok [of "''NEW_'' @ digits i" n1] P(2,3) d by auto
    have len: "int (length (text_bytes (''NEW_'' @ digits i))) + 1 = 6" using d(1) by (simp add: text_bytes_def)
    from log_step [of rm 6 o2 n2 now "int i"] P(1) o2(2) n2(2) obtain rm' idx committed where
      "log_transaction now True True rm (int i) o2 n2 6 = Some (rm', idx, committed)" "rm_inv rm'"
      "map snd (committed @ map entry_line (pending_entries rm')) = map snd (map entry_line (pending_entries rm)) @ [(int i, 6)]" by auto
    with P s o2 n2 len show ?thesis by auto
  qed
  then have "\<exists>s. for_loop 0 7 ?body (?rm, ob, nb, []) = Some s \<and> ?P 7 s"
    by (intro for_loop_invar [where P = ?P]) (use inv buf(3,4) in auto)
  then obtain rm o1 n1 out where loop: "for_loop 0 7 ?body (?rm, ob, nb, []) = Some (rm, o1, n1, out)" "rm_inv rm"
    "map snd (out @ map entry_line (pending_entries rm)) = map (\<lambda>i. (int i, 6)) [0..<7]" by auto
  from create_checkpoint_ok [OF loop(2), of now] obtain rm' where
    cp: "create_checkpoint now rm = Some (rm', map entry_line (pending_entries rm))" "rm_count rm' = 0" by blast
  have "recovery_manager_main (Some raw) now old_block new_block = Some (out @ map entry_line (pending_entries rm))"
    unfolding recovery_manager_main_def init_recovery_manager_def using buf(1,2) loop(1) cp
    by (simp add: destroy_recovery_manager_def)
  with loop(3) show ?thesis by blast
qed

subsection \<open>Three accesses (d27 performance\_optimization.c)\<close>

text \<open>
  \<open>main\<close> calls \<open>init_optimizer\<close>, which is declared nowhere; \<open>init_performance_optimizer\<close> is meant. The result is the prefetch queue it
  prints; \<open>raw\<close> is the memory of the queue and \<open>raws\<close> that of the local arrays.
\<close>

definition optimizer_main ::
  "'d double_ops \<Rightarrow> ('d \<Rightarrow> 'd \<Rightarrow> bool) \<Rightarrow> 'd \<Rightarrow> int list option \<Rightarrow> int list \<Rightarrow> int list option" where
  "optimizer_main ops lt decay_factor raw raws = do {
     opt \<leftarrow> init_performance_optimizer ops True raw True 100 3;
     opt \<leftarrow> update_access_pattern ops lt decay_factor raws opt 5;
     opt \<leftarrow> update_access_pattern ops lt decay_factor raws opt 6;
     opt \<leftarrow> update_access_pattern ops lt decay_factor raws opt 7;
     foldM (\<lambda>i out. do { b \<leftarrow> rd (po_blocks opt) i; Some (out @ [b]) }) [0..<nat (po_count opt)] [] }"

text \<open>With numbers of four decimals: the next two blocks of the last access and the block accessed before it.\<close>

definition fixed_ops :: "int double_ops" where
  "fixed_ops = \<lparr>db_of_int = \<lambda>i. 10000 * i, db_zero = 0, db_one = 10000, db_add = (+), db_sub = (-),
     db_mul = \<lambda>x y. x * y div 10000, db_div = \<lambda>x y. x * 10000 div y\<rparr>"

lemma optimizer_main_queue:
  "optimizer_main fixed_ops (<) 9500 (Some [0, 0, 0]) (replicate 256 0) = Some [9, 10, 6]"
  by code_simp

end
