(* ===== verification/Directory_Programs.thy ===== *)
theory Directory_Programs
  imports Directory_Service
begin

section \<open>Programs around paths and directories: d26\<close>

text \<open>
  The rest of \<open>path_resolution.c\<close>, and \<open>directory_system_demo.c\<close>: the system that owns a tree, a cache and a journal, its
  statistics, and \<open>main\<close>. The demo does not compile (a missing brace, undeclared types and functions); what it calls and does not
  define is a parameter.
\<close>

subsection \<open>Paths (path\_resolution.c)\<close>

text \<open>A component owns two blocks, its name and itself; the result lists the blocks in the order in which they are freed.\<close>

record path_node =
  pn_node :: nat
  pn_name :: nat

primrec free_path_components :: "path_node list \<Rightarrow> nat list" where
  "free_path_components [] = []"
| "free_path_components (n # ns) = pn_name n # pn_node n # free_path_components ns"

lemma free_path_components_once:
  assumes "distinct (map pn_node ns)" and "distinct (map pn_name ns)" and "pn_node ` set ns \<inter> pn_name ` set ns = {}"
  shows "distinct (free_path_components ns) \<and> set (free_path_components ns) = pn_node ` set ns \<union> pn_name ` set ns"
  using assms by (induction ns) auto

definition print_path_components :: "string list \<Rightarrow> string list" where
  "print_path_components component = ''Path components:'' # map (\<lambda>name. name @ '' -> '') component"

definition path_main :: "bool \<Rightarrow> (nat \<Rightarrow> bool) \<Rightarrow> (nat \<Rightarrow> bool) \<Rightarrow> (nat \<Rightarrow> bool) \<Rightarrow> string list" where
  "path_main copy_ok node_ok same dup_ok =
     (let comps = split_path copy_ok node_ok same dup_ok (Some ''/usr/local/bin/'')
      in if comps \<noteq> [] then print_path_components comps else [''Failed to split path.''])"

text \<open>It always fails, unless an uninitialised field happens to hold the right pointer; with an assignment it would print three components.\<close>

lemma path_main_fails: "path_main copy_ok node_ok (\<lambda>_. False) dup_ok = [''Failed to split path.'']"
  by (simp add: path_main_def split_path_fails)

lemma path_main_meant:
  "path_main True (\<lambda>_. True) (\<lambda>_. True) (\<lambda>_. True) = [''Path components:'', ''usr -> '', ''local -> '', ''bin -> '']"
  by (simp add: path_main_def split_path_components print_path_components_def)

subsection \<open>The system (directory\_system\_demo.c)\<close>

text \<open>\<open>ds_ops\<close> is the table of operations, whatever it holds.\<close>

record ('d, 'o) directory_system =
  ds_tree :: directory_tree
  ds_cache :: "'d directory_cache"
  ds_journal :: dir_journal
  ds_ops :: 'o

datatype system_block = Tree_Block | Cache_Block | Journal_Block | System_Block | Root_Block | Journal_Entries

text \<open>The second component of the result lists what is freed on failure. The path of the root is not used.\<close>

definition create_directory_system ::
  "bool \<Rightarrow> directory_tree option \<Rightarrow> 'd directory_cache option \<Rightarrow> dir_journal option \<Rightarrow> 'o \<Rightarrow> string \<Rightarrow>
     ('d, 'o) directory_system option \<times> system_block list" where
  "create_directory_system system_ok tree cache journal ops root_path =
     (if \<not> system_ok then (None, [])
      else case (tree, cache, journal) of
        (Some t, Some c, Some j) \<Rightarrow> (Some \<lparr>ds_tree = t, ds_cache = c, ds_journal = j, ds_ops = ops\<rparr>, [])
      | _ \<Rightarrow> (None, (if tree \<noteq> None then [Tree_Block] else []) @ (if cache \<noteq> None then [Cache_Block] else []) @
                (if journal \<noteq> None then [Journal_Block] else []) @ [System_Block]))"

text \<open>The blocks the parts are made of.\<close>

definition system_blocks :: "bool \<Rightarrow> directory_tree option \<Rightarrow> 'd directory_cache option \<Rightarrow> dir_journal option \<Rightarrow> system_block set" where
  "system_blocks system_ok tree cache journal =
     (if system_ok then {System_Block} \<union> (if tree \<noteq> None then {Tree_Block, Root_Block} else {}) \<union> (if cache \<noteq> None then {Cache_Block} else {}) \<union>
        (if journal \<noteq> None then {Journal_Block, Journal_Entries} else {}) else {})"

text \<open>A failure frees every part that was made, and leaks what the tree and the journal own.\<close>

lemma failed_system_leaks:
  assumes "create_directory_system True tree cache journal ops p = (None, freed)"
  shows "system_blocks True tree cache journal - set freed =
    (if tree \<noteq> None then {Root_Block} else {}) \<union> (if journal \<noteq> None then {Journal_Entries} else {})" and "distinct freed"
    and "set freed \<subseteq> system_blocks True tree cache journal"
  using assms by (auto simp: create_directory_system_def system_blocks_def split: option.splits)

lemma created_system:
  assumes "create_directory_tree True mkdir = Some t" and "raw \<noteq> None"
  shows "\<exists>sys. create_directory_system True (create_directory_tree True mkdir) (create_directory_cache True) (create_journal True raw file) ops p
      = (Some sys, []) \<and> ds_tree sys = t \<and> dt_total_dirs t = 1 \<and> dj_count (ds_journal sys) = 0"
proof -
  obtain es where "raw = Some es" using assms(2) by blast
  moreover have "dt_total_dirs t = 1" using assms(1) by (auto simp: create_directory_tree_def split: option.splits)
  ultimately show ?thesis using assms(1) by (simp add: create_directory_system_def create_journal_def create_directory_cache_def)
qed

subsection \<open>Statistics\<close>

datatype operation_type = OPERATION_LOOKUP | OPERATION_CREATE | OPERATION_DELETE | Other_Operation

record directory_stats =
  st_cache_hits :: size_t
  st_cache_misses :: size_t
  st_total_operations :: size_t
  st_total_lookup_time :: "int \<times> int"
  st_total_create_time :: "int \<times> int"
  st_total_delete_time :: "int \<times> int"

text \<open>
  The increment of \<open>total_operations\<close> stands after the last \<open>break\<close>, inside the switch that is not closed before it: no case
  leads there.
\<close>

definition update_stats ::
  "(int \<times> int \<Rightarrow> int \<times> int \<Rightarrow> int \<times> int) \<Rightarrow> directory_stats \<Rightarrow> int \<times> int \<Rightarrow> int \<times> int \<Rightarrow> operation_type \<Rightarrow> directory_stats" where
  "update_stats timespec_add stats start fin operation_type =
     (let diff = timespec_diff start fin in
      case operation_type of
        OPERATION_LOOKUP \<Rightarrow> stats\<lparr>st_total_lookup_time := timespec_add (st_total_lookup_time stats) diff\<rparr>
      | OPERATION_CREATE \<Rightarrow> stats\<lparr>st_total_create_time := timespec_add (st_total_create_time stats) diff\<rparr>
      | OPERATION_DELETE \<Rightarrow> stats\<lparr>st_total_delete_time := timespec_add (st_total_delete_time stats) diff\<rparr>
      | Other_Operation \<Rightarrow> stats)"

definition nanoseconds :: "int \<times> int \<Rightarrow> int" where
  "nanoseconds t = fst t * 1000000000 + snd t"

lemma timespec_diff_nanoseconds: "nanoseconds (timespec_diff start fin) = nanoseconds fin - nanoseconds start"
  by (simp add: nanoseconds_def timespec_diff_def Let_def algebra_simps)

text \<open>
  After any sequence of operations the lookup time is the sum of the times of the lookups, provided that \<open>timespec_add\<close> adds; and the
  number of operations is what it was.
\<close>

lemma stats_of_operations:
  assumes add: "\<And>a b. nanoseconds (timespec_add a b) = nanoseconds a + nanoseconds b"
  shows "let stats' = foldl (\<lambda>st (start, fin, op). update_stats timespec_add st start fin op) stats events in
    nanoseconds (st_total_lookup_time stats') = nanoseconds (st_total_lookup_time stats) +
      (\<Sum>(start, fin, op)\<leftarrow>filter (\<lambda>(start, fin, op). op = OPERATION_LOOKUP) events. nanoseconds fin - nanoseconds start) \<and>
    st_total_operations stats' = st_total_operations stats"
proof (induction events arbitrary: stats)
  case (Cons e events)
  obtain start fin op where e: "e = (start, fin, op)" by (cases e)
  let ?s = "update_stats timespec_add stats start fin op"
  have "st_total_operations ?s = st_total_operations stats"
    by (cases op) (simp_all add: update_stats_def Let_def)
  moreover have "nanoseconds (st_total_lookup_time ?s) = nanoseconds (st_total_lookup_time stats) +
      (if op = OPERATION_LOOKUP then nanoseconds fin - nanoseconds start else 0)"
    by (cases op) (simp_all add: update_stats_def Let_def add timespec_diff_nanoseconds)
  ultimately show ?case using Cons.IH [of ?s] by (simp add: e Let_def)
qed simp

text \<open>An instance: adding with a carry.\<close>

definition carry_add :: "int \<times> int \<Rightarrow> int \<times> int \<Rightarrow> int \<times> int" where
  "carry_add a b = (let n = snd a + snd b in if n < 1000000000 then (fst a + fst b, n) else (fst a + fst b + 1, n - 1000000000))"

lemma carry_add_adds: "nanoseconds (carry_add a b) = nanoseconds a + nanoseconds b"
  by (simp add: nanoseconds_def carry_add_def Let_def algebra_simps)

subsection \<open>The demo\<close>

text \<open>\<open>create\<close> and \<open>list_op\<close> are the operations in the table of the system; the result is what is printed and the exit code.\<close>

definition directory_main ::
  "('d, 'o) directory_system option \<Rightarrow> ('o \<Rightarrow> string \<Rightarrow> int \<Rightarrow> int) \<Rightarrow> ('o \<Rightarrow> string \<Rightarrow> string list option) \<Rightarrow> string \<Rightarrow> string list \<times> int" where
  "directory_main sys create list_op reason =
     (case sys of
        None \<Rightarrow> ([''Failed to create directory system''], 1)
      | Some s \<Rightarrow>
          if create (ds_ops s) ''/root/test'' 493 < 0 then ([''Failed to create directory: '' @ reason], 1)
          else case list_op (ds_ops s) ''/root'' of
            None \<Rightarrow> ([''Failed to list directory: '' @ reason], 1)
          | Some names \<Rightarrow> (names, 0))"

text \<open>It succeeds exactly when all three calls do, and then prints the names.\<close>

lemma directory_main_succeeds:
  "directory_main sys create list_op reason = (names, 0) \<longleftrightarrow>
     (\<exists>s. sys = Some s \<and> 0 \<le> create (ds_ops s) ''/root/test'' 493 \<and> list_op (ds_ops s) ''/root'' = Some names)"
  by (auto simp: directory_main_def split: option.splits)

end
