(* ===== verification/Thread_Scripts.thy ===== *)
theory Thread_Scripts
  imports OS_Prelude Interleaving
begin

section \<open>Programs that start others, print and wait\<close>

text \<open>
  Programs in which a main thread (or a parent) starts others, everybody prints lines, and the main thread may wait for the others
  before it ends. What each of them does is a list of calls; the calls of different threads are interleaved. The process ends with
  \<open>Exit\<close>, and with it every thread that is still running. Thread\_Programs has the programs of d1, d3, d8 and d10 of this kind.
\<close>

subsection \<open>Calls and their interleaving\<close>

datatype call = Print string | Start nat | Join nat | Sleep | Exit

type_synonym script = "call list"

text \<open>\<open>ts_todo\<close>: what a thread still has to do, \<open>None\<close> before it is started. The output names the thread that printed a line.\<close>

record script_state =
  ts_todo :: "nat \<Rightarrow> script option"
  ts_out :: "(nat \<times> string) list"
  ts_ended :: bool

definition do_call :: "script list \<Rightarrow> nat \<Rightarrow> call \<Rightarrow> script_state \<Rightarrow> script_state option" where
  "do_call prog i c s =
     (case c of
        Print line \<Rightarrow> Some (s\<lparr>ts_out := ts_out s @ [(i, line)]\<rparr>)
      | Start j \<Rightarrow> do { script \<leftarrow> rd prog j; Some (s\<lparr>ts_todo := (ts_todo s)(j \<mapsto> script)\<rparr>) }
      | Join j \<Rightarrow> if ts_todo s j = Some [] then Some s else None
      | Sleep \<Rightarrow> Some s
      | Exit \<Rightarrow> Some (s\<lparr>ts_ended := True\<rparr>))"

definition script_thread :: "script list \<Rightarrow> nat \<Rightarrow> script_state \<Rightarrow> script_state option" where
  "script_thread prog i s =
     (if ts_ended s then None
      else case ts_todo s i of
        Some (c # rest) \<Rightarrow> do_call prog i c (s\<lparr>ts_todo := (ts_todo s)(i \<mapsto> rest)\<rparr>)
      | _ \<Rightarrow> None)"

definition script_threads :: "script list \<Rightarrow> (script_state \<Rightarrow> script_state option) list" where
  "script_threads prog = map (script_thread prog) [0..<length prog]"

definition script_start :: "script list \<Rightarrow> script_state" where
  "script_start prog = \<lparr>ts_todo = [0 \<mapsto> prog ! 0], ts_out = [], ts_ended = False\<rparr>"

text \<open>What a script prints, and what one thread has printed.\<close>

fun prints :: "script \<Rightarrow> string list" where
  "prints [] = []"
| "prints (Print l # cs) = l # prints cs"
| "prints (c # cs) = prints cs"

definition lines_of :: "nat \<Rightarrow> (nat \<times> string) list \<Rightarrow> string list" where
  "lines_of i out = map snd (filter (\<lambda>x. fst x = i) out)"

lemma prints_append [simp]: "prints (cs @ ds) = prints cs @ prints ds"
  by (induction cs rule: prints.induct) simp_all

lemma lines_of_simps [simp]:
  "lines_of i [] = []" "lines_of i (out @ [(j, l)]) = lines_of i out @ (if j = i then [l] else [])"
  by (simp_all add: lines_of_def)

subsection \<open>Programs of a main thread and workers\<close>

text \<open>
  The workers only print and sleep; the main thread starts each of them at most once, waits only for what it has started, and ends the
  process at its end. \<open>started\<close> are the workers started so far.
\<close>

fun worker_ok :: "script \<Rightarrow> bool" where
  "worker_ok [] = True"
| "worker_ok (Print l # cs) = worker_ok cs"
| "worker_ok (Sleep # cs) = worker_ok cs"
| "worker_ok (c # cs) = False"

fun main_ok :: "nat \<Rightarrow> nat list \<Rightarrow> script \<Rightarrow> bool" where
  "main_ok n started [] = False"
| "main_ok n started (Print l # cs) = main_ok n started cs"
| "main_ok n started (Sleep # cs) = main_ok n started cs"
| "main_ok n started (Start j # cs) = (0 < j \<and> j < n \<and> j \<notin> set started \<and> main_ok n (j # started) cs)"
| "main_ok n started (Join j # cs) = (j \<in> set started \<and> main_ok n started cs)"
| "main_ok n started (Exit # cs) = (cs = [])"

definition program_ok :: "script list \<Rightarrow> bool" where
  "program_ok prog \<longleftrightarrow> prog \<noteq> [] \<and> main_ok (length prog) [] (prog ! 0) \<and> (\<forall>script \<in> set (tl prog). worker_ok script)"

text \<open>Every worker is waited for.\<close>

definition all_joined :: "script list \<Rightarrow> bool" where
  "all_joined prog \<longleftrightarrow> (\<forall>j \<in> {1..<length prog}. Join j \<in> set (prog ! 0))"

text \<open>
  The invariant: what main still has to do fits the workers started; and what a thread has printed, with what it still has to
  print, is what its script prints.
\<close>

definition main_part :: "script list \<Rightarrow> script_state \<Rightarrow> bool" where
  "main_part prog s \<longleftrightarrow>
     (\<exists>cs. ts_todo s 0 = Some cs \<and>
        (if ts_ended s then cs = []
         else \<exists>started. main_ok (length prog) started cs \<and> set started = {j. 0 < j \<and> ts_todo s j \<noteq> None}) \<and>
        (\<forall>j > 0. Join j \<in> set (prog ! 0) \<longrightarrow> Join j \<in> set cs \<or> ts_todo s j = Some []))"

definition thread_part :: "script list \<Rightarrow> script_state \<Rightarrow> nat \<Rightarrow> bool" where
  "thread_part prog s i \<longleftrightarrow>
     (case ts_todo s i of
        None \<Rightarrow> lines_of i (ts_out s) = []
      | Some cs \<Rightarrow> lines_of i (ts_out s) @ prints cs = prints (prog ! i) \<and> (0 < i \<longrightarrow> worker_ok cs))"

definition script_inv :: "script list \<Rightarrow> script_state \<Rightarrow> bool" where
  "script_inv prog s \<longleftrightarrow> program_ok prog \<and> main_part prog s \<and> (\<forall>i < length prog. thread_part prog s i) \<and>
     (\<forall>i \<ge> length prog. ts_todo s i = None)"

lemma thread_part_same:
  "\<lbrakk>ts_todo s' k = ts_todo s k; lines_of k (ts_out s') = lines_of k (ts_out s)\<rbrakk> \<Longrightarrow> thread_part prog s' k = thread_part prog s k"
  by (simp add: thread_part_def split: option.split)

lemma script_start_inv: "program_ok prog \<Longrightarrow> script_inv prog (script_start prog)"
  by (auto simp: script_inv_def main_part_def thread_part_def script_start_def program_ok_def intro!: exI [of _ "[]"])

lemma worker_script: "\<lbrakk>program_ok prog; 0 < j; j < length prog\<rbrakk> \<Longrightarrow> worker_ok (prog ! j)"
  by (cases prog; cases j) (auto simp: program_ok_def)

text \<open>What the call of a worker can be, and of the main thread.\<close>

lemma worker_ok_Cons: "worker_ok (c # cs) \<longleftrightarrow> worker_ok cs \<and> (c = Sleep \<or> (\<exists>l. c = Print l))"
  by (cases c) auto

text \<open>A thread that takes a step has a call to do, and the process is running.\<close>

lemma script_thread_cases:
  assumes "script_thread prog i s = Some s'"
  obtains c cs where "\<not> ts_ended s" "ts_todo s i = Some (c # cs)"
    "do_call prog i c (s\<lparr>ts_todo := (ts_todo s)(i \<mapsto> cs)\<rparr>) = Some s'"
  using assms by (auto simp: script_thread_def split: if_splits option.splits list.splits)

lemma script_worker_inv:
  assumes inv: "script_inv prog s" and i: "0 < i" "i < length prog" and step: "script_thread prog i s = Some s'"
  shows "script_inv prog s'"
proof -
  from step obtain c cs where c: "\<not> ts_ended s" "ts_todo s i = Some (c # cs)"
    "do_call prog i c (s\<lparr>ts_todo := (ts_todo s)(i \<mapsto> cs)\<rparr>) = Some s'" by (rule script_thread_cases)
  have ok: "worker_ok (c # cs)" "lines_of i (ts_out s) @ prints (c # cs) = prints (prog ! i)"
    using inv i c(2) by (auto simp: script_inv_def thread_part_def)
  then consider (sleep) "c = Sleep" | (line) l where "c = Print l" by (auto simp: worker_ok_Cons)
  then have s': "ts_todo s' = (ts_todo s)(i \<mapsto> cs)" "\<not> ts_ended s'" "worker_ok cs"
      "lines_of i (ts_out s') @ prints cs = prints (prog ! i)" "\<And>k. k \<noteq> i \<Longrightarrow> lines_of k (ts_out s') = lines_of k (ts_out s)"
    using c ok by (cases; auto simp: do_call_def)+
  have "main_part prog s" using inv by (simp add: script_inv_def)
  then obtain ms started where m: "ts_todo s 0 = Some ms" "main_ok (length prog) started ms"
    "set started = {j. 0 < j \<and> ts_todo s j \<noteq> None}"
    "\<forall>j > 0. Join j \<in> set (prog ! 0) \<longrightarrow> Join j \<in> set ms \<or> ts_todo s j = Some []" using c(1) by (auto simp: main_part_def)
  have "set started = {j. 0 < j \<and> ts_todo s' j \<noteq> None}" using m(3) c(2) by (auto simp: s'(1))
  moreover have "Join j \<in> set ms \<or> ts_todo s' j = Some []" if "0 < j" "Join j \<in> set (prog ! 0)" for j
  proof -
    have "Join j \<in> set ms \<or> ts_todo s j = Some []" using m(4) that by blast
    then show ?thesis using c(2) by (cases "j = i") (auto simp: s'(1))
  qed
  ultimately have "main_part prog s'" using m(1,2) i(1) s'(2) unfolding main_part_def s'(1) by auto
  moreover have "thread_part prog s' k" if "k < length prog" for k
  proof (cases "k = i")
    case True
    with s' i(1) show ?thesis by (simp add: thread_part_def)
  next
    case False
    with s' have "thread_part prog s' k = thread_part prog s k" by (intro thread_part_same) simp_all
    with inv that show ?thesis by (simp add: script_inv_def)
  qed
  ultimately show ?thesis using inv i(2) by (auto simp: script_inv_def s'(1))
qed

lemma main_step_inv:
  assumes inv: "script_inv prog s" and step: "script_thread prog 0 s = Some s'"
  shows "script_inv prog s'"
proof -
  from step obtain c cs where c: "\<not> ts_ended s" "ts_todo s 0 = Some (c # cs)"
    "do_call prog 0 c (s\<lparr>ts_todo := (ts_todo s)(0 \<mapsto> cs)\<rparr>) = Some s'" by (rule script_thread_cases)
  have ok: "program_ok prog" "main_part prog s" "\<forall>i < length prog. thread_part prog s i" "\<forall>i \<ge> length prog. ts_todo s i = None"
    using inv by (simp_all add: script_inv_def)
  then obtain started where m: "main_ok (length prog) started (c # cs)" "set started = {j. 0 < j \<and> ts_todo s j \<noteq> None}"
    "\<forall>j > 0. Join j \<in> set (prog ! 0) \<longrightarrow> Join j \<in> set (c # cs) \<or> ts_todo s j = Some []" using c(1,2) by (auto simp: main_part_def)
  have p0: "lines_of 0 (ts_out s) @ prints (c # cs) = prints (prog ! 0)" "0 < length prog"
    using ok(1,3) c(2) by (auto simp: thread_part_def program_ok_def)
  show ?thesis
  proof (cases c)
    case (Start j)
    with m have j: "0 < j" "j < length prog" "ts_todo s j = None" "main_ok (length prog) (j # started) cs" by auto
    have s': "s' = s\<lparr>ts_todo := (ts_todo s)(0 \<mapsto> cs, j \<mapsto> prog ! j)\<rparr>" using c(3) Start j(2) by (simp add: do_call_def)
    have "Join k \<in> set cs \<or> ts_todo s' k = Some []" if "0 < k" "Join k \<in> set (prog ! 0)" for k
    proof -
      have "Join k \<in> set cs \<or> ts_todo s k = Some []" using m(3) that Start by auto
      then show ?thesis using j that(1) by (cases "k = j") (auto simp: s')
    qed
    then have "main_part prog s'" using m(2) j c(1) unfolding main_part_def s'
      by (intro exI [of _ cs]) (auto intro!: exI [of _ "j # started"])
    moreover have "thread_part prog s' k" if "k < length prog" for k
      using ok(3) that p0 j worker_script [OF ok(1) j(1,2)] Start unfolding s' by (cases "k = j"; cases "k = 0") (auto simp: thread_part_def split: option.splits)
    ultimately show ?thesis using ok j(2) p0(2) by (auto simp: script_inv_def s')
  next
    case (Join j)
    with m have j: "ts_todo s j \<noteq> None" "0 < j" "main_ok (length prog) started cs" by auto
    have s': "s' = s\<lparr>ts_todo := (ts_todo s)(0 \<mapsto> cs)\<rparr>" "ts_todo s j = Some []"
      using c(3) Join j(2) by (auto simp: do_call_def split: if_splits)
    have "main_part prog s'" using m(2,3) j c(1) Join s'(2) unfolding main_part_def s'(1)
      by (intro exI [of _ cs]) (auto intro!: exI [of _ started])
    moreover have "thread_part prog s' k" if "k < length prog" for k
      using ok(3) that p0 Join unfolding s'(1) by (cases "k = 0") (auto simp: thread_part_def split: option.splits)
    ultimately show ?thesis using ok p0(2) by (auto simp: script_inv_def s'(1))
  next
    case (Print l)
    then have s': "s' = s\<lparr>ts_todo := (ts_todo s)(0 \<mapsto> cs), ts_out := ts_out s @ [(0, l)]\<rparr>" using c(3) by (simp add: do_call_def)
    have "main_part prog s'" using m c(1) Print unfolding main_part_def s'
      by (intro exI [of _ cs]) (auto intro!: exI [of _ started])
    moreover have "thread_part prog s' k" if "k < length prog" for k
      using ok(3) that p0 Print unfolding s' by (cases "k = 0") (auto simp: thread_part_def split: option.splits)
    ultimately show ?thesis using ok p0(2) by (auto simp: script_inv_def s')
  next
    case Sleep
    then have s': "s' = s\<lparr>ts_todo := (ts_todo s)(0 \<mapsto> cs)\<rparr>" using c(3) by (simp add: do_call_def)
    have "main_part prog s'" using m c(1) Sleep unfolding main_part_def s'
      by (intro exI [of _ cs]) (auto intro!: exI [of _ started])
    moreover have "thread_part prog s' k" if "k < length prog" for k
      using ok(3) that p0 Sleep unfolding s' by (cases "k = 0") (auto simp: thread_part_def split: option.splits)
    ultimately show ?thesis using ok p0(2) by (auto simp: script_inv_def s')
  next
    case Exit
    then have s': "s' = s\<lparr>ts_todo := (ts_todo s)(0 \<mapsto> cs), ts_ended := True\<rparr>" "cs = []" using c(3) m(1) by (auto simp: do_call_def)
    have "main_part prog s'" using m c(1) Exit s'(2) unfolding main_part_def s'(1)
      by (intro exI [of _ cs]) auto
    moreover have "thread_part prog s' k" if "k < length prog" for k
      using ok(3) that p0 Exit unfolding s'(1) by (cases "k = 0") (auto simp: thread_part_def split: option.splits)
    ultimately show ?thesis using ok p0(2) by (auto simp: script_inv_def s'(1))
  qed
qed

text \<open>The calls left, those of threads not yet started included.\<close>

definition script_rank :: "script list \<Rightarrow> script_state \<Rightarrow> nat" where
  "script_rank prog s = (\<Sum>i < length prog. case ts_todo s i of None \<Rightarrow> length (prog ! i) | Some cs \<Rightarrow> length cs)"

lemma worker_in: "\<lbrakk>script_inv prog s; ts_todo s i \<noteq> None\<rbrakk> \<Longrightarrow> i < length prog"
  unfolding script_inv_def by (meson not_le)

text \<open>Starting a thread does not change the number of calls left; taking a call does.\<close>

lemma script_rank_decreases:
  assumes inv: "script_inv prog s" and step: "script_thread prog i s = Some s'"
  shows "script_rank prog s' < script_rank prog s"
proof -
  from step obtain c cs where c: "\<not> ts_ended s" "ts_todo s i = Some (c # cs)"
    "do_call prog i c (s\<lparr>ts_todo := (ts_todo s)(i \<mapsto> cs)\<rparr>) = Some s'" by (rule script_thread_cases)
  let ?left = "\<lambda>s k. case ts_todo s k of None \<Rightarrow> length (prog ! k) | Some cs \<Rightarrow> length cs"
  have i: "i < length prog" using worker_in [OF inv] c(2) by simp
  have started: "ts_todo s j = None \<and> j \<noteq> i" if "c = Start j" for j
  proof (cases "i = 0")
    case True
    with inv c(1,2) that obtain started where "main_ok (length prog) started (Start j # cs)"
      "set started = {j. 0 < j \<and> ts_todo s j \<noteq> None}" by (auto simp: script_inv_def main_part_def)
    with True show ?thesis by auto
  next
    case False
    with inv i c(2) that have "worker_ok (Start j # cs)" by (auto simp: script_inv_def thread_part_def)
    then show ?thesis by simp
  qed
  have todo: "ts_todo s' k = (if k = i then Some cs else if c = Start k then Some (prog ! k) else ts_todo s k)" for k
  proof (cases c)
    case (Start j)
    with c(3) have "s' = s\<lparr>ts_todo := (ts_todo s)(i \<mapsto> cs, j \<mapsto> prog ! j)\<rparr>" by (auto simp: do_call_def rd_eq_Some bind_eq_Some_conv)
    with Start started [of j] show ?thesis by simp
  qed (use c(3) in \<open>auto simp: do_call_def split: if_splits\<close>)
  have "?left s' k \<le> ?left s k" for k
  proof (cases "c = Start k")
    case True
    with started [of k] todo [of k] show ?thesis by simp
  next
    case False
    with todo [of k] c(2) show ?thesis by simp
  qed
  moreover have "?left s' i < ?left s i" using todo [of i] c(2) by simp
  ultimately show ?thesis unfolding script_rank_def using i by (intro sum_strict_mono_ex1) auto
qed

interpretation scripts: ranked_threads "script_inv prog" "script_threads prog" "[]" "script_rank prog" for prog
proof
  fix f s t
  assume f: "f \<in> set (script_threads prog)" and inv: "script_inv prog s" and step: "f s = Some t"
  then obtain i where i: "i < length prog" "f = script_thread prog i" by (auto simp: script_threads_def)
  show "script_inv prog t"
  proof (cases "i = 0")
    case True
    with main_step_inv [OF inv] step i(2) show ?thesis by simp
  next
    case False
    with script_worker_inv [OF inv _ i(1)] step i(2) show ?thesis by simp
  qed
  show "script_rank prog t < script_rank prog s" using script_rank_decreases [OF inv] step i(2) by simp
qed simp

text \<open>Nobody can go on only when the process has ended.\<close>

lemma script_rest_ended:
  assumes inv: "script_inv prog s" and rest: "\<forall>f \<in> set (script_threads prog). f s = None"
  shows "ts_ended s"
proof (rule ccontr)
  assume run: "\<not> ts_ended s"
  have none: "script_thread prog i s = None" if "i < length prog" for i using rest that by (auto simp: script_threads_def)
  have n: "0 < length prog" using inv by (auto simp: script_inv_def program_ok_def)
  from inv run obtain ms started where m: "ts_todo s 0 = Some ms" "main_ok (length prog) started ms"
    "set started = {j. 0 < j \<and> ts_todo s j \<noteq> None}" by (auto simp: script_inv_def main_part_def)
  then obtain c cs where ms: "ms = c # cs" by (cases ms) auto
  have "do_call prog 0 c (s\<lparr>ts_todo := (ts_todo s)(0 \<mapsto> cs)\<rparr>) = None" using none [OF n] run m(1) ms by (simp add: script_thread_def)
  with m(2) ms obtain j where j: "c = Join j" "((ts_todo s)(0 \<mapsto> cs)) j \<noteq> Some []" "j \<in> set started"
    by (cases c) (auto simp: do_call_def simp del: fun_upd_apply split: if_splits)
  then have "0 < j" "ts_todo s j \<noteq> None" using m(3) by auto
  with j(2) have "ts_todo s j \<noteq> Some []" by simp
  moreover have "j < length prog" by (rule worker_in [OF inv]) fact
  ultimately obtain d ds where d: "ts_todo s j = Some (d # ds)" "j < length prog" using \<open>ts_todo s j \<noteq> None\<close>
    by (cases "ts_todo s j"; cases "the (ts_todo s j)") auto
  with inv \<open>0 < j\<close> have "worker_ok (d # ds)" by (auto simp: script_inv_def thread_part_def)
  then have "script_thread prog j s \<noteq> None" using run d(1) by (cases d) (auto simp: script_thread_def do_call_def)
  with none [OF d(2)] show False by simp
qed

text \<open>
  A program of this kind ends in at most as many steps as it has calls, however it is scheduled. Main has then printed all
  its lines, every thread a beginning of its own, and all of them if main waits for every thread.
\<close>

definition printed_all :: "script list \<Rightarrow> script_state \<Rightarrow> bool" where
  "printed_all prog s \<longleftrightarrow> ts_ended s \<and> lines_of 0 (ts_out s) = prints (prog ! 0) \<and>
     (\<forall>i < length prog. \<exists>rest. lines_of i (ts_out s) @ rest = prints (prog ! i)) \<and>
     (all_joined prog \<longrightarrow> (\<forall>i < length prog. lines_of i (ts_out s) = prints (prog ! i)))"

lemma rest_printed_all:
  assumes inv: "script_inv prog s" and rest: "\<forall>f \<in> set (script_threads prog). f s = None"
  shows "printed_all prog s"
proof -
  have ended: "ts_ended s" by (rule script_rest_ended [OF assms])
  have n: "0 < length prog" using inv by (auto simp: script_inv_def program_ok_def)
  have main: "ts_todo s 0 = Some []" "\<forall>j > 0. Join j \<in> set (prog ! 0) \<longrightarrow> ts_todo s j = Some []"
    using inv ended by (auto simp: script_inv_def main_part_def)
  have part: "thread_part prog s i" if "i < length prog" for i using inv that by (simp add: script_inv_def)
  have "lines_of i (ts_out s) = prints (prog ! i)" if "ts_todo s i = Some []" "i < length prog" for i
    using part [OF that(2)] that(1) by (simp add: thread_part_def)
  moreover have "\<exists>rest. lines_of i (ts_out s) @ rest = prints (prog ! i)" if "i < length prog" for i
    using part [OF that] by (auto simp: thread_part_def split: option.splits)
  moreover have "ts_todo s i = Some []" if "all_joined prog" "i < length prog" for i
    using that main by (cases "i = 0") (auto simp: all_joined_def)
  ultimately show ?thesis using ended main(1) n unfolding printed_all_def by blast
qed

lemma script_rank_start: "script_rank prog (script_start prog) = sum_list (map length prog)"
proof -
  have "script_rank prog (script_start prog) = (\<Sum>i < length prog. length (prog ! i))"
    unfolding script_rank_def by (intro sum.cong) (auto simp: script_start_def)
  then show ?thesis by (simp add: sum_list_sum_nth atLeast0LessThan)
qed

lemma scripts_end:
  assumes "program_ok prog"
  shows "ends_within (sum_list (map length prog)) (script_threads prog) (printed_all prog) (script_start prog)"
  unfolding script_rank_start [symmetric]
  by (rule scripts.threads_end_with [OF rest_printed_all script_start_inv [OF assms]])

subsection \<open>What main prints after it has waited for everybody\<close>

definition last_words :: "script list \<Rightarrow> script \<Rightarrow> bool" where
  "last_words prog post \<longleftrightarrow> all_joined prog \<and> (\<exists>pre. prog ! 0 = pre @ post) \<and> (\<forall>j. Join j \<notin> set post)"

text \<open>Once main has only a part of \<open>post\<close> left, the output ends with the lines of the rest of it.\<close>

definition tail_inv :: "script list \<Rightarrow> script \<Rightarrow> script_state \<Rightarrow> bool" where
  "tail_inv prog post s \<longleftrightarrow> script_inv prog s \<and> last_words prog post \<and>
     (\<exists>before cs. ts_todo s 0 = Some cs \<and> prog ! 0 = before @ cs \<and>
        (length cs \<le> length post \<longrightarrow> (\<exists>xs d. post = d @ cs \<and> ts_out s = xs @ map (Pair 0) (prints d))))"

lemma tail_inv_start:
  assumes "program_ok prog" and "last_words prog post"
  shows "tail_inv prog post (script_start prog)"
proof -
  obtain pre where pre: "prog ! 0 = pre @ post" using assms(2) by (auto simp: last_words_def)
  have "\<exists>xs d. post = d @ prog ! 0 \<and> [] = xs @ map (Pair (0 :: nat)) (prints d)" if "length (prog ! 0) \<le> length post"
    using that pre by simp
  then show ?thesis unfolding tail_inv_def using assms script_start_inv [OF assms(1)]
    by (intro conjI exI [of _ "[]"] exI [of _ "prog ! 0"]) (simp_all add: script_start_def)
qed

lemma tail_inv_main:
  assumes inv: "tail_inv prog post s" and step: "script_thread prog 0 s = Some s'"
  shows "tail_inv prog post s'"
proof -
  from step obtain c cs where c: "\<not> ts_ended s" "ts_todo s 0 = Some (c # cs)"
    "do_call prog 0 c (s\<lparr>ts_todo := (ts_todo s)(0 \<mapsto> cs)\<rparr>) = Some s'" by (rule script_thread_cases)
  have i: "script_inv prog s" "last_words prog post" using inv by (simp_all add: tail_inv_def)
  obtain before where b: "prog ! 0 = before @ c # cs"
    "length (c # cs) \<le> length post \<longrightarrow> (\<exists>xs d. post = d @ c # cs \<and> ts_out s = xs @ map (Pair 0) (prints d))"
    using inv c(2) by (auto simp: tail_inv_def)
  have not0: "c \<noteq> Start 0" using i(1) c(1,2) by (auto simp: script_inv_def main_part_def)
  then have out: "ts_todo s' 0 = Some cs" "ts_out s' = ts_out s @ map (Pair 0) (prints [c])"
    using c(3) by (cases c; auto simp: do_call_def bind_eq_Some_conv split: if_splits)+
  have "\<exists>xs d. post = d @ cs \<and> ts_out s' = xs @ map (Pair 0) (prints d)" if le: "length cs \<le> length post"
  proof (cases "length cs = length post")
    case True
    obtain pre where "prog ! 0 = pre @ post" using i(2) by (auto simp: last_words_def)
    then have "(before @ [c]) @ cs = pre @ post" using b(1) by simp
    then have "cs = post" using True append_eq_append_conv [of "before @ [c]" pre cs post] by auto
    then show ?thesis by simp
  next
    case False
    with le b(2) obtain xs d where "post = d @ c # cs" "ts_out s = xs @ map (Pair 0) (prints d)" by auto
    then show ?thesis using out(2) by (intro exI [of _ xs] exI [of _ "d @ [c]"]) simp
  qed
  then show ?thesis unfolding tail_inv_def using main_step_inv [OF i(1) step] i(2) b(1) out(1)
    by (intro conjI exI [of _ "before @ [c]"] exI [of _ cs]) simp_all
qed

lemma main_joins:
  assumes "script_inv prog s" and "ts_todo s 0 = Some cs" and "0 < j" and "Join j \<in> set (prog ! 0)"
  shows "Join j \<in> set cs \<or> ts_todo s j = Some []"
proof -
  have "main_part prog s" using assms(1) by (simp add: script_inv_def)
  then obtain ms where "ts_todo s 0 = Some ms" "\<forall>j > 0. Join j \<in> set (prog ! 0) \<longrightarrow> Join j \<in> set ms \<or> ts_todo s j = Some []"
    unfolding main_part_def by blast
  with assms(2-4) show ?thesis by auto
qed

lemma tail_inv_worker:
  assumes inv: "tail_inv prog post s" and i: "0 < i" "i < length prog" and step: "script_thread prog i s = Some s'"
  shows "tail_inv prog post s'"
proof -
  from step obtain c cs where c: "\<not> ts_ended s" "ts_todo s i = Some (c # cs)"
    "do_call prog i c (s\<lparr>ts_todo := (ts_todo s)(i \<mapsto> cs)\<rparr>) = Some s'" by (rule script_thread_cases)
  have v: "script_inv prog s" "last_words prog post" using inv by (simp_all add: tail_inv_def)
  obtain before ms where b: "ts_todo s 0 = Some ms" "prog ! 0 = before @ ms"
    "length ms \<le> length post \<longrightarrow> (\<exists>xs d. post = d @ ms \<and> ts_out s = xs @ map (Pair 0) (prints d))" using inv by (auto simp: tail_inv_def)
  have "Join i \<in> set (prog ! 0)" using v(2) i by (simp add: last_words_def all_joined_def)
  then have "Join i \<in> set ms" using main_joins [OF v(1) b(1) i(1)] c(2) by simp
  then have "\<not> length ms \<le> length post" using b(3) v(2) by (auto simp: last_words_def)
  moreover have "worker_ok (c # cs)" using v(1) i c(2) by (auto simp: script_inv_def thread_part_def)
  then have "ts_todo s' 0 = Some ms" using c(3) b(1) i(1) by (cases c) (auto simp: do_call_def)
  ultimately show ?thesis unfolding tail_inv_def using script_worker_inv [OF v(1) i step] v(2) b(2) by blast
qed

interpretation tails: ranked_threads "tail_inv prog post" "script_threads prog" "[]" "script_rank prog" for prog post
proof
  fix f s t
  assume f: "f \<in> set (script_threads prog)" and inv: "tail_inv prog post s" and step: "f s = Some t"
  then obtain i where i: "i < length prog" "f = script_thread prog i" by (auto simp: script_threads_def)
  show "tail_inv prog post t"
  proof (cases "i = 0")
    case True
    with tail_inv_main [OF inv] step i(2) show ?thesis by simp
  next
    case False
    with tail_inv_worker [OF inv _ i(1)] step i(2) show ?thesis by simp
  qed
  have "script_inv prog s" using inv by (simp add: tail_inv_def)
  then show "script_rank prog t < script_rank prog s" using script_rank_decreases step i(2) by simp
qed simp

text \<open>The last lines of the output are those that main prints after the last \<open>Join\<close>.\<close>

lemma last_words_last:
  assumes "program_ok prog" and "last_words prog post"
  shows "ends_within (sum_list (map length prog)) (script_threads prog)
    (\<lambda>s. printed_all prog s \<and> (\<exists>xs. ts_out s = xs @ map (Pair 0) (prints post))) (script_start prog)"
  unfolding script_rank_start [symmetric]
proof (rule tails.threads_end_with [OF _ tail_inv_start [OF assms]])
  fix s assume inv: "tail_inv prog post s" and rest: "\<forall>f \<in> set (script_threads prog). f s = None"
  have i: "script_inv prog s" using inv by (simp add: tail_inv_def)
  have all: "printed_all prog s" by (rule rest_printed_all [OF i rest])
  then have "ts_ended s" by (simp add: printed_all_def)
  then have "ts_todo s 0 = Some []" using i by (auto simp: script_inv_def main_part_def)
  then show "printed_all prog s \<and> (\<exists>xs. ts_out s = xs @ map (Pair 0) (prints post))" using inv all by (auto simp: tail_inv_def)
qed

end
