(* ===== verification/Thread_Programs.thy ===== *)
theory Thread_Programs
  imports Thread_Scripts Process_Status
begin

section \<open>Demonstrations of processes and threads: d1, d3, d8 and d10\<close>

text \<open>
  \<open>process_demo.c\<close>, \<open>fork_example.c\<close>, \<open>exec_example.c\<close>, \<open>fork_exec_example.c\<close>, \<open>creation_parameters.c\<close>, \<open>detaching_thread.c\<close>,
  \<open>thread_attributes.c\<close>, \<open>thread_scheduling.c\<close>, \<open>kernel_level_thread.c\<close> and \<open>user_level_thread.c\<close>, as programs of Thread\_Scripts.
  The outcome of system calls, process numbers and the text of system errors are parameters. A line is what one \<open>printf\<close> prints.
\<close>

subsection \<open>One process (d1 process\_demo.c)\<close>

definition process_demo :: "int \<Rightarrow> int \<Rightarrow> script list" where
  "process_demo process_id parent_process_id =
     [[Print (''Current Process ID: '' @ print_int process_id), Print (''Parent Process ID: '' @ print_int parent_process_id),
       Print (''current PID: '' @ print_int process_id), Print (''parent PID: '' @ print_int parent_process_id), Exit]]"

subsection \<open>A parent and its child (d3)\<close>

text \<open>
  \<open>pid\<close> is what \<open>fork\<close> returns to the parent, \<open>self\<close> the number of the parent. The child is thread 1; \<open>wait\<close> is \<open>Join\<close>.
\<close>

definition child_lines :: "int \<Rightarrow> int \<Rightarrow> script" where
  "child_lines pid self = [Print (''Child process: PID = '' @ print_int pid), Print (''Child process: Parent PID = '' @ print_int self)]"

definition parent_lines :: "int \<Rightarrow> int \<Rightarrow> script" where
  "parent_lines pid self = [Print (''Parent process: PID = '' @ print_int self), Print (''Parent process: Child PID = '' @ print_int pid)]"

definition fork_example :: "int \<Rightarrow> int \<Rightarrow> script list" where
  "fork_example pid self =
     (if pid < 0 then [[Print ''Fork failed!'', Exit]]
      else [[Start 1] @ parent_lines pid self @ [Join 1, Print ''Parent process: Child has terminated'', Exit],
            child_lines pid self])"

text \<open>
  \<open>execvp\<close> replaces the child by a program, given by the lines it prints, or fails (\<open>None\<close>), and then \<open>perror\<close> prints the
  reason.
\<close>

definition exec_child :: "(string list \<Rightarrow> string list option) \<Rightarrow> string \<Rightarrow> string list \<Rightarrow> script" where
  "exec_child execvp reason args =
     (case execvp args of Some lines \<Rightarrow> map Print lines | None \<Rightarrow> [Print (''execvp: '' @ reason)])"

definition exec_example :: "(string list \<Rightarrow> string list option) \<Rightarrow> string \<Rightarrow> int \<Rightarrow> int \<Rightarrow> script list" where
  "exec_example execvp reason pid self =
     (if pid < 0 then [[Print ''Fork failed!'', Exit]]
      else [[Start 1] @ parent_lines pid self @ [Join 1, Print ''Parent process: Child has terminated'', Exit],
            child_lines pid self @ exec_child execvp reason [''ls'', ''-a'']])"

definition fork_exec_example :: "(string list \<Rightarrow> string list option) \<Rightarrow> string \<Rightarrow> int \<Rightarrow> int \<Rightarrow> script list" where
  "fork_exec_example execvp reason pid self =
     (if pid < 0 then [[Print ''Fork failed!'', Exit]]
      else [[Start 1] @ parent_lines pid self @ [Join 1, Print ''Parent process: Child has terminated'', Exit],
            child_lines pid self @ exec_child execvp reason [''ls'', ''-l'']])"

lemma worker_ok_Print: "worker_ok (map Print ls)" "worker_ok (map Print ls @ cs) = worker_ok cs"
  by (induction ls) simp_all

lemma prints_map_Print: "prints (map Print ls) = ls"
  by (induction ls) simp_all

text \<open>
  Every run ends; parent and child have printed their lines, each in its order, and the last line is the parent's, after all of the
  child's, whether the child was replaced by a program or not.
\<close>

lemma parent_waits:
  assumes child: "worker_ok child"
    and prog: "prog = [[Start 1] @ parent_lines pid self @ [Join 1, Print ''Parent process: Child has terminated'', Exit], child]"
  shows "ends_within (6 + length child) (script_threads prog)
    (\<lambda>s. lines_of 1 (ts_out s) = prints child \<and> (\<exists>xs. ts_out s = xs @ [(0, ''Parent process: Child has terminated'')])) (script_start prog)"
proof -
  have ok: "program_ok prog" using child by (simp add: prog program_ok_def parent_lines_def)
  have joined: "all_joined prog" by (simp add: prog all_joined_def)
  then have "last_words prog [Print ''Parent process: Child has terminated'', Exit]" by (auto simp: last_words_def prog)
  note last = last_words_last [OF ok this]
  have len: "sum_list (map length prog) = 6 + length child" by (simp add: prog parent_lines_def)
  have out: "map (Pair (0 :: nat)) (prints [Print l, Exit]) = [(0, l)]" for l by simp
  note last [unfolded len out ends_within_def]
  moreover have "lines_of 1 (ts_out s) = prints child" if "printed_all prog s" for s
    using that joined by (auto simp: printed_all_def prog)
  ultimately show ?thesis unfolding ends_within_def terminates_within_def by blast
qed

subsection \<open>Threads with parameters (d8 creation\_parameters.c)\<close>

record thread_params =
  tp_thread_id :: int
  tp_message :: string
  tp_sleep_time :: nat

definition parameterized_thread :: "thread_params \<Rightarrow> script" where
  "parameterized_thread params =
     [Print (''Thread '' @ print_int (tp_thread_id params) @ '' starting with message: '' @ tp_message params),
      Sleep, Print (''Thread '' @ print_int (tp_thread_id params) @ '' finishing'')]"

definition thread_params_table :: "thread_params list" where
  "thread_params_table = [\<lparr>tp_thread_id = 1, tp_message = ''First Thread'', tp_sleep_time = 2\<rparr>,
     \<lparr>tp_thread_id = 2, tp_message = ''Second Thread'', tp_sleep_time = 3\<rparr>,
     \<lparr>tp_thread_id = 3, tp_message = ''Third Thread'', tp_sleep_time = 1\<rparr>]"

text \<open>\<open>created i\<close> says whether \<open>pthread_create\<close> succeeds for thread \<open>i\<close>; \<open>reason\<close> is what \<open>perror\<close> prints after the colon.\<close>

definition creation_main :: "(nat \<Rightarrow> bool) \<Rightarrow> string \<Rightarrow> script list" where
  "creation_main created reason =
     (case find (\<lambda>i. \<not> created i) [0..<3] of
        Some i \<Rightarrow> map (\<lambda>k. Start (Suc k)) [0..<i] @ [Print (''Thread creation failed: '' @ reason), Exit]
      | None \<Rightarrow> map (\<lambda>k. Start (Suc k)) [0..<3] @ map (\<lambda>k. Join (Suc k)) [0..<3] @ [Exit])
     # map parameterized_thread thread_params_table"

lemma find_3: "find p [0..<3] = (if p 0 then Some 0 else if p 1 then Some 1 else if p 2 then Some 2 else (None :: nat option))"
  by (simp add: numeral_eq_Suc)

lemma creation_main_ok: "program_ok (creation_main created reason)"
  by (simp add: program_ok_def creation_main_def find_3 parameterized_thread_def thread_params_table_def numeral_eq_Suc)

text \<open>
  If all threads are created, each prints its own message and its end, whatever the order; otherwise main prints the failure and the
  threads already running are cut off somewhere.
\<close>

lemma creation_main_output:
  "ends_within (length (creation_main created reason ! 0) + 9) (script_threads (creation_main created reason))
     (\<lambda>s. (\<forall>i < 3. \<exists>rest. lines_of (Suc i) (ts_out s) @ rest = prints (parameterized_thread (thread_params_table ! i))) \<and>
        (if created 0 \<and> created 1 \<and> created 2
         then \<forall>i < 3. lines_of (Suc i) (ts_out s) = prints (parameterized_thread (thread_params_table ! i))
         else lines_of 0 (ts_out s) = [''Thread creation failed: '' @ reason]))
     (script_start (creation_main created reason))"
proof -
  let ?prog = "creation_main created reason"
  have len: "sum_list (map length ?prog) = length (?prog ! 0) + 9" "length ?prog = 4"
    by (simp_all add: creation_main_def thread_params_table_def parameterized_thread_def)
  have worker: "?prog ! Suc i = parameterized_thread (thread_params_table ! i)" if "i < 3" for i
    using that by (simp add: creation_main_def thread_params_table_def nth_Cons')
  have joined: "all_joined ?prog" if "created 0 \<and> created 1 \<and> created 2"
    using that len(2) by (auto simp: all_joined_def creation_main_def find_3 numeral_eq_Suc less_Suc_eq)
  have failed: "prints (?prog ! 0) = [''Thread creation failed: '' @ reason]" if "\<not> (created 0 \<and> created 1 \<and> created 2)"
    using that by (auto simp: creation_main_def find_3 numeral_eq_Suc)
  let ?done = "\<lambda>s. (\<forall>i < 3. \<exists>rest. lines_of (Suc i) (ts_out s) @ rest = prints (parameterized_thread (thread_params_table ! i))) \<and>
      (if created 0 \<and> created 1 \<and> created 2
         then \<forall>i < 3. lines_of (Suc i) (ts_out s) = prints (parameterized_thread (thread_params_table ! i))
         else lines_of 0 (ts_out s) = [''Thread creation failed: '' @ reason])"
  have "?done s" if all: "printed_all ?prog s" for s
  proof -
    have "\<exists>rest. lines_of (Suc i) (ts_out s) @ rest = prints (parameterized_thread (thread_params_table ! i))" if "i < 3" for i
    proof -
      have "Suc i < length ?prog" using that len(2) by simp
      with all worker [OF that] show ?thesis unfolding printed_all_def by metis
    qed
    moreover have "lines_of (Suc i) (ts_out s) = prints (parameterized_thread (thread_params_table ! i))"
      if "created 0 \<and> created 1 \<and> created 2" "i < 3" for i
    proof -
      have "Suc i < length ?prog" using that len(2) by simp
      with all joined [OF that(1)] worker [OF that(2)] show ?thesis unfolding printed_all_def by metis
    qed
    moreover have "lines_of 0 (ts_out s) = [''Thread creation failed: '' @ reason]" if "\<not> (created 0 \<and> created 1 \<and> created 2)"
      using all failed [OF that] unfolding printed_all_def by metis
    ultimately show ?thesis by presburger
  qed
  with scripts_end [OF creation_main_ok, of created reason] show ?thesis
    unfolding ends_within_def terminates_within_def len(1) by blast
qed

subsection \<open>A detached thread (d8 detaching\_thread.c)\<close>

definition detached_thread :: script where
  "detached_thread = [Print ''Detached thread running'', Sleep, Print ''Detached thread finishing'']"

definition detaching_main :: "bool \<Rightarrow> script list" where
  "detaching_main created =
     [(if created then [Start 1] else []) @ [Print ''Main thread continuing...'', Sleep, Print ''Main thread exiting'', Exit],
      detached_thread]"

text \<open>
  Nobody waits for the thread: only \<open>sleep\<close> makes it likely that it finishes. Every run ends with main's two lines and a
  beginning of the thread's; every beginning can be what is printed.
\<close>

lemma detaching_main_output:
  "ends_within 8 (script_threads (detaching_main True))
     (\<lambda>s. lines_of 0 (ts_out s) = [''Main thread continuing...'', ''Main thread exiting''] \<and>
        (\<exists>k \<le> 2. lines_of 1 (ts_out s) = take k [''Detached thread running'', ''Detached thread finishing'']))
     (script_start (detaching_main True))"
proof -
  let ?prog = "detaching_main True"
  have ok: "program_ok ?prog" by (simp add: program_ok_def detaching_main_def detached_thread_def)
  have len: "sum_list (map length ?prog) = 8" "length ?prog = 2" by (simp_all add: detaching_main_def detached_thread_def)
  have p: "prints (?prog ! 0) = [''Main thread continuing...'', ''Main thread exiting'']"
    "prints (?prog ! 1) = [''Detached thread running'', ''Detached thread finishing'']"
    by (simp_all add: detaching_main_def detached_thread_def)
  have "lines_of 0 (ts_out s) = [''Main thread continuing...'', ''Main thread exiting''] \<and>
      (\<exists>k \<le> 2. lines_of 1 (ts_out s) = take k [''Detached thread running'', ''Detached thread finishing''])"
    if all: "printed_all ?prog s" for s
  proof -
    have "1 < length ?prog" using len(2) by simp
    then obtain rest where r: "lines_of 1 (ts_out s) @ rest = prints (?prog ! 1)" using all unfolding printed_all_def by blast
    then have "lines_of 1 (ts_out s) = take (length (lines_of 1 (ts_out s))) (prints (?prog ! 1))"
      "length (lines_of 1 (ts_out s)) \<le> length (prints (?prog ! 1))" by (metis append_eq_conv_conj, metis length_append le_add1)
    then show ?thesis using all p unfolding printed_all_def by (metis length_Cons list.size(3) numeral_2_eq_2)
  qed
  with scripts_end [OF ok] show ?thesis unfolding ends_within_def terminates_within_def len(1) by blast
qed

definition detached_runs :: "nat list list" where
  "detached_runs = [[0, 0, 0, 0, 0], [0, 1, 0, 0, 0, 0], [0, 1, 1, 1, 0, 0, 0, 0]]"

lemma detached_thread_cut_off:
  "map (\<lambda>r. map_option (\<lambda>s. (ts_ended s, length (lines_of 1 (ts_out s))))
      (run_schedule (script_threads (detaching_main True)) r (script_start (detaching_main True)))) detached_runs =
    [Some (True, 0), Some (True, 1), Some (True, 2)]"
  by code_simp

subsection \<open>A thread with attributes (d8 thread\_attributes.c, thread\_scheduling.c, d10 kernel\_level\_thread.c)\<close>

definition attributes_main :: "bool \<Rightarrow> string \<Rightarrow> script list" where
  "attributes_main created reason =
     (let arg = 42 in
      [if created then [Start 1, Join 1, Exit] else [Print (''Thread creation failed: '' @ reason), Exit],
       [Print (''Thread executing with argument: '' @ print_int arg)]])"

text \<open>
  \<open>priority\<close> is what \<open>pthread_getschedparam\<close> finds. The attributes are set without \<open>pthread_attr_setinheritsched\<close>, so by default
  the thread inherits the priority of main and not the 50 of the attributes. A failed creation is not noticed; then there is no thread to
  join.
\<close>

definition scheduling_main :: "bool \<Rightarrow> int \<Rightarrow> script list" where
  "scheduling_main created priority =
     [if created then [Start 1, Join 1, Exit] else [Exit], [Print (''Thread priority: '' @ print_int priority)]]"

definition kernel_thread_main :: "bool \<Rightarrow> script list" where
  "kernel_thread_main created = [if created then [Start 1, Join 1, Exit] else [Exit], [Print ''Kernel thread function'']]"

text \<open>The thread's line is all that is printed.\<close>

lemma one_thread_output:
  assumes "prog = [[Start 1, Join 1, Exit], [Print l]]"
  shows "ends_within 4 (script_threads prog) (\<lambda>s. ts_ended s \<and> lines_of 0 (ts_out s) = [] \<and> lines_of 1 (ts_out s) = [l]) (script_start prog)"
proof -
  have ok: "program_ok prog" "all_joined prog" "sum_list (map length prog) = 4" "length prog = 2" "prints (prog ! 0) = []" "prints (prog ! 1) = [l]"
    by (simp_all add: assms program_ok_def all_joined_def)
  have "ts_ended s \<and> lines_of 0 (ts_out s) = [] \<and> lines_of 1 (ts_out s) = [l]" if "printed_all prog s" for s
  proof -
    have "1 < length prog" using ok(4) by simp
    with that ok show ?thesis unfolding printed_all_def by metis
  qed
  with scripts_end [OF ok(1)] show ?thesis unfolding ends_within_def terminates_within_def ok(3) by blast
qed

lemma attributes_main_created:
  "attributes_main True reason = [[Start 1, Join 1, Exit], [Print (''Thread executing with argument: '' @ print_int 42)]]"
  "scheduling_main True priority = [[Start 1, Join 1, Exit], [Print (''Thread priority: '' @ print_int priority)]]"
  "kernel_thread_main True = [[Start 1, Join 1, Exit], [Print ''Kernel thread function'']]"
  by (simp_all add: attributes_main_def scheduling_main_def kernel_thread_main_def)

subsection \<open>User-level threads (d10 user\_level\_thread.c)\<close>

text \<open>The stack is given by its address and grows down from its end. A failed allocation leads to a null pointer that is used.\<close>

definition STACK_SIZE :: nat where "STACK_SIZE = 1024"
definition THREAD_READY :: int where "THREAD_READY = 1"

record ('f, 'a) user_thread =
  ut_stack :: nat
  ut_stack_pointer :: nat
  ut_function :: 'f
  ut_arg :: 'a
  ut_state :: int

definition create_user_thread :: "bool \<Rightarrow> nat option \<Rightarrow> 'f \<Rightarrow> 'a \<Rightarrow> ('f, 'a) user_thread option" where
  "create_user_thread thread_ok stack func arg =
     (if \<not> thread_ok then None
      else do {
        stack \<leftarrow> stack;
        Some \<lparr>ut_stack = stack, ut_stack_pointer = stack + STACK_SIZE, ut_function = func, ut_arg = arg, ut_state = THREAD_READY\<rparr> })"

lemma user_thread_ready:
  "create_user_thread True (Some a) func arg = Some t \<Longrightarrow>
     ut_state t = THREAD_READY \<and> ut_function t = func \<and> ut_arg t = arg \<and> {ut_stack t..<ut_stack_pointer t} = {a..<a + 1024}"
  by (auto simp: create_user_thread_def STACK_SIZE_def)

end
