(* ===== verification/Repeated_Exchange.thy ===== *)
theory Repeated_Exchange
  imports Signalling
begin

section \<open>Exchanges one after the other, and without data: d9 demo\_thread\_communication.c, d8 condition\_variables.c\<close>

subsection \<open>Ten rounds (d9)\<close>

text \<open>
  \<open>main\<close> creates a consumer and a producer, joins both, and begins again; the shared variables keep what the round left in them. One
  round is a run from the start of an exchange to a state in which both have ended; \<open>values\<close> are the numbers of the producers.
\<close>

inductive rounds :: "int list \<Rightarrow> int \<Rightarrow> int \<Rightarrow> int list \<Rightarrow> bool" where
  no_round: "rounds [] data ready []"
| round: "\<lbrakk>(interleave [producer v, consumer, spurious_wakeup])\<^sup>*\<^sup>* (exchange_start data ready) s;
     ex_producer s = P_End; ex_consumer s = C_End; ex_received s = Some r; rounds vs (ex_data s) (ex_ready s) rs\<rbrakk>
   \<Longrightarrow> rounds (v # vs) data ready (r # rs)"

inductive_cases rounds_ConsE: "rounds (v # vs) data ready rs"
inductive_simps rounds_Nil: "rounds [] data ready rs"

definition communication_main :: "int list \<Rightarrow> int list \<Rightarrow> bool" where
  "communication_main rands received \<longleftrightarrow> length rands = 10 \<and> rounds rands 0 0 received"

text \<open>A later round: the flag is set from the start, and the consumer receives the old value or the new one.\<close>

definition later_inv :: "int \<Rightarrow> int \<Rightarrow> exchange \<Rightarrow> bool" where
  "later_inv old v s \<longleftrightarrow> ex_ready s = 1 \<and> ex_data s = (if ex_producer s \<in> {P_Set, P_Signalled, P_End} then v else old) \<and>
     (\<forall>r. ex_received s = Some r \<longrightarrow> r = old \<or> r = v)"

lemma later_inv_step:
  assumes "later_inv old v s" and "interleave [producer v, consumer, spurious_wakeup] s s'"
  shows "later_inv old v s'"
proof -
  from assms(2) consider (p) "producer v s = Some s'" | (c) "consumer s = Some s'" | (w) "spurious_wakeup s = Some s'" by auto
  then show ?thesis
  proof cases
    case p
    then have s': "s' = the (producer v s)" "producer v s \<noteq> None" by simp_all
    show ?thesis using assms(1) s'(2) unfolding s'(1)
      by (cases "ex_producer s") (simp_all add: later_inv_def producer_def split: if_splits)
  next
    case c
    then have s': "s' = the (consumer s)" "consumer s \<noteq> None" by simp_all
    show ?thesis using assms(1) s'(2) unfolding s'(1)
      by (cases "ex_consumer s") (simp_all add: later_inv_def consumer_def split: if_splits)
  next
    case w
    then have "s' = s\<lparr>ex_consumer := C_Woken\<rparr>" by (auto simp: spurious_wakeup_def split: if_splits)
    with assms(1) show ?thesis by (simp add: later_inv_def)
  qed
qed

lemma later_round:
  assumes "(interleave [producer v, consumer, spurious_wakeup])\<^sup>*\<^sup>* (exchange_start old 1) s"
  shows "later_inv old v s"
  using assms
proof (induction rule: rtranclp_induct)
  case base
  then show ?case by (simp add: later_inv_def exchange_start_def)
next
  case (step s t)
  then show ?case by (blast intro: later_inv_step)
qed

lemma first_round:
  assumes "(interleave [producer v, consumer, spurious_wakeup])\<^sup>*\<^sup>* (exchange_start d 0) s" and "ex_producer s = P_End"
    and "ex_consumer s = C_End"
  shows "ex_received s = Some v \<and> ex_data s = v \<and> ex_ready s \<noteq> 0"
proof -
  have "exchange_inv v s" using ex.reachable_inv [OF _ exchange_start_inv] assms(1) by simp
  with assms(2,3) show ?thesis by (simp add: exchange_inv_def)
qed

text \<open>The flag is 0 or 1, and stays 1.\<close>

lemma ready_flag:
  assumes "(interleave [producer v, consumer, spurious_wakeup])\<^sup>*\<^sup>* (exchange_start d 0) s"
  shows "ex_ready s = 0 \<or> ex_ready s = 1"
  using assms
proof (induction rule: rtranclp_induct)
  case (step s t)
  then have "producer v s = Some t \<or> consumer s = Some t \<or> spurious_wakeup s = Some t" by auto
  with step.IH show ?case
    by (auto simp: producer_def consumer_def spurious_wakeup_def split: producer_pos.splits consumer_pos.splits if_splits)
qed (simp add: exchange_start_def)

lemma later_rounds:
  assumes "rounds vs old 1 rs"
  shows "length rs = length vs \<and> (\<forall>i < length vs. rs ! i = vs ! i \<or> rs ! i = (old # vs) ! i)"
  using assms
proof (induction vs arbitrary: old rs)
  case Nil
  then show ?case by (simp add: rounds_Nil)
next
  case (Cons v vs)
  from Cons.prems obtain s r rs' where r: "rs = r # rs'" "ex_producer s = P_End" "ex_received s = Some r"
    "rounds vs (ex_data s) (ex_ready s) rs'" and
    run: "(interleave [producer v, consumer, spurious_wakeup])\<^sup>*\<^sup>* (exchange_start old 1) s" by (auto elim: rounds_ConsE)
  from later_round [OF run] r(2,3) have s: "ex_data s = v" "ex_ready s = 1" "r = old \<or> r = v" by (auto simp: later_inv_def)
  from Cons.IH [of v rs'] r(4) s(1,2) have "length rs' = length vs" "\<forall>i < length vs. rs' ! i = vs ! i \<or> rs' ! i = (v # vs) ! i"
    by simp_all
  with r(1) s(3) show ?case by (auto simp: nth_Cons' less_Suc_eq_0_disj)
qed

text \<open>
  The first value is received; afterwards every value received is that of its round or of the round before. (That the old value
  does occur is \<open>second_round_stale\<close>.)
\<close>

lemma communication_values:
  assumes "communication_main vs rs"
  shows "length rs = 10 \<and> rs ! 0 = vs ! 0 \<and> (\<forall>i. 0 < i \<and> i < 10 \<longrightarrow> rs ! i = vs ! i \<or> rs ! i = vs ! (i - 1))"
proof -
  from assms have len: "length vs = 10" and "rounds vs 0 0 rs" by (simp_all add: communication_main_def)
  then obtain v vs' where vs: "vs = v # vs'" "length vs' = 9" by (cases vs) auto
  with \<open>rounds vs 0 0 rs\<close> obtain s r rs' where r: "rs = r # rs'" "ex_producer s = P_End" "ex_consumer s = C_End" "ex_received s = Some r"
    "rounds vs' (ex_data s) (ex_ready s) rs'" and
    run: "(interleave [producer v, consumer, spurious_wakeup])\<^sup>*\<^sup>* (exchange_start 0 0) s" by (auto elim: rounds_ConsE)
  from first_round [OF run r(2,3)] ready_flag [OF run] r(4) have "r = v" "ex_data s = v" "ex_ready s = 1" by auto
  with later_rounds [of vs' v rs'] r(5) vs(2) have later: "length rs' = 9" "\<forall>i < 9. rs' ! i = vs' ! i \<or> rs' ! i = (v # vs') ! i" by simp_all
  have "rs ! i = vs ! i \<or> rs ! i = vs ! (i - 1)" if "0 < i" "i < 10" for i
  proof -
    from that obtain k where k: "i = Suc k" "k < 9" by (cases i) auto
    with later(2) have "rs' ! k = vs' ! k \<or> rs' ! k = (v # vs') ! k" by blast
    with k r(1) vs(1) show ?thesis by simp
  qed
  with later(1) r(1) vs(1) \<open>r = v\<close> show ?thesis by simp
qed

subsection \<open>A flag alone (d8 condition\_variables.c)\<close>

text \<open>The same two threads without data; what they print is kept.\<close>

record flag_exchange =
  fl_mutex :: "role option"
  fl_ready :: int
  fl_consumer :: consumer_pos
  fl_producer :: producer_pos
  fl_out :: "string list"

definition fl_producer_step :: "flag_exchange \<Rightarrow> flag_exchange option" where
  "fl_producer_step s =
     (case fl_producer s of
        P_Start \<Rightarrow> if fl_mutex s = None then Some (s\<lparr>fl_mutex := Some Producer, fl_producer := P_Holding\<rparr>) else None
      | P_Holding \<Rightarrow> Some (s\<lparr>fl_ready := 1, fl_out := fl_out s @ [''Producer: Data is ready''], fl_producer := P_Set\<rparr>)
      | P_Set \<Rightarrow> Some (s\<lparr>fl_consumer := (if fl_consumer s = C_Asleep then C_Woken else fl_consumer s), fl_producer := P_Signalled\<rparr>)
      | P_Signalled \<Rightarrow> Some (s\<lparr>fl_mutex := None, fl_producer := P_End\<rparr>)
      | P_End \<Rightarrow> None)"

definition fl_consumer_step :: "flag_exchange \<Rightarrow> flag_exchange option" where
  "fl_consumer_step s =
     (case fl_consumer s of
        C_Start \<Rightarrow> if fl_mutex s = None then Some (s\<lparr>fl_mutex := Some Consumer, fl_consumer := C_Holding\<rparr>) else None
      | C_Holding \<Rightarrow>
          if fl_ready s = 0
          then Some (s\<lparr>fl_mutex := None, fl_out := fl_out s @ [''Consumer: Waiting for data''], fl_consumer := C_Asleep\<rparr>)
          else Some (s\<lparr>fl_out := fl_out s @ [''Consumer: Got data''], fl_consumer := C_Got\<rparr>)
      | C_Asleep \<Rightarrow> None
      | C_Woken \<Rightarrow> if fl_mutex s = None then Some (s\<lparr>fl_mutex := Some Consumer, fl_consumer := C_Holding\<rparr>) else None
      | C_Got \<Rightarrow> Some (s\<lparr>fl_mutex := None, fl_consumer := C_End\<rparr>)
      | C_End \<Rightarrow> None)"

definition fl_start :: flag_exchange where
  "fl_start = \<lparr>fl_mutex = None, fl_ready = 0, fl_consumer = C_Start, fl_producer = P_Start, fl_out = []\<rparr>"

text \<open>The exchange of the value 1 that it looks like; its steps are simulated.\<close>

definition fl_view :: "flag_exchange \<Rightarrow> exchange" where
  "fl_view s = \<lparr>ex_mutex = fl_mutex s, ex_data = (if fl_ready s = 0 then 0 else 1), ex_ready = fl_ready s, ex_consumer = fl_consumer s,
     ex_producer = fl_producer s, ex_received = (if fl_consumer s \<in> {C_Got, C_End} then Some 1 else None)\<rparr>"

lemma fl_producer_view: "map_option fl_view (fl_producer_step s) = producer 1 (fl_view s)"
  by (simp add: fl_producer_step_def producer_def fl_view_def split: producer_pos.split)

lemma fl_consumer_view: "map_option fl_view (fl_consumer_step s) = consumer (fl_view s)"
  by (simp add: fl_consumer_step_def consumer_def fl_view_def split: consumer_pos.split)

text \<open>What has been printed: waiting lines before the data are announced, and then one announcement and one receipt.\<close>

definition flag_lines :: "nat \<Rightarrow> bool \<Rightarrow> bool \<Rightarrow> string list" where
  "flag_lines n announced got = replicate n ''Consumer: Waiting for data'' @ (if announced then [''Producer: Data is ready''] else []) @
     (if got then [''Consumer: Got data''] else [])"

lemma flag_lines_append:
  "flag_lines n False False @ [''Consumer: Waiting for data''] = flag_lines (Suc n) False False"
  "flag_lines n False False @ [''Producer: Data is ready''] = flag_lines n True False"
  "flag_lines n True False @ [''Consumer: Got data''] = flag_lines n True True"
  by (simp_all only: flag_lines_def append_Nil append_Nil2 append_assoc append_Cons replicate_append_same replicate_Suc if_True if_False)

definition fl_inv :: "flag_exchange \<Rightarrow> bool" where
  "fl_inv s \<longleftrightarrow> exchange_inv 1 (fl_view s) \<and>
     (\<exists>n. fl_out s = flag_lines n (fl_ready s \<noteq> 0) (fl_consumer s = C_Got \<or> fl_consumer s = C_End))"

lemma fl_invI:
  assumes "exchange_inv 1 (fl_view s)" and "fl_out s = flag_lines n (fl_ready s \<noteq> 0) (fl_consumer s = C_Got \<or> fl_consumer s = C_End)"
  shows "fl_inv s"
  using assms unfolding fl_inv_def by blast

lemma fl_invE:
  assumes "fl_inv s"
  obtains n where "exchange_inv 1 (fl_view s)" and
    "fl_out s = flag_lines n (fl_ready s \<noteq> 0) (fl_consumer s = C_Got \<or> fl_consumer s = C_End)"
  using assms unfolding fl_inv_def by blast

lemma fl_start_inv: "fl_inv fl_start"
proof (rule fl_invI)
  show "exchange_inv 1 (fl_view fl_start)" using exchange_start_inv [of 1 0]
    by (simp add: fl_view_def fl_start_def exchange_start_def)
  show "fl_out fl_start = flag_lines 0 (fl_ready fl_start \<noteq> 0) (fl_consumer fl_start = C_Got \<or> fl_consumer fl_start = C_End)"
    by (simp add: fl_start_def flag_lines_def)
qed

lemma fl_producer_inv:
  assumes "fl_inv s" and step: "fl_producer_step s = Some s'"
  shows "fl_inv s'"
  using assms(1)
proof (rule fl_invE)
  fix n
  assume view: "exchange_inv 1 (fl_view s)" and
    out: "fl_out s = flag_lines n (fl_ready s \<noteq> 0) (fl_consumer s = C_Got \<or> fl_consumer s = C_End)"
  have "producer 1 (fl_view s) = Some (fl_view s')" using fl_producer_view [of s] step by simp
  from producer_inv [OF view this] have view': "exchange_inv 1 (fl_view s')" .
  have s': "s' = the (fl_producer_step s)" "fl_producer_step s \<noteq> None" using step by simp_all
  have start: "fl_producer s = P_Holding \<Longrightarrow> fl_ready s = 0 \<and> fl_consumer s \<noteq> C_Got \<and> fl_consumer s \<noteq> C_End"
    using view by (auto simp: exchange_inv_def fl_view_def)
  have "fl_out s' = flag_lines n (fl_ready s' \<noteq> 0) (fl_consumer s' = C_Got \<or> fl_consumer s' = C_End)"
    using s'(2) out start unfolding s'(1)
    by (cases "fl_producer s") (simp_all add: fl_producer_step_def flag_lines_append split: if_splits)
  with view' show ?thesis by (rule fl_invI)
qed

lemma fl_consumer_inv:
  assumes "fl_inv s" and step: "fl_consumer_step s = Some s'"
  shows "fl_inv s'"
  using assms(1)
proof (rule fl_invE)
  fix n
  assume view: "exchange_inv 1 (fl_view s)" and
    out: "fl_out s = flag_lines n (fl_ready s \<noteq> 0) (fl_consumer s = C_Got \<or> fl_consumer s = C_End)"
  have "consumer (fl_view s) = Some (fl_view s')" using fl_consumer_view [of s] step by simp
  from consumer_inv [OF view this] have view': "exchange_inv 1 (fl_view s')" .
  have s': "s' = the (fl_consumer_step s)" "fl_consumer_step s \<noteq> None" using step by simp_all
  have "fl_out s' = flag_lines (if fl_consumer s = C_Holding \<and> fl_ready s = 0 then Suc n else n) (fl_ready s' \<noteq> 0)
      (fl_consumer s' = C_Got \<or> fl_consumer s' = C_End)"
    using s'(2) out unfolding s'(1)
    by (cases "fl_consumer s") (simp_all add: fl_consumer_step_def flag_lines_append split: if_splits)
  with view' show ?thesis by (rule fl_invI)
qed

interpretation flag: ranked_threads fl_inv "[fl_producer_step, fl_consumer_step]" "[]" "\<lambda>s. exchange_rank (fl_view s)"
proof
  fix f s t
  assume f: "f \<in> set [fl_producer_step, fl_consumer_step]" and inv: "fl_inv s" and step: "f s = Some t"
  then consider (p) "fl_producer_step s = Some t" | (c) "fl_consumer_step s = Some t" by auto
  then show "exchange_rank (fl_view t) < exchange_rank (fl_view s)"
  proof cases
    case p
    then have "producer 1 (fl_view s) = Some (fl_view t)" using fl_producer_view [of s] by simp
    then show ?thesis by (rule exchange_rank_decreases(1))
  next
    case c
    then have "consumer (fl_view s) = Some (fl_view t)" using fl_consumer_view [of s] by simp
    then show ?thesis by (rule exchange_rank_decreases(2))
  qed
  show "fl_inv t" using f inv step by (auto intro: fl_producer_inv fl_consumer_inv)
qed simp

text \<open>
  The program ends, and what it prints is some waiting lines, the announcement and the receipt, in this order.
\<close>

lemma flag_exchange_output:
  "ends_within 20 [fl_producer_step, fl_consumer_step] (\<lambda>s. \<exists>n. fl_out s = flag_lines n True True) fl_start"
proof -
  have "\<exists>n. fl_out s = flag_lines n True True"
    if inv: "fl_inv s" and rest: "\<forall>f \<in> set [fl_producer_step, fl_consumer_step]. f s = None" for s
    using inv
  proof (rule fl_invE)
    fix n
    assume view: "exchange_inv 1 (fl_view s)" and
      out: "fl_out s = flag_lines n (fl_ready s \<noteq> 0) (fl_consumer s = C_Got \<or> fl_consumer s = C_End)"
    have "producer 1 (fl_view s) = None" "consumer (fl_view s) = None"
      using rest fl_producer_view [of s] fl_consumer_view [of s] by simp_all
    from exchange_progress [OF view this] have e: "fl_producer s = P_End" "fl_consumer s = C_End" by (simp_all add: fl_view_def)
    then have "fl_ready s \<noteq> 0" using view by (simp add: exchange_inv_def fl_view_def)
    with out e show ?thesis by auto
  qed
  from flag.threads_end_with [OF this fl_start_inv] show ?thesis by (simp add: fl_start_def fl_view_def exchange_rank_def)
qed

end
