(* ===== verification/Pool_Program.thy ===== *)
theory Pool_Program
  imports Thread_Queues Interleaving "HOL-Library.Multiset"
begin

section \<open>The life of the thread pool: d10 single\_thread\_pool.c\<close>

text \<open>
  A client creates the pool, starts its workers (\<open>start_thread_pool\<close>), adds tasks and destroys the pool (\<open>destroy_thread_pool\<close>). What
  happens under the mutex is one step, signals after the mutex is released are steps of their own; \<open>w\<close> is the sleeper a signal chooses. The
  tasks are run one by one by the workers and are taken to return. After \<open>free\<close> the pool is \<open>None\<close>, and a thread that
  uses it has no defined step.
\<close>

subsection \<open>The threads\<close>

definition THREAD_POOL_SIZE :: nat where "THREAD_POOL_SIZE = 4"

datatype 'k pool_worker = W_New | W_Test | W_Asleep | W_Took 'k | W_Run 'k | W_Gone

datatype pool_client = C_Start nat | C_Add | C_Asleep | C_Signal | C_Shut | C_Broadcast | C_Join nat | C_End

record ('f, 'a) pool_program =
  pp_pool :: "('f, 'a) thread_pool option"
  pp_todo :: "('f, 'a) task list"
  pp_client :: pool_client
  pp_workers :: "('f, 'a) task pool_worker list"
  pp_taken :: "('f, 'a) task list"
  pp_run :: "('f, 'a) task list"

definition wake_worker :: "nat \<Rightarrow> 'k pool_worker list \<Rightarrow> 'k pool_worker list" where
  "wake_worker w ws = (if w < length ws \<and> ws ! w = W_Asleep then ws[w := W_Test] else ws)"

definition wake_all :: "'k pool_worker list \<Rightarrow> 'k pool_worker list" where
  "wake_all ws = map (\<lambda>x. case x of W_Asleep \<Rightarrow> W_Test | _ \<Rightarrow> x) ws"

text \<open>A signal wakes a sleeper if there is one.\<close>

definition chosen :: "nat \<Rightarrow> 'k pool_worker list \<Rightarrow> bool" where
  "chosen w ws \<longleftrightarrow> (if W_Asleep \<in> set ws then w < length ws \<and> ws ! w = W_Asleep else length ws \<le> w)"

definition wake_client :: "pool_client \<Rightarrow> pool_client" where
  "wake_client c = (if c = C_Asleep then C_Add else c)"

definition pool_worker_step :: "nat \<Rightarrow> ('f, 'a) pool_program \<Rightarrow> ('f, 'a) pool_program option option" where
  "pool_worker_step me s = do {
     pos \<leftarrow> rd (pp_workers s) me;
     (case pos of
        W_Test \<Rightarrow> do {
          pool \<leftarrow> pp_pool s;
          turn \<leftarrow> worker_thread pool;
          (case turn of
             Wait \<Rightarrow> Some (Some (s\<lparr>pp_workers := (pp_workers s)[me := W_Asleep]\<rparr>))
           | Exit \<Rightarrow> Some (Some (s\<lparr>pp_workers := (pp_workers s)[me := W_Gone]\<rparr>))
           | Run (pool', task) \<Rightarrow> Some (Some (s\<lparr>pp_pool := Some pool', pp_workers := (pp_workers s)[me := W_Took task],
               pp_taken := pp_taken s @ [task]\<rparr>))) }
      | W_Took task \<Rightarrow> do {
          _ \<leftarrow> pp_pool s;
          Some (Some (s\<lparr>pp_client := wake_client (pp_client s), pp_workers := (pp_workers s)[me := W_Run task]\<rparr>)) }
      | W_Run task \<Rightarrow> Some (Some (s\<lparr>pp_workers := (pp_workers s)[me := W_Test], pp_run := pp_run s @ [task]\<rparr>))
      | _ \<Rightarrow> Some None) }"

definition start_thread_pool :: "nat \<Rightarrow> ('f, 'a) pool_program \<Rightarrow> ('f, 'a) pool_program option option" where
  "start_thread_pool i s =
     (if i < THREAD_POOL_SIZE then do {
        ws \<leftarrow> wr (pp_workers s) i W_Test;
        Some (Some (s\<lparr>pp_workers := ws, pp_client := C_Start (i + 1)\<rparr>)) }
      else Some (Some (s\<lparr>pp_client := C_Add\<rparr>)))"

definition destroy_thread_pool :: "('f, 'a) pool_program \<Rightarrow> ('f, 'a) pool_program option option" where
  "destroy_thread_pool s = (case pp_client s of
     C_Shut \<Rightarrow> do { pool \<leftarrow> pp_pool s; Some (Some (s\<lparr>pp_pool := Some (shut_down pool), pp_client := C_Broadcast\<rparr>)) }
   | C_Broadcast \<Rightarrow> do { _ \<leftarrow> pp_pool s; Some (Some (s\<lparr>pp_workers := wake_all (pp_workers s), pp_client := C_Join 0\<rparr>)) }
   | C_Join i \<Rightarrow>
       if i < THREAD_POOL_SIZE then do {
         pos \<leftarrow> rd (pp_workers s) i;
         Some (case pos of W_Gone \<Rightarrow> Some (s\<lparr>pp_client := C_Join (i + 1)\<rparr>) | _ \<Rightarrow> None) }
       else Some (Some (s\<lparr>pp_pool := None, pp_client := C_End\<rparr>))
   | _ \<Rightarrow> Some None)"

text \<open>Between the two, \<open>add_task\<close> for one task after the other: the insertion, and the signal after the mutex is released.\<close>

text \<open>One task is added: the critical section with its waiting, then the signal.\<close>

definition add_task_step :: "nat \<Rightarrow> ('f, 'a) pool_program \<Rightarrow> ('f, 'a) pool_program option option" where
  "add_task_step w s = (case (pp_client s, pp_todo s) of
     (C_Add, task # tasks) \<Rightarrow> do {
       pool \<leftarrow> pp_pool s;
       r \<leftarrow> add_task (int MAX_QUEUE_SIZE) task pool;
       (case r of
          None \<Rightarrow> Some (Some (s\<lparr>pp_client := C_Asleep\<rparr>))
        | Some pool' \<Rightarrow> Some (Some (s\<lparr>pp_pool := Some pool', pp_todo := tasks, pp_client := C_Signal\<rparr>))) }
   | (C_Signal, _) \<Rightarrow> do { _ \<leftarrow> pp_pool s; Some (Some (s\<lparr>pp_workers := wake_worker w (pp_workers s), pp_client := C_Add\<rparr>)) }
   | _ \<Rightarrow> Some None)"

text \<open>
  The file has no \<open>main\<close>. The client that uses its functions here starts the pool, adds its tasks one after the other and destroys the pool.
\<close>

definition pool_client_step :: "nat \<Rightarrow> ('f, 'a) pool_program \<Rightarrow> ('f, 'a) pool_program option option" where
  "pool_client_step w s = (case pp_client s of
     C_Start i \<Rightarrow> start_thread_pool i s
   | C_Add \<Rightarrow> if pp_todo s = [] then Some (Some (s\<lparr>pp_client := C_Shut\<rparr>)) else add_task_step w s
   | C_Signal \<Rightarrow> add_task_step w s
   | _ \<Rightarrow> destroy_thread_pool s)"

lemmas client_defs = pool_client_step_def add_task_step_def start_thread_pool_def destroy_thread_pool_def

text \<open>\<open>raw\<close> is what \<open>malloc\<close> returns for the queue.\<close>

definition pool_start :: "('f, 'a) task list \<Rightarrow> ('f, 'a) task list \<Rightarrow> ('f, 'a) pool_program" where
  "pool_start raw tasks = \<lparr>pp_pool = Some (create_thread_pool raw), pp_todo = tasks, pp_client = C_Start 0,
     pp_workers = replicate THREAD_POOL_SIZE W_New, pp_taken = [], pp_run = []\<rparr>"

definition pool_step :: "('f, 'a) pool_program \<Rightarrow> ('f, 'a) pool_program \<Rightarrow> bool" where
  "pool_step s t \<longleftrightarrow> (\<exists>w. chosen w (pp_workers s) \<and> pool_client_step w s = Some (Some t)) \<or> (\<exists>me. pool_worker_step me s = Some (Some t))"

text \<open>Reachable states, with wake-ups that no signal caused.\<close>

inductive pool_reach :: "('f, 'a) pool_program \<Rightarrow> ('f, 'a) pool_program \<Rightarrow> bool" for s0 where
  start: "pool_reach s0 s0"
| step: "\<lbrakk>pool_reach s0 s; pool_step s t\<rbrakk> \<Longrightarrow> pool_reach s0 t"
| wake_client: "pool_reach s0 s \<Longrightarrow> pool_reach s0 (s\<lparr>pp_client := wake_client (pp_client s)\<rparr>)"
| wake_worker: "pool_reach s0 s \<Longrightarrow> pool_reach s0 (s\<lparr>pp_workers := wake_worker w (pp_workers s)\<rparr>)"

subsection \<open>The invariant\<close>

fun worker_at :: "pool_client \<Rightarrow> nat \<Rightarrow> 'k pool_worker \<Rightarrow> bool" where
  "worker_at (C_Start k) i x \<longleftrightarrow> (if i < k then x \<noteq> W_New \<and> x \<noteq> W_Gone else x = W_New)"
| "worker_at C_Broadcast i x \<longleftrightarrow> x \<noteq> W_New"
| "worker_at (C_Join k) i x \<longleftrightarrow> (if i < k then x = W_Gone else x \<noteq> W_New \<and> x \<noteq> W_Asleep)"
| "worker_at C_End i x \<longleftrightarrow> x = W_Gone"
| "worker_at c i x \<longleftrightarrow> x \<noteq> W_New \<and> x \<noteq> W_Gone"

definition workers_ok :: "pool_client \<Rightarrow> 'k pool_worker list \<Rightarrow> bool" where
  "workers_ok c ws \<longleftrightarrow> length ws = 4 \<and> (\<forall>k. c = C_Start k \<or> c = C_Join k \<longrightarrow> k \<le> 4) \<and> (\<forall>i < 4. worker_at c i (ws ! i))"

definition closed :: "pool_client \<Rightarrow> bool" where
  "closed c \<longleftrightarrow> (case c of C_Broadcast \<Rightarrow> True | C_Join k \<Rightarrow> True | C_End \<Rightarrow> True | _ \<Rightarrow> False)"

text \<open>The tasks in the hands of workers.\<close>

definition hand :: "'k pool_worker \<Rightarrow> 'k list" where
  "hand x = (case x of W_Took t \<Rightarrow> [t] | W_Run t \<Rightarrow> [t] | _ \<Rightarrow> [])"

definition hands :: "'k pool_worker list \<Rightarrow> 'k multiset" where
  "hands ws = mset (concat (map hand ws))"

definition queued :: "('f, 'a) pool_program \<Rightarrow> ('f, 'a) task list" where
  "queued s = (case pp_pool s of None \<Rightarrow> [] | Some p \<Rightarrow> tp_items p)"

definition queue_ok :: "('f, 'a) task list \<Rightarrow> ('f, 'a) pool_program \<Rightarrow> bool" where
  "queue_ok tasks s \<longleftrightarrow> (case pp_pool s of
     None \<Rightarrow> pp_client s = C_End \<and> (\<exists>rest. tasks = pp_taken s @ rest)
   | Some p \<Rightarrow> pp_client s \<noteq> C_End \<and> tp_inv (p\<lparr>tp_shutdown := 0\<rparr>) \<and> tp_shutdown p = (if closed (pp_client s) then 1 else 0) \<and>
       tasks = pp_taken s @ tp_items p @ pp_todo s)"

text \<open>Nobody sleeps for ever: a client that waits for room finds the queue full or a worker about to signal, and tasks do not wait for workers
  that all sleep, unless the client is about to signal.\<close>

definition sleep_ok :: "('f, 'a) pool_program \<Rightarrow> bool" where
  "sleep_ok s \<longleftrightarrow> (pp_client s = C_Asleep \<longrightarrow> length (queued s) = 100 \<or> (\<exists>t. W_Took t \<in> set (pp_workers s))) \<and>
     ((\<forall>x \<in> set (pp_workers s). x = W_Asleep) \<longrightarrow> queued s = [] \<or> pp_client s = C_Signal)"

definition pool_inv :: "('f, 'a) task list \<Rightarrow> ('f, 'a) pool_program \<Rightarrow> bool" where
  "pool_inv tasks s \<longleftrightarrow> workers_ok (pp_client s) (pp_workers s) \<and> queue_ok tasks s \<and> sleep_ok s \<and>
     mset (pp_taken s) = mset (pp_run s) + hands (pp_workers s)"

lemma pool_invD:
  assumes "pool_inv tasks s"
  shows "workers_ok (pp_client s) (pp_workers s)" "queue_ok tasks s" "sleep_ok s"
    "mset (pp_taken s) = mset (pp_run s) + hands (pp_workers s)"
  using assms by (simp_all add: pool_inv_def)

lemma worker_update:
  "\<lbrakk>workers_ok c ws; worker_at c i x\<rbrakk> \<Longrightarrow> workers_ok c (ws[i := x])"
  unfolding workers_ok_def by (metis length_list_update nth_list_update_eq nth_list_update_neq)

lemma worker_nth: "\<lbrakk>workers_ok c ws; i < 4\<rbrakk> \<Longrightarrow> worker_at c i (ws ! i)"
  by (simp add: workers_ok_def)

lemma workers_length: "workers_ok c ws \<Longrightarrow> length ws = 4"
  by (simp add: workers_ok_def)

lemma hands_update:
  "i < length ws \<Longrightarrow> hands (ws[i := x]) + mset (hand (ws ! i)) = hands ws + mset (hand x)"
proof (induction ws arbitrary: i)
  case (Cons y ws)
  then show ?case by (cases i) (auto simp: hands_def)
qed simp

lemma hands_same: "\<lbrakk>i < length ws; hand x = hand (ws ! i)\<rbrakk> \<Longrightarrow> hands (ws[i := x]) = hands ws"
  using hands_update [of i ws x] by simp

lemma hands_wake [simp]: "hands (wake_worker w ws) = hands ws" "hands (wake_all ws) = hands ws"
  "length (wake_worker w ws) = length ws" "length (wake_all ws) = length ws"
proof -
  show "hands (wake_worker w ws) = hands ws" by (simp add: wake_worker_def hands_same hand_def)
  have "hand (case x of W_Asleep \<Rightarrow> W_Test | _ \<Rightarrow> x) = hand x" for x :: "'a pool_worker" by (cases x) (simp_all add: hand_def)
  then show "hands (wake_all ws) = hands ws" by (simp add: hands_def wake_all_def comp_def)
qed (simp_all add: wake_worker_def wake_all_def)

lemma pool_inv_start:
  assumes "length raw = 100"
  shows "pool_inv tasks (pool_start raw tasks)"
proof -
  have i: "tp_inv (create_thread_pool raw)" "tp_items (create_thread_pool raw) = []"
    using assms by (simp_all add: tp_inv_def create_thread_pool_def tp_items_def ring_list_def)
  moreover from i(1) have "tp_inv ((create_thread_pool raw)\<lparr>tp_shutdown := 0\<rparr>)" "tp_shutdown (create_thread_pool raw) = 0"
    by (simp_all add: tp_inv_def)
  ultimately show ?thesis
    by (simp add: pool_inv_def pool_start_def workers_ok_def THREAD_POOL_SIZE_def queue_ok_def closed_def sleep_ok_def queued_def
        hands_def hand_def)
qed

text \<open>What a worker finds when it tests.\<close>

lemma test_open:
  assumes "tp_inv p"
  obtains (empty) "worker_thread p = Some Wait" "tp_items p = []"
  | (first) p' x where "worker_thread p = Some (Run (p', x))" "tp_items p = x # tp_items p'" "tp_inv p'"
proof -
  have "tp_shutdown p = 0" using assms by (simp add: tp_inv_def)
  then have e: "worker_thread p \<noteq> Some Exit" by (simp add: worker_thread_def split: Option.bind_splits)
  from tp.pop_cases [OF assms] show thesis
  proof (elim disjE exE conjE)
    assume t: "worker_take p = Some None" "tp_items p = []"
    then obtain r where r: "worker_thread p = Some r" "(case r of Run r \<Rightarrow> Some (Some r) | _ \<Rightarrow> Some None) = Some None"
      unfolding worker_take_def by (auto split: Option.bind_splits)
    then have "r = Wait" using e by (cases r) auto
    with r t show thesis by (intro empty) simp_all
  next
    fix p' x assume t: "worker_take p = Some (Some (p', x))" "tp_inv p'" "tp_items p = x # tp_items p'"
    then obtain r where r: "worker_thread p = Some r" "(case r of Run r \<Rightarrow> Some (Some r) | _ \<Rightarrow> Some None) = Some (Some (p', x))"
      unfolding worker_take_def by (auto split: Option.bind_splits)
    then have "r = Run (p', x)" by (cases r) auto
    with r t show thesis by (intro first) simp_all
  qed
qed

lemma test_closed: "tp_shutdown p = 1 \<Longrightarrow> worker_thread p = Some Exit"
  by (simp add: worker_thread_def)

lemma open_pool: "tp_inv (p\<lparr>tp_shutdown := 0\<rparr>) \<Longrightarrow> tp_shutdown p = 0 \<Longrightarrow> tp_inv p"
  by (simp add: tp_inv_def)

lemma reset_open: "tp_inv p \<Longrightarrow> tp_inv (p\<lparr>tp_shutdown := 0\<rparr>)" "tp_inv p \<Longrightarrow> tp_shutdown p = 0"
  by (simp_all add: tp_inv_def)

text \<open>The steps of a worker.\<close>

lemma worker_cases:
  assumes inv: "pool_inv tasks s" and me: "me < 4"
  obtains (rest) "pool_worker_step me s = Some None" "pp_workers s ! me \<in> {W_New, W_Asleep, W_Gone}"
  | (wait) "pool_worker_step me s = Some (Some (s\<lparr>pp_workers := (pp_workers s)[me := W_Asleep]\<rparr>))" "pp_workers s ! me = W_Test"
      "queued s = []" "\<not> closed (pp_client s)"
  | (exit) "pool_worker_step me s = Some (Some (s\<lparr>pp_workers := (pp_workers s)[me := W_Gone]\<rparr>))" "pp_workers s ! me = W_Test"
      "closed (pp_client s)"
  | (run) p task where "pool_worker_step me s = Some (Some (s\<lparr>pp_pool := Some p, pp_workers := (pp_workers s)[me := W_Took task],
        pp_taken := pp_taken s @ [task]\<rparr>))" "pp_workers s ! me = W_Test" "tp_inv p" "queued s = task # tp_items p" "\<not> closed (pp_client s)"
  | (signal) task where "pool_worker_step me s = Some (Some (s\<lparr>pp_client := wake_client (pp_client s),
        pp_workers := (pp_workers s)[me := W_Run task]\<rparr>))" "pp_workers s ! me = W_Took task"
  | (finish) task where "pool_worker_step me s = Some (Some (s\<lparr>pp_workers := (pp_workers s)[me := W_Test],
        pp_run := pp_run s @ [task]\<rparr>))" "pp_workers s ! me = W_Run task"
proof -
  note D = pool_invD [OF inv]
  have len: "me < length (pp_workers s)" using workers_length [OF D(1)] me by simp
  have at: "worker_at (pp_client s) me (pp_workers s ! me)" by (rule worker_nth [OF D(1) me])
  have alive: "\<exists>p. pp_pool s = Some p" if "pp_workers s ! me \<noteq> W_Gone"
    using D(2) at that by (cases "pp_pool s") (auto simp: queue_ok_def)
  show thesis
  proof (cases "pp_workers s ! me")
    case W_Test
    then obtain p where p: "pp_pool s = Some p" using alive by auto
    then have q: "tp_inv (p\<lparr>tp_shutdown := 0\<rparr>)" "tp_shutdown p = (if closed (pp_client s) then 1 else 0)"
      using D(2) by (simp_all add: queue_ok_def)
    show thesis
    proof (cases "closed (pp_client s)")
      case True
      then have "worker_thread p = Some Exit" using q(2) by (simp add: test_closed)
      with p W_Test len True show thesis by (intro exit) (simp_all add: pool_worker_step_def)
    next
      case False
      then have "tp_inv p" using q by (simp add: open_pool)
      then show thesis
      proof (cases rule: test_open)
        case empty
        with p W_Test len False show thesis by (intro wait) (simp_all add: pool_worker_step_def queued_def)
      next
        case (first p' x)
        with p W_Test len False show thesis by (intro run [where p = p' and task = x]) (simp_all add: pool_worker_step_def queued_def)
      qed
    qed
  next
    case (W_Took task)
    with alive len show thesis by (intro signal [of task]) (auto simp: pool_worker_step_def)
  next
    case (W_Run task)
    with len show thesis by (intro finish [of task]) (simp_all add: pool_worker_step_def)
  qed (use len in \<open>auto intro!: rest simp: pool_worker_step_def\<close>)
qed

lemma worker_at_move:
  "\<lbrakk>worker_at c i x; x \<noteq> W_New; x \<noteq> W_Gone; y \<noteq> W_New; y \<noteq> W_Gone; y = W_Asleep \<Longrightarrow> \<not> closed c\<rbrakk> \<Longrightarrow> worker_at c i y"
  by (cases c) (auto simp: closed_def split: if_splits)

lemma worker_at_leave: "\<lbrakk>worker_at c i x; x \<noteq> W_New; x \<noteq> W_Gone; closed c\<rbrakk> \<Longrightarrow> worker_at c i W_Gone"
  by (cases c) (auto simp: closed_def split: if_splits)

lemma workers_wake_client: "workers_ok (wake_client c) ws = workers_ok c ws"
  by (simp add: wake_client_def workers_ok_def)

lemma wake_client_simps [simp]: "wake_client c = C_End \<longleftrightarrow> c = C_End" "closed (wake_client c) = closed c" "wake_client c \<noteq> C_Asleep"
  by (auto simp: wake_client_def closed_def)

lemma set_update_other: "\<lbrakk>y \<in> set ws; ws ! i \<noteq> y\<rbrakk> \<Longrightarrow> y \<in> set (ws[i := x])"
  by (metis in_set_conv_nth length_list_update nth_list_update_neq)

lemma sleep_ok_awake:
  assumes "sleep_ok s" and "i < length (pp_workers s)" and "x \<noteq> W_Asleep" and "\<forall>t. pp_workers s ! i \<noteq> W_Took t"
  shows "sleep_ok (s\<lparr>pp_workers := (pp_workers s)[i := x]\<rparr>)"
proof -
  have "x \<in> set ((pp_workers s)[i := x])" using assms(2) by (rule set_update_memI)
  with assms(3) have "\<not> (\<forall>y \<in> set ((pp_workers s)[i := x]). y = W_Asleep)" by blast
  moreover have "\<exists>t. W_Took t \<in> set ((pp_workers s)[i := x])" if "\<exists>t. W_Took t \<in> set (pp_workers s)"
    using that assms(4) by (metis set_update_other)
  ultimately show ?thesis using assms(1) by (auto simp: sleep_ok_def queued_def)
qed

lemma worker_moves_inv:
  assumes inv: "pool_inv tasks s" and me: "me < 4" and ws: "pp_workers t = (pp_workers s)[me := x]"
    and c: "pp_client t = pp_client s \<or> pp_client t = wake_client (pp_client s)" and x: "worker_at (pp_client s) me x"
    and q: "queue_ok tasks t" and sl: "sleep_ok t"
    and bal: "mset (pp_taken t) + (mset (pp_run s) + mset (hand (pp_workers s ! me))) = mset (pp_taken s) + (mset (pp_run t) + mset (hand x))"
  shows "pool_inv tasks t"
proof -
  note D = pool_invD [OF inv]
  have len: "me < length (pp_workers s)" using workers_length [OF D(1)] me by simp
  have "workers_ok (pp_client t) (pp_workers t)"
    using worker_update [OF D(1) x] c by (auto simp: ws workers_wake_client)
  moreover have "mset (pp_taken t) = mset (pp_run t) + hands (pp_workers t)"
  proof (rule multiset_eqI)
    fix a
    have "count (hands (pp_workers t)) a + count (mset (hand (pp_workers s ! me))) a = count (hands (pp_workers s)) a + count (mset (hand x)) a"
      using hands_update [OF len, of x] unfolding ws by (metis count_union)
    moreover have "count (mset (pp_taken t)) a + (count (mset (pp_run s)) a + count (mset (hand (pp_workers s ! me))) a) =
        count (mset (pp_taken s)) a + (count (mset (pp_run t)) a + count (mset (hand x)) a)" using bal by (metis count_union)
    moreover have "count (mset (pp_taken s)) a = count (mset (pp_run s)) a + count (hands (pp_workers s)) a" using D(4) by (metis count_union)
    ultimately show "count (mset (pp_taken t)) a = count (mset (pp_run t) + hands (pp_workers t)) a" unfolding count_union by linarith
  qed
  ultimately show ?thesis using q sl by (simp add: pool_inv_def)
qed

text \<open>A test, and the rest of the loop.\<close>

lemma worker_test_inv:
  assumes inv: "pool_inv tasks s" and me: "me < 4" and pos: "pp_workers s ! me = W_Test" and step: "pool_worker_step me s = Some (Some t)"
  shows "pool_inv tasks t"
proof -
  note D = pool_invD [OF inv]
  have len: "me < length (pp_workers s)" using workers_length [OF D(1)] me by simp
  have at: "worker_at (pp_client s) me (pp_workers s ! me)" by (rule worker_nth [OF D(1) me])
  from inv me show ?thesis
  proof (cases rule: worker_cases)
    case wait
    have t: "t = s\<lparr>pp_workers := (pp_workers s)[me := W_Asleep]\<rparr>" using step wait(1) by simp
    have "\<exists>k. W_Took k \<in> set (pp_workers t)" if k: "W_Took k \<in> set (pp_workers s)" for k
      using set_update_other [OF k, of me W_Asleep] by (auto simp: t pos)
    then have "sleep_ok t" using D(3) wait(3) by (auto simp: sleep_ok_def queued_def t)
    moreover have "queue_ok tasks t" using D(2) by (simp add: t queue_ok_def split: option.splits)
    ultimately show ?thesis using worker_at_move [OF at, of W_Asleep] wait(4)
      by (intro worker_moves_inv [OF inv me, where x = W_Asleep]) (simp_all add: t pos hand_def)
  next
    case exit
    have t: "t = s\<lparr>pp_workers := (pp_workers s)[me := W_Gone]\<rparr>" using step exit(1) by simp
    have "queue_ok tasks t" using D(2) by (simp add: t queue_ok_def split: option.splits)
    then show ?thesis using worker_at_leave [OF at] exit(3) sleep_ok_awake [OF D(3) len, of W_Gone]
      by (intro worker_moves_inv [OF inv me, where x = W_Gone]) (simp_all add: t pos hand_def)
  next
    case (run p task)
    have t: "t = s\<lparr>pp_pool := Some p, pp_workers := (pp_workers s)[me := W_Took task], pp_taken := pp_taken s @ [task]\<rparr>"
      using step run(1) by simp
    obtain p0 where p0: "pp_pool s = Some p0" using run(4) by (cases "pp_pool s") (simp_all add: queued_def)
    have "W_Took task \<in> set (pp_workers t)" using len by (simp add: t set_update_memI)
    then have "sleep_ok t" by (auto simp: sleep_ok_def)
    moreover have "queue_ok tasks t" using D(2) p0 run(3,4,5) reset_open [OF run(3)] by (simp add: t queue_ok_def queued_def)
    ultimately show ?thesis using worker_at_move [OF at, of "W_Took task"]
      by (intro worker_moves_inv [OF inv me, where x = "W_Took task"]) (simp_all add: t pos hand_def)
  qed (use pos step in simp_all)
qed

lemma worker_step_inv:
  assumes inv: "pool_inv tasks s" and step: "pool_worker_step me s = Some (Some t)"
  shows "pool_inv tasks t"
proof -
  note D = pool_invD [OF inv]
  have len: "me < length (pp_workers s)" using step by (auto simp: pool_worker_step_def rd_def split: if_splits)
  then have me: "me < 4" using workers_length [OF D(1)] by simp
  have at: "worker_at (pp_client s) me (pp_workers s ! me)" by (rule worker_nth [OF D(1) me])
  from inv me show ?thesis
  proof (cases rule: worker_cases)
    case (signal task)
    have t: "t = s\<lparr>pp_client := wake_client (pp_client s), pp_workers := (pp_workers s)[me := W_Run task]\<rparr>" using step signal(1) by simp
    have "W_Run task \<in> set (pp_workers t)" using len by (simp add: t set_update_memI)
    then have "sleep_ok t" by (auto simp: sleep_ok_def t)
    moreover have "queue_ok tasks t" using D(2) by (simp add: t queue_ok_def split: option.splits)
    ultimately show ?thesis using worker_at_move [OF at, of "W_Run task"] signal(2)
      by (intro worker_moves_inv [OF inv me, where x = "W_Run task"]) (simp_all add: t hand_def)
  next
    case (finish task)
    have t: "t = s\<lparr>pp_workers := (pp_workers s)[me := W_Test], pp_run := pp_run s @ [task]\<rparr>" using step finish(1) by simp
    have "sleep_ok t" using sleep_ok_awake [OF D(3) len, of W_Test] finish(2) by (simp add: t sleep_ok_def queued_def)
    moreover have "queue_ok tasks t" using D(2) by (simp add: t queue_ok_def split: option.splits)
    ultimately show ?thesis using worker_at_move [OF at, of W_Test] finish(2)
      by (intro worker_moves_inv [OF inv me, where x = W_Test]) (simp_all add: t hand_def)
  qed (use step worker_test_inv [OF inv me] in simp_all)
qed

text \<open>The steps of the client.\<close>

lemma client_pool:
  assumes "pool_inv tasks s" and "pp_client s \<noteq> C_End"
  obtains p where "pp_pool s = Some p" "tp_inv (p\<lparr>tp_shutdown := 0\<rparr>)" "tp_shutdown p = (if closed (pp_client s) then 1 else 0)"
    "tasks = pp_taken s @ tp_items p @ pp_todo s" "queued s = tp_items p"
  using pool_invD(2) [OF assms(1)] assms(2) that by (cases "pp_pool s") (auto simp: queue_ok_def queued_def)

lemma client_start_inv:
  assumes inv: "pool_inv tasks s" and pos: "pp_client s = C_Start i" and step: "pool_client_step w s = Some (Some t)"
  shows "pool_inv tasks t"
proof -
  note D = pool_invD [OF inv]
  have len: "length (pp_workers s) = 4" and i: "i \<le> 4" and w: "\<forall>j < 4. worker_at (C_Start i) j (pp_workers s ! j)"
    using D(1) pos by (simp_all add: workers_ok_def)
  have q: "queue_ok tasks (s\<lparr>pp_workers := ws, pp_client := c\<rparr>)" if "\<not> closed c" "c \<noteq> C_End" for ws c
    using D(2) that pos by (auto simp: queue_ok_def closed_def split: option.splits)
  show ?thesis
  proof (cases "i < 4")
    case True
    with w have new: "pp_workers s ! i = W_New" by simp
    have t: "t = s\<lparr>pp_workers := (pp_workers s)[i := W_Test], pp_client := C_Start (i + 1)\<rparr>"
      using step pos True len by (simp add: client_defs THREAD_POOL_SIZE_def)
    have "worker_at (C_Start (i + 1)) j ((pp_workers s)[i := W_Test] ! j)" if "j < 4" for j
      using w that len by (cases "j = i") (auto simp: nth_list_update less_Suc_eq split: if_splits)
    then have "workers_ok (pp_client t) (pp_workers t)" using True len by (simp add: workers_ok_def t del: worker_at.simps)
    moreover have "W_Test \<in> set (pp_workers t)" using True len by (simp add: t set_update_memI)
    then have "sleep_ok t" by (auto simp: sleep_ok_def t)
    moreover have "hands (pp_workers t) = hands (pp_workers s)" using True len new by (simp add: t hands_same hand_def)
    ultimately show ?thesis using D(4) q [of "C_Start (i + 1)"] by (simp add: pool_inv_def t closed_def)
  next
    case False
    have t: "t = s\<lparr>pp_workers := pp_workers s, pp_client := C_Add\<rparr>"
      using step pos False by (simp add: client_defs THREAD_POOL_SIZE_def)
    have "workers_ok C_Add (pp_workers s)" using D(1) pos False by (auto simp: workers_ok_def)
    moreover have "sleep_ok t" using D(3) pos by (simp add: sleep_ok_def t queued_def)
    ultimately show ?thesis using D(4) q [of C_Add "pp_workers s"] by (simp add: pool_inv_def t closed_def)
  qed
qed

lemma client_add_cases:
  assumes inv: "pool_inv tasks s" and pos: "pp_client s = C_Add"
  obtains (finish) "pool_client_step w s = Some (Some (s\<lparr>pp_client := C_Shut\<rparr>))" "pp_todo s = []"
  | (full) "pool_client_step w s = Some (Some (s\<lparr>pp_client := C_Asleep\<rparr>))" "length (queued s) = 100"
  | (added) p task rest where "pool_client_step w s = Some (Some (s\<lparr>pp_pool := Some p, pp_todo := rest, pp_client := C_Signal\<rparr>))"
      "pp_todo s = task # rest" "tp_inv p" "tp_items p = queued s @ [task]"
proof -
  from inv have "pp_client s \<noteq> C_End" by (simp add: pos)
  with inv obtain p where p: "pp_pool s = Some p" "tp_inv (p\<lparr>tp_shutdown := 0\<rparr>)" "tp_shutdown p = (if closed (pp_client s) then 1 else 0)"
    "queued s = tp_items p" by (rule client_pool)
  then have ip: "tp_inv p" by (simp add: pos closed_def open_pool)
  show thesis
  proof (cases "pp_todo s")
    case Nil
    with pos show thesis by (intro finish) (simp_all add: client_defs)
  next
    case (Cons task rest)
    from tp.push_cases [OF ip, of task] show thesis
    proof (elim disjE exE conjE)
      assume "add_task 100 task p = Some None" "length (tp_items p) = 100"
      with pos Cons p show thesis by (intro full) (simp_all add: client_defs MAX_QUEUE_SIZE_def)
    next
      fix p' assume "add_task 100 task p = Some (Some p')" "tp_inv p'" "tp_items p' = tp_items p @ [task]"
      with pos Cons p show thesis
        by (intro added [where p = p' and task = task and rest = rest]) (simp_all add: client_defs MAX_QUEUE_SIZE_def)
    qed
  qed
qed

lemma client_add_inv:
  assumes inv: "pool_inv tasks s" and pos: "pp_client s = C_Add" and step: "pool_client_step w s = Some (Some t)"
  shows "pool_inv tasks t"
proof -
  note D = pool_invD [OF inv]
  have ws: "workers_ok c (pp_workers s)" if "c \<in> {C_Asleep, C_Signal, C_Shut}" for c using D(1) that pos by (auto simp: workers_ok_def)
  from inv pos show ?thesis
  proof (cases rule: client_add_cases [where w = w])
    case finish
    then have t: "t = s\<lparr>pp_client := C_Shut\<rparr>" using step by simp
    have "queue_ok tasks t" using D(2) pos by (simp add: t queue_ok_def closed_def split: option.splits)
    moreover have "sleep_ok t" using D(3) pos by (simp add: sleep_ok_def t queued_def)
    ultimately show ?thesis using ws [of C_Shut] D(4) by (simp add: pool_inv_def t)
  next
    case full
    then have t: "t = s\<lparr>pp_client := C_Asleep\<rparr>" using step by simp
    have "queue_ok tasks t" using D(2) pos by (simp add: t queue_ok_def closed_def split: option.splits)
    moreover have "sleep_ok t" using D(3) pos full(2) by (simp add: sleep_ok_def t queued_def)
    ultimately show ?thesis using ws [of C_Asleep] D(4) by (simp add: pool_inv_def t)
  next
    case (added p task rest)
    then have t: "t = s\<lparr>pp_pool := Some p, pp_todo := rest, pp_client := C_Signal\<rparr>" using step by simp
    from inv have "pp_client s \<noteq> C_End" by (simp add: pos)
    with inv have "tasks = pp_taken s @ queued s @ pp_todo s" by (rule client_pool) simp
    then have "queue_ok tasks t" using added(2,3,4) reset_open [OF added(3)] by (simp add: t queue_ok_def closed_def)
    moreover have "sleep_ok t" by (simp add: sleep_ok_def t)
    ultimately show ?thesis using ws [of C_Signal] D(4) by (simp add: pool_inv_def t)
  qed
qed

lemma client_signal_inv:
  assumes inv: "pool_inv tasks s" and pos: "pp_client s = C_Signal" and w: "chosen w (pp_workers s)"
    and step: "pool_client_step w s = Some (Some t)"
  shows "pool_inv tasks t"
proof -
  note D = pool_invD [OF inv]
  have t: "t = s\<lparr>pp_workers := wake_worker w (pp_workers s), pp_client := C_Add\<rparr>"
    using step pos by (auto simp: client_defs split: Option.bind_splits)
  have len: "length (pp_workers s) = 4" by (rule workers_length [OF D(1)])
  have "workers_ok C_Add (pp_workers s)" using D(1) pos by (simp add: workers_ok_def)
  then have "workers_ok C_Add (wake_worker w (pp_workers s))" by (auto simp: wake_worker_def intro: worker_update)
  moreover have "\<exists>x \<in> set (wake_worker w (pp_workers s)). x \<noteq> W_Asleep"
  proof (cases "W_Asleep \<in> set (pp_workers s)")
    case True
    then have "w < length (pp_workers s)" "pp_workers s ! w = W_Asleep" using w by (simp_all add: chosen_def)
    then have "W_Test \<in> set (wake_worker w (pp_workers s))" by (simp add: wake_worker_def set_update_memI)
    then show ?thesis by blast
  next
    case False
    then have "wake_worker w (pp_workers s) = pp_workers s" using w by (simp add: wake_worker_def chosen_def)
    moreover have "pp_workers s ! 0 \<in> set (pp_workers s)" using len by simp
    ultimately show ?thesis using False by metis
  qed
  then have "sleep_ok t" by (auto simp: sleep_ok_def t)
  moreover have "queue_ok tasks t" using D(2) pos by (simp add: t queue_ok_def closed_def split: option.splits)
  ultimately show ?thesis using D(4) by (simp add: pool_inv_def t)
qed

lemma client_close_inv:
  assumes inv: "pool_inv tasks s" and pos: "pp_client s = C_Shut \<or> pp_client s = C_Broadcast"
    and step: "pool_client_step w s = Some (Some t)"
  shows "pool_inv tasks t"
  using pos
proof
  note D = pool_invD [OF inv]
  { assume pos: "pp_client s = C_Shut"
    then have "pp_client s \<noteq> C_End" by simp
    with inv obtain p where p: "pp_pool s = Some p" "tp_inv (p\<lparr>tp_shutdown := 0\<rparr>)" "tasks = pp_taken s @ tp_items p @ pp_todo s"
      "queued s = tp_items p" by (rule client_pool)
    have t: "t = s\<lparr>pp_pool := Some (shut_down p), pp_client := C_Broadcast\<rparr>" using step pos p(1) by (simp add: client_defs)
    have same: "tp_items (shut_down p) = tp_items p" "(shut_down p)\<lparr>tp_shutdown := 0\<rparr> = p\<lparr>tp_shutdown := 0\<rparr>"
      by (simp_all add: shut_down_def tp_items_def)
    then have "queue_ok tasks t" using p by (simp add: t queue_ok_def closed_def shut_down_def)
    moreover have "workers_ok C_Broadcast (pp_workers s)" using D(1) pos by (simp add: workers_ok_def)
    moreover have "sleep_ok t" using D(3) pos p(4) same(1) by (simp add: sleep_ok_def t queued_def)
    ultimately show "pool_inv tasks t" using D(4) by (simp add: pool_inv_def t) }
  { assume pos: "pp_client s = C_Broadcast"
    have t: "t = s\<lparr>pp_workers := wake_all (pp_workers s), pp_client := C_Join 0\<rparr>"
      using step pos by (auto simp: client_defs split: Option.bind_splits)
    have len: "length (pp_workers s) = 4" by (rule workers_length [OF D(1)])
    have a: "wake_all (pp_workers s) ! i \<noteq> W_New \<and> wake_all (pp_workers s) ! i \<noteq> W_Asleep" if "i < 4" for i
      using worker_nth [OF D(1) that] pos len that by (cases "pp_workers s ! i") (simp_all add: wake_all_def)
    then have "workers_ok (C_Join 0) (wake_all (pp_workers s))" using len by (simp add: workers_ok_def)
    moreover have "wake_all (pp_workers s) ! 0 \<in> set (wake_all (pp_workers s))" using len by (intro nth_mem) simp
    then have "sleep_ok t" using a [of 0] by (auto simp: sleep_ok_def t)
    moreover have "queue_ok tasks t" using D(2) pos by (simp add: t queue_ok_def closed_def split: option.splits)
    ultimately show "pool_inv tasks t" using D(4) by (simp add: pool_inv_def t) }
qed

lemma client_join_inv:
  assumes inv: "pool_inv tasks s" and pos: "pp_client s = C_Join i" and step: "pool_client_step w s = Some (Some t)"
  shows "pool_inv tasks t"
proof -
  note D = pool_invD [OF inv]
  have len: "length (pp_workers s) = 4" and i: "i \<le> 4" and ws: "\<forall>j < 4. worker_at (C_Join i) j (pp_workers s ! j)"
    using D(1) pos by (simp_all add: workers_ok_def)
  show ?thesis
  proof (cases "i < 4")
    case True
    then have t: "t = s\<lparr>pp_client := C_Join (i + 1)\<rparr>" and gone: "pp_workers s ! i = W_Gone"
      using step pos len by (auto simp: client_defs THREAD_POOL_SIZE_def split: pool_worker.splits)
    have "\<forall>j < 4. worker_at (C_Join (i + 1)) j (pp_workers s ! j)" using ws gone by (auto simp: less_Suc_eq)
    then have "workers_ok (C_Join (i + 1)) (pp_workers s)" using len True by (simp add: workers_ok_def del: worker_at.simps)
    moreover have "queue_ok tasks t" using D(2) pos by (simp add: t queue_ok_def closed_def split: option.splits)
    moreover have "sleep_ok t" using D(3) pos by (simp add: sleep_ok_def t queued_def)
    ultimately show ?thesis using D(4) by (simp add: pool_inv_def t)
  next
    case False
    then have t: "t = s\<lparr>pp_pool := None, pp_client := C_End\<rparr>" using step pos by (simp add: client_defs THREAD_POOL_SIZE_def)
    have "workers_ok C_End (pp_workers s)" using D(1) pos False by (simp add: workers_ok_def)
    moreover have "queue_ok tasks t" using D(2) by (auto simp: t queue_ok_def split: option.splits)
    moreover have "sleep_ok t" by (simp add: sleep_ok_def t queued_def)
    ultimately show ?thesis using D(4) by (simp add: pool_inv_def t)
  qed
qed

lemma client_step_inv:
  assumes "pool_inv tasks s" and "chosen w (pp_workers s)" and "pool_client_step w s = Some (Some t)"
  shows "pool_inv tasks t"
proof (cases "pp_client s")
  case C_Asleep
  with assms(3) show ?thesis by (simp add: client_defs)
next
  case C_End
  with assms(3) show ?thesis by (simp add: client_defs)
qed (use assms in \<open>blast intro: client_start_inv client_add_inv client_signal_inv client_close_inv client_join_inv\<close>)+

text \<open>Wake-ups that no signal caused.\<close>

lemma wake_client_inv:
  assumes "pool_inv tasks s"
  shows "pool_inv tasks (s\<lparr>pp_client := wake_client (pp_client s)\<rparr>)"
proof -
  note D = pool_invD [OF assms]
  have "queue_ok tasks (s\<lparr>pp_client := wake_client (pp_client s)\<rparr>)" using D(2) by (simp add: queue_ok_def split: option.splits)
  moreover have "sleep_ok (s\<lparr>pp_client := wake_client (pp_client s)\<rparr>)"
    using D(3) by (auto simp: sleep_ok_def queued_def wake_client_def)
  ultimately show ?thesis using D(1,4) by (simp add: pool_inv_def workers_wake_client)
qed

lemma wake_worker_inv:
  assumes "pool_inv tasks s"
  shows "pool_inv tasks (s\<lparr>pp_workers := wake_worker w (pp_workers s)\<rparr>)"
proof (cases "w < length (pp_workers s) \<and> pp_workers s ! w = W_Asleep")
  case True
  note D = pool_invD [OF assms]
  have ww: "wake_worker w (pp_workers s) = (pp_workers s)[w := W_Test]" using True by (simp add: wake_worker_def)
  have w: "w < 4" using True workers_length [OF D(1)] by simp
  have at: "worker_at (pp_client s) w (pp_workers s ! w)" by (rule worker_nth [OF D(1) w])
  have "queue_ok tasks (s\<lparr>pp_workers := (pp_workers s)[w := W_Test]\<rparr>)" using D(2) by (simp add: queue_ok_def split: option.splits)
  moreover have "sleep_ok (s\<lparr>pp_workers := (pp_workers s)[w := W_Test]\<rparr>)" by (rule sleep_ok_awake [OF D(3)]) (use True in simp_all)
  ultimately show ?thesis using worker_at_move [OF at, of W_Test] True unfolding ww
    by (intro worker_moves_inv [OF assms w, where x = W_Test]) (simp_all add: hand_def)
next
  case False
  then have "wake_worker w (pp_workers s) = pp_workers s" by (auto simp: wake_worker_def)
  then show ?thesis using assms by simp
qed

lemma pool_reach_inv: "\<lbrakk>pool_reach s0 s; pool_inv tasks s0\<rbrakk> \<Longrightarrow> pool_inv tasks s"
  by (induction rule: pool_reach.induct) (auto simp: pool_step_def intro: worker_step_inv client_step_inv wake_client_inv wake_worker_inv)

subsection \<open>The end\<close>

definition worker_weight :: "'k pool_worker \<Rightarrow> nat" where
  "worker_weight x = (case x of W_New \<Rightarrow> 3 | W_Test \<Rightarrow> 2 | W_Asleep \<Rightarrow> 1 | W_Took t \<Rightarrow> 5 | W_Run t \<Rightarrow> 3 | W_Gone \<Rightarrow> 0)"

definition client_weight :: "pool_client \<Rightarrow> nat" where
  "client_weight c = (case c of C_Start i \<Rightarrow> 18 - i | C_Signal \<Rightarrow> 15 | C_Add \<Rightarrow> 13 | C_Asleep \<Rightarrow> 12 | C_Shut \<Rightarrow> 11 | C_Broadcast \<Rightarrow> 10
     | C_Join i \<Rightarrow> 5 - i | C_End \<Rightarrow> 0)"

definition pool_rank :: "('f, 'a) pool_program \<Rightarrow> nat" where
  "pool_rank s = client_weight (pp_client s) + 7 * length (pp_todo s) + 4 * length (queued s) + sum_list (map worker_weight (pp_workers s))"

definition pool_done :: "('f, 'a) task list \<Rightarrow> ('f, 'a) pool_program \<Rightarrow> bool" where
  "pool_done tasks s \<longleftrightarrow> pp_client s = C_End \<and> pp_pool s = None \<and> (\<forall>x \<in> set (pp_workers s). x = W_Gone) \<and>
     (\<exists>rest. tasks = pp_taken s @ rest) \<and> mset (pp_run s) = mset (pp_taken s)"

lemma worker_rank:
  assumes inv: "pool_inv tasks s" and step: "pool_worker_step me s = Some (Some t)"
  shows "pool_rank t < pool_rank s"
proof -
  note D = pool_invD [OF inv]
  have len: "me < length (pp_workers s)" using step by (auto simp: pool_worker_step_def rd_def split: if_splits)
  then have me: "me < 4" using workers_length [OF D(1)] by simp
  have wt: "sum_list (map worker_weight ((pp_workers s)[me := x])) + worker_weight (pp_workers s ! me) =
      sum_list (map worker_weight (pp_workers s)) + worker_weight x" for x by (rule sum_map_update [OF len])
  have cw: "client_weight (wake_client c) \<le> Suc (client_weight c)" for c by (simp add: wake_client_def client_weight_def)
  from inv me show ?thesis
  proof (cases rule: worker_cases)
    case rest
    with step show ?thesis by simp
  next
    case wait
    have "t = s\<lparr>pp_workers := (pp_workers s)[me := W_Asleep]\<rparr>" using step wait(1) by simp
    with wt [of W_Asleep] wait(2) show ?thesis by (simp add: pool_rank_def worker_weight_def queued_def)
  next
    case exit
    have "t = s\<lparr>pp_workers := (pp_workers s)[me := W_Gone]\<rparr>" using step exit(1) by simp
    with wt [of W_Gone] exit(2) show ?thesis by (simp add: pool_rank_def worker_weight_def queued_def)
  next
    case (run p task)
    have t: "t = s\<lparr>pp_pool := Some p, pp_workers := (pp_workers s)[me := W_Took task], pp_taken := pp_taken s @ [task]\<rparr>"
      using step run(1) by simp
    have "Suc (length (queued t)) = length (queued s)" using run(4) by (simp add: t queued_def)
    with wt [of "W_Took task"] run(2) show ?thesis by (simp add: t pool_rank_def worker_weight_def)
  next
    case (signal task)
    have t: "t = s\<lparr>pp_client := wake_client (pp_client s), pp_workers := (pp_workers s)[me := W_Run task]\<rparr>" using step signal(1) by simp
    have "queued t = queued s" by (simp add: t queued_def)
    with wt [of "W_Run task"] signal(2) cw [of "pp_client s"] show ?thesis by (simp add: t pool_rank_def worker_weight_def)
  next
    case (finish task)
    have t: "t = s\<lparr>pp_workers := (pp_workers s)[me := W_Test], pp_run := pp_run s @ [task]\<rparr>" using step finish(1) by simp
    have "queued t = queued s" by (simp add: t queued_def)
    with wt [of W_Test] finish(2) show ?thesis by (simp add: t pool_rank_def worker_weight_def)
  qed
qed

lemma wake_weight:
  "sum_list (map worker_weight (wake_worker w ws)) \<le> Suc (sum_list (map worker_weight ws))"
  "sum_list (map worker_weight (wake_all ws)) \<le> length ws + sum_list (map worker_weight ws)"
proof -
  show "sum_list (map worker_weight (wake_worker w ws)) \<le> Suc (sum_list (map worker_weight ws))"
    using sum_map_update [of w ws worker_weight W_Test] by (auto simp: wake_worker_def worker_weight_def)
  show "sum_list (map worker_weight (wake_all ws)) \<le> length ws + sum_list (map worker_weight ws)"
    by (induction ws) (auto simp: wake_all_def worker_weight_def split: pool_worker.split)
qed

lemma client_start_rank:
  assumes inv: "pool_inv tasks s" and pos: "pp_client s = C_Start i" and step: "pool_client_step w s = Some (Some t)"
  shows "pool_rank t < pool_rank s"
proof -
  have len: "length (pp_workers s) = 4" and i: "i \<le> 4" and ws: "\<forall>j < 4. worker_at (C_Start i) j (pp_workers s ! j)"
    using pool_invD(1) [OF inv] pos by (simp_all add: workers_ok_def)
  show ?thesis
  proof (cases "i < 4")
    case True
    with ws have new: "pp_workers s ! i = W_New" by simp
    have t: "t = s\<lparr>pp_workers := (pp_workers s)[i := W_Test], pp_client := C_Start (i + 1)\<rparr>"
      using step pos True len by (simp add: client_defs THREAD_POOL_SIZE_def)
    show ?thesis using sum_map_update [of i "pp_workers s" worker_weight W_Test] True new pos len
      by (simp add: t pool_rank_def worker_weight_def client_weight_def queued_def)
  next
    case False
    then have "t = s\<lparr>pp_client := C_Add\<rparr>" using step pos by (simp add: client_defs THREAD_POOL_SIZE_def)
    then show ?thesis using pos i by (simp add: pool_rank_def client_weight_def queued_def)
  qed
qed

lemma client_add_rank:
  assumes inv: "pool_inv tasks s" and pos: "pp_client s = C_Add" and step: "pool_client_step w s = Some (Some t)"
  shows "pool_rank t < pool_rank s"
  using inv pos
proof (cases rule: client_add_cases [where w = w])
  case finish
  then have "t = s\<lparr>pp_client := C_Shut\<rparr>" using step by simp
  then show ?thesis using pos by (simp add: pool_rank_def client_weight_def queued_def)
next
  case full
  then have "t = s\<lparr>pp_client := C_Asleep\<rparr>" using step by simp
  then show ?thesis using pos by (simp add: pool_rank_def client_weight_def queued_def)
next
  case (added p task rest)
  then have "t = s\<lparr>pp_pool := Some p, pp_todo := rest, pp_client := C_Signal\<rparr>" using step by simp
  then have "pool_rank t = 15 + 7 * length rest + 4 * Suc (length (queued s)) + sum_list (map worker_weight (pp_workers s))"
    using added(4) by (simp add: pool_rank_def client_weight_def queued_def)
  then show ?thesis using added(2) pos by (simp add: pool_rank_def client_weight_def)
qed

lemma client_end_rank:
  assumes inv: "pool_inv tasks s" and pos: "pp_client s = C_Signal \<or> pp_client s = C_Shut \<or> pp_client s = C_Broadcast \<or> pp_client s = C_Join i"
    and step: "pool_client_step w s = Some (Some t)"
  shows "pool_rank t < pool_rank s"
proof -
  from pos have "pp_client s \<noteq> C_End" by auto
  with inv obtain p where p: "pp_pool s = Some p" by (rule client_pool)
  have same: "tp_items (shut_down p) = tp_items p" by (simp add: shut_down_def tp_items_def)
  have len: "length (pp_workers s) = 4" using workers_length [OF pool_invD(1) [OF inv]] .
  from pos show ?thesis
  proof (elim disjE)
    assume c: "pp_client s = C_Signal"
    then have "t = s\<lparr>pp_workers := wake_worker w (pp_workers s), pp_client := C_Add\<rparr>" using step p by (simp add: client_defs)
    then show ?thesis using wake_weight(1) [of w "pp_workers s"] c by (simp add: pool_rank_def client_weight_def queued_def)
  next
    assume c: "pp_client s = C_Shut"
    then have "t = s\<lparr>pp_pool := Some (shut_down p), pp_client := C_Broadcast\<rparr>" using step p by (simp add: client_defs)
    then show ?thesis using c p same by (simp add: pool_rank_def client_weight_def queued_def)
  next
    assume c: "pp_client s = C_Broadcast"
    then have "t = s\<lparr>pp_workers := wake_all (pp_workers s), pp_client := C_Join 0\<rparr>" using step p by (simp add: client_defs)
    then show ?thesis using wake_weight(2) [of "pp_workers s"] c len by (simp add: pool_rank_def client_weight_def queued_def)
  next
    assume c: "pp_client s = C_Join i"
    with step len have "t = s\<lparr>pp_client := C_Join (i + 1)\<rparr> \<and> i < 4 \<or> t = s\<lparr>pp_pool := None, pp_client := C_End\<rparr>"
      by (auto simp: client_defs THREAD_POOL_SIZE_def split: pool_worker.splits if_splits)
    moreover have "i \<le> 4" using pool_invD(1) [OF inv] c by (simp add: workers_ok_def)
    ultimately show ?thesis using c by (auto simp: pool_rank_def client_weight_def queued_def)
  qed
qed

lemma client_rank:
  assumes "pool_inv tasks s" and "pool_client_step w s = Some (Some t)"
  shows "pool_rank t < pool_rank s"
proof (cases "pp_client s")
  case C_Asleep
  with assms(2) show ?thesis by (simp add: client_defs)
next
  case C_End
  with assms(2) show ?thesis by (simp add: client_defs)
qed (use assms in \<open>blast intro: client_start_rank client_add_rank client_end_rank\<close>)+

interpretation pp: ranked_system "pool_inv tasks" pool_step pool_rank
  by unfold_locales (auto simp: pool_step_def intro: worker_step_inv client_step_inv worker_rank client_rank)

lemma client_defined:
  assumes inv: "pool_inv tasks s"
  shows "pool_client_step w s \<noteq> None"
proof (cases "pp_client s = C_End")
  case False
  with inv obtain p where p: "pp_pool s = Some p" by (rule client_pool)
  have len: "length (pp_workers s) = 4" using workers_length [OF pool_invD(1) [OF inv]] .
  show ?thesis
  proof (cases "pp_client s")
    case C_Add
    with inv show ?thesis by (cases rule: client_add_cases [where w = w]) simp_all
  qed (use p len in \<open>simp_all add: client_defs THREAD_POOL_SIZE_def\<close>)
qed (simp add: client_defs)

lemma chosen_exists: "\<exists>w. chosen w ws"
proof (cases "W_Asleep \<in> set ws")
  case True
  then show ?thesis by (auto simp: chosen_def in_set_conv_nth)
qed (auto simp: chosen_def)

lemma pool_rest_done:
  assumes inv: "pool_inv tasks s" and rest: "at_rest pool_step s"
  shows "pool_done tasks s"
proof -
  note D = pool_invD [OF inv]
  have len: "length (pp_workers s) = 4" by (rule workers_length [OF D(1)])
  obtain w where w: "chosen w (pp_workers s)" using chosen_exists by blast
  then have c: "pool_client_step w s = Some None"
    using rest w client_defined [OF inv, of w] unfolding at_rest_def pool_step_def by (metis not_Some_eq)
  have still: "pp_workers s ! i \<in> {W_New, W_Asleep, W_Gone}" if "i < 4" for i
    by (rule worker_cases [OF inv that]) (use rest in \<open>auto simp: at_rest_def pool_step_def\<close>)
  have e: "pp_client s = C_End"
  proof (cases "pp_client s")
    case C_Add
    with inv show ?thesis by (rule client_add_cases [where w = w]) (simp_all add: c)
  next
    case C_Asleep
    have asleep: "pp_workers s ! i = W_Asleep" if "i < 4" for i using worker_nth [OF D(1) that] still [OF that] C_Asleep by auto
    then have all: "\<forall>x \<in> set (pp_workers s). x = W_Asleep" using len by (metis in_set_conv_nth)
    then have "\<nexists>t. W_Took t \<in> set (pp_workers s)" by auto
    with D(3) C_Asleep all show ?thesis by (auto simp: sleep_ok_def)
  next
    case (C_Join i)
    then have i: "i < 4" "pp_workers s ! i \<noteq> W_Gone"
      using c len by (auto simp: client_defs THREAD_POOL_SIZE_def split: if_splits)
    then show ?thesis using worker_nth [OF D(1) i(1)] still [OF i(1)] C_Join by auto
  qed (use c client_pool [OF inv] len in \<open>auto simp: client_defs THREAD_POOL_SIZE_def split: if_splits Option.bind_splits\<close>)
  then have gone: "\<forall>x \<in> set (pp_workers s). x = W_Gone" using D(1) by (auto simp: workers_ok_def in_set_conv_nth)
  then have "hands (pp_workers s) = {#}" by (auto simp: hands_def hand_def)
  with D(2,4) e gone show ?thesis by (auto simp: pool_done_def queue_ok_def split: option.splits)
qed

text \<open>C8: The thread pool of d10 does its work, ends and is not used after it is freed. Whatever the schedule, the choices of the signals
  and the wake-ups without a signal, no thread does an undefined step, so nobody uses the pool after
  \<open>destroy_thread_pool\<close> has freed it; from every reachable state the threads take at most \<open>pool_rank\<close> further steps; and they
  come to rest only when the pool is destroyed, all workers have left, and every task taken from the queue has been run once. The tasks taken are
  the first ones added, in order.\<close>
theorem pool_life:
  assumes "pool_reach (pool_start raw tasks) s" and "length raw = 100"
  shows "(\<forall>w. pool_client_step w s \<noteq> None) \<and> (\<forall>me < 4. pool_worker_step me s \<noteq> None) \<and>
    terminates_within (pool_rank s) pool_step (pool_done tasks) s"
proof -
  have inv: "pool_inv tasks s" using pool_reach_inv [OF assms(1) pool_inv_start [OF assms(2)]] .
  have "pool_worker_step me s \<noteq> None" if "me < 4" for me by (rule worker_cases [OF inv that]) simp_all
  then show ?thesis using client_defined [OF inv] pp.ends_with [where Q = "pool_done tasks", OF pool_rest_done inv] by blast
qed

theorem pool_life_witness:
  "terminates_within 44 pool_step (pool_done [(\<lparr>tk_function = (), tk_arg = 7\<rparr> :: (unit, int) task), \<lparr>tk_function = (), tk_arg = 8\<rparr>])
     (pool_start (replicate 100 \<lparr>tk_function = (), tk_arg = 0\<rparr>) [\<lparr>tk_function = (), tk_arg = 7\<rparr>, \<lparr>tk_function = (), tk_arg = 8\<rparr>])"
proof -
  let ?raw = "replicate 100 (\<lparr>tk_function = (), tk_arg = 0\<rparr> :: (unit, int) task)"
    and ?tasks = "[\<lparr>tk_function = (), tk_arg = 7\<rparr>, \<lparr>tk_function = (), tk_arg = 8\<rparr>] :: (unit, int) task list"
  have "tp_items (create_thread_pool ?raw) = []" by (simp add: create_thread_pool_def tp_items_def ring_list_def)
  then have "pool_rank (pool_start ?raw ?tasks) = 44"
    by (simp add: pool_rank_def pool_start_def client_weight_def worker_weight_def queued_def THREAD_POOL_SIZE_def sum_list_replicate)
  with pool_life [OF pool_reach.start, of ?raw ?tasks] show ?thesis by simp
qed

text \<open>
  The tasks left in the queue are lost: here the pool is destroyed before a worker has looked, and the one task is never run.
\<close>

primrec play :: "(bool \<times> nat) list \<Rightarrow> ('f, 'a) pool_program \<Rightarrow> ('f, 'a) pool_program option" where
  "play [] s = Some s"
| "play (m # ms) s = do {
     r \<leftarrow> (if fst m then pool_client_step (snd m) s else pool_worker_step (snd m) s);
     t \<leftarrow> r;
     play ms t }"

definition one_task :: "(unit, int) task" where
  "one_task = \<lparr>tk_function = (), tk_arg = 7\<rparr>"

definition hasty_client :: "(bool \<times> nat) list" where
  "hasty_client = replicate 10 (True, 4) @ map (Pair False) [0, 1, 2, 3] @ replicate 5 (True, 4)"

lemma pool_loses_task:
  "map_option (\<lambda>s. (pp_client s, pp_taken s, pp_run s)) (play hasty_client (pool_start (replicate 100 one_task) [one_task])) =
    Some (C_End, [], [])"
  by code_simp

definition eager_worker :: "(bool \<times> nat) list" where
  "eager_worker = replicate 7 (True, 4) @ replicate 3 (False, 2) @ replicate 3 (True, 4) @ map (Pair False) [0, 1, 2, 3] @ replicate 5 (True, 4)"

lemma pool_runs_task:
  "map_option (\<lambda>s. (pp_client s, pp_taken s, pp_run s)) (play eager_worker (pool_start (replicate 100 one_task) [one_task])) =
    Some (C_End, [one_task], [one_task])"
  by code_simp

end
