(* ===== verification/Timed_Runs.thy ===== *)
theory Timed_Runs
  imports Worker_Threads Forked_Processes Pipe_Processes Free_Regions
begin

section \<open>Programs that time threads and processes: d6 and d9\<close>

text \<open>
  \<open>benchmark.c\<close>, \<open>compare_performance.c\<close>, \<open>measure_thread.c\<close>, \<open>context_switch_measuring.c\<close> and \<open>measure_context_switching.c\<close> around the
  work modelled in Worker\_Threads and Pipe\_Processes: what is initialised, what is timed and what is
  computed from it; and the rest of \<open>working_template.c\<close>. The clock (the readings before and after), random numbers and operations on \<open>double\<close> are
  parameters.
\<close>

subsection \<open>Ten runs of each (benchmark.c)\<close>

definition NUM_ITERATIONS :: nat where "NUM_ITERATIONS = 100000"

record benchmark_results =
  br_thread_times :: "int list"
  br_process_times :: "int list"

text \<open>The work that is timed; its result is thrown away.\<close>

definition thread_work :: "'d double_ops \<Rightarrow> 'd \<Rightarrow> 'd option" where
  "thread_work ops one_and_half =
     for_loop 0 NUM_ITERATIONS (\<lambda>i result. Some (db_add ops result (db_mul ops (db_of_int ops (int i)) one_and_half))) (db_zero ops)"

definition process_work :: "'d double_ops \<Rightarrow> 'd \<Rightarrow> 'd option" where
  "process_work ops one_and_half =
     for_loop 0 NUM_ITERATIONS (\<lambda>i result. Some (db_add ops result (db_mul ops (db_of_int ops (int i)) one_and_half))) (db_zero ops)"

definition elapsed :: "timeval \<times> timeval \<Rightarrow> int option" where
  "elapsed timing = (case timing of (start, stop) \<Rightarrow> do {
     sec \<leftarrow> chk_long (tv_sec stop - tv_sec start);
     micro \<leftarrow> chk_long (sec * 1000000);
     usec \<leftarrow> chk_long (tv_usec stop - tv_usec start);
     chk_long (micro + usec) })"

lemma elapsed_measured:
  assumes "measured x"
  shows "elapsed x = Some (micros (snd x) - micros (fst x))"
  using measure_creation_elapsed(1) [OF assms] by (cases x) (simp add: elapsed_def measure_process_creation_def)

text \<open>A failed \<open>fork\<close> is not noticed: \<open>wait\<close> returns at once and what is timed is nothing.\<close>

definition run_benchmarks ::
  "'d double_ops \<Rightarrow> 'd \<Rightarrow> (nat \<Rightarrow> timeval \<times> timeval) \<Rightarrow> (nat \<Rightarrow> timeval \<times> timeval) \<Rightarrow> benchmark_results \<Rightarrow> benchmark_results option" where
  "run_benchmarks ops c threads processes results =
     for_loop 0 NUM_RUNS (\<lambda>run results. do {
       _ \<leftarrow> thread_work ops c;
       t \<leftarrow> elapsed (threads run);
       tts \<leftarrow> wr (br_thread_times results) run t;
       _ \<leftarrow> process_work ops c;
       p \<leftarrow> elapsed (processes run);
       pts \<leftarrow> wr (br_process_times results) run p;
       Some (results\<lparr>br_thread_times := tts, br_process_times := pts\<rparr>) }) results"

definition benchmark_main ::
  "'d double_ops \<Rightarrow> 'd \<Rightarrow> (nat \<Rightarrow> timeval \<times> timeval) \<Rightarrow> (nat \<Rightarrow> timeval \<times> timeval) \<Rightarrow> benchmark_results \<Rightarrow>
     ((int \<times> int) \<times> (int \<times> int)) option" where
  "benchmark_main ops c threads processes raw = do {
     results \<leftarrow> run_benchmarks ops c threads processes raw;
     analyze_results (br_thread_times results) (br_process_times results) }"

lemma thread_work_defined: "\<exists>r. thread_work ops c = Some r" "process_work ops c = thread_work ops c"
  unfolding thread_work_def process_work_def
  using for_loop_foldl [of NUM_ITERATIONS "\<lambda>i r. Some (db_add ops r (db_mul ops (db_of_int ops (int i)) c))"
    "\<lambda>r i. db_add ops r (db_mul ops (db_of_int ops (int i)) c)"] by blast+

definition span :: "timeval \<times> timeval \<Rightarrow> int" where
  "span x = micros (snd x) - micros (fst x)"

lemma fill_next:
  assumes "i < length xs"
  shows "(map f [0..<i] @ drop i xs)[i := f i] = map f [0..<Suc i] @ drop (Suc i) xs"
proof -
  have "drop i xs = xs ! i # drop (Suc i) xs" using assms by (simp add: Cons_nth_drop_Suc)
  then show ?thesis by (simp add: list_update_append)
qed

lemma run_benchmarks_eq:
  assumes "\<forall>i < NUM_RUNS. measured (threads i) \<and> measured (processes i)"
    and "length (br_thread_times raw) = NUM_RUNS" and "length (br_process_times raw) = NUM_RUNS"
  shows "\<exists>r. run_benchmarks ops c threads processes raw = Some r \<and>
    br_thread_times r = map (\<lambda>i. span (threads i)) [0..<NUM_RUNS] \<and> br_process_times r = map (\<lambda>i. span (processes i)) [0..<NUM_RUNS]"
proof -
  from thread_work_defined(1) [of ops c] obtain v where v: "thread_work ops c = Some v" by (elim exE)
  let ?P = "\<lambda>i r. br_thread_times r = map (\<lambda>i. span (threads i)) [0..<i] @ drop i (br_thread_times raw) \<and>
    br_process_times r = map (\<lambda>i. span (processes i)) [0..<i] @ drop i (br_process_times raw)"
  have "\<exists>r. run_benchmarks ops c threads processes raw = Some r \<and> ?P NUM_RUNS r"
    unfolding run_benchmarks_def
  proof (rule for_loop_invar [where P = ?P])
    fix i r assume i: "i < NUM_RUNS" and P: "?P i r"
    have e: "elapsed (threads i) = Some (span (threads i))" "elapsed (processes i) = Some (span (processes i))"
      using assms(1) i by (simp_all add: elapsed_measured span_def)
    have l: "i < length (br_thread_times r)" "i < length (br_process_times r)" using P i assms(2,3) by simp_all
    let ?r = "r\<lparr>br_thread_times := (br_thread_times r)[i := span (threads i)], br_process_times := (br_process_times r)[i := span (processes i)]\<rparr>"
    have "(do {
       _ \<leftarrow> thread_work ops c;
       t \<leftarrow> elapsed (threads i);
       tts \<leftarrow> wr (br_thread_times r) i t;
       _ \<leftarrow> process_work ops c;
       p \<leftarrow> elapsed (processes i);
       pts \<leftarrow> wr (br_process_times r) i p;
       Some (r\<lparr>br_thread_times := tts, br_process_times := pts\<rparr>) }) = Some ?r"
      unfolding thread_work_defined(2) v e using l by simp
    moreover have "br_thread_times ?r = map (\<lambda>i. span (threads i)) [0..<Suc i] @ drop (Suc i) (br_thread_times raw)"
    proof -
      have "br_thread_times ?r = (br_thread_times r)[i := span (threads i)]" by simp
      also have "\<dots> = (map (\<lambda>i. span (threads i)) [0..<i] @ drop i (br_thread_times raw))[i := span (threads i)]" using P by (simp only:)
      also have "\<dots> = map (\<lambda>i. span (threads i)) [0..<Suc i] @ drop (Suc i) (br_thread_times raw)"
        using i assms(2) by (intro fill_next) simp
      finally show ?thesis .
    qed
    moreover have "br_process_times ?r = map (\<lambda>i. span (processes i)) [0..<Suc i] @ drop (Suc i) (br_process_times raw)"
    proof -
      have "br_process_times ?r = (br_process_times r)[i := span (processes i)]" by simp
      also have "\<dots> = (map (\<lambda>i. span (processes i)) [0..<i] @ drop i (br_process_times raw))[i := span (processes i)]" using P by (simp only:)
      also have "\<dots> = map (\<lambda>i. span (processes i)) [0..<Suc i] @ drop (Suc i) (br_process_times raw)"
        using i assms(3) by (intro fill_next) simp
      finally show ?thesis .
    qed
    ultimately show "\<exists>r'. (do {
       _ \<leftarrow> thread_work ops c;
       t \<leftarrow> elapsed (threads i);
       tts \<leftarrow> wr (br_thread_times r) i t;
       _ \<leftarrow> process_work ops c;
       p \<leftarrow> elapsed (processes i);
       pts \<leftarrow> wr (br_process_times r) i p;
       Some (r\<lparr>br_thread_times := tts, br_process_times := pts\<rparr>) }) = Some r' \<and> ?P (Suc i) r'" by blast
  qed simp_all
  with assms(2,3) show ?thesis by auto
qed

text \<open>With a clock that does not run backwards, the program prints the shortest and the longest of the ten times of each kind.\<close>

lemma benchmark_main_result:
  assumes "\<forall>i < NUM_RUNS. measured (threads i) \<and> measured (processes i)"
    and "length (br_thread_times raw) = NUM_RUNS" and "length (br_process_times raw) = NUM_RUNS"
  shows "benchmark_main ops c threads processes raw = Some
    ((Min ((\<lambda>i. span (threads i)) ` {..<NUM_RUNS}), Max ((\<lambda>i. span (threads i)) ` {..<NUM_RUNS})),
     (Min ((\<lambda>i. span (processes i)) ` {..<NUM_RUNS}), Max ((\<lambda>i. span (processes i)) ` {..<NUM_RUNS})))"
proof -
  from run_benchmarks_eq [OF assms, of ops c] obtain r where r: "run_benchmarks ops c threads processes raw = Some r"
    "br_thread_times r = map (\<lambda>i. span (threads i)) [0..<NUM_RUNS]" "br_process_times r = map (\<lambda>i. span (processes i)) [0..<NUM_RUNS]" by blast
  then show ?thesis by (simp add: benchmark_main_def analyze_results_def min_max_eq lessThan_atLeast0)
qed

subsection \<open>The matrix product, twice (compare\_performance.c)\<close>

text \<open>\<open>mapped\<close> are the three areas, \<open>None\<close> for \<open>MAP_FAILED\<close>, which is not checked; \<open>rands\<close> the values of \<open>rand\<close>, \<open>unit\<close> the division by \<open>RAND_MAX\<close>.\<close>

definition fill_matrices :: "(int \<Rightarrow> 'd) \<Rightarrow> (nat \<Rightarrow> int) \<Rightarrow> 'd list \<Rightarrow> 'd list \<Rightarrow> ('d list \<times> 'd list) option" where
  "fill_matrices unit rands a b =
     for_loop 0 (MATRIX_SIZE * MATRIX_SIZE) (\<lambda>i (a, b). do {
       a' \<leftarrow> wr a i (unit (rands (2 * i)));
       b' \<leftarrow> wr b i (unit (rands (2 * i + 1)));
       Some (a', b') }) (a, b)"

text \<open>\<open>r\<close> is what the run can end with: the matrix \<open>c\<close> after the threads and after the processes, and the two times.\<close>

definition compare_performance ::
  "('d \<Rightarrow> 'd \<Rightarrow> 'd) \<Rightarrow> ('d \<Rightarrow> 'd \<Rightarrow> 'd) \<Rightarrow> 'd \<Rightarrow> (int \<Rightarrow> 'd) \<Rightarrow> (nat \<Rightarrow> int) \<Rightarrow> ('d list \<times> 'd list \<times> 'd list list) option \<Rightarrow>
     timeval \<times> timeval \<Rightarrow> timeval \<times> timeval \<Rightarrow> 'd list list \<times> 'd list list \<times> int \<times> int \<Rightarrow> bool" where
  "compare_performance add mul zero unit rands mapped threads processes r \<longleftrightarrow>
     (\<exists>a0 b0 c0 a b s t tt pt.
        mapped = Some (a0, b0, c0) \<and> fill_matrices unit rands a0 b0 = Some (a, b) \<and>
        works (matrix_row add mul zero a b) (start_threads c0) MATRIX_SIZE s \<and> elapsed threads = Some tt \<and>
        works (process_matrix_row add mul zero a b) (fork_workers (ws_data s)) MATRIX_SIZE t \<and> elapsed processes = Some pt \<and>
        r = (ws_data s, ws_data t, tt, pt))"

lemma fill_matrices_eq:
  assumes "length a = MATRIX_SIZE * MATRIX_SIZE" and "length b = MATRIX_SIZE * MATRIX_SIZE"
  shows "fill_matrices unit rands a b = Some (map (\<lambda>i. unit (rands (2 * i))) [0..<MATRIX_SIZE * MATRIX_SIZE],
    map (\<lambda>i. unit (rands (2 * i + 1))) [0..<MATRIX_SIZE * MATRIX_SIZE])"
proof -
  let ?n = "MATRIX_SIZE * MATRIX_SIZE"
  let ?a = "\<lambda>i. unit (rands (2 * i))" and ?b = "\<lambda>i. unit (rands (2 * i + 1))"
  let ?P = "\<lambda>i (x, y). x = map ?a [0..<i] @ drop i a \<and> y = map ?b [0..<i] @ drop i b"
  have "\<exists>r. fill_matrices unit rands a b = Some r \<and> ?P ?n r"
    unfolding fill_matrices_def
  proof (rule for_loop_invar [where P = ?P])
    fix i r assume i: "i < ?n" and P: "?P i r"
    obtain x y where r: "r = (x, y)" by (cases r)
    have "length x = ?n" "length y = ?n" using P i assms unfolding r by simp_all
    moreover have "?P (Suc i) (x[i := ?a i], y[i := ?b i])"
      using P fill_next [of i a ?a] fill_next [of i b ?b] i assms unfolding r by (simp only: case_prod_conv)
    ultimately show "\<exists>r'. (case r of (a, b) \<Rightarrow> do {
       a' \<leftarrow> wr a i (unit (rands (2 * i)));
       b' \<leftarrow> wr b i (unit (rands (2 * i + 1)));
       Some (a', b') }) = Some r' \<and> ?P (Suc i) r'"
      using i unfolding r by simp
  qed simp_all
  with assms show ?thesis by auto
qed

text \<open>Threads and processes compute the same product of the two random matrices.\<close>

lemma compare_performance_products:
  assumes run: "compare_performance add mul zero unit rands (Some (a0, b0, c0)) threads processes (c1, c2, tt, pt)"
    and len: "length a0 = MATRIX_SIZE * MATRIX_SIZE" "length b0 = MATRIX_SIZE * MATRIX_SIZE" "length c0 = MATRIX_SIZE"
      "\<forall>row \<in> set c0. length row = MATRIX_SIZE"
    and clock: "measured threads" "measured processes"
  defines "a \<equiv> map (\<lambda>i. unit (rands (2 * i))) [0..<MATRIX_SIZE * MATRIX_SIZE]"
    and "b \<equiv> map (\<lambda>i. unit (rands (2 * i + 1))) [0..<MATRIX_SIZE * MATRIX_SIZE]"
  shows "c1 = map (\<lambda>i. map (dot add mul zero a b i) [0..<MATRIX_SIZE]) [0..<MATRIX_SIZE]" and "c2 = c1"
    and "tt = span threads" and "pt = span processes" and "0 \<le> tt" and "0 \<le> pt"
proof -
  have f: "fill_matrices unit rands a0 b0 = Some (a, b)" unfolding a_def b_def by (rule fill_matrices_eq [OF len(1,2)])
  with run obtain s t where st: "works (matrix_row add mul zero a b) (start_threads c0) MATRIX_SIZE s"
    "works (process_matrix_row add mul zero a b) (fork_workers (ws_data s)) MATRIX_SIZE t" "c1 = ws_data s" "c2 = ws_data t"
    "elapsed threads = Some tt" "elapsed processes = Some pt" unfolding compare_performance_def by auto
  have l: "length a = MATRIX_SIZE * MATRIX_SIZE" "length b = MATRIX_SIZE * MATRIX_SIZE" by (simp_all add: a_def b_def)
  note p = threads_then_processes [OF l len(3,4) st(1,2)]
  show "c1 = map (\<lambda>i. map (dot add mul zero a b i) [0..<MATRIX_SIZE]) [0..<MATRIX_SIZE]" and "c2 = c1" using p st(3,4) by simp_all
  show t: "tt = span threads" "pt = span processes" using st(5,6) clock by (simp_all add: elapsed_measured span_def)
  show "0 \<le> tt" "0 \<le> pt" using clock by (simp_all add: t span_def measured_def)
qed

subsection \<open>Four threads on an array (measure\_thread.c)\<close>

definition measure_thread_main :: "('d \<Rightarrow> 'd) \<Rightarrow> (nat \<Rightarrow> 'd) \<Rightarrow> timeval \<times> timeval \<Rightarrow> 'd list \<times> int \<Rightarrow> bool" where
  "measure_thread_main times2 to_double timing r \<longleftrightarrow>
     (\<exists>s microseconds. works (double_worker times2) (measure_thread to_double) MEASURED_SIZE s \<and> elapsed timing = Some microseconds \<and>
        r = (ws_data s, microseconds))"

lemma measure_thread_main_result:
  assumes "measure_thread_main times2 to_double timing (xs, t)" and "measured timing"
  shows "xs = map (\<lambda>i. times2 (to_double i)) [0..<MEASURED_SIZE]" and "t = span timing"
  using assms measure_thread_doubles [of times2 to_double]
  by (auto simp: measure_thread_main_def elapsed_measured span_def)

subsection \<open>Nanoseconds per switch (context\_switch\_measuring.c, measure\_context\_switching.c)\<close>

text \<open>A \<open>timespec\<close> is a pair of seconds and nanoseconds; \<open>long\<close> and \<open>long long\<close> have 64 bits.\<close>

record timing_info =
  ti_start_time :: "int \<times> int"
  ti_end_time :: "int \<times> int"
  ti_total_time :: int

definition total_time :: "timing_info \<Rightarrow> timing_info option" where
  "total_time timing = do {
     sec \<leftarrow> chk_long (fst (ti_end_time timing) - fst (ti_start_time timing));
     nano \<leftarrow> chk_long (sec * 1000000000);
     rest \<leftarrow> chk_long (snd (ti_end_time timing) - snd (ti_start_time timing));
     tot \<leftarrow> chk_long (nano + rest);
     Some (timing\<lparr>ti_total_time := tot\<rparr>) }"

text \<open>\<open>r\<close>: what \<open>main\<close> prints. It prints something only when the parent's loop ends.\<close>

definition switching_main :: "nat \<Rightarrow> timing_info \<Rightarrow> int \<Rightarrow> bool" where
  "switching_main capacity timing r \<longleftrightarrow>
     (\<exists>s timing'. (interleave [parent_process capacity, child_process capacity])\<^sup>*\<^sup>* (measure_context_switch_overhead NUM_SWITCHES) s \<and>
        pp_parent_left s = 0 \<and> total_time timing = Some timing' \<and> r = c_div (ti_total_time timing') (int NUM_SWITCHES * 2))"

text \<open>The other program divides in floating point: \<open>to_float\<close> converts, \<open>ops\<close> has the division.\<close>

definition iterations_main :: "nat \<Rightarrow> 'd double_ops \<Rightarrow> (int \<Rightarrow> 'd) \<Rightarrow> timeval \<times> timeval \<Rightarrow> 'd \<Rightarrow> bool" where
  "iterations_main capacity ops to_float timing r \<longleftrightarrow>
     (\<exists>s microseconds. (interleave [parent_process capacity, child_process capacity])\<^sup>*\<^sup>* measure_iterations s \<and> pp_parent_left s = 0 \<and>
        elapsed timing = Some microseconds \<and>
        r = db_div ops (to_float microseconds) (db_of_int ops (int Pipe_Processes.NUM_ITERATIONS * 2)))"

definition nanos :: "int \<times> int \<Rightarrow> int" where
  "nanos t = fst t * 1000000000 + snd t"

lemma switching_average:
  assumes "switching_main capacity timing r" and "nanos (ti_start_time timing) \<le> nanos (ti_end_time timing)"
  shows "r = (nanos (ti_end_time timing) - nanos (ti_start_time timing)) div 2000"
proof -
  from assms(1) obtain t where "total_time timing = Some t" and r: "r = c_div (ti_total_time t) 2000"
    by (auto simp: switching_main_def NUM_SWITCHES_def)
  then have "ti_total_time t = nanos (ti_end_time timing) - nanos (ti_start_time timing)"
    by (auto simp: total_time_def chk_long_def nanos_def bind_eq_Some_conv algebra_simps split: if_splits)
  with r assms(2) show ?thesis by (simp add: c_div_nonneg)
qed

text \<open>
  What is printed need not be the time of switches: whatever the readings, the program can print their average without the child having run at
  all, because the parent can read back every byte it writes.
\<close>

lemma switching_without_child:
  assumes "0 < capacity" and "total_time timing = Some timing'"
  shows "switching_main capacity timing (c_div (ti_total_time timing') 2000)"
proof -
  have "(interleave [parent_process capacity, child_process capacity])\<^sup>*\<^sup>* (measure_context_switch_overhead NUM_SWITCHES)
      ((measure_context_switch_overhead NUM_SWITCHES)\<lparr>pp_parent_left := 0\<rparr>)"
    using run_schedule_reaches [OF parent_alone [OF assms(1), of NUM_SWITCHES NUM_SWITCHES]] by simp
  with assms(2) show ?thesis unfolding switching_main_def
    by (intro exI [of _ "(measure_context_switch_overhead NUM_SWITCHES)\<lparr>pp_parent_left := 0\<rparr>"] exI [of _ timing'])
      (simp add: NUM_SWITCHES_def)
qed

subsection \<open>The template (working\_template.c)\<close>

text \<open>
  The fields are declared as \<open>isolate_weight\<close> and the type as \<open>requirements_t\<close>, but used as \<open>isolation_weight\<close> and \<open>requirement_t\<close>; they are
  read as the same. The scores are those of \<open>decision_making.c\<close>.
\<close>

record template_requirements =
  tr_isolate_weight :: int
  tr_performance_weight :: int
  tr_communication_weight :: int
  tr_security_weight :: int

definition template_suggest :: "template_requirements \<Rightarrow> string option" where
  "template_suggest reqs = do {
     p \<leftarrow> add_score (tr_isolate_weight reqs) 9 0;
     p \<leftarrow> add_score (tr_performance_weight reqs) 5 p;
     p \<leftarrow> add_score (tr_communication_weight reqs) 3 p;
     process_score \<leftarrow> add_score (tr_security_weight reqs) 9 p;
     t \<leftarrow> add_score (tr_isolate_weight reqs) 3 0;
     t \<leftarrow> add_score (tr_performance_weight reqs) 8 t;
     t \<leftarrow> add_score (tr_communication_weight reqs) 9 t;
     thread_score \<leftarrow> add_score (tr_security_weight reqs) 4 t;
     Some (if process_score > thread_score then ''Use Processes'' else ''Use Threads'') }"

lemma template_suggest_same:
  "template_suggest \<lparr>tr_isolate_weight = i, tr_performance_weight = p, tr_communication_weight = c, tr_security_weight = s\<rparr> =
   suggest_implementation \<lparr>rq_isolation_weight = i, rq_performance_weight = p, rq_communication_weight = c, rq_security_weight = s\<rparr>"
  by (simp add: template_suggest_def suggest_implementation_def)

text \<open>
  The blocks a processor owns. \<open>thread_initialize\<close> allocates two of them; the caller has allocated the processor itself and its
  threads. \<open>live\<close> are the blocks that \<open>malloc\<close> has returned and nobody has freed.
\<close>

record thread_processor =
  tp_self :: nat
  tp_threads :: nat
  tp_shared_data :: nat
  tp_work_units :: nat

definition free_block :: "nat \<Rightarrow> nat set \<Rightarrow> nat set option" where
  "free_block p live = (if p \<in> live then Some (live - {p}) else None)"

definition thread_cleanup :: "thread_processor \<Rightarrow> nat set \<Rightarrow> nat set option" where
  "thread_cleanup tp live = do {
     live \<leftarrow> free_block (tp_shared_data tp) live;
     live \<leftarrow> free_block (tp_work_units tp) live;
     live \<leftarrow> free_block (tp_threads tp) live;
     free_block (tp_self tp) live }"

text \<open>Everything is freed once: with four different blocks nothing of the processor is left.\<close>

lemma thread_cleanup_frees:
  assumes "distinct [tp_shared_data tp, tp_work_units tp, tp_threads tp, tp_self tp]"
    and "{tp_shared_data tp, tp_work_units tp, tp_threads tp, tp_self tp} \<inter> live = {}"
  shows "thread_cleanup tp (live \<union> {tp_shared_data tp, tp_work_units tp, tp_threads tp, tp_self tp}) = Some live"
  using assms by (auto simp: thread_cleanup_def free_block_def)

text \<open>A second cleanup frees a block twice.\<close>

lemma second_cleanup_undefined: "thread_cleanup tp live = Some live' \<Longrightarrow> thread_cleanup tp live' = None"
  by (auto simp: thread_cleanup_def free_block_def bind_eq_Some_conv split: if_splits)

end
