(* ===== verification/Serial_Program.thy ===== *)
theory Serial_Program
  imports Serial_Devices
begin

section \<open>The serial demo: Serial\_Communications main.cpp\<close>

text \<open>
  \<open>main\<close> opens one device of each class, uses it and prints. The file does not compile as it stands; \<open>uart.available > 0\<close> and
  \<open>uart.rad\<close> are read as \<open>uart.available() > 0\<close> and \<open>uart.read\<close>. The three objects live until the end of \<open>main\<close>, where their
  destructors run in reverse order.
\<close>

definition B115200 :: "32 word" where "B115200 = 0x1002"
definition SPI_MODE_0 :: byte where "SPI_MODE_0 = 0"

datatype serial_line = Text string | Uart_Received "byte list" | I2c_Value int | Spi_Received "byte list"

definition string_bytes :: "string \<Rightarrow> byte list" where
  "string_bytes s = map (\<lambda>c. of_char c) s"

definition uart_part :: "'w os_calls \<Rightarrow> 'w \<Rightarrow> (uart \<times> serial_line list \<times> 'w) option" where
  "uart_part sys w = do {
     (uart, w) \<leftarrow> UART sys ''/dev/ttyAMA0'' B115200 w;
     if UART_isOpen uart then do {
       let (_, w) = UART_writeString sys uart (string_bytes ''UART demo!'' @ [10]) w;
       (ready, w) \<leftarrow> UART_available sys uart w;
       if ready > 0 then do {
         let ((bytes, buffer), w) = UART_read sys uart 255 w;
         if bytes > 0 then Some (uart, [Uart_Received (takeWhile (\<lambda>b. b \<noteq> 0) buffer)], w)
         else Some (uart, [], w) }
       else Some (uart, [], w) }
     else Some (uart, [Text ''UART not available''], w) }"

definition i2c_part :: "'w os_calls \<Rightarrow> 'w \<Rightarrow> (i2c \<times> serial_line list \<times> 'w) option" where
  "i2c_part sys w =
     (let (i2c, w) = I2C sys ''/dev/i2c-1'' 0x48 w in
      if I2C_isOpen i2c then do {
        let (_, w) = I2C_writeReg sys i2c 0x01 0xAB w;
        (v, w) \<leftarrow> I2C_readReg sys i2c 0x00 w;
        Some (i2c, if v \<ge> 0 then [I2c_Value v] else [], w) }
      else Some (i2c, [Text ''I2C not avaible''], w))"

definition spi_part :: "'w os_calls \<Rightarrow> 'w \<Rightarrow> (spi \<times> serial_line list \<times> 'w) option" where
  "spi_part sys w =
     (let (spi, w) = SPI sys ''/dev/spidev0.0'' 1000000 SPI_MODE_0 8 w in
      if SPI_isOpen spi then do {
        ((n, rx), w) \<leftarrow> SPI_transfer sys spi [0x01, 0x01, 0x03, 0x04] w;
        if n \<ge> 0 then do {
          shown \<leftarrow> for_loop 0 4 (\<lambda>i out. do { b \<leftarrow> rd rx i; Some (out @ [b]) }) [];
          Some (spi, [Spi_Received shown], w) }
        else Some (spi, [], w) }
      else Some (spi, [Text ''spi not available''], w))"

definition serial_main :: "'w os_calls \<Rightarrow> 'w \<Rightarrow> (serial_line list \<times> 'w) option" where
  "serial_main sys w = do {
     (uart, out1, w) \<leftarrow> uart_part sys w;
     (i2c, out2, w) \<leftarrow> i2c_part sys w;
     (spi, out3, w) \<leftarrow> spi_part sys w;
     Some ([Text ''Serial Communication Demo ==='', Text ''UART example''] @ out1 @ [Text ''I2C example''] @ out2 @
       [Text ''SPI example''] @ out3, UART_destroy sys uart (I2C_destroy sys i2c (SPI_destroy sys spi w))) }"

text \<open>What is asked of the terminal calls: they open and close nothing.\<close>

definition tracks_terminal :: "'w os_calls \<Rightarrow> ('w \<Rightarrow> int set) \<Rightarrow> bool" where
  "tracks_terminal sys opens \<longleftrightarrow>
     (\<forall>fd w. opens (snd (os_tcgetattr sys fd w)) = opens w) \<and> (\<forall>fd t w. opens (os_tcsetattr sys fd t w) = opens w) \<and>
     (\<forall>fd w. opens (os_tcflush sys fd w) = opens w) \<and> (\<forall>fd w. opens (snd (os_fionread sys fd w)) = opens w)"

lemma tracks_terminal_simps:
  assumes "tracks_terminal sys opens"
  shows "opens (snd (os_tcgetattr sys fd w)) = opens w" "opens (os_tcsetattr sys fd t w) = opens w"
    "opens (os_tcflush sys fd w) = opens w" "opens (snd (os_fionread sys fd w)) = opens w"
  using assms by (simp_all add: tracks_terminal_def)

lemma UART_holds:
  assumes tr: "tracks sys opens" and tt: "tracks_terminal sys opens" and res: "UART sys device baud w = Some (u, w')"
  shows "holds (ua_fd u) (opens w) (opens w')"
proof -
  obtain fd w1 where o: "os_open sys device (O_RDWR OR O_NOCTTY OR O_NDELAY) w = (fd, w1)" by fastforce
  obtain t w2 where g: "os_tcgetattr sys fd w1 = (t, w2)" by fastforce
  have "opens w2 = opens w1" using tracks_terminal_simps(1) [OF tt, of fd w1] by (simp add: g)
  then show ?thesis using res tracks_open [OF tr o] tracks_simps(1) [OF tr] tracks_terminal_simps(2,3) [OF tt]
    by (auto simp: UART_def o g holds_def Let_def split: if_splits option.splits)
qed

lemma uart_part_holds:
  assumes tr: "tracks sys opens" and tt: "tracks_terminal sys opens" and res: "uart_part sys w = Some (u, out, w')"
  shows "holds (ua_fd u) (opens w) (opens w')"
proof -
  from res obtain u1 w1 where c: "UART sys ''/dev/ttyAMA0'' B115200 w = Some (u1, w1)"
    unfolding uart_part_def by (auto simp: bind_eq_Some_conv simp del: not_None_eq)
  have h: "holds (ua_fd u1) (opens w) (opens w1)" by (rule UART_holds [OF tr tt c])
  obtain k w2 where wr: "UART_writeString sys u1 (string_bytes ''UART demo!'' @ [10]) w1 = (k, w2)" by fastforce
  have o2: "opens w2 = opens w1" using wr tracks_simps(5) [OF tr]
    by (auto simp: UART_writeString_def UART_write_def split: if_splits)
  obtain q w3 where f: "os_fionread sys (ua_fd u1) w2 = (q, w3)" by fastforce
  have o3: "opens w3 = opens w2" using tracks_terminal_simps(4) [OF tt, of "ua_fd u1" w2] by (simp add: f)
  obtain n bs w4 where r: "UART_read sys u1 255 w3 = ((n, bs), w4)" by (metis prod.exhaust)
  have o4: "opens w4 = opens w3" using r tracks_simps(3) [OF tr] by (auto simp: UART_read_def split: if_splits)
  have "u = u1 \<and> w' \<in> {w1, w3, w4}"
    using res unfolding uart_part_def c wr UART_available_def by (auto simp: f r wr split: if_splits option.splits)
  with h o2 o3 o4 show ?thesis by auto
qed

lemma i2c_part_holds:
  assumes tr: "tracks sys opens" and res: "i2c_part sys w = Some (d, out, w')"
  shows "holds (i2_fd d) (opens w) (opens w')"
proof -
  obtain d1 w1 where c: "I2C sys ''/dev/i2c-1'' 0x48 w = (d1, w1)" by fastforce
  have h: "holds (i2_fd d1) (opens w) (opens w1)" by (rule I2C_holds [OF tr c])
  obtain k w2 where wr: "I2C_writeReg sys d1 0x01 0xAB w1 = (k, w2)" by fastforce
  have o2: "opens w2 = opens w1" using wr tracks_simps(5) [OF tr]
    by (auto simp: I2C_writeReg_def I2C_writeBytes_def split: if_splits)
  obtain j w3 where wb: "I2C_writeByte sys d1 0 w2 = (j, w3)" by fastforce
  have o3: "opens w3 = opens w2" using wb tracks_simps(5) [OF tr] by (auto simp: I2C_writeByte_def split: if_splits)
  obtain v w4 where rb: "I2C_readByte sys d1 w3 = Some (v, w4)" "opens w4 = opens w3" using I2C_readByte_total [OF tr] by blast
  have "d = d1 \<and> w' \<in> {w1, w3, w4}"
    using res unfolding i2c_part_def c I2C_readReg_def by (auto simp: wr wb rb(1) Let_def split: if_splits)
  with h o2 o3 rb(2) show ?thesis by auto
qed

lemma spi_part_holds:
  assumes tr: "tracks sys opens" and res: "spi_part sys w = Some (d, out, w')"
  shows "holds (sp_fd d) (opens w) (opens w')"
proof -
  obtain d1 w1 where c: "SPI sys ''/dev/spidev0.0'' 1000000 SPI_MODE_0 8 w = (d1, w1)" by fastforce
  have h: "holds (sp_fd d1) (opens w) (opens w1)" by (rule SPI_holds(1) [OF tr c])
  have t: "opens w2 = opens w1" if "SPI_transfer sys d1 bs w1 = Some (r, w2)" for bs r w2
    using that tracks_simps(10) [OF tr] by (auto simp: SPI_transfer_def split: if_splits)
  have "d = d1 \<and> opens w' = opens w1"
    using res t unfolding spi_part_def c by (fastforce simp: bind_eq_Some_conv split: if_splits)
  with h show ?thesis by simp
qed

text \<open>Whatever devices are there and whatever fails: the demo closes every descriptor it opens, and no other.\<close>

lemma serial_main_closes:
  assumes tr: "tracks sys opens" and tt: "tracks_terminal sys opens" and res: "serial_main sys w = Some (out, w')"
  shows "opens w' = opens w"
proof -
  from res obtain u o1 w1 i o2 w2 p o3 w3 where r: "uart_part sys w = Some (u, o1, w1)" "i2c_part sys w1 = Some (i, o2, w2)"
    "spi_part sys w2 = Some (p, o3, w3)" and w': "w' = UART_destroy sys u (I2C_destroy sys i (SPI_destroy sys p w3))"
    unfolding serial_main_def by (auto simp: bind_eq_Some_conv)
  have h: "holds (ua_fd u) (opens w) (opens w1)" "holds (i2_fd i) (opens w1) (opens w2)" "holds (sp_fd p) (opens w2) (opens w3)"
    using uart_part_holds [OF tr tt r(1)] i2c_part_holds [OF tr r(2)] spi_part_holds [OF tr r(3)] by simp_all
  note cl = tracks_simps(2) [OF tr]
  have "opens (SPI_destroy sys p w3) = opens w2" using h(3) holds_closed [OF h(3)] cl by (auto simp: SPI_destroy_def holds_def)
  then have "opens (I2C_destroy sys i (SPI_destroy sys p w3)) = opens w1"
    using h(2) holds_closed [OF h(2)] cl by (auto simp: I2C_destroy_def holds_def)
  then show ?thesis using h(1) holds_closed [OF h(1)] cl by (auto simp: UART_destroy_def holds_def w')
qed

text \<open>A run: the UART answers, the two other devices cannot be opened beside it.\<close>

definition demo_terminal :: "demo_world os_calls" where
  "demo_terminal = demo_calls\<lparr>os_tcgetattr := (\<lambda>_ w. (Some \<lparr>c_iflag = 0, c_oflag = 0, c_cflag = 0, c_lflag = 0, c_vmin = 0, c_vtime = 0,
     c_ispeed = 0, c_ospeed = 0\<rparr>, w))\<rparr>"

lemma serial_main_demo:
  "map_option (\<lambda>(out, w). (out, dw_open w)) (serial_main demo_terminal demo_start) =
    Some ([Text ''Serial Communication Demo ==='', Text ''UART example'', Uart_Received [72, 105, 10, 33], Text ''I2C example'',
      Text ''I2C not avaible'', Text ''SPI example'', Text ''spi not available''], False)"
proof -
  have u: "uart_part demo_terminal demo_start = Some (\<lparr>ua_fd = 3\<rparr>, [Uart_Received [72, 105, 10, 33]], demo_start\<lparr>dw_open := True, dw_input := []\<rparr>)"
    by (simp add: uart_part_def UART_def UART_isOpen_def UART_writeString_def UART_write_def UART_available_def UART_read_def
        demo_terminal_def demo_calls_def demo_start_def string_bytes_def)
  have i: "i2c_part demo_terminal (demo_start\<lparr>dw_open := True, dw_input := []\<rparr>) =
      Some (\<lparr>i2_fd = -1, i2_address = 72\<rparr>, [Text ''I2C not avaible''], demo_start\<lparr>dw_open := True, dw_input := []\<rparr>)"
    by (simp add: i2c_part_def I2C_def I2C_isOpen_def demo_terminal_def demo_calls_def)
  have s: "spi_part demo_terminal (demo_start\<lparr>dw_open := True, dw_input := []\<rparr>) =
      Some (\<lparr>sp_fd = -1, sp_mode = SPI_MODE_0, sp_bits = 8, sp_speed = 1000000\<rparr>, [Text ''spi not available''],
        demo_start\<lparr>dw_open := True, dw_input := []\<rparr>)"
    by (simp add: spi_part_def SPI_def SPI_isOpen_def demo_terminal_def demo_calls_def)
  show ?thesis
    by (simp add: serial_main_def u i s SPI_destroy_def I2C_destroy_def UART_destroy_def) (simp add: demo_terminal_def demo_calls_def)
qed

end
