(* ===== verification/Spec2Isabelle.thy ===== *)
theory Spec2Isabelle
  imports
    Banker Safety_Algorithm Resource_Graph Wait_For_Graph Deadlock_Handling
    Page_Replacement Replacement_Optimality Scheduling Round_Robin_Turns
    Address_Translation Tlb_Translation Segmentation Memory_Hierarchy
    Partition_Allocation Header_Allocation Block_Pools
    File_Block_Lists File_Block_Runs File_Index Free_Regions File_Journal
    Directory_Table Directory_Service Open_Files Buffered_Files
    Linked_Blocks Custom_Malloc
    Thread_Queues Producer_Consumer Locking Worker_Threads Signalling
    Value_Stream Queue_Program Pipe_Processes Forked_Processes Thread_Life Process_Status Serial_Devices
    Scheduling_Programs Memory_Programs Memory_Setups Memory_Reports Malloc_Program Printed_Statistics
    Rooted_Files File_Programs Directory_Programs
    Thread_Scripts Thread_Programs Repeated_Exchange Pool_Program Timed_Runs Serial_Program
begin

text \<open>
  A verification development for the operating-system exercises of this repository. The repository is a course in small C
  programs, one directory per topic (\<open>d2\<close> to \<open>d27\<close> under \<open>src/\<close>), and one C++ file for serial devices. Most
  programs stand alone: they share subjects and idioms, not code. The development is organised the same way. Each
  theory models one program or a few programs on one topic, and what the programs have in common is stated once, in
  the prelude or as a locale that each of them interprets.

  \<^bold>\<open>How code becomes definitions.\<close> A C function is a HOL function into \<open>'a option\<close>: \<open>None\<close> is an execution without a
  defined result (access out of bounds, null or dangling pointer, signed overflow, division by zero, use of an
  uninitialised value, endless loop), an error that the code itself reports is an ordinary value. A struct is a record, an
  enum a datatype, \<open>unsigned\<close> and \<open>size_t\<close> are words that wrap around, \<open>int\<close> is \<open>int\<close> with its range checked by
  \<open>chk\<close>, an array is a list read and written by \<open>rd\<close> and \<open>wr\<close>, which check the bounds. Linked structures are lists where
  nothing else points into them, and a store of addressed headers where the pointers matter (Linked_Blocks,
  Block_Pools). Loops are \<open>for_loop\<close>, \<open>search_first\<close>, structural or well-founded recursion; a loop that can go on for
  ever is \<open>partial_function\<close>, fuel or a step relation, and that it ends is proved where it does. Threads and
  processes are step functions of one atomic step each, interleaved by an inductive reachability relation in which the
  scheduler chooses freely. Library and system calls, the clock, random numbers and operations on \<open>double\<close> are
  parameters; what is assumed of them is a named hypothesis with a concrete instance in a witness. Where the code checks the
  result of \<open>malloc\<close>, whether it succeeds is a parameter and the failure is a branch; where it does not, the allocation is
  taken to succeed, since a null pointer would leave the next access without a defined result. What memory from \<open>malloc\<close>
  holds before it is written is a parameter as well, an uninitialised local variable that is read is \<open>None\<close>. What a program prints is
  a list of the values printed where printing is what the code is for (reports, tables, demonstrations); messages beside an
  operation are left out.

  \<^bold>\<open>Shared theories.\<close>
  \<^item> OS_Prelude: the execution model above, its loop rules, counting and summing over lists, C strings.
  \<^item> Slot_Table: tables scanned for the first free entry (locale \<open>slot_table\<close>, extended by
    \<open>releasing_slot_table\<close>), interpreted by the frame table of d15, the fixed blocks of d18 and both tables of d25.
  \<^item> Safety_Core: orders in which processes can finish, and the greedy search for one (locale \<open>safety\<close>).
  \<^item> Interleaving: threads as functions that do their next step (\<open>interleave\<close>), one schedule of them (\<open>run_schedule\<close>, which
    can be evaluated), and what makes them end (\<open>ends_within\<close>): locale \<open>ranked_system\<close>, interpreted by Queue_Program,
    Producer_Consumer and Pool_Program, and its instance \<open>ranked_threads\<close> for a list of threads, interpreted by Signalling,
    Repeated_Exchange, Value_Stream, Pipe_Processes, Forked_Processes, Thread_Life and Thread_Scripts.

  \<^bold>\<open>Deadlock (d14).\<close> Banker (\<open>Banker_algorithm.c\<close>) interprets \<open>safety\<close>, and Safety_Algorithm (\<open>Safety_algorithm.c\<close>) is related to it
  step by step: their checks find a safe order exactly when there is one, agree with each other, and requests keep a system
  safe. Resource_Graph (\<open>Resource_Allocation_Graph.c\<close>) shows when its detection loop never ends. Wait_For_Graph
  (\<open>Wait-for_graph.c\<close>): depth-first search with fuel one more than the number of vertices, which is enough; it finds a
  cycle exactly when there is one. Deadlock_Handling (\<open>ResourceOrderingSystem.c\<close>, \<open>recoverFromDeadlock.c\<close>): ordered requests
  exclude circular waiting; recovery takes from the process of lowest priority.

  \<^bold>\<open>Scheduling (d2, d4, d5).\<close> Scheduling: process states, first come first served, and the preemptive schedulers through
  the locale \<open>preemptive\<close>; the loops end and serve every process, with the time bounds as invariants. Round_Robin_Turns gives the
  schedule of round robin exactly: the turn in which a process ends and the time on the clock then. Scheduling_Programs
  runs the three schedulers on the jobs of their \<open>main\<close>, the recovery of d14 on its system, and prints the bank;
  Printed_Statistics has the tables they print, the hit ratios of d15 and the process status of d3, with exact arithmetic
  as the instance of the operations on \<open>float\<close>.

  \<^bold>\<open>Paging and address translation (d15, d16, d19 to d22).\<close> Page_Replacement and Replacement_Optimality
  (\<open>Paging_Mechanism.c\<close>, \<open>page_replacement_algo.c\<close>): locale \<open>replacement\<close>; FIFO refines a queue, LRU a
  recency list, and the optimal policy is optimal among all policies. Address_Translation (\<open>Virtual_Memory.c\<close>,
  \<open>AddressTranslator.c\<close>), Tlb_Translation (\<open>Translation_mechanism.c\<close>, \<open>Page_Table_Implementation.c\<close>), Segmentation
  (\<open>memory_segmentation.c\<close>, \<open>Segmentations.c\<close>), Memory_Hierarchy (\<open>Cache_Memory_Management.c\<close>, \<open>Memory_Hierarchy.c\<close>):
  translations are correct and injective, the TLB is transparent, the cache levels stay coherent; also what the cache
  lookup really looks at. Memory_Programs has the programs that drive these components with random addresses (frames stay
  distinct, counters add up, the cost of an access), Memory_Reports their printers and the table of memory characteristics.

  \<^bold>\<open>Memory allocation (d15, d17, d18, d23, d24).\<close> Partition_Allocation (locale \<open>fit_policy\<close>), Header_Allocation (locale
  \<open>header_policy\<close>), Block_Pools, Linked_Blocks and Custom_Malloc (\<open>Custom_Memory_Allocator.c\<close>): the blocks tile the
  memory, allocation and release keep that, free blocks are merged, the fit chosen is the one promised, and pointers
  returned lie in memory that nobody else holds. Memory_Setups has the main programs of d17, d21 and d24, Malloc_Program the
  statistics, the leak tracking and the main program of d23: several of them have no defined execution, and why is proved.

  \<^bold>\<open>Files (d25 to d27).\<close> File_Block_Lists (locale \<open>block_stack\<close>), File_Block_Runs (locale \<open>run_allocator\<close>), File_Index,
  Free_Regions, File_Journal model the allocation methods; Directory_Table (locale \<open>name_table\<close>, for the array and the hash
  directory) and Directory_Service the directories, their cache, access checks and journal; Open_Files and
  Buffered_Files the descriptor tables and buffered input and output; Rooted_Files the files below a root path, with what
  \<open>snprintf\<close> and \<open>strncpy\<close> do to long names; File_Programs and Directory_Programs the error text and the main programs.

  \<^bold>\<open>Threads and processes (d3, d6 to d10, d12).\<close> Thread_Queues (locale \<open>bounded_queue\<close>) models the ring queues of
  \<open>combined.c\<close> and \<open>single_thread_pool.c\<close>, Queue_Program the whole of \<open>combined.c\<close> on top of it, with its condition
  variables; Producer_Consumer (semaphores), Locking (philosophers, race), Worker_Threads (divided work,
  locked counters), Signalling and Value_Stream (condition variables, barrier), Pipe_Processes (one pipe for two
  processes), Forked_Processes (a parent and its child with shared or private memory or a pipe), Thread_Life
  (thread-local values, cancellation, switching contexts). Pool_Program is the whole life of the pool of
  \<open>single_thread_pool.c\<close> (start, add, destroy), Repeated_Exchange the ten rounds of \<open>demo_thread_communication.c\<close>, Thread_Scripts and
  Thread_Programs the demonstrations that start threads or processes, print and wait, Timed_Runs the programs that measure
  them. Each has an invariant of all reachable states, a rank that every step lowers where the program ends, and a
  description of the states in which nobody can go on. Process_Status reads \<open>/proc\<close> (\<open>process_debugger.c\<close>).

  \<^bold>\<open>Serial devices (Serial_Communications).\<close> Serial_Devices: the three classes over a record of system calls, whose log of events shows what is
  opened and closed; a method that leaves its missing result undefined has no value. Serial_Program: \<open>main.cpp\<close>, which closes
  what it opens.

  \<^bold>\<open>Faults.\<close> Where the code does not do what it means to, the definitions follow the code and a lemma states what happens (for
  example \<open>initializeAddressTranslator_undefined\<close>, \<open>cache_looks_at_next_set\<close>, \<open>split_path_fails\<close>,
  \<open>custom_free_misses_header\<close>, \<open>second_round_stale\<close>, \<open>ping_pong_on_one_pipe\<close>). Programs that do not compile as they stand are
  modelled with the evident reading, and the place is named in the theory.

  \<^bold>\<open>Not modelled.\<close> The averages of the three schedulers and of the memory hierarchy (sums of \<open>float\<close>s, only printed), messages
  beside an operation, the calls that initialise and destroy mutexes, conditions and attributes, the inline assembly at the
  head of \<open>context_switch_measuring.c\<close> that nothing uses, and structs and enums that a file declares without any operation
  (linear and B-tree directories, the descriptor layout of \<open>memory_segmentation.c\<close>). The number formats of \<open>printf\<close> for \<open>float\<close> are not modelled either. Functions that are called but
  defined nowhere in the repository are parameters. \<open>Demand_Paging.c\<close> repeats \<open>Page_Table_Implementation.c\<close> word for word and
  \<open>page_replacement_algo.c\<close> the functions of \<open>Paging_Mechanism.c\<close>; each is modelled once.
\<close>

end
